(* ===== verification/XDK_Prelude.thy ===== *)
theory XDK_Prelude
  imports Main "HOL-Library.Word"
begin

text \<open>
  Vocabulary shared by the theories of the development: the machine types of the target
  (x86-64: \<^verbatim>\<open>unsigned\<close> is 32 bits wide, \<^verbatim>\<open>unsigned long\<close>, \<^verbatim>\<open>addr_t\<close> and \<^verbatim>\<open>size_t\<close> are 64),
  the ways in which the code stops instead of returning, sequencing of operations that may
  stop, and the generic list and word lemmas the components use.
\<close>

unbundle bit_operations_syntax

section \<open>Machine types\<close>

type_synonym u8 = "8 word"
type_synonym u16 = "16 word"
type_synonym u32 = "32 word"
type_synonym u64 = "64 word"

section \<open>Stopping instead of returning\<close>

text \<open>
  \<^verbatim>\<open>panic\<close> (\<^verbatim>\<open>lib/libcommon/utils.cc\<close>) prints a message and executes \<^verbatim>\<open>int3\<close>; a failed
  \<^verbatim>\<open>assert\<close> calls it. Both are values of the sum type here, kept apart because a build without
  \<^verbatim>\<open>CONFIG_BUILD_DEBUG\<close> has no assertions. \<open>Null_deref\<close> is an access through a null pointer and
  \<open>Out_of_range\<close> an access outside an array, which C++ leaves undefined; \<open>Div_by_zero\<close> traps, and
  \<open>Undefined\<close> is any other operation without a defined result (a shift by the width, \<^verbatim>\<open>clz\<close> of zero).
\<close>

datatype fault = Panic | Assertion | Null_deref | Out_of_range | Div_by_zero | Undefined

type_synonym 'a outcome = "fault + 'a"

definition seq :: "'a outcome \<Rightarrow> ('a \<Rightarrow> 'b outcome) \<Rightarrow> 'b outcome" where
  "seq x f = (case x of Inl e \<Rightarrow> Inl e | Inr v \<Rightarrow> f v)"

definition check :: "bool \<Rightarrow> fault \<Rightarrow> 'a outcome \<Rightarrow> 'a outcome" where
  "check c e k = (if c then k else Inl e)"

text \<open>A pointer is an optional object name, \<open>None\<close> being the null pointer.\<close>

type_synonym ptr = "nat option"

definition deref :: "ptr \<Rightarrow> (nat \<Rightarrow> 'a outcome) \<Rightarrow> 'a outcome" where
  "deref p f = (case p of None \<Rightarrow> Inl Null_deref | Some x \<Rightarrow> f x)"

section \<open>Status codes\<close>

text \<open>The codes of \<^verbatim>\<open>lib/libcommon/common/errors.h\<close>; \<^verbatim>\<open>E_INVAL\<close> is another name of \<open>E_INVALID_REQUEST\<close>.\<close>

datatype status = S_OK | E_FAIL | E_INVALID_REQUEST | E_INSUFFICIENT_QUOTA | E_NOT_FOUND
  | E_INSUFFICIENT_RESOURCES | E_NO_RESOURCES | E_INSUFFICIENT_SPACE | E_USER_ERROR | E_BUSY
  | E_TAKEN | E_LENGTH_EXCEEDED | E_BAD_OFFSET | E_BAD_PARAM | E_NO_MEM | E_NOT_SUPPORTED
  | E_OUT_OF_BOUNDS | E_NOT_INITIALIZED | E_NOT_IMPL | E_NOT_ENABLED | E_SEND_TIMEOUT
  | E_RECV_TIMEOUT | E_BAD_FILE | E_FULL | E_EMPTY | E_INVALID_ARG | E_BAD_SEMANTICS | S_EOF
  | E_ALREADY | E_ERROR_BASE

fun status_val :: "status \<Rightarrow> int" where
  "status_val S_OK = 0"
| "status_val E_FAIL = -1"
| "status_val E_INVALID_REQUEST = -2"
| "status_val E_INSUFFICIENT_QUOTA = -3"
| "status_val E_NOT_FOUND = -4"
| "status_val E_INSUFFICIENT_RESOURCES = -5"
| "status_val E_NO_RESOURCES = -6"
| "status_val E_INSUFFICIENT_SPACE = -7"
| "status_val E_USER_ERROR = -8"
| "status_val E_BUSY = -9"
| "status_val E_TAKEN = -10"
| "status_val E_LENGTH_EXCEEDED = -11"
| "status_val E_BAD_OFFSET = -12"
| "status_val E_BAD_PARAM = -13"
| "status_val E_NO_MEM = -14"
| "status_val E_NOT_SUPPORTED = -15"
| "status_val E_OUT_OF_BOUNDS = -16"
| "status_val E_NOT_INITIALIZED = -17"
| "status_val E_NOT_IMPL = -18"
| "status_val E_NOT_ENABLED = -19"
| "status_val E_SEND_TIMEOUT = -20"
| "status_val E_RECV_TIMEOUT = -21"
| "status_val E_BAD_FILE = -22"
| "status_val E_FULL = -23"
| "status_val E_EMPTY = -24"
| "status_val E_INVALID_ARG = -25"
| "status_val E_BAD_SEMANTICS = -26"
| "status_val S_EOF = -27"
| "status_val E_ALREADY = -28"
| "status_val E_ERROR_BASE = -50"

section \<open>Rewriting\<close>

lemma deref_simps [simp]:
  "deref None f = Inl Null_deref"
  "deref (Some x) f = f x"
  by (simp_all add: deref_def)

lemma seq_simps [simp]:
  "seq (Inl e) f = Inl e"
  "seq (Inr v) f = f v"
  by (simp_all add: seq_def)

lemma check_simps [simp]:
  "check True e k = k"
  "check False e k = Inl e"
  by (simp_all add: check_def)

lemma seq_eq_Inr: "seq x f = Inr y \<longleftrightarrow> (\<exists>v. x = Inr v \<and> f v = Inr y)"
  by (cases x) auto

lemma check_eq_Inr: "check c e k = Inr y \<longleftrightarrow> c \<and> k = Inr y"
  by (cases c) auto

lemma seq_eq_Inl: "seq x f = Inl e \<longleftrightarrow> x = Inl e \<or> (\<exists>v. x = Inr v \<and> f v = Inl e)"
  by (cases x) auto

lemma check_eq_Inl: "check c e k = Inl e' \<longleftrightarrow> (\<not> c \<and> e = e') \<or> (c \<and> k = Inl e')"
  by (cases c) auto

lemmas outcome_iffs = seq_eq_Inr check_eq_Inr seq_eq_Inl check_eq_Inl

lemma bit_word_exp: "n < LENGTH('a) \<Longrightarrow> bit (2 ^ m :: 'a::len word) n \<longleftrightarrow> m = n"
  by (auto simp: bit_exp_iff)

lemma unat_bound: "unat (x :: 'a::len word) < 2 ^ LENGTH('a)"
  by (rule unsigned_less)

lemma unat_exp: "k < LENGTH('a) \<Longrightarrow> unat (2 ^ k :: 'a::len word) = 2 ^ k"
  using unat_of_nat [of "2 ^ k", where ?'a = 'a] by simp

lemma unat_and_mask: "unat (x AND mask k) = unat x mod 2 ^ k" for x :: "'a::len word"
  by (simp add: unsigned_take_bit_eq take_bit_nat_def flip: take_bit_eq_mask)

lemma unat_and_not_mask: "unat (x AND NOT (mask k)) = unat x - unat x mod 2 ^ k" for x :: "'a::len word"
proof -
  have "x = (x AND NOT (mask k)) + (x AND mask k)"
    by (subst disjunctive_add) (auto simp: bit_eq_iff bit_simps)
  then have "x AND NOT (mask k) = x - (x AND mask k)" by (metis add_diff_cancel_right')
  moreover have "x AND mask k \<le> x" by (simp add: word_and_le2)
  ultimately show ?thesis by (simp add: unat_sub unat_and_mask)
qed

lemma unat_ucast_u64: "unat (ucast x :: u64) = unat x" for x :: u32
  using unat_bound [of x] by (simp add: unsigned_ucast_eq take_bit_nat_eq_self)

lemma unat_mult_small: "unat a * unat b < 2 ^ LENGTH('a) \<Longrightarrow> unat (a * b) = unat a * unat b" for a b :: "'a::len word"
  using unat_mult_lem [of a b] by blast

lemma unat_add_small: "unat a + unat b < 2 ^ LENGTH('a) \<Longrightarrow> unat (a + b) = unat a + unat b" for a b :: "'a::len word"
  using unat_add_lem [of a b] by blast

lemma sint_of_nat_small: "n < 2 ^ 31 \<Longrightarrow> sint (of_nat n :: u32) = int n"
  by (simp add: signed_of_nat signed_take_bit_int_eq_self)

lemma ceil_div:
  fixes m :: nat
  assumes "0 < m"
  shows "(n + (m - 1)) div m = n div m + (if n mod m = 0 then 0 else 1)"
proof -
  have "n + (m - 1) = (n mod m + (m - 1)) + n div m * m"
    by (metis add.assoc add.commute div_mult_mod_eq)
  then have "(n + (m - 1)) div m = ((n mod m + (m - 1)) + n div m * m) div m" by metis
  also have "\<dots> = n div m + (n mod m + (m - 1)) div m"
    using assms by (simp only: div_mult_self1)
  finally have "(n + (m - 1)) div m = n div m + (n mod m + (m - 1)) div m" .
  moreover have "(n mod m + (m - 1)) div m = (if n mod m = 0 then 0 else 1)"
    using assms mod_less_divisor [OF assms, of n] by (auto intro!: div_nat_eqI)
  ultimately show ?thesis by simp
qed

end
