(* ===== verification/XDK_AVL.thy ===== *)
theory XDK_AVL
  imports XDK_Prelude
begin

text \<open>
  The AVL tree of \<^verbatim>\<open>lib/libexo/private/__avl_tree.h\<close>. A node pointer is a value of \<open>'a avl\<close>,
  \<open>NULL\<close> being \<^verbatim>\<open>NULL\<close>; a reference parameter \<^verbatim>\<open>root\<close> or \<^verbatim>\<open>change\<close> of the code is a component of
  the result. The virtual comparison \<^verbatim>\<open>higher\<close> is the parameter \<open>hi\<close>, with \<open>hi a b\<close> for
  \<^verbatim>\<open>a->higher(b)\<close>.
\<close>

section \<open>Data\<close>

datatype cmp_t = MIN_CMP | EQ_CMP | MAX_CMP

datatype dir_t = LEFT | RIGHT

datatype 'a avl = NULL | Node (left: "'a avl") (key: 'a) (bf: int) (right: "'a avl")
  where "left NULL = NULL" | "right NULL = NULL" | "bf NULL = 0"

fun cmp_val :: "cmp_t \<Rightarrow> int" where
  "cmp_val MIN_CMP = -1"
| "cmp_val EQ_CMP = 0"
| "cmp_val MAX_CMP = 1"

fun subtree :: "'a avl \<Rightarrow> dir_t \<Rightarrow> 'a avl" where
  "subtree t LEFT = left t"
| "subtree t RIGHT = right t"

fun set_subtree :: "dir_t \<Rightarrow> 'a avl \<Rightarrow> 'a avl \<Rightarrow> 'a avl" where
  "set_subtree LEFT s (Node l k b r) = Node s k b r"
| "set_subtree RIGHT s (Node l k b r) = Node l k b s"
| "set_subtree d s NULL = NULL"

fun set_bf :: "int \<Rightarrow> 'a avl \<Rightarrow> 'a avl" where
  "set_bf b' (Node l k b r) = Node l k b' r"
| "set_bf b' NULL = NULL"

section \<open>Node operations\<close>

definition new_node :: "'a \<Rightarrow> 'a avl" where
  "new_node k = Node NULL k 0 NULL"

definition compare :: "('a \<Rightarrow> 'a \<Rightarrow> bool) \<Rightarrow> 'a \<Rightarrow> 'a \<Rightarrow> cmp_t" where
  "compare hi this n = (if hi this n then MIN_CMP else if hi n this then MAX_CMP else EQ_CMP)"

fun compare_search :: "('a \<Rightarrow> 'a \<Rightarrow> bool) \<Rightarrow> 'a avl \<Rightarrow> 'a \<Rightarrow> cmp_t \<Rightarrow> cmp_t" where
  "compare_search hi this n EQ_CMP = compare hi (key this) n"
| "compare_search hi this n MIN_CMP = (if left this = NULL then EQ_CMP else MIN_CMP)"
| "compare_search hi this n MAX_CMP = (if right this = NULL then EQ_CMP else MAX_CMP)"

fun opposite :: "dir_t \<Rightarrow> dir_t" where
  "opposite LEFT = RIGHT"
| "opposite RIGHT = LEFT"

definition LEFT_IMBALANCE :: "int \<Rightarrow> bool" where
  "LEFT_IMBALANCE b = (b < -1)"

definition RIGHT_IMBALANCE :: "int \<Rightarrow> bool" where
  "RIGHT_IMBALANCE b = (b > 1)"

definition rotate_once :: "'a avl \<Rightarrow> dir_t \<Rightarrow> ('a avl \<times> int) outcome" where
  "rotate_once root dir =
     (let otherDir = opposite dir;
          oldRoot = root;
          root1 = subtree oldRoot otherDir
      in check (root \<noteq> NULL \<and> root1 \<noteq> NULL) Null_deref
        (let heightChange = (if bf root1 = 0 then 0 else 1);
             oldRoot1 = set_subtree otherDir (subtree root1 dir) oldRoot;
             b = (if dir = LEFT then bf root1 - 1 else bf root1 + 1);
             root2 = set_subtree dir (set_bf (- b) oldRoot1) (set_bf b root1)
         in Inr (root2, heightChange)))"

definition rotate_twice :: "'a avl \<Rightarrow> dir_t \<Rightarrow> ('a avl \<times> int) outcome" where
  "rotate_twice root dir =
     (let otherDir = opposite dir;
          oldRoot = root;
          oldOther = subtree root otherDir;
          root1 = subtree oldOther dir
      in check (root \<noteq> NULL \<and> oldOther \<noteq> NULL \<and> root1 \<noteq> NULL) Null_deref
        (let oldRoot1 = set_subtree otherDir (subtree root1 dir) oldRoot;
             oldOther1 = set_subtree dir (subtree root1 otherDir) oldOther;
             root2 = set_subtree otherDir oldOther1 (set_subtree dir oldRoot1 root1);
             root3 = set_subtree LEFT (set_bf (- max (bf root2) 0) (left root2)) root2;
             root4 = set_subtree RIGHT (set_bf (- min (bf root3) 0) (right root3)) root3
         in Inr (set_bf 0 root4, 1)))"

definition rebalance :: "'a avl \<Rightarrow> ('a avl \<times> int) outcome" where
  "rebalance root =
     check (root \<noteq> NULL) Null_deref
     (if LEFT_IMBALANCE (bf root) then
        check (left root \<noteq> NULL) Null_deref
        (if bf (left root) = 1 then rotate_twice root RIGHT else rotate_once root RIGHT)
      else if RIGHT_IMBALANCE (bf root) then
        check (right root \<noteq> NULL) Null_deref
        (if bf (right root) = -1 then rotate_twice root LEFT else rotate_once root LEFT)
      else Inr (root, 0))"

text \<open>
  Insertion links the node \<open>n\<close> as it stands (with whatever subtrees and balance factor it
  carries) where the search ends. An equal key is a panic. The code after the recursive call is
  \<open>insert_finish\<close>.
\<close>

definition insert_finish :: "'a avl \<Rightarrow> int \<Rightarrow> ('a avl \<times> int) outcome" where
  "insert_finish root increase =
     (if increase \<noteq> 0 \<and> bf root \<noteq> 0
      then seq (rebalance root) (\<lambda>(t, hc). Inr (t, 1 - hc))
      else Inr (root, 0))"

fun insert_change :: "('a \<Rightarrow> 'a \<Rightarrow> bool) \<Rightarrow> 'a avl \<Rightarrow> 'a avl \<Rightarrow> ('a avl \<times> int) outcome" where
  "insert_change hi n NULL = Inr (n, 1)"
| "insert_change hi n (Node l k b r) =
     (let result = compare hi k (key n) in
      if result = EQ_CMP then Inl Panic
      else
        seq (if result = MIN_CMP then insert_change hi n l else insert_change hi n r)
          (\<lambda>(sub, change).
             let dir = (if result = MIN_CMP then LEFT else RIGHT);
                 increase = cmp_val result * change;
                 root = set_subtree dir sub (Node l k b r)
             in insert_finish (set_bf (b + increase) root) increase))"

text \<open>
  The tail of \<^verbatim>\<open>remove\<close> after the balance factor has been adjusted. The result is the new root,
  the unlinked node and the height change.
\<close>

definition remove_finish :: "'a avl \<Rightarrow> 'a avl \<Rightarrow> int \<Rightarrow> ('a avl \<times> 'a avl \<times> int) outcome" where
  "remove_finish root ret decrease =
     (if decrease \<noteq> 0 then
        if bf root \<noteq> 0 then seq (rebalance root) (\<lambda>(t, hc). Inr (t, ret, hc))
        else Inr (root, ret, 1)
      else Inr (root, ret, 0))"

fun remove_change ::
  "('a \<Rightarrow> 'a \<Rightarrow> bool) \<Rightarrow> 'a \<Rightarrow> cmp_t \<Rightarrow> 'a avl \<Rightarrow> ('a avl \<times> 'a avl \<times> int) outcome" where
  "remove_change hi n cmp NULL = Inr (NULL, NULL, 0)"
| "remove_change hi n cmp (Node l k b r) =
     (let root = Node l k b r; result = compare_search hi root n cmp in
      if result \<noteq> EQ_CMP then
        seq (if result = MIN_CMP then remove_change hi n cmp l else remove_change hi n cmp r)
          (\<lambda>(sub, ret, change).
             check (ret \<noteq> NULL) Panic
             (let dir = (if result = MIN_CMP then LEFT else RIGHT);
                  decrease = cmp_val result * change;
                  root1 = set_subtree dir sub root
              in remove_finish (set_bf (b - decrease) root1) ret decrease))
      else if l = NULL \<and> r = NULL then Inr (NULL, root, 1)
      else if l = NULL \<or> r = NULL then Inr (if r \<noteq> NULL then r else l, root, 1)
      else
        seq (remove_change hi n MIN_CMP r)
          (\<lambda>(sub, succ, decrease).
             check (succ \<noteq> NULL) Null_deref
             (remove_finish (Node l (key succ) (b - decrease) sub) (Node l k b sub) decrease)))"

fun height :: "'a avl \<Rightarrow> int" where
  "height NULL = 0"
| "height (Node l k b r) = 1 + max (height l) (height r)"

fun validate_node :: "('a \<Rightarrow> 'a \<Rightarrow> bool) \<Rightarrow> 'a avl \<Rightarrow> bool" where
  "validate_node hi NULL = True"
| "validate_node hi (Node l k b r) =
     (let diff = height r - height l in
      (l \<noteq> NULL \<longrightarrow> validate_node hi l) \<and>
      (r \<noteq> NULL \<longrightarrow> validate_node hi r) \<and>
      \<not> (LEFT_IMBALANCE diff \<or> RIGHT_IMBALANCE diff) \<and>
      diff = b \<and>
      \<not> (l \<noteq> NULL \<and> compare hi (key l) k = MIN_CMP) \<and>
      \<not> (r \<noteq> NULL \<and> compare hi (key r) k = MAX_CMP))"

section \<open>Tree operations\<close>

definition is_empty :: "'a avl \<Rightarrow> bool" where
  "is_empty t = (t = NULL)"

definition insert_node :: "('a \<Rightarrow> 'a \<Rightarrow> bool) \<Rightarrow> 'a avl \<Rightarrow> 'a avl \<Rightarrow> 'a avl outcome" where
  "insert_node hi n root = seq (insert_change hi n root) (\<lambda>(t, _). Inr t)"

definition remove_node :: "('a \<Rightarrow> 'a \<Rightarrow> bool) \<Rightarrow> 'a \<Rightarrow> 'a avl \<Rightarrow> 'a avl outcome" where
  "remove_node hi n root = seq (remove_change hi n EQ_CMP root) (\<lambda>(t, _, _). Inr t)"

definition validate :: "('a \<Rightarrow> 'a \<Rightarrow> bool) \<Rightarrow> 'a avl \<Rightarrow> bool" where
  "validate hi root = (root = NULL \<or> validate_node hi root)"

section \<open>Balance\<close>

fun balanced :: "'a avl \<Rightarrow> bool" where
  "balanced NULL = True"
| "balanced (Node l k b r) =
     (balanced l \<and> balanced r \<and> b = height r - height l \<and> -1 \<le> b \<and> b \<le> 1)"

lemma height_nonneg: "0 \<le> height t"
  by (induction t) auto

lemma height_pos: "t \<noteq> NULL \<Longrightarrow> 1 \<le> height t"
proof (cases t)
  case (Node l k b r)
  then show ?thesis using height_nonneg [of l] by auto
qed simp

lemma height_0_iff [simp]: "height t = 0 \<longleftrightarrow> t = NULL"
  using height_pos [of t] by (cases t) auto

text \<open>
  A node whose subtrees are balanced and whose recorded factor is the height difference, off by
  at most two: what \<^verbatim>\<open>rebalance\<close> is called on.
\<close>

definition near_balanced :: "'a avl \<Rightarrow> bool" where
  "near_balanced t \<longleftrightarrow> t \<noteq> NULL \<and> balanced (left t) \<and> balanced (right t) \<and>
     bf t = height (right t) - height (left t) \<and> -2 \<le> bf t \<and> bf t \<le> 2"

lemma rotate_once_right:
  "rotate_once (Node (Node a x c m) k b r) RIGHT =
     Inr (Node a x (c + 1) (Node m k (- (c + 1)) r), if c = 0 then 0 else 1)"
  by (simp add: rotate_once_def)

lemma rotate_once_left:
  "rotate_once (Node l k b (Node m x c a)) LEFT =
     Inr (Node (Node l k (- (c - 1)) m) x (c - 1) a, if c = 0 then 0 else 1)"
  by (simp add: rotate_once_def)

lemma rotate_twice_right:
  "rotate_twice (Node (Node a x c (Node m y d n)) k b r) RIGHT =
     Inr (Node (Node a x (- max d 0) m) y 0 (Node n k (- min d 0) r), 1)"
  by (simp add: rotate_twice_def)

lemma rotate_twice_left:
  "rotate_twice (Node l k b (Node (Node m y d n) x c a)) LEFT =
     Inr (Node (Node l k (- max d 0) m) y 0 (Node n x (- min d 0) a), 1)"
  by (simp add: rotate_twice_def)

lemmas rotations = rotate_once_right rotate_once_left rotate_twice_right rotate_twice_left

text \<open>
  \<^verbatim>\<open>rebalance\<close> returns on every such node, keeps the in-order sequence, and reports the height it
  took off. When the heavier child is itself unevenly heavy the height always shrinks.
\<close>

fun inorder :: "'a avl \<Rightarrow> 'a list" where
  "inorder NULL = []"
| "inorder (Node l k b r) = inorder l @ k # inorder r"

definition rebalanced :: "'a avl \<Rightarrow> 'a avl \<Rightarrow> int \<Rightarrow> bool" where
  "rebalanced t t' c \<longleftrightarrow> balanced t' \<and> t' \<noteq> NULL \<and> height t' = height t - c \<and>
     (c = 0 \<or> c = 1) \<and> inorder t' = inorder t"

lemma balanced_heavy_child:
  assumes "balanced t" "height t = h + 2" "0 \<le> h"
  obtains a x c m where "t = Node a x c m" "balanced a" "balanced m" "c = height m - height a"
    "c = 1 \<Longrightarrow> m \<noteq> NULL" "c = -1 \<Longrightarrow> a \<noteq> NULL" "-1 \<le> c" "c \<le> 1"
proof -
  obtain a x c m where t: "t = Node a x c m"
    using assms by (cases t) auto
  moreover have "c = 1 \<Longrightarrow> m \<noteq> NULL" "c = -1 \<Longrightarrow> a \<noteq> NULL"
    using assms t height_nonneg [of a] height_nonneg [of m] by auto
  ultimately show thesis using assms that by auto
qed

lemmas rebalance_simps = rebalance_def LEFT_IMBALANCE_def RIGHT_IMBALANCE_def rotations
  rebalanced_def max_def min_def

lemma rebalance_left_heavy:
  assumes "balanced l" "balanced r" "height l = height r + 2"
  shows "\<exists>t' c. rebalance (Node l k (-2) r) = Inr (t', c) \<and> rebalanced (Node l k (-2) r) t' c \<and>
    (bf l \<noteq> 0 \<longrightarrow> c = 1)"
proof -
  obtain a x c m where l: "l = Node a x c m" and bal: "balanced a" "balanced m"
    and c: "c = height m - height a" "c = 1 \<Longrightarrow> m \<noteq> NULL" "-1 \<le> c" "c \<le> 1"
    using balanced_heavy_child [OF assms(1,3) height_nonneg] by metis
  show ?thesis
  proof (cases "c = 1")
    case True
    then obtain m1 y d m2 where "m = Node m1 y d m2" using c(2) by (cases m) auto
    then show ?thesis
      using True assms c(1) bal unfolding l by (auto simp: rebalance_simps split: if_splits)
  next
    case False
    then show ?thesis
      using assms c bal unfolding l by (auto simp: rebalance_simps split: if_splits)
  qed
qed

lemma rebalance_right_heavy:
  assumes "balanced l" "balanced r" "height r = height l + 2"
  shows "\<exists>t' c. rebalance (Node l k 2 r) = Inr (t', c) \<and> rebalanced (Node l k 2 r) t' c \<and>
    (bf r \<noteq> 0 \<longrightarrow> c = 1)"
proof -
  obtain a x c m where r: "r = Node a x c m" and bal: "balanced a" "balanced m"
    and c: "c = height m - height a" "c = -1 \<Longrightarrow> a \<noteq> NULL" "-1 \<le> c" "c \<le> 1"
    using balanced_heavy_child [OF assms(2,3) height_nonneg] by metis
  show ?thesis
  proof (cases "c = -1")
    case True
    then obtain a1 y d a2 where "a = Node a1 y d a2" using c(2) by (cases a) auto
    then show ?thesis
      using True assms c(1) bal unfolding r by (auto simp: rebalance_simps split: if_splits)
  next
    case False
    then show ?thesis
      using assms c bal unfolding r by (auto simp: rebalance_simps split: if_splits)
  qed
qed

lemma rebalance_near:
  assumes "balanced l" "balanced r" "b = height r - height l" "-2 \<le> b" "b \<le> 2"
  shows "\<exists>t' c. rebalance (Node l k b r) = Inr (t', c) \<and> rebalanced (Node l k b r) t' c \<and>
    (b = -2 \<and> bf l \<noteq> 0 \<longrightarrow> c = 1) \<and> (b = 2 \<and> bf r \<noteq> 0 \<longrightarrow> c = 1) \<and>
    (-2 < b \<and> b < 2 \<longrightarrow> t' = Node l k b r \<and> c = 0)"
proof -
  consider "b = -2" | "b = 2" | "-2 < b" "b < 2" using assms by linarith
  then show ?thesis
  proof cases
    case 1
    then show ?thesis using rebalance_left_heavy [OF assms(1,2), of k] assms(3) by auto
  next
    case 2
    then show ?thesis using rebalance_right_heavy [OF assms(1,2), of k] assms(3) by auto
  next
    case 3
    then show ?thesis using assms
      by (auto simp: rebalance_def LEFT_IMBALANCE_def RIGHT_IMBALANCE_def rebalanced_def)
  qed
qed

text \<open>One level of the way back up from an insertion (growth \<open>c\<close>) or a removal (shrinking \<open>c\<close>).\<close>

definition grown :: "'a avl \<Rightarrow> 'a avl \<Rightarrow> int \<Rightarrow> bool" where
  "grown t t' c \<longleftrightarrow> balanced t' \<and> t' \<noteq> NULL \<and> height t' = height t + c \<and> (c = 0 \<or> c = 1) \<and>
     (c = 1 \<and> t \<noteq> NULL \<longrightarrow> bf t' \<noteq> 0)"

definition shrunk :: "'a avl \<Rightarrow> 'a avl \<Rightarrow> int \<Rightarrow> bool" where
  "shrunk t t' c \<longleftrightarrow> balanced t' \<and> height t' = height t - c \<and> (c = 0 \<or> c = 1)"

lemma insert_finish_left:
  assumes t: "balanced (Node l x b r)" and l': "grown l l' c"
  shows "\<exists>t' d. insert_finish (Node l' x (b - c) r) (- c) = Inr (t', d) \<and>
    grown (Node l x b r) t' d \<and> inorder t' = inorder l' @ x # inorder r"
proof -
  have near: "balanced l'" "balanced r" "b - c = height r - height l'" "-2 \<le> b - c" "b - c \<le> 2"
    using assms by (auto simp: grown_def)
  have ne: "l \<noteq> NULL" if "b = -1" using t that height_nonneg [of r] by auto
  obtain t' d where rb: "rebalance (Node l' x (b - c) r) = Inr (t', d)"
    "rebalanced (Node l' x (b - c) r) t' d" "b - c = -2 \<and> bf l' \<noteq> 0 \<longrightarrow> d = 1"
    "-2 < b - c \<and> b - c < 2 \<longrightarrow> t' = Node l' x (b - c) r \<and> d = 0"
    using rebalance_near [OF near, of x] by metis
  have "-1 \<le> b" "b \<le> 1" using t by auto
  then consider "c = 0" | "c = 1" "b = -1" | "c = 1" "b = 0" | "c = 1" "b = 1"
    using l' unfolding grown_def by linarith
  then show ?thesis
    using t l' rb ne by cases (simp_all add: insert_finish_def grown_def rebalanced_def)
qed

lemma insert_finish_right:
  assumes t: "balanced (Node l x b r)" and r': "grown r r' c"
  shows "\<exists>t' d. insert_finish (Node l x (b + c) r') c = Inr (t', d) \<and>
    grown (Node l x b r) t' d \<and> inorder t' = inorder l @ x # inorder r'"
proof -
  have near: "balanced l" "balanced r'" "b + c = height r' - height l" "-2 \<le> b + c" "b + c \<le> 2"
    using assms by (auto simp: grown_def)
  have ne: "r \<noteq> NULL" if "b = 1" using t that height_nonneg [of l] by auto
  obtain t' d where rb: "rebalance (Node l x (b + c) r') = Inr (t', d)"
    "rebalanced (Node l x (b + c) r') t' d" "b + c = 2 \<and> bf r' \<noteq> 0 \<longrightarrow> d = 1"
    "-2 < b + c \<and> b + c < 2 \<longrightarrow> t' = Node l x (b + c) r' \<and> d = 0"
    using rebalance_near [OF near, of x] by metis
  have "-1 \<le> b" "b \<le> 1" using t by auto
  then consider "c = 0" | "c = 1" "b = -1" | "c = 1" "b = 0" | "c = 1" "b = 1"
    using r' unfolding grown_def by linarith
  then show ?thesis
    using t r' rb ne by cases (simp_all add: insert_finish_def grown_def rebalanced_def)
qed

lemma remove_finish_left:
  assumes t: "balanced (Node l x b r)" and l': "shrunk l l' c"
  shows "\<exists>t' d. remove_finish (Node l' k (b + c) r) ret (- c) = Inr (t', ret, d) \<and>
    shrunk (Node l x b r) t' d \<and> inorder t' = inorder l' @ k # inorder r"
proof -
  have near: "balanced l'" "balanced r" "b + c = height r - height l'" "-2 \<le> b + c" "b + c \<le> 2"
    using assms by (auto simp: shrunk_def)
  obtain t' d where rb: "rebalance (Node l' k (b + c) r) = Inr (t', d)"
    "rebalanced (Node l' k (b + c) r) t' d"
    "-2 < b + c \<and> b + c < 2 \<longrightarrow> t' = Node l' k (b + c) r \<and> d = 0"
    using rebalance_near [OF near, of k] by metis
  have "-1 \<le> b" "b \<le> 1" using t by auto
  then consider "c = 0" | "c = 1" "b = -1" | "c = 1" "b = 0" | "c = 1" "b = 1"
    using l' unfolding shrunk_def by linarith
  then show ?thesis
    using t l' rb by cases (simp_all add: remove_finish_def shrunk_def rebalanced_def)
qed

lemma remove_finish_right:
  assumes t: "balanced (Node l x b r)" and r': "shrunk r r' c"
  shows "\<exists>t' d. remove_finish (Node l k (b - c) r') ret c = Inr (t', ret, d) \<and>
    shrunk (Node l x b r) t' d \<and> inorder t' = inorder l @ k # inorder r'"
proof -
  have near: "balanced l" "balanced r'" "b - c = height r' - height l" "-2 \<le> b - c" "b - c \<le> 2"
    using assms by (auto simp: shrunk_def)
  obtain t' d where rb: "rebalance (Node l k (b - c) r') = Inr (t', d)"
    "rebalanced (Node l k (b - c) r') t' d"
    "-2 < b - c \<and> b - c < 2 \<longrightarrow> t' = Node l k (b - c) r' \<and> d = 0"
    using rebalance_near [OF near, of k] by metis
  have "-1 \<le> b" "b \<le> 1" using t by auto
  then consider "c = 0" | "c = 1" "b = -1" | "c = 1" "b = 0" | "c = 1" "b = 1"
    using r' unfolding shrunk_def by linarith
  then show ?thesis
    using t r' rb by cases (simp_all add: remove_finish_def shrunk_def rebalanced_def)
qed

section \<open>Order\<close>

text \<open>
  What the tree relies on of \<^verbatim>\<open>higher\<close>: a strict order whose incomparable elements (those
  \<^verbatim>\<open>compare\<close> calls equal) are interchangeable.
\<close>

definition ordered :: "('a \<Rightarrow> 'a \<Rightarrow> bool) \<Rightarrow> 'a avl \<Rightarrow> bool" where
  "ordered hi t \<longleftrightarrow> sorted_wrt (\<lambda>a b. hi b a) (inorder t)"

definition avl_inv :: "('a \<Rightarrow> 'a \<Rightarrow> bool) \<Rightarrow> 'a avl \<Rightarrow> bool" where
  "avl_inv hi t \<longleftrightarrow> balanced t \<and> ordered hi t"

text \<open>A client's sequence of insertions of fresh nodes and removals by key.\<close>

datatype 'a tree_op = Insert 'a | Remove 'a

fun run_ops :: "('a \<Rightarrow> 'a \<Rightarrow> bool) \<Rightarrow> 'a tree_op list \<Rightarrow> 'a avl \<Rightarrow> 'a avl outcome" where
  "run_ops hi [] t = Inr t"
| "run_ops hi (Insert k # ops) t = seq (insert_node hi (new_node k) t) (run_ops hi ops)"
| "run_ops hi (Remove k # ops) t = seq (remove_node hi k t) (run_ops hi ops)"

lemma ordered_NULL [simp]: "ordered hi NULL"
  by (simp add: ordered_def)

locale node_order =
  fixes hi :: "'a \<Rightarrow> 'a \<Rightarrow> bool"
  assumes hi_asym: "hi a b \<Longrightarrow> \<not> hi b a"
    and hi_trans: "hi a b \<Longrightarrow> hi b c \<Longrightarrow> hi a c"
    and hi_weak: "hi a c \<Longrightarrow> hi a b \<or> hi b c"
begin

abbreviation eqv :: "'a \<Rightarrow> 'a \<Rightarrow> bool" where
  "eqv a b \<equiv> compare hi a b = EQ_CMP"

lemma ordered_Node [simp]:
  "ordered hi (Node l k b r) \<longleftrightarrow> ordered hi l \<and> ordered hi r \<and>
     (\<forall>x \<in> set (inorder l). hi k x) \<and> (\<forall>y \<in> set (inorder r). hi y k)"
  unfolding ordered_def by (auto simp: sorted_wrt_append intro: hi_trans)

lemma insert_change_spec:
  assumes "balanced t" "ordered hi t" "\<forall>x \<in> set (inorder t). \<not> eqv x k"
  shows "\<exists>t' c. insert_change hi (new_node k) t = Inr (t', c) \<and> grown t t' c \<and>
    inorder t' = filter (hi k) (inorder t) @ k # filter (\<lambda>x. hi x k) (inorder t)"
  using assms
proof (induction t)
  case NULL
  then show ?case by (simp add: new_node_def grown_def)
next
  case (Node l x b r)
  consider (lt) "hi x k" "compare hi x k = MIN_CMP" | (gt) "hi k x" "compare hi x k = MAX_CMP"
    using Node.prems by (auto simp: compare_def split: if_splits)
  then show ?case
  proof cases
    case lt
    then have r: "filter (hi k) (inorder r) = []" "filter (\<lambda>y. hi y k) (inorder r) = inorder r"
      using Node.prems by (auto simp: filter_empty_conv filter_id_conv dest: hi_asym hi_trans)
    obtain l' c where "insert_change hi (new_node k) l = Inr (l', c)" "grown l l' c"
      "inorder l' = filter (hi k) (inorder l) @ k # filter (\<lambda>x. hi x k) (inorder l)"
      using Node by auto
    then show ?thesis
      using insert_finish_left [OF Node.prems(1), of l' c] lt r hi_asym [of x k]
      by (auto simp: new_node_def)
  next
    case gt
    then have l: "filter (hi k) (inorder l) = inorder l" "filter (\<lambda>y. hi y k) (inorder l) = []"
      using Node.prems by (auto simp: filter_empty_conv filter_id_conv dest: hi_asym hi_trans)
    obtain r' c where "insert_change hi (new_node k) r = Inr (r', c)" "grown r r' c"
      "inorder r' = filter (hi k) (inorder r) @ k # filter (\<lambda>x. hi x k) (inorder r)"
      using Node by auto
    then show ?thesis
      using insert_finish_right [OF Node.prems(1), of r' c] gt l hi_asym [of k x]
      by (auto simp: new_node_def)
  qed
qed

lemma insert_change_equal:
  assumes "ordered hi t" "x \<in> set (inorder t)" "eqv x k"
  shows "insert_change hi (new_node k) t = Inl Panic"
  using assms
proof (induction t)
  case (Node l y b r)
  from Node.prems consider "x = y" | "x \<in> set (inorder l)" | "x \<in> set (inorder r)" by auto
  then show ?case
  proof cases
    case 1
    then show ?thesis using Node.prems by (simp add: new_node_def)
  next
    case 2
    then have "hi y k" using Node.prems hi_weak [of y x k]
      by (auto simp: compare_def split: if_splits)
    then show ?thesis using Node 2 by (simp add: compare_def new_node_def)
  next
    case 3
    then have "hi k y" using Node.prems hi_weak [of x y k]
      by (auto simp: compare_def split: if_splits)
    then show ?thesis using Node 3 hi_asym [of k y] by (simp add: compare_def new_node_def)
  qed
qed simp

text \<open>Taking the least node out of a non-empty tree, and taking out the node equal to \<open>k\<close>.\<close>

lemma remove_min_spec:
  assumes "balanced t" "t \<noteq> NULL"
  shows "\<exists>t' ret c. remove_change hi k MIN_CMP t = Inr (t', ret, c) \<and> ret \<noteq> NULL \<and> shrunk t t' c \<and>
    inorder t = key ret # inorder t'"
  using assms
proof (induction t)
  case (Node l x b r)
  show ?case
  proof (cases "l = NULL")
    case True
    then show ?thesis using Node.prems height_nonneg [of r] by (auto simp: shrunk_def)
  next
    case False
    then obtain l' ret c where "remove_change hi k MIN_CMP l = Inr (l', ret, c)" "ret \<noteq> NULL"
      "shrunk l l' c" "inorder l = key ret # inorder l'"
      using Node by auto
    then show ?thesis
      using False remove_finish_left [OF Node.prems(1), of l' c x ret] by auto
  qed
qed simp

lemma remove_root_spec:
  assumes "balanced (Node l x b r)" "eqv x k"
  shows "\<exists>t' ret c. remove_change hi k EQ_CMP (Node l x b r) = Inr (t', ret, c) \<and> ret \<noteq> NULL \<and>
    key ret = x \<and> shrunk (Node l x b r) t' c \<and> inorder t' = inorder l @ inorder r"
proof (cases "l = NULL \<or> r = NULL")
  case True
  then show ?thesis
    using assms height_nonneg [of l] height_nonneg [of r] by (auto simp: shrunk_def)
next
  case False
  then obtain r' ret c where "remove_change hi k MIN_CMP r = Inr (r', ret, c)" "ret \<noteq> NULL"
    "shrunk r r' c" "inorder r = key ret # inorder r'"
    using remove_min_spec assms(1) by (metis balanced.simps(2))
  then show ?thesis
    using False assms remove_finish_right [OF assms(1), of r' c "key ret" "Node l x b r'"] by auto
qed

lemma remove_change_spec:
  assumes "balanced t" "ordered hi t" "y \<in> set (inorder t)" "eqv y k"
  shows "\<exists>t' ret c. remove_change hi k EQ_CMP t = Inr (t', ret, c) \<and> ret \<noteq> NULL \<and> key ret = y \<and>
    shrunk t t' c \<and> inorder t' = filter (\<lambda>z. \<not> eqv z k) (inorder t)"
  using assms
proof (induction t)
  case (Node l x b r)
  have yk: "\<not> hi y k" "\<not> hi k y" using Node.prems by (auto simp: compare_def split: if_splits)
  from Node.prems consider "x = y" | "y \<in> set (inorder l)" | "y \<in> set (inorder r)" by auto
  then show ?case
  proof cases
    case 1
    have "hi k z" if "hi y z" for z using that yk hi_weak [of y z k] by blast
    moreover have "hi z k" if "hi z y" for z using that yk hi_weak [of z y k] by blast
    ultimately have "\<forall>z \<in> set (inorder l). \<not> eqv z k" "\<forall>z \<in> set (inorder r). \<not> eqv z k"
      using Node.prems 1 by (auto simp: compare_def)
    then have "filter (\<lambda>z. \<not> eqv z k) (inorder (Node l x b r)) = inorder l @ inorder r"
      using 1 Node.prems by (simp add: filter_id_conv)
    then show ?thesis using remove_root_spec [of l x b r k] Node.prems 1 by auto
  next
    case 2
    then have xk: "hi x k" using Node.prems yk hi_weak [of x y k] by auto
    then have r: "filter (\<lambda>z. \<not> eqv z k) (x # inorder r) = x # inorder r"
      using Node.prems by (auto simp: filter_id_conv compare_def dest: hi_trans)
    obtain l' ret c where "remove_change hi k EQ_CMP l = Inr (l', ret, c)" "ret \<noteq> NULL" "key ret = y"
      "shrunk l l' c" "inorder l' = filter (\<lambda>z. \<not> eqv z k) (inorder l)"
      using Node 2 by auto
    then show ?thesis
      using xk r remove_finish_left [OF Node.prems(1), of l' c x ret] by (auto simp: compare_def)
  next
    case 3
    then have kx: "hi k x" using Node.prems yk hi_weak [of y x k] by auto
    then have l: "filter (\<lambda>z. \<not> eqv z k) (inorder l) = inorder l" "\<not> hi x k"
      using Node.prems by (auto simp: filter_id_conv compare_def dest: hi_trans hi_asym)
    obtain r' ret c where "remove_change hi k EQ_CMP r = Inr (r', ret, c)" "ret \<noteq> NULL" "key ret = y"
      "shrunk r r' c" "inorder r' = filter (\<lambda>z. \<not> eqv z k) (inorder r)"
      using Node 3 by auto
    then show ?thesis
      using kx l remove_finish_right [OF Node.prems(1), of r' c x ret] by (auto simp: compare_def)
  qed
qed simp

lemma remove_change_absent:
  assumes "\<forall>x \<in> set (inorder t). \<not> eqv x k"
  shows "remove_change hi k EQ_CMP t = (if t = NULL then Inr (NULL, NULL, 0) else Inl Panic)"
  using assms
proof (induction t)
  case (Node l x b r)
  then show ?case by (cases "compare hi x k") (auto simp: Let_def)
qed simp

lemma ordered_validate:
  assumes "balanced t" "ordered hi t"
  shows "validate_node hi t"
  using assms
proof (induction t)
  case (Node l x b r)
  have "l \<noteq> NULL \<Longrightarrow> key l \<in> set (inorder l)" "r \<noteq> NULL \<Longrightarrow> key r \<in> set (inorder r)"
    by (cases l; simp) (cases r; simp)
  then show ?case
    using Node hi_asym
    by (auto simp: compare_def LEFT_IMBALANCE_def RIGHT_IMBALANCE_def split: if_splits)
qed simp

lemma ordered_insert:
  assumes "ordered hi t" "inorder t' = filter (hi k) (inorder t) @ k # filter (\<lambda>x. hi x k) (inorder t)"
  shows "ordered hi t'"
  using assms unfolding ordered_def
  by (auto simp: sorted_wrt_append sorted_wrt_filter intro: hi_trans)

lemma ordered_filter:
  assumes "ordered hi t" "inorder t' = filter P (inorder t)"
  shows "ordered hi t'"
  using assms unfolding ordered_def by (simp add: sorted_wrt_filter)

lemma insert_node_fresh:
  assumes "avl_inv hi t" "\<forall>x \<in> set (inorder t). \<not> eqv x k"
  shows "\<exists>t'. insert_node hi (new_node k) t = Inr t' \<and> avl_inv hi t' \<and>
    inorder t' = filter (hi k) (inorder t) @ k # filter (\<lambda>x. hi x k) (inorder t)"
proof -
  obtain t' c where "insert_change hi (new_node k) t = Inr (t', c)" "grown t t' c"
    "inorder t' = filter (hi k) (inorder t) @ k # filter (\<lambda>x. hi x k) (inorder t)"
    using insert_change_spec assms by (metis avl_inv_def)
  then show ?thesis
    using ordered_insert [of t t' k] assms by (auto simp: insert_node_def avl_inv_def grown_def)
qed

lemma insert_node_equal:
  assumes "avl_inv hi t" "x \<in> set (inorder t)" "eqv x k"
  shows "insert_node hi (new_node k) t = Inl Panic"
  using insert_change_equal [of t x k] assms by (simp add: insert_node_def avl_inv_def)

lemma remove_node_present:
  assumes "avl_inv hi t" "y \<in> set (inorder t)" "eqv y k"
  shows "\<exists>t'. remove_node hi k t = Inr t' \<and> avl_inv hi t' \<and>
    inorder t' = filter (\<lambda>z. \<not> eqv z k) (inorder t)"
proof -
  obtain t' ret c where "remove_change hi k EQ_CMP t = Inr (t', ret, c)" "shrunk t t' c"
    "inorder t' = filter (\<lambda>z. \<not> eqv z k) (inorder t)"
    using remove_change_spec assms by (metis avl_inv_def)
  then show ?thesis
    using ordered_filter [of t t'] assms by (auto simp: remove_node_def avl_inv_def shrunk_def)
qed

lemma remove_node_absent:
  assumes "\<forall>x \<in> set (inorder t). \<not> eqv x k"
  shows "remove_node hi k t = (if t = NULL then Inr NULL else Inl Panic)"
  using remove_change_absent [OF assms] by (simp add: remove_node_def)

lemma insert_node_inv:
  "avl_inv hi t \<Longrightarrow> insert_node hi (new_node k) t = Inr t' \<Longrightarrow> avl_inv hi t'"
  using insert_node_fresh [of t k] insert_node_equal [of t _ k] by fastforce

lemma remove_node_inv: "avl_inv hi t \<Longrightarrow> remove_node hi k t = Inr t' \<Longrightarrow> avl_inv hi t'"
  using remove_node_present [of t _ k] remove_node_absent [of t k]
  by (cases "\<exists>y \<in> set (inorder t). eqv y k") (force split: if_splits)+

lemma run_ops_inv: "avl_inv hi t \<Longrightarrow> run_ops hi ops t = Inr t' \<Longrightarrow> avl_inv hi t'"
proof (induction ops arbitrary: t)
  case (Cons x ops)
  then show ?case
    by (cases x) (auto simp: seq_eq_Inr dest: insert_node_inv remove_node_inv)
qed simp

lemma avl_inv_validate: "avl_inv hi t \<Longrightarrow> validate hi t"
  using ordered_validate by (simp add: validate_def avl_inv_def)

end

section \<open>Regions\<close>

text \<open>
  \<^verbatim>\<open>Virt_Region\<close> of \<^verbatim>\<open>lib/libexo/private/__range_avl_allocator.h\<close>, the node class whose header
  defines \<^verbatim>\<open>higher\<close>: regions compare by start address.
\<close>

record virt_region =
  addr :: u64
  size_of :: u64
  max_free :: u64
  used :: bool

definition default_region :: virt_region where
  "default_region = \<lparr>addr = 0, size_of = 0, max_free = 0, used = False\<rparr>"

definition is_free :: "virt_region \<Rightarrow> bool" where
  "is_free v = (used v = False)"

definition higher :: "virt_region \<Rightarrow> virt_region \<Rightarrow> bool" where
  "higher this n = (addr this > addr n)"

interpretation region: node_order higher
  by unfold_locales (auto simp: higher_def)

lemma region_equal_iff: "compare higher a b = EQ_CMP \<longleftrightarrow> addr a = addr b"
  by (auto simp: compare_def higher_def)

lemma size_height:
  "balanced t \<Longrightarrow> 2 ^ (nat (height t) div 2) \<le> Suc (length (inorder t))"
proof (induction t)
  case (Node l k b r)
  let ?l = "nat (height l)" and ?r = "nat (height r)"
  have h: "nat (height (Node l k b r)) = Suc (max ?l ?r)"
    using height_nonneg [of l] height_nonneg [of r] by (auto simp: max_def)
  have near: "?l \<le> Suc ?r" "?r \<le> Suc ?l"
    using Node.prems height_nonneg [of l] height_nonneg [of r] by auto
  have IH: "2 ^ (?l div 2) \<le> Suc (length (inorder l))" "2 ^ (?r div 2) \<le> Suc (length (inorder r))"
    using Node by auto
  show ?case
  proof (cases "max ?l ?r")
    case 0
    then show ?thesis using h by simp
  next
    case (Suc m)
    have le: "m div 2 \<le> ?l div 2" "m div 2 \<le> ?r div 2"
      using Suc near by (auto intro!: div_le_mono simp: max_def split: if_splits)
    have "(2::nat) ^ (nat (height (Node l k b r)) div 2) = 2 ^ (m div 2) + 2 ^ (m div 2)"
      using h Suc by simp
    also have "\<dots> \<le> 2 ^ (?l div 2) + 2 ^ (?r div 2)"
      using le by (intro add_mono power_increasing) auto
    also have "\<dots> \<le> Suc (length (inorder (Node l k b r)))"
      using IH by simp
    finally show ?thesis .
  qed
qed simp

section \<open>Properties\<close>

text \<open>
  C1. Inserting a freshly constructed region node into a well-formed tree panics exactly when a
  region with the same start address is already there; otherwise it returns a well-formed tree
  (every balance factor is the height difference and at most one in size, and the order is kept)
  that holds the old regions with the new one at its place.
\<close>

theorem insert_region_correct:
  assumes "avl_inv higher t"
  shows "if addr v \<in> addr ` set (inorder t)
    then insert_node higher (new_node v) t = Inl Panic
    else \<exists>t'. insert_node higher (new_node v) t = Inr t' \<and> avl_inv higher t' \<and>
      inorder t' = filter (\<lambda>w. addr w < addr v) (inorder t) @ v #
        filter (\<lambda>w. addr v < addr w) (inorder t)"
proof (cases "addr v \<in> addr ` set (inorder t)")
  case True
  then show ?thesis using region.insert_node_equal [OF assms] by (auto simp: region_equal_iff)
next
  case False
  then have "\<forall>w \<in> set (inorder t). compare higher w v \<noteq> EQ_CMP"
    by (metis image_eqI region_equal_iff)
  then show ?thesis using region.insert_node_fresh [OF assms, of v] False by (simp add: higher_def [abs_def])
qed

theorem insert_region_correct_witness:
  "insert_node higher (new_node (default_region\<lparr>addr := 8\<rparr>)) (new_node default_region) \<noteq> Inl Panic"
  using insert_region_correct [of "new_node default_region" "default_region\<lparr>addr := 8\<rparr>"]
  by (auto simp: avl_inv_def new_node_def default_region_def ordered_def)

text \<open>
  C2. Removing by key from a well-formed tree returns a well-formed tree without exactly the
  region at that address when there is one. When there is none the code panics, except on the
  empty tree, where it returns the empty tree.
\<close>

theorem remove_region_correct:
  assumes "avl_inv higher t"
  shows "if addr v \<in> addr ` set (inorder t)
    then \<exists>t'. remove_node higher v t = Inr t' \<and> avl_inv higher t' \<and>
      inorder t' = filter (\<lambda>w. addr w \<noteq> addr v) (inorder t)
    else remove_node higher v t = (if is_empty t then Inr NULL else Inl Panic)"
proof (cases "addr v \<in> addr ` set (inorder t)")
  case True
  then obtain y where "y \<in> set (inorder t)" "compare higher y v = EQ_CMP"
    by (auto simp: region_equal_iff)
  then show ?thesis using region.remove_node_present [OF assms] True by (simp add: region_equal_iff)
next
  case False
  then have "\<forall>w \<in> set (inorder t). compare higher w v \<noteq> EQ_CMP"
    by (metis image_eqI region_equal_iff)
  then show ?thesis using region.remove_node_absent False by (simp add: is_empty_def)
qed

theorem remove_region_correct_witness:
  "remove_node higher default_region (new_node default_region) = Inr NULL"
  using remove_region_correct [of "new_node default_region" default_region]
  by (auto simp: avl_inv_def new_node_def default_region_def ordered_def remove_node_def
      compare_def higher_def)

text \<open>
  C3. Whatever sequence of insertions and removals a client runs from the empty tree, if no
  operation panicked then the tree passes the code's own check \<^verbatim>\<open>validate\<close>, and its height is
  at most logarithmic in the number of regions, twice the binary logarithm plus one.
\<close>

theorem run_ops_validate:
  assumes "run_ops higher ops NULL = Inr t"
  shows "validate higher t \<and> 2 ^ (nat (height t) div 2) \<le> Suc (length (inorder t))"
proof -
  have "avl_inv higher t"
    using region.run_ops_inv [OF _ assms] by (simp add: avl_inv_def)
  then show ?thesis
    using region.avl_inv_validate size_height by (auto simp: avl_inv_def)
qed

theorem run_ops_validate_witness:
  "\<exists>t. run_ops higher [Insert default_region, Insert (default_region\<lparr>addr := 8\<rparr>),
      Remove default_region] NULL = Inr t \<and> validate higher t"
  using run_ops_validate
    [of "[Insert default_region, Insert (default_region\<lparr>addr := 8\<rparr>), Remove default_region]"
      "new_node (default_region\<lparr>addr := 8\<rparr>)"]
  by (simp add: default_region_def insert_node_def remove_node_def new_node_def compare_def
      higher_def insert_finish_def rebalance_def LEFT_IMBALANCE_def RIGHT_IMBALANCE_def)

end
