(* ===== verification/XDK_Contracts.thy ===== *)
theory XDK_Contracts
  imports XDK_Prelude
begin

text \<open>
  The contracts several components share, as locales. A component that implements one interprets
  the locale on its own operations, and the consequences proved here once hold for it.

  \<open>slot_allocator\<close>: an allocator of interchangeable objects (bitmap slots, slab blocks). \<open>alloc\<close>
  hands out an object that is not live, or refuses exactly when all are live; \<open>release\<close> takes a live
  object back.
\<close>

text \<open>
  A client that allocates (\<open>None\<close>) and gives objects back (\<open>Some i\<close>), keeping the set of the
  objects it holds; it gives back only what it holds.
\<close>

fun serve :: "('s \<Rightarrow> 'a option \<times> 's) \<Rightarrow> ('a \<Rightarrow> 's \<Rightarrow> 's) \<Rightarrow> 'a option list \<Rightarrow> 'a set \<Rightarrow> 's \<Rightarrow>
  'a set \<times> 's" where
  "serve alloc release [] held s = (held, s)"
| "serve alloc release (None # rs) held s =
     (case alloc s of (None, s') \<Rightarrow> serve alloc release rs held s' | (Some i, s') \<Rightarrow> serve alloc release rs (insert i held) s')"
| "serve alloc release (Some i # rs) held s =
     (if i \<in> held then serve alloc release rs (held - {i}) (release i s) else serve alloc release rs held s)"

locale slot_allocator =
  fixes alloc :: "'s \<Rightarrow> 'a option \<times> 's"
    and release :: "'a \<Rightarrow> 's \<Rightarrow> 's"
    and live :: "'s \<Rightarrow> 'a set"
    and pool :: "'s \<Rightarrow> 'a set"
    and ok :: "'s \<Rightarrow> bool"
  assumes pool_finite: "ok s \<Longrightarrow> finite (pool s)"
    and live_pool: "ok s \<Longrightarrow> live s \<subseteq> pool s"
    and alloc_None: "ok s \<Longrightarrow> alloc s = (None, s') \<Longrightarrow>
      live s = pool s \<and> live s' = live s \<and> ok s' \<and> pool s' = pool s"
    and alloc_Some: "ok s \<Longrightarrow> alloc s = (Some i, s') \<Longrightarrow>
      i \<in> pool s \<and> i \<notin> live s \<and> live s' = insert i (live s) \<and> ok s' \<and> pool s' = pool s"
    and release: "ok s \<Longrightarrow> i \<in> live s \<Longrightarrow>
      live (release i s) = live s - {i} \<and> ok (release i s) \<and> pool (release i s) = pool s"
begin

lemma serve_live:
  "ok s \<Longrightarrow> serve alloc release rs (live s) s = (held', s') \<Longrightarrow> ok s' \<and> held' = live s' \<and> pool s' = pool s"
proof (induction rs arbitrary: s)
  case (Cons r rs)
  show ?case
  proof (cases r)
    case None
    obtain x s1 where a: "alloc s = (x, s1)" by fastforce
    show ?thesis
    proof (cases x)
      case x: None
      then show ?thesis using Cons.IH [of s1] Cons.prems None a alloc_None [of s s1] by simp
    next
      case x: (Some i)
      then show ?thesis using Cons.IH [of s1] Cons.prems None a alloc_Some [of s i s1] by simp
    qed
  next
    case (Some i)
    then show ?thesis
      using Cons.IH [of s] Cons.IH [of "release i s"] Cons.prems release [of s i]
      by (auto split: if_splits)
  qed
qed simp

lemma alloc_exhausted:
  assumes "ok s"
  shows "fst (alloc s) = None \<longleftrightarrow> card (live s) = card (pool s)"
proof
  assume "fst (alloc s) = None"
  then show "card (live s) = card (pool s)"
    using alloc_None [OF assms] by (metis prod.collapse)
next
  assume "card (live s) = card (pool s)"
  then have "live s = pool s"
    using assms pool_finite live_pool by (simp add: card_subset_eq)
  then show "fst (alloc s) = None"
    using alloc_Some [OF assms] by (metis not_Some_eq prod.collapse)
qed

end

section \<open>Rings\<close>

text \<open>The \<open>n\<close> items of a circular array \<open>buf\<close> that start at position \<open>a\<close>.\<close>

definition ring :: "'a list \<Rightarrow> nat \<Rightarrow> nat \<Rightarrow> 'a list" where
  "ring buf a n = map (\<lambda>i. buf ! ((a + i) mod length buf)) [0..<n]"

lemma ring_0 [simp]: "ring buf a 0 = []"
  by (simp add: ring_def)

lemma length_ring [simp]: "length (ring buf a n) = n"
  by (simp add: ring_def)

lemma ring_index_distinct:
  assumes "i < j" "j < i + s"
  shows "(a + i) mod s \<noteq> (a + j) mod (s :: nat)"
proof
  assume "(a + i) mod s = (a + j) mod s"
  then have "s dvd (a + j) - (a + i)"
    using assms(1) by (subst mod_eq_dvd_iff_nat [symmetric]) auto
  then show False using assms by (auto dest: dvd_imp_le)
qed

lemma ring_push:
  assumes "n < length buf"
  shows "ring (buf[(a + n) mod length buf := x]) a (Suc n) = ring buf a n @ [x]"
proof -
  have "(a + n) mod length buf \<noteq> (a + i) mod length buf" if "i < n" for i
    using ring_index_distinct [of i n "length buf" a] assms that by (metis trans_less_add2)
  moreover have "(a + n) mod length buf < length buf"
    using assms by (cases buf) simp_all
  ultimately show ?thesis by (simp add: ring_def)
qed

lemma ring_pop: "ring buf a (Suc n) = buf ! (a mod length buf) # ring buf (Suc a) n"
  by (simp add: ring_def upt_conv_Cons del: upt_Suc flip: map_Suc_upt)

lemma ring_shift:
  assumes "a mod length buf = b mod length buf"
  shows "ring buf a n = ring buf b n"
proof -
  have "(a + i) mod length buf = (b + i) mod length buf" for i
    by (rule mod_add_cong [OF assms refl])
  then show ?thesis by (simp add: ring_def)
qed

section \<open>Queues\<close>

text \<open>
  A producer and a consumer taking turns: \<open>Some x\<close> pushes \<open>x\<close>, \<open>None\<close> pops. The result is the
  sequence of popped items and the final queue.
\<close>

fun traffic :: "('a \<Rightarrow> 's \<Rightarrow> bool \<times> 's) \<Rightarrow> ('s \<Rightarrow> 'a option \<times> 's) \<Rightarrow> 'a option list \<Rightarrow> 's \<Rightarrow>
  'a list \<times> 's" where
  "traffic push pop [] s = ([], s)"
| "traffic push pop (Some x # ops) s = traffic push pop ops (snd (push x s))"
| "traffic push pop (None # ops) s =
     (case pop s of (r, s') \<Rightarrow> case traffic push pop ops s' of (out, s'') \<Rightarrow>
       ((case r of None \<Rightarrow> out | Some x \<Rightarrow> x # out), s''))"

text \<open>The number of items never passes the capacity if every operation succeeds.\<close>

fun flow_ok :: "'a option list \<Rightarrow> nat \<Rightarrow> nat \<Rightarrow> bool" where
  "flow_ok [] n c = True"
| "flow_ok (Some x # ops) n c = (n < c \<and> flow_ok ops (Suc n) c)"
| "flow_ok (None # ops) n c = flow_ok ops (n - 1) c"

text \<open>
  A bounded first-in first-out queue. \<open>push\<close> must accept while there is room; \<open>pop\<close> returns the
  oldest item, and nothing exactly on the empty queue.
\<close>

locale bounded_queue =
  fixes push :: "'a \<Rightarrow> 's \<Rightarrow> bool \<times> 's"
    and pop :: "'s \<Rightarrow> 'a option \<times> 's"
    and items :: "'s \<Rightarrow> 'a list"
    and cap :: "'s \<Rightarrow> nat"
    and ok :: "'s \<Rightarrow> bool"
  assumes items_cap: "ok s \<Longrightarrow> length (items s) \<le> cap s"
    and push_room: "ok s \<Longrightarrow> length (items s) < cap s \<Longrightarrow> \<exists>s'. push x s = (True, s') \<and> ok s' \<and>
      items s' = items s @ [x] \<and> cap s' = cap s"
    and pop_empty: "ok s \<Longrightarrow> items s = [] \<Longrightarrow> pop s = (None, s)"
    and pop_item: "ok s \<Longrightarrow> items s = x # xs \<Longrightarrow> \<exists>s'. pop s = (Some x, s') \<and> ok s' \<and>
      items s' = xs \<and> cap s' = cap s"
begin

lemma traffic_fifo:
  assumes "ok s" "flow_ok ops (length (items s)) (cap s)" "traffic push pop ops s = (out, s')"
  shows "ok s' \<and> out @ items s' = items s @ List.map_filter id ops"
  using assms
proof (induction ops arbitrary: s out)
  case (Cons r ops)
  show ?case
  proof (cases r)
    case (Some x)
    then obtain s1 where "push x s = (True, s1)" "ok s1" "items s1 = items s @ [x]" "cap s1 = cap s"
      using push_room [of s x] Cons.prems by auto
    then show ?thesis
      using Cons.IH [of s1 out] Cons.prems Some by (simp add: map_filter_simps)
  next
    case None
    obtain out1 s2 where t: "traffic push pop ops (snd (pop s)) = (out1, s2)" by fastforce
    show ?thesis
    proof (cases "items s")
      case Nil
      then show ?thesis
        using Cons.IH [of s out1] Cons.prems None t pop_empty [of s] by (simp add: map_filter_simps)
    next
      case c: (Cons x xs)
      then obtain s1 where "pop s = (Some x, s1)" "ok s1" "items s1 = xs" "cap s1 = cap s"
        using pop_item [of s x xs] Cons.prems by auto
      then show ?thesis
        using Cons.IH [of s1 out1] Cons.prems None t c by (auto simp: map_filter_simps)
    qed
  qed
qed (simp add: map_filter_simps)

end

text \<open>
  A queue that also refuses, unchanged, when it is full; then no traffic can lose an item.
  \<open>accepted\<close> are the pushes the queue accepts.
\<close>

fun accepted :: "('a \<Rightarrow> 's \<Rightarrow> bool \<times> 's) \<Rightarrow> ('s \<Rightarrow> 'a option \<times> 's) \<Rightarrow> 'a option list \<Rightarrow> 's \<Rightarrow> 'a list" where
  "accepted push pop [] s = []"
| "accepted push pop (Some x # ops) s =
     (if fst (push x s) then [x] else []) @ accepted push pop ops (snd (push x s))"
| "accepted push pop (None # ops) s = accepted push pop ops (snd (pop s))"

locale strict_queue = bounded_queue +
  assumes push_full: "ok s \<Longrightarrow> length (items s) = cap s \<Longrightarrow> push x s = (False, s)"
begin

lemma push_accepts_iff: "ok s \<Longrightarrow> fst (push x s) \<longleftrightarrow> length (items s) < cap s"
  using push_room [of s x] push_full [of s x] items_cap [of s] by fastforce

lemma push_ok: "ok s \<Longrightarrow> ok (snd (push x s)) \<and>
    items (snd (push x s)) = items s @ (if fst (push x s) then [x] else [])"
  using push_room [of s x] push_full [of s x] items_cap [of s] by fastforce

lemma pop_ok: "ok s \<Longrightarrow> ok (snd (pop s)) \<and> cap (snd (pop s)) = cap s \<and>
    items s = (case fst (pop s) of None \<Rightarrow> [] | Some x \<Rightarrow> [x]) @ items (snd (pop s))"
  using pop_empty [of s] pop_item [of s] by (cases "items s") fastforce+

lemma traffic_lossless:
  assumes "ok s" "traffic push pop ops s = (out, s')"
  shows "ok s' \<and> out @ items s' = items s @ accepted push pop ops s \<and> length (items s') \<le> cap s'"
  using assms
proof (induction ops arbitrary: s out)
  case (Cons r ops)
  show ?case
  proof (cases r)
    case (Some x)
    then show ?thesis
      using Cons.IH [of "snd (push x s)" out] Cons.prems push_ok [of s x] by auto
  next
    case None
    obtain out1 s2 where t: "traffic push pop ops (snd (pop s)) = (out1, s2)" by fastforce
    then show ?thesis
      using Cons.IH [of "snd (pop s)" out1] Cons.prems None pop_ok [of s]
      by (cases "pop s") (auto split: option.splits)
  qed
qed (simp add: items_cap)

end

section \<open>Locks\<close>

text \<open>
  Threads that share a lock, each between two of its atomic steps. At each turn one thread makes a step; \<open>c\<close> is
  the call it makes if it is outside.
\<close>

datatype lock_call = Lock | Trylock

inductive threads :: "(lock_call \<Rightarrow> 'l \<Rightarrow> 'p \<Rightarrow> 'l \<times> 'p) \<Rightarrow> 'l \<times> 'p list \<Rightarrow> 'l \<times> 'p list \<Rightarrow> bool" for step s0 where
  start: "threads step s0 s0"
| turn: "threads step s0 (l, ps) \<Longrightarrow> i < length ps \<Longrightarrow> step c l (ps ! i) = (l', p') \<Longrightarrow> threads step s0 (l', ps[i := p'])"

text \<open>\<open>lock_protocol\<close>: an invariant of the steps in which at most one thread is inside.\<close>

locale lock_protocol =
  fixes step :: "lock_call \<Rightarrow> 'l \<Rightarrow> 'p \<Rightarrow> 'l \<times> 'p"
    and free :: 'l
    and idle :: 'p
    and inside :: "'p \<Rightarrow> bool"
    and most :: nat
    and inv :: "'l \<Rightarrow> 'p list \<Rightarrow> bool"
  assumes inv_free: "n \<le> most \<Longrightarrow> inv free (replicate n idle)"
    and inv_step: "inv l ps \<Longrightarrow> length ps \<le> most \<Longrightarrow> i < length ps \<Longrightarrow> step c l (ps ! i) = (l', p') \<Longrightarrow> inv l' (ps[i := p'])"
    and inv_exclusive: "inv l ps \<Longrightarrow> i < length ps \<Longrightarrow> j < length ps \<Longrightarrow> inside (ps ! i) \<Longrightarrow> inside (ps ! j) \<Longrightarrow> i = j"
begin

lemma reachable_inv:
  assumes "threads step (free, replicate n idle) s" "n \<le> most"
  shows "inv (fst s) (snd s) \<and> length (snd s) = n"
  using assms
proof (induction rule: threads.induct)
  case start
  then show ?case by (simp add: inv_free)
next
  case (turn l ps i c l' p')
  then show ?case using inv_step [of l ps i c l' p'] by simp
qed

lemma exclusion:
  assumes "threads step (free, replicate n idle) (l, ps)" "n \<le> most" "i < n" "j < n" "inside (ps ! i)" "inside (ps ! j)"
  shows "i = j"
  using reachable_inv [OF assms(1,2)] inv_exclusive assms(3-6) by auto

end

end
