(* ===== verification/XDK_Utils.thy ===== *)
theory XDK_Utils
  imports XDK_Contracts
begin

text \<open>
  Address arithmetic and CPU-mask helpers of \<^verbatim>\<open>lib/libcommon\<close>: \<^verbatim>\<open>common/utils.h\<close>, \<^verbatim>\<open>utils.cc\<close> and
  \<^verbatim>\<open>common/bits.h\<close>. Addresses are 64-bit words; the lemmas state on which addresses the rounding
  does not wrap.
\<close>

section \<open>Alignment\<close>

definition PAGE_SIZE :: u64 where "PAGE_SIZE = 4096"

definition HUGE_PAGE_SIZE :: u64 where "HUGE_PAGE_SIZE = 2 * 1024 * 1024"

definition align_pointer :: "u64 \<Rightarrow> u32 \<Rightarrow> u64" where
  "align_pointer p alignment = (p AND NOT (ucast alignment - 1)) + ucast alignment"

definition check_aligned :: "u64 \<Rightarrow> u32 \<Rightarrow> bool" where
  "check_aligned p alignment = (p AND (ucast alignment - 1) = 0)"

definition is_power_of_two :: "u64 \<Rightarrow> bool" where
  "is_power_of_two x = (x \<noteq> 0 \<and> x AND (x - 1) = 0)"

definition round_up_superpage :: "u64 \<Rightarrow> u64" where
  "round_up_superpage a =
     (if a AND 0x3fffff = 0 then a else (a AND NOT 0x3fffff) + push_bit 20 4)"

definition round_up_page :: "u64 \<Rightarrow> u64" where
  "round_up_page a = (if a AND 0xfff = 0 then a else (a AND NOT 0xfff) + push_bit 10 4)"

text \<open>\<^verbatim>\<open>__builtin_clzl\<close>: the number of leading zero bits; it is undefined on zero.\<close>

definition clzl :: "u64 \<Rightarrow> nat outcome" where
  "clzl a = (case find (\<lambda>i. bit a (63 - i)) [0..<64] of None \<Rightarrow> Inl Undefined | Some i \<Rightarrow> Inr i)"

definition round_up_log2 :: "u64 \<Rightarrow> u64 outcome" where
  "round_up_log2 a = seq (clzl a) (\<lambda>clz.
     let fsmsb = 64 - clz;
         fsmsb = (if push_bit (fsmsb - 1) 1 = a then fsmsb - 1 else fsmsb)
     in check (fsmsb < 64) Undefined (Inr (push_bit fsmsb 1)))"

text \<open>
  \<^verbatim>\<open>leftmost_set_bit\<close> is overloaded on the width of its argument; \<^verbatim>\<open>__builtin_clz\<close> always counts in
  32 bits, after the implicit conversion of the argument.
\<close>

definition clz :: "u32 \<Rightarrow> u32 outcome" where
  "clz a = (case find (\<lambda>i. bit a (31 - i)) [0..<32] of None \<Rightarrow> Inl Undefined
     | Some i \<Rightarrow> Inr (of_nat i))"

definition leftmost_set_bit8 :: "u8 \<Rightarrow> u32 outcome" where
  "leftmost_set_bit8 value = seq (clz (ucast value)) (\<lambda>c. Inr (8 - c))"

definition leftmost_set_bit16 :: "u16 \<Rightarrow> u32 outcome" where
  "leftmost_set_bit16 value = seq (clz (ucast value)) (\<lambda>c. Inr (16 - c))"

definition leftmost_set_bit32 :: "u32 \<Rightarrow> u32 outcome" where
  "leftmost_set_bit32 value = seq (clz value) (\<lambda>c. Inr (31 - c))"

definition leftmost_set_bit64 :: "u64 \<Rightarrow> u32 outcome" where
  "leftmost_set_bit64 value = seq (clz (ucast value)) (\<lambda>c. Inr (63 - c))"

section \<open>Touching pages\<close>

text \<open>The addresses read by the loop, the loop being endless when the addition wraps.\<close>

partial_function (option) touch_loop :: "u64 \<Rightarrow> u64 \<Rightarrow> u64 \<Rightarrow> u64 list option" where
  "touch_loop stride end_addr p =
     (if p < end_addr
      then Option.bind (touch_loop stride end_addr (p + stride)) (\<lambda>ps. Some (p # ps))
      else Some [])"

definition touch_huge_pages :: "u64 \<Rightarrow> u64 \<Rightarrow> u64 list option" where
  "touch_huge_pages addr sz = touch_loop HUGE_PAGE_SIZE (addr + sz) addr"

definition touch_pages :: "u64 \<Rightarrow> u64 \<Rightarrow> u64 list option" where
  "touch_pages addr sz = touch_loop PAGE_SIZE (addr + sz) addr"

section \<open>CPU masks\<close>

partial_function (option) get_cpu_id_loop :: "u64 \<Rightarrow> u32 \<Rightarrow> u32 \<Rightarrow> u32 option" where
  "get_cpu_id_loop cpumask curr_pos remaining =
     (let remaining1 = (if cpumask AND 1 \<noteq> 0 then remaining - 1 else remaining) in
      if cpumask AND 1 \<noteq> 0 \<and> remaining1 = 0 then Some curr_pos
      else if remaining1 \<noteq> 0
      then get_cpu_id_loop (drop_bit 1 cpumask) (curr_pos + 1) remaining1
      else Some (curr_pos + 1))"

definition get_cpu_id :: "u64 \<Rightarrow> u32 \<Rightarrow> u32 option" where
  "get_cpu_id cpumask n = get_cpu_id_loop cpumask 0 n"

text \<open>
  \<^verbatim>\<open>get_actual_affinities\<close> with the node's CPU mask \<open>node_mask\<close> (what \<^verbatim>\<open>numa_node_to_cpus\<close> stored) as
  a list of bits and the logical affinities as the bits of \<^verbatim>\<open>Cpu_bitset\<close>. \<open>next_logical\<close> is the first
  inner loop, \<open>find_actual\<close> the second; \<open>cnt\<close>, \<open>l\<close>, \<open>a\<close>, \<open>c\<close> are the variables of the code.
\<close>

function next_logical :: "bool list \<Rightarrow> nat \<Rightarrow> nat" where
  "next_logical la l = (if l < length la \<and> \<not> la ! l then next_logical la (Suc l) else l)"
  by auto
termination by (relation "measure (\<lambda>(la, l). length la - l)") auto

function find_actual :: "bool list \<Rightarrow> nat \<Rightarrow> nat \<Rightarrow> nat \<Rightarrow> nat option \<times> nat \<times> nat" where
  "find_actual node_mask l a c =
     (if a < length node_mask then
        if node_mask ! a then
          if l = c then (Some a, Suc a, Suc c) else find_actual node_mask l (Suc a) (Suc c)
        else find_actual node_mask l (Suc a) c
      else (None, a, c))"
  by auto
termination by (relation "measure (\<lambda>(nm, l, a, c). length nm - a)") auto

function affinities_loop ::
  "bool list \<Rightarrow> bool list \<Rightarrow> nat \<Rightarrow> nat \<Rightarrow> nat \<Rightarrow> nat \<Rightarrow> nat \<Rightarrow> nat list \<Rightarrow> nat list" where
  "affinities_loop la node_mask la_bitcnt cnt l a c acc =
     (if cnt < la_bitcnt then
        let l1 = next_logical la l in
        if l1 \<ge> length la then acc
        else case find_actual node_mask l1 a c of
            (Some b, a1, c1) \<Rightarrow>
              if a1 \<ge> length node_mask then acc @ [b]
              else affinities_loop la node_mask la_bitcnt (Suc cnt) (Suc l1) a1 c1 (acc @ [b])
          | (None, a1, c1) \<Rightarrow> acc
      else acc)"
  by auto
termination by (relation "measure (\<lambda>(la, nm, n, cnt, l, a, c, acc). n - cnt)") auto

definition get_actual_affinities :: "bool list \<Rightarrow> bool list \<Rightarrow> nat set outcome" where
  "get_actual_affinities la node_mask =
     (let bitcnt = length (filter id node_mask); la_bitcnt = length (filter id la) in
      check (bitcnt \<ge> la_bitcnt) Assertion
      (Inr (set (affinities_loop la node_mask la_bitcnt 0 0 0 0 []))))"

section \<open>Rounding to powers of two\<close>

lemma bit_top:
  fixes x :: "'a::len word"
  assumes "2 ^ k \<le> unat x" "unat x < 2 ^ Suc k"
  shows "bit x k"
proof -
  have "unat x div 2 ^ k = 1" using assms by (simp add: div_nat_eqI)
  then have "bit (unat x) k" by (simp add: bit_iff_odd)
  then show ?thesis by (simp add: bit_unsigned_iff)
qed

lemma power_interval:
  assumes "0 < (n :: nat)"
  obtains k where "2 ^ k \<le> n" "n < 2 ^ Suc k"
  using assms
proof (induction n arbitrary: thesis rule: less_induct)
  case (less n)
  show ?case
  proof (cases "n = 1")
    case True
    then show ?thesis using less.prems(1) [of 0] by simp
  next
    case False
    then obtain k where "2 ^ k \<le> n div 2" "n div 2 < 2 ^ Suc k"
      using less.IH [of "n div 2"] less.prems(2) by auto
    then show ?thesis using less.prems(1) [of "Suc k"] by auto
  qed
qed

text \<open>The least multiple of \<open>m\<close> that is at least \<open>n\<close>.\<close>

definition least_multiple :: "nat \<Rightarrow> nat \<Rightarrow> nat" where
  "least_multiple m n = (if n mod m = 0 then n else n - n mod m + m)"

lemma least_multiple:
  assumes "0 < m"
  shows "m dvd least_multiple m n" "n \<le> least_multiple m n" "least_multiple m n < n + m"
    "m dvd k \<Longrightarrow> n \<le> k \<Longrightarrow> least_multiple m n \<le> k"
proof -
  show d: "m dvd least_multiple m n"
    unfolding least_multiple_def by (metis dvd_add dvd_minus_mod dvd_refl mod_eq_0_iff_dvd)
  show n: "n \<le> least_multiple m n"
    using assms mod_less_divisor [OF assms, of n] by (auto simp: least_multiple_def)
  show up: "least_multiple m n < n + m"
    using assms by (auto simp: least_multiple_def mod_le_divisor)
  assume k: "m dvd k" "n \<le> k"
  show "least_multiple m n \<le> k"
  proof (rule ccontr)
    assume "\<not> ?thesis"
    then have "m dvd least_multiple m n - k" "0 < least_multiple m n - k" "least_multiple m n - k < m"
      using d k up by (auto simp: dvd_diff_nat)
    then show False using dvd_imp_le by fastforce
  qed
qed

lemma take_bit_exp_self: "take_bit k (2 ^ k :: 'a::len word) = 0"
  by (rule bit_eqI) (simp add: bit_take_bit_iff bit_exp_iff)

lemma is_power_of_two_iff: "is_power_of_two x \<longleftrightarrow> (\<exists>k < 64. x = 2 ^ k)"
proof
  assume p: "is_power_of_two x"
  then have "0 < unat x" by (simp add: is_power_of_two_def unat_gt_0)
  then obtain k where k: "2 ^ k \<le> unat x" "unat x < 2 ^ Suc k" by (rule power_interval)
  have k64: "k < 64"
  proof (rule ccontr)
    assume "\<not> ?thesis"
    then have "(2 :: nat) ^ 64 \<le> 2 ^ k" by (intro power_increasing) auto
    then show False using k(1) unsigned_less [of x, where ?'a = nat] by simp
  qed
  have "unat x = 2 ^ k"
  proof (rule ccontr)
    assume "unat x \<noteq> 2 ^ k"
    then have "2 ^ k \<le> unat (x - 1)" "unat (x - 1) < 2 ^ Suc k"
      using k by (auto simp: unat_sub_if')
    then have "bit (x AND (x - 1)) k" using bit_top [OF k] bit_top by (simp add: bit_and_iff)
    then show False using p by (simp add: is_power_of_two_def)
  qed
  then have "x = 2 ^ k" using k64 by (simp add: word_unat_eq_iff unat_exp)
  then show "\<exists>k < 64. x = 2 ^ k" using k64 by blast
next
  assume "\<exists>k < 64. x = 2 ^ k"
  then obtain k where k: "k < 64" "x = 2 ^ k" by blast
  then have "x AND (x - 1) = take_bit k (2 ^ k)"
    by (simp add: take_bit_eq_mask mask_eq_exp_minus_1)
  then show "is_power_of_two x" using k by (simp add: is_power_of_two_def take_bit_exp_self)
qed

lemma align_mask:
  fixes alignment :: u32
  assumes "alignment = 2 ^ k" "k < 32"
  shows "(ucast alignment - 1 :: u64) = mask k" "unat (ucast alignment :: u64) = 2 ^ k"
proof -
  have "unat alignment = 2 ^ k" using unat_exp [of k, where ?'a = 32] assms by simp
  then have u: "unat (ucast alignment :: u64) = 2 ^ k"
    using assms(2) by (simp add: unsigned_ucast_eq take_bit_nat_eq_self power_strict_increasing)
  then show "unat (ucast alignment :: u64) = 2 ^ k" .
  have "(ucast alignment :: u64) = 2 ^ k"
    using u assms(2) unat_exp [of k, where ?'a = 64] by (simp only: word_unat_eq_iff) simp
  then show "(ucast alignment - 1 :: u64) = mask k" by (simp add: mask_eq_exp_minus_1)
qed

lemma check_aligned_iff:
  assumes "alignment = 2 ^ k" "k < 32"
  shows "check_aligned p alignment \<longleftrightarrow> unat p mod 2 ^ k = 0"
  unfolding check_aligned_def align_mask(1) [OF assms]
  by (simp add: word_unat_eq_iff unat_and_mask)

lemma align_pointer_unat:
  assumes "alignment = 2 ^ k" "k < 32" "unat p - unat p mod 2 ^ k + 2 ^ k < 2 ^ 64"
  shows "unat (align_pointer p alignment) = unat p - unat p mod 2 ^ k + 2 ^ k"
  unfolding align_pointer_def align_mask(1) [OF assms(1,2)] unat_word_ariths(1) unat_and_not_mask
    align_mask(2) [OF assms(1,2)]
  using assms(3) by simp

lemma align_up_unat:
  assumes "alignment = 2 ^ k" "k < 32" "least_multiple (2 ^ k) (unat a) < 2 ^ 64"
  shows "unat (if check_aligned a alignment then a else align_pointer a alignment) =
    least_multiple (2 ^ k) (unat a)"
  using align_pointer_unat [OF assms(1,2), of a] check_aligned_iff [OF assms(1,2), of a] assms(3)
  by (cases "unat a mod 2 ^ k = 0") (simp_all add: least_multiple_def)

lemma round_up_mask:
  fixes a :: u64
  assumes "least_multiple (2 ^ k) (unat a) < 2 ^ 64" "k < 64"
  shows "unat (if a AND mask k = 0 then a else (a AND NOT (mask k)) + 2 ^ k) =
    least_multiple (2 ^ k) (unat a)"
proof -
  have "a AND mask k = 0 \<longleftrightarrow> unat a mod 2 ^ k = 0" by (simp add: word_unat_eq_iff unat_and_mask)
  then show ?thesis
    using assms
    by (cases "unat a mod 2 ^ k = 0")
      (simp_all add: least_multiple_def unat_word_ariths(1) unat_and_not_mask unat_exp)
qed

lemma page_masks:
  "(mask 12 :: u64) = 0xfff" "(mask 22 :: u64) = 0x3fffff"
  "push_bit 10 4 = (2 ^ 12 :: u64)" "push_bit 20 4 = (2 ^ 22 :: u64)"
  by (simp_all add: mask_eq_exp_minus_1 push_bit_eq_mult)

lemma round_up_page_unat:
  "least_multiple 4096 (unat a) < 2 ^ 64 \<Longrightarrow> unat (round_up_page a) = least_multiple 4096 (unat a)"
  using round_up_mask [of 12 a] unfolding round_up_page_def page_masks by simp

lemma round_up_superpage_unat:
  "least_multiple 0x400000 (unat a) < 2 ^ 64 \<Longrightarrow>
    unat (round_up_superpage a) = least_multiple 0x400000 (unat a)"
  using round_up_mask [of 22 a] unfolding round_up_superpage_def page_masks by simp

lemma not_bit_above:
  fixes a :: "'a::len word"
  assumes "unat a < 2 ^ Suc k" "k < j"
  shows "\<not> bit a j"
proof -
  have "unat a < 2 ^ j"
    using assms by (meson Suc_leI less_le_trans one_le_numeral power_increasing)
  then have "\<not> bit (unat a) j" by (simp add: bit_iff_odd)
  then show ?thesis by (auto simp: bit_unsigned_iff dest: bit_imp_le_length)
qed

lemma clzl_eq:
  assumes "2 ^ k \<le> unat a" "unat a < 2 ^ Suc k"
  shows "clzl a = Inr (63 - k)" "k < 64"
proof -
  show k: "k < 64"
  proof (rule ccontr)
    assume "\<not> ?thesis"
    then have "(2 :: nat) ^ 64 \<le> 2 ^ k" by (intro power_increasing) auto
    then show False using assms(1) unsigned_less [of a, where ?'a = nat] by simp
  qed
  have "find (\<lambda>i. bit a (63 - i)) [0..<64] = Some (63 - k)"
    using k bit_top [OF assms] not_bit_above [OF assms(2)]
    by (subst find_Some_iff) (auto intro!: exI [of _ "63 - k"])
  then show "clzl a = Inr (63 - k)" by (simp add: clzl_def)
qed

lemma round_up_log2_spec:
  assumes "2 ^ k \<le> unat a" "unat a < 2 ^ Suc k"
  shows "round_up_log2 a = (if unat a = 2 ^ k then Inr (2 ^ k)
    else if k < 63 then Inr (2 ^ Suc k) else Inl Undefined)"
proof -
  note c = clzl_eq [OF assms]
  have "push_bit k 1 = a \<longleftrightarrow> unat a = 2 ^ k"
    using c(2) by (auto simp: word_unat_eq_iff push_bit_eq_mult unat_exp)
  then show ?thesis
    using c by (auto simp: round_up_log2_def Let_def check_def push_bit_eq_mult)
qed

lemma clz_eq:
  assumes "2 ^ k \<le> unat a" "unat a < 2 ^ Suc k"
  shows "clz a = Inr (31 - of_nat k)"
proof -
  have k: "k < 32"
  proof (rule ccontr)
    assume "\<not> ?thesis"
    then have "(2 :: nat) ^ 32 \<le> 2 ^ k" by (intro power_increasing) auto
    then show False using assms(1) unsigned_less [of a, where ?'a = nat] by simp
  qed
  then have "find (\<lambda>i. bit a (31 - i)) [0..<32] = Some (31 - k)"
    using bit_top [OF assms] not_bit_above [OF assms(2)]
    by (subst find_Some_iff) (auto intro!: exI [of _ "31 - k"])
  then show ?thesis using k by (simp add: clz_def of_nat_diff)
qed

lemma ucast_narrow16: "unat (v :: u32) < 2 ^ 16 \<Longrightarrow> ucast (ucast v :: u16) = v"
  by (simp add: word_unat_eq_iff unsigned_ucast_eq unsigned_take_bit_eq take_bit_nat_eq_self)

lemma ucast_narrow8: "unat (v :: u32) < 2 ^ 8 \<Longrightarrow> ucast (ucast v :: u8) = v"
  by (simp add: word_unat_eq_iff unsigned_ucast_eq unsigned_take_bit_eq take_bit_nat_eq_self)

section \<open>Loops\<close>

lemma stride_split:
  assumes "0 < (s :: nat)"
  shows "p \<le> a \<and> (a - p) mod s = 0 \<longleftrightarrow> a = p \<or> p + s \<le> a \<and> (a - (p + s)) mod s = 0"
proof (cases "p + s \<le> a")
  case True
  then have "a - p = a - (p + s) + s" by simp
  then have "(a - p) mod s = (a - (p + s)) mod s" by (metis mod_add_self2)
  then show ?thesis using True assms by auto
next
  case False
  then show ?thesis using assms by auto
qed

lemma touch_loop_stops:
  assumes "0 < unat stride" "unat e + unat stride < 2 ^ 64"
  shows "\<exists>ps. touch_loop stride e p = Some ps \<and>
    unat ` set ps = {a. unat p \<le> a \<and> a < unat e \<and> (a - unat p) mod unat stride = 0}"
proof (induction "unat e - unat p" arbitrary: p rule: less_induct)
  case less
  show ?case
  proof (cases "p < e")
    case True
    then have lt: "unat p < unat e" by (simp add: word_less_nat_alt)
    have n: "unat (p + stride) = unat p + unat stride"
      using assms lt by (simp add: unat_word_ariths(1))
    have "unat e - unat (p + stride) < unat e - unat p" using n lt assms(1) by linarith
    then obtain ps where ps: "touch_loop stride e (p + stride) = Some ps"
      "unat ` set ps = {a. unat p + unat stride \<le> a \<and> a < unat e \<and>
        (a - (unat p + unat stride)) mod unat stride = 0}"
      using less [of "p + stride"] n by auto
    have "unat ` set (p # ps) = {a. unat p \<le> a \<and> a < unat e \<and> (a - unat p) mod unat stride = 0}"
    proof (rule set_eqI)
      fix a
      show "a \<in> unat ` set (p # ps) \<longleftrightarrow>
          a \<in> {a. unat p \<le> a \<and> a < unat e \<and> (a - unat p) mod unat stride = 0}"
        using stride_split [OF assms(1), of "unat p" a] lt
        by (simp only: list.set image_insert ps(2) insert_iff mem_Collect_eq) metis
    qed
    then show ?thesis using ps(1) True by (subst touch_loop.simps) auto
  qed (subst touch_loop.simps; simp add: word_less_nat_alt)
qed

text \<open>The \<open>n\<close>-th set bit (counting from one) of a mask.\<close>

lemma get_cpu_id_loop_spec:
  assumes "card {i. i < k \<and> bit m i} = n" "bit m k" "k < 64" "unat r = Suc n"
  shows "get_cpu_id_loop m c r = Some (c + of_nat k)"
  using assms
proof (induction k arbitrary: m n c r)
  case 0
  then have "r = 1" by (simp add: word_unat_eq_iff)
  then show ?case using 0 by (subst get_cpu_id_loop.simps) (simp add: Let_def and_one_eq odd_iff_mod_2_eq_one bit_0)
next
  case (Suc k)
  let ?m = "drop_bit 1 m" and ?b = "if m AND 1 \<noteq> 0 then 1 else 0 :: nat"
  have b: "m AND 1 \<noteq> 0 \<longleftrightarrow> bit m 0" by (simp add: and_one_eq odd_iff_mod_2_eq_one bit_0)
  have "{i. i < Suc k \<and> bit m i} = Suc ` {i. i < k \<and> bit ?m i} \<union> (if bit m 0 then {0} else {})"
    by (auto simp: bit_drop_bit_eq image_iff less_Suc_eq_0_disj)
  then have n: "n = card {i. i < k \<and> bit ?m i} + ?b"
    unfolding Suc.prems(1) [symmetric]
    by (cases "bit m 0") (simp_all add: b card_image card_insert_if)
  define r' where "r' = (if m AND 1 \<noteq> 0 then r - 1 else r)"
  have r: "unat r' = Suc (card {i. i < k \<and> bit ?m i})"
    using n Suc.prems(4) by (auto simp: r'_def unat_sub_if')
  then have "get_cpu_id_loop ?m (c + 1) r' = Some (c + 1 + of_nat k)"
    using Suc.IH [of ?m "card {i. i < k \<and> bit ?m i}" r' "c + 1"] Suc.prems(2,3)
    by (simp add: bit_drop_bit_eq)
  moreover have "r' \<noteq> 0" using r by auto
  ultimately show ?case
    by (subst get_cpu_id_loop.simps) (simp add: Let_def r'_def [symmetric] add.assoc)
qed

section \<open>Affinities\<close>

text \<open>The positions of the set bits of a mask below \<open>a\<close>, in order.\<close>

definition set_bits_below :: "bool list \<Rightarrow> nat \<Rightarrow> nat list" where
  "set_bits_below nm a = filter (\<lambda>i. nm ! i) [0..<a]"

abbreviation set_positions :: "bool list \<Rightarrow> nat list" where
  "set_positions nm \<equiv> set_bits_below nm (length nm)"

lemma set_bits_below_Suc:
  "set_bits_below nm (Suc a) = set_bits_below nm a @ (if nm ! a then [a] else [])"
  by (simp add: set_bits_below_def)

lemma set_positions_nth:
  assumes "a < length nm" "nm ! a"
  shows "length (set_bits_below nm a) < length (set_positions nm)"
    "set_positions nm ! length (set_bits_below nm a) = a"
proof -
  have "[0..<length nm] = [0..<a] @ a # [Suc a..<length nm]"
    using assms(1) upt_add_eq_append [of 0 a "length nm - a"] by (simp add: upt_conv_Cons)
  then have "set_positions nm = set_bits_below nm a @ a # filter (\<lambda>i. nm ! i) [Suc a..<length nm]"
    using assms(2) by (simp add: set_bits_below_def)
  then show "length (set_bits_below nm a) < length (set_positions nm)"
    "set_positions nm ! length (set_bits_below nm a) = a" by simp_all
qed

declare next_logical.simps [simp del] find_actual.simps [simp del] affinities_loop.simps [simp del]

lemma find_actual_spec:
  assumes "c = length (set_bits_below nm a)" "c \<le> l" "a \<le> length nm"
  shows "if l < length (set_positions nm)
    then find_actual nm l a c = (Some (set_positions nm ! l), Suc (set_positions nm ! l), Suc l) \<and>
      Suc (set_positions nm ! l) \<le> length nm \<and>
      length (set_bits_below nm (Suc (set_positions nm ! l))) = Suc l
    else fst (find_actual nm l a c) = None"
  using assms
proof (induction nm l a c rule: find_actual.induct)
  case (1 nm l a c)
  consider "a = length nm" | "a < length nm" "nm ! a" "l = c" | "a < length nm" "nm ! a" "c < l"
    | "a < length nm" "\<not> nm ! a"
    using 1(4,5) by fastforce
  then show ?case
  proof cases
    case 1
    then show ?thesis using "1.prems" by (simp add: find_actual.simps)
  next
    case 2
    then show ?thesis
      using "1.prems" set_positions_nth [OF 2(1,2)]
      by (simp add: find_actual.simps set_bits_below_Suc)
  next
    case 3
    then have eq: "find_actual nm l a c = find_actual nm l (Suc a) (Suc c)"
      by (simp add: find_actual.simps [of nm l a])
    show ?thesis
      unfolding eq using "1.prems" 3 by (intro "1.IH"(1)) (simp_all add: set_bits_below_Suc)
  next
    case 4
    then have eq: "find_actual nm l a c = find_actual nm l (Suc a) c"
      by (simp add: find_actual.simps [of nm l a])
    show ?thesis
      unfolding eq using "1.prems" 4 by (intro "1.IH"(2)) (simp_all add: set_bits_below_Suc)
  qed
qed

lemma next_logical_spec:
  assumes "l \<le> length la"
  shows "l \<le> next_logical la l" "next_logical la l \<le> length la"
    "next_logical la l < length la \<Longrightarrow> la ! next_logical la l"
    "\<And>i. l \<le> i \<Longrightarrow> i < next_logical la l \<Longrightarrow> \<not> la ! i"
  using assms
proof (induction la l rule: next_logical.induct)
  case (1 la l)
  { case 1 then show ?case using "1.IH" by (subst next_logical.simps) force
  next case 2 then show ?case using "1.IH" by (subst next_logical.simps) force
  next case 3 then show ?case using "1.IH" by (simp add: next_logical.simps [of la l] split: if_splits)
  next case (4 i) then show ?case using "1.IH"(4) [of i]
      by (simp add: next_logical.simps [of la l] split: if_splits) (metis Suc_leI le_neq_implies_less)
  }
qed

definition affinity_image :: "bool list \<Rightarrow> bool list \<Rightarrow> nat \<Rightarrow> nat set" where
  "affinity_image la nm l =
     {set_positions nm ! i | i. l \<le> i \<and> i < length la \<and> la ! i \<and> i < length (set_positions nm)}"

lemma affinity_image_end: "length la \<le> l \<or> length (set_positions nm) \<le> l \<Longrightarrow> affinity_image la nm l = {}"
  by (auto simp: affinity_image_def)

lemma affinity_image_skip:
  "(\<And>i. l \<le> i \<Longrightarrow> i < l' \<Longrightarrow> \<not> la ! i) \<Longrightarrow> l \<le> l' \<Longrightarrow> affinity_image la nm l = affinity_image la nm l'"
  unfolding affinity_image_def by (metis (opaque_lifting, no_types) le_trans not_le)

lemma affinity_image_step:
  assumes "l < length la" "la ! l" "l < length (set_positions nm)"
  shows "affinity_image la nm l = insert (set_positions nm ! l) (affinity_image la nm (Suc l))"
proof -
  have "i = l \<or> Suc l \<le> i" if "l \<le> i" for i using that by linarith
  then show ?thesis using assms unfolding affinity_image_def by (auto intro: Suc_leD)
qed

lemma count_skip:
  assumes "l \<le> l'" "\<And>i. l \<le> i \<Longrightarrow> i < l' \<Longrightarrow> \<not> la ! i"
  shows "length (set_bits_below la l') = length (set_bits_below la l)"
  using assms
proof (induction l' rule: dec_induct)
  case (step n)
  then show ?case by (simp add: set_bits_below_Suc)
qed simp

lemma count_all:
  assumes "length (set_positions la) \<le> length (set_bits_below la l)" "l \<le> i" "i < length la"
  shows "\<not> la ! i"
proof
  assume "la ! i"
  then have "length (set_bits_below la i) < length (set_positions la)"
    using set_positions_nth(1) assms(3) by simp
  moreover have "length (set_bits_below la l) \<le> length (set_bits_below la i)"
    using assms(2) by (induction i rule: dec_induct) (auto simp: set_bits_below_Suc)
  ultimately show False using assms(1) by simp
qed

lemma affinities_loop_spec:
  assumes "n = length (set_positions la)" "cnt = length (set_bits_below la l)" "l \<le> length la"
    "c = length (set_bits_below nm a)" "c \<le> l" "a \<le> length nm"
  shows "set (affinities_loop la nm n cnt l a c acc) = set acc \<union> affinity_image la nm l"
  using assms
proof (induction la nm n cnt l a c acc rule: affinities_loop.induct)
  case (1 la nm n cnt l a c acc)
  let ?l = "next_logical la l"
  note nl = next_logical_spec [OF "1.prems"(3)]
  have img: "affinity_image la nm l = affinity_image la nm ?l"
    using affinity_image_skip nl(1,4) by blast
  note fa = find_actual_spec [OF "1.prems"(4) _ "1.prems"(6), of ?l]
  consider "\<not> cnt < n" | "cnt < n" "length la \<le> ?l"
    | "cnt < n" "?l < length la" "length (set_positions nm) \<le> ?l"
    | "cnt < n" "?l < length la" "?l < length (set_positions nm)"
    by linarith
  then show ?case
  proof cases
    case 1
    then have "affinity_image la nm l = {}"
      using count_all [of la l] "1.prems"(1,2) by (auto simp: affinity_image_def)
    then show ?thesis using 1 by (subst affinities_loop.simps) simp
  next
    case 2
    then show ?thesis
      unfolding img by (subst affinities_loop.simps) (simp add: affinity_image_end)
  next
    case 3
    then have "fst (find_actual nm ?l a c) = None" using fa nl(1) "1.prems"(5) by simp
    then obtain a1 c1 where "find_actual nm ?l a c = (None, a1, c1)" by (metis prod.collapse)
    then show ?thesis
      unfolding img using 3 by (subst affinities_loop.simps) (simp add: affinity_image_end)
  next
    case 4
    let ?b = "set_positions nm ! ?l"
    have f: "find_actual nm ?l a c = (Some ?b, Suc ?b, Suc ?l)" "Suc ?b \<le> length nm"
      "length (set_bits_below nm (Suc ?b)) = Suc ?l"
      using fa nl(1) "1.prems"(5) 4(3) by simp_all
    have step: "affinity_image la nm ?l = insert ?b (affinity_image la nm (Suc ?l))"
      using affinity_image_step nl(3) 4 by blast
    have cnt: "Suc cnt = length (set_bits_below la (Suc ?l))"
      using count_skip [OF nl(1,4)] nl(3) 4(2) "1.prems"(2) by (simp add: set_bits_below_Suc)
    show ?thesis
    proof (cases "Suc ?b = length nm")
      case True
      then have "affinity_image la nm (Suc ?l) = {}"
        using f(3) by (simp add: affinity_image_end)
      then show ?thesis
        unfolding img step using 4(1,2) f(1) True by (subst affinities_loop.simps) simp
    next
      case False
      have "set (affinities_loop la nm n (Suc cnt) (Suc ?l) (Suc ?b) (Suc ?l) (acc @ [?b])) =
          set (acc @ [?b]) \<union> affinity_image la nm (Suc ?l)"
        using 4 f False cnt "1.prems"(1)
        by (intro "1.IH" [of ?l "Some ?b" "(Suc ?b, Suc ?l)"]) auto
      moreover have "\<not> length nm \<le> Suc ?b" using False f(2) by simp
      ultimately show ?thesis
        unfolding img step using 4(1,2) f(1) by (subst affinities_loop.simps) (simp add: Let_def)
    qed
  qed
qed

section \<open>Properties\<close>

text \<open>
  Rounding an address up to a page, to a 4 MB superpage, or (with \<^verbatim>\<open>align_pointer\<close>, on an address
  \<^verbatim>\<open>check_aligned\<close> rejects) to a power of two gives the least multiple that is at least the address,
  whenever that multiple is a 64-bit address.
\<close>

theorem rounding_least_multiple:
  assumes "alignment = 2 ^ k" "k < 32" "least_multiple (2 ^ k) (unat a) < 2 ^ 64"
    "least_multiple 0x400000 (unat a) < 2 ^ 64"
  shows "unat (round_up_page a) = least_multiple 4096 (unat a) \<and>
    unat (round_up_superpage a) = least_multiple 0x400000 (unat a) \<and>
    unat (if check_aligned a alignment then a else align_pointer a alignment) =
      least_multiple (2 ^ k) (unat a)"
proof -
  have "(4096 :: nat) dvd 0x400000" by (simp add: dvd_eq_mod_eq_0)
  then have "4096 dvd least_multiple 0x400000 (unat a)"
    by (rule dvd_trans) (simp add: least_multiple(1))
  then have "least_multiple 4096 (unat a) < 2 ^ 64"
    using least_multiple(2) [of "0x400000" "unat a"] assms(4)
    by (intro le_less_trans [OF least_multiple(4)]) simp_all
  then show ?thesis
    using assms(4) round_up_page_unat round_up_superpage_unat
      align_up_unat [OF assms(1-3)] by simp
qed

text \<open>
  \<^verbatim>\<open>is_power_of_two\<close> holds exactly of the powers of two, and \<^verbatim>\<open>round_up_log2\<close> of a number between
  one and \<open>2\<^sup>63\<close> is the least power of two that is at least the number. Above \<open>2\<^sup>63\<close> it shifts by the
  width of the word, which is undefined.
\<close>

theorem round_up_log2_correct:
  assumes "a \<noteq> 0"
  shows "if unat a \<le> 2 ^ 63
    then \<exists>r. round_up_log2 a = Inr r \<and> is_power_of_two r \<and> a \<le> r \<and>
      (\<forall>p. is_power_of_two p \<and> a \<le> p \<longrightarrow> r \<le> p)
    else round_up_log2 a = Inl Undefined"
proof -
  have "0 < unat a" using assms by (simp add: unat_gt_0)
  then obtain k where k: "2 ^ k \<le> unat a" "unat a < 2 ^ Suc k" by (rule power_interval)
  have k64: "k < 64" by (rule clzl_eq(2) [OF k])
  have pow: "unat (2 ^ j :: u64) = 2 ^ j" if "j < 64" for j using that by (simp add: unat_exp)
  have mono: "k \<le> j" if "unat a \<le> 2 ^ j" for j
    using that k(1) by (meson le_trans one_less_numeral_iff power_le_imp_le_exp semiring_norm(76))
  have least: "2 ^ r \<le> p" if "is_power_of_two p" "a \<le> p" "r < 64" "\<And>j. unat a \<le> 2 ^ j \<Longrightarrow> r \<le> j" for p r
    using that pow by (auto simp: is_power_of_two_iff word_le_nat_alt intro!: power_increasing)
  have pow2: "is_power_of_two (2 ^ r)" if "r < 64" for r using that by (auto simp: is_power_of_two_iff)
  consider "unat a = 2 ^ k" | "unat a \<noteq> 2 ^ k" "k < 63" | "unat a \<noteq> 2 ^ k" "k = 63"
    using k64 by linarith
  then show ?thesis
  proof cases
    case 1
    moreover have "unat a \<le> 2 ^ 63" unfolding 1 using k64 by (intro power_increasing) auto
    ultimately show ?thesis
      using round_up_log2_spec [OF k] least [of _ k] mono pow2 [of k] pow k64
      by (auto simp: word_le_nat_alt)
  next
    case 2
    have "Suc k \<le> j" if "unat a \<le> 2 ^ j" for j
      using mono [OF that] that k(1) 2(1) by (metis le_antisym not_less_eq_eq)
    moreover have "unat a \<le> 2 ^ 63"
      using k(2) 2(2) by (meson Suc_leI less_imp_le_nat le_trans one_le_numeral power_increasing)
    ultimately show ?thesis
      using round_up_log2_spec [OF k] least [of _ "Suc k"] pow2 [of "Suc k"] pow [of "Suc k"] 2 k(2)
      by (auto simp: word_le_nat_alt)
  next
    case 3
    then show ?thesis using round_up_log2_spec [OF k] k(1) by auto
  qed
qed

text \<open>
  The helper \<^verbatim>\<open>leftmost_set_bit\<close> returns the index of the leftmost set bit for a 32-bit argument
  only. For every non-zero 8-bit or 16-bit argument its result is wrong, because \<^verbatim>\<open>__builtin_clz\<close> counts
  the leading zeros of 32 bits.
\<close>

theorem leftmost_set_bit_widths:
  assumes "2 ^ i \<le> unat v" "unat v < 2 ^ Suc i"
  shows "leftmost_set_bit32 v = Inr (of_nat i) \<and>
    (i < 16 \<longrightarrow> leftmost_set_bit16 (ucast v) = Inr (of_nat i - 15)) \<and>
    (i < 8 \<longrightarrow> leftmost_set_bit8 (ucast v) = Inr (of_nat i - 23))"
proof (intro conjI impI)
  note c = clz_eq [OF assms]
  show "leftmost_set_bit32 v = Inr (of_nat i)"
    using c by (simp add: leftmost_set_bit32_def)
  have narrow: "unat v < 2 ^ n" if "i < n" for n
    using assms(2) that by (meson Suc_leI less_le_trans one_le_numeral power_increasing)
  show "leftmost_set_bit16 (ucast v) = Inr (of_nat i - 15)" if "i < 16"
    using c ucast_narrow16 [OF narrow [OF that]] by (simp add: leftmost_set_bit16_def)
  show "leftmost_set_bit8 (ucast v) = Inr (of_nat i - 23)" if "i < 8"
    using c ucast_narrow8 [OF narrow [OF that]] by (simp add: leftmost_set_bit8_def)
qed

text \<open>
  When a NUMA node has at least as many CPUs as there are logical affinities, the actual
  affinities are exactly the \<open>l\<close>-th CPUs of the node for the logical affinities \<open>l\<close> below the number
  of its CPUs.
\<close>

theorem get_actual_affinities_correct:
  "get_actual_affinities la node_mask =
    (if length (filter id la) \<le> length (filter id node_mask)
     then Inr {set_positions node_mask ! l | l. l < length la \<and> la ! l \<and>
       l < length (set_positions node_mask)}
     else Inl Assertion)"
proof -
  have n: "length (filter id xs) = length (set_positions xs)" for xs
    using filter_map [of id "(!) xs" "[0..<length xs]"] by (simp add: set_bits_below_def map_nth o_def)
  show ?thesis
    using affinities_loop_spec [OF n, of 0 la 0 0 node_mask 0 "[]"]
    by (simp add: get_actual_affinities_def Let_def check_def affinity_image_def set_bits_below_def)
qed

end
