(* ===== verification/XDK_List.thy ===== *)
theory XDK_List
  imports XDK_Prelude
begin

text \<open>
  The intrusive doubly-linked list and the stack of \<^verbatim>\<open>lib/libcommon/common/list.h\<close>. The elements
  live in a store: \<open>next_of\<close> and \<open>prev_of\<close> give the two link fields of every element, so an
  operation that writes through a pointer changes the element wherever it is linked. The
  abstraction of a list is the sequence of its elements (\<open>dll\<close>), and every operation is shown to
  refine the corresponding operation on sequences and to leave the other elements alone.
\<close>

section \<open>Data\<close>

record dlist =
  head_p :: ptr
  tail_p :: ptr
  next_of :: "nat \<Rightarrow> ptr"
  prev_of :: "nat \<Rightarrow> ptr"

definition new_list :: "dlist \<Rightarrow> dlist" where
  "new_list l = l\<lparr>head_p := None, tail_p := None\<rparr>"

definition empty :: "dlist \<Rightarrow> bool" where
  "empty l = (head_p l = None)"

section \<open>Operations\<close>

definition set_next :: "nat \<Rightarrow> ptr \<Rightarrow> dlist \<Rightarrow> dlist outcome" where
  "set_next this e l =
     check (e \<noteq> Some this) Assertion (Inr (l\<lparr>next_of := (next_of l)(this := e)\<rparr>))"

definition set_prev :: "nat \<Rightarrow> ptr \<Rightarrow> dlist \<Rightarrow> dlist outcome" where
  "set_prev this e l =
     check (e \<noteq> Some this) Assertion (Inr (l\<lparr>prev_of := (prev_of l)(this := e)\<rparr>))"

definition insert_e :: "ptr \<Rightarrow> dlist \<Rightarrow> dlist outcome" where
  "insert_e p l = (case p of None \<Rightarrow> Inl Assertion | Some e \<Rightarrow>
     if empty l then
       seq (set_prev e None l) (\<lambda>l.
       seq (set_next e None l) (\<lambda>l.
       Inr (l\<lparr>head_p := Some e, tail_p := Some e\<rparr>)))
     else
       seq (set_next e None l) (\<lambda>l.
       seq (set_prev e (tail_p l) l) (\<lambda>l.
       deref (tail_p l) (\<lambda>t.
       seq (set_next t (Some e) l) (\<lambda>l.
       Inr (l\<lparr>tail_p := Some e\<rparr>))))))"

definition insert_front :: "ptr \<Rightarrow> dlist \<Rightarrow> dlist outcome" where
  "insert_front p l = (case p of None \<Rightarrow> Inl Assertion | Some e \<Rightarrow>
     if empty l then
       seq (set_prev e None l) (\<lambda>l.
       seq (set_next e None l) (\<lambda>l.
       Inr (l\<lparr>head_p := Some e, tail_p := Some e\<rparr>)))
     else
       seq (set_prev e None l) (\<lambda>l.
       seq (set_next e (head_p l) l) (\<lambda>l.
       deref (head_p l) (\<lambda>h.
       seq (set_prev h (Some e) l) (\<lambda>l.
       Inr (l\<lparr>head_p := Some e\<rparr>))))))"

text \<open>
  The loop of \<^verbatim>\<open>contains\<close> follows the links until the null pointer and does not end on a cycle;
  its value is then \<open>None\<close>.
\<close>

partial_function (option) contains_loop :: "dlist \<Rightarrow> nat \<Rightarrow> ptr \<Rightarrow> bool option" where
  "contains_loop l e cur = (case cur of None \<Rightarrow> Some False | Some c \<Rightarrow>
     if c = e then Some True else contains_loop l e (next_of l c))"

definition contains :: "nat \<Rightarrow> dlist \<Rightarrow> bool option" where
  "contains e l = contains_loop l e (head_p l)"

definition remove_middle :: "nat \<Rightarrow> dlist \<Rightarrow> dlist outcome" where
  "remove_middle e l =
     deref (prev_of l e) (\<lambda>p.
     seq (set_next p (next_of l e) l) (\<lambda>l.
     deref (next_of l e) (\<lambda>n.
     seq (set_prev n (prev_of l e) l) (\<lambda>l.
     seq (set_prev e None l) (\<lambda>l.
     set_next e None l)))))"

definition remove :: "ptr \<Rightarrow> dlist \<Rightarrow> dlist outcome option" where
  "remove p l = (case p of None \<Rightarrow> Some (Inl Assertion) | Some e \<Rightarrow>
     if empty l then Some (Inr l)
     else if head_p l = Some e then
       Some (let l1 = l\<lparr>head_p := next_of l e\<rparr> in
             seq (case head_p l1 of None \<Rightarrow> Inr l1 | Some h \<Rightarrow> set_prev h None l1)
               (set_next e None))
     else if tail_p l = Some e then
       Some (let l1 = l\<lparr>tail_p := prev_of l e\<rparr> in
             seq (case tail_p l1 of None \<Rightarrow> Inr l1 | Some t \<Rightarrow> set_next t None l1)
               (set_prev e None))
     else
       (case contains e l of None \<Rightarrow> None
        | Some b \<Rightarrow> Some (if b then remove_middle e l else Inl Panic)))"

definition pop_front :: "dlist \<Rightarrow> (ptr \<times> dlist) outcome" where
  "pop_front l = (case head_p l of None \<Rightarrow> Inr (None, l) | Some oh \<Rightarrow>
     let l1 = l\<lparr>head_p := next_of l oh\<rparr> in
     seq (case head_p l1 of None \<Rightarrow> Inr l1 | Some h \<Rightarrow> set_prev h None l1) (\<lambda>l.
     seq (set_next oh None l) (\<lambda>l. Inr (Some oh, l))))"

fun get_loop :: "dlist \<Rightarrow> nat \<Rightarrow> nat \<Rightarrow> ptr" where
  "get_loop l p 0 = Some p"
| "get_loop l p (Suc index) =
     (case next_of l p of None \<Rightarrow> None | Some q \<Rightarrow> get_loop l q index)"

definition get :: "u32 \<Rightarrow> dlist \<Rightarrow> ptr" where
  "get index l = (case head_p l of None \<Rightarrow> None | Some p \<Rightarrow> get_loop l p (unat index))"

partial_function (option) length_loop :: "dlist \<Rightarrow> ptr \<Rightarrow> u64 \<Rightarrow> u64 option" where
  "length_loop l p s = (case p of None \<Rightarrow> Some s | Some x \<Rightarrow> length_loop l (next_of l x) (s + 1))"

definition length_of :: "dlist \<Rightarrow> u64 option" where
  "length_of l = length_loop l (head_p l) 0"

definition push :: "ptr \<Rightarrow> dlist \<Rightarrow> dlist outcome" where
  "push e l = insert_e e l"

definition pop :: "dlist \<Rightarrow> (ptr \<times> dlist) outcome option" where
  "pop l = (let r = tail_p l in
     case remove r l of None \<Rightarrow> None | Some res \<Rightarrow> Some (seq res (\<lambda>l. Inr (r, l))))"

section \<open>Abstraction\<close>

fun lseg :: "(nat \<Rightarrow> ptr) \<Rightarrow> ptr \<Rightarrow> nat list \<Rightarrow> ptr \<Rightarrow> bool" where
  "lseg nx p [] q = (p = q)"
| "lseg nx p (x # xs) q = (p = Some x \<and> lseg nx (nx x) xs q)"

fun blinks :: "(nat \<Rightarrow> ptr) \<Rightarrow> ptr \<Rightarrow> nat list \<Rightarrow> bool" where
  "blinks pv q [] = True"
| "blinks pv q (x # xs) = (pv x = q \<and> blinks pv (Some x) xs)"

definition dll :: "dlist \<Rightarrow> nat list \<Rightarrow> bool" where
  "dll l xs \<longleftrightarrow> lseg (next_of l) (head_p l) xs None \<and> blinks (prev_of l) None xs \<and> distinct xs \<and>
     (xs \<noteq> [] \<longrightarrow> tail_p l = Some (last xs))"

text \<open>Two stores agree on the links of the elements outside \<open>A\<close>.\<close>

definition same_outside :: "nat set \<Rightarrow> dlist \<Rightarrow> dlist \<Rightarrow> bool" where
  "same_outside A l l' \<longleftrightarrow> (\<forall>x. x \<notin> A \<longrightarrow> next_of l' x = next_of l x \<and> prev_of l' x = prev_of l x)"

lemma lseg_append: "lseg nx p (xs @ ys) q \<longleftrightarrow> (\<exists>r. lseg nx p xs r \<and> lseg nx r ys q)"
  by (induction xs arbitrary: p) auto

lemma lseg_upd [simp]: "x \<notin> set xs \<Longrightarrow> lseg (nx(x := v)) p xs q = lseg nx p xs q"
  by (induction xs arbitrary: p) auto

lemma blinks_upd [simp]: "x \<notin> set xs \<Longrightarrow> blinks (pv(x := v)) q xs = blinks pv q xs"
  by (induction xs arbitrary: q) auto

lemma blinks_append:
  "blinks pv q (xs @ ys) \<longleftrightarrow> blinks pv q xs \<and> blinks pv (if xs = [] then q else Some (last xs)) ys"
  by (induction xs arbitrary: q) auto

lemma dll_empty: "dll l xs \<Longrightarrow> empty l \<longleftrightarrow> xs = []"
  by (cases xs) (auto simp: dll_def empty_def)

lemma dll_head: "dll l xs \<Longrightarrow> head_p l = (case xs of [] \<Rightarrow> None | x # _ \<Rightarrow> Some x)"
  by (cases xs) (auto simp: dll_def)

lemmas setters = set_next_def set_prev_def

lemma dll_insert:
  assumes "dll l xs" "e \<notin> set xs"
  shows "\<exists>l'. insert_e (Some e) l = Inr l' \<and> dll l' (xs @ [e]) \<and> same_outside (set (xs @ [e])) l l'"
proof (cases xs rule: rev_cases)
  case Nil
  then show ?thesis
    using assms dll_empty [OF assms(1)]
    by (auto simp: insert_e_def setters dll_def same_outside_def)
next
  case (snoc ys t)
  then show ?thesis
    using assms dll_empty [OF assms(1)]
    by (auto simp: insert_e_def setters dll_def same_outside_def lseg_append blinks_append)
qed

lemma dll_insert_front:
  assumes "dll l xs" "e \<notin> set xs"
  shows "\<exists>l'. insert_front (Some e) l = Inr l' \<and> dll l' (e # xs) \<and> same_outside (set (e # xs)) l l'"
  using assms dll_empty [OF assms(1)]
  by (cases xs) (auto simp: insert_front_def setters dll_def same_outside_def)

lemma dll_pop_front:
  assumes "dll l xs"
  shows "\<exists>l'. pop_front l = Inr (case xs of [] \<Rightarrow> None | x # _ \<Rightarrow> Some x, l') \<and> dll l' (tl xs) \<and>
    same_outside (set xs) l l'"
proof (cases xs)
  case (Cons x ys)
  then show ?thesis
    using assms by (cases ys) (auto simp: pop_front_def setters dll_def same_outside_def)
qed (use assms in \<open>auto simp: pop_front_def dll_def same_outside_def\<close>)

lemma contains_loop_lseg:
  "lseg (next_of l) p xs None \<Longrightarrow> contains_loop l e p = Some (e \<in> set xs)"
  by (induction xs arbitrary: p) (subst contains_loop.simps; force)+

lemma length_loop_lseg:
  "lseg (next_of l) p xs None \<Longrightarrow> length_loop l p s = Some (s + of_nat (length xs))"
  by (induction xs arbitrary: p s) (subst length_loop.simps; force)+

lemma get_loop_lseg:
  "lseg (next_of l) (next_of l p) xs None \<Longrightarrow>
    get_loop l p i = (if i \<le> length xs then Some ((p # xs) ! i) else None)"
proof (induction i arbitrary: p xs)
  case (Suc i)
  then show ?case by (cases xs) auto
qed simp

lemma dll_contains: "dll l xs \<Longrightarrow> contains e l = Some (e \<in> set xs)"
  by (simp add: contains_def dll_def contains_loop_lseg)

lemma dll_length: "dll l xs \<Longrightarrow> length_of l = Some (of_nat (length xs))"
  using length_loop_lseg [of l "head_p l" xs 0] by (simp add: length_of_def dll_def)

lemma dll_get:
  "dll l xs \<Longrightarrow> get i l = (if unat i < length xs then Some (xs ! unat i) else None)"
  by (cases xs) (auto simp: get_def dll_def get_loop_lseg)

lemma remove_middle_dll:
  assumes "dll l (ys @ p # e # n # zs)"
  shows "\<exists>l'. remove_middle e l = Inr l' \<and> dll l' (ys @ p # n # zs) \<and>
    same_outside (set (ys @ p # e # n # zs)) l l'"
  using assms
  by (auto simp: remove_middle_def setters dll_def same_outside_def lseg_append blinks_append)

lemma remove_head_dll:
  assumes "dll l (e # xs)"
  shows "\<exists>l'. remove (Some e) l = Some (Inr l') \<and> dll l' xs \<and> same_outside (set (e # xs)) l l'"
  using assms
  by (cases xs) (auto simp: remove_def empty_def setters dll_def same_outside_def)

lemma remove_last_dll:
  assumes "dll l (xs @ [p, e])"
  shows "\<exists>l'. remove (Some e) l = Some (Inr l') \<and> dll l' (xs @ [p]) \<and>
    same_outside (set (xs @ [p, e])) l l'"
proof -
  have "head_p l \<noteq> Some e" "head_p l \<noteq> None" "tail_p l = Some e" "prev_of l e = Some p"
    using assms by (cases xs; auto simp: dll_def blinks_append)+
  then show ?thesis
    using assms
    by (auto simp: remove_def empty_def setters dll_def same_outside_def lseg_append blinks_append)
qed

lemma dll_remove:
  assumes "dll l xs" "e \<in> set xs"
  shows "\<exists>l'. remove (Some e) l = Some (Inr l') \<and> dll l' (remove1 e xs) \<and> same_outside (set xs) l l'"
proof -
  obtain ys zs where xs: "xs = ys @ e # zs" using assms(2) by (meson split_list)
  have d: "distinct xs" using assms(1) by (simp add: dll_def)
  consider "ys = []" | ws p where "ys = ws @ [p]" "zs = []"
    | ws p n vs where "ys = ws @ [p]" "zs = n # vs"
    by (metis neq_Nil_conv rev_exhaust)
  then show ?thesis
  proof cases
    case 1
    then show ?thesis using assms xs remove_head_dll [of l e zs] by simp
  next
    case 2
    then show ?thesis using assms d xs remove_last_dll [of l ws p e] by (simp add: remove1_append)
  next
    case 3
    then have "head_p l \<noteq> Some e" "head_p l \<noteq> None" "tail_p l \<noteq> Some e"
      using assms d xs by (cases ws; auto simp: dll_def)+
    then have "remove (Some e) l = Some (remove_middle e l)"
      using assms by (auto simp: remove_def empty_def dll_contains)
    then show ?thesis
      using assms d xs 3 remove_middle_dll [of l ws p e n vs] by (simp add: remove1_append)
  qed
qed

lemma dll_remove_absent:
  assumes "dll l xs" "e \<notin> set xs"
  shows "remove (Some e) l = Some (if xs = [] then Inr l else Inl Panic)"
proof (cases "xs = []")
  case False
  then have "head_p l \<noteq> Some e" "tail_p l \<noteq> Some e"
    using assms last_in_set [OF False] by (cases xs; auto simp: dll_def)+
  then show ?thesis
    using assms False by (simp add: remove_def dll_empty dll_contains)
qed (use assms in \<open>simp add: remove_def dll_empty\<close>)

section \<open>Properties\<close>

text \<open>
  C23. On a list holding the sequence \<open>xs\<close>, inserting a new element at either end, popping the
  front and removing an element give lists holding the corresponding sequences, and change the
  links of no element outside the list. None of the assertions of the code fails.
\<close>

theorem list_refines_sequence:
  assumes "dll l xs" "e \<notin> set xs"
  shows "(\<exists>l'. insert_e (Some e) l = Inr l' \<and> dll l' (xs @ [e]) \<and> same_outside (set (xs @ [e])) l l') \<and>
    (\<exists>l'. insert_front (Some e) l = Inr l' \<and> dll l' (e # xs) \<and> same_outside (set (e # xs)) l l') \<and>
    (\<exists>l'. pop_front l = Inr (case xs of [] \<Rightarrow> None | x # _ \<Rightarrow> Some x, l') \<and> dll l' (tl xs) \<and>
      same_outside (set xs) l l') \<and>
    (\<forall>x \<in> set xs. \<exists>l'. remove (Some x) l = Some (Inr l') \<and> dll l' (remove1 x xs) \<and>
      same_outside (set xs) l l') \<and>
    remove (Some e) l = Some (if xs = [] then Inr l else Inl Panic)"
  using dll_insert [OF assms] dll_insert_front [OF assms] dll_pop_front [OF assms(1)]
    dll_remove [OF assms(1)] dll_remove_absent [OF assms] by blast

definition sample_list :: dlist where
  "sample_list = \<lparr>head_p = Some 1, tail_p = Some 2, next_of = (\<lambda>_. None)(1 := Some 2),
     prev_of = (\<lambda>_. None)(2 := Some 1)\<rparr>"

theorem list_refines_sequence_witness:
  "\<exists>l'. remove (Some 1) sample_list = Some (Inr l') \<and> dll l' [2]"
proof -
  have "dll sample_list [1, 2]" by (simp add: dll_def sample_list_def)
  then show ?thesis using list_refines_sequence [of sample_list "[1, 2]" 3] by auto
qed

text \<open>
  On a list holding \<open>xs\<close> the loops of \<^verbatim>\<open>contains\<close>, \<^verbatim>\<open>length\<close> and \<^verbatim>\<open>get\<close> return, with membership,
  the length (modulo the width of \<^verbatim>\<open>size_t\<close>) and the element at the index, \<^verbatim>\<open>NULL\<close> out of bounds.
\<close>

theorem list_queries:
  assumes "dll l xs"
  shows "contains e l = Some (e \<in> set xs) \<and> length_of l = Some (of_nat (length xs)) \<and>
    get i l = (if unat i < length xs then Some (xs ! unat i) else None)"
  using assms by (simp add: dll_contains dll_length dll_get)

text \<open>
  The stack: pushing a new element and popping returns that element and a stack that holds
  the old sequence; but once the last element of a stack has been popped, a further pop returns
  that same element again instead of \<^verbatim>\<open>NULL\<close>, because \<^verbatim>\<open>remove\<close> of the head never resets the tail.
\<close>

theorem stack_push_pop:
  assumes "dll l xs" "e \<notin> set xs"
  shows "\<exists>l1 l2. push (Some e) l = Inr l1 \<and> pop l1 = Some (Inr (Some e, l2)) \<and> dll l2 xs \<and>
    (xs = [] \<longrightarrow> pop l2 = Some (Inr (Some e, l2)))"
proof -
  obtain l1 where l1: "push (Some e) l = Inr l1" "dll l1 (xs @ [e])"
    using dll_insert [OF assms] by (auto simp: push_def)
  then have t: "tail_p l1 = Some e" by (simp add: dll_def)
  obtain l2 where l2: "remove (Some e) l1 = Some (Inr l2)" "dll l2 xs"
    using dll_remove [OF l1(2), of e] assms(2) by (auto simp: remove1_append)
  have "tail_p l2 = Some e" if "xs = []"
    using l1 l2(1) t that by (auto simp: remove_def dll_def setters empty_def)
  then show ?thesis
    using l1 l2 t dll_remove_absent [OF l2(2) assms(2)] by (auto simp: pop_def)
qed

end
