(* ===== verification/XDK_Bitmap.thy ===== *)
theory XDK_Bitmap
  imports XDK_Contracts
begin

text \<open>
  The lock-free slot bitmap \<^verbatim>\<open>Bitmap_tracker_threadsafe\<close> of \<^verbatim>\<open>lib/libexo/exo/bitmap.h\<close>: first the
  operations run without interference, then the same operations as atomic steps of concurrent
  threads, where each compare-and-swap may fail.
\<close>

section \<open>Operations\<close>

record bitmap =
  max_slot :: u32
  words_for_bitmap :: u32
  bitmap_words :: "u32 list"

definition new_bitmap :: "u64 \<Rightarrow> bitmap" where
  "new_bitmap slots =
     (let words = ucast (slots div 32) + (if slots mod 32 \<noteq> 0 then 1 else 0)
      in \<lparr>max_slot = ucast slots, words_for_bitmap = words,
          bitmap_words = replicate (unat words) 0\<rparr>)"

text \<open>\<^verbatim>\<open>__builtin_ffs\<close>: one plus the index of the least significant one bit, zero for zero.\<close>

definition ffs :: "u32 \<Rightarrow> nat" where
  "ffs v = (case find (bit v) [0..<32] of None \<Rightarrow> 0 | Some i \<Rightarrow> Suc i)"

definition set_word :: "nat \<Rightarrow> u32 \<Rightarrow> bitmap \<Rightarrow> bitmap" where
  "set_word w v b = b\<lparr>bitmap_words := (bitmap_words b)[w := v]\<rparr>"

text \<open>
  The loop of \<^verbatim>\<open>next_free\<close> with \<open>n\<close> words still to check. Run alone, the compare-and-swap finds
  the value just read.
\<close>

fun next_free_loop :: "bitmap \<Rightarrow> nat \<Rightarrow> nat \<Rightarrow> (int \<times> bitmap) outcome" where
  "next_free_loop b w 0 = Inr (status_val E_INSUFFICIENT_RESOURCES, b)"
| "next_free_loop b w (Suc n) =
     check (w < length (bitmap_words b)) Out_of_range
     (let curr_val = bitmap_words b ! w; idx = ffs (NOT curr_val) in
      if idx = 0 then
        next_free_loop b (if Suc w = unat (words_for_bitmap b) then 0 else Suc w) n
      else
        let new_val = curr_val OR push_bit (idx - 1) 1;
            b1 = set_word w new_val b;
            return_idx = (of_nat (idx - 1 + w * 32) :: u32)
        in if return_idx \<ge> max_slot b then Inr (status_val E_INSUFFICIENT_RESOURCES, b1)
           else Inr (sint return_idx, b1))"

definition next_free :: "bitmap \<Rightarrow> (int \<times> bitmap) outcome" where
  "next_free b = next_free_loop b 0 (unat (words_for_bitmap b))"

definition mark_free :: "u32 \<Rightarrow> bitmap \<Rightarrow> (int \<times> bitmap) outcome" where
  "mark_free slot b =
     check (\<not> slot > max_slot b) Panic
     (let w = unat (slot div 32); idx = unat (slot mod 32) in
      check (w \<le> unat (words_for_bitmap b)) Assertion
      (check (w < length (bitmap_words b)) Out_of_range
       (let old_val = bitmap_words b ! w; new_val = old_val AND NOT (push_bit idx 1)
        in Inr (status_val S_OK, set_word w new_val b))))"

definition is_set :: "u32 \<Rightarrow> bitmap \<Rightarrow> bool outcome" where
  "is_set slot b =
     (let w = unat (slot div 32); idx = unat (slot mod 32) in
      check (\<not> w > unat (words_for_bitmap b)) Panic
      (check (w < length (bitmap_words b)) Out_of_range
       (Inr (bitmap_words b ! w AND push_bit idx 1 \<noteq> 0))))"

section \<open>Slots\<close>

definition bm_bit :: "bitmap \<Rightarrow> nat \<Rightarrow> bool" where
  "bm_bit b i = bit (bitmap_words b ! (i div 32)) (i mod 32)"

definition taken :: "bitmap \<Rightarrow> nat set" where
  "taken b = {i. i < unat (max_slot b) \<and> bm_bit b i}"

definition bm_inv :: "bitmap \<Rightarrow> bool" where
  "bm_inv b \<longleftrightarrow> unat (words_for_bitmap b) = (unat (max_slot b) + 31) div 32 \<and>
     length (bitmap_words b) = unat (words_for_bitmap b)"

lemma ffs_0: "ffs v = 0 \<longleftrightarrow> (\<forall>i < 32. \<not> bit v i)"
  by (auto simp: ffs_def find_None_iff find_Some_iff split: option.splits)

lemma ffs_Suc: "ffs v = Suc i \<Longrightarrow> i < 32 \<and> bit v i \<and> (\<forall>j < i. \<not> bit v j)"
  by (auto simp: ffs_def find_None_iff find_Some_iff split: option.splits)

lemma set_word_sel [simp]:
  "max_slot (set_word w v b) = max_slot b"
  "words_for_bitmap (set_word w v b) = words_for_bitmap b"
  "bitmap_words (set_word w v b) = (bitmap_words b)[w := v]"
  by (simp_all add: set_word_def)

lemma bm_inv_set_word [simp]: "bm_inv (set_word w v b) = bm_inv b"
  by (simp add: bm_inv_def)

lemma bm_bit_set:
  assumes "i div 32 < length (bitmap_words b)"
  shows "bm_bit (set_word (i div 32) (bitmap_words b ! (i div 32) OR push_bit (i mod 32) 1) b) j =
    (bm_bit b j \<or> j = i)"
  using assms
  by (auto simp: bm_bit_def nth_list_update bit_or_iff bit_word_exp)
    (metis div_mult_mod_eq)

lemma bm_bit_clear:
  assumes "i div 32 < length (bitmap_words b)"
  shows "bm_bit (set_word (i div 32) (bitmap_words b ! (i div 32) AND NOT (push_bit (i mod 32) 1)) b) j =
    (bm_bit b j \<and> j \<noteq> i)"
  using assms
  by (auto simp: bm_bit_def nth_list_update bit_and_iff bit_not_iff bit_word_exp)
    (metis div_mult_mod_eq)

definition set_slot :: "nat \<Rightarrow> bitmap \<Rightarrow> bitmap" where
  "set_slot i b = set_word (i div 32) (bitmap_words b ! (i div 32) OR push_bit (i mod 32) 1) b"

definition clear_slot :: "nat \<Rightarrow> bitmap \<Rightarrow> bitmap" where
  "clear_slot i b = set_word (i div 32) (bitmap_words b ! (i div 32) AND NOT (push_bit (i mod 32) 1)) b"

lemma slot_sel [simp]:
  "max_slot (set_slot i b) = max_slot b" "bm_inv (set_slot i b) = bm_inv b"
  "max_slot (clear_slot i b) = max_slot b" "bm_inv (clear_slot i b) = bm_inv b"
  by (simp_all add: set_slot_def clear_slot_def)

lemma bm_inv_range: "bm_inv b \<Longrightarrow> i < unat (max_slot b) \<Longrightarrow> i div 32 < length (bitmap_words b)"
  using div_le_mono [of "i + 32" "unat (max_slot b) + 31" 32] by (simp add: bm_inv_def)

lemma taken_set_slot:
  assumes "i div 32 < length (bitmap_words b)"
  shows "taken (set_slot i b) = (if i < unat (max_slot b) then insert i (taken b) else taken b)"
  using bm_bit_set [OF assms] by (auto simp: taken_def set_slot_def)

lemma taken_clear_slot:
  assumes "i div 32 < length (bitmap_words b)"
  shows "taken (clear_slot i b) = taken b - {i}"
  using bm_bit_clear [OF assms] by (auto simp: taken_def clear_slot_def)

text \<open>The least unset bit at or after position \<open>k\<close>.\<close>

definition first_unset :: "bitmap \<Rightarrow> nat \<Rightarrow> nat \<Rightarrow> bool" where
  "first_unset b k i \<longleftrightarrow> k \<le> i \<and> i div 32 < length (bitmap_words b) \<and> \<not> bm_bit b i \<and>
     (\<forall>j. k \<le> j \<and> j < i \<longrightarrow> bm_bit b j)"

lemma ffs_word_full:
  assumes "ffs (NOT (bitmap_words b ! w)) = 0" "w * 32 \<le> j" "j < Suc w * 32"
  shows "bm_bit b j"
proof -
  have "j div 32 = w" using assms(2,3) by simp
  then show ?thesis using assms(1) by (auto simp: bm_bit_def ffs_0 bit_not_iff)
qed

lemma ffs_word_first:
  assumes "ffs (NOT (bitmap_words b ! w)) = Suc k" "w < length (bitmap_words b)"
  shows "first_unset b (w * 32) (k + w * 32)" "(k + w * 32) div 32 = w" "(k + w * 32) mod 32 = k"
proof -
  have k: "k < 32" "\<not> bit (bitmap_words b ! w) k" "\<forall>j < k. bit (bitmap_words b ! w) j"
    using ffs_Suc [OF assms(1)] by (auto simp: bit_not_iff)
  then show q: "(k + w * 32) div 32 = w" "(k + w * 32) mod 32 = k" by auto
  have "bm_bit b j" if "w * 32 \<le> j" "j < k + w * 32" for j
  proof -
    define d where "d = j - w * 32"
    have "j = d + w * 32" "d < k" using that by (auto simp: d_def)
    then show ?thesis using k(1,3) by (simp add: bm_bit_def)
  qed
  then show "first_unset b (w * 32) (k + w * 32)"
    using q k assms(2) by (simp add: first_unset_def bm_bit_def)
qed

lemma first_unset_lower:
  assumes "first_unset b k' i" "k \<le> k'" "\<And>j. k \<le> j \<Longrightarrow> j < k' \<Longrightarrow> bm_bit b j"
  shows "first_unset b k i"
  using assms unfolding first_unset_def by (meson le_trans not_le)

lemma next_free_loop_spec:
  assumes "bm_inv b" "unat (max_slot b) \<le> 2 ^ 31" "w + n = length (bitmap_words b)"
  shows "(next_free_loop b w n = Inr (status_val E_INSUFFICIENT_RESOURCES, b) \<and>
      (\<forall>i. w * 32 \<le> i \<and> i div 32 < length (bitmap_words b) \<longrightarrow> bm_bit b i)) \<or>
    (\<exists>i. first_unset b (w * 32) i \<and> next_free_loop b w n =
      Inr (if i < unat (max_slot b) then int i else status_val E_INSUFFICIENT_RESOURCES, set_slot i b))"
  using assms(3)
proof (induction n arbitrary: w)
  case 0
  have "w \<le> i div 32" if "w * 32 \<le> i" for i using that by (simp add: less_eq_div_iff_mult_less_eq)
  then show ?case using 0 by force
next
  case (Suc n)
  have w: "w < length (bitmap_words b)" using Suc.prems by simp
  show ?case
  proof (cases "ffs (NOT (bitmap_words b ! w))")
    case 0
    note full = ffs_word_full [OF 0]
    note lift = first_unset_lower [OF _ _ full, of "Suc w * 32"]
    have eq: "next_free_loop b w (Suc n) = next_free_loop b (Suc w) n"
      using 0 w assms(1) Suc.prems by (cases n) (auto simp: bm_inv_def)
    from Suc.IH [of "Suc w"] Suc.prems consider
        "next_free_loop b (Suc w) n = Inr (status_val E_INSUFFICIENT_RESOURCES, b)"
        "\<forall>i. Suc w * 32 \<le> i \<and> i div 32 < length (bitmap_words b) \<longrightarrow> bm_bit b i"
      | i where "first_unset b (Suc w * 32) i" "next_free_loop b (Suc w) n =
          Inr (if i < unat (max_slot b) then int i else status_val E_INSUFFICIENT_RESOURCES, set_slot i b)"
      by auto
    then show ?thesis
    proof cases
      case 1
      then have "\<forall>i. w * 32 \<le> i \<and> i div 32 < length (bitmap_words b) \<longrightarrow> bm_bit b i"
        using full by (meson not_le)
      then show ?thesis using 1(1) eq by simp
    next
      case 2
      have "first_unset b (w * 32) i" using lift [OF 2(1)] by simp
      then show ?thesis using 2(2) eq by metis
    qed
  next
    case (Suc k)
    note f = ffs_word_first [OF Suc w]
    have "Suc w * 32 \<le> unat (max_slot b) + 31"
      using assms(1) w by (simp add: bm_inv_def Suc_le_eq [symmetric] less_eq_div_iff_mult_less_eq)
    then have "k + w * 32 < 2 ^ 32"
      using assms(2) f(3) mod_less_divisor [of 32 "k + w * 32"] by simp
    then have u: "unat (of_nat (k + w * 32) :: u32) = k + w * 32"
      by (simp add: unat_of_nat del: of_nat_add of_nat_mult)
    have "sint (of_nat (k + w * 32) :: u32) = int (k + w * 32)" if "k + w * 32 < unat (max_slot b)"
      using that assms(2) by (intro sint_of_nat_small) simp
    then have "next_free_loop b w (Suc n) = Inr (if k + w * 32 < unat (max_slot b)
        then int (k + w * 32) else status_val E_INSUFFICIENT_RESOURCES, set_slot (k + w * 32) b)"
      using f(2,3) Suc w u
      by (simp add: set_slot_def Let_def word_le_nat_alt del: of_nat_add of_nat_mult)
    then show ?thesis using f(1) by blast
  qed
qed

lemma next_free_cases:
  assumes "bm_inv b" "unat (max_slot b) \<le> 2 ^ 31"
  obtains (none) "next_free b = Inr (status_val E_INSUFFICIENT_RESOURCES, b)"
      "\<And>i. i < unat (max_slot b) \<Longrightarrow> i \<in> taken b"
    | (some) i where "first_unset b 0 i"
      "next_free b =
        Inr (if i < unat (max_slot b) then int i else status_val E_INSUFFICIENT_RESOURCES, set_slot i b)"
proof -
  have "0 + unat (words_for_bitmap b) = length (bitmap_words b)"
    using assms(1) by (simp add: bm_inv_def)
  from next_free_loop_spec [OF assms this] consider
      "next_free b = Inr (status_val E_INSUFFICIENT_RESOURCES, b)"
      "\<forall>i. i div 32 < length (bitmap_words b) \<longrightarrow> bm_bit b i"
    | i where "first_unset b 0 i" "next_free b =
        Inr (if i < unat (max_slot b) then int i else status_val E_INSUFFICIENT_RESOURCES, set_slot i b)"
    unfolding next_free_def by auto
  then show thesis
    by cases (use that bm_inv_range [OF assms(1)] in \<open>auto simp: taken_def\<close>)
qed

lemma next_free_full:
  assumes "bm_inv b" "unat (max_slot b) \<le> 2 ^ 31" "\<forall>i < unat (max_slot b). i \<in> taken b"
  shows "\<exists>b'. next_free b = Inr (status_val E_INSUFFICIENT_RESOURCES, b') \<and> bm_inv b' \<and>
    max_slot b' = max_slot b \<and> taken b' = taken b"
using assms(1,2)
proof (cases rule: next_free_cases)
  case none
  then show ?thesis using assms(1) by blast
next
  case (some i)
  then have i: "i div 32 < length (bitmap_words b)" "\<not> i < unat (max_slot b)"
    using assms(3) by (auto simp: first_unset_def taken_def)
  then show ?thesis
    using some(2) assms(1) taken_set_slot [OF i(1)] by (intro exI [of _ "set_slot i b"]) simp
qed

lemma next_free_least:
  assumes "bm_inv b" "unat (max_slot b) \<le> 2 ^ 31" "k < unat (max_slot b)" "k \<notin> taken b"
    "\<forall>j < k. j \<in> taken b"
  shows "next_free b = Inr (int k, set_slot k b)"
using assms(1,2)
proof (cases rule: next_free_cases)
  case none
  then show ?thesis using assms(3,4) by blast
next
  case (some i)
  have "\<not> bm_bit b k" "\<And>j. j < k \<Longrightarrow> bm_bit b j"
    using assms(3-5) by (auto simp: taken_def)
  then have "i = k"
    using some(1) unfolding first_unset_def by (meson le0 linorder_neqE_nat)
  then show ?thesis using some(2) assms(3) by simp
qed

lemma mark_free_valid:
  assumes "bm_inv b" "unat slot < unat (max_slot b)"
  shows "mark_free slot b = Inr (status_val S_OK, clear_slot (unat slot) b)"
proof -
  have "unat (slot div 32) = unat slot div 32" "unat (slot mod 32) = unat slot mod 32"
    by (simp_all add: unat_div unat_mod)
  then show ?thesis
    using assms bm_inv_range [OF assms]
    by (simp add: mark_free_def clear_slot_def Let_def check_def word_less_nat_alt bm_inv_def)
qed

text \<open>The bitmap as a slot allocator.\<close>

definition bm_ok :: "bitmap \<Rightarrow> bool" where
  "bm_ok b \<longleftrightarrow> bm_inv b \<and> unat (max_slot b) \<le> 2 ^ 31"

definition bm_alloc :: "bitmap \<Rightarrow> nat option \<times> bitmap" where
  "bm_alloc b = (case next_free b of Inl _ \<Rightarrow> (None, b)
     | Inr (r, b') \<Rightarrow> (if r < 0 then None else Some (nat r), b'))"

definition bm_release :: "nat \<Rightarrow> bitmap \<Rightarrow> bitmap" where
  "bm_release i b = (case mark_free (of_nat i) b of Inl _ \<Rightarrow> b | Inr (_, b') \<Rightarrow> b')"

lemma taken_range: "taken b \<subseteq> {..<unat (max_slot b)}"
  by (auto simp: taken_def)

lemma least_free:
  assumes "taken b \<noteq> {..<unat (max_slot b)}"
  shows "\<exists>k < unat (max_slot b). k \<notin> taken b \<and> (\<forall>j < k. j \<in> taken b)"
proof -
  have "\<exists>k < unat (max_slot b). k \<notin> taken b" using assms taken_range [of b] by auto
  then obtain k where "k < unat (max_slot b) \<and> k \<notin> taken b"
    "\<forall>j < k. \<not> (j < unat (max_slot b) \<and> j \<notin> taken b)"
    unfolding exists_least_iff [of "\<lambda>k. k < unat (max_slot b) \<and> k \<notin> taken b"] by blast
  then show ?thesis by (intro exI [of _ k]) simp
qed

lemma set_slot_ok:
  assumes "bm_ok b" "k < unat (max_slot b)"
  shows "bm_ok (set_slot k b) \<and> taken (set_slot k b) = insert k (taken b)"
  using assms taken_set_slot [of k b] bm_inv_range [of b k] by (simp add: bm_ok_def)

lemma bm_alloc_cases:
  assumes "bm_ok b"
  obtains (full) b' where "bm_alloc b = (None, b')" "taken b = {..<unat (max_slot b)}"
      "taken b' = taken b" "bm_ok b'" "max_slot b' = max_slot b"
    | (slot) k where "bm_alloc b = (Some k, set_slot k b)" "k < unat (max_slot b)" "k \<notin> taken b"
      "taken (set_slot k b) = insert k (taken b)" "bm_ok (set_slot k b)"
proof (cases "taken b = {..<unat (max_slot b)}")
  case True
  then obtain b' where "next_free b = Inr (status_val E_INSUFFICIENT_RESOURCES, b')" "bm_inv b'"
    "max_slot b' = max_slot b" "taken b' = taken b"
    using next_free_full [of b] assms unfolding bm_ok_def by blast
  then show ?thesis
    using full [OF _ True] assms by (simp add: bm_alloc_def bm_ok_def)
next
  case False
  then obtain k where k: "k < unat (max_slot b)" "k \<notin> taken b" "\<forall>j < k. j \<in> taken b"
    using least_free [of b] by blast
  then have "bm_alloc b = (Some k, set_slot k b)"
    using next_free_least [OF _ _ k] assms by (simp add: bm_alloc_def bm_ok_def)
  then show ?thesis
    using slot [of k] k set_slot_ok [OF assms k(1)] by simp
qed

lemma bm_release_spec:
  assumes "bm_ok b" "i \<in> taken b"
  shows "bm_release i b = clear_slot i b" "i div 32 < length (bitmap_words b)"
proof -
  have i: "i < unat (max_slot b)" using assms(2) by (simp add: taken_def)
  then have "unat (of_nat i :: u32) = i"
    using assms(1) by (simp add: unat_of_nat bm_ok_def)
  then show "bm_release i b = clear_slot i b"
    using i assms(1) mark_free_valid [of b "of_nat i"] by (simp add: bm_release_def bm_ok_def)
  show "i div 32 < length (bitmap_words b)"
    using assms(1) i bm_inv_range by (simp add: bm_ok_def)
qed

interpretation bitmap_slots: slot_allocator bm_alloc bm_release taken
  "\<lambda>b. {..<unat (max_slot b)}" bm_ok
proof unfold_locales
  fix b b' i
  assume ok: "bm_ok b"
  show "bm_alloc b = (None, b') \<Longrightarrow> taken b = {..<unat (max_slot b)} \<and> taken b' = taken b \<and>
    bm_ok b' \<and> {..<unat (max_slot b')} = {..<unat (max_slot b)}"
    using ok by (cases rule: bm_alloc_cases) auto
  show "bm_alloc b = (Some i, b') \<Longrightarrow> i \<in> {..<unat (max_slot b)} \<and> i \<notin> taken b \<and>
    taken b' = insert i (taken b) \<and> bm_ok b' \<and> {..<unat (max_slot b')} = {..<unat (max_slot b)}"
    using ok by (cases rule: bm_alloc_cases) auto
  show "i \<in> taken b \<Longrightarrow> taken (bm_release i b) = taken b - {i} \<and> bm_ok (bm_release i b) \<and>
    {..<unat (max_slot (bm_release i b))} = {..<unat (max_slot b)}"
    using ok bm_release_spec [of b i] by (simp add: taken_clear_slot bm_ok_def)
qed (auto simp: taken_def)

section \<open>Concurrent threads\<close>

text \<open>
  The same code as atomic actions on the shared words: the read of a word, and the
  compare-and-swap, which fails when another thread changed the word in between. \<open>Scan w c\<close> is at
  the head of the loop of \<^verbatim>\<open>next_free\<close> with \<open>c\<close> words checked, \<open>Swap\<close> is before its
  compare-and-swap; \<open>Clear\<close> and \<open>Clear_swap\<close> are the two points of the retry loop of
  \<^verbatim>\<open>mark_free\<close>. The third component of a step is the slot it returns.
\<close>

datatype pc = Idle | Scan nat nat | Swap nat nat u32 | Clear nat | Clear_swap nat u32

fun thread_step :: "bitmap \<Rightarrow> pc \<Rightarrow> (bitmap \<times> pc \<times> nat option) outcome" where
  "thread_step b Idle = Inr (b, Idle, None)"
| "thread_step b (Scan w c) =
     (if c < unat (words_for_bitmap b) then
        check (w < length (bitmap_words b)) Out_of_range
        (let curr_val = bitmap_words b ! w in
         if ffs (NOT curr_val) = 0 then
           Inr (b, Scan (if Suc w = unat (words_for_bitmap b) then 0 else Suc w) (Suc c), None)
         else Inr (b, Swap w c curr_val, None))
      else Inr (b, Idle, None))"
| "thread_step b (Swap w c curr_val) =
     check (w < length (bitmap_words b)) Out_of_range
     (let idx = ffs (NOT curr_val) - 1; new_val = curr_val OR push_bit idx 1 in
      if bitmap_words b ! w \<noteq> curr_val then Inr (b, Scan w c, None)
      else
        let b1 = set_word w new_val b; return_idx = (of_nat (idx + w * 32) :: u32)
        in if return_idx \<ge> max_slot b then Inr (b1, Idle, None)
           else Inr (b1, Idle, Some (unat return_idx)))"
| "thread_step b (Clear slot) =
     check (slot div 32 < length (bitmap_words b)) Out_of_range
     (Inr (b, Clear_swap slot (bitmap_words b ! (slot div 32)), None))"
| "thread_step b (Clear_swap slot old_val) =
     check (slot div 32 < length (bitmap_words b)) Out_of_range
     (if bitmap_words b ! (slot div 32) \<noteq> old_val then Inr (b, Clear slot, None)
      else Inr (set_word (slot div 32) (old_val AND NOT (push_bit (slot mod 32) 1)) b, Idle, None))"

text \<open>
  A system of threads sharing a bitmap. \<open>held t\<close> are the slots thread \<open>t\<close> got and has not asked to
  release. A thread releases only slots it holds.
\<close>

record bm_system =
  shared :: bitmap
  pcs :: "nat \<Rightarrow> pc"
  held :: "nat \<Rightarrow> nat set"

inductive bm_step :: "bm_system \<Rightarrow> bm_system \<Rightarrow> bool" where
  call_next_free: "pcs s t = Idle \<Longrightarrow> bm_step s (s\<lparr>pcs := (pcs s)(t := Scan 0 0)\<rparr>)"
| call_mark_free: "pcs s t = Idle \<Longrightarrow> slot \<in> held s t \<Longrightarrow>
    bm_step s (s\<lparr>pcs := (pcs s)(t := Clear slot), held := (held s)(t := held s t - {slot})\<rparr>)"
| code_step: "thread_step (shared s) (pcs s t) = Inr (b, p, r) \<Longrightarrow>
    bm_step s \<lparr>shared = b, pcs = (pcs s)(t := p),
      held = (held s)(t := held s t \<union> set_option r)\<rparr>"

definition bm_start :: "bitmap \<Rightarrow> bm_system" where
  "bm_start b = \<lparr>shared = b, pcs = (\<lambda>_. Idle), held = (\<lambda>_. {})\<rparr>"

fun releasing :: "pc \<Rightarrow> nat set" where
  "releasing (Clear slot) = {slot}"
| "releasing (Clear_swap slot _) = {slot}"
| "releasing _ = {}"

definition owns :: "bm_system \<Rightarrow> nat \<Rightarrow> nat set" where
  "owns s t = held s t \<union> releasing (pcs s t)"

fun pc_ok :: "bitmap \<Rightarrow> pc \<Rightarrow> bool" where
  "pc_ok b (Scan w c) = (w < length (bitmap_words b) \<or> length (bitmap_words b) = 0)"
| "pc_ok b (Swap w c v) = (w < length (bitmap_words b) \<and> ffs (NOT v) \<noteq> 0)"
| "pc_ok b _ = True"

definition sys_inv :: "bm_system \<Rightarrow> bool" where
  "sys_inv s \<longleftrightarrow> bm_ok (shared s) \<and> (\<forall>t. pc_ok (shared s) (pcs s t)) \<and>
     taken (shared s) = (\<Union>t. owns s t) \<and> (\<forall>t u. t \<noteq> u \<longrightarrow> owns s t \<inter> owns s u = {}) \<and>
     (\<forall>t. held s t \<inter> releasing (pcs s t) = {})"

text \<open>What one step of a thread does to the slots.\<close>

definition slot_effect :: "bitmap \<Rightarrow> pc \<Rightarrow> bitmap \<Rightarrow> pc \<Rightarrow> nat set \<Rightarrow> bool" where
  "slot_effect b p b' p' got \<longleftrightarrow> bm_ok b' \<and> pc_ok b' p' \<and>
     length (bitmap_words b') = length (bitmap_words b) \<and> got \<inter> taken b = {} \<and>
     releasing p' \<subseteq> releasing p \<and> taken b' = taken b \<union> got - (releasing p - releasing p')"

lemma slot_index_bound:
  assumes "bm_ok b" "w < length (bitmap_words b)" "k < 32"
  shows "unat (of_nat (k + w * 32) :: u32) = k + w * 32"
proof -
  have "Suc w * 32 \<le> unat (max_slot b) + 31"
    using assms(1,2)
    by (simp add: bm_ok_def bm_inv_def Suc_le_eq [symmetric] less_eq_div_iff_mult_less_eq)
  then have "k + w * 32 < 2 ^ 32" using assms by (simp add: bm_ok_def)
  then show ?thesis by (simp add: unat_of_nat del: of_nat_add of_nat_mult)
qed

lemma slot_effect_swap:
  assumes "bm_ok b" "w < length (bitmap_words b)" "ffs (NOT (bitmap_words b ! w)) = Suc k"
  shows "\<exists>b' p' r. thread_step b (Swap w c (bitmap_words b ! w)) = Inr (b', p', r) \<and>
    slot_effect b (Swap w c (bitmap_words b ! w)) b' p' (set_option r)"
proof -
  note f = ffs_word_first [OF assms(3,2)]
  let ?i = "k + w * 32"
  have i: "?i \<notin> taken b" "?i div 32 < length (bitmap_words b)"
    using f(1) by (auto simp: first_unset_def taken_def)
  have u: "unat (of_nat ?i :: u32) = ?i"
    using slot_index_bound [OF assms(1,2)] f(3) mod_less_divisor [of 32 ?i] by simp
  have "thread_step b (Swap w c (bitmap_words b ! w)) =
      Inr (set_slot ?i b, Idle, if ?i < unat (max_slot b) then Some ?i else None)"
    using assms(2,3) f(2,3) u
    by (simp add: set_slot_def Let_def word_le_nat_alt del: of_nat_add of_nat_mult)
  moreover have "slot_effect b (Swap w c (bitmap_words b ! w)) (set_slot ?i b) Idle
      (set_option (if ?i < unat (max_slot b) then Some ?i else None))"
    using assms(1) i taken_set_slot [OF i(2)] by (simp add: slot_effect_def bm_ok_def set_slot_def)
  ultimately show ?thesis by blast
qed

lemma thread_step_slots:
  assumes "bm_ok b" "pc_ok b p" "releasing p \<subseteq> taken b"
  shows "\<exists>b' p' r. thread_step b p = Inr (b', p', r) \<and> slot_effect b p b' p' (set_option r)"
proof (cases p)
  case (Scan w c)
  then show ?thesis
    using assms(1,2) by (auto simp: slot_effect_def bm_ok_def bm_inv_def Let_def)
next
  case (Swap w c v)
  then show ?thesis
    using assms slot_effect_swap [of b w "ffs (NOT v) - 1" c]
    by (cases "bitmap_words b ! w = v") (auto simp: slot_effect_def Let_def)
next
  case (Clear i)
  then have "i div 32 < length (bitmap_words b)"
    using assms bm_release_spec by simp
  then show ?thesis using assms Clear by (simp add: slot_effect_def)
next
  case (Clear_swap i v)
  then have i: "i div 32 < length (bitmap_words b)"
    using assms bm_release_spec by simp
  have "slot_effect b p (clear_slot i b) Idle {}"
    using assms Clear_swap taken_clear_slot [OF i] by (simp add: slot_effect_def bm_ok_def clear_slot_def)
  then show ?thesis using assms Clear_swap i
    by (cases "bitmap_words b ! (i div 32) = v") (auto simp: slot_effect_def clear_slot_def)
qed (use assms in \<open>simp add: slot_effect_def\<close>)

lemma pc_ok_cong:
  "length (bitmap_words b') = length (bitmap_words b) \<Longrightarrow> pc_ok b p \<Longrightarrow> pc_ok b' p"
  by (cases p) auto

text \<open>Disjoint ownership is kept when one owner gives up \<open>D\<close> and gets \<open>G\<close>, which nobody owns.\<close>

lemma ownership_transfer:
  fixes own :: "'t \<Rightarrow> 'a set"
  assumes disj: "\<And>u v. u \<noteq> v \<Longrightarrow> own u \<inter> own v = {}" and D: "D \<subseteq> own t" and G: "G \<inter> (\<Union>u. own u) = {}"
  shows "(\<Union>u. (own(t := own t - D \<union> G)) u) = (\<Union>u. own u) \<union> G - D"
    and "u \<noteq> v \<Longrightarrow> (own(t := own t - D \<union> G)) u \<inter> (own(t := own t - D \<union> G)) v = {}"
proof -
  define R where "R = \<Union> (own ` {u. u \<noteq> t})"
  have upd: "(\<Union>u. (own(t := X)) u) = X \<union> R" for X
    by (simp add: R_def)
  have all: "(\<Union>u. own u) = own t \<union> R"
    using upd [of "own t"] by simp
  have "own t \<inter> R = {}" by (simp add: R_def Int_UN_distrib disj)
  then show "(\<Union>u. (own(t := own t - D \<union> G)) u) = (\<Union>u. own u) \<union> G - D"
    unfolding upd all using D G all by blast
  have "own v \<inter> G = {}" for v using G by blast
  then show "u \<noteq> v \<Longrightarrow> (own(t := own t - D \<union> G)) u \<inter> (own(t := own t - D \<union> G)) v = {}"
    using disj [of u v] by (cases "u = t"; cases "v = t") auto
qed

lemma sys_inv_thread:
  assumes "sys_inv s"
  shows "\<exists>b p r. thread_step (shared s) (pcs s t) = Inr (b, p, r) \<and>
    slot_effect (shared s) (pcs s t) b p (set_option r)"
proof (rule thread_step_slots)
  show "releasing (pcs s t) \<subseteq> taken (shared s)"
    using assms by (auto simp: sys_inv_def owns_def)
qed (use assms in \<open>simp_all add: sys_inv_def\<close>)

lemma sys_inv_code:
  assumes inv: "sys_inv s" and step: "thread_step (shared s) (pcs s t) = Inr (b, p, r)"
  shows "sys_inv \<lparr>shared = b, pcs = (pcs s)(t := p), held = (held s)(t := held s t \<union> set_option r)\<rparr>"
    (is "sys_inv ?s'")
proof -
  let ?D = "releasing (pcs s t) - releasing p"
  have eff: "slot_effect (shared s) (pcs s t) b p (set_option r)"
    using sys_inv_thread [OF inv, of t] step by auto
  have len: "length (bitmap_words b) = length (bitmap_words (shared s))"
    using eff by (simp add: slot_effect_def)
  have G: "set_option r \<inter> (\<Union>u. owns s u) = {}" and disj: "\<And>u v. u \<noteq> v \<Longrightarrow> owns s u \<inter> owns s v = {}"
    using inv eff unfolding sys_inv_def slot_effect_def by metis+
  have D: "?D \<subseteq> owns s t" by (auto simp: owns_def)
  have hr: "held s u \<inter> releasing (pcs s u) = {}" for u
    using inv by (simp add: sys_inv_def)
  have sub: "releasing p \<subseteq> releasing (pcs s t)" using eff by (simp add: slot_effect_def)
  have "owns ?s' t = owns s t - ?D \<union> set_option r"
    using hr [of t] sub by (auto simp: owns_def)
  then have o: "owns ?s' = (owns s)(t := owns s t - ?D \<union> set_option r)"
    by (intro ext) (simp add: owns_def)
  have "held ?s' u \<inter> releasing (pcs ?s' u) = {}" for u
    using hr [of u] sub G by (auto simp: owns_def)
  moreover have "bm_ok b" "pc_ok b p" and tk: "taken b = (\<Union>u. owns s u) \<union> set_option r - ?D"
    using inv eff by (simp_all add: slot_effect_def sys_inv_def)
  moreover have "taken b = (\<Union>u. owns ?s' u)"
    unfolding o tk by (rule ownership_transfer(1) [OF disj D G, symmetric])
  moreover have "u \<noteq> v \<Longrightarrow> owns ?s' u \<inter> owns ?s' v = {}" for u v
    unfolding o by (rule ownership_transfer(2) [OF disj D G])
  moreover have "pc_ok b (pcs s u)" for u
    using inv pc_ok_cong [OF len] by (simp add: sys_inv_def)
  ultimately show ?thesis by (simp add: sys_inv_def)
qed

lemma sys_inv_step:
  assumes "bm_step s s'" "sys_inv s"
  shows "sys_inv s'"
  using assms
proof cases
  case (call_next_free t)
  have "owns s' = owns s" using call_next_free by (intro ext) (simp add: owns_def)
  then show ?thesis using assms(2) call_next_free by (auto simp: sys_inv_def)
next
  case (call_mark_free t slot)
  have "owns s' = owns s" using call_mark_free by (intro ext) (auto simp: owns_def)
  moreover have "held s' u \<inter> releasing (pcs s' u) = {}" for u
    using assms(2) call_mark_free by (auto simp: sys_inv_def)
  ultimately show ?thesis using assms(2) call_mark_free by (simp add: sys_inv_def)
next
  case (code_step t b p r)
  then show ?thesis using sys_inv_code assms(2) by simp
qed

lemma sys_inv_reachable: "bm_step\<^sup>*\<^sup>* s s' \<Longrightarrow> sys_inv s \<Longrightarrow> sys_inv s'"
  by (induction rule: rtranclp_induct) (auto intro: sys_inv_step)

lemma thread_step_max_slot: "thread_step b p = Inr (b', p', r) \<Longrightarrow> max_slot b' = max_slot b"
  by (cases p) (auto simp: Let_def check_eq_Inr split: if_splits)

lemma bm_step_max_slot: "bm_step\<^sup>*\<^sup>* s s' \<Longrightarrow> max_slot (shared s') = max_slot (shared s)"
  by (induction rule: rtranclp_induct) (auto elim!: bm_step.cases dest: thread_step_max_slot)

lemma sys_inv_start: "bm_ok b \<Longrightarrow> taken b = {} \<Longrightarrow> sys_inv (bm_start b)"
  by (simp add: sys_inv_def bm_start_def owns_def)

lemma new_bitmap_words:
  assumes "slots \<le> 2 ^ 31"
  shows "unat (words_for_bitmap (new_bitmap slots)) = (unat slots + 31) div 32"
    "unat (max_slot (new_bitmap slots)) = unat slots"
proof -
  have n: "unat slots \<le> 2 ^ 31" using assms by (simp add: word_le_nat_alt)
  show "unat (max_slot (new_bitmap slots)) = unat slots"
    using n by (simp add: new_bitmap_def Let_def unsigned_ucast_eq take_bit_nat_eq_self)
  have c: "unat (ucast (slots div 32) :: u32) = unat slots div 32"
    using n by (simp add: unsigned_ucast_eq unat_div take_bit_nat_eq_self div_le_dividend le_less_trans)
  have m: "slots mod 32 \<noteq> 0 \<longleftrightarrow> unat slots mod 32 \<noteq> 0"
    by (simp add: word_unat_eq_iff unat_mod)
  have "unat slots div 32 \<le> 2 ^ 31 div 32" using n by (rule div_le_mono)
  then have "unat (words_for_bitmap (new_bitmap slots)) =
      unat slots div 32 + (if unat slots mod 32 \<noteq> 0 then 1 else 0)"
    using c m by (simp add: new_bitmap_def Let_def unat_word_ariths(1))
  also have "\<dots> = (unat slots + 31) div 32" using ceil_div [of 32 "unat slots"] by simp
  finally show "unat (words_for_bitmap (new_bitmap slots)) = (unat slots + 31) div 32" .
qed

lemma new_bitmap_ok:
  assumes "slots \<le> 2 ^ 31"
  shows "bm_ok (new_bitmap slots)" "taken (new_bitmap slots) = {}"
proof -
  have len: "bitmap_words (new_bitmap slots) =
      replicate (unat (words_for_bitmap (new_bitmap slots))) 0"
    by (simp add: new_bitmap_def Let_def)
  then show ok: "bm_ok (new_bitmap slots)"
    using new_bitmap_words [OF assms] assms
    by (simp add: bm_ok_def bm_inv_def word_le_nat_alt)
  then have "\<not> bm_bit (new_bitmap slots) i" if "i < unat (max_slot (new_bitmap slots))" for i
    using bm_inv_range [OF _ that] len by (simp add: bm_ok_def bm_bit_def)
  then show "taken (new_bitmap slots) = {}" by (auto simp: taken_def)
qed

section \<open>Properties\<close>

text \<open>
  C22. Run alone on a well-formed bitmap of at most \<open>2\<^sup>31\<close> slots, \<^verbatim>\<open>next_free\<close> returns the lowest free
  slot and takes that slot only, or returns \<^verbatim>\<open>E_INSUFFICIENT_RESOURCES\<close> and takes no slot when
  there is no free one.
\<close>

theorem next_free_correct:
  assumes "bm_ok b"
  shows "if taken b = {..<unat (max_slot b)}
    then \<exists>b'. next_free b = Inr (status_val E_INSUFFICIENT_RESOURCES, b') \<and> bm_ok b' \<and>
      max_slot b' = max_slot b \<and> taken b' = taken b
    else \<exists>k b'. next_free b = Inr (int k, b') \<and> k \<notin> taken b \<and> (\<forall>j < k. j \<in> taken b) \<and>
      k < unat (max_slot b) \<and> bm_ok b' \<and> max_slot b' = max_slot b \<and> taken b' = insert k (taken b)"
proof (cases "taken b = {..<unat (max_slot b)}")
  case True
  then obtain b' where "next_free b = Inr (status_val E_INSUFFICIENT_RESOURCES, b')" "bm_inv b'"
    "max_slot b' = max_slot b" "taken b' = taken b"
    using next_free_full [of b] assms unfolding bm_ok_def by blast
  then show ?thesis using True assms by (simp add: bm_ok_def)
next
  case False
  then obtain k where k: "k < unat (max_slot b)" "k \<notin> taken b" "\<forall>j < k. j \<in> taken b"
    using least_free [of b] by blast
  then have "next_free b = Inr (int k, set_slot k b)"
    using next_free_least [OF _ _ k] assms by (simp add: bm_ok_def)
  moreover have "bm_ok (set_slot k b) \<and> taken (set_slot k b) = insert k (taken b)"
    using set_slot_ok [OF assms k(1)] .
  ultimately show ?thesis using False k by auto
qed

theorem next_free_correct_witness: "\<exists>b'. next_free (new_bitmap 40) = Inr (0, b') \<and> taken b' = {0}"
proof -
  have b: "bm_ok (new_bitmap 40)" "taken (new_bitmap 40) = {}" "unat (max_slot (new_bitmap 40)) = 40"
    using new_bitmap_ok [of 40] new_bitmap_words(2) [of 40] by simp_all
  moreover have "{..<40 :: nat} \<noteq> {}" by (simp add: lessThan_empty_iff)
  ultimately obtain k b' where "next_free (new_bitmap 40) = Inr (int k, b')" "\<forall>j < k. False"
    "taken b' = {k}"
    using next_free_correct [of "new_bitmap 40"] by (metis empty_iff)
  moreover from this(2) have "k = 0" by auto
  ultimately show ?thesis by simp
qed

text \<open>
  On every slot number: \<^verbatim>\<open>mark_free\<close> of a slot in range frees that slot only; of a slot above
  the maximum it panics; and of the slot equal to the maximum, which its range check lets through,
  it writes past the end of the array whenever the number of slots is a multiple of 32.
\<close>

theorem mark_free_cases:
  assumes "bm_ok b"
  shows "(slot < max_slot b \<longrightarrow> (\<exists>b'. mark_free slot b = Inr (status_val S_OK, b') \<and> bm_ok b' \<and>
      max_slot b' = max_slot b \<and> taken b' = taken b - {unat slot})) \<and>
    (slot > max_slot b \<longrightarrow> mark_free slot b = Inl Panic) \<and>
    (max_slot b mod 32 = 0 \<longrightarrow> mark_free (max_slot b) b = Inl Out_of_range)"
proof (intro conjI impI)
  assume "slot < max_slot b"
  then have s: "unat slot < unat (max_slot b)" by (simp add: word_less_nat_alt)
  then show "\<exists>b'. mark_free slot b = Inr (status_val S_OK, b') \<and> bm_ok b' \<and>
      max_slot b' = max_slot b \<and> taken b' = taken b - {unat slot}"
    using assms mark_free_valid [OF _ s] taken_clear_slot [OF bm_inv_range [OF _ s]]
    by (simp add: bm_ok_def)
next
  assume "max_slot b mod 32 = 0"
  then have "unat (max_slot b) mod 32 = 0" by (simp add: word_unat_eq_iff unat_mod)
  then have "(unat (max_slot b) + 31) div 32 = unat (max_slot b) div 32"
    using ceil_div [of 32 "unat (max_slot b)"] by simp
  then show "mark_free (max_slot b) b = Inl Out_of_range"
    using assms by (simp add: mark_free_def Let_def bm_ok_def bm_inv_def unat_div)
qed (simp add: mark_free_def)

text \<open>
  C21. However the steps of any number of threads interleave, starting from a fresh bitmap, no slot
  is held by two threads at once, every held slot is in range and marked in the bitmap, and no
  thread ever accesses a word outside the array.
\<close>

theorem concurrent_slots_disjoint:
  assumes "slots \<le> 2 ^ 31" "bm_step\<^sup>*\<^sup>* (bm_start (new_bitmap slots)) s"
  shows "(\<forall>t u. t \<noteq> u \<longrightarrow> held s t \<inter> held s u = {}) \<and> (\<forall>t. held s t \<subseteq> taken (shared s)) \<and>
    (\<forall>t. held s t \<subseteq> {..<unat slots}) \<and> (\<forall>t e. thread_step (shared s) (pcs s t) \<noteq> Inl e)"
proof -
  have inv: "sys_inv s"
    using sys_inv_reachable [OF assms(2)] sys_inv_start new_bitmap_ok [OF assms(1)] by blast
  have max: "unat (max_slot (shared s)) = unat slots"
    using bm_step_max_slot [OF assms(2)] new_bitmap_words(2) [OF assms(1)] by (simp add: bm_start_def)
  have sub: "held s t \<subseteq> owns s t" "owns s t \<subseteq> taken (shared s)" for t
    using inv by (auto simp: owns_def sys_inv_def)
  have "held s t \<inter> held s u = {}" if "t \<noteq> u" for t u
    using inv that sub(1) [of t] sub(1) [of u] unfolding sys_inv_def by blast
  moreover have "held s t \<subseteq> {..<unat slots}" for t
    using sub [of t] taken_range [of "shared s"] unfolding max by blast
  moreover have "thread_step (shared s) (pcs s t) \<noteq> Inl e" for t e
    using sys_inv_thread [OF inv, of t] by auto
  ultimately show ?thesis using sub by (meson subset_trans)
qed

theorem concurrent_slots_disjoint_witness:
  "\<exists>s. bm_step\<^sup>*\<^sup>* (bm_start (new_bitmap 40)) s \<and> pcs s 1 = Scan 0 0 \<and> held s 1 \<inter> held s 2 = {}"
proof -
  let ?s = "(bm_start (new_bitmap 40))\<lparr>pcs := (pcs (bm_start (new_bitmap 40)))(1 := Scan 0 0)\<rparr>"
  have "bm_step (bm_start (new_bitmap 40)) ?s"
    by (rule bm_step.call_next_free) (simp add: bm_start_def)
  then have r: "bm_step\<^sup>*\<^sup>* (bm_start (new_bitmap 40)) ?s" by (rule r_into_rtranclp)
  then have "held ?s 1 \<inter> held ?s 2 = {}"
    using concurrent_slots_disjoint [OF _ r] by simp
  then show ?thesis using r by (intro exI [of _ ?s]) simp
qed

end
