(* ===== verification/XDK_NBB.thy ===== *)
theory XDK_NBB
  imports XDK_Contracts
begin

text \<open>
  The non-blocking buffer of \<^verbatim>\<open>lib/libexo/private/__sym_nbb.h\<close>: one producer and one consumer share
  a ring of items and two 32-bit counters, \<open>uc\<close> (twice the number of insertions, odd while one is
  in progress) and \<open>ac\<close> (the same for reads). The counters restart at zero when they reach
  \<open>count_limit\<close>. The operations are first modelled run alone, then as interleaved atomic accesses.
\<close>

section \<open>Operations\<close>

record 'a nbb =
  uc :: u32
  ac :: u32
  last_uc :: u32
  last_ac :: u32
  buffer_size :: u32
  buffer :: "'a list"
  count_limit :: u32

datatype nbb_code = NBB_OK | NBB_FULL | NBB_FULL_BUT_CONSUMER_READING | NBB_EMPTY
  | NBB_EMPTY_BUT_PRODUCER_INSERTING

text \<open>
  The constructor. \<open>items\<close> are the default-constructed elements of \<^verbatim>\<open>new(p) T[size]\<close>; the NUMA
  allocation and \<^verbatim>\<open>hart_id\<close> are not part of the state.
\<close>

definition Symmetric_nbb :: "32 word \<Rightarrow> 'a list \<Rightarrow> 'a nbb outcome" where
  "Symmetric_nbb n items =
     check (sint n > 0) Panic
     (check (4 * n \<noteq> 0) Div_by_zero
      (let k = 2 * ((NOT 0) div (4 * n)) in
       check (k \<ge> 2) Assertion
       (Inr \<lparr>uc = 0, ac = 0, last_uc = 0, last_ac = 0, buffer_size = n,
         buffer = items, count_limit = k * n\<rparr>)))"

definition insert_item :: "'a \<Rightarrow> 'a nbb \<Rightarrow> nbb_code \<times> 'a nbb" where
  "insert_item item q =
     (let temp_ac = ac q in
      if last_uc q - temp_ac = 2 * buffer_size q then (NBB_FULL, q)
      else if last_uc q - temp_ac = 2 * buffer_size q - 1 then (NBB_FULL_BUT_CONSUMER_READING, q)
      else
        let q1 = q\<lparr>uc := last_uc q + 1\<rparr>;
            index = unat ((last_uc q1 div 2) mod buffer_size q1);
            q2 = q1\<lparr>buffer := (buffer q1)[index := item]\<rparr>;
            tmp = last_uc q2 + 2;
            tmp_last_uc = (if tmp = count_limit q2 then 0 else tmp);
            q3 = q2\<lparr>uc := tmp_last_uc\<rparr>
        in (NBB_OK, q3\<lparr>last_uc := uc q3\<rparr>))"

definition read_item :: "'a nbb \<Rightarrow> nbb_code \<times> 'a option \<times> 'a nbb" where
  "read_item q =
     (let temp_uc = uc q in
      if temp_uc = last_ac q then (NBB_EMPTY, None, q)
      else if temp_uc - last_ac q = 1 then (NBB_EMPTY_BUT_PRODUCER_INSERTING, None, q)
      else
        let q1 = q\<lparr>ac := last_ac q + 1\<rparr>;
            index = unat ((last_ac q1 div 2) mod buffer_size q1);
            rItem = buffer q1 ! index;
            tmp = last_ac q1 + 2;
            tmp_last_ac = (if tmp = count_limit q1 then 0 else tmp);
            q2 = q1\<lparr>ac := tmp_last_ac\<rparr>
        in (NBB_OK, Some rItem, q2\<lparr>last_ac := ac q2\<rparr>))"

section \<open>Contents\<close>

definition outstanding :: "'a nbb \<Rightarrow> nat" where
  "outstanding q =
     (if ac q \<le> uc q then unat (uc q) - unat (ac q)
      else unat (uc q) + unat (count_limit q) - unat (ac q)) div 2"

definition first_item :: "'a nbb \<Rightarrow> nat" where
  "first_item q = unat (ac q) div 2"

definition contents :: "'a nbb \<Rightarrow> 'a list" where
  "contents q = ring (buffer q) (first_item q) (outstanding q)"

definition nbb_wf :: "'a nbb \<Rightarrow> bool" where
  "nbb_wf q \<longleftrightarrow> 0 < buffer_size q \<and> length (buffer q) = unat (buffer_size q) \<and>
     unat (count_limit q) mod (2 * unat (buffer_size q)) = 0 \<and>
     4 * unat (buffer_size q) \<le> unat (count_limit q) \<and> unat (count_limit q) < 2 ^ 31 \<and>
     last_uc q = uc q \<and> last_ac q = ac q \<and> even (unat (uc q)) \<and> even (unat (ac q)) \<and>
     uc q < count_limit q \<and> ac q < count_limit q \<and> outstanding q \<le> unat (buffer_size q)"

text \<open>The counters of a well-formed buffer in terms of numbers of items.\<close>

lemma nbb_counters:
  assumes "nbb_wf q"
  obtains J where "unat (count_limit q) = 2 * J" "J mod unat (buffer_size q) = 0"
    "2 * unat (buffer_size q) \<le> J" "unat (ac q) = 2 * first_item q" "first_item q < J"
    "unat (uc q) = 2 * (if first_item q + outstanding q < J
       then first_item q + outstanding q else first_item q + outstanding q - J)"
    "outstanding q \<le> unat (buffer_size q)" "0 < unat (buffer_size q)" "2 * J < 2 ^ 31"
proof -
  let ?s = "unat (buffer_size q)"
  have s: "0 < ?s" using assms by (simp add: nbb_wf_def word_less_nat_alt)
  have "2 * ?s dvd unat (count_limit q)" using assms by (auto simp: nbb_wf_def)
  then obtain k where "unat (count_limit q) = 2 * ?s * k" by (rule dvdE)
  then have "unat (count_limit q) = 2 * (?s * k)" "?s dvd ?s * k" by simp_all
  then obtain J where J: "unat (count_limit q) = 2 * J" "?s dvd J" by blast
  have J2: "2 * ?s \<le> J" using assms J by (simp add: nbb_wf_def)
  obtain a b where ab: "unat (ac q) = 2 * a" "unat (uc q) = 2 * b"
    using assms by (auto simp: nbb_wf_def elim!: evenE)
  have lt: "a < J" "b < J"
    using assms ab J by (auto simp: nbb_wf_def word_less_nat_alt)
  have f: "first_item q = a" using ab by (simp add: first_item_def)
  have o: "outstanding q = (if a \<le> b then b - a else b + J - a)"
    using ab J lt by (auto simp: outstanding_def word_le_nat_alt)
  have "b = (if a + outstanding q < J then a + outstanding q else a + outstanding q - J)"
    using o lt by auto
  then show thesis
    using that [of J] J J2 ab lt f s assms by (simp add: nbb_wf_def mod_eq_0_iff_dvd)
qed

text \<open>The 32-bit difference that the full test of the producer looks at.\<close>

lemma nbb_difference:
  assumes "nbb_wf q"
  shows "unat (uc q - ac q) =
    (if 2 * (first_item q + outstanding q) < unat (count_limit q) then 2 * outstanding q
     else 2 ^ 32 + 2 * outstanding q - unat (count_limit q))"
  using assms
proof (rule nbb_counters)
  fix J
  assume "unat (count_limit q) = 2 * J" "2 * unat (buffer_size q) \<le> J"
    "unat (ac q) = 2 * first_item q" "first_item q < J"
    "unat (uc q) = 2 * (if first_item q + outstanding q < J
       then first_item q + outstanding q else first_item q + outstanding q - J)"
    "outstanding q \<le> unat (buffer_size q)" "0 < unat (buffer_size q)" "2 * J < 2 ^ 31"
  then show ?thesis by (auto simp: unat_sub_if')
qed

lemma double_size:
  assumes "nbb_wf q"
  shows "unat (2 * buffer_size q) = 2 * unat (buffer_size q)"
    "unat (2 * buffer_size q - 1) = 2 * unat (buffer_size q) - 1"
proof -
  have b: "4 * unat (buffer_size q) < 2 ^ 31" "0 < unat (buffer_size q)"
    using assms by (auto simp: nbb_wf_def word_less_nat_alt)
  then show d: "unat (2 * buffer_size q) = 2 * unat (buffer_size q)"
    by (simp add: unat_word_ariths(2))
  show "unat (2 * buffer_size q - 1) = 2 * unat (buffer_size q) - 1"
    using d b by (simp add: unat_sub_if')
qed

text \<open>The producer's full test succeeds exactly on a full buffer whose counters have not wrapped.\<close>

lemma full_test:
  assumes "nbb_wf q"
  shows "last_uc q - ac q = 2 * buffer_size q \<longleftrightarrow>
      outstanding q = unat (buffer_size q) \<and> 2 * (first_item q + outstanding q) < unat (count_limit q)"
    "last_uc q - ac q \<noteq> 2 * buffer_size q - 1"
proof -
  have l: "last_uc q = uc q" "unat (count_limit q) < 2 ^ 31" "even (unat (count_limit q))"
    "4 * unat (buffer_size q) \<le> unat (count_limit q)" "0 < unat (buffer_size q)"
    "outstanding q \<le> unat (buffer_size q)"
    using assms by (auto simp: nbb_wf_def word_less_nat_alt elim: dvd_mult_left)
  show "last_uc q - ac q = 2 * buffer_size q \<longleftrightarrow>
      outstanding q = unat (buffer_size q) \<and> 2 * (first_item q + outstanding q) < unat (count_limit q)"
    using l unfolding word_unat_eq_iff l(1) nbb_difference [OF assms] double_size [OF assms] by auto
  have "even (unat (uc q - ac q))"
    unfolding nbb_difference [OF assms] using l by auto
  moreover have "odd (unat (2 * buffer_size q - 1))"
    unfolding double_size [OF assms] using l by auto
  ultimately show "last_uc q - ac q \<noteq> 2 * buffer_size q - 1"
    using l(1) by metis
qed

lemma counter_advance:
  assumes "unat c = 2 * b" "unat l = 2 * J" "b < J" "2 * J < 2 ^ 31"
  shows "unat (if c + 2 = l then 0 else c + 2 :: u32) = 2 * (if Suc b = J then 0 else Suc b)"
proof -
  have "unat (c + 2) = 2 * Suc b" using assms by (simp add: unat_word_ariths(1))
  then show ?thesis using assms by (auto simp: word_unat_eq_iff)
qed

lemma nbb_wfI:
  assumes "0 < unat (buffer_size q)" "length (buffer q) = unat (buffer_size q)"
    "unat (count_limit q) = 2 * J" "J mod unat (buffer_size q) = 0" "2 * unat (buffer_size q) \<le> J"
    "2 * J < 2 ^ 31" "last_uc q = uc q" "last_ac q = ac q"
    "unat (ac q) = 2 * a" "a < J" "n \<le> unat (buffer_size q)"
    "unat (uc q) = 2 * (if a + n < J then a + n else a + n - J)"
  shows "nbb_wf q \<and> first_item q = a \<and> outstanding q = n"
proof -
  have f: "first_item q = a" using assms(9) by (simp add: first_item_def)
  have o: "outstanding q = n"
    using assms by (auto simp: outstanding_def word_le_nat_alt)
  have "2 * J mod (2 * unat (buffer_size q)) = 0" using assms(4) by (simp add: mult_mod_right [symmetric])
  then have "nbb_wf q"
    using assms o by (auto simp: nbb_wf_def word_less_nat_alt)
  then show ?thesis using f o by simp
qed

lemma insert_index:
  assumes "nbb_wf q"
  shows "unat ((last_uc q div 2) mod buffer_size q) = (first_item q + outstanding q) mod length (buffer q)"
  using assms
proof (rule nbb_counters)
  fix J
  assume J: "unat (count_limit q) = 2 * J" "J mod unat (buffer_size q) = 0"
    "unat (uc q) = 2 * (if first_item q + outstanding q < J
       then first_item q + outstanding q else first_item q + outstanding q - J)"
  have "(x - J) mod unat (buffer_size q) = x mod unat (buffer_size q)" if "J \<le> x" for x
    using J(2) that by (metis mod_eq_0_iff_dvd mod_eq_dvd_iff_nat diff_diff_cancel diff_le_self)
  then show ?thesis
    using J(3) assms by (simp add: nbb_wf_def unat_div unat_mod)
qed

definition advance :: "'a nbb \<Rightarrow> u32 \<Rightarrow> u32" where
  "advance q c = (if c + 2 = count_limit q then 0 else c + 2)"

definition stored :: "'a \<Rightarrow> 'a nbb \<Rightarrow> 'a nbb" where
  "stored x q = q\<lparr>uc := advance q (uc q), last_uc := advance q (uc q),
     buffer := (buffer q)[(first_item q + outstanding q) mod length (buffer q) := x]\<rparr>"

definition taken_out :: "'a nbb \<Rightarrow> 'a nbb" where
  "taken_out q = q\<lparr>ac := advance q (ac q), last_ac := advance q (ac q)\<rparr>"

lemma insert_item_cases:
  assumes "nbb_wf q"
  shows "insert_item x q =
    (if outstanding q = unat (buffer_size q) \<and>
        2 * (first_item q + outstanding q) < unat (count_limit q)
     then (NBB_FULL, q) else (NBB_OK, stored x q))"
  using full_test [OF assms] insert_index [OF assms] assms
  by (simp add: insert_item_def stored_def advance_def Let_def nbb_wf_def)

lemma stored_room:
  assumes "nbb_wf q" "outstanding q < unat (buffer_size q)"
  shows "nbb_wf (stored x q)" "contents (stored x q) = contents q @ [x]"
    "buffer_size (stored x q) = buffer_size q" "count_limit (stored x q) = count_limit q"
proof -
  show sel: "buffer_size (stored x q) = buffer_size q" "count_limit (stored x q) = count_limit q"
    by (simp_all add: stored_def)
  have "nbb_wf (stored x q) \<and> first_item (stored x q) = first_item q \<and>
      outstanding (stored x q) = Suc (outstanding q)"
    using assms(1)
  proof (rule nbb_counters)
    fix J
    let ?b = "if first_item q + outstanding q < J
       then first_item q + outstanding q else first_item q + outstanding q - J"
    assume J: "unat (count_limit q) = 2 * J" "J mod unat (buffer_size q) = 0"
      "2 * unat (buffer_size q) \<le> J" "unat (ac q) = 2 * first_item q" "first_item q < J"
      "unat (uc q) = 2 * ?b" "0 < unat (buffer_size q)" "2 * J < 2 ^ 31"
    have "?b < J" using J(3,5,7) assms(2) by auto
    then have "unat (advance q (uc q)) = 2 * (if Suc ?b = J then 0 else Suc ?b)"
      unfolding advance_def by (rule counter_advance [OF J(6,1) _ J(8)])
    then have "unat (uc (stored x q)) = 2 * (if first_item q + Suc (outstanding q) < J
        then first_item q + Suc (outstanding q) else first_item q + Suc (outstanding q) - J)"
      using J(3,5,7) assms(2) by (auto simp: stored_def)
    then show ?thesis
      using J assms by (intro nbb_wfI [where J = J]) (simp_all add: stored_def nbb_wf_def)
  qed
  moreover have "outstanding q < length (buffer q)" using assms by (simp add: nbb_wf_def)
  ultimately show "nbb_wf (stored x q)" "contents (stored x q) = contents q @ [x]"
    using ring_push [of "outstanding q" "buffer q" "first_item q" x]
    by (simp_all add: contents_def) (simp add: stored_def)
qed

lemma read_item_cases:
  assumes "nbb_wf q"
  shows "read_item q = (if outstanding q = 0 then (NBB_EMPTY, None, q)
    else (NBB_OK, Some (buffer q ! (first_item q mod length (buffer q))), taken_out q))"
  using assms
proof (rule nbb_counters)
  fix J
  assume J: "unat (count_limit q) = 2 * J" "2 * unat (buffer_size q) \<le> J"
    "unat (ac q) = 2 * first_item q" "first_item q < J"
    "unat (uc q) = 2 * (if first_item q + outstanding q < J
       then first_item q + outstanding q else first_item q + outstanding q - J)"
    "outstanding q \<le> unat (buffer_size q)" "0 < unat (buffer_size q)" "2 * J < 2 ^ 31"
  have e: "uc q = last_ac q \<longleftrightarrow> outstanding q = 0"
    using J assms by (auto simp: word_unat_eq_iff nbb_wf_def)
  have "even (unat (uc q - ac q))" unfolding nbb_difference [OF assms] using J(1,8) by auto
  then have "uc q - last_ac q \<noteq> 1" using assms by (auto simp: nbb_wf_def)
  moreover have "unat ((last_ac q div 2) mod buffer_size q) = first_item q mod length (buffer q)"
    using J(3) assms by (simp add: nbb_wf_def unat_div unat_mod)
  ultimately show ?thesis
    using e assms
    by (simp add: read_item_def taken_out_def advance_def Let_def nbb_wf_def)
qed

lemma taken_out_wf:
  assumes "nbb_wf q" "outstanding q = Suc n"
  shows "nbb_wf (taken_out q)" "outstanding (taken_out q) = n"
    "contents q = buffer q ! (first_item q mod length (buffer q)) # contents (taken_out q)"
    "buffer_size (taken_out q) = buffer_size q"
proof -
  show "buffer_size (taken_out q) = buffer_size q" by (simp add: taken_out_def)
  have "nbb_wf (taken_out q) \<and> outstanding (taken_out q) = n \<and>
      first_item (taken_out q) mod length (buffer q) = Suc (first_item q) mod length (buffer q)"
    using assms(1)
  proof (rule nbb_counters)
    fix J
    let ?a = "if Suc (first_item q) = J then 0 else Suc (first_item q)"
    assume J: "unat (count_limit q) = 2 * J" "J mod unat (buffer_size q) = 0"
      "2 * unat (buffer_size q) \<le> J" "unat (ac q) = 2 * first_item q" "first_item q < J"
      "unat (uc q) = 2 * (if first_item q + outstanding q < J
         then first_item q + outstanding q else first_item q + outstanding q - J)"
      "outstanding q \<le> unat (buffer_size q)" "0 < unat (buffer_size q)" "2 * J < 2 ^ 31"
    have "unat (ac (taken_out q)) = 2 * ?a"
      using counter_advance [OF J(4,1,5,9)] by (simp add: taken_out_def advance_def)
    moreover have "unat (uc q) = 2 * (if ?a + n < J then ?a + n else ?a + n - J)"
      using J(3,5,6,7) assms(2) by auto
    ultimately have "nbb_wf (taken_out q) \<and> first_item (taken_out q) = ?a \<and> outstanding (taken_out q) = n"
      using J assms
      by (intro nbb_wfI [where J = J]) (auto simp: taken_out_def nbb_wf_def)
    then show ?thesis using J(2) assms(1) by (auto simp: nbb_wf_def)
  qed
  then show "nbb_wf (taken_out q)" "outstanding (taken_out q) = n"
    "contents q = buffer q ! (first_item q mod length (buffer q)) # contents (taken_out q)"
    using assms(2) ring_shift [of "first_item (taken_out q)" "buffer q" "Suc (first_item q)" n]
    by (simp_all add: contents_def ring_pop) (simp add: taken_out_def)
qed

section \<open>Concurrent producer and consumer\<close>

text \<open>
  One producer and one consumer thread, each access to a shared variable one atomic step. The
  program points of the producer are named after the access that comes next: the read of \<open>ac\<close>
  with the two tests, the store of the odd \<open>uc\<close>, the store of the item, the store of the new
  \<open>uc\<close>, and the update of \<open>last_uc\<close>; the consumer's likewise. \<open>sent\<close> records the items whose
  insertion has been published and \<open>received\<close> those whose read has.
\<close>

datatype 'a prod_pc = P_idle | P_check 'a | P_mark 'a | P_write 'a | P_publish 'a | P_local

datatype 'a cons_pc = C_idle | C_check | C_mark | C_read | C_publish 'a | C_local

fun prod_step :: "'a nbb \<Rightarrow> 'a prod_pc \<Rightarrow> 'a nbb \<times> 'a prod_pc" where
  "prod_step q P_idle = (q, P_idle)"
| "prod_step q (P_check x) =
     (let temp_ac = ac q in
      if last_uc q - temp_ac = 2 * buffer_size q then (q, P_idle)
      else if last_uc q - temp_ac = 2 * buffer_size q - 1 then (q, P_idle)
      else (q, P_mark x))"
| "prod_step q (P_mark x) = (q\<lparr>uc := last_uc q + 1\<rparr>, P_write x)"
| "prod_step q (P_write x) =
     (q\<lparr>buffer := (buffer q)[unat ((last_uc q div 2) mod buffer_size q) := x]\<rparr>, P_publish x)"
| "prod_step q (P_publish x) =
     (q\<lparr>uc := (if last_uc q + 2 = count_limit q then 0 else last_uc q + 2)\<rparr>, P_local)"
| "prod_step q P_local = (q\<lparr>last_uc := uc q\<rparr>, P_idle)"

fun cons_step :: "'a nbb \<Rightarrow> 'a cons_pc \<Rightarrow> 'a nbb \<times> 'a cons_pc" where
  "cons_step q C_idle = (q, C_idle)"
| "cons_step q C_check =
     (let temp_uc = uc q in
      if temp_uc = last_ac q then (q, C_idle)
      else if temp_uc - last_ac q = 1 then (q, C_idle)
      else (q, C_mark))"
| "cons_step q C_mark = (q\<lparr>ac := last_ac q + 1\<rparr>, C_read)"
| "cons_step q C_read = (q, C_publish (buffer q ! unat ((last_ac q div 2) mod buffer_size q)))"
| "cons_step q (C_publish x) =
     (q\<lparr>ac := (if last_ac q + 2 = count_limit q then 0 else last_ac q + 2)\<rparr>, C_local)"
| "cons_step q C_local = (q\<lparr>last_ac := ac q\<rparr>, C_idle)"

record 'a nbb_sys =
  mem :: "'a nbb"
  prod_at :: "'a prod_pc"
  cons_at :: "'a cons_pc"
  sent :: "'a list"
  received :: "'a list"

fun published :: "'a prod_pc \<Rightarrow> 'a list" where
  "published (P_publish x) = [x]"
| "published _ = []"

fun consumed :: "'a cons_pc \<Rightarrow> 'a list" where
  "consumed (C_publish x) = [x]"
| "consumed _ = []"

inductive nbb_step :: "'a nbb_sys \<Rightarrow> 'a nbb_sys \<Rightarrow> bool" where
  p_call: "prod_at s = P_idle \<Longrightarrow> nbb_step s (s\<lparr>prod_at := P_check x\<rparr>)"
| c_call: "cons_at s = C_idle \<Longrightarrow> nbb_step s (s\<lparr>cons_at := C_check\<rparr>)"
| p_step: "prod_step (mem s) (prod_at s) = (q, p) \<Longrightarrow>
    nbb_step s (s\<lparr>mem := q, prod_at := p, sent := sent s @ published (prod_at s)\<rparr>)"
| c_step: "cons_step (mem s) (cons_at s) = (q, c) \<Longrightarrow>
    nbb_step s (s\<lparr>mem := q, cons_at := c, received := received s @ consumed (cons_at s)\<rparr>)"

definition nbb_start :: "'a nbb \<Rightarrow> 'a nbb_sys" where
  "nbb_start q = \<lparr>mem = q, prod_at = P_idle, cons_at = C_idle, sent = [], received = []\<rparr>"

text \<open>The counters at each program point, from the numbers of published operations.\<close>

fun uc_at :: "'a prod_pc \<Rightarrow> nat \<Rightarrow> nat" where
  "uc_at (P_write _) n = Suc (2 * n)"
| "uc_at (P_publish _) n = Suc (2 * n)"
| "uc_at _ n = 2 * n"

fun last_uc_at :: "'a prod_pc \<Rightarrow> nat \<Rightarrow> nat" where
  "last_uc_at P_local n = 2 * n - 2"
| "last_uc_at _ n = 2 * n"

fun ac_at :: "'a cons_pc \<Rightarrow> nat \<Rightarrow> nat" where
  "ac_at C_read m = Suc (2 * m)"
| "ac_at (C_publish _) m = Suc (2 * m)"
| "ac_at _ m = 2 * m"

fun last_ac_at :: "'a cons_pc \<Rightarrow> nat \<Rightarrow> nat" where
  "last_ac_at C_local m = 2 * m - 2"
| "last_ac_at _ m = 2 * m"

text \<open>What the threads know past their tests: room for the producer, an item for the consumer.\<close>

fun prod_knows :: "'a prod_pc \<Rightarrow> 'a nbb \<Rightarrow> nat \<Rightarrow> nat \<Rightarrow> bool" where
  "prod_knows (P_mark x) q n m = (n < m + unat (buffer_size q))"
| "prod_knows (P_write x) q n m = (n < m + unat (buffer_size q))"
| "prod_knows (P_publish x) q n m =
     (n < m + unat (buffer_size q) \<and> buffer q ! (n mod unat (buffer_size q)) = x)"
| "prod_knows P_local q n m = (0 < n)"
| "prod_knows _ q n m = True"

fun cons_knows :: "'a cons_pc \<Rightarrow> 'a list \<Rightarrow> nat \<Rightarrow> bool" where
  "cons_knows C_mark xs m = (m < length xs)"
| "cons_knows C_read xs m = (m < length xs)"
| "cons_knows (C_publish x) xs m = (m < length xs \<and> x = xs ! m)"
| "cons_knows C_local xs m = (0 < m)"
| "cons_knows _ xs m = True"

definition conc_mem :: "'a nbb \<Rightarrow> bool" where
  "conc_mem q \<longleftrightarrow> 0 < unat (buffer_size q) \<and> length (buffer q) = unat (buffer_size q) \<and>
     4 * unat (buffer_size q) \<le> unat (count_limit q) \<and> unat (count_limit q) < 2 ^ 31"

definition conc_inv :: "'a nbb_sys \<Rightarrow> bool" where
  "conc_inv s \<longleftrightarrow> (let q = mem s; n = length (sent s); m = length (received s) in
     conc_mem q \<and> 2 * n < unat (count_limit q) \<and> m \<le> n \<and> n \<le> m + unat (buffer_size q) \<and>
     unat (uc q) = uc_at (prod_at s) n \<and> unat (last_uc q) = last_uc_at (prod_at s) n \<and>
     unat (ac q) = ac_at (cons_at s) m \<and> unat (last_ac q) = last_ac_at (cons_at s) m \<and>
     prod_knows (prod_at s) q n m \<and> cons_knows (cons_at s) (sent s) m \<and>
     received s = take m (sent s) \<and>
     (\<forall>j. m \<le> j \<and> j < n \<longrightarrow> buffer q ! (j mod unat (buffer_size q)) = sent s ! j))"

lemma conc_double_size:
  assumes "conc_mem q"
  shows "unat (2 * buffer_size q) = 2 * unat (buffer_size q)"
    "unat (2 * buffer_size q - 1) = 2 * unat (buffer_size q) - 1"
proof -
  have b: "4 * unat (buffer_size q) < 2 ^ 31" "0 < unat (buffer_size q)"
    using assms by (auto simp: conc_mem_def)
  then show d: "unat (2 * buffer_size q) = 2 * unat (buffer_size q)"
    by (simp add: unat_word_ariths(2))
  show "unat (2 * buffer_size q - 1) = 2 * unat (buffer_size q) - 1"
    using d b by (simp add: unat_sub_if')
qed

lemma prod_test_room:
  assumes "conc_mem q" "unat (last_uc q) = 2 * n" "unat (ac q) = ac_at c m" "cons_knows c xs m"
    "length xs = n" "m \<le> n" "n \<le> m + unat (buffer_size q)"
    "last_uc q - ac q \<noteq> 2 * buffer_size q" "last_uc q - ac q \<noteq> 2 * buffer_size q - 1"
  shows "n < m + unat (buffer_size q)"
proof (rule ccontr)
  assume "\<not> ?thesis"
  then have n: "n = m + unat (buffer_size q)" using assms(7) by simp
  have "0 < unat (buffer_size q)" using assms(1) by (simp add: conc_mem_def)
  then have "unat (last_uc q - ac q) = 2 * unat (buffer_size q) \<or>
      unat (last_uc q - ac q) = 2 * unat (buffer_size q) - 1"
    using assms(2,3) n by (cases c) (auto simp: unat_sub_if')
  then show False
    using assms(8,9) by (simp add: word_unat_eq_iff conc_double_size [OF assms(1)])
qed

lemma cons_test_item:
  assumes "unat (uc q) = uc_at p n" "unat (last_ac q) = 2 * m" "m \<le> n"
    "uc q \<noteq> last_ac q" "uc q - last_ac q \<noteq> 1"
  shows "m < n"
proof (rule ccontr)
  assume "\<not> ?thesis"
  then have "n = m" using assms(3) by simp
  then have "unat (uc q) = unat (last_ac q) \<or> unat (uc q - last_ac q) = 1"
    using assms(1,2) by (cases p) (auto simp: unat_sub_if')
  then show False using assms(4,5) by (simp add: word_unat_eq_iff)
qed

lemma conc_prod:
  assumes inv: "conc_inv s" and step: "prod_step (mem s) (prod_at s) = (q, p)"
    and lim: "2 * length (sent s @ published (prod_at s)) < unat (count_limit (mem s))"
  shows "conc_inv (s\<lparr>mem := q, prod_at := p, sent := sent s @ published (prod_at s)\<rparr>)"
proof (cases "prod_at s")
  case P_idle
  then show ?thesis using inv step by (simp add: conc_inv_def)
next
  case (P_check x)
  show ?thesis
  proof (cases "p = P_mark x")
    case True
    then have "length (sent s) < length (received s) + unat (buffer_size (mem s))"
      using inv step P_check
      by (intro prod_test_room [of "mem s" _ "cons_at s" _ "sent s"])
        (auto simp: conc_inv_def Let_def split: if_splits)
    then show ?thesis
      using inv step P_check True by (auto simp: conc_inv_def Let_def split: if_splits)
  next
    case False
    then show ?thesis
      using inv step P_check by (auto simp: conc_inv_def Let_def split: if_splits)
  qed
next
  case (P_mark x)
  have "unat (last_uc (mem s) + 1) = Suc (2 * length (sent s))"
    using inv P_mark by (simp add: conc_inv_def conc_mem_def Let_def unat_word_ariths(1))
  moreover have "q = (mem s)\<lparr>uc := last_uc (mem s) + 1\<rparr>" "p = P_write x" using step P_mark by auto
  ultimately show ?thesis
    using inv P_mark by (simp add: conc_inv_def conc_mem_def Let_def)
next
  case (P_write x)
  let ?n = "length (sent s)" and ?k = "unat (buffer_size (mem s))"
  have i: "unat ((last_uc (mem s) div 2) mod buffer_size (mem s)) = ?n mod ?k"
    using inv P_write by (simp add: conc_inv_def Let_def unat_div unat_mod)
  have "?n mod ?k < ?k" using inv by (simp add: conc_inv_def conc_mem_def Let_def)
  moreover have "?n mod ?k \<noteq> j mod ?k" if "length (received s) \<le> j" "j < ?n" for j
    using ring_index_distinct [of j ?n ?k 0] that inv P_write by (auto simp: conc_inv_def Let_def)
  moreover have "q = (mem s)\<lparr>buffer := (buffer (mem s))[?n mod ?k := x]\<rparr>" "p = P_publish x"
    using step P_write i by auto
  ultimately show ?thesis
    using inv P_write by (simp add: conc_inv_def conc_mem_def Let_def)
next
  case (P_publish x)
  have u: "unat (last_uc (mem s) + 2) = 2 * Suc (length (sent s))"
    using inv P_publish by (simp add: conc_inv_def conc_mem_def Let_def unat_word_ariths(1))
  then have "last_uc (mem s) + 2 \<noteq> count_limit (mem s)"
    using lim P_publish by auto
  then have "q = (mem s)\<lparr>uc := last_uc (mem s) + 2\<rparr>" "p = P_local" using step P_publish by auto
  moreover have "cons_knows (cons_at s) (sent s @ [x]) (length (received s))"
    using inv by (cases "cons_at s") (auto simp: conc_inv_def Let_def nth_append)
  ultimately show ?thesis
    using inv P_publish u lim by (simp add: conc_inv_def conc_mem_def Let_def nth_append less_Suc_eq)
next
  case P_local
  then have "q = (mem s)\<lparr>last_uc := uc (mem s)\<rparr>" "p = P_idle" using step by auto
  then show ?thesis using inv P_local by (simp add: conc_inv_def conc_mem_def Let_def)
qed

lemma cons_index:
  assumes "conc_inv s" "cons_at s = C_read"
  shows "buffer (mem s) ! unat ((last_ac (mem s) div 2) mod buffer_size (mem s)) =
    sent s ! length (received s)"
  using assms by (simp add: conc_inv_def Let_def unat_div unat_mod)

lemma conc_cons:
  assumes inv: "conc_inv s" and step: "cons_step (mem s) (cons_at s) = (q, c)"
  shows "conc_inv (s\<lparr>mem := q, cons_at := c, received := received s @ consumed (cons_at s)\<rparr>)"
proof (cases "cons_at s")
  case C_idle
  then show ?thesis using inv step by (simp add: conc_inv_def)
next
  case C_check
  show ?thesis
  proof (cases "c = C_mark")
    case True
    then have "length (received s) < length (sent s)"
      using inv step C_check
      by (intro cons_test_item [of "mem s" "prod_at s"]) (auto simp: conc_inv_def Let_def split: if_splits)
    then show ?thesis
      using inv step C_check True by (simp add: conc_inv_def Let_def split: if_splits)
  next
    case False
    then show ?thesis
      using inv step C_check by (auto simp: conc_inv_def Let_def split: if_splits)
  qed
next
  case C_mark
  have "unat (last_ac (mem s) + 1) = Suc (2 * length (received s))"
    using inv C_mark by (simp add: conc_inv_def conc_mem_def Let_def unat_word_ariths(1))
  moreover have "q = (mem s)\<lparr>ac := last_ac (mem s) + 1\<rparr>" "c = C_read" using step C_mark by auto
  ultimately show ?thesis
    using inv C_mark by (cases "prod_at s") (simp_all add: conc_inv_def conc_mem_def Let_def)
next
  case C_read
  then show ?thesis
    using inv step cons_index [OF inv C_read] by (auto simp: conc_inv_def Let_def)
next
  case (C_publish x)
  have u: "unat (last_ac (mem s) + 2) = 2 * Suc (length (received s))"
    using inv C_publish by (simp add: conc_inv_def conc_mem_def Let_def unat_word_ariths(1))
  then have "last_ac (mem s) + 2 \<noteq> count_limit (mem s)"
    using inv C_publish by (auto simp: conc_inv_def Let_def)
  then have "q = (mem s)\<lparr>ac := last_ac (mem s) + 2\<rparr>" "c = C_local" using step C_publish by auto
  then show ?thesis
    using inv C_publish u
    by (cases "prod_at s") (simp_all add: conc_inv_def conc_mem_def Let_def take_Suc_conv_app_nth)
next
  case C_local
  then have "q = (mem s)\<lparr>last_ac := ac (mem s)\<rparr>" "c = C_idle" using step by auto
  then show ?thesis
    using inv C_local by (cases "prod_at s") (simp_all add: conc_inv_def conc_mem_def Let_def)
qed

lemma step_limit:
  "count_limit (fst (prod_step q p)) = count_limit q" "count_limit (fst (cons_step q c)) = count_limit q"
  "buffer_size (fst (prod_step q p)) = buffer_size q" "buffer_size (fst (cons_step q c)) = buffer_size q"
  by (cases p; simp add: Let_def; fail | cases c; simp add: Let_def)+

lemma nbb_step_mono:
  assumes "nbb_step s s'"
  shows "count_limit (mem s') = count_limit (mem s)" "length (sent s) \<le> length (sent s')"
  using assms
  by (auto elim!: nbb_step.cases) (metis step_limit fst_conv)+

lemma nbb_step_sizes:
  assumes "nbb_step\<^sup>*\<^sup>* s s'"
  shows "buffer_size (mem s') = buffer_size (mem s)" "count_limit (mem s') = count_limit (mem s)"
  using assms
proof (induction rule: rtranclp_induct)
  case (step y z)
  have "buffer_size (mem z) = buffer_size (mem y)"
    using step(2) by (auto elim!: nbb_step.cases) (metis step_limit fst_conv)+
  then show "buffer_size (mem z) = buffer_size (mem s)" "count_limit (mem z) = count_limit (mem s)"
    using step nbb_step_mono(1) [OF step(2)] by simp_all
qed auto

lemma conc_step:
  assumes "nbb_step s s'" "conc_inv s" "2 * length (sent s') < unat (count_limit (mem s'))"
  shows "conc_inv s'"
  using assms(1)
proof cases
  case (p_call x)
  then show ?thesis using assms(2) by (simp add: conc_inv_def Let_def)
next
  case c_call
  then show ?thesis using assms(2) by (simp add: conc_inv_def Let_def)
next
  case (p_step q p)
  then show ?thesis
    using conc_prod assms nbb_step_mono(1) [OF assms(1)] by simp
next
  case (c_step q c)
  then show ?thesis using conc_cons assms(2) by simp
qed

lemma conc_reachable:
  assumes "nbb_step\<^sup>*\<^sup>* s s'" "conc_inv s" "2 * length (sent s') < unat (count_limit (mem s'))"
  shows "conc_inv s'"
  using assms
proof (induction rule: rtranclp_induct)
  case (step y z)
  then show ?case using conc_step [of y z] nbb_step_mono [of y z] by simp
qed simp

section \<open>The buffer as a queue\<close>

definition nbb_push :: "'a \<Rightarrow> 'a nbb \<Rightarrow> bool \<times> 'a nbb" where
  "nbb_push x q = (case insert_item x q of (r, q') \<Rightarrow> (r = NBB_OK, q'))"

definition nbb_pop :: "'a nbb \<Rightarrow> 'a option \<times> 'a nbb" where
  "nbb_pop q = (case read_item q of (_, r, q') \<Rightarrow> (r, q'))"

lemma length_contents [simp]: "length (contents q) = outstanding q"
  by (simp add: contents_def)

lemma nbb_read_Cons:
  assumes "nbb_wf q" "contents q = x # xs"
  shows "read_item q = (NBB_OK, Some x, taken_out q)" "contents (taken_out q) = xs"
    "nbb_wf (taken_out q)"
proof -
  have n: "outstanding q = Suc (length xs)" using assms(2) length_contents [of q] by simp
  note t = taken_out_wf [OF assms(1) n]
  show "nbb_wf (taken_out q)" by (rule t(1))
  have "x = buffer q ! (first_item q mod length (buffer q))" "contents (taken_out q) = xs"
    using t(3) unfolding assms(2) by simp_all
  then show "read_item q = (NBB_OK, Some x, taken_out q)" "contents (taken_out q) = xs"
    using read_item_cases [OF assms(1)] n by simp_all
qed

interpretation nbb_queue: bounded_queue nbb_push nbb_pop contents "\<lambda>q. unat (buffer_size q)" nbb_wf
proof unfold_locales
  fix q :: "'a nbb" and x xs
  assume wf: "nbb_wf q"
  show "length (contents q) \<le> unat (buffer_size q)" using wf by (simp add: nbb_wf_def)
  show "\<exists>q'. nbb_push x q = (True, q') \<and> nbb_wf q' \<and> contents q' = contents q @ [x] \<and>
      unat (buffer_size q') = unat (buffer_size q)" if "length (contents q) < unat (buffer_size q)"
    using that stored_room [OF wf, of x] insert_item_cases [OF wf, of x]
    by (simp add: nbb_push_def)
  show "nbb_pop q = (None, q)" if "contents q = []"
  proof -
    have "outstanding q = 0" using that length_contents [of q] by simp
    then show ?thesis using read_item_cases [OF wf] by (simp add: nbb_pop_def)
  qed
  show "\<exists>q'. nbb_pop q = (Some x, q') \<and> nbb_wf q' \<and> contents q' = xs \<and>
      unat (buffer_size q') = unat (buffer_size q)" if "contents q = x # xs"
    using nbb_read_Cons [OF wf that] by (auto simp: nbb_pop_def taken_out_def)
qed

lemma Symmetric_nbb_ok:
  assumes "0 < unat n" "unat n < 2 ^ 29" "length items = unat n"
  shows "\<exists>q. Symmetric_nbb n items = Inr q \<and> nbb_wf q \<and> contents q = [] \<and> buffer_size q = n"
proof -
  let ?N = "unat n"
  define D where "D = (2 ^ 32 - 1) div (4 * ?N)"
  have "D * (4 * ?N) \<le> 2 ^ 32 - 1" unfolding D_def by (rule div_times_less_eq_dividend)
  then have up: "2 * (D * ?N) < 2 ^ 31" by simp
  have D2: "2 \<le> D" unfolding D_def using assms(1,2)
    by (subst less_eq_div_iff_mult_less_eq) simp_all
  have "D \<le> D * ?N" using assms(1) by simp
  then have Db: "2 * D < 2 ^ 31" using up by linarith
  have u4: "unat (4 * n) = 4 * ?N" using assms(2) by (simp add: unat_word_ariths(2))
  define k where "k = 2 * ((NOT 0) div (4 * n))"
  have "unat ((NOT 0) div (4 * n) :: u32) = D"
    by (simp add: unat_div u4 D_def unsigned_minus_1_eq_mask mask_eq_exp_minus_1)
  then have k: "unat k = 2 * D"
    unfolding k_def unat_word_ariths(2) using Db by simp
  have l: "unat (k * n) = 2 * (D * ?N)"
    using up k by (simp add: unat_word_ariths(2))
  have "sint n = int ?N" using sint_of_nat_small [of ?N] assms(2) by simp
  then have "sint n > 0" using assms(1) by (simp only: of_nat_0_less_iff)
  moreover have "4 * n \<noteq> 0" using u4 assms(1) by (auto simp: word_unat_eq_iff)
  moreover have "k \<ge> 2" using k D2 by (simp add: word_le_nat_alt)
  ultimately have eq: "Symmetric_nbb n items = Inr \<lparr>uc = 0, ac = 0, last_uc = 0, last_ac = 0,
      buffer_size = n, buffer = items, count_limit = k * n\<rparr>"
    unfolding Symmetric_nbb_def k_def [symmetric] Let_def by simp
  have "4 * ?N \<le> 2 * (D * ?N)" using D2 by simp
  moreover have "2 * (D * ?N) mod (2 * ?N) = 0" by simp
  ultimately show ?thesis
    unfolding eq using assms up l
    by (simp add: nbb_wf_def contents_def outstanding_def word_less_nat_alt)
qed

text \<open>A full buffer whose update counter has wrapped: the insertion the full test lets through.\<close>

lemma wrapped_iff:
  assumes "nbb_wf q" "outstanding q = unat (buffer_size q)"
  shows "2 * (first_item q + outstanding q) < unat (count_limit q) \<longleftrightarrow> ac q < uc q"
  using assms(1) by (rule nbb_counters) (use assms(2) in \<open>auto simp: word_less_nat_alt\<close>)

lemma read_overrun:
  assumes "nbb_wf q" "outstanding q = unat (buffer_size q)" "\<not> ac q < uc q" "4 < unat (count_limit q)"
  shows "fst (read_item (stored x q)) = NBB_OK" "fst (snd (read_item (stored x q))) = Some x"
proof -
  let ?q = "stored x q" and ?s = "unat (buffer_size q)"
  have u: "unat (uc ?q) \<noteq> unat (ac q) \<and> even (unat (uc ?q))"
    using assms(1)
  proof (rule nbb_counters)
    fix J
    assume J: "unat (count_limit q) = 2 * J" "2 * ?s \<le> J" "unat (ac q) = 2 * first_item q"
      "first_item q < J" "0 < ?s" "2 * J < 2 ^ 31"
      "unat (uc q) = 2 * (if first_item q + outstanding q < J
         then first_item q + outstanding q else first_item q + outstanding q - J)"
    then have b: "unat (uc q) = 2 * (first_item q + ?s - J)" "first_item q + ?s - J < J" "J \<le> first_item q + ?s"
      using assms(2,3) wrapped_iff [OF assms(1,2)] by auto
    have "unat (uc ?q) = 2 * (if Suc (first_item q + ?s - J) = J then 0 else Suc (first_item q + ?s - J))"
      using counter_advance [OF b(1) J(1) b(2) J(6)] by (simp add: stored_def advance_def)
    then show ?thesis using J b assms(4) by auto
  qed
  have "even (unat (ac q))" using assms(1) by (simp add: nbb_wf_def)
  with u have "even (unat (uc ?q - ac q))" by (simp add: unat_sub_if')
  then have "uc ?q - ac q \<noteq> 1" by auto
  moreover have "uc ?q \<noteq> ac q" using u by auto
  moreover have "unat ((ac q div 2) mod buffer_size q) = first_item q mod length (buffer q)"
    using assms(1) by (simp add: nbb_wf_def unat_div unat_mod first_item_def)
  moreover have "first_item q mod length (buffer q) < length (buffer q)"
    using assms(1) by (simp add: nbb_wf_def word_less_nat_alt)
  ultimately show "fst (read_item ?q) = NBB_OK" "fst (snd (read_item ?q)) = Some x"
    using assms(1,2) by (simp_all add: read_item_def Let_def nbb_wf_def) (simp_all add: stored_def)
qed

lemma conc_start:
  assumes "nbb_wf q" "uc q = 0" "ac q = 0"
  shows "conc_inv (nbb_start q)"
  using assms by (simp add: conc_inv_def nbb_start_def conc_mem_def nbb_wf_def Let_def word_less_nat_alt)

section \<open>Properties\<close>

text \<open>
  C15. A buffer constructed for \<open>n < 2\<^sup>29\<close> items is a first-in first-out queue for every sequence of
  insertions and reads that never has more than \<open>n\<close> items outstanding: the items read, followed by
  those still in the buffer, are exactly the items inserted, in order. The counters may wrap around
  any number of times.
\<close>

theorem nbb_fifo:
  assumes "0 < unat n" "unat n < 2 ^ 29" "length items = unat n" "Symmetric_nbb n items = Inr q"
    "flow_ok ops 0 (unat n)" "traffic nbb_push nbb_pop ops q = (out, q')"
  shows "nbb_wf q' \<and> out @ contents q' = List.map_filter id ops"
proof -
  obtain "nbb_wf q" "contents q = []" "buffer_size q = n"
    using Symmetric_nbb_ok [OF assms(1-3)] assms(4) by auto
  then show ?thesis
    using nbb_queue.traffic_fifo [of q ops out q'] assms(5,6) by simp
qed

theorem nbb_fifo_witness:
  "\<exists>q out q'. Symmetric_nbb 2 [0 :: nat, 0] = Inr q \<and>
    traffic nbb_push nbb_pop [Some 5, Some 6, None, Some 7] q = (out, q') \<and>
    out @ contents q' = [5, 6, 7]"
proof -
  obtain q where q: "Symmetric_nbb 2 [0 :: nat, 0] = Inr q"
    using Symmetric_nbb_ok [of 2 "[0 :: nat, 0]"] by auto
  obtain out q' where t: "traffic nbb_push nbb_pop [Some 5, Some 6, None, Some 7] q = (out, q')"
    by fastforce
  show ?thesis
    using nbb_fifo [OF _ _ _ q _ t] q t by (auto simp: map_filter_simps)
qed

text \<open>
  C17. The outcome of inserting into a full buffer depends on the counters. Before the update
  counter has wrapped past the acknowledgment counter the insertion is refused with \<^verbatim>\<open>NBB_FULL\<close> and
  changes nothing. When it has wrapped, the 32-bit difference misses the full buffer: the
  insertion reports \<^verbatim>\<open>NBB_OK\<close> and overwrites the oldest item, so that the next read returns the
  newest item.
\<close>

theorem nbb_insert_full:
  assumes "nbb_wf q" "length (contents q) = unat (buffer_size q)" "4 < unat (count_limit q)"
  shows "if ac q < uc q then insert_item x q = (NBB_FULL, q)
    else \<exists>q'. insert_item x q = (NBB_OK, q') \<and> fst (read_item q') = NBB_OK \<and>
      fst (snd (read_item q')) = Some x"
proof -
  have full: "outstanding q = unat (buffer_size q)" using assms(2) by simp
  show ?thesis
    using wrapped_iff [OF assms(1) full] insert_item_cases [OF assms(1)] full
      read_overrun [OF assms(1) full _ assms(3)]
    by simp
qed

definition wrapped_nbb :: "nat nbb" where
  "wrapped_nbb = \<lparr>uc = 2, ac = 2147483642, last_uc = 2, last_ac = 2147483642, buffer_size = 2,
     buffer = [7, 8], count_limit = 2147483644\<rparr>"

theorem nbb_insert_full_witness:
  "contents wrapped_nbb = [8, 7] \<and>
    (\<exists>q'. insert_item 9 wrapped_nbb = (NBB_OK, q') \<and> fst (snd (read_item q')) = Some 9)"
proof -
  have "nbb_wf wrapped_nbb" by (simp add: nbb_wf_def wrapped_nbb_def outstanding_def)
  moreover have "contents wrapped_nbb = [8, 7]"
    by (simp add: contents_def wrapped_nbb_def outstanding_def first_item_def ring_def upt_rec
        flip: numeral_2_eq_2)
  ultimately show ?thesis
    using nbb_insert_full [of wrapped_nbb 9] by (auto simp: wrapped_nbb_def)
qed

text \<open>
  C16. Whatever the interleaving of the producer's and the consumer's accesses, as long as fewer than
  half \<open>count_limit\<close> items have been sent, the items received are a prefix of the items sent, and at
  most \<open>buffer_size\<close> items are in between: nothing is lost, duplicated, reordered or torn.
\<close>

theorem nbb_concurrent_fifo:
  assumes "0 < unat n" "unat n < 2 ^ 29" "length items = unat n" "Symmetric_nbb n items = Inr q"
    "nbb_step\<^sup>*\<^sup>* (nbb_start q) s" "2 * length (sent s) < unat (count_limit q)"
  shows "received s = take (length (received s)) (sent s) \<and>
    length (received s) \<le> length (sent s) \<and> length (sent s) \<le> length (received s) + unat n"
proof -
  have q: "nbb_wf q" "uc q = 0" "ac q = 0" "buffer_size q = n"
    using Symmetric_nbb_ok [OF assms(1-3)] assms(4)
    by (auto simp: Symmetric_nbb_def check_eq_Inr Let_def)
  have "buffer_size (mem s) = n" "count_limit (mem s) = count_limit q"
    using nbb_step_sizes [OF assms(5)] q(4) by (simp_all add: nbb_start_def)
  then show ?thesis
    using conc_reachable [OF assms(5) conc_start [OF q(1-3)]] assms(6)
    by (simp add: conc_inv_def Let_def)
qed

theorem nbb_concurrent_fifo_witness:
  "\<exists>q s. Symmetric_nbb 2 [0 :: nat, 0] = Inr q \<and> nbb_step\<^sup>*\<^sup>* (nbb_start q) s \<and>
    prod_at s = P_check 5 \<and> received s = take (length (received s)) (sent s)"
proof -
  obtain q where q: "Symmetric_nbb 2 [0 :: nat, 0] = Inr q" "nbb_wf q"
    using Symmetric_nbb_ok [of 2 "[0 :: nat, 0]"] by auto
  let ?s = "(nbb_start q)\<lparr>prod_at := P_check 5\<rparr>"
  have r: "nbb_step\<^sup>*\<^sup>* (nbb_start q) ?s"
    by (intro r_into_rtranclp nbb_step.p_call) (simp add: nbb_start_def)
  have "0 < unat (count_limit q)" using q(2) by (simp add: nbb_wf_def word_less_nat_alt)
  then have "received ?s = take (length (received ?s)) (sent ?s)"
    using nbb_concurrent_fifo [OF _ _ _ q(1) r] by (simp add: nbb_start_def)
  then show ?thesis using q(1) r by (intro exI [of _ q] exI [of _ ?s]) simp
qed

end
