(* ===== verification/XDK_Fast_Slab.thy ===== *)
theory XDK_Fast_Slab
  imports XDK_NBB XDK_Utils
begin

text \<open>
  The fixed-size block allocator of \<^verbatim>\<open>lib/libexo/exo/fast_slab.h\<close>. The constructor cuts a memory area
  into blocks, each with a 64-byte header in front of its data, and puts the headers into a
  non-blocking buffer; \<^verbatim>\<open>alloc\<close> takes a header out and \<^verbatim>\<open>free\<close> puts it back. Memory is a function from
  addresses to the header stored there; the page map (\<^verbatim>\<open>/proc/self/pagemap\<close>) is the argument \<open>v2p\<close>.
\<close>

section \<open>State\<close>

record block_header =
  owner_allocator :: nat
  hdr_id :: "32 word"
  ref_count :: "64 word"
  block_phys_addr :: u64
  block :: u64

record slab =
  this :: nat
  mem_area :: u64
  mem_area_phys :: u64
  mem_area_len :: u64
  block_len :: u64
  actual_block_len :: u64
  num_of_blocks :: u64
  num_avail :: u32
  alignment :: u64
  memory :: "u64 \<Rightarrow> block_header"
  block_nbb :: "u64 nbb"

definition block_header_size :: u64 where
  "block_header_size = 64"

section \<open>Constructor\<close>

text \<open>The address of the data of the next block, when the unused memory starts at \<open>cur\<close>.\<close>

definition place :: "u64 \<Rightarrow> u64 \<Rightarrow> u64" where
  "place algn cur =
     (let d = cur + block_header_size in
      if algn \<noteq> 0 \<and> \<not> check_aligned d (ucast algn) then align_pointer d (ucast algn) else d)"

partial_function (option) count_blocks :: "u64 \<Rightarrow> u64 \<Rightarrow> u64 \<Rightarrow> u64 \<Rightarrow> u64 \<Rightarrow> u64 option" where
  "count_blocks algn blen m_end cur n =
     (if cur < m_end then
        let cur1 = place algn cur + blen
        in count_blocks algn blen m_end cur1 (if cur1 \<le> m_end then n + 1 else n)
      else Some n)"

text \<open>The physical address stored in a header, and the variables the code updates for it.\<close>

definition phys_addr ::
  "(u64 \<Rightarrow> u64) \<Rightarrow> u64 \<Rightarrow> u64 \<Rightarrow> u32 \<Rightarrow> u64 \<Rightarrow> (u64 \<times> u64 \<times> u32) outcome" where
  "phys_addr v2p area area_phys aggregated d =
     (let at_page = ((d - block_header_size) mod 0x200000 = 0);
          aggregated1 = (if at_page then ucast (d - block_header_size - area) else aggregated);
          area_phys1 = (if at_page then v2p (d - block_header_size) else area_phys)
      in check (area_phys1 \<noteq> 0) Assertion
           (Inr (area_phys1 + (d - area - ucast aggregated1), area_phys1, aggregated1)))"

text \<open>One round of the loop that fills the buffer, for a block that fits.\<close>

definition fill_block ::
  "(u64 \<Rightarrow> u64) \<Rightarrow> bool \<Rightarrow> 32 word \<Rightarrow> u64 \<Rightarrow> u32 \<Rightarrow> slab \<Rightarrow> (slab \<times> u32) outcome" where
  "fill_block v2p needs_phys core d aggregated s =
     (let hdr = d - block_header_size in
      check (hdr \<noteq> 0) Assertion
      (check (d \<ge> mem_area s \<and> d < mem_area s + mem_area_len s) Assertion
       (seq (if needs_phys then phys_addr v2p (mem_area s) (mem_area_phys s) aggregated d
             else Inr (block_phys_addr (memory s hdr), mem_area_phys s, aggregated))
         (\<lambda>(phys, area_phys, aggregated1).
            let h = \<lparr>owner_allocator = this s, hdr_id = core, ref_count = 0,
                  block_phys_addr = phys, block = d\<rparr>;
                (r, q) = insert_item hdr (block_nbb s)
            in check (r = NBB_OK) Panic
                 (check (d \<noteq> 0) Assertion
                   (Inr (s\<lparr>memory := (memory s)(hdr := h), mem_area_phys := area_phys,
                     block_nbb := q\<rparr>, aggregated1)))))))"

partial_function (option) fill_blocks ::
  "(u64 \<Rightarrow> u64) \<Rightarrow> bool \<Rightarrow> 32 word \<Rightarrow> u64 \<Rightarrow> u64 \<Rightarrow> u32 \<Rightarrow> u64 \<Rightarrow> slab \<Rightarrow> (slab \<times> u64) outcome option" where
  "fill_blocks v2p needs_phys core m_end cur aggregated cnt s =
     (if cur < m_end then
        let d = place (alignment s) cur; cur1 = d + block_len s in
        if cur1 \<le> m_end then
          (case fill_block v2p needs_phys core d aggregated s of
             Inl e \<Rightarrow> Some (Inl e)
           | Inr r \<Rightarrow> fill_blocks v2p needs_phys core m_end cur1 (snd r) (cnt + 1) (fst r))
        else fill_blocks v2p needs_phys core m_end cur1 aggregated cnt s
      else Some (Inr (s, cnt)))"

text \<open>The second walk over the blocks, which only asserts that every header points to its data.\<close>

partial_function (option) check_blocks :: "slab \<Rightarrow> u64 \<Rightarrow> u64 \<Rightarrow> bool option" where
  "check_blocks s m_end cur =
     (if cur < m_end then
        let d = place (alignment s) cur; cur1 = d + block_len s; hdr = d - block_header_size in
        if cur1 \<le> m_end \<and> (hdr = 0 \<or> block (memory s hdr) = 0) then Some False
        else check_blocks s m_end cur1
      else Some True)"

text \<open>
  The constructor: \<open>items\<close> is the initial content of the ring of the buffer, \<open>m0\<close> the memory before.
  \<open>Constructor_error\<close> (no area) is thrown before anything else.
\<close>

datatype 'a ctor = Constructor_error | Built 'a

definition count_all_blocks :: "u64 \<Rightarrow> u64 \<Rightarrow> u64 \<Rightarrow> u64 \<Rightarrow> u64 option" where
  "count_all_blocks area len blen algn =
     (if algn = 0 then Some (len div (block_header_size + blen))
      else count_blocks algn blen (area + len) area 0)"

definition Fast_slab_allocator ::
  "(u64 \<Rightarrow> u64) \<Rightarrow> (u64 \<Rightarrow> block_header) \<Rightarrow> u64 list \<Rightarrow> nat \<Rightarrow> u64 \<Rightarrow> u64 \<Rightarrow> u64 \<Rightarrow> 32 word \<Rightarrow> 32 word \<Rightarrow>
    bool \<Rightarrow> slab ctor outcome option" where
  "Fast_slab_allocator v2p m0 items self area len blen algn core needs_phys =
     (if area = 0 \<or> len = 0 then Some (Inr Constructor_error)
      else if sint algn < 0 \<or> (sint algn > 1 \<and> \<not> is_power_of_two (scast algn)) then Some (Inl Panic)
      else
        let algn1 = (if algn = 1 then 0 else scast algn); actual = block_header_size + blen in
        if (needs_phys \<or> algn1 = 0) \<and> actual = 0 then Some (Inl Div_by_zero)
        else if needs_phys \<and> \<not> (actual \<le> 0x200000 \<and> (0x200000 mod actual = 0 \<or> len \<le> 0x200000))
        then Some (Inl Assertion)
        else Option.bind (count_all_blocks area len blen algn1) (\<lambda>n.
          if n = 0 then Some (Inl Panic)
          else case Symmetric_nbb (ucast n) items of Inl e \<Rightarrow> Some (Inl e)
          | Inr q \<Rightarrow>
            let core1 = (if core = -1 then 0 else core);
                s = \<lparr>this = self, mem_area = area, mem_area_phys = v2p area, mem_area_len = len,
                  block_len = blen, actual_block_len = actual, num_of_blocks = n,
                  num_avail = ucast n, alignment = algn1, memory = m0, block_nbb = q\<rparr>
            in Option.bind (fill_blocks v2p needs_phys core1 (area + len) area 0 0 s) (\<lambda>r.
               case r of Inl e \<Rightarrow> Some (Inl e)
               | Inr (s1, cnt) \<Rightarrow> Option.bind (check_blocks s1 (area + len) area) (\<lambda>b.
                   Some (check b Assertion (check (cnt = n) Assertion (Inr (Built s1))))))))"

section \<open>Operations\<close>

definition alloc :: "slab \<Rightarrow> (u64 \<times> slab) outcome" where
  "alloc s =
     (let (err, r, q) = read_item (block_nbb s); s1 = s\<lparr>block_nbb := q\<rparr> in
      if err = NBB_OK then
        case r of None \<Rightarrow> Inl Null_deref
        | Some block_hdr \<Rightarrow>
          let b = block (memory s1 block_hdr) in
          check (b \<noteq> 0) Assertion (Inr (b, s1\<lparr>num_avail := num_avail s1 - 1\<rparr>))
      else Inr (0, s1))"

definition free :: "u64 \<Rightarrow> slab \<Rightarrow> (status \<times> slab) outcome" where
  "free b s =
     (if b = 0 then Inr (E_BAD_PARAM, s)
      else
        let block_hdr = b - block_header_size in
        if owner_allocator (memory s block_hdr) \<noteq> this s then Inr (E_BAD_PARAM, s)
        else
          let (err, q) = insert_item block_hdr (block_nbb s); s1 = s\<lparr>block_nbb := q\<rparr> in
          check (err = NBB_OK) Panic (Inr (S_OK, s1\<lparr>num_avail := num_avail s1 + 1\<rparr>)))"

definition get_block_size :: "slab \<Rightarrow> u64" where
  "get_block_size s = block_len s"

definition get_num_of_preallocated_blocks :: "slab \<Rightarrow> u64" where
  "get_num_of_preallocated_blocks s = num_of_blocks s"

definition actual_block_size :: "u64 \<Rightarrow> u64" where
  "actual_block_size item_size = block_header_size + item_size"

definition get_id_from_block :: "(u64 \<Rightarrow> block_header) \<Rightarrow> u64 \<Rightarrow> int" where
  "get_id_from_block m b =
     (if b = 0 then status_val E_BAD_PARAM else sint (hdr_id (m (b - block_header_size))))"

definition get_block_phy_addr :: "(u64 \<Rightarrow> block_header) \<Rightarrow> u64 \<Rightarrow> u64" where
  "get_block_phy_addr m b =
     (if b = 0 then of_int (status_val E_BAD_PARAM)
      else block_phys_addr (m (b - block_header_size)))"

section \<open>The layout of the area\<close>

text \<open>
  The addresses of the data of the blocks, on natural numbers: each block starts with its header at
  the end of the block before, moved up to the alignment.
\<close>

definition data_at :: "nat \<Rightarrow> nat \<Rightarrow> nat" where
  "data_at a cur = (if a = 0 then cur + 64 else least_multiple a (cur + 64))"

lemma data_at_ge: "cur + 64 \<le> data_at a cur" "data_at a cur \<le> cur + 64 + a"
  using least_multiple [of a "cur + 64"] by (auto simp: data_at_def)

function layout :: "nat \<Rightarrow> nat \<Rightarrow> nat \<Rightarrow> nat \<Rightarrow> nat list" where
  "layout a bl e cur =
     (if cur < e then
        (if data_at a cur + bl \<le> e then [data_at a cur] else []) @ layout a bl e (data_at a cur + bl)
      else [])"
  by auto
termination
proof (relation "measure (\<lambda>(a, bl, e, cur). e - cur)")
  fix a bl e cur :: nat
  assume "cur < e"
  then show "((a, bl, e, data_at a cur + bl), (a, bl, e, cur)) \<in> measure (\<lambda>(a, bl, e, cur). e - cur)"
    using data_at_ge(1) [of cur a] by simp
qed simp

declare layout.simps [simp del]

lemma layout_end [simp]: "e \<le> cur \<Longrightarrow> layout a bl e cur = []"
  by (simp add: layout.simps)

lemma layout_no_fit: "\<not> data_at a cur + bl \<le> e \<Longrightarrow> layout a bl e cur = []"
  by (subst layout.simps) simp

lemma layout_fit:
  "data_at a cur + bl \<le> e \<Longrightarrow> layout a bl e cur = data_at a cur # layout a bl e (data_at a cur + bl)"
  using data_at_ge(1) [of cur a] by (subst layout.simps) simp

lemma layout_bounds: "d \<in> set (layout a bl e cur) \<Longrightarrow> cur + 64 \<le> d \<and> d + bl \<le> e"
proof (induction a bl e cur rule: layout.induct)
  case (1 a bl e cur)
  show ?case
  proof (cases "data_at a cur + bl \<le> e")
    case True
    moreover have "cur < e" using True data_at_ge(1) [of cur a] by simp
    ultimately show ?thesis
      using 1 data_at_ge(1) [of cur a] by (auto simp: layout_fit)
  qed (use 1 in \<open>simp add: layout_no_fit\<close>)
qed

lemma layout_aligned: "0 < a \<Longrightarrow> d \<in> set (layout a bl e cur) \<Longrightarrow> a dvd d"
proof (induction a bl e cur rule: layout.induct)
  case (1 a bl e cur)
  show ?case
  proof (cases "data_at a cur + bl \<le> e")
    case True
    moreover have "cur < e" using True data_at_ge(1) [of cur a] by simp
    moreover have "a dvd data_at a cur" using 1(2) least_multiple(1) by (simp add: data_at_def)
    ultimately show ?thesis using 1 by (auto simp: layout_fit)
  qed (use 1 in \<open>simp add: layout_no_fit\<close>)
qed

text \<open>Blocks with their headers do not overlap.\<close>

lemma layout_disjoint: "sorted_wrt (\<lambda>d d'. d + bl + 64 \<le> d') (layout a bl e cur)"
proof (induction a bl e cur rule: layout.induct)
  case (1 a bl e cur)
  show ?case
  proof (cases "data_at a cur + bl \<le> e")
    case True
    moreover have "cur < e" using True data_at_ge(1) [of cur a] by simp
    moreover have "data_at a cur + bl + 64 \<le> d'"
      if "d' \<in> set (layout a bl e (data_at a cur + bl))" for d'
      using layout_bounds [OF that] by simp
    ultimately show ?thesis using 1 by (simp add: layout_fit)
  qed (simp add: layout_no_fit)
qed

lemma length_layout_unaligned: "length (layout 0 bl e cur) = (e - cur) div (64 + bl)"
proof (induction "e - cur" arbitrary: cur rule: less_induct)
  case less
  show ?case
  proof (cases "cur + 64 + bl \<le> e")
    case True
    then have "e - cur = (64 + bl) + (e - (cur + 64 + bl))" by simp
    then have "(e - cur) div (64 + bl) = Suc ((e - (cur + 64 + bl)) div (64 + bl))"
      by (metis add_eq_0_iff_both_eq_0 div_add_self1 plus_1_eq_Suc add.commute zero_neq_numeral)
    then show ?thesis
      using less [of "cur + 64 + bl"] True by (simp add: layout_fit data_at_def)
  next
    case False
    then show ?thesis by (simp add: layout_no_fit data_at_def)
  qed
qed

section \<open>The loops of the constructor\<close>

text \<open>No address computed by the loops wraps around, and the alignment is zero or a power of two.\<close>

definition fits :: "u64 \<Rightarrow> u64 \<Rightarrow> u64 \<Rightarrow> bool" where
  "fits algn blen m_end \<longleftrightarrow> unat m_end + 64 + unat algn + unat blen < 2 ^ 64 \<and>
     (algn = 0 \<or> (\<exists>k < 31. algn = 2 ^ k))"

lemma place_unat:
  assumes "fits algn blen m_end" "cur < m_end"
  shows "unat (place algn cur) = data_at (unat algn) (unat cur)"
proof -
  have b: "unat cur + 64 + unat algn < 2 ^ 64"
    using assms by (simp add: fits_def word_less_nat_alt)
  then have c: "unat (cur + block_header_size) = unat cur + 64"
    by (simp add: unat_word_ariths(1) block_header_size_def)
  show ?thesis
  proof (cases "algn = 0")
    case True
    then show ?thesis using c by (simp add: place_def data_at_def)
  next
    case False
    then obtain k where k: "k < 31" "algn = 2 ^ k" using assms(1) by (auto simp: fits_def)
    have a: "(ucast algn :: u32) = 2 ^ k" "unat algn = 2 ^ k"
      using k by (simp_all only: word_unat_eq_iff)
        (simp_all add: unat_exp unsigned_ucast_eq take_bit_nat_eq_self power_strict_increasing)
    have "least_multiple (2 ^ k) (unat (cur + block_header_size)) < 2 ^ 64"
      using least_multiple(3) [of "2 ^ k" "unat cur + 64"] b a(2) c by simp
    then have "unat (if check_aligned (cur + block_header_size) (ucast algn) then cur + block_header_size
        else align_pointer (cur + block_header_size) (ucast algn)) = data_at (unat algn) (unat cur)"
      using align_up_unat [OF a(1), of "cur + block_header_size"] k(1) a(2) c by (simp add: data_at_def)
    then show ?thesis using False by (simp add: place_def Let_def if_distrib split: if_splits)
  qed
qed

lemma place_end:
  assumes "fits algn blen m_end" "cur < m_end"
  shows "unat (place algn cur + blen) = data_at (unat algn) (unat cur) + unat blen"
    "unat cur < unat (place algn cur + blen)"
proof -
  have "unat (place algn cur) + unat blen < 2 ^ 64"
    using assms data_at_ge(2) [of "unat algn" "unat cur"] place_unat [OF assms]
    by (simp add: fits_def word_less_nat_alt)
  then show e: "unat (place algn cur + blen) = data_at (unat algn) (unat cur) + unat blen"
    using place_unat [OF assms] by (simp add: unat_word_ariths(1))
  show "unat cur < unat (place algn cur + blen)"
    unfolding e using data_at_ge(1) [of "unat cur" "unat algn"] by simp
qed

lemma count_blocks_layout:
  assumes "fits algn blen m_end"
  shows "count_blocks algn blen m_end cur n =
    Some (n + of_nat (length (layout (unat algn) (unat blen) (unat m_end) (unat cur))))"
proof (induction "unat m_end - unat cur" arbitrary: cur n rule: less_induct)
  case less
  show ?case
  proof (cases "cur < m_end")
    case True
    note e = place_end [OF assms True]
    let ?c = "place algn cur + blen"
    have "unat m_end - unat ?c < unat m_end - unat cur"
      using e(2) True by (simp add: word_less_nat_alt)
    from less [OF this]
    have "count_blocks algn blen m_end cur n =
        Some ((if ?c \<le> m_end then n + 1 else n) +
          of_nat (length (layout (unat algn) (unat blen) (unat m_end) (unat ?c))))"
      using True by (subst count_blocks.simps) (simp add: Let_def)
    then show ?thesis
      using e(1) by (simp add: word_le_nat_alt layout_fit layout_no_fit)
  next
    case False
    then show ?thesis by (subst count_blocks.simps) (simp add: word_less_nat_alt)
  qed
qed

lemma phys_addr_ok:
  assumes "\<And>p. v2p p \<noteq> 0" "area_phys \<noteq> 0"
  shows "\<exists>phys area_phys' aggr'. phys_addr v2p area area_phys aggr d = Inr (phys, area_phys', aggr') \<and>
    area_phys' \<noteq> 0"
  using assms by (simp add: phys_addr_def Let_def)

text \<open>
  What filling does to the allocator: the headers of the blocks \<open>ds\<close> are appended to the free
  blocks and written to memory; nothing else changes but the page the physical addresses refer to.
\<close>

definition header_of :: "nat \<Rightarrow> u64" where
  "header_of d = of_nat (d - 64)"

definition same_config :: "slab \<Rightarrow> slab \<Rightarrow> bool" where
  "same_config s s' \<longleftrightarrow> this s' = this s \<and> mem_area s' = mem_area s \<and> mem_area_len s' = mem_area_len s \<and>
     block_len s' = block_len s \<and> actual_block_len s' = actual_block_len s \<and>
     num_of_blocks s' = num_of_blocks s \<and> num_avail s' = num_avail s \<and> alignment s' = alignment s"

definition filled :: "32 word \<Rightarrow> slab \<Rightarrow> nat list \<Rightarrow> slab \<Rightarrow> bool" where
  "filled core s ds s' \<longleftrightarrow> nbb_wf (block_nbb s') \<and>
     contents (block_nbb s') = contents (block_nbb s) @ map header_of ds \<and>
     buffer_size (block_nbb s') = buffer_size (block_nbb s) \<and>
     (\<forall>d \<in> set ds. block (memory s' (header_of d)) = of_nat d \<and>
       owner_allocator (memory s' (header_of d)) = this s \<and> hdr_id (memory s' (header_of d)) = core) \<and>
     (\<forall>h. h \<notin> header_of ` set ds \<longrightarrow> memory s' h = memory s h) \<and>
     same_config s s'"

lemma header_of_eq:
  assumes "64 \<le> d" "d < 2 ^ 64"
  shows "unat (header_of d) = d - 64" "of_nat d - block_header_size = header_of d" "(of_nat d :: u64) \<noteq> 0"
proof -
  show "unat (header_of d) = d - 64" unfolding header_of_def unat_of_nat using assms by simp
  show "of_nat d - block_header_size = header_of d"
    using assms(1) by (simp add: header_of_def of_nat_diff block_header_size_def)
  show "(of_nat d :: u64) \<noteq> 0" using assms by (simp add: word_unat_eq_iff unat_of_nat)
qed

lemma header_of_inj:
  assumes "64 \<le> d" "64 \<le> d'" "d < 2 ^ 64" "d' < 2 ^ 64" "header_of d = header_of d'"
  shows "d = d'"
  using assms header_of_eq(1) [of d] header_of_eq(1) [of d'] by simp

lemma fill_block_ok:
  assumes "nbb_wf (block_nbb s)" "outstanding (block_nbb s) < unat (buffer_size (block_nbb s))"
    "64 < d" "d < 2 ^ 64" "unat (mem_area s) \<le> d" "d < unat (mem_area s) + unat (mem_area_len s)"
    "unat (mem_area s) + unat (mem_area_len s) < 2 ^ 64"
    "np \<Longrightarrow> (\<forall>p. v2p p \<noteq> 0) \<and> mem_area_phys s \<noteq> 0"
  shows "\<exists>s' aggr'. fill_block v2p np core (of_nat d) aggr s = Inr (s', aggr') \<and> filled core s [d] s' \<and>
    (np \<longrightarrow> mem_area_phys s' \<noteq> 0)"
proof -
  note h = header_of_eq [of d]
  let ?q = "stored (header_of d) (block_nbb s)"
  have i: "insert_item (header_of d) (block_nbb s) = (NBB_OK, ?q)"
    using assms(2) by (simp add: insert_item_cases [OF assms(1)])
  have nz: "header_of d \<noteq> 0" using h(1) assms(3,4) by (auto simp: word_unat_eq_iff)
  have range: "mem_area s \<le> of_nat d \<and> of_nat d < mem_area s + mem_area_len s"
    using assms(4-7) by (simp add: word_le_nat_alt word_less_nat_alt unat_word_ariths(1) unat_of_nat)
  obtain phys area_phys aggr' where p: "(if np then phys_addr v2p (mem_area s) (mem_area_phys s) aggr (of_nat d)
      else Inr (block_phys_addr (memory s (header_of d)), mem_area_phys s, aggr)) = Inr (phys, area_phys, aggr')"
    "np \<longrightarrow> area_phys \<noteq> 0"
    using phys_addr_ok [of v2p "mem_area_phys s" "mem_area s" aggr "of_nat d"] assms(8) by (cases np) auto
  show ?thesis
    unfolding fill_block_def Let_def
    using h assms(3,4) nz range p i stored_room [OF assms(1,2), of "header_of d"]
    by (auto simp: filled_def same_config_def)
qed

lemma filled_trans:
  assumes "filled core s ds s1" "filled core s1 es s2"
    "\<And>d e. d \<in> set ds \<Longrightarrow> e \<in> set es \<Longrightarrow> header_of d \<noteq> header_of e"
  shows "filled core s (ds @ es) s2"
proof -
  have m: "memory s2 (header_of d) = memory s1 (header_of d)" if "d \<in> set ds" for d
    using assms(2,3) that unfolding filled_def by blast
  show ?thesis
    using assms(1,2) m unfolding filled_def by (simp add: image_Un ball_Un same_config_def)
qed

lemma filled_Nil: "nbb_wf (block_nbb s) \<Longrightarrow> filled core s [] s"
  by (simp add: filled_def same_config_def)

lemma fill_blocks_layout:
  assumes fits: "fits (alignment s) (block_len s) m_end" and m_end: "m_end = mem_area s + mem_area_len s"
    and nowrap: "unat (mem_area s) + unat (mem_area_len s) < 2 ^ 64"
    and cur: "0 < mem_area s" "mem_area s \<le> cur"
    and wf: "nbb_wf (block_nbb s)"
    and ds: "ds = layout (unat (alignment s)) (unat (block_len s)) (unat m_end) (unat cur)"
    and room: "outstanding (block_nbb s) + length ds \<le> unat (buffer_size (block_nbb s))"
    and np: "np \<Longrightarrow> (\<forall>p. v2p p \<noteq> 0) \<and> mem_area_phys s \<noteq> 0"
    and pos: "0 < block_len s"
  shows "\<exists>s'. fill_blocks v2p np core m_end cur aggr cnt s = Some (Inr (s', cnt + of_nat (length ds))) \<and>
    filled core s ds s'"
  using assms
proof (induction "unat m_end - unat cur" arbitrary: s cur aggr cnt ds rule: less_induct)
  case less
  let ?d = "data_at (unat (alignment s)) (unat cur)"
  have E: "unat m_end = unat (mem_area s) + unat (mem_area_len s)"
    using less.prems(2,3) by (simp add: unat_word_ariths(1))
  show ?case
  proof (cases "cur < m_end")
    case True
    note e = place_end [OF less.prems(1) True]
    let ?c = "place (alignment s) cur + block_len s"
    have dec: "unat m_end - unat ?c < unat m_end - unat cur"
      using e(2) True by (simp add: word_less_nat_alt)
    have pd: "place (alignment s) cur = of_nat ?d"
      unfolding place_unat [OF less.prems(1) True, symmetric] by simp
    have cur': "mem_area s \<le> ?c" using e(2) less.prems(5) by (simp add: word_le_nat_alt)
    show ?thesis
    proof (cases "?d + unat (block_len s) \<le> unat m_end")
      case True
      then have ds: "ds = ?d # layout (unat (alignment s)) (unat (block_len s)) (unat m_end) (unat ?c)"
        using less.prems(7) e(1) by (simp add: layout_fit)
      have bounds: "64 < ?d" "?d < 2 ^ 64" "unat (mem_area s) \<le> ?d" "?d < unat (mem_area s) + unat (mem_area_len s)"
        using True E data_at_ge(1) [of "unat cur" "unat (alignment s)"] less.prems(3,4,5,10)
        by (auto simp: word_le_nat_alt word_less_nat_alt)
      obtain s1 aggr1 where f: "fill_block v2p np core (of_nat ?d) aggr s = Inr (s1, aggr1)"
        "filled core s [?d] s1" "np \<longrightarrow> mem_area_phys s1 \<noteq> 0"
        using fill_block_ok [OF less.prems(6) _ bounds less.prems(3,9), of np core aggr] less.prems(8) ds by auto
      have c: "same_config s s1" "nbb_wf (block_nbb s1)" "outstanding (block_nbb s1) = Suc (outstanding (block_nbb s))"
        "buffer_size (block_nbb s1) = buffer_size (block_nbb s)"
        using f(2) length_contents [of "block_nbb s1"] by (simp_all add: filled_def)
      have "\<exists>s2. fill_blocks v2p np core m_end ?c aggr1 (cnt + 1) s1 =
          Some (Inr (s2, cnt + 1 + of_nat (length (tl ds)))) \<and> filled core s1 (tl ds) s2"
      proof (rule less.hyps [OF dec])
        show "fits (alignment s1) (block_len s1) m_end" "m_end = mem_area s1 + mem_area_len s1"
          "unat (mem_area s1) + unat (mem_area_len s1) < 2 ^ 64" "0 < mem_area s1" "mem_area s1 \<le> ?c"
          "0 < block_len s1"
          using less.prems(1-5,10) c(1) cur' by (simp_all add: same_config_def)
        show "tl ds = layout (unat (alignment s1)) (unat (block_len s1)) (unat m_end) (unat ?c)"
          using ds c(1) by (simp add: same_config_def)
        show "outstanding (block_nbb s1) + length (tl ds) \<le> unat (buffer_size (block_nbb s1))"
          using less.prems(8) c(3,4) ds by simp
      qed (use c(2) f(3) less.prems(9) in auto)
      then obtain s2 where s2: "fill_blocks v2p np core m_end ?c aggr1 (cnt + 1) s1 =
          Some (Inr (s2, cnt + 1 + of_nat (length (tl ds))))" "filled core s1 (tl ds) s2" by blast
      have "header_of ?d \<noteq> header_of e" if "e \<in> set (tl ds)" for e
        using that ds layout_bounds [of e] header_of_inj [of ?d e] bounds E less.prems(3) e(1) by fastforce
      then have "filled core s ([?d] @ tl ds) s2"
        using filled_trans [OF f(2) s2(2)] by simp
      moreover have "fill_blocks v2p np core m_end cur aggr cnt s = Some (Inr (s2, cnt + of_nat (length ds)))"
        using \<open>cur < m_end\<close> True e(1) f(1) s2(1) pd ds
        by (subst fill_blocks.simps) (simp add: Let_def word_le_nat_alt add.assoc)
      ultimately show ?thesis using ds by auto
    next
      case False
      then have "ds = []" "layout (unat (alignment s)) (unat (block_len s)) (unat m_end) (unat ?c) = []"
        using less.prems(7) e(1) by (simp_all add: layout_no_fit)
      then show ?thesis
        using less.hyps [OF dec, of s "[]" aggr cnt] less.prems cur' False e(1) \<open>cur < m_end\<close>
        by (subst fill_blocks.simps) (simp add: Let_def word_le_nat_alt)
    qed
  next
    case False
    then show ?thesis
      using less.prems filled_Nil by (subst fill_blocks.simps) (simp add: word_less_nat_alt)
  qed
qed

lemma check_blocks_layout:
  assumes "fits (alignment s) (block_len s) m_end"
    "\<forall>d \<in> set (layout (unat (alignment s)) (unat (block_len s)) (unat m_end) (unat cur)).
      header_of d \<noteq> 0 \<and> block (memory s (header_of d)) \<noteq> 0"
  shows "check_blocks s m_end cur = Some True"
  using assms(2)
proof (induction "unat m_end - unat cur" arbitrary: cur rule: less_induct)
  case less
  let ?d = "data_at (unat (alignment s)) (unat cur)"
  show ?case
  proof (cases "cur < m_end")
    case True
    note e = place_end [OF assms(1) True] and p = place_unat [OF assms(1) True]
    let ?c = "place (alignment s) cur + block_len s"
    have dec: "unat m_end - unat ?c < unat m_end - unat cur"
      using e(2) True by (simp add: word_less_nat_alt)
    have "64 \<le> ?d" "?d < 2 ^ 64"
      using data_at_ge(1) [of "unat cur" "unat (alignment s)"] p
        unsigned_less [of "place (alignment s) cur", where ?'a = nat] by simp_all
    then have h: "place (alignment s) cur - block_header_size = header_of ?d"
      using header_of_eq(2) [of ?d] unfolding p [symmetric] by simp
    have "check_blocks s m_end ?c = Some True"
    proof (rule less.hyps [OF dec])
      show "\<forall>d \<in> set (layout (unat (alignment s)) (unat (block_len s)) (unat m_end) (unat ?c)).
          header_of d \<noteq> 0 \<and> block (memory s (header_of d)) \<noteq> 0"
        using less.prems e(1) by (cases "unat ?c \<le> unat m_end") (auto simp: layout_fit)
    qed
    moreover have "\<not> (?c \<le> m_end \<and> (header_of ?d = 0 \<or> block (memory s (header_of ?d)) = 0))"
      using less.prems e(1) by (auto simp: layout_fit word_le_nat_alt)
    ultimately show ?thesis
      using True by (subst check_blocks.simps, unfold Let_def h) simp
  next
    case False
    then show ?thesis by (subst check_blocks.simps) simp
  qed
qed

section \<open>The allocator\<close>

text \<open>
  The blocks of an allocator and the invariant of its operations: the free blocks are distinct blocks
  of the allocator with correct headers, and the buffer has a slot for every block.
\<close>

definition slab_ok :: "u64 set \<Rightarrow> slab \<Rightarrow> bool" where
  "slab_ok hdrs s \<longleftrightarrow> nbb_wf (block_nbb s) \<and> finite hdrs \<and> card hdrs \<le> unat (buffer_size (block_nbb s)) \<and>
     distinct (contents (block_nbb s)) \<and> set (contents (block_nbb s)) \<subseteq> hdrs \<and>
     (\<forall>h \<in> hdrs. owner_allocator (memory s h) = this s \<and> block (memory s h) = h + 64 \<and> h + 64 \<noteq> 0) \<and>
     num_avail s = of_nat (length (contents (block_nbb s)))"

definition free_headers :: "slab \<Rightarrow> u64 list" where
  "free_headers s = contents (block_nbb s)"

lemma alloc_spec:
  assumes "slab_ok hdrs s"
  shows "case free_headers s of
      [] \<Rightarrow> alloc s = Inr (0, s)
    | h # hs \<Rightarrow> \<exists>s'. alloc s = Inr (h + 64, s') \<and> slab_ok hdrs s' \<and> free_headers s' = hs \<and>
        num_avail s' = num_avail s - 1 \<and> memory s' = memory s"
proof (cases "contents (block_nbb s)")
  case Nil
  then have "outstanding (block_nbb s) = 0" by (metis length_contents list.size(3))
  then show ?thesis
    using Nil assms read_item_cases [of "block_nbb s"]
    by (simp add: slab_ok_def alloc_def free_headers_def)
next
  case (Cons h hs)
  have wf: "nbb_wf (block_nbb s)" using assms by (simp add: slab_ok_def)
  note r = nbb_read_Cons [OF wf Cons]
  have "buffer_size (taken_out (block_nbb s)) = buffer_size (block_nbb s)" by (simp add: taken_out_def)
  then show ?thesis
    using assms Cons r by (auto simp: slab_ok_def alloc_def free_headers_def Let_def)
qed

lemma free_spec:
  assumes "slab_ok hdrs s" "h \<in> hdrs" "h \<notin> set (free_headers s)"
  shows "\<exists>s'. free (h + 64) s = Inr (S_OK, s') \<and> slab_ok hdrs s' \<and>
    free_headers s' = free_headers s @ [h] \<and> num_avail s' = num_avail s + 1 \<and> memory s' = memory s"
proof -
  let ?q = "block_nbb s"
  have wf: "nbb_wf ?q" using assms(1) by (simp add: slab_ok_def)
  have "set (contents ?q) \<subset> hdrs" using assms by (auto simp: slab_ok_def free_headers_def)
  then have "length (contents ?q) < card hdrs"
    using assms(1) by (metis distinct_card psubset_card_mono slab_ok_def)
  then have room: "outstanding ?q < unat (buffer_size ?q)"
    using assms(1) by (simp add: slab_ok_def)
  then have "insert_item h ?q = (NBB_OK, stored h ?q)"
    by (simp add: insert_item_cases [OF wf])
  moreover have "outstanding (stored h ?q) = Suc (outstanding ?q)"
    using stored_room(2) [OF wf room, of h] length_contents [of "stored h ?q"] by simp
  ultimately show ?thesis
    using assms stored_room [OF wf room, of h]
    by (auto simp: slab_ok_def free_def free_headers_def block_header_size_def Let_def)
qed

lemma sint_exp: "k < 31 \<Longrightarrow> sint (2 ^ k :: 32 word) = 2 ^ k"
  using sint_of_nat_small [of "2 ^ k"] power_strict_increasing [of k 31 "2 :: nat"] by simp

lemma scast_exp: "k < 31 \<Longrightarrow> (scast (2 ^ k :: 32 word) :: u64) = 2 ^ k"
  using sint_exp [of k] by (metis of_int_sint of_int_power of_int_numeral scast_id signed_of_int)

lemma count_all_blocks_layout:
  assumes "fits algn blen (area + len)" "unat area + unat len < 2 ^ 64"
    "ds = layout (unat algn) (unat blen) (unat area + unat len) (unat area)"
  shows "count_all_blocks area len blen algn = Some (of_nat (length ds))"
proof (cases "algn = 0")
  case True
  have "unat blen + 64 < 2 ^ 64" using assms(1) by (simp add: fits_def)
  then have "unat (len div (block_header_size + blen)) = length ds"
    using assms(3) True
    by (simp add: length_layout_unaligned unat_div unat_word_ariths(1) block_header_size_def)
  then have "len div (block_header_size + blen) = of_nat (length ds)"
    by (metis ucast_id of_nat_unat)
  then show ?thesis using True by (simp add: count_all_blocks_def)
next
  case False
  have "unat (area + len) = unat area + unat len" using assms(2) by (simp add: unat_word_ariths(1))
  then show ?thesis
    using count_blocks_layout [OF assms(1), of area 0] assms(3) False by (simp add: count_all_blocks_def)
qed

lemma alignment_checked:
  assumes "k < 31" "algn = (2 ^ k :: 32 word)" "algn1 = (if algn = 1 then 0 else scast algn :: u64)"
  shows "\<not> (sint algn < 0 \<or> (sint algn > 1 \<and> \<not> is_power_of_two (scast algn)))"
    "unat algn1 = (if k = 0 then 0 else 2 ^ k)" "algn1 = 0 \<or> (\<exists>k < 31. algn1 = 2 ^ k)"
proof -
  have one: "algn = 1 \<longleftrightarrow> k = 0"
    using assms(1,2) unat_exp [of k, where ?'a = 32] by (auto simp: word_unat_eq_iff)
  have sc: "(scast algn :: u64) = 2 ^ k" using scast_exp assms(1,2) by simp
  then have "is_power_of_two (scast algn)" using assms(1) by (auto simp: is_power_of_two_iff intro!: exI [of _ k])
  then show "\<not> (sint algn < 0 \<or> (sint algn > 1 \<and> \<not> is_power_of_two (scast algn)))"
    using sint_exp assms(1,2) by simp
  show "unat algn1 = (if k = 0 then 0 else 2 ^ k)"
    using assms(1,3) one sc unat_exp [of k, where ?'a = 64] by simp
  show "algn1 = 0 \<or> (\<exists>k < 31. algn1 = 2 ^ k)" using assms(1,3) sc by auto
qed

lemma layout_headers:
  assumes "ds = layout a bl e cur" "e < 2 ^ 64" "0 < cur"
  shows "distinct (map header_of ds)"
    "\<forall>d \<in> set ds. header_of d \<noteq> 0 \<and> header_of d + 64 \<noteq> 0 \<and> of_nat d = header_of d + 64"
proof -
  have bd: "64 < d" "d < 2 ^ 64" if "d \<in> set ds" for d
    using layout_bounds [of d a bl e cur] that assms by auto
  have "sorted_wrt (<) ds"
    unfolding assms(1) by (rule sorted_wrt_mono_rel [OF _ layout_disjoint]) simp
  then have "distinct ds" by (simp add: strict_sorted_iff)
  moreover have "inj_on header_of (set ds)"
    using header_of_inj bd by (intro inj_onI) (meson less_imp_le_nat)
  ultimately show "distinct (map header_of ds)" by (simp add: distinct_map)
  show "\<forall>d \<in> set ds. header_of d \<noteq> 0 \<and> header_of d + 64 \<noteq> 0 \<and> of_nat d = header_of d + 64"
  proof
    fix d
    assume "d \<in> set ds"
    then have h: "64 \<le> d" "d < 2 ^ 64" "64 < d" using bd [of d] by auto
    have "of_nat d = header_of d + 64"
      using header_of_eq(2) [OF h(1,2)] by (metis block_header_size_def diff_add_cancel)
    moreover have "header_of d \<noteq> 0" using header_of_eq(1) [OF h(1,2)] h(3) by auto
    ultimately show "header_of d \<noteq> 0 \<and> header_of d + 64 \<noteq> 0 \<and> of_nat d = header_of d + 64"
      using header_of_eq(3) [OF h(1,2)] by simp
  qed
qed

lemma slab_constructor:
  assumes area: "area \<noteq> 0" "len \<noteq> 0" "blen \<noteq> 0" and algn: "k < 31" "algn = 2 ^ k"
    and a: "a = (if k = 0 then 0 else 2 ^ k)"
    and nowrap: "unat area + unat len + 64 + a + unat blen < 2 ^ 64"
    and ds: "ds = layout a (unat blen) (unat area + unat len) (unat area)" "ds \<noteq> []" "length ds < 2 ^ 29"
    and items: "length items = length ds"
    and phys: "np \<Longrightarrow> (\<forall>p. v2p p \<noteq> 0) \<and> 64 + blen \<le> 0x200000 \<and>
      (0x200000 mod (64 + blen) = 0 \<or> len \<le> 0x200000)"
  shows "\<exists>s. Fast_slab_allocator v2p m0 items self area len blen algn core np = Some (Inr (Built s)) \<and>
    slab_ok (set (map header_of ds)) s \<and> free_headers s = map header_of ds \<and>
    num_of_blocks s = of_nat (length ds) \<and>
    (\<forall>d \<in> set ds. hdr_id (memory s (header_of d)) = (if core = -1 then 0 else core))"
proof -
  define algn1 where "algn1 = (if algn = 1 then 0 else scast algn :: u64)"
  note al = alignment_checked [OF algn algn1_def]
  have fits: "fits algn1 blen (area + len)"
    using nowrap al(2,3) a by (simp add: fits_def unat_word_ariths(1))
  have m_end: "unat (area + len) = unat area + unat len" using nowrap by (simp add: unat_word_ariths(1))
  have ds': "ds = layout (unat algn1) (unat blen) (unat area + unat len) (unat area)"
    using ds(1) al(2) a by simp
  have n: "unat (of_nat (length ds) :: u64) = length ds"
    "unat (ucast (of_nat (length ds) :: u64) :: u32) = length ds"
    using ds(3) by (simp_all add: unat_of_nat unsigned_ucast_eq take_bit_nat_eq_self)
  have count: "count_all_blocks area len blen algn1 = Some (of_nat (length ds))"
    using count_all_blocks_layout [OF fits _ ds'] nowrap by simp
  obtain q where q: "Symmetric_nbb (ucast (of_nat (length ds) :: u64)) items = Inr q" "nbb_wf q"
    "contents q = []" "unat (buffer_size q) = length ds"
    using Symmetric_nbb_ok [of "ucast (of_nat (length ds) :: u64)" items] n ds(2,3) items by auto
  define s0 where "s0 = \<lparr>this = self, mem_area = area, mem_area_phys = v2p area, mem_area_len = len,
      block_len = blen, actual_block_len = block_header_size + blen, num_of_blocks = of_nat (length ds),
      num_avail = ucast (of_nat (length ds) :: u64), alignment = algn1, memory = m0, block_nbb = q\<rparr>"
  have empty: "outstanding q = 0" using q(3) by (metis length_contents list.size(3))
  let ?core = "if core = -1 then 0 else core"
  have "\<exists>s1. fill_blocks v2p np ?core (area + len) area 0 0 s0 = Some (Inr (s1, 0 + of_nat (length ds))) \<and>
      filled ?core s0 ds s1"
    using fits nowrap area q empty ds' m_end phys
    by (intro fill_blocks_layout) (simp_all add: s0_def word_neq_0_conv)
  then obtain s1 where s1: "fill_blocks v2p np ?core (area + len) area 0 0 s0 =
      Some (Inr (s1, of_nat (length ds)))" "filled ?core s0 ds s1" by auto
  note b = layout_headers [OF ds(1)]
  have bounds: "unat area + unat len < 2 ^ 64" "0 < unat area"
    using nowrap area(1) by (simp_all add: unat_gt_0)
  have na: "(ucast (of_nat (length ds) :: u64) :: u32) = of_nat (length ds)"
    using n(2) by (metis of_nat_unat ucast_id)
  have hd: "\<forall>d \<in> set ds. header_of d \<noteq> 0 \<and> of_nat d \<noteq> (0 :: u64)"
    using b(2) [OF bounds] by simp
  have hs: "\<forall>h \<in> set (map header_of ds). owner_allocator (memory s1 h) = this s1 \<and>
      block (memory s1 h) = h + 64 \<and> h + 64 \<noteq> 0"
    using b(2) [OF bounds] s1(2) by (simp add: filled_def same_config_def)
  have ok: "slab_ok (set (map header_of ds)) s1" "free_headers s1 = map header_of ds"
    using s1(2) b(1) [OF bounds] hs q n(1) na length_contents [of "block_nbb s1"]
    by (simp_all add: filled_def same_config_def slab_ok_def free_headers_def s0_def distinct_card
        del: set_map)
  have walk: "check_blocks s1 (area + len) area = Some True"
    using s1(2) fits hd ds' m_end
    by (intro check_blocks_layout) (simp_all add: filled_def same_config_def s0_def)
  have actual: "block_header_size + blen \<noteq> 0" "of_nat (length ds) \<noteq> (0 :: u64)"
    using nowrap n(1) ds(2)
    by (auto simp: word_unat_eq_iff [of _ 0] unat_word_ariths(1) block_header_size_def)
  have asserted: "\<not> (np \<and> \<not> (block_header_size + blen \<le> 0x200000 \<and>
      (0x200000 mod (block_header_size + blen) = 0 \<or> len \<le> 0x200000)))"
    using phys by (simp add: block_header_size_def)
  have "Fast_slab_allocator v2p m0 items self area len blen algn core np = Some (Inr (Built s1))"
    unfolding Fast_slab_allocator_def algn1_def [symmetric] Let_def
    using area(1,2) al(1) asserted actual count q(1) s1(1) [unfolded s0_def] walk
    by (simp del: de_Morgan_conj de_Morgan_disj)
  then show ?thesis
    using ok s1(2) by (auto simp: filled_def same_config_def s0_def)
qed

section \<open>The allocator contract\<close>

text \<open>
  The operations in the form of \<open>slot_allocator\<close>: the state carries the set of headers of the
  allocator, and an object is a block address.
\<close>

fun slab_alloc :: "u64 set \<times> slab \<Rightarrow> u64 option \<times> u64 set \<times> slab" where
  "slab_alloc (hdrs, s) =
     (case alloc s of Inr (b, s') \<Rightarrow> (if b = 0 then None else Some b, hdrs, s') | Inl _ \<Rightarrow> (None, hdrs, s))"

fun slab_release :: "u64 \<Rightarrow> u64 set \<times> slab \<Rightarrow> u64 set \<times> slab" where
  "slab_release b (hdrs, s) = (case free b s of Inr (_, s') \<Rightarrow> (hdrs, s') | Inl _ \<Rightarrow> (hdrs, s))"

fun slab_live :: "u64 set \<times> slab \<Rightarrow> u64 set" where
  "slab_live (hdrs, s) = (\<lambda>h. h + 64) ` (hdrs - set (free_headers s))"

fun slab_pool :: "u64 set \<times> slab \<Rightarrow> u64 set" where
  "slab_pool (hdrs, s) = (\<lambda>h. h + 64) ` hdrs"

lemma slab_ok_free: "slab_ok hdrs s \<Longrightarrow>
  finite hdrs \<and> distinct (free_headers s) \<and> set (free_headers s) \<subseteq> hdrs \<and> (\<forall>h \<in> hdrs. h + 64 \<noteq> 0)"
  by (auto simp: slab_ok_def free_headers_def)

lemma slab_alloc_cases:
  assumes "slab_ok hdrs s" "slab_alloc (hdrs, s) = (r, t)"
  obtains "r = None" "t = (hdrs, s)" "free_headers s = []"
  | h hs s' where "r = Some (h + 64)" "t = (hdrs, s')" "free_headers s = h # hs" "free_headers s' = hs"
      "slab_ok hdrs s'" "h \<in> hdrs"
proof (cases "free_headers s")
  case Nil
  then show ?thesis using that(1) assms alloc_spec [OF assms(1)] by simp
next
  case (Cons h hs)
  then obtain s' where a: "alloc s = Inr (h + 64, s')" "slab_ok hdrs s'" "free_headers s' = hs"
    using alloc_spec [OF assms(1)] by auto
  have h: "h \<in> hdrs" "h + 64 \<noteq> 0" using slab_ok_free [OF assms(1)] Cons by auto
  then show ?thesis using that(2) [of h s' hs] assms(2) a Cons by simp
qed

lemma slab_release_spec:
  assumes "slab_ok hdrs s" "b \<in> slab_live (hdrs, s)"
  shows "\<exists>s'. slab_release b (hdrs, s) = (hdrs, s') \<and> slab_ok hdrs s' \<and>
    free_headers s' = free_headers s @ [b - 64]"
proof -
  obtain h where h: "b = h + 64" "h \<in> hdrs" "h \<notin> set (free_headers s)" using assms(2) by auto
  then show ?thesis using free_spec [OF assms(1) h(2,3)] by auto
qed

lemma slab_live_diff: "slab_live (hdrs, s) = slab_pool (hdrs, s) - (\<lambda>h. h + 64) ` set (free_headers s)"
  by (auto simp: inj_image_mem_iff)

interpretation slab_blocks: slot_allocator slab_alloc slab_release slab_live slab_pool
  "\<lambda>(hdrs, s). slab_ok hdrs s"
proof (unfold_locales, goal_cases)
  case (1 t)
  then show ?case by (cases t) (auto dest: slab_ok_free)
next
  case (2 t)
  then show ?case by (cases t) auto
next
  case (3 t t')
  then obtain hdrs s where t: "t = (hdrs, s)" "slab_ok hdrs s" by (cases t) auto
  from t(2) 3(2) [unfolded t(1)] show ?case by (cases rule: slab_alloc_cases) (auto simp: t)
next
  case (4 t i t')
  then obtain hdrs s where t: "t = (hdrs, s)" "slab_ok hdrs s" by (cases t) auto
  from t(2) 4(2) [unfolded t(1)] show ?case
    by (cases rule: slab_alloc_cases) (use t slab_ok_free [OF t(2)] in \<open>auto simp: image_iff\<close>)
next
  case (5 t i)
  then obtain hdrs s where t: "t = (hdrs, s)" "slab_ok hdrs s" by (cases t) auto
  then obtain s' where "slab_release i t = (hdrs, s')" "slab_ok hdrs s'"
    "free_headers s' = free_headers s @ [i - 64]"
    using slab_release_spec [of hdrs s i] 5(2) by auto
  then show ?case using t by (auto simp: slab_live_diff simp del: slab_live.simps)
qed

section \<open>Properties\<close>

text \<open>
  On a memory area that does not wrap around, with an alignment that is 1 or a power of two and at
  least one block that fits, the constructor returns an allocator. Its blocks \<open>ds\<close> lie in the area with
  their headers, are aligned, do not overlap each other or each other's headers, are counted by
  \<^verbatim>\<open>__num_of_blocks\<close>, are all free, and each header carries the id of the core.
\<close>

theorem slab_layout:
  assumes area: "area \<noteq> 0" "len \<noteq> 0" "blen \<noteq> 0" and algn: "k < 31" "algn = 2 ^ k"
    and a: "a = (if k = 0 then 0 else 2 ^ k)"
    and nowrap: "unat area + unat len + 64 + a + unat blen < 2 ^ 64"
    and ds: "ds = layout a (unat blen) (unat area + unat len) (unat area)" "ds \<noteq> []" "length ds < 2 ^ 29"
    and items: "length items = length ds"
    and phys: "np \<Longrightarrow> (\<forall>p. v2p p \<noteq> 0) \<and> 64 + blen \<le> 0x200000 \<and>
      (0x200000 mod (64 + blen) = 0 \<or> len \<le> 0x200000)"
  shows "\<exists>s. Fast_slab_allocator v2p m0 items self area len blen algn core np = Some (Inr (Built s)) \<and>
    free_headers s = map header_of ds \<and> num_of_blocks s = of_nat (length ds) \<and>
    num_avail s = of_nat (length ds) \<and>
    (\<forall>d \<in> set ds. unat area + 64 \<le> d \<and> d + unat blen \<le> unat area + unat len \<and> 2 ^ k dvd d \<and>
      block (memory s (header_of d)) = of_nat d \<and> get_id_from_block (memory s) (of_nat d) =
        sint (if core = -1 then 0 else core)) \<and>
    sorted_wrt (\<lambda>d d'. d + unat blen \<le> d' - 64) ds"
proof -
  obtain s where s: "Fast_slab_allocator v2p m0 items self area len blen algn core np = Some (Inr (Built s))"
    "slab_ok (set (map header_of ds)) s" "free_headers s = map header_of ds"
    "num_of_blocks s = of_nat (length ds)"
    "\<forall>d \<in> set ds. hdr_id (memory s (header_of d)) = (if core = -1 then 0 else core)"
    using slab_constructor [OF assms] by blast
  have b: "\<forall>d \<in> set ds. unat area + 64 \<le> d \<and> d + unat blen \<le> unat area + unat len"
    using ds(1) layout_bounds by blast
  have al: "\<forall>d \<in> set ds. 2 ^ k dvd d"
    using layout_aligned [of a] ds(1) a by (cases "k = 0") auto
  have "\<forall>d \<in> set ds. header_of d = of_nat d - 64 \<and> of_nat d \<noteq> (0 :: u64)"
    using header_of_eq b nowrap by (fastforce simp: block_header_size_def)
  moreover have "sorted_wrt (\<lambda>d d'. d + unat blen \<le> d' - 64) ds"
    using layout_disjoint [of "unat blen" a "unat area + unat len" "unat area"] ds(1)
    by (auto elim!: sorted_wrt_mono_rel [rotated])
  moreover have "num_avail s = of_nat (length ds)"
    using s(2,3) by (metis slab_ok_def free_headers_def length_map)
  ultimately show ?thesis
    using s b al by (auto simp: slab_ok_def get_id_from_block_def block_header_size_def)
qed

lemma small_layout: "layout 64 64 4480 4096 = [0x1040, 0x10C0, 0x1140]"
  by (simp add: layout.simps data_at_def least_multiple_def)

text \<open>
  C24. Clients of a constructed allocator: whatever sequence of allocations and releases runs, the
  blocks the clients hold are exactly the blocks not in the buffer, \<^verbatim>\<open>alloc\<close> never hands out a block that
  is held, \<^verbatim>\<open>__num_avail\<close> counts the free blocks, and \<^verbatim>\<open>alloc\<close> returns NULL exactly when all the blocks
  are held.
\<close>

theorem slab_alloc_free:
  assumes "slab_ok hdrs s" "free_headers s = hs" "set hs = hdrs" "card hdrs < 2 ^ 32"
    and run: "serve slab_alloc slab_release rs {} (hdrs, s) = (held, hdrs', s')"
  shows "hdrs' = hdrs \<and> held = (\<lambda>h. h + 64) ` (hdrs - set (free_headers s')) \<and>
    unat (num_avail s') + card held = card hdrs \<and>
    (case alloc s' of Inl _ \<Rightarrow> False
     | Inr (b, s'') \<Rightarrow> b \<notin> held \<and> (b = 0 \<longleftrightarrow> card held = card hdrs))"
proof -
  have "slab_live (hdrs, s) = {}" using assms(2,3) by simp
  then have run': "serve slab_alloc slab_release rs (slab_live (hdrs, s)) (hdrs, s) = (held, hdrs', s')"
    using run by (simp only:)
  have r: "slab_ok hdrs' s'" "held = slab_live (hdrs', s')" "slab_pool (hdrs', s') = slab_pool (hdrs, s)"
    using slab_blocks.serve_live [OF _ run'] assms(1) by simp_all
  have inj: "inj (\<lambda>h :: u64. h + 64)" by (simp add: inj_def)
  have h: "hdrs' = hdrs" using r(3) inj by (simp add: inj_image_eq_iff)
  note f = slab_ok_free [OF r(1) [unfolded h]]
  have "card held = card (hdrs - set (free_headers s'))"
    using r(2) h inj by (simp add: card_image inj_on_subset)
  moreover have "length (free_headers s') \<le> card hdrs" using f by (metis card_mono distinct_card)
  ultimately have c: "card held + length (free_headers s') = card hdrs"
    using f by (simp add: card_Diff_subset distinct_card)
  then have "unat (num_avail s') + card held = card hdrs"
    using r(1) assms(4) by (simp add: slab_ok_def free_headers_def unat_of_nat)
  moreover have "case alloc s' of Inl _ \<Rightarrow> False
    | Inr (b, s'') \<Rightarrow> b \<notin> held \<and> (b = 0 \<longleftrightarrow> card held = card hdrs)"
    using alloc_spec [OF r(1) [unfolded h]] f c r(2) h
    by (cases "free_headers s'") (auto simp: image_iff)
  ultimately show ?thesis using r(2) h by simp
qed

theorem slab_alloc_free_witness:
  "\<exists>s. Fast_slab_allocator (\<lambda>_. 0x5000) (\<lambda>_. undefined) [0, 0, 0] 7 0x1000 384 64 64 (-1) False = Some (Inr (Built s)) \<and>
     (\<exists>held s'. serve slab_alloc slab_release [None, None, Some 0x1040] {} ({0x1000, 0x1080, 0x1100}, s) =
        (held, {0x1000, 0x1080, 0x1100}, s') \<and> unat (num_avail s') + card held = 3)"
proof -
  obtain s where s: "Fast_slab_allocator (\<lambda>_. 0x5000) (\<lambda>_. undefined) [0, 0, 0] 7 0x1000 384 64 64 (-1) False =
      Some (Inr (Built s))" "slab_ok {0x1000, 0x1080, 0x1100} s" "free_headers s = [0x1000, 0x1080, 0x1100]"
    using slab_constructor [of "0x1000" 384 64 6 64 64 "[0x1040, 0x10C0, 0x1140]" "[0, 0, 0]" False "\<lambda>_. 0x5000"
      "\<lambda>_. undefined" 7 "-1"]
    by (fastforce simp: small_layout header_of_def)
  obtain held hdrs' s' where run: "serve slab_alloc slab_release [None, None, Some 0x1040] {}
      ({0x1000, 0x1080, 0x1100}, s) = (held, hdrs', s')"
    by (metis prod_cases3)
  then have "hdrs' = {0x1000, 0x1080, 0x1100} \<and> unat (num_avail s') + card held = 3"
    using slab_alloc_free [OF s(2,3) _ _ run] by (auto simp del: slab_alloc.simps slab_release.simps)
  then show ?thesis using s(1) run by blast
qed

text \<open>
  The physical address the constructor stores in the header of a block at the start of a 2 MB
  page. It is the page's physical address plus the header size exactly when the block is in the first
  4 GB of the area: the offset of the page is kept in a 32-bit variable (\<^verbatim>\<open>aggregated_size\<close>).
\<close>

theorem phys_addr_page_start:
  assumes "hdr mod 0x200000 = 0" "v2p hdr \<noteq> 0"
  shows "\<exists>phys r. phys_addr v2p area area_phys aggregated (hdr + 64) = Inr (phys, r) \<and>
    (phys = v2p hdr + 64 \<longleftrightarrow> unat (hdr - area) < 2 ^ 32)"
proof -
  define x where "x = hdr - area"
  have "(ucast (ucast x :: u32) :: u64) = x \<longleftrightarrow> unat x < 2 ^ 32"
    by (simp add: word_unat_eq_iff unsigned_ucast_eq unsigned_take_bit_eq take_bit_nat_eq_self_iff)
  then have "v2p hdr + (hdr + 64 - area - ucast (ucast x :: u32)) = v2p hdr + 64 \<longleftrightarrow> unat x < 2 ^ 32"
    by (simp add: x_def algebra_simps eq_commute)
  then show ?thesis
    using assms by (simp add: phys_addr_def block_header_size_def x_def check_def Let_def)
qed

end
