(* ===== verification/XDK_Span.thy ===== *)
theory XDK_Span
  imports XDK_Utils XDK_Contracts
begin

text \<open>
  The slab metadata allocator (\<^verbatim>\<open>lib/libexo/private/__span.h\<close>) and the allocator of equally sized blocks on top
  of it (\<^verbatim>\<open>__base_slab_allocator.h\<close>). A span is one piece of memory: a header of 8 bytes, a bitmap and the
  blocks. The template arguments \<^verbatim>\<open>SPAN_SIZE\<close> and \<^verbatim>\<open>BASE_ALIGNMENT\<close> are arguments \<open>S\<close> and \<open>A\<close>, the address
  that \<^verbatim>\<open>malloc\<close> returns is an argument. Calls are modelled one at a time: a compare-and-swap does not fail
  and the intermediate value of \<^verbatim>\<open>_initialized\<close> is not seen. Sizes and block addresses are natural numbers; with
  blocks below \<open>2 ^ 32\<close> bytes no value of the code reaches \<open>2 ^ 64\<close>.
\<close>

section \<open>Span\<close>

record span =
  initialized :: bool
  elem_size_bytes :: nat
  num_blocks :: nat
  bitmap_size_bytes :: nat
  span_bitmap :: "u64 list"
  first_block_addr :: nat
  last_block_addr :: nat
  last_word_checked :: u64

definition new_span :: "nat \<Rightarrow> span" where
  "new_span elem_size = \<lparr>initialized = False, elem_size_bytes = elem_size, num_blocks = 0, bitmap_size_bytes = 0,
     span_bitmap = [], first_block_addr = 0, last_block_addr = 0,
     last_word_checked = 0\<rparr>"

definition in_word :: "nat \<Rightarrow> nat" where
  "in_word n = (64 - n mod 64) mod 64"

lemma word_room:
  assumes "n mod 64 \<noteq> 0"
  shows "in_word (Suc n) < in_word n"
proof -
  have "(64 - (if Suc k = 64 then 0 else Suc k)) mod 64 < (64 - k) mod 64" if "k < 64" "k \<noteq> 0" for k :: nat
    using that by auto
  from this [of "n mod 64"] show ?thesis using assms unfolding in_word_def mod_Suc [of n 64] by simp
qed

text \<open>The loop that fits bitmap and blocks into the memory of the span.\<close>

function fit :: "nat \<Rightarrow> nat \<Rightarrow> nat \<Rightarrow> nat \<Rightarrow> nat \<times> nat" where
  "fit S E n b =
     (if n * E + b < S - 8 then
        let b1 = (if n mod 64 = 0 then b + 8 else b) in
        if n * E + b1 > S then (n, b1) else fit S E (n + 1) b1
      else (n, b))"
  by pat_completeness auto

termination
proof (relation "measures [\<lambda>(S, E, n, b). S - b, \<lambda>(S, E, n, b). in_word n]", goal_cases)
  case (2 S E n b b1)
  show ?case
  proof (cases "n mod 64 = 0")
    case True
    moreover have "S - (b + 8) < S - b" using 2(1) by linarith
    ultimately show ?thesis using 2 by simp
  next
    case False
    then show ?thesis using 2 word_room by simp
  qed
qed simp

declare fit.simps [simp del]

text \<open>The loop that moves the first block up to the alignment.\<close>

function advance :: "u64 \<Rightarrow> u64 \<Rightarrow> u64" where
  "advance a p = (if p AND (a - 1) \<noteq> 0 then advance a (p + 1) else p)"
  by pat_completeness auto

termination
proof (relation "measure (\<lambda>(a, p). unat (- p))", goal_cases)
  case (2 a p)
  then have "p \<noteq> 0" by auto
  then have "unat (- (p + 1)) = unat (- p) - 1" using unat_minus_one [of "- p"] by simp
  moreover have "unat (- p) \<noteq> 0" using \<open>p \<noteq> 0\<close> by (simp add: unat_eq_zero)
  ultimately show ?case by simp
qed simp

declare advance.simps [simp del]

definition init :: "nat \<Rightarrow> u32 \<Rightarrow> u64 \<Rightarrow> span \<Rightarrow> (bool \<times> span) outcome" where
  "init S A unaligned_data s =
     (if initialized s then Inr (False, s)
      else
        check (S mod 4096 = 0) Assertion
        (check (unaligned_data \<noteq> 0) Assertion
        (let E = elem_size_bytes s;
             data = (if check_aligned unaligned_data A then unaligned_data else align_pointer unaligned_data A);
             (n, b) = fit S E 0 8;
             n1 = n - 1;
             tmp = data + 8 + of_nat b;
             first = (if 0 < A then advance (ucast A) tmp else tmp)
         in
           check (data \<noteq> 0 \<and> check_aligned data A) Assertion
           (check (b * 8 \<ge> n1) Assertion
           (check (0 < A \<longrightarrow> E \<noteq> 0) Div_by_zero
           (let lost = (if 0 < A then unat (first - tmp) div E else 0);
                n2 = (n1 + 2 ^ 32 - lost) mod 2 ^ 32;
                last = unat first + n2 * E
            in
              check (0 < n2) Assertion
              (check (last \<noteq> 0) Assertion
              (Inr (True, s\<lparr>initialized := True, num_blocks := n2, bitmap_size_bytes := b,
                 span_bitmap := replicate (b div 8) 0, first_block_addr := unat first, last_block_addr := last\<rparr>)))))))))"

text \<open>\<^verbatim>\<open>__builtin_ffsll\<close>: one plus the index of the least significant one bit, zero for zero.\<close>

definition ffsll :: "u64 \<Rightarrow> nat" where
  "ffsll v = (case find (bit v) [0..<64] of None \<Rightarrow> 0 | Some i \<Rightarrow> Suc i)"

definition check_bitmap_word :: "u32 \<Rightarrow> nat \<Rightarrow> span \<Rightarrow> (nat option \<times> span) outcome" where
  "check_bitmap_word A w s =
     check (w < length (span_bitmap s)) Out_of_range
     (let current_mword = span_bitmap s ! w in
      if current_mword = NOT 0 then Inr (None, s)
      else
        let idx = ffsll (NOT current_mword) - 1; block_num = idx + w * 64;
            new_word = current_mword OR push_bit idx 1;
            block = first_block_addr s + elem_size_bytes s * block_num
        in
          check (idx < 64) Assertion
          (if block_num \<ge> num_blocks s then Inr (None, s)
           else
             check (block_num < num_blocks s) Assertion
             (check (first_block_addr s > 0) Assertion
             (check (A = 0 \<or> A \<noteq> 1 \<and> A AND (A - 1) = 0) Assertion
             (check (A = 0 \<or> (of_nat block :: u64) AND (ucast A - 1) = 0) Assertion
             (check (block \<le> last_block_addr s) Panic
             (Inr (Some block, s\<lparr>span_bitmap := (span_bitmap s)[w := new_word]\<rparr>))))))))"

fun check_words :: "u32 \<Rightarrow> nat list \<Rightarrow> span \<Rightarrow> (nat option \<times> span) outcome" where
  "check_words A [] s = Inr (None, s)"
| "check_words A (w # ws) s =
     seq (check_bitmap_word A w s) (\<lambda>(p, s1). 
       case p of Some block \<Rightarrow> Inr (Some block, s1\<lparr>last_word_checked := last_word_checked s1 + of_nat w\<rparr>)
       | None \<Rightarrow> check_words A ws s1)"

definition span_next_free :: "nat \<Rightarrow> u32 \<Rightarrow> u64 \<Rightarrow> span \<Rightarrow> (bool \<times> nat option \<times> span) outcome" where
  "span_next_free S A mem s =
     seq (if \<not> initialized s then init S A mem s else Inr (False, s)) (\<lambda>(init_occurred, s1).
       check (last_block_addr s1 \<noteq> 0) Assertion
       (seq (check_words A [0..<bitmap_size_bytes s1 div 8] s1) (\<lambda>(p, s2). Inr (init_occurred, p, s2))))"

definition is_valid :: "nat \<Rightarrow> span \<Rightarrow> bool outcome" where
  "is_valid p s =
     check (initialized s) Assertion
     (if first_block_addr s \<le> p \<and> p \<le> last_block_addr s then
        check (elem_size_bytes s \<noteq> 0) Div_by_zero (Inr ((p - first_block_addr s) mod elem_size_bytes s = 0))
      else Inr False)"

definition span_free :: "nat \<Rightarrow> span \<Rightarrow> (status \<times> span) outcome" where
  "span_free p s =
     check (initialized s) Panic
     (if \<not> (first_block_addr s \<le> p \<and> p \<le> last_block_addr s) then Inr (E_OUT_OF_BOUNDS, s)
      else
        check (elem_size_bytes s \<noteq> 0) Div_by_zero
        (let slot = (p - first_block_addr s) div elem_size_bytes s; w = slot div 64; idx = slot mod 64 in
          check (slot < num_blocks s) Assertion
          (check (w \<le> bitmap_size_bytes s div 8) Assertion
          (check (w < length (span_bitmap s)) Out_of_range
          (check (bit (span_bitmap s ! w) idx) Assertion
          (Inr (S_OK, s\<lparr>span_bitmap := (span_bitmap s)[w := span_bitmap s ! w AND NOT (push_bit idx 1)]\<rparr>)))))))"

section \<open>Allocator of blocks\<close>

text \<open>\<open>mem i\<close> is the address \<^verbatim>\<open>malloc\<close> returns when the \<open>i\<close>-th span is initialised.\<close>

definition SPAN_SIZE :: nat where
  "SPAN_SIZE = 4096 * 64"

definition Max_span_count :: nat where
  "Max_span_count = 256 * 1024 * 1024 div SPAN_SIZE"

record base_allocator =
  base_initialized :: bool
  allocated_bytes :: u64
  block_size :: nat
  spans :: "span list"

fun alloc_spans :: "u32 \<Rightarrow> (nat \<Rightarrow> u64) \<Rightarrow> nat \<Rightarrow> u64 \<Rightarrow> span list \<Rightarrow> (nat \<times> u64 \<times> span list) outcome" where
  "alloc_spans A mem i bytes [] = Inl Panic"
| "alloc_spans A mem i bytes (s # ss) =
     seq (span_next_free SPAN_SIZE A (mem i) s) (\<lambda>(init_occurred, p, s1).
       let bytes1 = (if init_occurred then bytes + of_nat SPAN_SIZE else bytes) in
       case p of Some block \<Rightarrow> Inr (block, bytes1, s1 # ss)
       | None \<Rightarrow> seq (alloc_spans A mem (Suc i) bytes1 ss) (\<lambda>(block, bytes2, ss1). Inr (block, bytes2, s1 # ss1)))"

fun free_spans :: "nat \<Rightarrow> span list \<Rightarrow> (status \<times> span list) outcome" where
  "free_spans p [] = Inr (E_FAIL, [])"
| "free_spans p (s # ss) =
     seq (span_free p s) (\<lambda>(st, s1).
       if st = S_OK then Inr (S_OK, s1 # ss) else seq (free_spans p ss) (\<lambda>(st1, ss1). Inr (st1, s1 # ss1)))"

definition Base_object_allocator :: "u32 \<Rightarrow> (nat \<Rightarrow> u64) \<Rightarrow> nat \<Rightarrow> base_allocator outcome" where
  "Base_object_allocator A mem bsize =
     check (0 < Max_span_count) Assertion
     (seq (init SPAN_SIZE A (mem 0) (new_span bsize)) (\<lambda>(_, s).
        Inr \<lparr>base_initialized = True, allocated_bytes = 0, block_size = bsize,
          spans = s # replicate (Max_span_count - 1) (new_span bsize)\<rparr>))"

definition alloc :: "u32 \<Rightarrow> (nat \<Rightarrow> u64) \<Rightarrow> nat \<Rightarrow> base_allocator \<Rightarrow> (nat \<times> base_allocator) outcome" where
  "alloc A mem bsize b =
     check (base_initialized b) Assertion
     (check (bsize = block_size b) Assertion
     (seq (alloc_spans A mem 0 (allocated_bytes b) (spans b)) (\<lambda>(p, bytes, ss).
        check (p \<noteq> 0) Assertion (Inr (p, b\<lparr>allocated_bytes := bytes, spans := ss\<rparr>)))))"

definition free :: "nat \<Rightarrow> base_allocator \<Rightarrow> base_allocator outcome" where
  "free p b =
     check (base_initialized b) Assertion
     (seq (free_spans p (spans b)) (\<lambda>(st, ss). check (st = S_OK) Panic (Inr (b\<lparr>spans := ss\<rparr>))))"

section \<open>Layout of a span\<close>

lemma fit_spec:
  assumes "fit S E n b = (n', b')" "8 dvd E" "8 dvd S" "b = 8 * (1 + (n + 63) div 64)" "16 < S"
    and "0 < n \<Longrightarrow> (n - 1) * E + b + 8 \<le> S"
  shows "b' = 8 * (1 + (n' + 63) div 64) \<and> 0 < n' \<and> (n' - 1) * E + b' + 8 \<le> S \<and> n \<le> n' \<and> S \<le> n' * E + b' + 8"
  using assms
proof (induction S E n b rule: fit.induct)
  case (1 S E n b)
  let ?b = "if n mod 64 = 0 then b + 8 else b"
  show ?case
  proof (cases "n * E + b < S - 8")
    case True
    have "8 dvd S - 8 - (n * E + b)"
      using 1(3,4,5,6) by (intro dvd_diff_nat dvd_add) auto
    then have room: "n * E + b + 16 \<le> S" using True dvd_imp_le [of 8 "S - 8 - (n * E + b)"] by linarith
    then have small: "\<not> n * E + ?b > S" by auto
    have "(n + 63) div 64 = n div 64 + (if n mod 64 = 0 then 0 else 1)" using ceil_div [of 64 n] by simp
    moreover have "(Suc n + 63) div 64 = n div 64 + 1" using div_add_self2 [of 64 n] by simp
    ultimately have b: "?b = 8 * (1 + (Suc n + 63) div 64)" using 1(5) by auto
    have "fit S E (Suc n) ?b = (n', b')" using 1(2) True small fit.simps [of S E n b] by (simp add: Let_def)
    moreover have "0 < Suc n \<Longrightarrow> (Suc n - 1) * E + ?b + 8 \<le> S" using room by auto
    ultimately show ?thesis
      using 1(1) [OF True refl small, unfolded Suc_eq_plus1 [symmetric]] 1(3,4,6) b by auto
  next
    case False
    then have "n' = n" "b' = b" using 1(2) fit.simps [of S E n b] by auto
    moreover have "0 < n" using False 1(5,6) by (cases n) auto
    ultimately show ?thesis using False 1(5,7) by auto
  qed
qed

lemma advance_spec:
  assumes "a = 2 ^ k" "k < 64" "least_multiple (2 ^ k) (unat p) < 2 ^ 64"
  shows "unat (advance a p) = least_multiple (2 ^ k) (unat p)"
  using assms
proof (induction a p rule: advance.induct)
  case (1 a p)
  have m: "p AND (a - 1) = 0 \<longleftrightarrow> unat p mod 2 ^ k = 0"
    unfolding 1(2) mask_eq_exp_minus_1 [symmetric] word_unat_eq_iff [of "p AND _"] unat_and_mask by simp
  show ?case
  proof (cases "unat p mod 2 ^ k = 0")
    case True
    then show ?thesis using m advance.simps [of a p] by (simp add: least_multiple_def)
  next
    case False
    note l = least_multiple [of "2 ^ k" "unat p"]
    have p: "unat p < least_multiple (2 ^ k) (unat p)"
      using False l(1,2) by (metis dvd_imp_mod_0 le_neq_implies_less zero_less_numeral zero_less_power)
    then have s: "unat (p + 1) = Suc (unat p)" using 1(4) by (simp add: unat_word_ariths(1))
    have e: "least_multiple (2 ^ k) (unat (p + 1)) = least_multiple (2 ^ k) (unat p)"
      unfolding s
      using least_multiple(1,2) [of "2 ^ k" "Suc (unat p)"] l(1,2) p
      by (intro antisym least_multiple(4) [of "2 ^ k"]) auto
    then show ?thesis
      using 1(1) [OF _ 1(2,3)] 1(4) m False advance.simps [of a p] by simp
  qed
qed

lemma least_multiple_add:
  assumes "m dvd a"
  shows "least_multiple m (a + x) = a + least_multiple m x"
proof -
  have "a + x - r + m = a + (x - r + m)" if "r \<le> x" for r using that by simp
  from this [of "x mod m"] show ?thesis
    using assms by (simp add: least_multiple_def mod_add_left_eq [of a m x, symmetric])
qed

definition span_params :: "nat \<Rightarrow> nat \<Rightarrow> nat \<Rightarrow> u64 \<Rightarrow> bool" where
  "span_params S k E mem \<longleftrightarrow> 3 \<le> k \<and> k \<le> 12 \<and> 4096 dvd S \<and> S < 2 ^ 31 \<and> 2 ^ k dvd E \<and> 0 < E \<and> E + 24 < S \<and>
     mem \<noteq> 0 \<and> unat mem + S + 2 ^ k < 2 ^ 64"

definition span_layout :: "nat \<Rightarrow> nat \<Rightarrow> u64 \<Rightarrow> span \<Rightarrow> bool" where
  "span_layout S k mem s \<longleftrightarrow> 0 < num_blocks s \<and> num_blocks s \<le> 8 * bitmap_size_bytes s \<and> 8 dvd bitmap_size_bytes s \<and>
     length (span_bitmap s) = bitmap_size_bytes s div 8 \<and>
     unat mem + 8 + bitmap_size_bytes s \<le> first_block_addr s \<and> 2 ^ k dvd first_block_addr s \<and>
     last_block_addr s = first_block_addr s + num_blocks s * elem_size_bytes s \<and>
     last_block_addr s < unat mem + S + 2 ^ k"

lemma params_dvd:
  assumes "span_params S k E mem"
  shows "8 dvd (2 ^ k :: nat)" "2 ^ k dvd S" "8 dvd E" "8 dvd S"
proof -
  have p: "3 \<le> k" "k \<le> 12" "4096 dvd S" "2 ^ k dvd E" using assms by (simp_all add: span_params_def)
  show 8: "8 dvd (2 ^ k :: nat)" using p(1) le_imp_power_dvd [of 3 k "2::nat"] by simp
  show S: "2 ^ k dvd S" using p(2,3) le_imp_power_dvd [of k 12 "2::nat"] dvd_trans [of "2 ^ k" 4096 S] by simp
  show "8 dvd E" "8 dvd S" using dvd_trans [OF 8] p(4) S by auto
qed

lemma fit_params:
  assumes "span_params S k E mem" "fit S E 0 8 = (n, b)"
  shows "b = 8 * (1 + (n + 63) div 64)" "1 < n" "(n - 1) * E + b + 8 \<le> S" "n < 2 ^ 32" "b < 2 ^ 31"
proof -
  have p: "S < 2 ^ 31" "0 < E" "E + 24 < S" using assms(1) by (simp_all add: span_params_def)
  have f: "b = 8 * (1 + (n + 63) div 64)" "0 < n" "(n - 1) * E + b + 8 \<le> S" "S \<le> n * E + b + 8"
    using fit_spec [OF assms(2)] params_dvd [OF assms(1)] p(3) by auto
  have "n \<noteq> 1" using f(1,4) p(3) by auto
  then show "b = 8 * (1 + (n + 63) div 64)" "1 < n" "(n - 1) * E + b + 8 \<le> S" using f by auto
  have "n - 1 \<le> (n - 1) * E" using p(2) by simp
  then have "n - 1 < 2 ^ 31" using f(3) p(1) by linarith
  then show "n < 2 ^ 32" by simp
  show "b < 2 ^ 31" using f(3) p(1) by linarith
qed

definition data_addr :: "nat \<Rightarrow> u64 \<Rightarrow> u64" where
  "data_addr k mem = (if check_aligned mem (2 ^ k) then mem else align_pointer mem (2 ^ k))"

lemma data_addr:
  assumes "span_params S k E mem"
  shows "2 ^ k dvd unat (data_addr k mem)" "unat mem \<le> unat (data_addr k mem)"
    "unat (data_addr k mem) < unat mem + 2 ^ k"
proof -
  have p: "k \<le> 12" "unat mem + S + 2 ^ k < 2 ^ 64" using assms by (simp_all add: span_params_def)
  note l = least_multiple [of "2 ^ k" "unat mem"]
  have "unat (data_addr k mem) = least_multiple (2 ^ k) (unat mem)"
    unfolding data_addr_def using p l(3) by (intro align_up_unat [of _ k]) auto
  then show "2 ^ k dvd unat (data_addr k mem)" "unat mem \<le> unat (data_addr k mem)"
    "unat (data_addr k mem) < unat mem + 2 ^ k" using l by auto
qed

definition span_first :: "nat \<Rightarrow> nat \<Rightarrow> nat \<Rightarrow> u64 \<Rightarrow> nat" where
  "span_first S k E mem = unat (advance (2 ^ k) (data_addr k mem + 8 + of_nat (snd (fit S E 0 8))))"

lemma first_addr:
  assumes "span_params S k E mem" "fit S E 0 8 = (n, b)"
    and "tmp = data_addr k mem + 8 + of_nat b" "first = advance (2 ^ k) tmp"
  shows "2 ^ k dvd unat first" "unat mem + 8 + b \<le> unat first" "unat first + (n - 1) * E < unat mem + S + 2 ^ k"
    "unat (first - tmp) div E = 0"
proof -
  let ?m = "2 ^ k :: nat" and ?d = "unat (data_addr k mem)"
  have p: "k \<le> 12" "?m dvd E" "0 < E" "unat mem + S + ?m < 2 ^ 64"
    using assms(1) by (simp_all add: span_params_def)
  note d = data_addr [OF assms(1)] and f = fit_params [OF assms(1,2)]
  have t: "unat tmp = ?d + (8 + b)"
    using assms(3) d(3) f(3,5) p(4) by (simp add: unat_word_ariths(1) unat_of_nat)
  have l: "?m dvd least_multiple ?m (8 + b)" "8 + b \<le> least_multiple ?m (8 + b)"
      "least_multiple ?m (8 + b) < 8 + b + ?m"
    by (rule least_multiple; simp)+
  have up: "least_multiple ?m (8 + b + (n - 1) * E) = least_multiple ?m (8 + b) + (n - 1) * E"
    using least_multiple_add [of ?m "(n - 1) * E" "8 + b"] p(2) by (simp add: add.commute)
  have S: "least_multiple ?m (8 + b) + (n - 1) * E \<le> S"
    using least_multiple(4) [of ?m S "8 + b + (n - 1) * E"] params_dvd(2) [OF assms(1)] f(3) up by simp
  have lt: "least_multiple ?m (unat tmp) = ?d + least_multiple ?m (8 + b)"
    unfolding t by (rule least_multiple_add [OF d(1)])
  then have u: "unat first = ?d + least_multiple ?m (8 + b)"
    using advance_spec [of "2 ^ k" k tmp] assms(4) S d(3) p(1,4) by simp
  show "2 ^ k dvd unat first" using u d(1) l(1) by simp
  show "unat mem + 8 + b \<le> unat first" using u d(2) l(2) by simp
  show "unat first + (n - 1) * E < unat mem + S + ?m" using u d(3) S by simp
  have "unat (first - tmp) = unat first - unat tmp" using u t l(2) by (simp add: unat_sub word_le_nat_alt)
  then have "unat (first - tmp) < ?m" using u t l(2,3) by linarith
  then show "unat (first - tmp) div E = 0" using dvd_imp_le [OF p(2,3)] by simp
qed

lemma init_layout:
  assumes "span_params S k E mem" "\<not> initialized s" "elem_size_bytes s = E"
  shows "\<exists>s'. init S (2 ^ k) mem s = Inr (True, s') \<and> initialized s' \<and> elem_size_bytes s' = E \<and>
    num_blocks s' = fst (fit S E 0 8) - 1 \<and> bitmap_size_bytes s' = snd (fit S E 0 8) \<and> span_layout S k mem s' \<and>
    first_block_addr s' = span_first S k E mem \<and> span_bitmap s' = replicate (bitmap_size_bytes s' div 8) 0"
proof -
  have p: "k \<le> 12" "4096 dvd S" "0 < E" "mem \<noteq> 0" using assms(1) by (simp_all add: span_params_def)
  obtain n b where f: "fit S E 0 8 = (n, b)" by fastforce
  note fs = fit_params [OF assms(1) f] and d = data_addr [OF assms(1)]
  define tmp where "tmp = data_addr k mem + 8 + of_nat b"
  define first where "first = advance (2 ^ k) tmp"
  note a = first_addr [OF assms(1) f tmp_def first_def]
  have A: "(0 :: u32) < 2 ^ k" "ucast (2 ^ k :: u32) = (2 ^ k :: u64)"
    using p(1) align_mask(2) [of "2 ^ k" k] by (simp_all add: word_less_nat_alt unat_exp word_unat_eq_iff)
  have aligned: "check_aligned (data_addr k mem) (2 ^ k)"
    using d(1) p(1) check_aligned_iff [of "2 ^ k" k] by simp
  have "data_addr k mem \<noteq> 0" using d(2) p(4) by (auto simp: unat_eq_zero)
  moreover have "(n - 1 + 2 ^ 32 - 0) mod 2 ^ 32 = n - 1" using fs(4) by simp
  moreover obtain q r where "b = 8 * (1 + q)" "q * 64 + r = n + 63" "r < 64"
    using fs(1) by (metis div_mult_mod_eq mod_less_divisor zero_less_numeral)
  then have "n - 1 \<le> b * 8" by auto
  moreover have "unat first \<noteq> 0" using a(2) by simp
  moreover have "0 < n - 1" using fs(2) by simp
  ultimately have "init S (2 ^ k) mem s = Inr (True, s\<lparr>initialized := True, num_blocks := n - 1, bitmap_size_bytes := b,
      span_bitmap := replicate (b div 8) 0, first_block_addr := unat first,
      last_block_addr := unat first + (n - 1) * E\<rparr>)"
    using assms p f A aligned a(4) fs(2)
    unfolding init_def Let_def data_addr_def [symmetric] A(2) f prod.case tmp_def [symmetric] first_def [symmetric] assms(3)
    by auto
  moreover have "8 dvd b" using fs(1) by simp
  ultimately show ?thesis
    using assms(3) f a fs(1,2) by (auto simp: span_layout_def span_first_def first_def tmp_def)
qed

section \<open>Blocks of a span\<close>

definition slot_bit :: "span \<Rightarrow> nat \<Rightarrow> bool" where
  "slot_bit s j = bit (span_bitmap s ! (j div 64)) (j mod 64)"

definition taken :: "span \<Rightarrow> nat set" where
  "taken s = {j. j < num_blocks s \<and> slot_bit s j}"

definition block :: "span \<Rightarrow> nat \<Rightarrow> nat" where
  "block s j = first_block_addr s + elem_size_bytes s * j"

definition set_slot :: "nat \<Rightarrow> span \<Rightarrow> span" where
  "set_slot j s = s\<lparr>span_bitmap := (span_bitmap s)[j div 64 := span_bitmap s ! (j div 64) OR push_bit (j mod 64) 1]\<rparr>"

definition clear_slot :: "nat \<Rightarrow> span \<Rightarrow> span" where
  "clear_slot j s = s\<lparr>span_bitmap := (span_bitmap s)[j div 64 := span_bitmap s ! (j div 64) AND NOT (push_bit (j mod 64) 1)]\<rparr>"

lemma ffsll_NOT:
  assumes "v \<noteq> NOT 0"
  obtains i where "ffsll (NOT v) = Suc i" "i < 64" "\<not> bit v i" "\<forall>j < i. bit v j"
proof -
  have "\<exists>i < 64. \<not> bit v i"
    using assms bit_word_eqI [of v "NOT 0"] by (auto simp: bit_not_iff)
  then show ?thesis
    using that by (cases "find (bit (NOT v)) [0..<64]")
      (auto simp: ffsll_def find_None_iff find_Some_iff bit_not_iff)
qed

lemma slot_index:
  assumes "span_layout S k mem s" "j < num_blocks s"
  shows "j div 64 < length (span_bitmap s)"
proof -
  obtain w where "bitmap_size_bytes s = 8 * w" using assms(1) by (auto simp: span_layout_def dvd_def)
  then show ?thesis using assms by (auto simp: span_layout_def less_mult_imp_div_less)
qed

lemma slot_bit_set:
  assumes "i div 64 < length (span_bitmap s)"
  shows "slot_bit (set_slot i s) j \<longleftrightarrow> slot_bit s j \<or> j = i"
  using assms by (auto simp: slot_bit_def set_slot_def nth_list_update bit_or_iff bit_word_exp) (metis div_mult_mod_eq)

lemma slot_bit_clear:
  assumes "i div 64 < length (span_bitmap s)"
  shows "slot_bit (clear_slot i s) j \<longleftrightarrow> slot_bit s j \<and> j \<noteq> i"
  using assms
  by (auto simp: slot_bit_def clear_slot_def nth_list_update bit_and_iff bit_not_iff bit_word_exp)
    (metis div_mult_mod_eq)

lemma span_slot_sel [simp]:
  "initialized (set_slot j s) = initialized s" "elem_size_bytes (set_slot j s) = elem_size_bytes s"
  "num_blocks (set_slot j s) = num_blocks s" "span_layout S k mem (set_slot j s) = span_layout S k mem s"
  "block (set_slot j s) = block s"
  "initialized (clear_slot j s) = initialized s" "elem_size_bytes (clear_slot j s) = elem_size_bytes s"
  "num_blocks (clear_slot j s) = num_blocks s" "span_layout S k mem (clear_slot j s) = span_layout S k mem s"
  "block (clear_slot j s) = block s"
  by (auto simp: set_slot_def clear_slot_def span_layout_def block_def)

lemma taken_slot:
  assumes "span_layout S k mem s" "j < num_blocks s"
  shows "taken (set_slot j s) = insert j (taken s)" "taken (clear_slot j s) = taken s - {j}"
  using slot_index [OF assms] assms(2) by (auto simp: taken_def slot_bit_set slot_bit_clear)

lemma block_bounds:
  assumes "span_params S k E mem" "span_layout S k mem s" "elem_size_bytes s = E" "j < num_blocks s"
  shows "2 ^ k dvd block s j" "block s j + E \<le> last_block_addr s" "first_block_addr s \<le> block s j" "block s j < 2 ^ 64"
    "0 < first_block_addr s"
proof -
  have l: "2 ^ k dvd first_block_addr s" "last_block_addr s = first_block_addr s + num_blocks s * E"
    "last_block_addr s < unat mem + S + 2 ^ k" "unat mem + 8 \<le> first_block_addr s"
    and p: "2 ^ k dvd E" "unat mem + S + 2 ^ k < 2 ^ 64"
    using assms(1-3) by (auto simp: span_layout_def span_params_def)
  show "2 ^ k dvd block s j" using l(1) p(1) assms(3) by (simp add: block_def)
  have "E * Suc j \<le> num_blocks s * E" using assms(4) by (metis Suc_leI mult.commute mult_le_mono1)
  then show e: "block s j + E \<le> last_block_addr s" using l(2) assms(3) by (simp add: block_def)
  show "first_block_addr s \<le> block s j" by (simp add: block_def)
  show "block s j < 2 ^ 64" using e l(3) p(2) by linarith
  show "0 < first_block_addr s" using l(4) by simp
qed

lemma check_word:
  assumes "span_params S k E mem" "span_layout S k mem s" "elem_size_bytes s = E" "w < length (span_bitmap s)"
  shows "check_bitmap_word (2 ^ k) w s = Inr (None, s) \<and> (\<forall>j < num_blocks s. j div 64 = w \<longrightarrow> j \<in> taken s) \<or>
    (\<exists>j < num_blocks s. j \<notin> taken s \<and> check_bitmap_word (2 ^ k) w s = Inr (Some (block s j), set_slot j s))"
proof (cases "span_bitmap s ! w = NOT 0")
  case True
  then show ?thesis using assms(4) by (auto simp: check_bitmap_word_def taken_def slot_bit_def bit_not_iff)
next
  case False
  obtain i where i: "ffsll (NOT (span_bitmap s ! w)) = Suc i" "i < 64" "\<not> bit (span_bitmap s ! w) i"
      "\<forall>j < i. bit (span_bitmap s ! w) j"
    using ffsll_NOT [OF False] by blast
  let ?j = "i + w * 64"
  have d: "?j div 64 = w" "?j mod 64 = i" using i(2) by auto
  show ?thesis
  proof (cases "?j \<ge> num_blocks s")
    case True
    have "j \<in> taken s" if "j < num_blocks s" "j div 64 = w" for j
      using that i(4) True div_mult_mod_eq [of j 64] by (auto simp: taken_def slot_bit_def)
    then show ?thesis using True False i(1,2) assms(4) by (simp add: check_bitmap_word_def Let_def)
  next
    case j: False
    then have j: "?j < num_blocks s" by simp
    note b = block_bounds [OF assms(1-3) j]
    have A: "k \<le> 12" "3 \<le> k" using assms(1) by (simp_all add: span_params_def)
    have "unat (2 ^ k :: u32) \<noteq> 1" using A by (simp add: unat_exp)
    then have "(2 ^ k :: u32) \<noteq> 1" by auto
    moreover have "(2 ^ k :: u32) AND (2 ^ k - 1) = 0"
      using take_bit_exp_self [of k, where 'a=32] by (simp add: take_bit_eq_mask mask_eq_exp_minus_1)
    moreover have "(of_nat (block s ?j) :: u64) AND (ucast (2 ^ k :: u32) - 1) = 0"
      using check_aligned_iff [of "2 ^ k" k "of_nat (block s ?j)"] A b(1,4) by (simp add: check_aligned_def unat_of_nat)
    ultimately have "check_bitmap_word (2 ^ k) w s = Inr (Some (block s ?j), set_slot ?j s)"
      using False i(1,2) j b(2,5) assms(4)
      by (simp add: check_bitmap_word_def Let_def set_slot_def d block_def)
    moreover have "?j \<notin> taken s" using i(3) d by (simp add: taken_def slot_bit_def)
    ultimately show ?thesis using j by blast
  qed
qed

lemma check_words_cases:
  assumes "span_params S k E mem" "span_layout S k mem s" "elem_size_bytes s = E" "set ws \<subseteq> {..<length (span_bitmap s)}"
  shows "check_words (2 ^ k) ws s = Inr (None, s) \<and> (\<forall>j < num_blocks s. j div 64 \<in> set ws \<longrightarrow> j \<in> taken s) \<or>
    (\<exists>j < num_blocks s. \<exists>h. j \<notin> taken s \<and>
       check_words (2 ^ k) ws s = Inr (Some (block s j), (set_slot j s)\<lparr>last_word_checked := h\<rparr>))"
  using assms(4)
proof (induction ws)
  case (Cons w ws)
  have "w < length (span_bitmap s)" using Cons.prems by simp
  from check_word [OF assms(1-3) this] show ?case
  proof
    assume "check_bitmap_word (2 ^ k) w s = Inr (None, s) \<and> (\<forall>j < num_blocks s. j div 64 = w \<longrightarrow> j \<in> taken s)"
    then show ?thesis using Cons by auto
  next
    assume "\<exists>j < num_blocks s. j \<notin> taken s \<and> check_bitmap_word (2 ^ k) w s = Inr (Some (block s j), set_slot j s)"
    then obtain j where j: "j < num_blocks s" "j \<notin> taken s"
        "check_bitmap_word (2 ^ k) w s = Inr (Some (block s j), set_slot j s)" by blast
    then have "check_words (2 ^ k) (w # ws) s =
      Inr (Some (block s j), (set_slot j s)\<lparr>last_word_checked := last_word_checked (set_slot j s) + of_nat w\<rparr>)" by simp
    then show ?thesis using j(1,2) by blast
  qed
qed simp

text \<open>A span whose parameters are fixed: not initialised, or with its layout.\<close>

definition span_ok :: "nat \<Rightarrow> nat \<Rightarrow> nat \<Rightarrow> u64 \<Rightarrow> span \<Rightarrow> bool" where
  "span_ok S k E mem s \<longleftrightarrow> span_params S k E mem \<and> elem_size_bytes s = E \<and>
     (initialized s \<longrightarrow> span_layout S k mem s \<and> num_blocks s = fst (fit S E 0 8) - 1 \<and>
        first_block_addr s = span_first S k E mem)"

definition live :: "span \<Rightarrow> nat set" where
  "live s = (if initialized s then block s ` taken s else {})"

definition pool :: "nat \<Rightarrow> nat \<Rightarrow> nat \<Rightarrow> u64 \<Rightarrow> nat set" where
  "pool S k E mem =
     (\<lambda>j. span_first S k E mem + E * j) ` {..<fst (fit S E 0 8) - 1}"

lemma init_ok:
  assumes "span_ok S k E mem s" "\<not> initialized s"
  shows "\<exists>s'. init S (2 ^ k) mem s = Inr (True, s') \<and> span_ok S k E mem s' \<and> initialized s' \<and> taken s' = {}"
proof -
  have p: "span_params S k E mem" "elem_size_bytes s = E" using assms(1) by (simp_all add: span_ok_def)
  obtain s' where s': "init S (2 ^ k) mem s = Inr (True, s')" "initialized s'" "elem_size_bytes s' = E"
      "num_blocks s' = fst (fit S E 0 8) - 1" "span_layout S k mem s'" "first_block_addr s' = span_first S k E mem"
      "span_bitmap s' = replicate (bitmap_size_bytes s' div 8) 0"
    using init_layout [OF p(1) assms(2) p(2)] by blast
  then have "span_ok S k E mem s'"
    using p by (simp add: span_ok_def)
  moreover have "taken s' = {}"
    using slot_index [OF s'(5)] s'(7) by (auto simp: taken_def slot_bit_def)
  ultimately show ?thesis using s' by blast
qed

lemma live_pool:
  assumes "span_ok S k E mem s"
  shows "live s \<subseteq> pool S k E mem" "initialized s \<Longrightarrow> pool S k E mem = block s ` {..<num_blocks s}"
  using assms by (auto simp: live_def pool_def span_ok_def block_def taken_def)

lemma block_inj: "span_ok S k E mem s \<Longrightarrow> block s i = block s j \<longleftrightarrow> i = j"
  by (auto simp: span_ok_def span_params_def block_def)

lemma span_next_free_cases:
  assumes "span_ok S k E mem s"
  obtains (full) b s' where "span_next_free S (2 ^ k) mem s = Inr (b, None, s')" "span_ok S k E mem s'" "initialized s'"
      "live s = pool S k E mem" "live s' = live s"
    | (some) b p s' where "span_next_free S (2 ^ k) mem s = Inr (b, Some p, s')" "span_ok S k E mem s'" "initialized s'"
      "p \<in> pool S k E mem" "p \<notin> live s" "live s' = insert p (live s)"
proof -
  obtain b s1 where s1: "(if \<not> initialized s then init S (2 ^ k) mem s else Inr (False, s)) = Inr (b, s1)"
      "span_ok S k E mem s1" "initialized s1" "live s1 = live s"
    using init_ok [OF assms] assms by (cases "initialized s") (auto simp: live_def)
  then have l: "span_params S k E mem" "span_layout S k mem s1" "elem_size_bytes s1 = E" by (simp_all add: span_ok_def)
  then have last: "last_block_addr s1 \<noteq> 0" and words: "set [0..<bitmap_size_bytes s1 div 8] \<subseteq> {..<length (span_bitmap s1)}"
    by (auto simp: span_layout_def)
  have all: "j div 64 \<in> set [0..<bitmap_size_bytes s1 div 8]" if "j < num_blocks s1" for j
    using slot_index [OF l(2) that] l(2) by (simp add: span_layout_def)
  from check_words_cases [OF l words] show ?thesis
  proof
    assume c: "check_words (2 ^ k) [0..<bitmap_size_bytes s1 div 8] s1 = Inr (None, s1) \<and>
      (\<forall>j < num_blocks s1. j div 64 \<in> set [0..<bitmap_size_bytes s1 div 8] \<longrightarrow> j \<in> taken s1)"
    then have "taken s1 = {..<num_blocks s1}" using all by (auto simp: taken_def)
    then have "live s = pool S k E mem" using live_pool(2) [OF s1(2,3)] s1(3,4) by (simp add: live_def)
    moreover have "span_next_free S (2 ^ k) mem s = Inr (b, None, s1)"
      using s1(1) last c by (simp add: span_next_free_def)
    ultimately show ?thesis using full s1 by blast
  next
    assume "\<exists>j < num_blocks s1. \<exists>h. j \<notin> taken s1 \<and> check_words (2 ^ k) [0..<bitmap_size_bytes s1 div 8] s1 =
      Inr (Some (block s1 j), (set_slot j s1)\<lparr>last_word_checked := h\<rparr>)"
    then obtain j h where j: "j < num_blocks s1" "j \<notin> taken s1"
        "check_words (2 ^ k) [0..<bitmap_size_bytes s1 div 8] s1 = Inr (Some (block s1 j), (set_slot j s1)\<lparr>last_word_checked := h\<rparr>)"
      by blast
    let ?s = "(set_slot j s1)\<lparr>last_word_checked := h\<rparr>"
    have n: "span_next_free S (2 ^ k) mem s = Inr (b, Some (block s1 j), ?s)"
      using s1(1) last j(3) by (simp add: span_next_free_def)
    have "span_layout S k mem ?s = span_layout S k mem s1" by (simp add: span_layout_def set_slot_def)
    then have ok: "span_ok S k E mem ?s" "initialized ?s" using s1(2,3) by (simp_all add: span_ok_def set_slot_def)
    have "taken ?s = taken (set_slot j s1)" "block ?s = block s1"
      by (auto simp: taken_def slot_bit_def block_def set_slot_def)
    then have "live ?s = insert (block s1 j) (live s)"
      using taken_slot(1) [OF l(2) j(1)] ok(2) s1(3,4) by (simp add: live_def)
    moreover have "block s1 j \<notin> live s" "block s1 j \<in> pool S k E mem"
      unfolding s1(4) [symmetric] using j block_inj [OF s1(2)] live_pool(2) [OF s1(2,3)] s1(3) by (auto simp: live_def)
    ultimately show ?thesis using some [OF n ok] by blast
  qed
qed

lemma pool_bounds:
  assumes "span_params S k E mem" "p \<in> pool S k E mem"
  shows "unat mem < p" "p + E < unat mem + S + 2 ^ k" "2 ^ k dvd p"
proof -
  obtain s where s: "elem_size_bytes s = E" "num_blocks s = fst (fit S E 0 8) - 1" "span_layout S k mem s"
      "first_block_addr s = span_first S k E mem"
    using init_layout [OF assms(1), of "new_span E"] by (auto simp: new_span_def)
  then obtain j where "j < num_blocks s" "p = block s j" using assms(2) by (auto simp: pool_def block_def)
  from block_bounds [OF assms(1) s(3,1) this(1)] this(2) s(3)
  show "unat mem < p" "p + E < unat mem + S + 2 ^ k" "2 ^ k dvd p" by (auto simp: span_layout_def)
qed

lemma span_bounds:
  assumes "span_ok S k E mem s" "initialized s"
  shows "unat mem < first_block_addr s" "last_block_addr s < unat mem + S + 2 ^ k"
  using assms by (auto simp: span_ok_def span_layout_def)

lemma span_free_live:
  assumes "span_ok S k E mem s" "p \<in> live s"
  shows "\<exists>s'. span_free p s = Inr (S_OK, s') \<and> span_ok S k E mem s' \<and> initialized s' \<and> live s' = live s - {p}"
proof -
  have i: "initialized s" using assms(2) by (auto simp: live_def split: if_splits)
  then have l: "span_params S k E mem" "span_layout S k mem s" "elem_size_bytes s = E" "0 < E"
    using assms(1) by (simp_all add: span_ok_def span_params_def)
  obtain j where j: "p = block s j" "j < num_blocks s" "slot_bit s j" "j \<in> taken s"
    using assms(2) i by (auto simp: live_def taken_def)
  note b = block_bounds [OF l(1-3) j(2)]
  have "(p - first_block_addr s) div E = j" using l(3,4) j(1) by (simp add: block_def)
  then have f: "span_free p s = Inr (S_OK, clear_slot j s)"
    using i b(2,3) j slot_index [OF l(2) j(2)] l(2,3,4)
    by (simp add: span_free_def span_layout_def slot_bit_def clear_slot_def Let_def)
  have c: "span_ok S k E mem (clear_slot j s)" using assms(1) by (simp add: span_ok_def) (simp add: clear_slot_def)
  have "live (clear_slot j s) = live s - {p}"
    using i j(1) taken_slot(2) [OF l(2) j(2)] block_inj [OF assms(1)] by (auto simp: live_def)
  then show ?thesis using f c i by simp
qed

lemma span_free_outside:
  assumes "initialized s" "p < first_block_addr s \<or> last_block_addr s < p"
  shows "span_free p s = Inr (E_OUT_OF_BOUNDS, s)"
  using assms by (auto simp: span_free_def)

section \<open>Blocks of the allocator\<close>

definition mem_ok :: "nat \<Rightarrow> nat \<Rightarrow> (nat \<Rightarrow> u64) \<Rightarrow> nat \<Rightarrow> bool" where
  "mem_ok k E mem n \<longleftrightarrow> (\<forall>i < n. span_params SPAN_SIZE k E (mem i)) \<and>
     (\<forall>i < n. \<forall>j < n. i \<noteq> j \<longrightarrow> unat (mem i) + SPAN_SIZE + 2 ^ k \<le> unat (mem j) \<or> unat (mem j) + SPAN_SIZE + 2 ^ k \<le> unat (mem i))"

fun spans_ok :: "nat \<Rightarrow> nat \<Rightarrow> (nat \<Rightarrow> u64) \<Rightarrow> nat \<Rightarrow> span list \<Rightarrow> bool" where
  "spans_ok k E mem i [] \<longleftrightarrow> True"
| "spans_ok k E mem i (s # ss) \<longleftrightarrow> span_ok SPAN_SIZE k E (mem i) s \<and> spans_ok k E mem (Suc i) ss \<and>
     (\<not> initialized s \<longrightarrow> (\<forall>t \<in> set ss. \<not> initialized t))"

definition spans_live :: "span list \<Rightarrow> nat set" where
  "spans_live ss = \<Union> (live ` set ss)"

definition spans_pool :: "nat \<Rightarrow> nat \<Rightarrow> (nat \<Rightarrow> u64) \<Rightarrow> nat \<Rightarrow> nat \<Rightarrow> nat set" where
  "spans_pool k E mem i n = (\<Union>j \<in> {i..<i + n}. pool SPAN_SIZE k E (mem j))"

lemma spans_pool_Suc: "spans_pool k E mem i (Suc n) = pool SPAN_SIZE k E (mem i) \<union> spans_pool k E mem (Suc i) n"
proof -
  have "{i..<i + Suc n} = insert i {Suc i..<Suc i + n}" by auto
  then show ?thesis by (simp add: spans_pool_def)
qed

lemma spans_live_pool: "spans_ok k E mem i ss \<Longrightarrow> spans_live ss \<subseteq> spans_pool k E mem i (length ss)"
  by (induction ss arbitrary: i) (auto simp: spans_live_def spans_pool_Suc dest: live_pool(1))

lemma pools_apart:
  assumes "mem_ok k E mem (i + Suc n)" "p \<in> spans_pool k E mem (Suc i) n"
  shows "p \<le> unat (mem i) \<or> unat (mem i) + SPAN_SIZE + 2 ^ k \<le> p"
proof -
  obtain j where j: "j < i + Suc n" "i < j" "p \<in> pool SPAN_SIZE k E (mem j)"
    using assms(2) by (auto simp: spans_pool_def)
  then have "unat (mem i) + SPAN_SIZE + 2 ^ k \<le> unat (mem j) \<or> unat (mem j) + SPAN_SIZE + 2 ^ k \<le> unat (mem i)"
    and "span_params SPAN_SIZE k E (mem j)"
    using assms(1) unfolding mem_ok_def by (metis add_Suc_right less_add_Suc1 less_irrefl)+
  then show ?thesis using pool_bounds [OF _ j(3)] by auto
qed

lemma pools_disjoint:
  assumes "mem_ok k E mem (i + Suc n)"
  shows "pool SPAN_SIZE k E (mem i) \<inter> spans_pool k E mem (Suc i) n = {}"
proof -
  have "span_params SPAN_SIZE k E (mem i)" using assms by (simp add: mem_ok_def)
  then show ?thesis using pool_bounds [of SPAN_SIZE k E "mem i"] pools_apart [OF assms] by fastforce
qed

lemma alloc_spans_cases:
  assumes "spans_ok k E mem i ss" "mem_ok k E mem (i + length ss)"
  shows "alloc_spans (2 ^ k) mem i bytes ss = Inl Panic \<and> spans_live ss = spans_pool k E mem i (length ss) \<or>
    (\<exists>p bytes' ss'. alloc_spans (2 ^ k) mem i bytes ss = Inr (p, bytes', ss') \<and> spans_ok k E mem i ss' \<and>
       length ss' = length ss \<and> p \<in> spans_pool k E mem i (length ss) \<and> p \<notin> spans_live ss \<and>
       spans_live ss' = insert p (spans_live ss))"
  using assms
proof (induction ss arbitrary: i bytes)
  case Nil
  then show ?case by (simp add: spans_live_def spans_pool_def)
next
  case (Cons s ss)
  have ok: "span_ok SPAN_SIZE k E (mem i) s" "spans_ok k E mem (Suc i) ss" "mem_ok k E mem (i + Suc (length ss))"
    using Cons.prems by auto
  have rest: "spans_live ss \<inter> pool SPAN_SIZE k E (mem i) = {}"
    using spans_live_pool [OF ok(2)] pools_disjoint [OF ok(3)] by blast
  from ok(1) show ?case
  proof (cases rule: span_next_free_cases)
    case (full b s')
    let ?bytes = "if b then bytes + of_nat SPAN_SIZE else bytes"
    from Cons.IH [OF ok(2), of ?bytes] ok(3) show ?thesis
      using full pools_disjoint [OF ok(3)]
      by (auto simp: spans_live_def spans_pool_Suc Let_def)
  next
    case (some b p s')
    then show ?thesis using ok(2) rest by (auto simp: spans_live_def spans_pool_Suc Let_def)
  qed
qed

lemma free_spans_live:
  assumes "spans_ok k E mem i ss" "mem_ok k E mem (i + length ss)" "p \<in> spans_live ss"
  shows "\<exists>ss'. free_spans p ss = Inr (S_OK, ss') \<and> spans_ok k E mem i ss' \<and> length ss' = length ss \<and>
    map initialized ss' = map initialized ss \<and> spans_live ss' = spans_live ss - {p}"
  using assms
proof (induction ss arbitrary: i)
  case Nil
  then show ?case by (simp add: spans_live_def)
next
  case (Cons s ss)
  have ok: "span_ok SPAN_SIZE k E (mem i) s" "spans_ok k E mem (Suc i) ss" "mem_ok k E mem (i + Suc (length ss))"
    "\<not> initialized s \<Longrightarrow> \<forall>t \<in> set ss. \<not> initialized t"
    using Cons.prems by auto
  have rest: "spans_live ss \<inter> pool SPAN_SIZE k E (mem i) = {}"
    using spans_live_pool [OF ok(2)] pools_disjoint [OF ok(3)] by blast
  show ?case
  proof (cases "p \<in> live s")
    case True
    moreover have "p \<notin> spans_live ss" using True rest live_pool(1) [OF ok(1)] by blast
    moreover have "initialized s" using True by (auto simp: live_def split: if_splits)
    moreover obtain s' where "span_free p s = Inr (S_OK, s')" "span_ok SPAN_SIZE k E (mem i) s'" "initialized s'"
        "live s' = live s - {p}"
      using span_free_live [OF ok(1) True] by blast
    ultimately show ?thesis using ok(2) by (intro exI [of _ "s' # ss"]) (auto simp: spans_live_def)
  next
    case False
    then have p: "p \<in> spans_live ss" using Cons.prems(3) by (simp add: spans_live_def)
    then have i: "initialized s" using ok(4) by (auto simp: spans_live_def live_def split: if_splits)
    have "p \<in> spans_pool k E mem (Suc i) (length ss)" using spans_live_pool [OF ok(2)] p by blast
    from pools_apart [OF ok(3) this] have "span_free p s = Inr (E_OUT_OF_BOUNDS, s)"
      using span_bounds [OF ok(1) i] by (intro span_free_outside [OF i]) linarith
    moreover obtain ss' where ss': "free_spans p ss = Inr (S_OK, ss')" "spans_ok k E mem (Suc i) ss'"
        "length ss' = length ss" "map initialized ss' = map initialized ss" "spans_live ss' = spans_live ss - {p}"
      using Cons.IH [OF ok(2) _ p] ok(3) by auto
    ultimately have "free_spans p (s # ss) = Inr (S_OK, s # ss')" by simp
    moreover have "spans_live (s # ss') = spans_live (s # ss) - {p}"
      using ss'(5) False by (auto simp: spans_live_def)
    ultimately show ?thesis using ss' ok(1) i by auto
  qed
qed

definition base_ok :: "nat \<Rightarrow> (nat \<Rightarrow> u64) \<Rightarrow> base_allocator \<Rightarrow> bool" where
  "base_ok k mem b \<longleftrightarrow> base_initialized b \<and> spans_ok k (block_size b) mem 0 (spans b) \<and>
     mem_ok k (block_size b) mem (length (spans b))"

definition base_pool :: "nat \<Rightarrow> (nat \<Rightarrow> u64) \<Rightarrow> base_allocator \<Rightarrow> nat set" where
  "base_pool k mem b = spans_pool k (block_size b) mem 0 (length (spans b))"

definition base_alloc :: "nat \<Rightarrow> (nat \<Rightarrow> u64) \<Rightarrow> base_allocator \<Rightarrow> nat option \<times> base_allocator" where
  "base_alloc k mem b =
     (case alloc (2 ^ k) mem (block_size b) b of Inl _ \<Rightarrow> (None, b) | Inr (p, b') \<Rightarrow> (Some p, b'))"

definition base_release :: "nat \<Rightarrow> base_allocator \<Rightarrow> base_allocator" where
  "base_release p b = (case free p b of Inl _ \<Rightarrow> b | Inr b' \<Rightarrow> b')"

lemma spans_pool_pos:
  assumes "mem_ok k E mem n" "p \<in> spans_pool k E mem 0 n"
  shows "0 < p" "2 ^ k dvd p"
proof -
  obtain i where i: "i < n" "p \<in> pool SPAN_SIZE k E (mem i)" using assms(2) by (auto simp: spans_pool_def)
  then have "span_params SPAN_SIZE k E (mem i)" using assms(1) by (simp add: mem_ok_def)
  from pool_bounds [OF this i(2)] show "0 < p" "2 ^ k dvd p" by auto
qed

lemma base_alloc_cases:
  assumes "base_ok k mem b"
  shows "alloc (2 ^ k) mem (block_size b) b = Inl Panic \<and> spans_live (spans b) = base_pool k mem b \<or>
    (\<exists>p b'. alloc (2 ^ k) mem (block_size b) b = Inr (p, b') \<and> base_ok k mem b' \<and> base_pool k mem b' = base_pool k mem b \<and>
       p \<in> base_pool k mem b \<and> p \<notin> spans_live (spans b) \<and> spans_live (spans b') = insert p (spans_live (spans b)))"
proof -
  have ok: "base_initialized b" "spans_ok k (block_size b) mem 0 (spans b)" "mem_ok k (block_size b) mem (0 + length (spans b))"
    using assms by (simp_all add: base_ok_def)
  from alloc_spans_cases [OF ok(2,3), of "allocated_bytes b"] show ?thesis
    using ok spans_pool_pos [of k "block_size b" mem "length (spans b)"]
    by (fastforce simp: alloc_def base_pool_def base_ok_def)
qed

lemma base_release_live:
  assumes "base_ok k mem b" "p \<in> spans_live (spans b)"
  shows "\<exists>b'. free p b = Inr b' \<and> base_ok k mem b' \<and> base_pool k mem b' = base_pool k mem b \<and>
    spans_live (spans b') = spans_live (spans b) - {p}"
proof -
  have ok: "base_initialized b" "spans_ok k (block_size b) mem 0 (spans b)" "mem_ok k (block_size b) mem (0 + length (spans b))"
    using assms by (simp_all add: base_ok_def)
  from free_spans_live [OF ok(2,3) assms(2)] show ?thesis
    using ok by (fastforce simp: free_def base_pool_def base_ok_def)
qed

interpretation base_blocks: slot_allocator "base_alloc k mem" base_release "\<lambda>b. spans_live (spans b)"
  "base_pool k mem" "base_ok k mem" for k mem
proof unfold_locales
  fix b b' p
  assume ok: "base_ok k mem b"
  show "finite (base_pool k mem b)" by (simp add: base_pool_def spans_pool_def pool_def)
  show "spans_live (spans b) \<subseteq> base_pool k mem b"
    using ok spans_live_pool [of k "block_size b" mem 0] by (auto simp: base_ok_def base_pool_def)
  show "base_alloc k mem b = (None, b') \<Longrightarrow> spans_live (spans b) = base_pool k mem b \<and>
    spans_live (spans b') = spans_live (spans b) \<and> base_ok k mem b' \<and> base_pool k mem b' = base_pool k mem b"
    using base_alloc_cases [OF ok] ok unfolding base_alloc_def by (elim disjE exE conjE) simp_all
  show "base_alloc k mem b = (Some p, b') \<Longrightarrow> p \<in> base_pool k mem b \<and> p \<notin> spans_live (spans b) \<and>
    spans_live (spans b') = insert p (spans_live (spans b)) \<and> base_ok k mem b' \<and> base_pool k mem b' = base_pool k mem b"
    using base_alloc_cases [OF ok] unfolding base_alloc_def by (elim disjE exE conjE) simp_all
  show "p \<in> spans_live (spans b) \<Longrightarrow> spans_live (spans (base_release p b)) = spans_live (spans b) - {p} \<and>
    base_ok k mem (base_release p b) \<and> base_pool k mem (base_release p b) = base_pool k mem b"
    by (drule base_release_live [OF ok]) (elim exE conjE, simp add: base_release_def)
qed

lemma pool_spread:
  assumes "p \<in> pool S k E mem" "q \<in> pool S k E mem" "p \<noteq> q"
  shows "p + E \<le> q \<or> q + E \<le> p"
proof -
  obtain i j where ij: "p = span_first S k E mem + E * i" "q = span_first S k E mem + E * j"
    using assms(1,2) by (auto simp: pool_def)
  then have "i < j \<or> j < i" using assms(3) by auto
  then have "E * Suc i \<le> E * j \<or> E * Suc j \<le> E * i" by (metis Suc_leI mult_le_mono2)
  then show ?thesis using ij by auto
qed

lemma spans_pool_spread:
  assumes "mem_ok k E mem n" "p \<in> spans_pool k E mem 0 n" "q \<in> spans_pool k E mem 0 n" "p \<noteq> q"
  shows "p + E \<le> q \<or> q + E \<le> p"
proof -
  obtain i j where ij: "i < n" "j < n" "p \<in> pool SPAN_SIZE k E (mem i)" "q \<in> pool SPAN_SIZE k E (mem j)"
    using assms(2,3) by (auto simp: spans_pool_def)
  have m: "span_params SPAN_SIZE k E (mem i)" "span_params SPAN_SIZE k E (mem j)"
    "i \<noteq> j \<Longrightarrow> unat (mem i) + SPAN_SIZE + 2 ^ k \<le> unat (mem j) \<or> unat (mem j) + SPAN_SIZE + 2 ^ k \<le> unat (mem i)"
    using assms(1) ij(1,2) by (auto simp: mem_ok_def)
  show ?thesis
  proof (cases "i = j")
    case True
    then show ?thesis using pool_spread ij(3,4) assms(4) by blast
  next
    case False
    then show ?thesis
      using m(3) pool_bounds [OF m(1) ij(3)] pool_bounds [OF m(2) ij(4)] by linarith
  qed
qed

lemma Base_object_allocator_ok:
  assumes "mem_ok k E mem Max_span_count"
  shows "\<exists>b. Base_object_allocator (2 ^ k) mem E = Inr b \<and> base_ok k mem b \<and> spans_live (spans b) = {} \<and>
    block_size b = E \<and> length (spans b) = Max_span_count"
proof -
  have m: "Max_span_count = Suc 1023" by (simp add: Max_span_count_def SPAN_SIZE_def)
  then have p: "\<And>i. i < Suc 1023 \<Longrightarrow> span_params SPAN_SIZE k E (mem i)" using assms by (simp add: mem_ok_def)
  then have "span_ok SPAN_SIZE k E (mem 0) (new_span E)" by (simp add: span_ok_def new_span_def)
  then obtain s where s: "init SPAN_SIZE (2 ^ k) (mem 0) (new_span E) = Inr (True, s)" "span_ok SPAN_SIZE k E (mem 0) s"
      "initialized s" "taken s = {}"
    using init_ok by (fastforce simp: new_span_def)
  have fresh: "spans_ok k E mem i (replicate n (new_span E))" if "i + n \<le> Suc 1023" for i n
    using that by (induction n arbitrary: i) (auto simp: span_ok_def new_span_def p)
  have "live (new_span E) = {}" "live s = {}" using s(4) by (auto simp: live_def new_span_def)
  then have "spans_live (s # replicate 1023 (new_span E)) = {}" by (simp add: spans_live_def)
  moreover have "Base_object_allocator (2 ^ k) mem E = Inr \<lparr>base_initialized = True, allocated_bytes = 0, block_size = E,
      spans = s # replicate 1023 (new_span E)\<rparr>" using s(1) by (simp add: Base_object_allocator_def m)
  ultimately show ?thesis
    using s(2,3) fresh [of 1 1023] assms m by (auto simp: base_ok_def)
qed

lemma alloc_block_size: "alloc A mem E b = Inr (p, b') \<Longrightarrow> block_size b' = block_size b"
  by (auto simp: alloc_def outcome_iffs split: prod.splits)

lemma free_block_size: "free p b = Inr b' \<Longrightarrow> block_size b' = block_size b"
  by (auto simp: free_def outcome_iffs split: prod.splits)

lemma serve_block_size:
  "serve (base_alloc k mem) base_release rs held b = (held', b') \<Longrightarrow> block_size b' = block_size b"
proof (induction rs arbitrary: held b)
  case (Cons r rs)
  have "block_size (snd (base_alloc k mem b)) = block_size b" "\<And>p. block_size (base_release p b) = block_size b"
    by (auto simp: base_alloc_def base_release_def alloc_block_size free_block_size split: sum.splits prod.splits)
  then show ?case using Cons by (cases r) (auto split: if_splits option.splits prod.splits)
qed simp

section \<open>Properties\<close>

text \<open>
  Layout of a span. For a block size that is a multiple of the alignment (a power of two from 8 to 4096) and
  leaves room for a block, initialising a span succeeds. The bitmap has a bit for every block; the blocks are
  aligned, do not overlap, lie behind header and bitmap and inside the memory obtained from \<^verbatim>\<open>malloc\<close>, and one
  block more would not fit into the span.
\<close>

theorem span_init_layout:
  assumes "span_params S k E mem"
  shows "\<exists>s. init S (2 ^ k) mem (new_span E) = Inr (True, s) \<and> 0 < num_blocks s \<and>
    num_blocks s \<le> 64 * length (span_bitmap s) \<and> S \<le> 8 + bitmap_size_bytes s + (num_blocks s + 1) * E \<and>
    (\<forall>j < num_blocks s. 2 ^ k dvd block s j \<and> unat mem + 8 + bitmap_size_bytes s \<le> block s j \<and>
       block s j + E \<le> unat mem + S + 2 ^ k \<and> (\<forall>i < j. block s i + E \<le> block s j))"
proof -
  obtain s where s: "init S (2 ^ k) mem (new_span E) = Inr (True, s)" "elem_size_bytes s = E"
      "num_blocks s = fst (fit S E 0 8) - 1" "bitmap_size_bytes s = snd (fit S E 0 8)" "span_layout S k mem s"
    using init_layout [OF assms, of "new_span E"] by (auto simp: new_span_def)
  obtain n b where f: "fit S E 0 8 = (n, b)" by fastforce
  moreover have "S \<le> n * E + b + 8" "0 < n"
    using fit_spec [OF f] params_dvd [OF assms] assms by (auto simp: span_params_def)
  ultimately have most: "S \<le> 8 + bitmap_size_bytes s + (num_blocks s + 1) * E" using s(3,4) by simp
  have l: "0 < num_blocks s" "num_blocks s \<le> 64 * length (span_bitmap s)"
    "unat mem + 8 + bitmap_size_bytes s \<le> first_block_addr s" "last_block_addr s < unat mem + S + 2 ^ k"
    using s(5) by (auto simp: span_layout_def)
  have step: "block s i + E \<le> block s j" if "i < j" for i j
    using mult_le_mono2 [of "Suc i" j E] that s(2) by (simp add: block_def)
  have "2 ^ k dvd block s j" "unat mem + 8 + bitmap_size_bytes s \<le> block s j" "block s j + E \<le> unat mem + S + 2 ^ k"
    if "j < num_blocks s" for j
    using block_bounds(1-3) [OF assms s(5,2) that] l(3,4) by simp_all
  then show ?thesis using s(1) l(1,2) most step by blast
qed

text \<open>
  C33. Allocating and freeing blocks. When \<^verbatim>\<open>malloc\<close> hands out separate pieces of memory, then from a new
  allocator and after any sequence of allocations and releases of held blocks: the held blocks are aligned and do not
  overlap, each of them can be freed, and an allocation returns a block that is not held, or stops with
  \<^verbatim>\<open>panic\<close> exactly when every block of all 1024 spans is held.
\<close>

theorem base_alloc_free:
  assumes "mem_ok k E mem Max_span_count"
  shows "\<exists>b. Base_object_allocator (2 ^ k) mem E = Inr b \<and>
    (\<forall>rs held b'. serve (base_alloc k mem) base_release rs {} b = (held, b') \<longrightarrow>
       (\<forall>p \<in> held. 2 ^ k dvd p \<and> (\<exists>b''. free p b' = Inr b'') \<and> (\<forall>q \<in> held. p \<noteq> q \<longrightarrow> p + E \<le> q \<or> q + E \<le> p)) \<and>
       (alloc (2 ^ k) mem E b' = Inl Panic \<and> held = spans_pool k E mem 0 Max_span_count \<or>
        (\<exists>p b''. alloc (2 ^ k) mem E b' = Inr (p, b'') \<and> p \<in> spans_pool k E mem 0 Max_span_count - held)))"
proof -
  obtain b where b: "Base_object_allocator (2 ^ k) mem E = Inr b" "base_ok k mem b" "spans_live (spans b) = {}"
      "block_size b = E" "length (spans b) = Max_span_count"
    using Base_object_allocator_ok [OF assms] by blast
  have pool: "base_pool k mem b = spans_pool k E mem 0 Max_span_count" using b(4,5) by (simp add: base_pool_def)
  have "(\<forall>p \<in> held. 2 ^ k dvd p \<and> (\<exists>b''. free p b' = Inr b'') \<and> (\<forall>q \<in> held. p \<noteq> q \<longrightarrow> p + E \<le> q \<or> q + E \<le> p)) \<and>
      (alloc (2 ^ k) mem E b' = Inl Panic \<and> held = spans_pool k E mem 0 Max_span_count \<or>
       (\<exists>p b''. alloc (2 ^ k) mem E b' = Inr (p, b'') \<and> p \<in> spans_pool k E mem 0 Max_span_count - held))"
    if "serve (base_alloc k mem) base_release rs {} b = (held, b')" for rs held b'
  proof -
    have h: "base_ok k mem b'" "held = spans_live (spans b')" "base_pool k mem b' = base_pool k mem b"
      using base_blocks.serve_live [OF b(2), of rs held b'] that b(3) by auto
    have size: "block_size b' = E" using serve_block_size [OF that] b(4) by simp
    have sub: "held \<subseteq> spans_pool k E mem 0 Max_span_count"
      using base_blocks.live_pool [OF h(1)] h(2,3) pool by simp
    then have "2 ^ k dvd p" if "p \<in> held" for p
      using that spans_pool_pos(2) [OF assms] by blast
    moreover have "\<exists>b''. free p b' = Inr b''" if "p \<in> held" for p
      using base_release_live [OF h(1)] that h(2) by blast
    moreover have "p + E \<le> q \<or> q + E \<le> p" if "p \<in> held" "q \<in> held" "p \<noteq> q" for p q
      using spans_pool_spread [OF assms] that sub by blast
    moreover have "alloc (2 ^ k) mem E b' = Inl Panic \<and> held = spans_pool k E mem 0 Max_span_count \<or>
       (\<exists>p b''. alloc (2 ^ k) mem E b' = Inr (p, b'') \<and> p \<in> spans_pool k E mem 0 Max_span_count - held)"
      using base_alloc_cases [OF h(1)] unfolding h(2,3) pool size by blast
    ultimately show ?thesis by blast
  qed
  then show ?thesis using b(1) by blast
qed

definition spread_mem :: "nat \<Rightarrow> u64" where
  "spread_mem i = of_nat (0x100000 + i * 0x80000)"

lemma mem_ok_example: "mem_ok 3 64 spread_mem Max_span_count"
proof -
  have "unat (spread_mem i) = 0x100000 + i * 0x80000" if "i < 1024" for i
    unfolding spread_mem_def unat_of_nat using that by simp
  then show ?thesis
    by (auto simp: mem_ok_def span_params_def SPAN_SIZE_def Max_span_count_def word_unat_eq_iff)
qed

theorem base_alloc_free_witness:
  "\<exists>b. Base_object_allocator (2 ^ 3) spread_mem 64 = Inr b \<and>
    (alloc (2 ^ 3) spread_mem 64 b = Inl Panic \<and> {} = spans_pool 3 64 spread_mem 0 Max_span_count \<or>
     (\<exists>p b''. alloc (2 ^ 3) spread_mem 64 b = Inr (p, b'')))"
  using base_alloc_free [OF mem_ok_example] by (elim exE conjE) (metis serve.simps(1))

end
