(* ===== verification/XDK_Spinlocks.thy ===== *)
theory XDK_Spinlocks
  imports XDK_Contracts
begin

text \<open>
  The spin locks of \<^verbatim>\<open>lib/libexo/exo/spinlocks.h\<close>. A call of a thread is a sequence of atomic steps: one
  access to shared memory each. \<open>Ticket_lock\<close> and \<open>Spin_lock\<close> are shown to exclude each other's holders under
  every interleaving, the ticket lock also to be fair; \<open>Reentrant_lock_tmpl\<close> is shown not to.
\<close>

section \<open>Ticket lock\<close>

text \<open>
  The two halves of the 32-bit word \<^verbatim>\<open>u\<close>. A thread is outside (\<open>Idle\<close>), spinning on its ticket, inside, between
  the two accesses of \<^verbatim>\<open>trylock\<close>, or between the load and the store of \<^verbatim>\<open>ticket++\<close>.
\<close>

record ticket_lock =
  ticket :: u16
  users :: u16

definition Ticket_lock :: ticket_lock where
  "Ticket_lock = \<lparr>ticket = 0, users = 0\<rparr>"

definition ticket_u :: "ticket_lock \<Rightarrow> u32" where
  "ticket_u l = push_bit 16 (ucast (users l)) + ucast (ticket l)"

definition set_ticket_u :: "u32 \<Rightarrow> ticket_lock \<Rightarrow> ticket_lock" where
  "set_ticket_u v l = l\<lparr>ticket := ucast v, users := ucast (drop_bit 16 v)\<rparr>"

datatype ticket_pc = Idle | Spin u16 | Held | Try u16 | Release u16

fun ticket_step :: "lock_call \<Rightarrow> ticket_lock \<Rightarrow> ticket_pc \<Rightarrow> ticket_lock \<times> ticket_pc" where
  "ticket_step Lock l Idle = (l\<lparr>users := users l + 1\<rparr>, Spin (users l))"
| "ticket_step Trylock l Idle = (l, Try (users l))"
| "ticket_step c l (Spin me) = (l, if ticket l \<noteq> me then Spin me else Held)"
| "ticket_step c l Held = (l, Release (ticket l))"
| "ticket_step c l (Release t) = (l\<lparr>ticket := t + 1\<rparr>, Idle)"
| "ticket_step c l (Try me) =
     (let menew = me + 1; cmp = push_bit 16 (ucast me) + ucast me; cmpnew = push_bit 16 (ucast menew) + ucast me in
      if ticket_u l = cmp then (set_ticket_u cmpnew l, Held) else (l, Idle))"

definition lockable :: "ticket_lock \<Rightarrow> bool" where
  "lockable l \<longleftrightarrow> ticket l = users l"

section \<open>Basic spin lock\<close>

text \<open>Points of a thread: outside, at the compare-and-swap, in the inner loop that only reads, inside.\<close>

definition UNLOCKED :: u64 where
  "UNLOCKED = 0"

definition LOCKED :: u64 where
  "LOCKED = 1"

record spin_lock =
  l_word :: u64

definition Spin_lock :: spin_lock where
  "Spin_lock = \<lparr>l_word = UNLOCKED\<rparr>"

datatype spin_pc = Outside | Swap | Watch | Inside

definition try_lock :: "'a spin_lock_scheme \<Rightarrow> bool \<times> 'a spin_lock_scheme" where
  "try_lock l = (if l_word l = UNLOCKED then (True, l\<lparr>l_word := LOCKED\<rparr>) else (False, l))"

definition spin_unlock :: "'a spin_lock_scheme \<Rightarrow> 'a spin_lock_scheme" where
  "spin_unlock l = l\<lparr>l_word := UNLOCKED\<rparr>"

fun spin_step :: "lock_call \<Rightarrow> spin_lock \<Rightarrow> spin_pc \<Rightarrow> spin_lock \<times> spin_pc" where
  "spin_step Lock l Outside = (l, Swap)"
| "spin_step Trylock l Outside = (let (r, l') = try_lock l in (l', if r then Inside else Outside))"
| "spin_step c l Swap = (let (r, l') = try_lock l in (l', if r then Inside else Watch))"
| "spin_step c l Watch = (l, if l_word l \<noteq> 0 then Watch else Swap)"
| "spin_step c l Inside = (spin_unlock l, Outside)"

section \<open>Reentrant lock\<close>

text \<open>
  \<^verbatim>\<open>Reentrant_lock_tmpl<Spin_lock>\<close>, the instance the header defines. The constructor leaves \<^verbatim>\<open>_owner\<close> as it is in
  memory (argument). \<open>reentrant_lock\<close> is \<open>None\<close> while the base lock is taken: the caller goes on spinning.
\<close>

record reentrant_lock = spin_lock +
  owner :: u64
  ref_count :: u32

definition Reentrant_lock :: "u64 \<Rightarrow> reentrant_lock" where
  "Reentrant_lock garbage = \<lparr>l_word = UNLOCKED, owner = garbage, ref_count = 0\<rparr>"

definition lock :: "u64 \<Rightarrow> reentrant_lock \<Rightarrow> reentrant_lock option outcome" where
  "lock self r =
     (if owner r = self then Inr (Some (r\<lparr>ref_count := ref_count r + 1\<rparr>))
      else case try_lock r of
        (False, r1) \<Rightarrow> Inr None
      | (True, r1) \<Rightarrow> check (ref_count r1 = 0) Assertion (Inr (Some (r1\<lparr>owner := self\<rparr>))))"

definition unlock :: "u64 \<Rightarrow> reentrant_lock \<Rightarrow> status \<times> reentrant_lock" where
  "unlock self r =
     (if owner r \<noteq> self then (E_INVALID_REQUEST, r)
      else if 0 < ref_count r then (S_OK, r\<lparr>ref_count := ref_count r - 1\<rparr>)
      else (S_OK, spin_unlock r))"

section \<open>The order of the tickets\<close>

text \<open>
  The threads that took a ticket, in the order in which they took them: the \<open>k\<close>-th one has the ticket \<open>k\<close> after
  the current one, all but the first are spinning, and the others have no ticket.
\<close>

definition ticket_queue :: "ticket_lock \<Rightarrow> ticket_pc list \<Rightarrow> nat list \<Rightarrow> bool" where
  "ticket_queue l ps Q \<longleftrightarrow> distinct Q \<and> set Q \<subseteq> {..<length ps} \<and> users l = ticket l + of_nat (length Q) \<and>
     (\<forall>i < length ps. i \<notin> set Q \<longrightarrow> ps ! i = Idle \<or> (\<exists>m. ps ! i = Try m)) \<and>
     (\<forall>k < length Q. ps ! (Q ! k) = Spin (ticket l + of_nat k) \<or>
        k = 0 \<and> (ps ! (Q ! k) = Held \<or> ps ! (Q ! k) = Release (ticket l)))"

fun has_lock :: "ticket_pc \<Rightarrow> bool" where
  "has_lock Held = True"
| "has_lock (Release t) = True"
| "has_lock p = False"

lemma ticket_queue_length:
  assumes "ticket_queue l ps Q"
  shows "length Q \<le> length ps"
  using assms card_mono [of "{..<length ps}" "set Q"] distinct_card [of Q] by (simp add: ticket_queue_def)

lemma ticket_queue_head:
  assumes "ticket_queue l ps Q" "i < length ps" "has_lock (ps ! i)"
  shows "\<exists>Q'. Q = i # Q'"
proof -
  have "i \<in> set Q" using assms by (auto simp: ticket_queue_def)
  then obtain k where k: "k < length Q" "Q ! k = i" by (auto simp: in_set_conv_nth)
  moreover have "k = 0" using assms(1,3) k by (auto simp: ticket_queue_def)
  ultimately show ?thesis by (cases Q) auto
qed

lemma ticket_queue_ticket:
  assumes "ticket_queue l ps Q" "i < length ps" "ps ! i = Spin me" "length ps < 2 ^ 16"
  shows "unat (me - ticket l) < length Q \<and> Q ! unat (me - ticket l) = i"
proof -
  have "i \<in> set Q" using assms by (auto simp: ticket_queue_def)
  then obtain k where k: "k < length Q" "Q ! k = i" by (auto simp: in_set_conv_nth)
  then have "me = ticket l + of_nat k" using assms(1,3) by (auto simp: ticket_queue_def)
  moreover have "unat (of_nat k :: u16) = k"
    using k ticket_queue_length [OF assms(1)] assms(4) by (simp add: unat_of_nat)
  ultimately show ?thesis using k by simp
qed

lemma unat_halves:
  "unat (push_bit 16 (ucast (a :: u16)) + ucast (b :: u16) :: u32) = unat a * 65536 + unat b"
  using unat_bound [of a] unat_bound [of b]
  by (simp add: unat_word_ariths push_bit_eq_mult unsigned_ucast_eq take_bit_nat_eq_self)

lemma ticket_u_eq:
  "ticket_u l = push_bit 16 (ucast me) + ucast me \<longleftrightarrow> ticket l = me \<and> users l = me"
proof -
  have h: "t = m \<and> u = m" if "u * 65536 + t = m * 65536 + m" "t < 65536" "m < 65536" for u t m :: nat
  proof -
    have "(u * 65536 + t) mod 65536 = t" "(m * 65536 + m) mod 65536 = m"
      using that(2,3) by (simp_all only: mod_mult_self3 mod_less)
    then have "t = m" using that(1) by simp
    then show ?thesis using that(1) by simp
  qed
  have b: "unat (ticket l) < 65536" "unat me < 65536"
    using unat_bound [of "ticket l"] unat_bound [of me] by simp_all
  have "unat (users l) * 65536 + unat (ticket l) = unat me * 65536 + unat me \<longleftrightarrow>
      unat (users l) = unat me \<and> unat (ticket l) = unat me"
    using h [OF _ b] by metis
  then show ?thesis
    unfolding ticket_u_def word_unat_eq_iff [where 'a=32] unat_halves by (auto simp: word_unat_eq_iff)
qed

lemma set_ticket_u_new:
  "set_ticket_u (push_bit 16 (ucast (n :: u16)) + ucast (me :: u16)) l = l\<lparr>ticket := me, users := n\<rparr>"
proof -
  let ?w = "push_bit 16 (ucast n) + ucast me :: u32"
  have "unat (ucast ?w :: u16) = unat ?w mod 2 ^ 16" by (simp add: unsigned_ucast_eq take_bit_eq_mod)
  then have "unat (ucast ?w :: u16) = unat me" using unat_bound [of me] unfolding unat_halves by simp
  moreover have "unat (ucast (drop_bit 16 ?w) :: u16) = unat ?w div 2 ^ 16 mod 2 ^ 16"
    by (simp add: unsigned_ucast_eq take_bit_eq_mod drop_bit_eq_div unat_div)
  then have "unat (ucast (drop_bit 16 ?w) :: u16) = unat n"
    using unat_bound [of me] unat_bound [of n] unfolding unat_halves by simp
  ultimately show ?thesis unfolding set_ticket_u_def word_unat_eq_iff [symmetric] by simp
qed

lemma ticket_join:
  assumes "ticket_queue l ps Q" "i < length ps" "i \<notin> set Q"
    and "l' = l\<lparr>users := users l + 1\<rparr>" "p' = Spin (users l) \<or> Q = [] \<and> p' = Held"
  shows "ticket_queue l' (ps[i := p']) (Q @ [i])"
  using assms unfolding ticket_queue_def
  by (auto simp: nth_append nth_list_update less_Suc_eq add.assoc)

lemma ticket_advance:
  assumes "ticket_queue l ps (i # Q)" "ps ! i = Release t"
  shows "ticket_queue (l\<lparr>ticket := t + 1\<rparr>) (ps[i := Idle]) Q"
proof -
  have q: "distinct (i # Q)" "i < length ps" "set Q \<subseteq> {..<length ps}" "users l = ticket l + of_nat (Suc (length Q))"
    and others: "\<And>j. j < length ps \<Longrightarrow> j \<notin> set (i # Q) \<Longrightarrow> ps ! j = Idle \<or> (\<exists>m. ps ! j = Try m)"
    and at: "\<And>k. k < Suc (length Q) \<Longrightarrow> ps ! ((i # Q) ! k) = Spin (ticket l + of_nat k) \<or>
        k = 0 \<and> (ps ! i = Held \<or> ps ! i = Release (ticket l))"
    using assms(1) by (auto simp: ticket_queue_def)
  have t: "t = ticket l" using at [of 0] assms(2) by simp
  have "ps[i := Idle] ! (Q ! k) = Spin (t + 1 + of_nat k)" if "k < length Q" for k
  proof -
    have "i \<noteq> Q ! k" using q(1) that by (metis distinct.simps(2) nth_mem)
    then show ?thesis using at [of "Suc k"] that t by (simp add: add.assoc)
  qed
  then show ?thesis using q others t unfolding ticket_queue_def by (auto simp: nth_list_update add.assoc)
qed

lemma ticket_stay:
  assumes "ticket_queue l ps Q" "i < length ps"
    and "i \<notin> set Q \<and> (p' = Idle \<or> (\<exists>m. p' = Try m)) \<or>
      (\<exists>Q'. Q = i # Q') \<and> (p' = Held \<or> p' = Release (ticket l)) \<or> p' = ps ! i"
  shows "ticket_queue l (ps[i := p']) Q"
  using assms unfolding ticket_queue_def
  by (auto simp: nth_list_update nth_Cons' split: if_splits)

lemma ticket_step_queue:
  assumes q: "ticket_queue l ps Q" and n: "length ps < 2 ^ 16" and i: "i < length ps"
    and step: "ticket_step c l (ps ! i) = (l', p')"
  shows "ticket_queue l' (ps[i := p'])
    (if (\<exists>t. ps ! i = Release t) then tl Q
     else if i \<notin> set Q \<and> ((\<exists>m. p' = Spin m) \<or> p' = Held) then Q @ [i] else Q)"
proof (cases "ps ! i")
  case Idle
  then have "i \<notin> set Q" using q by (auto simp: ticket_queue_def in_set_conv_nth)
  then show ?thesis
    using Idle step ticket_join [OF q i] ticket_stay [OF q i] by (cases c) auto
next
  case (Spin me)
  then have "i \<in> set Q" using q i by (auto simp: ticket_queue_def)
  moreover have "\<exists>Q'. Q = i # Q'" if "ticket l = me"
    using ticket_queue_ticket [OF q i Spin n] that by (cases Q) auto
  ultimately show ?thesis using Spin step ticket_stay [OF q i] by (auto split: if_splits)
next
  case Held
  then obtain Q' where "Q = i # Q'" using ticket_queue_head [OF q i] by auto
  then show ?thesis using Held step ticket_stay [OF q i] by auto
next
  case (Release t)
  then obtain Q' where "Q = i # Q'" using ticket_queue_head [OF q i] by auto
  then show ?thesis using Release step ticket_advance [of l ps i Q' t] q by auto
next
  case (Try me)
  then have "i \<notin> set Q" using q by (auto simp: ticket_queue_def in_set_conv_nth)
  moreover have "Q = [] \<and> users l = me" if "ticket l = me" "users l = me"
  proof -
    have "(of_nat (length Q) :: u16) = 0" using q that by (simp add: ticket_queue_def)
    then have "unat (of_nat (length Q) :: u16) = 0" by simp
    then show ?thesis using ticket_queue_length [OF q] n that by (simp add: unat_of_nat)
  qed
  ultimately show ?thesis
    using Try step ticket_stay [OF q i, of Idle] ticket_join [OF q i, of _ Held]
    by (cases l) (auto simp: Let_def ticket_u_eq set_ticket_u_new split: if_splits)
qed

interpretation tickets: lock_protocol ticket_step Ticket_lock Idle has_lock 65535 "\<lambda>l ps. \<exists>Q. ticket_queue l ps Q"
proof unfold_locales
  fix n :: nat
  show "\<exists>Q. ticket_queue Ticket_lock (replicate n Idle) Q"
    by (rule exI [of _ "[]"]) (simp add: ticket_queue_def Ticket_lock_def)
next
  fix l ps i c l' p'
  assume "\<exists>Q. ticket_queue l ps Q" "length ps \<le> 65535" "i < length ps" "ticket_step c l (ps ! i) = (l', p')"
  then show "\<exists>Q. ticket_queue l' (ps[i := p']) Q" using ticket_step_queue [of l ps _ i c l' p'] by fastforce
next
  fix l ps i j
  assume "\<exists>Q. ticket_queue l ps Q" "i < length ps" "j < length ps" "has_lock (ps ! i)" "has_lock (ps ! j)"
  then show "i = j" using ticket_queue_head by blast
qed

section \<open>The spin lock word\<close>

definition spin_inv :: "spin_lock \<Rightarrow> spin_pc list \<Rightarrow> bool" where
  "spin_inv l ps \<longleftrightarrow> (l_word l = UNLOCKED \<or> l_word l = LOCKED) \<and>
     (l_word l = UNLOCKED \<longrightarrow> (\<forall>i < length ps. ps ! i \<noteq> Inside)) \<and>
     (l_word l = LOCKED \<longrightarrow> (\<exists>i < length ps. \<forall>j < length ps. ps ! j = Inside \<longleftrightarrow> j = i))"

lemma spin_enter:
  assumes "spin_inv l ps" "i < length ps" "ps ! i \<noteq> Inside" "try_lock l = (r, l')" "r \<longleftrightarrow> p' = Inside"
  shows "spin_inv l' (ps[i := p'])"
  using assms by (auto simp: spin_inv_def try_lock_def UNLOCKED_def LOCKED_def nth_list_update split: if_splits)

lemma spin_wait:
  assumes "spin_inv l ps" "i < length ps" "ps ! i \<noteq> Inside" "p' \<noteq> Inside"
  shows "spin_inv l (ps[i := p'])"
  using assms by (auto simp: spin_inv_def nth_list_update)

lemma spin_leave:
  assumes "spin_inv l ps" "i < length ps" "ps ! i = Inside"
  shows "spin_inv (spin_unlock l) (ps[i := Outside])"
  using assms by (auto simp: spin_inv_def spin_unlock_def UNLOCKED_def LOCKED_def nth_list_update split: if_splits)

lemma spin_step_inv:
  assumes "spin_inv l ps" "i < length ps" "spin_step c l (ps ! i) = (l', p')"
  shows "spin_inv l' (ps[i := p'])"
  using assms spin_enter [OF assms(1,2)] spin_wait [OF assms(1,2)] spin_leave [OF assms(1,2)]
  by (cases "ps ! i"; cases c) (auto split: if_splits prod.splits)

interpretation spins: lock_protocol spin_step Spin_lock Outside "\<lambda>p. p = Inside" n spin_inv for n
proof unfold_locales
  show "spin_inv Spin_lock (replicate m Outside)" if "m \<le> n" for m
    by (simp add: spin_inv_def Spin_lock_def UNLOCKED_def LOCKED_def)
  show "spin_inv l' (ps[i := p'])"
    if "spin_inv l ps" "length ps \<le> n" "i < length ps" "spin_step c l (ps ! i) = (l', p')" for l ps i c l' p'
    using spin_step_inv that by blast
  show "i = j" if "spin_inv l ps" "i < length ps" "j < length ps" "ps ! i = Inside" "ps ! j = Inside" for l ps i j
    using that by (auto simp: spin_inv_def)
qed

lemma ticket_moves:
  assumes q: "ticket_queue l ps Q" and j: "j < length ps" and step: "ticket_step c l (ps ! j) = (l', p')"
  shows "ticket l' = (if \<exists>t. ps ! j = Release t then ticket l + 1 else ticket l)"
proof (cases "ps ! j")
  case (Release t)
  then obtain Q' where "Q = j # Q'" using ticket_queue_head [OF q j] by auto
  then have "t = ticket l" using q Release by (force simp: ticket_queue_def)
  then show ?thesis using step Release by auto
next
  case Idle
  then show ?thesis using step by (cases c) auto
qed (use step in \<open>auto simp: Let_def ticket_u_eq set_ticket_u_new split: if_splits\<close>)

section \<open>Properties\<close>

text \<open>
  C31. Mutual exclusion. Whatever the interleaving of the atomic steps of the threads that call \<^verbatim>\<open>lock\<close>,
  \<^verbatim>\<open>trylock\<close> and \<^verbatim>\<open>unlock\<close>, at most one thread is between the return of a successful lock and the store that
  releases it, for the ticket lock with up to 65535 threads and for the spin lock with any number.
\<close>

theorem lock_mutual_exclusion:
  "(\<forall>n l ps i j. threads ticket_step (Ticket_lock, replicate n Idle) (l, ps) \<and> n \<le> 65535 \<and> i < n \<and> j < n \<and>
      has_lock (ps ! i) \<and> has_lock (ps ! j) \<longrightarrow> i = j) \<and>
   (\<forall>n l ps i j. threads spin_step (Spin_lock, replicate n Outside) (l, ps) \<and> i < n \<and> j < n \<and>
      ps ! i = Inside \<and> ps ! j = Inside \<longrightarrow> i = j)"
  using tickets.exclusion spins.exclusion by blast

text \<open>A run of two threads in which the first one is inside and the second one waits.\<close>

lemma ticket_run: "threads ticket_step (Ticket_lock, replicate 2 Idle) (\<lparr>ticket = 0, users = 2\<rparr>, [Held, Spin 1])"
proof -
  have "threads ticket_step (Ticket_lock, replicate 2 Idle) (Ticket_lock, [Idle, Idle])"
    using start [of ticket_step "(Ticket_lock, [Idle, Idle])"] by (simp add: numeral_2_eq_2)
  from turn [OF this, of 0 Lock "\<lparr>ticket = 0, users = 1\<rparr>" "Spin 0"]
  have "threads ticket_step (Ticket_lock, replicate 2 Idle) (\<lparr>ticket = 0, users = 1\<rparr>, [Spin 0, Idle])"
    by (simp add: Ticket_lock_def)
  from turn [OF this, of 1 Lock "\<lparr>ticket = 0, users = 2\<rparr>" "Spin 1"]
  have "threads ticket_step (Ticket_lock, replicate 2 Idle) (\<lparr>ticket = 0, users = 2\<rparr>, [Spin 0, Spin 1])"
    by simp
  from turn [OF this, of 0 Lock "\<lparr>ticket = 0, users = 2\<rparr>" Held] show ?thesis by simp
qed

theorem lock_mutual_exclusion_witness:
  "\<exists>l ps. threads ticket_step (Ticket_lock, replicate 2 Idle) (l, ps) \<and> has_lock (ps ! 0) \<and> \<not> has_lock (ps ! 1)"
proof -
  have "\<not> has_lock ([Held, Spin 1] ! 1)"
    using ticket_run lock_mutual_exclusion [THEN conjunct1, rule_format, of 2 "\<lparr>ticket = 0, users = 2\<rparr>" "[Held, Spin 1]" 0 1]
    by auto
  then show ?thesis
    using ticket_run by (intro exI conjI) auto
qed

text \<open>
  C32. Fairness of the ticket lock. A thread that waits has a distance to the current ticket. The distance is
  lowered by one at each release and by nothing else, whatever the other threads do: no thread overtakes. At
  distance 0 the thread's next step enters, at a greater one some thread holds the lock or enters next.
\<close>

theorem ticket_lock_fair:
  assumes "threads ticket_step (Ticket_lock, replicate n Idle) (l, ps)" "n \<le> 65535" "i < n" "ps ! i = Spin me"
  shows "(unat (me - ticket l) = 0 \<longrightarrow> ticket_step c l (ps ! i) = (l, Held)) \<and>
    (\<exists>j < n. has_lock (ps ! j) \<or> ticket_step c l (ps ! j) = (l, Held)) \<and>
    (\<forall>j < n. \<forall>c l' p'. j \<noteq> i \<and> ticket_step c l (ps ! j) = (l', p') \<longrightarrow>
       unat (me - ticket l) = unat (me - ticket l') + (if \<exists>t. ps ! j = Release t then 1 else 0))"
proof -
  obtain Q where q: "ticket_queue l ps Q" and n: "length ps = n" using tickets.reachable_inv [OF assms(1,2)] by auto
  have k: "unat (me - ticket l) < length Q" "Q ! unat (me - ticket l) = i"
    using ticket_queue_ticket [OF q, of i me] assms n by auto
  then have Q: "0 < length Q" by (metis gr_zeroI not_less_zero)
  then have "Q ! 0 \<in> set Q" by simp
  then have "Q ! 0 < n" using q n by (simp add: ticket_queue_def subset_iff)
  moreover have "has_lock (ps ! (Q ! 0)) \<or> ticket_step c l (ps ! (Q ! 0)) = (l, Held)"
    using q Q by (fastforce simp: ticket_queue_def)
  moreover have "unat (me - ticket l) = unat (me - ticket l') + (if \<exists>t. ps ! j = Release t then 1 else 0)"
    if j: "j < n" "j \<noteq> i" "ticket_step c' l (ps ! j) = (l', p')" for j c' l' p'
  proof (cases "\<exists>t. ps ! j = Release t")
    case True
    then have "Q ! 0 = j" using ticket_queue_head [OF q, of j] j(1) n by auto
    then have "unat (me - ticket l) \<noteq> 0" using k j(2) by metis
    then have "me - ticket l \<noteq> 0" by auto
    from unat_minus_one [OF this] show ?thesis
      using True ticket_moves [OF q, of j] j n \<open>unat (me - ticket l) \<noteq> 0\<close> by (simp add: diff_diff_eq)
  qed (use ticket_moves [OF q, of j] j n in simp)
  moreover have "ticket_step c l (ps ! i) = (l, Held)" if "unat (me - ticket l) = 0"
    using that assms(4) by (simp add: unat_eq_zero)
  ultimately show ?thesis by blast
qed

theorem ticket_lock_fair_witness:
  "\<exists>j < 2. has_lock ([Held, Spin 1] ! j) \<or> ticket_step Lock \<lparr>ticket = 0, users = 2\<rparr> ([Held, Spin 1] ! j) =
     (\<lparr>ticket = 0, users = 2\<rparr>, Held)"
  using ticket_lock_fair [OF ticket_run, of 1 1 Lock] by auto

text \<open>
  The reentrant lock after its first use. \<^verbatim>\<open>unlock\<close> releases the base lock and leaves \<^verbatim>\<open>_owner\<close>. The next
  \<^verbatim>\<open>lock\<close> of the same thread therefore only counts, without taking the base lock, and a \<^verbatim>\<open>lock\<close> of another
  thread, which is let in by the base lock, stops at its assertion (without assertions both are inside).
  Before that, nested calls are right: other threads wait and are refused to unlock.
\<close>

theorem reentrant_relock:
  assumes "owner r \<noteq> t" "l_word r = UNLOCKED" "ref_count r = 0" "u \<noteq> t"
  shows "\<exists>r1 r2 r3. lock t r = Inr (Some r1) \<and> l_word r1 = LOCKED \<and> lock u r1 = Inr None \<and>
    unlock u r1 = (E_INVALID_REQUEST, r1) \<and>
    (\<exists>r'. lock t r1 = Inr (Some r') \<and> unlock t r' = (S_OK, r1)) \<and>
    unlock t r1 = (S_OK, r2) \<and> l_word r2 = UNLOCKED \<and>
    lock t r2 = Inr (Some r3) \<and> l_word r3 = UNLOCKED \<and> lock u r3 = Inl Assertion"
  using assms
  by (cases r) (auto simp: lock_def unlock_def try_lock_def spin_unlock_def UNLOCKED_def LOCKED_def)

end
