(* ===== verification/XDK_SPMC.thy ===== *)
theory XDK_SPMC
  imports XDK_Contracts
begin

text \<open>
  The circular buffers for one producer and several consumers:
  \<^verbatim>\<open>lib/libexo/channel/spmc_circbuffer.h\<close>, whose calls are also modelled as interleaved atomic steps, and the variant
  for NUMA machines, \<^verbatim>\<open>lib/libexo/numa_channel/spmc_circbuffer.h\<close>. An item is a 64-bit pointer. The buffers of
  the shared-memory channels \<^verbatim>\<open>shm_channel.h\<close> are these buffers, called directly.
\<close>

section \<open>Buffer\<close>

datatype spmc_code = E_SPMC_CIRBUFF_OK | E_SPMC_CIRBUFF_EMPTY | E_SPMC_CIRBUFF_FULL | E_SPMC_CIRBUFF_CONTENTION
  | E_SPMC_CIRBUFF_INV_PARAM | E_SPMC_INV

fun spmc_code_val :: "spmc_code \<Rightarrow> int" where
  "spmc_code_val E_SPMC_CIRBUFF_OK = 0"
| "spmc_code_val E_SPMC_CIRBUFF_EMPTY = 1"
| "spmc_code_val E_SPMC_CIRBUFF_FULL = 2"
| "spmc_code_val E_SPMC_CIRBUFF_CONTENTION = 4"
| "spmc_code_val E_SPMC_CIRBUFF_INV_PARAM = 5"
| "spmc_code_val E_SPMC_INV = 6"

definition dummy_addr :: u64 where
  "dummy_addr = NOT 0"

record spmc =
  head :: u64
  tail :: u64
  buffer :: "u64 list"

definition SPMC_circular_buffer :: "u32 \<Rightarrow> spmc outcome" where
  "SPMC_circular_buffer N =
     (let e = ucast N :: u64 in
      check (e \<noteq> 0 \<and> e AND (e - 1) = 0) Assertion
        (Inr \<lparr>head = 0, tail = 0, buffer = replicate (unat N) dummy_addr\<rparr>))"

text \<open>\<open>temp\<close> is an \<^verbatim>\<open>unsigned\<close>, 32 bits wide; it is widened again wherever it meets the 64-bit counters.\<close>

definition consume :: "spmc \<Rightarrow> spmc_code \<times> u64 option \<times> spmc" where
  "consume b =
     (let temp = ucast (tail b) :: u32 in
      if head b - ucast temp = 0 then (E_SPMC_CIRBUFF_EMPTY, None, b)
      else if tail b = ucast temp then
        let index = unat temp mod length (buffer b) in
        (E_SPMC_CIRBUFF_OK, Some (buffer b ! index),
          b\<lparr>tail := ucast (temp + 1), buffer := (buffer b)[index := dummy_addr]\<rparr>)
      else (E_SPMC_CIRBUFF_CONTENTION, None, b))"

definition produce :: "u64 \<Rightarrow> spmc \<Rightarrow> spmc_code \<times> spmc" where
  "produce item b =
     (if item = 0 then (E_SPMC_CIRBUFF_INV_PARAM, b)
      else if head b - tail b = of_nat (length (buffer b)) then (E_SPMC_CIRBUFF_FULL, b)
      else
        let index = unat (head b) mod length (buffer b) in
        if buffer b ! index = dummy_addr then
          (E_SPMC_CIRBUFF_OK, b\<lparr>buffer := (buffer b)[index := item], head := head b + 1\<rparr>)
        else (E_SPMC_CIRBUFF_CONTENTION, b))"

section \<open>Interleaving\<close>

text \<open>
  Points between two accesses to shared memory. Producer: before the test for full, before the test of the slot,
  before the store, before the increment. Consumer: before the load of the tail, of the head, before the
  compare-and-swap, before the load of the item, before the store of the dummy.
\<close>

datatype producer_pc = P_idle | P_full u64 | P_slot u64 | P_store u64 | P_bump u64

datatype consumer_pc = C_idle | C_head u32 | C_swap u32 | C_load u32 | C_clear u32 u64

fun producer_step :: "spmc \<Rightarrow> producer_pc \<Rightarrow> spmc \<times> producer_pc \<times> spmc_code option" where
  "producer_step b P_idle = (b, P_idle, None)"
| "producer_step b (P_full item) =
     (if head b - tail b = of_nat (length (buffer b)) then (b, P_idle, Some E_SPMC_CIRBUFF_FULL) else (b, P_slot item, None))"
| "producer_step b (P_slot item) =
     (if buffer b ! (unat (head b) mod length (buffer b)) = dummy_addr then (b, P_store item, None)
      else (b, P_idle, Some E_SPMC_CIRBUFF_CONTENTION))"
| "producer_step b (P_store item) =
     (b\<lparr>buffer := (buffer b)[unat (head b) mod length (buffer b) := item]\<rparr>, P_bump item, None)"
| "producer_step b (P_bump item) = (b\<lparr>head := head b + 1\<rparr>, P_idle, Some E_SPMC_CIRBUFF_OK)"

definition call_produce :: "u64 \<Rightarrow> producer_pc" where
  "call_produce item = (if item = 0 then P_idle else P_full item)"

fun consumer_step :: "spmc \<Rightarrow> consumer_pc \<Rightarrow> spmc \<times> consumer_pc \<times> (spmc_code \<times> u64 option) option" where
  "consumer_step b C_idle = (b, C_head (ucast (tail b)), None)"
| "consumer_step b (C_head temp) =
     (if head b - ucast temp = 0 then (b, C_idle, Some (E_SPMC_CIRBUFF_EMPTY, None)) else (b, C_swap temp, None))"
| "consumer_step b (C_swap temp) =
     (if tail b = ucast temp then (b\<lparr>tail := ucast (temp + 1)\<rparr>, C_load temp, None)
      else (b, C_idle, Some (E_SPMC_CIRBUFF_CONTENTION, None)))"
| "consumer_step b (C_load temp) = (b, C_clear temp (buffer b ! (unat temp mod length (buffer b))), None)"
| "consumer_step b (C_clear temp item) =
     (b\<lparr>buffer := (buffer b)[unat temp mod length (buffer b) := dummy_addr]\<rparr>, C_idle,
      Some (E_SPMC_CIRBUFF_OK, Some item))"

section \<open>NUMA variant\<close>

text \<open>Counters move by \<^verbatim>\<open>HEAD_TAIL_DISTANCE\<close> slots at a time. Calls are modelled one at a time, so that the wait for earlier
  consumers ends at once.\<close>

definition HEAD_TAIL_DISTANCE :: u32 where
  "HEAD_TAIL_DISTANCE = 8"

record numa_spmc =
  mask :: u32
  prod_head :: u32
  cons_head :: u32
  prod_tail :: u32
  cons_tail :: u32
  numa_buffer :: "u64 list"

definition numa_SPMC_circular_buffer :: "u32 \<Rightarrow> numa_spmc outcome" where
  "numa_SPMC_circular_buffer N =
     check (N \<noteq> 0 \<and> N AND (N - 1) = 0) Assertion
       (Inr \<lparr>mask = N - 1, prod_head = 0, cons_head = 0, prod_tail = 0, cons_tail = 0,
          numa_buffer = replicate (unat N) 0\<rparr>)"

definition numa_consume :: "numa_spmc \<Rightarrow> spmc_code \<times> u64 option \<times> numa_spmc" where
  "numa_consume b =
     (let entries = prod_tail b - cons_head b in
      if entries < HEAD_TAIL_DISTANCE then (E_SPMC_CIRBUFF_EMPTY, None, b)
      else
        let cons_next = cons_head b + 8; index = unat (cons_head b) mod length (numa_buffer b) in
        (E_SPMC_CIRBUFF_OK, Some (numa_buffer b ! index), b\<lparr>cons_head := cons_next, cons_tail := cons_next\<rparr>))"

definition numa_produce :: "u64 \<Rightarrow> numa_spmc \<Rightarrow> spmc_code \<times> numa_spmc" where
  "numa_produce item b =
     (if item = 0 then (E_SPMC_CIRBUFF_INV_PARAM, b)
      else
        let free_entries = mask b + cons_tail b - prod_head b in
        if free_entries < HEAD_TAIL_DISTANCE then (E_SPMC_CIRBUFF_FULL, b)
        else
          let prod_next = prod_head b + 8; index = unat (prod_head b) mod length (numa_buffer b) in
          (E_SPMC_CIRBUFF_OK, b\<lparr>prod_head := prod_next, numa_buffer := (numa_buffer b)[index := item],
             prod_tail := prod_next\<rparr>))"

section \<open>Runs of the buffer\<close>

text \<open>
  The states one producer and any number of consumers reach. \<open>P\<close> are the items whose insertion is complete, in order,
  \<open>R\<close> the items handed to consumers, each with the number of its insertion. Fewer than \<open>2 ^ 32 - 1\<close> insertions are
  considered, and no item is the dummy address.
\<close>

inductive spmc_reach :: "nat \<Rightarrow> nat \<Rightarrow> spmc \<Rightarrow> producer_pc \<Rightarrow> consumer_pc list \<Rightarrow> u64 list \<Rightarrow> (nat \<times> u64) list \<Rightarrow> bool"
  for N n where
  Start: "spmc_reach N n \<lparr>head = 0, tail = 0, buffer = replicate N dummy_addr\<rparr> P_idle (replicate n C_idle) [] []"
| Call: "spmc_reach N n b P_idle cs P R \<Longrightarrow> item \<noteq> dummy_addr \<Longrightarrow> length P + 1 < 2 ^ 32 \<Longrightarrow>
    spmc_reach N n b (call_produce item) cs P R"
| Produce: "spmc_reach N n b pp cs P R \<Longrightarrow> producer_step b pp = (b', pp', r) \<Longrightarrow>
    P' = (case pp of P_bump item \<Rightarrow> P @ [item] | _ \<Rightarrow> P) \<Longrightarrow> spmc_reach N n b' pp' cs P' R"
| Consume: "spmc_reach N n b pp cs P R \<Longrightarrow> c < length cs \<Longrightarrow> consumer_step b (cs ! c) = (b', pc', r) \<Longrightarrow>
    R' = (case cs ! c of C_clear temp item \<Rightarrow> R @ [(unat temp, item)] | _ \<Rightarrow> R) \<Longrightarrow>
    spmc_reach N n b' pp (cs[c := pc']) P R'"

section \<open>Invariant\<close>

text \<open>
  A consumer between its compare-and-swap and its last store has claimed an insertion. The slots in use are those of
  the insertions that are not claimed yet and of the claimed ones.
\<close>

fun claim :: "consumer_pc \<Rightarrow> nat option" where
  "claim (C_load temp) = Some (unat temp)"
| "claim (C_clear temp item) = Some (unat temp)"
| "claim _ = None"

definition claimed :: "consumer_pc list \<Rightarrow> nat set" where
  "claimed cs = {j. \<exists>c < length cs. claim (cs ! c) = Some j}"

definition single_claims :: "consumer_pc list \<Rightarrow> bool" where
  "single_claims cs \<longleftrightarrow> (\<forall>c < length cs. \<forall>d < length cs. \<forall>j. claim (cs ! c) = Some j \<and> claim (cs ! d) = Some j \<longrightarrow> c = d)"

definition live :: "spmc \<Rightarrow> consumer_pc list \<Rightarrow> u64 list \<Rightarrow> nat set" where
  "live b cs P = {unat (tail b)..<length P} \<union> claimed cs"

fun consumer_ok :: "nat \<Rightarrow> u64 list \<Rightarrow> consumer_pc \<Rightarrow> bool" where
  "consumer_ok t P (C_head temp) \<longleftrightarrow> unat temp \<le> t"
| "consumer_ok t P (C_swap temp) \<longleftrightarrow> unat temp < length P"
| "consumer_ok t P (C_clear temp item) \<longleftrightarrow> item = P ! unat temp"
| "consumer_ok t P _ \<longleftrightarrow> True"

fun producer_ok :: "spmc \<Rightarrow> nat set \<Rightarrow> u64 list \<Rightarrow> producer_pc \<Rightarrow> bool" where
  "producer_ok b L P P_idle \<longleftrightarrow> True"
| "producer_ok b L P (P_full item) \<longleftrightarrow> item \<noteq> dummy_addr \<and> length P + 1 < 2 ^ 32"
| "producer_ok b L P (P_slot item) \<longleftrightarrow> item \<noteq> dummy_addr \<and> length P + 1 < 2 ^ 32 \<and>
     length P < unat (tail b) + length (buffer b)"
| "producer_ok b L P (P_store item) \<longleftrightarrow> item \<noteq> dummy_addr \<and> length P + 1 < 2 ^ 32 \<and>
     length P < unat (tail b) + length (buffer b) \<and>
     length P mod length (buffer b) \<notin> (\<lambda>j. j mod length (buffer b)) ` L"
| "producer_ok b L P (P_bump item) \<longleftrightarrow> item \<noteq> dummy_addr \<and> length P + 1 < 2 ^ 32 \<and>
     length P < unat (tail b) + length (buffer b) \<and>
     length P mod length (buffer b) \<notin> (\<lambda>j. j mod length (buffer b)) ` L \<and>
     buffer b ! (length P mod length (buffer b)) = item"

definition counters_ok :: "nat \<Rightarrow> spmc \<Rightarrow> u64 list \<Rightarrow> bool" where
  "counters_ok N b P \<longleftrightarrow> 0 < N \<and> N < 2 ^ 32 \<and> length (buffer b) = N \<and> unat (head b) = length P \<and> length P < 2 ^ 32 \<and>
     unat (tail b) \<le> length P \<and> length P \<le> unat (tail b) + N \<and> dummy_addr \<notin> set P"

definition slots_ok :: "spmc \<Rightarrow> nat set \<Rightarrow> u64 list \<Rightarrow> bool" where
  "slots_ok b L P \<longleftrightarrow> inj_on (\<lambda>j. j mod length (buffer b)) L \<and> (\<forall>j \<in> L. j < length P \<and> buffer b ! (j mod length (buffer b)) = P ! j)"

definition delivered_ok :: "nat \<Rightarrow> nat set \<Rightarrow> u64 list \<Rightarrow> (nat \<times> u64) list \<Rightarrow> bool" where
  "delivered_ok t C P R \<longleftrightarrow> distinct (map fst R) \<and> set (map fst R) \<inter> C = {} \<and> set (map fst R) \<union> C = {..<t} \<and>
     (\<forall>(i, v) \<in> set R. i < length P \<and> v = P ! i)"

definition spmc_inv :: "nat \<Rightarrow> spmc \<Rightarrow> producer_pc \<Rightarrow> consumer_pc list \<Rightarrow> u64 list \<Rightarrow> (nat \<times> u64) list \<Rightarrow> bool" where
  "spmc_inv N b pp cs P R \<longleftrightarrow> counters_ok N b P \<and> single_claims cs \<and> slots_ok b (live b cs P) P \<and>
     (\<forall>c < length cs. consumer_ok (unat (tail b)) P (cs ! c)) \<and> producer_ok b (live b cs P) P pp \<and>
     delivered_ok (unat (tail b)) (claimed cs) P R"

lemma claims_update:
  assumes "c < length cs"
  shows "j \<in> claimed (cs[c := p]) \<longleftrightarrow> claim p = Some j \<or> (\<exists>d < length cs. d \<noteq> c \<and> claim (cs ! d) = Some j)"
proof -
  have "(\<exists>d < length cs. claim (cs[c := p] ! d) = Some j) \<longleftrightarrow>
      claim (cs[c := p] ! c) = Some j \<or> (\<exists>d < length cs. d \<noteq> c \<and> claim (cs[c := p] ! d) = Some j)"
    using assms by metis
  then show ?thesis using assms by (auto simp: claimed_def nth_list_update_neq)
qed

lemma claimed_update:
  assumes "single_claims cs" "c < length cs"
  shows "claimed (cs[c := p]) = (claimed cs - set_option (claim (cs ! c))) \<union> set_option (claim p)"
proof (rule set_eqI)
  fix j
  have "(\<exists>d < length cs. d \<noteq> c \<and> claim (cs ! d) = Some j) \<longleftrightarrow> j \<in> claimed cs \<and> claim (cs ! c) \<noteq> Some j"
    using assms unfolding single_claims_def claimed_def by blast
  then show "j \<in> claimed (cs[c := p]) \<longleftrightarrow> j \<in> (claimed cs - set_option (claim (cs ! c))) \<union> set_option (claim p)"
    using claims_update [OF assms(2)] by auto
qed

lemma single_claims_update:
  assumes "single_claims cs" "c < length cs" "set_option (claim p) \<subseteq> set_option (claim (cs ! c)) \<or> set_option (claim p) \<inter> claimed cs = {}"
  shows "single_claims (cs[c := p])"
proof -
  have h: "claim (cs ! d) \<noteq> Some j" if "d < length cs" "d \<noteq> c" "claim p = Some j" for d j
    using assms that unfolding single_claims_def claimed_def by (fastforce simp: elem_set)
  have "a = d" if "a < length cs" "d < length cs" "claim (cs[c := p] ! a) = Some j" "claim (cs[c := p] ! d) = Some j" for a d j
  proof (cases "a = c \<or> d = c")
    case True
    then show ?thesis using that h assms(2) by (metis nth_list_update_eq nth_list_update_neq)
  next
    case False
    then show ?thesis using that assms(1) unfolding single_claims_def by (metis nth_list_update_neq)
  qed
  then show ?thesis unfolding single_claims_def length_list_update by blast
qed

lemma slot_free:
  assumes "slots_ok b L P" "dummy_addr \<notin> set P" "buffer b ! (i mod length (buffer b)) = dummy_addr"
  shows "i mod length (buffer b) \<notin> (\<lambda>j. j mod length (buffer b)) ` L"
proof
  assume "i mod length (buffer b) \<in> (\<lambda>j. j mod length (buffer b)) ` L"
  then obtain j where "j \<in> L" "i mod length (buffer b) = j mod length (buffer b)" by auto
  then have "P ! j = dummy_addr" "j < length P" using assms(1,3) by (auto simp: slots_ok_def)
  then show False using assms(2) by (metis nth_mem)
qed

lemma live_mono: "unat (tail b') = unat (tail b) \<Longrightarrow> live b' cs P = live b cs P"
  by (simp add: live_def)

lemma producer_inv:
  assumes inv: "spmc_inv N b pp cs P R" and step: "producer_step b pp = (b', pp', r)"
    and P': "P' = (case pp of P_bump item \<Rightarrow> P @ [item] | _ \<Rightarrow> P)"
  shows "spmc_inv N b' pp' cs P' R"
proof (cases pp)
  case P_idle
  then show ?thesis using assms by simp
next
  case (P_full item)
  have ok: "counters_ok N b P" using inv by (simp add: spmc_inv_def)
  have "length P < unat (tail b) + N" if "head b - tail b \<noteq> of_nat (length (buffer b))"
  proof (rule ccontr)
    assume "\<not> ?thesis"
    then have "length P = unat (tail b) + N" using ok by (simp add: counters_ok_def)
    then have "unat (head b - tail b) = unat (of_nat (length (buffer b)) :: u64)"
      using ok by (simp add: counters_ok_def unat_sub word_le_nat_alt unat_of_nat)
    then show False using that by (simp add: word_unat_eq_iff)
  qed
  then show ?thesis
    using assms P_full ok by (auto simp: spmc_inv_def counters_ok_def split: if_splits)
next
  case (P_slot item)
  then show ?thesis
    using assms slot_free [of b "live b cs P" P "length P"]
    by (auto simp: spmc_inv_def counters_ok_def split: if_splits)
next
  case (P_store item)
  let ?N = "length (buffer b)"
  have b': "b' = b\<lparr>buffer := (buffer b)[length P mod ?N := item]\<rparr>" "pp' = P_bump item" "P' = P"
    using assms P_store by (auto simp: spmc_inv_def counters_ok_def)
  have out: "length P mod ?N \<noteq> j mod ?N" if "j \<in> live b cs P" for j
    using inv P_store that by (auto simp: spmc_inv_def)
  have "slots_ok b' (live b cs P) P"
    using inv out unfolding spmc_inv_def slots_ok_def b'(1) by auto
  then show ?thesis
    using inv P_store out b' live_mono [of b' b]
    by (auto simp: spmc_inv_def counters_ok_def live_def)
next
  case (P_bump item)
  let ?N = "length (buffer b)"
  have b': "b' = b\<lparr>head := head b + 1\<rparr>" "pp' = P_idle" "P' = P @ [item]"
    using assms P_bump by auto
  have ok: "counters_ok N b P" and l: "length P < unat (tail b) + ?N" "length P mod ?N \<notin> (\<lambda>j. j mod ?N) ` live b cs P"
      "buffer b ! (length P mod ?N) = item" "item \<noteq> dummy_addr" "length P + 1 < 2 ^ 32"
    using inv P_bump by (simp_all add: spmc_inv_def)
  have "unat (head b + 1) = unat (head b) + 1"
    using ok by (simp add: counters_ok_def unat_word_ariths(1))
  then have "counters_ok N b' P'"
    using ok l b' by (auto simp: counters_ok_def)
  moreover have live: "live b' cs P' = insert (length P) (live b cs P)"
    using ok b' by (auto simp: live_def counters_ok_def)
  moreover have "slots_ok b' (insert (length P) (live b cs P)) P'"
    using inv l b' by (auto simp: spmc_inv_def slots_ok_def nth_append)
  moreover have "consumer_ok (unat (tail b')) P' (cs ! c)" if "c < length cs" for c
  proof -
    have "consumer_ok (unat (tail b)) P (cs ! c)" using inv that by (simp add: spmc_inv_def)
    moreover have "unat u < length P" if "cs ! c = C_clear u v" for u v
      using inv \<open>c < length cs\<close> that by (force simp: spmc_inv_def slots_ok_def live_def claimed_def)
    ultimately show ?thesis using b' by (cases "cs ! c") (auto simp: nth_append)
  qed
  ultimately show ?thesis
    using inv b' by (auto simp: spmc_inv_def delivered_ok_def nth_append)
qed

lemma consumer_stays:
  assumes "spmc_inv N b pp cs P R" "c < length cs" "claim p = claim (cs ! c)" "consumer_ok (unat (tail b)) P p"
  shows "spmc_inv N b pp (cs[c := p]) P R"
proof -
  have s: "single_claims cs" using assms(1) by (simp add: spmc_inv_def)
  have "set_option (claim (cs ! c)) \<subseteq> claimed cs" using assms(2) by (auto simp: claimed_def)
  then have "claimed (cs[c := p]) = claimed cs" using claimed_update [OF s assms(2), of p] assms(3) by auto
  moreover from this have "live b (cs[c := p]) P = live b cs P" by (simp add: live_def)
  ultimately show ?thesis
    using assms single_claims_update [OF s assms(2), of p] by (auto simp: spmc_inv_def nth_list_update)
qed

lemma consumer_takes:
  assumes inv: "spmc_inv N b pp cs P R" and c: "c < length cs" "cs ! c = C_swap temp" and t: "unat (tail b) = unat temp"
    and b': "b' = b\<lparr>tail := ucast (temp + 1)\<rparr>"
  shows "spmc_inv N b' pp (cs[c := C_load temp]) P R"
proof -
  let ?cs = "cs[c := C_load temp]"
  have s: "single_claims cs" and k: "counters_ok N b P" and d: "delivered_ok (unat (tail b)) (claimed cs) P R"
    and h: "unat temp < length P"
    using inv c by (auto simp: spmc_inv_def)
  have "unat (temp + 1) = unat temp + 1" using h k by (simp add: counters_ok_def unat_word_ariths(1))
  then have t': "unat (tail b') = unat temp + 1"
    using unat_bound [of "temp + 1"] b' by (simp add: unsigned_ucast_eq take_bit_nat_eq_self)
  have new: "unat temp \<notin> claimed cs" using d t by (auto simp: delivered_ok_def)
  have cl: "claimed ?cs = insert (unat temp) (claimed cs)" using claimed_update [OF s c(1)] c(2) by simp
  have "{unat temp..<length P} = insert (unat temp) {unat temp + 1..<length P}" using h by auto
  then have live: "live b' ?cs P = live b cs P" using cl t t' by (simp add: live_def)
  have "counters_ok N b' P" using k t t' h b' by (auto simp: counters_ok_def)
  moreover have "single_claims ?cs" using single_claims_update [OF s c(1), of "C_load temp"] new by simp
  moreover have "slots_ok b' (live b' ?cs P) P" using inv b' live by (simp add: spmc_inv_def slots_ok_def)
  moreover have "consumer_ok (unat (tail b')) P (?cs ! e)" if "e < length cs" for e
  proof -
    have "consumer_ok (unat (tail b)) P (cs ! e)" using inv that by (simp add: spmc_inv_def)
    then have "consumer_ok (unat (tail b')) P (cs ! e)" using t t' by (cases "cs ! e") auto
    then show ?thesis using c(1) by (cases "e = c") simp_all
  qed
  moreover have "producer_ok b' (live b' ?cs P) P pp"
    using inv b' t t' live by (cases pp) (auto simp: spmc_inv_def)
  moreover have "delivered_ok (unat (tail b')) (claimed ?cs) P R"
    using d cl t t' by (auto simp: delivered_ok_def lessThan_Suc)
  ultimately show ?thesis by (simp add: spmc_inv_def)
qed

lemma consumer_clears:
  assumes inv: "spmc_inv N b pp cs P R" and c: "c < length cs" "cs ! c = C_clear temp item"
    and b': "b' = b\<lparr>buffer := (buffer b)[unat temp mod length (buffer b) := dummy_addr]\<rparr>"
  shows "spmc_inv N b' pp (cs[c := C_idle]) P (R @ [(unat temp, item)])"
proof -
  let ?cs = "cs[c := C_idle]" and ?N = "length (buffer b)"
  have s: "single_claims cs" and k: "counters_ok N b P" and d: "delivered_ok (unat (tail b)) (claimed cs) P R"
    and sl: "slots_ok b (live b cs P) P" and item: "item = P ! unat temp"
    using inv c by (force simp: spmc_inv_def)+
  have i: "unat temp \<in> claimed cs" "unat temp < unat (tail b)" "unat temp < length P"
  proof -
    show "unat temp \<in> claimed cs" using c by (auto simp: claimed_def intro: exI [of _ c])
    then show "unat temp < unat (tail b)" using d by (auto simp: delivered_ok_def)
    then show "unat temp < length P" using k by (simp add: counters_ok_def)
  qed
  have cl: "claimed ?cs = claimed cs - {unat temp}" using claimed_update [OF s c(1), of C_idle] c(2) by simp
  have "unat temp \<notin> {unat (tail b)..<length P}" using i(2) by simp
  then have live: "live b' ?cs P = live b cs P - {unat temp}" unfolding live_def cl using b' by auto
  have il: "unat temp \<in> live b cs P" using i(1) by (simp add: live_def)
  then have apart: "unat temp mod ?N \<noteq> j mod ?N" if "j \<in> live b cs P - {unat temp}" for j
    using sl that unfolding slots_ok_def inj_on_def by fastforce
  have "counters_ok N b' P" using k b' by (simp add: counters_ok_def)
  moreover have "single_claims ?cs" using single_claims_update [OF s c(1), of C_idle] by simp
  moreover have "slots_ok b' (live b' ?cs P) P"
    using sl apart b' live by (auto simp: slots_ok_def inj_on_def)
  moreover have "consumer_ok (unat (tail b')) P (?cs ! e)" if "e < length cs" for e
    using inv that b' by (cases "e = c") (auto simp: spmc_inv_def)
  moreover have "producer_ok b' (live b' ?cs P) P pp"
  proof -
    have "producer_ok b (live b cs P) P pp" using inv by (simp add: spmc_inv_def)
    moreover have "unat temp mod ?N \<noteq> i" if "i \<notin> (\<lambda>j. j mod ?N) ` live b cs P" for i using il that by blast
    ultimately show ?thesis unfolding live using b' by (cases pp) auto
  qed
  moreover have "delivered_ok (unat (tail b')) (claimed ?cs) P (R @ [(unat temp, item)])"
    using d cl i item b' by (auto simp: delivered_ok_def)
  ultimately show ?thesis by (simp add: spmc_inv_def)
qed

lemma consumer_inv:
  assumes inv: "spmc_inv N b pp cs P R" and c: "c < length cs" and step: "consumer_step b (cs ! c) = (b', p', r)"
    and R': "R' = (case cs ! c of C_clear temp item \<Rightarrow> R @ [(unat temp, item)] | _ \<Rightarrow> R)"
  shows "spmc_inv N b' pp (cs[c := p']) P R'"
proof -
  have k: "counters_ok N b P" and me: "consumer_ok (unat (tail b)) P (cs ! c)"
    using inv c by (auto simp: spmc_inv_def)
  have wide: "unat (ucast u :: u64) = unat u" for u :: u32
    using unat_bound [of u] by (simp add: unsigned_ucast_eq take_bit_nat_eq_self)
  show ?thesis
  proof (cases "cs ! c")
    case C_idle
    have "unat (ucast (tail b) :: u32) = unat (tail b)"
      using k by (simp add: counters_ok_def unsigned_ucast_eq take_bit_nat_eq_self)
    then show ?thesis using C_idle step R' consumer_stays [OF inv c] by auto
  next
    case (C_head temp)
    have "unat temp < length P" if "head b - ucast temp \<noteq> 0"
    proof -
      have "unat (head b) \<noteq> unat temp" using that wide [of temp] by (metis right_minus_eq word_unat_eq_iff)
      then show ?thesis using k me C_head by (simp add: counters_ok_def)
    qed
    then show ?thesis using C_head step R' consumer_stays [OF inv c] by (auto split: if_splits)
  next
    case (C_swap temp)
    show ?thesis
    proof (cases "tail b = ucast temp")
      case True
      then show ?thesis using C_swap step R' consumer_takes [OF inv c C_swap] wide by auto
    next
      case False
      then show ?thesis using C_swap step R' consumer_stays [OF inv c, of C_idle] by auto
    qed
  next
    case (C_load temp)
    have "unat temp \<in> live b cs P" using c C_load by (auto simp: live_def claimed_def intro: exI [of _ c])
    then have "buffer b ! (unat temp mod length (buffer b)) = P ! unat temp" using inv by (auto simp: spmc_inv_def slots_ok_def)
    then show ?thesis using C_load step R' consumer_stays [OF inv c] by auto
  next
    case (C_clear temp item)
    then show ?thesis using step R' consumer_clears [OF inv c C_clear] by auto
  qed
qed

lemma spmc_reach_inv:
  assumes "spmc_reach N n b pp cs P R" "0 < N" "N < 2 ^ 32"
  shows "spmc_inv N b pp cs P R"
  using assms
proof (induction rule: spmc_reach.induct)
  case Start
  have "claimed (replicate n C_idle) = {}" by (auto simp: claimed_def)
  then show ?case using Start
    by (auto simp: spmc_inv_def counters_ok_def slots_ok_def live_def single_claims_def delivered_ok_def)
next
  case (Call b cs P R item)
  then show ?case by (auto simp: spmc_inv_def call_produce_def)
next
  case (Produce b pp cs P R b' pp' r P')
  then show ?case using producer_inv by blast
next
  case (Consume b pp cs P R c b' pc' r R')
  then show ?case using consumer_inv by blast
qed

section \<open>The NUMA variant as a queue\<close>

definition numa_used :: "numa_spmc \<Rightarrow> nat" where
  "numa_used b = unat (prod_head b - cons_head b)"

definition numa_items :: "numa_spmc \<Rightarrow> u64 list" where
  "numa_items b = map (\<lambda>i. numa_buffer b ! ((unat (cons_head b) + 8 * i) mod length (numa_buffer b))) [0..<numa_used b div 8]"

definition numa_ok :: "nat \<Rightarrow> numa_spmc \<Rightarrow> bool" where
  "numa_ok m b \<longleftrightarrow> 3 \<le> m \<and> m < 32 \<and> length (numa_buffer b) = 2 ^ m \<and> mask b = 2 ^ m - 1 \<and>
     prod_tail b = prod_head b \<and> cons_tail b = cons_head b \<and> 8 dvd numa_used b \<and> numa_used b + 8 \<le> 2 ^ m"

lemma numa_prod_index:
  assumes "numa_ok m b"
  shows "unat (prod_head b) mod 2 ^ m = (unat (cons_head b) + numa_used b) mod 2 ^ m"
proof -
  have "unat (prod_head b) = (unat (cons_head b) + numa_used b) mod 2 ^ 32"
    using unat_word_ariths(1) [of "cons_head b" "prod_head b - cons_head b"] by (simp add: numa_used_def)
  moreover have "(2 :: nat) ^ m dvd 2 ^ 32" using assms by (intro le_imp_power_dvd) (simp add: numa_ok_def)
  ultimately show ?thesis by (simp add: mod_mod_cancel)
qed

lemma mod_apart: "a mod n \<noteq> b mod n" if "a < b" "b < a + n" for a b n :: nat
proof
  assume "a mod n = b mod n"
  then have "n dvd b - a" using that by (metis mod_eq_dvd_iff_nat less_imp_le)
  then show False using that by (auto dest: dvd_imp_le)
qed

lemma numa_free:
  assumes "numa_ok m b"
  shows "mask b + cons_tail b - prod_head b < HEAD_TAIL_DISTANCE \<longleftrightarrow> numa_used b + 8 = 2 ^ m"
proof -
  have ok: "3 \<le> m" "m < 32" "mask b = 2 ^ m - 1" "cons_tail b = cons_head b" "8 dvd numa_used b" "numa_used b + 8 \<le> 2 ^ m"
    using assms by (simp_all add: numa_ok_def)
  have u: "unat (mask b) = 2 ^ m - 1"
    using ok(2,3) by (simp add: unat_minus_one unat_exp)
  have "mask b + cons_tail b - prod_head b = mask b - (prod_head b - cons_head b)" using ok(4) by simp
  moreover have "prod_head b - cons_head b \<le> mask b" using u ok(6) by (simp add: numa_used_def word_le_nat_alt)
  ultimately have f: "unat (mask b + cons_tail b - prod_head b) = 2 ^ m - 1 - numa_used b"
    using unat_sub [of "prod_head b - cons_head b" "mask b"] u by (simp only: numa_used_def)
  have "8 dvd (2 :: nat) ^ m" using ok(1) le_imp_power_dvd [of 3 m "2 :: nat"] by simp
  then have "8 dvd 2 ^ m - numa_used b" using ok(5) by (rule dvd_diff_nat)
  then have "2 ^ m - numa_used b < 9 \<longleftrightarrow> 2 ^ m - numa_used b = 8"
    using ok(6) by (auto simp: dvd_def)
  then show ?thesis using f ok(6) by (auto simp: word_less_nat_alt HEAD_TAIL_DISTANCE_def)
qed

lemma numa_produce_spec:
  assumes "numa_ok m b" "item \<noteq> 0"
  shows "if length (numa_items b) < 2 ^ m div 8 - 1
    then \<exists>b'. numa_produce item b = (E_SPMC_CIRBUFF_OK, b') \<and> numa_ok m b' \<and> numa_items b' = numa_items b @ [item]
    else numa_produce item b = (E_SPMC_CIRBUFF_FULL, b)"
proof -
  let ?n = "2 ^ m :: nat" and ?c = "unat (cons_head b)"
  have ok: "3 \<le> m" "m < 32" "length (numa_buffer b) = ?n" "8 dvd numa_used b" "numa_used b + 8 \<le> ?n"
    using assms(1) by (simp_all add: numa_ok_def)
  then obtain k where k: "numa_used b = 8 * k" by (auto simp: dvd_def)
  obtain q where q: "?n = 8 * q" using ok(1) le_imp_power_dvd [of 3 m "2 :: nat"] by (auto simp: dvd_def)
  have len: "length (numa_items b) < ?n div 8 - 1 \<longleftrightarrow> numa_used b + 8 \<noteq> ?n"
    using ok(5) k q by (auto simp: numa_items_def)
  show ?thesis
  proof (cases "numa_used b + 8 = ?n")
    case True
    then show ?thesis using len assms(2) numa_free [OF assms(1)] by (simp add: numa_produce_def Let_def)
  next
    case False
    let ?b = "b\<lparr>prod_head := prod_head b + 8, numa_buffer := (numa_buffer b)[unat (prod_head b) mod ?n := item],
        prod_tail := prod_head b + 8\<rparr>"
    have p: "numa_produce item b = (E_SPMC_CIRBUFF_OK, ?b)"
      using False assms(2) numa_free [OF assms(1)] ok(3) by (simp add: numa_produce_def Let_def)
    have "Suc k < q" using False ok(5) k q by simp
    then have room: "8 * k + 16 \<le> ?n" using q by simp
    have "?n < 2 ^ 32" using ok(2) by (intro power_strict_increasing) simp_all
    then have used: "numa_used ?b = 8 * Suc k"
      using room k unat_word_ariths(1) [of "prod_head b - cons_head b" 8] by (simp add: numa_used_def diff_add_eq)
    have "numa_ok m ?b" using assms(1) room used by (simp add: numa_ok_def)
    moreover have "(?c + 8 * i) mod ?n \<noteq> (?c + 8 * k) mod ?n" if "i < k" for i
      using mod_apart [of "?c + 8 * i" "?c + 8 * k" ?n] that room by simp
    then have "numa_items ?b = numa_items b @ [item]"
      using used k ok(3) numa_prod_index [OF assms(1)] by (fastforce simp: numa_items_def nth_list_update)
    ultimately show ?thesis using len False p by simp
  qed
qed

lemma numa_consume_spec:
  assumes "numa_ok m b"
  shows "case numa_items b of [] \<Rightarrow> numa_consume b = (E_SPMC_CIRBUFF_EMPTY, None, b)
    | x # xs \<Rightarrow> \<exists>b'. numa_consume b = (E_SPMC_CIRBUFF_OK, Some x, b') \<and> numa_ok m b' \<and> numa_items b' = xs"
proof -
  let ?n = "2 ^ m :: nat" and ?c = "unat (cons_head b)"
  have ok: "m < 32" "length (numa_buffer b) = ?n" "8 dvd numa_used b" "prod_tail b = prod_head b"
    using assms by (simp_all add: numa_ok_def)
  then obtain k where k: "numa_used b = 8 * k" by (auto simp: dvd_def)
  have e: "prod_tail b - cons_head b < HEAD_TAIL_DISTANCE \<longleftrightarrow> k = 0"
    using k ok(4) by (auto simp: numa_used_def HEAD_TAIL_DISTANCE_def word_less_nat_alt)
  show ?thesis
  proof (cases k)
    case 0
    then show ?thesis using k e by (simp add: numa_items_def numa_consume_def Let_def)
  next
    case (Suc j)
    let ?b = "b\<lparr>cons_head := cons_head b + 8, cons_tail := cons_head b + 8\<rparr>"
    have "8 \<le> prod_head b - cons_head b" using k Suc by (simp add: numa_used_def word_le_nat_alt)
    then have used: "numa_used ?b = 8 * j"
      using k Suc unat_sub [of 8 "prod_head b - cons_head b"] by (simp add: numa_used_def diff_diff_eq)
    have "(2 :: nat) ^ m dvd 2 ^ 32" using ok(1) by (intro le_imp_power_dvd) simp
    then have "unat (cons_head b + 8) mod ?n = (?c + 8) mod ?n"
      using unat_word_ariths(1) [of "cons_head b" 8] by (simp add: mod_mod_cancel)
    then have "(unat (cons_head b + 8) + 8 * i) mod ?n = (?c + 8 * Suc i) mod ?n" for i
      using mod_add_left_eq [of "unat (cons_head b + 8)" ?n "8 * i"] mod_add_left_eq [of "?c + 8" ?n "8 * i"]
      by (simp add: add.assoc)
    then have "numa_items b = numa_buffer b ! (?c mod ?n) # numa_items ?b"
      using used k Suc ok(2) upt_conv_Cons [of 0 "Suc j"] by (simp add: numa_items_def map_Suc_upt [symmetric] del: upt_Suc)
    moreover have "numa_consume b = (E_SPMC_CIRBUFF_OK, Some (numa_buffer b ! (?c mod ?n)), ?b)"
      using e Suc ok(2) by (simp add: numa_consume_def Let_def)
    moreover have "numa_ok m ?b" using assms used k Suc by (simp add: numa_ok_def)
    ultimately show ?thesis by simp
  qed
qed

section \<open>Properties\<close>

text \<open>
  C18. Exactly-once delivery. Under every interleaving of one producer with any number of consumers, before the
  \<open>2 ^ 32\<close>-th insertion: a consumer that succeeds receives an inserted item, no insertion is delivered twice, every
  insertion below the tail is delivered or claimed by a consumer that is about to return it, and the
  buffer never holds more than its size.
\<close>

theorem spmc_exactly_once:
  assumes "spmc_reach N n b pp cs P R" "0 < N" "N < 2 ^ 32"
  shows "(\<forall>(i, v) \<in> set R. i < length P \<and> v = P ! i) \<and> distinct (map fst R) \<and>
    set (map fst R) \<union> claimed cs = {..<unat (tail b)} \<and> set (map fst R) \<inter> claimed cs = {} \<and>
    unat (tail b) \<le> length P \<and> length P \<le> unat (tail b) + N"
  using spmc_reach_inv [OF assms] by (simp add: spmc_inv_def delivered_ok_def counters_ok_def)

lemma spmc_run:
  "spmc_reach 2 1 \<lparr>head = 1, tail = 0, buffer = [5, dummy_addr]\<rparr> P_idle [C_idle] [5] []"
proof -
  have "spmc_reach 2 1 \<lparr>head = 0, tail = 0, buffer = [dummy_addr, dummy_addr]\<rparr> (P_full 5) [C_idle] [] []"
  proof -
    have two: "replicate 2 x = [x, x]" for x :: u64 by (simp add: numeral_2_eq_2)
    show ?thesis using Call [OF Start [of 2 1], of 5] by (simp add: call_produce_def two dummy_addr_def)
  qed
  from Produce [OF this]
  have "spmc_reach 2 1 \<lparr>head = 0, tail = 0, buffer = [dummy_addr, dummy_addr]\<rparr> (P_slot 5) [C_idle] [] []" by simp
  from Produce [OF this]
  have "spmc_reach 2 1 \<lparr>head = 0, tail = 0, buffer = [dummy_addr, dummy_addr]\<rparr> (P_store 5) [C_idle] [] []" by simp
  from Produce [OF this]
  have "spmc_reach 2 1 \<lparr>head = 0, tail = 0, buffer = [5, dummy_addr]\<rparr> (P_bump 5) [C_idle] [] []" by simp
  from Produce [OF this] show ?thesis by simp
qed

theorem spmc_exactly_once_witness:
  "\<exists>b R. spmc_reach 2 1 b P_idle [C_idle] [5] R \<and> R = [(0, 5)] \<and> (\<forall>(i, v) \<in> set R. i < length [5 :: u64] \<and> v = [5] ! i)"
proof -
  have "spmc_reach 2 1 \<lparr>head = 1, tail = 0, buffer = [5, dummy_addr]\<rparr> P_idle [C_head 0] [5] []"
    using Consume [OF spmc_run, of 0] by simp
  from Consume [OF this, of 0]
  have "spmc_reach 2 1 \<lparr>head = 1, tail = 0, buffer = [5, dummy_addr]\<rparr> P_idle [C_swap 0] [5] []" by simp
  from Consume [OF this, of 0]
  have "spmc_reach 2 1 \<lparr>head = 1, tail = 1, buffer = [5, dummy_addr]\<rparr> P_idle [C_load 0] [5] []" by simp
  from Consume [OF this, of 0]
  have "spmc_reach 2 1 \<lparr>head = 1, tail = 1, buffer = [5, dummy_addr]\<rparr> P_idle [C_clear 0 5] [5] []" by simp
  from Consume [OF this, of 0]
  have r: "spmc_reach 2 1 \<lparr>head = 1, tail = 1, buffer = [dummy_addr, dummy_addr]\<rparr> P_idle [C_idle] [5] [(0, 5)]" by simp
  then show ?thesis using spmc_exactly_once [OF r] by auto
qed

text \<open>
  The \<open>2 ^ 32\<close>-th item. \<^verbatim>\<open>consume\<close> keeps the 64-bit tail in an \<^verbatim>\<open>unsigned\<close>. Taking the last of \<open>2 ^ 32\<close> items
  sets the tail to 0 while the head is \<open>2 ^ 32\<close>; the buffer then counts as not empty, and the next call returns
  the dummy address as an item.
\<close>

theorem spmc_counter_wrap:
  assumes "head b = 2 ^ 32" "tail b = 2 ^ 32 - 1" "length (buffer b) = 2 ^ m" "1 \<le> m" "m \<le> 31" "buffer b ! 0 = dummy_addr"
  shows "\<exists>b1 b2. consume b = (E_SPMC_CIRBUFF_OK, Some (buffer b ! (2 ^ m - 1)), b1) \<and>
    head b1 = 2 ^ 32 \<and> tail b1 = 0 \<and> consume b1 = (E_SPMC_CIRBUFF_OK, Some dummy_addr, b2)"
proof -
  have m: "(1 :: nat) < 2 ^ m" using assms(4) one_less_power [of "2 :: nat" m] by simp
  have "(2 :: nat) ^ m * 2 ^ (32 - m) = 2 ^ 32" using assms(5) by (simp flip: power_add)
  moreover obtain q where "(2 :: nat) ^ (32 - m) = Suc q" by (metis not0_implies_Suc power_not_zero zero_neq_numeral)
  ultimately have "4294967295 = (2 ^ m - 1) + 2 ^ m * q" using m by simp
  then have i: "4294967295 mod 2 ^ m = (2 ^ m - 1 :: nat)" using m by (metis mod_less diff_less less_trans mod_mult_self2 zero_less_one)
  show ?thesis using assms i m by (simp add: consume_def Let_def)
qed

text \<open>
  The NUMA buffer is a first-in first-out queue of \<open>SIZE / 8 - 1\<close> items, also when its 32-bit counters
  wrap around: an insertion appends, or reports a full buffer and changes nothing; a removal takes the first
  item, or reports an empty buffer.
\<close>

theorem numa_spmc_fifo:
  assumes "numa_ok m b" "item \<noteq> 0"
  shows "(if length (numa_items b) < 2 ^ m div 8 - 1
     then \<exists>b'. numa_produce item b = (E_SPMC_CIRBUFF_OK, b') \<and> numa_ok m b' \<and> numa_items b' = numa_items b @ [item]
     else numa_produce item b = (E_SPMC_CIRBUFF_FULL, b)) \<and>
    (case numa_items b of [] \<Rightarrow> numa_consume b = (E_SPMC_CIRBUFF_EMPTY, None, b)
     | x # xs \<Rightarrow> \<exists>b'. numa_consume b = (E_SPMC_CIRBUFF_OK, Some x, b') \<and> numa_ok m b' \<and> numa_items b' = xs)"
  using numa_produce_spec [OF assms] numa_consume_spec [OF assms(1)] by blast

end
