(* ===== verification/XDK_Lockfree_Queue.thy ===== *)
theory XDK_Lockfree_Queue
  imports XDK_Prelude
begin

text \<open>
  The lock-free queue of \<^verbatim>\<open>lib/libexo/exo/lockfree_queue.h\<close> (the algorithm of Michael and Scott) as atomic steps of
  any number of threads over a heap of nodes. It is shown to be a first-in first-out queue under every
  interleaving as long as the allocator does not hand out an address twice and no deleted node is accessed,
  and that \<^verbatim>\<open>pop\<close>, which deletes nodes at once, can make another thread access a deleted node.
\<close>

section \<open>Heap and threads\<close>

text \<open>
  A node is named by its address. \<open>freed\<close> are the deleted nodes, whose access is undefined. The assertions on
  the bits of a pointer (its alignment, and that it is not 0x7fff00000000) hold for every pointer from
  \<^verbatim>\<open>malloc\<close>, and the debug output is left out.
\<close>

record 'a lf_queue =
  Q_Head :: nat
  Q_Tail :: nat
  next_of :: "nat \<Rightarrow> nat option"
  data_of :: "nat \<Rightarrow> 'a"
  freed :: "nat set"

definition Queue :: "(nat \<Rightarrow> 'a) \<Rightarrow> nat \<Rightarrow> 'a lf_queue" where
  "Queue memory node = \<lparr>Q_Head = node, Q_Tail = node, next_of = (\<lambda>_. None), data_of = memory, freed = {}\<rparr>"

text \<open>
  Points between two accesses to shared memory, with the local variables that are read later: first those of
  \<^verbatim>\<open>push\<close>, then those of \<^verbatim>\<open>pop\<close>; \<open>Pop_ret\<close> has the result (\<open>None\<close> for \<^verbatim>\<open>T()\<close> from an empty queue).
\<close>

datatype 'a lf_pc =
    Lf_idle
  | Push_alloc 'a
  | Push_tail nat
  | Push_next nat nat
  | Push_test nat nat "nat option"
  | Push_link nat nat
  | Push_help nat nat nat
  | Push_swing nat nat
  | Pop_head
  | Pop_tail nat
  | Pop_next nat nat
  | Pop_test nat nat "nat option"
  | Pop_help nat nat
  | Pop_data nat nat
  | Pop_take nat nat 'a
  | Pop_free nat 'a
  | Pop_ret "'a option"

definition access :: "'a lf_queue \<Rightarrow> nat \<Rightarrow> 'b outcome \<Rightarrow> 'b outcome" where
  "access q node k = check (node \<notin> freed q) Undefined k"

text \<open>One step of a thread; \<open>a\<close> is the address the allocator returns if the step allocates.\<close>

fun lf_step :: "nat \<Rightarrow> 'a lf_queue \<Rightarrow> 'a lf_pc \<Rightarrow> ('a lf_queue \<times> 'a lf_pc) outcome" where
  "lf_step a q Lf_idle = Inr (q, Lf_idle)"
| "lf_step a q (Push_alloc val) =
     Inr (q\<lparr>data_of := (data_of q)(a := val), next_of := (next_of q)(a := None), freed := freed q - {a}\<rparr>, Push_tail a)"
| "lf_step a q (Push_tail node) = Inr (q, Push_next node (Q_Tail q))"
| "lf_step a q (Push_next node t) = access q t (Inr (q, Push_test node t (next_of q t)))"
| "lf_step a q (Push_test node t nx) =
     (if t = Q_Tail q then
        case nx of None \<Rightarrow> Inr (q, Push_link node t) | Some x \<Rightarrow> Inr (q, Push_help node t x)
      else Inr (q, Push_tail node))"
| "lf_step a q (Push_link node t) =
     access q t
       (if next_of q t = None then Inr (q\<lparr>next_of := (next_of q)(t := Some node)\<rparr>, Push_swing node t)
        else Inr (q, Push_tail node))"
| "lf_step a q (Push_help node t x) = Inr (if Q_Tail q = t then q\<lparr>Q_Tail := x\<rparr> else q, Push_tail node)"
| "lf_step a q (Push_swing node t) = Inr (if Q_Tail q = t then q\<lparr>Q_Tail := node\<rparr> else q, Lf_idle)"
| "lf_step a q Pop_head = Inr (q, Pop_tail (Q_Head q))"
| "lf_step a q (Pop_tail h) = Inr (q, Pop_next h (Q_Tail q))"
| "lf_step a q (Pop_next h t) = access q h (Inr (q, Pop_test h t (next_of q h)))"
| "lf_step a q (Pop_test h t nx) =
     (if h = Q_Head q then
        if h = t then
          case nx of None \<Rightarrow> Inr (q, Pop_ret None) | Some x \<Rightarrow> Inr (q, Pop_help t x)
        else
          case nx of None \<Rightarrow> Inl Assertion | Some x \<Rightarrow> Inr (q, Pop_data h x)
      else Inr (q, Pop_head))"
| "lf_step a q (Pop_help t x) = Inr (if Q_Tail q = t then q\<lparr>Q_Tail := x\<rparr> else q, Pop_head)"
| "lf_step a q (Pop_data h x) = access q x (check (h \<noteq> x) Assertion (Inr (q, Pop_take h x (data_of q x))))"
| "lf_step a q (Pop_take h x res) =
     (if Q_Head q = h then Inr (q\<lparr>Q_Head := x\<rparr>, Pop_free h res) else Inr (q, Pop_head))"
| "lf_step a q (Pop_free h res) = access q h (Inr (q\<lparr>freed := insert h (freed q)\<rparr>, Pop_ret (Some res)))"
| "lf_step a q (Pop_ret r) = Inr (q, Pop_ret r)"

definition empty :: "'a lf_queue \<Rightarrow> bool" where
  "empty q \<longleftrightarrow> Q_Head q = Q_Tail q"

text \<open>\<open>None\<close> inside the outcome when the loop runs past the end of the list.\<close>

partial_function (option) length_loop :: "'a lf_queue \<Rightarrow> nat \<Rightarrow> nat \<Rightarrow> nat outcome option" where
  "length_loop q p s =
     (if p = Q_Tail q then Some (Inr s)
      else if p \<in> freed q then Some (Inl Undefined)
      else case next_of q p of None \<Rightarrow> Some (Inl Null_deref) | Some x \<Rightarrow> length_loop q x (Suc s))"

definition unsafe_length :: "'a lf_queue \<Rightarrow> nat outcome option" where
  "unsafe_length q = length_loop q (Q_Head q) 0"

section \<open>Runs\<close>

text \<open>
  What a step adds to the addresses handed out, to the values linked into the list and to the values taken.
\<close>

definition used_step :: "nat \<Rightarrow> 'a lf_pc \<Rightarrow> nat set \<Rightarrow> nat set" where
  "used_step a p used = (case p of Push_alloc v \<Rightarrow> insert a used | _ \<Rightarrow> used)"

definition pushed_step :: "'a lf_queue \<Rightarrow> 'a lf_pc \<Rightarrow> 'a list \<Rightarrow> 'a list" where
  "pushed_step q p' P = (case p' of Push_swing node t \<Rightarrow> P @ [data_of q node] | _ \<Rightarrow> P)"

definition popped_step :: "'a lf_pc \<Rightarrow> 'a list \<Rightarrow> 'a list" where
  "popped_step p' D = (case p' of Pop_free h res \<Rightarrow> D @ [res] | _ \<Rightarrow> D)"

text \<open>
  The states threads reach that call \<^verbatim>\<open>push\<close> and \<^verbatim>\<open>pop\<close>. \<open>used\<close> are the addresses handed out so far, \<open>P\<close> the values
  linked into the list and \<open>D\<close> the values taken, both in the order of the successful compare-and-swap.
\<close>

inductive lf_reach ::
  "nat \<Rightarrow> (nat \<Rightarrow> 'a) \<Rightarrow> nat \<Rightarrow> 'a lf_queue \<Rightarrow> 'a lf_pc list \<Rightarrow> nat set \<Rightarrow> 'a list \<Rightarrow> 'a list \<Rightarrow> bool" for n memory k where
  Start: "lf_reach n memory k (Queue memory n) (replicate k Lf_idle) {n} [] []"
| Call: "lf_reach n memory k q cs used P D \<Longrightarrow> c < length cs \<Longrightarrow> cs ! c = Lf_idle \<or> cs ! c = Pop_ret r \<Longrightarrow>
    p = Push_alloc v \<or> p = Pop_head \<Longrightarrow> lf_reach n memory k q (cs[c := p]) used P D"
| Step: "lf_reach n memory k q cs used P D \<Longrightarrow> c < length cs \<Longrightarrow> a \<notin> used \<Longrightarrow> lf_step a q (cs ! c) = Inr (q', p') \<Longrightarrow>
    lf_reach n memory k q' (cs[c := p']) (used_step a (cs ! c) used) (pushed_step q p' P) (popped_step p' D)"

text \<open>A run that follows a schedule: calls, and steps with the address the allocator would return.\<close>

datatype 'a lf_move = Do_push nat 'a | Do_pop nat | Do_step nat nat

type_synonym 'a lf_state = "'a lf_queue \<times> 'a lf_pc list \<times> nat set \<times> 'a list \<times> 'a list"

definition lf_callable :: "'a lf_pc \<Rightarrow> bool" where
  "lf_callable p = (case p of Lf_idle \<Rightarrow> True | Pop_ret r \<Rightarrow> True | _ \<Rightarrow> False)"

fun lf_exec :: "'a lf_move list \<Rightarrow> 'a lf_state \<Rightarrow> 'a lf_state option" where
  "lf_exec [] s = Some s"
| "lf_exec (Do_push c v # ms) (q, cs, used, P, D) =
     (if c < length cs \<and> lf_callable (cs ! c) then lf_exec ms (q, cs[c := Push_alloc v], used, P, D) else None)"
| "lf_exec (Do_pop c # ms) (q, cs, used, P, D) =
     (if c < length cs \<and> lf_callable (cs ! c) then lf_exec ms (q, cs[c := Pop_head], used, P, D) else None)"
| "lf_exec (Do_step c a # ms) (q, cs, used, P, D) =
     (if c < length cs \<and> a \<notin> used then
        case lf_step a q (cs ! c) of Inl e \<Rightarrow> None
        | Inr (q', p') \<Rightarrow> lf_exec ms (q', cs[c := p'], used_step a (cs ! c) used, pushed_step q p' P, popped_step p' D)
      else None)"

text \<open>The nodes that follow a node in the list.\<close>

fun linked :: "'a lf_queue \<Rightarrow> nat \<Rightarrow> nat list \<Rightarrow> bool" where
  "linked q p [] = (next_of q p = None)"
| "linked q p (m # ms) = (next_of q p = Some m \<and> linked q m ms)"

section \<open>Invariant\<close>

lemmas ghost_defs = used_step_def pushed_step_def popped_step_def

text \<open>
  \<open>hist\<close> are all nodes that were ever in the list, in the order of their links; the head is its entry \<open>i\<close> and the
  tail its entry \<open>j\<close>. A thread at each point of its code knows the following of them.
\<close>

definition entry :: "'b list \<Rightarrow> nat \<Rightarrow> 'b \<Rightarrow> bool" where
  "entry xs b x \<longleftrightarrow> b < length xs \<and> xs ! b = x"

fun pc_ok :: "nat list \<Rightarrow> nat \<Rightarrow> nat \<Rightarrow> 'a list \<Rightarrow> 'a lf_pc \<Rightarrow> bool" where
  "pc_ok hist i j P (Push_next node t) = (\<exists>b\<le>j. entry hist b t)"
| "pc_ok hist i j P (Push_test node t nx) =
     (\<exists>b\<le>j. entry hist b t \<and> (\<forall>x. nx = Some x \<longrightarrow> entry hist (Suc b) x))"
| "pc_ok hist i j P (Push_link node t) = (\<exists>b\<le>j. entry hist b t)"
| "pc_ok hist i j P (Push_help node t x) = (\<exists>b. entry hist b t \<and> entry hist (Suc b) x)"
| "pc_ok hist i j P (Push_swing node t) = (\<exists>b. entry hist b t \<and> entry hist (Suc b) node)"
| "pc_ok hist i j P (Pop_tail h) = (\<exists>a\<le>i. entry hist a h)"
| "pc_ok hist i j P (Pop_next h t) = (\<exists>a\<le>i. \<exists>b\<le>j. a \<le> b \<and> entry hist a h \<and> entry hist b t)"
| "pc_ok hist i j P (Pop_test h t nx) =
     (\<exists>a\<le>i. \<exists>b\<le>j. a \<le> b \<and> entry hist a h \<and> entry hist b t \<and> (nx = None \<longrightarrow> a = b) \<and>
        (\<forall>x. nx = Some x \<longrightarrow> entry hist (Suc a) x))"
| "pc_ok hist i j P (Pop_help t x) = (\<exists>b. entry hist b t \<and> entry hist (Suc b) x)"
| "pc_ok hist i j P (Pop_data h x) = (\<exists>a\<le>i. Suc a \<le> j \<and> entry hist a h \<and> entry hist (Suc a) x)"
| "pc_ok hist i j P (Pop_take h x res) =
     (\<exists>a\<le>i. Suc a \<le> j \<and> entry hist a h \<and> entry hist (Suc a) x \<and> entry P a res)"
| "pc_ok hist i j P (Pop_free h res) = (\<exists>a<i. entry hist a h)"
| "pc_ok hist i j P _ = True"

text \<open>The node a \<^verbatim>\<open>push\<close> has allocated and not yet linked.\<close>

fun own :: "'a lf_pc \<Rightarrow> nat option" where
  "own (Push_tail node) = Some node"
| "own (Push_next node t) = Some node"
| "own (Push_test node t nx) = Some node"
| "own (Push_link node t) = Some node"
| "own (Push_help node t x) = Some node"
| "own _ = None"

definition heap_ok :: "'a lf_queue \<Rightarrow> nat set \<Rightarrow> 'a list \<Rightarrow> 'a list \<Rightarrow> nat list \<Rightarrow> nat \<Rightarrow> nat \<Rightarrow> bool" where
  "heap_ok q used P D hist i j \<longleftrightarrow>
     distinct hist \<and> set hist \<subseteq> used \<and> i \<le> j \<and> j < length hist \<and> length hist = Suc (length P) \<and>
     Q_Head q = hist ! i \<and> Q_Tail q = hist ! j \<and>
     (\<forall>m. Suc m < length hist \<longrightarrow> next_of q (hist ! m) = Some (hist ! Suc m)) \<and> next_of q (hist ! length P) = None \<and>
     (\<forall>m<length P. data_of q (hist ! Suc m) = P ! m) \<and> D = take i P \<and> freed q \<subseteq> set (take i hist)"

definition threads_ok :: "'a lf_queue \<Rightarrow> 'a lf_pc list \<Rightarrow> nat set \<Rightarrow> 'a list \<Rightarrow> nat list \<Rightarrow> nat \<Rightarrow> nat \<Rightarrow> bool" where
  "threads_ok q cs used P hist i j \<longleftrightarrow>
     (\<forall>c<length cs. pc_ok hist i j P (cs ! c)) \<and>
     (\<forall>c<length cs. \<forall>m. own (cs ! c) = Some m \<longrightarrow> m \<in> used - set hist \<and> next_of q m = None) \<and>
     (\<forall>c<length cs. \<forall>c'<length cs. own (cs ! c) \<noteq> None \<longrightarrow> own (cs ! c) = own (cs ! c') \<longrightarrow> c = c')"

text \<open>The tail is the last node, or the one before it while the thread that linked the last is about to move it.\<close>

definition tail_ok :: "'a lf_pc list \<Rightarrow> nat list \<Rightarrow> nat \<Rightarrow> bool" where
  "tail_ok cs hist j \<longleftrightarrow>
     Suc j = length hist \<or>
     Suc (Suc j) = length hist \<and> (\<exists>c<length cs. cs ! c = Push_swing (hist ! Suc j) (hist ! j))"

definition lf_inv ::
  "'a lf_queue \<Rightarrow> 'a lf_pc list \<Rightarrow> nat set \<Rightarrow> 'a list \<Rightarrow> 'a list \<Rightarrow> nat list \<Rightarrow> nat \<Rightarrow> nat \<Rightarrow> bool" where
  "lf_inv q cs used P D hist i j \<longleftrightarrow>
     heap_ok q used P D hist i j \<and> threads_ok q cs used P hist i j \<and> tail_ok cs hist j"

definition lf_ok :: "'a lf_queue \<Rightarrow> 'a lf_pc list \<Rightarrow> nat set \<Rightarrow> 'a list \<Rightarrow> 'a list \<Rightarrow> bool" where
  "lf_ok q cs used P D \<longleftrightarrow> (\<exists>hist i j. lf_inv q cs used P D hist i j)"

lemma lf_okI: "lf_inv q cs used P D hist i j \<Longrightarrow> lf_ok q cs used P D"
  unfolding lf_ok_def by blast

lemma entry_append [intro]: "entry xs b x \<Longrightarrow> entry (xs @ ys) b x"
  unfolding entry_def by (simp add: nth_append)

lemma pc_ok_mono:
  assumes "pc_ok hist i j P p" "i \<le> i'" "j \<le> j'"
  shows "pc_ok (hist @ xs) i' j' (P @ ys) p"
proof -
  have le: "\<And>a. a \<le> i \<Longrightarrow> a \<le> i'" "\<And>a. a < i \<Longrightarrow> a < i'" "\<And>b. b \<le> j \<Longrightarrow> b \<le> j'"
    using assms(2,3) by simp_all
  show ?thesis
    using assms(1) by (cases p; simp only: pc_ok.simps) (use le in \<open>blast intro: entry_append\<close>)+
qed

lemma threads_pc: "threads_ok q cs used P hist i j \<Longrightarrow> c < length cs \<Longrightarrow> pc_ok hist i j P (cs ! c)"
  unfolding threads_ok_def by blast

lemma lf_threads_same:
  assumes "threads_ok q cs used P hist i j" "c < length cs" "pc_ok hist i j P p'"
    "own p' = None \<or> own p' = own (cs ! c)"
  shows "threads_ok q (cs[c := p']) used P hist i j"
  using assms unfolding threads_ok_def by (auto simp: nth_list_update) metis+

lemma lf_threads_mono:
  assumes "threads_ok q cs used P hist i j" "heap_ok q used P D hist i j" "i \<le> i'" "j \<le> j'" "next_of q' = next_of q"
  shows "threads_ok q' cs used P hist i' j'"
proof -
  have "pc_ok hist i' j' P (cs ! c)" if "c < length cs" for c
    using pc_ok_mono [of hist i j P "cs ! c" i' j' "[]" "[]"] that assms unfolding threads_ok_def heap_ok_def by simp
  then show ?thesis
    using assms(1,5) unfolding threads_ok_def by metis
qed

lemma lf_index:
  assumes "heap_ok q used P D hist i j" "a < length hist"
  shows "hist ! a = Q_Head q \<longleftrightarrow> a = i" "hist ! a = Q_Tail q \<longleftrightarrow> a = j"
  using assms unfolding heap_ok_def by (auto simp: nth_eq_iff_index_eq)

lemma tail_ok_same:
  assumes "tail_ok cs hist j" "c < length cs" "\<And>b t. cs ! c \<noteq> Push_swing b t"
  shows "tail_ok (cs[c := p']) hist j"
  using assms unfolding tail_ok_def by (metis length_list_update nth_list_update_neq)

text \<open>A step that changes only its own point keeps the invariant.\<close>

lemma lf_inv_same:
  assumes "lf_inv q cs used P D hist i j" "c < length cs" "\<And>b t. cs ! c \<noteq> Push_swing b t" "pc_ok hist i j P p'"
    "own p' = None \<or> own p' = own (cs ! c)"
  shows "lf_inv q (cs[c := p']) used P D hist i j"
  using assms lf_threads_same tail_ok_same unfolding lf_inv_def by blast

lemma entry_head: "heap_ok q used P D hist i j \<Longrightarrow> entry hist i (Q_Head q)"
  and entry_tail: "heap_ok q used P D hist i j \<Longrightarrow> entry hist j (Q_Tail q)"
  unfolding heap_ok_def entry_def by auto

lemma entry_index: "heap_ok q used P D hist i j \<Longrightarrow> entry hist a x \<Longrightarrow> entry hist b x \<Longrightarrow> a = b"
  unfolding heap_ok_def entry_def by (metis nth_eq_iff_index_eq)

lemma entry_next: "heap_ok q used P D hist i j \<Longrightarrow> entry hist b t \<Longrightarrow> next_of q t = Some x \<Longrightarrow> entry hist (Suc b) x"
  unfolding heap_ok_def entry_def by (metis Suc_lessI diff_Suc_1 not_None_eq option.inject)

lemma entry_last: "heap_ok q used P D hist i j \<Longrightarrow> entry hist b t \<Longrightarrow> next_of q t = None \<Longrightarrow> Suc b = length hist"
  unfolding heap_ok_def entry_def by (metis Suc_lessI option.distinct(1))

text \<open>Allocation of a node.\<close>

lemma lf_inv_alloc:
  assumes inv: "lf_inv q cs used P D hist i j" and c: "c < length cs" "cs ! c = Push_alloc v" and a: "a \<notin> used"
  shows "lf_inv (q\<lparr>data_of := (data_of q)(a := v), next_of := (next_of q)(a := None), freed := freed q - {a}\<rparr>)
    (cs[c := Push_tail a]) (insert a used) P D hist i j"
proof -
  have h: "heap_ok q used P D hist i j" and t: "threads_ok q cs used P hist i j" and "tail_ok cs hist j"
    using inv unfolding lf_inv_def by auto
  then have tail: "tail_ok (cs[c := Push_tail a]) hist j"
    using tail_ok_same c by fastforce
  have new: "hist ! m \<noteq> a" if "m < length hist" for m
    using h a that unfolding heap_ok_def by (metis nth_mem subsetD)
  have heap: "heap_ok (q\<lparr>data_of := (data_of q)(a := v), next_of := (next_of q)(a := None), freed := freed q - {a}\<rparr>)
    (insert a used) P D hist i j"
    using h new unfolding heap_ok_def by auto
  have old: "own (cs ! d) \<noteq> Some a" if "d < length cs" for d
    using t a that unfolding threads_ok_def by blast
  have "threads_ok (q\<lparr>data_of := (data_of q)(a := v), next_of := (next_of q)(a := None), freed := freed q - {a}\<rparr>)
    (cs[c := Push_tail a]) (insert a used) P hist i j"
    using t c old h a unfolding threads_ok_def heap_ok_def by (auto simp: nth_list_update)
  then show ?thesis
    using heap tail unfolding lf_inv_def by simp
qed

text \<open>The tail moves to the next node, by the thread that linked it or another.\<close>

lemma lf_inv_tail:
  assumes inv: "lf_inv q cs used P D hist i j" and c: "c < length cs" and e: "entry hist b t" "entry hist (Suc b) x"
    and p: "pc_ok hist i (Suc j) P p'" "own p' = None \<or> own p' = own (cs ! c)"
    and s: "Q_Tail q \<noteq> t \<Longrightarrow> cs ! c = Push_swing x t \<or> (\<forall>y z. cs ! c \<noteq> Push_swing y z)"
    and m: "pc_ok hist i j P p'"
  shows "lf_ok (if Q_Tail q = t then q\<lparr>Q_Tail := x\<rparr> else q) (cs[c := p']) used P D"
proof -
  have h: "heap_ok q used P D hist i j" and t: "threads_ok q cs used P hist i j" and tail: "tail_ok cs hist j"
    using inv unfolding lf_inv_def by auto
  show ?thesis
  proof (cases "Q_Tail q = t")
    case True
    then have [simp]: "b = j"
      using entry_index [OF h] entry_tail [OF h] e by blast
    have "heap_ok (q\<lparr>Q_Tail := x\<rparr>) used P D hist i (Suc j)"
      using h e unfolding heap_ok_def entry_def by simp
    moreover have "threads_ok (q\<lparr>Q_Tail := x\<rparr>) (cs[c := p']) used P hist i (Suc j)"
      using lf_threads_mono [OF t h, of i "Suc j" "q\<lparr>Q_Tail := x\<rparr>"] lf_threads_same c p by force
    moreover have "tail_ok (cs[c := p']) hist (Suc j)"
      using tail e unfolding tail_ok_def entry_def by auto
    ultimately show ?thesis
      using True lf_okI unfolding lf_inv_def by fastforce
  next
    case False
    have "tail_ok (cs[c := p']) hist j"
    proof (cases "\<forall>y z. cs ! c \<noteq> Push_swing y z")
      case True
      then show ?thesis
        using tail_ok_same tail c by blast
    next
      case swing: False
      then have "cs ! c = Push_swing x t"
        using s False by blast
      moreover have "hist ! j \<noteq> t"
        using False entry_tail [OF h] unfolding entry_def by auto
      ultimately show ?thesis
        using tail c unfolding tail_ok_def by (metis length_list_update lf_pc.inject(7) nth_list_update_neq)
    qed
    then show ?thesis
      using False h lf_threads_same [OF t c m p(2)] lf_okI unfolding lf_inv_def by fastforce
  qed
qed

text \<open>The node of a \<^verbatim>\<open>push\<close> is linked behind the last one.\<close>

lemma lf_inv_link:
  assumes inv: "lf_inv q cs used P D hist i j" and c: "c < length cs" "cs ! c = Push_link node t"
    and nx: "next_of q t = None"
  shows "lf_inv (q\<lparr>next_of := (next_of q)(t := Some node)\<rparr>) (cs[c := Push_swing node t]) used
    (P @ [data_of q node]) D (hist @ [node]) i j"
proof -
  have h: "heap_ok q used P D hist i j" and th: "threads_ok q cs used P hist i j"
    using inv unfolding lf_inv_def by auto
  obtain b where b: "b \<le> j" "entry hist b t"
    using threads_pc [OF th c(1)] c(2) by auto
  then have last: "Suc b = length hist"
    using entry_last [OF h _ nx] by blast
  then have j [simp]: "j = b" and P: "length P = b"
    using b h unfolding heap_ok_def by auto
  have node: "node \<in> used" "node \<notin> set hist" "next_of q node = None"
    using th c unfolding threads_ok_def by (metis DiffD1 own.simps(4), metis DiffD2 own.simps(4), metis own.simps(4))
  have t: "t = hist ! b" "t \<in> set hist"
    using b unfolding entry_def by auto
  have old: "hist ! m \<noteq> t" if "m < b" for m
    using h that last t unfolding heap_ok_def by (metis Suc_lessD Suc_lessI less_irrefl nth_eq_iff_index_eq lessI less_trans)
  have heap: "heap_ok (q\<lparr>next_of := (next_of q)(t := Some node)\<rparr>) used (P @ [data_of q node]) D (hist @ [node]) i j"
    using h node last P t old unfolding heap_ok_def
    by (auto simp: nth_append less_Suc_eq) (metis Suc_inject)
  have tail: "tail_ok (cs[c := Push_swing node t]) (hist @ [node]) j"
    using last t c unfolding tail_ok_def by (auto simp: nth_append intro!: exI [of _ c])
  have pcs: "pc_ok (hist @ [node]) i j (P @ [data_of q node]) (cs ! d)" if "d < length cs" for d
    using pc_ok_mono th that unfolding threads_ok_def by blast
  have mine: "pc_ok (hist @ [node]) i j (P @ [data_of q node]) (Push_swing node t)"
    using last t by (auto simp: entry_def nth_append intro!: exI [of _ b])
  have others: "m \<noteq> node \<and> m \<in> used - set hist \<and> next_of q m = None" if "d < length cs" "d \<noteq> c" "own (cs ! d) = Some m" for d m
    using th c that unfolding threads_ok_def by (metis option.distinct(1) own.simps(4))
  have one: "d = d'" if "d < length cs" "d' < length cs" "own (cs ! d) = Some m" "own (cs ! d') = Some m" for d d' m
    using th that unfolding threads_ok_def by (metis option.distinct(1))
  have "threads_ok (q\<lparr>next_of := (next_of q)(t := Some node)\<rparr>) (cs[c := Push_swing node t]) used
    (P @ [data_of q node]) (hist @ [node]) i j"
    unfolding threads_ok_def
  proof (intro conjI allI impI)
    fix d assume "d < length (cs[c := Push_swing node t])"
    then show "pc_ok (hist @ [node]) i j (P @ [data_of q node]) (cs[c := Push_swing node t] ! d)"
      using pcs mine by (cases "d = c") auto
  next
    fix d m assume "d < length (cs[c := Push_swing node t])" "own (cs[c := Push_swing node t] ! d) = Some m"
    then have "m \<noteq> node \<and> m \<in> used - set hist \<and> next_of q m = None"
      using others by (cases "d = c") auto
    then show "m \<in> used - set (hist @ [node])" "next_of (q\<lparr>next_of := (next_of q)(t := Some node)\<rparr>) m = None"
      using t by auto
  next
    fix d d' assume "d < length (cs[c := Push_swing node t])" "d' < length (cs[c := Push_swing node t])"
      "own (cs[c := Push_swing node t] ! d) \<noteq> None"
      "own (cs[c := Push_swing node t] ! d) = own (cs[c := Push_swing node t] ! d')"
    then show "d = d'"
      using one by (cases "d = c"; cases "d' = c") auto
  qed
  then show ?thesis
    using heap tail unfolding lf_inv_def by simp
qed

text \<open>The head moves to the next node, and a deleted node is behind the head.\<close>

lemma lf_inv_head:
  assumes inv: "lf_inv q cs used P D hist i j" and c: "c < length cs" "cs ! c = Pop_take h x res" and "Q_Head q = h"
  shows "lf_inv (q\<lparr>Q_Head := x\<rparr>) (cs[c := Pop_free h res]) used P (D @ [res]) hist (Suc i) j"
proof -
  have hp: "heap_ok q used P D hist i j" and th: "threads_ok q cs used P hist i j" and tail: "tail_ok cs hist j"
    using inv unfolding lf_inv_def by auto
  obtain a where a: "Suc a \<le> j" "entry hist a h" "entry hist (Suc a) x" "entry P a res"
    using threads_pc [OF th c(1)] c(2) by auto
  then have [simp]: "a = i"
    using entry_index [OF hp] entry_head [OF hp] assms(4) by blast
  have "heap_ok (q\<lparr>Q_Head := x\<rparr>) used P (D @ [res]) hist (Suc i) j"
    using hp a unfolding heap_ok_def entry_def by (auto simp: take_Suc_conv_app_nth)
  moreover have "threads_ok (q\<lparr>Q_Head := x\<rparr>) (cs[c := Pop_free h res]) used P hist (Suc i) j"
    by (rule lf_threads_same [OF lf_threads_mono [OF th hp]]) (use c a in auto)
  ultimately show ?thesis
    using tail_ok_same [OF tail] c unfolding lf_inv_def by simp
qed

lemma lf_inv_free:
  assumes inv: "lf_inv q cs used P D hist i j" and c: "c < length cs" "cs ! c = Pop_free h res"
  shows "lf_inv (q\<lparr>freed := insert h (freed q)\<rparr>) (cs[c := Pop_ret (Some res)]) used P D hist i j"
proof -
  have hp: "heap_ok q used P D hist i j" and th: "threads_ok q cs used P hist i j" and tail: "tail_ok cs hist j"
    using inv unfolding lf_inv_def by auto
  obtain a where "a < i" "entry hist a h"
    using threads_pc [OF th c(1)] c(2) by auto
  then have "h \<in> set (take i hist)"
    unfolding entry_def by (auto simp: in_set_conv_nth intro!: exI [of _ a])
  then have "heap_ok (q\<lparr>freed := insert h (freed q)\<rparr>) used P D hist i j"
    using hp unfolding heap_ok_def by simp
  moreover have "threads_ok (q\<lparr>freed := insert h (freed q)\<rparr>) (cs[c := Pop_ret (Some res)]) used P hist i j"
    by (rule lf_threads_same [OF lf_threads_mono [OF th hp]]) (use c in auto)
  ultimately show ?thesis
    using tail_ok_same [OF tail] c unfolding lf_inv_def by simp
qed

text \<open>The points whose step only reads.\<close>

fun reads :: "'a lf_pc \<Rightarrow> bool" where
  "reads (Push_alloc v) = False"
| "reads (Push_link node t) = False"
| "reads (Push_help node t x) = False"
| "reads (Push_swing node t) = False"
| "reads (Pop_help t x) = False"
| "reads (Pop_take h x res) = False"
| "reads (Pop_free h res) = False"
| "reads _ = True"

lemma lf_step_reads:
  assumes "heap_ok q used P D hist i j" "pc_ok hist i j P p" "reads p" "lf_step a q p = Inr (q', p')"
  shows "q' = q \<and> pc_ok hist i j P p' \<and> (own p' = None \<or> own p' = own p) \<and>
    used_step a p used = used \<and> pushed_step q p' P = P \<and> popped_step p' D = D \<and> (\<forall>b t. p \<noteq> Push_swing b t)"
proof (cases p)
  case (Pop_next h t)
  then obtain y b where y: "y \<le> i" "b \<le> j" "y \<le> b" "entry hist y h" "entry hist b t"
    using assms(2) by auto
  have "next_of q h = None \<longrightarrow> y = b"
    using entry_last [OF assms(1) y(4)] y unfolding entry_def by fastforce
  then have "pc_ok hist i j P (Pop_test h t (next_of q h))"
    using y entry_next [OF assms(1) y(4)] unfolding pc_ok.simps by (intro exI conjI allI impI) auto
  then show ?thesis
    using assms(4) Pop_next by (auto simp: access_def check_eq_Inr ghost_defs simp del: pc_ok.simps)
next
  case (Pop_tail h)
  then obtain y where "y \<le> i" "entry hist y h"
    using assms(2) by auto
  moreover have "i \<le> j"
    using assms(1) unfolding heap_ok_def by simp
  ultimately have "pc_ok hist i j P (Pop_next h (Q_Tail q))"
    using entry_tail [OF assms(1)] unfolding pc_ok.simps by (meson le_refl le_trans)
  then show ?thesis
    using assms(4) Pop_tail by (auto simp: ghost_defs simp del: pc_ok.simps)
next
  case (Pop_test h t nx)
  then obtain y b where y: "y \<le> i" "b \<le> j" "y \<le> b" "entry hist y h" "entry hist b t" "nx = None \<longrightarrow> y = b"
    "\<And>x. nx = Some x \<Longrightarrow> entry hist (Suc y) x"
    using assms(2) by auto
  have "Suc y \<le> j" if "h \<noteq> t"
    using that y unfolding entry_def by (metis Suc_leI le_neq_implies_less le_trans)
  then show ?thesis
    using assms(4) Pop_test y by (auto simp: ghost_defs split: if_splits option.splits)
next
  case (Push_next node t)
  then have "pc_ok hist i j P (Push_test node t (next_of q t))"
    using assms(2) entry_next [OF assms(1)] unfolding Push_next pc_ok.simps by blast
  then show ?thesis
    using assms(4) Push_next by (auto simp: access_def check_eq_Inr ghost_defs simp del: pc_ok.simps)
next
  case (Pop_data h x)
  then obtain y where y: "y \<le> i" "Suc y \<le> j" "entry hist y h" "entry hist (Suc y) x"
    using assms(2) by auto
  then have "entry P y (data_of q x)"
    using assms(1) unfolding heap_ok_def entry_def by auto
  then show ?thesis
    using assms(4) Pop_data y by (auto simp: access_def check_eq_Inr ghost_defs)
qed (use assms entry_head [OF assms(1)] entry_tail [OF assms(1)] in
    \<open>auto simp: access_def check_eq_Inr ghost_defs split: if_splits option.splits\<close>)

lemma lf_inv_step:
  assumes inv: "lf_inv q cs used P D hist i j" and c: "c < length cs" and a: "a \<notin> used"
    and step: "lf_step a q (cs ! c) = Inr (q', p')"
  shows "lf_ok q' (cs[c := p']) (used_step a (cs ! c) used) (pushed_step q p' P) (popped_step p' D)"
proof -
  have h: "heap_ok q used P D hist i j" and th: "threads_ok q cs used P hist i j"
    using inv unfolding lf_inv_def by auto
  note pc = threads_pc [OF th c]
  show ?thesis
  proof (cases "reads (cs ! c)")
    case True
    then show ?thesis
      using lf_step_reads [OF h pc True step] lf_okI [OF lf_inv_same [OF inv c]] by metis
  next
    case False
    then show ?thesis
    proof (cases "cs ! c")
      case (Push_alloc v)
      then show ?thesis
        using lf_okI [OF lf_inv_alloc [OF inv c Push_alloc a]] step by (auto simp: ghost_defs)
    next
      case (Push_link node t)
      then show ?thesis
        using lf_okI [OF lf_inv_link [OF inv c Push_link]] lf_okI [OF lf_inv_same [OF inv c, of "Push_tail node"]] step
        by (cases "next_of q t = None") (auto simp: ghost_defs access_def check_eq_Inr)
    next
      case (Push_help node t x)
      then show ?thesis
        using lf_inv_tail [OF inv c, of _ t x "Push_tail node"] pc step by (auto simp: ghost_defs)
    next
      case (Push_swing node t)
      then show ?thesis
        using lf_inv_tail [OF inv c, of _ t node Lf_idle] pc step by (auto simp: ghost_defs)
    next
      case (Pop_help t x)
      then show ?thesis
        using lf_inv_tail [OF inv c, of _ t x Pop_head] pc step by (auto simp: ghost_defs)
    next
      case (Pop_take hd x res)
      then show ?thesis
        using lf_okI [OF lf_inv_head [OF inv c Pop_take]] lf_okI [OF lf_inv_same [OF inv c, of Pop_head]] step
        by (auto simp: ghost_defs split: if_splits)
    next
      case (Pop_free hd res)
      then show ?thesis
        using lf_okI [OF lf_inv_free [OF inv c Pop_free]] step by (auto simp: ghost_defs access_def check_eq_Inr)
    qed auto
  qed
qed

lemma lf_reach_ok: "lf_reach n memory k q cs used P D \<Longrightarrow> lf_ok q cs used P D"
proof (induction rule: lf_reach.induct)
  case Start
  have "lf_inv (Queue memory n) (replicate k Lf_idle) {n} [] [] [n] 0 0"
    by (simp add: lf_inv_def heap_ok_def threads_ok_def tail_ok_def Queue_def)
  then show ?case
    by (rule lf_okI)
next
  case (Call q cs used P D c r p v)
  then obtain hist i j where inv: "lf_inv q cs used P D hist i j"
    unfolding lf_ok_def by blast
  have "own p = None" "pc_ok hist i j P p" "\<And>b t. cs ! c \<noteq> Push_swing b t"
    using Call(3,4) by auto
  then show ?case
    using lf_okI [OF lf_inv_same [OF inv Call(2)]] by blast
next
  case (Step q cs used P D c a q' p')
  then show ?case
    using lf_inv_step unfolding lf_ok_def by meson
qed

lemma lf_exec_reach:
  "lf_exec ms (q, cs, used, P, D) = Some (q', cs', used', P', D') \<Longrightarrow> lf_reach n memory k q cs used P D \<Longrightarrow>
     lf_reach n memory k q' cs' used' P' D'"
proof (induction ms "(q, cs, used, P, D)" arbitrary: q cs used P D rule: lf_exec.induct)
  case (2 c v ms q cs used P D)
  then show ?case
    by (auto simp: lf_callable_def split: if_splits lf_pc.splits intro!: lf_reach.Call)
next
  case (3 c ms q cs used P D)
  then show ?case
    by (auto simp: lf_callable_def split: if_splits lf_pc.splits intro!: lf_reach.Call)
next
  case (4 c a ms q cs used P D)
  then show ?case
    using lf_reach.Step [OF 4(3)] by (fastforce split: if_splits sum.splits)
qed auto

lemma linked_drop:
  assumes "heap_ok q used P D hist i j" "m < length hist"
  shows "linked q (hist ! m) (drop (Suc m) hist)"
  using assms(2)
proof (induction "length hist - m" arbitrary: m)
  case (Suc d)
  show ?case
  proof (cases "Suc m < length hist")
    case True
    then have "drop (Suc m) hist = hist ! Suc m # drop (Suc (Suc m)) hist"
      by (simp add: Cons_nth_drop_Suc)
    then show ?thesis
      using Suc(1) [of "Suc m"] Suc(2) True assms(1) unfolding heap_ok_def by simp
  next
    case False
    then have "m = length P" "drop (Suc m) hist = []"
      using Suc(3) assms(1) unfolding heap_ok_def by auto
    then show ?thesis
      using assms(1) unfolding heap_ok_def by simp
  qed
qed simp

lemma length_loop_drop:
  assumes "heap_ok q used P D hist i j" "i \<le> m" "m \<le> j"
  shows "length_loop q (hist ! m) s = Some (Inr (s + (j - m)))"
  using assms(2,3)
proof (induction "j - m" arbitrary: m s)
  case 0
  then show ?case
    using assms(1) unfolding heap_ok_def by (simp add: length_loop.simps)
next
  case (Suc d)
  have "m < length hist"
    using Suc assms(1) unfolding heap_ok_def by simp
  then have "hist ! m \<noteq> Q_Tail q"
    using lf_index(2) [OF assms(1)] Suc(2) by simp
  moreover have "hist ! m \<notin> freed q"
  proof
    assume "hist ! m \<in> freed q"
    then obtain l where "l < i" "hist ! l = hist ! m" "l < length hist"
      using assms(1) unfolding heap_ok_def by (auto simp: in_set_conv_nth dest!: subsetD)
    then show False
      using assms(1) Suc(3) \<open>m < length hist\<close> unfolding heap_ok_def by (auto simp: nth_eq_iff_index_eq)
  qed
  moreover have "next_of q (hist ! m) = Some (hist ! Suc m)"
  proof -
    have "Suc m < length hist"
      using assms(1) Suc(2) unfolding heap_ok_def by linarith
    then show ?thesis
      using assms(1) unfolding heap_ok_def by blast
  qed
  ultimately show ?case
    using Suc(1) [of "Suc m" "Suc s"] Suc(2,3) by (simp add: length_loop.simps)
qed

lemma heap_contents:
  assumes "heap_ok q used P D hist i j"
  shows "linked q (Q_Head q) (drop (Suc i) hist)" "P = D @ map (data_of q) (drop (Suc i) hist)"
proof -
  show "linked q (Q_Head q) (drop (Suc i) hist)"
    using linked_drop [OF assms, of i] assms unfolding heap_ok_def by simp
  have "drop i P = map (data_of q) (drop (Suc i) hist)"
    using assms unfolding heap_ok_def by (intro nth_equalityI) auto
  then show "P = D @ map (data_of q) (drop (Suc i) hist)"
    using assms unfolding heap_ok_def by (metis append_take_drop_id)
qed

lemma heap_popped: "heap_ok q used P D hist i j \<Longrightarrow> length D = i \<and> length P = length hist - 1"
  unfolding heap_ok_def by auto

lemma heap_null_next:
  assumes "heap_ok q used P D hist i j" "pc_ok hist i j P (Pop_next h t)" "next_of q h = None"
  shows "P = D"
proof -
  obtain a where "a \<le> i" "entry hist a h"
    using assms(2) by auto
  then have "Suc i = length hist"
    using entry_last [OF assms(1) _ assms(3)] assms(1) unfolding heap_ok_def by fastforce
  then show ?thesis
    using assms(1) unfolding heap_ok_def by simp
qed

lemma heap_quiet:
  assumes "heap_ok q used P D hist i j" "tail_ok cs hist j" "\<forall>c<length cs. \<forall>m t. cs ! c \<noteq> Push_swing m t"
  shows "empty q \<longleftrightarrow> P = D" "unsafe_length q = Some (Inr (length P - length D))"
proof -
  have j: "Suc j = length hist"
    using assms(2,3) unfolding tail_ok_def by blast
  have "empty q \<longleftrightarrow> i = j"
    using lf_index(2) [OF assms(1), of i] assms(1) unfolding empty_def heap_ok_def by auto
  also have "\<dots> \<longleftrightarrow> P = D"
    using j assms(1) unfolding heap_ok_def by (metis diff_Suc_1 le_antisym length_take min.absorb2 order_refl take_all)
  finally show "empty q \<longleftrightarrow> P = D" .
  have "i \<le> j" "Q_Head q = hist ! i"
    using assms(1) unfolding heap_ok_def by auto
  then show "unsafe_length q = Some (Inr (length P - length D))"
    using length_loop_drop [OF assms(1), of i 0] heap_popped [OF assms(1)] j unfolding unsafe_length_def by simp
qed

lemma lf_step_faults:
  assumes "lf_inv q cs used P D hist i j" "c < length cs" "lf_step a q (cs ! c) = Inl e"
  shows "e = Undefined"
proof -
  have h: "heap_ok q used P D hist i j" and pc: "pc_ok hist i j P (cs ! c)"
    using assms(1) threads_pc [OF _ assms(2)] unfolding lf_inv_def by auto
  have "h \<noteq> x" if "entry hist b h" "entry hist (Suc b) x" for b h x
    using entry_index [OF h] that by (metis n_not_Suc_n)
  moreover have "h = t" if "entry hist b h" "entry hist b t" for b h t
    using that unfolding entry_def by simp
  ultimately show ?thesis
    using assms(3) pc by (cases "cs ! c") (auto simp: access_def check_eq_Inl split: if_splits option.splits)
qed

text \<open>
  C19. Any number of threads push and pop in any interleaving, and the allocator does not return an address twice.
  Then at every moment the list from the head holds exactly the values pushed and not yet popped, in the order of
  the pushes; a \<^verbatim>\<open>pop\<close> that finds a null link does so when the queue is empty; unless a push is between its two
  compare-and-swaps, \<^verbatim>\<open>empty\<close> and \<^verbatim>\<open>unsafe_length\<close> are exact; and no assertion fails: a step has a fault only by
  an access to a deleted node.
\<close>

theorem lockfree_fifo:
  assumes "lf_reach n memory k q cs used P D"
  shows "(\<exists>ns. linked q (Q_Head q) ns \<and> P = D @ map (data_of q) ns) \<and>
    (\<forall>c h t. c < length cs \<longrightarrow> cs ! c = Pop_next h t \<longrightarrow> next_of q h = None \<longrightarrow> P = D) \<and>
    ((\<forall>c<length cs. \<forall>m t. cs ! c \<noteq> Push_swing m t) \<longrightarrow>
       (empty q \<longleftrightarrow> P = D) \<and> unsafe_length q = Some (Inr (length P - length D))) \<and>
    (\<forall>c a e. c < length cs \<longrightarrow> lf_step a q (cs ! c) = Inl e \<longrightarrow> e = Undefined)"
proof -
  obtain hist i j where inv: "lf_inv q cs used P D hist i j"
    using lf_reach_ok [OF assms] unfolding lf_ok_def by blast
  then have h: "heap_ok q used P D hist i j" and th: "threads_ok q cs used P hist i j" and tail: "tail_ok cs hist j"
    unfolding lf_inv_def by auto
  have "P = D" if "c < length cs" "cs ! c = Pop_next h' t" "next_of q h' = None" for c h' t
    using heap_null_next [OF h _ that(3)] threads_pc [OF th that(1)] that(2) by metis
  then show ?thesis
    using heap_contents [OF h] heap_quiet [OF h tail] lf_step_faults [OF inv] by blast
qed

text \<open>Thread 0 pushes 7 onto a new queue; then thread 1 starts to pop, and thread 0 pops and deletes the old head.\<close>

definition push_moves :: "nat lf_move list" where
  "push_moves = [Do_push 0 7, Do_step 0 1, Do_step 0 2, Do_step 0 2, Do_step 0 2, Do_step 0 2, Do_step 0 2]"

definition race_moves :: "nat lf_move list" where
  "race_moves = push_moves @ [Do_pop 1, Do_step 1 2, Do_step 1 2, Do_pop 0, Do_step 0 2, Do_step 0 2, Do_step 0 2,
     Do_step 0 2, Do_step 0 2, Do_step 0 2, Do_step 0 2]"

definition start :: "nat lf_state" where
  "start = (Queue (\<lambda>_. 0) 0, [Lf_idle, Lf_idle], {0}, [], [])"

lemmas lf_eval = start_def push_moves_def race_moves_def Queue_def lf_callable_def access_def ghost_defs

lemma start_exec: "lf_exec ms start = Some (q, cs, used, P, D) \<Longrightarrow> lf_reach 0 (\<lambda>_. 0) 2 q cs used P D"
  unfolding start_def using lf_reach.Start [of 0 "\<lambda>_. 0" 2]
  by (auto intro: lf_exec_reach simp: numeral_2_eq_2)

definition push_state :: "nat lf_queue" where
  "push_state = \<lparr>Q_Head = 0, Q_Tail = 1, next_of = (\<lambda>_. None)(1 := None, 0 := Some 1), data_of = (\<lambda>_. 0)(1 := 7), freed = {}\<rparr>"

theorem lockfree_fifo_witness:
  "(\<exists>ns. linked push_state 0 ns \<and> [7] = map (data_of push_state) ns) \<and> \<not> empty push_state \<and>
    unsafe_length push_state = Some (Inr 1)"
proof -
  have "lf_reach 0 (\<lambda>_. 0) 2 push_state [Lf_idle, Lf_idle] {0, 1} [7] []"
    by (rule start_exec [of push_moves]) (simp add: lf_eval push_state_def insert_commute)
  from lockfree_fifo [OF this] show ?thesis
    by (simp add: push_state_def less_Suc_eq)
qed

text \<open>
  C20. \<^verbatim>\<open>pop\<close> deletes the node it unlinks at once, while another \<^verbatim>\<open>pop\<close> may have read it as the head and is about to
  read its link: some run of two threads, with an allocator that never reuses an address, makes a thread access
  a deleted node.
\<close>

theorem lockfree_use_after_free:
  "\<exists>q cs used P D. lf_reach 0 (\<lambda>_. 0::nat) 2 q cs used P D \<and> cs ! 1 = Pop_next 0 1 \<and> 0 \<in> freed q \<and>
     (\<forall>a. lf_step a q (cs ! 1) = Inl Undefined)"
proof -
  obtain q cs used P D where e: "lf_exec race_moves start = Some (q, cs, used, P, D)"
    "cs = [Pop_ret (Some 7), Pop_next 0 1]" "freed q = {0}"
    by (simp add: lf_eval)
  then have "cs ! 1 = Pop_next 0 1" "0 \<in> freed q"
    by simp_all
  moreover from this have "lf_step a q (cs ! 1) = Inl Undefined" for a
    by (simp add: access_def)
  ultimately show ?thesis
    using start_exec [OF e(1)] by blast
qed

end
