(* ===== verification/XDK_NVMe_Batch.thy ===== *)
theory XDK_NVMe_Batch
  imports XDK_Contracts "HOL-Library.Multiset"
begin

text \<open>
  Book-keeping of command batches in the NVMe driver (\<^verbatim>\<open>drivers/nvme-ssd/nvme_batch_manager.h\<close>): a ring
  buffer of batches, filled by the thread that issues commands and emptied by the completion thread,
  which counts the completions of each batch, calls the notification of a finished batch, and retires
  finished batches in order. Indices are natural numbers: they stay below the size of the array.
\<close>

section \<open>Ring buffer\<close>

record 'a ring_buffer =
  array :: "'a list"
  head :: nat
  tail :: nat

text \<open>\<open>elems\<close> is the initial content of the array.\<close>

definition RingBuffer :: "'a list \<Rightarrow> 'a ring_buffer" where
  "RingBuffer elems = \<lparr>array = elems, head = 0, tail = 0\<rparr>"

definition increment :: "'a ring_buffer \<Rightarrow> nat \<Rightarrow> nat outcome" where
  "increment b idx =
     (let new_idx = idx + 1 in
      check (new_idx \<le> length (array b)) Assertion
        (Inr (if new_idx = length (array b) then 0 else new_idx)))"

definition push :: "'a \<Rightarrow> 'a ring_buffer \<Rightarrow> (bool \<times> 'a ring_buffer) outcome" where
  "push item b =
     seq (increment b (tail b)) (\<lambda>next_tail.
       if next_tail \<noteq> head b then
         check (tail b < length (array b)) Out_of_range
           (Inr (True, b\<lparr>array := (array b)[tail b := item], tail := next_tail\<rparr>))
       else Inr (False, b))"

definition pop :: "'a ring_buffer \<Rightarrow> ('a option \<times> 'a ring_buffer) outcome" where
  "pop b =
     (if head b = tail b then Inr (None, b)
      else
        check (head b < length (array b)) Out_of_range
          (let item = array b ! head b in
           seq (increment b (head b)) (\<lambda>next_head. Inr (Some item, b\<lparr>head := next_head\<rparr>))))"

definition wasEmpty :: "'a ring_buffer \<Rightarrow> bool" where
  "wasEmpty b \<longleftrightarrow> head b = tail b"

definition wasFull :: "'a ring_buffer \<Rightarrow> bool outcome" where
  "wasFull b = seq (increment b (tail b)) (\<lambda>next_tail. Inr (next_tail = head b))"

definition get_last_entry :: "'a ring_buffer \<Rightarrow> nat outcome" where
  "get_last_entry b =
     check (head b \<noteq> tail b) Assertion
       (Inr (if tail b = 0 then length (array b) - 1 else tail b - 1))"

section \<open>Batch manager\<close>

record batch_info =
  start_cmdid :: u16
  end_cmdid :: u16
  total :: u16
  counter :: u16
  notify :: ptr
  ready :: bool
  complete :: bool

text \<open>
  \<open>actions\<close> lists the notification objects whose \<^verbatim>\<open>action\<close> was called and \<open>deleted\<close> the ones that were
  deleted, in order. \<open>frees\<close> below is the answer of each object's \<^verbatim>\<open>free_notify_obj\<close>.
\<close>

record batch_manager =
  buffer :: "batch_info ring_buffer"
  last_available_cmdid :: u16
  actions :: "nat list"
  deleted :: "nat list"

definition NVME_batch_manager :: "batch_info list \<Rightarrow> batch_manager" where
  "NVME_batch_manager elems = \<lparr>buffer = RingBuffer elems, last_available_cmdid = 0, actions = [], deleted = []\<rparr>"

definition BATCH_INFO_BUFFER_SIZE :: nat where
  "BATCH_INFO_BUFFER_SIZE = 256"

definition manager_push :: "batch_info \<Rightarrow> batch_manager \<Rightarrow> (bool \<times> batch_manager) outcome" where
  "manager_push item m = seq (push item (buffer m)) (\<lambda>(r, b). Inr (r, m\<lparr>buffer := b\<rparr>))"

definition is_available :: "u16 \<Rightarrow> batch_manager \<Rightarrow> bool" where
  "is_available cmdid m \<longleftrightarrow> cmdid \<noteq> last_available_cmdid m"

definition is_available_range :: "u16 \<Rightarrow> u16 \<Rightarrow> batch_manager \<Rightarrow> bool outcome" where
  "is_available_range cmdid_start cmdid_end m =
     check (cmdid_start \<le> cmdid_end) Assertion
       (let val = last_available_cmdid m in
        Inr ((cmdid_start < val \<and> cmdid_end < val) \<or> (cmdid_start > val \<and> cmdid_end > val)))"

definition can_reset_cmdid :: "u16 \<Rightarrow> batch_manager \<Rightarrow> bool" where
  "can_reset_cmdid cmdid_counter m \<longleftrightarrow> last_available_cmdid m \<le> cmdid_counter"

definition is_complete :: "batch_info \<Rightarrow> bool" where
  "is_complete b \<longleftrightarrow> ready b \<and> counter b = total b"

text \<open>
  The loop that retires finished batches. \<open>bi\<close> is the local variable \<^verbatim>\<open>bi\<close>, not initialised
  (\<open>None\<close>) at first.
\<close>

function retire :: "(nat \<Rightarrow> bool) \<Rightarrow> nat \<Rightarrow> nat \<Rightarrow> batch_info option \<Rightarrow> batch_manager \<Rightarrow> batch_manager outcome" where
  "retire frees idx tp bi m =
     (if idx < tp then
        let idx2 = idx mod BATCH_INFO_BUFFER_SIZE in
        if \<not> idx2 < length (array (buffer m)) then Inl Out_of_range
        else if is_complete (array (buffer m) ! idx2) then
          case pop (buffer m) of Inl e \<Rightarrow> Inl e
          | Inr (r, b) \<Rightarrow>
            (case (case r of None \<Rightarrow> bi | Some x \<Rightarrow> Some x) of None \<Rightarrow> Inl Undefined
             | Some x \<Rightarrow>
                retire frees (idx + 1) tp (Some x)
                  (m\<lparr>buffer := b, last_available_cmdid := end_cmdid x,
                     deleted := deleted m @
                       (case notify x of None \<Rightarrow> [] | Some n \<Rightarrow> if frees n then [n] else [])\<rparr>))
        else Inr m
      else Inr m)"
  by pat_completeness auto
termination by (relation "measure (\<lambda>(frees, idx, tp, bi, m). tp - idx)") auto

declare retire.simps [simp del]

definition set_entry :: "nat \<Rightarrow> batch_info \<Rightarrow> batch_manager \<Rightarrow> batch_manager" where
  "set_entry idx x m = m\<lparr>buffer := (buffer m)\<lparr>array := (array (buffer m))[idx := x]\<rparr>\<rparr>"

definition process_update_batch_info ::
  "(nat \<Rightarrow> bool) \<Rightarrow> nat \<Rightarrow> nat \<Rightarrow> nat \<Rightarrow> batch_manager \<Rightarrow> batch_manager outcome" where
  "process_update_batch_info frees idx hp tp m =
     check (idx < length (array (buffer m))) Out_of_range
     (let x = array (buffer m) ! idx; x1 = x\<lparr>counter := counter x + 1\<rparr>; m1 = set_entry idx x1 m in
      check (counter x1 \<le> total x1) Assertion
      (if is_complete x1 then
         check (\<not> complete x1) Assertion
         (let m2 = set_entry idx (x1\<lparr>complete := True\<rparr>)
                (m1\<lparr>actions := actions m1 @ (case notify x1 of None \<Rightarrow> [] | Some n \<Rightarrow> [n])\<rparr>)
          in if idx = hp then retire frees idx tp None m2 else Inr m2)
       else Inr m1))"

text \<open>The search of the batch of a command id: the index in the array, or \<open>None\<close> when no batch has it.\<close>

function find_batch :: "u16 \<Rightarrow> nat \<Rightarrow> nat \<Rightarrow> batch_manager \<Rightarrow> nat option outcome" where
  "find_batch cmdid idx tp m =
     (if idx < tp then
        let idx2 = idx mod BATCH_INFO_BUFFER_SIZE in
        if \<not> idx2 < length (array (buffer m)) then Inl Out_of_range
        else
          let x = array (buffer m) ! idx2 in
          if \<not> start_cmdid x \<le> end_cmdid x then Inl Assertion
          else if start_cmdid x \<le> cmdid \<and> cmdid \<le> end_cmdid x then Inr (Some idx2)
          else find_batch cmdid (idx + 1) tp m
      else Inr None)"
  by pat_completeness auto
termination by (relation "measure (\<lambda>(cmdid, idx, tp, m). tp - idx)") auto

declare find_batch.simps [simp del]

definition update_single_iteration ::
  "(nat \<Rightarrow> bool) \<Rightarrow> u16 \<Rightarrow> batch_manager \<Rightarrow> (bool \<times> batch_manager) outcome" where
  "update_single_iteration frees cmdid m =
     (let hp = head (buffer m);
          tp = (if hp > tail (buffer m) then tail (buffer m) + BATCH_INFO_BUFFER_SIZE else tail (buffer m))
      in seq (find_batch cmdid hp tp m) (\<lambda>r.
           case r of None \<Rightarrow> Inr (True, m)
           | Some idx2 \<Rightarrow> seq (process_update_batch_info frees idx2 hp tp m) (\<lambda>m1. Inr (True, m1))))"

function update_attempts ::
  "(nat \<Rightarrow> bool) \<Rightarrow> u16 \<Rightarrow> nat \<Rightarrow> batch_manager \<Rightarrow> (status \<times> batch_manager) outcome" where
  "update_attempts frees cmdid attempts m =
     (case update_single_iteration frees cmdid m of
        Inl e \<Rightarrow> Inl e
      | Inr (ret, m1) \<Rightarrow>
          if ret then Inr (S_OK, m1)
          else if attempts + 1 > 1000 then Inl Assertion
          else update_attempts frees cmdid (attempts + 1) m1)"
  by pat_completeness auto
termination by (relation "measure (\<lambda>(frees, cmdid, attempts, m). 1001 - attempts)") auto

declare update_attempts.simps [simp del]

definition update :: "(nat \<Rightarrow> bool) \<Rightarrow> u16 \<Rightarrow> batch_manager \<Rightarrow> (status \<times> batch_manager) outcome" where
  "update frees cmdid m = update_attempts frees cmdid 0 m"

section \<open>The ring buffer is a queue\<close>

definition ring_ok :: "'a ring_buffer \<Rightarrow> bool" where
  "ring_ok b \<longleftrightarrow> head b < length (array b) \<and> tail b < length (array b)"

definition pending :: "'a ring_buffer \<Rightarrow> nat" where
  "pending b = (if head b \<le> tail b then tail b - head b else tail b + length (array b) - head b)"

definition entries :: "'a ring_buffer \<Rightarrow> 'a list" where
  "entries b = ring (array b) (head b) (pending b)"

lemma length_entries [simp]: "length (entries b) = pending b"
  by (simp add: entries_def)

lemma pending_bound: "ring_ok b \<Longrightarrow> pending b \<le> length (array b) - 1"
  by (auto simp: ring_ok_def pending_def)

lemma tail_pending: "ring_ok b \<Longrightarrow> (head b + pending b) mod length (array b) = tail b"
  by (auto simp: ring_ok_def pending_def)

lemma push_spec:
  assumes "ring_ok b"
  shows "\<exists>b'. push x b = Inr (pending b < length (array b) - 1, b') \<and> ring_ok b' \<and>
    length (array b') = length (array b) \<and>
    (if pending b < length (array b) - 1 then entries b' = entries b @ [x] else b' = b)"
proof -
  let ?n = "length (array b)" and ?t = "if Suc (tail b) = length (array b) then 0 else Suc (tail b)"
  let ?b = "b\<lparr>array := (array b)[tail b := x], tail := ?t\<rparr>"
  have inc: "increment b (tail b) = Inr ?t" using assms by (simp add: increment_def ring_ok_def)
  show ?thesis
  proof (cases "?t = head b")
    case True
    then have "\<not> pending b < ?n - 1" using assms by (auto simp: ring_ok_def pending_def split: if_splits)
    then show ?thesis using True inc assms by (simp add: push_def)
  next
    case False
    then have p: "pending b < ?n - 1" "pending ?b = Suc (pending b)"
      using assms by (auto simp: ring_ok_def pending_def split: if_splits)
    have "entries ?b = entries b @ [x]"
      using ring_push [of "pending b" "array b" "head b" x] p tail_pending [OF assms]
      by (simp add: entries_def)
    moreover have "0 < ?n" using p(1) by linarith
    ultimately show ?thesis using False inc assms p(1) by (simp add: push_def ring_ok_def)
  qed
qed

lemma pop_spec:
  assumes "ring_ok b"
  shows "case entries b of [] \<Rightarrow> pop b = Inr (None, b)
    | x # xs \<Rightarrow> \<exists>b'. pop b = Inr (Some x, b') \<and> ring_ok b' \<and> entries b' = xs \<and> array b' = array b \<and>
        tail b' = tail b \<and> head b' = Suc (head b) mod length (array b)"
proof (cases "head b = tail b")
  case True
  then have "entries b = []" by (simp add: entries_def pending_def)
  then show ?thesis using True by (simp add: pop_def)
next
  case False
  let ?h = "if Suc (head b) = length (array b) then 0 else Suc (head b)"
  let ?b = "b\<lparr>head := ?h\<rparr>"
  have inc: "increment b (head b) = Inr ?h" using assms by (simp add: increment_def ring_ok_def)
  have p: "pending b = Suc (pending ?b)"
    using False assms by (auto simp: ring_ok_def pending_def split: if_splits)
  have h: "?h mod length (array b) = Suc (head b) mod length (array b)" "?h = Suc (head b) mod length (array b)"
    using assms by (auto simp: ring_ok_def)
  have "entries b = array b ! head b # entries ?b"
    unfolding entries_def p ring_pop
    using ring_shift [OF h(1), of "pending ?b"] assms by (simp add: ring_ok_def)
  moreover have "Suc (head b) mod length (array b) < length (array b)"
    using assms by (intro mod_less_divisor) (auto simp: ring_ok_def)
  ultimately show ?thesis using False inc assms h by (simp add: pop_def ring_ok_def)
qed

text \<open>The buffer as a queue that refuses when full; the operations never fault.\<close>

definition ring_push_total :: "'a \<Rightarrow> 'a ring_buffer \<Rightarrow> bool \<times> 'a ring_buffer" where
  "ring_push_total x b = (case push x b of Inr r \<Rightarrow> r | Inl _ \<Rightarrow> (False, b))"

definition ring_pop_total :: "'a ring_buffer \<Rightarrow> 'a option \<times> 'a ring_buffer" where
  "ring_pop_total b = (case pop b of Inr r \<Rightarrow> r | Inl _ \<Rightarrow> (None, b))"

interpretation ring_queue: strict_queue ring_push_total ring_pop_total entries
  "\<lambda>b. length (array b) - 1" ring_ok
proof (unfold_locales, goal_cases)
  case (1 b)
  then show ?case using pending_bound [of b] by simp
next
  case (2 b x)
  then show ?case using push_spec [of b x] by (auto simp: ring_push_total_def)
next
  case (3 b)
  then show ?case using pop_spec [of b] by (simp add: ring_pop_total_def)
next
  case (4 b x xs)
  then show ?case using pop_spec [of b] by (auto simp: ring_pop_total_def)
next
  case (5 b x)
  then show ?case using push_spec [of b x] by (auto simp: ring_push_total_def)
qed

text \<open>
  The ring buffer is a first-in first-out queue for every sequence of pushes and pops: the items
  popped, followed by the items still in the buffer, are the items that were accepted, in order; it never
  holds more than its size minus one, and a push is refused exactly at that number.
\<close>

theorem ring_buffer_fifo:
  assumes "elems \<noteq> []" "traffic ring_push_total ring_pop_total ops (RingBuffer elems) = (out, b)"
  shows "out @ entries b = accepted ring_push_total ring_pop_total ops (RingBuffer elems) \<and>
    length (entries b) < length (array b) \<and>
    (\<exists>b'. push x b = Inr (length (entries b) < length (array b) - 1, b')) \<and>
    wasFull b = Inr (length (entries b) = length (array b) - 1) \<and> (wasEmpty b \<longleftrightarrow> entries b = [])"
proof -
  have "ring_ok (RingBuffer elems)" "entries (RingBuffer elems) = []"
    using assms(1) by (auto simp: RingBuffer_def ring_ok_def entries_def pending_def)
  then have t: "ring_ok b" "out @ entries b = accepted ring_push_total ring_pop_total ops (RingBuffer elems)"
    using ring_queue.traffic_lossless [OF _ assms(2)] by simp_all
  have "wasFull b = Inr (pending b = length (array b) - 1)"
    using t(1) by (auto simp: wasFull_def increment_def pending_def ring_ok_def)
  moreover have "wasEmpty b \<longleftrightarrow> pending b = 0"
    using t(1) by (auto simp: wasEmpty_def pending_def ring_ok_def)
  moreover have "pending b < length (array b)" using t(1) by (auto simp: pending_def ring_ok_def)
  moreover have "\<exists>b'. push x b = Inr (pending b < length (array b) - 1, b')"
    using push_spec [OF t(1), of x] by blast
  moreover have "entries b = [] \<longleftrightarrow> pending b = 0" by (metis length_0_conv length_entries)
  ultimately show ?thesis using t(2) by simp
qed

section \<open>Specification: a list of batches\<close>

record batch_log =
  queue :: "batch_info list"
  released :: u16
  notified :: "nat list"
  removed :: "nat list"

definition log_of :: "batch_manager \<Rightarrow> batch_log" where
  "log_of m = \<lparr>queue = entries (buffer m), released = last_available_cmdid m,
     notified = actions m, removed = deleted m\<rparr>"

definition manager_ok :: "batch_manager \<Rightarrow> bool" where
  "manager_ok m \<longleftrightarrow> ring_ok (buffer m) \<and> length (array (buffer m)) = BATCH_INFO_BUFFER_SIZE"

definition in_batch :: "u16 \<Rightarrow> batch_info \<Rightarrow> bool" where
  "in_batch cmdid x \<longleftrightarrow> start_cmdid x \<le> cmdid \<and> cmdid \<le> end_cmdid x"

fun spec_find :: "u16 \<Rightarrow> batch_info list \<Rightarrow> nat option outcome" where
  "spec_find cmdid [] = Inr None"
| "spec_find cmdid (x # xs) =
     (if \<not> start_cmdid x \<le> end_cmdid x then Inl Assertion
      else if in_batch cmdid x then Inr (Some 0)
      else seq (spec_find cmdid xs) (\<lambda>r. Inr (map_option Suc r)))"

definition freed :: "(nat \<Rightarrow> bool) \<Rightarrow> batch_info \<Rightarrow> nat list" where
  "freed frees x = (case notify x of None \<Rightarrow> [] | Some n \<Rightarrow> if frees n then [n] else [])"

definition spec_retire :: "(nat \<Rightarrow> bool) \<Rightarrow> batch_log \<Rightarrow> batch_log" where
  "spec_retire frees s =
     (let fin = takeWhile is_complete (queue s) in
      s\<lparr>queue := dropWhile is_complete (queue s),
        released := (if fin = [] then released s else end_cmdid (last fin)),
        removed := removed s @ concat (map (freed frees) fin)\<rparr>)"

definition spec_count :: "(nat \<Rightarrow> bool) \<Rightarrow> nat \<Rightarrow> batch_log \<Rightarrow> batch_log outcome" where
  "spec_count frees i s =
     (let x = queue s ! i; x1 = x\<lparr>counter := counter x + 1\<rparr> in
      check (counter x1 \<le> total x1) Assertion
      (if is_complete x1 then
         check (\<not> complete x1) Assertion
         (let s2 = s\<lparr>queue := (queue s)[i := x1\<lparr>complete := True\<rparr>],
                notified := notified s @ (case notify x1 of None \<Rightarrow> [] | Some n \<Rightarrow> [n])\<rparr>
          in Inr (if i = 0 then spec_retire frees s2 else s2))
       else Inr (s\<lparr>queue := (queue s)[i := x1]\<rparr>)))"

definition spec_update :: "(nat \<Rightarrow> bool) \<Rightarrow> u16 \<Rightarrow> batch_log \<Rightarrow> batch_log outcome" where
  "spec_update frees cmdid s =
     seq (spec_find cmdid (queue s)) (\<lambda>r. case r of None \<Rightarrow> Inr s | Some i \<Rightarrow> spec_count frees i s)"

section \<open>The manager implements the specification\<close>

lemma entries_nth: "i < pending b \<Longrightarrow> entries b ! i = array b ! ((head b + i) mod length (array b))"
  by (simp add: entries_def ring_def)

lemma pending_less: "ring_ok b \<Longrightarrow> pending b < length (array b)"
  by (auto simp: ring_ok_def pending_def)

lemma pending_array [simp]: "length xs = length (array b) \<Longrightarrow> pending (b\<lparr>array := xs\<rparr>) = pending b"
  by (simp add: pending_def)

lemma entries_update:
  assumes "ring_ok b" "i < pending b"
  shows "entries (b\<lparr>array := (array b)[(head b + i) mod length (array b) := x]\<rparr>) = (entries b)[i := x]"
proof (rule nth_equalityI)
  let ?b = "b\<lparr>array := (array b)[(head b + i) mod length (array b) := x]\<rparr>"
  fix j
  assume "j < length (entries ?b)"
  then have j: "j < pending b" "j < pending ?b" by simp_all
  note n = pending_less [OF assms(1)]
  have "(head b + i) mod length (array b) = (head b + j) mod length (array b) \<longleftrightarrow> i = j"
    using n j(1) assms(2) ring_index_distinct [of i j "length (array b)" "head b"]
      ring_index_distinct [of j i "length (array b)" "head b"] by (cases i j rule: linorder_cases) auto
  moreover have "(head b + i) mod length (array b) < length (array b)"
    using n by (intro mod_less_divisor) linarith
  ultimately show "entries ?b ! j = (entries b)[i := x] ! j"
    using assms(2) by (simp add: entries_nth j nth_list_update)
qed simp

text \<open>The upper limit the code computes is the head plus the number of batches.\<close>

lemma loop_limit:
  "manager_ok m \<Longrightarrow>
   (if head (buffer m) > tail (buffer m) then tail (buffer m) + BATCH_INFO_BUFFER_SIZE else tail (buffer m)) =
   head (buffer m) + pending (buffer m)"
  by (auto simp: manager_ok_def ring_ok_def pending_def)

lemma find_batch_spec:
  assumes "manager_ok m" "i \<le> pending (buffer m)"
  shows "find_batch cmdid (head (buffer m) + i) (head (buffer m) + pending (buffer m)) m =
    seq (spec_find cmdid (drop i (entries (buffer m))))
      (\<lambda>r. Inr (map_option (\<lambda>j. (head (buffer m) + i + j) mod BATCH_INFO_BUFFER_SIZE) r))"
  using assms(2)
proof (induction "pending (buffer m) - i" arbitrary: i)
  case 0
  then show ?case by (subst find_batch.simps) simp
next
  case (Suc k)
  let ?b = "buffer m" and ?idx = "(head (buffer m) + i) mod BATCH_INFO_BUFFER_SIZE"
  have i: "i < pending ?b" using Suc by simp
  have n: "length (array ?b) = BATCH_INFO_BUFFER_SIZE" using assms by (simp add: manager_ok_def)
  have idx: "?idx < length (array ?b)" by (simp add: n BATCH_INFO_BUFFER_SIZE_def)
  have x: "array ?b ! ?idx = entries ?b ! i" using entries_nth [OF i] n by simp
  have d: "drop i (entries ?b) = entries ?b ! i # drop (Suc i) (entries ?b)"
    using i by (simp add: Cons_nth_drop_Suc)
  have "find_batch cmdid (head ?b + Suc i) (head ?b + pending ?b) m =
      seq (spec_find cmdid (drop (Suc i) (entries ?b)))
        (\<lambda>r. Inr (map_option (\<lambda>j. (head ?b + Suc i + j) mod BATCH_INFO_BUFFER_SIZE) r))"
    using Suc.hyps(1) [of "Suc i"] Suc.hyps(2) i by simp
  moreover have "find_batch cmdid (head ?b + i) (head ?b + pending ?b) m =
      (let x = entries ?b ! i in if \<not> start_cmdid x \<le> end_cmdid x then Inl Assertion
       else if in_batch cmdid x then Inr (Some ?idx)
       else find_batch cmdid (head ?b + Suc i) (head ?b + pending ?b) m)"
    by (subst find_batch.simps) (use i idx x in \<open>simp add: Let_def in_batch_def\<close>)
  ultimately show ?case
    unfolding d by (cases "spec_find cmdid (drop (Suc i) (entries ?b))")
      (auto simp: Let_def option.map_comp comp_def)
qed

lemma spec_retire_Cons:
  assumes "queue s = x # xs" "is_complete x"
  shows "spec_retire frees s =
    spec_retire frees (s\<lparr>queue := xs, released := end_cmdid x, removed := removed s @ freed frees x\<rparr>)"
  using assms by (auto simp: spec_retire_def Let_def)

lemma retire_spec:
  assumes "manager_ok m" "idx mod BATCH_INFO_BUFFER_SIZE = head (buffer m)" "tp = idx + pending (buffer m)"
  shows "\<exists>m'. retire frees idx tp bi m = Inr m' \<and> manager_ok m' \<and> log_of m' = spec_retire frees (log_of m)"
  using assms
proof (induction "pending (buffer m)" arbitrary: idx bi m)
  case 0
  then have "entries (buffer m) = []" by (metis length_entries length_0_conv)
  then show ?case
    by (subst retire.simps) (use 0 in \<open>simp add: spec_retire_def log_of_def\<close>)
next
  case (Suc k)
  let ?b = "buffer m"
  obtain x xs where e: "entries ?b = x # xs" using Suc.hyps(2) by (metis length_entries length_Suc_conv)
  have ok: "ring_ok ?b" "length (array ?b) = BATCH_INFO_BUFFER_SIZE" using Suc.prems by (simp_all add: manager_ok_def)
  obtain b' where b': "pop ?b = Inr (Some x, b')" "ring_ok b'" "entries b' = xs" "array b' = array ?b"
    "head b' = Suc (head ?b) mod length (array ?b)"
    using pop_spec [OF ok(1)] e by auto
  have x: "array ?b ! (idx mod BATCH_INFO_BUFFER_SIZE) = x" "idx mod BATCH_INFO_BUFFER_SIZE < length (array ?b)"
    using entries_nth [of 0 ?b] e ok Suc.hyps(2) Suc.prems(2) by (simp_all add: ring_ok_def)
  show ?case
  proof (cases "is_complete x")
    case True
    let ?m = "m\<lparr>buffer := b', last_available_cmdid := end_cmdid x, deleted := deleted m @ freed frees x\<rparr>"
    have "Suc (pending b') = pending ?b" using b'(3) e by (metis length_Cons length_entries)
    moreover have "Suc idx mod BATCH_INFO_BUFFER_SIZE = head b'"
      using b'(5) ok(2) Suc.prems(2) by (metis mod_Suc_eq)
    ultimately obtain m' where "retire frees (Suc idx) tp (Some x) ?m = Inr m'" "manager_ok m'"
        "log_of m' = spec_retire frees (log_of ?m)"
      using Suc.hyps(1) [of ?m "Suc idx" "Some x"] Suc.hyps(2) Suc.prems b' ok by (auto simp: manager_ok_def)
    moreover have "retire frees idx tp bi m = retire frees (Suc idx) tp (Some x) ?m"
      by (subst retire.simps) (use Suc.prems Suc.hyps(2) True x b'(1) in \<open>simp add: Let_def freed_def\<close>)
    moreover have "spec_retire frees (log_of m) = spec_retire frees (log_of ?m)"
      using spec_retire_Cons [of "log_of m" x xs frees] e True b'(3) by (simp add: log_of_def)
    ultimately show ?thesis by simp
  next
    case False
    then have "retire frees idx tp bi m = Inr m"
      by (subst retire.simps) (use x in \<open>simp add: Let_def\<close>)
    moreover have "spec_retire frees (log_of m) = log_of m"
      using False e by (simp add: spec_retire_def log_of_def)
    ultimately show ?thesis using Suc.prems by simp
  qed
qed

lemma set_entry_log:
  assumes "manager_ok m" "i < pending (buffer m)" "idx = (head (buffer m) + i) mod BATCH_INFO_BUFFER_SIZE"
  shows "log_of (set_entry idx x m) = (log_of m)\<lparr>queue := (queue (log_of m))[i := x]\<rparr>"
    "manager_ok (set_entry idx x m)" "pending (buffer (set_entry idx x m)) = pending (buffer m)"
  using assms entries_update [of "buffer m" i x]
  by (simp_all add: log_of_def set_entry_def manager_ok_def ring_ok_def pending_def)

lemma process_spec:
  assumes "manager_ok m" "i < pending (buffer m)" "idx = (head (buffer m) + i) mod BATCH_INFO_BUFFER_SIZE"
  shows "case spec_count frees i (log_of m) of
      Inl e \<Rightarrow> process_update_batch_info frees idx (head (buffer m)) (head (buffer m) + pending (buffer m)) m = Inl e
    | Inr s \<Rightarrow> \<exists>m'. process_update_batch_info frees idx (head (buffer m)) (head (buffer m) + pending (buffer m)) m =
        Inr m' \<and> manager_ok m' \<and> log_of m' = s"
proof -
  let ?b = "buffer m"
  have ok: "ring_ok ?b" "length (array ?b) = BATCH_INFO_BUFFER_SIZE" using assms by (simp_all add: manager_ok_def)
  have idx: "idx < length (array ?b)" using assms(3) ok(2) by (simp add: BATCH_INFO_BUFFER_SIZE_def)
  have x: "array ?b ! idx = queue (log_of m) ! i"
    using entries_nth [OF assms(2)] assms(3) ok by (simp add: log_of_def)
  define x1 where "x1 = (queue (log_of m) ! i)\<lparr>counter := counter (queue (log_of m) ! i) + 1\<rparr>"
  define m1 where "m1 = (set_entry idx x1 m)\<lparr>actions := actions m @ (case notify x1 of None \<Rightarrow> [] | Some n \<Rightarrow> [n])\<rparr>"
  define m2 where "m2 = set_entry idx (x1\<lparr>complete := True\<rparr>) m1"
  note e1 = set_entry_log [OF assms, of x1]
  have m1: "manager_ok m1" "pending (buffer m1) = pending ?b" "head (buffer m1) = head ?b"
    "log_of m1 = (log_of m)\<lparr>queue := (queue (log_of m))[i := x1],
       notified := notified (log_of m) @ (case notify x1 of None \<Rightarrow> [] | Some n \<Rightarrow> [n])\<rparr>"
    using e1 by (simp_all add: m1_def manager_ok_def log_of_def set_entry_def)
  note e2 = set_entry_log [of m1 i idx "x1\<lparr>complete := True\<rparr>", unfolded m1(2,3), OF m1(1) assms(2,3), folded m2_def]
  have l2: "log_of m2 = (log_of m)\<lparr>queue := (queue (log_of m))[i := x1\<lparr>complete := True\<rparr>],
       notified := notified (log_of m) @ (case notify x1 of None \<Rightarrow> [] | Some n \<Rightarrow> [n])\<rparr>"
    using e2(1) m1(4) by simp
  have "idx = head ?b \<longleftrightarrow> i = 0"
    using ring_index_distinct [of 0 i BATCH_INFO_BUFFER_SIZE "head ?b"] assms(2,3) ok pending_less [OF ok(1)]
    by (cases "i = 0") (auto simp: ring_ok_def)
  moreover obtain m' where "retire frees (head ?b) (head ?b + pending ?b) None m2 = Inr m'" "manager_ok m'"
      "log_of m' = spec_retire frees (log_of m2)"
    using retire_spec [of m2 "head ?b" "head ?b + pending ?b"] e2(2,3) m1(3) ok
    by (auto simp: m2_def set_entry_def ring_ok_def)
  moreover have "process_update_batch_info frees idx (head ?b) (head ?b + pending ?b) m =
      check (counter x1 \<le> total x1) Assertion (if is_complete x1 then check (\<not> complete x1) Assertion
        (if idx = head ?b then retire frees (head ?b) (head ?b + pending ?b) None m2 else Inr m2)
        else Inr (set_entry idx x1 m))"
    using idx x by (simp add: process_update_batch_info_def x1_def m2_def m1_def Let_def set_entry_def)
  moreover have "spec_count frees i (log_of m) =
      check (counter x1 \<le> total x1) Assertion (if is_complete x1 then check (\<not> complete x1) Assertion
        (Inr (if i = 0 then spec_retire frees (log_of m2) else log_of m2))
        else Inr ((log_of m)\<lparr>queue := (queue (log_of m))[i := x1]\<rparr>))"
    by (simp add: spec_count_def x1_def l2 Let_def)
  ultimately show ?thesis
    using e1(1,2) e2(2) by (simp add: check_def)
qed

text \<open>The search yields an index of the list, and the command id is in the batch there.\<close>

lemma spec_find_Some: "spec_find cmdid xs = Inr (Some i) \<Longrightarrow> i < length xs \<and> in_batch cmdid (xs ! i)"
  by (induction xs arbitrary: i) (auto simp: outcome_iffs split: if_splits)

lemma update_log:
  assumes "manager_ok m"
  shows "case spec_update frees cmdid (log_of m) of Inl e \<Rightarrow> update frees cmdid m = Inl e
    | Inr s \<Rightarrow> \<exists>m'. update frees cmdid m = Inr (S_OK, m') \<and> manager_ok m' \<and> log_of m' = s"
proof -
  let ?b = "buffer m"
  have f: "find_batch cmdid (head ?b) (head ?b + pending ?b) m = seq (spec_find cmdid (queue (log_of m)))
      (\<lambda>r. Inr (map_option (\<lambda>j. (head ?b + j) mod BATCH_INFO_BUFFER_SIZE) r))"
    using find_batch_spec [OF assms, of 0 cmdid] by (simp add: log_of_def)
  have once: "update frees cmdid m = seq (update_single_iteration frees cmdid m) (\<lambda>(ret, m'). Inr (S_OK, m'))"
    if "\<And>ret m'. update_single_iteration frees cmdid m = Inr (ret, m') \<Longrightarrow> ret"
    unfolding update_def by (subst update_attempts.simps)
      (use that in \<open>auto split: sum.splits simp: seq_def\<close>)
  show ?thesis
  proof (cases "spec_find cmdid (queue (log_of m))")
    case (Inl e)
    then show ?thesis
      using f once by (simp add: update_single_iteration_def loop_limit [OF assms] spec_update_def)
  next
    case (Inr r)
    show ?thesis
    proof (cases r)
      case None
      then show ?thesis
        using f once Inr assms by (simp add: update_single_iteration_def loop_limit [OF assms] spec_update_def)
    next
      case (Some i)
      then have "i < pending ?b" using spec_find_Some Inr by (fastforce simp: log_of_def)
      from process_spec [OF assms this refl, of frees] show ?thesis
        using f once Inr Some
        by (cases "spec_count frees i (log_of m)")
          (auto simp: update_single_iteration_def loop_limit [OF assms] spec_update_def outcome_iffs)
    qed
  qed
qed

section \<open>Progress of batches\<close>

text \<open>
  \<open>progress D x\<close> is a batch \<open>x\<close> after the completions of the command ids in \<open>D\<close>. The manager holds the
  batches \<open>q\<close> with completed ids \<open>D\<close>: the first batch is not finished, and no two share an id.
\<close>

definition ids :: "batch_info \<Rightarrow> u16 set" where
  "ids x = {c. in_batch c x}"

definition fresh_batch :: "batch_info \<Rightarrow> bool" where
  "fresh_batch x \<longleftrightarrow> ready x \<and> \<not> complete x \<and> counter x = 0 \<and> start_cmdid x \<le> end_cmdid x \<and>
     unat (total x) = unat (end_cmdid x) - unat (start_cmdid x) + 1"

definition progress :: "u16 set \<Rightarrow> batch_info \<Rightarrow> batch_info" where
  "progress D x = x\<lparr>counter := of_nat (card (ids x \<inter> D)), complete := ids x \<subseteq> D\<rparr>"

definition live_ids :: "batch_info list \<Rightarrow> u16 set" where
  "live_ids q = \<Union> (ids ` set q)"

definition batches_ok :: "batch_info list \<Rightarrow> u16 set \<Rightarrow> bool" where
  "batches_ok q D \<longleftrightarrow> (\<forall>x \<in> set q. fresh_batch x) \<and> sorted_wrt (\<lambda>x y. ids x \<inter> ids y = {}) q \<and>
     D \<subseteq> live_ids q \<and> (q \<noteq> [] \<longrightarrow> \<not> ids (hd q) \<subseteq> D)"

definition holds :: "batch_manager \<Rightarrow> batch_info list \<Rightarrow> u16 set \<Rightarrow> bool" where
  "holds m q D \<longleftrightarrow> manager_ok m \<and> queue (log_of m) = map (progress D) q \<and> batches_ok q D"

lemma ids_interval: "unat ` ids x = {unat (start_cmdid x)..unat (end_cmdid x)}"
proof
  show "{unat (start_cmdid x)..unat (end_cmdid x)} \<subseteq> unat ` ids x"
  proof
    fix n
    assume n: "n \<in> {unat (start_cmdid x)..unat (end_cmdid x)}"
    then have u: "unat (of_nat n :: u16) = n"
      using unat_bound [of "end_cmdid x"] by (simp add: unat_of_nat)
    then have "of_nat n \<in> ids x" using n by (simp add: ids_def in_batch_def word_le_nat_alt)
    then show "n \<in> unat ` ids x" using u by (metis image_eqI)
  qed
qed (auto simp: ids_def in_batch_def word_le_nat_alt)

lemma card_ids: "fresh_batch x \<Longrightarrow> card (ids x) = unat (total x)"
proof -
  assume "fresh_batch x"
  moreover have "card (ids x) = card (unat ` ids x)"
    by (rule card_image [symmetric]) (simp add: inj_on_def word_unat_eq_iff)
  ultimately show ?thesis
    by (simp add: ids_interval fresh_batch_def word_le_nat_alt Suc_diff_le)
qed

lemma counter_progress: "fresh_batch x \<Longrightarrow> unat (counter (progress D x)) = card (ids x \<inter> D)"
proof -
  assume f: "fresh_batch x"
  have "card (ids x \<inter> D) \<le> unat (total x)" using card_ids [OF f] by (metis card_mono finite inf_le1)
  then show ?thesis
    using unat_bound [of "total x"] by (simp add: progress_def unat_of_nat)
qed

lemma is_complete_progress:
  assumes "fresh_batch x"
  shows "is_complete (progress D x) \<longleftrightarrow> ids x \<subseteq> D"
proof -
  have "is_complete (progress D x) \<longleftrightarrow> card (ids x \<inter> D) = card (ids x)"
    using assms counter_progress [OF assms, of D] card_ids [OF assms]
    by (auto simp: is_complete_def fresh_batch_def word_unat_eq_iff progress_def)
  also have "\<dots> \<longleftrightarrow> ids x \<inter> D = ids x" by (metis card_subset_eq finite inf_le1)
  finally show ?thesis by blast
qed

lemma progress_other: "c \<notin> ids x \<Longrightarrow> progress (insert c D) x = progress D x"
  by (simp add: progress_def subset_insert)

lemma in_batch_progress [simp]:
  "in_batch c (progress D x) = in_batch c x" "start_cmdid (progress D x) = start_cmdid x"
  "end_cmdid (progress D x) = end_cmdid x" "notify (progress D x) = notify x"
  "total (progress D x) = total x" "freed frees (progress D x) = freed frees x"
  by (simp_all add: progress_def in_batch_def freed_def)

lemma spec_find_progress:
  assumes "\<forall>y \<in> set pre. fresh_batch y \<and> c \<notin> ids y" "fresh_batch x" "c \<in> ids x"
  shows "spec_find c (map (progress D) (pre @ x # post)) = Inr (Some (length pre))"
  using assms by (induction pre) (auto simp: fresh_batch_def ids_def)

text \<open>The count of one more completion for a batch.\<close>

lemma count_progress:
  assumes "fresh_batch x" "c \<in> ids x" "c \<notin> D"
  shows "(progress D x)\<lparr>counter := counter (progress D x) + 1, complete := ids x \<subseteq> insert c D\<rparr> =
      progress (insert c D) x"
    "counter (progress D x) + 1 \<le> total x"
    "is_complete ((progress D x)\<lparr>counter := counter (progress D x) + 1\<rparr>) \<longleftrightarrow> ids x \<subseteq> insert c D"
    "\<not> ids x \<subseteq> D"
proof -
  have "ids x \<inter> insert c D = insert c (ids x \<inter> D)" using assms(2) by blast
  then have c: "card (ids x \<inter> insert c D) = Suc (card (ids x \<inter> D))" using assms(3) by simp
  then have k: "counter (progress D x) + 1 = counter (progress (insert c D) x)"
    by (simp add: progress_def)
  then show "(progress D x)\<lparr>counter := counter (progress D x) + 1, complete := ids x \<subseteq> insert c D\<rparr> =
      progress (insert c D) x"
    by (simp add: progress_def)
  have "card (ids x \<inter> insert c D) \<le> unat (total x)"
    using card_ids [OF assms(1)] by (metis card_mono finite inf_le1)
  then show "counter (progress D x) + 1 \<le> total x"
    using k counter_progress [OF assms(1)] by (simp add: word_le_nat_alt)
  show "is_complete ((progress D x)\<lparr>counter := counter (progress D x) + 1\<rparr>) \<longleftrightarrow> ids x \<subseteq> insert c D"
    using is_complete_progress [OF assms(1), of "insert c D"] k by (simp add: is_complete_def progress_def)
  show "\<not> ids x \<subseteq> D" using assms by blast
qed

lemma sorted_wrt_dropWhile: "sorted_wrt P xs \<Longrightarrow> sorted_wrt P (dropWhile f xs)"
  by (metis dropWhile_eq_drop sorted_wrt_drop)

lemma hd_dropWhile: "dropWhile f xs \<noteq> [] \<Longrightarrow> \<not> f (hd (dropWhile f xs))"
  by (induction xs) auto

text \<open>Retiring the finished batches at the front.\<close>

definition finished :: "u16 set \<Rightarrow> batch_info list \<Rightarrow> batch_info list" where
  "finished D q = takeWhile (\<lambda>x. ids x \<subseteq> D) q"

definition unfinished :: "u16 set \<Rightarrow> batch_info list \<Rightarrow> batch_info list" where
  "unfinished D q = dropWhile (\<lambda>x. ids x \<subseteq> D) q"

lemma spec_retire_progress:
  assumes "\<forall>x \<in> set q. fresh_batch x" "queue s = map (progress D) q"
  shows "spec_retire frees s = s\<lparr>queue := map (progress D) (unfinished D q),
    released := (if finished D q = [] then released s else end_cmdid (last (finished D q))),
    removed := removed s @ concat (map (freed frees) (finished D q))\<rparr>"
proof -
  have "takeWhile is_complete (map (progress D) q) = map (progress D) (finished D q)"
    using assms(1) is_complete_progress by (induction q) (auto simp: finished_def)
  moreover have "dropWhile is_complete (map (progress D) q) = map (progress D) (unfinished D q)"
    using assms(1) is_complete_progress by (induction q) (auto simp: unfinished_def)
  ultimately show ?thesis
    using assms(2) by (simp add: spec_retire_def Let_def last_map comp_def)
qed

text \<open>Retired ids leave the set of completed ids; the batches that remain do not see them.\<close>

lemma retired_ids:
  assumes "sorted_wrt (\<lambda>x y. ids x \<inter> ids y = {}) q" "D \<subseteq> live_ids q" "\<forall>x \<in> set q. fresh_batch x"
  shows "map (progress D) (unfinished D q) = map (progress (D - live_ids (finished D q))) (unfinished D q)"
    "batches_ok (unfinished D q) (D - live_ids (finished D q))"
proof -
  have split: "q = finished D q @ unfinished D q" by (simp add: finished_def unfinished_def)
  have dis: "ids x \<inter> live_ids (finished D q) = {}" if "x \<in> set (unfinished D q)" for x
    using assms(1) that by (subst (asm) split) (auto simp: sorted_wrt_append live_ids_def)
  have same: "ids x \<inter> (D - live_ids (finished D q)) = ids x \<inter> D"
    "ids x \<subseteq> D - live_ids (finished D q) \<longleftrightarrow> ids x \<subseteq> D" if "x \<in> set (unfinished D q)" for x
    using dis [OF that] by blast+
  then show "map (progress D) (unfinished D q) = map (progress (D - live_ids (finished D q))) (unfinished D q)"
    by (simp add: progress_def)
  have "sorted_wrt (\<lambda>x y. ids x \<inter> ids y = {}) (unfinished D q)"
    using assms(1) by (simp add: unfinished_def sorted_wrt_dropWhile)
  moreover have "D - live_ids (finished D q) \<subseteq> live_ids (unfinished D q)"
    using assms(2) by (subst (asm) split) (auto simp: live_ids_def)
  moreover have "\<forall>x \<in> set (unfinished D q). fresh_batch x"
    using assms(3) by (auto simp: unfinished_def dest: set_dropWhileD)
  moreover have "\<not> ids (hd (unfinished D q)) \<subseteq> D - live_ids (finished D q)" if "unfinished D q \<noteq> []"
    using that hd_dropWhile [of "\<lambda>x. ids x \<subseteq> D" q] same(2) [of "hd (unfinished D q)"]
    by (simp add: unfinished_def)
  ultimately show "batches_ok (unfinished D q) (D - live_ids (finished D q))"
    by (simp add: batches_ok_def)
qed

text \<open>One completion: the log after it, with all batches still in the queue.\<close>

lemma spec_count_progress:
  assumes q: "q = pre @ x # post" and ok: "batches_ok q D" "queue s = map (progress D) q"
    and c: "c \<in> ids x" "c \<notin> D"
  shows "spec_count frees (length pre) s =
    (let s1 = s\<lparr>queue := map (progress (insert c D)) q,
       notified := notified s @ (if ids x \<subseteq> insert c D then case notify x of None \<Rightarrow> [] | Some n \<Rightarrow> [n] else [])\<rparr>
     in Inr (if ids x \<subseteq> insert c D \<and> pre = [] then spec_retire frees s1 else s1))"
proof -
  have f: "fresh_batch x" and out: "\<forall>y \<in> set pre \<union> set post. c \<notin> ids y"
    using q ok(1) c(1) by (auto simp: batches_ok_def sorted_wrt_append)
  note k = count_progress [OF f c]
  have x: "queue s ! length pre = progress D x" using q ok(2) by (simp add: nth_append)
  have "map (progress (insert c D)) q = (map (progress D) q)[length pre := progress (insert c D) x]"
    using q out progress_other by (simp add: list_update_append)
  moreover have "(progress D x)\<lparr>counter := counter (progress D x) + 1, complete := True\<rparr> = progress (insert c D) x"
    if "ids x \<subseteq> insert c D" using k(1) that by simp
  moreover have "(progress D x)\<lparr>counter := counter (progress D x) + 1\<rparr> = progress (insert c D) x"
    if "\<not> ids x \<subseteq> insert c D" using k(1,4) that by (cases x) (simp add: progress_def)
  moreover have "\<not> complete (progress D x)" using k(4) by (simp add: progress_def)
  ultimately show ?thesis
    using k(2,3) x ok(2) by (simp add: spec_count_def Let_def)
qed

text \<open>One completion of a command of a batch \<open>x\<close> that the manager holds.\<close>

lemma update_completion:
  assumes h: "holds m q D" and c: "x \<in> set q" "c \<in> ids x" "c \<notin> D"
  defines "D' \<equiv> insert c D"
  shows "\<exists>m'. update frees c m = Inr (S_OK, m') \<and>
    holds m' (unfinished D' q) (D' - live_ids (finished D' q)) \<and>
    actions m' = actions m @ (if ids x \<subseteq> D' then case notify x of None \<Rightarrow> [] | Some n \<Rightarrow> [n] else []) \<and>
    deleted m' = deleted m @ concat (map (freed frees) (finished D' q)) \<and>
    last_available_cmdid m' =
      (if finished D' q = [] then last_available_cmdid m else end_cmdid (last (finished D' q)))"
proof -
  have ok: "manager_ok m" "queue (log_of m) = map (progress D) q" "batches_ok q D"
    using h by (simp_all add: holds_def)
  have fr: "\<forall>x \<in> set q. fresh_batch x" and dis: "sorted_wrt (\<lambda>x y. ids x \<inter> ids y = {}) q"
    and sub: "D \<subseteq> live_ids q"
    using ok(3) by (simp_all add: batches_ok_def)
  obtain pre post where q: "q = pre @ x # post" using c(1) by (meson split_list)
  define s1 where "s1 = (log_of m)\<lparr>queue := map (progress D') q, notified := notified (log_of m) @
      (if ids x \<subseteq> D' then case notify x of None \<Rightarrow> [] | Some n \<Rightarrow> [n] else [])\<rparr>"
  have find: "spec_find c (queue (log_of m)) = Inr (Some (length pre))"
    using spec_find_progress [of pre c x D post] dis fr q c(2) ok(2)
    by (auto simp: sorted_wrt_append)
  have "spec_update frees c (log_of m) = Inr (if ids x \<subseteq> D' \<and> pre = [] then spec_retire frees s1 else s1)"
    using find spec_count_progress [OF q ok(3,2) c(2,3), of frees]
    by (simp add: spec_update_def s1_def D'_def Let_def)
  moreover have keep: "finished D' q = []" "unfinished D' q = q" if "\<not> (ids x \<subseteq> D' \<and> pre = [])"
  proof -
    have "\<not> ids (hd q) \<subseteq> D'"
    proof (cases pre)
      case Nil
      then show ?thesis using that q by simp
    next
      case (Cons y ys)
      then have "c \<notin> ids y" using dis q c(2) by (auto simp: sorted_wrt_append)
      moreover have "\<not> ids y \<subseteq> D" using ok(3) q Cons by (simp add: batches_ok_def)
      ultimately show ?thesis using q Cons by (auto simp: D'_def)
    qed
    then show "finished D' q = []" "unfinished D' q = q"
      by (cases q; simp add: finished_def unfinished_def)+
  qed
  ultimately have "spec_update frees c (log_of m) = Inr (s1\<lparr>queue := map (progress D') (unfinished D' q),
      released := (if finished D' q = [] then released s1 else end_cmdid (last (finished D' q))),
      removed := removed s1 @ concat (map (freed frees) (finished D' q))\<rparr>)"
    using spec_retire_progress [OF fr, of s1 D' frees]
    by (cases "ids x \<subseteq> D' \<and> pre = []") (simp_all add: s1_def)
  then obtain m' where m': "update frees c m = Inr (S_OK, m')" "manager_ok m'"
      "log_of m' = s1\<lparr>queue := map (progress D') (unfinished D' q),
        released := (if finished D' q = [] then released s1 else end_cmdid (last (finished D' q))),
        removed := removed s1 @ concat (map (freed frees) (finished D' q))\<rparr>"
    using update_log [OF ok(1), of frees c] by auto
  have "D' \<subseteq> live_ids q" using sub c by (auto simp: D'_def live_ids_def)
  note r = retired_ids [OF dis this fr]
  have "entries (buffer m') = map (progress D') (unfinished D' q)"
    "actions m' = actions m @ (if ids x \<subseteq> D' then case notify x of None \<Rightarrow> [] | Some n \<Rightarrow> [n] else [])"
    "deleted m' = deleted m @ concat (map (freed frees) (finished D' q))"
    "last_available_cmdid m' =
      (if finished D' q = [] then last_available_cmdid m else end_cmdid (last (finished D' q)))"
    using m'(3) by (simp_all add: log_of_def s1_def)
  then show ?thesis
    using m'(1,2) r by (intro exI [of _ m']) (simp add: holds_def log_of_def)
qed

text \<open>A push of a batch whose ids are free.\<close>

lemma push_holds:
  assumes h: "holds m q D" and x: "fresh_batch x" "ids x \<inter> live_ids q = {}"
    and room: "length q < BATCH_INFO_BUFFER_SIZE - 1"
  shows "\<exists>m'. manager_push x m = Inr (True, m') \<and> holds m' (q @ [x]) D \<and> actions m' = actions m \<and>
    deleted m' = deleted m \<and> last_available_cmdid m' = last_available_cmdid m"
proof -
  have ok: "ring_ok (buffer m)" "length (array (buffer m)) = BATCH_INFO_BUFFER_SIZE"
    "entries (buffer m) = map (progress D) q" "batches_ok q D"
    using h by (simp_all add: holds_def manager_ok_def log_of_def)
  have out: "ids x \<inter> D = {}" using x(2) ok(4) by (auto simp: batches_ok_def)
  have "ids x \<noteq> {}" using x(1) by (auto simp: fresh_batch_def ids_def in_batch_def)
  then have p2: "\<not> ids x \<subseteq> D" using out by blast
  then have p: "progress D x = x" "\<not> ids x \<subseteq> D"
    using out x(1) by (cases x; simp add: progress_def fresh_batch_def)+
  have "batches_ok (q @ [x]) D"
    unfolding batches_ok_def
  proof (intro conjI)
    show "sorted_wrt (\<lambda>x y. ids x \<inter> ids y = {}) (q @ [x])"
      using ok(4) x(2) by (auto simp: batches_ok_def sorted_wrt_append live_ids_def)
    show "q @ [x] \<noteq> [] \<longrightarrow> \<not> ids (hd (q @ [x])) \<subseteq> D"
      using ok(4) p(2) by (simp add: batches_ok_def hd_append)
  qed (use ok(4) x(1) in \<open>auto simp: batches_ok_def live_ids_def\<close>)
  moreover have n: "pending (buffer m) = length q" using ok(3) by (metis length_entries length_map)
  then obtain b' where "push x (buffer m) = Inr (True, b')" "ring_ok b'" "length (array b') = BATCH_INFO_BUFFER_SIZE"
      "entries b' = map (progress D) (q @ [x])"
    using push_spec [OF ok(1), of x] ok(2,3) p(1) room by auto
  ultimately show ?thesis
    by (simp add: manager_push_def holds_def manager_ok_def log_of_def)
qed

section \<open>Properties\<close>

text \<open>
  \<^verbatim>\<open>update\<close> of the batch manager refines the list specification on every branch: on a ring of 256
  entries in any rotation, it finds the batch with the command id, counts the completion, notifies and
  marks a batch that became complete, retires the finished batches at the front in order and records
  the last command id they release; it stops with the same assertion as the specification when the
  specification does.
\<close>

theorem update_refines_log:
  assumes "manager_ok m"
  shows "case spec_update frees cmdid (log_of m) of Inl e \<Rightarrow> update frees cmdid m = Inl e
    | Inr s \<Rightarrow> \<exists>m'. update frees cmdid m = Inr (S_OK, m') \<and> manager_ok m' \<and> log_of m' = s"
  using assms by (rule update_log)

definition one_batch :: "u16 \<Rightarrow> nat \<Rightarrow> batch_info" where
  "one_batch c n = \<lparr>start_cmdid = c, end_cmdid = c, total = 1, counter = 0, notify = Some n,
     ready = True, complete = False\<rparr>"

fun updates :: "(nat \<Rightarrow> bool) \<Rightarrow> u16 list \<Rightarrow> batch_manager \<Rightarrow> batch_manager outcome" where
  "updates frees [] m = Inr m"
| "updates frees (c # cs) m = seq (update frees c m) (\<lambda>(st, m'). updates frees cs m')"

definition notify_calls :: "batch_info list \<Rightarrow> nat list" where
  "notify_calls q = concat (map (\<lambda>x. case notify x of None \<Rightarrow> [] | Some n \<Rightarrow> [n]) q)"

text \<open>The notifications still owed after one more completion.\<close>

lemma notify_calls_step:
  assumes "batches_ok q D" "x \<in> set q" "c \<in> ids x" "c \<notin> D"
  defines "D' \<equiv> insert c D"
  shows "mset (notify_calls (filter (\<lambda>y. \<not> ids y \<subseteq> D) q)) =
    mset (if ids x \<subseteq> D' then case notify x of None \<Rightarrow> [] | Some n \<Rightarrow> [n] else []) +
    mset (notify_calls (filter (\<lambda>y. \<not> ids y \<subseteq> D' - live_ids (finished D' q)) (unfinished D' q)))"
proof -
  obtain pre post where q: "q = pre @ x # post" using assms(2) by (meson split_list)
  have dis: "sorted_wrt (\<lambda>x y. ids x \<inter> ids y = {}) q" using assms(1) by (simp add: batches_ok_def)
  have out: "\<forall>y \<in> set pre \<union> set post. c \<notin> ids y"
    using q dis assms(3) by (auto simp: sorted_wrt_append)
  then have same: "filter (\<lambda>y. \<not> ids y \<subseteq> D') pre = filter (\<lambda>y. \<not> ids y \<subseteq> D) pre"
    "filter (\<lambda>y. \<not> ids y \<subseteq> D') post = filter (\<lambda>y. \<not> ids y \<subseteq> D) post"
    by (simp_all add: D'_def subset_insert cong: filter_cong)
  have split: "q = finished D' q @ unfinished D' q" by (simp add: finished_def unfinished_def)
  have "ids y \<inter> live_ids (finished D' q) = {}" if "y \<in> set (unfinished D' q)" for y
    using dis that by (subst (asm) split) (auto simp: sorted_wrt_append live_ids_def)
  then have "filter (\<lambda>y. \<not> ids y \<subseteq> D' - live_ids (finished D' q)) (unfinished D' q) =
      filter (\<lambda>y. \<not> ids y \<subseteq> D') (unfinished D' q)"
    by (intro filter_cong) auto
  also have "\<dots> = filter (\<lambda>y. \<not> ids y \<subseteq> D') q"
  proof -
    have "filter (\<lambda>y. \<not> ids y \<subseteq> D') (finished D' q) = []"
      by (auto simp: finished_def filter_empty_conv dest: set_takeWhileD)
    then show ?thesis by (metis append_Nil filter_append split)
  qed
  finally show ?thesis
    using q same assms(3,4) by (auto simp: notify_calls_def)
qed

lemma live_ids_step:
  assumes "batches_ok q D" "D' \<subseteq> live_ids q"
  shows "live_ids (unfinished D' q) - (D' - live_ids (finished D' q)) = live_ids q - D'"
proof -
  have dis: "sorted_wrt (\<lambda>x y. ids x \<inter> ids y = {}) q" using assms(1) by (simp add: batches_ok_def)
  have split: "q = finished D' q @ unfinished D' q" by (simp add: finished_def unfinished_def)
  have "live_ids (finished D' q) \<subseteq> D'"
    by (auto simp: finished_def live_ids_def dest: set_takeWhileD)
  moreover have "live_ids q = live_ids (finished D' q) \<union> live_ids (unfinished D' q)"
    by (subst split) (simp add: live_ids_def)
  moreover have "live_ids (finished D' q) \<inter> live_ids (unfinished D' q) = {}"
    using dis by (subst (asm) split) (auto simp: sorted_wrt_append live_ids_def)
  ultimately show ?thesis by blast
qed

lemma updates_all:
  assumes "holds m q D" "distinct cs" "set cs = live_ids q - D"
  shows "\<exists>m'. updates frees cs m = Inr m' \<and> holds m' [] {} \<and>
    mset (actions m') = mset (actions m) + mset (notify_calls (filter (\<lambda>y. \<not> ids y \<subseteq> D) q)) \<and>
    last_available_cmdid m' = (if q = [] then last_available_cmdid m else end_cmdid (last q))"
  using assms
proof (induction cs arbitrary: m q D)
  case Nil
  then have "live_ids q = D" by (auto simp: holds_def batches_ok_def)
  then have "q = []" using Nil by (cases q) (auto simp: holds_def batches_ok_def live_ids_def)
  then show ?case using Nil by (auto simp: holds_def batches_ok_def live_ids_def notify_calls_def)
next
  case (Cons c cs)
  then have "c \<in> live_ids q - D" by (metis list.set_intros(1))
  then obtain x where x: "x \<in> set q" "c \<in> ids x" "c \<notin> D" by (auto simp: live_ids_def)
  let ?D = "insert c D"
  let ?q = "unfinished ?D q" and ?D' = "?D - live_ids (finished ?D q)"
  obtain m1 where m1: "update frees c m = Inr (S_OK, m1)" "holds m1 ?q ?D'"
      "actions m1 = actions m @ (if ids x \<subseteq> ?D then case notify x of None \<Rightarrow> [] | Some n \<Rightarrow> [n] else [])"
      "last_available_cmdid m1 =
        (if finished ?D q = [] then last_available_cmdid m else end_cmdid (last (finished ?D q)))"
    using update_completion [OF Cons.prems(1) x, of frees] by blast
  have ok: "batches_ok q D" using Cons.prems(1) by (simp add: holds_def)
  have "?D \<subseteq> live_ids q" using ok x by (auto simp: batches_ok_def live_ids_def)
  then have "set cs = live_ids ?q - ?D'"
    using live_ids_step [OF ok] Cons.prems(2,3) by auto
  then obtain m' where m': "updates frees cs m1 = Inr m'" "holds m' [] {}"
      "mset (actions m') = mset (actions m1) + mset (notify_calls (filter (\<lambda>y. \<not> ids y \<subseteq> ?D') ?q))"
      "last_available_cmdid m' = (if ?q = [] then last_available_cmdid m1 else end_cmdid (last ?q))"
    using Cons.IH [OF m1(2)] Cons.prems(2) by auto
  have split: "q = finished ?D q @ ?q" by (simp add: finished_def unfinished_def)
  have "(if ?q = [] then last_available_cmdid m1 else end_cmdid (last ?q)) = end_cmdid (last q)"
    using m1(4) x(1) split by (metis append_Nil append_Nil2 last_append list.set_cases list.distinct(1))
  moreover have "mset (actions m') = mset (actions m) + mset (notify_calls (filter (\<lambda>y. \<not> ids y \<subseteq> D) q))"
    using m'(3) m1(3) notify_calls_step [OF ok x] by simp
  ultimately show ?case using m' m1(1) x(1) by auto
qed

text \<open>
  C29. Completions arrive in any order. When every command of the batches a manager holds completes
  once, no assertion fails, the manager becomes empty (so \<^verbatim>\<open>wait_io_completion\<close> returns), every batch's
  notification is called exactly once, and the ids up to the end of the last batch are released.
\<close>

theorem batches_complete:
  assumes "holds m q {}" "distinct cs" "set cs = live_ids q"
  shows "\<exists>m'. updates frees cs m = Inr m' \<and> wasEmpty (buffer m') \<and>
    mset (actions m') = mset (actions m) + mset (notify_calls q) \<and>
    last_available_cmdid m' = (if q = [] then last_available_cmdid m else end_cmdid (last q))"
proof -
  have "\<forall>y \<in> set q. \<not> ids y \<subseteq> {}"
    using assms(1) by (auto simp: holds_def batches_ok_def fresh_batch_def ids_def in_batch_def)
  then have "filter (\<lambda>y. \<not> ids y \<subseteq> {}) q = q" by simp
  moreover have "wasEmpty (buffer m')" if "holds m' [] {}" for m'
    using that length_entries [of "buffer m'"]
    by (auto simp: holds_def manager_ok_def log_of_def wasEmpty_def pending_def ring_ok_def split: if_splits)
  ultimately show ?thesis using updates_all [of m q "{}" cs frees] assms by auto
qed

lemma new_manager_holds: "length elems = BATCH_INFO_BUFFER_SIZE \<Longrightarrow> holds (NVME_batch_manager elems) [] {}"
  by (simp add: holds_def manager_ok_def log_of_def NVME_batch_manager_def RingBuffer_def ring_ok_def
      entries_def pending_def batches_ok_def live_ids_def BATCH_INFO_BUFFER_SIZE_def)

lemma one_batch_ids: "fresh_batch (one_batch c n)" "ids (one_batch c n) = {c}"
  by (auto simp: one_batch_def fresh_batch_def ids_def in_batch_def)

theorem batches_complete_witness:
  "\<exists>m m'. manager_push (one_batch 1 7) (NVME_batch_manager (replicate 256 (one_batch 0 0))) = Inr (True, m) \<and>
     updates (\<lambda>_. False) [1] m = Inr m' \<and> wasEmpty (buffer m') \<and> actions m' = [7] \<and> last_available_cmdid m' = 1"
proof -
  let ?m = "NVME_batch_manager (replicate 256 (one_batch 0 0))"
  have "holds ?m [] {}" by (rule new_manager_holds) (simp add: BATCH_INFO_BUFFER_SIZE_def)
  then obtain m where m: "manager_push (one_batch 1 7) ?m = Inr (True, m)" "holds m [one_batch 1 7] {}" "actions m = []"
    using push_holds [of ?m "[]" "{}" "one_batch 1 7"] one_batch_ids [of 1 7]
    by (auto simp: live_ids_def BATCH_INFO_BUFFER_SIZE_def NVME_batch_manager_def)
  then show ?thesis
    using batches_complete [of m "[one_batch 1 7]" "[1]" "\<lambda>_. False"] one_batch_ids [of 1 7]
    by (auto simp: live_ids_def notify_calls_def one_batch_def simp del: updates.simps)
qed

end
