(* ===== verification/XDK_Bytes.thy ===== *)
theory XDK_Bytes
  imports XDK_Prelude
begin

text \<open>
  Structures the program shares with devices and disks, as bytes. A C structure is the list of its
  fields with element size, alignment and number of elements; the layout rule of the ABI gives each
  field its offset. Fields are read and written little-endian in a list of bytes.
\<close>

section \<open>Layout\<close>

type_synonym c_field = "string \<times> nat \<times> nat \<times> nat"

definition aligned_offset :: "bool \<Rightarrow> nat \<Rightarrow> nat \<Rightarrow> nat" where
  "aligned_offset packed a off = (if packed \<or> off mod a = 0 then off else off + (a - off mod a))"

fun c_layout :: "bool \<Rightarrow> nat \<Rightarrow> c_field list \<Rightarrow> (string \<times> nat \<times> nat) list" where
  "c_layout packed off [] = []"
| "c_layout packed off ((f, w, a, n) # fs) =
     (f, aligned_offset packed a off, w) # c_layout packed (aligned_offset packed a off + w * n) fs"

fun c_end :: "bool \<Rightarrow> nat \<Rightarrow> c_field list \<Rightarrow> nat" where
  "c_end packed off [] = off"
| "c_end packed off ((f, w, a, n) # fs) = c_end packed (aligned_offset packed a off + w * n) fs"

definition c_align :: "c_field list \<Rightarrow> nat" where
  "c_align fs = fold max (map (\<lambda>(f, w, a, n). a) fs) 1"

definition sizeof :: "bool \<Rightarrow> c_field list \<Rightarrow> nat" where
  "sizeof packed fs = aligned_offset packed (c_align fs) (c_end packed 0 fs)"

definition field_pos :: "bool \<Rightarrow> c_field list \<Rightarrow> string \<Rightarrow> (nat \<times> nat) option" where
  "field_pos packed fs f = map_of (c_layout packed 0 fs) f"

section \<open>Little-endian access\<close>

fun put_le :: "nat \<Rightarrow> nat \<Rightarrow> nat \<Rightarrow> u8 list \<Rightarrow> u8 list" where
  "put_le off 0 v bs = bs"
| "put_le off (Suc w) v bs = put_le (Suc off) w (v div 256) (bs[off := of_nat v])"

fun get_le :: "nat \<Rightarrow> nat \<Rightarrow> u8 list \<Rightarrow> nat" where
  "get_le off 0 bs = 0"
| "get_le off (Suc w) bs = unat (bs ! off) + 256 * get_le (Suc off) w bs"

text \<open>Access to a field of a structure that starts at byte \<open>at\<close>.\<close>

definition load :: "bool \<Rightarrow> c_field list \<Rightarrow> string \<Rightarrow> nat \<Rightarrow> u8 list \<Rightarrow> nat" where
  "load packed fs f at bs = (case field_pos packed fs f of Some (off, w) \<Rightarrow> get_le (at + off) w bs | None \<Rightarrow> 0)"

definition store :: "bool \<Rightarrow> c_field list \<Rightarrow> string \<Rightarrow> nat \<Rightarrow> nat \<Rightarrow> u8 list \<Rightarrow> u8 list" where
  "store packed fs f at v bs = (case field_pos packed fs f of Some (off, w) \<Rightarrow> put_le (at + off) w v bs | None \<Rightarrow> bs)"

lemma length_put_le [simp]: "length (put_le off w v bs) = length bs"
  by (induction off w v bs rule: put_le.induct) auto

lemma length_store [simp]: "length (store packed fs f at v bs) = length bs"
  by (simp add: store_def split: option.split)

lemma get_le_cong: "(\<And>i. off \<le> i \<Longrightarrow> i < off + w \<Longrightarrow> bs ! i = bs' ! i) \<Longrightarrow> get_le off w bs = get_le off w bs'"
proof (induction w arbitrary: off)
  case (Suc w)
  then show ?case using Suc.IH [of "Suc off"] by simp
qed simp

lemma put_le_outside: "i < off \<or> off + w \<le> i \<Longrightarrow> put_le off w v bs ! i = bs ! i"
  by (induction off w v bs rule: put_le.induct) auto

lemma get_put_disjoint:
  assumes "off + w \<le> off' \<or> off' + w' \<le> off"
  shows "get_le off w (put_le off' w' v bs) = get_le off w bs"
  using assms by (intro get_le_cong put_le_outside) auto

lemma get_put_same:
  "off + w \<le> length bs \<Longrightarrow> get_le off w (put_le off w v bs) = v mod 256 ^ w"
proof (induction off w v bs rule: put_le.induct)
  case (2 off w v bs)
  have "put_le (Suc off) w (v div 256) (bs[off := of_nat v]) ! off = of_nat v"
    using 2(2) by (simp add: put_le_outside)
  then have "get_le off (Suc w) (put_le off (Suc w) v bs) = v mod 256 + 256 * (v div 256 mod 256 ^ w)"
    using 2 by (simp add: unat_of_nat)
  then show ?case by (simp add: mod_mult2_eq)
qed simp

lemma get_le_split: "get_le off (w + w') bs = get_le off w bs + 256 ^ w * get_le (off + w) w' bs"
  by (induction off w bs rule: get_le.induct) (simp_all add: algebra_simps)

lemma get_le_bound: "get_le off w bs < 256 ^ w"
proof (induction off w bs rule: get_le.induct)
  case (2 off w bs)
  then show ?case using unat_bound [of "bs ! off"] by simp
qed simp

lemma get_le_zero: "off + w \<le> n \<Longrightarrow> get_le off w (replicate n 0) = 0"
  by (induction w arbitrary: off) simp_all

lemma get_le_widths:
  "get_le off 4 bs = unat (bs ! off) + 256 * (unat (bs ! (off + 1)) + 256 * (unat (bs ! (off + 2)) + 256 * unat (bs ! (off + 3))))"
  "get_le off 8 bs = get_le off 4 bs + 256 ^ 4 * get_le (off + 4) 4 bs"
proof -
  show "get_le off 4 bs = unat (bs ! off) + 256 * (unat (bs ! (off + 1)) + 256 * (unat (bs ! (off + 2)) + 256 * unat (bs ! (off + 3))))"
  proof -
    have "4 = Suc (Suc (Suc (Suc 0)))"
      by simp
    then have "get_le off 4 bs = get_le off (Suc (Suc (Suc (Suc 0)))) bs"
      by (rule arg_cong)
    then show ?thesis
      by (simp add: numeral_2_eq_2 numeral_3_eq_3)
  qed
  show "get_le off 8 bs = get_le off 4 bs + 256 ^ 4 * get_le (off + 4) 4 bs"
    using get_le_split [of off 4 4 bs] by simp
qed

section \<open>Packed words\<close>

text \<open>Fields put together with shifts and disjunction.\<close>

lemma unat_or_push:
  fixes x y :: "'a::len word"
  assumes "unat x < 2 ^ k" "unat y * 2 ^ k < 2 ^ LENGTH('a)"
  shows "unat (x OR push_bit k y) = unat x + unat y * 2 ^ k"
proof -
  have "push_bit k (unat y) < 2 ^ LENGTH('a)" using assms(2) by (simp only: push_bit_eq_mult)
  then have p: "unat (push_bit k y) = push_bit k (unat y)"
    by (simp only: unsigned_push_bit_eq take_bit_nat_eq_self)
  have x: "take_bit k (unat x) = unat x" using assms(1) by (simp add: take_bit_nat_eq_self)
  have "take_bit k (unat x) AND push_bit k (unat y) = 0"
    by (rule bit_eqI) (auto simp: bit_simps)
  then have "unat x OR push_bit k (unat y) = unat x + push_bit k (unat y)"
    using x by (simp add: disjunctive_add_eq_or)
  then show ?thesis by (simp only: unsigned_or_eq p push_bit_eq_mult [of k "unat y"])
qed

lemma unat_and_low: "unat (x AND 0xff) = unat x mod 256" "unat (x AND 0xffff) = unat x mod 65536"
  for x :: u32
proof -
  have "x AND 0xff = take_bit 8 x" "x AND 0xffff = take_bit 16 x"
    by (simp_all add: take_bit_eq_mask mask_eq_exp_minus_1)
  then show "unat (x AND 0xff) = unat x mod 256" "unat (x AND 0xffff) = unat x mod 65536"
    by (simp_all add: unsigned_take_bit_eq take_bit_nat_def)
qed

end
