(* ===== verification/XDK_NVMe_Structs.thy ===== *)
theory XDK_NVMe_Structs
  imports XDK_Bytes
begin

text \<open>
  The structures of \<^verbatim>\<open>drivers/nvme-ssd/nvme_command_structs.h\<close> and the slots of
  \<^verbatim>\<open>drivers/nvme-ssd/nvme_command.h\<close>. A submission slot is its 64 bytes, because the driver writes it
  through several overlaid structures; a completion slot is a record, since the driver only reads its
  fields.
\<close>

section \<open>Structures\<close>

definition nvme_sub_command_common :: "c_field list" where
  "nvme_sub_command_common =
    [(''opcode'', 1, 1, 1), (''fuse'', 1, 1, 1), (''command_id'', 2, 2, 1), (''nsid'', 4, 4, 1),
     (''cdw2'', 4, 4, 2), (''metadata'', 8, 8, 1), (''prp1'', 8, 8, 1), (''prp2'', 8, 8, 1),
     (''cdw10'', 4, 4, 1), (''cdw11'', 4, 4, 1), (''cdw12'', 4, 4, 1), (''cdw13'', 4, 4, 1),
     (''cdw14'', 4, 4, 1), (''cdw15'', 4, 4, 1)]"

definition nvme_id_power_state :: "c_field list" where
  "nvme_id_power_state =
    [(''max_power'', 2, 2, 1), (''rsvd2'', 2, 2, 1), (''entry_lat'', 4, 4, 1),
     (''exit_lat'', 4, 4, 1), (''read_tput'', 1, 1, 1), (''read_lat'', 1, 1, 1),
     (''write_tput'', 1, 1, 1), (''write_lat'', 1, 1, 1), (''rsvd16'', 1, 1, 16)]"

definition nvme_id_ctrl :: "c_field list" where
  "nvme_id_ctrl =
    [(''vid'', 2, 2, 1), (''ssvid'', 2, 2, 1), (''sn'', 1, 1, 20), (''mn'', 1, 1, 40),
     (''fr'', 1, 1, 8), (''rab'', 1, 1, 1), (''ieee'', 1, 1, 3), (''mic'', 1, 1, 1),
     (''mdts'', 1, 1, 1), (''rsvd78'', 1, 1, 178), (''oacs'', 2, 2, 1), (''acl'', 1, 1, 1),
     (''aerl'', 1, 1, 1), (''frmw'', 1, 1, 1), (''lpa'', 1, 1, 1), (''elpe'', 1, 1, 1),
     (''npss'', 1, 1, 1), (''rsvd264'', 1, 1, 248), (''sqes'', 1, 1, 1), (''cqes'', 1, 1, 1),
     (''rsvd514'', 1, 1, 2), (''nn'', 4, 4, 1), (''oncs'', 2, 2, 1), (''fuses'', 2, 2, 1),
     (''fna'', 1, 1, 1), (''vwc'', 1, 1, 1), (''awun'', 2, 2, 1), (''awupf'', 2, 2, 1),
     (''rsvd530'', 1, 1, 1518), (''psd'', 32, 4, 32), (''vs'', 1, 1, 1024)]"

definition nvme_lbaf :: "c_field list" where
  "nvme_lbaf =
    [(''ms'', 2, 2, 1), (''ds'', 1, 1, 1), (''rp'', 1, 1, 1)]"

definition nvme_id_ns :: "c_field list" where
  "nvme_id_ns =
    [(''nsze'', 8, 8, 1), (''ncap'', 8, 8, 1), (''nuse'', 8, 8, 1), (''nsfeat'', 1, 1, 1),
     (''nlbaf'', 1, 1, 1), (''flbas'', 1, 1, 1), (''mc'', 1, 1, 1), (''dpc'', 1, 1, 1),
     (''dps'', 1, 1, 1), (''rsvd30'', 1, 1, 98), (''lbaf'', 4, 2, 16), (''rsvd192'', 1, 1, 192),
     (''vs'', 1, 1, 3712)]"

definition nvme_smart_log :: "c_field list" where
  "nvme_smart_log =
    [(''critical_warning'', 1, 1, 1), (''temperature'', 1, 1, 2), (''avail_spare'', 1, 1, 1),
     (''spare_thresh'', 1, 1, 1), (''percent_used'', 1, 1, 1), (''rsvd6'', 1, 1, 26),
     (''data_units_read'', 1, 1, 16), (''data_units_written'', 1, 1, 16), (''host_reads'', 1, 1, 16),
     (''host_writes'', 1, 1, 16), (''ctrl_busy_time'', 1, 1, 16), (''power_cycles'', 1, 1, 16),
     (''power_on_hours'', 1, 1, 16), (''unsafe_shutdowns'', 1, 1, 16), (''media_errors'', 1, 1, 16),
     (''num_err_log_entries'', 1, 1, 16), (''rsvd192'', 1, 1, 320)]"

definition nvme_lba_range_type :: "c_field list" where
  "nvme_lba_range_type =
    [(''type'', 1, 1, 1), (''attributes'', 1, 1, 1), (''rsvd2'', 1, 1, 14), (''slba'', 8, 8, 1),
     (''nlb'', 8, 8, 1), (''guid'', 1, 1, 16), (''rsvd48'', 1, 1, 16)]"

definition nvme_rw_command :: "c_field list" where
  "nvme_rw_command =
    [(''opcode'', 1, 1, 1), (''flags'', 1, 1, 1), (''command_id'', 2, 2, 1), (''nsid'', 4, 4, 1),
     (''rsvd2'', 8, 8, 1), (''metadata'', 8, 8, 1), (''prp1'', 8, 8, 1), (''prp2'', 8, 8, 1),
     (''slba'', 8, 8, 1), (''length'', 2, 2, 1), (''control'', 2, 2, 1), (''dsmgmt'', 4, 4, 1),
     (''reftag'', 4, 4, 1), (''apptag'', 2, 2, 1), (''appmask'', 2, 2, 1)]"

definition nvme_dsm_cmd :: "c_field list" where
  "nvme_dsm_cmd =
    [(''opcode'', 1, 1, 1), (''flags'', 1, 1, 1), (''command_id'', 2, 2, 1), (''nsid'', 4, 4, 1),
     (''rsvd2'', 8, 8, 2), (''prp1'', 8, 8, 1), (''prp2'', 8, 8, 1), (''nr'', 4, 4, 1),
     (''attributes'', 4, 4, 1), (''rsvd12'', 4, 4, 4)]"

definition nvme_dsm_range :: "c_field list" where
  "nvme_dsm_range =
    [(''cattr'', 4, 4, 1), (''nlb'', 4, 4, 1), (''slba'', 8, 8, 1)]"

definition nvme_identify :: "c_field list" where
  "nvme_identify =
    [(''opcode'', 1, 1, 1), (''flags'', 1, 1, 1), (''command_id'', 2, 2, 1), (''nsid'', 4, 4, 1),
     (''rsvd2'', 8, 8, 2), (''prp1'', 8, 8, 1), (''prp2'', 8, 8, 1), (''cns'', 4, 4, 1),
     (''rsvd11'', 4, 4, 5)]"

definition nvme_features :: "c_field list" where
  "nvme_features =
    [(''opcode'', 1, 1, 1), (''flags'', 1, 1, 1), (''command_id'', 2, 2, 1), (''nsid'', 4, 4, 1),
     (''rsvd2'', 8, 8, 2), (''prp1'', 8, 8, 1), (''prp2'', 8, 8, 1), (''fid'', 4, 4, 1),
     (''dword11'', 4, 4, 1), (''rsvd12'', 4, 4, 4)]"

definition nvme_create_cq :: "c_field list" where
  "nvme_create_cq =
    [(''opcode'', 1, 1, 1), (''flags'', 1, 1, 1), (''command_id'', 2, 2, 1), (''rsvd1'', 4, 4, 5),
     (''prp1'', 8, 8, 1), (''rsvd8'', 8, 8, 1), (''cqid'', 2, 2, 1), (''qsize'', 2, 2, 1),
     (''cq_flags'', 2, 2, 1), (''irq_vector'', 2, 2, 1), (''rsvd12'', 4, 4, 4)]"

definition nvme_create_sq :: "c_field list" where
  "nvme_create_sq =
    [(''opcode'', 1, 1, 1), (''flags'', 1, 1, 1), (''command_id'', 2, 2, 1), (''rsvd1'', 4, 4, 5),
     (''prp1'', 8, 8, 1), (''rsvd8'', 8, 8, 1), (''sqid'', 2, 2, 1), (''qsize'', 2, 2, 1),
     (''sq_flags'', 2, 2, 1), (''cqid'', 2, 2, 1), (''rsvd12'', 4, 4, 4)]"

definition nvme_delete_queue :: "c_field list" where
  "nvme_delete_queue =
    [(''opcode'', 1, 1, 1), (''flags'', 1, 1, 1), (''command_id'', 2, 2, 1), (''rsvd1'', 4, 4, 9),
     (''qid'', 2, 2, 1), (''rsvd10'', 2, 2, 1), (''rsvd11'', 4, 4, 5)]"

definition nvme_download_firmware :: "c_field list" where
  "nvme_download_firmware =
    [(''opcode'', 1, 1, 1), (''flags'', 1, 1, 1), (''command_id'', 2, 2, 1), (''rsvd1'', 4, 4, 5),
     (''prp1'', 8, 8, 1), (''prp2'', 8, 8, 1), (''numd'', 4, 4, 1), (''offset'', 4, 4, 1),
     (''rsvd12'', 4, 4, 4)]"

definition nvme_format_cmd :: "c_field list" where
  "nvme_format_cmd =
    [(''opcode'', 1, 1, 1), (''flags'', 1, 1, 1), (''command_id'', 2, 2, 1), (''nsid'', 4, 4, 1),
     (''rsvd2'', 8, 8, 4), (''cdw10'', 4, 4, 1), (''rsvd11'', 4, 4, 5)]"

definition nvme_completion :: "c_field list" where
  "nvme_completion =
    [(''result'', 4, 4, 1), (''rsvd'', 4, 4, 1), (''sq_head'', 2, 2, 1), (''sq_id'', 2, 2, 1),
     (''command_id'', 2, 2, 1), (''status'', 2, 2, 1)]"

definition nvme_user_io :: "c_field list" where
  "nvme_user_io =
    [(''opcode'', 1, 1, 1), (''flags'', 1, 1, 1), (''control'', 2, 2, 1), (''nblocks'', 2, 2, 1),
     (''rsvd'', 2, 2, 1), (''metadata'', 8, 8, 1), (''addr'', 8, 8, 1), (''slba'', 8, 8, 1),
     (''dsmgmt'', 4, 4, 1), (''reftag'', 4, 4, 1), (''apptag'', 2, 2, 1), (''appmask'', 2, 2, 1)]"

definition nvme_admin_cmd :: "c_field list" where
  "nvme_admin_cmd =
    [(''opcode'', 1, 1, 1), (''flags'', 1, 1, 1), (''rsvd1'', 2, 2, 1), (''nsid'', 4, 4, 1),
     (''cdw2'', 4, 4, 1), (''cdw3'', 4, 4, 1), (''metadata'', 8, 8, 1), (''addr'', 8, 8, 1),
     (''metadata_len'', 4, 4, 1), (''data_len'', 4, 4, 1), (''cdw10'', 4, 4, 1),
     (''cdw11'', 4, 4, 1), (''cdw12'', 4, 4, 1), (''cdw13'', 4, 4, 1), (''cdw14'', 4, 4, 1),
     (''cdw15'', 4, 4, 1), (''timeout_ms'', 4, 4, 1), (''result'', 4, 4, 1)]"

text \<open>
  A completion entry. The last 16 bits are the phase tag (bit 0) and the status; \<^verbatim>\<open>nvme_completion\<close>
  overlays the same bytes with one 16-bit field.
\<close>

record nvme_comp_command_common =
  dw0 :: u32
  dw1 :: u32
  sq_hdptr :: u16
  sq_id :: u16
  command_id :: u16
  phase_tag :: "1 word"
  status_field :: "15 word"

definition completion_result :: "nvme_comp_command_common \<Rightarrow> u32" where
  "completion_result c = dw0 c"

definition completion_status :: "nvme_comp_command_common \<Rightarrow> u16" where
  "completion_status c = ucast (phase_tag c) + push_bit 1 (ucast (status_field c))"

definition zero_completion :: nvme_comp_command_common where
  "zero_completion = \<lparr>dw0 = 0, dw1 = 0, sq_hdptr = 0, sq_id = 0, command_id = 0, phase_tag = 0, status_field = 0\<rparr>"

text \<open>The dataset-management hints: four bit fields in one byte.\<close>

record nvme_io_dsm =
  access_freq :: "4 word"
  access_lat :: "2 word"
  seq_request :: "1 word"
  incompressible :: "1 word"

definition dsm_byte :: "nvme_io_dsm \<Rightarrow> u8" where
  "dsm_byte d = ucast (access_freq d) OR push_bit 4 (ucast (access_lat d)) OR
     push_bit 6 (ucast (seq_request d)) OR push_bit 7 (ucast (incompressible d))"

section \<open>Codes\<close>

datatype nvme_opcode = nvme_cmd_flush | nvme_cmd_write | nvme_cmd_read | nvme_cmd_write_uncor
  | nvme_cmd_compare | nvme_cmd_dsm

fun opcode_val :: "nvme_opcode \<Rightarrow> u8" where
  "opcode_val nvme_cmd_flush = 0x00"
| "opcode_val nvme_cmd_write = 0x01"
| "opcode_val nvme_cmd_read = 0x02"
| "opcode_val nvme_cmd_write_uncor = 0x04"
| "opcode_val nvme_cmd_compare = 0x05"
| "opcode_val nvme_cmd_dsm = 0x09"

datatype nvme_admin_opcode = nvme_admin_delete_sq | nvme_admin_create_sq | nvme_admin_get_log_page
  | nvme_admin_delete_cq | nvme_admin_create_cq | nvme_admin_identify | nvme_admin_abort_cmd
  | nvme_admin_set_features | nvme_admin_get_features | nvme_admin_async_event | nvme_admin_activate_fw
  | nvme_admin_download_fw | nvme_admin_format_nvm | nvme_admin_security_send | nvme_admin_security_recv

fun admin_opcode_val :: "nvme_admin_opcode \<Rightarrow> u8" where
  "admin_opcode_val nvme_admin_delete_sq = 0x00"
| "admin_opcode_val nvme_admin_create_sq = 0x01"
| "admin_opcode_val nvme_admin_get_log_page = 0x02"
| "admin_opcode_val nvme_admin_delete_cq = 0x04"
| "admin_opcode_val nvme_admin_create_cq = 0x05"
| "admin_opcode_val nvme_admin_identify = 0x06"
| "admin_opcode_val nvme_admin_abort_cmd = 0x08"
| "admin_opcode_val nvme_admin_set_features = 0x09"
| "admin_opcode_val nvme_admin_get_features = 0x0a"
| "admin_opcode_val nvme_admin_async_event = 0x0c"
| "admin_opcode_val nvme_admin_activate_fw = 0x10"
| "admin_opcode_val nvme_admin_download_fw = 0x11"
| "admin_opcode_val nvme_admin_format_nvm = 0x80"
| "admin_opcode_val nvme_admin_security_send = 0x81"
| "admin_opcode_val nvme_admin_security_recv = 0x82"

section \<open>Submission slots\<close>

text \<open>\<^verbatim>\<open>clear\<close> zeroes the whole slot; \<open>raw_set\<close> writes a field through an overlaid structure.\<close>

type_synonym sub_slot = "u8 list"

definition clear :: "sub_slot \<Rightarrow> sub_slot" where
  "clear sc = replicate (sizeof True nvme_sub_command_common) 0"

abbreviation raw_set :: "c_field list \<Rightarrow> string \<Rightarrow> nat \<Rightarrow> sub_slot \<Rightarrow> sub_slot" where
  "raw_set st f v sc \<equiv> store False st f 0 v sc"

abbreviation sc_set :: "string \<Rightarrow> nat \<Rightarrow> sub_slot \<Rightarrow> sub_slot" where
  "sc_set f v sc \<equiv> store True nvme_sub_command_common f 0 v sc"

abbreviation sc_get :: "string \<Rightarrow> sub_slot \<Rightarrow> nat" where
  "sc_get f sc \<equiv> load True nvme_sub_command_common f 0 sc"

section \<open>Positions\<close>

lemmas struct_defs = nvme_sub_command_common_def nvme_id_power_state_def nvme_id_ctrl_def
  nvme_lbaf_def nvme_id_ns_def nvme_smart_log_def nvme_lba_range_type_def nvme_rw_command_def
  nvme_dsm_cmd_def nvme_dsm_range_def nvme_identify_def nvme_features_def nvme_create_cq_def
  nvme_create_sq_def nvme_delete_queue_def nvme_download_firmware_def nvme_format_cmd_def
  nvme_completion_def nvme_user_io_def nvme_admin_cmd_def

named_theorems nvme_pos

lemma common_pos [nvme_pos]:
  "field_pos True nvme_sub_command_common ''opcode'' = Some (0, 1)"
  "field_pos True nvme_sub_command_common ''command_id'' = Some (2, 2)"
  "field_pos True nvme_sub_command_common ''nsid'' = Some (4, 4)"
  "field_pos True nvme_sub_command_common ''prp1'' = Some (24, 8)"
  "field_pos True nvme_sub_command_common ''prp2'' = Some (32, 8)"
  "field_pos True nvme_sub_command_common ''cdw10'' = Some (40, 4)"
  "field_pos True nvme_sub_command_common ''cdw11'' = Some (44, 4)"
  "field_pos True nvme_sub_command_common ''cdw12'' = Some (48, 4)"
  "field_pos True nvme_sub_command_common ''cdw13'' = Some (52, 4)"
  by code_simp+

lemma rw_pos [nvme_pos]:
  "field_pos False nvme_rw_command ''opcode'' = Some (0, 1)"
  "field_pos False nvme_rw_command ''command_id'' = Some (2, 2)"
  "field_pos False nvme_rw_command ''nsid'' = Some (4, 4)"
  "field_pos False nvme_rw_command ''prp1'' = Some (24, 8)"
  "field_pos False nvme_rw_command ''slba'' = Some (40, 8)"
  "field_pos False nvme_rw_command ''length'' = Some (48, 2)"
  "field_pos False nvme_rw_command ''dsmgmt'' = Some (52, 4)"
  by code_simp+

lemma features_pos [nvme_pos]:
  "field_pos False nvme_features ''opcode'' = Some (0, 1)"
  "field_pos False nvme_features ''nsid'' = Some (4, 4)"
  "field_pos False nvme_features ''prp1'' = Some (24, 8)"
  "field_pos False nvme_features ''fid'' = Some (40, 4)"
  "field_pos False nvme_features ''dword11'' = Some (44, 4)"
  by code_simp+

lemma create_pos [nvme_pos]:
  "field_pos False nvme_create_sq ''opcode'' = Some (0, 1)"
  "field_pos False nvme_create_sq ''prp1'' = Some (24, 8)"
  "field_pos False nvme_create_sq ''sqid'' = Some (40, 2)"
  "field_pos False nvme_create_sq ''qsize'' = Some (42, 2)"
  "field_pos False nvme_create_sq ''sq_flags'' = Some (44, 2)"
  "field_pos False nvme_create_sq ''cqid'' = Some (46, 2)"
  "field_pos False nvme_create_cq ''opcode'' = Some (0, 1)"
  "field_pos False nvme_create_cq ''prp1'' = Some (24, 8)"
  "field_pos False nvme_create_cq ''cqid'' = Some (40, 2)"
  "field_pos False nvme_create_cq ''qsize'' = Some (42, 2)"
  "field_pos False nvme_create_cq ''cq_flags'' = Some (44, 2)"
  "field_pos False nvme_create_cq ''irq_vector'' = Some (46, 2)"
  by code_simp+

lemma delete_format_pos [nvme_pos]:
  "field_pos False nvme_delete_queue ''opcode'' = Some (0, 1)"
  "field_pos False nvme_delete_queue ''qid'' = Some (40, 2)"
  "field_pos False nvme_format_cmd ''opcode'' = Some (0, 1)"
  "field_pos False nvme_format_cmd ''nsid'' = Some (4, 4)"
  "field_pos False nvme_format_cmd ''cdw10'' = Some (40, 4)"
  by code_simp+

lemma length_clear [simp]: "length (clear sc) = 64"
  by (simp add: clear_def sizeof_def nvme_sub_command_common_def c_align_def aligned_offset_def)

lemma get_clear [simp]: "off + w \<le> 64 \<Longrightarrow> get_le off w (clear sc) = 0"
  by (simp add: get_le_zero clear_def sizeof_def nvme_sub_command_common_def c_align_def aligned_offset_def)

section \<open>Properties\<close>

definition command_structs :: "c_field list list" where
  "command_structs = [nvme_rw_command, nvme_dsm_cmd, nvme_identify, nvme_features, nvme_create_cq, nvme_create_sq,
     nvme_delete_queue, nvme_download_firmware, nvme_format_cmd]"

text \<open>
  Layout of the structures shared with the controller. Every command structure the driver lays over
  a submission slot is 64 bytes long, like the slot, has no padding, and has the opcode, the flags and the
  command id where the slot has them. The identify structures are one page (4096 bytes), the completion entry
  is 16 bytes, and every reserved field lies at the offset its name gives.
\<close>

theorem command_layouts:
  "list_all (\<lambda>st. sizeof False st = sizeof True nvme_sub_command_common \<and> c_layout False 0 st = c_layout True 0 st \<and>
       field_pos False st ''opcode'' = Some (0, 1) \<and> field_pos False st ''flags'' = Some (1, 1) \<and>
       field_pos False st ''command_id'' = field_pos True nvme_sub_command_common ''command_id'') command_structs \<and>
   sizeof True nvme_sub_command_common = 64 \<and> sizeof False nvme_completion = 16 \<and>
   sizeof False nvme_id_ctrl = 4096 \<and> sizeof False nvme_id_ns = 4096 \<and> sizeof False nvme_smart_log = 512 \<and>
   sizeof False nvme_id_power_state = 32 \<and> sizeof False nvme_lbaf = 4 \<and> sizeof False nvme_lba_range_type = 64 \<and>
   sizeof False nvme_dsm_range = 16 \<and> sizeof False nvme_user_io = 48 \<and> sizeof False nvme_admin_cmd = 72 \<and>
   field_pos False nvme_id_ctrl ''rsvd78'' = Some (78, 1) \<and> field_pos False nvme_id_ctrl ''rsvd264'' = Some (264, 1) \<and>
   field_pos False nvme_id_ctrl ''rsvd514'' = Some (514, 1) \<and> field_pos False nvme_id_ctrl ''rsvd530'' = Some (530, 1) \<and>
   field_pos False nvme_id_ns ''rsvd30'' = Some (30, 1) \<and> field_pos False nvme_id_ns ''rsvd192'' = Some (192, 1) \<and>
   field_pos False nvme_smart_log ''rsvd6'' = Some (6, 1) \<and> field_pos False nvme_smart_log ''rsvd192'' = Some (192, 1) \<and>
   field_pos False nvme_lba_range_type ''rsvd48'' = Some (48, 1)"
  by (simp add: struct_defs command_structs_def sizeof_def c_align_def aligned_offset_def field_pos_def del: One_nat_def)

end
