(* ===== verification/XDK_NVMe_Registers.thy ===== *)
theory XDK_NVMe_Registers
  imports XDK_Utils
begin

text \<open>
  The controller registers of the NVMe driver: \<^verbatim>\<open>drivers/nvme-ssd/nvme_registers.h\<close> (register map and
  field macros) and \<^verbatim>\<open>nvme_registers_wrappers.h\<close> (accessors). Registers are memory the driver reads and
  writes; what the device does between two accesses is not part of these definitions.
\<close>

section \<open>Register map\<close>

record NVME_register_map =
  reg_cap :: u64
  reg_vs :: u32
  reg_intms :: u32
  reg_intmc :: u32
  reg_cc :: u32
  reg_csts :: u32
  reg_aqa_attr :: u32
  reg_asq_base :: u64
  reg_acq_base :: u64

definition NVME_CAP_CQR :: "u64 \<Rightarrow> u64" where
  "NVME_CAP_CQR cap = cap AND 0x10000"

definition NVME_CAP_MQES :: "u64 \<Rightarrow> u64" where
  "NVME_CAP_MQES cap = cap AND 0xffff"

definition NVME_CAP_TIMEOUT :: "u64 \<Rightarrow> u64" where
  "NVME_CAP_TIMEOUT cap = drop_bit 24 cap AND 0xff"

definition NVME_CAP_STRIDE :: "u64 \<Rightarrow> u64" where
  "NVME_CAP_STRIDE cap = drop_bit 32 cap AND 0xf"

definition NVME_CAP_MPSMIN :: "u64 \<Rightarrow> u64" where
  "NVME_CAP_MPSMIN cap = drop_bit 48 cap AND 0xf"

definition NVME_CAP_MPSMAX :: "u64 \<Rightarrow> u64" where
  "NVME_CAP_MPSMAX cap = drop_bit 51 cap AND 0xf"

definition NVME_CAP_NSSRS :: "u64 \<Rightarrow> u64" where
  "NVME_CAP_NSSRS cap = drop_bit 36 cap AND 0x1"

definition NVME_CAP_AMS :: "u64 \<Rightarrow> u32" where
  "NVME_CAP_AMS cap = ucast (drop_bit 16 cap AND 0x3)"

definition NVME_CSTS_RDY :: "u32 \<Rightarrow> u32" where
  "NVME_CSTS_RDY csts = csts AND 0x1"

definition NVME_CSTS_CFS :: "u32 \<Rightarrow> u32" where
  "NVME_CSTS_CFS csts = drop_bit 1 csts AND 0x1"

definition NVME_CSTS_SHST :: "u32 \<Rightarrow> u32" where
  "NVME_CSTS_SHST csts = drop_bit 2 csts AND 0x3"

text \<open>The offsets of the doorbells, computed in 32-bit unsigned arithmetic and passed as \<^verbatim>\<open>off_t\<close>.\<close>

definition NVME_OFFSET_SUBMISSION_DB :: "u32 \<Rightarrow> u32 \<Rightarrow> u32" where
  "NVME_OFFSET_SUBMISSION_DB q stride = 0x1000 + (2 * q) * push_bit (unat stride) 4"

definition NVME_OFFSET_COMPLETION_DB :: "u32 \<Rightarrow> u32 \<Rightarrow> u32" where
  "NVME_OFFSET_COMPLETION_DB q stride = 0x1000 + ((2 * q) + 1) * push_bit (unat stride) 4"

section \<open>Accessors\<close>

definition version :: "NVME_register_map \<Rightarrow> u16" where
  "version r = ucast (drop_bit 16 (reg_vs r))"

definition mqes :: "NVME_register_map \<Rightarrow> u16" where
  "mqes r = ucast (NVME_CAP_MQES (reg_cap r))"

definition set_cc :: "u32 \<Rightarrow> NVME_register_map \<Rightarrow> NVME_register_map" where
  "set_cc v r = r\<lparr>reg_cc := v OR 0x1\<rparr>"

definition cc_enable :: "NVME_register_map \<Rightarrow> NVME_register_map" where
  "cc_enable r = r\<lparr>reg_cc := reg_cc r OR 0x1\<rparr>"

definition cc_disable :: "NVME_register_map \<Rightarrow> NVME_register_map" where
  "cc_disable r = r\<lparr>reg_cc := reg_cc r AND NOT 0x1\<rparr>"

definition csts_ready :: "NVME_register_map \<Rightarrow> u32" where
  "csts_ready r = NVME_CSTS_RDY (reg_csts r)"

definition csts_cfs :: "NVME_register_map \<Rightarrow> u32" where
  "csts_cfs r = NVME_CSTS_CFS (reg_csts r)"

definition csts_shst :: "NVME_register_map \<Rightarrow> u32" where
  "csts_shst r = NVME_CSTS_SHST (reg_csts r)"

definition asqs :: "NVME_register_map \<Rightarrow> u32" where
  "asqs r = reg_aqa_attr r AND 0xfff"

definition set_asqs :: "u32 \<Rightarrow> NVME_register_map \<Rightarrow> NVME_register_map" where
  "set_asqs v r = r\<lparr>reg_aqa_attr := reg_aqa_attr r OR (v AND 0xfff)\<rparr>"

definition acqs :: "NVME_register_map \<Rightarrow> u32" where
  "acqs r = drop_bit 16 (reg_aqa_attr r) AND 0xfff"

definition set_acqs :: "u32 \<Rightarrow> NVME_register_map \<Rightarrow> NVME_register_map" where
  "set_acqs v r = r\<lparr>reg_aqa_attr := reg_aqa_attr r OR push_bit 16 (v AND 0xfff)\<rparr>"

definition set_asq_base :: "u64 \<Rightarrow> NVME_register_map \<Rightarrow> NVME_register_map" where
  "set_asq_base v r = r\<lparr>reg_asq_base := v\<rparr>"

definition set_acq_base :: "u64 \<Rightarrow> NVME_register_map \<Rightarrow> NVME_register_map" where
  "set_acq_base v r = r\<lparr>reg_acq_base := v\<rparr>"

definition dstrd :: "NVME_register_map \<Rightarrow> u32" where
  "dstrd r = ucast (NVME_CAP_STRIDE (reg_cap r))"

definition timeout :: "NVME_register_map \<Rightarrow> u32" where
  "timeout r = ucast (NVME_CAP_TIMEOUT (reg_cap r))"

text \<open>The sanity checks on the capabilities: every failing one is a failed assertion.\<close>

definition check_registers :: "NVME_register_map \<Rightarrow> unit outcome" where
  "check_registers r =
     check (version r = 1) Assertion
     (check (push_bit (2 + unat (NVME_CAP_STRIDE (reg_cap r))) 1 = (4 :: u64)) Assertion
     (check (push_bit (unat (NVME_CAP_MPSMIN (reg_cap r)) + 12) 1 = (4096 :: u64)) Assertion
     (check (reg_cap r AND push_bit 37 1 \<noteq> 0) Assertion (Inr ()))))"

section \<open>Doorbells\<close>

lemma doorbell_unat:
  assumes "unat q * 2 ^ (unat stride + 3) + 0x1000 + 2 ^ (unat stride + 2) < 2 ^ 32"
  shows "unat (NVME_OFFSET_SUBMISSION_DB q stride) = 0x1000 + unat q * 2 ^ (unat stride + 3)"
    "unat (NVME_OFFSET_COMPLETION_DB q stride) = 0x1000 + unat q * 2 ^ (unat stride + 3) + 2 ^ (unat stride + 2)"
proof -
  let ?e = "2 ^ (unat stride + 2) :: nat"
  have p: "push_bit (unat stride) 4 = (of_nat ?e :: u32)"
    by (simp add: push_bit_eq_mult power_add)
  have s: "NVME_OFFSET_SUBMISSION_DB q stride = of_nat (0x1000 + unat q * 2 ^ (unat stride + 3))"
    by (simp add: NVME_OFFSET_SUBMISSION_DB_def p power_add algebra_simps)
  have c: "NVME_OFFSET_COMPLETION_DB q stride = of_nat (0x1000 + unat q * 2 ^ (unat stride + 3) + ?e)"
    by (simp add: NVME_OFFSET_COMPLETION_DB_def p power_add algebra_simps)
  show "unat (NVME_OFFSET_SUBMISSION_DB q stride) = 0x1000 + unat q * 2 ^ (unat stride + 3)"
    unfolding s using assms by (subst unat_of_nat) (simp add: power_add)
  show "unat (NVME_OFFSET_COMPLETION_DB q stride) = 0x1000 + unat q * 2 ^ (unat stride + 3) + 2 ^ (unat stride + 2)"
    unfolding c using assms by (subst unat_of_nat) (simp add: power_add)
qed

text \<open>
  Doorbell registers. While the offsets fit in 32 bits, the doorbells of all queues are distinct
  four-byte registers above the register map: the submission and the completion doorbell of a queue are
  one stride apart, and those of two queues do not overlap. With the stride the driver requires (four
  bytes) this covers every 16-bit queue id.
\<close>

theorem doorbells_disjoint:
  assumes "unat q < unat q'" "unat q' * 2 ^ (unat stride + 3) + 0x1000 + 2 ^ (unat stride + 2) < 2 ^ 32"
  shows "0x1000 \<le> NVME_OFFSET_SUBMISSION_DB q stride \<and>
    unat (NVME_OFFSET_SUBMISSION_DB q stride) + 4 \<le> unat (NVME_OFFSET_COMPLETION_DB q stride) \<and>
    unat (NVME_OFFSET_COMPLETION_DB q stride) + 4 \<le> unat (NVME_OFFSET_SUBMISSION_DB q' stride) \<and>
    unat (NVME_OFFSET_SUBMISSION_DB q' stride) + 4 \<le> unat (NVME_OFFSET_COMPLETION_DB q' stride)"
proof -
  let ?e = "2 ^ (unat stride + 2) :: nat" and ?d = "2 ^ (unat stride + 3) :: nat"
  have e: "4 \<le> ?e" "?d = 2 * ?e" by (simp_all add: power_add)
  have m: "unat q * ?d + ?d \<le> unat q' * ?d"
    using mult_le_mono1 [of "Suc (unat q)" "unat q'" ?d] assms(1) by simp
  then have "unat q * ?d + 0x1000 + ?e < 2 ^ 32" using assms(2) by linarith
  note u = doorbell_unat [OF this] doorbell_unat [OF assms(2)]
  have "0x1000 \<le> unat (NVME_OFFSET_SUBMISSION_DB q stride)" using u(1) by linarith
  then have "0x1000 \<le> NVME_OFFSET_SUBMISSION_DB q stride" by (simp add: word_le_nat_alt)
  moreover have "unat q * ?d + ?e + 4 \<le> unat q' * ?d" using m e by linarith
  ultimately show ?thesis unfolding u using e(1) by linarith
qed

lemma shifted_one_iff:
  fixes x :: u64
  assumes "x = y AND 0xf" "k + 15 < 64"
  shows "push_bit (k + unat x) 1 = (2 ^ k :: u64) \<longleftrightarrow> x = 0"
proof -
  have "unat x < 16" using assms(1) unat_and_mask [of y 4] by (simp add: mask_eq_exp_minus_1)
  then have "(2 ^ (k + unat x) :: u64) = 2 ^ k \<longleftrightarrow> unat x = 0"
    using assms(2) unat_exp [of "k + unat x", where ?'a = 64] unat_exp [of k, where ?'a = 64]
    by (auto simp: word_unat_eq_iff)
  then show ?thesis by (simp add: push_bit_eq_mult word_unat_eq_iff [of x])
qed

text \<open>
  The checks of the capability register accept exactly version 1 controllers with packed doorbells,
  4 KB minimum pages and the NVMe command set bit the code tests; then the doorbell stride is 0, so
  \<^verbatim>\<open>setup_doorbells\<close> uses consecutive four-byte registers.
\<close>

theorem check_registers_exact:
  "check_registers r =
     (if version r = 1 \<and> NVME_CAP_STRIDE (reg_cap r) = 0 \<and> NVME_CAP_MPSMIN (reg_cap r) = 0 \<and> bit (reg_cap r) 37
      then Inr () else Inl Assertion)"
proof -
  have "push_bit (2 + unat (NVME_CAP_STRIDE (reg_cap r))) 1 = (4 :: u64) \<longleftrightarrow> NVME_CAP_STRIDE (reg_cap r) = 0"
    using shifted_one_iff [OF NVME_CAP_STRIDE_def [of "reg_cap r"], of 2] by simp
  moreover have "push_bit (unat (NVME_CAP_MPSMIN (reg_cap r)) + 12) 1 = (4096 :: u64) \<longleftrightarrow> NVME_CAP_MPSMIN (reg_cap r) = 0"
    using shifted_one_iff [OF NVME_CAP_MPSMIN_def [of "reg_cap r"], of 12] by (simp add: add.commute)
  moreover have "reg_cap r AND push_bit 37 1 \<noteq> 0 \<longleftrightarrow> bit (reg_cap r) 37"
    using and_exp_eq_0_iff_not_bit [of "reg_cap r" 37] by simp
  ultimately show ?thesis by (simp add: check_registers_def check_def)
qed

end
