(* ===== verification/XDK_NVMe_Queue.thy ===== *)
theory XDK_NVMe_Queue
  imports XDK_NVMe_Batch XDK_NVMe_Structs XDK_NVMe_Registers
begin

text \<open>
  The queue pair of the NVMe driver (\<^verbatim>\<open>class NVME_queues_base\<close> in \<^verbatim>\<open>drivers/nvme-ssd/nvme_queue.h\<close> and
  \<^verbatim>\<open>nvme_queue.cc\<close>): command ids, the submission ring the driver fills, and the completion ring the device
  fills, read with the phase-tag protocol. A loop that waits for another thread (\<^verbatim>\<open>NVME_LOOP\<close>) is one
  attempt here, with result \<open>None\<close> when the loop would go on spinning.
\<close>

section \<open>State\<close>

record nvme_queue =
  queue_id :: u32
  q_irq :: u32
  queue_max_items :: u32
  sub_cmd :: "sub_slot list"
  comp_cmd :: "nvme_comp_command_common list"
  sq_tail :: u16
  sq_head :: u16
  cq_head :: u16
  cq_phase :: u16
  cmdid_counter :: u16
  sq_db_offset :: u32
  cq_db_offset :: u32
  sq_db :: u32
  cq_db :: u32
  batch_mgr :: batch_manager

text \<open>
  The constructor. The rings are allocated by the derived classes; \<open>elems\<close> is the initial content of the
  array of batches. The statistics counters of the class are not part of the state.
\<close>

definition NVME_queues_base :: "batch_info list \<Rightarrow> u32 \<Rightarrow> u32 \<Rightarrow> u64 \<Rightarrow> nvme_queue" where
  "NVME_queues_base elems qid irq queue_length =
     \<lparr>queue_id = qid, q_irq = irq, queue_max_items = ucast queue_length, sub_cmd = [], comp_cmd = [],
      sq_tail = 0, sq_head = 0, cq_head = 0, cq_phase = 1, cmdid_counter = 0,
      sq_db_offset = 0, cq_db_offset = 0, sq_db = 0, cq_db = 0, batch_mgr = NVME_batch_manager elems\<rparr>"

definition setup_doorbells :: "NVME_register_map \<Rightarrow> nvme_queue \<Rightarrow> nvme_queue" where
  "setup_doorbells r q =
     (let stride = ucast (NVME_CAP_STRIDE (reg_cap r)) in
      q\<lparr>sq_db_offset := NVME_OFFSET_SUBMISSION_DB (queue_id q) stride,
        cq_db_offset := NVME_OFFSET_COMPLETION_DB (queue_id q) stride\<rparr>)"

section \<open>Command ids\<close>

definition alloc_cmdid :: "nvme_queue \<Rightarrow> u16 \<times> nvme_queue" where
  "alloc_cmdid q =
     (let c = cmdid_counter q + 1; c1 = (if c = 0 then c + 1 else c) in (c1, q\<lparr>cmdid_counter := c1\<rparr>))"

definition next_cmdid :: "nvme_queue \<Rightarrow> u16" where
  "next_cmdid q = (let next_id = cmdid_counter q + 1 in if next_id = 0 then 1 else next_id)"

definition next_cmdid_len :: "u16 \<Rightarrow> nvme_queue \<Rightarrow> u16 outcome" where
  "next_cmdid_len len q =
     check (len < 0xffff) Assertion
       (let next_id = cmdid_counter q + len in
        Inr (if next_id = 0 \<or> next_id < cmdid_counter q then next_id + 1 else next_id))"

definition reset_cmdid :: "nvme_queue \<Rightarrow> nvme_queue option" where
  "reset_cmdid q =
     (if can_reset_cmdid (cmdid_counter q) (batch_mgr q) then Some (q\<lparr>cmdid_counter := 0\<rparr>) else None)"

definition update_sq_head :: "nvme_comp_command_common \<Rightarrow> nvme_queue \<Rightarrow> nvme_queue" where
  "update_sq_head ccs q = q\<lparr>sq_head := sq_hdptr ccs\<rparr>"

definition update_admin_sq_head :: "nvme_queue \<Rightarrow> nvme_queue" where
  "update_admin_sq_head q = q\<lparr>sq_head := cq_head q\<rparr>"

definition update_batch_manager :: "(nat \<Rightarrow> bool) \<Rightarrow> u16 \<Rightarrow> nvme_queue \<Rightarrow> (status \<times> nvme_queue) outcome" where
  "update_batch_manager frees cmdid q =
     seq (update frees cmdid (batch_mgr q)) (\<lambda>(st, m). Inr (st, q\<lparr>batch_mgr := m\<rparr>))"

definition ring_submission_doorbell :: "nvme_queue \<Rightarrow> nvme_queue" where
  "ring_submission_doorbell q = q\<lparr>sq_db := ucast (sq_tail q)\<rparr>"

definition ring_completion_doorbell :: "nvme_queue \<Rightarrow> nvme_queue" where
  "ring_completion_doorbell q = q\<lparr>cq_db := ucast (cq_head q)\<rparr>"

section \<open>Submission ring\<close>

text \<open>The slot taken (the value stored through \<^verbatim>\<open>tptr\<close>), when there is room.\<close>

definition increment_submission_tail :: "nvme_queue \<Rightarrow> status \<times> u32 option \<times> nvme_queue" where
  "increment_submission_tail q =
     (let new_tail = sq_tail q + 1;
          new_tail1 = (if ucast new_tail \<ge> queue_max_items q then ucast (ucast new_tail - queue_max_items q)
                       else new_tail)
      in if new_tail1 = sq_head q then (E_FULL, None, q)
         else
           let tail1 = sq_tail q + 1 in
           (S_OK, Some (ucast (sq_tail q)),
            q\<lparr>sq_tail := if ucast tail1 = queue_max_items q then 0 else tail1\<rparr>))"

text \<open>A command id and the index of a cleared slot; \<open>None\<close> while the ring is full.\<close>

definition next_sub_slot :: "nvme_queue \<Rightarrow> (u16 \<times> nat \<times> nvme_queue) option outcome" where
  "next_sub_slot q =
     (let (cmdid, q1) = alloc_cmdid q in
      check (0 < sint (ucast cmdid :: 32 word)) Assertion
      (case increment_submission_tail q1 of
         (st, None, q2) \<Rightarrow> Inr None
       | (st, Some curr_ptr, q2) \<Rightarrow>
           let i = unat curr_ptr in
           check (i < length (sub_cmd q2)) Out_of_range
             (Inr (Some (cmdid, i, q2\<lparr>sub_cmd := (sub_cmd q2)[i := clear (sub_cmd q2 ! i)]\<rparr>)))))"

section \<open>Completion ring\<close>

definition increment_completion_head :: "nvme_queue \<Rightarrow> nvme_queue" where
  "increment_completion_head q =
     (let h = cq_head q + 1 in
      if ucast h = queue_max_items q
      then q\<lparr>cq_head := 0, cq_phase := if cq_phase q = 0 then 1 else 0\<rparr>
      else q\<lparr>cq_head := h\<rparr>)"

definition get_next_completion :: "nvme_queue \<Rightarrow> (nvme_comp_command_common option \<times> nvme_queue) outcome" where
  "get_next_completion q =
     (let curr_head = unat (cq_head q) in
      check (curr_head < length (comp_cmd q)) Out_of_range
      (let c = comp_cmd q ! curr_head in
       if (ucast (phase_tag c) :: u16) \<noteq> cq_phase q then Inr (None, q)
       else
         let st = (ucast (status_field c) :: u32);
             SCT = 0x7 AND drop_bit 8 st; SC = 0xff AND st
         in check (\<not> (0 < st \<and> (SCT \<noteq> 0 \<or> SC \<noteq> 0))) Assertion
              (Inr (Some c, increment_completion_head q))))"

definition curr_comp_slot :: "nvme_queue \<Rightarrow> nvme_comp_command_common outcome" where
  "curr_comp_slot q =
     check (ucast (cq_head q) < queue_max_items q) Assertion
       (check (unat (cq_head q) < length (comp_cmd q)) Out_of_range (Inr (comp_cmd q ! unat (cq_head q))))"

section \<open>The phase-tag protocol\<close>

text \<open>
  The device side of the completion ring, as the NVMe specification has it: the device writes entries at its
  own tail with its current phase tag, inverts the tag when it wraps around, and does not write when the ring
  has only one free entry. The entries here report success (status 0).
\<close>

type_synonym success = "u32 \<times> u32 \<times> u16 \<times> u16 \<times> u16"

fun completion :: "success \<Rightarrow> bool \<Rightarrow> nvme_comp_command_common" where
  "completion (d0, d1, hp, sq, cid) p =
     \<lparr>dw0 = d0, dw1 = d1, sq_hdptr = hp, sq_id = sq, command_id = cid, phase_tag = if p then 1 else 0, status_field = 0\<rparr>"

definition payload :: "nvme_comp_command_common \<Rightarrow> success" where
  "payload c = (dw0 c, dw1 c, sq_hdptr c, sq_id c, command_id c)"

type_synonym cq_system = "nvme_queue \<times> nat \<times> bool"

definition cq_size :: "nvme_queue \<Rightarrow> nat" where
  "cq_size q = unat (queue_max_items q)"

fun cq_count :: "cq_system \<Rightarrow> nat" where
  "cq_count (q, t, p) =
     (if unat (cq_head q) \<le> t then t - unat (cq_head q) else t + cq_size q - unat (cq_head q))"

fun device_post :: "success \<Rightarrow> cq_system \<Rightarrow> bool \<times> cq_system" where
  "device_post x (q, t, p) =
     (if cq_count (q, t, p) < cq_size q - 1 then
        (True, q\<lparr>comp_cmd := (comp_cmd q)[t := completion x p]\<rparr>,
         if Suc t = cq_size q then (0, \<not> p) else (Suc t, p))
      else (False, q, t, p))"

fun cq_poll :: "cq_system \<Rightarrow> success option \<times> cq_system" where
  "cq_poll (q, t, p) =
     (case get_next_completion q of
        Inr (Some c, q') \<Rightarrow> (Some (payload c), q', t, p)
      | Inr (None, q') \<Rightarrow> (None, q', t, p)
      | Inl _ \<Rightarrow> (None, q, t, p))"

fun cq_items :: "cq_system \<Rightarrow> success list" where
  "cq_items (q, t, p) = map payload (ring (comp_cmd q) (unat (cq_head q)) (cq_count (q, t, p)))"

text \<open>The tag the driver expects \<open>i\<close> entries after the head, and the invariant of the ring.\<close>

definition expected :: "nvme_queue \<Rightarrow> nat \<Rightarrow> bool" where
  "expected q i \<longleftrightarrow> (cq_phase q = 1) = (unat (cq_head q) + i < cq_size q)"

definition cq_entry :: "nvme_queue \<Rightarrow> nat \<Rightarrow> nvme_comp_command_common" where
  "cq_entry q i = comp_cmd q ! ((unat (cq_head q) + i) mod cq_size q)"

fun cq_ok :: "cq_system \<Rightarrow> bool" where
  "cq_ok (q, t, p) \<longleftrightarrow> cq_size q < 2 ^ 16 \<and> length (comp_cmd q) = cq_size q \<and>
     unat (cq_head q) < cq_size q \<and> t < cq_size q \<and> (cq_phase q = 0 \<or> cq_phase q = 1) \<and>
     (p \<longleftrightarrow> expected q (cq_count (q, t, p))) \<and>
     (\<forall>i < cq_size q. if i < cq_count (q, t, p)
        then (phase_tag (cq_entry q i) = 1 \<longleftrightarrow> expected q i) \<and> status_field (cq_entry q i) = 0
        else (phase_tag (cq_entry q i) = 1 \<longleftrightarrow> \<not> expected q i))"

lemma payload_completion [simp]: "payload (completion x p) = x"
  "phase_tag (completion x p) = 1 \<longleftrightarrow> p" "status_field (completion x p) = 0"
  by (cases x; simp add: payload_def)+

lemma cq_tail:
  assumes "unat (cq_head q) < cq_size q" "t < cq_size q"
  shows "t = (unat (cq_head q) + cq_count (q, t, p)) mod cq_size q" "cq_count (q, t, p) < cq_size q"
  using assms by auto

text \<open>Counting at the tail and at the head.\<close>

lemma cq_count_post:
  assumes "unat (cq_head q) < cq_size q" "t < cq_size q" "cq_count (q, t, p) < cq_size q - 1"
  shows "cq_count (q, if Suc t = cq_size q then 0 else Suc t, p') = Suc (cq_count (q, t, p))"
    "unat (cq_head q) + cq_count (q, t, p) < cq_size q \<longleftrightarrow> unat (cq_head q) \<le> t"
    "unat (cq_head q) + Suc (cq_count (q, t, p)) < cq_size q \<longleftrightarrow> unat (cq_head q) \<le> t \<and> Suc t \<noteq> cq_size q"
  using assms by auto

lemma cq_count_cong: "cq_head q = cq_head q' \<Longrightarrow> cq_size q = cq_size q' \<Longrightarrow> cq_count (q, t, p) = cq_count (q', t, p')"
  by simp

declare cq_count.simps [simp del]

lemma cq_items_nth: "cq_items (q, t, p) = map (\<lambda>i. payload (cq_entry q i)) [0..<cq_count (q, t, p)]"
  if "length (comp_cmd q) = cq_size q"
  using that by (simp add: ring_def cq_entry_def)

lemma device_post_spec:
  assumes "cq_ok (q, t, p)" "cq_count (q, t, p) < cq_size q - 1"
  shows "\<exists>s'. device_post x (q, t, p) = (True, s') \<and> cq_ok s' \<and> cq_items s' = cq_items (q, t, p) @ [x] \<and>
    cq_size (fst s') = cq_size q"
proof -
  let ?n = "cq_size q" and ?h = "unat (cq_head q)" and ?k = "cq_count (q, t, p)"
  let ?t' = "if Suc t = ?n then 0 else Suc t" and ?p' = "if Suc t = ?n then \<not> p else p"
  define q' where "q' = q\<lparr>comp_cmd := (comp_cmd q)[t := completion x p]\<rparr>"
  have b: "?h < ?n" "t < ?n" "length (comp_cmd q) = ?n" using assms(1) by simp_all
  note t = cq_tail [OF b(1,2), of p]
  have same: "cq_head q' = cq_head q" "cq_size q' = ?n" "cq_phase q' = cq_phase q" "length (comp_cmd q') = ?n"
    "expected q' = expected q"
    using b by (simp_all add: q'_def cq_size_def expected_def fun_eq_iff)
  note c = cq_count_post [OF b(1,2) assms(2)]
  have k: "cq_count (q', ?t', ?p') = Suc ?k"
    using c(1) [of ?p'] cq_count_cong [OF same(1,2), of ?t' ?p' ?p'] by simp
  have e: "cq_entry q' i = (if i = ?k then completion x p else cq_entry q i)" if "i < ?n" for i
  proof -
    have "(?h + i) mod ?n = t \<longleftrightarrow> i = ?k"
      using t that ring_index_distinct [of i ?k ?n ?h] ring_index_distinct [of ?k i ?n ?h]
      by (cases i ?k rule: linorder_cases) auto
    then show ?thesis using b by (simp add: cq_entry_def same(1,2)) (auto simp: q'_def nth_list_update)
  qed
  have pk: "p \<longleftrightarrow> expected q ?k" using assms(1) by simp
  have p': "?p' \<longleftrightarrow> expected q (Suc ?k)"
  proof -
    have "Suc t = ?n \<Longrightarrow> ?h \<le> t" using b(1) by simp
    then show ?thesis using pk c(2,3) unfolding expected_def by auto
  qed
  have old: "if i < ?k then (phase_tag (cq_entry q i) = 1 \<longleftrightarrow> expected q i) \<and> status_field (cq_entry q i) = 0
      else (phase_tag (cq_entry q i) = 1 \<longleftrightarrow> \<not> expected q i)" if "i < ?n" for i
    using assms(1) that by simp
  have "cq_ok (q', ?t', ?p')"
    unfolding cq_ok.simps k same
    using assms(1) b p' pk old e by (simp add: less_Suc_eq)
  moreover have "cq_items (q', ?t', ?p') = cq_items (q, t, p) @ [x]"
    unfolding cq_items_nth [OF same(4) [folded same(2)]] cq_items_nth [OF b(3)] k
    using e t(2) by simp
  moreover have "device_post x (q, t, p) = (True, q', ?t', ?p')"
    using assms(2) by (simp add: q'_def)
  ultimately show ?thesis using same(2) by fastforce
qed

lemma word1_cases: "(x :: 1 word) = 0 \<or> x = 1"
  using unat_bound [of x] by (auto simp: word_unat_eq_iff)

lemma phase_tag_eq:
  assumes "cq_phase q = 0 \<or> cq_phase q = 1"
  shows "(ucast (phase_tag c) :: u16) = cq_phase q \<longleftrightarrow> (phase_tag c = 1 \<longleftrightarrow> cq_phase q = 1)"
  using assms word1_cases [of "phase_tag c"] by auto

lemma poll_empty:
  assumes "cq_ok (q, t, p)" "cq_count (q, t, p) = 0"
  shows "cq_poll (q, t, p) = (None, q, t, p)"
proof -
  have b: "unat (cq_head q) < cq_size q" "length (comp_cmd q) = cq_size q" using assms(1) by simp_all
  have "phase_tag (cq_entry q 0) = 1 \<longleftrightarrow> \<not> expected q 0"
    using assms b by (cases "cq_size q") auto
  then have "(ucast (phase_tag (comp_cmd q ! unat (cq_head q))) :: u16) \<noteq> cq_phase q"
    using assms(1) b by (subst phase_tag_eq) (auto simp: cq_entry_def expected_def)
  then show ?thesis using b by (simp add: get_next_completion_def Let_def)
qed

lemma increment_head:
  assumes "cq_size q < 2 ^ 16" "unat (cq_head q) < cq_size q"
  shows "unat (cq_head (increment_completion_head q)) = Suc (unat (cq_head q)) mod cq_size q"
    "cq_phase (increment_completion_head q) =
      (if Suc (unat (cq_head q)) = cq_size q then if cq_phase q = 0 then 1 else 0 else cq_phase q)"
    "comp_cmd (increment_completion_head q) = comp_cmd q" "cq_size (increment_completion_head q) = cq_size q"
proof -
  have u: "unat (cq_head q + 1) = Suc (unat (cq_head q))"
    using assms by (simp add: unat_word_ariths(1))
  moreover have "Suc (unat (cq_head q)) < 2 ^ 32" using assms by simp
  ultimately have "ucast (cq_head q + 1) = queue_max_items q \<longleftrightarrow> Suc (unat (cq_head q)) = cq_size q"
    by (simp add: word_unat_eq_iff cq_size_def unsigned_ucast_eq take_bit_nat_eq_self)
  then show "unat (cq_head (increment_completion_head q)) = Suc (unat (cq_head q)) mod cq_size q"
    "cq_phase (increment_completion_head q) =
      (if Suc (unat (cq_head q)) = cq_size q then if cq_phase q = 0 then 1 else 0 else cq_phase q)"
    "comp_cmd (increment_completion_head q) = comp_cmd q" "cq_size (increment_completion_head q) = cq_size q"
    using u assms(2) by (auto simp: increment_completion_head_def Let_def cq_size_def)
qed

text \<open>Moving the head shifts the entries by one; the entry passed becomes the last, with an old tag.\<close>

lemma head_shift:
  assumes "cq_size q < 2 ^ 16" "unat (cq_head q) < cq_size q" "t < cq_size q" "cq_count (q, t, p) = Suc k"
    "cq_phase q = 0 \<or> cq_phase q = 1"
  defines "q' \<equiv> increment_completion_head q"
  shows "cq_count (q', t, p) = k"
    "i < cq_size q \<Longrightarrow> cq_entry q' i = cq_entry q (if Suc i = cq_size q then 0 else Suc i)"
    "i < cq_size q - 1 \<Longrightarrow> expected q' i = expected q (Suc i)"
    "expected q' (cq_size q - 1) = (\<not> expected q 0)"
proof -
  let ?n = "cq_size q" and ?h = "unat (cq_head q)"
  note i = increment_head [OF assms(1,2), folded q'_def]
  have h: "unat (cq_head q') = (if Suc ?h = ?n then 0 else Suc ?h)" using i(1) assms(2) by simp
  show "cq_count (q', t, p) = k" using assms(2-4) h i(4) by (auto simp: cq_count.simps split: if_splits)
  have "(unat (cq_head q') + i) mod ?n = (?h + Suc i) mod ?n"
    using i(1) by (simp add: mod_add_left_eq)
  then show "i < cq_size q \<Longrightarrow> cq_entry q' i = cq_entry q (if Suc i = ?n then 0 else Suc i)"
    using i(3,4) by (cases "Suc i = ?n") (simp_all add: cq_entry_def)
  show "i < ?n - 1 \<Longrightarrow> expected q' i = expected q (Suc i)"
    using assms(2,5) h i(2,4) by (auto simp: expected_def)
  show "expected q' (?n - 1) = (\<not> expected q 0)"
    using assms(2,5) h i(2,4) by (auto simp: expected_def)
qed

lemma poll_item:
  assumes "cq_ok (q, t, p)" "cq_count (q, t, p) = Suc k"
  shows "\<exists>q'. cq_poll (q, t, p) = (Some (payload (cq_entry q 0)), q', t, p) \<and> cq_ok (q', t, p) \<and>
    cq_items (q, t, p) = payload (cq_entry q 0) # cq_items (q', t, p) \<and> cq_size q' = cq_size q"
proof -
  let ?n = "cq_size q" and ?q = "increment_completion_head q"
  have b: "?n < 2 ^ 16" "unat (cq_head q) < ?n" "t < ?n" "length (comp_cmd q) = ?n"
    "cq_phase q = 0 \<or> cq_phase q = 1"
    using assms(1) by simp_all
  note sh = head_shift [OF b(1-3) assms(2) b(5)] and ih = increment_head [OF b(1,2)]
  have kn: "Suc k < ?n" using cq_tail(2) [OF b(2,3), of p] assms(2) by simp
  have tags: "\<forall>i < ?n. if i < Suc k
        then (phase_tag (cq_entry q i) = 1 \<longleftrightarrow> expected q i) \<and> status_field (cq_entry q i) = 0
        else (phase_tag (cq_entry q i) = 1 \<longleftrightarrow> \<not> expected q i)"
    and pk: "p \<longleftrightarrow> expected q (Suc k)"
    using assms by simp_all
  have c: "comp_cmd q ! unat (cq_head q) = cq_entry q 0" using b by (simp add: cq_entry_def)
  have "phase_tag (cq_entry q 0) = 1 \<longleftrightarrow> expected q 0" "status_field (cq_entry q 0) = 0"
    using tags kn by auto
  then have poll: "cq_poll (q, t, p) = (Some (payload (cq_entry q 0)), ?q, t, p)"
    using b c phase_tag_eq [OF b(5), of "cq_entry q 0"]
    by (simp add: get_next_completion_def Let_def expected_def)
  have new: "if i < k then (phase_tag (cq_entry ?q i) = 1 \<longleftrightarrow> expected ?q i) \<and> status_field (cq_entry ?q i) = 0
      else (phase_tag (cq_entry ?q i) = 1 \<longleftrightarrow> \<not> expected ?q i)" if i: "i < ?n" for i
  proof (cases "Suc i = ?n")
    case True
    then have "i = ?n - 1" "\<not> i < k" using kn by simp_all
    then show ?thesis using sh(2) [OF i] sh(4) True tags kn by auto
  next
    case False
    then have "Suc i < ?n" using i by simp
    then show ?thesis using sh(2) [OF i] sh(3) [of i] False tags by auto
  qed
  have "cq_phase ?q = 0 \<or> cq_phase ?q = 1" using ih(2) b(5) by auto
  moreover have "p \<longleftrightarrow> expected ?q k" using pk sh(3) [of k] kn by simp
  moreover have "unat (cq_head ?q) < ?n" using ih(1) b(2) by simp
  ultimately have "cq_ok (?q, t, p)" using b(1,3,4) ih(3,4) new sh(1) by simp
  moreover have "cq_items (q, t, p) = payload (cq_entry q 0) # cq_items (?q, t, p)"
  proof -
    have "cq_entry ?q i = cq_entry q (Suc i)" if "i < k" for i using sh(2) [of i] that kn by simp
    then have "map (\<lambda>i. payload (cq_entry ?q i)) [0..<k] = map (\<lambda>i. payload (cq_entry q i)) [Suc 0..<Suc k]"
      by (simp flip: map_Suc_upt del: upt_Suc)
    then show ?thesis
      using cq_items_nth [OF b(4), of t p] cq_items_nth [of ?q t p] b(4) ih(3,4) sh(1) assms(2)
      by (simp add: upt_rec)
  qed
  ultimately show ?thesis using poll ih(4) by blast
qed

interpretation cq: strict_queue device_post cq_poll cq_items "\<lambda>s. cq_size (fst s) - 1" cq_ok
proof (unfold_locales, goal_cases)
  case (1 s)
  obtain q t p where s: "s = (q, t, p)" by (cases s)
  then show ?case using 1 cq_tail(2) [of q t p] by (auto simp del: cq_ok.simps) (auto simp: ring_def)
next
  case (2 s x)
  obtain q t p where s: "s = (q, t, p)" by (cases s)
  then show ?case using 2 device_post_spec [of q t p x] by (auto simp del: cq_ok.simps device_post.simps)
next
  case (3 s)
  obtain q t p where s: "s = (q, t, p)" by (cases s)
  then have "cq_count (q, t, p) = 0" using arg_cong [OF 3(2), of length] by simp
  then show ?case using 3(1) s poll_empty [of q t p] by simp
next
  case (4 s x xs)
  obtain q t p where s: "s = (q, t, p)" by (cases s)
  then obtain k where "cq_count (q, t, p) = Suc k" using 4(2) by (cases "cq_count (q, t, p)") auto
  then show ?case using 4 s poll_item [of q t p k] by (auto simp del: cq_ok.simps cq_poll.simps cq_items.simps)
next
  case (5 s x)
  obtain q t p where s: "s = (q, t, p)" by (cases s)
  then show ?case using 5 by (auto simp del: cq_ok.simps)
qed

section \<open>The submission ring\<close>

text \<open>
  The slots from the head (the last one the device reported as fetched) up to the tail are in use;
  \<open>sq_used\<close> counts them.
\<close>

definition sq_used :: "nvme_queue \<Rightarrow> nat" where
  "sq_used q = (unat (sq_tail q) + cq_size q - unat (sq_head q)) mod cq_size q"

definition sq_ok :: "nvme_queue \<Rightarrow> bool" where
  "sq_ok q \<longleftrightarrow> 2 \<le> cq_size q \<and> cq_size q \<le> 2 ^ 16 \<and> unat (sq_tail q) < cq_size q \<and> unat (sq_head q) < cq_size q \<and>
     length (sub_cmd q) = cq_size q"

definition in_use :: "nvme_queue \<Rightarrow> nat set" where
  "in_use q = (\<lambda>i. (unat (sq_head q) + i) mod cq_size q) ` {..<sq_used q}"

lemma cq_size_update [simp]: "cq_size (q\<lparr>sq_tail := t\<rparr>) = cq_size q" "cq_size (q\<lparr>sub_cmd := xs\<rparr>) = cq_size q"
  "cq_size (q\<lparr>cmdid_counter := c\<rparr>) = cq_size q"
  by (simp_all add: cq_size_def)

lemma tail_succ:
  assumes "sq_ok q"
  defines "t1 \<equiv> (of_nat (Suc (unat (sq_tail q)) mod cq_size q) :: u16)"
  shows "(if ucast (sq_tail q + 1) \<ge> queue_max_items q then ucast (ucast (sq_tail q + 1) - queue_max_items q)
      else sq_tail q + 1) = t1"
    "(if ucast (sq_tail q + 1) = queue_max_items q then 0 else sq_tail q + 1) = t1"
    "unat t1 = Suc (unat (sq_tail q)) mod cq_size q"
proof -
  let ?t = "unat (sq_tail q)" and ?n = "cq_size q"
  have b: "?t < ?n" "?n \<le> 2 ^ 16" "unat (queue_max_items q) = ?n"
    using assms(1) by (simp_all add: sq_ok_def cq_size_def)
  have "Suc ?t mod ?n < ?n" using b(1) by simp
  then show "unat t1 = Suc ?t mod ?n" using b(2) by (simp add: t1_def unat_of_nat)
  have "(if ucast (sq_tail q + 1) \<ge> queue_max_items q then ucast (ucast (sq_tail q + 1) - queue_max_items q)
      else sq_tail q + 1) = t1 \<and> (if ucast (sq_tail q + 1) = queue_max_items q then 0 else sq_tail q + 1) = t1"
  proof (cases "Suc ?t = 2 ^ 16")
    case True
    then have "sq_tail q + 1 = 0" using unat_word_ariths(1) [of "sq_tail q" 1] by (simp add: word_unat_eq_iff)
    moreover have n: "?n = 2 ^ 16" using True b by simp
    moreover have "\<not> queue_max_items q \<le> 0" "0 \<noteq> queue_max_items q" using b(3) n by auto
    ultimately show ?thesis using True by (simp add: t1_def)
  next
    case False
    then have u: "unat (sq_tail q + 1) = Suc ?t" using b unat_word_ariths(1) [of "sq_tail q" 1] by simp
    have "unat (ucast (sq_tail q + 1) :: u32) = Suc ?t"
      using u b by (simp add: unsigned_ucast_eq take_bit_nat_eq_self)
    then have c: "ucast (sq_tail q + 1) \<ge> queue_max_items q \<longleftrightarrow> ?n \<le> Suc ?t"
      "ucast (sq_tail q + 1) = queue_max_items q \<longleftrightarrow> Suc ?t = ?n"
      by (simp_all add: word_le_nat_alt word_unat_eq_iff b(3))
    show ?thesis
    proof (cases "Suc ?t = ?n")
      case True
      then show ?thesis using c by (simp add: t1_def)
    next
      case neq: False
      then have "sq_tail q + 1 = t1"
        using u b(1) by (metis Suc_lessI mod_less of_nat_unat t1_def ucast_id)
      then show ?thesis using c neq b(1) by simp
    qed
  qed
  then show "(if ucast (sq_tail q + 1) \<ge> queue_max_items q then ucast (ucast (sq_tail q + 1) - queue_max_items q)
      else sq_tail q + 1) = t1" "(if ucast (sq_tail q + 1) = queue_max_items q then 0 else sq_tail q + 1) = t1"
    by simp_all
qed

lemma sq_used_less: "sq_ok q \<Longrightarrow> sq_used q < cq_size q"
  unfolding sq_used_def sq_ok_def by (intro mod_less_divisor) linarith

lemma sq_tail_used:
  assumes "sq_ok q"
  shows "unat (sq_tail q) = (unat (sq_head q) + sq_used q) mod cq_size q"
proof -
  have "unat (sq_head q) \<le> cq_size q" using assms by (simp add: sq_ok_def)
  then have "(unat (sq_head q) + sq_used q) mod cq_size q = (unat (sq_tail q) + cq_size q) mod cq_size q"
    by (simp add: sq_used_def mod_add_right_eq)
  then show ?thesis using assms by (simp add: sq_ok_def)
qed

lemma increment_tail_spec:
  assumes "sq_ok q"
  shows "case increment_submission_tail q of
      (st, None, q') \<Rightarrow> st = E_FULL \<and> q' = q \<and> sq_used q = cq_size q - 1
    | (st, Some i, q') \<Rightarrow> st = S_OK \<and> unat i = unat (sq_tail q) \<and> unat i \<notin> in_use q \<and> sq_ok q' \<and>
        sq_used q < cq_size q - 1 \<and> sq_used q' = Suc (sq_used q) \<and> in_use q' = insert (unat i) (in_use q) \<and>
        (\<exists>t. q' = q\<lparr>sq_tail := t\<rparr> \<and> unat t = Suc (unat (sq_tail q)) mod cq_size q)"
proof -
  let ?n = "cq_size q" and ?h = "unat (sq_head q)" and ?t = "unat (sq_tail q)"
  have b: "2 \<le> ?n" "?t < ?n" "?h < ?n" using assms by (simp_all add: sq_ok_def)
  note t1 = tail_succ [OF assms] and u = sq_tail_used [OF assms] and l = sq_used_less [OF assms]
  let ?t1 = "of_nat (Suc ?t mod ?n) :: u16"
  have t2: "unat ?t1 = (?h + Suc (sq_used q)) mod ?n"
    using t1(3) u by (metis add_Suc_right mod_Suc_eq)
  have full: "?t1 = sq_head q \<longleftrightarrow> sq_used q = ?n - 1"
  proof -
    have "?t1 = sq_head q \<longleftrightarrow> (?h + Suc (sq_used q)) mod ?n = (?h + 0) mod ?n"
      using t2 b(3) by (simp add: word_unat_eq_iff)
    also have "\<dots> \<longleftrightarrow> Suc (sq_used q) = ?n"
      using ring_index_distinct [of 0 "Suc (sq_used q)" ?n ?h] l by (cases "Suc (sq_used q) = ?n") auto
    finally show ?thesis using b(1) l by auto
  qed
  show ?thesis
  proof (cases "?t1 = sq_head q")
    case True
    then show ?thesis using full t1 by (simp add: increment_submission_tail_def Let_def)
  next
    case False
    let ?q = "q\<lparr>sq_tail := ?t1\<rparr>"
    have inc: "increment_submission_tail q = (S_OK, Some (ucast (sq_tail q)), ?q)"
      using False t1(1,2) by (simp add: increment_submission_tail_def Let_def)
    have k: "Suc (sq_used q) < ?n" using False full l b(1) by linarith
    have "sq_used ?q = ((?h + Suc (sq_used q)) mod ?n + (?n - ?h)) mod ?n"
      using t2 b(3) by (simp add: sq_used_def add_diff_assoc)
    also have "\<dots> = (?h + Suc (sq_used q) + (?n - ?h)) mod ?n" by (rule mod_add_left_eq)
    also have "\<dots> = (Suc (sq_used q) + ?n) mod ?n" using b(3) by simp
    also have "\<dots> = Suc (sq_used q)" using k by (simp only: mod_add_self2 mod_less)
    finally have used: "sq_used ?q = Suc (sq_used q)" .
    have "?t \<notin> in_use q"
    proof
      assume "?t \<in> in_use q"
      then obtain i where "i < sq_used q" "?t = (?h + i) mod ?n" by (auto simp: in_use_def)
      then show False using u ring_index_distinct [of i "sq_used q" ?n ?h] l by simp
    qed
    moreover have "in_use ?q = insert ?t (in_use q)"
      unfolding in_use_def used lessThan_Suc by (simp add: u)
    moreover have "sq_ok ?q" using assms b(1) t1(3) by (simp add: sq_ok_def)
    moreover have "unat (ucast (sq_tail q) :: u32) = ?t"
      using b assms by (simp add: sq_ok_def unsigned_ucast_eq take_bit_nat_eq_self)
    ultimately show ?thesis using inc used k t1(3) by auto
  qed
qed

lemma next_sub_slot_spec:
  assumes "sq_ok q"
  shows "if sq_used q = cq_size q - 1 then next_sub_slot q = Inr None
    else \<exists>i q'. next_sub_slot q = Inr (Some (next_cmdid q, i, q')) \<and> next_cmdid q \<noteq> 0 \<and> cmdid_counter q' = next_cmdid q \<and>
      i < cq_size q \<and> i \<notin> in_use q \<and> in_use q' = insert i (in_use q) \<and> sq_ok q' \<and>
      (\<exists>t. unat t = Suc (unat (sq_tail q)) mod cq_size q \<and>
        q' = q\<lparr>cmdid_counter := next_cmdid q, sq_tail := t, sub_cmd := (sub_cmd q)[i := replicate 64 0]\<rparr>)"
proof -
  let ?q = "q\<lparr>cmdid_counter := next_cmdid q\<rparr>"
  have a: "alloc_cmdid q = (next_cmdid q, ?q)" "next_cmdid q \<noteq> 0"
    by (auto simp: alloc_cmdid_def next_cmdid_def Let_def)
  have "sint (ucast (next_cmdid q) :: 32 word) = int (unat (next_cmdid q))"
    using unat_bound [of "next_cmdid q"] sint_of_nat_small [of "unat (next_cmdid q)"] by simp
  moreover have "0 < unat (next_cmdid q)" using a(2) by (simp add: word_unat_eq_iff)
  ultimately have pos: "0 < sint (ucast (next_cmdid q) :: 32 word)" by linarith
  have ok: "sq_ok ?q" "sq_used ?q = sq_used q" "cq_size ?q = cq_size q" "in_use ?q = in_use q" "sub_cmd ?q = sub_cmd q"
    using assms by (simp_all add: sq_ok_def sq_used_def in_use_def)
  have len: "length (sub_cmd q) = cq_size q" using assms by (simp add: sq_ok_def)
  have clr: "clear sc = replicate 64 0" for sc
    by (simp add: clear_def sizeof_def nvme_sub_command_common_def c_align_def aligned_offset_def)
  obtain st r q2 where inc: "increment_submission_tail ?q = (st, r, q2)" by (metis prod_cases3)
  note spec = increment_tail_spec [OF ok(1), unfolded inc prod.case ok]
  show ?thesis
  proof (cases r)
    case None
    then show ?thesis using spec inc a(1) pos by (simp add: next_sub_slot_def)
  next
    case (Some i)
    then have s: "unat i \<notin> in_use q" "sq_ok q2" "sq_used q < cq_size q - 1" "in_use q2 = insert (unat i) (in_use q)"
      "unat i = unat (sq_tail ?q)"
      using spec by auto
    obtain t where q2: "q2 = ?q\<lparr>sq_tail := t\<rparr>" "unat t = Suc (unat (sq_tail q)) mod cq_size q"
      using spec Some by auto
    have i: "unat i < cq_size q" using s(5) ok(1,3) by (simp add: sq_ok_def)
    let ?q' = "q2\<lparr>sub_cmd := (sub_cmd q2)[unat i := clear (sub_cmd q2 ! unat i)]\<rparr>"
    have "next_sub_slot q = Inr (Some (next_cmdid q, unat i, ?q'))"
      using Some inc a(1) pos i len q2(1) ok(5) by (simp add: next_sub_slot_def Let_def)
    moreover have "sq_ok ?q'" "in_use ?q' = in_use q2"
      using s(2) by (simp_all add: sq_ok_def in_use_def sq_used_def)
    moreover have "?q' = q\<lparr>cmdid_counter := next_cmdid q, sq_tail := t, sub_cmd := (sub_cmd q)[unat i := replicate 64 0]\<rparr>"
      using q2(1) by (simp add: clr)
    ultimately have r: "next_sub_slot q = Inr (Some (next_cmdid q, unat i, ?q'))" "sq_ok ?q'" "in_use ?q' = in_use q2"
        "?q' = q\<lparr>cmdid_counter := next_cmdid q, sq_tail := t, sub_cmd := (sub_cmd q)[unat i := replicate 64 0]\<rparr>"
      by blast+
    have c: "cmdid_counter ?q' = next_cmdid q" using q2(1) by simp
    have use': "in_use ?q' = insert (unat i) (in_use q)" using r(3) s(4) by simp
    have neq: "sq_used q \<noteq> cq_size q - 1" using s(3) by simp
    show ?thesis
      unfolding if_not_P [OF neq] using r(1,2,4) c use' s(1) i a(2) q2(2) by blast
  qed
qed

section \<open>Properties\<close>

text \<open>
  C28. The completion ring with the phase tags is a lossless first-in first-out queue from the device to
  the driver, across any number of wrap-arounds: for a ring of \<open>n\<close> zeroed entries, \<open>n < 65536\<close>, and any
  sequence of completions posted by the device and polls by the driver, the completions the driver got,
  followed by those still in the ring, are those the device posted, in order; a poll finds nothing exactly
  when the ring is empty.
\<close>

theorem completion_ring_fifo:
  assumes "0 < n" "n < 2 ^ 16" "queue_max_items q = of_nat n" "comp_cmd q = replicate n zero_completion"
    "cq_head q = 0" "cq_phase q = 1"
    and "traffic device_post cq_poll ops (q, 0, True) = (out, s)"
  shows "out @ cq_items s = accepted device_post cq_poll ops (q, 0, True) \<and>
    (fst (cq_poll s) = None \<longleftrightarrow> cq_items s = [])"
proof -
  have n: "cq_size q = n" using assms(2,3) by (simp add: cq_size_def unat_of_nat)
  have e: "cq_entry q i = zero_completion" if "i < n" for i
    using assms(4,5) that n by (simp add: cq_entry_def)
  have init: "cq_ok (q, 0, True)" "cq_items (q, 0, True) = []"
    using assms n e by (simp_all add: cq_count.simps expected_def zero_completion_def)
  note t = cq.traffic_lossless [OF init(1) assms(7)]
  have "fst (cq_poll s) = None \<longleftrightarrow> cq_items s = []"
    using cq.pop_empty [of s] cq.pop_item [of s] t by (cases "cq_items s") fastforce+
  then show ?thesis using t init(2) by simp
qed

theorem completion_ring_fifo_witness:
  "\<exists>out s. traffic device_post cq_poll [Some (1, 2, 3, 4, 5), None, None]
       (\<lparr>queue_id = 1, q_irq = 0, queue_max_items = 2, sub_cmd = [], comp_cmd = replicate 2 zero_completion,
         sq_tail = 0, sq_head = 0, cq_head = 0, cq_phase = 1, cmdid_counter = 0, sq_db_offset = 0, cq_db_offset = 0,
         sq_db = 0, cq_db = 0, batch_mgr = NVME_batch_manager []\<rparr>, 0, True) = (out, s) \<and>
     out @ cq_items s = [(1, 2, 3, 4, 5)]"
proof -
  let ?q = "\<lparr>queue_id = 1, q_irq = 0, queue_max_items = 2, sub_cmd = [], comp_cmd = replicate 2 zero_completion,
         sq_tail = 0, sq_head = 0, cq_head = 0, cq_phase = 1, cmdid_counter = 0, sq_db_offset = 0, cq_db_offset = 0,
         sq_db = 0, cq_db = 0, batch_mgr = NVME_batch_manager []\<rparr>"
  let ?ops = "[Some (1, 2, 3, 4, 5), None, None]"
  obtain out s where t: "traffic device_post cq_poll ?ops (?q, 0, True) = (out, s)" by (metis prod.exhaust)
  have "accepted device_post cq_poll ?ops (?q, 0, True) = [(1, 2, 3, 4, 5)]"
    by (simp add: cq_count.simps cq_size_def)
  then show ?thesis using completion_ring_fifo [of 2 ?q ?ops out s] t by simp
qed

text \<open>
  A queue of 65536 entries, the largest the hardware supports and the length the driver uses when the
  configuration asks for 65535 or more on such hardware. The 16-bit head wraps by itself and never equals
  the size, so the expected phase never changes: once every entry has been read, the driver takes the
  entries of the previous pass for new completions.
\<close>

theorem no_phase_change_65536:
  assumes "queue_max_items q = 65536" "length (comp_cmd q) = 65536" "cq_head q = 0xffff" "cq_phase q = 1"
    "\<forall>c \<in> set (comp_cmd q). phase_tag c = 1 \<and> status_field c = 0"
  shows "\<exists>q' q''. get_next_completion q = Inr (Some (comp_cmd q ! 0xffff), q') \<and> cq_head q' = 0 \<and> cq_phase q' = 1 \<and>
    get_next_completion q' = Inr (Some (comp_cmd q ! 0), q'')"
proof -
  have "phase_tag (comp_cmd q ! 0xffff) = 1" "status_field (comp_cmd q ! 0xffff) = 0"
    "phase_tag (comp_cmd q ! 0) = 1" "status_field (comp_cmd q ! 0) = 0"
    using assms(2,5) by simp_all
  then show ?thesis
    using assms(1-4) by (simp add: get_next_completion_def increment_completion_head_def Let_def)
qed

text \<open>
  Taking a submission slot. On a ring of 2 to 65536 slots, \<^verbatim>\<open>next_sub_slot\<close> waits exactly when all
  slots but one are in use; otherwise it hands out a fresh non-zero command id and the index of a slot that
  is not in use, zeroes that slot and no other, and marks it in use.
\<close>

theorem next_sub_slot_correct:
  assumes "sq_ok q"
  shows "if sq_used q = cq_size q - 1 then next_sub_slot q = Inr None
    else \<exists>i q'. next_sub_slot q = Inr (Some (next_cmdid q, i, q')) \<and> next_cmdid q \<noteq> 0 \<and> cmdid_counter q' = next_cmdid q \<and>
      i < cq_size q \<and> i \<notin> in_use q \<and> in_use q' = insert i (in_use q) \<and> sq_ok q' \<and>
      sub_cmd q' = (sub_cmd q)[i := replicate 64 0]"
  using next_sub_slot_spec [OF assms] by (auto split: if_splits)

end
