(* ===== verification/XDK_NVMe_Admin.thy ===== *)
theory XDK_NVMe_Admin
  imports XDK_NVMe_Queue
begin

text \<open>
  Admin commands (\<^verbatim>\<open>drivers/nvme-ssd/nvme_command_admin.cc\<close>) and the admin queue (\<^verbatim>\<open>NVME_admin_queue\<close> in
  \<^verbatim>\<open>nvme_queue.cc\<close>). The device is an argument: admin commands are issued one at a time, and
  \<open>slot k\<close> is what the driver finds in the completion slot at the head of the ring \<open>k\<close> polls after the interrupt;
  the pages the device fills are lists of bytes. The address of the DMA page of a command is an argument as
  well.
\<close>

section \<open>Commands\<close>

text \<open>
  Every constructor takes a slot, clears it, fills it and writes the command id; \<open>None\<close> while the ring is
  full. The result is the command id.
\<close>

definition with_slot :: "(u16 \<Rightarrow> sub_slot \<Rightarrow> sub_slot) \<Rightarrow> nvme_queue \<Rightarrow> (u16 \<times> nvme_queue) option outcome" where
  "with_slot fill q =
     seq (next_sub_slot q) (\<lambda>r. case r of None \<Rightarrow> Inr None
       | Some (slot_id, i, q1) \<Rightarrow>
           Inr (Some (slot_id, q1\<lparr>sub_cmd := (sub_cmd q1)[i := fill slot_id (clear (sub_cmd q1 ! i))]\<rparr>)))"

definition fill_identify :: "u64 \<Rightarrow> u32 \<Rightarrow> u16 \<Rightarrow> sub_slot \<Rightarrow> sub_slot" where
  "fill_identify prp1_phys nsid slot_id sc =
     (let sc1 = sc_set ''opcode'' (unat (admin_opcode_val nvme_admin_identify)) sc;
          sc2 = (if nsid = 0 then sc_set ''cdw10'' 1 sc1
                 else sc_set ''nsid'' (unat nsid) (sc_set ''cdw10'' 0 sc1))
      in sc_set ''command_id'' (unat slot_id) (sc_set ''prp1'' (unat prp1_phys) sc2))"

definition Command_admin_identify :: "u64 \<Rightarrow> u32 \<Rightarrow> nvme_queue \<Rightarrow> (u16 \<times> nvme_queue) option outcome" where
  "Command_admin_identify prp1_phys nsid q = with_slot (fill_identify prp1_phys nsid) q"

datatype feature = NVME_FEAT_ARBITRATION | NVME_FEAT_POWER_MGMT | NVME_FEAT_LBA_RANGE | NVME_FEAT_TEMP_THRESH
  | NVME_FEAT_ERR_RECOVERY | NVME_FEAT_VOLATILE_WC | NVME_FEAT_NUM_QUEUES | NVME_FEAT_IRQ_COALESCE
  | NVME_FEAT_IRQ_CONFIG | NVME_FEAT_WRITE_ATOMIC | NVME_FEAT_ASYNC_EVENT | NVME_FEAT_SW_PROGRESS

fun feature_val :: "feature \<Rightarrow> nat" where
  "feature_val NVME_FEAT_ARBITRATION = 0x01"
| "feature_val NVME_FEAT_POWER_MGMT = 0x02"
| "feature_val NVME_FEAT_LBA_RANGE = 0x03"
| "feature_val NVME_FEAT_TEMP_THRESH = 0x04"
| "feature_val NVME_FEAT_ERR_RECOVERY = 0x05"
| "feature_val NVME_FEAT_VOLATILE_WC = 0x06"
| "feature_val NVME_FEAT_NUM_QUEUES = 0x07"
| "feature_val NVME_FEAT_IRQ_COALESCE = 0x08"
| "feature_val NVME_FEAT_IRQ_CONFIG = 0x09"
| "feature_val NVME_FEAT_WRITE_ATOMIC = 0x0a"
| "feature_val NVME_FEAT_ASYNC_EVENT = 0x0b"
| "feature_val NVME_FEAT_SW_PROGRESS = 0x0c"

definition fill_get_features :: "u64 \<Rightarrow> feature \<Rightarrow> u32 \<Rightarrow> u16 \<Rightarrow> sub_slot \<Rightarrow> sub_slot" where
  "fill_get_features prp1_phys fid nsid slot_id sc =
     sc_set ''command_id'' (unat slot_id)
      (raw_set nvme_features ''fid'' (feature_val fid)
       (raw_set nvme_features ''nsid'' (unat nsid)
        (raw_set nvme_features ''prp1'' (unat prp1_phys)
         (raw_set nvme_features ''opcode'' (unat (admin_opcode_val nvme_admin_get_features)) sc))))"

definition Command_admin_get_features ::
  "u64 \<Rightarrow> feature \<Rightarrow> u32 \<Rightarrow> nvme_queue \<Rightarrow> (u16 \<times> nvme_queue) option outcome" where
  "Command_admin_get_features prp1_phys fid nsid q = with_slot (fill_get_features prp1_phys fid nsid) q"

text \<open>
  The set-features command is filled in two steps: the constructor and one of the configurations, which
  write the same slot before the doorbell is rung.
\<close>

definition fill_set_features :: "u16 \<Rightarrow> sub_slot \<Rightarrow> sub_slot" where
  "fill_set_features slot_id sc =
     sc_set ''command_id'' (unat slot_id)
       (raw_set nvme_features ''opcode'' (unat (admin_opcode_val nvme_admin_set_features)) sc)"

definition configure_num_queues :: "u32 \<Rightarrow> sub_slot \<Rightarrow> sub_slot" where
  "configure_num_queues num_queues sc =
     raw_set nvme_features ''fid'' (feature_val NVME_FEAT_NUM_QUEUES)
       (raw_set nvme_features ''dword11'' (unat (push_bit 16 (num_queues - 1) OR (num_queues - 1))) sc)"

definition configure_interrupt_coalescing :: "bool \<Rightarrow> u32 \<Rightarrow> sub_slot \<Rightarrow> sub_slot" where
  "configure_interrupt_coalescing turn_on vector sc =
     (let v = vector AND 0xffff; d = (if \<not> turn_on then v OR push_bit 16 1 else v)
      in raw_set nvme_features ''dword11'' (unat d)
           (raw_set nvme_features ''fid'' (feature_val NVME_FEAT_IRQ_CONFIG) sc))"

definition configure_interrupt_coalescing_time :: "u32 \<Rightarrow> u32 \<Rightarrow> sub_slot \<Rightarrow> sub_slot" where
  "configure_interrupt_coalescing_time time threshold sc =
     raw_set nvme_features ''dword11'' (unat ((threshold AND 0xff) OR push_bit 8 (time AND 0xff)))
       (raw_set nvme_features ''fid'' (feature_val NVME_FEAT_IRQ_COALESCE) sc)"

definition Command_admin_set_features ::
  "(sub_slot \<Rightarrow> sub_slot) \<Rightarrow> nvme_queue \<Rightarrow> (u16 \<times> nvme_queue) option outcome" where
  "Command_admin_set_features configure q = with_slot (\<lambda>slot_id sc. configure (fill_set_features slot_id sc)) q"

datatype queue_priority = PRIO_URGENT | PRIO_HIGH | PRIO_MED | PRIO_LOW

fun priority_val :: "queue_priority \<Rightarrow> u32" where
  "priority_val PRIO_URGENT = 0"
| "priority_val PRIO_HIGH = 1"
| "priority_val PRIO_MED = 2"
| "priority_val PRIO_LOW = 3"

definition fill_create_io_sq ::
  "u32 \<Rightarrow> u64 \<Rightarrow> u64 \<Rightarrow> u32 \<Rightarrow> queue_priority \<Rightarrow> u16 \<Rightarrow> sub_slot \<Rightarrow> sub_slot" where
  "fill_create_io_sq qid queue_size prp1 cq_id priority slot_id sc =
     sc_set ''command_id'' (unat slot_id)
      (raw_set nvme_create_sq ''sq_flags'' (unat (push_bit 1 (priority_val priority AND 0x3) OR 0x1))
       (raw_set nvme_create_sq ''cqid'' (unat cq_id)
        (raw_set nvme_create_sq ''sqid'' (unat qid)
         (raw_set nvme_create_sq ''qsize'' (unat (queue_size - 1))
          (raw_set nvme_create_sq ''prp1'' (unat prp1)
           (raw_set nvme_create_sq ''opcode'' (unat (admin_opcode_val nvme_admin_create_sq)) sc))))))"

definition Command_admin_create_io_sq ::
  "u32 \<Rightarrow> u64 \<Rightarrow> u64 \<Rightarrow> u32 \<Rightarrow> queue_priority \<Rightarrow> nvme_queue \<Rightarrow> (u16 \<times> nvme_queue) option outcome" where
  "Command_admin_create_io_sq qid queue_size prp1 cq_id priority q =
     seq (with_slot (fill_create_io_sq qid queue_size prp1 cq_id priority) q) (\<lambda>r.
       check (r = None \<or> prp1 \<noteq> 0) Assertion (Inr r))"

definition fill_create_io_cq :: "u32 \<Rightarrow> u32 \<Rightarrow> u64 \<Rightarrow> u64 \<Rightarrow> u16 \<Rightarrow> sub_slot \<Rightarrow> sub_slot" where
  "fill_create_io_cq vector qid queue_items prp1 slot_id sc =
     sc_set ''command_id'' (unat slot_id)
      (raw_set nvme_create_cq ''cq_flags'' 0x3
       (raw_set nvme_create_cq ''irq_vector'' (unat vector)
        (raw_set nvme_create_cq ''cqid'' (unat qid)
         (raw_set nvme_create_cq ''qsize'' (unat (queue_items - 1))
          (raw_set nvme_create_cq ''prp1'' (unat prp1)
           (raw_set nvme_create_cq ''opcode'' (unat (admin_opcode_val nvme_admin_create_cq)) sc))))))"

definition Command_admin_create_io_cq ::
  "u32 \<Rightarrow> u32 \<Rightarrow> u64 \<Rightarrow> u64 \<Rightarrow> nvme_queue \<Rightarrow> (u16 \<times> nvme_queue) option outcome" where
  "Command_admin_create_io_cq vector qid queue_items prp1 q =
     seq (with_slot (fill_create_io_cq vector qid queue_items prp1) q) (\<lambda>r.
       check (r = None \<or> prp1 \<noteq> 0) Assertion (Inr r))"

datatype queue_type = QTYPE_SUB | QTYPE_COMP

definition fill_delete_io_queue :: "queue_type \<Rightarrow> u32 \<Rightarrow> u16 \<Rightarrow> sub_slot \<Rightarrow> sub_slot" where
  "fill_delete_io_queue type qid slot_id sc =
     sc_set ''command_id'' (unat slot_id)
      (raw_set nvme_delete_queue ''qid'' (unat qid)
       (raw_set nvme_delete_queue ''opcode''
         (unat (admin_opcode_val (if type = QTYPE_SUB then nvme_admin_delete_sq else nvme_admin_delete_cq))) sc))"

definition Command_admin_delete_io_queue :: "queue_type \<Rightarrow> u32 \<Rightarrow> nvme_queue \<Rightarrow> (u16 \<times> nvme_queue) option outcome" where
  "Command_admin_delete_io_queue type qid q = with_slot (fill_delete_io_queue type qid) q"

definition fill_format :: "u32 \<Rightarrow> u32 \<Rightarrow> u16 \<Rightarrow> sub_slot \<Rightarrow> sub_slot" where
  "fill_format lbaf nsid slot_id sc =
     sc_set ''command_id'' (unat slot_id)
      (raw_set nvme_format_cmd ''nsid'' (unat nsid)
       (raw_set nvme_format_cmd ''cdw10'' (unat lbaf)
        (raw_set nvme_format_cmd ''opcode'' (unat (admin_opcode_val nvme_admin_format_nvm)) sc)))"

definition Command_admin_format :: "u32 \<Rightarrow> u32 \<Rightarrow> nvme_queue \<Rightarrow> (u16 \<times> nvme_queue) option outcome" where
  "Command_admin_format lbaf nsid q = with_slot (fill_format lbaf nsid) q"

section \<open>Completion of an admin command\<close>

text \<open>The polls of \<^verbatim>\<open>check_command_completion\<close>: the number of the poll that sees the command id, or \<open>None\<close>.\<close>

function await_cid :: "(nat \<Rightarrow> nvme_comp_command_common) \<Rightarrow> u16 \<Rightarrow> nat \<Rightarrow> nat option" where
  "await_cid slot cid attempts =
     (if command_id (slot attempts) \<noteq> cid then
        (if attempts + 1 > 1000000000 then None else await_cid slot cid (attempts + 1))
      else Some attempts)"
  by pat_completeness auto
termination by (relation "measure (\<lambda>(slot, cid, attempts). 1000000001 - attempts)") auto

declare await_cid.simps [simp del]

definition check_command_completion ::
  "(nat \<Rightarrow> nvme_comp_command_common) \<Rightarrow> u16 \<Rightarrow> nvme_queue \<Rightarrow> (status \<times> nvme_queue) outcome" where
  "check_command_completion slot cid q =
     (let h = unat (cq_head q) in
      check (ucast (cq_head q) < queue_max_items q) Assertion
      (check (h < length (comp_cmd q)) Out_of_range
      (case await_cid slot cid 0 of
         None \<Rightarrow> Inr (E_FAIL, q\<lparr>comp_cmd := (comp_cmd q)[h := slot 1000000000]\<rparr>)
       | Some k \<Rightarrow>
           let cc = slot k; q1 = q\<lparr>comp_cmd := (comp_cmd q)[h := cc]\<rparr> in
           if command_id cc \<noteq> cid then Inr (E_FAIL, q1)
           else if (ucast (phase_tag cc) :: u32) \<noteq> ucast (cq_phase q1) then Inr (E_FAIL, q1)
           else Inr (S_OK, q1\<lparr>comp_cmd := (comp_cmd q1)[h := zero_completion]\<rparr>))))"

definition get_result ::
  "(nat \<Rightarrow> nvme_comp_command_common) \<Rightarrow> u16 \<Rightarrow> nvme_queue \<Rightarrow> (u32 \<times> nvme_queue) outcome" where
  "get_result slot cid q =
     seq (check_command_completion slot cid q) (\<lambda>(st, q1).
       seq (curr_comp_slot q1) (\<lambda>comp. Inr (completion_result comp, q1)))"

definition get_status :: "nvme_queue \<Rightarrow> u16 outcome" where
  "get_status q = seq (curr_comp_slot q) (\<lambda>comp. Inr (completion_status comp))"

definition ring_doorbell_single_completion :: "nvme_queue \<Rightarrow> nvme_queue outcome" where
  "ring_doorbell_single_completion q =
     check (queue_id q = 0) Assertion
       (Inr (increment_completion_head (ring_completion_doorbell (update_admin_sq_head q))))"

definition ring_wait_complete ::
  "(nat \<Rightarrow> nvme_comp_command_common) \<Rightarrow> u16 \<Rightarrow> nvme_queue \<Rightarrow> (u32 \<times> nvme_queue) outcome" where
  "ring_wait_complete slot cid q =
     seq (get_result slot cid (ring_submission_doorbell q)) (\<lambda>(r, q1).
       seq (ring_doorbell_single_completion q1) (\<lambda>q2. Inr (r, q2)))"

section \<open>Admin queue operations\<close>

text \<open>Issue a command and continue with its id; \<open>None\<close> while the ring is full.\<close>

definition submit ::
  "(u16 \<times> nvme_queue) option outcome \<Rightarrow> (u16 \<Rightarrow> nvme_queue \<Rightarrow> 'a outcome) \<Rightarrow> 'a option outcome" where
  "submit cmd k = seq cmd (\<lambda>r. case r of None \<Rightarrow> Inr None | Some (cid, q) \<Rightarrow> seq (k cid q) (\<lambda>x. Inr (Some x)))"

definition create_io_completion_queue ::
  "(nat \<Rightarrow> nvme_comp_command_common) \<Rightarrow> u32 \<Rightarrow> u32 \<Rightarrow> u64 \<Rightarrow> u64 \<Rightarrow> nvme_queue \<Rightarrow> (status \<times> nvme_queue) option outcome" where
  "create_io_completion_queue slot vector qid items prp1 q =
     check (prp1 \<noteq> 0) Assertion
     (submit (Command_admin_create_io_cq vector qid items prp1 q) (\<lambda>cid q1.
       seq (ring_wait_complete slot cid q1) (\<lambda>(r, q2).
         check (r = 0) Assertion
         (seq (get_status q2) (\<lambda>st. check (st = 0) Assertion (Inr (S_OK, q2)))))))"

definition create_io_submission_queue ::
  "(nat \<Rightarrow> nvme_comp_command_common) \<Rightarrow> u32 \<Rightarrow> u64 \<Rightarrow> u64 \<Rightarrow> u32 \<Rightarrow> nvme_queue \<Rightarrow> (status \<times> nvme_queue) option outcome" where
  "create_io_submission_queue slot qid queue_size prp1 cq_id q =
     check (prp1 \<noteq> 0) Assertion
     (submit (Command_admin_create_io_sq qid queue_size prp1 cq_id PRIO_HIGH q) (\<lambda>cid q1.
       seq (ring_wait_complete slot cid q1) (\<lambda>(r, q2).
         check (r = 0) Assertion
         (seq (get_status q2) (\<lambda>st. check (st = 0) Assertion (Inr (S_OK, q2)))))))"

definition delete_io_queue ::
  "(nat \<Rightarrow> nvme_comp_command_common) \<Rightarrow> queue_type \<Rightarrow> u32 \<Rightarrow> nvme_queue \<Rightarrow> (status \<times> nvme_queue) option outcome" where
  "delete_io_queue slot type qid q =
     submit (Command_admin_delete_io_queue type qid q) (\<lambda>cid q1.
       seq (ring_wait_complete slot cid q1) (\<lambda>(r, q2). check (r = 0) Assertion (Inr (S_OK, q2))))"

definition set_queue_num ::
  "(nat \<Rightarrow> nvme_comp_command_common) \<Rightarrow> u32 \<Rightarrow> nvme_queue \<Rightarrow> (status \<times> nvme_queue) option outcome" where
  "set_queue_num slot num_queues q =
     submit (Command_admin_set_features (configure_num_queues num_queues) q) (\<lambda>cid q1.
       seq (ring_wait_complete slot cid q1) (\<lambda>(r, q2). Inr (S_OK, q2)))"

definition set_irq_coal ::
  "(nat \<Rightarrow> nvme_comp_command_common) \<Rightarrow> bool \<Rightarrow> u32 \<Rightarrow> nvme_queue \<Rightarrow> (status \<times> nvme_queue) option outcome" where
  "set_irq_coal slot st vector q =
     submit (Command_admin_set_features (configure_interrupt_coalescing st vector) q) (\<lambda>cid q1.
       seq (ring_wait_complete slot cid q1) (\<lambda>(r, q2). Inr (S_OK, q2)))"

definition set_irq_coal_options ::
  "(nat \<Rightarrow> nvme_comp_command_common) \<Rightarrow> u32 \<Rightarrow> u32 \<Rightarrow> nvme_queue \<Rightarrow> (status \<times> nvme_queue) option outcome" where
  "set_irq_coal_options slot agg threshold q =
     submit (Command_admin_set_features (configure_interrupt_coalescing_time agg threshold) q) (\<lambda>cid q1.
       seq (ring_wait_complete slot cid q1) (\<lambda>(r, q2). Inr (S_OK, q2)))"

definition issue_format ::
  "(nat \<Rightarrow> nvme_comp_command_common) \<Rightarrow> u32 \<Rightarrow> u32 \<Rightarrow> nvme_queue \<Rightarrow> (status \<times> nvme_queue) option outcome" where
  "issue_format slot lbaf nsid q =
     check (nsid = 1) Assertion
     (submit (Command_admin_format lbaf nsid q) (\<lambda>cid q1.
       seq (ring_wait_complete slot cid q1) (\<lambda>(r, q2). Inr (S_OK, q2))))"

section \<open>Identification\<close>

record ns_info =
  ns_nsze :: u64
  ns_ncap :: u64

record device_info =
  ident_vid :: u16
  ident_ssvid :: u16
  ident_firmware_rev :: "u8 list"
  ident_oacs :: u16
  ident_nn :: u32
  ns_ident :: "ns_info list"

abbreviation id_field :: "c_field list \<Rightarrow> string \<Rightarrow> u8 list \<Rightarrow> nat" where
  "id_field st f page \<equiv> load False st f 0 page"

definition check_controller_result ::
  "(nat \<Rightarrow> nvme_comp_command_common) \<Rightarrow> u8 list \<Rightarrow> u16 \<Rightarrow> nvme_queue \<Rightarrow> device_info \<Rightarrow>
    (status \<times> nvme_queue \<times> device_info) outcome" where
  "check_controller_result slot page cid q d =
     seq (check_command_completion slot cid q) (\<lambda>(st, q1).
       let sqes = (of_nat (id_field nvme_id_ctrl ''sqes'' page) :: u8);
           cqes = (of_nat (id_field nvme_id_ctrl ''cqes'' page) :: u8);
           fr = (case field_pos False nvme_id_ctrl ''fr'' of Some (off, w) \<Rightarrow> take 8 (drop off page) | None \<Rightarrow> [])
       in check (drop_bit 4 sqes AND 0xf = 6) Assertion
          (check (sqes AND 0xf = 6) Assertion
          (check (drop_bit 4 cqes AND 0xf = 4) Assertion
          (check (cqes AND 0xf = 4) Assertion
            (Inr (S_OK, q1, d\<lparr>ident_vid := of_nat (id_field nvme_id_ctrl ''vid'' page),
               ident_ssvid := of_nat (id_field nvme_id_ctrl ''ssvid'' page), ident_firmware_rev := fr,
               ident_oacs := of_nat (id_field nvme_id_ctrl ''oacs'' page),
               ident_nn := of_nat (id_field nvme_id_ctrl ''nn'' page)\<rparr>))))))"

definition check_ns_result ::
  "(nat \<Rightarrow> nvme_comp_command_common) \<Rightarrow> u8 list \<Rightarrow> u16 \<Rightarrow> u32 \<Rightarrow> nvme_queue \<Rightarrow> device_info \<Rightarrow>
    (status \<times> nvme_queue \<times> device_info) outcome" where
  "check_ns_result slot page cid nsid q d =
     check (0 < nsid) Assertion
     (seq (check_command_completion slot cid q) (\<lambda>(st, q1).
       Inr (S_OK, q1, d\<lparr>ns_ident := ns_ident d @
         [\<lparr>ns_nsze = of_nat (id_field nvme_id_ns ''nsze'' page), ns_ncap = of_nat (id_field nvme_id_ns ''ncap'' page)\<rparr>]\<rparr>)))"

text \<open>
  The loop over the namespaces. \<open>slots\<close>, \<open>pages\<close> and \<open>prps\<close> give the device's behaviour and the DMA page of
  the \<open>n\<close>-th command. The loop counter is 32 bits wide, so the loop does not end when the controller reports
  the maximal number of namespaces.
\<close>

partial_function (option) identify_namespaces ::
  "(nat \<Rightarrow> nat \<Rightarrow> nvme_comp_command_common) \<Rightarrow> (nat \<Rightarrow> u8 list) \<Rightarrow> (nat \<Rightarrow> u64) \<Rightarrow> u32 \<Rightarrow> nvme_queue \<Rightarrow> device_info \<Rightarrow>
    (nvme_queue \<times> device_info) option outcome option" where
  "identify_namespaces slots pages prps n q d =
     (if n \<le> ident_nn d then
        (case submit (Command_admin_identify (prps (unat n)) n q) (\<lambda>cid q1.
            seq (check_ns_result (slots (unat n)) (pages (unat n)) cid n (ring_submission_doorbell q1) d) (\<lambda>(st, q2, d1).
              seq (ring_doorbell_single_completion q2) (\<lambda>q3. Inr (q3, d1)))) of
           Inl e \<Rightarrow> Some (Inl e)
         | Inr None \<Rightarrow> Some (Inr None)
         | Inr (Some r) \<Rightarrow> identify_namespaces slots pages prps (n + 1) (fst r) (snd r))
      else Some (Inr (Some (q, d))))"

definition issue_identify_device ::
  "(nat \<Rightarrow> nat \<Rightarrow> nvme_comp_command_common) \<Rightarrow> (nat \<Rightarrow> u8 list) \<Rightarrow> (nat \<Rightarrow> u64) \<Rightarrow> nvme_queue \<Rightarrow> device_info \<Rightarrow>
    (nvme_queue \<times> device_info) option outcome option" where
  "issue_identify_device slots pages prps q d =
     (case submit (Command_admin_identify (prps 0) 0 q) (\<lambda>cid q1.
        seq (check_controller_result (slots 0) (pages 0) cid (ring_submission_doorbell q1) d) (\<lambda>(st, q2, d1).
          seq (ring_doorbell_single_completion q2) (\<lambda>q3. Inr (q3, d1)))) of
        Inl e \<Rightarrow> Some (Inl e)
      | Inr None \<Rightarrow> Some (Inr None)
      | Inr (Some (q3, d1)) \<Rightarrow> identify_namespaces slots pages prps 1 q3 d1)"

text \<open>
  \<^verbatim>\<open>feature_info\<close> passes \<^verbatim>\<open>_ns_ident[n]\<close> for \<open>n\<close> from 1 to the number of namespaces; \<^verbatim>\<open>extract_info\<close> only
  waits for the completion.
\<close>

partial_function (option) feature_info_loop ::
  "(nat \<Rightarrow> nat \<Rightarrow> nvme_comp_command_common) \<Rightarrow> (nat \<Rightarrow> u64) \<Rightarrow> u32 \<Rightarrow> device_info \<Rightarrow> nvme_queue \<Rightarrow>
    nvme_queue option outcome option" where
  "feature_info_loop slots prps n d q =
     (if n \<le> ident_nn d then
        (case submit (Command_admin_get_features (prps (unat n)) NVME_FEAT_LBA_RANGE n q) (\<lambda>cid q1.
            check (unat n < length (ns_ident d)) Out_of_range
            (seq (check_command_completion (slots (unat n)) cid (ring_submission_doorbell q1)) (\<lambda>(st, q2).
              seq (curr_comp_slot q2) (\<lambda>cc. ring_doorbell_single_completion q2)))) of
           Inl e \<Rightarrow> Some (Inl e)
         | Inr None \<Rightarrow> Some (Inr None)
         | Inr (Some q3) \<Rightarrow> feature_info_loop slots prps (n + 1) d q3)
      else Some (Inr (Some q)))"

definition feature_info ::
  "(nat \<Rightarrow> nat \<Rightarrow> nvme_comp_command_common) \<Rightarrow> (nat \<Rightarrow> u64) \<Rightarrow> device_info \<Rightarrow> nvme_queue \<Rightarrow> nvme_queue option outcome option" where
  "feature_info slots prps d q =
     (if ns_ident d = [] then Some (Inl Assertion) else feature_info_loop slots prps 1 d q)"

section \<open>Construction\<close>

text \<open>
  The constructor of the admin queue: two zeroed rings of 64 entries in DMA memory at the given physical
  addresses, whose addresses and sizes go to the controller registers.
\<close>

definition Admin_queue_len :: nat where
  "Admin_queue_len = 64"

definition NVME_admin_queue ::
  "batch_info list \<Rightarrow> u64 \<Rightarrow> u64 \<Rightarrow> u32 \<Rightarrow> NVME_register_map \<Rightarrow> (nvme_queue \<times> NVME_register_map) outcome" where
  "NVME_admin_queue elems cq_phys sq_phys irq reg =
     check (cq_phys AND 0xfff = 0) Assertion
     (check (sq_phys AND 0xfff = 0) Assertion
       (let q = NVME_queues_base elems 0 irq (of_nat Admin_queue_len);
            reg1 = set_acq_base cq_phys (set_asq_base sq_phys reg);
            reg2 = set_acqs (of_nat (Admin_queue_len - 1)) (set_asqs (of_nat (Admin_queue_len - 1)) reg1)
        in Inr (q\<lparr>sub_cmd := replicate Admin_queue_len (replicate 64 0),
                  comp_cmd := replicate Admin_queue_len zero_completion\<rparr>, reg2)))"

section \<open>Encodings\<close>

text \<open>A 32-bit word that two 16-bit fields make up.\<close>

lemma get_dword: "get_le off 4 bs = get_le off 2 bs + 65536 * get_le (off + 2) 2 bs"
  using get_le_split [of off 2 2 bs] by simp

lemmas slot_access = load_def store_def nvme_pos get_put_same get_put_disjoint

text \<open>The values that dword 11 of a set-features command takes.\<close>

lemma feature_words:
  fixes n v t th :: u32
  shows "0 < unat n \<Longrightarrow> unat n \<le> 65536 \<Longrightarrow> unat (push_bit 16 (n - 1) OR (n - 1)) = (unat n - 1) + 65536 * (unat n - 1)"
    "unat ((v AND 0xffff) OR push_bit 16 1) = unat v mod 65536 + 65536"
    "unat ((th AND 0xff) OR push_bit 8 (t AND 0xff)) = unat th mod 256 + 256 * (unat t mod 256)"
proof -
  assume n: "0 < unat n" "unat n \<le> 65536"
  then have "n \<noteq> 0" by auto
  then have u: "unat (n - 1) = unat n - 1" by (rule unat_minus_one)
  moreover have "unat ((n - 1) OR push_bit 16 (n - 1)) = unat (n - 1) + unat (n - 1) * 2 ^ 16"
    using n u by (intro unat_or_push) simp_all
  ultimately show "unat (push_bit 16 (n - 1) OR (n - 1)) = (unat n - 1) + 65536 * (unat n - 1)" by (simp add: or.commute)
next
  have "unat ((v AND 0xffff) OR push_bit 16 1) = unat (v AND 0xffff) + unat (1 :: u32) * 2 ^ 16"
    by (rule unat_or_push) (simp_all add: unat_and_low)
  then show "unat ((v AND 0xffff) OR push_bit 16 1) = unat v mod 65536 + 65536" by (simp add: unat_and_low)
  have "unat ((th AND 0xff) OR push_bit 8 (t AND 0xff)) = unat (th AND 0xff) + unat (t AND 0xff) * 2 ^ 8"
    by (rule unat_or_push) (simp_all add: unat_and_low)
  then show "unat ((th AND 0xff) OR push_bit 8 (t AND 0xff)) = unat th mod 256 + 256 * (unat t mod 256)" by (simp add: unat_and_low)
qed

section \<open>One command at a time\<close>

text \<open>
  Between admin commands the submission tail and the completion head agree, at most one slot counts as used,
  and all completion slots are zero.
\<close>

definition admin_ok :: "nvme_queue \<Rightarrow> bool" where
  "admin_ok q \<longleftrightarrow> sq_ok q \<and> queue_id q = 0 \<and> cq_size q = Admin_queue_len \<and> sq_used q \<le> 1 \<and> sq_tail q = cq_head q \<and>
     comp_cmd q = replicate Admin_queue_len zero_completion"

lemma await_cid_found:
  assumes "\<forall>j < k. i \<le> j \<longrightarrow> command_id (slot j) \<noteq> cid" "command_id (slot k) = cid" "i \<le> k" "k \<le> 1000000000"
  shows "await_cid slot cid i = Some k"
  using assms
proof (induction "k - i" arbitrary: i)
  case 0
  then show ?case by (subst await_cid.simps) simp
next
  case (Suc n)
  then have "command_id (slot i) \<noteq> cid" "await_cid slot cid (Suc i) = Some k" by simp_all
  then show ?case by (subst await_cid.simps) (use Suc.prems Suc.hyps(2) in simp)
qed

text \<open>The command completes: some poll sees its id, first at \<open>k\<close>, with the expected phase.\<close>

definition completes :: "(nat \<Rightarrow> nvme_comp_command_common) \<Rightarrow> nat \<Rightarrow> u16 \<Rightarrow> nvme_queue \<Rightarrow> bool" where
  "completes slot k cid q \<longleftrightarrow> (\<forall>j < k. command_id (slot j) \<noteq> cid) \<and> command_id (slot k) = cid \<and> k \<le> 1000000000 \<and>
     (ucast (phase_tag (slot k)) :: u32) = ucast (cq_phase q)"

lemma with_slot_admin:
  assumes "admin_ok q"
  shows "\<exists>q1. with_slot fill q = Inr (Some (next_cmdid q, q1)) \<and> queue_id q1 = 0 \<and> sq_ok q1 \<and>
    cq_size q1 = Admin_queue_len \<and> cq_head q1 = cq_head q \<and> cq_phase q1 = cq_phase q \<and> comp_cmd q1 = comp_cmd q \<and>
    unat (sq_tail q1) = Suc (unat (cq_head q)) mod Admin_queue_len"
proof -
  have a: "sq_ok q" "queue_id q = 0" "cq_size q = Admin_queue_len" "sq_used q \<le> 1" "sq_tail q = cq_head q"
    using assms by (simp_all add: admin_ok_def)
  then have "sq_used q \<noteq> cq_size q - 1" by (simp add: Admin_queue_len_def)
  from next_sub_slot_spec [OF a(1), unfolded if_not_P [OF this]]
  obtain i t q' where n: "next_sub_slot q = Inr (Some (next_cmdid q, i, q'))" "sq_ok q'"
      "unat t = Suc (unat (sq_tail q)) mod cq_size q"
      "q' = q\<lparr>cmdid_counter := next_cmdid q, sq_tail := t, sub_cmd := (sub_cmd q)[i := replicate 64 0]\<rparr>"
    by blast
  let ?q = "q'\<lparr>sub_cmd := (sub_cmd q')[i := fill (next_cmdid q) (clear (sub_cmd q' ! i))]\<rparr>"
  have "with_slot fill q = Inr (Some (next_cmdid q, ?q))" using n(1) by (simp add: with_slot_def)
  moreover have "sq_ok ?q" using n(2) by (simp add: sq_ok_def)
  moreover have "queue_id ?q = 0 \<and> cq_size ?q = Admin_queue_len \<and> cq_head ?q = cq_head q \<and> cq_phase ?q = cq_phase q \<and>
      comp_cmd ?q = comp_cmd q \<and> unat (sq_tail ?q) = Suc (unat (cq_head q)) mod Admin_queue_len"
    using n(3) a by (simp add: n(4))
  ultimately show ?thesis by blast
qed

lemma ring_wait_admin:
  assumes q: "queue_id q = 0" "sq_ok q" "cq_size q = Admin_queue_len" "comp_cmd q = replicate Admin_queue_len zero_completion"
    "unat (cq_head q) < Admin_queue_len" "unat (sq_tail q) = Suc (unat (cq_head q)) mod Admin_queue_len"
    and c: "completes slot k cid q"
  shows "\<exists>q'. ring_wait_complete slot cid q = Inr (0, q') \<and> admin_ok q'"
proof -
  let ?h = "unat (cq_head q)" and ?q1 = "ring_submission_doorbell q"
  have "await_cid slot cid 0 = Some k" using c await_cid_found [of k 0 slot cid] by (simp add: completes_def)
  moreover have "ucast (cq_head q) < queue_max_items q"
    using q(3,5) by (simp add: word_less_nat_alt cq_size_def unsigned_ucast_eq take_bit_nat_eq_self Admin_queue_len_def)
  moreover have "(comp_cmd q)[?h := zero_completion] = comp_cmd q"
    using q(4,5) by (metis list_update_id nth_replicate)
  then have "?q1\<lparr>comp_cmd := (comp_cmd q)[?h := zero_completion]\<rparr> = ?q1"
    by (cases q) (simp add: ring_submission_doorbell_def)
  ultimately have "get_result slot cid ?q1 = Inr (0, ?q1)"
    using q(4,5) c
    by (simp add: get_result_def check_command_completion_def curr_comp_slot_def ring_submission_doorbell_def
        completes_def Let_def completion_result_def zero_completion_def)
  moreover
  define q2 where "q2 = ring_completion_doorbell (update_admin_sq_head ?q1)"
  have same: "cq_head q2 = cq_head q" "cq_size q2 = cq_size q" "sq_head q2 = cq_head q" "sq_tail q2 = sq_tail q"
      "comp_cmd q2 = comp_cmd q" "sub_cmd q2 = sub_cmd q" "queue_id q2 = 0"
    using q(1) by (simp_all add: q2_def ring_completion_doorbell_def update_admin_sq_head_def
        ring_submission_doorbell_def cq_size_def)
  have i: "unat (cq_head (increment_completion_head q2)) = Suc ?h mod Admin_queue_len"
    "comp_cmd (increment_completion_head q2) = comp_cmd q" "cq_size (increment_completion_head q2) = Admin_queue_len"
    using increment_head [of q2] same q(3,5) by (simp_all add: Admin_queue_len_def)
  have rest: "sq_tail (increment_completion_head q2) = sq_tail q" "sq_head (increment_completion_head q2) = cq_head q"
      "sub_cmd (increment_completion_head q2) = sub_cmd q" "queue_id (increment_completion_head q2) = 0"
    using same by (simp_all add: increment_completion_head_def Let_def)
  have "sq_used (increment_completion_head q2) \<le> 1"
    using i(3) rest(1,2) q(5,6) by (auto simp: sq_used_def Admin_queue_len_def mod_Suc)
  then have "admin_ok (increment_completion_head q2)"
    using q i rest by (simp add: admin_ok_def sq_ok_def word_unat_eq_iff)
  ultimately show ?thesis
    using same(7) q(1)
    by (auto simp: ring_wait_complete_def ring_doorbell_single_completion_def q2_def ring_submission_doorbell_def)
qed

section \<open>Properties\<close>

text \<open>
  What a controller finds in a slot of 64 bytes, at the positions of the NVMe specification: the opcode in byte 0, the
  command id in bytes 2 and 3, the namespace in bytes 4 to 7, the first PRP entry in bytes 24 to 31 and the command
  dwords 10 and 11 from byte 40 on. The other bytes have to be 0.
\<close>

record sqe =
  sqe_opcode :: nat
  sqe_cid :: nat
  sqe_nsid :: nat
  sqe_prp1 :: nat
  sqe_cdw10 :: nat
  sqe_cdw11 :: nat

definition fetch_sqe :: "sub_slot \<Rightarrow> sqe option" where
  "fetch_sqe s =
     (if length s = 64 \<and> get_le 1 1 s = 0 \<and> get_le 8 8 s = 0 \<and> get_le 16 8 s = 0 \<and> get_le 32 8 s = 0 \<and> get_le 48 8 s = 0 \<and> get_le 56 8 s = 0
      then Some \<lparr>sqe_opcode = get_le 0 1 s, sqe_cid = get_le 2 2 s, sqe_nsid = get_le 4 4 s, sqe_prp1 = get_le 24 8 s,
        sqe_cdw10 = get_le 40 4 s, sqe_cdw11 = get_le 44 4 s\<rparr>
      else None)"

text \<open>The command takes a slot that was free, and the controller finds \<open>e\<close> there, with the next command id.\<close>

definition issues :: "(nvme_queue \<Rightarrow> (u16 \<times> nvme_queue) option outcome) \<Rightarrow> nvme_queue \<Rightarrow> sqe \<Rightarrow> bool" where
  "issues cmd q e \<longleftrightarrow> (\<exists>i q1. cmd q = Inr (Some (next_cmdid q, q1)) \<and> i \<notin> in_use q \<and> in_use q1 = insert i (in_use q) \<and>
     i < length (sub_cmd q1) \<and> fetch_sqe (sub_cmd q1 ! i) = Some (e\<lparr>sqe_cid := unat (next_cmdid q)\<rparr>))"

lemma with_slot_issues:
  assumes "admin_ok q" "\<And>s. fetch_sqe (fill (next_cmdid q) (clear s)) = Some (e\<lparr>sqe_cid := unat (next_cmdid q)\<rparr>)"
  shows "issues (with_slot fill) q e"
proof -
  have "sq_ok q" "sq_used q \<noteq> cq_size q - 1" using assms(1) by (simp_all add: admin_ok_def Admin_queue_len_def)
  from next_sub_slot_spec [OF this(1), unfolded if_not_P [OF this(2)]]
  obtain i t q' where n: "next_sub_slot q = Inr (Some (next_cmdid q, i, q'))" "i < cq_size q" "i \<notin> in_use q" "in_use q' = insert i (in_use q)"
      "q' = q\<lparr>cmdid_counter := next_cmdid q, sq_tail := t, sub_cmd := (sub_cmd q)[i := replicate 64 0]\<rparr>"
    by blast
  have "length (sub_cmd q') = cq_size q" using \<open>sq_ok q\<close> by (simp add: n(5) sq_ok_def)
  moreover have "in_use (q'\<lparr>sub_cmd := xs\<rparr>) = in_use q'" for xs by (simp add: in_use_def sq_used_def cq_size_def)
  ultimately show ?thesis
    unfolding issues_def using n(1-4) assms(2) by (intro exI [of _ i]) (simp add: with_slot_def)
qed

lemmas fetch_simps = fetch_sqe_def slot_access

lemma word_fields: "unat (p :: u64) mod 256 ^ 8 = unat p" "unat (c :: u16) mod 256 ^ 2 = unat c" "unat (d :: u32) mod 256 ^ 4 = unat d"
  using unat_bound [of p] unat_bound [of c] unat_bound [of d] by simp_all

lemma fetch_create_cq: "fetch_sqe (fill_create_io_cq v qid n prp1 cid (clear s)) =
    Some \<lparr>sqe_opcode = 5, sqe_cid = unat cid, sqe_nsid = 0, sqe_prp1 = unat prp1,
      sqe_cdw10 = unat qid mod 65536 + 65536 * (unat (n - 1) mod 65536), sqe_cdw11 = 3 + 65536 * (unat v mod 65536)\<rparr>"
  using word_fields(1) [of prp1] word_fields(2) [of cid]
  by (simp add: fill_create_io_cq_def fetch_simps get_dword [of 40] get_dword [of 44] del: One_nat_def)

lemma fetch_create_sq: "fetch_sqe (fill_create_io_sq qid n prp1 cq p cid (clear s)) =
    Some \<lparr>sqe_opcode = 1, sqe_cid = unat cid, sqe_nsid = 0, sqe_prp1 = unat prp1,
      sqe_cdw10 = unat qid mod 65536 + 65536 * (unat (n - 1) mod 65536),
      sqe_cdw11 = 2 * unat (priority_val p) + 1 + 65536 * (unat cq mod 65536)\<rparr>"
proof -
  have "unat (push_bit 1 (priority_val p AND 3) OR 1) = 2 * unat (priority_val p) + 1" "unat (priority_val p) < 4" by (cases p; simp)+
  then show ?thesis using word_fields(1) [of prp1] word_fields(2) [of cid]
    by (simp add: fill_create_io_sq_def fetch_simps get_dword [of 40] get_dword [of 44] del: One_nat_def)
qed

lemma fetch_delete: "fetch_sqe (fill_delete_io_queue type qid cid (clear s)) =
    Some \<lparr>sqe_opcode = (case type of QTYPE_SUB \<Rightarrow> 0 | QTYPE_COMP \<Rightarrow> 4), sqe_cid = unat cid, sqe_nsid = 0, sqe_prp1 = 0,
      sqe_cdw10 = unat qid mod 65536, sqe_cdw11 = 0\<rparr>"
  using word_fields(2) [of cid]
  by (cases type) (simp_all add: fill_delete_io_queue_def fetch_simps get_dword [of 40] del: One_nat_def)

lemma fetch_identify: "fetch_sqe (fill_identify prp1 ns cid (clear s)) =
    Some \<lparr>sqe_opcode = 6, sqe_cid = unat cid, sqe_nsid = unat ns, sqe_prp1 = unat prp1, sqe_cdw10 = (if ns = 0 then 1 else 0), sqe_cdw11 = 0\<rparr>"
  using word_fields(1) [of prp1] word_fields(2) [of cid] word_fields(3) [of ns]
  by (simp add: fill_identify_def Let_def fetch_simps del: One_nat_def)

lemma fetch_get_features: "fetch_sqe (fill_get_features prp1 fid ns cid (clear s)) =
    Some \<lparr>sqe_opcode = 10, sqe_cid = unat cid, sqe_nsid = unat ns, sqe_prp1 = unat prp1, sqe_cdw10 = feature_val fid, sqe_cdw11 = 0\<rparr>"
proof -
  have "feature_val fid mod 256 ^ 4 = feature_val fid" by (cases fid) simp_all
  then show ?thesis using word_fields(1) [of prp1] word_fields(2) [of cid] word_fields(3) [of ns]
    by (simp add: fill_get_features_def fetch_simps del: One_nat_def)
qed

lemma fetch_format: "fetch_sqe (fill_format lbaf ns cid (clear s)) =
    Some \<lparr>sqe_opcode = 0x80, sqe_cid = unat cid, sqe_nsid = unat ns, sqe_prp1 = 0, sqe_cdw10 = unat lbaf, sqe_cdw11 = 0\<rparr>"
proof -
  have "unat (admin_opcode_val nvme_admin_format_nvm) = 0x80" by simp
  then show ?thesis using word_fields(2) [of cid] word_fields(3) [of ns] word_fields(3) [of lbaf]
    by (simp add: fill_format_def fetch_simps del: One_nat_def admin_opcode_val.simps)
qed

text \<open>The value of a feature, in dword 11.\<close>

lemma fetch_set_feature: "fetch_sqe (raw_set nvme_features ''dword11'' (unat d)
      (raw_set nvme_features ''fid'' (feature_val fid) (fill_set_features cid (clear s)))) =
    Some \<lparr>sqe_opcode = 9, sqe_cid = unat cid, sqe_nsid = 0, sqe_prp1 = 0, sqe_cdw10 = feature_val fid, sqe_cdw11 = unat d\<rparr>"
    "fetch_sqe (raw_set nvme_features ''fid'' (feature_val fid)
      (raw_set nvme_features ''dword11'' (unat d) (fill_set_features cid (clear s)))) =
    Some \<lparr>sqe_opcode = 9, sqe_cid = unat cid, sqe_nsid = 0, sqe_prp1 = 0, sqe_cdw10 = feature_val fid, sqe_cdw11 = unat d\<rparr>"
  for d :: u32
proof -
  have "feature_val fid mod 256 ^ 4 = feature_val fid" by (cases fid) simp_all
  note b = this word_fields(2) [of cid] word_fields(3) [of d]
  show "fetch_sqe (raw_set nvme_features ''dword11'' (unat d)
      (raw_set nvme_features ''fid'' (feature_val fid) (fill_set_features cid (clear s)))) =
    Some \<lparr>sqe_opcode = 9, sqe_cid = unat cid, sqe_nsid = 0, sqe_prp1 = 0, sqe_cdw10 = feature_val fid, sqe_cdw11 = unat d\<rparr>"
    "fetch_sqe (raw_set nvme_features ''fid'' (feature_val fid)
      (raw_set nvme_features ''dword11'' (unat d) (fill_set_features cid (clear s)))) =
    Some \<lparr>sqe_opcode = 9, sqe_cid = unat cid, sqe_nsid = 0, sqe_prp1 = 0, sqe_cdw10 = feature_val fid, sqe_cdw11 = unat d\<rparr>"
    using b by (simp_all add: fill_set_features_def fetch_simps del: One_nat_def)
qed


lemma admin_queue_ok:
  "\<exists>q r. NVME_admin_queue elems 0x1000 0x2000 5 reg = Inr (q, r) \<and> admin_ok q \<and> cmdid_counter q = 0 \<and> cq_phase q = 1"
  by (simp add: NVME_admin_queue_def NVME_queues_base_def admin_ok_def sq_ok_def cq_size_def sq_used_def
      Admin_queue_len_def Let_def)


text \<open>
  Creating a completion queue. If the command completes, with any result and any status, even an error
  status, \<^verbatim>\<open>create_io_completion_queue\<close> returns \<open>S_OK\<close>: \<^verbatim>\<open>check_command_completion\<close> zeroes the completion slot
  before its result is read, and the status is read from the next slot, after the head was moved. The queue
  is then ready for the next admin command, which finds room without waiting.
\<close>

theorem create_cq_ignores_status:
  assumes "admin_ok q" "prp1 \<noteq> 0" "completes slot k (next_cmdid q) q"
  shows "\<exists>q'. create_io_completion_queue slot v qid items prp1 q = Inr (Some (S_OK, q')) \<and> admin_ok q'"
proof -
  obtain q1 where q1: "with_slot (fill_create_io_cq v qid items prp1) q = Inr (Some (next_cmdid q, q1))"
      "queue_id q1 = 0" "sq_ok q1" "cq_size q1 = Admin_queue_len" "cq_head q1 = cq_head q" "cq_phase q1 = cq_phase q"
      "comp_cmd q1 = comp_cmd q" "unat (sq_tail q1) = Suc (unat (cq_head q)) mod Admin_queue_len"
    using with_slot_admin [OF assms(1)] by blast
  have "completes slot k (next_cmdid q) q1" using assms(3) q1(6) by (simp add: completes_def)
  moreover have "unat (cq_head q) < Admin_queue_len" using assms(1) by (auto simp: admin_ok_def sq_ok_def)
  ultimately obtain q' where q': "ring_wait_complete slot (next_cmdid q) q1 = Inr (0, q')" "admin_ok q'"
    using ring_wait_admin [of q1 slot k "next_cmdid q"] q1 assms(1) by (auto simp: admin_ok_def)
  then have h: "unat (cq_head q') < Admin_queue_len" by (auto simp: admin_ok_def sq_ok_def)
  then have "ucast (cq_head q') < queue_max_items q'"
    using q'(2) by (simp add: admin_ok_def word_less_nat_alt cq_size_def unsigned_ucast_eq take_bit_nat_eq_self
        Admin_queue_len_def)
  then have "get_status q' = Inr 0"
    using q'(2) h by (simp add: get_status_def curr_comp_slot_def admin_ok_def completion_status_def zero_completion_def)
  then show ?thesis
    using assms(2) q1(1) q' by (simp add: create_io_completion_queue_def submit_def Command_admin_create_io_cq_def)
qed

text \<open>
  \<^verbatim>\<open>feature_info\<close> indexes the vector of namespaces from 1 although it is filled from 0: on a device with
  one namespace, identified as \<^verbatim>\<open>issue_identify_device\<close> does, it accesses the vector out of range.
\<close>

theorem feature_info_out_of_range:
  assumes "admin_ok q" "ident_nn d = 1" "length (ns_ident d) = 1"
  shows "feature_info slots prps d q = Some (Inl Out_of_range)"
proof -
  obtain q1 where "with_slot (fill_get_features (prps 1) NVME_FEAT_LBA_RANGE 1) q = Inr (Some (next_cmdid q, q1))"
    using with_slot_admin [OF assms(1)] by blast
  then have "submit (Command_admin_get_features (prps 1) NVME_FEAT_LBA_RANGE 1 q) (\<lambda>cid q1.
      check (unat (1 :: u32) < length (ns_ident d)) Out_of_range (k cid q1)) = Inl Out_of_range"
      for k :: "u16 \<Rightarrow> nvme_queue \<Rightarrow> nvme_queue outcome"
    using assms(3) by (simp add: submit_def Command_admin_get_features_def)
  then show ?thesis
    using assms(2,3) unfolding feature_info_def by (subst feature_info_loop.simps) auto
qed

end
