(* ===== verification/XDK_NVMe_IO.thy ===== *)
theory XDK_NVMe_IO
  imports XDK_NVMe_Admin
begin

text \<open>
  I/O commands (\<^verbatim>\<open>drivers/nvme-ssd/nvme_command_io.h\<close>), the I/O queues (\<^verbatim>\<open>NVME_IO_queue\<close> in \<^verbatim>\<open>nvme_queue.cc\<close>)
  and the completion thread (\<^verbatim>\<open>cq_thread.cc\<close>). Issuing a batch waits for the completion thread in several
  places, so \<^verbatim>\<open>issue_async_io_batch\<close> is a state machine whose steps interleave with completions.
\<close>

section \<open>Commands\<close>

definition fill_flush :: "u32 \<Rightarrow> u32 \<Rightarrow> sub_slot \<Rightarrow> sub_slot" where
  "fill_flush cid nsid sc =
     raw_set nvme_rw_command ''command_id'' (unat cid)
      (raw_set nvme_rw_command ''nsid'' (unat nsid)
       (raw_set nvme_rw_command ''opcode'' (unat (opcode_val nvme_cmd_flush)) (clear sc)))"

text \<open>The hint byte is copied into the first byte of \<^verbatim>\<open>dsmgmt\<close>.\<close>

definition fill_rw ::
  "u32 \<Rightarrow> u32 \<Rightarrow> u64 \<Rightarrow> u64 \<Rightarrow> u64 \<Rightarrow> bool \<Rightarrow> u32 \<Rightarrow> u32 \<Rightarrow> bool \<Rightarrow> sub_slot \<Rightarrow> sub_slot" where
  "fill_rw cid nsid prp1 off num_blocks sequential freq lat iswrite sc =
     (let dsm = \<lparr>access_freq = ucast freq, access_lat = ucast lat, seq_request = if sequential then 1 else 0,
            incompressible = 0\<rparr>;
          sc1 = raw_set nvme_rw_command ''length'' (unat (num_blocks - 1))
            (raw_set nvme_rw_command ''slba'' (unat off)
             (raw_set nvme_rw_command ''prp1'' (unat prp1)
              (raw_set nvme_rw_command ''command_id'' (unat cid)
               (raw_set nvme_rw_command ''nsid'' (unat nsid)
                (raw_set nvme_rw_command ''opcode''
                  (unat (opcode_val (if iswrite then nvme_cmd_write else nvme_cmd_read))) sc)))))
      in case field_pos False nvme_rw_command ''dsmgmt'' of
           Some (o1, w) \<Rightarrow> put_le o1 1 (unat (dsm_byte dsm)) sc1 | None \<Rightarrow> sc1)"

definition Command_io_rw ::
  "nat \<Rightarrow> u32 \<Rightarrow> u32 \<Rightarrow> u64 \<Rightarrow> u64 \<Rightarrow> u64 \<Rightarrow> bool \<Rightarrow> u32 \<Rightarrow> u32 \<Rightarrow> bool \<Rightarrow> nvme_queue \<Rightarrow> nvme_queue outcome" where
  "Command_io_rw i cid nsid prp1 off num_blocks sequential freq lat iswrite q =
     check (nsid = 1) Assertion
       (Inr (q\<lparr>sub_cmd := (sub_cmd q)[i := fill_rw cid nsid prp1 off num_blocks sequential freq lat iswrite (sub_cmd q ! i)]\<rparr>))"

section \<open>Issuing single commands\<close>

text \<open>The doorbell is rung for every command (\<^verbatim>\<open>SQ_MAX_BATCH_TO_RING\<close> is 1).\<close>

definition issue_async_read ::
  "u64 \<Rightarrow> u64 \<Rightarrow> u64 \<Rightarrow> bool \<Rightarrow> u32 \<Rightarrow> u32 \<Rightarrow> u32 \<Rightarrow> nvme_queue \<Rightarrow> (u16 \<times> nvme_queue) option outcome" where
  "issue_async_read prp1 off num_blocks sequential freq lat nsid q =
     seq (next_sub_slot q) (\<lambda>r. case r of None \<Rightarrow> Inr None
       | Some (slot_id, i, q1) \<Rightarrow>
           check (0 < slot_id) Assertion
           (seq (Command_io_rw i (ucast slot_id) nsid prp1 off num_blocks sequential freq lat False q1) (\<lambda>q2.
             Inr (Some (slot_id, ring_submission_doorbell q2)))))"

definition issue_async_write ::
  "u64 \<Rightarrow> u64 \<Rightarrow> u64 \<Rightarrow> bool \<Rightarrow> u32 \<Rightarrow> u32 \<Rightarrow> u32 \<Rightarrow> nvme_queue \<Rightarrow> (u16 \<times> nvme_queue) option outcome" where
  "issue_async_write prp1 off num_blocks sequential freq lat nsid q =
     seq (next_sub_slot q) (\<lambda>r. case r of None \<Rightarrow> Inr None
       | Some (slot_id, i, q1) \<Rightarrow>
           seq (Command_io_rw i (ucast slot_id) nsid prp1 off num_blocks sequential freq lat True q1) (\<lambda>q2.
             Inr (Some (slot_id, ring_submission_doorbell q2))))"

definition issue_flush :: "nvme_queue \<Rightarrow> (u16 \<times> nvme_queue) option outcome" where
  "issue_flush q =
     seq (next_sub_slot q) (\<lambda>r. case r of None \<Rightarrow> Inr None
       | Some (slot_id, i, q1) \<Rightarrow>
           let q2 = q1\<lparr>sub_cmd := (sub_cmd q1)[i := fill_flush (ucast slot_id) 1 (sub_cmd q1 ! i)]\<rparr>
           in Inr (Some (slot_id, ring_submission_doorbell q2)))"

text \<open>\<open>None\<close> while the batch manager is not empty.\<close>

definition wait_io_completion :: "nvme_queue \<Rightarrow> (status \<times> nvme_queue) option" where
  "wait_io_completion q =
     (let q1 = ring_submission_doorbell q in
      if wasEmpty (buffer (batch_mgr q1)) then Some (S_OK, q1) else None)"

section \<open>Issuing a batch\<close>

datatype io_action = BLOCK_READ | BLOCK_WRITE | OTHER_ACTION

record io_request =
  action :: io_action
  buffer_phys :: u64
  io_offset :: u64
  io_num_blocks :: u64

text \<open>
  The points of \<^verbatim>\<open>issue_async_io_batch\<close>: its start, the loop of \<^verbatim>\<open>reset_cmdid\<close>, the loop that waits for the
  range of ids, the loop that pushes the batch, the loop over the requests (next index, last command id), and
  the return with the last id. A loop that waits leaves the state unchanged.
\<close>

datatype io_pc = Io_start | Io_reset | Io_check u16 u16 | Io_push u16 u16 | Io_issue u16 u16 nat u16 | Io_done u16

definition batch_of :: "u16 \<Rightarrow> u16 \<Rightarrow> nat \<Rightarrow> batch_info" where
  "batch_of s e len = \<lparr>start_cmdid = s, end_cmdid = e, total = of_nat len, counter = 0, notify = None,
     ready = True, complete = False\<rparr>"

definition issue_request :: "io_request \<Rightarrow> nvme_queue \<Rightarrow> (u16 \<times> nvme_queue) option outcome" where
  "issue_request r q =
     (case action r of
        BLOCK_READ \<Rightarrow> issue_async_read (buffer_phys r) (io_offset r) (io_num_blocks r) False 0 0 1 q
      | BLOCK_WRITE \<Rightarrow> issue_async_write (buffer_phys r) (io_offset r) (io_num_blocks r) False 0 0 1 q
      | OTHER_ACTION \<Rightarrow> Inl Assertion)"

fun io_step :: "io_request list \<Rightarrow> nvme_queue \<times> io_pc \<Rightarrow> (nvme_queue \<times> io_pc) outcome" where
  "io_step rs (q, Io_start) =
     check (0 < length rs) Assertion
     (check (length rs < 0xffff) Assertion
     (seq (next_cmdid_len (of_nat (length rs)) q) (\<lambda>e.
       let s = next_cmdid q in Inr (q, if e < s then Io_reset else Io_check s e))))"
| "io_step rs (q, Io_reset) =
     (case reset_cmdid q of None \<Rightarrow> Inr (q, Io_reset)
      | Some q1 \<Rightarrow>
          seq (next_cmdid_len (of_nat (length rs)) q1) (\<lambda>e.
            let s = next_cmdid q1 in check (e \<ge> s) Assertion (Inr (q1, Io_check s e))))"
| "io_step rs (q, Io_check s e) =
     seq (is_available_range s e (batch_mgr q)) (\<lambda>b. Inr (q, if b then Io_push s e else Io_check s e))"
| "io_step rs (q, Io_push s e) =
     seq (manager_push (batch_of s e (length rs)) (batch_mgr q)) (\<lambda>(r, m).
       Inr (if r then (q\<lparr>batch_mgr := m\<rparr>, Io_issue s e 0 0) else (q, Io_push s e)))"
| "io_step rs (q, Io_issue s e idx cmdid) =
     (if idx < length rs then
        seq (issue_request (rs ! idx) q) (\<lambda>r. case r of None \<Rightarrow> Inr (q, Io_issue s e idx cmdid)
          | Some (cmdid1, q1) \<Rightarrow> Inr (q1, Io_issue s e (Suc idx) cmdid1))
      else check (cmdid = e) Assertion (Inr (q, Io_done e)))"
| "io_step rs (q, Io_done c) = Inr (q, Io_done c)"

section \<open>Completion thread\<close>

text \<open>One round of the loop of the completion thread: \<open>False\<close> when no completion is left.\<close>

definition cq_thread_step :: "(nat \<Rightarrow> bool) \<Rightarrow> nvme_queue \<Rightarrow> (bool \<times> nvme_queue) outcome" where
  "cq_thread_step frees q =
     seq (get_next_completion q) (\<lambda>(r, q1). case r of None \<Rightarrow> Inr (False, q1)
       | Some ccs \<Rightarrow>
           let q2 = update_sq_head ccs q1 in
           seq (update_batch_manager frees (command_id ccs) q2) (\<lambda>(s, q3).
             check (s = S_OK) Assertion (Inr (True, ring_completion_doorbell q3))))"

text \<open>A wake-up: completions are taken until none is left, then the doorbell is rung if there was one.\<close>

partial_function (option) cq_thread_loop ::
  "(nat \<Rightarrow> bool) \<Rightarrow> bool \<Rightarrow> nvme_queue \<Rightarrow> nvme_queue outcome option" where
  "cq_thread_loop frees found q =
     (case cq_thread_step frees q of
        Inl e \<Rightarrow> Some (Inl e)
      | Inr r \<Rightarrow> if fst r then cq_thread_loop frees True (snd r)
                 else Some (Inr (if found then ring_completion_doorbell (snd r) else snd r)))"

section \<open>Construction\<close>

text \<open>
  The constructor creates the two rings through the admin queue \<open>a\<close>; \<open>slots\<close> gives the device's behaviour for
  the two admin commands. The rings are zeroed. \<open>None\<close> while the admin ring is full.
\<close>

definition ring_pages :: "u32 \<Rightarrow> u32 \<Rightarrow> u64" where
  "ring_pages entry_size items = (round_up_page (ucast (entry_size * items)) div PAGE_SIZE) * 2"

definition NVME_IO_queue ::
  "batch_info list \<Rightarrow> (nat \<Rightarrow> nat \<Rightarrow> nvme_comp_command_common) \<Rightarrow> u32 \<Rightarrow> u32 \<Rightarrow> u64 \<Rightarrow> u64 \<Rightarrow> u64 \<Rightarrow> nvme_queue \<Rightarrow>
    (nvme_queue \<times> nvme_queue) option outcome" where
  "NVME_IO_queue elems slots qid vector queue_length cq_phys sq_phys a =
     check (vector \<noteq> 0) Assertion
     (check (0 < queue_length) Assertion
     (check (0 < qid) Assertion
     (check (cq_phys \<noteq> 0 \<and> cq_phys AND 0xfff = 0) Assertion
     (let q = NVME_queues_base elems qid vector queue_length; n = unat (queue_max_items q) in
      seq (create_io_completion_queue (slots 0) qid qid (ucast (queue_max_items q)) cq_phys a) (\<lambda>r.
        case r of None \<Rightarrow> Inr None
        | Some (rc, a1) \<Rightarrow>
            check (rc = S_OK) Assertion
            (check (sq_phys \<noteq> 0 \<and> sq_phys AND 0xfff = 0) Assertion
            (seq (create_io_submission_queue (slots 1) qid (ucast (queue_max_items q)) sq_phys qid a1) (\<lambda>r.
              case r of None \<Rightarrow> Inr None
              | Some (rc, a2) \<Rightarrow>
                  check (rc = S_OK) Assertion
                    (Inr (Some (q\<lparr>sub_cmd := replicate n (replicate 64 0),
                                  comp_cmd := replicate n zero_completion\<rparr>, a2)))))))))))"

section \<open>Encoding\<close>

lemma dsm_byte_unat:
  "unat (dsm_byte \<lparr>access_freq = ucast (freq :: u32), access_lat = ucast (lat :: u32),
     seq_request = if sequential then 1 else 0, incompressible = 0\<rparr>) =
   unat freq mod 16 + 16 * (unat lat mod 4) + (if sequential then 64 else 0)"
proof -
  define a where "a = (ucast (ucast freq :: 4 word) :: u8)"
  define b where "b = (ucast (ucast lat :: 2 word) :: u8)"
  define c where "c = (if sequential then 1 else 0 :: u8)"
  have u: "unat a = unat freq mod 16" "unat b = unat lat mod 4" "unat c = (if sequential then 1 else 0)"
    by (simp_all add: a_def b_def c_def unsigned_ucast_eq unsigned_take_bit_eq take_bit_nat_def mod_mod_cancel)
  have ab: "unat (a OR push_bit 4 b) = unat a + unat b * 2 ^ 4"
  proof (rule unat_or_push)
    have "unat b < 4" using u(2) by simp
    then show "unat b * 2 ^ 4 < 2 ^ LENGTH(8)" by simp
  qed (simp add: u)
  then have "unat (a OR push_bit 4 b) < 64" using u by (simp add: mod_less_divisor)
  then have "unat ((a OR push_bit 4 b) OR push_bit 6 c) = unat (a OR push_bit 4 b) + unat c * 2 ^ 6"
    using u(3) by (intro unat_or_push) auto
  moreover have "dsm_byte \<lparr>access_freq = ucast freq, access_lat = ucast lat,
     seq_request = if sequential then 1 else 0, incompressible = 0\<rparr> = (a OR push_bit 4 b) OR push_bit 6 c"
    by (simp add: dsm_byte_def a_def b_def c_def or.assoc)
  ultimately show ?thesis using ab u by simp
qed

lemma rw_dwords:
  assumes "slot = fill_rw cid nsid prp1 off nb sequential freq lat iswrite (clear sc)"
  shows "sc_get ''opcode'' slot = (if iswrite then 1 else 2)" "sc_get ''command_id'' slot = unat cid mod 65536"
    "sc_get ''nsid'' slot = unat nsid" "sc_get ''prp1'' slot = unat prp1"
    "sc_get ''cdw10'' slot + 2 ^ 32 * sc_get ''cdw11'' slot = unat off"
    "sc_get ''cdw12'' slot = unat (nb - 1) mod 65536"
    "sc_get ''cdw13'' slot = unat freq mod 16 + 16 * (unat lat mod 4) + (if sequential then 64 else 0)"
proof -
  let ?d = "\<lparr>access_freq = ucast freq, access_lat = ucast lat, seq_request = if sequential then 1 else 0,
            incompressible = 0\<rparr> :: nvme_io_dsm"
  have b: "unat prp1 mod 256 ^ 8 = unat prp1" "unat nsid mod 256 ^ 4 = unat nsid" "unat off mod 256 ^ 8 = unat off"
    "unat (dsm_byte ?d) mod 256 = unat (dsm_byte ?d)"
    using unat_bound [of prp1] unat_bound [of nsid] unat_bound [of off] unat_bound [of "dsm_byte ?d"] by simp_all
  note acc = slot_access Let_def fill_rw_def assms
  show "sc_get ''opcode'' slot = (if iswrite then 1 else 2)" "sc_get ''command_id'' slot = unat cid mod 65536"
    "sc_get ''nsid'' slot = unat nsid" "sc_get ''prp1'' slot = unat prp1"
    using b by (simp_all add: acc del: One_nat_def)
  have "get_le 40 (4 + 4) slot = unat off" using b by (simp add: acc del: One_nat_def)
  then show "sc_get ''cdw10'' slot + 2 ^ 32 * sc_get ''cdw11'' slot = unat off"
    unfolding get_le_split [of 40 4 4] by (simp add: load_def nvme_pos)
  have "get_le 48 2 slot = unat (nb - 1) mod 65536" "get_le 50 2 slot = 0"
    by (simp_all add: acc del: One_nat_def)
  then show "sc_get ''cdw12'' slot = unat (nb - 1) mod 65536" by (simp add: load_def nvme_pos get_dword)
  have "get_le 52 1 slot = unat (dsm_byte ?d)" "get_le 53 3 slot = 0"
    using b by (simp_all add: acc del: One_nat_def)
  then show "sc_get ''cdw13'' slot = unat freq mod 16 + 16 * (unat lat mod 4) + (if sequential then 64 else 0)"
    using get_le_split [of 52 1 3 slot] dsm_byte_unat by (simp add: load_def nvme_pos)
qed

section \<open>Command ids of batches\<close>

text \<open>
  The ids of a new batch, as the code computes them from the counter \<open>c\<close>. Below the wrap-around they
  continue the counter; when the counter is at its maximum they start at 1; otherwise the end comes before the
  start, which makes the code reset the counter.
\<close>

lemma batch_ids:
  fixes q :: nvme_queue
  assumes "0 < n" "n < 0xffff" "c = unat (cmdid_counter q)"
  obtains e where "next_cmdid_len (of_nat n) q = Inr e"
    "c + n < 2 ^ 16 \<Longrightarrow> unat (next_cmdid q) = c + 1 \<and> unat e = c + n"
    "c = 0xffff \<Longrightarrow> next_cmdid q = 1 \<and> unat e = n"
    "2 ^ 16 \<le> c + n \<Longrightarrow> c \<noteq> 0xffff \<Longrightarrow> e < next_cmdid q"
proof -
  let ?x = "cmdid_counter q + of_nat n"
  have c: "c < 2 ^ 16" using assms(3) unat_bound [of "cmdid_counter q"] by simp
  have x: "unat ?x = (c + n) mod 2 ^ 16" using assms by (simp add: unat_word_ariths(1) unat_of_nat)
  have len: "next_cmdid_len (of_nat n) q = Inr (if ?x = 0 \<or> ?x < cmdid_counter q then ?x + 1 else ?x)"
    using assms by (simp add: next_cmdid_len_def word_less_nat_alt unat_of_nat Let_def)
  have s: "unat (next_cmdid q) = (if c = 0xffff then 1 else c + 1)"
    using c assms(3) by (auto simp: next_cmdid_def Let_def unat_word_ariths(1) word_unat_eq_iff [of _ 0])
  show ?thesis
  proof (rule that [OF len])
    assume "c + n < 2 ^ 16"
    then have "unat ?x = c + n" using x by simp
    then have "\<not> (?x = 0 \<or> ?x < cmdid_counter q)" using assms(1,3) by (auto simp: word_less_nat_alt)
    then show "unat (next_cmdid q) = c + 1 \<and> unat (if ?x = 0 \<or> ?x < cmdid_counter q then ?x + 1 else ?x) = c + n"
      using s \<open>unat ?x = c + n\<close> \<open>c + n < 2 ^ 16\<close> assms(1) by auto
  next
    assume a: "c = 0xffff"
    then have u: "unat ?x = n - 1" using x assms(1,2) by (auto simp: mod_if)
    then have "?x < cmdid_counter q" using assms a by (simp add: word_less_nat_alt)
    moreover have "unat (?x + 1) = n" using u assms(1,2) by (simp add: unat_word_ariths(1))
    moreover have "next_cmdid q = 1" using s a by (simp add: word_unat_eq_iff)
    ultimately show "next_cmdid q = 1 \<and> unat (if ?x = 0 \<or> ?x < cmdid_counter q then ?x + 1 else ?x) = n" by simp
  next
    assume a: "2 ^ 16 \<le> c + n" "c \<noteq> 0xffff"
    then have u: "unat ?x = c + n - 2 ^ 16" using x c assms(2) by (auto simp: mod_if)
    then have "?x < cmdid_counter q" using assms a c by (simp add: word_less_nat_alt)
    moreover have "unat (?x + 1) = c + n - 2 ^ 16 + 1" using u a c assms(2) by (simp add: unat_word_ariths(1))
    ultimately show "(if ?x = 0 \<or> ?x < cmdid_counter q then ?x + 1 else ?x) < next_cmdid q"
      using s a assms(2) by (simp add: word_less_nat_alt)
  qed
qed

text \<open>
  The ids in use, relative to the last released id \<open>val\<close> and the last reserved id \<open>lim\<close>. Either all
  batches lie between them in increasing order, or the ids have wrapped around: older batches lie above \<open>val\<close>,
  newer ones start again from the bottom and end before \<open>val\<close>.
\<close>

definition ascending :: "batch_info list \<Rightarrow> bool" where
  "ascending qs \<longleftrightarrow> sorted_wrt (\<lambda>x y. end_cmdid x < start_cmdid y) qs"

definition ids_inv :: "u16 \<Rightarrow> u16 \<Rightarrow> batch_info list \<Rightarrow> bool" where
  "ids_inv val lim qs \<longleftrightarrow>
     (val \<le> lim \<and> ascending qs \<and> (\<forall>x \<in> set qs. val < start_cmdid x \<and> end_cmdid x \<le> lim)) \<or>
     (lim < val \<and> (\<exists>old new. qs = old @ new \<and> ascending old \<and> ascending new \<and>
       (\<forall>x \<in> set old. val < start_cmdid x) \<and> (\<forall>x \<in> set new. end_cmdid x \<le> lim)))"

lemma ids_inv_append:
  assumes "ids_inv val lim qs" "start_cmdid x \<le> end_cmdid x"
    and "lim < start_cmdid x \<and> (lim < val \<longrightarrow> end_cmdid x < val) \<or> val \<le> lim \<and> end_cmdid x < val"
  shows "ids_inv val (end_cmdid x) (qs @ [x]) \<and> ids x \<inter> live_ids qs = {}"
proof -
  consider (up) "val \<le> lim" "lim < start_cmdid x" "ascending qs" "\<forall>y \<in> set qs. val < start_cmdid y \<and> end_cmdid y \<le> lim"
    | (around) "val \<le> lim" "end_cmdid x < val" "ascending qs" "\<forall>y \<in> set qs. val < start_cmdid y \<and> end_cmdid y \<le> lim"
    | (low) old new where "lim < val" "lim < start_cmdid x" "end_cmdid x < val" "qs = old @ new" "ascending old"
        "ascending new" "\<forall>y \<in> set old. val < start_cmdid y" "\<forall>y \<in> set new. end_cmdid y \<le> lim"
    using assms unfolding ids_inv_def by (metis leD)
  then show ?thesis
  proof cases
    case up
    then have "\<forall>y \<in> set qs. end_cmdid y < start_cmdid x" by (meson le_less_trans)
    moreover have "\<forall>y \<in> set qs. end_cmdid y \<le> end_cmdid x"
      using calculation assms(2) by (meson less_imp_le order_trans)
    ultimately show ?thesis
      using up assms(2) by (auto simp: ids_inv_def ascending_def sorted_wrt_append ids_def live_ids_def in_batch_def)
  next
    case around
    have "ids x \<inter> ids y = {}" if "y \<in> set qs" for y
      using around that by (force simp: ids_def in_batch_def)
    moreover have "\<exists>old new. qs @ [x] = old @ new \<and> ascending old \<and> ascending new \<and>
       (\<forall>y \<in> set old. val < start_cmdid y) \<and> (\<forall>y \<in> set new. end_cmdid y \<le> end_cmdid x)"
      using around by (intro exI [of _ qs] exI [of _ "[x]"]) (simp add: ascending_def)
    ultimately show ?thesis using around(2) by (auto simp: ids_inv_def live_ids_def)
  next
    case (low old new)
    have new: "end_cmdid y < start_cmdid x" if "y \<in> set new" for y using low that by (meson le_less_trans)
    have "ids x \<inter> ids y = {}" if "y \<in> set old" for y
      using low that by (force simp: ids_def in_batch_def)
    moreover have "ids x \<inter> ids y = {}" if "y \<in> set new" for y
      using new [OF that] by (force simp: ids_def in_batch_def)
    moreover have "\<exists>old' new'. qs @ [x] = old' @ new' \<and> ascending old' \<and> ascending new' \<and>
       (\<forall>y \<in> set old'. val < start_cmdid y) \<and> (\<forall>y \<in> set new'. end_cmdid y \<le> end_cmdid x)"
      using low new assms(2)
      by (intro exI [of _ old] exI [of _ "new @ [x]"])
        (auto simp: ascending_def sorted_wrt_append dest!: less_imp_le intro: order_trans)
    ultimately show ?thesis using low(3,4) by (auto simp: ids_inv_def live_ids_def)
  qed
qed

lemma ids_inv_retire:
  assumes "ids_inv val lim (fin @ rest)" "fin \<noteq> []" "\<forall>x \<in> set (fin @ rest). start_cmdid x \<le> end_cmdid x"
  shows "ids_inv (end_cmdid (last fin)) lim rest"
    "if val \<le> lim then val < end_cmdid (last fin) \<and> end_cmdid (last fin) \<le> lim
     else val < end_cmdid (last fin) \<or> end_cmdid (last fin) \<le> lim"
proof -
  let ?l = "last fin"
  have l: "?l \<in> set fin" "fin = butlast fin @ [?l]" using assms(2) by simp_all
  have after: "end_cmdid ?l < start_cmdid y" if "ascending (fin @ zs)" "y \<in> set zs" for y zs
    using that l by (auto simp: ascending_def sorted_wrt_append)
  consider (up) "val \<le> lim" "ascending (fin @ rest)" "\<forall>x \<in> set (fin @ rest). val < start_cmdid x \<and> end_cmdid x \<le> lim"
    | (in_old) zs new where "lim < val" "rest = zs @ new" "ascending (fin @ zs)" "ascending new"
        "\<forall>x \<in> set (fin @ zs). val < start_cmdid x" "\<forall>x \<in> set new. end_cmdid x \<le> lim"
    | (in_new) old zs where "lim < val" "fin = old @ zs" "zs \<noteq> []" "ascending (zs @ rest)" "\<forall>x \<in> set (zs @ rest). end_cmdid x \<le> lim"
  proof -
    consider "val \<le> lim" "ascending (fin @ rest)" "\<forall>x \<in> set (fin @ rest). val < start_cmdid x \<and> end_cmdid x \<le> lim"
      | old new where "lim < val" "fin @ rest = old @ new" "ascending old" "ascending new"
        "\<forall>x \<in> set old. val < start_cmdid x" "\<forall>x \<in> set new. end_cmdid x \<le> lim"
      using assms(1) unfolding ids_inv_def by blast
    then show ?thesis
    proof cases
      case (2 old new)
      then obtain us where us: "fin = old @ us \<and> us @ rest = new \<or> fin @ us = old \<and> rest = us @ new"
        by (auto simp: append_eq_append_conv2)
      then show ?thesis
      proof (elim disjE conjE)
        assume "fin = old @ us" "us @ rest = new"
        then show ?thesis using 2 in_old [of "[]" new] in_new [of old us] by (cases "us = []") auto
      qed (use 2 in_old [of us new] in auto)
    qed (rule up)
  qed
  then have "ids_inv (end_cmdid ?l) lim rest \<and> (if val \<le> lim then val < end_cmdid ?l \<and> end_cmdid ?l \<le> lim
     else val < end_cmdid ?l \<or> end_cmdid ?l \<le> lim)"
  proof cases
    case up
    then have "val < end_cmdid ?l" using l(1) assms(3) by (auto intro: less_le_trans)
    then show ?thesis using up after l(1) by (auto simp: ids_inv_def ascending_def sorted_wrt_append)
  next
    case (in_old zs new)
    then have "val < end_cmdid ?l" using l(1) assms(3) by (auto intro: less_le_trans)
    moreover have "ascending zs" using in_old(3) by (simp add: ascending_def sorted_wrt_append)
    moreover have "lim < end_cmdid ?l" using in_old(1) calculation(1) by simp
    moreover have "\<not> val \<le> lim" using in_old(1) by simp
    ultimately show ?thesis using in_old after unfolding ids_inv_def if_not_P [OF \<open>\<not> val \<le> lim\<close>] by blast
  next
    case (in_new old zs)
    then have z: "last zs = ?l" "last zs \<in> set zs" "zs = butlast zs @ [last zs]" by simp_all
    then have "\<forall>y \<in> set rest. end_cmdid ?l < start_cmdid y"
      using in_new(4) by (metis (no_types, lifting) Un_iff ascending_def sorted_wrt_append)
    then show ?thesis
      using in_new(1,4,5) z by (auto simp: ids_inv_def ascending_def sorted_wrt_append)
  qed
  then show "ids_inv (end_cmdid ?l) lim rest" "if val \<le> lim then val < end_cmdid ?l \<and> end_cmdid ?l \<le> lim
     else val < end_cmdid ?l \<or> end_cmdid ?l \<le> lim" by simp_all
qed

lemma ids_inv_reset: "ids_inv val lim qs \<Longrightarrow> val \<le> lim \<Longrightarrow> val \<noteq> 0 \<Longrightarrow> ids_inv val 0 qs"
proof -
  assume "ids_inv val lim qs" "val \<le> lim" "val \<noteq> 0"
  then have "0 < val" "ascending qs \<and> (\<forall>x \<in> set qs. val < start_cmdid x)"
    by (auto simp: ids_inv_def word_neq_0_conv)
  moreover from this have "\<exists>old new. qs = old @ new \<and> ascending old \<and> ascending new \<and>
       (\<forall>x \<in> set old. val < start_cmdid x) \<and> (\<forall>x \<in> set new. end_cmdid x \<le> 0)"
    by (intro exI [of _ qs] exI [of _ "[]"]) (simp add: ascending_def)
  ultimately show ?thesis by (simp add: ids_inv_def)
qed

section \<open>Batches and completions interleaved\<close>

text \<open>
  The issuing thread and the completion thread on one queue. \<open>D\<close> is the set of completed ids of the batches
  in progress. A completion is that of a command of a batch in progress, once per command, and moves the
  submission head to some slot. A new batch is started only if no id wrap-around can happen before the first
  batch has been released (\<open>Start\<close>).
\<close>

inductive io_reach ::
  "(nat \<Rightarrow> bool) \<Rightarrow> nvme_queue \<Rightarrow> nvme_queue \<Rightarrow> io_pc \<Rightarrow> io_request list \<Rightarrow> u16 set \<Rightarrow> bool" for frees q0 where
  Init: "io_reach frees q0 q0 (Io_done 0) [] {}"
| Start: "io_reach frees q0 q (Io_done c) rs D \<Longrightarrow> 0 < length rs' \<Longrightarrow> length rs' < 0xffff \<Longrightarrow>
    \<forall>r \<in> set rs'. action r \<noteq> OTHER_ACTION \<Longrightarrow>
    last_available_cmdid (batch_mgr q) \<noteq> 0 \<or> unat (cmdid_counter q) + length rs' < 2 ^ 16 \<Longrightarrow>
    io_reach frees q0 q Io_start rs' D"
| Issue: "io_reach frees q0 q pc rs D \<Longrightarrow> io_step rs (q, pc) = Inr (q', pc') \<Longrightarrow> io_reach frees q0 q' pc' rs D"
| Complete: "io_reach frees q0 q pc rs D \<Longrightarrow> cid \<in> live_ids (entries (buffer (batch_mgr q))) \<Longrightarrow> cid \<notin> D \<Longrightarrow>
    unat hp < cq_size q \<Longrightarrow> update_batch_manager frees cid (q\<lparr>sq_head := hp\<rparr>) = Inr (st, q') \<Longrightarrow>
    io_reach frees q0 q' pc rs (insert cid D \<inter> live_ids (entries (buffer (batch_mgr q'))))"

text \<open>What holds at each point of the issuing thread.\<close>

definition limit :: "nvme_queue \<Rightarrow> io_pc \<Rightarrow> u16" where
  "limit q pc = (case pc of Io_issue s e i c \<Rightarrow> e | _ \<Rightarrow> cmdid_counter q)"

definition range_ok :: "nvme_queue \<Rightarrow> u16 \<Rightarrow> u16 \<Rightarrow> nat \<Rightarrow> bool" where
  "range_ok q s e n \<longleftrightarrow> 0 < n \<and> n < 0xffff \<and> unat e + 1 = unat s + n \<and>
     (unat s = unat (cmdid_counter q) + 1 \<or> cmdid_counter q = 0xffff \<and> s = 1)"

definition pc_inv :: "io_request list \<Rightarrow> nvme_queue \<Rightarrow> io_pc \<Rightarrow> bool" where
  "pc_inv rs q pc \<longleftrightarrow> (case pc of
     Io_start \<Rightarrow> 0 < length rs \<and> length rs < 0xffff \<and>
       (last_available_cmdid (batch_mgr q) \<noteq> 0 \<or> unat (cmdid_counter q) + length rs < 2 ^ 16)
   | Io_reset \<Rightarrow> 0 < length rs \<and> length rs < 0xffff \<and> last_available_cmdid (batch_mgr q) \<noteq> 0
   | Io_check s e \<Rightarrow> range_ok q s e (length rs) \<and>
       (cmdid_counter q = 0xffff \<longrightarrow> last_available_cmdid (batch_mgr q) \<noteq> 0)
   | Io_push s e \<Rightarrow> range_ok q s e (length rs) \<and>
       (cmdid_counter q < s \<and> (cmdid_counter q < last_available_cmdid (batch_mgr q) \<longrightarrow>
          e < last_available_cmdid (batch_mgr q)) \<or>
        last_available_cmdid (batch_mgr q) \<le> cmdid_counter q \<and> e < last_available_cmdid (batch_mgr q))
   | Io_issue s e i c \<Rightarrow> unat e + 1 = unat s + length rs \<and> 0 < length rs \<and> i \<le> length rs \<and>
       (if i = 0 then unat s = unat (cmdid_counter q) + 1 \<or> cmdid_counter q = 0xffff \<and> s = 1
        else unat (cmdid_counter q) + 1 = unat s + i \<and> c = cmdid_counter q)
   | Io_done c \<Rightarrow> True)"

definition io_inv :: "io_request list \<Rightarrow> nvme_queue \<Rightarrow> io_pc \<Rightarrow> batch_info list \<Rightarrow> u16 set \<Rightarrow> bool" where
  "io_inv rs q pc qs D \<longleftrightarrow> holds (batch_mgr q) qs D \<and> sq_ok q \<and> (\<forall>r \<in> set rs. action r \<noteq> OTHER_ACTION) \<and>
     ids_inv (last_available_cmdid (batch_mgr q)) (limit q pc) qs \<and> (\<forall>x \<in> set qs. start_cmdid x \<noteq> 0) \<and> pc_inv rs q pc"

lemma issue_request_spec:
  assumes "sq_ok q" "action r \<noteq> OTHER_ACTION"
  shows "issue_request r q = Inr None \<or>
    (\<exists>q1. issue_request r q = Inr (Some (next_cmdid q, q1)) \<and> sq_ok q1 \<and> batch_mgr q1 = batch_mgr q \<and>
      cmdid_counter q1 = next_cmdid q)"
proof -
  note spec = next_sub_slot_spec [OF assms(1)]
  show ?thesis
  proof (cases "sq_used q = cq_size q - 1")
    case True
    then show ?thesis
      using spec assms(2) by (cases "action r") (simp_all add: issue_request_def issue_async_read_def issue_async_write_def)
  next
    case False
    then obtain i q' t where n: "next_sub_slot q = Inr (Some (next_cmdid q, i, q'))" "next_cmdid q \<noteq> 0" "sq_ok q'"
        "q' = q\<lparr>cmdid_counter := next_cmdid q, sq_tail := t, sub_cmd := (sub_cmd q)[i := replicate 64 0]\<rparr>"
      using spec unfolding if_not_P [OF False] by blast
    have keep: "sq_ok (ring_submission_doorbell (q'\<lparr>sub_cmd := (sub_cmd q')[i := x]\<rparr>))"
      "batch_mgr (ring_submission_doorbell (q'\<lparr>sub_cmd := (sub_cmd q')[i := x]\<rparr>)) = batch_mgr q"
      "cmdid_counter (ring_submission_doorbell (q'\<lparr>sub_cmd := (sub_cmd q')[i := x]\<rparr>)) = next_cmdid q" for x
      using n(3) by (simp_all add: ring_submission_doorbell_def sq_ok_def n(4) cq_size_def)
    show ?thesis
      using assms(2) n(1,2) keep
      by (cases "action r")
        (simp_all add: issue_request_def issue_async_read_def issue_async_write_def Command_io_rw_def word_neq_0_conv)
  qed
qed

lemma push_full:
  assumes "holds m qs D" "\<not> length qs < BATCH_INFO_BUFFER_SIZE - 1"
  shows "manager_push x m = Inr (False, m)"
proof -
  have ok: "ring_ok (buffer m)" "length (array (buffer m)) = BATCH_INFO_BUFFER_SIZE" "pending (buffer m) = length qs"
    using assms(1) by (auto simp: holds_def manager_ok_def log_of_def simp flip: length_entries)
  then show ?thesis
    using push_spec [OF ok(1), of x] assms(2) by (cases m) (auto simp: manager_push_def)
qed

lemma push_room:
  assumes "holds m qs D" "length qs < BATCH_INFO_BUFFER_SIZE - 1"
  shows "\<exists>m'. manager_push x m = Inr (True, m')"
proof -
  have ok: "ring_ok (buffer m)" "length (array (buffer m)) = BATCH_INFO_BUFFER_SIZE" "pending (buffer m) = length qs"
    using assms(1) by (auto simp: holds_def manager_ok_def log_of_def simp flip: length_entries)
  then show ?thesis
    using push_spec [OF ok(1), of x] assms(2) by (cases m) (auto simp: manager_push_def)
qed

lemma fresh_batch_of:
  assumes "unat e + 1 = unat s + n" "0 < n" "n < 0xffff"
  shows "fresh_batch (batch_of s e n)"
  using assms by (auto simp: fresh_batch_def batch_of_def word_le_nat_alt unat_of_nat)

lemma io_start_inv:
  assumes "io_inv rs q Io_start qs D"
  shows "\<exists>pc'. io_step rs (q, Io_start) = Inr (q, pc') \<and> io_inv rs q pc' qs D"
proof -
  let ?n = "length rs" and ?c = "unat (cmdid_counter q)" and ?val = "last_available_cmdid (batch_mgr q)"
  have p: "0 < ?n" "?n < 0xffff" "?val \<noteq> 0 \<or> ?c + ?n < 2 ^ 16" using assms by (simp_all add: io_inv_def pc_inv_def)
  obtain e where e: "next_cmdid_len (of_nat ?n) q = Inr e"
      "?c + ?n < 2 ^ 16 \<Longrightarrow> unat (next_cmdid q) = ?c + 1 \<and> unat e = ?c + ?n"
      "?c = 0xffff \<Longrightarrow> next_cmdid q = 1 \<and> unat e = ?n"
      "2 ^ 16 \<le> ?c + ?n \<Longrightarrow> ?c \<noteq> 0xffff \<Longrightarrow> e < next_cmdid q"
    using batch_ids [OF p(1,2) refl] by metis
  let ?pc = "if e < next_cmdid q then Io_reset else Io_check (next_cmdid q) e"
  have step: "io_step rs (q, Io_start) = Inr (q, ?pc)" using p e(1) by simp
  have top: "cmdid_counter q = 0xffff \<longleftrightarrow> ?c = 0xffff" by (simp add: word_unat_eq_iff)
  have "pc_inv rs q ?pc"
  proof (cases "e < next_cmdid q")
    case True
    then have "\<not> ?c + ?n < 2 ^ 16" using e(2) p(1) by (auto simp: word_less_nat_alt)
    then show ?thesis using True p by (simp add: pc_inv_def)
  next
    case False
    then consider "?c + ?n < 2 ^ 16" | "?c = 0xffff" "2 ^ 16 \<le> ?c + ?n" using e(4) by linarith
    then have "range_ok q (next_cmdid q) e ?n \<and> (cmdid_counter q = 0xffff \<longrightarrow> ?val \<noteq> 0)"
      by cases (use e(2,3) p top in \<open>auto simp: range_ok_def\<close>)
    then show ?thesis using False by (simp add: pc_inv_def)
  qed
  then show ?thesis using step assms by (auto simp: io_inv_def limit_def)
qed

lemma io_reset_inv:
  assumes "io_inv rs q Io_reset qs D"
  shows "\<exists>q' pc'. io_step rs (q, Io_reset) = Inr (q', pc') \<and> io_inv rs q' pc' qs D"
proof (cases "can_reset_cmdid (cmdid_counter q) (batch_mgr q)")
  case False
  then show ?thesis using assms by (simp add: reset_cmdid_def)
next
  case True
  let ?n = "length rs" and ?q = "q\<lparr>cmdid_counter := 0\<rparr>" and ?val = "last_available_cmdid (batch_mgr q)"
  have p: "0 < ?n" "?n < 0xffff" "?val \<noteq> 0" using assms by (simp_all add: io_inv_def pc_inv_def)
  obtain e where e: "next_cmdid_len (of_nat ?n) ?q = Inr e" "unat (next_cmdid ?q) = 1 \<and> unat e = ?n"
  proof (rule batch_ids [OF p(1,2), of 0 ?q])
    fix e
    assume "next_cmdid_len (of_nat ?n) ?q = Inr e"
      "0 + ?n < 2 ^ 16 \<Longrightarrow> unat (next_cmdid ?q) = 0 + 1 \<and> unat e = 0 + ?n"
    then show thesis using that p(2) by simp
  qed simp
  have n1: "Suc 0 \<le> ?n" using p(1) by linarith
  have "io_step rs (q, Io_reset) = Inr (?q, Io_check (next_cmdid ?q) e)"
    using True e n1 by (simp add: reset_cmdid_def word_le_nat_alt)
  moreover have "pc_inv rs ?q (Io_check (next_cmdid ?q) e)"
    using e(2) p by (simp add: pc_inv_def range_ok_def)
  moreover have "ids_inv ?val 0 qs"
    using ids_inv_reset [of ?val "cmdid_counter q" qs] assms True p(3)
    by (simp add: io_inv_def limit_def can_reset_cmdid_def)
  ultimately show ?thesis
    using assms by (auto simp: io_inv_def limit_def sq_ok_def)
qed

lemma io_check_inv:
  assumes "io_inv rs q (Io_check s e) qs D"
  shows "\<exists>pc'. io_step rs (q, Io_check s e) = Inr (q, pc') \<and> io_inv rs q pc' qs D"
proof -
  let ?val = "last_available_cmdid (batch_mgr q)"
  have r: "range_ok q s e (length rs)" "cmdid_counter q = 0xffff \<longrightarrow> ?val \<noteq> 0"
    using assms by (simp_all add: io_inv_def pc_inv_def)
  then have "unat s \<le> unat e" unfolding range_ok_def by linarith
  then have "s \<le> e" by (simp add: word_le_nat_alt)
  then have step: "io_step rs (q, Io_check s e) =
      Inr (q, if s < ?val \<and> e < ?val \<or> ?val < s \<and> ?val < e then Io_push s e else Io_check s e)"
    by (simp add: is_available_range_def Let_def)
  have "pc_inv rs q (Io_push s e)" if "s < ?val \<and> e < ?val \<or> ?val < s \<and> ?val < e"
  proof (cases "unat s = unat (cmdid_counter q) + 1")
    case True
    then show ?thesis using r(1) that by (auto simp: pc_inv_def word_less_nat_alt)
  next
    case False
    then have "cmdid_counter q = 0xffff" "s = 1" using r(1) by (simp_all add: range_ok_def)
    moreover have "?val \<le> 0xffff" using unat_bound [of ?val] by (simp add: word_le_nat_alt)
    moreover have "\<not> ?val < 1" using r(2) calculation(1) by (simp add: word_less_nat_alt word_unat_eq_iff)
    ultimately show ?thesis using r(1) that by (auto simp: pc_inv_def)
  qed
  then show ?thesis using step assms by (auto simp: io_inv_def limit_def)
qed

lemma io_push_inv:
  assumes "io_inv rs q (Io_push s e) qs D"
  shows "\<exists>q' pc' qs'. io_step rs (q, Io_push s e) = Inr (q', pc') \<and> io_inv rs q' pc' qs' D"
    "ids (batch_of s e (length rs)) \<inter> live_ids qs = {}"
proof -
  let ?val = "last_available_cmdid (batch_mgr q)" and ?x = "batch_of s e (length rs)" and ?c = "cmdid_counter q"
  have p: "range_ok q s e (length rs)" "?c < s \<and> (?c < ?val \<longrightarrow> e < ?val) \<or> ?val \<le> ?c \<and> e < ?val"
    and h: "holds (batch_mgr q) qs D" "ids_inv ?val ?c qs"
    using assms by (simp_all add: io_inv_def pc_inv_def limit_def)
  have f: "fresh_batch ?x" "start_cmdid ?x = s" "end_cmdid ?x = e" "s \<noteq> 0"
    using p(1) fresh_batch_of [of e s "length rs"] by (auto simp: range_ok_def batch_of_def)
  then have a: "ids_inv ?val e (qs @ [?x])" "ids ?x \<inter> live_ids qs = {}"
    using ids_inv_append [OF h(2), of ?x] p(2) by (simp_all add: fresh_batch_def)
  show "ids ?x \<inter> live_ids qs = {}" by (rule a(2))
  show "\<exists>q' pc' qs'. io_step rs (q, Io_push s e) = Inr (q', pc') \<and> io_inv rs q' pc' qs' D"
  proof (cases "length qs < BATCH_INFO_BUFFER_SIZE - 1")
    case False
    then show ?thesis using push_full [OF h(1) False] assms by auto
  next
    case True
    then obtain m where m: "manager_push ?x (batch_mgr q) = Inr (True, m)" "holds m (qs @ [?x]) D"
        "last_available_cmdid m = ?val"
      using push_holds [OF h(1) f(1) a(2)] by blast
    let ?q = "q\<lparr>batch_mgr := m\<rparr>"
    have "io_step rs (q, Io_push s e) = Inr (?q, Io_issue s e 0 0)" using m(1) by simp
    moreover have "pc_inv rs ?q (Io_issue s e 0 0)" using p(1) by (simp add: pc_inv_def range_ok_def)
    moreover have "sq_ok ?q" using assms by (simp add: io_inv_def sq_ok_def cq_size_def)
    ultimately have "io_inv rs ?q (Io_issue s e 0 0) (qs @ [?x]) D"
      using assms m a(1) f by (simp add: io_inv_def limit_def)
    then show ?thesis using \<open>io_step rs (q, Io_push s e) = Inr (?q, Io_issue s e 0 0)\<close> by blast
  qed
qed

lemma io_issue_inv:
  assumes "io_inv rs q (Io_issue s e i c) qs D"
  shows "\<exists>q' pc'. io_step rs (q, Io_issue s e i c) = Inr (q', pc') \<and> io_inv rs q' pc' qs D"
proof (cases "i < length rs")
  case False
  have p: "unat e + 1 = unat s + length rs" "0 < length rs" "i \<le> length rs"
    "i \<noteq> 0 \<Longrightarrow> unat (cmdid_counter q) + 1 = unat s + i \<and> c = cmdid_counter q"
    using assms by (auto simp: io_inv_def pc_inv_def)
  then have "i = length rs" "i \<noteq> 0" using False by simp_all
  then have "unat (cmdid_counter q) = unat e" "c = cmdid_counter q" using p(1,4) by simp_all
  then have c: "c = e" "cmdid_counter q = e" by (simp_all add: word_unat_eq_iff)
  have "limit q (Io_done e) = limit q (Io_issue s e i c)" "pc_inv rs q (Io_done e)"
    using c(2) by (simp_all add: limit_def pc_inv_def)
  then have "io_inv rs q (Io_done e) qs D" using assms unfolding io_inv_def by metis
  moreover have "io_step rs (q, Io_issue s e i c) = Inr (q, Io_done e)" using False c(1) by simp
  ultimately show ?thesis by blast
next
  case True
  then have "action (rs ! i) \<noteq> OTHER_ACTION" "sq_ok q" using assms by (simp_all add: io_inv_def)
  then consider "issue_request (rs ! i) q = Inr None" | q1 where "issue_request (rs ! i) q = Inr (Some (next_cmdid q, q1))"
      "sq_ok q1" "batch_mgr q1 = batch_mgr q" "cmdid_counter q1 = next_cmdid q"
    using issue_request_spec [of q "rs ! i"] by blast
  then show ?thesis
  proof cases
    case 1
    then show ?thesis using True assms by simp
  next
    case (2 q1)
    let ?c = "unat (cmdid_counter q)"
    have p: "unat e + 1 = unat s + length rs"
      "cmdid_counter q = 0xffff \<and> s = 1 \<and> i = 0 \<or> ?c + 1 = unat s + i"
      using assms by (auto simp: io_inv_def pc_inv_def split: if_splits)
    have "unat e < 2 ^ 16" using unat_bound [of e] by simp
    then have "?c + 1 = unat s + i \<longrightarrow> ?c + 1 < 2 ^ 16" using p(1) True by linarith
    then have "cmdid_counter q = 0xffff \<and> s = 1 \<and> i = 0 \<or> ?c + 1 = unat s + i \<and> ?c + 1 < 2 ^ 16"
      using p(2) by blast
    then have "unat (next_cmdid q) + 1 = unat s + Suc i"
    proof (elim disjE conjE)
      assume "?c + 1 = unat s + i" "?c + 1 < 2 ^ 16"
      moreover from this have "unat (cmdid_counter q + 1) = ?c + 1" by (simp add: unat_word_ariths(1))
      ultimately show ?thesis by (auto simp: next_cmdid_def Let_def)
    qed (simp add: next_cmdid_def)
    then have "pc_inv rs q1 (Io_issue s e (Suc i) (next_cmdid q))"
      using p(1) True 2(4) by (auto simp: pc_inv_def)
    moreover have "io_step rs (q, Io_issue s e i c) = Inr (q1, Io_issue s e (Suc i) (next_cmdid q))"
      using True 2(1) by simp
    ultimately show ?thesis using assms 2 by (auto simp: io_inv_def limit_def)
  qed
qed

lemma io_step_inv:
  assumes "io_inv rs q pc qs D"
  shows "\<exists>q' pc' qs'. io_step rs (q, pc) = Inr (q', pc') \<and> io_inv rs q' pc' qs' D"
proof (cases pc)
  case Io_start
  then show ?thesis using io_start_inv assms by blast
next
  case Io_reset
  then show ?thesis using io_reset_inv assms by blast
next
  case (Io_check s e)
  then show ?thesis using io_check_inv assms by blast
next
  case (Io_push s e)
  then show ?thesis using io_push_inv(1) assms by blast
next
  case (Io_issue s e i c)
  then show ?thesis using io_issue_inv assms by blast
next
  case (Io_done c)
  then show ?thesis using assms by auto
qed

text \<open>A completion moves the last released id forward, or past the wrap-around, and never back to 0.\<close>

lemma pc_inv_release:
  assumes "pc_inv rs q pc" "val = last_available_cmdid (batch_mgr q)" "val' \<noteq> 0"
    and "if val \<le> limit q pc then val < val' \<and> val' \<le> limit q pc else val < val' \<or> val' \<le> limit q pc"
    and "last_available_cmdid m = val'"
  shows "pc_inv rs (q\<lparr>sq_head := h, batch_mgr := m\<rparr>) pc"
proof (cases pc)
  case (Io_push s e)
  then have "limit q pc = cmdid_counter q" by (simp add: limit_def)
  then show ?thesis
    using assms Io_push
    by (auto simp: pc_inv_def range_ok_def split: if_splits)
qed (use assms in \<open>auto simp: pc_inv_def range_ok_def\<close>)

lemma live_ids_progress [simp]: "live_ids (map (progress D) qs) = live_ids qs"
  by (simp add: live_ids_def ids_def)

lemma io_complete_inv:
  assumes inv: "io_inv rs q pc qs D" and c: "cid \<in> live_ids (entries (buffer (batch_mgr q)))" "cid \<notin> D"
    and h: "unat hp < cq_size q"
  shows "\<exists>q' qs'. update_batch_manager frees cid (q\<lparr>sq_head := hp\<rparr>) = Inr (S_OK, q') \<and>
    io_inv rs q' pc qs' (insert cid D \<inter> live_ids (entries (buffer (batch_mgr q'))))"
proof -
  let ?D = "insert cid D" and ?val = "last_available_cmdid (batch_mgr q)"
  let ?fin = "finished ?D qs" and ?rest = "unfinished ?D qs"
  have i: "holds (batch_mgr q) qs D" "ids_inv ?val (limit q pc) qs" "pc_inv rs q pc" "\<forall>x \<in> set qs. start_cmdid x \<noteq> 0"
    using inv by (simp_all add: io_inv_def)
  then have live: "entries (buffer (batch_mgr q)) = map (progress D) qs" "batches_ok qs D"
    by (simp_all add: holds_def log_of_def)
  then obtain x where x: "x \<in> set qs" "cid \<in> ids x" using c(1) by (auto simp: live_ids_def ids_def)
  obtain m where m: "update frees cid (batch_mgr q) = Inr (S_OK, m)" "holds m ?rest (?D - live_ids ?fin)"
      "last_available_cmdid m = (if ?fin = [] then ?val else end_cmdid (last ?fin))"
    using update_completion [OF i(1) x c(2), of frees] by blast
  let ?q = "q\<lparr>sq_head := hp, batch_mgr := m\<rparr>"
  have split: "qs = ?fin @ ?rest" by (simp add: finished_def unfinished_def)
  have fresh: "\<forall>x \<in> set qs. start_cmdid x \<le> end_cmdid x" using live(2) by (simp add: batches_ok_def fresh_batch_def)
  have lim: "limit ?q pc = limit q pc" by (simp add: limit_def split: io_pc.split)
  have "ids_inv (last_available_cmdid m) (limit q pc) ?rest \<and> pc_inv rs ?q pc"
  proof (cases "?fin = []")
    case True
    then have "?rest = qs" "last_available_cmdid m = ?val" using split m(3) by simp_all
    then show ?thesis using i(2,3) by (auto simp: pc_inv_def range_ok_def split: io_pc.split)
  next
    case False
    note r = ids_inv_retire [of ?val "limit q pc" ?fin ?rest, folded split, OF i(2) False fresh]
    have "last ?fin \<in> set qs" using False split by (metis Un_iff last_in_set set_append)
    then have "end_cmdid (last ?fin) \<noteq> 0" using fresh i(4) by (metis word_le_0_iff)
    then show ?thesis using r pc_inv_release [OF i(3) refl _ r(2)] m(3) False by simp
  qed
  moreover have "?D - live_ids ?fin = ?D \<inter> live_ids ?rest"
  proof -
    have "?D \<subseteq> live_ids qs" using live(2) x by (auto simp: batches_ok_def live_ids_def)
    moreover have "live_ids qs = live_ids ?fin \<union> live_ids ?rest" by (subst split) (simp add: live_ids_def)
    moreover have "live_ids ?fin \<inter> live_ids ?rest = {}"
      using live(2) unfolding batches_ok_def by (subst (asm) (2) split) (auto simp: sorted_wrt_append live_ids_def)
    ultimately show ?thesis by blast
  qed
  moreover have "live_ids (entries (buffer m)) = live_ids ?rest" using m(2) by (simp add: holds_def log_of_def)
  moreover have "\<forall>x \<in> set ?rest. start_cmdid x \<noteq> 0" using i(4) by (auto simp: unfinished_def dest: set_dropWhileD)
  moreover have "sq_ok ?q" using inv h by (simp add: io_inv_def sq_ok_def cq_size_def)
  ultimately have "io_inv rs ?q pc ?rest (?D \<inter> live_ids (entries (buffer (batch_mgr ?q))))"
    using inv m(2) lim by (simp add: io_inv_def)
  moreover have "update_batch_manager frees cid (q\<lparr>sq_head := hp\<rparr>) = Inr (S_OK, ?q)"
    using m(1) by (simp add: update_batch_manager_def)
  ultimately show ?thesis by blast
qed

lemma io_reach_inv:
  assumes "io_reach frees q0 q pc rs D" "holds (batch_mgr q0) [] {}" "last_available_cmdid (batch_mgr q0) = 0"
    "cmdid_counter q0 = 0" "sq_ok q0"
  shows "\<exists>qs. io_inv rs q pc qs D"
  using assms
proof (induction rule: io_reach.induct)
  case Init
  have "io_inv [] q0 (Io_done 0) [] {}"
    using Init by (simp add: io_inv_def ids_inv_def ascending_def limit_def pc_inv_def)
  then show ?case by blast
next
  case (Start q c rs D rs')
  then obtain qs where "io_inv rs q (Io_done c) qs D" by auto
  then have "io_inv rs' q Io_start qs D" using Start by (simp add: io_inv_def limit_def pc_inv_def)
  then show ?case by blast
next
  case (Issue q pc rs D q' pc')
  then obtain qs where "io_inv rs q pc qs D" by auto
  then show ?case using io_step_inv [of rs q pc qs D] Issue(2) by auto
next
  case (Complete q pc rs D cid hp st q')
  then obtain qs where "io_inv rs q pc qs D" by auto
  then show ?case using io_complete_inv [of rs q pc qs D cid hp frees] Complete by auto
qed

section \<open>Properties\<close>

text \<open>
  C27. Encoding of reads and writes. The slot of a read or write has the opcode, namespace, command id and
  buffer address, the 64-bit start block in dwords 10 and 11, the 0's based block count in dword 12 and the
  hints in dword 13. The count is right exactly for 1 to 65536 blocks: 0 blocks are sent as 65536.
\<close>

theorem rw_command_encoding:
  "\<exists>slot. slot = fill_rw cid nsid prp1 off nb sequential freq lat iswrite (clear sc) \<and>
     sc_get ''opcode'' slot = (if iswrite then 1 else 2) \<and> sc_get ''command_id'' slot = unat cid mod 65536 \<and>
     sc_get ''nsid'' slot = unat nsid \<and> sc_get ''prp1'' slot = unat prp1 \<and>
     sc_get ''cdw10'' slot + 2 ^ 32 * sc_get ''cdw11'' slot = unat off \<and>
     sc_get ''cdw13'' slot = unat freq mod 16 + 16 * (unat lat mod 4) + (if sequential then 64 else 0) \<and>
     (sc_get ''cdw12'' slot + 1 = unat nb \<longleftrightarrow> 1 \<le> unat nb \<and> unat nb \<le> 65536) \<and>
     (nb = 0 \<longleftrightarrow> unat (nb - 1) = 2 ^ 64 - 1) \<and> sc_get ''cdw12'' slot = unat (nb - 1) mod 65536"
proof -
  let ?slot = "fill_rw cid nsid prp1 off nb sequential freq lat iswrite (clear sc)"
  note d = rw_dwords [OF refl, of cid nsid prp1 off nb sequential freq lat iswrite sc]
  have z: "unat (nb - 1) = (if nb = 0 then 2 ^ 64 - 1 else unat nb - 1)"
    using unat_minus_one [of nb] by (simp add: unsigned_minus_1_eq_mask mask_eq_exp_minus_1)
  have "unat (nb - 1) mod 65536 + 1 = unat nb \<longleftrightarrow> 1 \<le> unat nb \<and> unat nb \<le> 65536"
    using mod_less_divisor [of 65536 "unat (nb - 1)"] unat_minus_one [of nb] by (cases "nb = 0") (auto simp: word_unat_eq_iff)
  moreover have "nb = 0 \<longleftrightarrow> unat (nb - 1) = 2 ^ 64 - 1"
    using z unat_bound [of nb] by (cases "nb = 0") auto
  ultimately show ?thesis using d by auto
qed

text \<open>
  C25. Issuing batches while completions arrive. From a fresh queue, under every interleaving of the issuing
  thread, which starts any number of batches, with completions of commands of batches in progress in any
  order, provided that ids do not wrap around before the first batch is released: no assertion of
  \<^verbatim>\<open>issue_async_io_batch\<close> fails and no access is out of range; the ids a batch takes are not in use by any
  batch in progress; and every completion finds its batch.
\<close>

theorem io_batches_safe:
  assumes "io_reach frees q0 q pc rs D" "holds (batch_mgr q0) [] {}" "last_available_cmdid (batch_mgr q0) = 0"
    "cmdid_counter q0 = 0" "sq_ok q0"
  shows "(\<exists>r. io_step rs (q, pc) = Inr r) \<and>
    (\<forall>s e. pc = Io_push s e \<longrightarrow>
      ids (batch_of s e (length rs)) \<inter> live_ids (entries (buffer (batch_mgr q))) = {}) \<and>
    (\<forall>cid \<in> live_ids (entries (buffer (batch_mgr q))) - D. \<exists>q'. update_batch_manager frees cid q = Inr (S_OK, q'))"
proof -
  obtain qs where inv: "io_inv rs q pc qs D" using io_reach_inv [OF assms] by blast
  then have e: "entries (buffer (batch_mgr q)) = map (progress D) qs" "sq_ok q"
    by (simp_all add: io_inv_def holds_def log_of_def)
  have "\<exists>q'. update_batch_manager frees cid q = Inr (S_OK, q')"
    if "cid \<in> live_ids (entries (buffer (batch_mgr q))) - D" for cid
    using io_complete_inv [OF inv, of cid "sq_head q" frees] that e(2) by (auto simp: sq_ok_def)
  moreover have "ids (batch_of s e (length rs)) \<inter> live_ids (entries (buffer (batch_mgr q))) = {}"
    if "pc = Io_push s e" for s e
    using io_push_inv(2) inv that e by auto
  ultimately show ?thesis using io_step_inv [OF inv] by auto
qed

definition small_queue :: nvme_queue where
  "small_queue = (NVME_queues_base (replicate 256 (one_batch 0 0)) 1 3 4)\<lparr>sub_cmd := replicate 4 (replicate 64 0),
     comp_cmd := replicate 4 zero_completion\<rparr>"

definition small_request :: io_request where
  "small_request = \<lparr>action = BLOCK_READ, buffer_phys = 0x1000, io_offset = 7, io_num_blocks = 8\<rparr>"

lemma small_queue_ok: "holds (batch_mgr small_queue) [] {}" "last_available_cmdid (batch_mgr small_queue) = 0"
  "cmdid_counter small_queue = 0" "sq_ok small_queue"
  using new_manager_holds [of "replicate 256 (one_batch 0 0)"]
  by (simp_all add: small_queue_def NVME_queues_base_def sq_ok_def cq_size_def BATCH_INFO_BUFFER_SIZE_def
      NVME_batch_manager_def)

theorem io_batches_safe_witness:
  "\<exists>q. io_reach (\<lambda>_. False) small_queue q (Io_push 1 2) [small_request, small_request] {} \<and>
     (\<exists>r. io_step [small_request, small_request] (q, Io_push 1 2) = Inr r)"
proof -
  let ?rs = "[small_request, small_request]"
  have "io_reach (\<lambda>_. False) small_queue small_queue Io_start ?rs {}"
    using Start [OF Init [of "\<lambda>_. False" small_queue], of ?rs] small_queue_ok(3) by (simp add: small_request_def)
  then have "io_reach (\<lambda>_. False) small_queue small_queue (Io_check 1 2) ?rs {}"
    by (rule Issue) (simp add: small_queue_ok(3) next_cmdid_len_def next_cmdid_def Let_def)
  then have r: "io_reach (\<lambda>_. False) small_queue small_queue (Io_push 1 2) ?rs {}"
    by (rule Issue) (simp add: small_queue_ok(2) is_available_range_def Let_def)
  then show ?thesis using io_batches_safe [OF r small_queue_ok] by blast
qed

text \<open>
  C26. Command ids after a wrap-around. While the first batch of a queue is in progress nothing has been
  released, and \<^verbatim>\<open>_last_available_cmdid\<close> still has its initial value 0. A batch that then reaches the end of
  the id range is not held back: \<^verbatim>\<open>can_reset_cmdid\<close> and \<^verbatim>\<open>is_available\<close> both succeed, and the new batch
  is registered with ids from 1, which a command in progress still has.
\<close>

theorem cmdid_reuse_before_release:
  assumes "holds (batch_mgr q) qs D" "length qs < 255" "last_available_cmdid (batch_mgr q) = 0"
    "1 \<in> live_ids (entries (buffer (batch_mgr q)))" "1 \<notin> D"
    "0 < length rs" "length rs < 0xffff" "cmdid_counter q < 0xffff" "2 ^ 16 \<le> unat (cmdid_counter q) + length rs"
  shows "\<exists>e q1 q2. io_step rs (q, Io_start) = Inr (q, Io_reset) \<and>
    io_step rs (q, Io_reset) = Inr (q1, Io_check 1 e) \<and> io_step rs (q1, Io_check 1 e) = Inr (q1, Io_push 1 e) \<and>
    batch_mgr q1 = batch_mgr q \<and>
    io_step rs (q1, Io_push 1 e) = Inr (q2, Io_issue 1 e 0 0) \<and>
    ids (batch_of 1 e (length rs)) \<inter> (live_ids (entries (buffer (batch_mgr q))) - D) \<noteq> {}"
proof -
  let ?n = "length rs" and ?q = "q\<lparr>cmdid_counter := 0\<rparr>" and ?e = "of_nat (length rs) :: u16"
  let ?x = "batch_of 1 ?e ?n"
  have u: "unat ?e = ?n" using assms(7) by (simp add: unat_of_nat)
  have c: "unat (cmdid_counter q) \<noteq> 0xffff" using assms(8) by (simp add: word_less_nat_alt)
  obtain e where "next_cmdid_len ?e q = Inr e" "e < next_cmdid q"
    using batch_ids [OF assms(6,7) refl, of q] assms(9) c by metis
  then have "io_step rs (q, Io_start) = Inr (q, Io_reset)" using assms(6,7) by simp
  moreover have "next_cmdid_len ?e ?q = Inr ?e" "next_cmdid ?q = 1" "1 \<le> ?e"
    using assms(6,7) u
    by (auto simp: next_cmdid_len_def next_cmdid_def word_less_nat_alt word_le_nat_alt word_unat_eq_iff Suc_le_eq)
  then have "io_step rs (q, Io_reset) = Inr (?q, Io_check 1 ?e)"
    using assms(3) by (simp add: reset_cmdid_def can_reset_cmdid_def)
  moreover have "io_step rs (?q, Io_check 1 ?e) = Inr (?q, Io_push 1 ?e)"
    using assms(3) \<open>1 \<le> ?e\<close> by (auto simp: is_available_range_def Let_def word_less_nat_alt word_le_nat_alt)
  moreover obtain q2 where "io_step rs (?q, Io_push 1 ?e) = Inr (q2, Io_issue 1 ?e 0 0)"
    using push_room [OF assms(1), of ?x] assms(2) by (auto simp: BATCH_INFO_BUFFER_SIZE_def)
  moreover have "1 \<in> ids ?x" using \<open>1 \<le> ?e\<close> by (simp add: ids_def in_batch_def batch_of_def)
  then have "ids ?x \<inter> (live_ids (entries (buffer (batch_mgr q))) - D) \<noteq> {}" using assms(4,5) by blast
  moreover have "batch_mgr ?q = batch_mgr q" by simp
  ultimately show ?thesis by blast
qed

definition busy_queue :: nvme_queue where
  "busy_queue = small_queue\<lparr>batch_mgr := snd (projr (manager_push (one_batch 1 0) (batch_mgr small_queue))),
     cmdid_counter := 0xfffe\<rparr>"

theorem cmdid_reuse_before_release_witness:
  "\<exists>e q1 q2. io_step [small_request, small_request] (q1, Io_push 1 e) = Inr (q2, Io_issue 1 e 0 0) \<and>
     batch_mgr q1 = batch_mgr busy_queue \<and>
     ids (batch_of 1 e (length [small_request, small_request])) \<inter> live_ids (entries (buffer (batch_mgr busy_queue))) \<noteq> {}"
proof -
  obtain m where m: "manager_push (one_batch 1 0) (batch_mgr small_queue) = Inr (True, m)" "holds m [one_batch 1 0] {}"
      "last_available_cmdid m = 0"
    using push_holds [OF small_queue_ok(1), of "one_batch 1 0"] small_queue_ok(2) one_batch_ids [of 1 0]
    by (auto simp: live_ids_def BATCH_INFO_BUFFER_SIZE_def)
  then have b: "batch_mgr busy_queue = m" "cmdid_counter busy_queue = 0xfffe" by (simp_all add: busy_queue_def)
  have "live_ids (entries (buffer m)) = {1}"
    using m(2) one_batch_ids [of 1 0] by (simp add: holds_def log_of_def live_ids_def progress_def ids_def in_batch_def)
  then show ?thesis
    using cmdid_reuse_before_release [of busy_queue "[one_batch 1 0]" "{}" "[small_request, small_request]"] m b
    by (auto simp del: io_step.simps)
qed

end
