(* ===== verification/XDK_Cpu_Mask.thy ===== *)
theory XDK_Cpu_Mask
  imports XDK_Prelude
begin

unbundle bit_operations_syntax

text \<open>
  Interrupt affinity: \<^verbatim>\<open>lib/libexo/exo/irq_affinity.h\<close>. A mask is a \<^verbatim>\<open>std::set\<close> of core numbers, here the list of its
  elements in iteration order. Routing an interrupt writes the mask as text to a file under \<^verbatim>\<open>/proc/irq\<close>; the
  main theorem reads the text the way the kernel documents it and finds the cores of the mask.
\<close>

section \<open>Masks\<close>

type_synonym cpu_mask = "u32 list"

definition add_core :: "u32 \<Rightarrow> cpu_mask \<Rightarrow> cpu_mask" where
  "add_core c m = insort_insert c m"

definition Cpu_mask :: "u32 \<Rightarrow> cpu_mask" where
  "Cpu_mask c = add_core c []"

partial_function (option) add_range_loop :: "u32 \<Rightarrow> u32 \<Rightarrow> cpu_mask \<Rightarrow> cpu_mask option" where
  "add_range_loop i c_end m = (if i \<le> c_end then add_range_loop (i + 1) c_end (add_core i m) else Some m)"

definition add_range :: "u32 \<Rightarrow> u32 \<Rightarrow> cpu_mask \<Rightarrow> (status \<times> cpu_mask) option" where
  "add_range c_start c_end m =
     (if c_end \<le> c_start then Some (E_INVALID_REQUEST, m) else map_option (Pair S_OK) (add_range_loop c_start c_end m))"

definition max_core :: "cpu_mask \<Rightarrow> u32" where
  "max_core m = foldl (\<lambda>r c. if c > r then c else r) 0 m"

definition mask_dword :: "u32 \<Rightarrow> cpu_mask \<Rightarrow> u32" where
  "mask_dword dword m =
     (let range_start = dword * 32 in
      foldl (\<lambda>r c. if c \<ge> range_start \<and> c < range_start + 32 then r OR push_bit (unat (c - range_start)) 1 else r) 0 m)"

section \<open>Text\<close>

text \<open>Numbers as the stream operators print them, in base 10 and 16, and the padding of \<^verbatim>\<open>setw(8)\<close> with zeros.\<close>

definition digit_char :: "nat \<Rightarrow> char" where
  "digit_char d = ''0123456789abcdef'' ! d"

fun show_base :: "nat \<Rightarrow> nat \<Rightarrow> string" where
  "show_base b n = (if n < b \<or> b < 2 then [digit_char n] else show_base b (n div b) @ [digit_char (n mod b)])"

declare show_base.simps [simp del]

definition setw8 :: "string \<Rightarrow> string" where
  "setw8 s = replicate (8 - length s) CHR ''0'' @ s"

definition dword_text :: "nat \<Rightarrow> cpu_mask \<Rightarrow> string" where
  "dword_text i m = setw8 (show_base 16 (unat (mask_dword (of_nat i) m)))"

primrec mask_string_loop :: "nat \<Rightarrow> cpu_mask \<Rightarrow> string" where
  "mask_string_loop 0 m = dword_text 0 m"
| "mask_string_loop (Suc i) m = dword_text (Suc i) m @ CHR '','' # mask_string_loop i m"

definition mask_string :: "cpu_mask \<Rightarrow> string" where
  "mask_string m = mask_string_loop (unat (max_core m div 32)) m"

text \<open>The file that is written and the text; \<^verbatim>\<open>ofstream\<close> reports no error, so the result is always \<^verbatim>\<open>S_OK\<close>.\<close>

definition route_interrupt_mask :: "u32 \<Rightarrow> cpu_mask \<Rightarrow> string \<times> string" where
  "route_interrupt_mask irq m =
     (''/proc/irq/'' @ show_base 10 (unat irq) @ ''/smp_affinity'', mask_string m @ [CHR 0x0A])"

definition route_interrupt :: "u32 \<Rightarrow> u32 \<Rightarrow> string \<times> string" where
  "route_interrupt irq core = route_interrupt_mask irq (Cpu_mask core)"

section \<open>Reading a mask\<close>

text \<open>
  The documented format of \<^verbatim>\<open>smp_affinity\<close>: 32-bit words in base 16, the most significant one first, separated by
  commas. The arguments are the value of the words before and of the digits of the current word.
\<close>

definition digit_value :: "char \<Rightarrow> nat" where
  "digit_value c = (if of_char c < (58 :: nat) then of_char c - 48 else of_char c - 87)"

fun smp_affinity :: "nat \<Rightarrow> nat \<Rightarrow> string \<Rightarrow> nat" where
  "smp_affinity acc cur [] = acc * 2 ^ 32 + cur"
| "smp_affinity acc cur (c # cs) =
     (if c = CHR 0x0A then acc * 2 ^ 32 + cur
      else if c = CHR '','' then smp_affinity (acc * 2 ^ 32 + cur) 0 cs
      else smp_affinity acc (cur * 16 + digit_value c) cs)"

lemma digit_char_value:
  assumes "d < 16"
  shows "digit_value (digit_char d) = d" "digit_char d \<noteq> CHR '',''" "digit_char d \<noteq> CHR 0x0A"
proof -
  have "d = 0 \<or> d = 1 \<or> d = 2 \<or> d = 3 \<or> d = 4 \<or> d = 5 \<or> d = 6 \<or> d = 7 \<or> d = 8 \<or> d = 9 \<or>
      d = 10 \<or> d = 11 \<or> d = 12 \<or> d = 13 \<or> d = 14 \<or> d = 15" using assms by presburger
  then have "digit_value (digit_char d) = d \<and> digit_char d \<noteq> CHR '','' \<and> digit_char d \<noteq> CHR 0x0A"
    by (elim disjE) (simp_all add: digit_value_def digit_char_def)
  then show "digit_value (digit_char d) = d" "digit_char d \<noteq> CHR '',''" "digit_char d \<noteq> CHR 0x0A" by simp_all
qed

lemma smp_affinity_number:
  "smp_affinity acc cur (show_base 16 n @ rest) = smp_affinity acc (cur * 16 ^ length (show_base 16 n) + n) rest"
proof (induction "16 :: nat" n arbitrary: cur rest rule: show_base.induct)
  case (1 n)
  show ?case
  proof (cases "n < 16")
    case True
    then show ?thesis using digit_char_value [of n] by (simp add: show_base.simps)
  next
    case False
    then have s: "show_base 16 n = show_base 16 (n div 16) @ [digit_char (n mod 16)]" by (subst show_base.simps) simp
    have "smp_affinity acc cur (show_base 16 n @ rest) =
        smp_affinity acc (cur * 16 ^ length (show_base 16 (n div 16)) + n div 16) (digit_char (n mod 16) # rest)"
      unfolding s using 1 [of cur "digit_char (n mod 16) # rest"] False by simp
    also have "\<dots> = smp_affinity acc ((cur * 16 ^ length (show_base 16 (n div 16)) + n div 16) * 16 + n mod 16) rest"
      using digit_char_value [of "n mod 16"] by simp
    also have "(cur * 16 ^ length (show_base 16 (n div 16)) + n div 16) * 16 + n mod 16 = cur * 16 ^ length (show_base 16 n) + n"
      unfolding s using div_mult_mod_eq [of n 16] by (simp add: algebra_simps)
    finally show ?thesis .
  qed
qed

lemma smp_affinity_zeros: "smp_affinity acc 0 (replicate k CHR ''0'' @ rest) = smp_affinity acc 0 rest"
  by (induction k) (simp_all add: digit_value_def)

lemma smp_affinity_dword:
  "smp_affinity acc 0 (dword_text i m @ rest) = smp_affinity acc (unat (mask_dword (of_nat i) m)) rest"
  using smp_affinity_number [of acc 0] by (simp add: dword_text_def setw8_def smp_affinity_zeros)

fun mask_value :: "nat \<Rightarrow> cpu_mask \<Rightarrow> nat" where
  "mask_value 0 m = unat (mask_dword 0 m)"
| "mask_value (Suc i) m = unat (mask_dword (of_nat (Suc i)) m) * 2 ^ (32 * Suc i) + mask_value i m"

lemma smp_affinity_loop:
  "smp_affinity acc 0 (mask_string_loop i m @ [CHR 0x0A]) = acc * 2 ^ (32 * Suc i) + mask_value i m"
proof (induction i arbitrary: acc)
  case 0
  then show ?case using smp_affinity_dword [of acc 0 m] by simp
next
  case (Suc i)
  have "smp_affinity acc 0 (mask_string_loop (Suc i) m @ [CHR 0x0A]) =
    smp_affinity (acc * 2 ^ 32 + unat (mask_dword (of_nat (Suc i)) m)) 0 (mask_string_loop i m @ [CHR 0x0A])"
    by (simp add: smp_affinity_dword del: of_nat_Suc)
  then show ?case unfolding Suc by (simp add: algebra_simps power_add del: of_nat_Suc)
qed


section \<open>The cores of the text\<close>

lemma bit_digits:
  assumes "b < 2 ^ n"
  shows "bit (a * 2 ^ n + b :: nat) k \<longleftrightarrow> (if k < n then bit b k else bit a (k - n))"
proof (cases "k < n")
  case True
  then obtain j where n: "n = Suc j + k" by (metis add.commute add_Suc_right less_imp_Suc_add)
  have "a * 2 ^ n + b = 2 * (a * 2 ^ j) * 2 ^ k + b" by (simp add: n power_add)
  then have "(a * 2 ^ n + b) div 2 ^ k = 2 * (a * 2 ^ j) + b div 2 ^ k" by (metis div_mult_self3 power_not_zero zero_neq_numeral)
  then show ?thesis using True by (simp add: bit_iff_odd)
next
  case False
  then obtain j where k: "k = n + j" by (metis le_Suc_ex not_less)
  have "(a * 2 ^ n + b) div 2 ^ k = a div 2 ^ j" using assms by (simp add: k power_add div_mult2_eq)
  then show ?thesis by (simp add: bit_iff_odd k)
qed

lemma mask_dword_bit:
  assumes "dword < 0x7FFFFFF" "j < 32"
  shows "bit (mask_dword dword m) j \<longleftrightarrow> (\<exists>c\<in>set m. unat c = 32 * unat dword + j)"
proof -
  have d: "unat dword < 0x7FFFFFF" using assms(1) by (simp add: word_less_nat_alt)
  have s: "unat (dword * 32) = 32 * unat dword" "unat (dword * 32 + 32) = 32 * unat dword + 32"
    using d unat_mult_small [of dword 32] unat_add_small [of "dword * 32" 32] by simp_all
  have in_range: "dword * 32 \<le> c \<and> c < dword * 32 + 32 \<longleftrightarrow> 32 * unat dword \<le> unat c \<and> unat c < 32 * unat dword + 32" for c
    by (simp add: word_le_nat_alt word_less_nat_alt s)
  have one: "bit (push_bit (unat (c - dword * 32)) 1 :: u32) j \<longleftrightarrow> unat c = 32 * unat dword + j" if "dword * 32 \<le> c" for c
    using that assms(2) unat_sub [OF that] by (auto simp: bit_simps s word_le_nat_alt)
  have "bit (foldl (\<lambda>r c. if c \<ge> dword * 32 \<and> c < dword * 32 + 32 then r OR push_bit (unat (c - dword * 32)) 1 else r) r m) j \<longleftrightarrow>
    bit r j \<or> (\<exists>c\<in>set m. unat c = 32 * unat dword + j)" for r :: u32
  proof (induction m arbitrary: r)
    case (Cons c m)
    then show ?case using one [of c] in_range [of c] assms(2) by (auto simp: bit_or_iff)
  qed simp
  then show ?thesis by (simp add: mask_dword_def Let_def)
qed

lemma mask_dword_top: "mask_dword 0x7FFFFFF m = 0"
proof -
  have zero: "(0x7FFFFFF * 32 + 32 :: u32) = 0" by (simp add: word_unat_eq_iff)
  have "foldl (\<lambda>r c. r) r m = r" for r :: u32 by (induction m) simp_all
  then show ?thesis unfolding mask_dword_def Let_def zero by simp
qed

lemma mask_dword_cores:
  assumes "i \<le> 0x7FFFFFF"
  shows "bit (unat (mask_dword (of_nat i) m)) j \<longleftrightarrow> j < 32 \<and> 32 * i + j < 2 ^ 32 - 32 \<and> (\<exists>c\<in>set m. unat c = 32 * i + j)"
proof (cases "i = 0x7FFFFFF")
  case True
  then show ?thesis by (simp add: mask_dword_top)
next
  case False
  then have i: "unat (of_nat i :: u32) = i" "i < 0x7FFFFFF" using assms by (simp_all add: unat_of_nat)
  then have "(of_nat i :: u32) < 0x7FFFFFF" by (simp add: word_less_nat_alt)
  then show ?thesis
    using mask_dword_bit [of "of_nat i" j m] i bit_imp_le_length [of "mask_dword (of_nat i) m" j] by (auto simp: bit_unsigned_iff)
qed

lemma mask_value_bound: "mask_value i m < 2 ^ (32 * Suc i)"
proof (induction i)
  case 0
  then show ?case using unat_bound [of "mask_dword 0 m"] by simp
next
  case (Suc i)
  let ?w = "unat (mask_dword (of_nat (Suc i)) m)"
  have "(?w + 1) * 2 ^ (32 * Suc i) \<le> 2 ^ 32 * 2 ^ (32 * Suc i)"
    using unat_bound [of "mask_dword (of_nat (Suc i)) m"] by (intro mult_right_mono) (simp_all del: of_nat_Suc)
  also have "\<dots> = (2 ^ (32 * Suc (Suc i)) :: nat)" by (simp add: power_add)
  finally show ?case using Suc by (simp del: of_nat_Suc mult_Suc_right power_Suc)
qed

lemma mask_value_bit:
  assumes "i \<le> 0x7FFFFFF"
  shows "bit (mask_value i m) k \<longleftrightarrow> k < 32 * Suc i \<and> k < 2 ^ 32 - 32 \<and> (\<exists>c\<in>set m. unat c = k)"
  using assms
proof (induction i)
  case 0
  then show ?case using mask_dword_cores [of 0 m k] by auto
next
  case (Suc i)
  have "bit (mask_value (Suc i) m) k \<longleftrightarrow>
    (if k < 32 * Suc i then bit (mask_value i m) k else bit (unat (mask_dword (of_nat (Suc i)) m)) (k - 32 * Suc i))"
    using bit_digits [OF mask_value_bound] by (simp del: of_nat_Suc mult_Suc_right)
  moreover have "(\<exists>c\<in>set m. unat c = 32 * Suc i + (k - 32 * Suc i)) \<longleftrightarrow> (\<exists>c\<in>set m. unat c = k)"
    "32 * Suc i + (k - 32 * Suc i) = k" "k - 32 * Suc i < 32 \<longleftrightarrow> k < 32 * Suc (Suc i)" if "\<not> k < 32 * Suc i"
    using that by simp_all linarith
  ultimately show ?case
    using Suc.IH mask_dword_cores [OF Suc.prems, of m "k - 32 * Suc i"] Suc.prems
    by (cases "k < 32 * Suc i") (auto simp del: of_nat_Suc mask_value.simps)
qed

lemma max_core_bound:
  assumes "c \<in> set m"
  shows "c \<le> max_core m"
proof -
  have "r \<le> foldl (\<lambda>r c. if c > r then c else r) r m \<and> (\<forall>c\<in>set m. c \<le> foldl (\<lambda>r c. if c > r then c else r) r m)" for r :: u32
  proof (induction m arbitrary: r)
    case (Cons a m)
    then show ?case using Cons [of a] Cons [of r] by (auto simp: not_less dest: order_trans less_imp_le)
  qed simp
  then show ?thesis using assms by (simp add: max_core_def)
qed

lemma add_core_set: "set (add_core c m) = insert c (set m)"
  by (simp add: add_core_def set_insort_insert)

lemma add_range_loop_spec:
  assumes "c_end \<noteq> 0xFFFFFFFF"
  shows "\<exists>m'. add_range_loop i c_end m = Some m' \<and> set m' = set m \<union> {i..c_end}"
proof (induction "unat c_end + 1 - unat i" arbitrary: i m rule: less_induct)
  case less
  show ?case
  proof (cases "i \<le> c_end")
    case True
    have "unat c_end \<noteq> 0xFFFFFFFF" using assms by (simp add: word_unat_eq_iff)
    then have "unat i + 1 < 2 ^ 32" using True unat_bound [of c_end] by (simp add: word_le_nat_alt)
    then have i: "unat (i + 1) = Suc (unat i)" using unat_add_small [of i 1] by simp
    have "{i..c_end} = insert i {i + 1..c_end}" using True i by (auto simp: word_le_nat_alt word_unat_eq_iff)
    moreover obtain m' where "add_range_loop (i + 1) c_end (add_core i m) = Some m'" "set m' = set (add_core i m) \<union> {i + 1..c_end}"
      using less [of "i + 1" "add_core i m"] True i by (simp add: word_le_nat_alt less_Suc_eq_le Suc_diff_le) blast
    ultimately show ?thesis using True by (subst add_range_loop.simps) (simp add: add_core_set)
  next
    case False
    then show ?thesis by (subst add_range_loop.simps) auto
  qed
qed

text \<open>
  A range of cores. The range is added and the function returns, unless the last core is the largest 32-bit
  number: then the loop never ends. A range of one core is refused, although the range is said to be inclusive.
\<close>

lemma add_range_cases:
  "c_end \<le> c_start \<Longrightarrow> add_range c_start c_end m = Some (E_INVALID_REQUEST, m)"
  "c_start < c_end \<Longrightarrow> c_end \<noteq> 0xFFFFFFFF \<Longrightarrow>
     \<exists>m'. add_range c_start c_end m = Some (S_OK, m') \<and> set m' = set m \<union> {c_start..c_end}"
  "c_start < 0xFFFFFFFF \<Longrightarrow> add_range c_start 0xFFFFFFFF m = None"
proof -
  show "c_end \<le> c_start \<Longrightarrow> add_range c_start c_end m = Some (E_INVALID_REQUEST, m)" by (simp add: add_range_def)
  show "c_start < c_end \<Longrightarrow> c_end \<noteq> 0xFFFFFFFF \<Longrightarrow>
     \<exists>m'. add_range c_start c_end m = Some (S_OK, m') \<and> set m' = set m \<union> {c_start..c_end}"
    using add_range_loop_spec [of c_end c_start m] by (auto simp: add_range_def)
  have top: "i \<le> 0xFFFFFFFF" for i :: u32 using unat_bound [of i] by (simp add: word_le_nat_alt)
  have "c_end \<noteq> 0xFFFFFFFF" if "add_range_loop i c_end m = Some m'" for i c_end m m'
    using that
  proof (rule add_range_loop.raw_induct [rotated])
    show "c_end \<noteq> 0xFFFFFFFF" if "\<And>i c_end m m'. f i c_end m = Some m' \<Longrightarrow> c_end \<noteq> 0xFFFFFFFF"
      "(if i \<le> c_end then f (i + 1) c_end (add_core i m) else Some m) = Some m'" for f i c_end m m'
      using that top [of i] by (auto split: if_splits)
  qed
  then show "c_start < 0xFFFFFFFF \<Longrightarrow> add_range c_start 0xFFFFFFFF m = None"
    by (cases "add_range_loop c_start 0xFFFFFFFF m") (auto simp: add_range_def)
qed

text \<open>
  The text written to route interrupts. Read as the kernel documents the file, the text of a mask has exactly
  the bits of the cores in the mask, for all cores below the last 32 of the 32-bit numbers. Those are never in it:
  the end of their word wraps to 0.
\<close>

theorem mask_string_cores:
  "bit (smp_affinity 0 0 (snd (route_interrupt_mask irq m))) k \<longleftrightarrow> k < 2 ^ 32 - 32 \<and> (\<exists>c\<in>set m. unat c = k)"
proof -
  let ?i = "unat (max_core m div 32)"
  have i: "?i = unat (max_core m) div 32" by (simp add: unat_div)
  then have "?i \<le> 0x7FFFFFF" using unat_bound [of "max_core m"] by simp
  moreover have "unat c < 32 * Suc ?i" if "c \<in> set m" for c
  proof -
    have "unat c \<le> unat (max_core m)" using max_core_bound [OF that] by (simp add: word_le_nat_alt)
    then show ?thesis unfolding i using dividend_less_div_times [of 32 "unat (max_core m)"] by simp
  qed
  ultimately show ?thesis
    using mask_value_bit [of ?i m k] smp_affinity_loop [of 0 ?i m] by (auto simp: route_interrupt_mask_def mask_string_def)
qed

end
