(* ===== verification/XDK_NVMe_Device.thy ===== *)
theory XDK_NVMe_Device
  imports XDK_NVMe_IO XDK_Cpu_Mask
begin

text \<open>
  The NVMe device: the configuration (\<^verbatim>\<open>drivers/nvme-ssd/config.h\<close>), reset and start-up of the controller
  (\<^verbatim>\<open>nvme_device.cc\<close>) and the entry points that pass requests to the I/O queues (\<^verbatim>\<open>nvme_device.h\<close>). The XML parser,
  the kernel and the controller are arguments.
\<close>

section \<open>Configuration\<close>

record io_config =
  num_queues :: u32
  core_qid_mappings :: "(u32 \<times> u32) list"
  num_sub_queues :: u32
  sq_qid_core_map :: "u32 \<rightharpoonup> u32"
  config_queue_len :: u32

text \<open>\<^verbatim>\<open>atoi\<close>: white space, a sign, digits; a value that does not fit in an \<^verbatim>\<open>int\<close> is undefined.\<close>

definition is_space :: "char \<Rightarrow> bool" where
  "is_space c \<longleftrightarrow> c = CHR '' '' \<or> 9 \<le> (of_char c :: nat) \<and> (of_char c :: nat) \<le> 13"

definition is_digit :: "char \<Rightarrow> bool" where
  "is_digit c \<longleftrightarrow> 48 \<le> (of_char c :: nat) \<and> (of_char c :: nat) \<le> 57"

definition digits_value :: "string \<Rightarrow> nat" where
  "digits_value s = foldl (\<lambda>v c. 10 * v + (of_char c - 48)) 0 (takeWhile is_digit s)"

definition atoi :: "string \<Rightarrow> int outcome" where
  "atoi s =
     (let v = (case dropWhile is_space s of [] \<Rightarrow> 0
        | c # cs \<Rightarrow> if c = CHR ''-'' then - int (digits_value cs) else if c = CHR ''+'' then int (digits_value cs)
            else int (digits_value (c # cs)))
      in check (- (2 ^ 31) \<le> v \<and> v < 2 ^ 31) Undefined (Inr v))"

text \<open>An attribute that is missing is a null pointer.\<close>

definition atoi_attr :: "string option \<Rightarrow> int outcome" where
  "atoi_attr a = (case a of None \<Rightarrow> Inl Null_deref | Some s \<Rightarrow> atoi s)"

definition add_IO_queue :: "int \<Rightarrow> string option \<Rightarrow> string option \<Rightarrow> io_config \<Rightarrow> io_config outcome" where
  "add_IO_queue nprocs qid core c =
     seq (atoi_attr qid) (\<lambda>i. seq (atoi_attr core) (\<lambda>k.
       check (k \<le> nprocs) Assertion
         (Inr (c\<lparr>num_queues := num_queues c + 1, core_qid_mappings := core_qid_mappings c @ [(of_int i, of_int k)]\<rparr>))))"

definition add_sub_queue :: "int \<Rightarrow> string option \<Rightarrow> string option \<Rightarrow> io_config \<Rightarrow> io_config outcome" where
  "add_sub_queue nprocs qid core c =
     seq (atoi_attr qid) (\<lambda>i. seq (atoi_attr core) (\<lambda>k.
       check (k \<le> nprocs) Assertion
         (Inr (c\<lparr>num_sub_queues := num_sub_queues c + 1, sq_qid_core_map := (sq_qid_core_map c)(of_int i \<mapsto> of_int k)\<rparr>))))"

definition io_queue_get_assigned_core :: "u32 \<Rightarrow> io_config \<Rightarrow> (u32 \<times> u32) outcome" where
  "io_queue_get_assigned_core index c =
     check (unat index < length (core_qid_mappings c)) Assertion (Inr (core_qid_mappings c ! unat index))"

definition get_core :: "u32 \<Rightarrow> io_config \<Rightarrow> u32 outcome" where
  "get_core index c =
     check (unat index < length (core_qid_mappings c)) Assertion (Inr (snd (core_qid_mappings c ! unat index)))"

definition get_sub_core_from_qid :: "u32 \<Rightarrow> io_config \<Rightarrow> u32 outcome" where
  "get_sub_core_from_qid qid c =
     (case sq_qid_core_map c qid of None \<Rightarrow> Inl Assertion | Some k \<Rightarrow> Inr k)"

text \<open>
  A call that may also throw an exception. The document is what the XML parser finds: the attribute \<^verbatim>\<open>length\<close> of the
  node \<^verbatim>\<open>IO_queue_config\<close> if there is such a node, and name, id and core of the children of the node \<^verbatim>\<open>IO_queues\<close>.
  The first node is used without a test, which is an access through a null pointer and no exception.
\<close>

datatype 'a call = Threw | Returned 'a

record config_document =
  queue_config_node :: "string option option"
  io_queues_node :: "(string \<times> string option \<times> string option) list option"

fun add_children ::
  "int \<Rightarrow> (string \<times> string option \<times> string option) list \<Rightarrow> io_config \<Rightarrow> io_config outcome" where
  "add_children nprocs [] c = Inr c"
| "add_children nprocs ((name, qid, core) # cs) c =
     seq (if name = ''Completion_queue'' then add_IO_queue nprocs qid core c
          else if name = ''Submission_queue'' then add_sub_queue nprocs qid core c
          else Inl Assertion) (add_children nprocs cs)"

definition new_config :: io_config where
  "new_config = \<lparr>num_queues = 0, core_qid_mappings = [], num_sub_queues = 0, sq_qid_core_map = Map.empty, config_queue_len = 0\<rparr>"

definition parse_config :: "int \<Rightarrow> config_document \<Rightarrow> io_config call outcome" where
  "parse_config nprocs doc =
     (case queue_config_node doc of None \<Rightarrow> Inl Null_deref
      | Some len \<Rightarrow> seq (atoi_attr len) (\<lambda>n.
          case io_queues_node doc of None \<Rightarrow> Inr Threw
          | Some cs \<Rightarrow> seq (add_children nprocs cs (new_config\<lparr>config_queue_len := of_int n\<rparr>)) (\<lambda>c.
              check (num_queues c = num_sub_queues c) Assertion (Inr (Returned c)))))"

section \<open>State\<close>

text \<open>
  The registers and the state \<open>'d\<close> of the controller change at every \<open>tick\<close>, before a read of the status register.
  \<^verbatim>\<open>_io_queues\<close> has 32 elements, \<open>None\<close> where nothing was assigned, each a queue and the core of its completion
  thread. \<open>routes\<close> are the files written to route interrupts.
\<close>

record 'd nvme_device =
  controller :: "NVME_register_map \<times> 'd"
  admin_queues :: "nvme_queue option"
  msi_vectors :: "u32 list"
  io_queues :: "(nvme_queue \<times> u32) option list"
  num_io_queues :: u32
  config :: io_config
  ident :: device_info
  routes :: "(string \<times> string) list"

definition CONFIG_MAX_IO_QUEUES :: nat where
  "CONFIG_MAX_IO_QUEUES = 32"

record 'd nvme_env =
  tick :: "NVME_register_map \<times> 'd \<Rightarrow> NVME_register_map \<times> 'd"
  online_cpus :: int
  allocated_vectors :: "u32 \<Rightarrow> u32 list"
  msix_control :: u16
  admin_pages :: "u64 \<times> u64"
  admin_batches :: "batch_info list"
  queue_num_slot :: "nat \<Rightarrow> nvme_comp_command_common"
  identify_slots :: "nat \<Rightarrow> nat \<Rightarrow> nvme_comp_command_common"
  identify_pages :: "nat \<Rightarrow> u8 list"
  identify_prps :: "nat \<Rightarrow> u64"
  create_slots :: "nat \<Rightarrow> nat \<Rightarrow> nat \<Rightarrow> nvme_comp_command_common"
  delete_slots :: "nat \<Rightarrow> nat \<Rightarrow> nat \<Rightarrow> nvme_comp_command_common"
  queue_pages :: "nat \<Rightarrow> u64 \<times> u64"
  queue_batches :: "nat \<Rightarrow> batch_info list"

text \<open>An attempt is \<open>None\<close> when it never returns; \<open>waits\<close> is a wait for the ring of the admin queue, which only the caller empties.\<close>

type_synonym 'a attempt = "'a call outcome option"

definition returns :: "'a \<Rightarrow> 'a attempt" where
  "returns x = Some (Inr (Returned x))"

definition continue :: "'a attempt \<Rightarrow> ('a \<Rightarrow> 'b attempt) \<Rightarrow> 'b attempt" where
  "continue a f = (case a of None \<Rightarrow> None | Some (Inl e) \<Rightarrow> Some (Inl e) | Some (Inr Threw) \<Rightarrow> Some (Inr Threw)
     | Some (Inr (Returned x)) \<Rightarrow> f x)"

definition assures :: "bool \<Rightarrow> fault \<Rightarrow> 'a attempt \<Rightarrow> 'a attempt" where
  "assures b e k = (if b then k else Some (Inl e))"

definition computes :: "'a outcome \<Rightarrow> 'a attempt" where
  "computes r = (case r of Inl e \<Rightarrow> Some (Inl e) | Inr x \<Rightarrow> returns x)"

definition waits :: "'a option outcome \<Rightarrow> 'a attempt" where
  "waits r = (case r of Inl e \<Rightarrow> Some (Inl e) | Inr None \<Rightarrow> None | Inr (Some x) \<Rightarrow> returns x)"

section \<open>Reset\<close>

partial_function (option) wait_disabled ::
  "(NVME_register_map \<times> 'd \<Rightarrow> NVME_register_map \<times> 'd) \<Rightarrow> NVME_register_map \<times> 'd \<Rightarrow> (NVME_register_map \<times> 'd) option" where
  "wait_disabled step w = (let w1 = step w in if csts_ready (fst w1) \<noteq> 0 then wait_disabled step w1 else Some w1)"

primrec wait_ready ::
  "(NVME_register_map \<times> 'd \<Rightarrow> NVME_register_map \<times> 'd) \<Rightarrow> nat \<Rightarrow> NVME_register_map \<times> 'd \<Rightarrow> NVME_register_map \<times> 'd" where
  "wait_ready step 0 w = step w"
| "wait_ready step (Suc attempts) w =
     (let w1 = step w in if csts_ready (fst w1) \<noteq> 0 then w1 else wait_ready step attempts w1)"

text \<open>Enable the controller and wait: the part of \<^verbatim>\<open>hw_reset\<close> behind the creation of the admin queue.\<close>

definition bring_up :: "'d nvme_env \<Rightarrow> NVME_register_map \<times> 'd \<Rightarrow> (NVME_register_map \<times> 'd) attempt" where
  "bring_up E w =
     (let w1 = (cc_enable (set_cc 0x460001 (fst w)), snd w);
          w2 = wait_ready (tick E) (unat (timeout (fst w1))) w1;
          w3 = tick E w2
      in if csts_ready (fst w3) = 0 then Some (Inr Threw)
         else let w4 = tick E w3 in assures (reg_csts (fst w4) = 1) Assertion (returns w4))"

definition hw_reset :: "'d nvme_env \<Rightarrow> 'd nvme_device \<Rightarrow> 'd nvme_device attempt" where
  "hw_reset E d =
     (case wait_disabled (tick E) (cc_disable (fst (controller d)), snd (controller d)) of
        None \<Rightarrow> None
      | Some w \<Rightarrow>
          assures (msi_vectors d \<noteq> []) Out_of_range
          (assures (0 < hd (msi_vectors d)) Assertion
          (continue (computes (NVME_admin_queue (admin_batches E) (fst (admin_pages E)) (snd (admin_pages E))
              (hd (msi_vectors d)) (fst w))) (\<lambda>(q, reg).
           continue (bring_up E (reg, snd w)) (\<lambda>w1.
             returns (d\<lparr>controller := w1, admin_queues := Some (setup_doorbells reg q),
               routes := routes d @ [route_interrupt (hd (msi_vectors d)) 0]\<rparr>))))))"

section \<open>Start-up\<close>

definition route_vector :: "'d nvme_device \<Rightarrow> nat \<Rightarrow> (string \<times> string) outcome" where
  "route_vector d i =
     check (i < length (msi_vectors d)) Out_of_range
     (seq (get_core (of_nat (i - 1)) (config d)) (\<lambda>core. Inr (route_interrupt (msi_vectors d ! i) core)))"

fun route_vectors :: "nat list \<Rightarrow> 'd nvme_device \<Rightarrow> 'd nvme_device outcome" where
  "route_vectors [] d = Inr d"
| "route_vectors (i # is) d = seq (route_vector d i) (\<lambda>r. route_vectors is (d\<lparr>routes := routes d @ [r]\<rparr>))"

definition limited_queue_len :: "u32 \<Rightarrow> NVME_register_map \<Rightarrow> u32" where
  "limited_queue_len len r = (if ucast (mqes r) \<le> len then ucast (mqes r) + 1 else len)"

text \<open>The constructor of the completion thread, which passes its core to \<^verbatim>\<open>Base_thread\<close> as an \<^verbatim>\<open>int\<close>.\<close>

definition CQ_thread :: "int \<Rightarrow> u32 \<Rightarrow> unit outcome" where
  "CQ_thread nprocs core = check (sint core < nprocs) Assertion (Inr ())"

text \<open>
  One round of the loop that creates the queues. Assigning an element behind the end of \<^verbatim>\<open>_io_queues\<close> is undefined
  behaviour: the model stops there, while the program may go on with damaged memory.
\<close>

definition create_queue :: "'d nvme_env \<Rightarrow> u32 \<Rightarrow> nat \<Rightarrow> 'd nvme_device \<Rightarrow> 'd nvme_device attempt" where
  "create_queue E len i d =
     assures (i < length (msi_vectors d)) Assertion
     (continue (computes (io_queue_get_assigned_core (of_nat i) (config d))) (\<lambda>(qid, core).
      assures (i + 1 < length (msi_vectors d)) Out_of_range
      (case admin_queues d of None \<Rightarrow> Some (Inl Assertion)
       | Some a \<Rightarrow>
           continue (waits (NVME_IO_queue (queue_batches E i) (create_slots E i) (of_nat (i + 1)) (msi_vectors d ! (i + 1))
             (ucast len) (fst (queue_pages E i)) (snd (queue_pages E i)) a)) (\<lambda>(q, a1).
           continue (computes (CQ_thread (online_cpus E) core)) (\<lambda>_.
           assures (i < length (io_queues d)) Out_of_range
             (returns (d\<lparr>admin_queues := Some a1,
                io_queues := (io_queues d)[i := Some (setup_doorbells (fst (controller d)) q, core)]\<rparr>)))))))"

fun create_queues :: "'d nvme_env \<Rightarrow> u32 \<Rightarrow> nat list \<Rightarrow> 'd nvme_device \<Rightarrow> 'd nvme_device attempt" where
  "create_queues E len [] d = returns d"
| "create_queues E len (i # is) d = continue (create_queue E len i d) (create_queues E len is)"

text \<open>
  \<^verbatim>\<open>nvme_init_device\<close>: the vectors are allocated and routed, the controller is reset, the number of queues is set, the
  device is identified, and the queues are created.
\<close>

definition identify_controller :: "'d nvme_env \<Rightarrow> 'd nvme_device \<Rightarrow> 'd nvme_device attempt" where
  "identify_controller E d =
     (case admin_queues d of None \<Rightarrow> Some (Inl Null_deref)
      | Some a \<Rightarrow>
          continue (waits (set_queue_num (queue_num_slot E) (num_io_queues d) a)) (\<lambda>(st, a1).
          assures (msix_control E AND push_bit 15 1 \<noteq> 0) Assertion
          (case issue_identify_device (identify_slots E) (identify_pages E) (identify_prps E) a1 (ident d) of
             None \<Rightarrow> None
           | Some r \<Rightarrow> continue (waits r) (\<lambda>(a2, info). returns (d\<lparr>admin_queues := Some a2, ident := info\<rparr>)))))"

definition nvme_init_device :: "'d nvme_env \<Rightarrow> 'd nvme_device \<Rightarrow> 'd nvme_device attempt" where
  "nvme_init_device E d =
     continue (computes (check_registers (fst (controller d)))) (\<lambda>_.
     let n = num_queues (config d);
         d1 = d\<lparr>num_io_queues := n, msi_vectors := allocated_vectors E (n + 1)\<rparr>
     in assures (msi_vectors d1 \<noteq> []) Out_of_range
        (continue (computes (route_vectors [1..<unat (n + 1)] d1)) (\<lambda>d2.
         continue (hw_reset E d2) (\<lambda>d3.
         continue (identify_controller E d3) (\<lambda>d4.
         let len = limited_queue_len (config_queue_len (config d4)) (fst (controller d4))
         in assures (n < 64) Assertion (create_queues E len [0..<unat n] d4))))))"

text \<open>The object before the constructor's body; the content of \<^verbatim>\<open>_io_queues\<close> is not initialised and never read before it is set.\<close>

definition NVME_device ::
  "'d nvme_env \<Rightarrow> config_document \<Rightarrow> device_info \<Rightarrow> NVME_register_map \<times> 'd \<Rightarrow> 'd nvme_device attempt" where
  "NVME_device E doc info w =
     continue (case parse_config (online_cpus E) doc of Inl e \<Rightarrow> Some (Inl e) | Inr r \<Rightarrow> Some (Inr r)) (\<lambda>c.
       nvme_init_device E \<lparr>controller = w, admin_queues = None, msi_vectors = [],
         io_queues = replicate CONFIG_MAX_IO_QUEUES None, num_io_queues = 0, config = c, ident = info, routes = []\<rparr>)"

section \<open>Requests\<close>

text \<open>
  Every entry point refuses a queue id of 0 or above the number of queues with an assertion. Most of them also
  assert that the queue is there; \<open>missing\<close> is what happens without that assertion.
\<close>

definition with_queue ::
  "fault \<Rightarrow> u32 \<Rightarrow> (nvme_queue \<Rightarrow> ('a \<times> nvme_queue) option outcome) \<Rightarrow> 'd nvme_device \<Rightarrow> ('a \<times> 'd nvme_device) option outcome" where
  "with_queue missing qid f d =
     check (\<not> (qid > num_io_queues d \<or> qid = 0)) Assertion
     (check (unat (qid - 1) < length (io_queues d)) Out_of_range
     (case io_queues d ! unat (qid - 1) of None \<Rightarrow> Inl missing
      | Some (q, core) \<Rightarrow> seq (f q) (\<lambda>r. case r of None \<Rightarrow> Inr None
          | Some (x, q1) \<Rightarrow> Inr (Some (x, d\<lparr>io_queues := (io_queues d)[unat (qid - 1) := Some (q1, core)]\<rparr>)))))"

definition block_async_read ::
  "u32 \<Rightarrow> u64 \<Rightarrow> u64 \<Rightarrow> u64 \<Rightarrow> bool \<Rightarrow> u32 \<Rightarrow> u32 \<Rightarrow> u32 \<Rightarrow> 'd nvme_device \<Rightarrow> (u16 \<times> 'd nvme_device) option outcome" where
  "block_async_read qid prp1 off num_blocks sequential freq lat nsid =
     with_queue Null_deref qid (issue_async_read prp1 off num_blocks sequential freq lat nsid)"

definition block_async_write ::
  "u32 \<Rightarrow> u64 \<Rightarrow> u64 \<Rightarrow> u64 \<Rightarrow> bool \<Rightarrow> u32 \<Rightarrow> u32 \<Rightarrow> u32 \<Rightarrow> 'd nvme_device \<Rightarrow> (u16 \<times> 'd nvme_device) option outcome" where
  "block_async_write qid prp1 off num_blocks sequential freq lat nsid =
     with_queue Assertion qid (issue_async_write prp1 off num_blocks sequential freq lat nsid)"

text \<open>One step of \<^verbatim>\<open>async_io_batch\<close> on its queue, from the given point of \<^verbatim>\<open>issue_async_io_batch\<close>.\<close>

definition async_io_batch_step ::
  "u32 \<Rightarrow> io_request list \<Rightarrow> io_pc \<Rightarrow> 'd nvme_device \<Rightarrow> (io_pc \<times> 'd nvme_device) option outcome" where
  "async_io_batch_step qid rs pc =
     with_queue Assertion qid (\<lambda>q. seq (io_step rs (q, pc)) (\<lambda>(q1, pc1). Inr (Some (pc1, q1))))"

definition device_flush :: "u32 \<Rightarrow> u32 \<Rightarrow> 'd nvme_device \<Rightarrow> (u16 \<times> 'd nvme_device) option outcome" where
  "device_flush nsid qid = with_queue Assertion qid issue_flush"

definition device_wait_io_completion :: "u32 \<Rightarrow> 'd nvme_device \<Rightarrow> (status \<times> 'd nvme_device) option outcome" where
  "device_wait_io_completion qid = with_queue Assertion qid (\<lambda>q. Inr (wait_io_completion q))"

definition device_next_cmdid :: "u32 \<Rightarrow> 'd nvme_device \<Rightarrow> (u16 \<times> 'd nvme_device) option outcome" where
  "device_next_cmdid qid = with_queue Null_deref qid (\<lambda>q. Inr (Some (next_cmdid q, q)))"

section \<open>Shutdown\<close>

text \<open>The destructor of an I/O queue deletes both rings of the queue on the controller.\<close>

definition delete_queue :: "(nat \<Rightarrow> nat \<Rightarrow> nvme_comp_command_common) \<Rightarrow> u32 \<Rightarrow> nvme_queue \<Rightarrow> nvme_queue attempt" where
  "delete_queue slots qid a =
     continue (waits (delete_io_queue (slots 0) QTYPE_SUB qid a)) (\<lambda>(rc, a1).
     assures (rc = S_OK) Assertion
     (continue (waits (delete_io_queue (slots 1) QTYPE_COMP qid a1)) (\<lambda>(rc, a2).
      assures (rc = S_OK) Assertion (returns a2))))"

fun destroy_from :: "'d nvme_env \<Rightarrow> nat list \<Rightarrow> 'd nvme_device \<Rightarrow> 'd nvme_device attempt" where
  "destroy_from E [] d = returns d"
| "destroy_from E (i # is) d =
     assures (i < length (io_queues d)) Out_of_range
     (case io_queues d ! i of None \<Rightarrow> Some (Inl Assertion)
      | Some (q, core) \<Rightarrow> (case admin_queues d of None \<Rightarrow> Some (Inl Assertion)
         | Some a \<Rightarrow> continue (delete_queue (delete_slots E i) (queue_id q) a) (\<lambda>a1.
             destroy_from E is (d\<lparr>admin_queues := Some a1\<rparr>))))"

definition destroy :: "'d nvme_env \<Rightarrow> 'd nvme_device \<Rightarrow> 'd nvme_device attempt" where
  "destroy E d = destroy_from E [0..<unat (num_io_queues d)] d"

section \<open>Attempts that return\<close>

lemma returns_eq [simp]: "returns x = returns y \<longleftrightarrow> x = y" "Some (Inr Threw) \<noteq> returns y" "Some (Inl e) \<noteq> returns y"
  "None \<noteq> returns y"
  by (simp_all add: returns_def)

lemma attempt_simps [simp]:
  "continue (returns x) f = f x" "continue (Some (Inl e)) f = Some (Inl e)" "continue (Some (Inr Threw)) f = Some (Inr Threw)"
  "computes (Inr x) = returns x"
  "waits (Inr (Some x)) = returns x"
  "assures True e k = k"
  by (simp_all add: continue_def returns_def computes_def waits_def assures_def)

lemma attempt_iffs:
  "continue a f = returns y \<longleftrightarrow> (\<exists>x. a = returns x \<and> f x = returns y)"
  "assures b e k = returns y \<longleftrightarrow> b \<and> k = returns y"
  "computes r = returns x \<longleftrightarrow> r = Inr x"
  "waits r' = returns x \<longleftrightarrow> r' = Inr (Some x)"
  by (auto simp: continue_def returns_def assures_def computes_def waits_def split: option.splits sum.splits call.splits)

section \<open>Admin commands in sequence\<close>

text \<open>
  The admin queue after \<open>m\<close> commands: the ids of the commands are 1 to 65535 over and over again, the rings have 64
  entries, and the phase changes with each round. \<open>answers slot m\<close> is a controller that completes the \<open>m\<close>-th command:
  one of the polls the driver makes sees its id, with the phase of the round.
\<close>

definition admin_cid :: "nat \<Rightarrow> u16" where
  "admin_cid m = (if m = 0 then 0 else of_nat (Suc ((m - 1) mod 65535)))"

definition admin_at :: "nat \<Rightarrow> nvme_queue \<Rightarrow> bool" where
  "admin_at m q \<longleftrightarrow> admin_ok q \<and> cmdid_counter q = admin_cid m \<and> unat (cq_head q) = m mod 64 \<and>
     cq_phase q = (if even (m div 64) then 1 else 0)"

definition answers :: "(nat \<Rightarrow> nvme_comp_command_common) \<Rightarrow> nat \<Rightarrow> bool" where
  "answers slot m \<longleftrightarrow> (\<exists>k \<le> 1000000000. (\<forall>j < k. command_id (slot j) \<noteq> admin_cid m) \<and> command_id (slot k) = admin_cid m \<and>
     phase_tag (slot k) = (if even ((m - 1) div 64) then 1 else 0))"

lemma admin_cid_next: "cmdid_counter q = admin_cid m \<Longrightarrow> next_cmdid q = admin_cid (Suc m)"
proof (cases m)
  case 0
  then show "cmdid_counter q = admin_cid m \<Longrightarrow> ?thesis" by (simp add: next_cmdid_def Let_def admin_cid_def)
next
  case (Suc l)
  assume "cmdid_counter q = admin_cid m"
  then have c: "cmdid_counter q = of_nat (Suc (l mod 65535))" using Suc by (simp add: admin_cid_def)
  have l: "l mod 65535 < 65535" by simp
  show ?thesis
  proof (cases "Suc (l mod 65535) = 65535")
    case True
    then have "cmdid_counter q = 65535" "Suc l mod 65535 = 0" using c by (simp_all add: mod_Suc)
    then show ?thesis using Suc by (simp add: next_cmdid_def Let_def admin_cid_def)
  next
    case False
    then have "Suc l mod 65535 = Suc (l mod 65535)" by (simp add: mod_Suc)
    moreover have "unat (of_nat (Suc (Suc (l mod 65535))) :: u16) = Suc (Suc (l mod 65535))"
      using False l by (simp add: unat_of_nat del: of_nat_Suc)
    then have "of_nat (Suc (Suc (l mod 65535))) \<noteq> (0 :: u16)" by (metis unat_0 nat.distinct(1))
    ultimately show ?thesis using Suc c by (simp add: next_cmdid_def Let_def admin_cid_def add.commute)
  qed
qed

lemma round_Suc: "Suc m div 64 = (if Suc (m mod 64) = 64 then Suc (m div 64) else m div 64)"
  by (simp add: div_Suc mod_Suc)

lemma admin_head:
  assumes "queue_id q = 0" "queue_max_items q = 64" "comp_cmd q = replicate 64 zero_completion"
    "cq_phase q = (if even (m div 64) then 1 else 0)" "unat (cq_head q) = m mod 64"
    "unat (sq_tail q) = Suc m mod 64" "length (sub_cmd q) = 64" "cmdid_counter q = admin_cid (Suc m)"
  shows "\<exists>q'. ring_doorbell_single_completion q = Inr q' \<and> admin_at (Suc m) q'"
proof -
  define q1 where "q1 = ring_completion_doorbell (update_admin_sq_head q)"
  have q1: "cq_head q1 = cq_head q" "cq_size q1 = 64" "sq_head q1 = cq_head q" "sq_tail q1 = sq_tail q" "comp_cmd q1 = comp_cmd q"
      "sub_cmd q1 = sub_cmd q" "queue_id q1 = 0" "cq_phase q1 = cq_phase q" "cmdid_counter q1 = cmdid_counter q"
    using assms(1,2) by (simp_all add: q1_def ring_completion_doorbell_def update_admin_sq_head_def cq_size_def)
  define q2 where "q2 = increment_completion_head q1"
  have i: "unat (cq_head q2) = Suc m mod 64" "cq_phase q2 = (if even (Suc m div 64) then 1 else 0)" "comp_cmd q2 = comp_cmd q" "cq_size q2 = 64"
    using increment_head [of q1] q1 assms(4,5) unfolding q2_def [symmetric] by (auto simp: round_Suc mod_Suc_eq)
  have rest: "sq_tail q2 = sq_tail q" "sq_head q2 = cq_head q" "sub_cmd q2 = sub_cmd q" "queue_id q2 = 0" "cmdid_counter q2 = cmdid_counter q"
    using q1 by (simp_all add: q2_def increment_completion_head_def Let_def)
  have "sq_used q2 \<le> 1" using i(4) rest(1,2) assms(5,6) by (auto simp: sq_used_def mod_Suc)
  then have "admin_at (Suc m) q2"
    using assms i rest by (simp add: admin_at_def admin_ok_def sq_ok_def Admin_queue_len_def word_unat_eq_iff)
  moreover have "ring_doorbell_single_completion q = Inr q2"
    using assms(1) by (simp add: ring_doorbell_single_completion_def q2_def q1_def)
  ultimately show ?thesis by blast
qed

lemma admin_step:
  assumes "admin_at m q" "answers slot (Suc m)"
  shows "\<exists>q1 q2 q3. with_slot fill q = Inr (Some (admin_cid (Suc m), q1)) \<and>
    check_command_completion slot (admin_cid (Suc m)) (ring_submission_doorbell q1) = Inr (S_OK, q2) \<and>
    curr_comp_slot q2 = Inr zero_completion \<and> ring_doorbell_single_completion q2 = Inr q3 \<and> admin_at (Suc m) q3"
proof -
  have a: "sq_ok q" "queue_id q = 0" "queue_max_items q = 64" "sq_used q \<le> 1" "sq_tail q = cq_head q" "comp_cmd q = replicate 64 zero_completion"
    and m: "unat (cq_head q) = m mod 64" "cq_phase q = (if even (m div 64) then 1 else 0)"
    using assms(1) by (auto simp: admin_at_def admin_ok_def cq_size_def Admin_queue_len_def word_unat_eq_iff)
  have c: "next_cmdid q = admin_cid (Suc m)" using assms(1) by (intro admin_cid_next) (simp add: admin_at_def)
  have "sq_used q \<noteq> cq_size q - 1" using a(3,4) by (simp add: cq_size_def)
  from next_sub_slot_spec [OF a(1), unfolded if_not_P [OF this]]
  obtain i t q' where n: "next_sub_slot q = Inr (Some (admin_cid (Suc m), i, q'))" "unat t = Suc m mod 64"
      "q' = q\<lparr>cmdid_counter := admin_cid (Suc m), sq_tail := t, sub_cmd := (sub_cmd q)[i := replicate 64 0]\<rparr>"
    using a(3,5) m(1) c by (auto simp: cq_size_def mod_Suc_eq)
  let ?q1 = "q'\<lparr>sub_cmd := (sub_cmd q')[i := fill (admin_cid (Suc m)) (clear (sub_cmd q' ! i))]\<rparr>"
  let ?q2 = "ring_submission_doorbell ?q1"
  obtain k where k: "k \<le> 1000000000" "\<forall>j < k. command_id (slot j) \<noteq> admin_cid (Suc m)" "command_id (slot k) = admin_cid (Suc m)"
      "phase_tag (slot k) = (if even (m div 64) then 1 else 0)"
    using assms(2) by (auto simp: answers_def)
  then have await: "await_cid slot (admin_cid (Suc m)) 0 = Some k" using await_cid_found [of k 0] by simp
  have "with_slot fill q = Inr (Some (admin_cid (Suc m), ?q1))" using n(1) by (simp add: with_slot_def)
  moreover
  have f: "cq_head ?q2 = cq_head q" "queue_max_items ?q2 = 64" "comp_cmd ?q2 = replicate 64 zero_completion" "queue_id ?q2 = 0"
      "cq_phase ?q2 = cq_phase q" "sq_tail ?q2 = t" "length (sub_cmd ?q2) = 64" "cmdid_counter ?q2 = admin_cid (Suc m)"
    using a by (simp_all add: ring_submission_doorbell_def n(3) sq_ok_def cq_size_def)
  have head: "ucast (cq_head ?q2) < queue_max_items ?q2" "unat (cq_head ?q2) < 64" "unat (cq_head ?q2) = m mod 64"
    unfolding f(1,2) using m(1) by (simp_all add: word_less_nat_alt unsigned_ucast_eq take_bit_nat_eq_self)
  have zeroed: "?q2\<lparr>comp_cmd := (replicate 64 zero_completion)[unat (cq_head ?q2) := zero_completion]\<rparr> = ?q2"
    using f(3) head(2) by (metis (no_types, lifting) list_update_id nth_replicate nvme_queue.surjective nvme_queue.update_convs(5))
  have "check_command_completion slot (admin_cid (Suc m)) ?q2 = Inr (S_OK, ?q2)"
    using await k(3,4) head zeroed f(3,5) m(2)
    by (simp add: check_command_completion_def Let_def)
  moreover have "curr_comp_slot ?q2 = Inr zero_completion"
    using head(1,2) f(3) by (simp add: curr_comp_slot_def)
  moreover have "\<exists>q3. ring_doorbell_single_completion ?q2 = Inr q3 \<and> admin_at (Suc m) q3"
    using admin_head [of ?q2 m] f n(2) head(3) m(2) by simp
  ultimately show ?thesis by blast
qed

lemma ring_wait_at:
  assumes "admin_at m q" "answers slot (Suc m)"
  shows "\<exists>q1 q'. with_slot fill q = Inr (Some (admin_cid (Suc m), q1)) \<and> ring_wait_complete slot (admin_cid (Suc m)) q1 = Inr (0, q') \<and>
    admin_at (Suc m) q'"
  using admin_step [OF assms, of fill]
  by (fastforce simp: ring_wait_complete_def get_result_def completion_result_def zero_completion_def)

lemma status_zero:
  assumes "admin_at m q"
  shows "get_status q = Inr 0"
proof -
  have q: "unat (cq_head q) < 64" "queue_max_items q = 64" "comp_cmd q = replicate 64 zero_completion"
    using assms by (auto simp: admin_at_def admin_ok_def sq_ok_def cq_size_def Admin_queue_len_def word_unat_eq_iff)
  then have "ucast (cq_head q) < queue_max_items q"
    by (simp add: word_less_nat_alt unsigned_ucast_eq take_bit_nat_eq_self)
  then show ?thesis using q by (simp add: get_status_def curr_comp_slot_def completion_status_def zero_completion_def)
qed

lemma set_queue_num_at:
  assumes "admin_at m q" "answers slot (Suc m)"
  shows "\<exists>q'. set_queue_num slot n q = Inr (Some (S_OK, q')) \<and> admin_at (Suc m) q'"
  using ring_wait_at [OF assms, of "\<lambda>slot_id sc. configure_num_queues n (fill_set_features slot_id sc)"]
  by (auto simp: set_queue_num_def submit_def Command_admin_set_features_def)

lemma create_cq_at:
  assumes "admin_at m q" "answers slot (Suc m)" "prp1 \<noteq> 0"
  shows "\<exists>q'. create_io_completion_queue slot v qid items prp1 q = Inr (Some (S_OK, q')) \<and> admin_at (Suc m) q'"
  using ring_wait_at [OF assms(1,2), of "fill_create_io_cq v qid items prp1"] assms(3) status_zero
  by (auto simp: create_io_completion_queue_def submit_def Command_admin_create_io_cq_def)

lemma create_sq_at:
  assumes "admin_at m q" "answers slot (Suc m)" "prp1 \<noteq> 0"
  shows "\<exists>q'. create_io_submission_queue slot qid items prp1 cqid q = Inr (Some (S_OK, q')) \<and> admin_at (Suc m) q'"
  using ring_wait_at [OF assms(1,2), of "fill_create_io_sq qid items prp1 cqid PRIO_HIGH"] assms(3) status_zero
  by (auto simp: create_io_submission_queue_def submit_def Command_admin_create_io_sq_def)

lemma NVME_IO_queue_at:
  assumes "admin_at m a" "answers (slots 0) (Suc m)" "answers (slots 1) (Suc (Suc m))" "vector \<noteq> 0" "0 < qid" "0 < queue_length"
    "cq_phys \<noteq> 0" "cq_phys AND 0xfff = 0" "sq_phys \<noteq> 0" "sq_phys AND 0xfff = 0"
  shows "\<exists>a'. NVME_IO_queue elems slots qid vector queue_length cq_phys sq_phys a =
      Inr (Some ((NVME_queues_base elems qid vector queue_length)\<lparr>sub_cmd := replicate (unat (ucast queue_length :: u32)) (replicate 64 0),
        comp_cmd := replicate (unat (ucast queue_length :: u32)) zero_completion\<rparr>, a')) \<and> admin_at (Suc (Suc m)) a'"
proof -
  let ?n = "queue_max_items (NVME_queues_base elems qid vector queue_length)"
  obtain a1 where a1: "create_io_completion_queue (slots 0) qid qid (ucast ?n) cq_phys a = Inr (Some (S_OK, a1))" "admin_at (Suc m) a1"
    using create_cq_at [OF assms(1,2,7)] by blast
  obtain a2 where "create_io_submission_queue (slots 1) qid (ucast ?n) sq_phys qid a1 = Inr (Some (S_OK, a2))" "admin_at (Suc (Suc m)) a2"
    using create_sq_at [OF a1(2) assms(3,9)] by blast
  then show ?thesis using a1(1) assms(4-10) by (simp add: NVME_IO_queue_def Let_def NVME_queues_base_def)
qed

text \<open>The identification page has the entry sizes the driver requires; \<open>namespaces\<close> is the number it reports.\<close>

definition good_page :: "u8 list \<Rightarrow> bool" where
  "good_page page \<longleftrightarrow> id_field nvme_id_ctrl ''sqes'' page = 0x66 \<and> id_field nvme_id_ctrl ''cqes'' page = 0x44"

definition namespaces :: "u8 list \<Rightarrow> nat" where
  "namespaces page = unat (of_nat (id_field nvme_id_ctrl ''nn'' page) :: u32)"

lemma check_controller_at:
  assumes "check_command_completion slot cid q = Inr (S_OK, q2)" "good_page page"
  shows "\<exists>d1. check_controller_result slot page cid q d = Inr (S_OK, q2, d1) \<and> unat (ident_nn d1) = namespaces page"
  using assms by (simp add: check_controller_result_def good_page_def namespaces_def Let_def)

lemma identify_namespaces_at:
  assumes "admin_at (Suc (unat n)) q" "unat (ident_nn d) = N" "0 < unat n" "unat n \<le> Suc N" "N < 2 ^ 32 - 1"
    "\<forall>j. unat n \<le> j \<and> j \<le> N \<longrightarrow> answers (slots j) (j + 2)"
  shows "\<exists>q' d'. identify_namespaces slots pages prps n q d = Some (Inr (Some (q', d'))) \<and> admin_at (N + 2) q'"
  using assms
proof (induction "Suc N - unat n" arbitrary: n q d rule: less_induct)
  case less
  show ?case
  proof (cases "unat n \<le> N")
    case True
    then have le: "n \<le> ident_nn d" using less.prems(2) by (simp add: word_le_nat_alt)
    have n1: "unat (n + 1) = Suc (unat n)" using True less.prems(5) by (simp add: unat_word_ariths)
    obtain q1 q2 q3 where step: "with_slot (fill_identify (prps (unat n)) n) q = Inr (Some (admin_cid (Suc (Suc (unat n))), q1))"
        "check_command_completion (slots (unat n)) (admin_cid (Suc (Suc (unat n)))) (ring_submission_doorbell q1) = Inr (S_OK, q2)"
        "ring_doorbell_single_completion q2 = Inr q3" "admin_at (Suc (Suc (unat n))) q3"
      using admin_step [OF less.prems(1), of "slots (unat n)" "fill_identify (prps (unat n)) n"] less.prems(5,6) True by force
    obtain d1 where "check_ns_result (slots (unat n)) (pages (unat n)) (admin_cid (Suc (Suc (unat n)))) n (ring_submission_doorbell q1) d =
        Inr (S_OK, q2, d1)" "ident_nn d1 = ident_nn d"
      using step(2) less.prems(3) by (auto simp: check_ns_result_def word_less_nat_alt)
    then show ?thesis
      using less.hyps [of "n + 1" q3 d1] step le less.prems True n1
      by (subst identify_namespaces.simps) (simp add: submit_def Command_admin_identify_def)
  next
    case False
    then have "\<not> n \<le> ident_nn d" "unat n = Suc N" using less.prems(2,4) by (simp_all add: word_le_nat_alt)
    then show ?thesis using less.prems(1) by (subst identify_namespaces.simps) simp
  qed
qed

lemma identify_at:
  assumes "admin_at 1 q" "good_page (pages 0)" "namespaces (pages 0) = N" "N < 2 ^ 32 - 1" "\<forall>j \<le> N. answers (slots j) (j + 2)"
  shows "\<exists>q' d'. issue_identify_device slots pages prps q d = Some (Inr (Some (q', d'))) \<and> admin_at (N + 2) q'"
proof -
  obtain q1 q2 q3 where step: "with_slot (fill_identify (prps 0) 0) q = Inr (Some (admin_cid 2, q1))"
      "check_command_completion (slots 0) (admin_cid 2) (ring_submission_doorbell q1) = Inr (S_OK, q2)"
      "ring_doorbell_single_completion q2 = Inr q3" "admin_at 2 q3"
    using admin_step [OF assms(1), of "slots 0" "fill_identify (prps 0) 0"] assms(5) by (force simp: numeral_2_eq_2)
  obtain d1 where d1: "check_controller_result (slots 0) (pages 0) (admin_cid 2) (ring_submission_doorbell q1) d = Inr (S_OK, q2, d1)"
      "unat (ident_nn d1) = N"
    using check_controller_at [OF step(2) assms(2)] assms(3) by blast
  obtain q' d' where "identify_namespaces slots pages prps 1 q3 d1 = Some (Inr (Some (q', d')))" "admin_at (N + 2) q'"
    using identify_namespaces_at [of 1 q3 d1 N slots pages prps] step(4) d1(2) assms(4,5) by (auto simp: numeral_2_eq_2)
  then show ?thesis
    using step d1 by (simp add: issue_identify_device_def submit_def Command_admin_identify_def)
qed

section \<open>Reset and start-up of a controller that responds\<close>

definition enabled :: "NVME_register_map \<times> 'd \<Rightarrow> NVME_register_map \<times> 'd" where
  "enabled w = (cc_enable (set_cc 0x460001 (fst w)), snd w)"

text \<open>The controller becomes ready at the \<open>k\<close>-th tick and stays ready.\<close>

definition ready_at :: "(NVME_register_map \<times> 'd \<Rightarrow> NVME_register_map \<times> 'd) \<Rightarrow> nat \<Rightarrow> NVME_register_map \<times> 'd \<Rightarrow> bool" where
  "ready_at step k w \<longleftrightarrow> (\<forall>j. if j < k then csts_ready (fst ((step ^^ j) w)) = 0 else reg_csts (fst ((step ^^ j) w)) = 1)"

lemma wait_ready_steps:
  assumes "ready_at step k w"
  shows "wait_ready step attempts ((step ^^ i) w) = (step ^^ (min (max (Suc i) k) (Suc (i + attempts)))) w"
proof (induction attempts arbitrary: i)
  case 0
  then show ?case by simp
next
  case (Suc attempts)
  have "csts_ready (fst ((step ^^ Suc i) w)) = 0 \<longleftrightarrow> Suc i < k"
    using assms [unfolded ready_at_def, rule_format, of "Suc i"]
    by (auto simp: csts_ready_def NVME_CSTS_RDY_def split: if_splits)
  moreover have "max (Suc i) k = max (Suc (Suc i)) k" if "Suc i < k" using that by simp
  ultimately show ?case using Suc [of "Suc i"] by (cases "Suc i < k") (simp_all add: Let_def)
qed

lemma bring_up_steps:
  assumes "ready_at (tick E) k (enabled w)"
  shows "bring_up E w = (if k \<le> unat (timeout (fst w)) + 2
    then returns ((tick E ^^ (min (max 1 k) (unat (timeout (fst w)) + 1) + 2)) (enabled w)) else Some (Inr Threw))"
proof -
  let ?t = "unat (timeout (fst w))"
  define S where "S j = (tick E ^^ j) (enabled w)" for j
  define J where "J = min (max 1 k) (?t + 1)"
  have S: "tick E (S j) = S (Suc j)" for j by (simp add: S_def)
  have t: "timeout (fst (enabled w)) = timeout (fst w)" by (simp add: enabled_def timeout_def cc_enable_def set_cc_def)
  have J: "wait_ready (tick E) ?t (enabled w) = S J" using wait_ready_steps [OF assms, of ?t 0] by (simp add: S_def J_def)
  have at: "csts_ready (fst (S i)) = 0 \<longleftrightarrow> i < k" "k \<le> i \<Longrightarrow> reg_csts (fst (S i)) = 1" for i
    using assms [unfolded ready_at_def, rule_format, of i] by (auto simp: csts_ready_def NVME_CSTS_RDY_def S_def split: if_splits)
  have "bring_up E w = (if csts_ready (fst (S (Suc J))) = 0 then Some (Inr Threw)
      else assures (reg_csts (fst (S (Suc (Suc J)))) = 1) Assertion (returns (S (Suc (Suc J)))))"
    unfolding bring_up_def Let_def enabled_def [symmetric] t J S ..
  moreover have "Suc J < k \<longleftrightarrow> \<not> k \<le> ?t + 2" by (auto simp: J_def)
  ultimately show ?thesis
    using at(1) [of "Suc J"] at(2) [of "Suc (Suc J)"] unfolding J_def [symmetric]
    by (cases "Suc J < k") (simp_all add: S_def [symmetric] del: funpow.simps)
qed

lemma wait_disabled_ends:
  assumes "csts_ready (fst ((step ^^ k) (step w))) = 0"
  shows "\<exists>j. wait_disabled step w = Some ((step ^^ Suc j) w) \<and> csts_ready (fst ((step ^^ Suc j) w)) = 0"
  using assms
proof (induction k arbitrary: w)
  case 0
  then show ?case by (subst wait_disabled.simps) (auto intro: exI [of _ 0])
next
  case (Suc k)
  show ?case
  proof (cases "csts_ready (fst (step w)) = 0")
    case True
    then show ?thesis by (subst wait_disabled.simps) (auto intro: exI [of _ 0])
  next
    case False
    obtain j where "wait_disabled step (step w) = Some ((step ^^ Suc j) (step w))" "csts_ready (fst ((step ^^ Suc j) (step w))) = 0"
      using Suc.IH [of "step w"] Suc.prems by (auto simp: funpow_swap1)
    then show ?thesis using False
      by (subst wait_disabled.simps) (auto simp: funpow_swap1 intro!: exI [of _ "Suc j"])
  qed
qed

text \<open>
  What the driver relies on: the controller does not change its capabilities, is at some time no longer ready when it
  is disabled, and at some time ready when it is enabled.
\<close>

definition responsive :: "'d nvme_env \<Rightarrow> bool" where
  "responsive E \<longleftrightarrow> (\<forall>w. reg_cap (fst (tick E w)) = reg_cap (fst w)) \<and>
     (\<forall>w. \<not> bit (reg_cc (fst w)) 0 \<longrightarrow> (\<exists>k. csts_ready (fst ((tick E ^^ k) (tick E w))) = 0)) \<and>
     (\<forall>w. bit (reg_cc (fst w)) 0 \<and> csts_ready (fst w) = 0 \<longrightarrow> (\<exists>k. ready_at (tick E) k w))"

text \<open>
  The controller and its registers when a reset with the admin vector \<open>v\<close> has enabled it; \<open>ready_after\<close> says at which
  reading of the status after that it is ready.
\<close>

definition reset_state :: "'d nvme_env \<Rightarrow> u32 \<Rightarrow> NVME_register_map \<times> 'd \<Rightarrow> (NVME_register_map \<times> 'd) option" where
  "reset_state E v w = (case wait_disabled (tick E) (cc_disable (fst w), snd w) of None \<Rightarrow> None
     | Some u \<Rightarrow> (case NVME_admin_queue (admin_batches E) (fst (admin_pages E)) (snd (admin_pages E)) v (fst u) of Inl e \<Rightarrow> None
        | Inr (q, reg) \<Rightarrow> Some (enabled (reg, snd u))))"

definition ready_after :: "'d nvme_env \<Rightarrow> u32 \<Rightarrow> NVME_register_map \<times> 'd \<Rightarrow> nat \<Rightarrow> bool" where
  "ready_after E v w k \<longleftrightarrow> (\<exists>e. reset_state E v w = Some e \<and> ready_at (tick E) k e)"

lemma responsiveD:
  assumes "responsive E"
  shows "reg_cap (fst ((tick E ^^ k) w)) = reg_cap (fst w)"
    "\<not> bit (reg_cc (fst w)) 0 \<Longrightarrow> \<exists>k. csts_ready (fst ((tick E ^^ k) (tick E w))) = 0"
    "bit (reg_cc (fst w)) 0 \<Longrightarrow> csts_ready (fst w) = 0 \<Longrightarrow> \<exists>k. ready_at (tick E) k w"
proof -
  have "reg_cap (fst (tick E w)) = reg_cap (fst w)" for w using assms unfolding responsive_def by blast
  then show "reg_cap (fst ((tick E ^^ k) w)) = reg_cap (fst w)" by (induction k) simp_all
qed (use assms in \<open>unfold responsive_def, blast+\<close>)

lemma hw_reset_runs:
  assumes "responsive E" "msi_vectors d = v # vs" "v \<noteq> 0" "fst (admin_pages E) AND 0xfff = 0" "snd (admin_pages E) AND 0xfff = 0"
  shows "\<exists>k. ready_after E v (controller d) k \<and> (if k \<le> unat (timeout (fst (controller d))) + 2
    then \<exists>w a. hw_reset E d = returns (d\<lparr>controller := w, admin_queues := Some a, routes := routes d @ [route_interrupt v 0]\<rparr>) \<and>
      reg_cap (fst w) = reg_cap (fst (controller d)) \<and> reg_csts (fst w) = 1 \<and> admin_at 0 a
    else hw_reset E d = Some (Inr Threw))"
proof -
  let ?w = "(cc_disable (fst (controller d)), snd (controller d))"
  have "\<not> bit (reg_cc (fst ?w)) 0" by (simp add: cc_disable_def bit_simps)
  from responsiveD(2) [OF assms(1) this] obtain l where "csts_ready (fst ((tick E ^^ l) (tick E ?w))) = 0" by blast
  from wait_disabled_ends [OF this] obtain j where
    j: "wait_disabled (tick E) ?w = Some ((tick E ^^ Suc j) ?w)" "csts_ready (fst ((tick E ^^ Suc j) ?w)) = 0" by blast
  define u where "u = (tick E ^^ Suc j) ?w"
  have u: "reg_cap (fst u) = reg_cap (fst (controller d))"
    using responsiveD(1) [OF assms(1), of "Suc j" ?w] unfolding u_def by (simp add: cc_disable_def del: funpow.simps)
  obtain q reg where q: "NVME_admin_queue (admin_batches E) (fst (admin_pages E)) (snd (admin_pages E)) v (fst u) = Inr (q, reg)"
      "admin_at 0 (setup_doorbells reg q)" "reg_cap reg = reg_cap (fst u)" "reg_csts reg = reg_csts (fst u)"
    using assms(4,5) by (simp add: NVME_admin_queue_def Let_def NVME_queues_base_def admin_at_def admin_ok_def sq_ok_def sq_used_def cq_size_def
        Admin_queue_len_def set_acq_base_def set_asq_base_def set_acqs_def set_asqs_def setup_doorbells_def admin_cid_def)
  define e where "e = enabled (reg, snd u)"
  have e: "bit (reg_cc (fst e)) 0" "csts_ready (fst e) = 0" "reg_cap (fst e) = reg_cap reg"
    using q(4) j(2) unfolding u_def [symmetric]
    by (simp_all add: e_def enabled_def cc_enable_def set_cc_def csts_ready_def bit_simps)
  have t: "timeout reg = timeout (fst (controller d))" using q(3) u by (simp add: timeout_def)
  obtain k where k: "ready_at (tick E) k e" using responsiveD(3) [OF assms(1) e(1,2)] by blast
  have after: "ready_after E v (controller d) k"
    using j(1) q(1) k by (simp add: ready_after_def reset_state_def e_def u_def)
  have run: "hw_reset E d = continue (bring_up E (reg, snd u)) (\<lambda>w. returns (d\<lparr>controller := w,
      admin_queues := Some (setup_doorbells reg q), routes := routes d @ [route_interrupt v 0]\<rparr>))"
    using j(1) assms(2,3) q(1) unfolding u_def [symmetric] by (simp add: hw_reset_def word_neq_0_conv)
  define J where "J = min (max 1 k) (unat (timeout reg) + 1) + 2"
  have up: "bring_up E (reg, snd u) = (if k \<le> unat (timeout reg) + 2 then returns ((tick E ^^ J) e) else Some (Inr Threw))"
    using bring_up_steps [of E k "(reg, snd u)"] k by (simp add: e_def J_def)
  have "reg_csts (fst ((tick E ^^ J) e)) = 1" if "k \<le> unat (timeout reg) + 2"
  proof -
    have "k \<le> J" using that by (simp add: J_def)
    then show ?thesis using k by (simp add: ready_at_def)
  qed
  moreover have "reg_cap (fst ((tick E ^^ J) e)) = reg_cap (fst (controller d))"
    using responsiveD(1) [OF assms(1)] e(3) q(3) u by simp
  ultimately have "\<exists>w a. hw_reset E d = returns (d\<lparr>controller := w, admin_queues := Some a, routes := routes d @ [route_interrupt v 0]\<rparr>) \<and>
      reg_cap (fst w) = reg_cap (fst (controller d)) \<and> reg_csts (fst w) = 1 \<and> admin_at 0 a"
    if "k \<le> unat (timeout (fst (controller d))) + 2"
    using that q(2) unfolding run up t by (intro exI conjI) (simp only: if_True attempt_simps, simp_all)
  moreover have "hw_reset E d = Some (Inr Threw)" if "\<not> k \<le> unat (timeout (fst (controller d))) + 2"
    unfolding run up t if_not_P [OF that] by simp
  ultimately show ?thesis using after by (intro exI [of _ k]) simp
qed

lemma route_vectors_returns:
  assumes "\<forall>i\<in>set is. 0 < i \<and> i < length (msi_vectors d) \<and> i \<le> length (core_qid_mappings (config d)) \<and> i < 2 ^ 32"
  shows "route_vectors is d = Inr (d\<lparr>routes := routes d @
    map (\<lambda>i. route_interrupt (msi_vectors d ! i) (snd (core_qid_mappings (config d) ! (i - 1)))) is\<rparr>)"
  using assms
proof (induction "is" arbitrary: d)
  case (Cons i is')
  then obtain j where j: "i = Suc j" "j < length (core_qid_mappings (config d))" "j < 2 ^ 32" "i < length (msi_vectors d)"
    by (cases i) auto
  then have "unat (of_nat j :: u32) = j" by (simp add: unat_of_nat)
  then have "route_vector d i = Inr (route_interrupt (msi_vectors d ! i) (snd (core_qid_mappings (config d) ! (i - 1))))"
    using j by (simp add: route_vector_def get_core_def)
  then show ?case using Cons by simp
qed simp

text \<open>The queue the start-up creates at index \<open>j\<close>, and what the controller and the kernel have to provide for it.\<close>

definition new_queue :: "'d nvme_env \<Rightarrow> u32 \<Rightarrow> NVME_register_map \<Rightarrow> u32 \<Rightarrow> nat \<Rightarrow> nvme_queue" where
  "new_queue E len r v j = setup_doorbells r ((NVME_queues_base (queue_batches E j) (of_nat (j + 1)) v (ucast len))
     \<lparr>sub_cmd := replicate (unat len) (replicate 64 0), comp_cmd := replicate (unat len) zero_completion\<rparr>)"

definition queue_supported :: "'d nvme_env \<Rightarrow> nat \<Rightarrow> nat \<Rightarrow> bool" where
  "queue_supported E b j \<longleftrightarrow> answers (create_slots E j 0) (b + 2 * j + 1) \<and> answers (create_slots E j 1) (b + 2 * j + 2) \<and>
     fst (queue_pages E j) \<noteq> 0 \<and> fst (queue_pages E j) AND 0xfff = 0 \<and> snd (queue_pages E j) \<noteq> 0 \<and> snd (queue_pages E j) AND 0xfff = 0"

lemma create_queue_runs:
  assumes "admin_queues d = Some a" "admin_at (b + 2 * i) a" "Suc i < 2 ^ 32" "i + 1 < length (msi_vectors d)"
    "msi_vectors d ! (i + 1) \<noteq> 0" "i < length (core_qid_mappings (config d))"
    "sint (snd (core_qid_mappings (config d) ! i)) < online_cpus E" "len \<noteq> 0" "queue_supported E b i"
  shows "\<exists>a'. create_queue E len i d = assures (i < length (io_queues d)) Out_of_range
      (returns (d\<lparr>admin_queues := Some a', io_queues := (io_queues d)
        [i := Some (new_queue E len (fst (controller d)) (msi_vectors d ! (i + 1)) i, snd (core_qid_mappings (config d) ! i))]\<rparr>)) \<and>
    admin_at (b + 2 * (i + 1)) a'"
proof -
  have len: "(ucast (ucast len :: u64) :: u32) = len" by (rule bit_word_eqI) (simp add: bit_simps)
  have pos: "(ucast len :: u64) > 0" using assms(8) unat_ucast_u64 [of len] by (simp add: word_less_nat_alt word_unat_eq_iff)
  have i: "unat (of_nat i :: u32) = i" "(0 :: u32) < of_nat (i + 1)"
    using assms(3) by (simp_all add: unat_of_nat word_less_nat_alt del: of_nat_Suc of_nat_add)
  obtain a' where "NVME_IO_queue (queue_batches E i) (create_slots E i) (of_nat (i + 1)) (msi_vectors d ! (i + 1)) (ucast len)
      (fst (queue_pages E i)) (snd (queue_pages E i)) a =
      Inr (Some ((NVME_queues_base (queue_batches E i) (of_nat (i + 1)) (msi_vectors d ! (i + 1)) (ucast len))
        \<lparr>sub_cmd := replicate (unat len) (replicate 64 0), comp_cmd := replicate (unat len) zero_completion\<rparr>, a'))"
      "admin_at (b + 2 * (i + 1)) a'"
    using NVME_IO_queue_at [OF assms(2), of "create_slots E i" "msi_vectors d ! (i + 1)" "of_nat (i + 1)" "ucast len"
        "fst (queue_pages E i)" "snd (queue_pages E i)" "queue_batches E i"] assms(5,9) len pos i(2)
    by (auto simp: queue_supported_def simp del: of_nat_Suc of_nat_add)
  then show ?thesis
    using assms i(1) by (auto simp: create_queue_def io_queue_get_assigned_core_def CQ_thread_def new_queue_def split_beta
        simp del: of_nat_Suc of_nat_add)
qed

lemma create_queues_returns:
  assumes "admin_queues d = Some a" "admin_at (b + 2 * i) a" "i \<le> n" "n \<le> 32" "n < length (msi_vectors d)"
    "0 \<notin> set (msi_vectors d)" "length (io_queues d) = 32" "n \<le> length (core_qid_mappings (config d))"
    "\<forall>m\<in>set (core_qid_mappings (config d)). sint (snd m) < online_cpus E" "len \<noteq> 0" "\<forall>j < n. queue_supported E b j"
  shows "\<exists>a' qs. create_queues E len [i..<n] d = returns (d\<lparr>admin_queues := Some a', io_queues := qs\<rparr>) \<and>
    admin_at (b + 2 * n) a' \<and> length qs = 32 \<and>
    (\<forall>j < n. qs ! j = (if j < i then io_queues d ! j
      else Some (new_queue E len (fst (controller d)) (msi_vectors d ! (j + 1)) j, snd (core_qid_mappings (config d) ! j))))"
  using assms
proof (induction "n - i" arbitrary: i d a)
  case 0
  then have "d = d\<lparr>admin_queues := Some a, io_queues := io_queues d\<rparr>" "i = n" by simp_all
  with 0 show ?case by (intro exI [of _ a] exI [of _ "io_queues d"]) simp
next
  case (Suc k)
  then have i: "i < n" by simp
  then have nz: "msi_vectors d ! (i + 1) \<noteq> 0" "sint (snd (core_qid_mappings (config d) ! i)) < online_cpus E"
    using Suc.prems(5,6,8,9) nth_mem [of "i + 1" "msi_vectors d"] nth_mem [of i "core_qid_mappings (config d)"]
    by (auto simp del: nth_mem)
  define x where "x = Some (new_queue E len (fst (controller d)) (msi_vectors d ! (i + 1)) i, snd (core_qid_mappings (config d) ! i))"
  obtain a1 where a1: "create_queue E len i d = returns (d\<lparr>admin_queues := Some a1, io_queues := (io_queues d)[i := x]\<rparr>)"
      "admin_at (b + 2 * Suc i) a1"
    using create_queue_runs [of d a b i E len] Suc.prems i nz unfolding x_def by auto
  define d1 where "d1 = d\<lparr>admin_queues := Some a1, io_queues := (io_queues d)[i := x]\<rparr>"
  have d1: "admin_queues d1 = Some a1" "io_queues d1 = (io_queues d)[i := x]" "msi_vectors d1 = msi_vectors d" "config d1 = config d"
      "controller d1 = controller d" "d1\<lparr>admin_queues := y, io_queues := z\<rparr> = d\<lparr>admin_queues := y, io_queues := z\<rparr>" for y z
    by (simp_all add: d1_def)
  have k: "k = n - Suc i" using Suc.hyps(2) by simp
  obtain a' qs where r: "create_queues E len [Suc i..<n] d1 = returns (d\<lparr>admin_queues := Some a', io_queues := qs\<rparr>)"
      "admin_at (b + 2 * n) a'" "length qs = 32" "\<forall>j < n. qs ! j = (if j < Suc i then (io_queues d)[i := x] ! j
        else Some (new_queue E len (fst (controller d)) (msi_vectors d ! (j + 1)) j, snd (core_qid_mappings (config d) ! j)))"
    using Suc.hyps(1) [OF k, of d1 a1] Suc.prems a1(2) i unfolding d1 by auto
  have "qs ! j = (if j < i then io_queues d ! j
      else Some (new_queue E len (fst (controller d)) (msi_vectors d ! (j + 1)) j, snd (core_qid_mappings (config d) ! j)))"
    if "j < n" for j
    using r(4) that Suc.prems(4,7) i by (auto simp: less_Suc_eq x_def)
  moreover have "create_queues E len [i..<n] d = returns (d\<lparr>admin_queues := Some a', io_queues := qs\<rparr>)"
    using r(1) a1(1) i unfolding d1_def by (simp add: upt_conv_Cons)
  ultimately show ?case using r(2,3) by blast
qed

lemma create_queues_append:
  "create_queues E len (is @ js) d = continue (create_queues E len is d) (create_queues E len js)"
  by (induction "is" arbitrary: d) (auto simp: continue_def returns_def split: option.splits sum.splits call.splits)

text \<open>From the 33rd queue on, the element of the array to assign is behind its end.\<close>

lemma create_queues_overrun:
  assumes "admin_queues d = Some a" "admin_at b a" "32 < n" "n < length (msi_vectors d)"
    "0 \<notin> set (msi_vectors d)" "length (io_queues d) = 32" "n \<le> length (core_qid_mappings (config d))"
    "\<forall>m\<in>set (core_qid_mappings (config d)). sint (snd m) < online_cpus E" "len \<noteq> 0" "\<forall>j < n. queue_supported E b j"
  shows "create_queues E len [0..<n] d = Some (Inl Out_of_range)"
proof -
  obtain a' qs where r: "create_queues E len [0..<32] d = returns (d\<lparr>admin_queues := Some a', io_queues := qs\<rparr>)"
      "admin_at (b + 2 * 32) a'" "length qs = 32"
    using create_queues_returns [of d a b 0 32 E len] assms by auto
  let ?d = "d\<lparr>admin_queues := Some a', io_queues := qs\<rparr>"
  have "msi_vectors d ! (32 + 1) \<noteq> 0" "sint (snd (core_qid_mappings (config d) ! 32)) < online_cpus E"
    using assms(3-5,7,8) nth_mem [of "32 + 1" "msi_vectors d"] nth_mem [of 32 "core_qid_mappings (config d)"]
    by (auto simp del: nth_mem)
  then have "create_queue E len 32 ?d = Some (Inl Out_of_range)"
    using create_queue_runs [of ?d a' b 32 E len] assms r(2,3) by (auto simp: assures_def)
  moreover have "[0..<n] = [0..<32] @ 32 # [33..<n]"
    using assms(3) upt_add_eq_append [of 0 32 "n - 32"] upt_conv_Cons [of 32 n] by simp
  ultimately show ?thesis using r(1) by (simp add: create_queues_append)
qed

lemma add_children_queues:
  assumes "add_children nprocs cs c = Inr c'" "num_queues c = of_nat (length (core_qid_mappings c))"
  shows "num_queues c' = of_nat (length (core_qid_mappings c')) \<and> config_queue_len c' = config_queue_len c"
  using assms
proof (induction nprocs cs c rule: add_children.induct)
  case (2 nprocs name qid core cs c)
  then obtain c1 where "add_children nprocs cs c1 = Inr c'" "num_queues c1 = of_nat (length (core_qid_mappings c1))"
      "config_queue_len c1 = config_queue_len c"
      "(if name = ''Completion_queue'' then add_IO_queue nprocs qid core c
          else if name = ''Submission_queue'' then add_sub_queue nprocs qid core c else Inl Assertion) = Inr c1"
    by (auto simp: outcome_iffs add_IO_queue_def add_sub_queue_def split: if_splits)
  then show ?case using 2(1) by simp
qed simp

lemma parse_config_queues:
  assumes "parse_config nprocs doc = Inr (Returned c)"
  shows "unat (num_queues c) \<le> length (core_qid_mappings c)"
proof -
  obtain cs n where "add_children nprocs cs (new_config\<lparr>config_queue_len := n\<rparr>) = Inr c"
    using assms by (auto simp: parse_config_def outcome_iffs split: option.splits)
  from add_children_queues [OF this] have "num_queues c = of_nat (length (core_qid_mappings c))" by (simp add: new_config_def)
  then show ?thesis by (simp add: unat_of_nat)
qed

text \<open>
  What the start-up of \<open>n\<close> queues needs from a controller with \<open>N\<close> namespaces and from the kernel: the controller
  responds, has MSI-X enabled and completes every admin command in turn; the pages are aligned and the vectors not 0.
  With the maximal number of namespaces the loop over them does not end.
\<close>

definition startup_supported :: "'d nvme_env \<Rightarrow> nat \<Rightarrow> nat \<Rightarrow> bool" where
  "startup_supported E N n \<longleftrightarrow> responsive E \<and> fst (admin_pages E) AND 0xfff = 0 \<and> snd (admin_pages E) AND 0xfff = 0 \<and>
     bit (msix_control E) 15 \<and> answers (queue_num_slot E) 1 \<and> good_page (identify_pages E 0) \<and> namespaces (identify_pages E 0) = N \<and>
     (\<forall>j \<le> N. answers (identify_slots E j) (j + 2)) \<and> (\<forall>j < n. queue_supported E (N + 2) j) \<and> N < 2 ^ 32 - 1 \<and>
     length (allocated_vectors E (of_nat n + 1)) = n + 1 \<and> 0 \<notin> set (allocated_vectors E (of_nat n + 1))"

lemma identify_controller_returns:
  assumes "admin_queues d = Some a" "admin_at 0 a" "startup_supported E N n"
  shows "\<exists>a' info. identify_controller E d = returns (d\<lparr>admin_queues := Some a', ident := info\<rparr>) \<and> admin_at (N + 2) a'"
proof -
  have s: "answers (queue_num_slot E) 1" "good_page (identify_pages E 0)" "namespaces (identify_pages E 0) = N" "N < 2 ^ 32 - 1"
      "\<forall>j \<le> N. answers (identify_slots E j) (j + 2)" "bit (msix_control E) 15"
    using assms(3) by (simp_all add: startup_supported_def)
  obtain a1 where a1: "set_queue_num (queue_num_slot E) (num_io_queues d) a = Inr (Some (S_OK, a1))" "admin_at 1 a1"
    using set_queue_num_at [OF assms(2), of "queue_num_slot E" "num_io_queues d"] s(1) by auto
  obtain a2 info where "issue_identify_device (identify_slots E) (identify_pages E) (identify_prps E) a1 (ident d) = Some (Inr (Some (a2, info)))"
      "admin_at (N + 2) a2"
    using identify_at [of a1 "identify_pages E" N "identify_slots E" "identify_prps E" "ident d"] a1(2) s(2-5) by blast
  moreover have "msix_control E AND push_bit 15 1 \<noteq> 0" using s(6) by (metis and_exp_eq_0_iff_not_bit push_bit_of_1)
  ultimately have "identify_controller E d = returns (d\<lparr>admin_queues := Some a2, ident := info\<rparr>)"
    using assms(1) a1(1) by (simp add: identify_controller_def)
  then show ?thesis using \<open>admin_at (N + 2) a2\<close> by blast
qed

lemma limited_pos: "len \<noteq> 0 \<Longrightarrow> limited_queue_len len r \<noteq> 0"
proof -
  have "unat (ucast (mqes r) + 1 :: u32) = unat (mqes r) + 1"
    using unat_bound [of "mqes r"] by (simp add: unat_word_ariths unsigned_ucast_eq take_bit_nat_eq_self)
  then show "len \<noteq> 0 \<Longrightarrow> limited_queue_len len r \<noteq> 0" by (auto simp: limited_queue_len_def)
qed

text \<open>The device behind the identification, in a start-up that began with \<open>d\<close>.\<close>

definition identified :: "'d nvme_env \<Rightarrow> nat \<Rightarrow> nat \<Rightarrow> 'd nvme_device \<Rightarrow> 'd nvme_device \<Rightarrow> bool" where
  "identified E N n d d' \<longleftrightarrow> (\<exists>a. admin_queues d' = Some a \<and> admin_at (N + 2) a) \<and> msi_vectors d' = allocated_vectors E (of_nat n + 1) \<and>
     io_queues d' = io_queues d \<and> config d' = config d \<and> num_io_queues d' = of_nat n \<and>
     reg_cap (fst (controller d')) = reg_cap (fst (controller d)) \<and> reg_csts (fst (controller d')) = 1 \<and>
     (\<forall>j < n. route_interrupt (allocated_vectors E (of_nat n + 1) ! (j + 1)) (snd (core_qid_mappings (config d) ! j)) \<in> set (routes d'))"

lemma nvme_init_device_runs:
  assumes "startup_supported E N n" "check_registers (fst (controller d)) = Inr ()" "n < 2 ^ 32 - 1" "num_queues (config d) = of_nat n"
    "n \<le> length (core_qid_mappings (config d))" "routes d = []"
  shows "\<exists>k. ready_after E (hd (allocated_vectors E (of_nat n + 1))) (controller d) k \<and>
    (if k \<le> unat (timeout (fst (controller d))) + 2
     then \<exists>d'. identified E N n d d' \<and> nvme_init_device E d = assures ((of_nat n :: u32) < 64) Assertion
       (create_queues E (limited_queue_len (config_queue_len (config d)) (fst (controller d))) [0..<n] d')
     else nvme_init_device E d = Some (Inr Threw))"
proof -
  let ?vs = "allocated_vectors E (of_nat n + 1)" and ?ms = "core_qid_mappings (config d)"
  have s: "responsive E" "fst (admin_pages E) AND 0xfff = 0" "snd (admin_pages E) AND 0xfff = 0" "length ?vs = n + 1" "0 \<notin> set ?vs"
    using assms(1) by (simp_all add: startup_supported_def)
  have n: "unat (of_nat n :: u32) = n" "unat (of_nat n + 1 :: u32) = Suc n"
    using assms(3) by (simp_all add: unat_of_nat unat_word_ariths)
  obtain v vs where vs: "?vs = v # vs" "v \<noteq> 0" using s(4,5) by (cases ?vs) auto
  let ?r = "map (\<lambda>i. route_interrupt (?vs ! i) (snd (?ms ! (i - 1)))) [1..<Suc n]"
  define d1 where "d1 = d\<lparr>num_io_queues := of_nat n, msi_vectors := ?vs\<rparr>"
  have "\<forall>i\<in>set [1..<Suc n]. 0 < i \<and> i < length (msi_vectors d1) \<and> i \<le> length (core_qid_mappings (config d1)) \<and> i < 2 ^ 32"
    using s(4) assms(3,5) by (auto simp: d1_def)
  from route_vectors_returns [OF this] have r: "route_vectors [1..<Suc n] d1 = Inr (d1\<lparr>routes := ?r\<rparr>)"
    using assms(6) by (simp add: d1_def del: upt_Suc)
  define d2 where "d2 = d1\<lparr>routes := ?r\<rparr>"
  have d2: "msi_vectors d2 = v # vs" "controller d2 = controller d" "routes d2 = ?r" "io_queues d2 = io_queues d" "config d2 = config d"
      "num_io_queues d2 = of_nat n"
    using vs(1) by (simp_all add: d2_def d1_def del: upt_Suc)
  define rest where "rest = (\<lambda>d3. continue (identify_controller E d3) (\<lambda>d4. assures ((of_nat n :: u32) < 64) Assertion
    (create_queues E (limited_queue_len (config_queue_len (config d4)) (fst (controller d4))) [0..<n] d4)))"
  have "?vs \<noteq> []" using vs(1) by simp
  then have run: "nvme_init_device E d = continue (hw_reset E d2) rest"
    using assms(2,4) n r unfolding rest_def d1_def [symmetric] d2_def
    by (simp add: nvme_init_device_def Let_def d1_def [symmetric] del: upt_Suc)
  from hw_reset_runs [OF s(1) d2(1) vs(2) s(2,3), unfolded d2(2)]
  obtain k where k: "ready_after E v (controller d) k" "if k \<le> unat (timeout (fst (controller d))) + 2
    then \<exists>w a. hw_reset E d2 = returns (d2\<lparr>controller := w, admin_queues := Some a, routes := routes d2 @ [route_interrupt v 0]\<rparr>) \<and>
      reg_cap (fst w) = reg_cap (fst (controller d)) \<and> reg_csts (fst w) = 1 \<and> admin_at 0 a
    else hw_reset E d2 = Some (Inr Threw)"
    by (elim exE conjE)
  have "\<exists>d'. identified E N n d d' \<and> nvme_init_device E d = assures ((of_nat n :: u32) < 64) Assertion
       (create_queues E (limited_queue_len (config_queue_len (config d)) (fst (controller d))) [0..<n] d')"
    if le: "k \<le> unat (timeout (fst (controller d))) + 2"
  proof -
    from k(2) [unfolded if_P [OF le]] obtain w a where h:
        "hw_reset E d2 = returns (d2\<lparr>controller := w, admin_queues := Some a, routes := routes d2 @ [route_interrupt v 0]\<rparr>)"
        "reg_cap (fst w) = reg_cap (fst (controller d))" "reg_csts (fst w) = 1" "admin_at 0 a"
      by (elim exE conjE)
    define d3 where "d3 = d2\<lparr>controller := w, admin_queues := Some a, routes := routes d2 @ [route_interrupt v 0]\<rparr>"
    have "admin_queues d3 = Some a" by (simp add: d3_def)
    from identify_controller_returns [OF this h(4) assms(1)] obtain a1 info where
      i: "identify_controller E d3 = returns (d3\<lparr>admin_queues := Some a1, ident := info\<rparr>)" "admin_at (N + 2) a1" by blast
    define d4 where "d4 = d3\<lparr>admin_queues := Some a1, ident := info\<rparr>"
    have d4: "admin_queues d4 = Some a1" "msi_vectors d4 = ?vs" "io_queues d4 = io_queues d" "config d4 = config d" "controller d4 = w"
        "num_io_queues d4 = of_nat n" "routes d4 = ?r @ [route_interrupt v 0]"
      using d2 vs(1) by (simp_all add: d4_def d3_def del: upt_Suc)
    have "route_interrupt (?vs ! (j + 1)) (snd (?ms ! j)) \<in> set (routes d4)" if "j < n" for j
      unfolding d4(7) using that by (auto simp del: upt_Suc intro!: image_eqI [of _ _ "Suc j"])
    then have "identified E N n d d4" using d4 i(2) h(2,3) by (simp add: identified_def)
    moreover have "limited_queue_len l (fst w) = limited_queue_len l (fst (controller d))" for l
      using h(2) by (simp add: limited_queue_len_def mqes_def)
    then have "nvme_init_device E d = assures ((of_nat n :: u32) < 64) Assertion
       (create_queues E (limited_queue_len (config_queue_len (config d)) (fst (controller d))) [0..<n] d4)"
      using i(1) d4(4,5) unfolding run h(1) d3_def [symmetric] rest_def d4_def [symmetric] by simp
    ultimately show ?thesis by blast
  qed
  moreover have "nvme_init_device E d = Some (Inr Threw)" if "\<not> k \<le> unat (timeout (fst (controller d))) + 2"
    using k(2) unfolding if_not_P [OF that] run by simp
  ultimately show ?thesis using k(1) vs(1) by (intro exI [of _ k]) simp
qed

lemma ex_if_mono:
  "\<exists>k. R k \<and> (if C k then P else Q) \<Longrightarrow> (P \<Longrightarrow> P') \<Longrightarrow> (Q \<Longrightarrow> Q') \<Longrightarrow> \<exists>k. R k \<and> (if C k then P' else Q')"
  by (auto split: if_splits)

lemma ex_if_true: "\<exists>k. R k \<and> (if C k then P else Q) \<Longrightarrow> (\<And>k. R k \<Longrightarrow> C k) \<Longrightarrow> P"
  by (auto split: if_splits)

lemma NVME_device_runs:
  assumes "parse_config (online_cpus E) doc = Inr (Returned c)" "num_queues c = of_nat n" "n < 2 ^ 32 - 1" "config_queue_len c \<noteq> 0"
    "check_registers (fst w) = Inr ()" "startup_supported E N n"
  shows "n \<le> length (core_qid_mappings c)" "\<exists>k. ready_after E (hd (allocated_vectors E (of_nat n + 1))) w k \<and>
    (if k \<le> unat (timeout (fst w)) + 2
     then \<exists>d0 d a len. identified E N n d0 d \<and> controller d0 = w \<and> config d0 = c \<and> length (io_queues d0) = 32 \<and>
       admin_queues d = Some a \<and> admin_at (N + 2) a \<and> len = limited_queue_len (config_queue_len c) (fst w) \<and> len \<noteq> 0 \<and>
       NVME_device E doc info w = assures ((of_nat n :: u32) < 64) Assertion (create_queues E len [0..<n] d)
     else NVME_device E doc info w = Some (Inr Threw))"
proof -
  let ?d = "\<lparr>controller = w, admin_queues = None, msi_vectors = [], io_queues = replicate CONFIG_MAX_IO_QUEUES None, num_io_queues = 0,
    config = c, ident = info, routes = []\<rparr>"
  have "unat (of_nat n :: u32) = n" using assms(3) by (simp add: unat_of_nat)
  then show len: "n \<le> length (core_qid_mappings c)" using parse_config_queues [OF assms(1)] assms(2) by simp
  have new: "NVME_device E doc info w = nvme_init_device E ?d" using assms(1) by (simp add: NVME_device_def continue_def)
  have d: "controller ?d = w" "config ?d = c" "length (io_queues ?d) = 32" "routes ?d = []" by (simp_all add: CONFIG_MAX_IO_QUEUES_def)
  obtain k where k: "ready_after E (hd (allocated_vectors E (of_nat n + 1))) w k" "if k \<le> unat (timeout (fst w)) + 2
     then \<exists>d'. identified E N n ?d d' \<and> nvme_init_device E ?d = assures ((of_nat n :: u32) < 64) Assertion
       (create_queues E (limited_queue_len (config_queue_len c) (fst w)) [0..<n] d')
     else nvme_init_device E ?d = Some (Inr Threw)"
    using nvme_init_device_runs [of E N n ?d] assms(2,3,5,6) len unfolding d by blast
  have "\<exists>d0 d a len. identified E N n d0 d \<and> controller d0 = w \<and> config d0 = c \<and> length (io_queues d0) = 32 \<and>
       admin_queues d = Some a \<and> admin_at (N + 2) a \<and> len = limited_queue_len (config_queue_len c) (fst w) \<and> len \<noteq> 0 \<and>
       NVME_device E doc info w = assures ((of_nat n :: u32) < 64) Assertion (create_queues E len [0..<n] d)"
    if le: "k \<le> unat (timeout (fst w)) + 2"
  proof -
    from k(2) [unfolded if_P [OF le]] obtain d' where d': "identified E N n ?d d'"
      "nvme_init_device E ?d = assures ((of_nat n :: u32) < 64) Assertion
       (create_queues E (limited_queue_len (config_queue_len c) (fst w)) [0..<n] d')"
      by (elim exE conjE)
    moreover obtain a where "admin_queues d' = Some a" "admin_at (N + 2) a" using d'(1) unfolding identified_def by blast
    ultimately show ?thesis using d(1-3) limited_pos [OF assms(4)] unfolding new by blast
  qed
  moreover have "NVME_device E doc info w = Some (Inr Threw)" if "\<not> k \<le> unat (timeout (fst w)) + 2"
    unfolding new using k(2) unfolding if_not_P [OF that] .
  ultimately show "\<exists>k. ready_after E (hd (allocated_vectors E (of_nat n + 1))) w k \<and>
    (if k \<le> unat (timeout (fst w)) + 2
     then \<exists>d0 d a len. identified E N n d0 d \<and> controller d0 = w \<and> config d0 = c \<and> length (io_queues d0) = 32 \<and>
       admin_queues d = Some a \<and> admin_at (N + 2) a \<and> len = limited_queue_len (config_queue_len c) (fst w) \<and> len \<noteq> 0 \<and>
       NVME_device E doc info w = assures ((of_nat n :: u32) < 64) Assertion (create_queues E len [0..<n] d)
     else NVME_device E doc info w = Some (Inr Threw))"
    using k(1) by (intro exI [of _ k]) presburger
qed

lemma ucast_ucast_len [simp]: "(ucast (ucast len :: u64) :: u32) = len" for len :: u32
  by (rule bit_word_eqI) (simp add: bit_simps)

lemma new_queue_fields:
  assumes "NVME_CAP_STRIDE (reg_cap r) = 0" "j < 32"
  shows "queue_id (new_queue E len r v j) = of_nat (j + 1)" "q_irq (new_queue E len r v j) = v"
    "queue_max_items (new_queue E len r v j) = len" "length (sub_cmd (new_queue E len r v j)) = unat len"
    "unat (sq_db_offset (new_queue E len r v j)) = 0x1008 + 8 * j" "unat (cq_db_offset (new_queue E len r v j)) = 0x100c + 8 * j"
proof -
  have "unat (of_nat (j + 1) :: u32) = j + 1" using assms(2) by (simp add: unat_of_nat del: of_nat_Suc of_nat_add)
  then have "unat (NVME_OFFSET_SUBMISSION_DB (of_nat (j + 1)) 0) = 0x1008 + 8 * j"
    "unat (NVME_OFFSET_COMPLETION_DB (of_nat (j + 1)) 0) = 0x100c + 8 * j"
    using doorbell_unat [of "of_nat (j + 1)" 0] assms(2) by (simp_all del: of_nat_Suc of_nat_add)
  then show "unat (sq_db_offset (new_queue E len r v j)) = 0x1008 + 8 * j" "unat (cq_db_offset (new_queue E len r v j)) = 0x100c + 8 * j"
    using assms(1) by (simp_all add: new_queue_def setup_doorbells_def NVME_queues_base_def Let_def del: of_nat_Suc of_nat_add)
qed (simp_all add: new_queue_def setup_doorbells_def NVME_queues_base_def Let_def ucast_ucast_len)

section \<open>Properties\<close>

text \<open>
  C8. The device starts. With a configuration of at most 32 queues, cores that exist, registers that pass the checks,
  a controller that responds and completes the admin commands, and a kernel that provides pages and vectors, constructing
  the device ends, and how it ends only depends on when the controller is ready after it was enabled. If that is at the
  \<open>k\<close>-th reading of its status, 50 ms apart, for \<open>k\<close> up to two more than the time-out field of its capabilities, which
  counts units of 500 ms, the constructor returns: the controller is ready, and queue \<open>i + 1\<close> has the interrupt vector
  \<open>i + 1\<close>, routed to the core of its completion thread, the configured length limited by the hardware, and doorbells of
  its own. If it is later, the constructor throws an exception, even when the controller keeps to its time-out.
\<close>

theorem nvme_device_starts:
  assumes "parse_config (online_cpus E) doc = Inr (Returned c)" "num_queues c = of_nat n" "n \<le> 32" "config_queue_len c \<noteq> 0"
    "\<forall>m\<in>set (core_qid_mappings c). sint (snd m) < online_cpus E" "check_registers (fst w) = Inr ()" "startup_supported E N n"
  shows "\<exists>k. ready_after E (hd (allocated_vectors E (of_nat n + 1))) w k \<and> (if k \<le> unat (timeout (fst w)) + 2
    then \<exists>d. NVME_device E doc info w = returns d \<and> unat (num_io_queues d) = n \<and> reg_csts (fst (controller d)) = 1 \<and>
      (\<forall>i < n. \<exists>q core. io_queues d ! i = Some (q, core) \<and> core = snd (core_qid_mappings c ! i) \<and> queue_id q = of_nat (i + 1) \<and>
        q_irq q = allocated_vectors E (of_nat n + 1) ! (i + 1) \<and> route_interrupt (q_irq q) core \<in> set (routes d) \<and>
        queue_max_items q = limited_queue_len (config_queue_len c) (fst w) \<and> length (sub_cmd q) = unat (queue_max_items q) \<and>
        unat (sq_db_offset q) = 0x1008 + 8 * i \<and> unat (cq_db_offset q) = 0x100c + 8 * i)
    else NVME_device E doc info w = Some (Inr Threw))"
proof -
  have n: "n < 2 ^ 32 - 1" "unat (of_nat n :: u32) = n" "(of_nat n :: u32) < 64"
    using assms(3) by (simp_all add: unat_of_nat word_less_nat_alt)
  note runs = NVME_device_runs [OF assms(1,2) n(1) assms(4,6,7)]
  let ?P = "\<lambda>d. unat (num_io_queues d) = n \<and> reg_csts (fst (controller d)) = 1 \<and>
      (\<forall>i < n. \<exists>q core. io_queues d ! i = Some (q, core) \<and> core = snd (core_qid_mappings c ! i) \<and> queue_id q = of_nat (i + 1) \<and>
        q_irq q = allocated_vectors E (of_nat n + 1) ! (i + 1) \<and> route_interrupt (q_irq q) core \<in> set (routes d) \<and>
        queue_max_items q = limited_queue_len (config_queue_len c) (fst w) \<and> length (sub_cmd q) = unat (queue_max_items q) \<and>
        unat (sq_db_offset q) = 0x1008 + 8 * i \<and> unat (cq_db_offset q) = 0x100c + 8 * i)"
  have "\<exists>d. NVME_device E doc info w = returns d \<and> ?P d"
    if d: "identified E N n d0 d" "controller d0 = w" "config d0 = c" "length (io_queues d0) = 32" "admin_queues d = Some a" "admin_at (N + 2) a"
      "len = limited_queue_len (config_queue_len c) (fst w)" "len \<noteq> 0"
      "NVME_device E doc info w = assures ((of_nat n :: u32) < 64) Assertion (create_queues E len [0..<n] d)" for d0 d a len
  proof -
    have i: "msi_vectors d = allocated_vectors E (of_nat n + 1)" "io_queues d = io_queues d0" "config d = c" "num_io_queues d = of_nat n"
        "reg_cap (fst (controller d)) = reg_cap (fst w)" "reg_csts (fst (controller d)) = 1"
        "\<forall>j < n. route_interrupt (allocated_vectors E (of_nat n + 1) ! (j + 1)) (snd (core_qid_mappings c ! j)) \<in> set (routes d)"
      using d(1-3) by (simp_all add: identified_def)
    have s: "length (msi_vectors d) = n + 1" "0 \<notin> set (msi_vectors d)" "\<forall>j < n. queue_supported E (N + 2) j"
      using assms(7) i(1) by (simp_all add: startup_supported_def)
    obtain a' qs where c: "create_queues E len [0..<n] d = returns (d\<lparr>admin_queues := Some a', io_queues := qs\<rparr>)"
        "\<forall>j < n. qs ! j = Some (new_queue E len (fst (controller d)) (msi_vectors d ! (j + 1)) j, snd (core_qid_mappings c ! j))"
      using create_queues_returns [of d a "N + 2" 0 n E len] d(4-8) i(2,3) s assms(3,5) runs(1) by auto
    have "NVME_CAP_STRIDE (reg_cap (fst (controller d))) = 0" using assms(6) i(5) by (simp add: check_registers_exact split: if_splits)
    note f = new_queue_fields [OF this, where E = E]
    have "?P (d\<lparr>admin_queues := Some a', io_queues := qs\<rparr>)" using c(2) i n(2) f assms(3) d(7) by auto
    then show ?thesis using c(1) d(9) n(3) by auto
  qed
  then show ?thesis by (intro ex_if_mono [OF runs(2) [of info]]) blast+
qed

text \<open>
  C38. Too many queues. With more than 32 queues in the configuration, and otherwise as for a start, no device is
  constructed. When the controller gets ready in time, 33 to 63 queues pass the assertion on their number; the first 32
  are created, the commands that create the 33rd are completed, and it is then assigned to an element behind the end of
  the array of 32, which is undefined behaviour. For 64 queues and more, the assertion stops the program, after the controller was
  reset and identified.
\<close>

theorem nvme_queue_overrun:
  assumes "parse_config (online_cpus E) doc = Inr (Returned c)" "num_queues c = of_nat n" "32 < n" "n < 2 ^ 32 - 1" "config_queue_len c \<noteq> 0"
    "\<forall>m\<in>set (core_qid_mappings c). sint (snd m) < online_cpus E" "check_registers (fst w) = Inr ()" "startup_supported E N n"
  shows "\<exists>k. ready_after E (hd (allocated_vectors E (of_nat n + 1))) w k \<and> NVME_device E doc info w =
    (if k \<le> unat (timeout (fst w)) + 2 then Some (Inl (if n < 64 then Out_of_range else Assertion)) else Some (Inr Threw))"
proof -
  have n: "(of_nat n :: u32) < 64 \<longleftrightarrow> n < 64" using assms(4) by (simp add: unat_of_nat word_less_nat_alt)
  note runs = NVME_device_runs [OF assms(1,2,4,5,7,8)]
  have "NVME_device E doc info w = Some (Inl (if n < 64 then Out_of_range else Assertion))"
    if d: "identified E N n d0 d" "controller d0 = w" "config d0 = c" "length (io_queues d0) = 32" "admin_queues d = Some a" "admin_at (N + 2) a"
      "len \<noteq> 0" "NVME_device E doc info w = assures ((of_nat n :: u32) < 64) Assertion (create_queues E len [0..<n] d)" for d0 d a len
  proof -
    have i: "msi_vectors d = allocated_vectors E (of_nat n + 1)" "io_queues d = io_queues d0" "config d = c"
      using d(1-3) by (simp_all add: identified_def)
    have s: "length (msi_vectors d) = n + 1" "0 \<notin> set (msi_vectors d)" "\<forall>j < n. queue_supported E (N + 2) j"
      using assms(8) i(1) by (simp_all add: startup_supported_def)
    have "create_queues E len [0..<n] d = Some (Inl Out_of_range)"
      using create_queues_overrun [OF d(5,6) assms(3)] d(4,7) i(2,3) s assms(6) runs(1) by simp
    then show ?thesis using d(8) n by (simp add: assures_def)
  qed
  then have "\<exists>k. ready_after E (hd (allocated_vectors E (of_nat n + 1))) w k \<and> (if k \<le> unat (timeout (fst w)) + 2
    then NVME_device E doc info w = Some (Inl (if n < 64 then Out_of_range else Assertion)) else NVME_device E doc info w = Some (Inr Threw))"
    by (intro ex_if_mono [OF runs(2) [of info]]) blast+
  then show ?thesis by (simp only: if_distrib [of "\<lambda>x. NVME_device E doc info w = x"])
qed

section \<open>An example\<close>

text \<open>
  A controller with one namespace that is ready as soon as it is enabled and completes every command at once, and
  configurations of up to 99 queues with all completion threads on core 2.
\<close>

definition done_slot :: "nat \<Rightarrow> nat \<Rightarrow> nvme_comp_command_common" where
  "done_slot m j = zero_completion\<lparr>command_id := admin_cid m, phase_tag := if even ((m - 1) div 64) then 1 else 0\<rparr>"

definition id_page :: "nat \<Rightarrow> u8 list" where
  "id_page n = map (\<lambda>i. if i = 512 then 0x66 else if i = 513 then 0x44 else if i = 516 then 1 else 0) [0..<n]"

definition prompt_env :: "unit nvme_env" where
  "prompt_env = \<lparr>tick = (\<lambda>(r, s). (r\<lparr>reg_csts := reg_cc r AND 1\<rparr>, s)), online_cpus = 4,
     allocated_vectors = (\<lambda>k. map (\<lambda>i. of_nat (40 + i)) [0..<unat k]),
     msix_control = 0x8000, admin_pages = (0x1000, 0x2000), admin_batches = [], queue_num_slot = done_slot 1,
     identify_slots = (\<lambda>j. done_slot (j + 2)), identify_pages = (\<lambda>_. id_page 4096),
     identify_prps = (\<lambda>_. 0x3000), create_slots = (\<lambda>j k. done_slot (3 + 2 * j + (k + 1))), delete_slots = (\<lambda>j k. done_slot 0),
     queue_pages = (\<lambda>_. (0x4000, 0x5000)), queue_batches = (\<lambda>_. [])\<rparr>"

definition digit_string :: "nat \<Rightarrow> string" where
  "digit_string i = (if i < 10 then [char_of (48 + i)] else [char_of (48 + i div 10), char_of (48 + i mod 10)])"

definition queue_nodes :: "nat \<Rightarrow> (string \<times> string option \<times> string option) list" where
  "queue_nodes i = [(''Completion_queue'', Some (digit_string i), Some ''2''), (''Submission_queue'', Some (digit_string i), Some ''2'')]"

definition queues_doc :: "nat \<Rightarrow> config_document" where
  "queues_doc n = \<lparr>queue_config_node = Some (Some ''128''), io_queues_node = Some (concat (map queue_nodes [1..<Suc n]))\<rparr>"

definition plain_registers :: NVME_register_map where
  "plain_registers = \<lparr>reg_cap = 0x20000000ff, reg_vs = 0x10000, reg_intms = 0, reg_intmc = 0, reg_cc = 0, reg_csts = 0, reg_aqa_attr = 0,
     reg_asq_base = 0, reg_acq_base = 0\<rparr>"

definition no_info :: device_info where
  "no_info = \<lparr>ident_vid = 0, ident_ssvid = 0, ident_firmware_rev = [], ident_oacs = 0, ident_nn = 0, ns_ident = []\<rparr>"

lemma digit_char:
  fixes d :: nat
  assumes "d < 10"
  shows "is_digit (char_of (48 + d))" "\<not> is_space (char_of (48 + d))" "char_of (48 + d) \<noteq> CHR ''-''" "char_of (48 + d) \<noteq> CHR ''+''"
    "of_char (char_of (48 + d)) = 48 + d"
proof -
  show c: "of_char (char_of (48 + d)) = 48 + d" using assms by (simp add: of_char_of)
  have o: "of_char (CHR '' '') = (32 :: nat)" "of_char (CHR ''-'') = (45 :: nat)" "of_char (CHR ''+'') = (43 :: nat)" by simp_all
  show "is_digit (char_of (48 + d))" "\<not> is_space (char_of (48 + d))" "char_of (48 + d) \<noteq> CHR ''-''" "char_of (48 + d) \<noteq> CHR ''+''"
    using c o assms by (auto simp: is_digit_def is_space_def simp del: of_char_of dest!: arg_cong [of _ _ "of_char :: char \<Rightarrow> nat"])
qed

lemma atoi_digits:
  assumes "i < 100"
  shows "atoi (digit_string i) = Inr (int i)"
proof -
  have "i div 10 < 10" "i mod 10 < 10" "10 * (i div 10) + i mod 10 = i" using assms by simp_all
  then show ?thesis
    using assms digit_char [of i] digit_char [of "i div 10"] digit_char [of "i mod 10"]
    by (auto simp: atoi_def digit_string_def digits_value_def Let_def simp del: of_char_of)
qed

lemma atoi_literals: "atoi ''2'' = Inr 2" "atoi ''128'' = Inr 128" by code_simp+

lemma queue_nodes_added:
  assumes "\<forall>i\<in>set is. i < 100"
  shows "\<exists>c'. add_children 4 (concat (map queue_nodes is)) c = Inr c' \<and> num_queues c' = num_queues c + of_nat (length is) \<and>
    num_sub_queues c' = num_sub_queues c + of_nat (length is) \<and> config_queue_len c' = config_queue_len c \<and>
    core_qid_mappings c' = core_qid_mappings c @ map (\<lambda>i. (of_nat i, 2)) is"
  using assms
proof (induction "is" arbitrary: c)
  case (Cons i is')
  then show ?case
    using Cons.IH [of "c\<lparr>num_queues := num_queues c + 1, core_qid_mappings := core_qid_mappings c @ [(of_nat i, 2)],
      num_sub_queues := num_sub_queues c + 1, sq_qid_core_map := (sq_qid_core_map c)(of_nat i \<mapsto> 2)\<rparr>"]
    by (auto simp: queue_nodes_def add_IO_queue_def add_sub_queue_def atoi_attr_def atoi_digits atoi_literals)
qed simp

lemma queues_parsed:
  assumes "n < 99"
  shows "\<exists>c. parse_config 4 (queues_doc n) = Inr (Returned c) \<and> num_queues c = of_nat n \<and> config_queue_len c = 128 \<and>
    core_qid_mappings c = map (\<lambda>i. (of_nat i, 2)) [1..<Suc n]"
proof -
  have "\<forall>i\<in>set [1..<Suc n]. i < 100" using assms by auto
  from queue_nodes_added [OF this, of "new_config\<lparr>config_queue_len := 128\<rparr>"] show ?thesis
    by (auto simp: parse_config_def queues_doc_def atoi_attr_def atoi_literals new_config_def simp del: upt_Suc)
qed

lemma plain_registers_pass: "check_registers plain_registers = Inr ()"
  by (simp add: check_registers_exact plain_registers_def version_def NVME_CAP_STRIDE_def NVME_CAP_MPSMIN_def)

lemma prompt_ticks: "(tick prompt_env ^^ Suc j) w = ((fst w)\<lparr>reg_csts := reg_cc (fst w) AND 1\<rparr>, snd w)"
  by (induction j) (simp_all add: prompt_env_def split_beta)

lemma prompt_enabled: "bit (reg_cc r) 0 \<Longrightarrow> reg_cc r AND 1 = 1"
  by (simp add: and_one_eq bit_0 odd_iff_mod_2_eq_one)

lemma prompt_responsive: "responsive prompt_env"
proof -
  have "csts_ready (fst (tick prompt_env w)) = 0" if "\<not> bit (reg_cc (fst w)) 0" for w
    using that by (simp add: prompt_env_def split_beta csts_ready_def NVME_CSTS_RDY_def and_one_eq bit_0 even_iff_mod_2_eq_zero)
  then have "\<exists>k. csts_ready (fst ((tick prompt_env ^^ k) (tick prompt_env w))) = 0" if "\<not> bit (reg_cc (fst w)) 0" for w
    using that by (intro exI [of _ 0]) simp
  moreover have "ready_at (tick prompt_env) 1 w" if "bit (reg_cc (fst w)) 0" "csts_ready (fst w) = 0" for w
    using that prompt_ticks [of _ w] prompt_enabled
    by (auto simp: ready_at_def gr0_conv_Suc not_less_eq simp del: funpow.simps split: nat.splits)
  moreover have "reg_cap (fst (tick prompt_env w)) = reg_cap (fst w)" for w by (simp add: prompt_env_def split_beta)
  ultimately show ?thesis unfolding responsive_def by blast
qed

lemma prompt_ready:
  assumes "ready_after prompt_env v w k"
  shows "k \<le> 1"
proof (rule ccontr)
  assume k: "\<not> k \<le> 1"
  obtain e where e: "reset_state prompt_env v w = Some e" "ready_at (tick prompt_env) k e" using assms unfolding ready_after_def by blast
  have "bit (reg_cc (fst e)) 0"
    using e(1) by (auto simp: reset_state_def enabled_def cc_enable_def set_cc_def bit_simps split: option.splits sum.splits)
  then have "reg_csts (fst ((tick prompt_env ^^ Suc 0) e)) = 1" unfolding prompt_ticks by (simp add: prompt_enabled)
  moreover have "csts_ready (fst ((tick prompt_env ^^ Suc 0) e)) = 0"
    using e(2) k unfolding ready_at_def by (metis One_nat_def not_le)
  ultimately show False by (simp add: csts_ready_def NVME_CSTS_RDY_def)
qed

lemma answers_done: "answers (done_slot m) m"
  unfolding answers_def by (intro exI [of _ 0]) (simp add: done_slot_def)

lemma id_positions:
  "field_pos False nvme_id_ctrl ''sqes'' = Some (512, 1)" "field_pos False nvme_id_ctrl ''cqes'' = Some (513, 1)"
  "field_pos False nvme_id_ctrl ''nn'' = Some (516, 4)"
  by (simp_all add: field_pos_def nvme_id_ctrl_def aligned_offset_def)

lemma prompt_page: "good_page (identify_pages prompt_env 0)" "namespaces (identify_pages prompt_env 0) = 1"
proof -
  have "i < n \<Longrightarrow> id_page n ! i = (if i = 512 then 0x66 else if i = 513 then 0x44 else if i = 516 then 1 else 0)" for i n by (simp add: id_page_def)
  then show "good_page (identify_pages prompt_env 0)" "namespaces (identify_pages prompt_env 0) = 1"
    by (simp_all add: good_page_def namespaces_def load_def id_positions prompt_env_def get_le_widths)
qed

lemma prompt_vectors:
  assumes "n < 99"
  shows "length (allocated_vectors prompt_env (of_nat n + 1)) = n + 1" "0 \<notin> set (allocated_vectors prompt_env (of_nat n + 1))"
proof -
  have n: "unat (of_nat n + 1 :: u32) = Suc n" using assms by (simp add: unat_of_nat unat_word_ariths)
  then show "length (allocated_vectors prompt_env (of_nat n + 1)) = n + 1" by (simp add: prompt_env_def)
  have "unat (of_nat (40 + i) :: u32) = 40 + i" if "i < 200" for i using that by (simp add: unat_of_nat del: of_nat_add)
  then have "of_nat (40 + i) \<noteq> (0 :: u32)" if "i < 200" for i using that by (metis unat_0 add_is_0 zero_neq_numeral)
  then show "0 \<notin> set (allocated_vectors prompt_env (of_nat n + 1))" unfolding prompt_env_def using n assms by fastforce
qed

lemma prompt_supported:
  assumes "n < 99"
  shows "startup_supported prompt_env 1 n"
proof -
  have "create_slots prompt_env j 0 = done_slot (1 + 2 + 2 * j + 1)" "create_slots prompt_env j 1 = done_slot (1 + 2 + 2 * j + 2)"
    "identify_slots prompt_env j = done_slot (j + 2)" "queue_num_slot prompt_env = done_slot 1" for j
    by (simp_all add: prompt_env_def) (rule arg_cong [of _ _ done_slot], simp)+
  then have "queue_supported prompt_env (1 + 2) j" "answers (identify_slots prompt_env j) (j + 2)" "answers (queue_num_slot prompt_env) 1" for j
    unfolding queue_supported_def by (simp_all only: answers_done) (simp add: prompt_env_def)
  moreover have "bit (msix_control prompt_env) 15" "fst (admin_pages prompt_env) AND 0xfff = 0" "snd (admin_pages prompt_env) AND 0xfff = 0"
    by (simp_all add: prompt_env_def)
  ultimately show ?thesis
    using prompt_responsive prompt_page prompt_vectors [OF assms] unfolding startup_supported_def by simp
qed

theorem nvme_device_starts_witness:
  "\<exists>d q. NVME_device prompt_env (queues_doc 32) no_info (plain_registers, ()) = returns d \<and> unat (num_io_queues d) = 32 \<and>
     io_queues d ! 31 = Some (q, 2) \<and> queue_max_items q = 128 \<and> route_interrupt 72 2 \<in> set (routes d) \<and>
     unat (sq_db_offset q) = 0x1100 \<and> unat (cq_db_offset q) = 0x1104"
proof -
  have len: "limited_queue_len 128 plain_registers = 128"
    by (simp add: limited_queue_len_def mqes_def NVME_CAP_MQES_def plain_registers_def)
  have e: "online_cpus prompt_env = 4" "allocated_vectors prompt_env (of_nat 32 + 1) ! 32 = 72" by (simp_all add: prompt_env_def)
  obtain c where c: "parse_config 4 (queues_doc 32) = Inr (Returned c)" "num_queues c = of_nat 32" "config_queue_len c = 128"
      "core_qid_mappings c = map (\<lambda>i. (of_nat i, 2)) [1..<Suc 32]"
    using queues_parsed [of 32] by auto
  have m: "\<forall>m\<in>set (core_qid_mappings c). sint (snd m) < 4" "snd (core_qid_mappings c ! 31) = 2" unfolding c(4) by (auto simp del: upt_Suc)
  have le: "k \<le> unat (timeout (fst (plain_registers, ()))) + 2"
    if "ready_after prompt_env (hd (allocated_vectors prompt_env (of_nat 32 + 1))) (plain_registers, ()) k" for k
    using prompt_ready [OF that] by simp
  have "parse_config (online_cpus prompt_env) (queues_doc 32) = Inr (Returned c)" "config_queue_len c \<noteq> 0"
      "\<forall>m\<in>set (core_qid_mappings c). sint (snd m) < online_cpus prompt_env" "check_registers (fst (plain_registers, ())) = Inr ()"
    using c(1,3) m(1) plain_registers_pass e(1) by simp_all
  from ex_if_true [OF nvme_device_starts [OF this(1) c(2) order_refl this(2-4) prompt_supported, of no_info] le]
  obtain d where d: "NVME_device prompt_env (queues_doc 32) no_info (plain_registers, ()) = returns d" "unat (num_io_queues d) = 32"
    and q: "\<forall>i < 32. \<exists>q core. io_queues d ! i = Some (q, core) \<and> core = snd (core_qid_mappings c ! i) \<and> queue_id q = of_nat (i + 1) \<and>
        q_irq q = allocated_vectors prompt_env (of_nat 32 + 1) ! (i + 1) \<and> route_interrupt (q_irq q) core \<in> set (routes d) \<and>
        queue_max_items q = limited_queue_len (config_queue_len c) (fst (plain_registers, ())) \<and> length (sub_cmd q) = unat (queue_max_items q) \<and>
        unat (sq_db_offset q) = 0x1008 + 8 * i \<and> unat (cq_db_offset q) = 0x100c + 8 * i"
    by auto
  have "(31 :: nat) < 32" "31 + 1 = (32 :: nat)" by simp_all
  from q [rule_format, OF this(1), unfolded this(2)] show ?thesis using d e(2) len m(2) c(3) by auto
qed

theorem nvme_queue_overrun_witness:
  "NVME_device prompt_env (queues_doc 33) no_info (plain_registers, ()) = Some (Inl Out_of_range) \<and>
   NVME_device prompt_env (queues_doc 64) no_info (plain_registers, ()) = Some (Inl Assertion)"
proof -
  have "NVME_device prompt_env (queues_doc n) no_info (plain_registers, ()) = Some (Inl (if n < 64 then Out_of_range else Assertion))"
    if n: "32 < n" "n < 99" for n
  proof -
    have cpus: "online_cpus prompt_env = 4" by (simp add: prompt_env_def)
    obtain c where c: "parse_config 4 (queues_doc n) = Inr (Returned c)" "num_queues c = of_nat n" "config_queue_len c = 128"
        "core_qid_mappings c = map (\<lambda>i. (of_nat i, 2)) [1..<Suc n]"
      using queues_parsed [OF n(2)] by auto
    have "\<forall>m\<in>set (core_qid_mappings c). sint (snd m) < 4" unfolding c(4) by (auto simp del: upt_Suc)
    then obtain k where k: "ready_after prompt_env (hd (allocated_vectors prompt_env (of_nat n + 1))) (plain_registers, ()) k"
      "NVME_device prompt_env (queues_doc n) no_info (plain_registers, ()) = (if k \<le> unat (timeout (fst (plain_registers, ()))) + 2
        then Some (Inl (if n < 64 then Out_of_range else Assertion)) else Some (Inr Threw))"
      using nvme_queue_overrun [of prompt_env "queues_doc n" c n "(plain_registers, ())" 1 no_info]
        plain_registers_pass prompt_supported [OF n(2)] c(1-3) n unfolding cpus by auto
    then show ?thesis using prompt_ready [OF k(1)] by simp
  qed
  from this [of 33] this [of 64] show ?thesis by simp
qed

end
