(* ===== verification/XDK_Dma_Slab.thy ===== *)
theory XDK_Dma_Slab
  imports XDK_Contracts
begin

text \<open>
  \<^verbatim>\<open>Exokernel::Slab_allocator\<close> of \<^verbatim>\<open>lib/libexo/exo/memory.h\<close> and \<^verbatim>\<open>lib/libexo/memory.cc\<close>: equal blocks in memory
  a device can access, each with its virtual and its physical address. The array \<^verbatim>\<open>_taken\<close> is a list of flags, a
  pointer into it is an index, and the \<^verbatim>\<open>std::map\<close> from blocks to flags is a map whose \<^verbatim>\<open>operator[]\<close> adds a null
  pointer for a key it does not have. Where the memory of the device comes from is an argument.
\<close>

section \<open>Rounding\<close>

definition PAGE_SIZE :: u64 where
  "PAGE_SIZE = 4096"

definition HUGE_PAGE_SIZE :: u64 where
  "HUGE_PAGE_SIZE = 2 * 1024 * 1024"

definition align_to_huge_page :: "u64 \<Rightarrow> u64" where
  "align_to_huge_page s = (if s mod HUGE_PAGE_SIZE = 0 then s else (s div HUGE_PAGE_SIZE + 1) * HUGE_PAGE_SIZE)"

definition align_to_page :: "u64 \<Rightarrow> u64" where
  "align_to_page s = (if s mod PAGE_SIZE = 0 then s else (s div PAGE_SIZE + 1) * PAGE_SIZE)"

section \<open>The allocator\<close>

record slab_allocator =
  virt_base :: u64
  phys_base :: u64
  taken :: "bool list"
  taken_map :: "u64 \<rightharpoonup> ptr"
  block_size :: u64
  num_entries :: u64

text \<open>\<open>alloc_dma_pages\<close> is the function of the device: the virtual and the physical address of so many pages.\<close>

definition Slab_allocator :: "(u64 \<Rightarrow> u64 \<times> u64) \<Rightarrow> u64 \<Rightarrow> u64 \<Rightarrow> slab_allocator outcome" where
  "Slab_allocator alloc_dma_pages bs n =
     check (0 < n) Assertion
      (case alloc_dma_pages (align_to_page (bs * n) div PAGE_SIZE) of (virt, phys) \<Rightarrow>
        check (virt \<noteq> 0) Assertion (check (phys \<noteq> 0) Assertion
          (Inr \<lparr>virt_base = virt, phys_base = phys, taken = replicate (unat n) False, taken_map = Map.empty,
             block_size = bs, num_entries = n\<rparr>)))"

text \<open>The loop of \<^verbatim>\<open>alloc\<close>; its counter is an \<^verbatim>\<open>unsigned\<close>, the number of blocks a \<^verbatim>\<open>size_t\<close>.\<close>

partial_function (option) first_free :: "u64 \<Rightarrow> bool list \<Rightarrow> u32 \<Rightarrow> u32 option option" where
  "first_free n flags i =
     (if ucast i < n then if \<not> flags ! unat i then Some (Some i) else first_free n flags (i + 1) else Some None)"

text \<open>The function ends without a \<^verbatim>\<open>return\<close> when every block is taken, which C++ leaves undefined.\<close>

definition alloc :: "slab_allocator \<Rightarrow> (u64 \<times> u64 \<times> slab_allocator) outcome option" where
  "alloc s = (case first_free (num_entries s) (taken s) 0 of
     None \<Rightarrow> None
   | Some None \<Rightarrow> Some (Inl Undefined)
   | Some (Some i) \<Rightarrow> (let p = virt_base s + block_size s * ucast i in
       Some (Inr (p, phys_base s + block_size s * ucast i,
         s\<lparr>taken := (taken s)[unat i := True], taken_map := (taken_map s)(p \<mapsto> Some (unat i))\<rparr>))))"

definition free :: "u64 \<Rightarrow> slab_allocator \<Rightarrow> (int \<times> slab_allocator) outcome" where
  "free p s = (let tflag = (case taken_map s p of None \<Rightarrow> None | Some t \<Rightarrow> t) in
     deref tflag (\<lambda>i. Inr (0, s\<lparr>taken := (taken s)[i := False], taken_map := (taken_map s)(p \<mapsto> tflag)\<rparr>)))"

section \<open>Blocks and the invariant\<close>

definition block :: "slab_allocator \<Rightarrow> nat \<Rightarrow> u64" where
  "block s i = virt_base s + block_size s * of_nat i"

definition in_memory :: "slab_allocator \<Rightarrow> u64 \<Rightarrow> bool" where
  "in_memory s base \<longleftrightarrow> unat base + unat (block_size s) * unat (num_entries s) \<le> 2 ^ 64"

definition slab_ok :: "slab_allocator \<Rightarrow> bool" where
  "slab_ok s \<longleftrightarrow> num_entries s < 2 ^ 32 \<and> length (taken s) = unat (num_entries s) \<and> 0 < block_size s \<and>
     in_memory s (virt_base s) \<and> in_memory s (phys_base s) \<and>
     (\<forall>i < length (taken s). taken s ! i \<longrightarrow> taken_map s (block s i) = Some (Some i))"

definition slab_live :: "slab_allocator \<Rightarrow> u64 set" where
  "slab_live s = block s ` {i. i < length (taken s) \<and> taken s ! i}"

definition slab_pool :: "slab_allocator \<Rightarrow> u64 set" where
  "slab_pool s = block s ` {..<length (taken s)}"

definition slab_take :: "slab_allocator \<Rightarrow> u64 option \<times> slab_allocator" where
  "slab_take s = (case alloc s of Some (Inr (p, q, s')) \<Rightarrow> (Some p, s') | _ \<Rightarrow> (None, s))"

definition slab_give :: "u64 \<Rightarrow> slab_allocator \<Rightarrow> slab_allocator" where
  "slab_give p s = (case free p s of Inr (_, s') \<Rightarrow> s' | Inl _ \<Rightarrow> s)"

lemma offset_unat:
  assumes "unat (base :: u64) + unat bs * n \<le> 2 ^ 64" "i < n" "0 < bs"
  shows "unat (base + bs * of_nat i) = unat base + unat bs * i" "unat base + unat bs * i + unat bs \<le> 2 ^ 64"
proof -
  have pos: "0 < unat bs" using assms(3) by (simp add: word_less_nat_alt)
  have "unat bs * i + unat bs \<le> unat bs * n"
    using assms(2) by (metis Suc_leI mult_Suc_right add.commute mult_le_mono2)
  then have le: "unat base + unat bs * i + unat bs \<le> 2 ^ 64" using assms(1) by linarith
  moreover have "i \<le> unat bs * i" using pos by simp
  ultimately have "i < 2 ^ 64" using pos by linarith
  then have i: "unat (of_nat i :: u64) = i" by (simp add: unat_of_nat)
  then have "unat (bs * of_nat i) = unat bs * i"
    using le pos by (subst unat_mult_small) simp_all
  then show "unat (base + bs * of_nat i) = unat base + unat bs * i"
    using le pos by (subst unat_add_small) simp_all
  show "unat base + unat bs * i + unat bs \<le> 2 ^ 64" by (rule le)
qed

lemma block_unat:
  assumes "slab_ok s" "i < length (taken s)"
  shows "unat (block s i) = unat (virt_base s) + unat (block_size s) * i"
    "unat (virt_base s) + unat (block_size s) * i + unat (block_size s) \<le> 2 ^ 64"
  using offset_unat [of "virt_base s" "block_size s" "length (taken s)" i] assms
  by (simp_all add: slab_ok_def in_memory_def block_def)

lemma slab_block_inj:
  assumes "slab_ok s" "i < length (taken s)" "j < length (taken s)" "block s i = block s j"
  shows "i = j"
proof -
  have "unat (block_size s) * i = unat (block_size s) * j"
    using assms(4) block_unat(1) [OF assms(1,2)] block_unat(1) [OF assms(1,3)] by (metis add_left_cancel)
  moreover have "0 < unat (block_size s)" using assms(1) by (simp add: slab_ok_def word_less_nat_alt)
  ultimately show ?thesis by simp
qed

text \<open>With fewer than \<open>2 ^ 32\<close> blocks the loop ends, at the first block that is not taken.\<close>

lemma first_free_spec:
  assumes "n < 2 ^ 32" "length flags = unat n" "unat i \<le> unat n"
  shows "(first_free n flags i = Some None \<and> (\<forall>k < unat n. unat i \<le> k \<longrightarrow> flags ! k)) \<or>
    (\<exists>j. first_free n flags i = Some (Some j) \<and> unat j < unat n \<and> \<not> flags ! unat j)"
  using assms(3)
proof (induction "unat n - unat i" arbitrary: i)
  case 0
  then have "\<not> ucast i < n" by (simp add: word_less_nat_alt unat_ucast_u64)
  then show ?case using 0 by (subst first_free.simps) (simp add: first_free.simps)
next
  case (Suc m)
  have n: "unat n < 2 ^ 32" using assms(1) by (simp add: word_less_nat_alt)
  have less: "unat i < unat n" using Suc.hyps(2) by simp
  then have c: "ucast i < n" by (simp add: word_less_nat_alt unat_ucast_u64)
  show ?case
  proof (cases "flags ! unat i")
    case False
    then have "first_free n flags i = Some (Some i)" using c by (simp add: first_free.simps)
    then show ?thesis using less False by blast
  next
    case True
    have i1: "unat (i + 1) = unat i + 1" using less n by (subst unat_add_small) simp_all
    have step: "first_free n flags i = first_free n flags (i + 1)"
      using c True by (subst first_free.simps) simp
    have "(first_free n flags (i + 1) = Some None \<and> (\<forall>k < unat n. unat (i + 1) \<le> k \<longrightarrow> flags ! k)) \<or>
      (\<exists>j. first_free n flags (i + 1) = Some (Some j) \<and> unat j < unat n \<and> \<not> flags ! unat j)"
      by (rule Suc.hyps(1)) (use Suc.hyps(2) i1 less in simp_all)
    moreover have "flags ! k" if "\<forall>k < unat n. unat i + 1 \<le> k \<longrightarrow> flags ! k" "k < unat n" "unat i \<le> k" for k
      using that True by (cases "k = unat i") auto
    ultimately show ?thesis unfolding step i1 by blast
  qed
qed

definition grab :: "nat \<Rightarrow> slab_allocator \<Rightarrow> slab_allocator" where
  "grab i s = s\<lparr>taken := (taken s)[i := True], taken_map := (taken_map s)(block s i \<mapsto> Some i)\<rparr>"

lemma grab_fields [simp]:
  "virt_base (grab i s) = virt_base s" "phys_base (grab i s) = phys_base s" "block_size (grab i s) = block_size s"
  "num_entries (grab i s) = num_entries s" "taken (grab i s) = (taken s)[i := True]" "block (grab i s) = block s"
  "taken_map (grab i s) = (taken_map s)(block s i \<mapsto> Some i)"
  by (simp_all add: grab_def block_def fun_eq_iff)

lemma alloc_cases:
  assumes "slab_ok s"
  shows "(alloc s = Some (Inl Undefined) \<and> (\<forall>i < length (taken s). taken s ! i)) \<or>
    (\<exists>i < length (taken s). \<not> taken s ! i \<and>
       alloc s = Some (Inr (block s i, phys_base s + block_size s * of_nat i, grab i s)))"
proof -
  have "(first_free (num_entries s) (taken s) 0 = Some None \<and> (\<forall>k < unat (num_entries s). unat (0 :: u32) \<le> k \<longrightarrow> taken s ! k)) \<or>
    (\<exists>j. first_free (num_entries s) (taken s) 0 = Some (Some j) \<and> unat j < unat (num_entries s) \<and> \<not> taken s ! unat j)"
    by (rule first_free_spec) (use assms in \<open>simp_all add: slab_ok_def\<close>)
  then show ?thesis
  proof (elim disjE exE conjE)
    fix j :: u32
    assume j: "first_free (num_entries s) (taken s) 0 = Some (Some j)" "unat j < unat (num_entries s)" "\<not> taken s ! unat j"
    have "(ucast j :: u64) = of_nat (unat j)" by simp
    then have "alloc s = Some (Inr (block s (unat j), phys_base s + block_size s * of_nat (unat j), grab (unat j) s))"
      using j(1) by (simp add: alloc_def grab_def block_def Let_def)
    then show ?thesis using j assms by (intro disjI2 exI [of _ "unat j"]) (simp add: slab_ok_def)
  qed (use assms in \<open>simp add: alloc_def slab_ok_def\<close>)
qed

lemma block_live:
  assumes "slab_ok s" "i < length (taken s)"
  shows "block s i \<in> slab_live s \<longleftrightarrow> taken s ! i"
  using assms(2) slab_block_inj [OF assms] by (auto simp: slab_live_def)

lemma grab_ok:
  assumes "slab_ok s" "i < length (taken s)"
  shows "slab_ok (grab i s)" "slab_live (grab i s) = insert (block s i) (slab_live s)" "slab_pool (grab i s) = slab_pool s"
proof -
  have "taken_map (grab i s) (block s k) = Some (Some k)" if "k < length (taken s)" "(taken s)[i := True] ! k" for k
  proof (cases "k = i")
    case False
    then have "block s k \<noteq> block s i" using slab_block_inj [OF assms(1) that(1) assms(2)] by blast
    then show ?thesis using assms(1) that False by (simp add: slab_ok_def)
  qed simp
  then show "slab_ok (grab i s)" using assms(1) by (simp add: slab_ok_def in_memory_def)
  have "{k. k < length (taken s) \<and> (taken s)[i := True] ! k} = insert i {k. k < length (taken s) \<and> taken s ! k}"
    using assms(2) by (auto simp: nth_list_update)
  then show "slab_live (grab i s) = insert (block s i) (slab_live s)" by (simp add: slab_live_def)
  show "slab_pool (grab i s) = slab_pool s" by (simp add: slab_pool_def)
qed

lemma free_live:
  assumes "slab_ok s" "p \<in> slab_live s"
  shows "\<exists>s'. free p s = Inr (0, s') \<and> slab_ok s' \<and> slab_live s' = slab_live s - {p} \<and> slab_pool s' = slab_pool s"
proof -
  obtain i where i: "i < length (taken s)" "taken s ! i" "p = block s i"
    using assms(2) by (auto simp: slab_live_def)
  define s' where "s' = s\<lparr>taken := (taken s)[i := False], taken_map := (taken_map s)(p \<mapsto> Some i)\<rparr>"
  have m: "taken_map s p = Some (Some i)" using assms(1) i by (simp add: slab_ok_def)
  then have "free p s = Inr (0, s')" by (simp add: free_def s'_def)
  moreover have b: "block s' = block s" by (simp add: s'_def block_def fun_eq_iff)
  have "taken_map s' (block s k) = Some (Some k)" if "k < length (taken s)" "(taken s)[i := False] ! k" for k
    using that i slab_block_inj [OF assms(1) that(1) i(1)] assms(1) by (cases "k = i") (auto simp: slab_ok_def s'_def)
  then have "slab_ok s'"
    using assms(1) b unfolding slab_ok_def in_memory_def by (simp add: s'_def)
  moreover have "{k. k < length (taken s) \<and> (taken s)[i := False] ! k} = {k. k < length (taken s) \<and> taken s ! k} - {i}"
    using i(1) by (auto simp: nth_list_update)
  then have "slab_live s' = slab_live s - {p}"
    using b i slab_block_inj [OF assms(1)] by (auto simp: slab_live_def s'_def)
  moreover have "slab_pool s' = slab_pool s" using b by (simp add: slab_pool_def s'_def)
  ultimately show ?thesis by blast
qed

interpretation dma_blocks: slot_allocator slab_take slab_give slab_live slab_pool slab_ok
proof unfold_locales
  fix s s' p
  assume ok: "slab_ok s"
  show "finite (slab_pool s)" by (simp add: slab_pool_def)
  show "slab_live s \<subseteq> slab_pool s" by (auto simp: slab_live_def slab_pool_def)
  show "slab_take s = (None, s') \<Longrightarrow> slab_live s = slab_pool s \<and> slab_live s' = slab_live s \<and> slab_ok s' \<and> slab_pool s' = slab_pool s"
    using alloc_cases [OF ok] ok by (auto simp: slab_take_def slab_live_def slab_pool_def)
  show "slab_take s = (Some p, s') \<Longrightarrow> p \<in> slab_pool s \<and> p \<notin> slab_live s \<and> slab_live s' = insert p (slab_live s) \<and>
    slab_ok s' \<and> slab_pool s' = slab_pool s"
  proof (use alloc_cases [OF ok] in \<open>elim disjE exE conjE\<close>)
    fix i
    assume take: "slab_take s = (Some p, s')" and i: "i < length (taken s)" "\<not> taken s ! i"
      and a: "alloc s = Some (Inr (block s i, phys_base s + block_size s * of_nat i, grab i s))"
    have e: "p = block s i" "s' = grab i s" using take by (simp_all add: slab_take_def a)
    show ?thesis
      unfolding e using grab_ok [OF ok i(1)] block_live [OF ok i(1)] i by (simp add: slab_pool_def)
  qed (simp add: slab_take_def)
  show "p \<in> slab_live s \<Longrightarrow> slab_live (slab_give p s) = slab_live s - {p} \<and> slab_ok (slab_give p s) \<and> slab_pool (slab_give p s) = slab_pool s"
    by (drule free_live [OF ok]) (elim exE conjE, simp add: slab_give_def)
qed

section \<open>Correctness\<close>

lemma round_up:
  fixes s m :: u64
  assumes "0 < m" "unat s + unat m \<le> 2 ^ 64"
  shows "unat (if s mod m = 0 then s else (s div m + 1) * m) = (unat s + (unat m - 1)) div unat m * unat m"
proof -
  have m: "0 < unat m" using assms(1) by (simp add: word_less_nat_alt)
  have z: "s mod m = 0 \<longleftrightarrow> unat s mod unat m = 0" by (simp add: word_unat_eq_iff unat_mod_distrib)
  show ?thesis
  proof (cases "unat s mod unat m = 0")
    case True
    then show ?thesis unfolding ceil_div [OF m] using z by (simp add: mult.commute mod_eq_0_iff_dvd)
  next
    case False
    then have le: "unat s div unat m * unat m < unat s" using div_mult_mod_eq [of "unat s" "unat m"] by linarith
    then have lt: "(unat s div unat m + 1) * unat m < 2 ^ 64" using assms(2) by (simp add: algebra_simps)
    moreover have "unat s div unat m + 1 \<le> (unat s div unat m + 1) * unat m"
      using m by (metis One_nat_def Suc_leI mult.right_neutral mult_le_mono2)
    ultimately have "unat s div unat m + 1 < 2 ^ 64" by linarith
    then have q: "unat (s div m + 1) = unat s div unat m + 1"
      by (subst unat_add_small) (simp_all add: unat_div_distrib)
    then have "unat ((s div m + 1) * m) = (unat s div unat m + 1) * unat m"
      using lt by (subst unat_mult_small) (simp_all add: q)
    then show ?thesis unfolding ceil_div [OF m] using z False by simp
  qed
qed

lemma pages_enough:
  assumes "unat bs * unat n + 4096 \<le> 2 ^ 64"
  shows "unat bs * unat n \<le> 4096 * unat (align_to_page (bs * n) div PAGE_SIZE)"
proof -
  have bn: "unat (bs * n) = unat bs * unat n" using assms by (intro unat_mult_small) simp
  have "unat (align_to_page (bs * n)) = (unat bs * unat n + (unat PAGE_SIZE - 1)) div unat PAGE_SIZE * unat PAGE_SIZE"
    unfolding align_to_page_def bn [symmetric] by (rule round_up) (use assms bn in \<open>simp_all add: PAGE_SIZE_def\<close>)
  then have "unat (align_to_page (bs * n) div PAGE_SIZE) = (unat bs * unat n + 4095) div 4096"
    by (simp add: unat_div_distrib PAGE_SIZE_def)
  then show ?thesis by simp
qed

lemma pool_apart:
  assumes "slab_ok s" "p \<in> slab_pool s" "q \<in> slab_pool s" "p \<noteq> q"
  shows "unat p + unat (block_size s) \<le> unat q \<or> unat q + unat (block_size s) \<le> unat p"
proof -
  obtain i j where i: "i < length (taken s)" "p = block s i" and j: "j < length (taken s)" "q = block s j"
    using assms(2,3) by (auto simp: slab_pool_def)
  have step: "unat (block_size s) * i + unat (block_size s) \<le> unat (block_size s) * j" if "i < j" for i j
    using that by (metis Suc_leI mult_Suc_right add.commute mult_le_mono2)
  have "i \<noteq> j" using i j assms(4) by blast
  then have "i < j \<or> j < i" by auto
  then show ?thesis
    unfolding i(2) j(2) block_unat(1) [OF assms(1) i(1)] block_unat(1) [OF assms(1) j(1)]
    using step [of i j] step [of j i] by (elim disjE) simp_all
qed

lemma take_give_keep: "virt_base (snd (slab_take s)) = virt_base s \<and> phys_base (snd (slab_take s)) = phys_base s \<and>
    block_size (snd (slab_take s)) = block_size s \<and> length (taken (snd (slab_take s))) = length (taken s)"
  "virt_base (slab_give p s) = virt_base s \<and> phys_base (slab_give p s) = phys_base s \<and>
    block_size (slab_give p s) = block_size s \<and> length (taken (slab_give p s)) = length (taken s)"
  by (auto simp: slab_take_def alloc_def slab_give_def free_def Let_def deref_def split: option.splits sum.splits)

lemma serve_keep:
  "serve slab_take slab_give rs held s = (held', s') \<Longrightarrow> virt_base s' = virt_base s \<and> phys_base s' = phys_base s \<and>
    block_size s' = block_size s \<and> length (taken s') = length (taken s)"
proof (induction slab_take slab_give rs held s rule: serve.induct)
  case (2 rs held s)
  then show ?case using take_give_keep(1) [of s] by (auto split: prod.splits option.splits)
next
  case (3 i rs held s)
  then show ?case using take_give_keep(2) [of i s] by (auto split: if_splits)
qed simp

lemma alloc_live:
  assumes "slab_ok s" "n = length (taken s)"
  shows "alloc s = Some (Inl Undefined) \<and> card (slab_live s) = n \<or>
    (\<exists>p q s' i. alloc s = Some (Inr (p, q, s')) \<and> slab_ok s' \<and> slab_live s' = insert p (slab_live s) \<and>
       i < n \<and> p = block s i \<and> unat p = unat (virt_base s) + unat (block_size s) * i \<and>
       unat q = unat (phys_base s) + unat (block_size s) * i \<and> p \<notin> slab_live s \<and>
       (\<forall>h\<in>slab_live s. unat h + unat (block_size s) \<le> unat p \<or> unat p + unat (block_size s) \<le> unat h))"
  using alloc_cases [OF assms(1)]
proof (elim disjE exE conjE)
  assume a: "alloc s = Some (Inl Undefined)" "\<forall>i < length (taken s). taken s ! i"
  have "slab_live s = block s ` {..<n}" using a(2) assms(2) by (auto simp: slab_live_def)
  moreover have "inj_on (block s) {..<n}" using slab_block_inj [OF assms(1)] assms(2) by (auto intro: inj_onI)
  ultimately show ?thesis using a(1) by (simp add: card_image)
next
  fix i
  assume i: "i < length (taken s)" "\<not> taken s ! i"
    and a: "alloc s = Some (Inr (block s i, phys_base s + block_size s * of_nat i, grab i s))"
  have p: "block s i \<in> slab_pool s" "block s i \<notin> slab_live s"
    using i block_live [OF assms(1) i(1)] by (simp_all add: slab_pool_def)
  have q: "unat (phys_base s + block_size s * of_nat i) = unat (phys_base s) + unat (block_size s) * i"
    using offset_unat(1) [of "phys_base s" "block_size s" "length (taken s)" i] assms(1) i(1)
    by (simp add: slab_ok_def in_memory_def)
  have "unat h + unat (block_size s) \<le> unat (block s i) \<or> unat (block s i) + unat (block_size s) \<le> unat h" if "h \<in> slab_live s" for h
    using pool_apart [OF assms(1), of h "block s i"] dma_blocks.live_pool [OF assms(1)] p that by auto
  then show ?thesis
    using a i p q grab_ok [OF assms(1) i(1)] block_unat(1) [OF assms(1) i(1)] assms(2) by blast
qed

lemma Slab_allocator_ok:
  assumes "dma (align_to_page (bs * n) div PAGE_SIZE) = (virt, phys)" "virt \<noteq> 0" "phys \<noteq> 0" "0 < bs" "0 < n" "n < 2 ^ 32"
    "unat virt + unat bs * unat n \<le> 2 ^ 64" "unat phys + unat bs * unat n \<le> 2 ^ 64"
  shows "\<exists>s. Slab_allocator dma bs n = Inr s \<and> slab_ok s \<and> slab_live s = {} \<and> virt_base s = virt \<and> phys_base s = phys \<and>
    block_size s = bs \<and> length (taken s) = unat n"
  using assms by (simp add: Slab_allocator_def slab_ok_def in_memory_def slab_live_def)

text \<open>
  C36. The device memory allocator hands out disjoint blocks. Over the pages the device returned, and after any
  sequence of allocations and releases of blocks in use, the next allocation either has no block left, and then
  all \<open>n\<close> blocks are in use and the function ends without a value, or returns the same block by its virtual and
  its physical address; the block is in the pages, is not in use and overlaps no block in use.
\<close>

theorem dma_slab_blocks:
  assumes "dma (align_to_page (bs * n) div PAGE_SIZE) = (virt, phys)" "virt \<noteq> 0" "phys \<noteq> 0" "0 < bs" "0 < n" "n < 2 ^ 32"
    "unat virt + unat bs * unat n \<le> 2 ^ 64" "unat phys + unat bs * unat n \<le> 2 ^ 64" "unat bs * unat n + 4096 \<le> 2 ^ 64"
  shows "\<exists>s held s'. Slab_allocator dma bs n = Inr s \<and> serve slab_take slab_give rs {} s = (held, s') \<and>
    (alloc s' = Some (Inl Undefined) \<and> card held = unat n \<or>
     (\<exists>p q s'' i. alloc s' = Some (Inr (p, q, s'')) \<and> unat p = unat virt + i \<and> unat q = unat phys + i \<and>
        i + unat bs \<le> 4096 * unat (align_to_page (bs * n) div PAGE_SIZE) \<and> p \<notin> held \<and>
        (\<forall>h\<in>held. unat h + unat bs \<le> unat p \<or> unat p + unat bs \<le> unat h)))"
proof -
  obtain s where s: "Slab_allocator dma bs n = Inr s" "slab_ok s" "slab_live s = {}" "virt_base s = virt" "phys_base s = phys"
    "block_size s = bs" "length (taken s) = unat n"
    using Slab_allocator_ok [of dma bs n virt phys, OF assms(1-8)] by blast
  obtain held s' where run: "serve slab_take slab_give rs {} s = (held, s')" by fastforce
  have s': "slab_ok s'" "held = slab_live s'" using dma_blocks.serve_live [OF s(2), of rs held s'] run s(3) by simp_all
  have k: "virt_base s' = virt" "phys_base s' = phys" "block_size s' = bs" "length (taken s') = unat n"
    using serve_keep [OF run] s by simp_all
  have "unat bs * i + unat bs \<le> 4096 * unat (align_to_page (bs * n) div PAGE_SIZE)" if "i < unat n" for i
    using pages_enough [OF assms(9)] mult_le_mono2 [of "Suc i" "unat n" "unat bs"] that by simp
  then show ?thesis
    using s(1) run alloc_live [OF s'(1), of "unat n"] unfolding s'(2) k by blast
qed

theorem dma_slab_blocks_witness:
  "\<exists>s held s'. Slab_allocator (\<lambda>_. (0x7000, 0x10000)) 64 3 = Inr s \<and> serve slab_take slab_give [None, None] {} s = (held, s') \<and>
    (alloc s' = Some (Inl Undefined) \<and> card held = 3 \<or>
     (\<exists>p q s'' i. alloc s' = Some (Inr (p, q, s'')) \<and> unat p = 0x7000 + i \<and> unat q = 0x10000 + i \<and> i + 64 \<le> 4096 \<and> p \<notin> held))"
proof -
  have pages: "align_to_page (64 * 3) div PAGE_SIZE = 1" by (simp add: align_to_page_def PAGE_SIZE_def)
  show ?thesis
    using dma_slab_blocks [of "\<lambda>_. (0x7000, 0x10000)" 64 3 "0x7000" "0x10000" "[None, None]"]
    unfolding pages by (simp del: serve.simps) blast
qed

end
