(* ===== verification/XDK_Actions.thy ===== *)
theory XDK_Actions
  imports XDK_Prelude
begin

text \<open>
  Actions: stateful operations that may stop with a fault (\<open>Inl\<close>) or never return (\<open>None\<close>), their composition, and
  two kinds of triples about them: \<open>ensures\<close> for what holds if an action returns, \<open>guards\<close> for actions that moreover
  do not stop with certain faults. The drivers are written with them.
\<close>

section \<open>Composition\<close>

type_synonym ('s, 'a) action = "'s \<Rightarrow> ('a \<times> 's) outcome option"

definition return :: "'a \<Rightarrow> ('s, 'a) action" where
  "return x s = Some (Inr (x, s))"

definition stop_with :: "fault \<Rightarrow> ('s, 'a) action" where
  "stop_with e s = Some (Inl e)"

definition andthen :: "('s, 'a) action \<Rightarrow> ('a \<Rightarrow> ('s, 'b) action) \<Rightarrow> ('s, 'b) action" where
  "andthen a f s = (case a s of None \<Rightarrow> None | Some (Inl e) \<Rightarrow> Some (Inl e) | Some (Inr (x, s')) \<Rightarrow> f x s')"

definition require :: "bool \<Rightarrow> fault \<Rightarrow> ('s, unit) action" where
  "require c e = (if c then return () else stop_with e)"

definition modify :: "('s \<Rightarrow> 's) \<Rightarrow> ('s, unit) action" where
  "modify f s = Some (Inr ((), f s))"

definition gets :: "('s \<Rightarrow> 'a) \<Rightarrow> ('s, 'a) action" where
  "gets f s = Some (Inr (f s, s))"

lemmas run_simps = andthen_def return_def stop_with_def require_def modify_def gets_def

section \<open>Reasoning about actions\<close>

text \<open>If the action returns from a state with \<open>P\<close>, its value and the new state have \<open>Q\<close>.\<close>

definition ensures :: "('s \<Rightarrow> bool) \<Rightarrow> ('s, 'a) action \<Rightarrow> ('a \<Rightarrow> 's \<Rightarrow> bool) \<Rightarrow> bool" where
  "ensures P a Q \<longleftrightarrow> (\<forall>s x s'. P s \<longrightarrow> a s = Some (Inr (x, s')) \<longrightarrow> Q x s')"

lemma ensuresD: "ensures P a Q \<Longrightarrow> P s \<Longrightarrow> a s = Some (Inr (x, s')) \<Longrightarrow> Q x s'"
  by (simp add: ensures_def)

lemma ensures_andthen: "ensures P a R \<Longrightarrow> (\<And>x. ensures (R x) (f x) Q) \<Longrightarrow> ensures P (andthen a f) Q"
  unfolding ensures_def andthen_def by (fastforce split: option.splits sum.splits)

lemma ensures_if: "(c \<Longrightarrow> ensures P a Q) \<Longrightarrow> (\<not> c \<Longrightarrow> ensures P b Q) \<Longrightarrow> ensures P (if c then a else b) Q"
  by simp

lemma ensures_return: "(\<And>s. P s \<Longrightarrow> Q x s) \<Longrightarrow> ensures P (return x) Q"
  by (simp add: ensures_def return_def)

lemma ensures_weaken: "ensures P a Q \<Longrightarrow> (\<And>x s. Q x s \<Longrightarrow> Q' x s) \<Longrightarrow> ensures P a Q'"
  by (auto simp: ensures_def)

lemma ensures_True: "ensures P a (\<lambda>_ _. True)"
  by (simp add: ensures_def)

lemma ensures_stop: "ensures P (stop_with e) Q"
  by (simp add: ensures_def stop_with_def)

lemma ensures_case_sum:
  "(\<And>e. ensures P (f e) Q) \<Longrightarrow> (\<And>x. ensures P (g x) Q) \<Longrightarrow> ensures P (case r of Inl e \<Rightarrow> f e | Inr x \<Rightarrow> g x) Q"
  by (cases r) simp_all

lemma ensures_exE: "(\<And>i. C i \<Longrightarrow> ensures (P i) a Q) \<Longrightarrow> ensures (\<lambda>s. \<exists>i. C i \<and> P i s) a Q"
  by (auto simp: ensures_def)

lemma ensures_pre: "(C \<Longrightarrow> ensures P a Q) \<Longrightarrow> ensures (\<lambda>s. C \<and> P s) a Q"
  by (auto simp: ensures_def)

lemma ensures_last: "(\<And>x. ensures (\<lambda>_. True) (f x) Q) \<Longrightarrow> ensures P (andthen a f) Q"
  by (rule ensures_andthen [OF ensures_True])

section \<open>Rings and packet buffers\<close>

text \<open>A network card stores a frame in memory.\<close>

definition store_frame :: "nat \<Rightarrow> u8 list \<Rightarrow> (nat \<Rightarrow> u8) \<Rightarrow> nat \<Rightarrow> u8" where
  "store_frame at f ram = (\<lambda>a. if at \<le> a \<and> a < at + length f then f ! (a - at) else ram a)"

lemma ring_slots_differ:
  assumes "i < n" "j < n" "(pos + i) mod n = (pos + j) mod (n :: nat)"
  shows "i = j"
proof -
  have le: "i = j" if lt: "i < n" "j < n" and eq: "(pos + i) mod n = (pos + j) mod n" and "j \<le> i" for i j
  proof -
    have "n dvd i - j" using eq \<open>j \<le> i\<close> mod_eq_dvd_iff_nat [of "pos + j" "pos + i" n] by simp
    then show ?thesis using lt \<open>j \<le> i\<close> dvd_imp_le [of n "i - j"] by (cases "i = j") auto
  qed
  show ?thesis using le [of i j] le [of j i] assms by (cases "j \<le> i") auto
qed

section \<open>Actions without certain faults\<close>

text \<open>From a state with \<open>P\<close> the action does not stop with a fault in \<open>F\<close>, and if it returns, value and state have \<open>Q\<close>.\<close>

definition guards :: "fault set \<Rightarrow> ('s \<Rightarrow> bool) \<Rightarrow> ('s, 'a) action \<Rightarrow> ('a \<Rightarrow> 's \<Rightarrow> bool) \<Rightarrow> bool" where
  "guards F P a Q \<longleftrightarrow> (\<forall>s r. P s \<longrightarrow> a s = Some r \<longrightarrow> (case r of Inl e \<Rightarrow> e \<notin> F | Inr (x, s') \<Rightarrow> Q x s'))"

lemma guardsD: "guards F P a Q \<Longrightarrow> P s \<Longrightarrow> a s = Some r \<Longrightarrow> case r of Inl e \<Rightarrow> e \<notin> F | Inr (x, s') \<Rightarrow> Q x s'"
  by (simp add: guards_def)

lemma guards_andthen:
  assumes "guards F P a R" "\<And>x. guards F (R x) (f x) Q"
  shows "guards F P (andthen a f) Q"
  unfolding guards_def
proof (intro allI impI)
  fix s r
  assume s: "P s" and run: "andthen a f s = Some r"
  then obtain r1 where r1: "a s = Some r1" by (auto simp: andthen_def split: option.splits)
  show "case r of Inl e \<Rightarrow> e \<notin> F | Inr (x, s') \<Rightarrow> Q x s'"
  proof (cases r1)
    case (Inl e)
    then show ?thesis using guardsD [OF assms(1) s r1] run r1 by (auto simp: andthen_def)
  next
    case (Inr xs)
    obtain x s1 where "xs = (x, s1)" by (cases xs)
    then show ?thesis using guardsD [OF assms(1) s r1] guardsD [OF assms(2), of x s1 r] run r1 Inr by (simp add: andthen_def)
  qed
qed

lemma guards_if: "(c \<Longrightarrow> guards F P a Q) \<Longrightarrow> (\<not> c \<Longrightarrow> guards F P b Q) \<Longrightarrow> guards F P (if c then a else b) Q"
  by simp

lemma guards_return: "(\<And>s. P s \<Longrightarrow> Q x s) \<Longrightarrow> guards F P (return x) Q"
  by (simp add: guards_def return_def)

lemma guards_stop: "e \<notin> F \<Longrightarrow> guards F P (stop_with e) Q"
  by (simp add: guards_def stop_with_def)

lemma guards_require: "e \<notin> F \<or> c \<Longrightarrow> guards F P (require c e) (\<lambda>_. P)"
  by (auto simp: guards_def require_def stop_with_def return_def)

lemma guards_modify: "(\<And>s. P s \<Longrightarrow> Q () (f s)) \<Longrightarrow> guards F P (modify f) Q"
  by (simp add: guards_def modify_def)

text \<open>Rules without unknowns, for actions that keep a property.\<close>

lemma guards_keep: "guards F P a (\<lambda>_. P) \<Longrightarrow> (\<And>x. guards F P (f x) Q) \<Longrightarrow> guards F P (andthen a f) Q"
  by (rule guards_andthen)

lemma guards_set: "(\<And>s. P s \<Longrightarrow> P (f s)) \<Longrightarrow> guards F P (modify f) (\<lambda>_. P)"
  by (rule guards_modify)

lemma guards_step: "guards F R (g ()) Q \<Longrightarrow> (\<And>s. P s \<Longrightarrow> R (f s)) \<Longrightarrow> guards F P (andthen (modify f) g) Q"
  by (rule guards_andthen [where R = "\<lambda>_. R"]) (auto intro: guards_modify)

lemma guards_post: "guards F P a Q \<Longrightarrow> (\<And>x s. Q x s \<Longrightarrow> Q' x s) \<Longrightarrow> guards F P a Q'"
  unfolding guards_def by (fastforce split: sum.splits)

lemma guards_pre: "guards F P a Q \<Longrightarrow> (\<And>s. P' s \<Longrightarrow> P s) \<Longrightarrow> guards F P' a Q"
  unfolding guards_def by blast

lemma guards_gets: "guards F P (gets f) (\<lambda>_. P)"
  by (simp add: guards_def gets_def)

end
