(* ===== verification/XDK_AHCI.thy ===== *)
theory XDK_AHCI
  imports XDK_Dma_Slab XDK_Bytes XDK_Actions
begin

text \<open>
  The driver for SATA disks, \<^verbatim>\<open>drivers/ahci\<close>. The structures it shares with the controller are bytes in physical
  memory, with the layout of \<^verbatim>\<open>ahci_hw.h\<close> and \<^verbatim>\<open>ahci_sata.h\<close>. Registers are offsets in the memory region of the
  controller; what a read returns, and what reads and writes of registers do to the controller and, by DMA, to the
  memory, are functions of the environment, as are the page table and the pages the kernel hands out. Operations of
  a port are functions on its state that may stop with a fault (\<open>Inl\<close>) or never return (\<open>None\<close>).
\<close>

section \<open>Structures\<close>

definition ahci_ghc_t :: "c_field list" where
  "ahci_ghc_t =
    [(''cap'', 4, 4, 1), (''ghc'', 4, 4, 1), (''is'', 4, 4, 1), (''pi'', 4, 4, 1), (''vs'', 4, 4, 1),
     (''ccc_ctl'', 4, 4, 1), (''ccc_ports'', 4, 4, 1), (''em_loc'', 4, 4, 1), (''em_ctl'', 4, 4, 1),
     (''cap2'', 4, 4, 1), (''bohc'', 4, 4, 1)]"

definition ahci_port_t :: "c_field list" where
  "ahci_port_t =
    [(''pxclb'', 4, 4, 1), (''pxclbu'', 4, 4, 1), (''pxfb'', 4, 4, 1), (''pxfbu'', 4, 4, 1), (''pxis'', 4, 4, 1),
     (''pxie'', 4, 4, 1), (''pxcmd'', 4, 4, 1), (''reserved1'', 4, 4, 1), (''pxtfd'', 4, 4, 1), (''pxsig'', 4, 4, 1),
     (''pxssts'', 4, 4, 1), (''pxsctl'', 4, 4, 1), (''pxserr'', 4, 4, 1), (''pxsact'', 4, 4, 1), (''pxci'', 4, 4, 1),
     (''pxsntf'', 4, 4, 1), (''pxfbs'', 4, 4, 1), (''reserved2'', 4, 4, 11), (''pxvs'', 4, 4, 4)]"

definition ahci_cmdhdr_t :: "c_field list" where
  "ahci_cmdhdr_t =
    [(''flags'', 2, 2, 1), (''prdtl'', 2, 2, 1), (''bytesprocessed'', 4, 4, 1), (''cmdtable'', 4, 4, 1),
     (''cmdtableu'', 4, 4, 1), (''reserved'', 4, 4, 4)]"

text \<open>The last double word of a PRDT entry holds bit fields, named by the first of them here.\<close>

definition ahci_cmd_prdt_t :: "c_field list" where
  "ahci_cmd_prdt_t =
    [(''data_address_low'', 4, 4, 1), (''data_address_upper'', 4, 4, 1), (''reserved1'', 4, 4, 1), (''dbc'', 4, 4, 1)]"

text \<open>All bit fields of the standard frame are whole bytes.\<close>

definition sata_std_command_frame_t :: "c_field list" where
  "sata_std_command_frame_t =
    [(''fis_type'', 1, 1, 1), (''c'', 1, 1, 1), (''command'', 1, 1, 1), (''features'', 1, 1, 1), (''lba_lower'', 3, 1, 1),
     (''device'', 1, 1, 1), (''lba_upper'', 3, 1, 1), (''features_upper'', 1, 1, 1), (''count'', 2, 1, 1),
     (''icc'', 1, 1, 1), (''control'', 1, 1, 1), (''auxilary'', 2, 1, 1), (''reserved2'', 2, 1, 1)]"

text \<open>The byte of \<^verbatim>\<open>reserved1\<close> and \<^verbatim>\<open>prio\<close> in the frame of queued commands is named \<open>prio\<close>.\<close>

definition sata_ncq_command_frame_t :: "c_field list" where
  "sata_ncq_command_frame_t =
    [(''fis_type'', 1, 1, 1), (''c'', 1, 1, 1), (''command'', 1, 1, 1), (''sector_count_low'', 1, 1, 1), (''lba0'', 1, 1, 1),
     (''lba1'', 1, 1, 1), (''lba2'', 1, 1, 1), (''fua'', 1, 1, 1), (''lba3'', 1, 1, 1), (''lba4'', 1, 1, 1),
     (''lba5'', 1, 1, 1), (''sector_count_high'', 1, 1, 1), (''tag'', 1, 1, 1), (''prio'', 1, 1, 1), (''icc'', 1, 1, 1),
     (''control'', 1, 1, 1), (''reserved3'', 1, 1, 1), (''reserved4'', 1, 1, 1), (''reserved5'', 1, 1, 1),
     (''reserved6'', 1, 1, 1)]"

text \<open>Both frames are unions with 64 bytes of command FIS, 16 of ATAPI command and 48 reserved, followed by the PRDT.\<close>

definition prdt_offset :: nat where
  "prdt_offset = 0x40 + 0x10 + 0x30"

definition sata_std_command_frame_size :: nat where
  "sata_std_command_frame_size = max (sizeof True sata_std_command_frame_t) prdt_offset"

definition sata_ncq_command_frame_size :: nat where
  "sata_ncq_command_frame_size = max (sizeof True sata_ncq_command_frame_t) prdt_offset"

definition sata_identify_data_t :: "c_field list" where
  "sata_identify_data_t =
    [(''gen_conf'', 2, 2, 1), (''cylinders'', 2, 2, 1), (''reserved2'', 2, 2, 1), (''heads'', 2, 2, 1), (''_vs4'', 2, 2, 1),
     (''_vs5'', 2, 2, 1), (''sectors'', 2, 2, 1), (''_vs7'', 2, 2, 1), (''_vs8'', 2, 2, 1), (''_vs9'', 2, 2, 1),
     (''serial_number'', 2, 2, 10), (''_vs20'', 2, 2, 1), (''_vs21'', 2, 2, 1), (''vs_bytes'', 2, 2, 1),
     (''firmware_rev'', 2, 2, 4), (''model_name'', 2, 2, 20), (''max_rw_multiple'', 2, 2, 1), (''reserved48'', 2, 2, 1),
     (''caps'', 2, 2, 1), (''reserved50'', 2, 2, 1), (''pio_timing'', 2, 2, 1), (''dma_timing'', 2, 2, 1),
     (''validity'', 2, 2, 1), (''cur_cyl'', 2, 2, 1), (''cur_heads'', 2, 2, 1), (''cur_sectors'', 2, 2, 1),
     (''cur_capacity0'', 2, 2, 1), (''cur_capacity1'', 2, 2, 1), (''mss'', 2, 2, 1), (''total_lba28_0'', 2, 2, 1),
     (''total_lba28_1'', 2, 2, 1), (''sw_dma'', 2, 2, 1), (''mw_dma'', 2, 2, 1), (''pio_modes'', 2, 2, 1),
     (''min_mw_dma_cycle'', 2, 2, 1), (''rec_mw_dma_cycle'', 2, 2, 1), (''min_raw_pio_cycle'', 2, 2, 1),
     (''min_iordy_pio_cycle'', 2, 2, 1), (''reserved69'', 2, 2, 1), (''reserved70'', 2, 2, 1), (''reserved71'', 2, 2, 1),
     (''reserved72'', 2, 2, 1), (''reserved73'', 2, 2, 1), (''reserved74'', 2, 2, 1), (''queue_depth'', 2, 2, 1),
     (''sata_cap'', 2, 2, 1), (''sata_cap2'', 2, 2, 1), (''serial_ata_features'', 2, 2, 2), (''version_maj'', 2, 2, 1),
     (''version_min'', 2, 2, 1), (''cmd_set0'', 2, 2, 1), (''cmd_set1'', 2, 2, 1), (''csf_sup_ext'', 2, 2, 1),
     (''csf_enabled0'', 2, 2, 1), (''csf_enabled1'', 2, 2, 1), (''csf_default'', 2, 2, 1), (''udma'', 2, 2, 1),
     (''reserved89'', 2, 2, 11), (''total_lba48_0'', 2, 2, 1), (''total_lba48_1'', 2, 2, 1), (''total_lba48_2'', 2, 2, 1),
     (''total_lba48_3'', 2, 2, 1), (''reserved104'', 2, 2, 2), (''physical_logic_sector_size'', 2, 2, 1),
     (''reserved107'', 2, 2, 21), (''reserved128'', 2, 2, 32), (''reserved160'', 2, 2, 96)]"

section \<open>Bit fields\<close>

fun bit_pos :: "nat \<Rightarrow> (string \<times> nat) list \<Rightarrow> string \<Rightarrow> nat \<times> nat" where
  "bit_pos off [] f = (off, 0)"
| "bit_pos off ((g, w) # fs) f = (if f = g then (off, w) else bit_pos (off + w) fs f)"

definition get_bits :: "(string \<times> nat) list \<Rightarrow> string \<Rightarrow> u32 \<Rightarrow> u32" where
  "get_bits fs f x = (case bit_pos 0 fs f of (off, w) \<Rightarrow> drop_bit off x AND mask w)"

definition set_bits :: "(string \<times> nat) list \<Rightarrow> string \<Rightarrow> u32 \<Rightarrow> u32 \<Rightarrow> u32" where
  "set_bits fs f v x =
     (case bit_pos 0 fs f of (off, w) \<Rightarrow> (x AND NOT (push_bit off (mask w))) OR push_bit off (v AND mask w))"

definition ahci_port_cmd_t :: "(string \<times> nat) list" where
  "ahci_port_cmd_t =
    [(''st'', 1), (''sud'', 1), (''pod'', 1), (''clo'', 1), (''fre'', 1), (''reserved'', 3), (''ccs'', 5), (''mpss'', 1),
     (''fr'', 1), (''cr'', 1), (''cps'', 1), (''pma'', 1), (''hpcp'', 1), (''mpsp'', 1), (''cpd'', 1), (''esp'', 1),
     (''fbscp'', 1), (''apste'', 1), (''atapi'', 1), (''dlae'', 1), (''alpe'', 1), (''asp'', 1), (''icc'', 4)]"

definition ahci_port_ssts_t :: "(string \<times> nat) list" where
  "ahci_port_ssts_t = [(''det'', 4), (''spd'', 4), (''ipm'', 4), (''reserved'', 20)]"

definition ahci_ghc_ccc_ctl_t :: "(string \<times> nat) list" where
  "ahci_ghc_ccc_ctl_t = [(''en'', 1), (''reserved'', 2), (''intr'', 5), (''cc'', 8), (''tv'', 16)]"

definition ahci_cmd_prdt_bits :: "(string \<times> nat) list" where
  "ahci_cmd_prdt_bits = [(''dbc'', 22), (''reserved2'', 9), (''ioc'', 1)]"

definition LO :: "u64 \<Rightarrow> u32" where
  "LO p = ucast (p AND 0xffffffff)"

definition HI :: "u64 \<Rightarrow> u32" where
  "HI p = ucast (drop_bit 32 p)"

section \<open>Memory, registers and the state of a port\<close>

type_synonym memory = "u64 \<Rightarrow> u8"

text \<open>Access through virtual addresses; \<open>pa\<close> translates them.\<close>

definition peek :: "(u64 \<Rightarrow> u64) \<Rightarrow> u64 \<Rightarrow> nat \<Rightarrow> memory \<Rightarrow> u8 list" where
  "peek pa v n m = map (\<lambda>i. m (pa (v + of_nat i))) [0..<n]"

fun poke :: "(u64 \<Rightarrow> u64) \<Rightarrow> u64 \<Rightarrow> u8 list \<Rightarrow> memory \<Rightarrow> memory" where
  "poke pa v [] m = m"
| "poke pa v (b # bs) m = poke pa (v + 1) bs (m(pa v := b))"

text \<open>
  The environment: 32-bit and 8-bit accesses to the registers by their offset, the page table, and the identity of
  the PCI device. \<open>'d\<close> is the state of the controller with its disks.
\<close>

record 'd hba_env =
  read32 :: "nat \<Rightarrow> memory \<times> 'd \<Rightarrow> u32 \<times> memory \<times> 'd"
  write32 :: "nat \<Rightarrow> u32 \<Rightarrow> memory \<times> 'd \<Rightarrow> memory \<times> 'd"
  read8 :: "nat \<Rightarrow> memory \<times> 'd \<Rightarrow> u8 \<times> memory \<times> 'd"
  write8 :: "nat \<Rightarrow> u8 \<Rightarrow> memory \<times> 'd \<Rightarrow> memory \<times> 'd"
  config_write16 :: "nat \<Rightarrow> u16 \<Rightarrow> memory \<times> 'd \<Rightarrow> memory \<times> 'd"
  pagemap :: "u64 \<Rightarrow> u64"
  device_id :: u32
  vendor :: u32

text \<open>\<open>port_base\<close> is the offset of the registers of the port; a null pointer is the address 0.\<close>

record 'd port_state =
  port_num :: u32
  port_base :: nat
  command_hdr :: u64
  command_hdr_p :: u64
  irq :: u32
  irq_thread :: bool
  received_fis_v :: u64
  received_fis_p :: u64
  device_identity :: "u8 list"
  device_capacity :: u64
  device_capacity_blocks :: u64
  cmd_frame_allocator :: slab_allocator
  misc_allocator :: slab_allocator
  initialized :: bool
  ram :: memory
  hba :: 'd

definition world :: "'d port_state \<Rightarrow> memory \<times> 'd" where
  "world s = (ram s, hba s)"

definition set_world :: "memory \<times> 'd \<Rightarrow> 'd port_state \<Rightarrow> 'd port_state" where
  "set_world w s = s\<lparr>ram := fst w, hba := snd w\<rparr>"

definition ghc_offset :: "string \<Rightarrow> nat" where
  "ghc_offset f = (case field_pos True ahci_ghc_t f of Some (off, _) \<Rightarrow> off | None \<Rightarrow> 0)"

definition port_offset :: "string \<Rightarrow> nat" where
  "port_offset f = (case field_pos True ahci_port_t f of Some (off, _) \<Rightarrow> off | None \<Rightarrow> 0)"

definition read_reg :: "'d hba_env \<Rightarrow> nat \<Rightarrow> ('d port_state, u32) action" where
  "read_reg E r s = (case read32 E r (world s) of (v, w) \<Rightarrow> Some (Inr (v, set_world w s)))"

definition write_reg :: "'d hba_env \<Rightarrow> nat \<Rightarrow> u32 \<Rightarrow> ('d port_state, unit) action" where
  "write_reg E r v s = Some (Inr ((), set_world (write32 E r v (world s)) s))"

definition read_px :: "'d hba_env \<Rightarrow> string \<Rightarrow> ('d port_state, u32) action" where
  "read_px E f s = read_reg E (port_base s + port_offset f) s"

definition write_px :: "'d hba_env \<Rightarrow> string \<Rightarrow> u32 \<Rightarrow> ('d port_state, unit) action" where
  "write_px E f v s = write_reg E (port_base s + port_offset f) v s"

text \<open>Waiting for a condition on a port register.\<close>

partial_function (option) poll_px :: "'d hba_env \<Rightarrow> string \<Rightarrow> (u32 \<Rightarrow> bool) \<Rightarrow> 'd port_state \<Rightarrow> (unit \<times> 'd port_state) outcome option" where
  "poll_px E f until s = (case read32 E (port_base s + port_offset f) (world s) of
     (v, w) \<Rightarrow> if until v then Some (Inr ((), set_world w s)) else poll_px E f until (set_world w s))"

definition WAIT_FOR_NOT_BUSY :: "'d hba_env \<Rightarrow> ('d port_state, unit) action" where
  "WAIT_FOR_NOT_BUSY E = poll_px E ''pxtfd'' (\<lambda>v. v AND 2 ^ 7 = 0)"

definition poll_for_port_interrupt :: "'d hba_env \<Rightarrow> nat \<Rightarrow> ('d port_state, unit) action" where
  "poll_for_port_interrupt E b = poll_px E ''pxis'' (\<lambda>v. v AND 2 ^ b \<noteq> 0)"

section \<open>Starting and stopping a port\<close>

text \<open>
  The constructor leaves the other members as they are in the fresh object. \<open>frame_pages\<close> and \<open>misc_pages\<close> are the
  pages the kernel hands out to the two allocators.
\<close>

definition Ahci_device_port :: "(u64 \<Rightarrow> u64 \<times> u64) \<Rightarrow> (u64 \<Rightarrow> u64 \<times> u64) \<Rightarrow> u32 \<Rightarrow> ptr \<Rightarrow> u32 \<Rightarrow> 'd port_state \<Rightarrow> 'd port_state outcome" where
  "Ahci_device_port frame_pages misc_pages port pctrlreg irq_num s =
     seq (Slab_allocator frame_pages 4096 10) (\<lambda>frames. seq (Slab_allocator misc_pages 4096 8) (\<lambda>misc.
       check (pctrlreg \<noteq> None) Assertion
         (Inr (s\<lparr>port_num := port, port_base := the pctrlreg, irq := irq_num, initialized := False,
            cmd_frame_allocator := frames, misc_allocator := misc\<rparr>))))"

definition hw_start :: "'d hba_env \<Rightarrow> ('d port_state, unit) action" where
  "hw_start E =
     andthen (read_px E ''pxcmd'') (\<lambda>pxcmd.
       let pxcmd1 = set_bits ahci_port_cmd_t ''st'' 0 (set_bits ahci_port_cmd_t ''fre'' 0 pxcmd) in
     andthen (write_px E ''pxcmd'' pxcmd1) (\<lambda>_.
     andthen (write_px E ''pxis'' 0xffffffff) (\<lambda>_.
     andthen (write_px E ''pxserr'' 0xffffffff) (\<lambda>_.
     andthen (write_px E ''pxie'' 0xf) (\<lambda>_.
       let pxcmd2 = set_bits ahci_port_cmd_t ''st'' 1 (set_bits ahci_port_cmd_t ''fre'' 1 pxcmd1) in
     write_px E ''pxcmd'' pxcmd2)))))"

text \<open>The condition of the loop is \<^verbatim>\<open>(!pxcmd) & AHCI_PORT_CMD_FR\<close>.\<close>

definition AHCI_PORT_CMD_FR :: u64 where
  "AHCI_PORT_CMD_FR = 2 ^ 14"

definition stop :: "'d hba_env \<Rightarrow> ('d port_state, unit) action" where
  "stop E =
     andthen (write_px E ''pxie'' 0) (\<lambda>_.
     andthen (read_px E ''pxcmd'') (\<lambda>pxcmd.
     andthen (write_px E ''pxcmd'' (set_bits ahci_port_cmd_t ''fr'' 0 (set_bits ahci_port_cmd_t ''st'' 0 pxcmd))) (\<lambda>_.
     andthen (poll_px E ''pxcmd'' (\<lambda>v. (if v = 0 then 1 else 0) AND AHCI_PORT_CMD_FR = 0)) (\<lambda>_.
     andthen (read_px E ''pxcmd'') (\<lambda>v. write_px E ''pxcmd'' (v AND NOT (2 ^ 4)))))))"

definition get_command_slot :: "u32 \<Rightarrow> ('d port_state, u64) action" where
  "get_command_slot index =
     andthen (gets command_hdr) (\<lambda>hdr. andthen (require (hdr \<noteq> 0) Assertion) (\<lambda>_. return (hdr + 32 * ucast index)))"

definition get_command_slot_p :: "u32 \<Rightarrow> ('d port_state, u64) action" where
  "get_command_slot_p index =
     andthen (require (index < 32) Assertion) (\<lambda>_. gets (\<lambda>s. command_hdr_p s + ucast index * of_nat (sizeof True ahci_cmdhdr_t)))"

text \<open>\<open>pages\<close> is the result of \<^verbatim>\<open>alloc_dma_pages\<close> for one page.\<close>

definition setup_memory :: "'d hba_env \<Rightarrow> u64 \<times> u64 \<Rightarrow> ('d port_state, unit) action" where
  "setup_memory E pages = (case pages of (virt, phys) \<Rightarrow>
     andthen (require (phys \<noteq> 0) Assertion) (\<lambda>_. andthen (require (virt \<noteq> 0) Assertion) (\<lambda>_.
     andthen (modify (\<lambda>s. s\<lparr>ram := poke (pagemap E) virt (replicate 4096 0) (ram s)\<rparr>)) (\<lambda>_.
     andthen (modify (\<lambda>s. s\<lparr>received_fis_p := phys, received_fis_v := virt\<rparr>)) (\<lambda>_.
     andthen (write_px E ''pxfb'' (LO phys)) (\<lambda>_. andthen (write_px E ''pxfbu'' (HI phys)) (\<lambda>_.
     andthen (write_px E ''pxclb'' (LO (phys + 1024))) (\<lambda>_. andthen (write_px E ''pxclbu'' (HI (phys + 1024))) (\<lambda>_.
       modify (\<lambda>s. s\<lparr>command_hdr := virt + 1024, command_hdr_p := phys + 1024\<rparr>))))))))))"

definition setup_irq_thread :: "('d port_state, unit) action" where
  "setup_irq_thread =
     andthen (gets irq) (\<lambda>i. andthen (require (0 < i) Assertion) (\<lambda>_. modify (\<lambda>s. s\<lparr>irq_thread := True\<rparr>)))"

section \<open>Commands\<close>

definition SATA_DEFAULT_BLOCK_SIZE :: u32 where
  "SATA_DEFAULT_BLOCK_SIZE = 512"

definition SATA_IDENTIFY_DEVICE_BUFFER_LENGTH :: u32 where
  "SATA_IDENTIFY_DEVICE_BUFFER_LENGTH = 512"

definition SATA_CMD_FIS_TYPE :: nat where
  "SATA_CMD_FIS_TYPE = 0x27"

definition SATA_CMD_FIS_COMMAND_INDICATOR :: nat where
  "SATA_CMD_FIS_COMMAND_INDICATOR = 0x80"

definition AHCI_CMDHDR_FLAGS_CLEAR_BUSY_UPON_OK :: u16 where
  "AHCI_CMDHDR_FLAGS_CLEAR_BUSY_UPON_OK = 0x0400"

definition AHCI_CMDHDR_FLAGS_WRITE :: u16 where
  "AHCI_CMDHDR_FLAGS_WRITE = 0x0040"

definition AHCI_CMDHDR_FLAGS_5DWCMD :: u16 where
  "AHCI_CMDHDR_FLAGS_5DWCMD = 0x0005"

text \<open>Assignments to fields of a structure at offset \<open>at\<close> of a block of bytes, in order.\<close>

fun stores :: "c_field list \<Rightarrow> nat \<Rightarrow> (string \<times> nat) list \<Rightarrow> u8 list \<Rightarrow> u8 list" where
  "stores fs at [] bs = bs"
| "stores fs at ((f, v) # xs) bs = stores fs at xs (store True fs f at v bs)"

definition update_object :: "'d hba_env \<Rightarrow> u64 \<Rightarrow> nat \<Rightarrow> (u8 list \<Rightarrow> u8 list) \<Rightarrow> ('d port_state, unit) action" where
  "update_object E v n f = modify (\<lambda>s. s\<lparr>ram := poke (pagemap E) v (f (peek (pagemap E) v n (ram s))) (ram s)\<rparr>)"

text \<open>A command frame ends with the one entry of its PRDT.\<close>

definition frame_bytes :: nat where
  "frame_bytes = prdt_offset + sizeof True ahci_cmd_prdt_t"

definition put_prdt :: "u32 \<Rightarrow> u32 \<Rightarrow> u32 \<Rightarrow> u8 list \<Rightarrow> u8 list" where
  "put_prdt low upper dbc bs =
    (let bs1 = stores ahci_cmd_prdt_t prdt_offset
           [(''data_address_low'', unat low), (''data_address_upper'', unat upper), (''reserved1'', 0)] bs;
         old = of_nat (load True ahci_cmd_prdt_t ''dbc'' prdt_offset bs1);
         new = set_bits ahci_cmd_prdt_bits ''ioc'' 0 (set_bits ahci_cmd_prdt_bits ''reserved2'' 0 (set_bits ahci_cmd_prdt_bits ''dbc'' dbc old))
     in store True ahci_cmd_prdt_t ''dbc'' prdt_offset (unat new) bs1)"

text \<open>Headers are accessed in the page \<^verbatim>\<open>setup_memory\<close> allocated, whose last 3072 bytes start with them.\<close>

definition update_header :: "'d hba_env \<Rightarrow> u64 \<Rightarrow> (u8 list \<Rightarrow> u8 list) \<Rightarrow> ('d port_state, unit) action" where
  "update_header E hdr f =
     andthen (gets command_hdr) (\<lambda>h. andthen (require (unat (hdr - h) + 32 \<le> 3072) Out_of_range) (\<lambda>_.
       update_object E hdr (sizeof True ahci_cmdhdr_t) f))"

definition put_header :: "u16 \<Rightarrow> u64 \<Rightarrow> u8 list \<Rightarrow> u8 list" where
  "put_header flags cmd_phys =
     stores ahci_cmdhdr_t 0 [(''flags'', unat flags), (''prdtl'', 1), (''bytesprocessed'', 0),
       (''cmdtable'', unat (LO cmd_phys)), (''cmdtableu'', unat (HI cmd_phys))]"

definition alloc_frame :: "('d port_state, u64 \<times> u64) action" where
  "alloc_frame s = (case alloc (cmd_frame_allocator s) of None \<Rightarrow> None | Some (Inl e) \<Rightarrow> Some (Inl e)
     | Some (Inr (p, q, a)) \<Rightarrow> Some (Inr ((p, q), s\<lparr>cmd_frame_allocator := a\<rparr>)))"

definition free_frame :: "u64 \<Rightarrow> ('d port_state, unit) action" where
  "free_frame p s = (case free p (cmd_frame_allocator s) of Inl e \<Rightarrow> Some (Inl e)
     | Inr (_, a) \<Rightarrow> Some (Inr ((), s\<lparr>cmd_frame_allocator := a\<rparr>)))"

definition alloc_misc :: "('d port_state, u64 \<times> u64) action" where
  "alloc_misc s = (case alloc (misc_allocator s) of None \<Rightarrow> None | Some (Inl e) \<Rightarrow> Some (Inl e)
     | Some (Inr (p, q, a)) \<Rightarrow> Some (Inr ((p, q), s\<lparr>misc_allocator := a\<rparr>)))"

definition free_misc :: "u64 \<Rightarrow> ('d port_state, unit) action" where
  "free_misc p s = (case free p (misc_allocator s) of Inl e \<Rightarrow> Some (Inl e)
     | Inr (_, a) \<Rightarrow> Some (Inr ((), s\<lparr>misc_allocator := a\<rparr>)))"

text \<open>The field \<^verbatim>\<open>auxilary\<close> is not assigned.\<close>

definition put_identify :: "u64 \<Rightarrow> u8 list \<Rightarrow> u8 list" where
  "put_identify prdt_phys bs =
     put_prdt (ucast prdt_phys) 0 (SATA_IDENTIFY_DEVICE_BUFFER_LENGTH - 1)
      (stores sata_std_command_frame_t 0 [(''fis_type'', SATA_CMD_FIS_TYPE), (''c'', SATA_CMD_FIS_COMMAND_INDICATOR),
        (''command'', 0xEC), (''features'', 0), (''lba_lower'', 0), (''device'', 0), (''lba_upper'', 0),
        (''features_upper'', 0), (''count'', 0), (''icc'', 0), (''control'', 0), (''reserved2'', 0)] bs)"

definition identify_device_cmd :: "'d hba_env \<Rightarrow> u64 \<Rightarrow> u64 \<Rightarrow> ('d port_state, u64) action" where
  "identify_device_cmd E cmdhdr prdt_phys =
     andthen (gets command_hdr) (\<lambda>h. andthen (require (h \<noteq> 0) Assertion) (\<lambda>_.
     andthen alloc_frame (\<lambda>(cmd, cmd_phys).
     andthen (require (cmd \<noteq> 0) Assertion) (\<lambda>_. andthen (require (cmd_phys \<noteq> 0) Assertion) (\<lambda>_.
     andthen (update_object E cmd frame_bytes (put_identify prdt_phys)) (\<lambda>_.
     andthen (update_header E cmdhdr
       (put_header (AHCI_CMDHDR_FLAGS_CLEAR_BUSY_UPON_OK OR AHCI_CMDHDR_FLAGS_5DWCMD OR 0x80) cmd_phys)) (\<lambda>_.
     return cmd)))))))"

text \<open>The frame of a queued read or write of \<open>count\<close> sectors from \<open>blocknum\<close>; \<^verbatim>\<open>fua\<close> stays as cleared.\<close>

definition put_ncq_fis :: "nat \<Rightarrow> u32 \<Rightarrow> u64 \<Rightarrow> u32 \<Rightarrow> u8 list \<Rightarrow> u8 list" where
  "put_ncq_fis command slot blocknum count bs =
    (let cleared = replicate sata_ncq_command_frame_size 0 @ drop sata_ncq_command_frame_size bs;
         fis = stores sata_ncq_command_frame_t 0
           [(''fis_type'', SATA_CMD_FIS_TYPE), (''c'', SATA_CMD_FIS_COMMAND_INDICATOR), (''command'', command),
            (''control'', 0)] cleared;
         res = store True sata_ncq_command_frame_t ''prio'' 0 (load True sata_ncq_command_frame_t ''prio'' 0 fis div 64 * 64) fis
     in stores sata_ncq_command_frame_t 0
           [(''icc'', 0), (''reserved3'', 0), (''reserved4'', 0), (''reserved5'', 0), (''reserved6'', 0),
            (''sector_count_low'', unat (count AND 0xff)), (''sector_count_high'', unat (drop_bit 8 count AND 0xff)),
            (''lba0'', unat (blocknum AND 0xff)), (''lba1'', unat (drop_bit 8 blocknum AND 0xff)),
            (''lba2'', unat (drop_bit 16 blocknum AND 0xff)), (''lba3'', unat (drop_bit 24 blocknum AND 0xff)),
            (''lba4'', unat (drop_bit 32 blocknum AND 0xff)), (''lba5'', unat (drop_bit 40 blocknum AND 0xff)),
            (''tag'', unat (push_bit 3 slot))] res)"

definition put_ncq :: "nat \<Rightarrow> u32 \<Rightarrow> u64 \<Rightarrow> u32 \<Rightarrow> u64 \<Rightarrow> u8 list \<Rightarrow> u8 list" where
  "put_ncq command slot blocknum count prdt_phys bs =
     put_prdt (LO prdt_phys) (HI prdt_phys) (SATA_DEFAULT_BLOCK_SIZE * count - 1) (put_ncq_fis command slot blocknum count bs)"

definition setup_fpdma_read_cmd :: "'d hba_env \<Rightarrow> u32 \<Rightarrow> u64 \<Rightarrow> u64 \<Rightarrow> u32 \<Rightarrow> u64 \<Rightarrow> ('d port_state, u64) action" where
  "setup_fpdma_read_cmd E slot cmdhdr blocknum count prdt_phys =
     andthen alloc_frame (\<lambda>(cmd, cmd_phys).
     andthen (require (cmd \<noteq> 0) Assertion) (\<lambda>_. andthen (require (cmd_phys \<noteq> 0) Assertion) (\<lambda>_.
     andthen (require (count \<noteq> 0) Assertion) (\<lambda>_.
     andthen (update_object E cmd frame_bytes (put_ncq 0x60 slot blocknum count prdt_phys)) (\<lambda>_.
     andthen (update_header E cmdhdr
       (put_header (5 OR (AHCI_CMDHDR_FLAGS_CLEAR_BUSY_UPON_OK OR AHCI_CMDHDR_FLAGS_5DWCMD)) cmd_phys)) (\<lambda>_.
     return cmd))))))"

definition setup_fpdma_write_cmd :: "'d hba_env \<Rightarrow> u32 \<Rightarrow> u64 \<Rightarrow> u64 \<Rightarrow> u32 \<Rightarrow> u64 \<Rightarrow> ('d port_state, u64) action" where
  "setup_fpdma_write_cmd E slot cmdhdr blocknum count prdt_phys =
     andthen alloc_frame (\<lambda>(cmd, cmd_phys).
     andthen (require (cmd \<noteq> 0) Assertion) (\<lambda>_. andthen (require (cmd_phys \<noteq> 0) Assertion) (\<lambda>_.
     andthen (require (sata_ncq_command_frame_size \<le> sata_std_command_frame_size) Assertion) (\<lambda>_.
     andthen (update_object E cmd frame_bytes (put_ncq 0x61 slot blocknum count prdt_phys)) (\<lambda>_.
     andthen (update_header E cmdhdr
       (put_header (AHCI_CMDHDR_FLAGS_CLEAR_BUSY_UPON_OK OR AHCI_CMDHDR_FLAGS_WRITE OR AHCI_CMDHDR_FLAGS_5DWCMD) cmd_phys)) (\<lambda>_.
     return cmd))))))"

text \<open>\<^verbatim>\<open>1 << slot\<close> has no value for 32 and more.\<close>

definition slot_bit :: "u32 \<Rightarrow> ('s, u32) action" where
  "slot_bit slot = (if slot < 32 then return (push_bit (unat slot) 1) else stop_with Undefined)"

definition sync_fpdma :: "'d hba_env \<Rightarrow> u32 \<Rightarrow> u64 \<Rightarrow> u32 \<Rightarrow> u64 \<Rightarrow> bool \<Rightarrow> ('d port_state, status) action" where
  "sync_fpdma E slot blocknum count prdt_p is_write =
     andthen (gets initialized) (\<lambda>i. andthen (require i Panic) (\<lambda>_.
     andthen (get_command_slot slot) (\<lambda>cmdhdr. andthen (require (cmdhdr \<noteq> 0) Assertion) (\<lambda>_.
     andthen (if is_write then setup_fpdma_write_cmd E slot cmdhdr blocknum count prdt_p
              else setup_fpdma_read_cmd E slot cmdhdr blocknum count prdt_p) (\<lambda>cmd.
     andthen (WAIT_FOR_NOT_BUSY E) (\<lambda>_.
     andthen (slot_bit slot) (\<lambda>b. andthen (write_px E ''pxsact'' b) (\<lambda>_. andthen (write_px E ''pxci'' b) (\<lambda>_.
     andthen (WAIT_FOR_NOT_BUSY E) (\<lambda>_.
     andthen (poll_for_port_interrupt E 3) (\<lambda>_.
     andthen (write_px E ''pxis'' 8) (\<lambda>_.
     andthen (free_frame cmd) (\<lambda>_. return S_OK)))))))))))))"

definition sync_fpdma_read :: "'d hba_env \<Rightarrow> u32 \<Rightarrow> u64 \<Rightarrow> u32 \<Rightarrow> u64 \<Rightarrow> ('d port_state, status) action" where
  "sync_fpdma_read E slot blk count prdt_p = sync_fpdma E slot blk count prdt_p False"

definition sync_fpdma_write :: "'d hba_env \<Rightarrow> u32 \<Rightarrow> u64 \<Rightarrow> u32 \<Rightarrow> u64 \<Rightarrow> ('d port_state, status) action" where
  "sync_fpdma_write E slot blk count prdt_p = sync_fpdma E slot blk count prdt_p True"

section \<open>Identification of the disk\<close>

text \<open>
  The copy of the model name. \<open>src\<close> is the identification data from the name on; \<open>dst\<close> is the destination array.
  An access outside either list is a fault.
\<close>

definition put_char :: "nat \<Rightarrow> u8 \<Rightarrow> u8 list \<Rightarrow> u8 list outcome" where
  "put_char i c dst = check (i < length dst) Out_of_range (Inr (dst[i := c]))"

function model_name_loop :: "u8 list \<Rightarrow> nat \<Rightarrow> nat \<Rightarrow> u8 list \<Rightarrow> (nat \<times> u8 list) outcome" where
  "model_name_loop src len i dst =
     check (i < length src) Out_of_range
      (if src ! i \<noteq> 0 \<and> i < len then
         check (i + 1 < length src) Out_of_range
          (seq (if src ! (i + 1) \<noteq> 0 then put_char i (src ! (i + 1)) dst else Inr dst) (\<lambda>dst1.
           seq (put_char (i + 1) (src ! i) dst1) (\<lambda>dst2. model_name_loop src len (i + 2) dst2)))
       else Inr (i, dst))"
  by pat_completeness auto
termination
  by (relation "measure (\<lambda>(src, len, i, dst). len - i)") auto

definition get_model_name :: "u8 list \<Rightarrow> u8 list \<Rightarrow> nat \<Rightarrow> u8 list outcome" where
  "get_model_name src dst len = seq (model_name_loop src len 0 dst) (\<lambda>(i, dst1). put_char i 0 dst1)"

definition identity_word :: "u8 list \<Rightarrow> string \<Rightarrow> u64" where
  "identity_word idata f = of_nat (load False sata_identify_data_t f 0 idata)"

definition total_blocks :: "u8 list \<Rightarrow> u64" where
  "total_blocks idata = identity_word idata ''total_lba48_0'' OR push_bit 16 (identity_word idata ''total_lba48_1'') OR
     push_bit 32 (identity_word idata ''total_lba48_2'') OR push_bit 48 (identity_word idata ''total_lba48_3'')"

definition model_name_offset :: nat where
  "model_name_offset = (case field_pos False sata_identify_data_t ''model_name'' of Some (off, _) \<Rightarrow> off | None \<Rightarrow> 0)"

definition AHCI_PORT_IS_TFES :: u32 where
  "AHCI_PORT_IS_TFES = 2 ^ 30"

definition AHCI_GHC_GHC_AE :: u32 where
  "AHCI_GHC_GHC_AE = 0x80000000"

definition AHCI_GHC_GHC_IE :: u32 where
  "AHCI_GHC_GHC_IE = 0x00000002"

text \<open>What follows the copy of the data: releasing the memory, the test for an error, the name and the capacity.\<close>

definition finish_identify :: "'d hba_env \<Rightarrow> u64 \<Rightarrow> u64 \<Rightarrow> ('d port_state, status) action" where
  "finish_identify E cmd idata =
     andthen (free_frame cmd) (\<lambda>_. andthen (free_misc idata) (\<lambda>_.
     andthen (read_px E ''pxis'') (\<lambda>pxis.
     andthen (require (pxis AND AHCI_PORT_IS_TFES = 0) Panic) (\<lambda>_.
     andthen (gets device_identity) (\<lambda>identity.
     case get_model_name (drop model_name_offset identity) (replicate 40 0) 40 of Inl e \<Rightarrow> stop_with e
     | Inr _ \<Rightarrow> andthen (modify (\<lambda>s. s\<lparr>device_capacity_blocks := total_blocks identity,
           device_capacity := total_blocks identity * ucast SATA_DEFAULT_BLOCK_SIZE\<rparr>)) (\<lambda>_. return S_OK))))))"

definition identify_device :: "'d hba_env \<Rightarrow> ('d port_state, status) action" where
  "identify_device E =
     andthen alloc_misc (\<lambda>(idata, phys).
     andthen (require (idata \<noteq> 0) Assertion) (\<lambda>_. andthen (require (phys \<noteq> 0) Assertion) (\<lambda>_.
     andthen (update_object E idata 512 (\<lambda>_. replicate 512 0)) (\<lambda>_.
     andthen (WAIT_FOR_NOT_BUSY E) (\<lambda>_.
     andthen (get_command_slot 0) (\<lambda>hdr. andthen (identify_device_cmd E hdr phys) (\<lambda>cmd.
     andthen (write_px E ''pxci'' 1) (\<lambda>_.
     andthen (poll_for_port_interrupt E
       (if (device_id E = 0x2829 \<or> device_id E = 0x2922) \<and> vendor E = 0x8086 then 0 else 1)) (\<lambda>_.
     andthen (read_px E ''pxis'') (\<lambda>_. andthen (read_px E ''pxsact'') (\<lambda>_.
     andthen (write_px E ''pxis'' (NOT 0)) (\<lambda>_.
     andthen (read_reg E (ghc_offset ''ghc'')) (\<lambda>ghc. andthen (write_reg E (ghc_offset ''ghc'') (ghc AND NOT AHCI_GHC_GHC_IE)) (\<lambda>_.
     andthen (write_reg E (ghc_offset ''is'') (NOT 0)) (\<lambda>_.
     andthen (WAIT_FOR_NOT_BUSY E) (\<lambda>_.
     andthen (read_px E ''pxserr'') (\<lambda>pxserr. andthen (require (pxserr \<noteq> 0x400000) Assertion) (\<lambda>_.
     andthen (modify (\<lambda>s. s\<lparr>device_identity := peek (pagemap E) idata (sizeof False sata_identify_data_t) (ram s)\<rparr>)) (\<lambda>_.
     finish_identify E cmd idata)))))))))))))))))))"

section \<open>Initialisation\<close>

definition init_port :: "'d hba_env \<Rightarrow> u64 \<times> u64 \<Rightarrow> ('d port_state, unit) action" where
  "init_port E pages =
     andthen (read_px E ''pxssts'') (\<lambda>pxssts.
     if get_bits ahci_port_ssts_t ''det'' pxssts = 3 then
       andthen (read_px E ''pxsig'') (\<lambda>pxsig.
       if pxsig \<noteq> 0x101 then return () else
         andthen (read_reg E (ghc_offset ''vs'')) (\<lambda>_.
         andthen (setup_memory E pages) (\<lambda>_.
         andthen (hw_start E) (\<lambda>_.
         andthen (read_px E ''pxssts'') (\<lambda>pxssts2. andthen (require (get_bits ahci_port_ssts_t ''det'' pxssts2 = 3) Assertion) (\<lambda>_.
         andthen setup_irq_thread (\<lambda>_.
         andthen (identify_device E) (\<lambda>_.
         andthen (write_px E ''pxis'' (NOT 0)) (\<lambda>_.
         modify (\<lambda>s. s\<lparr>initialized := True\<rparr>))))))))))
     else return ())"

section \<open>The controller\<close>

text \<open>
  The array \<^verbatim>\<open>_ports\<close> has an element \<open>None\<close> where nothing was assigned. The ports share the memory and the
  controller, which the device keeps; a port works on the current ones.
\<close>

record 'd ahci_device =
  num_ports :: u32
  ports :: "'d port_state option list"
  dev_irq :: u32
  dev_world :: "memory \<times> 'd"

definition AHCI_PORT_BASE :: nat where
  "AHCI_PORT_BASE = 0x100"

definition AHCI_DEV_MAX_PORTS :: nat where
  "AHCI_DEV_MAX_PORTS = 32"

text \<open>The walk over the capabilities; \<^verbatim>\<open>val\<close> has 16 bits, \<^verbatim>\<open>mmio_read8\<close> returns 8.\<close>

partial_function (option) msi_loop :: "'d hba_env \<Rightarrow> u8 \<Rightarrow> memory \<times> 'd \<Rightarrow> (memory \<times> 'd) option" where
  "msi_loop E cap w =
     (if cap = 0 then Some w else
      case read8 E (unat cap) w of (r, w1) \<Rightarrow>
        let val = (ucast r :: u16); cap1 = (ucast (drop_bit 8 val) :: u8) in
        if val AND 0xff \<noteq> 5 then msi_loop E cap1 w1
        else (case read8 E (unat cap + 2) w1 of (msi, w2) \<Rightarrow>
          msi_loop E cap1 (if msi AND 1 = 0 then write8 E (unat cap + 2) (msi OR 1) w2 else w2)))"

definition enable_msi :: "'d hba_env \<Rightarrow> ('d ahci_device, unit) action" where
  "enable_msi E d = (case read8 E 0x34 (dev_world d) of (cap, w1) \<Rightarrow>
     (case msi_loop E cap w1 of None \<Rightarrow> None | Some w2 \<Rightarrow> Some (Inr ((), d\<lparr>dev_world := w2\<rparr>))))"

definition read_ghc :: "'d hba_env \<Rightarrow> string \<Rightarrow> ('d ahci_device, u32) action" where
  "read_ghc E f d = (case read32 E (ghc_offset f) (dev_world d) of (v, w) \<Rightarrow> Some (Inr (v, d\<lparr>dev_world := w\<rparr>)))"

definition write_ghc :: "'d hba_env \<Rightarrow> string \<Rightarrow> u32 \<Rightarrow> ('d ahci_device, unit) action" where
  "write_ghc E f v = modify (\<lambda>d. d\<lparr>dev_world := write32 E (ghc_offset f) v (dev_world d)\<rparr>)"

definition reset_controller :: "'d hba_env \<Rightarrow> ('d ahci_device, unit) action" where
  "reset_controller E = modify (\<lambda>d. if vendor E = 0x8086 then d\<lparr>dev_world := config_write16 E 0x92 0xFFFF (dev_world d)\<rparr> else d)"

text \<open>\<open>vectors\<close> are the interrupt vectors the kernel hands out.\<close>

definition setup_msi_interrupt :: "u32 list \<Rightarrow> ('d ahci_device, unit) action" where
  "setup_msi_interrupt vectors =
     andthen (require (vectors \<noteq> []) Out_of_range) (\<lambda>_. modify (\<lambda>d. d\<lparr>dev_irq := hd vectors\<rparr>))"

definition check_cap_ncq :: "'d hba_env \<Rightarrow> ('d ahci_device, bool) action" where
  "check_cap_ncq E = andthen (read_ghc E ''cap'') (\<lambda>cap. return (cap AND 2 ^ 30 \<noteq> 0))"

text \<open>\<^verbatim>\<open>cap_show\<close> ends the process (\<open>False\<close>) without native command queuing.\<close>

definition cap_show :: "'d hba_env \<Rightarrow> ('d ahci_device, bool) action" where
  "cap_show E = andthen (read_ghc E ''cap'') (\<lambda>caps. return (caps AND 0x40000000 \<noteq> 0))"

text \<open>
  \<open>given i\<close> are the pages handed out to port \<open>i\<close>: for its two allocators and for its command list; \<open>fresh i\<close> is the
  new object before its constructor runs.
\<close>

type_synonym port_pages = "(u64 \<Rightarrow> u64 \<times> u64) \<times> (u64 \<Rightarrow> u64 \<times> u64) \<times> (u64 \<times> u64)"

definition run_init :: "'d hba_env \<Rightarrow> u64 \<times> u64 \<Rightarrow> nat \<Rightarrow> 'd port_state \<Rightarrow> ('d ahci_device, unit) action" where
  "run_init E pages i p d = (case init_port E pages (set_world (dev_world d) p) of
       None \<Rightarrow> None
     | Some (Inl e) \<Rightarrow> Some (Inl e)
     | Some (Inr (_, p')) \<Rightarrow> Some (Inr ((), d\<lparr>ports := (ports d)[i := Some p'], dev_world := world p'\<rparr>)))"

definition scan_port :: "'d hba_env \<Rightarrow> port_pages \<Rightarrow> 'd port_state \<Rightarrow> u32 \<Rightarrow> nat \<Rightarrow> ('d ahci_device, unit) action" where
  "scan_port E given fresh irq_num i = (case given of (frame_pages, misc_pages, pages) \<Rightarrow>
     (case Ahci_device_port frame_pages misc_pages (of_nat i) (Some (AHCI_PORT_BASE + i * sizeof True ahci_port_t)) irq_num fresh of
       Inl e \<Rightarrow> stop_with e
     | Inr p \<Rightarrow> andthen (require (i < AHCI_DEV_MAX_PORTS) Out_of_range) (\<lambda>_. run_init E pages i p)))"

fun scan_from :: "'d hba_env \<Rightarrow> (nat \<Rightarrow> port_pages) \<Rightarrow> (nat \<Rightarrow> 'd port_state) \<Rightarrow> u32 \<Rightarrow> nat list \<Rightarrow> ('d ahci_device, unit) action" where
  "scan_from E given fresh irq_num [] = return ()"
| "scan_from E given fresh irq_num (i # is) =
     andthen (scan_port E (given i) (fresh i) irq_num i) (\<lambda>_. scan_from E given fresh irq_num is)"

definition scan_ports :: "'d hba_env \<Rightarrow> (nat \<Rightarrow> port_pages) \<Rightarrow> (nat \<Rightarrow> 'd port_state) \<Rightarrow> u32 \<Rightarrow> ('d ahci_device, status) action" where
  "scan_ports E given fresh irq_num =
     andthen (read_ghc E ''cap'') (\<lambda>cap.
     let n = (cap AND 0x1f) + 1 in
     andthen (modify (\<lambda>d. d\<lparr>num_ports := n\<rparr>)) (\<lambda>_.
     andthen (read_ghc E ''pi'') (\<lambda>_.
     andthen (require (n \<noteq> 0) Panic) (\<lambda>_.
     andthen (require (sizeof True ahci_port_t * unat n < 4096 * 2) Assertion) (\<lambda>_.
     andthen (scan_from E given fresh irq_num [0..<unat n]) (\<lambda>_. return S_OK))))))"

text \<open>The result is \<open>False\<close> when the process ends in \<^verbatim>\<open>cap_show\<close>.\<close>

definition init_device :: "'d hba_env \<Rightarrow> (nat \<Rightarrow> port_pages) \<Rightarrow> (nat \<Rightarrow> 'd port_state) \<Rightarrow> u32 list \<Rightarrow> ('d ahci_device, bool) action" where
  "init_device E given fresh vectors =
     andthen (read_ghc E ''ghc'') (\<lambda>ghc. andthen (write_ghc E ''ghc'' (ghc OR AHCI_GHC_GHC_AE)) (\<lambda>_.
     andthen (read_ghc E ''ccc_ctl'') (\<lambda>ccc. andthen (write_ghc E ''ccc_ctl'' (set_bits ahci_ghc_ccc_ctl_t ''en'' 0 ccc)) (\<lambda>_.
     andthen (enable_msi E) (\<lambda>_.
     andthen (write_ghc E ''is'' (NOT 0)) (\<lambda>_.
     andthen (read_ghc E ''ghc'') (\<lambda>ghc2. andthen (write_ghc E ''ghc'' (ghc2 OR (AHCI_GHC_GHC_AE OR AHCI_GHC_GHC_IE))) (\<lambda>_.
     andthen (read_ghc E ''cap'') (\<lambda>_.
     andthen (cap_show E) (\<lambda>ncq.
     if \<not> ncq then return False else
       andthen (reset_controller E) (\<lambda>_. andthen (setup_msi_interrupt vectors) (\<lambda>_.
       andthen (gets dev_irq) (\<lambda>i. andthen (scan_ports E given fresh i) (\<lambda>_. return True))))))))))))))"

text \<open>An element that was not assigned has no defined value.\<close>

definition port_at :: "u32 \<Rightarrow> 'd ahci_device \<Rightarrow> 'd port_state outcome" where
  "port_at i d = check (unat i < AHCI_DEV_MAX_PORTS) Assertion
     (case ports d ! unat i of None \<Rightarrow> Inl Undefined | Some p \<Rightarrow> Inr (set_world (dev_world d) p))"

section \<open>The layout of headers and frames\<close>

lemma cmdhdr_pos:
  "field_pos True ahci_cmdhdr_t ''flags'' = Some (0, 2)" "field_pos True ahci_cmdhdr_t ''prdtl'' = Some (2, 2)"
  "field_pos True ahci_cmdhdr_t ''bytesprocessed'' = Some (4, 4)" "field_pos True ahci_cmdhdr_t ''cmdtable'' = Some (8, 4)"
  "field_pos True ahci_cmdhdr_t ''cmdtableu'' = Some (12, 4)" "sizeof True ahci_cmdhdr_t = 32"
  by (simp_all add: field_pos_def ahci_cmdhdr_t_def aligned_offset_def sizeof_def)

lemma prdt_pos:
  "field_pos True ahci_cmd_prdt_t ''data_address_low'' = Some (0, 4)"
  "field_pos True ahci_cmd_prdt_t ''data_address_upper'' = Some (4, 4)"
  "field_pos True ahci_cmd_prdt_t ''reserved1'' = Some (8, 4)" "field_pos True ahci_cmd_prdt_t ''dbc'' = Some (12, 4)"
  "prdt_offset = 128" "frame_bytes = 144"
  by (simp_all add: field_pos_def ahci_cmd_prdt_t_def aligned_offset_def prdt_offset_def frame_bytes_def sizeof_def)

lemma ncq_pos:
  "field_pos True sata_ncq_command_frame_t ''fis_type'' = Some (0, 1)"
  "field_pos True sata_ncq_command_frame_t ''c'' = Some (1, 1)"
  "field_pos True sata_ncq_command_frame_t ''command'' = Some (2, 1)"
  "field_pos True sata_ncq_command_frame_t ''sector_count_low'' = Some (3, 1)"
  "field_pos True sata_ncq_command_frame_t ''lba0'' = Some (4, 1)"
  "field_pos True sata_ncq_command_frame_t ''lba1'' = Some (5, 1)"
  "field_pos True sata_ncq_command_frame_t ''lba2'' = Some (6, 1)"
  "field_pos True sata_ncq_command_frame_t ''lba3'' = Some (8, 1)"
  "field_pos True sata_ncq_command_frame_t ''lba4'' = Some (9, 1)"
  "field_pos True sata_ncq_command_frame_t ''lba5'' = Some (10, 1)"
  "field_pos True sata_ncq_command_frame_t ''sector_count_high'' = Some (11, 1)"
  "field_pos True sata_ncq_command_frame_t ''tag'' = Some (12, 1)"
  "field_pos True sata_ncq_command_frame_t ''prio'' = Some (13, 1)"
  "field_pos True sata_ncq_command_frame_t ''icc'' = Some (14, 1)"
  "field_pos True sata_ncq_command_frame_t ''control'' = Some (15, 1)"
  "field_pos True sata_ncq_command_frame_t ''reserved3'' = Some (16, 1)"
  "field_pos True sata_ncq_command_frame_t ''reserved4'' = Some (17, 1)"
  "field_pos True sata_ncq_command_frame_t ''reserved5'' = Some (18, 1)"
  "field_pos True sata_ncq_command_frame_t ''reserved6'' = Some (19, 1)"
  "sata_ncq_command_frame_size = 128"
  by (simp_all add: field_pos_def sata_ncq_command_frame_t_def aligned_offset_def sata_ncq_command_frame_size_def
      prdt_offset_def sizeof_def)

lemma std_size: "sata_std_command_frame_size = 128"
  by (simp add: sata_std_command_frame_size_def prdt_offset_def sizeof_def sata_std_command_frame_t_def aligned_offset_def)

lemma port_register_offsets:
  "sizeof True ahci_port_t = 0x80" "port_offset ''pxclb'' = 0" "port_offset ''pxclbu'' = 4" "port_offset ''pxfb'' = 8"
  "port_offset ''pxfbu'' = 0xc" "port_offset ''pxis'' = 0x10" "port_offset ''pxie'' = 0x14" "port_offset ''pxcmd'' = 0x18"
  "port_offset ''pxtfd'' = 0x20" "port_offset ''pxsig'' = 0x24" "port_offset ''pxssts'' = 0x28" "port_offset ''pxserr'' = 0x30"
  "port_offset ''pxsact'' = 0x34" "port_offset ''pxci'' = 0x38"
  by (simp_all add: port_offset_def field_pos_def ahci_port_t_def aligned_offset_def sizeof_def)

lemma ghc_register_offsets:
  "ghc_offset ''cap'' = 0" "ghc_offset ''ghc'' = 4" "ghc_offset ''is'' = 8" "ghc_offset ''pi'' = 0xc" "ghc_offset ''vs'' = 0x10"
  "ghc_offset ''ccc_ctl'' = 0x14"
  by (simp_all add: ghc_offset_def field_pos_def ahci_ghc_t_def aligned_offset_def)

lemma LO_HI: "unat (LO p) + 4294967296 * unat (HI p) = unat p"
proof -
  have "p AND 0xffffffff = take_bit 32 p" by (simp add: take_bit_eq_mask mask_eq_exp_minus_1)
  then have "unat (LO p) = unat p mod 2 ^ 32"
    by (simp add: LO_def unsigned_ucast_eq unsigned_take_bit_eq take_bit_nat_def)
  moreover have "unat (HI p) = unat p div 2 ^ 32"
    using unat_bound [of p] by (simp add: HI_def unsigned_ucast_eq unsigned_drop_bit_eq drop_bit_nat_def take_bit_nat_def)
  ultimately show ?thesis by simp
qed

lemma prdt_bits:
  "set_bits ahci_cmd_prdt_bits ''ioc'' 0 (set_bits ahci_cmd_prdt_bits ''reserved2'' 0 (set_bits ahci_cmd_prdt_bits ''dbc'' v x)) =
    take_bit 22 v"
proof (rule bit_word_eqI)
  fix n
  assume "n < LENGTH(32)"
  moreover have "bit (2147483648 :: u32) n \<longleftrightarrow> n = 31"
    using bit_word_exp [of n 31, where ?'a = 32] calculation by auto
  ultimately show "bit (set_bits ahci_cmd_prdt_bits ''ioc'' 0 (set_bits ahci_cmd_prdt_bits ''reserved2'' 0
      (set_bits ahci_cmd_prdt_bits ''dbc'' v x))) n = bit (take_bit 22 v) n"
    unfolding set_bits_def ahci_cmd_prdt_bits_def by (auto simp: bit_simps)
qed

lemma put_header_fields:
  assumes "length bs = 32"
  shows "get_le 0 2 (put_header flags q bs) = unat flags" "get_le 2 2 (put_header flags q bs) = 1"
    "get_le 8 8 (put_header flags q bs) = unat q" "length (put_header flags q bs) = 32"
proof -
  have le: "get_le 8 8 b = get_le 8 4 b + 4294967296 * get_le 12 4 b" for b
    using get_le_split [of 8 4 4 b] by simp
  have b: "unat (LO q) mod 4294967296 = unat (LO q)" "unat (HI q) mod 4294967296 = unat (HI q)" "unat flags mod 65536 = unat flags"
    using unat_bound [of "LO q"] unat_bound [of "HI q"] unat_bound [of flags] by simp_all
  show "get_le 0 2 (put_header flags q bs) = unat flags" "get_le 2 2 (put_header flags q bs) = 1"
    "length (put_header flags q bs) = 32"
    using assms b by (simp_all add: put_header_def store_def cmdhdr_pos get_put_disjoint get_put_same)
  have "get_le 8 4 (put_header flags q bs) = unat (LO q)" "get_le 12 4 (put_header flags q bs) = unat (HI q)"
    using assms b by (simp_all add: put_header_def store_def cmdhdr_pos get_put_disjoint get_put_same)
  then show "get_le 8 8 (put_header flags q bs) = unat q" by (simp add: le LO_HI)
qed

lemma put_prdt_fields:
  assumes "length bs = 144"
  shows "get_le 128 8 (put_prdt (LO a) (HI a) dbc bs) = unat a" "get_le 140 4 (put_prdt low upper dbc bs) = unat dbc mod 2 ^ 22"
    "i < 128 \<Longrightarrow> put_prdt low upper dbc bs ! i = bs ! i" "length (put_prdt low upper dbc bs) = 144"
proof -
  have le: "get_le 128 8 b = get_le 128 4 b + 4294967296 * get_le 132 4 b" for b
    using get_le_split [of 128 4 4 b] by simp
  have b: "unat x mod 4294967296 = unat x" for x :: u32 using unat_bound [of x] by simp
  note defs = put_prdt_def store_def prdt_pos get_put_disjoint get_put_same prdt_bits Let_def
  have "get_le 128 4 (put_prdt (LO a) (HI a) dbc bs) = unat (LO a)" "get_le 132 4 (put_prdt (LO a) (HI a) dbc bs) = unat (HI a)"
    using assms b by (simp_all add: defs)
  then show "get_le 128 8 (put_prdt (LO a) (HI a) dbc bs) = unat a" by (simp add: le LO_HI)
  have "unat (take_bit 22 dbc) = unat dbc mod 2 ^ 22" by (simp add: unsigned_take_bit_eq take_bit_nat_def)
  then show "get_le 140 4 (put_prdt low upper dbc bs) = unat dbc mod 2 ^ 22"
    using assms b [of "take_bit 22 dbc"] by (simp add: defs)
  show "i < 128 \<Longrightarrow> put_prdt low upper dbc bs ! i = bs ! i" "length (put_prdt low upper dbc bs) = 144"
    using assms by (simp_all add: defs put_le_outside)
qed

lemma byte_of: "unat (drop_bit k x AND 0xff) = unat x div 2 ^ k mod 256" for x :: "'a::len word"
proof -
  have "(0xff :: 'a word) = mask 8" by (simp add: mask_eq_exp_minus_1)
  then have "unat (drop_bit k x AND 0xff) = unat (drop_bit k x) mod 2 ^ 8" by (simp only: unat_and_mask)
  moreover have "unat (drop_bit k x) = unat x div 2 ^ k"
    by (metis drop_bit_nat_def unsigned_drop_bit_eq take_bit_nat_eq_self unat_bound)
  ultimately show ?thesis by simp
qed

lemmas low_byte = byte_of [where k = 0, simplified]

text \<open>The contents of the command FIS of a queued command.\<close>

definition ncq_fis :: "nat \<Rightarrow> u32 \<Rightarrow> u64 \<Rightarrow> u32 \<Rightarrow> u8 list \<Rightarrow> bool" where
  "ncq_fis command slot blocknum count f \<longleftrightarrow>
     f ! 0 = 0x27 \<and> f ! 1 = 0x80 \<and> f ! 2 = of_nat command \<and>
     unat (f ! 3) = unat count mod 256 \<and> unat (f ! 11) = unat count div 2 ^ 8 mod 256 \<and>
     unat (f ! 4) = unat blocknum mod 256 \<and> unat (f ! 5) = unat blocknum div 2 ^ 8 mod 256 \<and>
     unat (f ! 6) = unat blocknum div 2 ^ 16 mod 256 \<and> unat (f ! 8) = unat blocknum div 2 ^ 24 mod 256 \<and>
     unat (f ! 9) = unat blocknum div 2 ^ 32 mod 256 \<and> unat (f ! 10) = unat blocknum div 2 ^ 40 mod 256 \<and>
     f ! 12 = ucast (push_bit 3 slot)"

lemma put_ncq_fis_bytes:
  "\<exists>c v. length c = max 128 (length bs) \<and> put_ncq_fis command slot blocknum count bs =
    c[0 := 0x27, 1 := 0x80, 2 := of_nat command, 15 := 0, 13 := v, 14 := 0, 16 := 0, 17 := 0, 18 := 0, 19 := 0,
      3 := of_nat (unat count mod 256), 11 := of_nat (unat count div 2 ^ 8 mod 256), 4 := of_nat (unat blocknum mod 256),
      5 := of_nat (unat blocknum div 2 ^ 8 mod 256), 6 := of_nat (unat blocknum div 2 ^ 16 mod 256),
      8 := of_nat (unat blocknum div 2 ^ 24 mod 256), 9 := of_nat (unat blocknum div 2 ^ 32 mod 256),
      10 := of_nat (unat blocknum div 2 ^ 40 mod 256), 12 := ucast (push_bit 3 slot)]"
  unfolding put_ncq_fis_def Let_def byte_of
  unfolding low_byte
  apply (rule exI [of _ "replicate 128 0 @ drop 128 bs"])
  apply (simp add: store_def ncq_pos SATA_CMD_FIS_TYPE_def SATA_CMD_FIS_COMMAND_INDICATOR_def)
  apply (intro conjI)
   apply arith
  apply (rule exI, rule refl)
  done

lemma put_ncq_fis_fields:
  assumes "length bs = 144"
  shows "ncq_fis command slot blocknum count (put_ncq_fis command slot blocknum count bs)"
    "length (put_ncq_fis command slot blocknum count bs) = 144"
proof -
  obtain c v where c: "length c = 144" "put_ncq_fis command slot blocknum count bs =
    c[0 := 0x27, 1 := 0x80, 2 := of_nat command, 15 := 0, 13 := v, 14 := 0, 16 := 0, 17 := 0, 18 := 0, 19 := 0,
      3 := of_nat (unat count mod 256), 11 := of_nat (unat count div 2 ^ 8 mod 256), 4 := of_nat (unat blocknum mod 256),
      5 := of_nat (unat blocknum div 2 ^ 8 mod 256), 6 := of_nat (unat blocknum div 2 ^ 16 mod 256),
      8 := of_nat (unat blocknum div 2 ^ 24 mod 256), 9 := of_nat (unat blocknum div 2 ^ 32 mod 256),
      10 := of_nat (unat blocknum div 2 ^ 40 mod 256), 12 := ucast (push_bit 3 slot)]"
    using put_ncq_fis_bytes [of bs command slot blocknum count] assms by auto
  have "unat (of_nat (n mod 256) :: u8) = n mod 256" for n by (simp add: unat_of_nat)
  then show "ncq_fis command slot blocknum count (put_ncq_fis command slot blocknum count bs)"
    unfolding c(2) ncq_fis_def using c(1) by (intro conjI) simp_all
  show "length (put_ncq_fis command slot blocknum count bs) = 144" using c by simp
qed

lemma put_ncq_fields:
  assumes "length bs = 144"
  shows "ncq_fis command slot blocknum count (put_ncq command slot blocknum count a bs)"
    "get_le 128 8 (put_ncq command slot blocknum count a bs) = unat a"
    "get_le 140 4 (put_ncq command slot blocknum count a bs) = unat (512 * count - 1) mod 2 ^ 22"
    "length (put_ncq command slot blocknum count a bs) = 144"
proof -
  note fis = put_ncq_fis_fields [OF assms, of command slot blocknum count]
  show "ncq_fis command slot blocknum count (put_ncq command slot blocknum count a bs)"
    using fis(1) unfolding put_ncq_def ncq_fis_def by (simp add: put_prdt_fields(3) [OF fis(2)])
  show "get_le 128 8 (put_ncq command slot blocknum count a bs) = unat a"
    "get_le 140 4 (put_ncq command slot blocknum count a bs) = unat (512 * count - 1) mod 2 ^ 22"
    "length (put_ncq command slot blocknum count a bs) = 144"
    unfolding put_ncq_def SATA_DEFAULT_BLOCK_SIZE_def using put_prdt_fields [OF fis(2)] by simp_all
qed

section \<open>The model name\<close>

fun swap_pairs :: "'a list \<Rightarrow> 'a list" where
  "swap_pairs (a # b # xs) = b # a # swap_pairs xs"
| "swap_pairs xs = xs"

lemma length_swap_pairs [simp]: "length (swap_pairs xs) = length xs"
  by (induction xs rule: swap_pairs.induct) simp_all

text \<open>The loop from position \<open>i\<close>, where \<open>k\<close> is the position at which it ends.\<close>

lemma model_name_loop_spec:
  assumes "i + 2 * n = k" "\<forall>x. i \<le> x \<and> x < k \<longrightarrow> src ! x \<noteq> 0" "k < length src" "k \<le> len" "k \<le> length dst" "src ! k = 0 \<or> k = len"
  shows "model_name_loop src len i dst = Inr (k, take i dst @ swap_pairs (take (k - i) (drop i src)) @ drop k dst)"
  using assms(1,2,5)
proof (induction n arbitrary: i dst)
  case 0
  then show ?case using assms(3,4,6) by (subst model_name_loop.simps) auto
next
  case (Suc n)
  have i: "i + 1 < k" "i < length src" "i + 1 < length src" "i + 1 < length dst" using Suc.prems assms(3) by simp_all
  have c: "src ! i \<noteq> 0" "src ! (i + 1) \<noteq> 0" "i < len" using Suc.prems(2) i(1) assms(4) by simp_all
  let ?dst = "dst[i := src ! (i + 1), i + 1 := src ! i]"
  have "model_name_loop src len i dst = model_name_loop src len (i + 2) ?dst"
    using i c by (subst model_name_loop.simps) (simp add: put_char_def)
  also have "\<dots> = Inr (k, take (i + 2) ?dst @ swap_pairs (take (k - (i + 2)) (drop (i + 2) src)) @ drop k ?dst)"
    by (rule Suc.IH) (use Suc.prems in simp_all)
  also have "take (i + 2) ?dst = take i dst @ [src ! (i + 1), src ! i]"
    using i(4) by (intro nth_equalityI) (auto simp: nth_append nth_list_update nth_Cons split: nat.splits)
  also have "drop k ?dst = drop k dst" using i(1) by simp
  also have "drop i src = src ! i # src ! (i + 1) # drop (i + 2) src"
    using i(2,3) by (metis Cons_nth_drop_Suc Suc_eq_plus1 add_2_eq_Suc')
  then have "take (k - i) (drop i src) = src ! i # src ! (i + 1) # take (k - (i + 2)) (drop (i + 2) src)"
  proof -
    have "k - i = Suc (Suc (k - (i + 2)))" using i(1) by simp
    then show ?thesis using \<open>drop i src = _\<close> by (simp only: take_Suc_Cons)
  qed
  then have "[src ! (i + 1), src ! i] @ swap_pairs (take (k - (i + 2)) (drop (i + 2) src)) = swap_pairs (take (k - i) (drop i src))"
    by simp
  then have "(take i dst @ [src ! (i + 1), src ! i]) @ swap_pairs (take (k - (i + 2)) (drop (i + 2) src)) @ drop k dst =
    take i dst @ swap_pairs (take (k - i) (drop i src)) @ drop k dst"
    by (metis append.assoc)
  finally show ?case .
qed

text \<open>
  The copy of the model name swaps the two characters of each word. A name that ends before its 40th character
  is copied and terminated. A name of 40 characters, as disks pad theirs with spaces, is terminated one byte behind
  the array of 40 bytes.
\<close>

theorem model_name_copy:
  assumes "length dst = 40" "40 < length src" "k \<le> 40" "even k" "\<forall>x < k. src ! x \<noteq> 0" "src ! k = 0 \<or> k = 40"
  shows "get_model_name src dst 40 =
    (if k < 40 then Inr (swap_pairs (take k src) @ 0 # drop (k + 1) dst) else Inl Out_of_range)"
proof -
  obtain n where n: "0 + 2 * n = k" using assms(4) by (auto elim: evenE)
  have "model_name_loop src 40 0 dst = Inr (k, take 0 dst @ swap_pairs (take (k - 0) (drop 0 src)) @ drop k dst)"
    by (rule model_name_loop_spec [OF n]) (use assms in auto)
  moreover have "(swap_pairs (take k src) @ drop k dst)[k := 0] = swap_pairs (take k src) @ 0 # drop (k + 1) dst" if "k < 40"
    using that assms(1,2) by (simp add: list_update_append Cons_nth_drop_Suc [symmetric])
  ultimately show ?thesis using assms(1-3) by (simp add: get_model_name_def put_char_def)
qed

section \<open>Stopping, and message signalled interrupts\<close>

lemma poll_once: "(\<And>v. until v) \<Longrightarrow> poll_px E f until = andthen (read_px E f) (\<lambda>_. return ())"
  by (rule ext, subst poll_px.simps) (simp add: andthen_def read_px_def read_reg_def return_def split: prod.split)

text \<open>
  Stopping a port does not wait. The loop that should wait for the port to stop receiving ends after its first
  read of the register, whatever the value: the condition negates the register before it selects the bit.
\<close>

theorem stop_no_wait:
  "stop E =
     andthen (write_px E ''pxie'' 0) (\<lambda>_.
     andthen (read_px E ''pxcmd'') (\<lambda>pxcmd.
     andthen (write_px E ''pxcmd'' (set_bits ahci_port_cmd_t ''fr'' 0 (set_bits ahci_port_cmd_t ''st'' 0 pxcmd))) (\<lambda>_.
     andthen (andthen (read_px E ''pxcmd'') (\<lambda>_. return ())) (\<lambda>_.
     andthen (read_px E ''pxcmd'') (\<lambda>v. write_px E ''pxcmd'' (v AND NOT (2 ^ 4)))))))"
proof -
  have "(if v = 0 then 1 else 0) AND AHCI_PORT_CMD_FR = 0" for v :: u32 by (simp add: AHCI_PORT_CMD_FR_def)
  then show ?thesis unfolding stop_def by (subst poll_once) simp_all
qed

text \<open>
  Enabling message signalled interrupts ends after the first capability. The walk returns for every content of
  the registers, and looks at the capability the pointer at offset 0x34 selects and at no other: the pointer to the
  next one is in bits 8 to 15 of what it reads, which are always zero because it reads 8 bits.
\<close>

theorem enable_msi_first_capability:
  "enable_msi E d = Some (Inr ((), d\<lparr>dev_world := (case read8 E 0x34 (dev_world d) of (cap, w) \<Rightarrow>
     if cap = 0 then w else (case read8 E (unat cap) w of (r, w1) \<Rightarrow>
       if r \<noteq> 5 then w1 else (case read8 E (unat cap + 2) w1 of (msi, w2) \<Rightarrow>
         if msi AND 1 = 0 then write8 E (unat cap + 2) (msi OR 1) w2 else w2)))\<rparr>))"
proof -
  have next0: "(ucast (drop_bit 8 (ucast r :: u16)) :: u8) = 0" for r :: u8
    by (rule bit_word_eqI) (auto simp: bit_simps dest: bit_imp_le_length)
  have low: "unat (ucast r :: u16) = unat r" for r :: u8
    using unat_bound [of r] by (simp add: unsigned_ucast_eq take_bit_nat_eq_self)
  have "(ucast r :: u16) AND 0xff = ucast r" for r :: u8
    using unat_bound [of r] by (simp add: word_unat_eq_iff low_byte [simplified] low)
  then have five: "(ucast r :: u16) AND 0xff \<noteq> 5 \<longleftrightarrow> r \<noteq> 5" for r :: u8
    by (simp add: word_unat_eq_iff low)
  have fin: "msi_loop E 0 w = Some w" for w by (simp add: msi_loop.simps)
  obtain cap w r w1 msi w2 where reads: "read8 E 0x34 (dev_world d) = (cap, w)" "read8 E (unat cap) w = (r, w1)"
    "read8 E (unat cap + 2) w1 = (msi, w2)"
    by (metis prod.exhaust)
  then show ?thesis
    unfolding enable_msi_def by (simp add: msi_loop.simps [of E cap w] fin next0 five Let_def)
qed

end
