(* ===== verification/XDK_AHCI_Transfer.thy ===== *)
theory XDK_AHCI_Transfer
  imports XDK_AHCI
begin

text \<open>
  Transfers of the AHCI driver. The first part shows that the structures the driver writes are the command a
  controller is specified to fetch for the request. The second part composes the driver with a controller that
  executes the commands it fetches: sequences of reads and writes have their effect on memory and disk, and the
  driver gives back every command frame.
\<close>

section \<open>Physical memory\<close>

definition region :: "u64 \<Rightarrow> nat \<Rightarrow> u64 set" where
  "region p n = {a. unat p \<le> unat a \<and> unat a < unat p + n}"

text \<open>The page table maps \<open>n\<close> bytes from \<open>v\<close> to contiguous physical memory from \<open>p\<close>.\<close>

definition maps :: "(u64 \<Rightarrow> u64) \<Rightarrow> u64 \<Rightarrow> u64 \<Rightarrow> nat \<Rightarrow> bool" where
  "maps pa v p n \<longleftrightarrow> unat p + n \<le> 2 ^ 64 \<and> (\<forall>i < n. pa (v + of_nat i) = p + of_nat i)"

lemma add_offset_unat: "unat p + i < 2 ^ 64 \<Longrightarrow> unat (p + of_nat i) = unat p + i" for p :: u64
  by (subst unat_add_small) (simp_all add: unat_of_nat)

lemma region_offset: "unat p + n \<le> 2 ^ 64 \<Longrightarrow> i < n \<Longrightarrow> p + of_nat i \<in> region p n"
  by (simp add: region_def add_offset_unat)

lemma region_cases: "a \<in> region p n \<Longrightarrow> \<exists>i < n. a = p + of_nat i"
proof -
  assume a: "a \<in> region p n"
  then have "unat p + (unat a - unat p) < 2 ^ 64" using unat_bound [of a] by (simp add: region_def)
  then have "unat (p + of_nat (unat a - unat p)) = unat a" using a by (subst add_offset_unat) (simp_all add: region_def)
  then have "a = p + of_nat (unat a - unat p)" by (simp add: word_unat_eq_iff)
  then show ?thesis using a by (intro exI [of _ "unat a - unat p"]) (auto simp: region_def)
qed

lemma maps_sub:
  assumes "maps pa v p n" "k + l \<le> n"
  shows "maps pa (v + of_nat k) (p + of_nat k) l"
proof (cases "l = 0")
  case True
  then show ?thesis using unat_bound [of "p + of_nat k"] by (simp add: maps_def)
next
  case False
  then have "unat (p + of_nat k) = unat p + k" using assms by (intro add_offset_unat) (simp add: maps_def)
  moreover have "pa (v + of_nat k + of_nat i) = p + of_nat k + of_nat i" if "i < l" for i
    using assms that by (auto simp: maps_def add.assoc simp flip: of_nat_add)
  ultimately show ?thesis using assms by (simp add: maps_def)
qed

lemma poke_outside: "\<forall>i < length bs. a \<noteq> pa (v + of_nat i) \<Longrightarrow> poke pa v bs m a = m a"
proof (induction bs arbitrary: v m)
  case (Cons b bs)
  have "a \<noteq> pa (v + of_nat 0)" using Cons.prems by blast
  then have "a \<noteq> pa v" by simp
  moreover have "\<forall>i < length bs. a \<noteq> pa (v + 1 + of_nat i)"
  proof (intro allI impI)
    fix i
    assume "i < length bs"
    moreover have "v + 1 + of_nat i = v + of_nat (Suc i)" by simp
    ultimately show "a \<noteq> pa (v + 1 + of_nat i)" using Cons.prems by (metis Suc_less_eq length_Cons)
  qed
  ultimately show ?case using Cons.IH [of "v + 1"] by simp
qed simp

lemma poke_region:
  assumes "maps pa v p n" "length bs \<le> n" "a \<notin> region p n"
  shows "poke pa v bs m a = m a"
  using assms region_offset [of p n] by (intro poke_outside) (auto simp: maps_def)

lemma poke_at: "maps pa v p (length bs) \<Longrightarrow> i < length bs \<Longrightarrow> poke pa v bs m (p + of_nat i) = bs ! i"
proof (induction bs arbitrary: v p m i)
  case (Cons b bs)
  have m1: "maps pa (v + 1) (p + 1) (length bs)" using maps_sub [OF Cons.prems(1), of 1 "length bs"] by simp
  show ?case
  proof (cases i)
    case 0
    have "pa (v + of_nat 0) = p + of_nat 0" using Cons.prems unfolding maps_def by blast
    then have "pa v = p" by simp
    moreover have "p \<noteq> pa (v + 1 + of_nat k)" if "k < length bs" for k
    proof
      assume "p = pa (v + 1 + of_nat k)"
      also have "\<dots> = p + 1 + of_nat k" using m1 that unfolding maps_def by blast
      also have "\<dots> = p + of_nat (Suc k)" by simp
      finally have "p = p + of_nat (Suc k)" .
      moreover have "unat (p + of_nat (Suc k)) = unat p + Suc k"
        using Cons.prems(1) that by (intro add_offset_unat) (simp add: maps_def)
      ultimately show False by (metis add_eq_self_zero nat.distinct(1))
    qed
    ultimately have "poke pa (v + 1) bs (m(pa v := b)) p = b" by (subst poke_outside) auto
    then show ?thesis using 0 by simp
  next
    case (Suc k)
    have e: "p + of_nat i = p + 1 + of_nat k" using Suc by simp
    show ?thesis unfolding e poke.simps using Cons.IH [OF m1, of k] Cons.prems(2) Suc by simp
  qed
qed simp

lemma peek_poke: "maps pa v p (length bs) \<Longrightarrow> n = length bs \<Longrightarrow> peek id p n (poke pa v bs m) = bs"
  by (rule nth_equalityI) (simp_all add: peek_def poke_at)

lemma peek_cong: "unat p + n \<le> 2 ^ 64 \<Longrightarrow> (\<And>a. a \<in> region p n \<Longrightarrow> m a = m' a) \<Longrightarrow> peek id p n m = peek id p n m'"
  using region_offset [of p n] by (simp add: peek_def)

lemma length_peek [simp]: "length (peek pa v n m) = n"
  by (simp add: peek_def)

section \<open>The command a controller fetches\<close>

text \<open>
  What the AHCI and SATA specifications let a controller read for a command slot: the header in the command list
  at \<open>clb\<close>, the command FIS in the command table the header points to, and the first entry of its PRDT.
\<close>

record command =
  cmd_wellformed :: bool
  cmd_write :: bool
  cmd_opcode :: u8
  cmd_lba :: nat
  cmd_count :: nat
  cmd_tag :: nat
  cmd_addr :: u64
  cmd_bytes :: nat

definition decode :: "u8 list \<Rightarrow> u8 list \<Rightarrow> command" where
  "decode h f = \<lparr>
     cmd_wellformed = (get_le 0 2 h mod 32 = 5 \<and> get_le 2 2 h = 1 \<and> f ! 0 = 0x27 \<and> f ! 1 = 0x80),
     cmd_write = odd (get_le 0 2 h div 64), cmd_opcode = f ! 2,
     cmd_lba = unat (f ! 4) + 2 ^ 8 * unat (f ! 5) + 2 ^ 16 * unat (f ! 6) + 2 ^ 24 * unat (f ! 8) +
       2 ^ 32 * unat (f ! 9) + 2 ^ 40 * unat (f ! 10),
     cmd_count = unat (f ! 3) + 2 ^ 8 * unat (f ! 11), cmd_tag = unat (f ! 12) div 8,
     cmd_addr = of_nat (get_le 128 8 f), cmd_bytes = get_le 140 4 f mod 2 ^ 22 + 1\<rparr>"

definition fetch :: "memory \<Rightarrow> u64 \<Rightarrow> nat \<Rightarrow> command" where
  "fetch m clb slot = (let h = peek id (clb + 32 * of_nat slot) 32 m in decode h (peek id (of_nat (get_le 8 8 h)) 144 m))"

text \<open>The command for a request.\<close>

definition request :: "bool \<Rightarrow> u32 \<Rightarrow> u64 \<Rightarrow> u32 \<Rightarrow> u64 \<Rightarrow> command" where
  "request wr slot blocknum count prdt_p = \<lparr>cmd_wellformed = True, cmd_write = wr,
     cmd_opcode = (if wr then 0x61 else 0x60), cmd_lba = unat blocknum mod 2 ^ 48, cmd_count = unat count mod 2 ^ 16,
     cmd_tag = unat slot, cmd_addr = prdt_p, cmd_bytes = (512 * unat count - 1) mod 2 ^ 22 + 1\<rparr>"

lemma digit_sums:
  fixes x :: nat
  shows "x mod 256 + 2 ^ 8 * (x div 2 ^ 8 mod 256) = x mod 2 ^ 16"
    "x mod 256 + 2 ^ 8 * (x div 2 ^ 8 mod 256) + 2 ^ 16 * (x div 2 ^ 16 mod 256) + 2 ^ 24 * (x div 2 ^ 24 mod 256) +
       2 ^ 32 * (x div 2 ^ 32 mod 256) + 2 ^ 40 * (x div 2 ^ 40 mod 256) = x mod 2 ^ 48"
proof -
  have d: "x mod 2 ^ k + 2 ^ k * (x div 2 ^ k mod 256) = x mod 2 ^ (k + 8)" for k :: nat
    by (simp add: power_add mod_mult2_eq)
  show d8: "x mod 256 + 2 ^ 8 * (x div 2 ^ 8 mod 256) = x mod 2 ^ 16" using d [of 8] by simp
  have "x mod 2 ^ 16 + 2 ^ 16 * (x div 2 ^ 16 mod 256) = x mod 2 ^ 24" "x mod 2 ^ 24 + 2 ^ 24 * (x div 2 ^ 24 mod 256) = x mod 2 ^ 32"
    "x mod 2 ^ 32 + 2 ^ 32 * (x div 2 ^ 32 mod 256) = x mod 2 ^ 40" "x mod 2 ^ 40 + 2 ^ 40 * (x div 2 ^ 40 mod 256) = x mod 2 ^ 48"
    by (simp_all only: d, simp_all)
  then show "x mod 256 + 2 ^ 8 * (x div 2 ^ 8 mod 256) + 2 ^ 16 * (x div 2 ^ 16 mod 256) + 2 ^ 24 * (x div 2 ^ 24 mod 256) +
       2 ^ 32 * (x div 2 ^ 32 mod 256) + 2 ^ 40 * (x div 2 ^ 40 mod 256) = x mod 2 ^ 48"
    by (simp only: d8)
qed

lemma byte_count:
  assumes "count \<noteq> 0"
  shows "unat (512 * count - 1 :: u32) mod 2 ^ 22 = (512 * unat count - 1) mod 2 ^ 22"
proof -
  have pos: "0 < unat count" using assms by (simp add: unat_gt_0)
  have "uint (512 * count - 1) = (512 * uint count - 1) mod 2 ^ 32"
    by (simp add: uint_word_ariths mod_simps)
  then have "uint (512 * count - 1) mod 2 ^ 22 = (512 * uint count - 1) mod 2 ^ 22"
    by (simp add: mod_mod_cancel)
  moreover have "512 * uint count - 1 = int (512 * unat count - 1)"
    using pos by (simp add: of_nat_diff)
  ultimately have "int (unat (512 * count - 1)) mod 2 ^ 22 = int (512 * unat count - 1) mod 2 ^ 22" by simp
  then have "int (unat (512 * count - 1) mod 2 ^ 22) = int ((512 * unat count - 1) mod 2 ^ 22)"
    by (simp only: of_nat_mod of_nat_power of_nat_numeral)
  then show ?thesis by (simp only: of_nat_eq_iff)
qed

lemma decode_ncq:
  assumes "length bs = 144" "length hs = 32" "slot < 32" "count \<noteq> 0"
    "flags = (if wr then 0x445 else 0x405)" "command = (if wr then 0x61 else 0x60)"
  shows "decode (put_header flags q hs) (put_ncq command slot blocknum count a bs) = request wr slot blocknum count a"
proof -
  note fis = put_ncq_fields [OF assms(1), of command slot blocknum count a]
  define F where "F = put_ncq command slot blocknum count a bs"
  have f: "ncq_fis command slot blocknum count F" unfolding F_def by (rule fis(1))
  have lba: "unat (F ! 4) + 2 ^ 8 * unat (F ! 5) + 2 ^ 16 * unat (F ! 6) + 2 ^ 24 * unat (F ! 8) +
      2 ^ 32 * unat (F ! 9) + 2 ^ 40 * unat (F ! 10) = unat blocknum mod 2 ^ 48"
    using f unfolding ncq_fis_def by (simp only: digit_sums(2))
  have cnt: "unat (F ! 3) + 2 ^ 8 * unat (F ! 11) = unat count mod 2 ^ 16"
    using f unfolding ncq_fis_def by (simp only: digit_sums)
  have slot: "unat slot < 32" using assms(3) by (simp add: word_less_nat_alt)
  have "unat (push_bit 3 slot) = 8 * unat slot"
    using slot by (simp add: unsigned_push_bit_eq push_bit_nat_def take_bit_nat_eq_self mult.commute)
  then have tag: "unat (ucast (push_bit 3 slot) :: u8) div 8 = unat slot"
    using slot by (simp add: unsigned_ucast_eq take_bit_nat_eq_self)
  have op: "F ! 0 = 0x27" "F ! 1 = 0x80" "F ! 2 = (if wr then 0x61 else 0x60)" "F ! 12 = ucast (push_bit 3 slot)"
    using f assms(6) by (simp_all add: ncq_fis_def)
  have flags: "unat flags mod 32 = 5" "odd (unat flags div 64) = wr" using assms(5) by simp_all
  show ?thesis
    unfolding decode_def request_def F_def [symmetric] lba cnt op put_header_fields(1,2) [OF assms(2)] tag flags
    unfolding F_def fis(2,3) byte_count [OF assms(4)] by simp
qed

section \<open>Setting up a command\<close>

text \<open>The memory the driver shares with the controller: its command frames and its command list.\<close>

definition driver_memory :: "'d port_state \<Rightarrow> u64 set" where
  "driver_memory s = region (phys_base (cmd_frame_allocator s)) (4096 * length (taken (cmd_frame_allocator s))) \<union>
     region (command_hdr_p s) 1024"

text \<open>The received FIS area, which the controller fills, completes the memory of the port.\<close>

definition port_memory :: "'d port_state \<Rightarrow> u64 set" where
  "port_memory s = driver_memory s \<union> region (received_fis_p s) 256"

text \<open>Two memories that differ at most in \<open>D\<close>.\<close>

definition agree :: "u64 set \<Rightarrow> memory \<Rightarrow> memory \<Rightarrow> bool" where
  "agree D m m' \<longleftrightarrow> (\<forall>x. x \<notin> D \<longrightarrow> m x = m' x)"

lemma agree_trans: "agree D m m' \<Longrightarrow> agree D' m' m'' \<Longrightarrow> D' \<subseteq> D \<Longrightarrow> agree D m m''"
  unfolding agree_def by (metis subsetD)

definition port_ok :: "'d hba_env \<Rightarrow> 'd port_state \<Rightarrow> bool" where
  "port_ok E s \<longleftrightarrow> (let fa = cmd_frame_allocator s; n = 4096 * length (taken fa) in
     slab_ok fa \<and> block_size fa = 4096 \<and> virt_base fa \<noteq> 0 \<and> phys_base fa \<noteq> 0 \<and>
     maps (pagemap E) (virt_base fa) (phys_base fa) n \<and>
     command_hdr s \<noteq> 0 \<and> unat (command_hdr s) + 1024 \<le> 2 ^ 64 \<and> maps (pagemap E) (command_hdr s) (command_hdr_p s) 1024 \<and>
     region (phys_base fa) n \<inter> region (command_hdr_p s) 1024 = {})"

text \<open>A frame that is not in use, by its two addresses.\<close>

lemma frame_free:
  assumes "port_ok E s" "card (slab_live (cmd_frame_allocator s)) < length (taken (cmd_frame_allocator s))"
  shows "\<exists>p q i. alloc (cmd_frame_allocator s) = Some (Inr (p, q, grab i (cmd_frame_allocator s))) \<and>
    i < length (taken (cmd_frame_allocator s)) \<and> p = block (cmd_frame_allocator s) i \<and> p \<notin> slab_live (cmd_frame_allocator s) \<and>
    p \<noteq> 0 \<and> q \<noteq> 0 \<and> maps (pagemap E) p q 144 \<and>
    region q 144 \<subseteq> region (phys_base (cmd_frame_allocator s)) (4096 * length (taken (cmd_frame_allocator s)))"
proof -
  let ?fa = "cmd_frame_allocator s"
  have ok: "slab_ok ?fa" "block_size ?fa = 4096" "virt_base ?fa \<noteq> 0" "phys_base ?fa \<noteq> 0"
    "maps (pagemap E) (virt_base ?fa) (phys_base ?fa) (4096 * length (taken ?fa))"
    using assms(1) by (simp_all add: port_ok_def Let_def)
  have "alloc ?fa \<noteq> Some (Inl Undefined)" using alloc_live [OF ok(1) refl] assms(2) by auto
  then obtain i where i: "i < length (taken ?fa)" "\<not> taken ?fa ! i"
    "alloc ?fa = Some (Inr (block ?fa i, phys_base ?fa + 4096 * of_nat i, grab i ?fa))"
    using alloc_cases [OF ok(1)] ok(2) by auto
  define q where "q = phys_base ?fa + 4096 * of_nat i"
  have q: "unat q = unat (phys_base ?fa) + 4096 * i"
    using offset_unat(1) [of "phys_base ?fa" 4096 "length (taken ?fa)" i] i(1) ok(5) by (simp add: q_def maps_def)
  have p: "unat (block ?fa i) = unat (virt_base ?fa) + 4096 * i" using block_unat(1) [OF ok(1) i(1)] ok(2) by simp
  have off: "block ?fa i = virt_base ?fa + of_nat (4096 * i)" "q = phys_base ?fa + of_nat (4096 * i)"
    using ok(2) by (simp_all add: block_def q_def)
  have "4096 * i + 144 \<le> 4096 * length (taken ?fa)" using i(1) by simp
  then have "maps (pagemap E) (block ?fa i) q 144" unfolding off by (rule maps_sub [OF ok(5)])
  moreover have "region q 144 \<subseteq> region (phys_base ?fa) (4096 * length (taken ?fa))"
    using q i(1) by (auto simp: region_def)
  moreover have "block ?fa i \<noteq> 0" "q \<noteq> 0" using p q ok(3,4) by (simp_all add: word_unat_eq_iff)
  moreover have "block ?fa i \<notin> slab_live ?fa" using block_live [OF ok(1) i(1)] i(2) by simp
  ultimately show ?thesis using i q_def by blast
qed

lemma header_at:
  fixes slot :: u32
  assumes "port_ok E s" "slot < 32"
  shows "maps (pagemap E) (command_hdr s + 32 * ucast slot) (command_hdr_p s + 32 * of_nat (unat slot)) 32"
    "region (command_hdr_p s + 32 * of_nat (unat slot)) 32 \<subseteq> region (command_hdr_p s) 1024"
    "unat (command_hdr s + 32 * ucast slot - command_hdr s) + 32 \<le> 3072" "command_hdr s + 32 * ucast slot \<noteq> 0"
proof -
  have slot: "unat slot < 32" using assms(2) by (simp add: word_less_nat_alt)
  have ok: "maps (pagemap E) (command_hdr s) (command_hdr_p s) 1024" "command_hdr s \<noteq> 0" "unat (command_hdr s) + 1024 \<le> 2 ^ 64"
    using assms(1) by (simp_all add: port_ok_def Let_def)
  have e: "32 * ucast slot = (of_nat (32 * unat slot) :: u64)" "32 * of_nat (unat slot) = (of_nat (32 * unat slot) :: u64)" by simp_all
  show "maps (pagemap E) (command_hdr s + 32 * ucast slot) (command_hdr_p s + 32 * of_nat (unat slot)) 32"
    unfolding e by (rule maps_sub [OF ok(1)]) (use slot in simp)
  have "unat (command_hdr_p s + of_nat (32 * unat slot)) = unat (command_hdr_p s) + 32 * unat slot"
    using ok(1) slot by (intro add_offset_unat) (simp add: maps_def)
  then show "region (command_hdr_p s + 32 * of_nat (unat slot)) 32 \<subseteq> region (command_hdr_p s) 1024"
    unfolding e using slot by (auto simp: region_def)
  have "unat (of_nat (32 * unat slot) :: u64) = 32 * unat slot" using slot by (simp only: unat_of_nat) simp
  then show "unat (command_hdr s + 32 * ucast slot - command_hdr s) + 32 \<le> 3072" unfolding e using slot by simp
  have "unat (command_hdr s + of_nat (32 * unat slot)) = unat (command_hdr s) + 32 * unat slot"
    using ok(3) slot by (intro add_offset_unat) simp
  then show "command_hdr s + 32 * ucast slot \<noteq> 0" unfolding e using ok(2) by (auto simp: word_unat_eq_iff)
qed

definition setup_cmd :: "'d hba_env \<Rightarrow> bool \<Rightarrow> u32 \<Rightarrow> u64 \<Rightarrow> u64 \<Rightarrow> u32 \<Rightarrow> u64 \<Rightarrow> ('d port_state, u64) action" where
  "setup_cmd E wr slot cmdhdr blocknum count prdt_p =
     (if wr then setup_fpdma_write_cmd E slot cmdhdr blocknum count prdt_p
      else setup_fpdma_read_cmd E slot cmdhdr blocknum count prdt_p)"

lemma fetch_pokes:
  assumes "maps pa p q 144" "maps pa v (clb + 32 * of_nat slot) 32" "length F = 144" "length H = 32"
    "region q 144 \<inter> region (clb + 32 * of_nat slot) 32 = {}" "get_le 8 8 H = unat q"
    "\<And>x. x \<in> region q 144 \<union> region (clb + 32 * of_nat slot) 32 \<Longrightarrow> m' x = poke pa v H (poke pa p F m) x"
  shows "fetch m' clb slot = decode H F"
proof -
  have "peek id (clb + 32 * of_nat slot) 32 m' = peek id (clb + 32 * of_nat slot) 32 (poke pa v H (poke pa p F m))"
    using assms(2,7) by (intro peek_cong) (simp_all add: maps_def)
  also have "\<dots> = H" using assms(2,4) by (intro peek_poke) simp_all
  finally have h: "peek id (clb + 32 * of_nat slot) 32 m' = H" .
  have "peek id q 144 m' = peek id q 144 (poke pa p F m)"
  proof (rule peek_cong)
    show "unat q + 144 \<le> 2 ^ 64" using assms(1) by (simp add: maps_def)
    show "m' a = poke pa p F m a" if "a \<in> region q 144" for a
    proof -
      have "poke pa v H (poke pa p F m) a = poke pa p F m a" using assms(4,5) that by (intro poke_region [OF assms(2)]) auto
      then show ?thesis using assms(7) that by simp
    qed
  qed
  also have "\<dots> = F" using assms(1,3) by (intro peek_poke) simp_all
  finally show ?thesis unfolding fetch_def h Let_def assms(6) by simp
qed

lemma setup_cmd_spec:
  assumes "port_ok E s" "card (slab_live (cmd_frame_allocator s)) < length (taken (cmd_frame_allocator s))" "slot < 32" "count \<noteq> 0"
  shows "\<exists>p i m. setup_cmd E wr slot (command_hdr s + 32 * ucast slot) blocknum count a s =
      Some (Inr (p, s\<lparr>cmd_frame_allocator := grab i (cmd_frame_allocator s), ram := m\<rparr>)) \<and>
    i < length (taken (cmd_frame_allocator s)) \<and> p = block (cmd_frame_allocator s) i \<and> p \<notin> slab_live (cmd_frame_allocator s) \<and>
    (\<forall>m'. (\<forall>x\<in>driver_memory s. m' x = m x) \<longrightarrow> fetch m' (command_hdr_p s) (unat slot) = request wr slot blocknum count a) \<and>
    agree (driver_memory s) m (ram s)"
proof -
  let ?fa = "cmd_frame_allocator s" and ?pm = "pagemap E" and ?hdr = "command_hdr s + 32 * ucast slot"
  obtain p q i where f: "alloc ?fa = Some (Inr (p, q, grab i ?fa))" "i < length (taken ?fa)" "p = block ?fa i"
    "p \<notin> slab_live ?fa" "p \<noteq> 0" "q \<noteq> 0" "maps ?pm p q 144"
    "region q 144 \<subseteq> region (phys_base ?fa) (4096 * length (taken ?fa))"
    using frame_free [OF assms(1,2)] by blast
  define F where "F = put_ncq (if wr then 0x61 else 0x60) slot blocknum count a (peek ?pm p 144 (ram s))"
  define m1 where "m1 = poke ?pm p F (ram s)"
  define H where "H = put_header (if wr then 0x445 else 0x405) q (peek ?pm ?hdr 32 m1)"
  note hd = header_at [OF assms(1,3)]
  have len: "length F = 144" "length H = 32" by (simp_all add: F_def H_def put_ncq_fields(4) put_header_fields(4))
  have apart: "region (phys_base ?fa) (4096 * length (taken ?fa)) \<inter> region (command_hdr_p s) 1024 = {}"
    using assms(1) by (simp add: port_ok_def Let_def)
  have run: "setup_cmd E wr slot ?hdr blocknum count a s =
      Some (Inr (p, s\<lparr>cmd_frame_allocator := grab i ?fa, ram := poke ?pm ?hdr H m1\<rparr>))"
    using f(1,5,6) hd(3) assms(4)
    by (cases wr) (simp_all add: setup_cmd_def setup_fpdma_read_cmd_def setup_fpdma_write_cmd_def run_simps alloc_frame_def
        update_object_def update_header_def cmdhdr_pos prdt_pos ncq_pos std_size F_def H_def m1_def AHCI_CMDHDR_FLAGS_WRITE_def
        AHCI_CMDHDR_FLAGS_CLEAR_BUSY_UPON_OK_def AHCI_CMDHDR_FLAGS_5DWCMD_def)
  have "fetch m' (command_hdr_p s) (unat slot) = request wr slot blocknum count a"
    if "\<forall>x\<in>driver_memory s. m' x = poke ?pm ?hdr H m1 x" for m'
  proof -
    have "m' x = poke ?pm ?hdr H (poke ?pm p F (ram s)) x"
      if "x \<in> region q 144 \<union> region (command_hdr_p s + 32 * of_nat (unat slot)) 32" for x
      using that f(8) hd(2) \<open>\<forall>x\<in>driver_memory s. _\<close> by (auto simp: driver_memory_def m1_def)
    then have "fetch m' (command_hdr_p s) (unat slot) = decode H F"
      using f(8) hd(2) apart len put_header_fields(3)
      by (intro fetch_pokes [OF f(7) hd(1), where m = "ram s"]) (auto simp: H_def)
    also have "\<dots> = request wr slot blocknum count a"
      unfolding H_def F_def by (rule decode_ncq) (use assms(3,4) in simp_all)
    finally show ?thesis .
  qed
  moreover have "poke ?pm ?hdr H m1 x = ram s x" if "x \<notin> driver_memory s" for x
  proof -
    have "x \<notin> region q 144" "x \<notin> region (command_hdr_p s + 32 * of_nat (unat slot)) 32"
      using that f(8) hd(2) by (auto simp: driver_memory_def)
    then show ?thesis
      using len poke_region [OF hd(1), of H x m1] poke_region [OF f(7), of F x "ram s"] by (simp add: m1_def)
  qed
  ultimately show ?thesis using run f(2-4) unfolding agree_def by blast
qed

section \<open>A controller that executes commands\<close>

text \<open>Waiting on a register that meets the condition after finitely many reads.\<close>

inductive polled :: "'d hba_env \<Rightarrow> nat \<Rightarrow> (u32 \<Rightarrow> bool) \<Rightarrow> memory \<times> 'd \<Rightarrow> memory \<times> 'd \<Rightarrow> bool" where
  polled_last: "read32 E r w = (v, w') \<Longrightarrow> until v \<Longrightarrow> polled E r until w w'"
| polled_more: "read32 E r w = (v, w') \<Longrightarrow> \<not> until v \<Longrightarrow> polled E r until w' w'' \<Longrightarrow> polled E r until w w''"

lemma set_world_simps [simp]:
  "world (set_world w s) = w" "port_base (set_world w s) = port_base s" "set_world w (set_world w' s) = set_world w s"
  "set_world (world s) s = s" "initialized (set_world w s) = initialized s" "command_hdr (set_world w s) = command_hdr s"
  "command_hdr_p (set_world w s) = command_hdr_p s" "cmd_frame_allocator (set_world w s) = cmd_frame_allocator s"
  "ram (set_world w s) = fst w" "hba (set_world w s) = snd w" "misc_allocator (set_world w s) = misc_allocator s"
  "device_identity (set_world w s) = device_identity s" "irq (set_world w s) = irq s"
  by (simp_all add: set_world_def world_def)

lemma poll_px_polled:
  "polled E (port_base s + port_offset f) until (world s) w \<Longrightarrow> poll_px E f until s = Some (Inr ((), set_world w s))"
proof (induction E "port_base s + port_offset f" until "world s" w arbitrary: s rule: polled.induct)
  case (polled_last E until v w')
  then show ?case by (subst poll_px.simps) simp
next
  case (polled_more E v w' until w'')
  have "poll_px E f until (set_world w' s) = Some (Inr ((), set_world w'' (set_world w' s)))"
    by (rule polled_more.hyps(4)) simp_all
  then show ?case using polled_more.hyps(1,2) by (subst poll_px.simps) simp
qed

text \<open>The effect of a command on the memory and on the disk, a function from sector numbers to 512 bytes.\<close>

type_synonym disk = "nat \<Rightarrow> u8 list"

definition memory_after :: "command \<Rightarrow> disk \<Rightarrow> memory \<Rightarrow> memory" where
  "memory_after c dk m =
     (if cmd_write c then m else poke id (cmd_addr c) (concat (map dk [cmd_lba c..<cmd_lba c + cmd_count c])) m)"

definition disk_after :: "command \<Rightarrow> memory \<Rightarrow> disk \<Rightarrow> disk" where
  "disk_after c m dk = (if cmd_write c then
     (\<lambda>b. if cmd_lba c \<le> b \<and> b < cmd_lba c + cmd_count c then peek id (cmd_addr c + of_nat (512 * (b - cmd_lba c))) 512 m else dk b)
     else dk)"

text \<open>A command the controller accepts in a slot, for a disk of \<open>n\<close> sectors: queued, with its tag, and as many bytes as sectors.\<close>

definition acceptable :: "nat \<Rightarrow> nat \<Rightarrow> command \<Rightarrow> bool" where
  "acceptable n slot c \<longleftrightarrow> cmd_wellformed c \<and> cmd_opcode c = (if cmd_write c then 0x61 else 0x60) \<and> cmd_tag c = slot \<and>
     0 < cmd_count c \<and> cmd_bytes c = 512 * cmd_count c \<and> cmd_lba c + cmd_count c \<le> n"

definition not_busy :: "u32 \<Rightarrow> bool" where
  "not_busy v \<longleftrightarrow> v AND 2 ^ 7 = 0"

definition set_device_bits :: "u32 \<Rightarrow> bool" where
  "set_device_bits v \<longleftrightarrow> v AND 2 ^ 3 \<noteq> 0"

text \<open>
  The memory that a controller may write at any time while it executes the command of a slot: the received FIS area
  at PxFB, into which it posts the frames of the device, and the count of transferred bytes in the command header.
\<close>

definition controller_memory :: "u64 \<Rightarrow> u64 \<Rightarrow> nat \<Rightarrow> u64 set" where
  "controller_memory fb clb slot = region fb 256 \<union> region (clb + 32 * of_nat slot + 4) 4"

text \<open>
  The controller of the port at \<open>base\<close>, with its command list at \<open>clb\<close> and its received FIS area at \<open>fb\<close>. It is
  \<open>ready\<close> when it has no command. A ready controller stops being busy and changes at most the received FIS area
  meanwhile. When a slot is marked in PxSACT and PxCI, it fetches the command of the slot from its command list; for an
  acceptable one, with a buffer apart from the controller's own memory, it stops being busy, then reports with the Set
  Device Bits interrupt, and when that is cleared, the command has had its effect and the controller is ready. The
  controller's own memory holds anything then.
\<close>

definition executes :: "'d hba_env \<Rightarrow> nat \<Rightarrow> ('d \<Rightarrow> bool) \<Rightarrow> ('d \<Rightarrow> u64) \<Rightarrow> ('d \<Rightarrow> u64) \<Rightarrow> ('d \<Rightarrow> disk) \<Rightarrow>
    memory \<Rightarrow> 'd \<Rightarrow> nat \<Rightarrow> command \<Rightarrow> bool" where
  "executes E base ready clb fb dk m d slot c \<longleftrightarrow> (\<exists>w1 w2 m' d'.
     polled E (base + 0x20) not_busy (write32 E (base + 0x38) (push_bit slot 1) (write32 E (base + 0x34) (push_bit slot 1) (m, d))) w1 \<and>
     polled E (base + 0x10) set_device_bits w1 w2 \<and>
     write32 E (base + 0x10) 8 w2 = (m', d') \<and> agree (controller_memory (fb d) (clb d) slot) m' (memory_after c (dk d) m) \<and>
     ready d' \<and> clb d' = clb d \<and> fb d' = fb d \<and> dk d' = disk_after c m (dk d))"

definition ncq_controller ::
  "'d hba_env \<Rightarrow> nat \<Rightarrow> nat \<Rightarrow> ('d \<Rightarrow> bool) \<Rightarrow> ('d \<Rightarrow> u64) \<Rightarrow> ('d \<Rightarrow> u64) \<Rightarrow> ('d \<Rightarrow> disk) \<Rightarrow> bool" where
  "ncq_controller E base n ready clb fb dk \<longleftrightarrow>
     (\<forall>m d. ready d \<longrightarrow> (\<exists>m' d'. polled E (base + 0x20) not_busy (m, d) (m', d') \<and> agree (region (fb d) 256) m' m \<and>
        ready d' \<and> clb d' = clb d \<and> fb d' = fb d \<and> dk d' = dk d)) \<and>
     (\<forall>m d slot. let c = fetch m (clb d) slot in ready d \<and> slot < 32 \<and> acceptable n slot c \<and>
        region (cmd_addr c) (cmd_bytes c) \<inter> controller_memory (fb d) (clb d) slot = {} \<longrightarrow>
        executes E base ready clb fb dk m d slot c)"

section \<open>Transfers\<close>

lemma waits: "WAIT_FOR_NOT_BUSY E = poll_px E ''pxtfd'' not_busy" "poll_for_port_interrupt E 3 = poll_px E ''pxis'' set_device_bits"
proof -
  have "not_busy = (\<lambda>v. v AND 2 ^ 7 = 0)" "set_device_bits = (\<lambda>v. v AND 2 ^ 3 \<noteq> 0)"
    by (simp_all only: not_busy_def set_device_bits_def fun_eq_iff simp_thms)
  then show "WAIT_FOR_NOT_BUSY E = poll_px E ''pxtfd'' not_busy" "poll_for_port_interrupt E 3 = poll_px E ''pxis'' set_device_bits"
    by (simp_all only: WAIT_FOR_NOT_BUSY_def poll_for_port_interrupt_def)
qed

lemma free_grab:
  assumes "slab_ok fa" "i < length (taken fa)" "block fa i \<notin> slab_live fa"
  shows "\<exists>fa'. free (block fa i) (grab i fa) = Inr (0, fa') \<and> slab_ok fa' \<and> slab_live fa' = slab_live fa \<and>
    virt_base fa' = virt_base fa \<and> phys_base fa' = phys_base fa \<and> block_size fa' = block_size fa \<and> length (taken fa') = length (taken fa)"
proof -
  have "block fa i \<in> slab_live (grab i fa)" using grab_ok(2) [OF assms(1,2)] by simp
  from free_live [OF grab_ok(1) [OF assms(1,2)] this] obtain fa' where
    fa': "free (block fa i) (grab i fa) = Inr (0, fa')" "slab_ok fa'" "slab_live fa' = slab_live (grab i fa) - {block fa i}"
    by blast
  moreover have "fa' = slab_give (block fa i) (grab i fa)" using fa'(1) by (simp add: slab_give_def)
  then have "virt_base fa' = virt_base fa" "phys_base fa' = phys_base fa" "block_size fa' = block_size fa"
    "length (taken fa') = length (taken fa)"
    using take_give_keep(2) [of "block fa i" "grab i fa"] by simp_all
  moreover have "slab_live fa' = slab_live fa" using fa'(3) grab_ok(2) [OF assms(1,2)] assms(3) by auto
  ultimately show ?thesis by blast
qed

text \<open>The state of a port between calls.\<close>

definition port_idle :: "'d hba_env \<Rightarrow> ('d \<Rightarrow> bool) \<Rightarrow> ('d \<Rightarrow> u64) \<Rightarrow> ('d \<Rightarrow> u64) \<Rightarrow> 'd port_state \<Rightarrow> bool" where
  "port_idle E ready clb fb s \<longleftrightarrow> port_ok E s \<and> initialized s \<and> ready (hba s) \<and> clb (hba s) = command_hdr_p s \<and>
     fb (hba s) = received_fis_p s \<and> region (received_fis_p s) 256 \<inter> driver_memory s = {} \<and>
     card (slab_live (cmd_frame_allocator s)) < length (taken (cmd_frame_allocator s))"

definition same_port :: "'d port_state \<Rightarrow> 'd port_state \<Rightarrow> bool" where
  "same_port s s' \<longleftrightarrow> port_base s' = port_base s \<and> port_memory s' = port_memory s \<and>
     slab_live (cmd_frame_allocator s') = slab_live (cmd_frame_allocator s)"

lemma request_acceptable:
  assumes "slot < 32" "count \<noteq> 0" "count \<le> 8192" "unat blocknum + unat count \<le> n" "n \<le> 2 ^ 48"
  shows "acceptable n (unat slot) (request wr slot blocknum count a)"
    "cmd_lba (request wr slot blocknum count a) = unat blocknum" "cmd_count (request wr slot blocknum count a) = unat count"
    "cmd_bytes (request wr slot blocknum count a) = 512 * unat count"
proof -
  have c: "0 < unat count" "unat count \<le> 8192" using assms(2,3) by (simp_all add: word_le_nat_alt unat_gt_0)
  have "512 * unat count - 1 < 2 ^ 22" using c(2) by simp
  then have b: "(512 * unat count - 1) mod 2 ^ 22 + 1 = 512 * unat count" using c(1) by simp
  have l: "unat blocknum mod 2 ^ 48 = unat blocknum" using assms(4,5) c(1) by simp
  have k: "unat count mod 2 ^ 16 = unat count" using c(2) by simp
  show "acceptable n (unat slot) (request wr slot blocknum count a)"
    unfolding acceptable_def request_def command.simps b l k using assms(4) c(1) by simp
  show "cmd_lba (request wr slot blocknum count a) = unat blocknum" "cmd_count (request wr slot blocknum count a) = unat count"
    "cmd_bytes (request wr slot blocknum count a) = 512 * unat count"
    unfolding request_def command.simps by (rule l, rule k, rule b)
qed

lemma sync_fpdma_steps:
  assumes "port_ok E s" "initialized s" "command_hdr s \<noteq> 0" "slot < 32"
    "setup_cmd E wr slot (command_hdr s + 32 * ucast slot) blocknum count a s =
      Some (Inr (p, s\<lparr>cmd_frame_allocator := fa1, ram := m\<rparr>))"
    "polled E (port_base s + 0x20) not_busy (m, hba s) (m1, d1)"
    "polled E (port_base s + 0x20) not_busy
      (write32 E (port_base s + 0x38) (push_bit (unat slot) 1) (write32 E (port_base s + 0x34) (push_bit (unat slot) 1) (m1, d1))) w1"
    "polled E (port_base s + 0x10) set_device_bits w1 w2" "write32 E (port_base s + 0x10) 8 w2 = (m2, d2)" "free p fa1 = Inr (0, fa2)"
  shows "sync_fpdma E slot blocknum count a wr s = Some (Inr (S_OK, s\<lparr>cmd_frame_allocator := fa2, ram := m2, hba := d2\<rparr>))"
proof -
  define s1 where "s1 = s\<lparr>cmd_frame_allocator := fa1, ram := m\<rparr>"
  have s1: "world s1 = (m, hba s)" "port_base s1 = port_base s" "cmd_frame_allocator s1 = fa1"
    by (simp_all add: s1_def world_def)
  let ?w = "write32 E (port_base s + 0x38) (push_bit (unat slot) 1) (write32 E (port_base s + 0x34) (push_bit (unat slot) 1) (m1, d1))"
  have "poll_px E ''pxtfd'' not_busy s1 = Some (Inr ((), set_world (m1, d1) s1))"
    "poll_px E ''pxtfd'' not_busy (set_world ?w s1) = Some (Inr ((), set_world w1 s1))"
    "poll_px E ''pxis'' set_device_bits (set_world w1 s1) = Some (Inr ((), set_world w2 s1))"
    using poll_px_polled [of E s1 "''pxtfd''" not_busy "(m1, d1)"] poll_px_polled [of E "set_world ?w s1" "''pxtfd''" not_busy w1]
      poll_px_polled [of E "set_world w1 s1" "''pxis''" set_device_bits w2] assms(6-8)
    by (simp_all add: s1 port_register_offsets)
  moreover have "setup_cmd E wr slot (command_hdr s + 32 * ucast slot) blocknum count a s = Some (Inr (p, s1))"
    using assms(5) by (simp add: s1_def)
  moreover have "set_world (m2, d2) s1\<lparr>cmd_frame_allocator := fa2\<rparr> = s\<lparr>cmd_frame_allocator := fa2, ram := m2, hba := d2\<rparr>"
    by (simp add: set_world_def s1_def)
  ultimately show ?thesis
    unfolding sync_fpdma_def waits setup_cmd_def [symmetric]
    using assms(2,3,4,9,10) header_at(4) [OF assms(1,4)]
    by (simp add: run_simps get_command_slot_def slot_bit_def write_px_def write_reg_def free_frame_def s1 port_register_offsets)
qed

lemma controller_memory_port:
  fixes slot :: u32
  assumes "port_ok E s" "slot < 32"
  shows "controller_memory (received_fis_p s) (command_hdr_p s) (unat slot) \<subseteq> port_memory s"
proof -
  let ?h = "command_hdr_p s + 32 * of_nat (unat slot)"
  have "unat ?h + 32 \<le> 2 ^ 64" using header_at(1) [OF assms] by (simp add: maps_def)
  then have "unat (?h + of_nat 4) = unat ?h + 4" by (intro add_offset_unat) simp
  then have "region (?h + 4) 4 \<subseteq> region ?h 32" by (auto simp: region_def)
  then show ?thesis using header_at(2) [OF assms] by (auto simp: controller_memory_def port_memory_def driver_memory_def)
qed

lemma sync_fpdma_run:
  assumes "ncq_controller E (port_base s) n ready clb fb dk" "port_idle E ready clb fb s" "slot < 32"
    "count \<noteq> 0" "count \<le> 8192" "unat blocknum + unat count \<le> n" "n \<le> 2 ^ 48" "region a (512 * unat count) \<inter> port_memory s = {}"
  shows "\<exists>s' m. sync_fpdma E slot blocknum count a wr s = Some (Inr (S_OK, s')) \<and>
    port_idle E ready clb fb s' \<and> same_port s s' \<and> agree (port_memory s) m (ram s) \<and>
    agree (port_memory s) (ram s') (memory_after (request wr slot blocknum count a) (dk (hba s)) m) \<and>
    dk (hba s') = disk_after (request wr slot blocknum count a) m (dk (hba s))"
proof -
  let ?fa = "cmd_frame_allocator s" and ?c = "request wr slot blocknum count a" and ?b = "port_base s"
  let ?C = "controller_memory (received_fis_p s) (command_hdr_p s) (unat slot)"
  have idle: "port_ok E s" "initialized s" "ready (hba s)" "clb (hba s) = command_hdr_p s" "card (slab_live ?fa) < length (taken ?fa)"
    "fb (hba s) = received_fis_p s" "region (received_fis_p s) 256 \<inter> driver_memory s = {}"
    using assms(2) by (simp_all add: port_idle_def)
  have fa: "slab_ok ?fa" and hdr: "command_hdr s \<noteq> 0" using idle(1) by (simp_all add: port_ok_def Let_def)
  have sub: "?C \<subseteq> port_memory s" by (rule controller_memory_port [OF idle(1) assms(3)])
  obtain p i m0 where set: "setup_cmd E wr slot (command_hdr s + 32 * ucast slot) blocknum count a s =
      Some (Inr (p, s\<lparr>cmd_frame_allocator := grab i ?fa, ram := m0\<rparr>))" and i: "i < length (taken ?fa)" "p = block ?fa i" "p \<notin> slab_live ?fa"
    and fetch: "\<forall>m'. (\<forall>x\<in>driver_memory s. m' x = m0 x) \<longrightarrow> fetch m' (command_hdr_p s) (unat slot) = ?c"
    and out: "agree (driver_memory s) m0 (ram s)"
    using setup_cmd_spec [OF idle(1,5) assms(3,4), of wr blocknum a] by blast
  obtain m d1 where d1: "polled E (?b + 0x20) not_busy (m0, hba s) (m, d1)" "agree (region (received_fis_p s) 256) m m0"
    "ready d1" "clb d1 = command_hdr_p s" "fb d1 = received_fis_p s" "dk d1 = dk (hba s)"
    using assms(1) idle(3,4,6) unfolding ncq_controller_def by metis
  have m: "agree (port_memory s) m (ram s)" using d1(2) out by (auto simp: agree_def port_memory_def)
  have "fetch m (command_hdr_p s) (unat slot) = ?c" using fetch d1(2) idle(7) unfolding agree_def by blast
  moreover have "region (cmd_addr ?c) (cmd_bytes ?c) \<inter> ?C = {}"
    using assms(8) sub request_acceptable(4) [OF assms(3-7), of wr a] by (auto simp: request_def)
  moreover have "unat slot < 32" using assms(3) by (simp add: word_less_nat_alt)
  ultimately have "executes E ?b ready clb fb dk m d1 (unat slot) ?c"
    using assms(1) d1(3-5) request_acceptable(1) [OF assms(3-7), of wr a] unfolding ncq_controller_def Let_def by metis
  then obtain w1 w2 m2 d2 where d2:
    "polled E (?b + 0x20) not_busy (write32 E (?b + 0x38) (push_bit (unat slot) 1) (write32 E (?b + 0x34) (push_bit (unat slot) 1) (m, d1))) w1"
    "polled E (?b + 0x10) set_device_bits w1 w2" "write32 E (?b + 0x10) 8 w2 = (m2, d2)" "agree ?C m2 (memory_after ?c (dk d1) m)"
    "ready d2" "clb d2 = clb d1" "fb d2 = fb d1" "dk d2 = disk_after ?c m (dk d1)"
    unfolding executes_def d1(4,5) by blast
  obtain fa' where fa': "free p (grab i ?fa) = Inr (0, fa')" "slab_ok fa'" "slab_live fa' = slab_live ?fa" "virt_base fa' = virt_base ?fa"
    "phys_base fa' = phys_base ?fa" "block_size fa' = block_size ?fa" "length (taken fa') = length (taken ?fa)"
    using free_grab [OF fa i(1)] i(2,3) by blast
  define s' where "s' = s\<lparr>cmd_frame_allocator := fa', ram := m2, hba := d2\<rparr>"
  have "sync_fpdma E slot blocknum count a wr s = Some (Inr (S_OK, s'))"
    unfolding s'_def using idle(1,2) hdr assms(3) by (intro sync_fpdma_steps [OF _ _ _ _ set d1(1) d2(1-3) fa'(1)])
  moreover have "port_idle E ready clb fb s'" "same_port s s'"
    using idle fa' d1(4,5) d2(5-7) by (simp_all add: port_idle_def same_port_def port_ok_def port_memory_def driver_memory_def Let_def s'_def)
  moreover have "agree (port_memory s) (ram s') (memory_after ?c (dk (hba s)) m)" "dk (hba s') = disk_after ?c m (dk (hba s))"
    using d1(6) d2(4,8) sub by (auto simp: s'_def agree_def)
  ultimately show ?thesis using m by blast
qed

text \<open>Calls of a client, and what they mean for the memory and the disk.\<close>

record transfer =
  xfer_write :: bool
  xfer_slot :: u32
  xfer_block :: u64
  xfer_count :: u32
  xfer_addr :: u64

definition run_transfer :: "'d hba_env \<Rightarrow> transfer \<Rightarrow> ('d port_state, status) action" where
  "run_transfer E t = (if xfer_write t then sync_fpdma_write E (xfer_slot t) (xfer_block t) (xfer_count t) (xfer_addr t)
     else sync_fpdma_read E (xfer_slot t) (xfer_block t) (xfer_count t) (xfer_addr t))"

fun run_transfers :: "'d hba_env \<Rightarrow> transfer list \<Rightarrow> ('d port_state, status list) action" where
  "run_transfers E [] = return []"
| "run_transfers E (t # ts) = andthen (run_transfer E t) (\<lambda>st. andthen (run_transfers E ts) (\<lambda>sts. return (st # sts)))"

definition ideal_memory :: "transfer \<Rightarrow> disk \<Rightarrow> memory \<Rightarrow> memory" where
  "ideal_memory t dk m = (if xfer_write t then m else
     poke id (xfer_addr t) (concat (map dk [unat (xfer_block t)..<unat (xfer_block t) + unat (xfer_count t)])) m)"

definition ideal_disk :: "transfer \<Rightarrow> memory \<Rightarrow> disk \<Rightarrow> disk" where
  "ideal_disk t m dk = (if xfer_write t then (\<lambda>b. if unat (xfer_block t) \<le> b \<and> b < unat (xfer_block t) + unat (xfer_count t)
     then peek id (xfer_addr t + of_nat (512 * (b - unat (xfer_block t)))) 512 m else dk b) else dk)"

fun ideal :: "transfer list \<Rightarrow> memory \<times> disk \<Rightarrow> memory \<times> disk" where
  "ideal [] md = md"
| "ideal (t # ts) (m, dk) = ideal ts (ideal_memory t dk m, ideal_disk t m dk)"

definition valid_transfer :: "nat \<Rightarrow> u64 set \<Rightarrow> transfer \<Rightarrow> bool" where
  "valid_transfer n D t \<longleftrightarrow> xfer_slot t < 32 \<and> xfer_count t \<noteq> 0 \<and> xfer_count t \<le> 8192 \<and>
     unat (xfer_block t) + unat (xfer_count t) \<le> n \<and> unat (xfer_addr t) + 512 * unat (xfer_count t) \<le> 2 ^ 64 \<and>
     region (xfer_addr t) (512 * unat (xfer_count t)) \<inter> D = {}"

lemma poke_agree: "m x = m' x \<Longrightarrow> poke pa v bs m x = poke pa v bs m' x"
proof (induction bs arbitrary: v m m')
  case (Cons b bs)
  then show ?case unfolding poke.simps by (intro Cons.IH) simp
qed simp

lemma ideal_memory_agree:
  assumes "agree D m m'"
  shows "agree D (ideal_memory t dk m) (ideal_memory t dk m')"
proof -
  have "ideal_memory t dk m x = ideal_memory t dk m' x" if "x \<notin> D" for x
  proof -
    have "m x = m' x" using assms that by (simp only: agree_def simp_thms)
    then show ?thesis unfolding ideal_memory_def by (simp add: poke_agree [of m x m'])
  qed
  then show ?thesis by (simp only: agree_def) blast
qed

lemma ideal_disk_agree:
  assumes "agree D m m'" "valid_transfer n D t"
  shows "ideal_disk t m dk = ideal_disk t m' dk"
proof -
  let ?a = "xfer_addr t" and ?l = "unat (xfer_block t)" and ?k = "unat (xfer_count t)"
  have v: "unat ?a + 512 * ?k \<le> 2 ^ 64" "region ?a (512 * ?k) \<inter> D = {}" using assms(2) by (simp_all add: valid_transfer_def)
  have "peek id (?a + of_nat (512 * (b - ?l))) 512 m = peek id (?a + of_nat (512 * (b - ?l))) 512 m'" if "?l \<le> b" "b < ?l + ?k" for b
  proof (rule peek_cong)
    have b: "512 * (b - ?l) + 512 \<le> 512 * ?k" using that by linarith
    have u: "unat (?a + of_nat (512 * (b - ?l))) = unat ?a + 512 * (b - ?l)" using v(1) b by (intro add_offset_unat) linarith
    show "unat (?a + of_nat (512 * (b - ?l))) + 512 \<le> 2 ^ 64" unfolding u using v(1) b by linarith
    show "m x = m' x" if "x \<in> region (?a + of_nat (512 * (b - ?l))) 512" for x
    proof -
      have "x \<in> region ?a (512 * ?k)" using that b unfolding region_def u by simp
      then show ?thesis using v(2) assms(1) by (auto simp: agree_def)
    qed
  qed
  then show ?thesis by (simp add: ideal_disk_def fun_eq_iff)
qed

lemma ideal_agree:
  "agree D m m' \<Longrightarrow> \<forall>t\<in>set ts. valid_transfer n D t \<Longrightarrow> agree D (fst (ideal ts (m, dk))) (fst (ideal ts (m', dk))) \<and>
    snd (ideal ts (m, dk)) = snd (ideal ts (m', dk))"
proof (induction ts arbitrary: m m' dk)
  case (Cons t ts)
  then show ?case
    using ideal_memory_agree [of D m m' t dk] ideal_disk_agree [of D m m' n t dk] by simp
qed simp

lemma run_transfer_spec:
  assumes "ncq_controller E (port_base s) n ready clb fb dk" "port_idle E ready clb fb s" "n \<le> 2 ^ 48" "valid_transfer n (port_memory s) t"
  shows "\<exists>s'. run_transfer E t s = Some (Inr (S_OK, s')) \<and> port_idle E ready clb fb s' \<and> same_port s s' \<and>
    agree (port_memory s) (ram s') (ideal_memory t (dk (hba s)) (ram s)) \<and>
    dk (hba s') = ideal_disk t (ram s) (dk (hba s))"
proof -
  let ?c = "request (xfer_write t) (xfer_slot t) (xfer_block t) (xfer_count t) (xfer_addr t)"
  have v: "xfer_slot t < 32" "xfer_count t \<noteq> 0" "xfer_count t \<le> 8192" "unat (xfer_block t) + unat (xfer_count t) \<le> n"
    and apart: "region (xfer_addr t) (512 * unat (xfer_count t)) \<inter> port_memory s = {}"
    using assms(4) by (simp_all add: valid_transfer_def)
  have a: "cmd_write ?c = xfer_write t" "cmd_addr ?c = xfer_addr t" by (simp_all add: request_def)
  have c: "memory_after ?c dk m = ideal_memory t dk m" "disk_after ?c m dk = ideal_disk t m dk" for m dk
    unfolding memory_after_def disk_after_def a request_acceptable(2,3) [OF v assms(3)] ideal_memory_def ideal_disk_def by simp_all
  obtain s' m where s': "sync_fpdma E (xfer_slot t) (xfer_block t) (xfer_count t) (xfer_addr t) (xfer_write t) s = Some (Inr (S_OK, s'))"
    "port_idle E ready clb fb s'" "same_port s s'" "agree (port_memory s) m (ram s)"
    "agree (port_memory s) (ram s') (ideal_memory t (dk (hba s)) m)" "dk (hba s') = ideal_disk t m (dk (hba s))"
    using sync_fpdma_run [OF assms(1,2) v assms(3) apart, of "xfer_write t"] unfolding c by blast
  have "run_transfer E t s = Some (Inr (S_OK, s'))"
    using s'(1) by (cases "xfer_write t") (simp_all add: run_transfer_def sync_fpdma_write_def sync_fpdma_read_def)
  moreover have "agree (port_memory s) (ram s') (ideal_memory t (dk (hba s)) (ram s))"
    by (rule agree_trans [OF s'(5) ideal_memory_agree [OF s'(4)] subset_refl])
  moreover have "dk (hba s') = ideal_disk t (ram s) (dk (hba s))"
    unfolding s'(6) by (rule ideal_disk_agree [OF s'(4) assms(4)])
  ultimately show ?thesis using s'(2,3) by blast
qed

text \<open>
  C7. The command for a request. On a port whose structures are mapped, with a frame left, both functions that set
  up a queued command succeed for a slot below 32 and a non-zero count. What a controller then fetches for the slot
  is the queued read or write with the tag of the slot, the low 48 bits of the block, the low 16 bits of the count
  and the whole buffer address; only the driver's own structures changed. The length of the buffer in the command
  is the length of the sectors exactly up to 8192 sectors.
\<close>

theorem fpdma_command:
  assumes "port_ok E s" "card (slab_live (cmd_frame_allocator s)) < length (taken (cmd_frame_allocator s))" "slot < 32" "count \<noteq> 0"
  shows "(\<exists>p fa m. setup_fpdma_read_cmd E slot (command_hdr s + 32 * ucast slot) blocknum count a s =
        Some (Inr (p, s\<lparr>cmd_frame_allocator := fa, ram := m\<rparr>)) \<and>
      fetch m (command_hdr_p s) (unat slot) = request False slot blocknum count a \<and> agree (driver_memory s) m (ram s)) \<and>
    (\<exists>p fa m. setup_fpdma_write_cmd E slot (command_hdr s + 32 * ucast slot) blocknum count a s =
        Some (Inr (p, s\<lparr>cmd_frame_allocator := fa, ram := m\<rparr>)) \<and>
      fetch m (command_hdr_p s) (unat slot) = request True slot blocknum count a \<and> agree (driver_memory s) m (ram s)) \<and>
    (cmd_bytes (request wr slot blocknum count a) = 512 * unat count \<longleftrightarrow> count \<le> 8192)"
proof (intro conjI)
  show "\<exists>p fa m. setup_fpdma_read_cmd E slot (command_hdr s + 32 * ucast slot) blocknum count a s =
      Some (Inr (p, s\<lparr>cmd_frame_allocator := fa, ram := m\<rparr>)) \<and>
    fetch m (command_hdr_p s) (unat slot) = request False slot blocknum count a \<and> agree (driver_memory s) m (ram s)"
    using setup_cmd_spec [OF assms, of False blocknum a] unfolding setup_cmd_def if_False by blast
  show "\<exists>p fa m. setup_fpdma_write_cmd E slot (command_hdr s + 32 * ucast slot) blocknum count a s =
      Some (Inr (p, s\<lparr>cmd_frame_allocator := fa, ram := m\<rparr>)) \<and>
    fetch m (command_hdr_p s) (unat slot) = request True slot blocknum count a \<and> agree (driver_memory s) m (ram s)"
    using setup_cmd_spec [OF assms, of True blocknum a] unfolding setup_cmd_def if_True by blast
  have pos: "0 < unat count" using assms(4) by (simp add: unat_gt_0)
  have "(512 * unat count - 1) mod 2 ^ 22 + 1 = 512 * unat count \<longleftrightarrow> unat count \<le> 8192"
  proof
    assume "(512 * unat count - 1) mod 2 ^ 22 + 1 = 512 * unat count"
    moreover have "(512 * unat count - 1) mod 2 ^ 22 < 2 ^ 22" by simp
    ultimately show "unat count \<le> 8192" by simp
  qed (use pos in simp)
  then show "cmd_bytes (request wr slot blocknum count a) = 512 * unat count \<longleftrightarrow> count \<le> 8192"
    by (simp add: request_def word_le_nat_alt)
qed

section \<open>An example port and controller\<close>

text \<open>
  A controller with one disk. It is never busy, executes a command when it is issued, posts a Set Device Bits frame
  into the received FIS area and the count of bytes into the command header, and then has the Set Device Bits interrupt
  pending until it is cleared. Virtual and physical addresses are the same.
\<close>

record example_hba =
  ex_clb :: u64
  ex_fb :: u64
  ex_disk :: disk
  ex_done :: bool

definition example_posts :: "example_hba \<Rightarrow> nat \<Rightarrow> command \<Rightarrow> memory \<Rightarrow> memory" where
  "example_posts d slot c m = poke id (ex_fb d + 0x58) [0xA1, 0x40, 0x40, 0]
     (poke id (ex_clb d + 32 * of_nat slot + 4) (map (\<lambda>i. of_nat (cmd_bytes c div 256 ^ i)) [0..<4]) m)"

definition example_issue :: "u32 \<Rightarrow> memory \<times> example_hba \<Rightarrow> memory \<times> example_hba" where
  "example_issue v w = (case w of (m, d) \<Rightarrow>
     let slot = hd (filter (bit v) [0..<32]); c = fetch m (ex_clb d) slot in
     (example_posts d slot c (memory_after c (ex_disk d) m), d\<lparr>ex_disk := disk_after c m (ex_disk d), ex_done := True\<rparr>))"

definition example_env :: "example_hba hba_env" where
  "example_env = \<lparr>read32 = (\<lambda>r (m, d). (if r = 0x110 \<and> ex_done d then 8 else 0, m, d)),
     write32 = (\<lambda>r v w. if r = 0x138 then example_issue v w
       else if r = 0x110 \<and> bit v 3 then (fst w, (snd w)\<lparr>ex_done := False\<rparr>) else w),
     read8 = (\<lambda>r w. (0, w)), write8 = (\<lambda>r v w. w), config_write16 = (\<lambda>r v w. w), pagemap = id,
     device_id = 0x2922, vendor = 0x8086\<rparr>"

definition example_slab :: slab_allocator where
  "example_slab = \<lparr>virt_base = 0x10000, phys_base = 0x10000, taken = replicate 10 False, taken_map = Map.empty,
     block_size = 4096, num_entries = 10\<rparr>"

definition example_port :: "memory \<Rightarrow> disk \<Rightarrow> example_hba port_state" where
  "example_port m dk = \<lparr>port_num = 0, port_base = 0x100, command_hdr = 0x20400, command_hdr_p = 0x20400, irq = 1,
     irq_thread = True, received_fis_v = 0x20000, received_fis_p = 0x20000, device_identity = [], device_capacity = 0,
     device_capacity_blocks = 0, cmd_frame_allocator = example_slab, misc_allocator = example_slab, initialized = True,
     ram = m, hba = \<lparr>ex_clb = 0x20400, ex_fb = 0x20000, ex_disk = dk, ex_done = False\<rparr>\<rparr>"

lemma issued_slot:
  assumes "slot < 32"
  shows "hd (filter (bit (2 ^ slot :: u32)) [0..<32]) = slot"
proof -
  let ?xs = "filter (bit (2 ^ slot :: u32)) [0..<32]"
  have b: "bit (2 ^ slot :: u32) k \<longleftrightarrow> k = slot" if "k < 32" for k
    using that bit_word_exp [of k slot, where ?'a = 32] by auto
  then have "slot \<in> set ?xs" using assms by simp
  then have "hd ?xs \<in> set ?xs" by (metis hd_in_set list.set_cases list.distinct(1))
  then show ?thesis using b [of "hd ?xs"] by simp
qed

definition example_ready :: "example_hba \<Rightarrow> bool" where
  "example_ready d \<longleftrightarrow> \<not> ex_done d \<and> ex_clb d = 0x20400 \<and> ex_fb d = 0x20000"

lemma example_posts_agree:
  assumes "example_ready d" "slot < 32"
  shows "agree (controller_memory (ex_fb d) (ex_clb d) slot) (example_posts d slot c m) m"
proof -
  have d: "ex_fb d = 0x20000" "ex_clb d = 0x20400" using assms(1) by (simp_all add: example_ready_def)
  have "(0x20400 + 32 * of_nat slot + 4 :: u64) = 0x20404 + of_nat (32 * slot)" by simp
  moreover have "unat (0x20404 + of_nat (32 * slot) :: u64) = 0x20404 + 32 * slot"
    using assms(2) by (subst add_offset_unat) simp_all
  ultimately have h: "maps id (0x20400 + 32 * of_nat slot + 4) (0x20400 + 32 * of_nat slot + 4) 4"
    using assms(2) by (simp add: maps_def)
  have f: "maps id 0x20058 0x20058 4" by (simp add: maps_def)
  have sub: "region 0x20058 4 \<subseteq> region 0x20000 256" by (auto simp: region_def)
  show ?thesis
    unfolding agree_def controller_memory_def example_posts_def d
  proof (intro allI impI)
    fix x
    assume "x \<notin> region 0x20000 256 \<union> region (0x20400 + 32 * of_nat slot + 4) 4"
    then have "x \<notin> region 0x20058 4" "x \<notin> region (0x20400 + 32 * of_nat slot + 4) 4" using sub by blast+
    then show "poke id (0x20000 + 0x58) [0xA1, 0x40, 0x40, 0]
        (poke id (0x20400 + 32 * of_nat slot + 4) (map (\<lambda>i. of_nat (cmd_bytes c div 256 ^ i)) [0..<4]) m) x = m x"
      using poke_region [OF f, of "[0xA1, 0x40, 0x40, 0]" x] poke_region [OF h, of "map (\<lambda>i. of_nat (cmd_bytes c div 256 ^ i)) [0..<4]" x m]
      by (simp del: poke.simps)
  qed
qed

lemma example_controller: "ncq_controller example_env 0x100 n example_ready ex_clb ex_fb ex_disk"
  unfolding ncq_controller_def Let_def
proof (intro conjI allI impI)
  fix m and d :: example_hba
  assume "example_ready d"
  then show "\<exists>m' d'. polled example_env (0x100 + 0x20) not_busy (m, d) (m', d') \<and> agree (region (ex_fb d) 256) m' m \<and>
      example_ready d' \<and> ex_clb d' = ex_clb d \<and> ex_fb d' = ex_fb d \<and> ex_disk d' = ex_disk d"
    by (intro exI [of _ m] exI [of _ d] conjI polled_last [of _ _ _ 0]) (simp_all add: example_env_def not_busy_def agree_def)
next
  fix m and d :: example_hba and slot
  let ?c = "fetch m (ex_clb d) slot"
  assume a: "example_ready d \<and> slot < 32 \<and> acceptable n slot ?c \<and>
    region (cmd_addr ?c) (cmd_bytes ?c) \<inter> controller_memory (ex_fb d) (ex_clb d) slot = {}"
  let ?w = "(example_posts d slot ?c (memory_after ?c (ex_disk d) m), d\<lparr>ex_disk := disk_after ?c m (ex_disk d), ex_done := True\<rparr>)"
  have w: "write32 example_env (0x100 + 0x38) (push_bit slot 1) (write32 example_env (0x100 + 0x34) (push_bit slot 1) (m, d)) = ?w"
    using a by (simp add: example_env_def example_issue_def issued_slot Let_def)
  have "polled example_env (0x100 + 0x20) not_busy ?w ?w"
    by (rule polled_last [of _ _ _ 0]) (simp_all add: example_env_def not_busy_def)
  moreover have "polled example_env (0x100 + 0x10) set_device_bits ?w ?w"
    by (rule polled_last [of _ _ _ 8]) (simp_all add: example_env_def set_device_bits_def)
  moreover have "write32 example_env (0x100 + 0x10) 8 ?w = (fst ?w, (snd ?w)\<lparr>ex_done := False\<rparr>)" by (simp add: example_env_def)
  moreover have "agree (controller_memory (ex_fb d) (ex_clb d) slot) (fst ?w) (memory_after ?c (ex_disk d) m)"
    unfolding fst_conv using a by (intro example_posts_agree) simp_all
  ultimately show "executes example_env 0x100 example_ready ex_clb ex_fb ex_disk m d slot ?c"
    unfolding executes_def w
    by - (rule exI [of _ ?w], rule exI [of _ ?w], rule exI [of _ "fst ?w"], rule exI [of _ "(snd ?w)\<lparr>ex_done := False\<rparr>"],
      use a in \<open>simp add: example_ready_def\<close>)
qed

lemma example_slab_ok: "slab_ok example_slab" "slab_live example_slab = {}" "length (taken example_slab) = 10"
  by (simp_all add: slab_ok_def example_slab_def in_memory_def slab_live_def)

lemma example_memory: "driver_memory (example_port m dk) = region 0x10000 40960 \<union> region 0x20400 1024"
  "port_memory (example_port m dk) = region 0x10000 40960 \<union> region 0x20400 1024 \<union> region 0x20000 256"
  by (simp_all add: port_memory_def driver_memory_def example_port_def example_slab_def)

lemma example_port_ok: "port_ok example_env (example_port m dk)"
proof -
  have "region 0x10000 40960 \<inter> region 0x20400 1024 = {}" by (auto simp: region_def)
  then show ?thesis using example_slab_ok(1)
    by (simp add: port_ok_def Let_def example_port_def maps_def example_env_def) (simp add: example_slab_def)
qed

lemma example_port_idle: "port_idle example_env example_ready ex_clb ex_fb (example_port m dk)"
proof -
  have "region 0x20000 256 \<inter> driver_memory (example_port m dk) = {}" by (auto simp: example_memory region_def)
  then show ?thesis using example_port_ok example_slab_ok by (simp add: port_idle_def example_port_def example_ready_def)
qed

theorem fpdma_command_witness:
  "\<forall>m dk. (\<exists>p fa m'. setup_fpdma_read_cmd example_env 3 (0x20400 + 32 * ucast (3 :: u32)) 77 2 0x40000 (example_port m dk) =
        Some (Inr (p, (example_port m dk)\<lparr>cmd_frame_allocator := fa, ram := m'\<rparr>)) \<and>
      fetch m' 0x20400 3 = request False 3 77 2 0x40000) \<and>
    cmd_bytes (request False 3 77 2 0x40000) = 1024"
proof (intro allI)
  fix m dk
  let ?s = "example_port m dk"
  have s: "command_hdr ?s = 0x20400" "command_hdr_p ?s = 0x20400" "cmd_frame_allocator ?s = example_slab"
    by (simp_all add: example_port_def)
  have "card (slab_live (cmd_frame_allocator ?s)) < length (taken (cmd_frame_allocator ?s))"
    unfolding s using example_slab_ok by simp
  from fpdma_command [OF example_port_ok this, of 3 2 77 "0x40000" False]
  show "(\<exists>p fa m'. setup_fpdma_read_cmd example_env 3 (0x20400 + 32 * ucast (3 :: u32)) 77 2 0x40000 (example_port m dk) =
        Some (Inr (p, (example_port m dk)\<lparr>cmd_frame_allocator := fa, ram := m'\<rparr>)) \<and>
      fetch m' 0x20400 3 = request False 3 77 2 0x40000) \<and> cmd_bytes (request False 3 77 2 0x40000) = 1024"
    unfolding s by (simp add: agree_def) blast
qed

text \<open>
  C6. Sequences of reads and writes. On an initialised port whose frames and command list are mapped contiguously and
  lie apart from its received FIS area, and with a controller that executes the commands it fetches and may write
  anything into the received FIS area and the byte counts of the command headers, any sequence of synchronous reads and
  writes of at most 8192 sectors, with buffers outside the memory of the port, returns, each call with \<open>S_OK\<close>. The disk
  and the memory outside the port's own end as if the sectors had been copied directly, and every command frame has been
  given back.
\<close>

theorem fpdma_transfers:
  assumes "ncq_controller E (port_base s) n ready clb fb dk" "port_idle E ready clb fb s" "n \<le> 2 ^ 48"
    "\<forall>t\<in>set ts. valid_transfer n (port_memory s) t"
  shows "\<exists>s'. run_transfers E ts s = Some (Inr (replicate (length ts) S_OK, s')) \<and>
    agree (port_memory s) (ram s') (fst (ideal ts (ram s, dk (hba s)))) \<and>
    dk (hba s') = snd (ideal ts (ram s, dk (hba s))) \<and>
    slab_live (cmd_frame_allocator s') = slab_live (cmd_frame_allocator s)"
  using assms
proof (induction ts arbitrary: s)
  case Nil
  then show ?case by (simp add: return_def agree_def)
next
  case (Cons t ts)
  obtain s1 where s1: "run_transfer E t s = Some (Inr (S_OK, s1))" "port_idle E ready clb fb s1" "same_port s s1"
    "agree (port_memory s) (ram s1) (ideal_memory t (dk (hba s)) (ram s))" "dk (hba s1) = ideal_disk t (ram s) (dk (hba s))"
    using run_transfer_spec [OF Cons.prems(1-3), of t] Cons.prems(4) by auto
  have p: "port_base s1 = port_base s" "port_memory s1 = port_memory s" "slab_live (cmd_frame_allocator s1) = slab_live (cmd_frame_allocator s)"
    using s1(3) by (simp_all add: same_port_def)
  obtain s2 where s2: "run_transfers E ts s1 = Some (Inr (replicate (length ts) S_OK, s2))"
    "agree (port_memory s1) (ram s2) (fst (ideal ts (ram s1, dk (hba s1))))"
    "dk (hba s2) = snd (ideal ts (ram s1, dk (hba s1)))" "slab_live (cmd_frame_allocator s2) = slab_live (cmd_frame_allocator s1)"
    using Cons.IH [of s1] Cons.prems s1(2) p by auto
  have "agree (port_memory s) (fst (ideal ts (ram s1, dk (hba s1)))) (fst (ideal (t # ts) (ram s, dk (hba s)))) \<and>
    snd (ideal ts (ram s1, dk (hba s1))) = snd (ideal (t # ts) (ram s, dk (hba s)))"
    using ideal_agree [OF s1(4), of ts n "dk (hba s1)"] Cons.prems(4) s1(5) by simp
  moreover have "run_transfers E (t # ts) s = Some (Inr (replicate (length (t # ts)) S_OK, s2))"
    using s1(1) s2(1) by (simp add: run_simps)
  ultimately show ?case using s2(2-4) p by (auto simp: agree_def)
qed

theorem fpdma_transfers_witness:
  "\<forall>m dk. \<exists>s'. run_transfers example_env [\<lparr>xfer_write = True, xfer_slot = 0, xfer_block = 5, xfer_count = 1, xfer_addr = 0x40000\<rparr>,
      \<lparr>xfer_write = False, xfer_slot = 1, xfer_block = 5, xfer_count = 1, xfer_addr = 0x50000\<rparr>] (example_port m dk) =
        Some (Inr ([S_OK, S_OK], s')) \<and>
    ex_disk (hba s') 5 = peek id 0x40000 512 m \<and> ram s' 0x50000 = m 0x40000"
proof (intro allI)
  fix m dk
  let ?ts = "[\<lparr>xfer_write = True, xfer_slot = 0, xfer_block = 5, xfer_count = 1, xfer_addr = 0x40000\<rparr>,
      \<lparr>xfer_write = False, xfer_slot = 1, xfer_block = 5, xfer_count = 1, xfer_addr = 0x50000\<rparr>]"
  let ?s = "example_port m dk" and ?data = "peek id 0x40000 512 m"
  have s: "port_base ?s = 0x100" "ram ?s = m" "ex_disk (hba ?s) = dk" by (simp_all add: example_port_def)
  have v: "\<forall>t\<in>set ?ts. valid_transfer 100 (port_memory ?s) t"
    by (auto simp: valid_transfer_def example_memory region_def)
  have i: "ideal ?ts (m, dk) = (poke id 0x50000 ?data m, \<lambda>b. if b = 5 then ?data else dk b)"
    by (auto simp: ideal_memory_def ideal_disk_def fun_eq_iff)
  have "poke id 0x50000 ?data m (0x50000 + of_nat 0) = ?data ! 0" by (rule poke_at) (simp_all add: maps_def)
  then have d: "poke id 0x50000 ?data m 0x50000 = m 0x40000" by (simp add: peek_def)
  have "(0x50000 :: u64) \<notin> port_memory ?s" by (simp add: example_memory region_def)
  moreover obtain s' where "run_transfers example_env ?ts ?s = Some (Inr (replicate (length ?ts) S_OK, s'))"
    "agree (port_memory ?s) (ram s') (poke id 0x50000 ?data m)" "ex_disk (hba s') = (\<lambda>b. if b = 5 then ?data else dk b)"
    using fpdma_transfers [of example_env ?s 100 example_ready ex_clb ex_fb ex_disk ?ts, OF _ example_port_idle _ v] example_controller
    unfolding s i by auto
  ultimately show "\<exists>s'. run_transfers example_env ?ts ?s = Some (Inr ([S_OK, S_OK], s')) \<and> ex_disk (hba s') 5 = ?data \<and> ram s' 0x50000 = m 0x40000"
    using d by (auto simp: agree_def)
qed

end
