(* ===== verification/XDK_AHCI_Init.thy ===== *)
theory XDK_AHCI_Init
  imports XDK_AHCI_Transfer
begin

text \<open>
  Initialisation of an AHCI port: the constructor and \<^verbatim>\<open>init\<close> leave a port with the layout of memory that transfers
  rely on, with all command frames free, and with the capacity the disk reported.
\<close>

section \<open>What initialisation keeps\<close>

text \<open>The part of the state that initialisation sets up and other accesses leave alone.\<close>

definition laid_out :: "nat \<Rightarrow> u64 \<Rightarrow> u64 \<Rightarrow> slab_allocator \<Rightarrow> 'd port_state \<Rightarrow> bool" where
  "laid_out b h hp fa s \<longleftrightarrow> port_base s = b \<and> command_hdr s = h \<and> command_hdr_p s = hp \<and> cmd_frame_allocator s = fa"

lemma poll_px_keeps:
  assumes "poll_px E f until s = Some r"
  shows "\<forall>x s'. r = Inr (x, s') \<longrightarrow> laid_out b h hp fa s \<longrightarrow> laid_out b h hp fa s'"
proof (rule poll_px.raw_induct [where P = "\<lambda>E f until s r. \<forall>x s'. r = Inr (x, s') \<longrightarrow> laid_out b h hp fa s \<longrightarrow> laid_out b h hp fa s'", OF _ assms])
  fix poll :: "'a hba_env \<Rightarrow> string \<Rightarrow> (u32 \<Rightarrow> bool) \<Rightarrow> 'a port_state \<Rightarrow> (unit \<times> 'a port_state) outcome option"
  fix E f until s r
  assume IH: "\<And>E f until s r. poll E f until s = Some r \<Longrightarrow> \<forall>x s'. r = Inr (x, s') \<longrightarrow> laid_out b h hp fa s \<longrightarrow> laid_out b h hp fa s'"
    and step: "(case read32 E (port_base s + port_offset f) (world s) of
      (v, w) \<Rightarrow> if until v then Some (Inr ((), set_world w s)) else poll E f until (set_world w s)) = Some r"
  obtain v w where rd: "read32 E (port_base s + port_offset f) (world s) = (v, w)" by (metis prod.exhaust)
  have same: "laid_out b h hp fa (set_world w s) = laid_out b h hp fa s" by (simp add: laid_out_def)
  show "\<forall>x s'. r = Inr (x, s') \<longrightarrow> laid_out b h hp fa s \<longrightarrow> laid_out b h hp fa s'"
  proof (cases "until v")
    case True
    then show ?thesis using step rd same by auto
  next
    case False
    then show ?thesis using IH [of E f until "set_world w s" r] step rd same by simp
  qed
qed

lemma keeps_layout:
  "ensures (laid_out b h hp fa) (read_reg E r) (\<lambda>_. laid_out b h hp fa)"
  "ensures (laid_out b h hp fa) (write_reg E r v) (\<lambda>_. laid_out b h hp fa)"
  "ensures (laid_out b h hp fa) (read_px E f) (\<lambda>_. laid_out b h hp fa)"
  "ensures (laid_out b h hp fa) (write_px E f v) (\<lambda>_. laid_out b h hp fa)"
  "ensures (laid_out b h hp fa) (poll_px E f until) (\<lambda>_. laid_out b h hp fa)"
  "ensures (laid_out b h hp fa) (require c e) (\<lambda>_. laid_out b h hp fa)"
  "ensures (laid_out b h hp fa) (gets g) (\<lambda>_. laid_out b h hp fa)"
  "ensures (laid_out b h hp fa) (update_object E p n k) (\<lambda>_. laid_out b h hp fa)"
  "ensures (laid_out b h hp fa) alloc_misc (\<lambda>_. laid_out b h hp fa)"
  "ensures (laid_out b h hp fa) (free_misc p) (\<lambda>_. laid_out b h hp fa)"
  "ensures (laid_out b h hp fa) (modify (\<lambda>s. s\<lparr>device_identity := idf s\<rparr>)) (\<lambda>_. laid_out b h hp fa)"
  "ensures (laid_out b h hp fa) (modify (irq_thread_update t)) (\<lambda>_. laid_out b h hp fa)"
  "ensures (laid_out b h hp fa) (modify (initialized_update t)) (\<lambda>_. laid_out b h hp fa)"
proof -
  show "ensures (laid_out b h hp fa) (read_reg E r) (\<lambda>_. laid_out b h hp fa)"
    "ensures (laid_out b h hp fa) (read_px E f) (\<lambda>_. laid_out b h hp fa)"
    by (auto simp: ensures_def laid_out_def read_px_def read_reg_def split: prod.splits)
  show "ensures (laid_out b h hp fa) (write_reg E r v) (\<lambda>_. laid_out b h hp fa)"
    "ensures (laid_out b h hp fa) (write_px E f v) (\<lambda>_. laid_out b h hp fa)"
    by (auto simp: ensures_def laid_out_def write_px_def write_reg_def)
  show "ensures (laid_out b h hp fa) (poll_px E f until) (\<lambda>_. laid_out b h hp fa)"
    unfolding ensures_def using poll_px_keeps [of E f until] by blast
  show "ensures (laid_out b h hp fa) (require c e) (\<lambda>_. laid_out b h hp fa)"
    "ensures (laid_out b h hp fa) (gets g) (\<lambda>_. laid_out b h hp fa)"
    by (auto simp: ensures_def require_def stop_with_def return_def gets_def)
  show "ensures (laid_out b h hp fa) (update_object E p n k) (\<lambda>_. laid_out b h hp fa)"
    "ensures (laid_out b h hp fa) (modify (\<lambda>s. s\<lparr>device_identity := idf s\<rparr>)) (\<lambda>_. laid_out b h hp fa)"
    "ensures (laid_out b h hp fa) (modify (irq_thread_update t)) (\<lambda>_. laid_out b h hp fa)"
    "ensures (laid_out b h hp fa) (modify (initialized_update t)) (\<lambda>_. laid_out b h hp fa)"
    by (auto simp: ensures_def laid_out_def modify_def update_object_def)
  show "ensures (laid_out b h hp fa) alloc_misc (\<lambda>_. laid_out b h hp fa)"
    "ensures (laid_out b h hp fa) (free_misc p) (\<lambda>_. laid_out b h hp fa)"
    by (auto simp: ensures_def laid_out_def alloc_misc_def free_misc_def split: option.splits sum.splits)
qed

lemma keeps_layout_calls:
  "ensures (laid_out b h hp fa) (WAIT_FOR_NOT_BUSY E) (\<lambda>_. laid_out b h hp fa)"
  "ensures (laid_out b h hp fa) (poll_for_port_interrupt E k) (\<lambda>_. laid_out b h hp fa)"
  "ensures (laid_out b h hp fa) (get_command_slot i) (\<lambda>_. laid_out b h hp fa)"
  "ensures (laid_out b h hp fa) (update_header E hdr g) (\<lambda>_. laid_out b h hp fa)"
  "ensures (laid_out b h hp fa) (hw_start E) (\<lambda>_. laid_out b h hp fa)"
  "ensures (laid_out b h hp fa) setup_irq_thread (\<lambda>_. laid_out b h hp fa)"
  unfolding WAIT_FOR_NOT_BUSY_def poll_for_port_interrupt_def get_command_slot_def update_header_def hw_start_def setup_irq_thread_def Let_def
  by (rule keeps_layout ensures_andthen ensures_return | assumption)+

lemmas keeps = keeps_layout keeps_layout_calls

section \<open>Identification\<close>

text \<open>A frame is in use; and a later state of the allocator with the same blocks in use.\<close>

definition held :: "slab_allocator \<Rightarrow> u64 \<Rightarrow> nat \<Rightarrow> bool" where
  "held fa p i \<longleftrightarrow> i < length (taken fa) \<and> \<not> taken fa ! i \<and> p = block fa i"

definition renewed :: "slab_allocator \<Rightarrow> slab_allocator \<Rightarrow> bool" where
  "renewed fa fa' \<longleftrightarrow> slab_ok fa' \<and> slab_live fa' = slab_live fa \<and> virt_base fa' = virt_base fa \<and> phys_base fa' = phys_base fa \<and>
     block_size fa' = block_size fa \<and> length (taken fa') = length (taken fa)"

lemma alloc_frame_holds:
  assumes "slab_ok fa"
  shows "ensures (laid_out b h hp fa) alloc_frame (\<lambda>x s. \<exists>i. held fa (fst x) i \<and> laid_out b h hp (grab i fa) s)"
  unfolding ensures_def
proof (intro allI impI)
  fix s :: "'d port_state" and x s'
  assume l: "laid_out b h hp fa s" and run: "alloc_frame s = Some (Inr (x, s'))"
  have fa: "cmd_frame_allocator s = fa" using l by (simp add: laid_out_def)
  show "\<exists>i. held fa (fst x) i \<and> laid_out b h hp (grab i fa) s'"
    using alloc_cases [OF assms] run l by (auto simp: alloc_frame_def fa held_def laid_out_def) blast
qed

lemma free_frame_renews:
  assumes "slab_ok fa" "held fa p i"
  shows "ensures (laid_out b h hp (grab i fa)) (free_frame p) (\<lambda>_ s. \<exists>fa'. renewed fa fa' \<and> laid_out b h hp fa' s)"
proof -
  have "block fa i \<notin> slab_live fa" using assms block_live [of fa i] by (auto simp: held_def)
  then obtain fa' where "free p (grab i fa) = Inr (0, fa')" "renewed fa fa'"
    using free_grab [OF assms(1), of i] assms(2) by (auto simp: held_def renewed_def)
  then show ?thesis by (auto simp: ensures_def free_frame_def laid_out_def)
qed

lemma identify_cmd_holds:
  assumes "slab_ok fa"
  shows "ensures (laid_out b h hp fa) (identify_device_cmd E hdr phys) (\<lambda>p s. \<exists>i. held fa p i \<and> laid_out b h hp (grab i fa) s)"
  unfolding identify_device_cmd_def
  apply (rule ensures_andthen [OF keeps(7)])
  apply (rule ensures_andthen [OF keeps(6)])
  apply (rule ensures_andthen [OF alloc_frame_holds [OF assms]])
  apply (rule ensures_exE)
  apply (simp only: case_prod_beta)
  apply (rule keeps ensures_andthen ensures_return | assumption | blast)+
  done

lemma keeps_capacity:
  "ensures (laid_out b h hp fa) (modify (\<lambda>s. s\<lparr>device_capacity_blocks := n, device_capacity := k\<rparr>)) (\<lambda>_. laid_out b h hp fa)"
  by (simp add: ensures_def modify_def laid_out_def)

lemma finish_identify_renews:
  assumes "slab_ok fa" "held fa p i"
  shows "ensures (laid_out b h hp (grab i fa)) (finish_identify E p idata) (\<lambda>_ s. \<exists>fa'. renewed fa fa' \<and> laid_out b h hp fa' s)"
  unfolding finish_identify_def
  apply (rule ensures_andthen [OF free_frame_renews [OF assms]])
  apply (rule ensures_exE)
  apply (rule keeps ensures_andthen ensures_case_sum ensures_stop ensures_return keeps_capacity | assumption | blast)+
  done

lemma identify_device_renews:
  assumes "slab_ok fa"
  shows "ensures (laid_out b h hp fa) (identify_device E) (\<lambda>_ s. \<exists>fa'. renewed fa fa' \<and> laid_out b h hp fa' s)"
  unfolding identify_device_def case_prod_beta
  apply (rule keeps ensures_andthen)+
  apply (rule identify_cmd_holds [OF assms])
  apply (rule ensures_exE)
  apply (rule keeps finish_identify_renews [OF assms] ensures_andthen | assumption)+
  done

definition capacity_read :: "'d port_state \<Rightarrow> bool" where
  "capacity_read s \<longleftrightarrow> device_capacity_blocks s = total_blocks (device_identity s) \<and> device_capacity s = total_blocks (device_identity s) * 512"

lemma finish_identify_capacity: "ensures P (finish_identify E p idata) (\<lambda>_. capacity_read)"
  unfolding finish_identify_def
  apply (rule ensures_last, rule ensures_last, rule ensures_last, rule ensures_last)
  apply (auto simp: ensures_def andthen_def gets_def modify_def return_def stop_with_def capacity_read_def SATA_DEFAULT_BLOCK_SIZE_def
      split: sum.splits)
  done

lemma identify_device_capacity: "ensures P (identify_device E) (\<lambda>_. capacity_read)"
  unfolding identify_device_def case_prod_beta by (intro ensures_last finish_identify_capacity)

lemma keeps_capacity_read:
  "ensures capacity_read (write_px E f v) (\<lambda>_. capacity_read)"
  "ensures capacity_read (modify (initialized_update t)) (\<lambda>_. capacity_read)"
  by (simp_all add: ensures_def capacity_read_def write_px_def write_reg_def set_world_def modify_def)

section \<open>The number of blocks\<close>

lemma identity_words:
  "identity_word idata ''total_lba48_0'' = of_nat (get_le 200 2 idata)" "identity_word idata ''total_lba48_1'' = of_nat (get_le 202 2 idata)"
  "identity_word idata ''total_lba48_2'' = of_nat (get_le 204 2 idata)" "identity_word idata ''total_lba48_3'' = of_nat (get_le 206 2 idata)"
  by (simp_all add: identity_word_def load_def field_pos_def sata_identify_data_t_def aligned_offset_def)

lemma identity_size: "sizeof False sata_identify_data_t = 512" "model_name_offset = 54"
  by code_simp+

lemma total_blocks_le: "unat (total_blocks idata) = get_le 200 8 idata"
proof -
  have w: "unat (of_nat (get_le off 2 idata) :: u64) = get_le off 2 idata" "get_le off 2 idata < 65536" for off
    using get_le_bound [of off 2 idata] by (simp_all add: unat_of_nat)
  have s: "get_le 200 8 idata = get_le 200 2 idata + 65536 * (get_le 202 2 idata + 65536 * (get_le 204 2 idata + 65536 * get_le 206 2 idata))"
    using get_le_split [of 200 2 6 idata] get_le_split [of 202 2 4 idata] get_le_split [of 204 2 2 idata] by simp
  let ?w = "\<lambda>off. of_nat (get_le off 2 idata) :: u64"
  have 1: "unat (?w 200 OR push_bit 16 (?w 202)) = get_le 200 2 idata + get_le 202 2 idata * 2 ^ 16"
    using w(2) [of 200] w(2) [of 202] by (subst unat_or_push) (simp_all add: w(1))
  have 2: "unat (?w 200 OR push_bit 16 (?w 202) OR push_bit 32 (?w 204)) =
      get_le 200 2 idata + get_le 202 2 idata * 2 ^ 16 + get_le 204 2 idata * 2 ^ 32"
    using w(2) [of 200] w(2) [of 202] w(2) [of 204]
    by (subst or.assoc [symmetric], subst unat_or_push) (simp_all only: 1 w(1), simp_all)
  have "unat ((?w 200 OR push_bit 16 (?w 202) OR push_bit 32 (?w 204)) OR push_bit 48 (?w 206)) = get_le 200 8 idata"
    using w(2) [of 200] w(2) [of 202] w(2) [of 204] w(2) [of 206]
    by (subst unat_or_push) (simp_all only: 2 w(1) s, simp_all)
  then show ?thesis unfolding total_blocks_def identity_words by (simp only: or.assoc)
qed

section \<open>Initialisation\<close>

lemma setup_memory_lays_out:
  "ensures (laid_out b h hp fa) (setup_memory E (v, p)) (\<lambda>_ s. v \<noteq> 0 \<and> p \<noteq> 0 \<and> laid_out b (v + 1024) (p + 1024) fa s)"
  by (auto simp: ensures_def setup_memory_def run_simps laid_out_def write_px_def write_reg_def set_world_def split: if_splits)

lemma init_port_ensures:
  assumes "slab_ok fa"
  shows "ensures (\<lambda>s. laid_out b h hp fa s \<and> \<not> initialized s) (init_port E (v, p)) (\<lambda>_ s. initialized s \<longrightarrow>
    v \<noteq> 0 \<and> p \<noteq> 0 \<and> (\<exists>fa'. renewed fa fa' \<and> laid_out b (v + 1024) (p + 1024) fa' s) \<and> capacity_read s)"
proof -
  let ?P = "\<lambda>s. laid_out b h hp fa s \<and> \<not> initialized s" and ?L = "laid_out b (v + 1024) (p + 1024) fa"
  let ?R = "\<lambda>s. (\<exists>fa'. renewed fa fa' \<and> laid_out b (v + 1024) (p + 1024) fa' s) \<and> capacity_read s"
  let ?Q = "\<lambda>_ s. initialized s \<longrightarrow> v \<noteq> 0 \<and> p \<noteq> 0 \<and> ?R s"
  have rd: "ensures ?P (read_px E f) (\<lambda>_. ?P)" for f
    by (auto simp: ensures_def laid_out_def read_px_def read_reg_def split: prod.splits)
  have weak: "ensures ?P a Q" if "ensures (laid_out b h hp fa) a Q" for a :: "('d port_state, 'c) action" and Q
    using that by (auto simp: ensures_def)
  have early: "ensures ?P (return ()) ?Q"
    by (rule ensures_return) simp
  have id: "ensures ?L (identify_device E) (\<lambda>_. ?R)"
    using identify_device_renews [OF assms] identify_device_capacity [of ?L] unfolding ensures_def by blast
  have R: "ensures ?R (write_px E f x) (\<lambda>_. ?R)" "ensures ?R (modify (initialized_update t)) (\<lambda>_. ?R)" for f x t
    using keeps_layout(4,13) keeps_capacity_read unfolding ensures_def by meson+
  show ?thesis
    unfolding init_port_def
    apply (rule ensures_andthen [OF rd], rule ensures_if [OF _ early])
    apply (rule ensures_andthen [OF rd], rule ensures_if [OF early])
    apply (rule ensures_andthen [OF weak [OF keeps(1)]])
    apply (rule ensures_andthen [OF setup_memory_lays_out], rule ensures_pre, rule ensures_pre)
    apply (rule ensures_andthen [OF keeps(18)], rule ensures_andthen [OF keeps(3)], rule ensures_andthen [OF keeps(6)])
    apply (rule ensures_andthen [OF keeps(19)], rule ensures_andthen [OF id], rule ensures_andthen [OF R(1)])
    apply (rule ensures_weaken [OF R(2)], simp)
    done
qed


text \<open>
  A disk of 1000 sectors without a name, behind a controller that writes the identification data when a command is
  issued and has no state of its own.
\<close>

definition idle_disk :: "u8 list" where
  "idle_disk = put_le 200 8 1000 (replicate 512 0)"

definition idle_env :: "unit hba_env" where
  "idle_env = \<lparr>read32 = (\<lambda>r w. (if r = 0x128 then 3 else if r = 0x124 then 0x101 else if r = 0x110 then 3 else 0, w)),
     write32 = (\<lambda>r v w. if r = 0x138 then (poke id 0x30000 idle_disk (fst w), snd w) else w),
     read8 = (\<lambda>r w. (0, w)), write8 = (\<lambda>r v w. w), config_write16 = (\<lambda>r v w. w), pagemap = id,
     device_id = 0x2922, vendor = 0x8086\<rparr>"

definition new_port :: "unit port_state" where
  "new_port = \<lparr>port_num = 0, port_base = 0x100, command_hdr = 0, command_hdr_p = 0, irq = 1,
     irq_thread = False, received_fis_v = 0, received_fis_p = 0, device_identity = [], device_capacity = 0,
     device_capacity_blocks = 0, cmd_frame_allocator = example_slab, misc_allocator = example_slab\<lparr>virt_base := 0x30000, phys_base := 0x30000,
       taken := replicate 8 False, num_entries := 8\<rparr>, initialized = False, ram = (\<lambda>_. 0), hba = ()\<rparr>"

lemma idle_fields:
  "pagemap idle_env = id" "device_id idle_env = 0x2922" "vendor idle_env = 0x8086"
  "read32 idle_env r w = (if r = 0x128 then 3 else if r = 0x124 then 0x101 else if r = 0x110 then 3 else 0, w)"
  "write32 idle_env r v w = (if r = 0x138 then (poke id 0x30000 idle_disk (fst w), snd w) else w)"
  by (simp_all add: idle_env_def)

lemma idle_poll:
  "port_base s = 0x100 \<Longrightarrow> WAIT_FOR_NOT_BUSY idle_env s = Some (Inr ((), s))"
  "port_base s = 0x100 \<Longrightarrow> poll_for_port_interrupt idle_env 0 s = Some (Inr ((), s))"
  by (simp_all add: WAIT_FOR_NOT_BUSY_def poll_for_port_interrupt_def poll_px.simps idle_env_def port_register_offsets)

lemma idle_regs:
  "port_base s = 0x100 \<Longrightarrow> read_px idle_env f s = Some (Inr (fst (read32 idle_env (0x100 + port_offset f) (world s)), s))"
  "read_reg idle_env r s = Some (Inr (fst (read32 idle_env r (world s)), s))"
  by (simp_all add: read_px_def read_reg_def idle_env_def)

lemma new_frame: "alloc example_slab = Some (Inr (0x10000, 0x10000, grab 0 example_slab))"
  by (simp add: alloc_def first_free.simps example_slab_def grab_def block_def)

lemma idle_name: "get_model_name (drop 54 idle_disk) (replicate 40 0) 40 = Inr ((replicate 40 0)[0 := 0])"
proof -
  have l: "length idle_disk = 512" by (simp add: idle_disk_def)
  have "idle_disk ! 54 = 0" unfolding idle_disk_def by (subst put_le_outside) simp_all
  then have "drop 54 idle_disk ! 0 = 0" using l by simp
  then have "model_name_loop (drop 54 idle_disk) 40 0 (replicate 40 0) = Inr (0, replicate 40 0)"
    using l by (subst model_name_loop.simps) simp
  then show ?thesis by (simp add: get_model_name_def put_char_def)
qed

lemma new_port_built:
  "Ahci_device_port (\<lambda>_. (0x10000, 0x10000)) (\<lambda>_. (0x30000, 0x30000)) 0 (Some 0x100) 1 new_port = Inr new_port"
  by (simp add: Ahci_device_port_def Slab_allocator_def new_port_def example_slab_def)

lemma idle_identify:
  assumes "port_base s = 0x100" "cmd_frame_allocator s = example_slab" "misc_allocator s = misc_allocator new_port" "command_hdr s = 0x20400"
  shows "\<exists>s'. identify_device idle_env s = Some (Inr (S_OK, s')) \<and> port_base s' = 0x100"
proof -
  have m: "alloc (misc_allocator new_port) = Some (Inr (0x30000, 0x30000, grab 0 (misc_allocator new_port)))"
    by (simp add: alloc_def first_free.simps new_port_def example_slab_def grab_def block_def)
  have fr: "free 0x10000 (grab 0 example_slab) = Inr (0, (grab 0 example_slab)\<lparr>taken := (replicate 10 False)[0 := False]\<rparr>)"
    by (simp add: free_def example_slab_def grab_def block_def)
  have fm: "\<exists>a. free 0x30000 (grab 0 (misc_allocator new_port)) = Inr (0, a)"
    by (simp add: free_def example_slab_def grab_def block_def new_port_def)
  then obtain a where fm: "free 0x30000 (grab 0 (misc_allocator new_port)) = Inr (0, a)" by blast
  have pk: "peek id 0x30000 512 (poke id 0x30000 idle_disk m) = idle_disk" for m
    by (rule peek_poke) (simp_all add: idle_disk_def maps_def)
  show ?thesis
    unfolding identify_device_def finish_identify_def identify_device_cmd_def
    using assms by (simp add: run_simps alloc_misc_def m update_object_def idle_poll get_command_slot_def alloc_frame_def new_frame
      update_header_def idle_regs write_px_def write_reg_def free_frame_def fr free_misc_def fm port_register_offsets identity_size idle_name
      ghc_register_offsets idle_fields pk AHCI_PORT_IS_TFES_def)
qed

lemma idle_init: "\<exists>s. init_port idle_env (0x20000, 0x20000) (set_world w new_port) = Some (Inr ((), s)) \<and> initialized s"
proof -
  define s1 where "s1 = (set_world (poke id 0x20000 (replicate 4096 0) (fst w), snd w) new_port)\<lparr>received_fis_p := 0x20000, received_fis_v := 0x20000,
    command_hdr := 0x20400, command_hdr_p := 0x20400, irq_thread := True\<rparr>"
  have s1: "port_base s1 = 0x100" "cmd_frame_allocator s1 = example_slab" "misc_allocator s1 = misc_allocator new_port" "command_hdr s1 = 0x20400"
    by (simp_all add: s1_def set_world_def new_port_def)
  obtain s where s: "identify_device idle_env s1 = Some (Inr (S_OK, s))" "port_base s = 0x100"
    using idle_identify [OF s1] by blast
  have "init_port idle_env (0x20000, 0x20000) (set_world w new_port) =
    andthen (identify_device idle_env) (\<lambda>_. andthen (write_px idle_env ''pxis'' (NOT 0)) (\<lambda>_. modify (\<lambda>s. s\<lparr>initialized := True\<rparr>))) s1"
    unfolding init_port_def setup_memory_def hw_start_def setup_irq_thread_def
    by (simp add: run_simps idle_regs write_px_def write_reg_def port_register_offsets idle_fields get_bits_def ahci_port_ssts_t_def
        s1_def set_world_def world_def new_port_def Let_def mask_eq_exp_minus_1)
  then show ?thesis using s by (simp add: run_simps write_px_def write_reg_def)
qed


end
