(* ===== verification/XDK_E1000.thy ===== *)
theory XDK_E1000
  imports XDK_Actions XDK_Bytes
begin

text \<open>
  The driver for Intel 8254x and 8257x network cards, \<^verbatim>\<open>drivers/e1000\<close>: discovery on the PCI bus, the descriptor rings,
  transmission, the interrupt handler and the service loop. The card is an argument: what a read or write of a
  register does, and what the card does to the rings and to memory on its own before the driver looks at a descriptor.
  The PCI bus, the pages the kernel hands out and the mapping of registers are arguments too.
\<close>

section \<open>Registers\<close>

definition E1000_CTRL :: u32 where "E1000_CTRL = 0x00000"
definition E1000_STATUS :: u32 where "E1000_STATUS = 0x00008"
definition E1000_EERD :: u32 where "E1000_EERD = 0x00014"
definition E1000_ICR :: u32 where "E1000_ICR = 0x000C0"
definition E1000_IMS :: u32 where "E1000_IMS = 0x000D0"
definition E1000_RCTL :: u32 where "E1000_RCTL = 0x00100"
definition E1000_TCTL :: u32 where "E1000_TCTL = 0x00400"

definition E1000_RDBAL :: "u32 \<Rightarrow> u32" where
  "E1000_RDBAL n = (if n < 4 then 0x02800 + n * 0x100 else 0x0C000 + n * 0x40)"

definition E1000_RDBAH :: "u32 \<Rightarrow> u32" where
  "E1000_RDBAH n = (if n < 4 then 0x02804 + n * 0x100 else 0x0C004 + n * 0x40)"

definition E1000_RDLEN :: "u32 \<Rightarrow> u32" where
  "E1000_RDLEN n = (if n < 4 then 0x02808 + n * 0x100 else 0x0C008 + n * 0x40)"

definition E1000_RDH :: "u32 \<Rightarrow> u32" where
  "E1000_RDH n = (if n < 4 then 0x02810 + n * 0x100 else 0x0C010 + n * 0x40)"

definition E1000_RDT :: "u32 \<Rightarrow> u32" where
  "E1000_RDT n = (if n < 4 then 0x02818 + n * 0x100 else 0x0C018 + n * 0x40)"

definition E1000_TDBAL :: "u32 \<Rightarrow> u32" where
  "E1000_TDBAL n = (if n < 4 then 0x03800 + n * 0x100 else 0x0E000 + n * 0x40)"

definition E1000_TDBAH :: "u32 \<Rightarrow> u32" where
  "E1000_TDBAH n = (if n < 4 then 0x03804 + n * 0x100 else 0x0E004 + n * 0x40)"

definition E1000_TDLEN :: "u32 \<Rightarrow> u32" where
  "E1000_TDLEN n = (if n < 4 then 0x03808 + n * 0x100 else 0x0E008 + n * 0x40)"

definition E1000_TDH :: "u32 \<Rightarrow> u32" where
  "E1000_TDH n = (if n < 4 then 0x03810 + n * 0x100 else 0x0E010 + n * 0x40)"

definition E1000_TDT :: "u32 \<Rightarrow> u32" where
  "E1000_TDT n = (if n < 4 then 0x03818 + n * 0x100 else 0x0E018 + n * 0x40)"

definition E1000_RAL :: "u32 \<Rightarrow> u32" where
  "E1000_RAL i = (if i \<le> 15 then 0x05400 + i * 8 else 0x054E0 + (i - 16) * 8)"

definition E1000_RAH :: "u32 \<Rightarrow> u32" where
  "E1000_RAH i = (if i \<le> 15 then 0x05404 + i * 8 else 0x054E4 + (i - 16) * 8)"

text \<open>The counters of received packets by size that \<^verbatim>\<open>poll_interrupt\<close> prints.\<close>

definition E1000_PRC :: "u32 list" where
  "E1000_PRC = [0x0405C, 0x04060, 0x04064, 0x04068, 0x0406C, 0x04070]"

section \<open>Descriptors\<close>

definition RX_DESC_layout :: "c_field list" where
  "RX_DESC_layout = [(''address'', 8, 8, 1), (''length'', 2, 2, 1), (''checksum'', 2, 2, 1), (''status'', 1, 1, 1),
     (''errors'', 1, 1, 1), (''special'', 2, 2, 1)]"

definition TX_DESC_layout :: "c_field list" where
  "TX_DESC_layout = [(''address'', 8, 8, 1), (''length'', 2, 2, 1), (''cso'', 1, 1, 1), (''cmd'', 1, 1, 1), (''sta'', 1, 1, 1),
     (''css'', 1, 1, 1), (''special'', 2, 2, 1)]"

record RX_DESC =
  rx_address :: u64
  rx_length :: u16
  rx_checksum :: u16
  rx_status :: u8
  rx_errors :: u8
  rx_special :: u16

record TX_DESC =
  tx_address :: u64
  tx_length :: u16
  tx_cso :: u8
  tx_cmd :: u8
  tx_sta :: u8
  tx_css :: u8
  tx_special :: u16

definition L4_PAGESIZE :: nat where
  "L4_PAGESIZE = 4096"

definition NUM_TX_DESCRIPTORS :: nat where
  "NUM_TX_DESCRIPTORS = 4 * L4_PAGESIZE div sizeof True TX_DESC_layout"

definition NUM_RX_DESCRIPTORS :: nat where
  "NUM_RX_DESCRIPTORS = 4 * L4_PAGESIZE div sizeof True RX_DESC_layout"

definition PKT_MAX_SIZE :: nat where
  "PKT_MAX_SIZE = 2048"

lemma ring_sizes [simp]: "NUM_TX_DESCRIPTORS = 1024" "NUM_RX_DESCRIPTORS = 1024" "PKT_MAX_SIZE = 2048" "L4_PAGESIZE = 4096"
  "sizeof True RX_DESC_layout = 16" "sizeof True TX_DESC_layout = 16"
  by (simp_all add: NUM_TX_DESCRIPTORS_def NUM_RX_DESCRIPTORS_def PKT_MAX_SIZE_def L4_PAGESIZE_def RX_DESC_layout_def
      TX_DESC_layout_def sizeof_def aligned_offset_def)

section \<open>State\<close>

text \<open>
  The card as its manual describes it: heads and tails of the two rings, the packets put on the wire (address and
  length) and the frames taken from it. \<open>inner\<close> is everything else. The machine adds the memory that driver and card
  share: the descriptors that \<^verbatim>\<open>tx_desc\<close> and \<^verbatim>\<open>rx_desc\<close> point to, in the order of the rings, and physical memory by
  address for the packets.
\<close>

record 'd nic =
  tdh :: nat
  tdt :: nat
  rdh :: nat
  rdt :: nat
  sent :: "(u64 \<times> u16) list"
  heard :: "u8 list list"
  inner :: 'd

record 'd machine =
  tx_ring :: "TX_DESC list"
  rx_ring :: "RX_DESC list"
  packet_ram :: "nat \<Rightarrow> u8"
  nic :: "'d nic"

text \<open>
  The object. \<^verbatim>\<open>Address\<close> is a virtual and a physical address. \<open>channel\<close> is the list of packets handed to the channel,
  \<open>None\<close> before a channel is registered; \<open>machine\<close> is the machine around the object.
\<close>

record 'd e1000_card =
  is_x8254 :: bool
  is_x8257 :: bool
  pciID :: u32
  card_vendor :: u16
  card_device :: u16
  bar_mmio :: u32
  bar_port :: u32
  full_duplex :: bool
  speed :: u32
  mmio :: "u32 \<times> u32"
  mmio_size :: u32
  mac :: "u8 list"
  card_ip :: "u32 list"
  use_msi :: bool
  ready :: bool
  is_up :: bool
  tx_buf :: u32
  tx_buf_pos :: u16
  rx_buf :: "u32 \<times> u32"
  rx_pkt_buf :: "u32 \<times> u32"
  rx_buf_pos :: u16
  irq_num :: u16
  irq_pin :: u8
  snd_counter :: u64
  rcv_counter :: u64
  channel :: "u8 list list option"
  machine :: "'d machine"

text \<open>The part of \<^verbatim>\<open>PCI::Config_space_type0\<close> that the driver uses.\<close>

record PCI_config =
  pci_vendor :: u16
  pci_device :: u16
  pci_bar :: "u32 list"
  pci_irq_pin :: u8

text \<open>
  The environment. \<open>dma\<close> is what the card does while the driver sleeps or before it reads a descriptor. \<open>pci_query\<close> is
  the result code and the list of Ethernet devices of \<^verbatim>\<open>query_pci_config_space\<close>, \<open>pci_config\<close> the result of
  \<^verbatim>\<open>get_pci_config\<close>; the number of bytes is an argument of \<open>pci_read\<close> and \<open>pci_write\<close>. The pages are pairs of a virtual
  and a physical address.
\<close>

record 'd e1000_env =
  reg_read :: "u32 \<Rightarrow> 'd machine \<Rightarrow> u32 \<times> 'd machine"
  reg_write :: "u32 \<Rightarrow> u32 \<Rightarrow> 'd machine \<Rightarrow> 'd machine"
  dma :: "'d machine \<Rightarrow> 'd machine"
  pci_query :: "int \<times> u32 list"
  pci_config :: "u32 \<Rightarrow> int \<times> PCI_config"
  pci_read :: "u32 \<Rightarrow> u32 \<Rightarrow> nat \<Rightarrow> 'd machine \<Rightarrow> u32"
  pci_write :: "u32 \<Rightarrow> u32 \<Rightarrow> nat \<Rightarrow> u32 \<Rightarrow> 'd machine \<Rightarrow> 'd machine"
  map_iomem :: "u32 \<Rightarrow> u32 \<Rightarrow> int \<times> u32"
  tx_pages :: "u32 \<times> u32"
  rx_pages :: "u32 \<times> u32"
  pkt_pages :: "u32 \<times> u32"

type_synonym ('d, 'a) card_action = "('d e1000_card, 'a) action"

text \<open>
  The registers of the card take up 128 KB, so an access of four bytes at an offset outside them is undefined.
\<close>

definition in_registers :: "u32 \<Rightarrow> bool" where
  "in_registers reg \<longleftrightarrow> unat reg + 4 \<le> 0x20000"

definition mmio_read32 :: "'d e1000_env \<Rightarrow> u32 \<Rightarrow> ('d, u32) card_action" where
  "mmio_read32 E reg s = (if \<not> in_registers reg then Some (Inl Out_of_range)
     else case reg_read E reg (machine s) of (v, m) \<Rightarrow> Some (Inr (v, s\<lparr>machine := m\<rparr>)))"

definition mmio_write32 :: "'d e1000_env \<Rightarrow> u32 \<Rightarrow> u32 \<Rightarrow> ('d, unit) card_action" where
  "mmio_write32 E reg v = andthen (require (in_registers reg) Out_of_range) (\<lambda>_.
     modify (\<lambda>s. s\<lparr>machine := reg_write E reg v (machine s)\<rparr>))"

lemma register_offsets [simp]:
  "in_registers E1000_CTRL" "in_registers E1000_STATUS" "in_registers E1000_EERD" "in_registers E1000_ICR" "in_registers E1000_IMS"
  "in_registers E1000_RCTL" "in_registers E1000_TCTL" "in_registers (E1000_RDBAL 0)" "in_registers (E1000_RDBAH 0)" "in_registers (E1000_RDLEN 0)"
  "in_registers (E1000_RDH 0)" "in_registers (E1000_RDT 0)" "in_registers (E1000_TDBAL 0)" "in_registers (E1000_TDBAH 0)"
  "in_registers (E1000_TDLEN 0)" "in_registers (E1000_TDH 0)" "in_registers (E1000_TDT 0)" "in_registers (E1000_RAL 0)" "in_registers (E1000_RAH 0)"
  by (simp_all add: in_registers_def E1000_CTRL_def E1000_STATUS_def E1000_EERD_def E1000_ICR_def E1000_IMS_def E1000_RCTL_def E1000_TCTL_def
      E1000_RDBAL_def E1000_RDBAH_def E1000_RDLEN_def E1000_RDH_def E1000_RDT_def E1000_TDBAL_def E1000_TDBAH_def E1000_TDLEN_def
      E1000_TDH_def E1000_TDT_def E1000_RAL_def E1000_RAH_def)

text \<open>\<^verbatim>\<open>usleep\<close>: time passes for the card.\<close>

definition usleep :: "'d e1000_env \<Rightarrow> ('d, unit) card_action" where
  "usleep E = modify (\<lambda>s. s\<lparr>machine := dma E (machine s)\<rparr>)"

section \<open>Discovery\<close>

partial_function (option) poll_reg ::
  "'d e1000_env \<Rightarrow> u32 \<Rightarrow> (u32 \<Rightarrow> bool) \<Rightarrow> 'd e1000_card \<Rightarrow> (u32 \<times> 'd e1000_card) outcome option" where
  "poll_reg E reg until s = (if \<not> in_registers reg then Some (Inl Out_of_range)
     else case reg_read E reg (machine s) of (v, m) \<Rightarrow>
     if until v then Some (Inr (v, s\<lparr>machine := m\<rparr>)) else poll_reg E reg until (s\<lparr>machine := dma E m\<rparr>))"

definition read_eeprom :: "'d e1000_env \<Rightarrow> u8 \<Rightarrow> ('d, u16) card_action" where
  "read_eeprom E reg =
     andthen (gets (\<lambda>s. (is_x8254 s, is_x8257 s))) (\<lambda>(x8254, x8257).
       if x8254 then
         andthen (mmio_write32 E E1000_EERD (1 OR push_bit 8 (ucast reg))) (\<lambda>_.
         andthen (poll_reg E E1000_EERD (\<lambda>v. v AND 2 ^ 4 \<noteq> 0)) (\<lambda>tmp. return (ucast (drop_bit 16 tmp AND 0xFFFF))))
       else if x8257 then
         andthen (mmio_write32 E E1000_EERD (1 OR push_bit 2 (ucast reg))) (\<lambda>_.
         andthen (poll_reg E E1000_EERD (\<lambda>v. v AND 2 ^ 4 \<noteq> 0)) (\<lambda>tmp. return (ucast (drop_bit 16 tmp AND 0xFFFF))))
       else stop_with Panic)"

text \<open>The first non-zero base address of each kind, I/O ports (bit 0 set) and memory.\<close>

fun pick_bars :: "u32 list \<Rightarrow> u32 \<times> u32 \<Rightarrow> u32 \<times> u32" where
  "pick_bars [] pm = pm"
| "pick_bars (addr # bs) (port, mem) =
     (if addr = 0 then pick_bars bs (port, mem)
      else if addr AND 1 \<noteq> 0 then pick_bars bs (if port = 0 then addr else port, mem)
      else pick_bars bs (port, if mem = 0 then addr else mem))"

definition supported :: "PCI_config \<Rightarrow> bool" where
  "supported dev \<longleftrightarrow> \<not> (pci_vendor dev \<noteq> 0x8086 \<or> (pci_device dev \<noteq> 0x100e \<and> pci_device dev \<noteq> 0x105e))"

definition take_card :: "u32 \<Rightarrow> PCI_config \<Rightarrow> 'd e1000_card \<Rightarrow> 'd e1000_card" where
  "take_card i dev s =
     (let (port, mem) = pick_bars (take 6 (pci_bar dev)) (0, 0);
          s1 = (if pci_device dev = 0x100e then s\<lparr>is_x8254 := True\<rparr> else s\<lparr>is_x8257 := True\<rparr>)
      in s1\<lparr>pciID := i, card_vendor := pci_vendor dev, card_device := pci_device dev, irq_pin := pci_irq_pin dev,
            bar_port := port, bar_mmio := mem\<rparr>)"

fun scan_cards :: "'d e1000_env \<Rightarrow> u32 list \<Rightarrow> ('d, bool) card_action" where
  "scan_cards E [] = return False"
| "scan_cards E (i # is) =
     andthen (require (fst (pci_config E i) = 0) Assertion) (\<lambda>_.
       if supported (snd (pci_config E i))
       then andthen (modify (take_card i (snd (pci_config E i)))) (\<lambda>_. return True)
       else scan_cards E is)"

definition region_size :: "u32 \<Rightarrow> u32" where
  "region_size ss_value = (let v = ss_value AND NOT 0xF in v AND NOT (v - 1))"

definition pci_write_card :: "'d e1000_env \<Rightarrow> u32 \<Rightarrow> nat \<Rightarrow> u32 \<Rightarrow> ('d, unit) card_action" where
  "pci_write_card E off n v = modify (\<lambda>s. s\<lparr>machine := pci_write E (pciID s) off n v (machine s)\<rparr>)"

definition pci_read_card :: "'d e1000_env \<Rightarrow> u32 \<Rightarrow> nat \<Rightarrow> ('d, u32) card_action" where
  "pci_read_card E off n = gets (\<lambda>s. pci_read E (pciID s) off n (machine s))"

definition map_card :: "'d e1000_env \<Rightarrow> ('d, unit) card_action" where
  "map_card E =
     andthen (modify (\<lambda>s. s\<lparr>mmio := (fst (mmio s), bar_mmio s AND NOT 0xF)\<rparr>)) (\<lambda>_.
     andthen (pci_write_card E 0x10 4 (NOT 0)) (\<lambda>_.
     andthen (pci_read_card E 0x10 4) (\<lambda>ss_value.
     andthen (gets bar_mmio) (\<lambda>bar.
     andthen (pci_write_card E 0x10 4 bar) (\<lambda>_.
     andthen (modify (\<lambda>s. s\<lparr>mmio_size := region_size ss_value\<rparr>)) (\<lambda>_.
     andthen (gets (\<lambda>s. map_iomem E (snd (mmio s)) (mmio_size s))) (\<lambda>(rc, vaddr).
     andthen (require (rc = 0) Assertion) (\<lambda>_.
       modify (\<lambda>s. s\<lparr>mmio := (vaddr, snd (mmio s))\<rparr>)))))))))"

definition pci_search_e1000 :: "'d e1000_env \<Rightarrow> ('d, bool) card_action" where
  "pci_search_e1000 E = (case pci_query E of (rc, entries) \<Rightarrow>
     andthen (require (rc = 0) Assertion) (\<lambda>_.
     if entries = [] then return False else
     andthen (modify (\<lambda>s. s\<lparr>is_x8254 := False, is_x8257 := False\<rparr>)) (\<lambda>_.
     andthen (scan_cards E entries) (\<lambda>found.
     if \<not> found then return False else
     andthen (map_card E) (\<lambda>_.
     andthen (gets is_x8254) (\<lambda>x8254.
     if x8254 then
       andthen (read_eeprom E 0x0F) (\<lambda>ctrl.
       andthen (modify (\<lambda>s. s\<lparr>use_msi := (ctrl AND 2 ^ 7 = 0)\<rparr>)) (\<lambda>_. return True))
     else andthen (modify (\<lambda>s. s\<lparr>use_msi := True\<rparr>)) (\<lambda>_. return True)))))))"

text \<open>\<open>mptable_irq\<close> is the answer of the MP table service, a signed 16-bit number.\<close>

definition irq_init :: "u16 \<Rightarrow> bool \<Rightarrow> ('d, bool) card_action" where
  "irq_init mptable_irq use_mptable =
     (if use_mptable then andthen (modify (\<lambda>s. s\<lparr>irq_num := 10\<rparr>)) (\<lambda>_. return True)
      else if sint mptable_irq < 0 then return False
      else andthen (modify (\<lambda>s. s\<lparr>irq_num := mptable_irq\<rparr>)) (\<lambda>_. return True))"

section \<open>Message signalled interrupts\<close>

text \<open>The walk along the list of capabilities.\<close>

partial_function (option) find_msi :: "(u32 \<Rightarrow> u8) \<Rightarrow> u8 \<Rightarrow> u8 option outcome option" where
  "find_msi config cap_ptr =
     (if cap_ptr = 0 then Some (Inr None)
      else if config (ucast cap_ptr) = 0x05 then Some (Inr (Some cap_ptr))
      else if config (ucast cap_ptr + 1) AND 0x3 = 0 then find_msi config (config (ucast cap_ptr + 1))
      else Some (Inl Assertion))"

definition config_byte :: "'d e1000_env \<Rightarrow> 'd e1000_card \<Rightarrow> u32 \<Rightarrow> u8" where
  "config_byte E s off = ucast (pci_read E (pciID s) off 1 (machine s))"

text \<open>
  The control word is read with the width of a byte into a 16-bit variable that was not initialised; \<open>junk\<close> is its
  value before. What is read back at the end is not used.
\<close>

definition write_msi :: "'d e1000_env \<Rightarrow> u16 \<Rightarrow> u32 \<Rightarrow> u8 \<Rightarrow> ('d, bool) card_action" where
  "write_msi E junk msg cap_ptr = (let cap = ucast cap_ptr in
     andthen (pci_read_card E (cap + 2) 1) (\<lambda>byte.
       let msi_ctrl = (junk AND 0xFF00) OR ucast (byte AND 0xFF) in
     andthen (require (msi_ctrl AND 2 ^ 7 \<noteq> 0) Assertion) (\<lambda>_.
     andthen (pci_write_card E (cap + 0x4) 4 0xfee00000) (\<lambda>_.
     andthen (pci_write_card E (cap + 0x8) 4 0) (\<lambda>_.
     andthen (pci_read_card E (cap + 0xc) 2) (\<lambda>data.
     andthen (pci_write_card E (cap + 0xc) 2 (ucast (ucast (data OR msg OR 2 ^ 14) :: u16))) (\<lambda>_.
     andthen (pci_write_card E (cap + 0x2) 2 (ucast (msi_ctrl OR 1))) (\<lambda>_. return True))))))))"

definition config_msi :: "'d e1000_env \<Rightarrow> u16 \<Rightarrow> u32 \<Rightarrow> ('d, bool) card_action" where
  "config_msi E junk msg =
     andthen (gets (config_byte E)) (\<lambda>config.
     andthen (require (config 0x34 AND 0x3 = 0) Assertion) (\<lambda>_.
     case find_msi config (config 0x34) of
       None \<Rightarrow> (\<lambda>s. None)
     | Some (Inl e) \<Rightarrow> stop_with e
     | Some (Inr None) \<Rightarrow> stop_with Panic
     | Some (Inr (Some cap_ptr)) \<Rightarrow> write_msi E junk msg cap_ptr))"

section \<open>Initialisation\<close>

text \<open>Every byte of the address is taken from a read of its own.\<close>

fun read_mac :: "'d e1000_env \<Rightarrow> (u32 \<times> nat) list \<Rightarrow> ('d, u8 list) card_action" where
  "read_mac E [] = return []"
| "read_mac E ((reg, shift) # rs) =
     andthen (mmio_read32 E reg) (\<lambda>v. andthen (read_mac E rs) (\<lambda>bs. return (ucast (drop_bit shift v) # bs)))"

definition mac_init :: "'d e1000_env \<Rightarrow> ('d, bool) card_action" where
  "mac_init E =
     andthen (read_mac E (map (\<lambda>i. (E1000_RAL 0, 8 * i)) [0..<4] @ map (\<lambda>i. (E1000_RAH 0, 8 * i)) [0..<2])) (\<lambda>bs.
     andthen (modify (\<lambda>s. s\<lparr>mac := bs\<rparr>)) (\<lambda>_. return True))"

definition clear_tx_desc :: "TX_DESC \<Rightarrow> TX_DESC" where
  "clear_tx_desc d = d\<lparr>tx_address := 0, tx_cmd := 0\<rparr>"

definition tx_init :: "'d e1000_env \<Rightarrow> ('d, unit) card_action" where
  "tx_init E = (case tx_pages E of (virt, phys) \<Rightarrow>
     andthen (require (unat phys mod 16 = 0) Assertion) (\<lambda>_.
     andthen (modify (\<lambda>s. s\<lparr>tx_buf := phys, machine := (machine s)\<lparr>tx_ring := map clear_tx_desc (tx_ring (machine s))\<rparr>\<rparr>)) (\<lambda>_.
     andthen (mmio_write32 E (E1000_TDBAH 0) 0) (\<lambda>_.
     andthen (mmio_write32 E (E1000_TDBAL 0) phys) (\<lambda>_.
     andthen (mmio_write32 E (E1000_TDLEN 0) (of_nat (NUM_TX_DESCRIPTORS * sizeof True TX_DESC_layout))) (\<lambda>_.
     andthen (mmio_write32 E (E1000_TDH 0) 0) (\<lambda>_.
     andthen (mmio_write32 E (E1000_TDT 0) 0) (\<lambda>_.
       modify (\<lambda>s. s\<lparr>tx_buf_pos := 0\<rparr>)))))))))"

text \<open>The packet buffer of a descriptor, as a physical address of 32 bits.\<close>

definition pkt_addr :: "u32 \<Rightarrow> nat \<Rightarrow> u32" where
  "pkt_addr base i = base + of_nat (i * PKT_MAX_SIZE)"

definition fresh_rx_desc :: "u32 \<Rightarrow> nat \<Rightarrow> RX_DESC" where
  "fresh_rx_desc base i = \<lparr>rx_address = ucast (pkt_addr base i), rx_length = 0, rx_checksum = 0, rx_status = 0, rx_errors = 0, rx_special = 0\<rparr>"

definition reset_rx_desc :: "nat \<Rightarrow> ('d, unit) card_action" where
  "reset_rx_desc i =
     andthen (gets (\<lambda>s. length (rx_ring (machine s)))) (\<lambda>n. andthen (require (i < n) Out_of_range) (\<lambda>_.
       modify (\<lambda>s. s\<lparr>machine := (machine s)\<lparr>rx_ring := (rx_ring (machine s))[i := fresh_rx_desc (snd (rx_pkt_buf s)) i]\<rparr>\<rparr>)))"

fun reset_rx_descs :: "nat list \<Rightarrow> ('d, unit) card_action" where
  "reset_rx_descs [] = return ()"
| "reset_rx_descs (i # is) = andthen (reset_rx_desc i) (\<lambda>_. reset_rx_descs is)"

definition zero_rx_desc :: RX_DESC where
  "zero_rx_desc = \<lparr>rx_address = 0, rx_length = 0, rx_checksum = 0, rx_status = 0, rx_errors = 0, rx_special = 0\<rparr>"

definition rx_init :: "'d e1000_env \<Rightarrow> ('d, unit) card_action" where
  "rx_init E = (case rx_pages E of (virt, phys) \<Rightarrow> case pkt_pages E of (pkt_v, pkt_p) \<Rightarrow>
     andthen (modify (\<lambda>s. s\<lparr>machine := (machine s)\<lparr>rx_ring := replicate NUM_RX_DESCRIPTORS zero_rx_desc\<rparr>\<rparr>)) (\<lambda>_.
     andthen (require (unat phys mod 16 = 0) Assertion) (\<lambda>_.
     andthen (modify (\<lambda>s. s\<lparr>rx_buf := (virt, phys), rx_pkt_buf := (pkt_v, pkt_p), machine := (machine s)\<lparr>packet_ram :=
       (\<lambda>a. if unat pkt_p \<le> a \<and> a < unat pkt_p + NUM_RX_DESCRIPTORS * PKT_MAX_SIZE then 0 else packet_ram (machine s) a)\<rparr>\<rparr>)) (\<lambda>_.
     andthen (require (pkt_p \<noteq> 0) Assertion) (\<lambda>_.
     andthen (require (unat pkt_p mod 16 = 0) Assertion) (\<lambda>_.
     andthen (reset_rx_descs [0..<NUM_RX_DESCRIPTORS]) (\<lambda>_.
     andthen (mmio_write32 E (E1000_RDBAH 0) 0) (\<lambda>_.
     andthen (mmio_write32 E (E1000_RDBAL 0) phys) (\<lambda>_.
     andthen (require (sizeof True RX_DESC_layout = 16) Assertion) (\<lambda>_.
     andthen (mmio_write32 E (E1000_RDLEN 0) (of_nat (NUM_RX_DESCRIPTORS * sizeof True RX_DESC_layout))) (\<lambda>_.
     andthen (mmio_write32 E (E1000_RDH 0) 0) (\<lambda>_.
     andthen (mmio_write32 E (E1000_RDT 0) (of_nat NUM_RX_DESCRIPTORS)) (\<lambda>_.
       modify (\<lambda>s. s\<lparr>rx_buf_pos := 0\<rparr>))))))))))))))"

definition STATUS_FD :: u32 where
  "STATUS_FD = 1"

definition STATUS_SPEED_SHIFT :: nat where
  "STATUS_SPEED_SHIFT = 6"

definition STATUS_SPEED_ALL :: u32 where
  "STATUS_SPEED_ALL = 2 ^ 2 - 1"

definition link_speed :: "u32 \<Rightarrow> u32 \<Rightarrow> u32" where
  "link_speed status old =
     (let bits = drop_bit STATUS_SPEED_SHIFT status AND STATUS_SPEED_ALL
      in if bits = 0 then 10 else if bits = 1 then 100 else if bits = 2 \<or> bits = 3 then 1000 else old)"

definition init_card :: "'d e1000_env \<Rightarrow> ('d, bool) card_action" where
  "init_card E =
     andthen (pci_search_e1000 E) (\<lambda>found. if \<not> found then return False else
     andthen (mac_init E) (\<lambda>ok. if \<not> ok then return False else
     andthen (mmio_read32 E E1000_STATUS) (\<lambda>status.
     andthen (modify (\<lambda>s. s\<lparr>full_duplex := (status AND STATUS_FD \<noteq> 0), speed := link_speed status (speed s)\<rparr>)) (\<lambda>_.
     andthen (tx_init E) (\<lambda>_. andthen (rx_init E) (\<lambda>_.
     andthen (modify (\<lambda>s. s\<lparr>snd_counter := 0, rcv_counter := 0, card_ip := (card_ip s)[0 := 0], ready := False\<rparr>)) (\<lambda>_.
     andthen (gets use_msi) (\<lambda>msi. andthen (require msi Assertion) (\<lambda>_.
     andthen (modify (\<lambda>s. s\<lparr>is_up := False\<rparr>)) (\<lambda>_. return True))))))))))"

definition CTRL_SLU :: u32 where
  "CTRL_SLU = 2 ^ 6"

definition TCTL_EN :: u32 where
  "TCTL_EN = 2 ^ 1"

definition TCTL_PSP :: u32 where
  "TCTL_PSP = 2 ^ 3"

definition RCTL_EN :: u32 where
  "RCTL_EN = 2 ^ 1"

definition RCTL_MPE :: u32 where
  "RCTL_MPE = 2 ^ 4"

definition RDMTS_HALF :: u32 where
  "RDMTS_HALF = 0"

definition RCTL_BSIZE_2048 :: u32 where
  "RCTL_BSIZE_2048 = 0"

definition RCTL_SECRC :: u32 where
  "RCTL_SECRC = 2 ^ 26"

definition activate :: "'d e1000_env \<Rightarrow> ('d, unit) card_action" where
  "activate E =
     andthen (mmio_read32 E E1000_CTRL) (\<lambda>v. andthen (mmio_write32 E E1000_CTRL (v AND NOT CTRL_SLU)) (\<lambda>_.
     andthen (usleep E) (\<lambda>_.
     andthen (mmio_read32 E E1000_CTRL) (\<lambda>v. andthen (mmio_write32 E E1000_CTRL (v OR CTRL_SLU)) (\<lambda>_.
     andthen (modify (\<lambda>s. s\<lparr>is_up := True\<rparr>)) (\<lambda>_.
     andthen (mmio_write32 E E1000_IMS 0x1F6DC) (\<lambda>_. andthen (mmio_read32 E E1000_ICR) (\<lambda>_.
     andthen (mmio_write32 E E1000_TCTL (TCTL_EN OR TCTL_PSP)) (\<lambda>_.
     andthen (mmio_write32 E E1000_RCTL (RCTL_MPE OR RDMTS_HALF OR RCTL_BSIZE_2048 OR RCTL_SECRC OR RCTL_EN)) (\<lambda>_.
       modify (\<lambda>s. s\<lparr>ready := True\<rparr>)))))))))))"

section \<open>Transmission\<close>

text \<open>The card acts before every look at the status of the descriptor, and during the sleeps.\<close>

partial_function (option) wait_sent :: "'d e1000_env \<Rightarrow> nat \<Rightarrow> 'd e1000_card \<Rightarrow> (unit \<times> 'd e1000_card) outcome option" where
  "wait_sent E old_pos s =
     (let m = dma E (machine s) in
      if tx_sta (tx_ring m ! old_pos) AND 0xF \<noteq> 0 then Some (Inr ((), s\<lparr>machine := m\<rparr>))
      else wait_sent E old_pos (s\<lparr>machine := m\<rparr>))"

definition post_desc :: "u32 \<Rightarrow> u32 \<Rightarrow> TX_DESC \<Rightarrow> TX_DESC" where
  "post_desc pkt_phys len d = d\<lparr>tx_address := ucast pkt_phys, tx_length := ucast len, tx_cmd := 2 ^ 3 OR 3\<rparr>"

text \<open>The descriptor is filled in, and then the card is told and the driver waits.\<close>

definition post_packet :: "u32 \<Rightarrow> u32 \<Rightarrow> 'd e1000_card \<Rightarrow> 'd e1000_card" where
  "post_packet pkt_phys len s = (let pos = unat (tx_buf_pos s); ring = tx_ring (machine s) in
     s\<lparr>machine := (machine s)\<lparr>tx_ring := ring[pos := post_desc pkt_phys len (ring ! pos)]\<rparr>,
       tx_buf_pos := of_nat ((pos + 1) mod NUM_TX_DESCRIPTORS)\<rparr>)"

definition finish_send :: "'d e1000_env \<Rightarrow> nat \<Rightarrow> ('d, unit) card_action" where
  "finish_send E old_pos =
     andthen (gets (\<lambda>s. ucast (tx_buf_pos s))) (\<lambda>pos. andthen (mmio_write32 E (E1000_TDT 0) pos) (\<lambda>_.
     andthen (wait_sent E old_pos) (\<lambda>_.
     andthen (modify (\<lambda>s. s\<lparr>snd_counter := snd_counter s + 1\<rparr>)) (\<lambda>_.
       usleep E))))"

definition send :: "'d e1000_env \<Rightarrow> u32 \<Rightarrow> u32 \<Rightarrow> ('d, unit) card_action" where
  "send E pkt_phys len s =
     (if unat (tx_buf_pos s) < length (tx_ring (machine s))
      then finish_send E (unat (tx_buf_pos s)) (post_packet pkt_phys len s) else Some (Inl Out_of_range))"

section \<open>Reception\<close>

definition sent_to_me :: "'d e1000_card \<Rightarrow> (nat \<Rightarrow> u8) \<Rightarrow> bool" where
  "sent_to_me s pkt \<longleftrightarrow> list_all (\<lambda>i. mac s ! i = pkt i) [0..<6]"

definition is_arp :: "'d e1000_card \<Rightarrow> (nat \<Rightarrow> u8) \<Rightarrow> bool" where
  "is_arp s pkt \<longleftrightarrow>
     (if \<not> list_all (\<lambda>pos. pkt pos = 0xFF) [0..<6] then False
      else if pkt 12 \<noteq> 0x08 \<or> pkt 13 \<noteq> 0x06 then False
      else if card_ip s ! 0 \<noteq> 0 then list_all (\<lambda>pos. ucast (pkt pos) = card_ip s ! (pos - 38)) [38..<42]
      else True)"

text \<open>
  The bytes that the pointer \<^verbatim>\<open>pkt\<close> of a descriptor points to; the pages of the buffers are contiguous. Reading the first
  \<open>n\<close> bytes there is defined while they are inside \<^verbatim>\<open>rx_pkt_buf\<close>, the buffers of all descriptors.
\<close>

definition packet_at :: "'d e1000_card \<Rightarrow> nat \<Rightarrow> nat \<Rightarrow> u8" where
  "packet_at s pos i = packet_ram (machine s) (unat (snd (rx_pkt_buf s)) + pos * PKT_MAX_SIZE + i)"

definition in_buffer :: "nat \<Rightarrow> nat \<Rightarrow> bool" where
  "in_buffer pos n \<longleftrightarrow> pos * PKT_MAX_SIZE + n \<le> NUM_RX_DESCRIPTORS * PKT_MAX_SIZE"

definition produce :: "u8 list \<Rightarrow> ('d, unit) card_action" where
  "produce bytes = andthen (gets channel) (\<lambda>c.
     case c of None \<Rightarrow> stop_with Null_deref | Some ps \<Rightarrow> modify (\<lambda>s. s\<lparr>channel := Some (ps @ [bytes])\<rparr>))"

definition hand_over :: "(nat \<Rightarrow> u8) \<Rightarrow> nat \<Rightarrow> nat \<Rightarrow> ('d, unit) card_action" where
  "hand_over pkt pos pktlen = andthen (require (in_buffer pos pktlen) Out_of_range) (\<lambda>_. produce (map pkt [0..<pktlen]))"

text \<open>The body of the loop. The first test is \<^verbatim>\<open>status && 0x10\<close>; the two filters read at most 42 bytes.\<close>

definition receive_one :: "'d e1000_env \<Rightarrow> u8 \<Rightarrow> ('d, unit) card_action" where
  "receive_one E status =
     andthen (require (status \<noteq> 0 \<and> (0x10 :: u32) \<noteq> 0) Panic) (\<lambda>_.
     andthen (gets (\<lambda>s. unat (rx_buf_pos s))) (\<lambda>pos.
     andthen (gets (\<lambda>s. rx_ring (machine s) ! pos)) (\<lambda>d.
     andthen (gets is_x8254) (\<lambda>x8254.
     andthen (require (\<not> (x8254 \<and> rx_errors d \<noteq> 0)) Panic) (\<lambda>_.
     andthen (require (in_buffer pos 42) Out_of_range) (\<lambda>_.
     andthen (gets (\<lambda>s. packet_at s pos)) (\<lambda>pkt.
     andthen (gets (\<lambda>s. is_arp s pkt)) (\<lambda>arp.
     andthen (gets (\<lambda>s. sent_to_me s pkt)) (\<lambda>mine.
     andthen (if arp then hand_over pkt pos (unat (rx_length d))
              else if mine then hand_over pkt pos (unat (rx_length d))
              else return ()) (\<lambda>_.
     andthen (reset_rx_desc pos) (\<lambda>_.
     andthen (mmio_write32 E (E1000_RDT 0) (of_nat (pos mod NUM_RX_DESCRIPTORS))) (\<lambda>_.
       modify (\<lambda>s. s\<lparr>rx_buf_pos := of_nat ((pos + 1) mod NUM_RX_DESCRIPTORS)\<rparr>)))))))))))))"

definition read_status :: "'d e1000_env \<Rightarrow> ('d, u8) card_action" where
  "read_status E =
     andthen (usleep E) (\<lambda>_.
     andthen (gets (\<lambda>s. (unat (rx_buf_pos s), rx_ring (machine s)))) (\<lambda>(pos, ring).
     andthen (require (pos < length ring) Out_of_range) (\<lambda>_. return (rx_status (ring ! pos)))))"

partial_function (option) receive_loop :: "'d e1000_env \<Rightarrow> 'd e1000_card \<Rightarrow> (unit \<times> 'd e1000_card) outcome option" where
  "receive_loop E s = (case read_status E s of None \<Rightarrow> None | Some (Inl e) \<Rightarrow> Some (Inl e)
     | Some (Inr (status, s1)) \<Rightarrow>
         if status AND 0x01 = 0 then Some (Inr ((), s1))
         else (case receive_one E status s1 of None \<Rightarrow> None | Some (Inl e) \<Rightarrow> Some (Inl e)
           | Some (Inr (_, s2)) \<Rightarrow> receive_loop E s2))"

definition interrupt_handler :: "'d e1000_env \<Rightarrow> ('d, unit) card_action" where
  "interrupt_handler E =
     andthen (mmio_read32 E E1000_ICR) (\<lambda>icr.
       if icr AND 2 ^ 7 \<noteq> 0 then receive_loop E
       else if icr AND 2 ^ 2 \<noteq> 0 then modify (\<lambda>s. s\<lparr>is_up := \<not> is_up s\<rparr>)
       else return ())"

text \<open>\<^verbatim>\<open>poll_interrupt\<close> reads the counters for its messages, until a packet stops it with a panic.\<close>

partial_function (option) poll_interrupt :: "'d e1000_env \<Rightarrow> 'd e1000_card \<Rightarrow> (unit \<times> 'd e1000_card) outcome option" where
  "poll_interrupt E s = (case reg_read E E1000_ICR (machine s) of (icr, m) \<Rightarrow>
     if icr AND 2 ^ 7 \<noteq> 0 then Some (Inl Panic)
     else poll_interrupt E (s\<lparr>machine := fold (\<lambda>reg m. snd (reg_read E reg m)) E1000_PRC m\<rparr>))"

section \<open>The service\<close>

definition register_channel :: "u8 list list \<Rightarrow> 'd e1000_card \<Rightarrow> 'd e1000_card" where
  "register_channel c s = s\<lparr>channel := Some c\<rparr>"

text \<open>
  \<^verbatim>\<open>receive_pkt\<close> before its loop: \<open>msg\<close> is the message of the interrupt controller, \<open>bound\<close> and \<open>attached\<close> are the results
  of binding and attaching the interrupt, \<open>magic\<close> whether the channel has its magic number.
\<close>

definition receive_pkt_setup :: "'d e1000_env \<Rightarrow> u16 \<Rightarrow> u32 \<Rightarrow> int \<Rightarrow> int \<Rightarrow> bool \<Rightarrow> ('d, unit) card_action" where
  "receive_pkt_setup E junk msg bound attached magic =
     andthen (gets use_msi) (\<lambda>msi.
     andthen (if msi then andthen (config_msi E junk msg) (\<lambda>ok. require ok Panic) else return ()) (\<lambda>_.
     andthen (require (bound = 0) Panic) (\<lambda>_. andthen (require (attached = 0) Panic) (\<lambda>_.
     andthen (require magic Assertion) (\<lambda>_.
     andthen (modify (register_channel [])) (\<lambda>_. activate E))))))"

text \<open>One round of \<^verbatim>\<open>service_request\<close>: \<open>w\<close> are the words of the request; the reply of a configuration request is the address.\<close>

definition service_one :: "'d e1000_env \<Rightarrow> (nat \<Rightarrow> u32) \<Rightarrow> ('d, u8 list) card_action" where
  "service_one E w =
     (if w 0 = 0xFFFFFFFF
      then andthen (modify (\<lambda>s. s\<lparr>card_ip := [w 1, w 2, w 3, w 4]\<rparr>)) (\<lambda>_. gets mac)
      else andthen (send E (w 0) (w 1)) (\<lambda>_. return []))"

text \<open>The two threads take turns: interrupts are handled by one, requests by the other.\<close>

datatype event = Interrupt | Request "nat \<Rightarrow> u32"

fun handle_events :: "'d e1000_env \<Rightarrow> event list \<Rightarrow> ('d, u8 list list) card_action" where
  "handle_events E [] = return []"
| "handle_events E (Interrupt # es) = andthen (interrupt_handler E) (\<lambda>_. handle_events E es)"
| "handle_events E (Request w # es) =
     andthen (service_one E w) (\<lambda>reply. andthen (handle_events E es) (\<lambda>rs. return (reply # rs)))"

definition main_e1000 :: "'d e1000_env \<Rightarrow> u16 \<Rightarrow> u32 \<Rightarrow> int \<Rightarrow> int \<Rightarrow> bool \<Rightarrow> event list \<Rightarrow> ('d, u8 list list) card_action" where
  "main_e1000 E junk msg bound attached magic es =
     andthen (init_card E) (\<lambda>ok. andthen (require ok Panic) (\<lambda>_.
     andthen (receive_pkt_setup E junk msg bound attached magic) (\<lambda>_. handle_events E es)))"

section \<open>The size of the register region\<close>

text \<open>A memory base address register of \<open>2 ^ k\<close> bytes reads back as ones above the \<open>k\<close> lowest bits and its type in the last four.\<close>

lemma region_size_correct:
  assumes "4 \<le> k" "k < 32" "kind AND NOT 0xF = 0"
  shows "region_size (NOT (mask k) OR kind) = 2 ^ k"
proof -
  have fifteen: "(0xF :: u32) = mask 4" by (simp add: mask_eq_exp_minus_1)
  have kind: "\<not> bit kind n" if "4 \<le> n" for n
  proof
    assume "bit kind n"
    then have "bit (kind AND NOT (mask 4)) n" using that bit_imp_le_length [of kind n] by (simp add: bit_simps)
    then show False using assms(3) unfolding fifteen by simp
  qed
  have v: "(NOT (mask k) OR kind) AND NOT 0xF = NOT (mask k)"
    unfolding fifteen using assms(1) kind by (intro bit_eqI) (auto simp: bit_simps)
  have "NOT (mask k) - 1 = NOT (2 ^ k :: u32)"
    by (simp add: not_eq_complement mask_eq_exp_minus_1)
  then have "NOT (NOT (mask k) - 1) = (2 ^ k :: u32)" by simp
  moreover have "NOT (mask k) AND 2 ^ k = (2 ^ k :: u32)"
    by (intro bit_eqI) (auto simp: bit_simps)
  ultimately show ?thesis unfolding region_size_def Let_def v by simp
qed

section \<open>Well-formed objects\<close>

text \<open>
  What the driver relies on for its array accesses, in the order in which it is established: the arrays of the object,
  the address of the card, the positions in the two rings, lengths in the receive descriptors that fit the buffers, and
  the channel.
\<close>

definition lengths_fit :: "'d machine \<Rightarrow> bool" where
  "lengths_fit m \<longleftrightarrow> list_all (\<lambda>d. unat (rx_length d) \<le> PKT_MAX_SIZE) (rx_ring m)"

definition shaped :: "nat \<Rightarrow> 'd e1000_card \<Rightarrow> bool" where
  "shaped k s \<longleftrightarrow> length (card_ip s) = 4 \<and> length (tx_ring (machine s)) = NUM_TX_DESCRIPTORS \<and>
     (1 \<le> k \<longrightarrow> length (mac s) = 6) \<and> (2 \<le> k \<longrightarrow> unat (tx_buf_pos s) < NUM_TX_DESCRIPTORS) \<and>
     (3 \<le> k \<longrightarrow> length (rx_ring (machine s)) = NUM_RX_DESCRIPTORS \<and> unat (rx_buf_pos s) < NUM_RX_DESCRIPTORS \<and> lengths_fit (machine s)) \<and>
     (4 \<le> k \<longrightarrow> channel s \<noteq> None)"

text \<open>
  The card writes descriptors and does not change the number of them, and it reports no more bytes than the buffers of
  2048 bytes have, which is the size the driver sets in its receive control register.
\<close>

definition same_size :: "'d machine \<Rightarrow> 'd machine \<Rightarrow> bool" where
  "same_size m m' \<longleftrightarrow> length (tx_ring m') = length (tx_ring m) \<and> length (rx_ring m') = length (rx_ring m) \<and>
     (lengths_fit m \<longrightarrow> lengths_fit m')"

definition keeps_size :: "'d e1000_env \<Rightarrow> bool" where
  "keeps_size E \<longleftrightarrow> (\<forall>m. same_size m (dma E m) \<and> (\<forall>r. same_size m (snd (reg_read E r m))) \<and>
     (\<forall>r v. same_size m (reg_write E r v m)) \<and> (\<forall>i r n v. same_size m (pci_write E i r n v m)))"

abbreviation never :: "fault set" where
  "never \<equiv> {Null_deref, Out_of_range, Div_by_zero, Undefined}"

lemma shaped_machine: "same_size (machine s) m \<Longrightarrow> shaped k s \<Longrightarrow> shaped k (s\<lparr>machine := m\<rparr>)"
  by (simp add: shaped_def same_size_def)

lemma shaped_mmio:
  assumes "keeps_size E"
  shows "in_registers r \<Longrightarrow> guards F (shaped k) (mmio_read32 E r) (\<lambda>_. shaped k)"
    "in_registers r \<Longrightarrow> guards F (shaped k) (mmio_write32 E r v) (\<lambda>_. shaped k)"
    "guards F (shaped k) (usleep E) (\<lambda>_. shaped k)"
    "guards F (shaped k) (pci_write_card E r n v) (\<lambda>_. shaped k)"
    "guards F (shaped k) (pci_read_card E r n) (\<lambda>_. shaped k)"
proof -
  have same: "same_size m (snd (reg_read E r m))" "same_size m (reg_write E r v m)" "same_size m (dma E m)"
    "same_size m (pci_write E i r n v m)" for m i
    using assms by (simp_all add: keeps_size_def)
  show "guards F (shaped k) (mmio_read32 E r) (\<lambda>_. shaped k)" if "in_registers r"
    unfolding guards_def mmio_read32_def using same(1) that by (auto split: prod.splits) (metis shaped_machine snd_conv)
  show "guards F (shaped k) (mmio_write32 E r v) (\<lambda>_. shaped k)" if "in_registers r"
    unfolding mmio_write32_def using that by (intro guards_keep guards_require guards_modify) (simp_all add: shaped_machine same)
  show "guards F (shaped k) (usleep E) (\<lambda>_. shaped k)" "guards F (shaped k) (pci_write_card E r n v) (\<lambda>_. shaped k)"
    unfolding usleep_def pci_write_card_def by (rule guards_modify, simp add: shaped_machine same)+
  show "guards F (shaped k) (pci_read_card E r n) (\<lambda>_. shaped k)"
    unfolding pci_read_card_def by (rule guards_gets)
qed

lemma poll_reg_shaped:
  assumes "keeps_size E" "in_registers reg"
  shows "guards F (shaped k) (poll_reg E reg until) (\<lambda>_. shaped k)"
proof -
  have "keeps_size E \<longrightarrow> in_registers reg \<longrightarrow> shaped k s \<longrightarrow> (case r of Inl e \<Rightarrow> e \<notin> F | Inr (x, s') \<Rightarrow> shaped k s')"
    if "poll_reg E reg until s = Some r" for s r
  proof (rule poll_reg.raw_induct [OF _ that])
    fix poll :: "'a e1000_env \<Rightarrow> u32 \<Rightarrow> (u32 \<Rightarrow> bool) \<Rightarrow> 'a e1000_card \<Rightarrow> (u32 \<times> 'a e1000_card) outcome option"
    fix E reg until s r
    assume IH: "\<And>E reg until s r. poll E reg until s = Some r \<Longrightarrow> keeps_size E \<longrightarrow> in_registers reg \<longrightarrow> shaped k s \<longrightarrow>
        (case r of Inl e \<Rightarrow> e \<notin> F | Inr (x, s') \<Rightarrow> shaped k s')"
      and step: "(if \<not> in_registers reg then Some (Inl Out_of_range) else case reg_read E reg (machine s) of (v, m) \<Rightarrow>
        if until v then Some (Inr (v, s\<lparr>machine := m\<rparr>)) else poll E reg until (s\<lparr>machine := dma E m\<rparr>)) = Some r"
    obtain v m where rd: "reg_read E reg (machine s) = (v, m)" by (metis prod.exhaust)
    have "shaped k (s\<lparr>machine := m\<rparr>) \<and> shaped k (s\<lparr>machine := dma E m\<rparr>)" if "keeps_size E" "shaped k s"
    proof -
      have "same_size (machine s) m" "same_size m (dma E m)" using that rd unfolding keeps_size_def by (metis snd_conv, metis)
      then show ?thesis using that(2) by (simp add: shaped_machine same_size_def)
    qed
    then show "keeps_size E \<longrightarrow> in_registers reg \<longrightarrow> shaped k s \<longrightarrow> (case r of Inl e \<Rightarrow> e \<notin> F | Inr (x, s') \<Rightarrow> shaped k s')"
      using step rd IH [of E reg until "s\<lparr>machine := dma E m\<rparr>" r] by (auto split: if_splits)
  qed
  then show ?thesis using assms unfolding guards_def by blast
qed

lemma shaped_fields [simp]:
  "shaped k (s\<lparr>is_x8254 := a\<rparr>) = shaped k s" "shaped k (s\<lparr>is_x8257 := a\<rparr>) = shaped k s"
  "shaped k (s\<lparr>use_msi := a\<rparr>) = shaped k s" "shaped k (s\<lparr>mmio := b\<rparr>) = shaped k s" "shaped k (s\<lparr>mmio_size := c\<rparr>) = shaped k s"
  "shaped k (s\<lparr>is_up := a\<rparr>) = shaped k s" "shaped k (s\<lparr>ready := a\<rparr>) = shaped k s" "shaped k (s\<lparr>snd_counter := d\<rparr>) = shaped k s"
  "shaped k (take_card i dev s) = shaped k s"
  by (simp_all add: shaped_def take_card_def Let_def split: prod.splits)

lemmas shaped_rules = guards_keep shaped_mmio poll_reg_shaped guards_return guards_stop guards_gets guards_if guards_require guards_set

lemma read_eeprom_shaped: "keeps_size E \<Longrightarrow> guards never (shaped k) (read_eeprom E reg) (\<lambda>_. shaped k)"
  unfolding read_eeprom_def case_prod_beta
  by (intro shaped_rules) simp_all

lemma scan_cards_shaped: "guards never (shaped k) (scan_cards E is) (\<lambda>_. shaped k)"
proof (induction "is")
  case Nil
  show ?case by (simp add: guards_return)
next
  case (Cons i "is")
  show ?case unfolding scan_cards.simps
    by (intro shaped_rules Cons) simp_all
qed

lemma map_card_shaped: "keeps_size E \<Longrightarrow> guards never (shaped k) (map_card E) (\<lambda>_. shaped k)"
  unfolding map_card_def case_prod_beta
  by (intro shaped_rules) simp_all

lemma pci_search_shaped: "keeps_size E \<Longrightarrow> guards never (shaped k) (pci_search_e1000 E) (\<lambda>_. shaped k)"
  unfolding pci_search_e1000_def case_prod_beta
  by (intro shaped_rules scan_cards_shaped map_card_shaped read_eeprom_shaped) simp_all

lemma find_msi_faults:
  assumes "find_msi config ptr = Some r"
  shows "r \<noteq> Inl e \<or> e = Assertion"
proof (rule find_msi.raw_induct [OF _ assms])
  fix find :: "(u32 \<Rightarrow> u8) \<Rightarrow> u8 \<Rightarrow> u8 option outcome option"
  fix config ptr r
  assume "\<And>config ptr r. find config ptr = Some r \<Longrightarrow> r \<noteq> Inl e \<or> e = Assertion"
    "(if ptr = 0 then Some (Inr None) else if config (ucast ptr) = 5 then Some (Inr (Some ptr))
      else if config (ucast ptr + 1) AND 3 = 0 then find config (config (ucast ptr + 1)) else Some (Inl Assertion)) = Some r"
  then show "r \<noteq> Inl e \<or> e = Assertion" by (auto split: if_splits)
qed

lemma config_msi_shaped: "keeps_size E \<Longrightarrow> guards never (shaped k) (config_msi E junk msg) (\<lambda>_. shaped k)"
proof -
  assume E: "keeps_size E"
  have w: "guards never (shaped k) (write_msi E junk msg cap) (\<lambda>_. shaped k)" for cap
    unfolding write_msi_def Let_def by (intro shaped_rules E) simp_all
  have "guards never (shaped k) (case find_msi c p of None \<Rightarrow> (\<lambda>s. None) | Some (Inl e) \<Rightarrow> stop_with e
      | Some (Inr None) \<Rightarrow> stop_with Panic | Some (Inr (Some cap_ptr)) \<Rightarrow> write_msi E junk msg cap_ptr) (\<lambda>_. shaped k)" for c p
    using find_msi_faults [of c p] w by (cases "find_msi c p") (auto simp: guards_def stop_with_def split: option.splits sum.splits)
  then show ?thesis unfolding config_msi_def by (intro shaped_rules) simp_all
qed

lemma activate_shaped: "keeps_size E \<Longrightarrow> guards never (shaped k) (activate E) (\<lambda>_. shaped k)"
  unfolding activate_def
  by (intro shaped_rules) simp_all

lemma read_mac_shaped:
  assumes "keeps_size E" "\<forall>r\<in>set rs. in_registers (fst r)"
  shows "guards F (shaped k) (read_mac E rs) (\<lambda>bs s. shaped k s \<and> length bs = length rs)"
  using assms(2)
proof (induction rs)
  case Nil
  show ?case by (simp add: guards_return)
next
  case (Cons r rs)
  obtain reg shift where r: "r = (reg, shift)" by (cases r)
  then have "in_registers reg" "guards F (shaped k) (read_mac E rs) (\<lambda>bs s. shaped k s \<and> length bs = length rs)" using Cons by simp_all
  then show ?case unfolding r read_mac.simps
    by (intro guards_andthen [OF shaped_mmio(1) [OF assms(1)]]) (assumption, erule guards_andthen, simp add: guards_return)
qed

lemma mac_init_shaped: "keeps_size E \<Longrightarrow> guards F (shaped 0) (mac_init E) (\<lambda>_. shaped 1)"
  unfolding mac_init_def
  by (rule guards_andthen, erule read_mac_shaped, force, rule guards_step [where R = "shaped 1"])
    (auto intro: guards_return simp: shaped_def)

lemma tx_init_shaped:
  assumes "keeps_size E"
  shows "guards never (shaped 1) (tx_init E) (\<lambda>_. shaped 2)"
proof -
  have "guards never (shaped 1) (modify (\<lambda>s. s\<lparr>tx_buf_pos := 0\<rparr>)) (\<lambda>_. shaped 2)"
    by (rule guards_modify) (simp add: shaped_def)
  moreover have "shaped 1 (s\<lparr>tx_buf := a, machine := (machine s)\<lparr>tx_ring := map clear_tx_desc (tx_ring (machine s))\<rparr>\<rparr>)"
    if "shaped 1 s" for s :: "'a e1000_card" and a
    using that by (simp add: shaped_def)
  ultimately show ?thesis unfolding tx_init_def case_prod_beta
    by (intro shaped_rules assms) simp_all
qed

text \<open>While the receive ring is set up, its length is known and its position is not.\<close>

abbreviation shaped_ring :: "'d e1000_card \<Rightarrow> bool" where
  "shaped_ring s \<equiv> shaped 2 s \<and> length (rx_ring (machine s)) = NUM_RX_DESCRIPTORS \<and> lengths_fit (machine s)"

lemma lengths_fit_simps:
  "lengths_fit (m\<lparr>nic := n\<rparr>) = lengths_fit m" "lengths_fit (m\<lparr>packet_ram := r\<rparr>) = lengths_fit m" "lengths_fit (m\<lparr>tx_ring := t\<rparr>) = lengths_fit m"
  "unat (rx_length d) \<le> 2048 \<Longrightarrow> lengths_fit m \<Longrightarrow> lengths_fit (m\<lparr>rx_ring := (rx_ring m)[i := d]\<rparr>)"
  "lengths_fit (m\<lparr>rx_ring := replicate l zero_rx_desc\<rparr>)"
  by (auto simp: lengths_fit_def list_all_iff zero_rx_desc_def dest: set_update_subset_insert [THEN subsetD])

lemma reset_rx_desc_shaped:
  "i < 1024 \<Longrightarrow> 3 \<le> k \<Longrightarrow> guards F (shaped k) (reset_rx_desc i) (\<lambda>_. shaped k)"
  "i < 1024 \<Longrightarrow> guards F shaped_ring (reset_rx_desc i) (\<lambda>_. shaped_ring)"
  by (auto simp: guards_def reset_rx_desc_def run_simps shaped_def lengths_fit_simps fresh_rx_desc_def)

lemma reset_rx_descs_shaped:
  "list_all (\<lambda>i. i < 1024) is \<Longrightarrow> guards F shaped_ring (reset_rx_descs is) (\<lambda>_. shaped_ring)"
  by (induction "is") (auto intro!: guards_return guards_keep reset_rx_desc_shaped(2) [simplified])

lemma shaped_ring_mmio:
  assumes "keeps_size E" "in_registers r"
  shows "guards F shaped_ring (mmio_write32 E r v) (\<lambda>_. shaped_ring)"
proof -
  have "same_size m (reg_write E r v m)" for m using assms(1) by (simp add: keeps_size_def)
  then show ?thesis unfolding mmio_write32_def using assms(2)
    by (intro guards_keep guards_require guards_set) (simp_all add: same_size_def shaped_def)
qed

lemma rx_init_shaped:
  assumes "keeps_size E"
  shows "guards never (shaped 2) (rx_init E) (\<lambda>_. shaped 3)"
proof -
  have last: "guards never shaped_ring (modify (\<lambda>s. s\<lparr>rx_buf_pos := 0\<rparr>)) (\<lambda>_. shaped 3)"
    by (rule guards_modify) (simp add: shaped_def)
  have bufs: "shaped_ring (s\<lparr>rx_buf := a, rx_pkt_buf := b, machine := (machine s)\<lparr>packet_ram := c\<rparr>\<rparr>)"
    if "shaped_ring s" for s :: "'a e1000_card" and a b c
    using that by (simp add: shaped_def lengths_fit_simps)
  show ?thesis unfolding rx_init_def case_prod_beta
    apply (rule guards_step [where R = shaped_ring])
     apply (intro guards_keep guards_require guards_set shaped_ring_mmio [OF assms] reset_rx_descs_shaped last bufs)
         apply (simp_all add: list_all_iff)
    apply (simp add: shaped_def lengths_fit_simps)
    done
qed

lemma init_card_shaped:
  assumes "keeps_size E"
  shows "guards never (shaped 0) (init_card E) (\<lambda>ok s. ok \<longrightarrow> shaped 3 s)"
proof -
  have mid: "guards never (shaped 3) (modify (\<lambda>s. s\<lparr>snd_counter := 0, rcv_counter := 0, card_ip := (card_ip s)[0 := 0], ready := False\<rparr>)) (\<lambda>_. shaped 3)"
    by (rule guards_set) (simp add: shaped_def)
  have fd: "guards never (shaped 1) (modify (\<lambda>s. s\<lparr>full_duplex := a, speed := link_speed st (speed s)\<rparr>)) (\<lambda>_. shaped 1)" for a st
    by (rule guards_set) (simp add: shaped_def)
  have tail: "guards never (shaped 3) (andthen (gets use_msi) (\<lambda>msi. andthen (require msi Assertion) (\<lambda>_.
      andthen (modify (\<lambda>s. s\<lparr>is_up := False\<rparr>)) (\<lambda>_. return True)))) (\<lambda>ok s. ok \<longrightarrow> shaped 3 s)"
    by (intro shaped_rules) simp_all
  have stop: "guards never (shaped k) (return False) (\<lambda>ok s. ok \<longrightarrow> shaped 3 s)" for k :: nat
    by (rule guards_return) simp
  show ?thesis unfolding init_card_def
    apply (rule guards_keep [OF pci_search_shaped [OF assms]], rule guards_if [OF stop])
    apply (rule guards_andthen [OF mac_init_shaped [OF assms]], rule guards_if [OF stop])
    apply (rule guards_keep [OF shaped_mmio(1) [OF assms register_offsets(2)]], rule guards_keep [OF fd])
    apply (rule guards_andthen [OF tx_init_shaped [OF assms]], rule guards_andthen [OF rx_init_shaped [OF assms]])
    apply (rule guards_keep [OF mid], rule tail)
    done
qed

lemma wait_sent_shaped:
  assumes "keeps_size E"
  shows "guards F (shaped k) (wait_sent E pos) (\<lambda>_. shaped k)"
proof -
  have "keeps_size E \<longrightarrow> shaped k s \<longrightarrow> (case r of Inl e \<Rightarrow> e \<notin> F | Inr (x, s') \<Rightarrow> shaped k s')" if "wait_sent E pos s = Some r" for s r
  proof (rule wait_sent.raw_induct [OF _ that])
    fix wait :: "'a e1000_env \<Rightarrow> nat \<Rightarrow> 'a e1000_card \<Rightarrow> (unit \<times> 'a e1000_card) outcome option"
    fix E pos s r
    assume IH: "\<And>E pos s r. wait E pos s = Some r \<Longrightarrow> keeps_size E \<longrightarrow> shaped k s \<longrightarrow>
        (case r of Inl e \<Rightarrow> e \<notin> F | Inr (x, s') \<Rightarrow> shaped k s')"
      and step: "(let m = dma E (machine s) in if tx_sta (tx_ring m ! pos) AND 15 \<noteq> 0 then Some (Inr ((), s\<lparr>machine := m\<rparr>))
        else wait E pos (s\<lparr>machine := m\<rparr>)) = Some r"
    have "shaped k (s\<lparr>machine := dma E (machine s)\<rparr>)" if "keeps_size E" "shaped k s"
      using that by (simp add: shaped_machine keeps_size_def)
    then show "keeps_size E \<longrightarrow> shaped k s \<longrightarrow> (case r of Inl e \<Rightarrow> e \<notin> F | Inr (x, s') \<Rightarrow> shaped k s')"
      using step IH [of E pos "s\<lparr>machine := dma E (machine s)\<rparr>" r] by (auto simp: Let_def split: if_splits)
  qed
  then show ?thesis using assms unfolding guards_def by blast
qed

lemma ring_next: "unat (of_nat ((pos + 1) mod 1024) :: u16) = (pos + 1) mod 1024"
proof -
  have "(pos + 1) mod 1024 < 1024" by simp
  then show ?thesis by (simp add: unat_of_nat take_bit_nat_eq_self)
qed

lemma send_shaped:
  assumes "keeps_size E" "2 \<le> k"
  shows "guards never (shaped k) (send E a l) (\<lambda>_. shaped k)"
proof -
  have rest: "guards never (shaped k) (finish_send E pos) (\<lambda>_. shaped k)" for pos
    unfolding finish_send_def by (intro shaped_rules wait_sent_shaped assms) simp_all
  have post: "shaped k (post_packet a l s)" if "shaped k s" for s :: "'a e1000_card"
    using that by (simp add: shaped_def post_packet_def Let_def ring_next [simplified] lengths_fit_simps)
  show ?thesis
    unfolding guards_def
  proof (intro allI impI)
    fix s r assume s: "shaped k s" and run: "send E a l s = Some r"
    have "unat (tx_buf_pos s) < length (tx_ring (machine s))" using s assms(2) by (simp add: shaped_def)
    then have "finish_send E (unat (tx_buf_pos s)) (post_packet a l s) = Some r" using run by (simp add: send_def)
    from guardsD [OF rest post [OF s] this] show "case r of Inl e \<Rightarrow> e \<notin> never | Inr (x, s') \<Rightarrow> shaped k s'" .
  qed
qed

lemma receive_one_shaped:
  assumes "keeps_size E" "4 \<le> k"
  shows "guards never (shaped k) (receive_one E st) (\<lambda>_. shaped k)"
proof -
  have buffer: "in_buffer pos n" if "pos < 1024" "n \<le> 2048" for pos n using that by (simp add: in_buffer_def)
  have produce: "guards never (shaped k) (hand_over pkt pos n) (\<lambda>_. shaped k)" if "in_buffer pos n" for pkt pos n
    using assms(2) that by (auto simp: guards_def hand_over_def produce_def run_simps shaped_def)
  define rest where "rest pos = andthen (reset_rx_desc pos) (\<lambda>_.
     andthen (mmio_write32 E (E1000_RDT 0) (of_nat (pos mod NUM_RX_DESCRIPTORS))) (\<lambda>_.
       modify (\<lambda>s. s\<lparr>rx_buf_pos := of_nat ((pos + 1) mod NUM_RX_DESCRIPTORS)\<rparr>)))" for pos
  have rest: "guards never (shaped k) (rest pos) (\<lambda>_. shaped k)" if "pos < 1024" for pos
    unfolding rest_def
    by (intro guards_keep reset_rx_desc_shaped shaped_mmio assms guards_set)
      (use that assms in \<open>simp_all add: shaped_def ring_next [simplified]\<close>)
  have pos: "guards never (shaped k) (gets (\<lambda>s. unat (rx_buf_pos s))) (\<lambda>p s. p < 1024 \<and> shaped k s)"
    using assms(2) by (auto simp: guards_def gets_def shaped_def)
  have desc: "guards never (shaped k) (gets (\<lambda>s. rx_ring (machine s) ! p)) (\<lambda>d s. unat (rx_length d) \<le> 2048 \<and> shaped k s)"
    if "p < 1024" for p
    using assms(2) that by (auto simp: guards_def gets_def shaped_def lengths_fit_def list_all_length)
  have lift: "guards never (\<lambda>s. C \<and> shaped k s) a Q" if "C \<Longrightarrow> guards never (shaped k) a Q"
    for C and a :: "('a, unit) card_action" and Q
    using that by (auto simp: guards_def)
  show ?thesis unfolding receive_one_def rest_def [symmetric]
    by (rule guards_keep, rule guards_require, simp, rule guards_andthen [OF pos], rule lift, rule guards_andthen [OF desc], assumption, rule lift)
      (intro guards_keep guards_gets guards_require guards_if guards_return produce rest buffer, simp_all add: buffer)
qed

lemma read_status_shaped: "keeps_size E \<Longrightarrow> 3 \<le> k \<Longrightarrow> guards never (shaped k) (read_status E) (\<lambda>_. shaped k)"
  unfolding read_status_def
  by (rule guards_keep, erule shaped_mmio) (auto simp: guards_def run_simps shaped_def)

lemma receive_loop_shaped:
  assumes "keeps_size E" "4 \<le> k"
  shows "guards never (shaped k) (receive_loop E) (\<lambda>_. shaped k)"
proof -
  have "keeps_size E \<longrightarrow> shaped k s \<longrightarrow> (case r of Inl e \<Rightarrow> e \<notin> never | Inr (x, s') \<Rightarrow> shaped k s')" if "receive_loop E s = Some r" for s r
  proof (rule receive_loop.raw_induct [OF _ that])
    fix loop :: "'a e1000_env \<Rightarrow> 'a e1000_card \<Rightarrow> (unit \<times> 'a e1000_card) outcome option"
    fix E s r
    assume IH: "\<And>E s r. loop E s = Some r \<Longrightarrow> keeps_size E \<longrightarrow> shaped k s \<longrightarrow>
        (case r of Inl e \<Rightarrow> e \<notin> never | Inr (x, s') \<Rightarrow> shaped k s')"
      and step: "(case read_status E s of None \<Rightarrow> None | Some (Inl e) \<Rightarrow> Some (Inl e)
       | Some (Inr (status, s1)) \<Rightarrow> if status AND 1 = 0 then Some (Inr ((), s1))
         else (case receive_one E status s1 of None \<Rightarrow> None | Some (Inl e) \<Rightarrow> Some (Inl e) | Some (Inr (_, s2)) \<Rightarrow> loop E s2)) = Some r"
    have "guards never (shaped k) (andthen (read_status E) (\<lambda>st. if st AND 1 = 0 then return () else andthen (receive_one E st) (\<lambda>_. loop E)))
        (\<lambda>_. shaped k)" if "keeps_size E"
      using IH that by (intro guards_keep guards_if guards_return read_status_shaped receive_one_shaped)
        (use assms(2) in \<open>auto simp: guards_def\<close>)
    moreover have "andthen (read_status E) (\<lambda>st. if st AND 1 = 0 then return () else andthen (receive_one E st) (\<lambda>_. loop E)) s = Some r"
      using step by (auto simp: andthen_def return_def split: option.splits sum.splits prod.splits if_splits)
    ultimately show "keeps_size E \<longrightarrow> shaped k s \<longrightarrow> (case r of Inl e \<Rightarrow> e \<notin> never | Inr (x, s') \<Rightarrow> shaped k s')"
      by (auto dest: guardsD)
  qed
  then show ?thesis using assms(1) unfolding guards_def by blast
qed

lemma handle_events_shaped:
  assumes "keeps_size E"
  shows "guards never (shaped 4) (handle_events E es) (\<lambda>_. shaped 4)"
proof (induction es)
  case Nil
  show ?case by (simp add: guards_return)
next
  case (Cons e es)
  have irq: "guards never (shaped 4) (interrupt_handler E) (\<lambda>_. shaped 4)"
    unfolding interrupt_handler_def by (intro shaped_rules receive_loop_shaped assms) simp_all
  have ip: "guards never (shaped 4) (modify (\<lambda>s. s\<lparr>card_ip := [a, b, c, d]\<rparr>)) (\<lambda>_. shaped 4)" for a b c d
    by (rule guards_set) (simp add: shaped_def)
  have "guards never (shaped 4) (service_one E w) (\<lambda>_. shaped 4)" for w
    unfolding service_one_def by (intro guards_if guards_keep ip send_shaped guards_gets guards_return assms) simp_all
  then show ?case using irq Cons by (cases e) (auto intro!: guards_keep guards_return)
qed

lemma setup_shaped:
  assumes "keeps_size E"
  shows "guards never (shaped 3) (receive_pkt_setup E junk msg bound attached magic) (\<lambda>_. shaped 4)"
proof -
  have reg: "guards never (shaped 3) (andthen (modify (register_channel [])) (\<lambda>_. activate E)) (\<lambda>_. shaped 4)"
    by (rule guards_step [OF activate_shaped [OF assms]]) (simp add: shaped_def register_channel_def)
  show ?thesis unfolding receive_pkt_setup_def
    by (intro guards_keep guards_gets guards_if guards_require guards_return config_msi_shaped reg assms) simp_all
qed

text \<open>
  C14. The driver's memory accesses are in bounds. From an object whose arrays have their sizes, discovery,
  initialisation, and then any sequence of interrupts and requests never access a descriptor outside the rings, read
  packet bytes outside the receive buffers, access a register outside the 128 KB of the card, use a channel that is not
  there, or divide by zero; only an assertion or a panic stops the driver. Whenever it returns, the positions are inside
  the rings and the arrays still have their sizes. It holds for every card that leaves the number of descriptors alone and
  never reports more bytes than the 2048 of a buffer; the driver itself does not check what the card reports.
\<close>

theorem e1000_well_formed:
  assumes "keeps_size E" "length (card_ip s) = 4" "length (tx_ring (machine s)) = NUM_TX_DESCRIPTORS"
  shows "case main_e1000 E junk msg bound attached magic es s of
      None \<Rightarrow> True
    | Some (Inl e) \<Rightarrow> e \<in> {Panic, Assertion}
    | Some (Inr (replies, s')) \<Rightarrow> shaped 4 s'"
proof -
  have G: "guards never (shaped 0) (main_e1000 E junk msg bound attached magic es) (\<lambda>_. shaped 4)"
    unfolding main_e1000_def
  proof (rule guards_andthen [OF init_card_shaped [OF assms(1)]])
    fix ok
    have "guards never (\<lambda>s. ok \<longrightarrow> shaped 3 s) (require ok Panic) (\<lambda>_. shaped 3)"
      by (simp add: guards_def require_def return_def stop_with_def)
    then show "guards never (\<lambda>s. ok \<longrightarrow> shaped 3 s) (andthen (require ok Panic) (\<lambda>_.
        andthen (receive_pkt_setup E junk msg bound attached magic) (\<lambda>_. handle_events E es))) (\<lambda>_. shaped 4)"
      by (rule guards_andthen) (rule guards_andthen [OF setup_shaped handle_events_shaped], rule assms, rule assms)
  qed
  have s: "shaped 0 s" using assms by (simp add: shaped_def)
  have run: "case r of Inl e \<Rightarrow> e \<notin> never | Inr (x, s') \<Rightarrow> shaped 4 s'"
    if "main_e1000 E junk msg bound attached magic es s = Some r" for r
    by (rule guardsD [OF G s that])
  have faults: "e \<notin> never \<Longrightarrow> e \<in> {Panic, Assertion}" for e by (cases e) auto
  show ?thesis
  proof (cases "main_e1000 E junk msg bound attached magic es s")
    case (Some r)
    then show ?thesis using run [OF Some] faults by (cases r) auto
  qed simp
qed

text \<open>
  The length is only bounded by the card: a longer one in the last descriptor makes the driver read behind the buffers.
\<close>

lemma receive_one_overlong:
  assumes "shaped 4 s" "rx_buf_pos s = 1023" "2048 < unat (rx_length (rx_ring (machine s) ! 1023))" "rx_errors (rx_ring (machine s) ! 1023) = 0"
    "st \<noteq> 0" "sent_to_me s (packet_at s 1023)"
  shows "receive_one E st s = Some (Inl Out_of_range)"
  using assms by (simp add: receive_one_def hand_over_def run_simps in_buffer_def)

text \<open>When the base address register has the 128 KB that the manual documents, the driver maps all of them.\<close>

lemma map_card_size:
  assumes "\<And>i m. pci_read E i 0x10 4 (pci_write E i 0x10 4 (NOT 0) m) = NOT (mask 17) OR kind" "kind AND NOT 0xF = 0"
  shows "guards {} (\<lambda>_. True) (map_card E) (\<lambda>_ s. mmio_size s = 0x20000)"
  using region_size_correct [of 17 kind] assms
  by (auto simp: guards_def map_card_def run_simps pci_write_card_def pci_read_card_def split: prod.splits)

section \<open>The card\<close>

text \<open>
  What the manual of the card promises, as steps of the card: it changes something inside; it takes the descriptor at
  the head of the transmit ring, unless the head has reached the tail, puts the packet on the wire if the descriptor
  ends it (bit 0 of the command) and reports the descriptor as done if it was asked to (bit 3); it stores a frame
  from the wire in the buffer of the descriptor at the head of the receive ring, unless the head has reached the tail.
  Frames have at least 60 bytes, and \<open>clean\<close> cards store only frames without errors.
\<close>

definition stored_desc :: "u8 list \<Rightarrow> u8 \<Rightarrow> u8 \<Rightarrow> u16 \<Rightarrow> u16 \<Rightarrow> RX_DESC \<Rightarrow> RX_DESC" where
  "stored_desc f st e c p d = d\<lparr>rx_length := of_nat (length f), rx_status := st, rx_errors := e, rx_checksum := c, rx_special := p\<rparr>"

inductive nic_step :: "bool \<Rightarrow> 'd machine \<Rightarrow> 'd machine \<Rightarrow> bool" for clean where
  nic_inner: "nic_step clean m (m\<lparr>nic := (nic m)\<lparr>inner := d\<rparr>\<rparr>)"
| nic_transmit: "tdh (nic m) \<noteq> tdt (nic m) \<Longrightarrow> d = tx_ring m ! tdh (nic m) \<Longrightarrow>
    (if bit (tx_cmd d) 3 then bit x 0 else x = tx_sta d) \<Longrightarrow>
    nic_step clean m (m\<lparr>tx_ring := (tx_ring m)[tdh (nic m) := d\<lparr>tx_sta := x\<rparr>],
      nic := (nic m)\<lparr>tdh := (tdh (nic m) + 1) mod 1024,
        sent := sent (nic m) @ (if bit (tx_cmd d) 0 then [(tx_address d, tx_length d)] else [])\<rparr>\<rparr>)"
| nic_receive: "rdh (nic m) \<noteq> rdt (nic m) \<Longrightarrow> d = rx_ring m ! rdh (nic m) \<Longrightarrow> 60 \<le> length f \<Longrightarrow> length f \<le> 2048 \<Longrightarrow>
    bit st 0 \<Longrightarrow> (clean \<longrightarrow> e = 0) \<Longrightarrow>
    nic_step clean m (m\<lparr>rx_ring := (rx_ring m)[rdh (nic m) := stored_desc f st e c p d],
      packet_ram := store_frame (unat (rx_address d)) f (packet_ram m),
      nic := (nic m)\<lparr>rdh := (rdh (nic m) + 1) mod 1024, heard := heard (nic m) @ [f]\<rparr>\<rparr>)"

inductive_cases nic_stepE: "nic_step clean m m'"

text \<open>The card takes such steps on its own and when the cause of an interrupt is read; a write to a tail sets the tail.\<close>

definition documented :: "bool \<Rightarrow> 'd e1000_env \<Rightarrow> bool" where
  "documented clean E \<longleftrightarrow> (\<forall>m. (nic_step clean)\<^sup>*\<^sup>* m (dma E m)) \<and> (\<forall>m. (nic_step clean)\<^sup>*\<^sup>* m (snd (reg_read E E1000_ICR m))) \<and>
     (\<forall>v m. reg_write E (E1000_TDT 0) v m = m\<lparr>nic := (nic m)\<lparr>tdt := unat v\<rparr>\<rparr>) \<and>
     (\<forall>v m. reg_write E (E1000_RDT 0) v m = m\<lparr>nic := (nic m)\<lparr>rdt := unat v\<rparr>\<rparr>)"

text \<open>
  Sooner or later the card takes a descriptor that waits. The wire carries a finite number of frames: \<open>left\<close> are those
  still to come in a state of the card.
\<close>

definition transmits :: "'d e1000_env \<Rightarrow> bool" where
  "transmits E \<longleftrightarrow> (\<forall>m. tdh (nic m) \<noteq> tdt (nic m) \<longrightarrow> (\<exists>n. tdh (nic ((dma E ^^ n) m)) \<noteq> tdh (nic m)))"

definition wire_total :: "('d \<Rightarrow> nat) \<Rightarrow> 'd machine \<Rightarrow> nat" where
  "wire_total left m = left (inner (nic m)) + length (heard (nic m))"

definition finite_wire :: "('d \<Rightarrow> nat) \<Rightarrow> 'd e1000_env \<Rightarrow> bool" where
  "finite_wire left E \<longleftrightarrow> (\<forall>m. wire_total left (dma E m) \<le> wire_total left m \<and>
     wire_total left (snd (reg_read E E1000_ICR m)) \<le> wire_total left m)"

section \<open>Sending packets\<close>

text \<open>The transmit side of the machine with the descriptor at \<open>pos\<close> waiting, and with everything sent.\<close>

definition waiting :: "TX_DESC list \<Rightarrow> nat \<Rightarrow> (u64 \<times> u16) list \<Rightarrow> 'd machine \<Rightarrow> bool" where
  "waiting R pos S m \<longleftrightarrow> tx_ring m = R \<and> tdh (nic m) = pos \<and> tdt (nic m) = (pos + 1) mod 1024 \<and> sent (nic m) = S"

definition finished :: "TX_DESC list \<Rightarrow> nat \<Rightarrow> (u64 \<times> u16) list \<Rightarrow> 'd machine \<Rightarrow> bool" where
  "finished R pos S m \<longleftrightarrow> (\<exists>x. bit x 0 \<and> tx_ring m = R[pos := (R ! pos)\<lparr>tx_sta := x\<rparr>]) \<and>
     tdh (nic m) = (pos + 1) mod 1024 \<and> tdt (nic m) = (pos + 1) mod 1024 \<and> sent (nic m) = S @ [(tx_address (R ! pos), tx_length (R ! pos))]"

lemma finished_step: "nic_step clean m m' \<Longrightarrow> finished R pos S m \<Longrightarrow> finished R pos S m'"
  by (erule nic_stepE) (simp_all add: finished_def)

lemma waiting_step:
  assumes "nic_step clean m m'" "waiting R pos S m" "bit (tx_cmd (R ! pos)) 0" "bit (tx_cmd (R ! pos)) 3"
  shows "waiting R pos S m' \<or> finished R pos S m'"
  using assms by (elim nic_stepE) (auto simp: waiting_def finished_def)

lemma waiting_steps:
  assumes "(nic_step clean)\<^sup>*\<^sup>* m m'" "waiting R pos S m \<or> finished R pos S m" "bit (tx_cmd (R ! pos)) 0" "bit (tx_cmd (R ! pos)) 3"
  shows "waiting R pos S m' \<or> finished R pos S m'"
  using assms(1,2)
proof (induction rule: rtranclp_induct)
  case (step y z)
  then show ?case using waiting_step [OF step.hyps(2) _ assms(3,4), of S] finished_step [OF step.hyps(2), of R pos S] by blast
qed

lemma bit0_mask:
  assumes "bit (x :: u8) 0" "odd k"
  shows "x AND k \<noteq> 0"
proof -
  have "odd (x AND k)" using assms by (simp add: even_and_iff bit_0)
  then show ?thesis by auto
qed

lemma wait_sent_finishes:
  assumes "documented clean E" "tx_sta (R ! pos) AND 15 = 0" "bit (tx_cmd (R ! pos)) 0" "bit (tx_cmd (R ! pos)) 3" "pos < length R"
    "tdh (nic ((dma E ^^ n) (machine s))) \<noteq> pos" "waiting R pos S (machine s)"
  shows "\<exists>m. wait_sent E pos s = Some (Inr ((), s\<lparr>machine := m\<rparr>)) \<and> finished R pos S m"
  using assms(6,7)
proof (induction n arbitrary: s)
  case 0
  then show ?case by (simp add: waiting_def)
next
  case (Suc n)
  let ?m = "dma E (machine s)"
  have "waiting R pos S ?m \<or> finished R pos S ?m"
    using waiting_steps [OF _ _ assms(3,4)] assms(1) Suc.prems(2) unfolding documented_def by blast
  then show ?case
  proof
    assume w: "waiting R pos S ?m"
    then have "wait_sent E pos s = wait_sent E pos (s\<lparr>machine := ?m\<rparr>)"
      by (subst wait_sent.simps) (simp add: waiting_def assms(2))
    moreover have "tdh (nic ((dma E ^^ n) ?m)) \<noteq> pos" using Suc.prems(1) by (simp add: funpow_swap1)
    ultimately show ?thesis using Suc.IH [of "s\<lparr>machine := ?m\<rparr>"] w by simp
  next
    assume f: "finished R pos S ?m"
    then have "tx_sta (tx_ring ?m ! pos) AND 15 \<noteq> 0" using bit0_mask [of _ 15] assms(5) by (auto simp: finished_def)
    then have "wait_sent E pos s = Some (Inr ((), s\<lparr>machine := ?m\<rparr>))" by (subst wait_sent.simps) (simp add: Let_def)
    then show ?thesis using f by blast
  qed
qed

text \<open>The state between two calls: nothing waits, and the status of the next \<open>n\<close> descriptors is clear.\<close>

definition tx_ready :: "nat \<Rightarrow> (u64 \<times> u16) list \<Rightarrow> 'd e1000_card \<Rightarrow> bool" where
  "tx_ready n S s \<longleftrightarrow> length (tx_ring (machine s)) = 1024 \<and> unat (tx_buf_pos s) < 1024 \<and>
     tdh (nic (machine s)) = unat (tx_buf_pos s) \<and> tdt (nic (machine s)) = unat (tx_buf_pos s) \<and> sent (nic (machine s)) = S \<and>
     (\<forall>i<n. tx_sta (tx_ring (machine s) ! ((unat (tx_buf_pos s) + i) mod 1024)) AND 15 = 0)"

lemma unat_ucast_u32: "unat (ucast x :: u32) = unat x" for x :: u16
  using unat_bound [of x] by (simp add: unsigned_ucast_eq take_bit_nat_eq_self)

lemma send_sends:
  assumes "documented clean E" "transmits E" "tx_ready (Suc n) S s" "n < 1024"
  shows "\<exists>s'. send E a l s = Some (Inr ((), s')) \<and> tx_ready n (S @ [(ucast a, ucast l)]) s' \<and> snd_counter s' = snd_counter s + 1"
proof -
  define pos where "pos = unat (tx_buf_pos s)"
  define R where "R = (tx_ring (machine s))[pos := post_desc a l (tx_ring (machine s) ! pos)]"
  define s1 where "s1 = (post_packet a l s)\<lparr>machine := (machine (post_packet a l s))\<lparr>nic := (nic (machine s))\<lparr>tdt := (pos + 1) mod 1024\<rparr>\<rparr>\<rparr>"
  have sta: "tx_sta (tx_ring (machine s) ! ((pos + i) mod 1024)) AND 15 = 0" if "i < Suc n" for i
    using assms(3) that by (auto simp: tx_ready_def pos_def)
  have len: "length (tx_ring (machine s)) = 1024" and pos: "pos < 1024"
    using assms(3) by (auto simp: tx_ready_def pos_def)
  have Rpos: "R ! pos = post_desc a l (tx_ring (machine s) ! pos)" using len pos by (simp add: R_def)
  have next_pos: "unat (tx_buf_pos (post_packet a l s)) = (pos + 1) mod 1024"
    using ring_next [of pos] by (simp add: post_packet_def Let_def pos_def)
  have cmd: "bit (tx_cmd (R ! pos)) 0" "bit (tx_cmd (R ! pos)) 3" "tx_sta (R ! pos) AND 15 = 0"
    using sta [of 0] pos by (simp_all add: Rpos post_desc_def bit_0)
  have w: "waiting R pos S (machine s1)"
    using assms(3) by (simp add: waiting_def s1_def post_packet_def Let_def R_def pos_def tx_ready_def)
  have "pos \<noteq> (pos + 1) mod 1024" using pos by (cases "pos = 1023") auto
  then obtain k where "tdh (nic ((dma E ^^ k) (machine s1))) \<noteq> pos"
    using w assms(2) unfolding transmits_def waiting_def by metis
  then obtain m where m: "wait_sent E pos s1 = Some (Inr ((), s1\<lparr>machine := m\<rparr>))" "finished R pos S m"
    using wait_sent_finishes [OF assms(1) cmd(3,1,2) _ _ w] pos len by (auto simp: R_def)
  define s' where "s' = s1\<lparr>machine := dma E m, snd_counter := snd_counter s1 + 1\<rparr>"
  have f: "finished R pos S (dma E m)"
    using m(2) assms(1) unfolding documented_def
    by (metis (full_types) finished_step rtranclp_induct [where P = "finished R pos S"])
  have "reg_write E (E1000_TDT 0) (ucast (tx_buf_pos (post_packet a l s))) (machine (post_packet a l s)) = machine s1"
    using assms(1) next_pos by (simp add: documented_def s1_def unat_ucast_u32 post_packet_def Let_def)
  then have "finish_send E pos (post_packet a l s) = Some (Inr ((), s'))"
    using m(1) by (simp add: finish_send_def run_simps mmio_write32_def usleep_def s1_def s'_def)
  then have run: "send E a l s = Some (Inr ((), s'))"
    using len pos by (simp add: send_def pos_def)
  have fields: "unat (tx_buf_pos s') = (pos + 1) mod 1024" "snd_counter s' = snd_counter s + 1" "machine s' = dma E m"
    using next_pos by (simp_all add: s'_def s1_def post_packet_def Let_def)
  have "tx_sta (tx_ring (dma E m) ! (((pos + 1) mod 1024 + i) mod 1024)) AND 15 = 0" if "i < n" for i
  proof -
    have slot: "((pos + 1) mod 1024 + i) mod 1024 = (pos + Suc i) mod 1024" by (simp add: mod_add_left_eq)
    moreover have "(pos + Suc i) mod 1024 \<noteq> pos"
      using ring_slots_differ [of "Suc i" 1024 0 pos] that assms(4) pos by auto
    ultimately have "tx_ring (dma E m) ! (((pos + 1) mod 1024 + i) mod 1024) = tx_ring (machine s) ! ((pos + Suc i) mod 1024)"
      using f by (auto simp: finished_def R_def)
    then show ?thesis using sta [of "Suc i"] that by simp
  qed
  moreover have "length (tx_ring (dma E m)) = 1024" using f len by (auto simp: finished_def R_def)
  ultimately have "tx_ready n (S @ [(ucast a, ucast l)]) s'"
    using f by (simp add: tx_ready_def fields finished_def Rpos post_desc_def)
  then show ?thesis using run fields by blast
qed

lemma requests_sent:
  assumes "documented clean E" "transmits E"
  shows "tx_ready (length ws) S s \<Longrightarrow> length ws \<le> 1024 \<Longrightarrow> list_all (\<lambda>w. w 0 \<noteq> 0xFFFFFFFF) ws \<Longrightarrow>
    \<exists>s'. handle_events E (map Request ws) s = Some (Inr (replicate (length ws) [], s')) \<and>
      tx_ready 0 (S @ map (\<lambda>w. (ucast (w 0), ucast (w 1))) ws) s' \<and> snd_counter s' = snd_counter s + of_nat (length ws)"
proof (induction ws arbitrary: S s)
  case Nil
  then show ?case by (simp add: return_def)
next
  case (Cons w ws)
  obtain s1 where s1: "send E (w 0) (w 1) s = Some (Inr ((), s1))" "tx_ready (length ws) (S @ [(ucast (w 0), ucast (w 1))]) s1"
    "snd_counter s1 = snd_counter s + 1"
    using send_sends [OF assms, of "length ws" S s] Cons.prems by auto
  from Cons.IH [OF s1(2)] Cons.prems obtain s2 where "handle_events E (map Request ws) s1 = Some (Inr (replicate (length ws) [], s2))"
    "tx_ready 0 (S @ map (\<lambda>w. (ucast (w 0), ucast (w 1))) (w # ws)) s2" "snd_counter s2 = snd_counter s1 + of_nat (length ws)"
    by auto
  then show ?case using s1 Cons.prems(3) by (simp add: service_one_def run_simps)
qed

section \<open>Receiving packets\<close>

text \<open>The buffer of slot \<open>i\<close> holds a frame that the driver has not seen.\<close>

definition holds :: "bool \<Rightarrow> u32 \<Rightarrow> 'd machine \<Rightarrow> nat \<Rightarrow> u8 list \<Rightarrow> bool" where
  "holds clean base m i f \<longleftrightarrow> bit (rx_status (rx_ring m ! i)) 0 \<and> unat (rx_length (rx_ring m ! i)) = length f \<and>
     60 \<le> length f \<and> length f \<le> 2048 \<and> (clean \<longrightarrow> rx_errors (rx_ring m ! i) = 0) \<and>
     (\<forall>k<length f. packet_ram m (unat base + i * 2048 + k) = f ! k)"

text \<open>
  The receive side: the frames \<open>fs\<close> wait in the slots from \<open>pos\<close> on, all others are free, and the tail is the slot
  before \<open>pos\<close>, so that the card never fills all of them.
\<close>

definition rx_state :: "bool \<Rightarrow> u32 \<Rightarrow> nat \<Rightarrow> u8 list list \<Rightarrow> 'd machine \<Rightarrow> bool" where
  "rx_state clean base pos fs m \<longleftrightarrow> length (rx_ring m) = 1024 \<and> pos < 1024 \<and> length fs < 1024 \<and>
     unat base + 1024 * 2048 \<le> 2 ^ 32 \<and>
     rdh (nic m) = (pos + length fs) mod 1024 \<and> rdt (nic m) = (pos + 1023) mod 1024 \<and>
     (\<forall>i<1024. rx_address (rx_ring m ! i) = ucast (pkt_addr base i)) \<and>
     (\<forall>i<length fs. holds clean base m ((pos + i) mod 1024) (fs ! i)) \<and>
     (\<forall>i<1024. length fs \<le> i \<longrightarrow> rx_status (rx_ring m ! ((pos + i) mod 1024)) AND 1 = 0)"

lemma pkt_addr_val:
  assumes "unat base + 1024 * 2048 \<le> 2 ^ 32" "i < 1024"
  shows "unat (ucast (pkt_addr base i) :: u64) = unat base + i * 2048"
proof -
  have val: "unat (of_nat n :: u32) = n" if "n < 2 ^ 32" for n
    using that by (simp add: unat_of_nat take_bit_nat_eq_self)
  have off: "unat (of_nat (i * 2048) :: u32) = i * 2048" using assms(2) by (intro val) simp
  have "unat base + i * 2048 < 2 ^ 32" using assms by auto
  then have "unat (base + of_nat (i * 2048)) = unat base + i * 2048" using unat_add_small [of base "of_nat (i * 2048)"] unfolding off by simp
  then show ?thesis by (simp add: pkt_addr_def unat_ucast_u64)
qed

lemma holds_other:
  assumes "holds clean base m i f" "i \<noteq> j" "length g \<le> 2048" "m' = m\<lparr>rx_ring := (rx_ring m)[j := d],
    packet_ram := store_frame (unat base + j * 2048) g (packet_ram m), nic := c\<rparr>"
  shows "holds clean base m' i f"
proof -
  have "store_frame (unat base + j * 2048) g (packet_ram m) (unat base + i * 2048 + k) = packet_ram m (unat base + i * 2048 + k)"
    if "k < length f" for k
  proof -
    have "k < 2048" using that assms(1) by (simp add: holds_def)
    moreover have "i < j \<or> j < i" using assms(2) by auto
    ultimately show ?thesis using assms(3) by (auto simp: store_frame_def)
  qed
  then show ?thesis using assms(1,2) by (simp add: holds_def assms(4))
qed

lemma rx_receive_step:
  assumes rx: "rx_state clean base pos fs m" and more: "rdh (nic m) \<noteq> rdt (nic m)"
    and f: "60 \<le> length f" "length f \<le> 2048" "bit st 0" "clean \<longrightarrow> e = 0"
  shows "rx_state clean base pos (fs @ [f]) (m\<lparr>rx_ring := (rx_ring m)[rdh (nic m) := stored_desc f st e c p (rx_ring m ! rdh (nic m))],
      packet_ram := store_frame (unat (rx_address (rx_ring m ! rdh (nic m)))) f (packet_ram m),
      nic := (nic m)\<lparr>rdh := (rdh (nic m) + 1) mod 1024, heard := heard (nic m) @ [f]\<rparr>\<rparr>)" (is "rx_state _ _ _ _ ?m")
proof -
  define j where "j = (pos + length fs) mod 1024"
  have j: "rdh (nic m) = j" "j < 1024" using rx by (simp_all add: rx_state_def j_def)
  have room: "length fs < 1023" using rx more by (cases "length fs = 1023") (auto simp: rx_state_def)
  have addr: "unat (rx_address (rx_ring m ! j)) = unat base + j * 2048"
    using rx j pkt_addr_val [of base j] by (simp add: rx_state_def)
  have len: "length (rx_ring m) = 1024" using rx by (simp add: rx_state_def)
  have other: "(pos + i) mod 1024 \<noteq> j" if "i < 1024" "i \<noteq> length fs" for i
    using ring_slots_differ [of i 1024 "length fs" pos] that room by (auto simp: j_def)
  have "holds clean base ?m ((pos + i) mod 1024) (fs ! i)" if "i < length fs" for i
  proof -
    have h: "holds clean base m ((pos + i) mod 1024) (fs ! i)" using rx that by (simp add: rx_state_def)
    have ne: "(pos + i) mod 1024 \<noteq> j" using other [of i] that room by simp
    show ?thesis by (rule holds_other [OF h ne f(2)]) (simp only: j addr)
  qed
  moreover have "holds clean base ?m j f"
  proof -
    have "length f < 2 ^ 16" using f(2) by simp
    then have "unat (of_nat (length f) :: u16) = length f" by (simp add: unat_of_nat take_bit_nat_eq_self)
    then show ?thesis using f len j by (simp add: holds_def stored_desc_def store_frame_def addr)
  qed
  ultimately have hold: "holds clean base ?m ((pos + i) mod 1024) ((fs @ [f]) ! i)" if "i < length (fs @ [f])" for i
    using that by (auto simp: nth_append j_def less_Suc_eq)
  have "rx_address (rx_ring ?m ! i) = ucast (pkt_addr base i)" if "i < 1024" for i
    using rx that len j by (cases "i = j") (auto simp: rx_state_def stored_desc_def)
  moreover have "rx_status (rx_ring ?m ! ((pos + i) mod 1024)) AND 1 = 0" if "i < 1024" "length (fs @ [f]) \<le> i" for i
    using rx that other [of i] j by (auto simp: rx_state_def)
  moreover have "(j + 1) mod 1024 = (pos + length (fs @ [f])) mod 1024" by (simp add: j_def mod_Suc_eq)
  ultimately show ?thesis using rx hold room j unfolding rx_state_def by simp
qed

lemma rx_step:
  assumes "nic_step clean m m'" "rx_state clean base pos fs m"
  shows "\<exists>gs. rx_state clean base pos (fs @ gs) m' \<and> heard (nic m') = heard (nic m) @ gs"
  using assms(1)
proof (cases rule: nic_step.cases)
  case (nic_inner d)
  then show ?thesis using assms(2) by (intro exI [of _ "[]"]) (simp add: rx_state_def holds_def)
next
  case (nic_transmit d x)
  then show ?thesis using assms(2) by (intro exI [of _ "[]"]) (simp add: rx_state_def holds_def)
next
  case (nic_receive d f st e c p)
  have "rx_state clean base pos (fs @ [f]) m'" unfolding nic_receive(1,3)
    by (rule rx_receive_step [OF assms(2)]) (fact nic_receive)+
  moreover have "heard (nic m') = heard (nic m) @ [f]" by (simp add: nic_receive(1))
  ultimately show ?thesis by blast
qed

lemma rx_steps:
  assumes "(nic_step clean)\<^sup>*\<^sup>* m m'" "rx_state clean base pos fs m"
  shows "\<exists>gs. rx_state clean base pos (fs @ gs) m' \<and> heard (nic m') = heard (nic m) @ gs"
  using assms(1)
proof (induction rule: rtranclp_induct)
  case base
  show ?case using assms(2) by (intro exI [of _ "[]"]) simp
next
  case (step y z)
  then obtain gs where "rx_state clean base pos (fs @ gs) y" "heard (nic y) = heard (nic m) @ gs" by blast
  moreover from rx_step [OF step.hyps(2) this(1)] obtain hs where
    "rx_state clean base pos ((fs @ gs) @ hs) z" "heard (nic z) = heard (nic y) @ hs" by blast
  ultimately show ?case by (intro exI [of _ "gs @ hs"]) simp
qed

text \<open>The frames that are passed on: broadcast ARP requests for the address of the host, and what is sent to the card.\<close>

definition accepts :: "'d e1000_card \<Rightarrow> u8 list \<Rightarrow> bool" where
  "accepts s f \<longleftrightarrow> is_arp s (\<lambda>i. f ! i) \<or> sent_to_me s (\<lambda>i. f ! i)"

definition same_host :: "'d e1000_card \<Rightarrow> 'd e1000_card \<Rightarrow> bool" where
  "same_host s s' \<longleftrightarrow> mac s' = mac s \<and> card_ip s' = card_ip s \<and> is_x8254 s' = is_x8254 s \<and> rx_pkt_buf s' = rx_pkt_buf s"

lemma filters_cong:
  assumes "\<And>i. i < 60 \<Longrightarrow> p i = q i"
  shows "is_arp s p = is_arp s q" "sent_to_me s p = sent_to_me s q"
proof -
  have "list_all (\<lambda>i. P i (p i)) xs = list_all (\<lambda>i. P i (q i)) xs" if "\<forall>i\<in>set xs. i < 60" for P :: "nat \<Rightarrow> u8 \<Rightarrow> bool" and xs
    using that assms by (auto simp: list_all_iff)
  from this [of "[0..<6]" "\<lambda>_ b. b = 0xFF"] this [of "[38..<42]" "\<lambda>i b. ucast b = card_ip s ! (i - 38)"]
    this [of "[0..<6]" "\<lambda>i b. mac s ! i = b"]
  show "is_arp s p = is_arp s q" "sent_to_me s p = sent_to_me s q"
    by (simp_all only: is_arp_def sent_to_me_def set_upt ball_simps atLeastLessThan_iff assms) (auto simp: assms)
qed

lemma rx_consume:
  assumes rx: "rx_state clean base pos (f # fs) m"
  shows "rx_state clean base ((pos + 1) mod 1024) fs
    (m\<lparr>rx_ring := (rx_ring m)[pos := fresh_rx_desc base pos], nic := (nic m)\<lparr>rdt := pos\<rparr>\<rparr>)" (is "rx_state _ _ ?pos _ ?m")
proof -
  have len: "length (rx_ring m) = 1024" "pos < 1024" "Suc (length fs) < 1024" using rx by (simp_all add: rx_state_def)
  have slot: "(?pos + i) mod 1024 = (pos + Suc i) mod 1024" for i by (simp add: mod_add_left_eq)
  have other: "(pos + Suc i) mod 1024 \<noteq> pos" if "i < 1023" for i
    using ring_slots_differ [of "Suc i" 1024 0 pos] that len by auto
  have "holds clean base ?m ((?pos + i) mod 1024) (fs ! i)" if "i < length fs" for i
  proof -
    have "holds clean base m ((pos + Suc i) mod 1024) ((f # fs) ! Suc i)" using rx that unfolding rx_state_def by force
    then show ?thesis using other [of i] that len unfolding slot by (simp add: holds_def)
  qed
  moreover have "rx_address (rx_ring ?m ! i) = ucast (pkt_addr base i)" if "i < 1024" for i
    using rx that len by (cases "i = pos") (auto simp: rx_state_def fresh_rx_desc_def)
  moreover have "rx_status (rx_ring ?m ! ((?pos + i) mod 1024)) AND 1 = 0" if "i < 1024" "length fs \<le> i" for i
  proof (cases "i = 1023")
    case True
    then have "(?pos + i) mod 1024 = pos" unfolding slot using len by simp
    then show ?thesis using len by (simp add: fresh_rx_desc_def)
  next
    case False
    then have i: "Suc i < 1024" using that by simp
    have "rx_status (rx_ring m ! ((pos + Suc i) mod 1024)) AND 1 = 0"
      using rx i that(2) unfolding rx_state_def by (elim conjE allE [of _ "Suc i"]) simp
    then show ?thesis using other [of i] i unfolding slot by simp
  qed
  moreover have "(?pos + length fs) mod 1024 = (pos + length (f # fs)) mod 1024" "(?pos + 1023) mod 1024 = pos"
    unfolding slot using len by simp_all
  ultimately show ?thesis using rx len unfolding rx_state_def by (simp del: mod_add_left_eq)
qed

text \<open>The frames that wait for the driver.\<close>

definition rx_pending :: "bool \<Rightarrow> u8 list list \<Rightarrow> 'd e1000_card \<Rightarrow> bool" where
  "rx_pending clean fs s \<longleftrightarrow> rx_state clean (snd (rx_pkt_buf s)) (unat (rx_buf_pos s)) fs (machine s) \<and> (is_x8254 s \<longrightarrow> clean)"

lemma same_host_accepts: "same_host s s' \<Longrightarrow> accepts s' = accepts s"
  by (rule ext) (simp add: accepts_def is_arp_def sent_to_me_def same_host_def)

lemma same_host_trans: "same_host s s' \<Longrightarrow> same_host s' s'' \<Longrightarrow> same_host s s''"
  by (simp add: same_host_def)

lemma receive_one_consumes:
  assumes "documented clean E" "rx_pending clean (f # fs) s" "channel s = Some ch"
    "st = rx_status (rx_ring (machine s) ! unat (rx_buf_pos s))"
  shows "\<exists>s'. receive_one E st s = Some (Inr ((), s')) \<and> same_host s s' \<and> rx_pending clean fs s' \<and> st AND 1 \<noteq> 0 \<and>
    channel s' = Some (ch @ (if accepts s f then [f] else [])) \<and>
    heard (nic (machine s')) = heard (nic (machine s)) \<and> inner (nic (machine s')) = inner (nic (machine s))"
proof -
  define pos where "pos = unat (rx_buf_pos s)"
  define m' where "m' = (machine s)\<lparr>rx_ring := (rx_ring (machine s))[pos := fresh_rx_desc (snd (rx_pkt_buf s)) pos],
    nic := (nic (machine s))\<lparr>rdt := pos\<rparr>\<rparr>"
  define s' where "s' = s\<lparr>channel := Some (ch @ (if accepts s f then [f] else [])), machine := m', rx_buf_pos := of_nat ((pos + 1) mod 1024)\<rparr>"
  have rx: "rx_state clean (snd (rx_pkt_buf s)) pos (f # fs) (machine s)" and x: "is_x8254 s \<longrightarrow> clean"
    using assms(2) by (simp_all add: pos_def rx_pending_def)
  from rx have pos: "pos < 1024" "length (rx_ring (machine s)) = 1024"
    and h: "holds clean (snd (rx_pkt_buf s)) (machine s) pos f"
    unfolding rx_state_def by (simp, simp, metis add.right_neutral length_greater_0_conv list.distinct(1) mod_less nth_Cons_0)
  have pkt: "packet_at s pos i = f ! i" if "i < length f" for i
    using h that by (simp add: holds_def packet_at_def)
  have filt: "is_arp s (packet_at s pos) = is_arp s (\<lambda>i. f ! i)" "sent_to_me s (packet_at s pos) = sent_to_me s (\<lambda>i. f ! i)"
    using filters_cong [of "packet_at s pos" "\<lambda>i. f ! i"] pkt h by (simp_all add: holds_def)
  have bytes: "map (packet_at s pos) [0..<unat (rx_length (rx_ring (machine s) ! pos))] = f"
    using h pkt by (intro nth_equalityI) (simp_all add: holds_def)
  have st: "bit st 0" using h assms(4) by (simp add: holds_def pos_def [symmetric])
  then have "st \<noteq> 0" by auto
  moreover have "\<not> (is_x8254 s \<and> rx_errors (rx_ring (machine s) ! pos) \<noteq> 0)" using h x by (auto simp: holds_def)
  moreover have "unat (of_nat (pos mod 1024) :: u32) = pos" using pos by (simp add: unat_of_nat take_bit_nat_eq_self)
  then have "reg_write E (E1000_RDT 0) (of_nat (pos mod 1024)) m = m\<lparr>nic := (nic m)\<lparr>rdt := pos\<rparr>\<rparr>" for m
    using assms(1) by (simp add: documented_def)
  moreover have "in_buffer pos 42" "in_buffer pos (unat (rx_length (rx_ring (machine s) ! pos)))"
    using pos(1) h by (simp_all add: in_buffer_def holds_def)
  ultimately have run: "receive_one E st s = Some (Inr ((), s'))"
    using pos assms(3) filt bytes
    by (simp add: receive_one_def run_simps pos_def [symmetric] hand_over_def produce_def reset_rx_desc_def mmio_write32_def s'_def m'_def accepts_def)
  moreover have "rx_pending clean fs s'"
    using rx_consume [OF rx] ring_next [of pos] x by (simp add: s'_def m'_def rx_pending_def)
  moreover have "st AND 1 \<noteq> 0" by (rule bit0_mask [OF st]) simp
  ultimately show ?thesis by (intro exI [of _ s']) (simp add: s'_def m'_def same_host_def)
qed

lemma rx_pending_steps:
  assumes "(nic_step clean)\<^sup>*\<^sup>* (machine s) m" "rx_pending clean fs s"
  shows "\<exists>gs. rx_pending clean (fs @ gs) (s\<lparr>machine := m\<rparr>) \<and> heard (nic m) = heard (nic (machine s)) @ gs"
proof -
  have rx: "rx_state clean (snd (rx_pkt_buf s)) (unat (rx_buf_pos s)) fs (machine s)" and "is_x8254 s \<longrightarrow> clean"
    using assms(2) by (simp_all add: rx_pending_def)
  then show ?thesis using rx_steps [OF assms(1) rx] by (simp add: rx_pending_def)
qed

lemma read_status_sees:
  assumes E: "documented clean E" "finite_wire left E" and rx: "rx_pending clean fs s"
  shows "\<exists>s1 gs. read_status E s = Some (Inr (rx_status (rx_ring (machine s1) ! unat (rx_buf_pos s1)), s1)) \<and> same_host s s1 \<and>
    rx_pending clean (fs @ gs) s1 \<and> channel s1 = channel s \<and> heard (nic (machine s1)) = heard (nic (machine s)) @ gs \<and>
    left (inner (nic (machine s1))) + length (fs @ gs) \<le> left (inner (nic (machine s))) + length fs"
proof -
  define s1 where "s1 = s\<lparr>machine := dma E (machine s)\<rparr>"
  have "(nic_step clean)\<^sup>*\<^sup>* (machine s) (machine s1)" using E(1) by (simp add: documented_def s1_def)
  from rx_pending_steps [OF this rx] obtain gs where
    gs: "rx_pending clean (fs @ gs) s1" "heard (nic (machine s1)) = heard (nic (machine s)) @ gs"
    by (auto simp: s1_def)
  have "wire_total left (machine s1) \<le> wire_total left (machine s)" using E(2) by (simp add: finite_wire_def s1_def)
  then have "left (inner (nic (machine s1))) + length (fs @ gs) \<le> left (inner (nic (machine s))) + length fs"
    using gs(2) by (simp add: wire_total_def)
  moreover have "read_status E s = Some (Inr (rx_status (rx_ring (machine s1) ! unat (rx_buf_pos s1)), s1))"
    using gs(1) by (simp add: read_status_def run_simps usleep_def s1_def rx_pending_def rx_state_def)
  ultimately show ?thesis using gs by (intro exI [of _ s1] exI [of _ gs]) (simp add: s1_def same_host_def)
qed

lemma receive_loop_delivers:
  assumes E: "documented clean E" "finite_wire left E"
  shows "left (inner (nic (machine s))) + length fs \<le> k \<Longrightarrow> rx_pending clean fs s \<Longrightarrow> channel s = Some ch \<Longrightarrow>
    \<exists>s' gs. receive_loop E s = Some (Inr ((), s')) \<and> same_host s s' \<and> rx_pending clean [] s' \<and>
      heard (nic (machine s')) = heard (nic (machine s)) @ gs \<and> channel s' = Some (ch @ filter (accepts s) (fs @ gs))"
proof (induction k arbitrary: s fs ch rule: less_induct)
  case (less k)
  obtain s1 gs where s1: "read_status E s = Some (Inr (rx_status (rx_ring (machine s1) ! unat (rx_buf_pos s1)), s1))"
    "same_host s s1" "rx_pending clean (fs @ gs) s1" "channel s1 = channel s" "heard (nic (machine s1)) = heard (nic (machine s)) @ gs"
    "left (inner (nic (machine s1))) + length (fs @ gs) \<le> left (inner (nic (machine s))) + length fs"
    using read_status_sees [OF E less.prems(2)] by blast
  show ?case
  proof (cases "fs @ gs")
    case Nil
    then have "rx_status (rx_ring (machine s1) ! unat (rx_buf_pos s1)) AND 1 = 0"
      using s1(3) unfolding rx_pending_def rx_state_def by (elim conjE allE [of _ 0]) simp
    then have "receive_loop E s = Some (Inr ((), s1))" using s1(1) by (subst receive_loop.simps) simp
    then show ?thesis using s1 less.prems(3) Nil by (intro exI [of _ s1] exI [of _ "[]"]) simp
  next
    case (Cons f hs)
    obtain s2 where s2: "receive_one E (rx_status (rx_ring (machine s1) ! unat (rx_buf_pos s1))) s1 = Some (Inr ((), s2))"
      "same_host s1 s2" "rx_pending clean hs s2" "rx_status (rx_ring (machine s1) ! unat (rx_buf_pos s1)) AND 1 \<noteq> 0"
      "channel s2 = Some (ch @ (if accepts s f then [f] else []))"
      "heard (nic (machine s2)) = heard (nic (machine s1))" "inner (nic (machine s2)) = inner (nic (machine s1))"
      using receive_one_consumes [OF E(1) s1(3) [unfolded Cons] _ refl] s1(4) less.prems(3) same_host_accepts [OF s1(2)] by auto
    have host: "same_host s s2" using s1(2) s2(2) by (rule same_host_trans)
    have "left (inner (nic (machine s2))) + length hs < k" using s1(6) s2(7) less.prems(1) unfolding Cons by simp
    from less.IH [OF this le_refl s2(3,5)] obtain s3 hs' where s3: "receive_loop E s2 = Some (Inr ((), s3))" "same_host s2 s3"
      "rx_pending clean [] s3" "heard (nic (machine s3)) = heard (nic (machine s2)) @ hs'"
      "channel s3 = Some ((ch @ (if accepts s f then [f] else [])) @ filter (accepts s) (hs @ hs'))"
      unfolding same_host_accepts [OF host] by blast
    have "receive_loop E s = receive_loop E s2" using s1(1) s2(1,4) by (subst receive_loop.simps) simp
    moreover have "fs @ gs @ hs' = f # hs @ hs'" using arg_cong [OF Cons, of "\<lambda>xs. xs @ hs'"] by simp
    then have "filter (accepts s) (fs @ gs @ hs') = (if accepts s f then [f] else []) @ filter (accepts s) (hs @ hs')"
      unfolding \<open>fs @ gs @ hs' = f # hs @ hs'\<close> by simp
    ultimately show ?thesis using s3 s2(6) s1(5) same_host_trans [OF host s3(2)]
      by (intro exI [of _ s3] exI [of _ "gs @ hs'"]) simp
  qed
qed

section \<open>An example card\<close>

text \<open>A card that at every step stores the next frame of a list and sends one packet.\<close>

definition hear :: "u8 list list machine \<Rightarrow> u8 list list machine" where
  "hear m = (case inner (nic m) of [] \<Rightarrow> m | f # fs \<Rightarrow>
     if rdh (nic m) \<noteq> rdt (nic m) \<and> 60 \<le> length f \<and> length f \<le> 2048
     then let d = rx_ring m ! rdh (nic m);
              m1 = m\<lparr>rx_ring := (rx_ring m)[rdh (nic m) := stored_desc f 1 0 0 0 d],
                packet_ram := store_frame (unat (rx_address d)) f (packet_ram m),
                nic := (nic m)\<lparr>rdh := (rdh (nic m) + 1) mod 1024, heard := heard (nic m) @ [f]\<rparr>\<rparr>
          in m1\<lparr>nic := (nic m1)\<lparr>inner := fs\<rparr>\<rparr>
     else m)"

definition talk :: "'d machine \<Rightarrow> 'd machine" where
  "talk m = (if tdh (nic m) = tdt (nic m) then m
     else let d = tx_ring m ! tdh (nic m) in
       m\<lparr>tx_ring := (tx_ring m)[tdh (nic m) := d\<lparr>tx_sta := if bit (tx_cmd d) 3 then 1 else tx_sta d\<rparr>],
         nic := (nic m)\<lparr>tdh := (tdh (nic m) + 1) mod 1024,
           sent := sent (nic m) @ (if bit (tx_cmd d) 0 then [(tx_address d, tx_length d)] else [])\<rparr>\<rparr>)"

definition set_tails :: "u32 \<Rightarrow> u32 \<Rightarrow> 'd machine \<Rightarrow> 'd machine" where
  "set_tails r v m = (if r = E1000_TDT 0 then m\<lparr>nic := (nic m)\<lparr>tdt := unat v\<rparr>\<rparr>
     else if r = E1000_RDT 0 then m\<lparr>nic := (nic m)\<lparr>rdt := unat v\<rparr>\<rparr> else m)"

definition wire_env :: "u8 list list e1000_env" where
  "wire_env = \<lparr>reg_read = (\<lambda>r m. (0x90, m)), reg_write = set_tails, dma = (\<lambda>m. talk (hear m)), pci_query = (0, [3]),
     pci_config = (\<lambda>_. (0, \<lparr>pci_vendor = 0x8086, pci_device = 0x105e, pci_bar = [0xfe000000], pci_irq_pin = 1\<rparr>)),
     pci_read = (\<lambda>_ off _ _. if off = 0x34 then 0x50 else if off = 0x50 then 5 else if off = 0x52 then 0x80 else 0), pci_write = (\<lambda>_ _ _ _ m. m), map_iomem = (\<lambda>_ _. (0, 0x1000)),
     tx_pages = (0x4000, 0x4000), rx_pages = (0x8000, 0x8000), pkt_pages = (0x100000, 0x100000)\<rparr>"

definition example_card :: "u8 \<Rightarrow> u8 list list \<Rightarrow> u8 list list e1000_card" where
  "example_card sta fs = \<lparr>is_x8254 = True, is_x8257 = False, pciID = 3, card_vendor = 0x8086, card_device = 0x100e,
     bar_mmio = 0, bar_port = 0, full_duplex = True, speed = 1000, mmio = (0, 0), mmio_size = 0x20000,
     mac = [0, 7, 0xe9, 0x11, 0x3d, 0x3d], card_ip = [0, 0, 0, 0], use_msi = True, ready = True, is_up = True,
     tx_buf = 0, tx_buf_pos = 0, rx_buf = (0, 0), rx_pkt_buf = (0x100000, 0x100000), rx_buf_pos = 0, irq_num = 10, irq_pin = 1,
     snd_counter = 0, rcv_counter = 0, channel = Some [],
     machine = \<lparr>tx_ring = replicate 1024 \<lparr>tx_address = 0, tx_length = 0, tx_cso = 0, tx_cmd = 0, tx_sta = sta, tx_css = 0, tx_special = 0\<rparr>,
       rx_ring = map (fresh_rx_desc 0x100000) [0..<1024], packet_ram = (\<lambda>_. 0),
       nic = \<lparr>tdh = 0, tdt = 0, rdh = 0, rdt = 1023, sent = [], heard = [], inner = fs\<rparr>\<rparr>\<rparr>"

lemma hear_steps: "(nic_step clean)\<^sup>*\<^sup>* m (hear m)"
proof (cases "inner (nic m)")
  case Nil
  then show ?thesis by (simp add: hear_def)
next
  case (Cons f fs)
  let ?r = "m\<lparr>rx_ring := (rx_ring m)[rdh (nic m) := stored_desc f 1 0 0 0 (rx_ring m ! rdh (nic m))],
    packet_ram := store_frame (unat (rx_address (rx_ring m ! rdh (nic m)))) f (packet_ram m),
    nic := (nic m)\<lparr>rdh := (rdh (nic m) + 1) mod 1024, heard := heard (nic m) @ [f]\<rparr>\<rparr>"
  show ?thesis
  proof (cases "rdh (nic m) \<noteq> rdt (nic m) \<and> 60 \<le> length f \<and> length f \<le> 2048")
    case True
    then have "nic_step clean m ?r" by (intro nic_receive [OF _ refl]) (simp_all add: bit_0)
    moreover have "nic_step clean ?r (?r\<lparr>nic := (nic ?r)\<lparr>inner := fs\<rparr>\<rparr>)" by (rule nic_inner)
    moreover have "hear m = ?r\<lparr>nic := (nic ?r)\<lparr>inner := fs\<rparr>\<rparr>" using True Cons by (simp add: hear_def Let_def)
    ultimately show ?thesis by (simp add: converse_rtranclp_into_rtranclp)
  next
    case False
    then show ?thesis using Cons by (auto simp: hear_def)
  qed
qed

lemma talk_steps: "(nic_step clean)\<^sup>*\<^sup>* m (talk m)"
proof (cases "tdh (nic m) = tdt (nic m)")
  case True
  then show ?thesis by (simp add: talk_def)
next
  case False
  then have "nic_step clean m (talk m)"
    using nic_transmit [OF False refl, of "if bit (tx_cmd (tx_ring m ! tdh (nic m))) 3 then 1 else tx_sta (tx_ring m ! tdh (nic m))"]
    by (simp add: talk_def Let_def bit_0)
  then show ?thesis by blast
qed

lemma set_tails_simps:
  "set_tails (E1000_TDT 0) v m = m\<lparr>nic := (nic m)\<lparr>tdt := unat v\<rparr>\<rparr>" "set_tails (E1000_RDT 0) v m = m\<lparr>nic := (nic m)\<lparr>rdt := unat v\<rparr>\<rparr>"
  by (simp_all add: set_tails_def E1000_TDT_def E1000_RDT_def)

lemma wire_env_ok: "documented clean wire_env" "transmits wire_env" "finite_wire length wire_env" "keeps_size wire_env"
proof -
  have dma: "dma wire_env = (\<lambda>m. talk (hear m))" "reg_read wire_env = (\<lambda>r m. (0x90, m))" "reg_write wire_env = set_tails"
    "pci_write wire_env = (\<lambda>_ _ _ _ m. m)"
    by (simp_all add: wire_env_def)
  show "documented clean wire_env"
    unfolding documented_def dma using rtranclp_trans [OF hear_steps talk_steps] set_tails_simps by auto
  have tdh: "tdh (nic (hear m)) = tdh (nic m)" "tdt (nic (hear m)) = tdt (nic m)" for m
    by (simp_all add: hear_def Let_def split: list.splits)
  have "(k + 1) mod 1024 \<noteq> k" for k :: nat
  proof
    assume eq: "(k + 1) mod 1024 = k"
    then have "k < 1024" using mod_less_divisor [of 1024 "k + 1"] by simp
    then show False using eq by (cases "k = 1023") auto
  qed
  then show "transmits wire_env"
    unfolding transmits_def dma by (intro allI impI exI [of _ 1]) (simp add: talk_def Let_def tdh)
  have "wire_total length (talk m) = wire_total length m" "wire_total length (hear m) \<le> wire_total length m" for m
    by (simp_all add: wire_total_def talk_def hear_def Let_def split: list.splits)
  then show "finite_wire length wire_env" unfolding finite_wire_def dma by (metis snd_conv order_refl)
  have len: "unat (of_nat l :: u16) \<le> 2048" if "l \<le> 2048" for l using that by (simp add: unat_of_nat)
  have "same_size m (talk m)" "same_size m (hear m)" "same_size m (set_tails r v m)" for m :: "u8 list list machine" and r v
    using len by (auto simp: same_size_def talk_def hear_def set_tails_def Let_def lengths_fit_simps stored_desc_def split: list.splits)
  then show "keeps_size wire_env" unfolding keeps_size_def dma by (simp add: same_size_def)
qed

lemma example_card_fields:
  "channel (example_card sta fs) = Some []" "snd_counter (example_card sta fs) = 0" "tx_buf_pos (example_card sta fs) = 0"
  "fst (reg_read wire_env r m) AND 2 ^ 7 \<noteq> 0"
  by (simp_all add: example_card_def wire_env_def)

lemma example_card_ok: "rx_pending True [] (example_card sta fs)" "tx_ready 2 [] (example_card 0 fs)"
  by (simp_all add: rx_pending_def rx_state_def tx_ready_def example_card_def fresh_rx_desc_def nth_append)

section \<open>Correctness\<close>

text \<open>
  C12. Received frames reach the channel. The card stores frames in the ring while the handler runs. When the handler is
  called for a received packet, it returns, and it has passed every frame that was waiting or arrived meanwhile to
  the channel if it is an ARP request or addressed to the card, with its content, in order of arrival, none twice
  and none lost; every buffer is free for the card again. The wire carries a finite number of frames, the tail is where
  the handler leaves it, and the buffers are below 4 GB.
\<close>

theorem e1000_receives:
  assumes "documented clean E" "finite_wire left E" "rx_pending clean fs s" "channel s = Some ch"
    "fst (reg_read E E1000_ICR (machine s)) AND 2 ^ 7 \<noteq> 0"
  shows "\<exists>s' gs. interrupt_handler E s = Some (Inr ((), s')) \<and> heard (nic (machine s')) = heard (nic (machine s)) @ gs \<and>
    channel s' = Some (ch @ filter (accepts s) (fs @ gs)) \<and> rx_pending clean [] s'"
proof -
  obtain icr m where rd: "reg_read E E1000_ICR (machine s) = (icr, m)" by (metis prod.exhaust)
  define s1 where "s1 = s\<lparr>machine := m\<rparr>"
  have "(nic_step clean)\<^sup>*\<^sup>* (machine s) m" using assms(1) rd unfolding documented_def by (metis snd_conv)
  from rx_pending_steps [OF this assms(3)] obtain gs where gs:
    "rx_pending clean (fs @ gs) s1" "heard (nic (machine s1)) = heard (nic (machine s)) @ gs"
    by (auto simp: s1_def)
  have host: "same_host s s1" "channel s1 = Some ch" using assms(4) by (simp_all add: s1_def same_host_def)
  from receive_loop_delivers [OF assms(1,2) le_refl gs(1) host(2)] obtain s' hs where
    "receive_loop E s1 = Some (Inr ((), s'))" "rx_pending clean [] s'"
    "heard (nic (machine s')) = heard (nic (machine s1)) @ hs" "channel s' = Some (ch @ filter (accepts s1) ((fs @ gs) @ hs))"
    by blast
  moreover have "interrupt_handler E s = receive_loop E s1"
    using assms(5) rd by (simp add: interrupt_handler_def run_simps mmio_read32_def s1_def)
  ultimately show ?thesis using gs(2) same_host_accepts [OF host(1)] by (intro exI [of _ s'] exI [of _ "gs @ hs"]) simp
qed

text \<open>
  C13. Packets go out in order. Requests of clients to send packets, up to as many as the ring has descriptors, all
  return, and the card has put exactly these packets on the wire, each with its address and length, in the order of the
  requests. The ring is idle before, and the status of the descriptors that will be used is clear.
\<close>

theorem e1000_sends:
  assumes "documented clean E" "transmits E" "tx_ready (length ws) S s" "length ws \<le> NUM_TX_DESCRIPTORS"
    "list_all (\<lambda>w. w 0 \<noteq> 0xFFFFFFFF) ws"
  shows "\<exists>s'. handle_events E (map Request ws) s = Some (Inr (replicate (length ws) [], s')) \<and>
    sent (nic (machine s')) = S @ map (\<lambda>w. (ucast (w 0), ucast (w 1))) ws \<and> snd_counter s' = snd_counter s + of_nat (length ws)"
  using requests_sent [OF assms(1,2,3) _ assms(5)] assms(4) by (auto simp: tx_ready_def)

text \<open>
  Nothing clears the status of a descriptor before it is used again. When the ring has been gone through once,
  \<^verbatim>\<open>send\<close> finds the status of the last round and returns at once, with the packet counted as sent, although
  the card has not looked at the descriptor.
\<close>

theorem e1000_send_stale:
  assumes "documented clean E" "unat (tx_buf_pos s) < length (tx_ring (machine s))"
    "tx_sta (tx_ring (machine s) ! unat (tx_buf_pos s)) AND 0xF \<noteq> 0"
    "\<forall>m. tx_ring m = tx_ring (machine (post_packet a l s)) \<longrightarrow> dma E m = m"
  shows "\<exists>s'. send E a l s = Some (Inr ((), s')) \<and> snd_counter s' = snd_counter s + 1 \<and>
    sent (nic (machine s')) = sent (nic (machine s)) \<and> tdh (nic (machine s')) = tdh (nic (machine s))"
proof -
  define s0 where "s0 = post_packet a l s"
  define s1 where "s1 = s0\<lparr>machine := (machine s0)\<lparr>nic := (nic (machine s0))\<lparr>tdt := unat (tx_buf_pos s0)\<rparr>\<rparr>\<rparr>"
  have w: "reg_write E (E1000_TDT 0) (ucast (tx_buf_pos s0)) (machine s0) = machine s1"
    using assms(1) by (simp add: documented_def s1_def unat_ucast_u32)
  have idle: "dma E (machine s1) = machine s1" using assms(4) by (simp add: s1_def s0_def)
  have "tx_sta (tx_ring (machine s1) ! unat (tx_buf_pos s)) AND 15 \<noteq> 0"
    using assms(2,3) by (simp add: s1_def s0_def post_packet_def Let_def post_desc_def)
  then have "wait_sent E (unat (tx_buf_pos s)) s1 = Some (Inr ((), s1))"
    by (subst wait_sent.simps) (simp add: Let_def idle)
  then have "finish_send E (unat (tx_buf_pos s)) s0 = Some (Inr ((), s1\<lparr>snd_counter := snd_counter s1 + 1\<rparr>))"
    using w idle by (simp add: finish_send_def run_simps mmio_write32_def usleep_def s1_def)
  then show ?thesis using assms(2)
    by (simp add: send_def s0_def [symmetric]) (simp add: s1_def s0_def post_packet_def Let_def)
qed

theorem e1000_well_formed_witness:
  "case main_e1000 wire_env 0 0x4021 0 0 True [Interrupt, Request (\<lambda>_. 80)] (example_card 0 []) of
      None \<Rightarrow> True | Some (Inl e) \<Rightarrow> e \<in> {Panic, Assertion} | Some (Inr (replies, s')) \<Rightarrow> shaped 4 s'"
  by (rule e1000_well_formed [OF wire_env_ok(4)]) (simp_all add: example_card_def)

theorem e1000_receives_witness:
  "\<exists>s' gs. interrupt_handler wire_env (example_card 0 [replicate 60 0xFF, [0, 7, 0xe9, 0x11, 0x3d, 0x3d] @ replicate 54 1]) = Some (Inr ((), s')) \<and>
    channel s' = Some (filter (accepts (example_card 0 [replicate 60 0xFF, [0, 7, 0xe9, 0x11, 0x3d, 0x3d] @ replicate 54 1])) gs) \<and>
    rx_pending True [] s'"
  (is "\<exists>s' gs. interrupt_handler wire_env ?c = _ \<and> _ \<and> _")
proof -
  obtain s' gs where "interrupt_handler wire_env ?c = Some (Inr ((), s'))" "channel s' = Some ([] @ filter (accepts ?c) ([] @ gs))"
    "rx_pending True [] s'"
    using e1000_receives [OF wire_env_ok(1,3) example_card_ok(1) example_card_fields(1,4)] by blast
  then show ?thesis unfolding append_Nil by blast
qed

theorem e1000_sends_witness:
  "\<exists>s'. handle_events wire_env (map Request [\<lambda>_. 80, \<lambda>i. if i = 0 then 0x7000 else 60]) (example_card 0 []) = Some (Inr (replicate 2 [], s')) \<and>
    sent (nic (machine s')) = [(80, 80), (0x7000, 60)] \<and> snd_counter s' = 2"
proof -
  let ?ws = "[\<lambda>_. 80, \<lambda>i. if i = 0 then 0x7000 else 60] :: (nat \<Rightarrow> u32) list"
  have len: "length ?ws = 2" by simp
  have "length ?ws \<le> NUM_TX_DESCRIPTORS" "list_all (\<lambda>w. w 0 \<noteq> 0xFFFFFFFF) ?ws" by simp_all
  from e1000_sends [OF wire_env_ok(1,2) _ this, unfolded len, OF example_card_ok(2)] obtain s' where
    run: "handle_events wire_env (map Request ?ws) (example_card 0 []) = Some (Inr (replicate 2 [], s'))"
    and "sent (nic (machine s')) = [] @ map (\<lambda>w. (ucast (w 0), ucast (w 1))) ?ws" "snd_counter s' = snd_counter (example_card 0 []) + of_nat 2"
    by blast
  then have "sent (nic (machine s')) = [(80, 80), (0x7000, 60)]" "snd_counter s' = 2"
    unfolding example_card_fields(2) by simp_all
  then show ?thesis using run by blast
qed

end
