(* ===== verification/XDK_X540_Send.thy ===== *)
theory XDK_X540_Send
  imports XDK_Actions
begin

text \<open>
  Sending packets with the driver for the Intel X540 network card, \<^verbatim>\<open>drivers/x540-nic/x540/x540_device.cc\<close>: the ring of
  transmit descriptors of one queue, the simple \<^verbatim>\<open>send\<close> with its recycling of descriptors, and the set-up of the
  queue. The card is a relation: it works through the descriptors between its head and the tail the driver wrote. The
  driver looks at what the card wrote only once in a call, so the card's steps are between calls.
\<close>

section \<open>Structures\<close>

record exo_mbuf =
  phys_addr :: u64
  virt_addr :: u64
  phys_addr_seg :: "u64 list"
  virt_addr_seg :: "u64 list"
  pbuf_list :: u64
  mbuf_len :: u16
  seg_len :: "u16 list"
  mbuf_flag :: u8
  seg_flag :: "u8 list"
  nb_segment :: u8

record tx_entry =
  tx_buf :: exo_mbuf
  next_id :: u16
  last_id :: u16

text \<open>
  A descriptor is 16 bytes with several views; the three fields are those of \<^verbatim>\<open>TX_ADV_DATA_DESC\<close>. In the simple view
  (\<^verbatim>\<open>TX_DESC\<close>) the second one is length (bits 0 to 15), \<^verbatim>\<open>cso\<close> and \<^verbatim>\<open>cmd\<close> (bits 24 to 31), and the low byte of the third one is
  the status.
\<close>

record tx_adv_desc =
  desc_address :: u64
  cmd_type_len :: u32
  olinfo_status :: u32

definition NUM_TX_DESCRIPTORS_PER_QUEUE :: nat where
  "NUM_TX_DESCRIPTORS_PER_QUEUE = 512"

definition TX_FREE_THRESH :: u16 where
  "TX_FREE_THRESH = 64"

definition TX_RS_THRESH :: u16 where
  "TX_RS_THRESH = 64"

definition IXGBE_TX_MAX_BURST :: nat where
  "IXGBE_TX_MAX_BURST = 64"

definition IXGBE_TXD_STAT_DD :: u32 where
  "IXGBE_TXD_STAT_DD = 0x00000001"

definition PACKET_ALLOCATOR :: nat where
  "PACKET_ALLOCATOR = 1"

text \<open>
  The members of \<^verbatim>\<open>exo_tx_ring\<close>, and around it the descriptors, the head and tail of the queue in the card, the packets
  the card put on the wire (address and length), and the calls of \<^verbatim>\<open>_mem->free\<close> (address and allocator).
\<close>

record tx_queue =
  sw_ring :: "tx_entry list"
  tx_tail :: u16
  tx_free_thresh :: u16
  tx_rs_thresh :: u16
  nb_tx_desc :: u16
  nb_tx_used :: u16
  last_desc_cleaned :: u16
  tx_next_dd :: u16
  tx_next_rs :: u16
  nb_tx_free :: u16
  descs :: "tx_adv_desc list"
  tx_head :: nat
  tx_tdt :: nat
  wire :: "(u64 \<times> u16) list"
  freed :: "(u64 \<times> nat) list"

definition zero_mbuf :: exo_mbuf where
  "zero_mbuf = \<lparr>phys_addr = 0, virt_addr = 0, phys_addr_seg = [0, 0], virt_addr_seg = [0, 0], pbuf_list = 0, mbuf_len = 0,
     seg_len = [0, 0], mbuf_flag = 0, seg_flag = [0, 0], nb_segment = 0\<rparr>"

definition zero_entry :: tx_entry where
  "zero_entry = \<lparr>tx_buf = zero_mbuf, next_id = 0, last_id = 0\<rparr>"

section \<open>Set-up\<close>

text \<open>The chain of the entries: \<^verbatim>\<open>last_id\<close> of each, and \<^verbatim>\<open>next_id\<close> of the one before.\<close>

fun link_entries :: "nat list \<Rightarrow> nat \<Rightarrow> tx_entry list \<Rightarrow> tx_entry list" where
  "link_entries [] prev txe = txe"
| "link_entries (ii # is) prev txe =
     (let txe1 = txe[ii := (txe ! ii)\<lparr>last_id := of_nat ii\<rparr>];
          txe2 = txe1[prev := (txe1 ! prev)\<lparr>next_id := of_nat ii\<rparr>]
      in link_entries is ii txe2)"

definition configure_tx_queue :: "(u64 \<times> u16) list \<Rightarrow> (u64 \<times> nat) list \<Rightarrow> tx_queue" where
  "configure_tx_queue w f = (let n = NUM_TX_DESCRIPTORS_PER_QUEUE in
     \<lparr>sw_ring = link_entries [0..<n] (n - 1) (replicate n zero_entry), tx_tail = 0, tx_free_thresh = TX_FREE_THRESH,
      tx_rs_thresh = TX_RS_THRESH, nb_tx_desc = of_nat n, nb_tx_used = 0, last_desc_cleaned = of_nat n - 1,
      tx_next_dd = TX_RS_THRESH - 1, tx_next_rs = TX_RS_THRESH - 1, nb_tx_free = of_nat n - 1,
      descs = replicate n \<lparr>desc_address = 0, cmd_type_len = 0, olinfo_status = 0\<rparr>, tx_head = 0, tx_tdt = 0, wire = w, freed = f\<rparr>)"

section \<open>Filling descriptors\<close>

text \<open>The assignments to \<^verbatim>\<open>address\<close>, \<^verbatim>\<open>length\<close>, \<^verbatim>\<open>cmd\<close> and \<^verbatim>\<open>sta\<close> of the simple view.\<close>

definition fill_desc :: "exo_mbuf \<Rightarrow> tx_adv_desc \<Rightarrow> tx_adv_desc" where
  "fill_desc p d = \<lparr>desc_address = phys_addr p,
     cmd_type_len = (cmd_type_len d AND 0x00FF0000) OR ucast (mbuf_len p) OR push_bit 24 3,
     olinfo_status = olinfo_status d AND NOT 0xFF\<rparr>"

definition tx1 :: "exo_mbuf \<Rightarrow> nat \<Rightarrow> tx_queue \<Rightarrow> tx_queue outcome" where
  "tx1 p pos q = check (pos < length (descs q)) Out_of_range (Inr (q\<lparr>descs := (descs q)[pos := fill_desc p (descs q ! pos)]\<rparr>))"

fun tx4_from :: "exo_mbuf list \<Rightarrow> nat list \<Rightarrow> nat \<Rightarrow> tx_queue \<Rightarrow> tx_queue outcome" where
  "tx4_from ps [] pos q = Inr q"
| "tx4_from ps (i # is) pos q = check (i < length ps) Out_of_range (seq (tx1 (ps ! i) pos q) (tx4_from ps is (pos + 1)))"

definition tx4 :: "exo_mbuf list \<Rightarrow> nat \<Rightarrow> tx_queue \<Rightarrow> tx_queue outcome" where
  "tx4 ps pos q = tx4_from ps [0..<4] pos q"

definition keep_mbuf :: "exo_mbuf list \<Rightarrow> nat \<Rightarrow> nat \<Rightarrow> tx_queue \<Rightarrow> tx_queue outcome" where
  "keep_mbuf ps i pos q = check (i < length ps \<and> pos < length (sw_ring q)) Out_of_range
     (Inr (q\<lparr>sw_ring := (sw_ring q)[pos := (sw_ring q ! pos)\<lparr>tx_buf := ps ! i\<rparr>]\<rparr>))"

fun keep_mbufs :: "exo_mbuf list \<Rightarrow> nat list \<Rightarrow> nat \<Rightarrow> tx_queue \<Rightarrow> tx_queue outcome" where
  "keep_mbufs ps [] pos q = Inr q"
| "keep_mbufs ps (i # is) pos q = seq (keep_mbuf ps i pos q) (keep_mbufs ps is (pos + 1))"

fun fill_main :: "exo_mbuf list \<Rightarrow> nat list \<Rightarrow> nat \<Rightarrow> tx_queue \<Rightarrow> tx_queue outcome" where
  "fill_main ps [] pos q = Inr q"
| "fill_main ps (i # is) pos q =
     seq (keep_mbufs ps [i..<i + 4] (pos + i) q) (\<lambda>q1.
     seq (tx4 (drop i ps) (pos + i) q1) (fill_main ps is pos))"

fun fill_leftover :: "exo_mbuf list \<Rightarrow> nat list \<Rightarrow> nat \<Rightarrow> tx_queue \<Rightarrow> tx_queue outcome" where
  "fill_leftover ps [] pos q = Inr q"
| "fill_leftover ps (i # is) pos q =
     seq (keep_mbuf ps i (pos + i) q) (\<lambda>q1. seq (tx1 (ps ! i) (pos + i) q1) (fill_leftover ps is pos))"

definition tx_fill_hw_ring :: "exo_mbuf list \<Rightarrow> u16 \<Rightarrow> tx_queue \<Rightarrow> tx_queue outcome" where
  "tx_fill_hw_ring ps nb_pkts q =
     (let pos = unat (tx_tail q);
          mainpart = unat ((ucast nb_pkts :: u32) AND NOT 3);
          leftover = unat ((ucast nb_pkts :: u32) AND 3)
      in seq (fill_main ps (map (\<lambda>k. 4 * k) [0..<mainpart div 4]) pos q)
           (fill_leftover ps [mainpart..<mainpart + leftover] pos))"

section \<open>Recycling descriptors\<close>

text \<open>The loop runs over the indices from \<^verbatim>\<open>tx_next_dd - (tx_rs_thresh - 1)\<close> up to \<^verbatim>\<open>tx_rs_thresh\<close>, not counted from the first.\<close>

fun free_entries :: "nat list \<Rightarrow> tx_queue \<Rightarrow> tx_queue outcome" where
  "free_entries [] q = Inr q"
| "free_entries (i # is) q =
     check (i < length (sw_ring q)) Out_of_range
     (let b = tx_buf (sw_ring q ! i);
          q1 = (if mbuf_flag b AND 1 = 1 then q\<lparr>freed := freed q @ [(virt_addr b, PACKET_ALLOCATOR)]\<rparr> else q)
      in free_entries is (q1\<lparr>sw_ring := (sw_ring q1)[i := zero_entry]\<rparr>))"

definition tx_free_bufs :: "tx_queue \<Rightarrow> (u16 \<times> tx_queue) outcome" where
  "tx_free_bufs q =
     (let pos = unat (tx_next_dd q) in
      check (pos < length (descs q)) Out_of_range
      (if olinfo_status (descs q ! pos) AND 0xFF AND IXGBE_TXD_STAT_DD = 0 then Inr (0, q)
       else let first = unat (ucast (tx_next_dd q) - (ucast (tx_rs_thresh q) - 1) :: u32) in
         seq (free_entries [first..<unat (tx_rs_thresh q)] q) (\<lambda>q1.
           let dd = tx_next_dd q1 + tx_rs_thresh q1 in
           Inr (tx_rs_thresh q1, q1\<lparr>nb_tx_free := nb_tx_free q1 + tx_rs_thresh q1,
             tx_next_dd := if dd \<ge> nb_tx_desc q1 then tx_rs_thresh q1 - 1 else dd\<rparr>))))"

section \<open>Sending\<close>

definition set_rs :: "tx_queue \<Rightarrow> tx_queue outcome" where
  "set_rs q = (let pos = unat (tx_next_rs q) in
     check (pos < length (descs q)) Out_of_range
       (Inr (q\<lparr>descs := (descs q)[pos := (descs q ! pos)\<lparr>cmd_type_len := cmd_type_len (descs q ! pos) OR push_bit 24 (2 ^ 3)\<rparr>]\<rparr>)))"

text \<open>The top of the ring when the packets wrap around; the result is the number of packets placed there.\<close>

definition send_top :: "exo_mbuf list \<Rightarrow> u16 \<Rightarrow> tx_queue \<Rightarrow> (u16 \<times> tx_queue) outcome" where
  "send_top ps nb q =
     (if unat (tx_tail q) + unat nb > unat (nb_tx_desc q)
      then let n = nb_tx_desc q - tx_tail q in
        seq (tx_fill_hw_ring ps n q) (\<lambda>q1. seq (set_rs q1) (\<lambda>q2.
          Inr (n, q2\<lparr>tx_next_rs := tx_rs_thresh q2 - 1, tx_tail := 0\<rparr>)))
      else Inr (0, q))"

definition send_rs :: "tx_queue \<Rightarrow> tx_queue outcome" where
  "send_rs q =
     (if tx_tail q > tx_next_rs q
      then seq (set_rs q) (\<lambda>q1. let rs = tx_next_rs q1 + tx_rs_thresh q1 in
        Inr (q1\<lparr>tx_next_rs := if rs \<ge> nb_tx_desc q1 then tx_rs_thresh q1 - 1 else rs\<rparr>))
      else Inr q)"

definition send_finish :: "tx_queue \<Rightarrow> tx_queue outcome" where
  "send_finish q =
     seq (send_rs q) (\<lambda>q1.
       let q2 = (if tx_tail q1 \<ge> nb_tx_desc q1 then q1\<lparr>tx_tail := 0\<rparr> else q1)
       in Inr (q2\<lparr>tx_tdt := unat (tx_tail q2)\<rparr>))"

definition send_pkts :: "exo_mbuf list \<Rightarrow> u16 \<Rightarrow> tx_queue \<Rightarrow> tx_queue outcome" where
  "send_pkts ps nb q =
     seq (send_top ps nb (q\<lparr>nb_tx_free := nb_tx_free q - nb, nb_tx_used := nb_tx_used q + nb\<rparr>)) (\<lambda>(n, q1).
     seq (tx_fill_hw_ring (drop (unat n) ps) (nb - n) q1) (\<lambda>q2.
       send_finish (q2\<lparr>tx_tail := tx_tail q2 + (nb - n)\<rparr>)))"

definition x540_send :: "exo_mbuf list \<Rightarrow> tx_queue \<Rightarrow> (u16 \<times> tx_queue) outcome" where
  "x540_send ps q =
     seq (if nb_tx_free q < tx_free_thresh q then tx_free_bufs q else Inr (0, q)) (\<lambda>(_, q1).
       let nb = of_nat (if unat (nb_tx_free q1) < length ps then unat (nb_tx_free q1) else length ps) in
       if nb = 0 then Inr (0, q1) else seq (send_pkts ps nb q1) (\<lambda>q2. Inr (nb, q2)))"

section \<open>The card\<close>

text \<open>
  The card takes the descriptor at its head, unless the head has reached the tail. If the descriptor ends a packet (bit 24,
  the first bit of the command), the packet goes out; if it asks for a report (bit 27), its status becomes done.
\<close>

inductive tx_hw :: "tx_queue \<Rightarrow> tx_queue \<Rightarrow> bool" where
  take_desc: "tx_head q \<noteq> tx_tdt q \<Longrightarrow> d = descs q ! tx_head q \<Longrightarrow>
    (if bit (cmd_type_len d) 27 then bit s 0 else s = olinfo_status d) \<Longrightarrow>
    tx_hw q (q\<lparr>descs := (descs q)[tx_head q := d\<lparr>olinfo_status := s\<rparr>], tx_head := (tx_head q + 1) mod 512,
      wire := wire q @ (if bit (cmd_type_len d) 24 then [(desc_address d, ucast (cmd_type_len d))] else [])\<rparr>)"

inductive_cases tx_hwE: "tx_hw q q'"

text \<open>The packet that an \<^verbatim>\<open>exo_mbuf\<close> describes, and the states of a queue after packets have been accepted.\<close>

definition packet_of :: "exo_mbuf \<Rightarrow> u64 \<times> u16" where
  "packet_of b = (phys_addr b, mbuf_len b)"

inductive tx_reached :: "(u64 \<times> u16) list \<Rightarrow> tx_queue \<Rightarrow> bool" where
  reached_start: "tx_reached [] (configure_tx_queue [] [])"
| reached_send: "tx_reached ps q \<Longrightarrow> length bs \<le> IXGBE_TX_MAX_BURST \<Longrightarrow> x540_send bs q = Inr (n, q') \<Longrightarrow>
    tx_reached (ps @ map packet_of (take (unat n) bs)) q'"
| reached_hw: "tx_reached ps q \<Longrightarrow> tx_hw q q' \<Longrightarrow> tx_reached ps q'"

section \<open>Filling a range of descriptors\<close>

text \<open>The descriptors of the packets \<open>lo\<close> to \<open>hi\<close> are filled in, nothing else is changed but the entries.\<close>

definition fills :: "exo_mbuf list \<Rightarrow> nat \<Rightarrow> nat \<Rightarrow> nat \<Rightarrow> tx_queue \<Rightarrow> tx_queue \<Rightarrow> bool" where
  "fills ps pos lo hi q q' \<longleftrightarrow> (\<exists>A B. q' = q\<lparr>sw_ring := A, descs := B\<rparr> \<and> length A = length (sw_ring q) \<and> length B = length (descs q) \<and>
     (\<forall>k<length (descs q). B ! k = (if pos + lo \<le> k \<and> k < pos + hi then fill_desc (ps ! (k - pos)) (descs q ! k) else descs q ! k)))"

lemma fillsI:
  "q' = q\<lparr>sw_ring := A, descs := B\<rparr> \<Longrightarrow> length A = length (sw_ring q) \<Longrightarrow> length B = length (descs q) \<Longrightarrow>
    (\<And>k. k < length (descs q) \<Longrightarrow> B ! k = (if pos + lo \<le> k \<and> k < pos + hi then fill_desc (ps ! (k - pos)) (descs q ! k) else descs q ! k)) \<Longrightarrow>
    fills ps pos lo hi q q'"
  unfolding fills_def by blast

lemma fills_lengths: "fills ps pos lo hi q q' \<Longrightarrow> length (sw_ring q') = length (sw_ring q) \<and> length (descs q') = length (descs q)"
  by (auto simp: fills_def)

lemma fills_refl: "fills ps pos lo lo q q"
  by (rule fillsI [where A = "sw_ring q" and B = "descs q"]) auto

lemma fills_trans:
  assumes "fills ps pos lo mid q q1" "fills ps pos mid hi q1 q2" "lo \<le> mid" "mid \<le> hi"
  shows "fills ps pos lo hi q q2"
proof -
  obtain A B where 1: "q1 = q\<lparr>sw_ring := A, descs := B\<rparr>" "length A = length (sw_ring q)" "length B = length (descs q)"
    "\<And>k. k < length (descs q) \<Longrightarrow> B ! k = (if pos + lo \<le> k \<and> k < pos + mid then fill_desc (ps ! (k - pos)) (descs q ! k) else descs q ! k)"
    using assms(1) by (auto simp: fills_def)
  obtain C D where 2: "q2 = q1\<lparr>sw_ring := C, descs := D\<rparr>" "length C = length (sw_ring q1)" "length D = length (descs q1)"
    "\<And>k. k < length (descs q1) \<Longrightarrow> D ! k = (if pos + mid \<le> k \<and> k < pos + hi then fill_desc (ps ! (k - pos)) (descs q1 ! k) else descs q1 ! k)"
    using assms(2) by (auto simp: fills_def)
  have "D ! k = (if pos + lo \<le> k \<and> k < pos + hi then fill_desc (ps ! (k - pos)) (descs q ! k) else descs q ! k)"
    if "k < length (descs q)" for k
    using 1(4) [OF that] 2(4) [of k] that assms(3,4) 1(1,3) by auto
  then show ?thesis unfolding fills_def using 1(1-3) 2(1-3) by (intro exI [of _ C] exI [of _ D]) simp
qed

lemma keep_mbuf_fills:
  assumes "i < length ps" "pos < length (sw_ring q)"
  shows "\<exists>q'. keep_mbuf ps i pos q = Inr q' \<and> fills bs p lo lo q q'"
proof -
  let ?A = "(sw_ring q)[pos := (sw_ring q ! pos)\<lparr>tx_buf := ps ! i\<rparr>]"
  have "fills bs p lo lo q (q\<lparr>sw_ring := ?A\<rparr>)" by (rule fillsI [where A = ?A and B = "descs q"]) auto
  then show ?thesis using assms by (simp add: keep_mbuf_def)
qed

lemma keep_mbufs_fills:
  "\<forall>i\<in>set is. i < length ps \<Longrightarrow> pos + length is \<le> length (sw_ring q) \<Longrightarrow>
    \<exists>q'. keep_mbufs ps is pos q = Inr q' \<and> fills bs p lo lo q q'"
proof (induction "is" arbitrary: pos q)
  case Nil
  then show ?case by (simp add: fills_refl)
next
  case (Cons i "is")
  obtain q1 where q1: "keep_mbuf ps i pos q = Inr q1" "fills bs p lo lo q q1"
    using keep_mbuf_fills [of i ps pos q bs p lo] Cons.prems by auto
  then obtain q2 where "keep_mbufs ps is (pos + 1) q1 = Inr q2" "fills bs p lo lo q1 q2"
    using Cons.IH [of "pos + 1" q1] Cons.prems fills_lengths [OF q1(2)] by auto
  then show ?case using q1 fills_trans [OF q1(2)] by auto
qed

lemma tx1_fills:
  assumes "pos + i < length (descs q)"
  shows "\<exists>q'. tx1 (ps ! i) (pos + i) q = Inr q' \<and> fills ps pos i (Suc i) q q'"
proof -
  let ?B = "(descs q)[pos + i := fill_desc (ps ! i) (descs q ! (pos + i))]"
  have "fills ps pos i (Suc i) q (q\<lparr>descs := ?B\<rparr>)"
    by (rule fillsI [where A = "sw_ring q" and B = ?B]) (use assms in \<open>auto simp: nth_list_update\<close>)
  then show ?thesis using assms by (simp add: tx1_def)
qed

lemma tx4_fills:
  assumes "i + 4 \<le> length ps" "pos + i + 4 \<le> length (descs q)"
  shows "\<exists>q'. tx4 (drop i ps) (pos + i) q = Inr q' \<and> fills ps pos i (i + 4) q q'"
proof -
  have "\<exists>q'. tx4_from (drop i ps) [j..<4] (pos + i + j) q = Inr q' \<and> fills ps pos (i + j) (i + 4) q q'"
    if "j \<le> 4" "pos + i + 4 \<le> length (descs q)" for j q
    using that
  proof (induction "4 - j" arbitrary: j q)
    case 0
    then show ?case by (simp add: fills_refl)
  next
    case (Suc n)
    then have j: "j < 4" by simp
    obtain q1 where q1: "tx1 (ps ! (i + j)) (pos + (i + j)) q = Inr q1" "fills ps pos (i + j) (Suc (i + j)) q q1"
      using tx1_fills [of pos "i + j" q ps] Suc.prems j by auto
    obtain q2 where q2: "tx4_from (drop i ps) [Suc j..<4] (pos + i + Suc j) q1 = Inr q2" "fills ps pos (i + Suc j) (i + 4) q1 q2"
    proof -
      have "n = 4 - Suc j" "Suc j \<le> 4" "pos + i + 4 \<le> length (descs q1)"
        using Suc.hyps(2) Suc.prems j fills_lengths [OF q1(2)] by simp_all
      from Suc.hyps(1) [OF this] show thesis using that by blast
    qed
    have "j < length (drop i ps)" using j assms(1) by simp
    then have "tx4_from (drop i ps) [j..<4] (pos + i + j) q = Inr q2"
      using j q1(1) q2(1) assms(1) by (simp add: upt_conv_Cons add.assoc del: length_drop)
    then show ?case using fills_trans [OF q1(2)] q2(2) j by auto
  qed
  from this [of 0 q] show ?thesis using assms by (simp add: tx4_def)
qed

lemma fill_main_fills:
  "4 * n \<le> length ps \<Longrightarrow> pos + 4 * n \<le> length (descs q) \<Longrightarrow> length (sw_ring q) = length (descs q) \<Longrightarrow> m \<le> n \<Longrightarrow>
    \<exists>q'. fill_main ps (map (\<lambda>k. 4 * k) [m..<n]) pos q = Inr q' \<and> fills ps pos (4 * m) (4 * n) q q'"
proof (induction "n - m" arbitrary: m q)
  case 0
  then show ?case by (simp add: fills_refl)
next
  case (Suc d)
  then have m: "m < n" by simp
  have "\<forall>i\<in>set [4 * m..<4 * m + 4]. i < length ps" "pos + 4 * m + length [4 * m..<4 * m + 4] \<le> length (sw_ring q)"
    using Suc.prems m by auto
  from keep_mbufs_fills [OF this] obtain q1 where
    q1: "keep_mbufs ps [4 * m..<4 * m + 4] (pos + 4 * m) q = Inr q1" "fills ps pos (4 * m) (4 * m) q q1" by blast
  have len: "4 * m + 4 \<le> length ps" "pos + 4 * m + 4 \<le> length (descs q1)"
    using Suc.prems m fills_lengths [OF q1(2)] by auto
  from tx4_fills [OF this] obtain q2 where
    q2: "tx4 (drop (4 * m) ps) (pos + 4 * m) q1 = Inr q2" "fills ps pos (4 * m) (4 * m + 4) q1 q2" by blast
  have "d = n - Suc m" "4 * n \<le> length ps" "pos + 4 * n \<le> length (descs q2)" "length (sw_ring q2) = length (descs q2)" "Suc m \<le> n"
    using Suc m fills_lengths [OF q1(2)] fills_lengths [OF q2(2)] by auto
  from Suc.hyps(1) [OF this] obtain q3 where
    q3: "fill_main ps (map (\<lambda>k. 4 * k) [Suc m..<n]) pos q2 = Inr q3" "fills ps pos (4 * m + 4) (4 * n) q2 q3"
    by (auto simp: add.commute)
  have "fills ps pos (4 * m) (4 * n) q q3"
    using fills_trans [OF fills_trans [OF q1(2) q2(2)] q3(2)] m by simp
  moreover have "fill_main ps (map (\<lambda>k. 4 * k) [m..<n]) pos q = Inr q3"
    using m q1(1) q2(1) q3(1) by (simp add: upt_conv_Cons)
  ultimately show ?case by blast
qed

lemma fill_leftover_fills:
  "b \<le> length ps \<Longrightarrow> pos + b \<le> length (descs q) \<Longrightarrow> length (sw_ring q) = length (descs q) \<Longrightarrow> a \<le> b \<Longrightarrow>
    \<exists>q'. fill_leftover ps [a..<b] pos q = Inr q' \<and> fills ps pos a b q q'"
proof (induction "b - a" arbitrary: a q)
  case 0
  then show ?case by (simp add: fills_refl)
next
  case (Suc d)
  then have a: "a < b" by simp
  obtain q1 where q1: "keep_mbuf ps a (pos + a) q = Inr q1" "fills ps pos a a q q1"
    using keep_mbuf_fills [of a ps "pos + a" q ps pos a] Suc.prems a by auto
  obtain q2 where q2: "tx1 (ps ! a) (pos + a) q1 = Inr q2" "fills ps pos a (Suc a) q1 q2"
    using tx1_fills [of pos a q1 ps] Suc.prems a fills_lengths [OF q1(2)] by auto
  have "d = b - Suc a" "b \<le> length ps" "pos + b \<le> length (descs q2)" "length (sw_ring q2) = length (descs q2)" "Suc a \<le> b"
    using Suc a fills_lengths [OF q1(2)] fills_lengths [OF q2(2)] by auto
  from Suc.hyps(1) [OF this] obtain q3 where
    q3: "fill_leftover ps [Suc a..<b] pos q2 = Inr q3" "fills ps pos (Suc a) b q2 q3" by auto
  have "fills ps pos a b q q3"
    using fills_trans [OF fills_trans [OF q1(2) q2(2)] q3(2)] a by simp
  then show ?case using a q1(1) q2(1) q3(1) by (auto simp: upt_conv_Cons)
qed

lemma burst_parts:
  fixes nb :: u16
  shows "unat ((ucast nb :: u32) AND NOT 3) = 4 * (unat nb div 4)" "unat ((ucast nb :: u32) AND 3) = unat nb mod 4"
proof -
  have three: "(3 :: u32) = mask 2" by (simp add: mask_eq_exp_minus_1)
  have nb: "unat (ucast nb :: u32) = unat nb"
    using unat_bound [of nb] by (simp add: unsigned_ucast_eq take_bit_nat_eq_self)
  show "unat ((ucast nb :: u32) AND 3) = unat nb mod 4"
    unfolding three unat_and_mask nb by simp
  show "unat ((ucast nb :: u32) AND NOT 3) = 4 * (unat nb div 4)"
    unfolding three unat_and_not_mask nb by (simp add: minus_mod_eq_mult_div)
qed

lemma tx_fill_hw_ring_fills:
  assumes "unat nb \<le> length ps" "unat (tx_tail q) + unat nb \<le> length (descs q)" "length (sw_ring q) = length (descs q)"
  shows "\<exists>q'. tx_fill_hw_ring ps nb q = Inr q' \<and> fills ps (unat (tx_tail q)) 0 (unat nb) q q'"
proof -
  let ?n = "unat nb div 4"
  have split: "4 * ?n + unat nb mod 4 = unat nb" by simp
  have 1: "4 * ?n \<le> length ps" "unat (tx_tail q) + 4 * ?n \<le> length (descs q)" using assms split by linarith+
  obtain q1 where q1: "fill_main ps (map (\<lambda>k. 4 * k) [0..<?n]) (unat (tx_tail q)) q = Inr q1"
    "fills ps (unat (tx_tail q)) 0 (4 * ?n) q q1"
    using fill_main_fills [OF 1 assms(3), of 0] by auto
  have 2: "unat nb \<le> length ps" "unat (tx_tail q) + unat nb \<le> length (descs q1)" "length (sw_ring q1) = length (descs q1)"
    using assms fills_lengths [OF q1(2)] by auto
  obtain q2 where q2: "fill_leftover ps [4 * ?n..<unat nb] (unat (tx_tail q)) q1 = Inr q2"
    "fills ps (unat (tx_tail q)) (4 * ?n) (unat nb) q1 q2"
    using fill_leftover_fills [OF 2, of "4 * ?n"] split by auto
  have "tx_fill_hw_ring ps nb q = Inr q2"
    unfolding tx_fill_hw_ring_def Let_def burst_parts split using q1(1) q2(1) by simp
  then show ?thesis using fills_trans [OF q1(2) q2(2)] by auto
qed

section \<open>One call of send\<close>

definition mark_rs :: "bool \<Rightarrow> tx_adv_desc \<Rightarrow> tx_adv_desc" where
  "mark_rs b d = (if b then d\<lparr>cmd_type_len := cmd_type_len d OR push_bit 24 (2 ^ 3)\<rparr> else d)"

text \<open>The sizes and thresholds of a queue.\<close>

definition tx_sizes :: "tx_queue \<Rightarrow> bool" where
  "tx_sizes q \<longleftrightarrow> length (descs q) = 512 \<and> length (sw_ring q) = 512 \<and> nb_tx_desc q = 512 \<and> tx_rs_thresh q = 64 \<and> tx_free_thresh q = 64"

text \<open>What sending \<open>n\<close> packets does to a queue whose tail is \<open>t\<close>.\<close>

definition sends_at :: "exo_mbuf list \<Rightarrow> nat \<Rightarrow> nat \<Rightarrow> tx_queue \<Rightarrow> tx_queue \<Rightarrow> bool" where
  "sends_at ps t n q q' \<longleftrightarrow> tx_sizes q' \<and> nb_tx_free q' = nb_tx_free q - of_nat n \<and> tx_next_dd q' = tx_next_dd q \<and> tx_head q' = tx_head q \<and>
     wire q' = wire q \<and> unat (tx_tail q') = (t + n) mod 512 \<and> tx_tdt q' = (t + n) mod 512 \<and>
     unat (tx_next_rs q') = 64 * ((t + n) mod 512 div 64) + 63 \<and>
     (\<forall>i<n. descs q' ! ((t + i) mod 512) = mark_rs ((t + i) mod 64 = 63) (fill_desc (ps ! i) (descs q ! ((t + i) mod 512)))) \<and>
     (\<forall>k<512. (\<forall>i<n. (t + i) mod 512 \<noteq> k) \<longrightarrow> descs q' ! k = descs q ! k)"

lemma u16_small: "n < 65536 \<Longrightarrow> unat (of_nat n :: u16) = n"
  by (simp add: unat_of_nat take_bit_nat_eq_self)

lemma set_rs_marks:
  assumes "unat (tx_next_rs q) < length (descs q)"
  shows "set_rs q = Inr (q\<lparr>descs := (descs q)[unat (tx_next_rs q) := mark_rs True (descs q ! unat (tx_next_rs q))]\<rparr>)"
  using assms by (simp add: set_rs_def mark_rs_def Let_def)

lemma send_finish_tail:
  assumes "send_rs q = Inr q1" "nb_tx_desc q1 = 512" "unat (tx_tail q1) = T" "T \<le> 512"
  shows "send_finish q = Inr (q1\<lparr>tx_tail := of_nat (T mod 512), tx_tdt := T mod 512\<rparr>)"
proof (cases "T = 512")
  case True
  then show ?thesis using assms by (simp add: send_finish_def word_le_nat_alt)
next
  case False
  then have "T mod 512 = T" "\<not> tx_tail q1 \<ge> 512" "of_nat T = tx_tail q1"
    using assms(3,4) by (auto simp: word_le_nat_alt)
  then show ?thesis using assms by (simp add: send_finish_def)
qed

lemma next_rs_step:
  assumes "unat N = 64 * r + 63" "r < 8" "64 * r + 63 < T" "T < 64 * r + 128" "T \<le> 512"
  shows "(if N + 64 \<ge> 512 then 63 else N + 64) = (of_nat (64 * (T mod 512 div 64) + 63) :: u16)"
proof -
  have rs: "unat (N + 64) = 64 * r + 127" using unat_add_small [of N 64] assms(1,2) by simp
  show ?thesis
  proof (cases "r = 7")
    case True
    then have "T = 512" using assms by simp
    then show ?thesis using rs True by (simp add: word_le_nat_alt)
  next
    case False
    then have T: "T < 512" "T div 64 = r + 1" using assms by (simp, intro div_nat_eqI) auto
    then have "64 * (T mod 512 div 64) + 63 = unat (N + 64)" using rs by simp
    moreover have "\<not> N + 64 \<ge> 512" using rs False assms(2) by (simp add: word_le_nat_alt)
    ultimately show ?thesis by (simp del: of_nat_add of_nat_mult)
  qed
qed

lemma send_finish_eq:
  assumes q: "tx_sizes q" "unat (tx_tail q) = T" "unat (tx_next_rs q) = 64 * r + 63"
    and r: "r < 8" "64 * r \<le> T" "T < 64 * r + 128" "T \<le> 512"
  shows "send_finish q = Inr (q\<lparr>descs := (descs q)[64 * r + 63 := mark_rs (64 * r + 63 < T) (descs q ! (64 * r + 63))],
    tx_next_rs := of_nat (64 * (T mod 512 div 64) + 63), tx_tail := of_nat (T mod 512), tx_tdt := T mod 512\<rparr>)"
proof -
  let ?N = "of_nat (64 * (T mod 512 div 64) + 63) :: u16"
  have "send_rs q = Inr (q\<lparr>descs := (descs q)[64 * r + 63 := mark_rs (64 * r + 63 < T) (descs q ! (64 * r + 63))], tx_next_rs := ?N\<rparr>)"
  proof (cases "64 * r + 63 < T")
    case True
    have "send_rs q = Inr (q\<lparr>descs := (descs q)[64 * r + 63 := mark_rs True (descs q ! (64 * r + 63))],
        tx_next_rs := (if tx_next_rs q + 64 \<ge> 512 then 63 else tx_next_rs q + 64)\<rparr>)"
      using True q r(1) by (simp add: send_rs_def set_rs_marks tx_sizes_def Let_def word_less_nat_alt)
    then show ?thesis unfolding next_rs_step [OF q(3) r(1) True r(3,4)] using True by (simp only: simp_thms)
  next
    case False
    then have "T < 512" "T div 64 = r" using r by (simp, intro div_nat_eqI) auto
    then have "64 * (T mod 512 div 64) + 63 = unat (tx_next_rs q)" using q(3) by simp
    then have "?N = tx_next_rs q" by (simp del: of_nat_add of_nat_mult)
    then show ?thesis using False q by (simp add: send_rs_def mark_rs_def word_less_nat_alt del: of_nat_add of_nat_mult)
  qed
  from send_finish_tail [OF this] show ?thesis using q r(4) by (simp add: tx_sizes_def)
qed

lemma rs_slot: "64 * r \<le> x \<Longrightarrow> x < 64 * r + 127 \<Longrightarrow> x mod 64 = 63 \<longleftrightarrow> x = 64 * r + (63 :: nat)"
proof -
  assume x: "64 * r \<le> x" "x < 64 * r + 127"
  define d where "d = x - 64 * r"
  have d: "x = 64 * r + d" "d < 127" using x by (auto simp: d_def)
  have "d mod 64 = 63 \<longleftrightarrow> d = 63" using d(2) by (cases "d < 64") (auto simp: le_mod_geq)
  then show ?thesis by (simp add: d(1))
qed

lemma rs_bound: "64 * (x mod 512 div 64) + 63 < (512 :: nat)"
proof -
  have "x mod 512 div 64 < 8" by (rule less_mult_imp_div_less) simp
  then show ?thesis by linarith
qed

lemma send_pkts_plain:
  assumes q: "tx_sizes q" "unat (tx_tail q) = t" "unat (tx_next_rs q) = 64 * (t div 64) + 63" "t < 512"
    and n: "unat nb = n" "n \<le> length ps" "n \<le> 64" and no_wrap: "t + n \<le> 512"
  shows "\<exists>q'. send_pkts ps nb q = Inr q' \<and> sends_at ps t n q q'"
proof -
  define q0 where "q0 = q\<lparr>nb_tx_free := nb_tx_free q - nb, nb_tx_used := nb_tx_used q + nb\<rparr>"
  define r where "r = t div 64"
  have r: "r < 8" "64 * r \<le> t" "t < 64 * r + 64" using q(4) by (auto simp: r_def)
  have q0: "tx_sizes q0" "unat (tx_tail q0) = t" "descs q0 = descs q" using q by (simp_all add: q0_def tx_sizes_def)
  have top: "send_top ps nb q0 = Inr (0, q0)" using q0 n no_wrap by (simp add: send_top_def tx_sizes_def)
  obtain A B where fill: "tx_fill_hw_ring ps nb q0 = Inr (q0\<lparr>sw_ring := A, descs := B\<rparr>)" "length A = 512" "length B = 512"
    and B: "\<And>k. k < 512 \<Longrightarrow> B ! k = (if t \<le> k \<and> k < t + n then fill_desc (ps ! (k - t)) (descs q ! k) else descs q ! k)"
    using tx_fill_hw_ring_fills [of nb ps q0] q0 n no_wrap unfolding fills_def tx_sizes_def by auto
  define q2 where "q2 = q0\<lparr>sw_ring := A, descs := B, tx_tail := tx_tail q0 + nb\<rparr>"
  have q2: "tx_sizes q2" "unat (tx_tail q2) = t + n" "unat (tx_next_rs q2) = 64 * r + 63"
    using unat_add_small [of "tx_tail q0" nb] q0 q n no_wrap fill by (simp_all add: q2_def q0_def tx_sizes_def r_def)
  define D where "D = B[64 * r + 63 := mark_rs (64 * r + 63 < t + n) (B ! (64 * r + 63))]"
  define q' where "q' = q2\<lparr>descs := D, tx_next_rs := of_nat (64 * ((t + n) mod 512 div 64) + 63),
    tx_tail := of_nat ((t + n) mod 512), tx_tdt := (t + n) mod 512\<rparr>"
  have "send_finish q2 = Inr q'"
    using send_finish_eq [OF q2] r n no_wrap by (simp add: q'_def D_def q2_def)
  then have "send_pkts ps nb q = Inr q'"
    using top fill by (simp add: send_pkts_def q0_def [symmetric] q2_def)
  moreover have "D ! (t + i) = mark_rs ((t + i) mod 64 = 63) (fill_desc (ps ! i) (descs q ! (t + i)))" if "i < n" for i
    using that B [of "t + i"] fill(3) no_wrap rs_slot [of r "t + i"] r n by (auto simp: D_def nth_list_update mark_rs_def)
  moreover have "D ! k = descs q ! k" if "k < 512" "\<forall>i<n. (t + i) mod 512 \<noteq> k" for k
  proof -
    have "\<not> (t \<le> k \<and> k < t + n)" using that(2) no_wrap by (metis add_diff_inverse_nat linorder_not_less mod_less nat_add_left_cancel_less that(1))
    then show ?thesis using that(1) B [of k] fill(3) r by (auto simp: D_def nth_list_update mark_rs_def)
  qed
  moreover have "nb = of_nat n" using n(1) by auto
  moreover note rs_bound [of "t + n"]
  ultimately have "sends_at ps t n q q'"
    using fill q2(1) no_wrap q unfolding sends_at_def
    by (simp add: q'_def q2_def q0_def tx_sizes_def u16_small D_def [symmetric] del: of_nat_add of_nat_mult) (simp add: D_def)
  then show ?thesis using \<open>send_pkts ps nb q = Inr q'\<close> by blast
qed

lemma send_top_wraps:
  assumes q: "tx_sizes q" "unat (tx_tail q) = t" "unat (tx_next_rs q) = 511" "t < 512"
    and n: "unat nb = n" "n \<le> length ps" "t + n > 512"
  shows "\<exists>A B. send_top ps nb q = Inr (of_nat (512 - t), q\<lparr>sw_ring := A, descs := B, tx_next_rs := 63, tx_tail := 0\<rparr>) \<and>
    length A = 512 \<and> length B = 512 \<and>
    (\<forall>k<512. B ! k = (if t \<le> k then mark_rs (k = 511) (fill_desc (ps ! (k - t)) (descs q ! k)) else descs q ! k))"
proof -
  have top: "512 - tx_tail q = of_nat (512 - t)" using q(2,4) by (simp add: of_nat_diff) auto
  have nt: "unat (of_nat (512 - t) :: u16) = 512 - t" by (rule u16_small) simp
  obtain A B where fill: "tx_fill_hw_ring ps (of_nat (512 - t)) q = Inr (q\<lparr>sw_ring := A, descs := B\<rparr>)" "length A = 512" "length B = 512"
    and B: "\<And>k. k < 512 \<Longrightarrow> B ! k = (if t \<le> k then fill_desc (ps ! (k - t)) (descs q ! k) else descs q ! k)"
    using tx_fill_hw_ring_fills [of "of_nat (512 - t)" ps q] q n unfolding fills_def tx_sizes_def nt by auto
  define D where "D = B[511 := mark_rs True (B ! 511)]"
  have "send_top ps nb q = Inr (of_nat (512 - t), q\<lparr>sw_ring := A, descs := D, tx_next_rs := 63, tx_tail := 0\<rparr>)"
    using q n fill top by (simp add: send_top_def tx_sizes_def set_rs_marks D_def Let_def)
  moreover have "D ! k = (if t \<le> k then mark_rs (k = 511) (fill_desc (ps ! (k - t)) (descs q ! k)) else descs q ! k)" if "k < 512" for k
    using B [OF that] that fill(3) q(4) by (auto simp: D_def nth_list_update mark_rs_def)
  ultimately show ?thesis using fill by (intro exI [of _ A] exI [of _ D]) (simp add: D_def)
qed

lemma seventh: "448 \<le> k \<Longrightarrow> k < 512 \<Longrightarrow> k mod 64 = 63 \<longleftrightarrow> k = (511 :: nat)"
  using mod_less [of "k - 448" 64] mod_mult_self2 [of "k - 448" 64 7] by auto

lemma mod_64_above_512: "512 \<le> k \<Longrightarrow> k mod 64 = (k - 512) mod (64 :: nat)"
  using mod_mult_self2 [of "k - 512" 64 8] by simp

lemma send_pkts_wraps:
  assumes q: "tx_sizes q" "unat (tx_tail q) = t" "unat (tx_next_rs q) = 64 * (t div 64) + 63" "t < 512"
    and n: "unat nb = n" "n \<le> length ps" "n \<le> 64" and wrap: "t + n > 512"
  shows "\<exists>q'. send_pkts ps nb q = Inr q' \<and> sends_at ps t n q q'"
proof -
  define q0 where "q0 = q\<lparr>nb_tx_free := nb_tx_free q - nb, nb_tx_used := nb_tx_used q + nb\<rparr>"
  have "t div 64 = 7" using q(4) wrap n(3) by (intro div_nat_eqI) auto
  then have q0: "tx_sizes q0" "unat (tx_tail q0) = t" "unat (tx_next_rs q0) = 511" "descs q0 = descs q"
    using q by (simp_all add: q0_def tx_sizes_def)
  obtain A B where top: "send_top ps nb q0 = Inr (of_nat (512 - t), q0\<lparr>sw_ring := A, descs := B, tx_next_rs := 63, tx_tail := 0\<rparr>)"
    "length A = 512" "length B = 512"
    and B: "\<And>k. k < 512 \<Longrightarrow> B ! k = (if t \<le> k then mark_rs (k = 511) (fill_desc (ps ! (k - t)) (descs q ! k)) else descs q ! k)"
    using send_top_wraps [OF q0(1,2,3) q(4) n(1,2) wrap] q0(4) by auto
  define q1 where "q1 = q0\<lparr>sw_ring := A, descs := B, tx_next_rs := 63, tx_tail := 0\<rparr>"
  define T where "T = t + n - 512"
  have T: "T < 64" "T \<le> length (drop (512 - t) ps)" "(t + n) mod 512 = T" using n wrap q(4) by (auto simp: T_def le_mod_geq)
  have nt: "unat (of_nat (512 - t) :: u16) = 512 - t" by (rule u16_small) simp
  have nb: "nb = of_nat n" using n(1) by auto
  have rest: "unat (nb - of_nat (512 - t)) = T"
    using unat_sub [of "of_nat (512 - t)" nb] nt n(1) wrap q(4) by (simp add: word_le_nat_alt T_def)
  obtain A' D where fill: "tx_fill_hw_ring (drop (512 - t) ps) (nb - of_nat (512 - t)) q1 = Inr (q1\<lparr>sw_ring := A', descs := D\<rparr>)"
    "length A' = 512" "length D = 512"
    and D: "\<And>k. k < 512 \<Longrightarrow> D ! k = (if k < T then fill_desc (drop (512 - t) ps ! k) (B ! k) else B ! k)"
    using tx_fill_hw_ring_fills [of "nb - of_nat (512 - t)" "drop (512 - t) ps" q1] top T rest unfolding fills_def
    by (auto simp: q1_def)
  define q2 where "q2 = q1\<lparr>sw_ring := A', descs := D, tx_tail := nb - of_nat (512 - t)\<rparr>"
  define q' where "q' = q2\<lparr>tx_next_rs := 63, tx_tail := of_nat T, tx_tdt := T\<rparr>"
  have q2: "tx_sizes q2" "unat (tx_tail q2) = T" "unat (tx_next_rs q2) = 64 * 0 + 63"
    using fill q0(1) rest by (simp_all add: q2_def q1_def tx_sizes_def)
  have "send_finish q2 = Inr q'"
    using send_finish_eq [OF q2] T fill(3) by (simp add: q'_def mark_rs_def q2_def)
  then have run: "send_pkts ps nb q = Inr q'"
    using top(1) fill(1) nt by (simp add: send_pkts_def q0_def [symmetric] q1_def [symmetric] q2_def) (simp add: q1_def)
  have new: "D ! ((t + i) mod 512) = mark_rs ((t + i) mod 64 = 63) (fill_desc (ps ! i) (descs q ! ((t + i) mod 512)))" if "i < n" for i
  proof (cases "t + i < 512")
    case True
    then have "(t + i) mod 64 = 63 \<longleftrightarrow> t + i = 511" using seventh [of "t + i"] n(3) wrap by auto
    then show ?thesis using True D [of "t + i"] B [of "t + i"] n(3) wrap by (simp add: T_def)
  next
    case False
    define k where "k = t + i - 512"
    have k: "(t + i) mod 512 = k" "k < T" "(t + i) mod 64 = k" "512 - t + k = i" "512 - t \<le> length ps" "k < t"
      using False that n q(4) by (auto simp: k_def T_def le_mod_geq mod_64_above_512)
    then show ?thesis using D [of k] B [of k] T(1) by (simp add: nth_drop mark_rs_def)
  qed
  have old: "D ! k = descs q ! k" if k: "k < 512" "\<And>i. i < n \<Longrightarrow> (t + i) mod 512 \<noteq> k" for k
  proof -
    have "k - t < n" if "t \<le> k" using that k(1) wrap by arith
    then have "k < t" using k(2) [of "k - t"] k(1) by (cases "t \<le> k") auto
    moreover have "512 - t + k < n" if "k < T" using that q(4) wrap unfolding T_def by arith
    then have "\<not> k < T" using k(2) [of "512 - t + k"] q(4) k(1) by auto
    ultimately show ?thesis using D [OF k(1)] B [OF k(1)] by simp
  qed
  have "sends_at ps t n q q'"
    unfolding sends_at_def using fill q0(1) T new old nb
    by (simp add: q'_def q2_def q1_def q0_def tx_sizes_def u16_small)
  then show ?thesis using run by blast
qed

lemma send_pkts_at:
  assumes "tx_sizes q" "unat (tx_tail q) = t" "unat (tx_next_rs q) = 64 * (t div 64) + 63" "t < 512"
    and "unat nb = n" "n \<le> length ps" "n \<le> 64"
  shows "\<exists>q'. send_pkts ps nb q = Inr q' \<and> sends_at ps t n q q'"
  using send_pkts_plain [OF assms] send_pkts_wraps [OF assms] by (cases "t + n \<le> 512") auto

section \<open>Descriptors and packets\<close>

text \<open>The descriptor describes the packet, is not done, and asks for a report or not.\<close>

definition carries :: "tx_adv_desc \<Rightarrow> u64 \<times> u16 \<Rightarrow> bool \<Rightarrow> bool" where
  "carries d p rs \<longleftrightarrow> desc_address d = fst p \<and> ucast (cmd_type_len d) = snd p \<and> bit (cmd_type_len d) 24 \<and>
     (bit (cmd_type_len d) 27 \<longleftrightarrow> rs) \<and> \<not> bit (olinfo_status d) 0"

lemma cmd_length:
  "ucast ((c AND push_bit 16 m) OR ucast (l :: u16) OR push_bit 24 x :: u32) = l"
  "ucast (((c AND push_bit 16 m) OR ucast l OR push_bit 24 x) OR push_bit 24 y :: u32) = l"
  by (rule bit_word_eqI; auto simp: bit_simps)+

lemma cmd_bits:
  fixes c :: u32
  assumes "k < 8"
  shows "bit ((c AND push_bit 16 (mask 8)) OR ucast (l :: u16) OR push_bit 24 x) (24 + k) \<longleftrightarrow> bit x k"
  using assms by (auto simp: bit_simps dest: bit_imp_le_length)

lemma fill_desc_carries: "carries (mark_rs rs (fill_desc b d)) (packet_of b) rs"
proof -
  have m: "(0x00FF0000 :: u32) = push_bit 16 (mask 8)" by (simp add: mask_eq_exp_minus_1 push_bit_eq_mult)
  define w where "w = (cmd_type_len d AND push_bit 16 (mask 8)) OR ucast (mbuf_len b) OR push_bit 24 3"
  have w: "cmd_type_len (fill_desc b d) = w" by (simp add: fill_desc_def w_def m)
  have "bit w 24" "\<not> bit w 27"
    using cmd_bits [of 0 "cmd_type_len d" "mbuf_len b" 3] cmd_bits [of 3 "cmd_type_len d" "mbuf_len b" 3] by (simp_all add: w_def bit_numeral_simps)
  moreover have "bit (push_bit 24 (2 ^ 3) :: u32) 27" by (simp add: bit_push_bit_iff bit_exp_iff del: push_bit_of_Suc_0)
  moreover have "ucast w = mbuf_len b" "ucast (w OR push_bit 24 (2 ^ 3)) = mbuf_len b"
    unfolding w_def by (rule cmd_length)+
  moreover have "\<not> bit (olinfo_status (fill_desc b d)) 0" by (simp add: fill_desc_def bit_simps)
  ultimately show ?thesis
    using w by (simp add: carries_def mark_rs_def packet_of_def bit_or_iff del: push_bit_numeral) (simp add: fill_desc_def)
qed

lemma status_dd: "(s :: u32) AND 0xFF AND IXGBE_TXD_STAT_DD = 0 \<longleftrightarrow> \<not> bit s 0"
proof -
  have "s AND 0xFF AND 1 = s AND 1" by (simp add: and.assoc)
  then show ?thesis by (simp add: IXGBE_TXD_STAT_DD_def and_one_eq bit_0 mod2_eq_if)
qed

section \<open>The ring between driver and card\<close>

text \<open>
  Of the packets \<open>ps\<close> accepted so far, the card has sent the first \<open>H\<close> and the driver has recycled the descriptors of the
  first \<open>C\<close>; packet number \<open>j\<close> is in the descriptor \<open>j mod 512\<close>.
\<close>

definition tx_inv :: "(u64 \<times> u16) list \<Rightarrow> nat \<Rightarrow> nat \<Rightarrow> tx_queue \<Rightarrow> bool" where
  "tx_inv ps C H q \<longleftrightarrow> tx_sizes q \<and> 64 dvd C \<and> C \<le> H \<and> H \<le> length ps \<and>
     unat (nb_tx_free q) + length ps = 511 + C \<and> length ps \<le> 511 + C \<and>
     unat (tx_tail q) = length ps mod 512 \<and> tx_tdt q = length ps mod 512 \<and>
     unat (tx_next_dd q) = (C + 63) mod 512 \<and> unat (tx_next_rs q) = 64 * (length ps mod 512 div 64) + 63 \<and>
     tx_head q = H mod 512 \<and> wire q = take H ps \<and>
     (\<forall>j. H \<le> j \<and> j < length ps \<longrightarrow> carries (descs q ! (j mod 512)) (ps ! j) (j mod 64 = 63)) \<and>
     (\<forall>j. C \<le> j \<and> j < H \<and> j mod 64 = 63 \<longrightarrow> bit (olinfo_status (descs q ! (j mod 512))) 0)"

lemma tx_invD:
  assumes "tx_inv ps C H q"
  shows "tx_sizes q" "64 dvd C" "C \<le> H" "H \<le> length ps" "unat (nb_tx_free q) + length ps = 511 + C" "length ps \<le> 511 + C"
    "unat (tx_tail q) = length ps mod 512" "tx_tdt q = length ps mod 512" "unat (tx_next_dd q) = (C + 63) mod 512"
    "unat (tx_next_rs q) = 64 * (length ps mod 512 div 64) + 63" "tx_head q = H mod 512" "wire q = take H ps"
    "\<And>j. H \<le> j \<Longrightarrow> j < length ps \<Longrightarrow> carries (descs q ! (j mod 512)) (ps ! j) (j mod 64 = 63)"
    "\<And>j. C \<le> j \<Longrightarrow> j < H \<Longrightarrow> j mod 64 = 63 \<Longrightarrow> bit (olinfo_status (descs q ! (j mod 512))) 0"
  using assms unfolding tx_inv_def by blast+

lemma mod_512_inj: "i mod 512 = j mod 512 \<Longrightarrow> i \<le> j \<Longrightarrow> j < i + 512 \<Longrightarrow> i = (j :: nat)"
  by (metis add_diff_cancel_left' le_add_diff_inverse mod_eq_dvd_iff_nat nat_dvd_not_less not_gr_zero add_less_cancel_left add.right_neutral)

lemma length_link_entries: "length (link_entries is prev txe) = length txe"
  by (induction "is" prev txe rule: link_entries.induct) (simp_all add: Let_def)

lemma tx_inv_start: "tx_inv [] 0 0 (configure_tx_queue [] [])"
  by (simp add: tx_inv_def tx_sizes_def configure_tx_queue_def Let_def length_link_entries NUM_TX_DESCRIPTORS_PER_QUEUE_def TX_RS_THRESH_def TX_FREE_THRESH_def)

lemma tx_inv_head:
  assumes "tx_inv ps C H q"
  shows "tx_head q = tx_tdt q \<longleftrightarrow> H = length ps"
  using tx_invD [OF assms] mod_512_inj [of H "length ps"] by auto

lemma tx_inv_hw:
  assumes inv: "tx_inv ps C H q" and hw: "tx_hw q q'"
  shows "tx_inv ps C (H + 1) q'"
  using hw
proof (cases rule: tx_hw.cases)
  case (take_desc d s)
  note i = tx_invD [OF inv]
  have H: "H < length ps" using take_desc(2) tx_inv_head [OF inv] i(4) by auto
  have c: "carries d (ps ! H) (H mod 64 = 63)" using i(13) [of H] H i(11) take_desc(3) by simp
  have other: "j mod 512 \<noteq> H mod 512" if "C \<le> j" "j < length ps" "j \<noteq> H" for j
    using that mod_512_inj [of j H] mod_512_inj [of H j] i(3,6) H by (cases "j \<le> H") auto
  have len: "length (descs q) = 512" using i(1) by (simp add: tx_sizes_def)
  have w: "wire q' = take (H + 1) ps"
    using take_desc(1) c H i(12) by (simp add: carries_def take_Suc_conv_app_nth)
  have d: "descs q' ! (j mod 512) = (if j = H then d\<lparr>olinfo_status := s\<rparr> else descs q ! (j mod 512))" if "C \<le> j" "j < length ps" for j
    using that take_desc(1) other [OF that] i(11) len by (auto simp: nth_list_update)
  have "carries (descs q' ! (j mod 512)) (ps ! j) (j mod 64 = 63)" if "H + 1 \<le> j" "j < length ps" for j
    using that d [of j] i(3) i(13) [of j] by simp
  moreover have "bit (olinfo_status (descs q' ! (j mod 512))) 0" if "C \<le> j" "j < H + 1" "j mod 64 = 63" for j
    using that d [of j] H i(14) [of j] c take_desc(4) by (auto simp: carries_def)
  ultimately show ?thesis
    using i(1-10) w H take_desc(1) i(11) unfolding tx_inv_def by (simp add: tx_sizes_def mod_Suc_eq)
qed

lemma free_entries_only:
  "\<forall>i\<in>set is. i < length (sw_ring q) \<Longrightarrow> \<exists>A f. free_entries is q = Inr (q\<lparr>sw_ring := A, freed := f\<rparr>) \<and> length A = length (sw_ring q)"
proof (induction "is" arbitrary: q)
  case Nil
  show ?case by (rule exI [of _ "sw_ring q"], rule exI [of _ "freed q"]) simp
next
  case (Cons i "is")
  define f where "f = (if mbuf_flag (tx_buf (sw_ring q ! i)) AND 1 = 1 then freed q @ [(virt_addr (tx_buf (sw_ring q ! i)), PACKET_ALLOCATOR)] else freed q)"
  define q1 where "q1 = q\<lparr>sw_ring := (sw_ring q)[i := zero_entry], freed := f\<rparr>"
  have "free_entries (i # is) q = free_entries is q1" using Cons.prems by (cases q) (simp add: q1_def f_def Let_def)
  then show ?case using Cons.IH [of q1] Cons.prems by (auto simp: q1_def)
qed

lemma next_dd_step:
  assumes "64 dvd C" "unat (d :: u16) = (C + 63) mod 512"
  shows "unat (if d + 64 \<ge> 512 then 64 - 1 else d + 64) = (C + 64 + 63) mod 512"
    "unat (ucast d - (64 - 1) :: u32) = C mod 512"
proof -
  obtain c where C: "C = 64 * c" using assms(1) by (rule dvdE)
  define r where "r = c mod 8"
  have r: "r < 8" by (simp add: r_def)
  have mods: "(64 * x) mod 512 = 64 * (x mod 8)" for x :: nat using mult_mod_right [of 64 x 8] by simp
  have "(C + 63) mod 512 = (64 * r + 63) mod 512" using mods [of c] by (metis C mod_add_left_eq r_def)
  then have d: "unat d = 64 * r + 63" using assms(2) r by simp
  have add: "unat (d + 64) = 64 * r + 127" using d r by (simp add: unat_plus_if_size size_word_def)
  have "(C + 64 + 63) mod 512 = (64 * (Suc r mod 8) + 63) mod 512"
    using mods [of "Suc c"] by (metis C add.commute mod_Suc_eq mod_add_left_eq mult_Suc_right r_def)
  moreover have "64 * (Suc r mod 8) + 63 < 512" using mod_less_divisor [of 8 "Suc r"] by linarith
  moreover have "Suc r mod 8 = (if r = 7 then 0 else Suc r)" using r by auto
  ultimately show "unat (if d + 64 \<ge> 512 then 64 - 1 else d + 64) = (C + 64 + 63) mod 512"
    using add r by (auto simp: word_le_nat_alt)
  have u: "unat (ucast d :: u32) = 64 * r + 63" using d r by (simp add: unsigned_ucast_eq take_bit_nat_eq_self)
  have "unat (ucast d - 63 :: u32) = 64 * r"
    using unat_sub [of "63 :: u32" "ucast d"] u by (simp add: word_le_nat_alt)
  then show "unat (ucast d - (64 - 1) :: u32) = C mod 512" using mods [of c] by (simp add: C r_def)
qed

lemma tx_inv_free:
  assumes inv: "tx_inv ps C H q" and low: "nb_tx_free q < 64"
  shows "\<exists>r q' C'. tx_free_bufs q = Inr (r, q') \<and> tx_inv ps C' H q' \<and> (H = length ps \<longrightarrow> 64 \<le> unat (nb_tx_free q'))"
proof -
  note i = tx_invD [OF inv]
  let ?pos = "(C + 63) mod 512"
  have full: "C + 64 \<le> length ps" using low i(5) by (simp add: word_less_nat_alt)
  have mod: "(C + 63) mod 64 = 63" using i(2) by auto
  have len: "?pos < length (descs q)" "nb_tx_desc q = 512" "tx_rs_thresh q = 64" "length (sw_ring q) = 512" using i(1) by (simp_all add: tx_sizes_def)
  show ?thesis
  proof (cases "bit (olinfo_status (descs q ! ?pos)) 0")
    case False
    then have "tx_free_bufs q = Inr (0, q)" using len i(9) by (simp add: tx_free_bufs_def Let_def status_dd)
    moreover have "H \<noteq> length ps" using False i(14) [of "C + 63"] full mod by auto
    ultimately show ?thesis using inv by blast
  next
    case True
    have CH: "C + 64 \<le> H" using True i(13) [of "C + 63"] full by (cases "C + 63 < H") (auto simp: carries_def)
    obtain A f where fr: "free_entries [C mod 512..<64] q = Inr (q\<lparr>sw_ring := A, freed := f\<rparr>)" "length A = 512"
      using free_entries_only [of "[C mod 512..<64]" q] len(4) by auto
    define q' where "q' = q\<lparr>sw_ring := A, freed := f, nb_tx_free := nb_tx_free q + 64,
      tx_next_dd := if tx_next_dd q + 64 \<ge> 512 then 64 - 1 else tx_next_dd q + 64\<rparr>"
    have "tx_free_bufs q = Inr (64, q')"
      using True len i(9) fr(1) next_dd_step(2) [OF i(2,9)] by (simp add: tx_free_bufs_def Let_def status_dd q'_def)
    moreover have nb: "unat (nb_tx_free q') = unat (nb_tx_free q) + 64"
      using low by (simp add: q'_def unat_plus_if_size size_word_def word_less_nat_alt)
    moreover have dd: "unat (tx_next_dd q') = (C + 64 + 63) mod 512" using next_dd_step(1) [OF i(2,9)] by (simp add: q'_def)
    moreover have "tx_inv ps (C + 64) H q'"
      unfolding tx_inv_def using i CH nb dd fr(2) full by (simp add: q'_def tx_sizes_def)
    ultimately show ?thesis by auto
  qed
qed

lemma tx_inv_send:
  assumes inv: "tx_inv ps C H q" and n: "unat nb = n" "n \<le> length bs" "n \<le> 64" "n \<le> unat (nb_tx_free q)"
  shows "\<exists>q'. send_pkts bs nb q = Inr q' \<and> tx_inv (ps @ map packet_of (take n bs)) C H q'"
proof -
  note i = tx_invD [OF inv]
  let ?P = "length ps" and ?ps = "ps @ map packet_of (take n bs)"
  obtain q' where run: "send_pkts bs nb q = Inr q'" and "sends_at bs (?P mod 512) n q q'"
    using send_pkts_at [OF i(1,7,10) _ n(1-3)] by auto
  then have s: "tx_sizes q'" "nb_tx_free q' = nb_tx_free q - of_nat n" "tx_next_dd q' = tx_next_dd q" "tx_head q' = tx_head q" "wire q' = wire q"
    "unat (tx_tail q') = (?P + n) mod 512" "tx_tdt q' = (?P + n) mod 512" "unat (tx_next_rs q') = 64 * ((?P + n) mod 512 div 64) + 63"
    and new: "\<And>k. k < n \<Longrightarrow> descs q' ! ((?P + k) mod 512) = mark_rs ((?P mod 512 + k) mod 64 = 63) (fill_desc (bs ! k) (descs q ! ((?P + k) mod 512)))"
    and old: "\<And>k. k < 512 \<Longrightarrow> (\<And>m. m < n \<Longrightarrow> (?P + m) mod 512 \<noteq> k) \<Longrightarrow> descs q' ! k = descs q ! k"
    unfolding sends_at_def mod_add_left_eq by blast+
  have len: "length ?ps = ?P + n" using n(2) by simp
  have kept: "descs q' ! (j mod 512) = descs q ! (j mod 512)" if "C \<le> j" "j < ?P" for j
  proof (rule old)
    show "(?P + m) mod 512 \<noteq> j mod 512" if "m < n" for m
      using mod_512_inj [of j "?P + m"] that \<open>C \<le> j\<close> \<open>j < ?P\<close> i(5) n(4) by auto
  qed simp
  have nb: "unat (nb_tx_free q') + length ?ps = 511 + C"
  proof -
    have "of_nat n = nb" using n(1) by auto
    then have "unat (nb_tx_free q') = unat (nb_tx_free q) - n"
      using s(2) n(1,4) unat_sub [of nb "nb_tx_free q"] by (simp add: word_le_nat_alt)
    then show ?thesis using i(5) n(4) len by simp
  qed
  have put: "carries (descs q' ! ((?P + k) mod 512)) (?ps ! (?P + k)) ((?P + k) mod 64 = 63)" if "k < n" for k
  proof -
    have "?P mod 512 mod 64 = ?P mod 64" by (rule mod_mod_cancel) simp
    then have "(?P mod 512 + k) mod 64 = (?P + k) mod 64" by (metis mod_add_left_eq)
    moreover have "?ps ! (?P + k) = packet_of (bs ! k)" using that n(2) by (simp add: nth_append)
    ultimately show ?thesis using new [OF that] fill_desc_carries by simp
  qed
  have "carries (descs q' ! (j mod 512)) (?ps ! j) (j mod 64 = 63)" if "H \<le> j" "j < ?P + n" for j
    using that kept [of j] put [of "j - ?P"] i(3) i(13) [of j] by (cases "j < ?P") (simp_all add: nth_append)
  moreover have "bit (olinfo_status (descs q' ! (j mod 512))) 0" if "C \<le> j" "j < H" "j mod 64 = 63" for j
    using that kept [of j] i(4) i(14) [of j] by simp
  ultimately have "tx_inv ?ps C H q'"
    unfolding tx_inv_def using i(2,3,4,9,11,12) s nb n(2) by simp
  then show ?thesis using run by blast
qed

lemma tx_inv_x540_send:
  assumes inv: "tx_inv ps C H q" and bs: "length bs \<le> 64"
  shows "\<exists>n q' C'. x540_send bs q = Inr (n, q') \<and> unat n \<le> length bs \<and> tx_inv (ps @ map packet_of (take (unat n) bs)) C' H q' \<and>
    (H = length ps \<longrightarrow> unat n = length bs)"
proof -
  have th: "tx_free_thresh q = 64" using tx_invD(1) [OF inv] by (simp add: tx_sizes_def)
  obtain r q1 C1 where free: "(if nb_tx_free q < tx_free_thresh q then tx_free_bufs q else Inr (0, q)) = Inr (r, q1)"
    and inv1: "tx_inv ps C1 H q1" and room: "H = length ps \<longrightarrow> 64 \<le> unat (nb_tx_free q1)"
    using tx_inv_free [OF inv] inv th by (cases "nb_tx_free q < 64") (auto simp: word_less_nat_alt)
  define k where "k = (if unat (nb_tx_free q1) < length bs then unat (nb_tx_free q1) else length bs)"
  have k: "unat (of_nat k :: u16) = k" "k \<le> length bs" "k \<le> 64" "k \<le> unat (nb_tx_free q1)"
    using bs by (auto simp: k_def intro!: u16_small)
  obtain q2 where s: "send_pkts bs (of_nat k) q1 = Inr q2" "tx_inv (ps @ map packet_of (take k bs)) C1 H q2"
    using tx_inv_send [OF inv1 k] by blast
  have full: "H = length ps \<longrightarrow> k = length bs" using room bs by (auto simp: k_def)
  have run: "x540_send bs q = (if (of_nat k :: u16) = 0 then Inr (0, q1) else seq (send_pkts bs (of_nat k) q1) (\<lambda>q2. Inr (of_nat k, q2)))"
    unfolding x540_send_def free by (simp add: k_def Let_def)
  show ?thesis
  proof (cases "(of_nat k :: u16) = 0")
    case True
    then have "k = 0" using k(1) by simp
    then show ?thesis using run True inv1 full by (intro exI [of _ 0] exI [of _ q1] exI [of _ C1]) simp
  next
    case False
    then show ?thesis using run s k full by (intro exI [of _ "of_nat k :: u16"] exI [of _ q2] exI [of _ C1]) auto
  qed
qed

lemma tx_reached_inv: "tx_reached ps q \<Longrightarrow> \<exists>C H. tx_inv ps C H q"
proof (induction rule: tx_reached.induct)
  case reached_start
  show ?case using tx_inv_start by blast
next
  case (reached_send ps q bs n q')
  then show ?case using tx_inv_x540_send [of ps _ _ q bs] by (fastforce simp: IXGBE_TX_MAX_BURST_def)
next
  case (reached_hw ps q q')
  then show ?case using tx_inv_hw by blast
qed

text \<open>
  C9. The order of transmission. Whatever bursts of at most 64 packets were passed to \<^verbatim>\<open>send\<close> and however far the card has come,
  the card has put a prefix of the accepted packets on the wire, each once and in order, all of them when its head
  has reached the tail; and the next burst of at most 64 packets is handled without an access outside the ring and
  without overwriting a packet that is not yet sent, and is accepted as a whole when the card has caught up.
\<close>

theorem x540_tx_order:
  assumes "tx_reached ps q"
  shows "\<exists>k\<le>length ps. wire q = take k ps \<and> (tx_head q = tx_tdt q \<longleftrightarrow> k = length ps) \<and>
    (\<forall>bs. length bs \<le> IXGBE_TX_MAX_BURST \<longrightarrow> (\<exists>n q'. x540_send bs q = Inr (n, q') \<and> unat n \<le> length bs \<and> (k = length ps \<longrightarrow> unat n = length bs)))"
proof -
  obtain C H where inv: "tx_inv ps C H q" using tx_reached_inv [OF assms] by blast
  show ?thesis
    using tx_invD(4,12) [OF inv] tx_inv_head [OF inv] tx_inv_x540_send [OF inv]
    by (intro exI [of _ H]) (fastforce simp: IXGBE_TX_MAX_BURST_def)
qed

lemma tx_hw_progress: "tx_head q \<noteq> tx_tdt q \<Longrightarrow> \<exists>q'. tx_hw q q'"
proof -
  assume run: "tx_head q \<noteq> tx_tdt q"
  have "bit (1 :: u32) 0" by simp
  then have "if bit (cmd_type_len (descs q ! tx_head q)) 27 then bit s 0 else s = olinfo_status (descs q ! tx_head q)"
    if "s = (if bit (cmd_type_len (descs q ! tx_head q)) 27 then 1 else olinfo_status (descs q ! tx_head q))" for s :: u32
    using that by simp
  then show ?thesis using take_desc [OF run refl] by blast
qed

lemma x540_tx_order_witness:
  "\<exists>q. tx_reached [packet_of zero_mbuf] q \<and> wire q = [(0, 0)] \<and> (\<exists>n q'. x540_send [zero_mbuf, zero_mbuf] q = Inr (n, q') \<and> unat n = 2)"
proof -
  let ?p = "packet_of zero_mbuf"
  obtain n q1 C where send: "x540_send [zero_mbuf] (configure_tx_queue [] []) = Inr (n, q1)" "unat n = 1" and inv: "tx_inv [?p] C 0 q1"
    using tx_inv_x540_send [OF tx_inv_start, of "[zero_mbuf]"] by auto
  then have r: "tx_reached [?p] q1"
    using reached_send [OF reached_start _ send(1)] by (simp add: IXGBE_TX_MAX_BURST_def)
  obtain q where hw: "tx_hw q1 q" using tx_hw_progress [of q1] tx_inv_head [OF inv] by auto
  have "tx_inv [?p] C 1 q" using tx_inv_hw [OF inv hw] by simp
  then have "tx_head q = tx_tdt q" "wire q = [(0, 0)]"
    using tx_inv_head tx_invD(12) by (fastforce simp: packet_of_def zero_mbuf_def)+
  moreover have reached: "tx_reached [?p] q" using r hw by (rule reached_hw)
  moreover have "length [zero_mbuf, zero_mbuf] \<le> IXGBE_TX_MAX_BURST" by (simp add: IXGBE_TX_MAX_BURST_def)
  moreover have "\<exists>n q'. x540_send [zero_mbuf, zero_mbuf] q = Inr (n, q') \<and> unat n = length [zero_mbuf, zero_mbuf]"
    using x540_tx_order [OF reached] calculation(1,4) by blast
  ultimately show ?thesis by (intro exI [of _ q]) (simp add: numeral_2_eq_2)
qed

section \<open>Buffers that are never freed\<close>

text \<open>
  Recycling without freeing. The loop of \<^verbatim>\<open>tx_free_bufs\<close> stops at the index \<^verbatim>\<open>tx_rs_thresh\<close>, so it runs only for the first 64
  entries of the ring: for each later group of 64 descriptors that the card has reported as done, the descriptors
  become available again but no packet buffer is freed and no entry is cleared.
\<close>

lemma x540_tx_leak:
  assumes "tx_sizes q" "127 \<le> tx_next_dd q" "tx_next_dd q < 512"
    and "bit (olinfo_status (descs q ! unat (tx_next_dd q))) 0"
  shows "\<exists>dd. tx_free_bufs q = Inr (64, q\<lparr>nb_tx_free := nb_tx_free q + 64, tx_next_dd := dd\<rparr>)"
proof -
  have "unat (ucast (tx_next_dd q) :: u32) = unat (tx_next_dd q)"
    using unat_bound [of "tx_next_dd q"] by (simp add: unsigned_ucast_eq take_bit_nat_eq_self)
  then have "\<not> unat (ucast (tx_next_dd q) - 63 :: u32) < 64"
    using assms(2) unat_sub [of "63 :: u32" "ucast (tx_next_dd q)"] by (simp add: word_le_nat_alt)
  then show ?thesis
    using assms by (auto simp: tx_free_bufs_def tx_sizes_def Let_def status_dd word_less_nat_alt)
qed

definition example_queue :: tx_queue where
  "example_queue = (configure_tx_queue [] [])\<lparr>tx_next_dd := 127, nb_tx_free := 40,
     descs := replicate 512 \<lparr>desc_address = 0, cmd_type_len = 0, olinfo_status = 1\<rparr>\<rparr>"

lemma x540_tx_leak_example:
  "\<exists>dd. tx_free_bufs example_queue = Inr (64, example_queue\<lparr>nb_tx_free := 104, tx_next_dd := dd\<rparr>)"
proof -
  have "tx_sizes example_queue"
    using tx_invD(1) [OF tx_inv_start] by (simp add: tx_sizes_def example_queue_def)
  then show ?thesis using x540_tx_leak [of example_queue] by (simp add: example_queue_def)
qed

end
