(* ===== verification/XDK_X540_Receive.thy ===== *)
theory XDK_X540_Receive
  imports XDK_X540_Send
begin

text \<open>
  Receiving packets with the driver for the Intel X540 network card, \<^verbatim>\<open>drivers/x540-nic/x540/x540_device.cc\<close>: the ring of
  receive descriptors of one queue, its set-up with packet buffers, and the interrupt handler, which looks at eight
  descriptors at a time and passes the packets to the network stack. The card is a relation, and it may take steps
  before every access of the handler to a descriptor.
\<close>

section \<open>Structures\<close>

text \<open>
  A receive descriptor is a union of 16 bytes. The driver writes two addresses; the card writes back over the second
  one the status and errors (32 bits), the length and the VLAN tag (16 bits each).
\<close>

record rx_adv_desc =
  pkt_addr :: u64
  hdr_addr :: u64

definition status_error :: "rx_adv_desc \<Rightarrow> u32" where
  "status_error d = ucast (hdr_addr d)"

definition wb_length :: "rx_adv_desc \<Rightarrow> u16" where
  "wb_length d = ucast (drop_bit 32 (hdr_addr d))"

datatype pkt_status_t = REUSE_THIS_PACKET | KEEP_THIS_PACKET | PACKET_ERROR_ARP_INPUT | PACKET_ERROR_WRONG_ARP_TYPE
  | PACKET_ERROR_BAD_IP_FRAG_OVERLAP1 | PACKET_ERROR_BAD_IP_FRAG_DUPLICATE | PACKET_ERROR_BAD_IP_FRAG_OVERLAP2
  | PACKET_ERROR_BAD_IP | PACKET_ERROR_UNKNOWN_IP_TYPE | PACKET_ERROR_BAD_ETH | PACKET_ERROR_UNKNOWN_ETH_TYPE
  | PACKET_SUCCESS_PROCESSING_APP_PAYLOAD | PACKET_ERROR_PROCESSING_APP_PAYLOAD

definition NUM_RX_DESCRIPTORS_PER_QUEUE :: nat where
  "NUM_RX_DESCRIPTORS_PER_QUEUE = 512"

definition NUM_RX_THREADS_PER_NIC :: nat where
  "NUM_RX_THREADS_PER_NIC = 4"

definition LOOK_AHEAD :: nat where
  "LOOK_AHEAD = 8"

definition IXGBE_RX_MAX_BURST :: nat where
  "IXGBE_RX_MAX_BURST = 64"

definition IXGBE_RXDADV_STAT_DD :: u32 where
  "IXGBE_RXDADV_STAT_DD = 0x01"

text \<open>
  The members of \<^verbatim>\<open>exo_rx_ring\<close> that the handler uses, the descriptors, and around them the card with its head and tail, memory
  by physical addresses, the frames the card has stored and the rest of its state; the packets passed to the network stack
  (pointer and bytes), the counters of interrupts, and what was last written to the interrupt mask register.
\<close>

record 'd rx_queue =
  rx_buf :: "exo_mbuf list"
  rx_tail :: u16
  rx_descs :: "rx_adv_desc list"
  rdh :: nat
  rdt :: nat
  rx_ram :: "nat \<Rightarrow> u8"
  heard :: "u8 list list"
  inner :: 'd
  passed :: "(u64 \<times> u8 list) list"
  int_counter :: u64
  int_total_counter :: u64
  eims :: u32

text \<open>
  The steps of the card between accesses, the network stack's answer after the packets passed so far, and the memory
  component's answer to a request for a packet buffer: status, virtual and physical address.
\<close>

record 'd rx_env =
  rx_dma :: "'d rx_queue \<Rightarrow> 'd rx_queue"
  stack_answer :: "(u64 \<times> u8 list) list \<Rightarrow> pkt_status_t"
  new_buffer :: "'d rx_queue \<Rightarrow> status \<times> u64 \<times> u64"

type_synonym ('d, 'a) rx_action = "('d rx_queue, 'a) action"

section \<open>Accesses\<close>

definition read_desc :: "'d rx_env \<Rightarrow> nat \<Rightarrow> ('d, rx_adv_desc) rx_action" where
  "read_desc E i =
     andthen (modify (rx_dma E)) (\<lambda>_.
     andthen (gets rx_descs) (\<lambda>ds. andthen (require (i < length ds) Out_of_range) (\<lambda>_. return (ds ! i))))"

definition set_rx_buf :: "nat \<Rightarrow> u64 \<Rightarrow> u64 \<Rightarrow> ('d, unit) rx_action" where
  "set_rx_buf i v p =
     andthen (gets rx_buf) (\<lambda>bs. andthen (require (i < length bs) Out_of_range) (\<lambda>_.
       modify (\<lambda>q. q\<lparr>rx_buf := bs[i := (bs ! i)\<lparr>phys_addr := p, virt_addr := v\<rparr>]\<rparr>)))"

definition give_buffer :: "nat \<Rightarrow> ('d, unit) rx_action" where
  "give_buffer i =
     andthen (gets (\<lambda>q. (rx_buf q, rx_descs q))) (\<lambda>(bs, ds). andthen (require (i < length bs \<and> i < length ds) Out_of_range) (\<lambda>_.
       modify (\<lambda>q. q\<lparr>rx_descs := ds[i := \<lparr>pkt_addr = phys_addr (bs ! i), hdr_addr = phys_addr (bs ! i)\<rparr>]\<rparr>)))"

definition reset_rx_desc :: "'d rx_env \<Rightarrow> nat \<Rightarrow> bool \<Rightarrow> ('d, unit) rx_action" where
  "reset_rx_desc E i new_pkt =
     andthen (if new_pkt
       then andthen (gets (new_buffer E)) (\<lambda>(st, pkt_v, pkt_p).
         andthen (require (st = S_OK) Panic) (\<lambda>_. andthen (require (pkt_v \<noteq> 0) Assertion) (\<lambda>_.
         andthen (require (pkt_p \<noteq> 0) Assertion) (\<lambda>_. set_rx_buf i pkt_v pkt_p))))
       else return ()) (\<lambda>_. give_buffer i)"

section \<open>Set-up\<close>

text \<open>The buffers of a queue; the check of the physical address that \<^verbatim>\<open>reset_rx_desc\<close> has is not made here.\<close>

fun fill_rx_ring :: "'d rx_env \<Rightarrow> nat list \<Rightarrow> ('d, unit) rx_action" where
  "fill_rx_ring E [] = return ()"
| "fill_rx_ring E (j # js) =
     andthen (gets (new_buffer E)) (\<lambda>(st, pkt_v, pkt_p).
     andthen (require (st = S_OK) Panic) (\<lambda>_. andthen (require (pkt_v \<noteq> 0) Assertion) (\<lambda>_.
     andthen (set_rx_buf j pkt_v pkt_p) (\<lambda>_. andthen (give_buffer j) (\<lambda>_. fill_rx_ring E js)))))"

definition configure_rx_queue :: "'d rx_env \<Rightarrow> ('d, unit) rx_action" where
  "configure_rx_queue E =
     andthen (modify (\<lambda>q. q\<lparr>rx_buf := replicate NUM_RX_DESCRIPTORS_PER_QUEUE zero_mbuf, rx_tail := 0,
       rx_descs := replicate NUM_RX_DESCRIPTORS_PER_QUEUE \<lparr>pkt_addr = 0, hdr_addr = 0\<rparr>\<rparr>)) (\<lambda>_.
     andthen (fill_rx_ring E [0..<NUM_RX_DESCRIPTORS_PER_QUEUE]) (\<lambda>_.
       modify (\<lambda>q. q\<lparr>rdh := 0, rdt := 0\<rparr>)))"

definition activate_rx_queue :: "('d, unit) rx_action" where
  "activate_rx_queue = modify (\<lambda>q. q\<lparr>rdt := NUM_RX_DESCRIPTORS_PER_QUEUE - 1\<rparr>)"

section \<open>The interrupt handler\<close>

text \<open>The call of \<^verbatim>\<open>receive_packet\<close>, whose answer the network stack gives, and the one that the driver comes with.\<close>

definition pass_packet :: "'d rx_env \<Rightarrow> nat \<Rightarrow> u16 \<Rightarrow> ('d, pkt_status_t) rx_action" where
  "pass_packet E i pktlen =
     andthen (gets rx_buf) (\<lambda>bs. andthen (require (i < length bs) Out_of_range) (\<lambda>_.
     andthen (modify (\<lambda>q. q\<lparr>passed := passed q @
       [(virt_addr (bs ! i), map (\<lambda>k. rx_ram q (unat (phys_addr (bs ! i)) + k)) [0..<unat pktlen])]\<rparr>)) (\<lambda>_.
       gets (\<lambda>q. stack_answer E (passed q)))))"

definition receive_packet :: "(u64 \<times> u8 list) list \<Rightarrow> pkt_status_t" where
  "receive_packet ps = REUSE_THIS_PACKET"

fun receive_packets :: "'d rx_env \<Rightarrow> nat \<Rightarrow> nat list \<Rightarrow> ('d, unit) rx_action" where
  "receive_packets E rxdp [] = return ()"
| "receive_packets E rxdp (j # js) =
     (let i = (rxdp + j) mod NUM_RX_DESCRIPTORS_PER_QUEUE in
      andthen (read_desc E i) (\<lambda>d. andthen (pass_packet E i (wb_length d)) (\<lambda>t.
      andthen (reset_rx_desc E i (t = KEEP_THIS_PACKET)) (\<lambda>_. receive_packets E rxdp js))))"

text \<open>The statuses, in the order in which they are read.\<close>

fun read_statuses :: "'d rx_env \<Rightarrow> nat \<Rightarrow> nat list \<Rightarrow> ('d, u32 list) rx_action" where
  "read_statuses E rxdp [] = return []"
| "read_statuses E rxdp (j # js) =
     andthen (read_desc E ((rxdp + j) mod NUM_RX_DESCRIPTORS_PER_QUEUE)) (\<lambda>d.
     andthen (read_statuses E rxdp js) (\<lambda>ss. return ((status_error d AND IXGBE_RXDADV_STAT_DD) # ss)))"

fun receive_burst :: "'d rx_env \<Rightarrow> nat list \<Rightarrow> nat \<Rightarrow> nat \<Rightarrow> ('d, nat) rx_action" where
  "receive_burst E [] rxdp nb_rx = return nb_rx"
| "receive_burst E (i # is) rxdp nb_rx =
     (let r = (if i \<noteq> 0 then (rxdp + LOOK_AHEAD) mod NUM_RX_DESCRIPTORS_PER_QUEUE else rxdp) in
      andthen (read_statuses E r (rev [0..<LOOK_AHEAD])) (\<lambda>ss.
      let nb_dd = sum_list (map unat ss) in
      andthen (receive_packets E r [0..<nb_dd]) (\<lambda>_.
        if nb_dd \<noteq> LOOK_AHEAD then return (nb_rx + nb_dd) else receive_burst E is r (nb_rx + nb_dd))))"

definition finish_burst :: "nat \<Rightarrow> ('d, unit) rx_action" where
  "finish_burst nb_rx = modify (\<lambda>q.
     let tmp = ucast (rx_tail q) + of_nat nb_rx :: u32 in
     q\<lparr>rdt := unat ((tmp - 1) mod of_nat NUM_RX_DESCRIPTORS_PER_QUEUE), rx_tail := ucast (tmp mod of_nat NUM_RX_DESCRIPTORS_PER_QUEUE)\<rparr>)"

partial_function (option) rx_loop :: "'d rx_env \<Rightarrow> 'd rx_queue \<Rightarrow> (unit \<times> 'd rx_queue) outcome option" where
  "rx_loop E q = (case read_desc E (unat (rx_tail q)) q of None \<Rightarrow> None | Some (Inl e) \<Rightarrow> Some (Inl e)
     | Some (Inr (d, q1)) \<Rightarrow>
         if status_error d AND IXGBE_RXDADV_STAT_DD = 0 then Some (Inr ((), q1))
         else (case andthen (receive_burst E (map (\<lambda>k. k * LOOK_AHEAD) [0..<IXGBE_RX_MAX_BURST div LOOK_AHEAD]) (unat (rx_tail q1)) 0) finish_burst q1 of
             None \<Rightarrow> None | Some (Inl e) \<Rightarrow> Some (Inl e)
           | Some (Inr (_, q2)) \<Rightarrow> rx_loop E q2))"

definition interrupt_handler :: "'d rx_env \<Rightarrow> nat \<Rightarrow> ('d, unit) rx_action" where
  "interrupt_handler E tid =
     andthen (require (tid < NUM_RX_THREADS_PER_NIC) Assertion) (\<lambda>_.
     andthen (modify (\<lambda>q. q\<lparr>int_counter := int_counter q + 1, int_total_counter := int_total_counter q + 1\<rparr>)) (\<lambda>_.
     andthen (rx_loop E) (\<lambda>_. modify (\<lambda>q. q\<lparr>eims := push_bit tid 1\<rparr>))))"

text \<open>The thread of a queue: it activates the queue and then handles interrupts, \<open>n\<close> of them.\<close>

fun handle_interrupts :: "'d rx_env \<Rightarrow> nat \<Rightarrow> nat \<Rightarrow> ('d, unit) rx_action" where
  "handle_interrupts E tid 0 = return ()"
| "handle_interrupts E tid (Suc n) =
     andthen (modify (rx_dma E)) (\<lambda>_. andthen (interrupt_handler E tid) (\<lambda>_. handle_interrupts E tid n))"

definition irq_thread :: "'d rx_env \<Rightarrow> nat \<Rightarrow> nat \<Rightarrow> ('d, unit) rx_action" where
  "irq_thread E tid n = andthen activate_rx_queue (\<lambda>_. handle_interrupts E tid n)"

section \<open>The card\<close>

text \<open>The second word of a descriptor that the card writes back.\<close>

definition write_back :: "u32 \<Rightarrow> u16 \<Rightarrow> u16 \<Rightarrow> u64" where
  "write_back st len vlan = ucast st OR push_bit 32 (ucast len) OR push_bit 48 (ucast vlan)"

text \<open>
  The card stores a frame that fits a buffer in the one that the descriptor at its head names, unless the head has
  reached the tail, and reports it as done. The rest of its state may change at any time.
\<close>

inductive rx_step :: "'d rx_queue \<Rightarrow> 'd rx_queue \<Rightarrow> bool" where
  rx_inner: "rx_step q (q\<lparr>inner := x\<rparr>)"
| rx_store: "rdh q \<noteq> rdt q \<Longrightarrow> d = rx_descs q ! rdh q \<Longrightarrow> length f \<le> 2048 \<Longrightarrow> bit st 0 \<Longrightarrow>
    rx_step q (q\<lparr>rx_descs := (rx_descs q)[rdh q := \<lparr>pkt_addr = w, hdr_addr = write_back st (of_nat (length f)) vlan\<rparr>],
      rx_ram := store_frame (unat (pkt_addr d)) f (rx_ram q), rdh := (rdh q + 1) mod 512, heard := heard q @ [f]\<rparr>)"

definition card_steps :: "'d rx_env \<Rightarrow> bool" where
  "card_steps E \<longleftrightarrow> (\<forall>q. rx_step\<^sup>*\<^sup>* q (rx_dma E q))"

text \<open>A finite number of frames is left on the wire.\<close>

definition wire_ends :: "('d \<Rightarrow> nat) \<Rightarrow> 'd rx_env \<Rightarrow> bool" where
  "wire_ends left E \<longleftrightarrow> (\<forall>q. left (inner (rx_dma E q)) + length (heard (rx_dma E q)) \<le> left (inner q) + length (heard q))"

text \<open>Buffers of 2048 bytes that do not overlap.\<close>

definition apart :: "u64 \<Rightarrow> u64 \<Rightarrow> bool" where
  "apart p p' \<longleftrightarrow> unat p + 2048 \<le> unat p' \<or> unat p' + 2048 \<le> unat p"

text \<open>The memory component has a buffer for every request, at an even address and apart from those in the ring.\<close>

definition supplies :: "'d rx_env \<Rightarrow> bool" where
  "supplies E \<longleftrightarrow> (\<forall>q. length (rx_buf q) = 512 \<longrightarrow> (case new_buffer E q of (st, v, p) \<Rightarrow>
     st = S_OK \<and> v \<noteq> 0 \<and> p \<noteq> 0 \<and> \<not> bit p 0 \<and> list_all (\<lambda>b. apart p (phys_addr b)) (rx_buf q)))"

section \<open>The ring between card and driver\<close>

abbreviation buf_addr :: "'d rx_queue \<Rightarrow> nat \<Rightarrow> u64" where
  "buf_addr q i \<equiv> phys_addr (rx_buf q ! i)"

definition slot_free :: "'d rx_queue \<Rightarrow> nat \<Rightarrow> bool" where
  "slot_free q i \<longleftrightarrow> rx_descs q ! i = \<lparr>pkt_addr = buf_addr q i, hdr_addr = buf_addr q i\<rparr>"

definition slot_holds :: "'d rx_queue \<Rightarrow> nat \<Rightarrow> u8 list \<Rightarrow> bool" where
  "slot_holds q i f \<longleftrightarrow> bit (status_error (rx_descs q ! i)) 0 \<and> unat (wb_length (rx_descs q ! i)) = length f \<and> length f \<le> 2048 \<and>
     (\<forall>k<length f. rx_ram q (unat (buf_addr q i) + k) = f ! k)"

definition bufs_ok :: "'d rx_queue \<Rightarrow> bool" where
  "bufs_ok q \<longleftrightarrow> length (rx_descs q) = 512 \<and> length (rx_buf q) = 512 \<and> (\<forall>i<512. \<not> bit (buf_addr q i) 0) \<and>
     (\<forall>i<512. \<forall>j<512. i \<noteq> j \<longrightarrow> apart (buf_addr q i) (buf_addr q j))"

text \<open>
  In a burst that started at \<open>T\<close>, the first \<open>k\<close> packets have been passed on and their descriptors are ready again, the
  frames \<open>fs\<close> wait behind them, and all other descriptors are free.
\<close>

definition rx_ring :: "nat \<Rightarrow> nat \<Rightarrow> u8 list list \<Rightarrow> 'd rx_queue \<Rightarrow> bool" where
  "rx_ring T k fs q \<longleftrightarrow> bufs_ok q \<and> T < 512 \<and> unat (rx_tail q) = T \<and> k + length fs < 512 \<and>
     rdh q = (T + k + length fs) mod 512 \<and> rdt q = (T + 511) mod 512 \<and>
     (\<forall>i<length fs. slot_holds q ((T + k + i) mod 512) (fs ! i)) \<and>
     (\<forall>i<512. i < k \<or> k + length fs \<le> i \<longrightarrow> slot_free q ((T + i) mod 512))"

lemma rx_ringD:
  assumes "rx_ring T k fs q"
  shows "bufs_ok q" "T < 512" "unat (rx_tail q) = T" "k + length fs < 512" "rdh q = (T + k + length fs) mod 512" "rdt q = (T + 511) mod 512"
    "\<And>i. i < length fs \<Longrightarrow> slot_holds q ((T + k + i) mod 512) (fs ! i)"
    "\<And>i. i < 512 \<Longrightarrow> i < k \<or> k + length fs \<le> i \<Longrightarrow> slot_free q ((T + i) mod 512)"
  using assms unfolding rx_ring_def by blast+

lemma write_back_fields:
  "status_error \<lparr>pkt_addr = w, hdr_addr = write_back st len vlan\<rparr> = st"
  "wb_length \<lparr>pkt_addr = w, hdr_addr = write_back st len vlan\<rparr> = len"
  unfolding status_error_def wb_length_def write_back_def by (rule bit_word_eqI; auto simp: bit_simps dest: bit_imp_le_length)+

lemma status_bit: "(s :: u32) AND IXGBE_RXDADV_STAT_DD = of_bool (bit s 0)"
  by (simp add: IXGBE_RXDADV_STAT_DD_def and_one_eq bit_0 mod2_eq_if)

lemma free_status: "slot_free q i \<Longrightarrow> \<not> bit (buf_addr q i) 0 \<Longrightarrow> \<not> bit (status_error (rx_descs q ! i)) 0"
  by (simp add: slot_free_def status_error_def bit_simps)

lemma slot_holds_other:
  assumes "slot_holds q i f" "apart (buf_addr q i) (buf_addr q j)" "length g \<le> 2048" "i \<noteq> j"
  shows "slot_holds (q\<lparr>rx_descs := (rx_descs q)[j := d], rx_ram := store_frame (unat (buf_addr q j)) g (rx_ram q), rdh := h, heard := x\<rparr>) i f"
  using assms by (auto simp: slot_holds_def store_frame_def apart_def)

lemma ring_slot_other:
  assumes "i < 512" "j < 512" "i \<noteq> j"
  shows "(T + i) mod 512 \<noteq> (T + j) mod (512 :: nat)"
  using ring_slots_differ [of i 512 j T] assms by blast

lemma rx_ring_store:
  assumes rx: "rx_ring T k fs q" and more: "rdh q \<noteq> rdt q" and f: "length f \<le> 2048" "bit st 0"
  shows "rx_ring T k (fs @ [f]) (q\<lparr>rx_descs := (rx_descs q)[rdh q := \<lparr>pkt_addr = w, hdr_addr = write_back st (of_nat (length f)) vlan\<rparr>],
      rx_ram := store_frame (unat (pkt_addr (rx_descs q ! rdh q))) f (rx_ram q), rdh := (rdh q + 1) mod 512, heard := heard q @ [f]\<rparr>)"
    (is "rx_ring _ _ _ ?q")
proof -
  note r = rx_ringD [OF rx]
  let ?n = "k + length fs"
  define j where "j = (T + ?n) mod 512"
  have j: "rdh q = j" "j < 512" using r(5) by (simp_all add: j_def add.assoc)
  have room: "?n < 511"
  proof (rule ccontr)
    assume "\<not> ?n < 511"
    then have "?n = 511" using r(4) by simp
    then show False using more j(1) r(6) by (simp add: j_def)
  qed
  have b: "length (rx_descs q) = 512" "\<And>i. i < 512 \<Longrightarrow> i \<noteq> j \<Longrightarrow> apart (buf_addr q i) (buf_addr q j)"
    using r(1) j(2) by (auto simp: bufs_ok_def)
  have addr: "pkt_addr (rx_descs q ! j) = buf_addr q j"
    using r(8) [of ?n] room by (simp add: slot_free_def j_def)
  have other: "(T + i) mod 512 \<noteq> j" if "i < 512" "i \<noteq> ?n" for i
    using ring_slot_other [of i ?n T] that room by (simp add: j_def)
  have old: "slot_holds ?q ((T + k + i) mod 512) (fs ! i)" if "i < length fs" for i
    unfolding j(1) addr
    using that other [of "k + i"] room b(2) r(7) [OF that] f(1) by (intro slot_holds_other) (simp_all add: add.assoc)
  have "unat (of_nat (length f) :: u16) = length f" using f(1) by (intro u16_small) simp
  then have new: "slot_holds ?q j f"
    using f b(1) j(2) by (simp add: slot_holds_def j(1) addr write_back_fields store_frame_def)
  have "slot_holds ?q ((T + k + i) mod 512) ((fs @ [f]) ! i)" if "i < length (fs @ [f])" for i
    using that old [of i] new by (cases "i < length fs") (auto simp: nth_append j_def add.assoc less_Suc_eq)
  moreover have "slot_free ?q ((T + i) mod 512)" if "i < 512" "i < k \<or> k + length (fs @ [f]) \<le> i" for i
    using that r(8) [of i] other [of i] by (auto simp: slot_free_def j(1))
  moreover have "(j + 1) mod 512 = (T + k + length (fs @ [f])) mod 512" by (simp add: j_def mod_Suc_eq add.assoc)
  ultimately show ?thesis
    using r(1-4,6) room unfolding rx_ring_def by (simp add: bufs_ok_def j(1))
qed

lemma rx_ring_step:
  assumes "rx_step q q'" "rx_ring T k fs q"
  shows "\<exists>gs. rx_ring T k (fs @ gs) q' \<and> heard q' = heard q @ gs \<and> passed q' = passed q"
  using assms(1)
proof (cases rule: rx_step.cases)
  case (rx_inner x)
  then show ?thesis using assms(2)
    by (intro exI [of _ "[]"]) (simp add: rx_ring_def bufs_ok_def slot_holds_def slot_free_def)
next
  case (rx_store d f st w vlan)
  then show ?thesis using rx_ring_store [OF assms(2) rx_store(2,4,5)] by (intro exI [of _ "[f]"]) simp
qed

lemma rx_ring_steps:
  assumes "rx_step\<^sup>*\<^sup>* q q'" "rx_ring T k fs q"
  shows "\<exists>gs. rx_ring T k (fs @ gs) q' \<and> heard q' = heard q @ gs \<and> passed q' = passed q"
  using assms(1)
proof (induction rule: rtranclp_induct)
  case base
  show ?case using assms(2) by (intro exI [of _ "[]"]) simp
next
  case (step y z)
  then obtain gs where "rx_ring T k (fs @ gs) y" "heard y = heard q @ gs" "passed y = passed q" by blast
  moreover from rx_ring_step [OF step.hyps(2) this(1)] obtain hs where
    "rx_ring T k ((fs @ gs) @ hs) z" "heard z = heard y @ hs" "passed z = passed y" by blast
  ultimately show ?case by (intro exI [of _ "gs @ hs"]) simp
qed

section \<open>What the handler does\<close>

text \<open>From \<open>q\<close> to \<open>q'\<close> the card stored the frames \<open>gs\<close> and the driver passed on the packets \<open>ps\<close>.\<close>

definition moves :: "('d \<Rightarrow> nat) \<Rightarrow> 'd rx_queue \<Rightarrow> u8 list list \<Rightarrow> u8 list list \<Rightarrow> 'd rx_queue \<Rightarrow> bool" where
  "moves left q gs ps q' \<longleftrightarrow> heard q' = heard q @ gs \<and> map snd (passed q') = map snd (passed q) @ ps \<and>
     left (inner q') + length gs \<le> left (inner q)"

lemma moves_trans: "moves left q gs ps q' \<Longrightarrow> moves left q' gs' ps' q'' \<Longrightarrow> moves left q (gs @ gs') (ps @ ps') q''"
  by (simp add: moves_def)

lemma moves_same: "heard q' = heard q \<Longrightarrow> inner q' = inner q \<Longrightarrow> map snd (passed q') = map snd (passed q) @ ps \<Longrightarrow> moves left q [] ps q'"
  by (simp add: moves_def)

lemma read_desc_sees:
  assumes "card_steps E" "wire_ends left E" "rx_ring T k fs q" "i < 512"
  shows "\<exists>q1 gs. read_desc E i q = Some (Inr (rx_descs q1 ! i, q1)) \<and> rx_ring T k (fs @ gs) q1 \<and> moves left q gs [] q1"
proof -
  have "rx_step\<^sup>*\<^sup>* q (rx_dma E q)" using assms(1) by (simp add: card_steps_def)
  from rx_ring_steps [OF this assms(3)] obtain gs where gs: "rx_ring T k (fs @ gs) (rx_dma E q)"
    "heard (rx_dma E q) = heard q @ gs" "passed (rx_dma E q) = passed q" by blast
  have "left (inner (rx_dma E q)) + length (heard (rx_dma E q)) \<le> left (inner q) + length (heard q)"
    using assms(2) unfolding wire_ends_def by blast
  then have "moves left q gs [] (rx_dma E q)" using gs(2,3) by (simp add: moves_def)
  moreover have "length (rx_descs (rx_dma E q)) = 512" using rx_ringD(1) [OF gs(1)] by (simp add: bufs_ok_def)
  ultimately show ?thesis using gs(1) assms(4) by (intro exI [of _ "rx_dma E q"] exI [of _ gs]) (simp add: read_desc_def run_simps)
qed

lemma status_waiting:
  assumes rx: "rx_ring T k fs q" and j: "k + j < 512"
  shows "bit (status_error (rx_descs q ! ((T + k + j) mod 512))) 0 \<longleftrightarrow> j < length fs"
proof (cases "j < length fs")
  case True
  then show ?thesis using rx_ringD(7) [OF rx True] by (simp add: slot_holds_def)
next
  case False
  then have "slot_free q ((T + k + j) mod 512)" using rx_ringD(8) [OF rx j] by (simp add: add.assoc)
  moreover have "\<not> bit (buf_addr q ((T + k + j) mod 512)) 0" using rx_ringD(1) [OF rx] by (simp add: bufs_ok_def)
  ultimately show ?thesis using free_status False by blast
qed

text \<open>
  The statuses are read from the last to the first while the card stores frames. Their number is the number of packets
  that can be taken: at least those that were there before, and none that is not there now.
\<close>

lemma read_statuses_count:
  assumes E: "card_steps E" "wire_ends left E" and r: "r = (T + k) mod 512"
  shows "rx_ring T k fs q \<Longrightarrow> k + n \<le> 512 \<Longrightarrow>
    \<exists>q1 gs ss. read_statuses E r (rev [0..<n]) q = Some (Inr (ss, q1)) \<and> rx_ring T k (fs @ gs) q1 \<and> moves left q gs [] q1 \<and>
      min n (length fs) \<le> sum_list (map unat ss) \<and> sum_list (map unat ss) \<le> min n (length (fs @ gs))"
proof (induction n arbitrary: fs q)
  case 0
  then show ?case by (intro exI [of _ q] exI [of _ "[]"] conjI) (simp_all add: return_def moves_def)
next
  case (Suc n)
  let ?i = "(T + k + n) mod 512"
  have i: "(r + n) mod NUM_RX_DESCRIPTORS_PER_QUEUE = ?i" by (simp add: r NUM_RX_DESCRIPTORS_PER_QUEUE_def mod_add_left_eq)
  obtain q1 gs where q1: "read_desc E ?i q = Some (Inr (rx_descs q1 ! ?i, q1))" "rx_ring T k (fs @ gs) q1" "moves left q gs [] q1"
    using read_desc_sees [OF E Suc.prems(1), of ?i] by auto
  obtain q2 hs ss where q2: "read_statuses E r (rev [0..<n]) q1 = Some (Inr (ss, q2))" "rx_ring T k ((fs @ gs) @ hs) q2" "moves left q1 hs [] q2"
    "min n (length (fs @ gs)) \<le> sum_list (map unat ss)" "sum_list (map unat ss) \<le> min n (length ((fs @ gs) @ hs))"
    using Suc.IH [OF q1(2)] Suc.prems(2) by auto
  define s where "s = status_error (rx_descs q1 ! ?i) AND IXGBE_RXDADV_STAT_DD"
  have s: "unat s = of_bool (n < length (fs @ gs))"
    using status_waiting [OF q1(2), of n] Suc.prems(2) by (simp add: s_def status_bit)
  have run: "read_statuses E r (rev [0..<Suc n]) q = Some (Inr (s # ss, q2))"
    using q1(1) q2(1) by (simp add: i run_simps s_def)
  have "min (Suc n) (length fs) \<le> sum_list (map unat (s # ss))" "sum_list (map unat (s # ss)) \<le> min (Suc n) (length (fs @ gs @ hs))"
    using q2(4,5) s by (auto simp: min_def split: if_splits)
  then show ?case using run q2(2) moves_trans [OF q1(3) q2(3)]
    by (intro exI [of _ q2] exI [of _ "gs @ hs"] exI [of _ "s # ss"]) simp
qed

lemma bufs_ok_replace:
  assumes "bufs_ok q" "i < 512" "\<not> bit (phys_addr b) 0" "\<And>j. j < 512 \<Longrightarrow> j \<noteq> i \<Longrightarrow> apart (phys_addr b) (buf_addr q j)"
  shows "bufs_ok (q\<lparr>rx_buf := (rx_buf q)[i := b], rx_descs := (rx_descs q)[i := d], passed := ps\<rparr>)"
proof -
  have "apart (buf_addr q j) (phys_addr b)" if "j < 512" "j \<noteq> i" for j
    using assms(4) [OF that] by (auto simp: apart_def)
  then show ?thesis using assms by (auto simp: bufs_ok_def nth_list_update)
qed

lemma rx_ring_consume:
  assumes rx: "rx_ring T k (f # fs) q" and i: "i = (T + k) mod 512"
    and b: "\<not> bit (phys_addr b) 0" "\<And>j. j < 512 \<Longrightarrow> j \<noteq> i \<Longrightarrow> apart (phys_addr b) (buf_addr q j)"
  shows "rx_ring T (k + 1) fs (q\<lparr>rx_buf := (rx_buf q)[i := b], rx_descs := (rx_descs q)[i := \<lparr>pkt_addr = phys_addr b, hdr_addr = phys_addr b\<rparr>], passed := ps\<rparr>)"
    (is "rx_ring _ _ _ ?q")
proof -
  note r = rx_ringD [OF rx]
  have i512: "i < 512" by (simp add: i)
  have len: "length (rx_buf q) = 512" "length (rx_descs q) = 512" using r(1) by (simp_all add: bufs_ok_def)
  have other: "(T + j) mod 512 \<noteq> i" if "j < 512" "j \<noteq> k" for j
    using ring_slot_other [of j k T] that r(4) by (simp add: i)
  have "slot_holds ?q ((T + (k + 1) + j) mod 512) (fs ! j)" if "j < length fs" for j
  proof -
    have "slot_holds q ((T + (k + 1) + j) mod 512) (fs ! j)" using r(7) [of "Suc j"] that by simp
    moreover have "(T + (k + 1) + j) mod 512 \<noteq> i" using other [of "k + 1 + j"] r(4) that by (simp add: add.assoc)
    ultimately show ?thesis by (simp add: slot_holds_def del: add_Suc_right)
  qed
  moreover have "slot_free ?q ((T + j) mod 512)" if "j < 512" "j < k + 1 \<or> k + 1 + length fs \<le> j" for j
  proof (cases "j = k")
    case True
    then show ?thesis using i512 len by (simp add: slot_free_def i)
  next
    case False
    then show ?thesis using r(8) [of j] other [of j] that by (auto simp: slot_free_def)
  qed
  ultimately show ?thesis
    using r(2-6) bufs_ok_replace [OF r(1) i512 b] unfolding rx_ring_def by simp
qed

lemma pass_packet_frame:
  assumes "rx_ring T k (f # fs) q" "i = (T + k) mod 512"
  shows "\<exists>v. pass_packet E i (wb_length (rx_descs q ! i)) q =
    Some (Inr (stack_answer E (passed q @ [(v, f)]), q\<lparr>passed := passed q @ [(v, f)]\<rparr>))"
proof -
  have h: "slot_holds q i f" using rx_ringD(7) [OF assms(1), of 0] assms(2) by simp
  then have "map (\<lambda>k. rx_ram q (unat (buf_addr q i) + k)) [0..<unat (wb_length (rx_descs q ! i))] = f"
    by (intro nth_equalityI) (simp_all add: slot_holds_def)
  moreover have "i < length (rx_buf q)" using rx_ringD(1) [OF assms(1)] assms(2) by (simp add: bufs_ok_def)
  ultimately show ?thesis by (intro exI [of _ "virt_addr (rx_buf q ! i)"]) (simp add: pass_packet_def run_simps)
qed

lemma reset_rx_desc_gives:
  assumes "supplies E" "rx_ring T k (f # fs) q" "i = (T + k) mod 512"
  shows "\<exists>q1. reset_rx_desc E i new_pkt (q\<lparr>passed := ps\<rparr>) = Some (Inr ((), q1)) \<and> rx_ring T (k + 1) fs q1 \<and>
    heard q1 = heard q \<and> inner q1 = inner q \<and> passed q1 = ps"
proof -
  have ok: "bufs_ok q" using rx_ringD(1) [OF assms(2)] .
  then have len: "length (rx_buf q) = 512" "length (rx_descs q) = 512" "i < 512" using assms(3) by (simp_all add: bufs_ok_def)
  define put where "put b = q\<lparr>rx_buf := (rx_buf q)[i := b], rx_descs := (rx_descs q)[i := \<lparr>pkt_addr = phys_addr b, hdr_addr = phys_addr b\<rparr>], passed := ps\<rparr>" for b
  have put: "rx_ring T (k + 1) fs (put b)" if "\<not> bit (phys_addr b) 0" "\<And>j. j < 512 \<Longrightarrow> j \<noteq> i \<Longrightarrow> apart (phys_addr b) (buf_addr q j)" for b
    unfolding put_def by (rule rx_ring_consume [OF assms(2,3) that])
  show ?thesis
  proof (cases new_pkt)
    case False
    then have "reset_rx_desc E i new_pkt (q\<lparr>passed := ps\<rparr>) = Some (Inr ((), put (rx_buf q ! i)))"
      using len by (cases q) (simp add: reset_rx_desc_def give_buffer_def run_simps put_def)
    moreover have "rx_ring T (k + 1) fs (put (rx_buf q ! i))" using ok len(3) by (intro put) (auto simp: bufs_ok_def)
    ultimately show ?thesis by (simp add: put_def)
  next
    case True
    obtain st v p where nb: "new_buffer E (q\<lparr>passed := ps\<rparr>) = (st, v, p)" by (metis prod_cases3)
    then have p: "st = S_OK" "v \<noteq> 0" "p \<noteq> 0" "\<not> bit p 0" "list_all (\<lambda>b. apart p (phys_addr b)) (rx_buf q)"
      using assms(1) len(1) unfolding supplies_def by (auto dest: spec [of _ "q\<lparr>passed := ps\<rparr>"])
    define b where "b = (rx_buf q ! i)\<lparr>phys_addr := p, virt_addr := v\<rparr>"
    have "reset_rx_desc E i new_pkt (q\<lparr>passed := ps\<rparr>) = Some (Inr ((), put b))"
      using len True nb p by (cases q) (simp add: reset_rx_desc_def set_rx_buf_def give_buffer_def run_simps put_def b_def)
    moreover have "rx_ring T (k + 1) fs (put b)" using p len by (intro put) (auto simp: b_def list_all_length)
    ultimately show ?thesis by (simp add: put_def)
  qed
qed

lemma receive_packets_passes:
  assumes E: "card_steps E" "wire_ends left E" "supplies E" and r: "r = (T + k) mod 512"
  shows "n \<le> length fs \<Longrightarrow> rx_ring T (k + j) fs q \<Longrightarrow>
    \<exists>q1 gs. receive_packets E r [j..<j + n] q = Some (Inr ((), q1)) \<and> rx_ring T (k + j + n) (drop n fs @ gs) q1 \<and> moves left q gs (take n fs) q1"
proof (induction n arbitrary: j fs q)
  case 0
  then show ?case by (intro exI [of _ q] exI [of _ "[]"]) (simp add: return_def moves_def)
next
  case (Suc n)
  let ?i = "(T + (k + j)) mod 512"
  have i: "(r + j) mod NUM_RX_DESCRIPTORS_PER_QUEUE = ?i" by (simp add: r NUM_RX_DESCRIPTORS_PER_QUEUE_def mod_add_left_eq add.assoc)
  obtain f fs' where fs: "fs = f # fs'" using Suc.prems(1) by (cases fs) auto
  obtain q1 gs where q1: "read_desc E ?i q = Some (Inr (rx_descs q1 ! ?i, q1))" "rx_ring T (k + j) (f # fs' @ gs) q1" "moves left q gs [] q1"
    using read_desc_sees [OF E(1,2) Suc.prems(2), of ?i] fs by auto
  obtain v where v: "pass_packet E ?i (wb_length (rx_descs q1 ! ?i)) q1 =
    Some (Inr (stack_answer E (passed q1 @ [(v, f)]), q1\<lparr>passed := passed q1 @ [(v, f)]\<rparr>))"
    using pass_packet_frame [OF q1(2) refl] by blast
  obtain q2 where q2: "reset_rx_desc E ?i (stack_answer E (passed q1 @ [(v, f)]) = KEEP_THIS_PACKET) (q1\<lparr>passed := passed q1 @ [(v, f)]\<rparr>) = Some (Inr ((), q2))"
    "rx_ring T (k + j + 1) (fs' @ gs) q2" "heard q2 = heard q1" "inner q2 = inner q1" "passed q2 = passed q1 @ [(v, f)]"
    using reset_rx_desc_gives [OF E(3) q1(2) refl] by blast
  have m2: "moves left q1 [] [f] q2" using q2 by (intro moves_same) simp_all
  have "n \<le> length (fs' @ gs)" using Suc.prems(1) fs by simp
  from Suc.IH [OF this, of "Suc j" q2] q2(2) obtain q3 hs where q3: "receive_packets E r [Suc j..<Suc j + n] q2 = Some (Inr ((), q3))"
    "rx_ring T (k + j + Suc n) (drop n (fs' @ gs) @ hs) q3" "moves left q2 hs (take n (fs' @ gs)) q3" by auto
  have upt: "[j..<j + Suc n] = j # [Suc j..<Suc j + n]" by (simp add: upt_conv_Cons del: upt_Suc)
  have run: "receive_packets E r [j..<j + Suc n] q = Some (Inr ((), q3))"
    unfolding upt using q1(1) v q2(1) q3(1) by (simp add: i Let_def run_simps)
  have parts: "take n (fs' @ gs) = take n fs'" "drop n (fs' @ gs) @ hs = drop (Suc n) fs @ gs @ hs" "[] @ [f] @ take n fs' = take (Suc n) fs"
    using Suc.prems(1) fs by simp_all
  have "moves left q (gs @ hs) (take (Suc n) fs) q3"
    using moves_trans [OF moves_trans [OF q1(3) m2] q3(3)] unfolding parts(1) parts(3) [symmetric] by simp
  then show ?case using run q3(2) unfolding parts(2) by (intro exI [of _ q3] exI [of _ "gs @ hs"]) blast
qed

text \<open>One round of a burst, from the packet number \<open>k\<close> on.\<close>

lemma receive_round:
  assumes E: "card_steps E" "wire_ends left E" "supplies E" and rx: "rx_ring T k fs q" and r: "r = (T + k) mod 512" and k: "k + 8 \<le> 512"
  shows "\<exists>q1 q2 ss gs n. read_statuses E r (rev [0..<8]) q = Some (Inr (ss, q1)) \<and> sum_list (map unat ss) = n \<and>
    receive_packets E r [0..<n] q1 = Some (Inr ((), q2)) \<and> n \<le> 8 \<and> (fs \<noteq> [] \<longrightarrow> 0 < n) \<and>
    n \<le> length (fs @ gs) \<and> rx_ring T (k + n) (drop n (fs @ gs)) q2 \<and> moves left q gs (take n (fs @ gs)) q2"
proof -
  obtain q1 gs ss where q1: "read_statuses E r (rev [0..<8]) q = Some (Inr (ss, q1))" "rx_ring T k (fs @ gs) q1" "moves left q gs [] q1"
    "min 8 (length fs) \<le> sum_list (map unat ss)" "sum_list (map unat ss) \<le> min 8 (length (fs @ gs))"
    using read_statuses_count [OF E(1,2) r rx k] by blast
  define n where "n = sum_list (map unat ss)"
  have n: "n \<le> 8" "n \<le> length (fs @ gs)" using q1(5) by (simp_all add: n_def)
  have pos: "fs \<noteq> [] \<longrightarrow> 0 < n" using q1(4) by (cases fs) (simp_all add: n_def [symmetric] min_def split: if_splits)
  obtain q2 hs where q2: "receive_packets E r [0..<n] q1 = Some (Inr ((), q2))" "rx_ring T (k + n) (drop n (fs @ gs) @ hs) q2"
    "moves left q1 hs (take n (fs @ gs)) q2"
    using receive_packets_passes [OF E r n(2), of 0 q1] q1(2) by auto
  have parts: "drop n (fs @ gs) @ hs = drop n (fs @ gs @ hs)" "[] @ take n (fs @ gs) = take n (fs @ gs @ hs)" using n(2) by simp_all
  have "moves left q (gs @ hs) (take n (fs @ gs @ hs)) q2"
    using moves_trans [OF q1(3) q2(3)] unfolding parts(2) .
  then show ?thesis
    using q1(1) q2(1,2) n pos unfolding parts(1)
    by (intro exI [of _ q1] exI [of _ q2] exI [of _ ss] exI [of _ "gs @ hs"] exI [of _ n]) (simp add: n_def)
qed

lemma take_drop_more:
  assumes "n \<le> length xs"
  shows "drop m (drop n xs @ ys) = drop (n + m) (xs @ ys)" "take n xs @ take m (drop n xs @ ys) = take (n + m) (xs @ ys)"
proof -
  have "drop n (xs @ ys) = drop n xs @ ys" "take n (xs @ ys) = take n xs" using assms by simp_all
  then show "drop m (drop n xs @ ys) = drop (n + m) (xs @ ys)" "take n xs @ take m (drop n xs @ ys) = take (n + m) (xs @ ys)"
    by (metis add.commute drop_drop, metis take_add)
qed

lemma receive_burst_step:
  assumes "(if m \<noteq> 0 then (r + 8) mod 512 else r) = r'" "m < 8"
    "read_statuses E r' (rev [0..<8]) q = Some (Inr (ss, q1))" "sum_list (map unat ss) = n" "receive_packets E r' [0..<n] q1 = Some (Inr ((), q2))"
  shows "receive_burst E (map (\<lambda>k. k * 8) [m..<8]) r nb q =
    (if n \<noteq> 8 then Some (Inr (nb + n, q2)) else receive_burst E (map (\<lambda>k. k * 8) [Suc m..<8]) r' (nb + n) q2)"
proof -
  have upt: "map (\<lambda>k. k * 8) [m..<8] = m * 8 # map (\<lambda>k. k * 8) [Suc m..<8]" using assms(2) by (simp add: upt_conv_Cons)
  have r: "(if m * 8 \<noteq> 0 then (r + LOOK_AHEAD) mod NUM_RX_DESCRIPTORS_PER_QUEUE else r) = r'"
    using assms(1) by (cases "m = 0") (simp_all add: LOOK_AHEAD_def NUM_RX_DESCRIPTORS_PER_QUEUE_def)
  show ?thesis
    unfolding upt receive_burst.simps r Let_def
    using assms(3-5) by (simp add: andthen_def return_def LOOK_AHEAD_def del: upt_Suc upt_rec_numeral)
qed

lemma receive_burst_passes:
  assumes E: "card_steps E" "wire_ends left E" "supplies E"
  shows "m < 8 \<Longrightarrow> rx_ring T (m * 8) fs q \<Longrightarrow> (if m \<noteq> 0 then (r + 8) mod 512 else r) = (T + m * 8) mod 512 \<Longrightarrow>
    \<exists>q1 gs n. receive_burst E (map (\<lambda>k. k * 8) [m..<8]) r (m * 8) q = Some (Inr (m * 8 + n, q1)) \<and> m * 8 + n \<le> 64 \<and>
      (fs \<noteq> [] \<longrightarrow> 0 < n) \<and> n \<le> length (fs @ gs) \<and> rx_ring T (m * 8 + n) (drop n (fs @ gs)) q1 \<and> moves left q gs (take n (fs @ gs)) q1"
proof (induction "8 - m" arbitrary: m fs q r)
  case 0
  then show ?case by simp
next
  case (Suc x)
  define r' where "r' = (T + m * 8) mod 512"
  have k: "m * 8 + 8 \<le> 512" using Suc.prems(1) by simp
  obtain q1 q2 ss gs n where rd: "read_statuses E r' (rev [0..<8]) q = Some (Inr (ss, q1))" "sum_list (map unat ss) = n"
    "receive_packets E r' [0..<n] q1 = Some (Inr ((), q2))" "n \<le> 8" "fs \<noteq> [] \<longrightarrow> 0 < n" "n \<le> length (fs @ gs)"
    "rx_ring T (m * 8 + n) (drop n (fs @ gs)) q2" "moves left q gs (take n (fs @ gs)) q2"
    using receive_round [OF E Suc.prems(2) r'_def k] by (elim exE conjE) (rule that)
  note run = receive_burst_step [OF Suc.prems(3) [folded r'_def] Suc.prems(1) rd(1-3), of "m * 8"]
  show ?case
  proof (cases "n \<noteq> 8 \<or> Suc m = 8")
    case True
    then have "receive_burst E (map (\<lambda>k. k * 8) [m..<8]) r (m * 8) q = Some (Inr (m * 8 + n, q2))"
      using run by (auto simp: return_def)
    moreover have "m * 8 + n \<le> 64" using Suc.prems(1) rd(4) by simp
    ultimately show ?thesis using rd(5-8) by blast
  next
    case False
    then have m: "n = 8" "Suc m < 8" using Suc.prems(1) by auto
    have "x = 8 - Suc m" using Suc.hyps(2) by simp
    moreover have "(if Suc m \<noteq> 0 then (r' + 8) mod 512 else r') = (T + Suc m * 8) mod 512"
      by (simp add: r'_def mod_add_left_eq) (simp add: ac_simps)
    moreover have "rx_ring T (Suc m * 8) (drop 8 (fs @ gs)) q2" using rd(7) by (simp add: m(1) add.commute)
    ultimately obtain q3 hs n' where q3: "receive_burst E (map (\<lambda>k. k * 8) [Suc m..<8]) r' (Suc m * 8) q2 = Some (Inr (Suc m * 8 + n', q3))"
      "Suc m * 8 + n' \<le> 64" "n' \<le> length (drop 8 (fs @ gs) @ hs)" "rx_ring T (Suc m * 8 + n') (drop n' (drop 8 (fs @ gs) @ hs)) q3"
      "moves left q2 hs (take n' (drop 8 (fs @ gs) @ hs)) q3"
      using Suc.hyps(1) [of "Suc m" "drop 8 (fs @ gs)" q2 r'] m(2) by blast
    have eqs: "Suc m * 8 + n' = m * 8 + (8 + n')" "drop n' (drop 8 (fs @ gs) @ hs) = drop (8 + n') (fs @ gs @ hs)"
      "take n (fs @ gs) @ take n' (drop 8 (fs @ gs) @ hs) = take (8 + n') (fs @ gs @ hs)" "8 + n' \<le> length (fs @ gs @ hs)"
      using take_drop_more [of 8 "fs @ gs" n' hs] rd(6) q3(3) by (simp_all only: m(1) append_assoc) simp_all
    have "receive_burst E (map (\<lambda>k. k * 8) [m..<8]) r (m * 8) q = Some (Inr (m * 8 + (8 + n'), q3))"
      using run q3(1) m(1) by (simp add: add.commute)
    moreover have "0 < 8 + n'" by simp
    ultimately show ?thesis using q3(2,4) moves_trans [OF rd(8) q3(5)] eqs(4) unfolding eqs(1-3)
      by (intro exI [of _ q3] exI [of _ "gs @ hs"] exI [of _ "8 + n'"] conjI impI)
  qed
qed

lemma finish_burst_ring:
  assumes rx: "rx_ring T n fs q" and n: "0 < n" "n \<le> 64"
  shows "\<exists>q1. finish_burst n q = Some (Inr ((), q1)) \<and> rx_ring ((T + n) mod 512) 0 fs q1 \<and> moves left q [] [] q1"
proof -
  note r = rx_ringD [OF rx]
  define tmp where "tmp = (ucast (rx_tail q) + of_nat n :: u32)"
  define q1 where "q1 = q\<lparr>rdt := unat ((tmp - 1) mod 512), rx_tail := ucast (tmp mod 512)\<rparr>"
  have run: "finish_burst n q = Some (Inr ((), q1))"
    by (simp add: finish_burst_def modify_def Let_def NUM_RX_DESCRIPTORS_PER_QUEUE_def q1_def tmp_def)
  have "unat (ucast (rx_tail q) :: u32) = T" using r(2,3) by (simp add: unsigned_ucast_eq take_bit_nat_eq_self)
  moreover have "unat (of_nat n :: u32) = n" using n(2) by (simp add: unat_of_nat take_bit_nat_eq_self)
  ultimately have tmp: "unat tmp = T + n" using r(2) n(2) by (simp add: tmp_def unat_plus_if_size size_word_def)
  then have "unat (tmp - 1) = T + n - 1" using unat_sub [of 1 tmp] n(1) by (simp add: word_le_nat_alt)
  then have "unat ((tmp - 1) mod 512) = (T + n - 1) mod 512" by (simp add: unat_mod)
  moreover have "(T + n - 1) mod 512 = ((T + n) mod 512 + 511) mod 512"
  proof -
    have "((T + n) mod 512 + 511) mod 512 = (T + n + 511) mod 512" by (rule mod_add_left_eq)
    moreover have "T + n + 511 = T + n - 1 + 512" using n(1) by simp
    ultimately have "((T + n) mod 512 + 511) mod 512 = (T + n - 1 + 512) mod 512" by simp
    then show ?thesis by simp
  qed
  moreover have "unat (ucast (tmp mod 512) :: u16) = (T + n) mod 512"
    using tmp by (simp add: unsigned_ucast_eq unat_mod take_bit_nat_eq_self less_trans [OF mod_less_divisor])
  ultimately have t: "rdt q1 = ((T + n) mod 512 + 511) mod 512" "unat (rx_tail q1) = (T + n) mod 512" by (simp_all add: q1_def)
  have same: "slot_holds q1 = slot_holds q" "slot_free q1 = slot_free q" "bufs_ok q1 = bufs_ok q"
    by (simp_all add: q1_def fun_eq_iff slot_holds_def slot_free_def bufs_ok_def)
  have shift: "((T + n) mod 512 + i) mod 512 = (T + (n + i)) mod 512" for i by (simp add: mod_add_left_eq add.assoc)
  have "slot_free q (((T + n) mod 512 + i) mod 512)" if "i < 512" "length fs \<le> i" for i
  proof (cases "n + i < 512")
    case True
    then show ?thesis using r(8) [of "n + i"] that by (simp add: shift)
  next
    case False
    then have "(T + (n + i)) mod 512 = (T + (n + i - 512)) mod 512" "n + i - 512 < n" "n + i - 512 < 512"
      using that n by (auto simp: le_mod_geq)
    then show ?thesis using r(8) [of "n + i - 512"] by (simp add: shift)
  qed
  moreover have "slot_holds q (((T + n) mod 512 + i) mod 512) (fs ! i)" if "i < length fs" for i
    using r(7) [OF that] by (simp add: shift add.assoc)
  moreover have "rdh q1 = ((T + n) mod 512 + length fs) mod 512" using r(5) by (simp add: q1_def shift add.assoc)
  ultimately have "rx_ring ((T + n) mod 512) 0 fs q1" using r(1,4) t unfolding rx_ring_def same by simp
  then show ?thesis using run by (simp add: moves_def q1_def)
qed

lemma rx_loop_passes:
  assumes E: "card_steps E" "wire_ends left E" "supplies E"
  shows "left (inner q) + length fs \<le> k \<Longrightarrow> rx_ring T 0 fs q \<Longrightarrow>
    \<exists>q' gs T'. rx_loop E q = Some (Inr ((), q')) \<and> rx_ring T' 0 [] q' \<and> moves left q gs (fs @ gs) q'"
proof (induction k arbitrary: q fs T rule: less_induct)
  case (less k)
  have T: "unat (rx_tail q) = T" "T < 512" using rx_ringD [OF less.prems(2)] by simp_all
  obtain q1 gs where q1: "read_desc E T q = Some (Inr (rx_descs q1 ! T, q1))" "rx_ring T 0 (fs @ gs) q1" "moves left q gs [] q1"
    using read_desc_sees [OF E(1,2) less.prems(2) T(2)] by blast
  have dd: "bit (status_error (rx_descs q1 ! T)) 0 \<longleftrightarrow> fs @ gs \<noteq> []"
    using status_waiting [OF q1(2), of 0] T(2) by simp
  show ?case
  proof (cases "fs @ gs = []")
    case True
    then have "rx_loop E q = Some (Inr ((), q1))" using q1(1) dd T(1) by (subst rx_loop.simps) (simp add: status_bit)
    then show ?thesis using q1(2,3) True by auto
  next
    case False
    have tail: "unat (rx_tail q1) = T" using rx_ringD(3) [OF q1(2)] .
    obtain q2 hs n where q2: "receive_burst E (map (\<lambda>k. k * 8) [0..<8]) T (0 * 8) q1 = Some (Inr (0 * 8 + n, q2))" "0 * 8 + n \<le> 64"
      "0 < n" "n \<le> length ((fs @ gs) @ hs)" "rx_ring T (0 * 8 + n) (drop n ((fs @ gs) @ hs)) q2" "moves left q1 hs (take n ((fs @ gs) @ hs)) q2"
      using receive_burst_passes [OF E, of 0 T "fs @ gs" q1 T] q1(2) T(2) False by auto
    obtain q3 where q3: "finish_burst n q2 = Some (Inr ((), q3))" "rx_ring ((T + n) mod 512) 0 (drop n ((fs @ gs) @ hs)) q3" "moves left q2 [] [] q3"
      using finish_burst_ring [of T n "drop n ((fs @ gs) @ hs)" q2 left] q2 by auto
    have m3: "moves left q (gs @ hs) (take n ((fs @ gs) @ hs)) q3"
      using moves_trans [OF moves_trans [OF q1(3) q2(6)] q3(3)] by simp
    have "left (inner q3) + length (gs @ hs) \<le> left (inner q)" using m3 by (simp add: moves_def)
    then have "left (inner q3) + length (drop n ((fs @ gs) @ hs)) < k"
      using less.prems(1) q2(3,4) unfolding length_drop length_append by linarith
    from less.IH [OF this le_refl q3(2)] obtain q4 js T' where q4: "rx_loop E q3 = Some (Inr ((), q4))" "rx_ring T' 0 [] q4"
      "moves left q3 js (drop n ((fs @ gs) @ hs) @ js) q4" by blast
    have "rx_loop E q = rx_loop E q3"
      using q1(1) dd T(1) False q2(1) q3(1) tail
      by (subst rx_loop.simps) (simp add: status_bit LOOK_AHEAD_def IXGBE_RX_MAX_BURST_def andthen_def del: upt_rec_numeral)
    moreover have "take n ((fs @ gs) @ hs) @ drop n ((fs @ gs) @ hs) @ js = fs @ (gs @ hs) @ js"
      by (simp only: append_assoc [symmetric] append_take_drop_id)
    ultimately show ?thesis using q4(1,2) moves_trans [OF m3 q4(3)]
      by (intro exI [of _ q4] exI [of _ "(gs @ hs) @ js"] exI [of _ T']) (simp only: simp_thms)
  qed
qed

lemma handler_passes:
  assumes E: "card_steps E" "wire_ends left E" "supplies E" and tid: "tid < 4" and rx: "rx_ring T 0 fs q"
  shows "\<exists>q' gs T'. interrupt_handler E tid q = Some (Inr ((), q')) \<and> rx_ring T' 0 [] q' \<and> moves left q gs (fs @ gs) q'"
proof -
  define q0 where "q0 = q\<lparr>int_counter := int_counter q + 1, int_total_counter := int_total_counter q + 1\<rparr>"
  have "rx_ring T 0 fs q0" using rx by (simp add: q0_def rx_ring_def bufs_ok_def slot_holds_def slot_free_def)
  from rx_loop_passes [OF E le_refl this] obtain q1 gs T' where
    q1: "rx_loop E q0 = Some (Inr ((), q1))" "rx_ring T' 0 [] q1" "moves left q0 gs (fs @ gs) q1" by blast
  define q' where "q' = q1\<lparr>eims := push_bit tid 1\<rparr>"
  have "interrupt_handler E tid q = Some (Inr ((), q'))"
    using q1(1) tid by (simp add: interrupt_handler_def run_simps NUM_RX_THREADS_PER_NIC_def q0_def [symmetric] q'_def)
  moreover have "rx_ring T' 0 [] q'" using q1(2) by (simp add: q'_def rx_ring_def bufs_ok_def slot_holds_def slot_free_def)
  moreover have "moves left q gs (fs @ gs) q'" using q1(3) by (simp add: moves_def q'_def q0_def)
  ultimately show ?thesis by blast
qed

lemma handle_interrupts_passes:
  assumes E: "card_steps E" "wire_ends left E" "supplies E" and tid: "tid < 4"
  shows "rx_ring T 0 [] q \<Longrightarrow> \<exists>q' gs T'. handle_interrupts E tid n q = Some (Inr ((), q')) \<and> rx_ring T' 0 [] q' \<and> moves left q gs gs q'"
proof (induction n arbitrary: q T)
  case 0
  then show ?case by (auto simp: return_def moves_def)
next
  case (Suc n)
  have "rx_step\<^sup>*\<^sup>* q (rx_dma E q)" using E(1) by (simp add: card_steps_def)
  from rx_ring_steps [OF this Suc.prems] obtain fs where fs: "rx_ring T 0 fs (rx_dma E q)" "heard (rx_dma E q) = heard q @ fs"
    "passed (rx_dma E q) = passed q" by auto
  have "left (inner (rx_dma E q)) + length (heard (rx_dma E q)) \<le> left (inner q) + length (heard q)"
    using E(2) unfolding wire_ends_def by blast
  then have m1: "moves left q fs [] (rx_dma E q)" using fs by (simp add: moves_def)
  obtain q2 gs T2 where q2: "interrupt_handler E tid (rx_dma E q) = Some (Inr ((), q2))" "rx_ring T2 0 [] q2" "moves left (rx_dma E q) gs (fs @ gs) q2"
    using handler_passes [OF E tid fs(1)] by blast
  obtain q3 hs T3 where q3: "handle_interrupts E tid n q2 = Some (Inr ((), q3))" "rx_ring T3 0 [] q3" "moves left q2 hs hs q3"
    using Suc.IH [OF q2(2)] by blast
  have "handle_interrupts E tid (Suc n) q = Some (Inr ((), q3))" using q2(1) q3(1) by (simp add: run_simps)
  moreover have "moves left q ((fs @ gs) @ hs) ((fs @ gs) @ hs) q3" using moves_trans [OF moves_trans [OF m1 q2(3)] q3(3)] by simp
  ultimately show ?case using q3(2) by blast
qed

section \<open>The buffers of a new queue\<close>

definition filled :: "nat \<Rightarrow> 'd rx_queue \<Rightarrow> bool" where
  "filled m q \<longleftrightarrow> length (rx_descs q) = 512 \<and> length (rx_buf q) = 512 \<and> (\<forall>i<m. \<not> bit (buf_addr q i) 0 \<and> slot_free q i) \<and>
     (\<forall>i<m. \<forall>j<m. i \<noteq> j \<longrightarrow> apart (buf_addr q i) (buf_addr q j))"

lemma filled_next:
  assumes "filled m q" "m < 512" "\<not> bit (phys_addr b) 0" "list_all (\<lambda>c. apart (phys_addr b) (phys_addr c)) (rx_buf q)"
  shows "filled (Suc m) (q\<lparr>rx_buf := (rx_buf q)[m := b], rx_descs := (rx_descs q)[m := \<lparr>pkt_addr = phys_addr b, hdr_addr = phys_addr b\<rparr>]\<rparr>)"
proof -
  have "apart (phys_addr b) (buf_addr q j)" "apart (buf_addr q j) (phys_addr b)" if "j < 512" for j
    using assms(1,4) that by (auto simp: filled_def list_all_length apart_def)
  then show ?thesis using assms(1-3) by (auto simp: filled_def slot_free_def nth_list_update less_Suc_eq)
qed

lemma fill_rx_ring_fills:
  assumes E: "supplies E"
  shows "m \<le> 512 \<Longrightarrow> filled m q \<Longrightarrow> \<exists>A B. fill_rx_ring E [m..<512] q = Some (Inr ((), q\<lparr>rx_buf := A, rx_descs := B\<rparr>)) \<and> filled 512 (q\<lparr>rx_buf := A, rx_descs := B\<rparr>)"
proof (induction "512 - m" arbitrary: m q)
  case 0
  then show ?case by (intro exI [of _ "rx_buf q"] exI [of _ "rx_descs q"]) (simp add: return_def)
next
  case (Suc x)
  then have m: "m < 512" "x = 512 - Suc m" by auto
  obtain st v p where nb: "new_buffer E q = (st, v, p)" by (metis prod_cases3)
  have len: "length (rx_buf q) = 512" "length (rx_descs q) = 512" using Suc.prems(2) by (simp_all add: filled_def)
  then have p: "st = S_OK" "v \<noteq> 0" "\<not> bit p 0" "list_all (\<lambda>b. apart p (phys_addr b)) (rx_buf q)"
    using E nb unfolding supplies_def by (auto dest: spec [of _ q])
  define b where "b = (rx_buf q ! m)\<lparr>phys_addr := p, virt_addr := v\<rparr>"
  define q1 where "q1 = q\<lparr>rx_buf := (rx_buf q)[m := b], rx_descs := (rx_descs q)[m := \<lparr>pkt_addr = p, hdr_addr = p\<rparr>]\<rparr>"
  have "filled (Suc m) q1" using filled_next [OF Suc.prems(2) m(1), of b] p by (simp add: b_def q1_def)
  then obtain A B where AB: "fill_rx_ring E [Suc m..<512] q1 = Some (Inr ((), q1\<lparr>rx_buf := A, rx_descs := B\<rparr>))" "filled 512 (q1\<lparr>rx_buf := A, rx_descs := B\<rparr>)"
    using Suc.hyps(1) [OF m(2), of q1] m(1) by auto
  have upt: "[m..<512] = m # [Suc m..<512]" using m(1) by (rule upt_conv_Cons)
  have "fill_rx_ring E [m..<512] q = fill_rx_ring E [Suc m..<512] q1"
    unfolding upt using nb p len m(1)
    by (simp add: run_simps set_rx_buf_def give_buffer_def b_def q1_def del: upt_Suc upt_rec_numeral)
  then show ?case using AB by (intro exI [of _ A] exI [of _ B]) (simp add: q1_def)
qed

lemma configured_ring:
  assumes E: "supplies E"
  shows "\<exists>q1. andthen (configure_rx_queue E) (\<lambda>_. activate_rx_queue) q = Some (Inr ((), q1)) \<and> rx_ring 0 0 [] q1 \<and> moves left q [] [] q1"
proof -
  define q0 where "q0 = q\<lparr>rx_buf := replicate 512 zero_mbuf, rx_tail := 0, rx_descs := replicate 512 \<lparr>pkt_addr = 0, hdr_addr = 0\<rparr>\<rparr>"
  have "filled 0 q0" by (simp add: filled_def q0_def)
  from fill_rx_ring_fills [OF E le0 this] obtain A B where
    AB: "fill_rx_ring E [0..<512] q0 = Some (Inr ((), q0\<lparr>rx_buf := A, rx_descs := B\<rparr>))" "filled 512 (q0\<lparr>rx_buf := A, rx_descs := B\<rparr>)" by blast
  define q1 where "q1 = q0\<lparr>rx_buf := A, rx_descs := B, rdh := 0, rdt := 511\<rparr>"
  have "andthen (configure_rx_queue E) (\<lambda>_. activate_rx_queue) q = Some (Inr ((), q1))"
    using AB(1) by (simp add: configure_rx_queue_def activate_rx_queue_def run_simps NUM_RX_DESCRIPTORS_PER_QUEUE_def
        q0_def [symmetric] q1_def del: upt_rec_numeral)
  moreover have "rx_ring 0 0 [] q1"
    using AB(2) by (simp add: rx_ring_def filled_def bufs_ok_def slot_free_def q1_def q0_def)
  ultimately show ?thesis by (auto simp: moves_def q1_def q0_def)
qed

section \<open>An example\<close>

text \<open>A card that stores the next frame of a list at every step, and a memory component that looks for a free block.\<close>

definition hear_frame :: "u8 list list rx_queue \<Rightarrow> u8 list list rx_queue" where
  "hear_frame q = (case inner q of [] \<Rightarrow> q | f # fs \<Rightarrow>
     if rdh q \<noteq> rdt q \<and> length f \<le> 2048
     then (q\<lparr>rx_descs := (rx_descs q)[rdh q := \<lparr>pkt_addr = 0, hdr_addr = write_back 1 (of_nat (length f)) 0\<rparr>],
       rx_ram := store_frame (unat (pkt_addr (rx_descs q ! rdh q))) f (rx_ram q), rdh := (rdh q + 1) mod 512, heard := heard q @ [f]\<rparr>)\<lparr>inner := fs\<rparr>
     else q)"

definition free_block :: "exo_mbuf list \<Rightarrow> u64" where
  "free_block bs = (case List.find (\<lambda>k. list_all (\<lambda>b. apart (of_nat (2048 * k)) (phys_addr b)) bs) [1..<1026] of
     None \<Rightarrow> 0 | Some k \<Rightarrow> of_nat (2048 * k))"

definition example_env :: "u8 list list rx_env" where
  "example_env = \<lparr>rx_dma = hear_frame, stack_answer = receive_packet, new_buffer = (\<lambda>q. (S_OK, free_block (rx_buf q), free_block (rx_buf q)))\<rparr>"

definition example_rx_queue :: "u8 list list \<Rightarrow> u8 list list rx_queue" where
  "example_rx_queue fs = \<lparr>rx_buf = [], rx_tail = 0, rx_descs = [], rdh = 0, rdt = 0, rx_ram = (\<lambda>_. 0), heard = [], inner = fs, passed = [],
     int_counter = 0, int_total_counter = 0, eims = 0\<rparr>"

lemma hear_frame_steps: "rx_step\<^sup>*\<^sup>* q (hear_frame q)"
proof (cases "inner q")
  case (Cons f fs)
  show ?thesis
  proof (cases "rdh q \<noteq> rdt q \<and> length f \<le> 2048")
    case True
    then have "rx_step q (q\<lparr>rx_descs := (rx_descs q)[rdh q := \<lparr>pkt_addr = 0, hdr_addr = write_back 1 (of_nat (length f)) 0\<rparr>],
       rx_ram := store_frame (unat (pkt_addr (rx_descs q ! rdh q))) f (rx_ram q), rdh := (rdh q + 1) mod 512, heard := heard q @ [f]\<rparr>)"
      (is "rx_step q ?r") by (intro rx_store [OF _ refl]) simp_all
    moreover have "rx_step ?r (?r\<lparr>inner := fs\<rparr>)" by (rule rx_inner)
    ultimately have "rx_step\<^sup>*\<^sup>* q (?r\<lparr>inner := fs\<rparr>)" by (meson r_into_rtranclp rtranclp.rtrancl_into_rtrancl)
    then show ?thesis using True Cons by (simp add: hear_frame_def)
  qed (auto simp: hear_frame_def Cons)
qed (simp add: hear_frame_def)

lemma unat_block: "k < 1026 \<Longrightarrow> unat (of_nat (2048 * k) :: u64) = 2048 * k"
  by (simp add: unat_of_nat take_bit_nat_eq_self del: of_nat_mult)

lemma apart_block:
  assumes "k \<noteq> unat p div 2048" "k \<noteq> (unat p + 2047) div 2048" "k < 1026"
  shows "apart (of_nat (2048 * k)) p"
proof -
  define d m where "d = unat p div 2048" and "m = unat p mod 2048"
  have x: "unat p = 2048 * d + m" "m < 2048" by (simp_all add: d_def m_def)
  have "(unat p + 2047) div 2048 = (if m = 0 then d else d + 1)"
    unfolding x(1) using x(2) by (intro div_nat_eqI) auto
  then have "k < d \<or> d + 1 < k \<or> m = 0 \<and> k = d + 1" using assms(1,2) d_def by (auto split: if_splits)
  then show ?thesis using x unfolding apart_def unat_block [OF assms(3)] by auto
qed

lemma free_block_apart:
  assumes "length bs = 512"
  shows "\<exists>k\<in>{1..<1026}. free_block bs = of_nat (2048 * k) \<and> list_all (\<lambda>b. apart (of_nat (2048 * k)) (phys_addr b)) bs"
proof -
  let ?P = "\<lambda>k. list_all (\<lambda>b. apart (of_nat (2048 * k)) (phys_addr b)) bs"
  define X where "X = (\<lambda>b. unat (phys_addr b)) ` set bs"
  have X: "card X \<le> 512" "finite X" using card_image_le [of "set bs" "\<lambda>b. unat (phys_addr b)"] card_length [of bs] assms by (auto simp: X_def)
  let ?bad = "(\<lambda>x. x div 2048) ` X \<union> (\<lambda>x. (x + 2047) div 2048) ` X"
  have "card ?bad \<le> card ((\<lambda>x. x div 2048) ` X) + card ((\<lambda>x. (x + 2047) div 2048) ` X)" by (rule card_Un_le)
  also have "\<dots> \<le> 512 + 512" using X by (intro add_mono) (meson card_image_le le_trans)+
  finally have "\<not> {1..<1026} \<subseteq> ?bad" using X card_mono [of ?bad "{1..<1026}"] by auto
  then obtain k where k: "k \<in> {1..<1026}" "k \<notin> ?bad" by blast
  then have "?P k" unfolding list_all_iff by (intro ballI apart_block) (auto simp: X_def)
  then have "\<exists>k\<in>set [1..<1026]. ?P k" using k(1) unfolding set_upt by blast
  then obtain k' where k': "List.find ?P [1..<1026] = Some k'"
    using find_None_iff [of ?P "[1..<1026]"] by (cases "List.find ?P [1..<1026]") blast+
  then have "?P k'" "k' \<in> set [1..<1026]" by (auto simp only: find_Some_iff nth_mem)
  then show ?thesis using k' unfolding free_block_def set_upt by (intro bexI [of _ k']) simp_all
qed

lemma example_env_ok: "card_steps example_env" "wire_ends length example_env" "supplies example_env"
proof -
  show "card_steps example_env" using hear_frame_steps by (simp add: card_steps_def example_env_def)
  show "wire_ends length example_env" by (simp add: wire_ends_def example_env_def hear_frame_def split: list.splits)
  have "free_block bs \<noteq> 0 \<and> \<not> bit (free_block bs) 0 \<and> list_all (\<lambda>b. apart (free_block bs) (phys_addr b)) bs" if len: "length bs = 512" for bs
  proof -
    obtain k where k: "k \<in> {1..<1026}" "free_block bs = of_nat (2048 * k)" "list_all (\<lambda>b. apart (free_block bs) (phys_addr b)) bs"
      using free_block_apart [OF len] by metis
    have "unat (free_block bs) = 2048 * k" using k(1,2) unat_block [of k] by simp
    moreover have "bit (free_block bs) 0 = bit (unat (free_block bs)) 0" by (simp add: bit_unsigned_iff)
    ultimately have "free_block bs \<noteq> 0" "\<not> bit (free_block bs) 0" using k(1) by (auto simp: bit_0)
    then show ?thesis using k(3) by blast
  qed
  then show "supplies example_env" by (simp add: supplies_def example_env_def)
qed

section \<open>Correctness\<close>

text \<open>
  C10. Received frames reach the network stack. A queue is set up from any state, activated, and then handles \<open>n\<close>
  interrupts, while the card stores frames between any two accesses of the driver. Everything returns, no access is
  outside the ring, and the packets passed to the network stack are exactly the frames that the card stored, with
  their bytes, in order, none twice and none lost, whether the stack keeps a buffer or not. At the end all descriptors
  are the card's again, with buffers that do not overlap.
\<close>

theorem x540_receives:
  assumes "card_steps E" "wire_ends left E" "supplies E" "tid < NUM_RX_THREADS_PER_NIC"
  shows "\<exists>q' gs T. andthen (configure_rx_queue E) (\<lambda>_. irq_thread E tid n) q = Some (Inr ((), q')) \<and>
    heard q' = heard q @ gs \<and> map snd (passed q') = map snd (passed q) @ gs \<and> rx_ring T 0 [] q'"
proof -
  have tid: "tid < 4" using assms(4) by (simp add: NUM_RX_THREADS_PER_NIC_def)
  obtain q1 where q1: "andthen (configure_rx_queue E) (\<lambda>_. activate_rx_queue) q = Some (Inr ((), q1))" "rx_ring 0 0 [] q1" "moves left q [] [] q1"
    using configured_ring [OF assms(3)] by blast
  obtain q' gs T where q': "handle_interrupts E tid n q1 = Some (Inr ((), q'))" "rx_ring T 0 [] q'" "moves left q1 gs gs q'"
    using handle_interrupts_passes [OF assms(1-3) tid q1(2)] by blast
  have "andthen (configure_rx_queue E) (\<lambda>_. irq_thread E tid n) q = Some (Inr ((), q'))"
    using q1(1) q'(1) by (auto simp: irq_thread_def andthen_def split: option.splits sum.splits)
  then show ?thesis using q'(2) moves_trans [OF q1(3) q'(3)] by (auto simp: moves_def)
qed

theorem x540_receives_witness:
  "\<exists>q' gs. andthen (configure_rx_queue example_env) (\<lambda>_. irq_thread example_env 3 2) (example_rx_queue [[1, 2, 3], [4]]) = Some (Inr ((), q')) \<and>
    heard q' = gs \<and> map snd (passed q') = gs"
  using x540_receives [OF example_env_ok, of 3 2 "example_rx_queue [[1, 2, 3], [4]]"]
  by (auto simp: NUM_RX_THREADS_PER_NIC_def example_rx_queue_def)

end
