(* ===== verification/XDK_X540_Multi.thy ===== *)
theory XDK_X540_Multi
  imports XDK_X540_Send
begin

text \<open>
  Sending packets of several segments with the driver for the Intel X540 network card: \<^verbatim>\<open>multi_send\<close> and \<^verbatim>\<open>xmit_cleanup\<close> of
  \<^verbatim>\<open>drivers/x540-nic/x540/x540_device.cc\<close>, on the transmit queues of \<open>XDK_X540_Send\<close>. A packet takes a context descriptor and
  one to three data descriptors. The card is a relation, and it may take steps before every look of the driver at a
  status.
\<close>

section \<open>Descriptors\<close>

definition first_desc_cmd :: u32 where
  "first_desc_cmd = 0x00300000 OR 0x20000000 OR 0x02000000"

definition first_desc_status :: u32 where
  "first_desc_status = 0x00000080 OR push_bit 8 1"

definition last_desc_cmd :: u32 where
  "last_desc_cmd = first_desc_cmd OR 0x01000000"

definition IXGBE_ADVTXD_DCMD_RS :: u32 where
  "IXGBE_ADVTXD_DCMD_RS = 0x08000000"

text \<open>
  In the view of a context descriptor, \<^verbatim>\<open>vlan_macip_lens\<close> is the low half of the address, and the 64 bits of \<^verbatim>\<open>special\<close> are the
  other two fields.
\<close>

definition context_desc :: "tx_adv_desc \<Rightarrow> tx_adv_desc" where
  "context_desc d = \<lparr>desc_address = (desc_address d AND NOT 0xFFFFFFFF) OR (20 OR push_bit 9 14),
     cmd_type_len = 0x00000400 OR 0x00200000 OR 0x20000000, olinfo_status = 0\<rparr>"

definition first_data :: "u64 \<Rightarrow> u16 \<Rightarrow> u32 \<Rightarrow> u32 \<Rightarrow> tx_adv_desc \<Rightarrow> tx_adv_desc" where
  "first_data a l cmd pkt_len d = \<lparr>desc_address = a, cmd_type_len = ucast l OR cmd, olinfo_status = first_desc_status OR push_bit 14 pkt_len\<rparr>"

definition more_data :: "u64 \<Rightarrow> u16 \<Rightarrow> u32 \<Rightarrow> tx_adv_desc \<Rightarrow> tx_adv_desc" where
  "more_data a l cmd d = d\<lparr>desc_address := a, cmd_type_len := ucast l OR cmd\<rparr>"

definition pkt_len :: "exo_mbuf \<Rightarrow> u32" where
  "pkt_len p = ucast (mbuf_len p) + ucast (seg_len p ! 0) + ucast (seg_len p ! 1)"

text \<open>The data descriptors of a packet; nothing is written for a packet of several segments whose lengths are all zero.\<close>

definition data_descs :: "exo_mbuf \<Rightarrow> (tx_adv_desc \<Rightarrow> tx_adv_desc) list outcome" where
  "data_descs p =
     (let l0 = seg_len p ! 0; l1 = seg_len p ! 1; a0 = phys_addr_seg p ! 0; a1 = phys_addr_seg p ! 1 in
      if nb_segment p = 1 then Inr [first_data (phys_addr p) (mbuf_len p) last_desc_cmd (pkt_len p)]
      else let first = first_data (phys_addr p) (mbuf_len p) first_desc_cmd (pkt_len p) in
        if l0 \<noteq> 0 \<and> l1 \<noteq> 0 then check (nb_segment p = 3) Assertion (Inr [first, more_data a0 l0 first_desc_cmd, more_data a1 l1 last_desc_cmd])
        else if l0 \<noteq> 0 then check (nb_segment p = 2) Assertion (Inr [first, more_data a0 l0 last_desc_cmd])
        else if l1 \<noteq> 0 then check (nb_segment p = 2) Assertion (Inr [first, more_data a1 l1 last_desc_cmd])
        else Inr [first, id])"

section \<open>Cleaning up\<close>

record multi_queue = tx_queue +
  frames :: "(u64 \<times> u16) list list"
  fragments :: "(u64 \<times> u16) list"

text \<open>The calls of \<^verbatim>\<open>_mem->free\<close> for the buffers of a packet.\<close>

definition frees_of :: "exo_mbuf \<Rightarrow> (u64 \<times> nat) list" where
  "frees_of b =
     (if mbuf_flag b AND 1 = 1 then [(virt_addr b, unat (drop_bit 4 (mbuf_flag b)))] else []) @
     (if seg_flag b ! 0 AND 1 = 1 then [(virt_addr_seg b ! 0, unat (drop_bit 4 (seg_flag b ! 0)))] else []) @
     (if seg_flag b ! 1 AND 1 = 1 then [(virt_addr_seg b ! 1, unat (drop_bit 4 (seg_flag b ! 1)))] else [])"

definition clean_entry :: "nat \<Rightarrow> multi_queue \<Rightarrow> multi_queue outcome" where
  "clean_entry i q = check (i < length (sw_ring q)) Out_of_range
     (check (nb_tx_desc q \<noteq> 0) Div_by_zero
       (Inr (q\<lparr>freed := freed q @ frees_of (tx_buf (sw_ring q ! i)),
         sw_ring := (sw_ring q)[i := zero_entry\<lparr>next_id := of_nat (i + 1) mod nb_tx_desc q, last_id := of_nat i\<rparr>]\<rparr>)))"

fun clean_entries :: "nat list \<Rightarrow> multi_queue \<Rightarrow> multi_queue outcome" where
  "clean_entries [] q = Inr q"
| "clean_entries (i # is) q = seq (clean_entry i q) (clean_entries is)"

definition desc_to_clean :: "multi_queue \<Rightarrow> u16 outcome" where
  "desc_to_clean q =
     (let d = last_desc_cleaned q + tx_rs_thresh q;
          e = (if d \<ge> nb_tx_desc q then d - nb_tx_desc q else d)
      in check (unat e < length (sw_ring q)) Out_of_range (Inr (last_id (sw_ring q ! unat e))))"

definition xmit_cleanup :: "(multi_queue \<Rightarrow> multi_queue) \<Rightarrow> multi_queue \<Rightarrow> (bool \<times> multi_queue) outcome" where
  "xmit_cleanup hw q0 = (let q = hw q0 in
     seq (desc_to_clean q) (\<lambda>to.
     check (unat to < length (descs q)) Out_of_range
     (if olinfo_status (descs q ! unat to) AND IXGBE_TXD_STAT_DD = 0 then Inr (False, q)
      else let last = last_desc_cleaned q;
             n = (if last > to then (nb_tx_desc q - last) + to else to - last);
             range = (if last > to then [unat last + 1..<unat (nb_tx_desc q)] @ [0..<unat to + 1] else [unat last + 1..<unat to + 1])
        in seq (clean_entries range q) (\<lambda>q1.
          Inr (True, q1\<lparr>descs := (descs q1)[unat to := (descs q1 ! unat to)\<lparr>olinfo_status := 0\<rparr>],
            last_desc_cleaned := to, nb_tx_free := nb_tx_free q1 + n\<rparr>)))))"

section \<open>Sending\<close>

text \<open>A descriptor is written, and the entry is left for the next one.\<close>

definition write_desc :: "u16 \<Rightarrow> (tx_adv_desc \<Rightarrow> tx_adv_desc) \<Rightarrow> nat \<Rightarrow> multi_queue \<Rightarrow> (nat \<times> multi_queue) outcome" where
  "write_desc tx_last f i q = check (i < length (descs q) \<and> i < length (sw_ring q)) Out_of_range
     (Inr (unat (next_id (sw_ring q ! i)), q\<lparr>descs := (descs q)[i := f (descs q ! i)],
       sw_ring := (sw_ring q)[i := (sw_ring q ! i)\<lparr>last_id := tx_last\<rparr>]\<rparr>))"

text \<open>The result is the descriptor written last, the next one, and the queue.\<close>

fun write_descs :: "u16 \<Rightarrow> (tx_adv_desc \<Rightarrow> tx_adv_desc) list \<Rightarrow> nat \<Rightarrow> nat \<Rightarrow> multi_queue \<Rightarrow> (nat \<times> nat \<times> multi_queue) outcome" where
  "write_descs tx_last [] txd i q = Inr (txd, i, q)"
| "write_descs tx_last (f # fs) txd i q = seq (write_desc tx_last f i q) (\<lambda>(j, q1). write_descs tx_last fs i j q1)"

definition keep_packet :: "exo_mbuf \<Rightarrow> nat \<Rightarrow> multi_queue \<Rightarrow> multi_queue outcome" where
  "keep_packet p i q = check (i < length (sw_ring q)) Out_of_range
     (Inr (q\<lparr>sw_ring := (sw_ring q)[i := (sw_ring q ! i)\<lparr>tx_buf := p\<rparr>]\<rparr>))"

definition mark_report :: "nat \<Rightarrow> multi_queue \<Rightarrow> multi_queue" where
  "mark_report i q = (if nb_tx_used q \<ge> tx_rs_thresh q
     then q\<lparr>nb_tx_used := 0, descs := (descs q)[i := (descs q ! i)\<lparr>cmd_type_len := cmd_type_len (descs q ! i) OR IXGBE_ADVTXD_DCMD_RS\<rparr>]\<rparr>
     else q)"

definition place_packet :: "exo_mbuf \<Rightarrow> nat \<Rightarrow> multi_queue \<Rightarrow> (nat \<times> multi_queue) outcome" where
  "place_packet p tx_id q =
     (let nb_used = ucast (nb_segment p) + 1 :: u16;
          l = of_nat tx_id + nb_used - 1;
          tx_last = (if l \<ge> nb_tx_desc q then l - nb_tx_desc q else l) in
      check (nb_used \<le> nb_tx_free q) Assertion
      (seq (write_desc tx_last context_desc tx_id q) (\<lambda>(i, q1).
       seq (keep_packet p i q1) (\<lambda>q2.
       seq (data_descs p) (\<lambda>fs.
       seq (write_descs tx_last fs i i q2) (\<lambda>(txd, j, q3).
         Inr (j, mark_report txd (q3\<lparr>nb_tx_used := nb_tx_used q3 + nb_used, nb_tx_free := nb_tx_free q3 - nb_used\<rparr>))))))))"

text \<open>The loop over the packets; the result is the number of them that were placed and the next descriptor.\<close>

fun multi_loop :: "(multi_queue \<Rightarrow> multi_queue) \<Rightarrow> exo_mbuf list \<Rightarrow> nat \<Rightarrow> nat \<Rightarrow> multi_queue \<Rightarrow> (nat \<times> nat \<times> multi_queue) outcome" where
  "multi_loop hw [] nb_tx tx_id q = Inr (nb_tx, tx_id, q)"
| "multi_loop hw (p # ps) nb_tx tx_id q =
     seq (if ucast (nb_segment p) + 1 > nb_tx_free q then xmit_cleanup hw q else Inr (True, q)) (\<lambda>(ok, q1).
       if \<not> ok then Inr (nb_tx, tx_id, q1)
       else seq (place_packet p tx_id q1) (\<lambda>(i, q2). multi_loop hw ps (nb_tx + 1) i q2))"

definition multi_send :: "(multi_queue \<Rightarrow> multi_queue) \<Rightarrow> exo_mbuf list \<Rightarrow> multi_queue \<Rightarrow> (nat \<times> multi_queue) outcome" where
  "multi_send hw ps q =
     (let tx_id = unat (tx_tail q) in
      seq (if int (unat (nb_tx_desc q)) - int (unat (nb_tx_free q)) > int (unat (tx_free_thresh q)) then xmit_cleanup hw q else Inr (True, q)) (\<lambda>(_, q1).
      seq (multi_loop hw ps 0 tx_id q1) (\<lambda>(nb_tx, i, q2).
        if nb_tx = 0 \<and> ps \<noteq> [] then Inr (0, q2)
        else Inr (nb_tx, q2\<lparr>tx_tdt := i, tx_tail := of_nat i\<rparr>))))"

section \<open>The card\<close>

text \<open>
  The card takes the descriptor at its head, unless the head has reached the tail. A context descriptor (bit 20 is clear)
  sends nothing. A data descriptor adds a fragment to the frame, which goes out with the fragment marked as the end (bit
  24). If the descriptor asks for a report (bit 27), its status becomes done.
\<close>

definition deliver :: "tx_adv_desc \<Rightarrow> (u64 \<times> u16) list list \<times> (u64 \<times> u16) list \<Rightarrow> (u64 \<times> u16) list list \<times> (u64 \<times> u16) list" where
  "deliver d w = (let f = snd w @ [(desc_address d, ucast (cmd_type_len d))] in
     if \<not> bit (cmd_type_len d) 20 then w else if bit (cmd_type_len d) 24 then (fst w @ [f], []) else (fst w, f))"

inductive multi_hw :: "multi_queue \<Rightarrow> multi_queue \<Rightarrow> bool" where
  multi_take: "tx_head q \<noteq> tx_tdt q \<Longrightarrow> d = descs q ! tx_head q \<Longrightarrow>
    (if bit (cmd_type_len d) 27 then bit s 0 else s = olinfo_status d) \<Longrightarrow> deliver d (frames q, fragments q) = (fr, fg) \<Longrightarrow>
    multi_hw q (q\<lparr>descs := (descs q)[tx_head q := d\<lparr>olinfo_status := s\<rparr>], tx_head := (tx_head q + 1) mod 512, frames := fr, fragments := fg\<rparr>)"

text \<open>A packet's fragments, and the packets whose number of segments is the number of their fragments.\<close>

definition frame_of :: "exo_mbuf \<Rightarrow> (u64 \<times> u16) list" where
  "frame_of p = (phys_addr p, mbuf_len p) # (if nb_segment p = 1 then [] else
     (if seg_len p ! 0 \<noteq> 0 then [(phys_addr_seg p ! 0, seg_len p ! 0)] else []) @
     (if seg_len p ! 1 \<noteq> 0 then [(phys_addr_seg p ! 1, seg_len p ! 1)] else []))"

definition segments_ok :: "exo_mbuf \<Rightarrow> bool" where
  "segments_ok p \<longleftrightarrow> unat (nb_segment p) = length (frame_of p)"

text \<open>The states after packets have been accepted; \<open>hw\<close> is any behaviour of the card during a call.\<close>

definition start_queue :: multi_queue where
  "start_queue = tx_queue.extend (configure_tx_queue [] []) \<lparr>frames = [], fragments = []\<rparr>"

inductive multi_reached :: "exo_mbuf list \<Rightarrow> multi_queue \<Rightarrow> bool" where
  multi_start: "multi_reached [] start_queue"
| multi_sent: "multi_reached ps q \<Longrightarrow> list_all segments_ok bs \<Longrightarrow> (\<And>q. multi_hw\<^sup>*\<^sup>* q (hw q)) \<Longrightarrow> multi_send hw bs q = Inr (n, q') \<Longrightarrow>
    multi_reached (ps @ take n bs) q'"
| multi_moved: "multi_reached ps q \<Longrightarrow> multi_hw q q' \<Longrightarrow> multi_reached ps q'"

section \<open>What the descriptors stand for\<close>

text \<open>
  For a descriptor in use: the fragment it carries (none for a context descriptor) and whether it is the last one of its
  packet, whether it asks for a report, the distance to the last descriptor of its packet, and the buffer kept in its entry.
\<close>

record slot =
  carried :: "(u64 \<times> u16 \<times> bool) option"
  report :: bool
  to_last :: nat
  kept :: exo_mbuf

definition data_slot :: "exo_mbuf \<Rightarrow> bool \<Rightarrow> nat \<Rightarrow> slot" where
  "data_slot p rs i = (let f = frame_of p; e = (Suc i = length f) in
     \<lparr>carried = Some (fst (f ! i), snd (f ! i), e), report = (rs \<and> e), to_last = length f - Suc i, kept = (if i = 0 then p else zero_mbuf)\<rparr>)"

definition packet_slots :: "exo_mbuf \<Rightarrow> bool \<Rightarrow> slot list" where
  "packet_slots p rs = \<lparr>carried = None, report = False, to_last = length (frame_of p), kept = zero_mbuf\<rparr> # map (data_slot p rs) [0..<length (frame_of p)]"

definition used_next :: "nat \<Rightarrow> exo_mbuf \<Rightarrow> nat" where
  "used_next u p = (let v = u + Suc (length (frame_of p)) in if v \<ge> 64 then 0 else v)"

fun slots :: "nat \<Rightarrow> exo_mbuf list \<Rightarrow> slot list" where
  "slots u [] = []"
| "slots u (p # ps) = packet_slots p (u + Suc (length (frame_of p)) \<ge> 64) @ slots (used_next u p) ps"

fun used_after :: "nat \<Rightarrow> exo_mbuf list \<Rightarrow> nat" where
  "used_after u [] = u"
| "used_after u (p # ps) = used_after (used_next u p) ps"

lemma slots_append: "slots u (ps @ rs) = slots u ps @ slots (used_after u ps) rs"
  by (induction ps arbitrary: u) simp_all

lemma used_after_append: "used_after u (ps @ rs) = used_after (used_after u ps) rs"
  by (induction ps arbitrary: u) simp_all

lemma frame_bounds: "1 \<le> length (frame_of p)" "length (frame_of p) \<le> 3"
  by (simp_all add: frame_of_def)

lemma frame_of_nonempty [simp]: "frame_of p \<noteq> []"
  by (simp add: frame_of_def)

lemma length_packet_slots [simp]: "length (packet_slots p rs) = Suc (length (frame_of p))"
  by (simp add: packet_slots_def)

lemma used_next_less: "u < 64 \<Longrightarrow> used_next u p < 64"
  by (simp add: used_next_def Let_def)

lemma used_after_less: "u < 64 \<Longrightarrow> used_after u ps < 64"
  by (induction ps arbitrary: u) (simp_all add: used_next_less)

text \<open>The reports divide the packets into groups; the descriptor number 63 of a group belongs to its last packet.\<close>

lemma first_group:
  "u < 64 \<Longrightarrow> 64 \<le> u + length (slots u ps) \<Longrightarrow>
    \<exists>g rs B. ps = g @ rs \<and> used_after u g = 0 \<and> B = length (slots u g) \<and> 64 \<le> u + B \<and> u + B < 68 \<and> 0 < B \<and>
      report (slots u g ! (B - 1)) \<and> (\<forall>j<B - 1. \<not> report (slots u g ! j)) \<and> 63 - u + to_last (slots u g ! (63 - u)) = B - 1"
proof (induction ps arbitrary: u)
  case Nil
  then show ?case by simp
next
  case (Cons p ps)
  let ?n = "length (frame_of p)"
  note n = frame_bounds [of p]
  show ?case
  proof (cases "u + Suc ?n \<ge> 64")
    case True
    have s: "slots u [p] = packet_slots p True" using True by simp
    have "report (packet_slots p True ! ?n)" using n by (simp add: packet_slots_def nth_Cons' data_slot_def Let_def)
    moreover have "\<not> report (packet_slots p True ! j)" if "j < ?n" for j
      using that by (auto simp: packet_slots_def nth_Cons' data_slot_def Let_def)
    moreover have "63 - u + to_last (packet_slots p True ! (63 - u)) = ?n"
      using True Cons.prems(1) by (auto simp: packet_slots_def nth_Cons' data_slot_def Let_def)
    ultimately show ?thesis using True Cons.prems(1) n
      by (intro exI [of _ "[p]"] exI [of _ ps] exI [of _ "Suc ?n"]) (simp add: s used_next_def Let_def)
  next
    case False
    define v where "v = u + Suc ?n"
    have v: "v < 64" "v = u + Suc ?n" "used_next u p = v" using False by (simp_all add: used_next_def Let_def v_def)
    from Cons.IH [OF v(1)] Cons.prems(2) v obtain g rs B where g: "ps = g @ rs" "used_after v g = 0" "B = length (slots v g)"
      "64 \<le> v + B" "v + B < 68" "0 < B" "report (slots v g ! (B - 1))" "\<forall>j<B - 1. \<not> report (slots v g ! j)"
      "63 - v + to_last (slots v g ! (63 - v)) = B - 1" by auto
    define S where "S = slots u (p # g)"
    have S: "S = packet_slots p False @ slots v g" using False v(3) by (simp add: S_def)
    have none: "\<not> report (packet_slots p False ! j)" if "j < Suc ?n" for j
      using that by (auto simp: packet_slots_def nth_Cons' data_slot_def Let_def)
    have at: "S ! j = (if j < Suc ?n then packet_slots p False ! j else slots v g ! (j - Suc ?n))" for j
      by (simp add: S nth_append)
    have "\<not> report (S ! j)" if "j < Suc ?n + B - 1" for j
      using that none g(6,8) by (auto simp: at)
    moreover have "report (S ! (Suc ?n + B - 1))" using g(6,7) by (simp add: at)
    moreover have "63 - u + to_last (S ! (63 - u)) = Suc ?n + B - 1"
    proof -
      have "S ! (63 - u) = slots v g ! (63 - v)" using v by (simp add: at)
      then show ?thesis using g(6,9) v(1,2) by simp
    qed
    moreover have "length S = Suc ?n + B" by (simp add: S g(3))
    ultimately show ?thesis using g(1,2,4-6) v unfolding S_def
      by (intro exI [of _ "p # g"] exI [of _ rs] exI [of _ "Suc ?n + B"]) simp
  qed
qed

text \<open>What the card has sent after some descriptors.\<close>

fun play :: "slot list \<Rightarrow> (u64 \<times> u16) list list \<times> (u64 \<times> u16) list \<Rightarrow> (u64 \<times> u16) list list \<times> (u64 \<times> u16) list" where
  "play [] w = w"
| "play (e # es) w = play es (case carried e of None \<Rightarrow> w
     | Some (a, l, eop) \<Rightarrow> if eop then (fst w @ [snd w @ [(a, l)]], []) else (fst w, snd w @ [(a, l)]))"

lemma play_append: "play (es @ fs) w = play fs (play es w)"
  by (induction es arbitrary: w) simp_all

lemma play_data:
  assumes "k \<le> length (frame_of p)"
  shows "play (map (data_slot p rs) [0..<k]) (fr, []) = (if k = length (frame_of p) then (fr @ [frame_of p], []) else (fr, take k (frame_of p)))"
  using assms
proof (induction k)
  case 0
  then show ?case by simp
next
  case (Suc k)
  then have "take k (frame_of p) @ [frame_of p ! k] = take (Suc k) (frame_of p)" by (simp add: take_Suc_conv_app_nth)
  then show ?case using Suc by (simp add: play_append data_slot_def Let_def)
qed

lemma play_packet: "play (packet_slots p rs) (fr, []) = (fr @ [frame_of p], [])"
  using play_data [of "length (frame_of p)" p rs fr] by (simp add: packet_slots_def)

lemma play_slots: "play (slots u ps) (fr, []) = (fr @ map frame_of ps, [])"
  by (induction ps arbitrary: u fr) (simp_all add: play_append play_packet)

lemma play_prefix: "\<exists>k\<le>length ps. fst (play (take h (slots u ps)) (fr, [])) = fr @ map frame_of (take k ps)"
proof (induction ps arbitrary: h u fr)
  case Nil
  then show ?case by simp
next
  case (Cons p ps)
  let ?n = "Suc (length (frame_of p))" and ?P = "packet_slots p (u + Suc (length (frame_of p)) \<ge> 64)"
  show ?case
  proof (cases "h < ?n")
    case True
    have "fst (play (take h ?P) (fr, [])) = fr"
    proof (cases h)
      case (Suc k)
      then have "take h ?P = ?P ! 0 # map (data_slot p (u + Suc (length (frame_of p)) \<ge> 64)) [0..<k]" "k < length (frame_of p)"
        using True by (simp_all add: packet_slots_def take_map)
      then show ?thesis using play_data [of k p] by (simp add: packet_slots_def)
    qed simp
    then show ?thesis using True by (intro exI [of _ 0]) simp
  next
    case False
    from Cons.IH [of "h - ?n" "used_next u p" "fr @ [frame_of p]"] obtain k where
      "k \<le> length ps" "fst (play (take (h - ?n) (slots (used_next u p) ps)) (fr @ [frame_of p], [])) = (fr @ [frame_of p]) @ map frame_of (take k ps)" by blast
    then show ?thesis using False by (intro exI [of _ "Suc k"]) (simp add: play_append play_packet)
  qed
qed

lemma slots_frees: "concat (map (\<lambda>e. frees_of (kept e)) (slots u ps)) = concat (map frees_of ps)"
proof (induction ps arbitrary: u)
  case Nil
  then show ?case by simp
next
  case (Cons p ps)
  have z: "frees_of zero_mbuf = []" by (simp add: frees_of_def zero_mbuf_def)
  obtain n where n: "length (frame_of p) = Suc n" by (cases "frame_of p") auto
  have rest: "concat (map (\<lambda>i. frees_of (kept (data_slot p rs (Suc i)))) [0..<m]) = []" for rs m
    by (simp add: data_slot_def Let_def z)
  have "concat (map (\<lambda>e. frees_of (kept e)) (packet_slots p rs)) = frees_of p" for rs
    using rest [of rs n] unfolding packet_slots_def n upt_conv_Cons [OF zero_less_Suc] map_Suc_upt [symmetric]
    by (simp add: z data_slot_def Let_def comp_def)
  then show ?case using Cons by simp
qed

section \<open>The ring between driver and card\<close>

abbreviation at_slot :: "nat \<Rightarrow> nat \<Rightarrow> nat" where
  "at_slot c j \<equiv> (c + j) mod 512"

definition desc_is :: "tx_adv_desc \<Rightarrow> slot \<Rightarrow> bool" where
  "desc_is d e \<longleftrightarrow> (bit (cmd_type_len d) 27 \<longleftrightarrow> report e) \<and> (case carried e of None \<Rightarrow> \<not> bit (cmd_type_len d) 20
     | Some (a, l, eop) \<Rightarrow> bit (cmd_type_len d) 20 \<and> desc_address d = a \<and> ucast (cmd_type_len d) = l \<and> (bit (cmd_type_len d) 24 \<longleftrightarrow> eop))"

text \<open>The descriptor and the entry of a slot in use, number \<open>j\<close> from \<open>c\<close> on, when the card has taken \<open>h\<close>; and those of a free one.\<close>

definition slot_used :: "nat \<Rightarrow> nat \<Rightarrow> nat \<Rightarrow> slot \<Rightarrow> tx_adv_desc \<Rightarrow> tx_entry \<Rightarrow> bool" where
  "slot_used c h j e d x \<longleftrightarrow> (h \<le> j \<longrightarrow> desc_is d e) \<and> (bit (olinfo_status d) 0 \<longleftrightarrow> report e \<and> j < h) \<and>
     unat (last_id x) = at_slot c (j + to_last e) \<and> tx_buf x = kept e"

definition slot_unused :: "tx_adv_desc \<Rightarrow> tx_entry \<Rightarrow> bool" where
  "slot_unused d x \<longleftrightarrow> \<not> bit (olinfo_status d) 0 \<and> tx_buf x = zero_mbuf"

definition multi_sizes :: "multi_queue \<Rightarrow> bool" where
  "multi_sizes q \<longleftrightarrow> length (descs q) = 512 \<and> length (sw_ring q) = 512 \<and> nb_tx_desc q = 512 \<and> tx_rs_thresh q = 64 \<and> tx_free_thresh q = 64 \<and>
     (\<forall>i<512. unat (next_id (sw_ring q ! i)) = (i + 1) mod 512)"

text \<open>
  The packets \<open>cs\<close> have been cleaned up, the packets \<open>ps\<close> are in the ring from slot \<open>c\<close> on; of their descriptors the card may
  take the first \<open>t\<close> and has taken \<open>h\<close>.
\<close>

definition multi_inv :: "exo_mbuf list \<Rightarrow> exo_mbuf list \<Rightarrow> nat \<Rightarrow> nat \<Rightarrow> nat \<Rightarrow> multi_queue \<Rightarrow> bool" where
  "multi_inv cs ps h t c q \<longleftrightarrow> multi_sizes q \<and> c < 512 \<and> h \<le> t \<and> t \<le> length (slots 0 ps) \<and> unat (nb_tx_free q) + length (slots 0 ps) = 511 \<and>
     unat (last_desc_cleaned q) = at_slot c 511 \<and> unat (nb_tx_used q) = used_after 0 ps \<and> tx_head q = at_slot c h \<and> tx_tdt q = at_slot c t \<and>
     (\<forall>j<length (slots 0 ps). slot_used c h j (slots 0 ps ! j) (descs q ! at_slot c j) (sw_ring q ! at_slot c j)) \<and>
     (\<forall>j<512. length (slots 0 ps) \<le> j \<longrightarrow> slot_unused (descs q ! at_slot c j) (sw_ring q ! at_slot c j)) \<and>
     (frames q, fragments q) = play (take h (slots 0 ps)) (map frame_of cs, []) \<and> freed q = concat (map frees_of cs)"

lemma multi_invD:
  assumes "multi_inv cs ps h t c q"
  shows "multi_sizes q" "c < 512" "h \<le> t" "t \<le> length (slots 0 ps)" "unat (nb_tx_free q) + length (slots 0 ps) = 511"
    "unat (last_desc_cleaned q) = at_slot c 511" "unat (nb_tx_used q) = used_after 0 ps" "tx_head q = at_slot c h" "tx_tdt q = at_slot c t"
    "\<And>j. j < length (slots 0 ps) \<Longrightarrow> slot_used c h j (slots 0 ps ! j) (descs q ! at_slot c j) (sw_ring q ! at_slot c j)"
    "\<And>j. j < 512 \<Longrightarrow> length (slots 0 ps) \<le> j \<Longrightarrow> slot_unused (descs q ! at_slot c j) (sw_ring q ! at_slot c j)"
    "(frames q, fragments q) = play (take h (slots 0 ps)) (map frame_of cs, [])" "freed q = concat (map frees_of cs)"
  using assms unfolding multi_inv_def by blast+

lemma slot_differs: "i < 512 \<Longrightarrow> j < 512 \<Longrightarrow> i \<noteq> j \<Longrightarrow> at_slot c i \<noteq> at_slot c j"
  using ring_slots_differ [of i 512 j c] by blast

lemma slots_inj: "B \<le> 512 \<Longrightarrow> inj_on (at_slot c) {0..<B}"
proof (rule inj_onI)
  fix i j assume "B \<le> 512" "i \<in> {0..<B}" "j \<in> {0..<B}" "at_slot c i = at_slot c j"
  then show "i = j" using ring_slots_differ [of i 512 j c] by simp
qed

lemma deliver_plays: "desc_is d e \<Longrightarrow> deliver d w = play [e] w"
  by (auto simp: desc_is_def deliver_def Let_def split: option.splits prod.splits)

lemma multi_inv_hw:
  assumes inv: "multi_inv cs ps h t c q" and hw: "multi_hw q q'"
  shows "multi_inv cs ps (h + 1) t c q' \<and> tx_tail q' = tx_tail q"
  using hw
proof (cases rule: multi_hw.cases)
  case (multi_take d s fr fg)
  note i = multi_invD [OF inv]
  let ?F = "slots 0 ps"
  have h: "h < t" using multi_take(2) i(3,8,9) by (cases "h = t") auto
  then have hF: "h < length ?F" "length ?F \<le> 511" using i(4,5) by auto
  have use: "slot_used c h h (?F ! h) d (sw_ring q ! at_slot c h)" using i(8) i(10) [OF hF(1)] multi_take(3) by simp
  then have d: "desc_is d (?F ! h)" by (simp add: slot_used_def)
  have len: "length (descs q) = 512" using i(1) by (simp add: multi_sizes_def)
  have at: "descs q' ! at_slot c j = (if j = h then d\<lparr>olinfo_status := s\<rparr> else descs q ! at_slot c j)" if "j < 512" for j
    using that multi_take(1) i(8) slot_differs [of j h c] hF len by (auto simp: nth_list_update)
  have dd: "bit s 0 \<longleftrightarrow> report (?F ! h)"
    using multi_take(4) d use by (auto simp: desc_is_def slot_used_def split: if_splits)
  have "slot_used c (h + 1) j (?F ! j) (descs q' ! at_slot c j) (sw_ring q' ! at_slot c j)" if "j < length ?F" for j
  proof (cases "j = h")
    case True
    then show ?thesis using use dd at [of h] hF multi_take(1) by (simp add: slot_used_def)
  next
    case False
    then have "h + 1 \<le> j \<longleftrightarrow> h \<le> j" "j < h + 1 \<longleftrightarrow> j < h" "descs q' ! at_slot c j = descs q ! at_slot c j" "sw_ring q' = sw_ring q"
      using at [of j] that hF(2) multi_take(1) by auto
    then show ?thesis using i(10) [OF that] by (simp only: slot_used_def) blast
  qed
  moreover have "slot_unused (descs q' ! at_slot c j) (sw_ring q' ! at_slot c j)" if "j < 512" "length ?F \<le> j" for j
    using that hF i(11) [OF that] at [of j] multi_take(1) by simp
  moreover have "(frames q', fragments q') = play (take (h + 1) ?F) (map frame_of cs, [])"
    using multi_take(1,5) deliver_plays [OF d] i(12) hF(1) by (simp add: take_Suc_conv_app_nth play_append)
  ultimately show ?thesis
    using i(1-9,13) h multi_take(1) unfolding multi_inv_def by (simp add: multi_sizes_def mod_Suc_eq)
qed

lemma multi_inv_steps:
  assumes "multi_hw\<^sup>*\<^sup>* q q'" "multi_inv cs ps h t c q"
  shows "\<exists>h'. h \<le> h' \<and> multi_inv cs ps h' t c q' \<and> tx_tail q' = tx_tail q"
  using assms
proof (induction rule: rtranclp_induct)
  case base
  then show ?case by blast
next
  case (step y z)
  then show ?case using multi_inv_hw by (metis le_add1 le_trans)
qed

section \<open>Cleaning up\<close>

lemma clean_entries_all:
  "distinct is \<Longrightarrow> \<forall>i\<in>set is. i < 512 \<Longrightarrow> length (sw_ring q) = 512 \<Longrightarrow> nb_tx_desc q = 512 \<Longrightarrow>
    \<exists>A. clean_entries is q = Inr (q\<lparr>freed := freed q @ concat (map (\<lambda>i. frees_of (tx_buf (sw_ring q ! i))) is), sw_ring := A\<rparr>) \<and> length A = 512 \<and>
      (\<forall>k<512. A ! k = (if k \<in> set is then zero_entry\<lparr>next_id := of_nat (k + 1) mod 512, last_id := of_nat k\<rparr> else sw_ring q ! k))"
proof (induction "is" arbitrary: q)
  case Nil
  then show ?case by (intro exI [of _ "sw_ring q"]) simp
next
  case (Cons i js)
  let ?z = "zero_entry\<lparr>next_id := of_nat (i + 1) mod 512, last_id := of_nat i\<rparr>"
  define q1 where "q1 = q\<lparr>freed := freed q @ frees_of (tx_buf (sw_ring q ! i)), sw_ring := (sw_ring q)[i := ?z]\<rparr>"
  have run: "clean_entries (i # js) q = clean_entries js q1"
    using Cons.prems by (simp add: clean_entry_def q1_def)
  have same: "map (\<lambda>k. frees_of (tx_buf (sw_ring q1 ! k))) js = map (\<lambda>k. frees_of (tx_buf (sw_ring q ! k))) js"
  proof (rule map_cong [OF refl])
    fix k assume "k \<in> set js"
    then have "i \<noteq> k" using Cons.prems(1) by auto
    then show "frees_of (tx_buf (sw_ring q1 ! k)) = frees_of (tx_buf (sw_ring q ! k))" by (simp add: q1_def)
  qed
  obtain A where A: "clean_entries js q1 = Inr (q1\<lparr>freed := freed q1 @ concat (map (\<lambda>i. frees_of (tx_buf (sw_ring q1 ! i))) js), sw_ring := A\<rparr>)"
    "length A = 512" "\<forall>k<512. A ! k = (if k \<in> set js then zero_entry\<lparr>next_id := of_nat (k + 1) mod 512, last_id := of_nat k\<rparr> else sw_ring q1 ! k)"
    using Cons.IH [of q1] Cons.prems by (auto simp: q1_def)
  have "A ! k = (if k \<in> set (i # js) then zero_entry\<lparr>next_id := of_nat (k + 1) mod 512, last_id := of_nat k\<rparr> else sw_ring q ! k)" if "k < 512" for k
    using A(3) that Cons.prems(3) by (auto simp: q1_def nth_list_update)
  moreover have "clean_entries (i # js) q = Inr (q\<lparr>freed := freed q @ concat (map (\<lambda>i. frees_of (tx_buf (sw_ring q ! i))) (i # js)), sw_ring := A\<rparr>)"
    unfolding run A(1) same by (simp add: q1_def)
  ultimately show ?case using A(2) by blast
qed

text \<open>The entries between the last one cleaned and the last one of the next group, across the end of the ring.\<close>

lemma clean_range:
  fixes c B :: nat
  assumes c: "c < 512" "0 < B" "B < 512" and lo: "lo = at_slot c 511" and hi: "hi = at_slot c (B - 1)"
  shows "(if lo > hi then [lo + 1..<512] @ [0..<hi + 1] else [lo + 1..<hi + 1]) = map (at_slot c) [0..<B]"
    "(if lo > hi then (512 - lo) + hi else hi - lo) = B"
proof -
  have upt: "map (at_slot c) [0..<k] = [c..<c + k]" if "c + k \<le> 512" for k
    using that by (intro nth_equalityI) simp_all
  consider "c = 0" | "0 < c" "c + B \<le> 512" | "0 < c" "512 < c + B" by linarith
  then have "(if lo > hi then [lo + 1..<512] @ [0..<hi + 1] else [lo + 1..<hi + 1]) = map (at_slot c) [0..<B] \<and>
    (if lo > hi then (512 - lo) + hi else hi - lo) = B"
  proof cases
    case 1
    then show ?thesis using upt [of B] c lo hi by simp
  next
    case 2
    then have "lo = c - 1" "hi = c + B - 1" using c lo hi by (simp_all add: le_mod_geq)
    then show ?thesis using 2 c(2) upt [of B] by simp
  next
    case 3
    then have l: "lo = c - 1" "hi = c + B - 513" "lo > hi" using c lo hi by (simp_all add: le_mod_geq)
    have "map (at_slot c) [512 - c..<B] = [0..<c + B - 512]"
      using 3 c by (intro nth_equalityI) (simp_all add: le_mod_geq)
    moreover have "[0..<B] = [0..<512 - c] @ [512 - c..<B]" using 3 upt_add_eq_append [of 0 "512 - c" "B - (512 - c)"] by simp
    ultimately have "map (at_slot c) [0..<B] = [c..<512] @ [0..<c + B - 512]" using upt [of "512 - c"] c(1) by simp
    moreover have "lo + 1 = c" "hi + 1 = c + B - 512" "(512 - lo) + hi = B" using l(1,2) 3 c by linarith+
    ultimately show ?thesis using l(3) by simp
  qed
  then show "(if lo > hi then [lo + 1..<512] @ [0..<hi + 1] else [lo + 1..<hi + 1]) = map (at_slot c) [0..<B]"
    "(if lo > hi then (512 - lo) + hi else hi - lo) = B" by blast+
qed

lemma desc_to_clean_slot:
  assumes inv: "multi_inv cs ps h t c q" and used: "64 \<le> length (slots 0 ps)"
  shows "desc_to_clean q = Inr (last_id (sw_ring q ! at_slot c 63))"
proof -
  note i = multi_invD [OF inv]
  have sizes: "length (sw_ring q) = 512" "nb_tx_desc q = 512" "tx_rs_thresh q = 64" using i(1) by (simp_all add: multi_sizes_def)
  let ?d = "last_desc_cleaned q + 64"
  have "unat ?d = at_slot c 511 + 64" using i(6) by (simp add: unat_plus_if_size size_word_def)
  moreover have "unat (?d - 512) = unat ?d - 512" if "512 \<le> ?d" using unat_sub [of 512 ?d] that by (simp add: word_le_nat_alt)
  moreover have "(if 512 \<le> at_slot c 511 + 64 then at_slot c 511 + 64 - 512 else at_slot c 511 + 64) = at_slot c 63"
    using i(2) by (cases "c = 0"; cases "c < 449") (auto simp: le_mod_geq)
  ultimately have "unat (if ?d \<ge> 512 then ?d - 512 else ?d) = at_slot c 63" by (auto simp: word_le_nat_alt)
  then show ?thesis by (simp only: desc_to_clean_def Let_def sizes) simp
qed

lemma multi_inv_cleaned:
  assumes inv: "multi_inv cs (g @ rs) h t c q" and g: "used_after 0 g = 0" "B = length (slots 0 g)" "0 < B" "B \<le> h"
    and A: "length A = 512" "\<And>k. k < 512 \<Longrightarrow> A ! k = (if k \<in> set (map (at_slot c) [0..<B]) then zero_entry\<lparr>next_id := of_nat (k + 1) mod 512, last_id := of_nat k\<rparr> else sw_ring q ! k)"
    and D: "length D = 512" "\<And>j. j < 512 \<Longrightarrow> j \<noteq> B - 1 \<Longrightarrow> D ! at_slot c j = descs q ! at_slot c j" "\<not> bit (olinfo_status (D ! at_slot c (B - 1))) 0"
    and reports: "\<forall>j<B - 1. \<not> report (slots 0 g ! j)"
    and n: "unat (last_desc_cleaned q') = at_slot c (B - 1)" "unat (nb_tx_free q') = unat (nb_tx_free q) + B"
    and q': "q' = q\<lparr>freed := freed q @ concat (map frees_of g), sw_ring := A, descs := D, last_desc_cleaned := x, nb_tx_free := y\<rparr>"
  shows "multi_inv (cs @ g) rs (h - B) (t - B) (at_slot c B) q'"
proof -
  note i = multi_invD [OF inv]
  have F: "slots 0 (g @ rs) = slots 0 g @ slots 0 rs" using g(1) by (simp add: slots_append)
  let ?R = "slots 0 rs" and ?c = "at_slot c B"
  have len: "B + length ?R \<le> 511" using i(5) F g(2) by simp
  have shift: "at_slot ?c j = at_slot c (B + j)" for j by (simp add: mod_add_left_eq add.assoc)
  have old: "at_slot c k \<notin> set (map (at_slot c) [0..<B])" if "B \<le> k" "k < 512" for k
  proof -
    have "at_slot c k \<noteq> at_slot c j" if "j < B" for j using \<open>B \<le> k\<close> \<open>k < 512\<close> that by (intro slot_differs) simp_all
    then show ?thesis unfolding set_map by auto metis
  qed
  have "slot_used ?c (h - B) j (?R ! j) (descs q' ! at_slot ?c j) (sw_ring q' ! at_slot ?c j)" if j: "j < length ?R" for j
  proof -
    have u: "slot_used c h (B + j) (?R ! j) (descs q ! at_slot c (B + j)) (sw_ring q ! at_slot c (B + j))"
      using i(10) [of "B + j"] j unfolding F by (simp add: nth_append g(2))
    have "descs q' ! at_slot ?c j = descs q ! at_slot c (B + j)" "sw_ring q' ! at_slot ?c j = sw_ring q ! at_slot c (B + j)"
      unfolding shift using D(2) [of "B + j"] A(2) [of "at_slot c (B + j)"] old [of "B + j"] j len g(3) by (auto simp: q')
    moreover have "h - B \<le> j \<longleftrightarrow> h \<le> B + j" "j < h - B \<longleftrightarrow> B + j < h" using g(4) by auto
    moreover have "at_slot c (B + j + to_last (?R ! j)) = at_slot ?c (j + to_last (?R ! j))" by (simp add: shift add.assoc)
    ultimately show ?thesis using u by (simp only: slot_used_def) blast
  qed
  moreover have "slot_unused (descs q' ! at_slot ?c j) (sw_ring q' ! at_slot ?c j)" if j: "j < 512" "length ?R \<le> j" for j
  proof (cases "B + j < 512")
    case True
    then have "descs q' ! at_slot ?c j = descs q ! at_slot c (B + j)" "sw_ring q' ! at_slot ?c j = sw_ring q ! at_slot c (B + j)"
      unfolding shift using D(2) [of "B + j"] A(2) [of "at_slot c (B + j)"] old [of "B + j"] g(3) by (auto simp: q')
    then show ?thesis using i(11) [of "B + j"] True j(2) by (simp add: F g(2))
  next
    case False
    define k where "k = B + j - 512"
    have k: "k < B" "at_slot ?c j = at_slot c k" using False j(1) unfolding shift by (auto simp: k_def le_mod_geq)
    have "\<not> bit (olinfo_status (D ! at_slot c k)) 0"
    proof (cases "k = B - 1")
      case True
      then show ?thesis using D(3) by simp
    next
      case False
      then show ?thesis using i(10) [of k] k(1) D(2) [of k] reports len g(2) by (simp add: F nth_append slot_used_def)
    qed
    moreover have "at_slot c k \<in> set (map (at_slot c) [0..<B])" using k(1) by simp
    ultimately show ?thesis using k(2) A(2) [of "at_slot c k"] by (simp add: q' slot_unused_def zero_entry_def)
  qed
  moreover have "(frames q', fragments q') = play (take (h - B) ?R) (map frame_of (cs @ g), [])"
    using i(12) g(2,4) by (simp add: F play_append play_slots q')
  moreover have "unat (next_id (A ! k)) = (k + 1) mod 512" if "k < 512" for k
  proof -
    have "unat (of_nat (k + 1) mod 512 :: u16) = (k + 1) mod 512" using u16_small [of "k + 1"] that by (simp add: unat_mod)
    then show ?thesis using A(2) [OF that] i(1) that by (simp add: multi_sizes_def)
  qed
  then have "multi_sizes q'" using i(1) A(1) D(1) by (simp add: multi_sizes_def q')
  moreover have "at_slot ?c 511 = at_slot c (B - 1)"
  proof -
    have "c + (B + 511) = c + (B - 1) + 512" using g(3) by simp
    then show ?thesis by (simp only: shift mod_add_self2)
  qed
  moreover have "at_slot ?c (h - B) = at_slot c h" "at_slot ?c (t - B) = at_slot c t" unfolding shift using g(4) i(3) by simp_all
  moreover have "h - B \<le> t - B" "t - B \<le> length ?R" using i(3,4) g(2) by (simp_all add: F)
  moreover have "unat (nb_tx_free q') + length ?R = 511" using i(5) n(2) g(2) by (simp add: F)
  moreover have "unat (nb_tx_used q') = used_after 0 rs" using i(7) g(1) by (simp add: q' used_after_append)
  moreover have "tx_head q' = at_slot c h" "tx_tdt q' = at_slot c t" "freed q' = concat (map frees_of (cs @ g))" using i(8,9,13) by (simp_all add: q')
  moreover have "?c < 512" by simp
  ultimately show ?thesis unfolding multi_inv_def n(1) by (intro conjI allI impI) (simp_all only:)
qed

lemma status_done: "(s :: u32) AND IXGBE_TXD_STAT_DD = 0 \<longleftrightarrow> \<not> bit s 0"
  by (simp add: IXGBE_TXD_STAT_DD_def and_one_eq bit_0 mod2_eq_if)

lemma cleaned_count:
  fixes nd lo hi :: u16
  assumes "unat nd = 512" "unat lo < 512" "unat hi < 512"
  shows "unat (if lo > hi then (nd - lo) + hi else hi - lo) = (if unat lo > unat hi then (512 - unat lo) + unat hi else unat hi - unat lo)"
proof (cases "unat lo > unat hi")
  case True
  have "unat (nd - lo) = 512 - unat lo" using unat_sub [of lo nd] assms by (simp add: word_le_nat_alt)
  moreover have "512 - unat lo + unat hi < 2 ^ 16" using assms(3) by simp
  ultimately have "unat (nd - lo + hi) = 512 - unat lo + unat hi" by (simp add: unat_plus_if_size size_word_def)
  then show ?thesis using True by (simp add: word_less_nat_alt)
next
  case False
  then have "unat (hi - lo) = unat hi - unat lo" using unat_sub [of lo hi] by (simp add: word_le_nat_alt)
  then show ?thesis using False by (simp add: word_less_nat_alt)
qed

text \<open>When the card has reported the group, its packets are cleaned up.\<close>

lemma group_cleaned:
  assumes inv: "multi_inv cs (g @ rs) h t c q" and g: "used_after 0 g = 0" "B = length (slots 0 g)" "64 \<le> B" "B \<le> h"
    and reports: "report (slots 0 g ! (B - 1))" "\<forall>j<B - 1. \<not> report (slots 0 g ! j)" and last: "63 + to_last (slots 0 g ! 63) = B - 1"
    and hw: "hw q0 = q"
  shows "\<exists>q'. xmit_cleanup hw q0 = Inr (True, q') \<and> multi_inv (cs @ g) rs (h - B) (t - B) (at_slot c B) q' \<and> tx_tail q' = tx_tail q"
proof -
  note i = multi_invD [OF inv]
  have F: "slots 0 (g @ rs) = slots 0 g @ slots 0 rs" using g(1) by (simp add: slots_append)
  have B: "B < 512" "0 < B" "unat (nb_tx_free q) + B < 512" "64 \<le> length (slots 0 (g @ rs))"
    using i(5) g(3) unfolding F length_append g(2) [symmetric] by linarith+
  have sizes: "length (descs q) = 512" "length (sw_ring q) = 512" "nb_tx_desc q = 512" using i(1) by (simp_all add: multi_sizes_def)
  then have d512: "unat (nb_tx_desc q) = 512" by simp
  have used: "slot_used c h j (slots 0 g ! j) (descs q ! at_slot c j) (sw_ring q ! at_slot c j)" if "j < B" for j
    using i(10) [of j] that g(2) by (simp add: F nth_append)
  define to where "to = last_id (sw_ring q ! at_slot c 63)"
  have to: "unat to = at_slot c (B - 1)" using used [of 63] g(3) last by (simp add: to_def slot_used_def)
  have dd: "bit (olinfo_status (descs q ! unat to)) 0" using used [of "B - 1"] B(2) g(4) reports(1) by (simp add: to slot_used_def)
  define range where "range = map (at_slot c) [0..<B]"
  have cmp: "last_desc_cleaned q > to \<longleftrightarrow> at_slot c 511 > at_slot c (B - 1)" using i(6) to by (simp add: word_less_nat_alt)
  have r: "(if last_desc_cleaned q > to then [unat (last_desc_cleaned q) + 1..<unat (nb_tx_desc q)] @ [0..<unat to + 1]
      else [unat (last_desc_cleaned q) + 1..<unat to + 1]) = range"
    using clean_range(1) [OF i(2) B(2,1) refl refl] unfolding cmp i(6) to d512 range_def .
  have range: "distinct range" "\<forall>i\<in>set range. i < 512" using slots_inj [of B c] B(1) by (simp_all add: range_def distinct_map)
  obtain A where A: "clean_entries range q = Inr (q\<lparr>freed := freed q @ concat (map (\<lambda>i. frees_of (tx_buf (sw_ring q ! i))) range), sw_ring := A\<rparr>)"
    "length A = 512" "\<And>k. k < 512 \<Longrightarrow> A ! k = (if k \<in> set range then zero_entry\<lparr>next_id := of_nat (k + 1) mod 512, last_id := of_nat k\<rparr> else sw_ring q ! k)"
    using clean_entries_all [OF range sizes(2,3)] by blast
  have "map (\<lambda>i. frees_of (tx_buf (sw_ring q ! i))) range = map (\<lambda>e. frees_of (kept e)) (slots 0 g)"
    using used g(2) by (intro nth_equalityI) (auto simp: range_def slot_used_def)
  then have frees: "concat (map (\<lambda>i. frees_of (tx_buf (sw_ring q ! i))) range) = concat (map frees_of g)" by (simp add: slots_frees)
  define n where "n = (if last_desc_cleaned q > to then (nb_tx_desc q - last_desc_cleaned q) + to else to - last_desc_cleaned q)"
  have n: "unat (nb_tx_free q + n) = unat (nb_tx_free q) + B"
  proof -
    have small: "unat (last_desc_cleaned q) < 512" "unat to < 512" unfolding i(6) to by (rule mod_less_divisor, simp)+
    have "unat n = B"
      using clean_range(2) [OF i(2) B(2,1) refl refl] unfolding n_def cleaned_count [OF d512 small] i(6) to .
    then show ?thesis using B(3) by (simp add: unat_plus_if_size size_word_def)
  qed
  define q' where "q' = q\<lparr>freed := freed q @ concat (map frees_of g), sw_ring := A,
    descs := (descs q)[unat to := (descs q ! unat to)\<lparr>olinfo_status := 0\<rparr>], last_desc_cleaned := to, nb_tx_free := nb_tx_free q + n\<rparr>"
  have "xmit_cleanup hw q0 = Inr (True, q')"
    using desc_to_clean_slot [OF inv B(4)] to dd A(1) sizes(1)
    by (simp add: xmit_cleanup_def Let_def hw to_def [symmetric] status_done r n_def [symmetric] frees q'_def)
  moreover have "multi_inv (cs @ g) rs (h - B) (t - B) (at_slot c B) q'"
  proof (rule multi_inv_cleaned [OF inv g(1,2) B(2) g(4) A(2) A(3) [unfolded range_def] _ _ _ reports(2) _ _ q'_def])
    show "(descs q)[unat to := (descs q ! unat to)\<lparr>olinfo_status := 0\<rparr>] ! at_slot c j = descs q ! at_slot c j" if "j < 512" "j \<noteq> B - 1" for j
      using slot_differs [of "B - 1" j c] that B(1) unfolding to by (intro nth_list_update_neq) auto
  qed (use sizes n to in \<open>simp_all add: q'_def\<close>)
  ultimately show ?thesis by (simp add: q'_def)
qed

text \<open>The packets in the ring, and how many descriptors the card has left to take.\<close>

definition multi_state :: "exo_mbuf list \<Rightarrow> nat \<Rightarrow> nat \<Rightarrow> nat \<Rightarrow> bool \<Rightarrow> multi_queue \<Rightarrow> bool" where
  "multi_state all used pos behind idle q \<longleftrightarrow> (\<exists>cs ps h t c. multi_inv cs ps h t c q \<and> cs @ ps = all \<and> length (slots 0 ps) = used \<and>
     pos = at_slot c used \<and> behind = used - t \<and> (idle \<longrightarrow> h = t))"

lemma xmit_cleanup_state:
  assumes hw: "\<And>q. multi_hw\<^sup>*\<^sup>* q (hw q)" and st: "multi_state all used pos behind idle q" and used: "64 \<le> used"
  shows "\<exists>ok used' q'. xmit_cleanup hw q = Inr (ok, q') \<and> multi_state all used' pos behind idle q' \<and> used' \<le> used \<and> (ok \<longrightarrow> used' + 64 \<le> used) \<and>
    (idle \<and> behind = 0 \<longrightarrow> ok) \<and> tx_tail q' = tx_tail q"
proof -
  from st obtain cs ps h0 t c where inv0: "multi_inv cs ps h0 t c q" and s: "cs @ ps = all" "length (slots 0 ps) = used" "pos = at_slot c used"
    "behind = used - t" "idle \<longrightarrow> h0 = t" unfolding multi_state_def by blast
  define q1 where "q1 = hw q"
  obtain h where h: "h0 \<le> h" "multi_inv cs ps h t c q1" "tx_tail q1 = tx_tail q"
    using multi_inv_steps [OF hw inv0] by (auto simp: q1_def)
  note i = multi_invD [OF h(2)]
  have idle: "idle \<longrightarrow> h = t" using s(5) h(1) i(3) by auto
  obtain g rs B where g: "ps = g @ rs" "used_after 0 g = 0" "B = length (slots 0 g)" "64 \<le> B" "0 < B"
    "report (slots 0 g ! (B - 1))" "\<forall>j<B - 1. \<not> report (slots 0 g ! j)" "63 + to_last (slots 0 g ! 63) = B - 1"
    using first_group [of 0 ps] used s(2) by auto
  have F: "slots 0 ps = slots 0 g @ slots 0 rs" using g(1,2) by (simp add: slots_append)
  then have B: "used = B + length (slots 0 rs)" using s(2) g(3) by simp
  show ?thesis
  proof (cases "B \<le> h")
    case True
    obtain q' where q': "xmit_cleanup hw q = Inr (True, q')" "multi_inv (cs @ g) rs (h - B) (t - B) (at_slot c B) q'" "tx_tail q' = tx_tail q1"
      using group_cleaned [OF h(2) [unfolded g(1)] g(2-4) True g(6-8), of hw q] q1_def by blast
    have "used - B = length (slots 0 rs)" "pos = at_slot (at_slot c B) (used - B)" using B s(3) by (simp_all add: mod_add_left_eq add.assoc)
    moreover have "behind = used - B - (t - B)" using s(4) True i(3) by simp
    moreover have "idle \<longrightarrow> h - B = t - B" using idle by simp
    moreover have "(cs @ g) @ rs = all" using s(1) g(1) by simp
    ultimately have "multi_state all (used - B) pos behind idle q'" using q'(2) unfolding multi_state_def by metis
    then show ?thesis using q'(1,3) h(3) g(4) B by (intro exI [of _ True] exI [of _ "used - B"] exI [of _ q']) simp
  next
    case False
    have u: "slot_used c h j (slots 0 g ! j) (descs q1 ! at_slot c j) (sw_ring q1 ! at_slot c j)" if "j < B" for j
      using i(10) [of j] that g(3) by (simp add: F nth_append)
    have "\<not> B - 1 < h" using False by simp
    then have "unat (last_id (sw_ring q1 ! at_slot c 63)) = at_slot c (B - 1)" "\<not> bit (olinfo_status (descs q1 ! at_slot c (B - 1))) 0"
      using u [of 63] u [of "B - 1"] g(4,5,8) unfolding slot_used_def by auto
    then have "xmit_cleanup hw q = Inr (False, q1)"
      using desc_to_clean_slot [OF h(2)] used s(2) i(1) by (simp add: xmit_cleanup_def Let_def q1_def [symmetric] status_done multi_sizes_def)
    moreover have "multi_state all used pos behind idle q1" unfolding multi_state_def using h(2) s(1-4) idle by blast
    moreover have "\<not> (idle \<and> behind = 0)" using idle s(2,4) False B i(4) by auto
    ultimately show ?thesis using h(3) by blast
  qed
qed

section \<open>Placing a packet\<close>

lemma sizes_linked:
  assumes "multi_sizes q" "i < 512"
  shows "multi_sizes (q\<lparr>descs := (descs q)[i := d], sw_ring := (sw_ring q)[i := (sw_ring q ! i)\<lparr>last_id := l\<rparr>]\<rparr>)"
    "multi_sizes (q\<lparr>sw_ring := (sw_ring q)[i := (sw_ring q ! i)\<lparr>tx_buf := b\<rparr>]\<rparr>)"
  using assms by (auto simp: multi_sizes_def nth_list_update)

lemma write_descs_writes:
  "multi_sizes q \<Longrightarrow> j + length fs \<le> 512 \<Longrightarrow>
    \<exists>D S. write_descs l fs txd (at_slot c j) q =
        Inr (if fs = [] then txd else at_slot c (j + length fs - 1), at_slot c (j + length fs), q\<lparr>descs := D, sw_ring := S\<rparr>) \<and>
      multi_sizes (q\<lparr>descs := D, sw_ring := S\<rparr>) \<and>
      (\<forall>k<512. D ! at_slot c k = (if j \<le> k \<and> k < j + length fs then (fs ! (k - j)) (descs q ! at_slot c k) else descs q ! at_slot c k) \<and>
        S ! at_slot c k = (if j \<le> k \<and> k < j + length fs then (sw_ring q ! at_slot c k)\<lparr>last_id := l\<rparr> else sw_ring q ! at_slot c k))"
proof (induction fs arbitrary: j q txd)
  case Nil
  then show ?case by (intro exI [of _ "descs q"] exI [of _ "sw_ring q"]) auto
next
  case (Cons f fs)
  let ?i = "at_slot c j"
  have j: "j < 512" "Suc j + length fs \<le> 512" using Cons.prems(2) by simp_all
  have sizes: "length (descs q) = 512" "length (sw_ring q) = 512" "unat (next_id (sw_ring q ! ?i)) = at_slot c (Suc j)"
    using Cons.prems(1) by (simp_all add: multi_sizes_def mod_Suc_eq)
  define q1 where "q1 = q\<lparr>descs := (descs q)[?i := f (descs q ! ?i)], sw_ring := (sw_ring q)[?i := (sw_ring q ! ?i)\<lparr>last_id := l\<rparr>]\<rparr>"
  have s1: "multi_sizes q1" unfolding q1_def by (rule sizes_linked(1) [OF Cons.prems(1)]) simp
  have run: "write_descs l (f # fs) txd ?i q = write_descs l fs ?i (at_slot c (Suc j)) q1"
    using sizes by (simp add: write_desc_def q1_def)
  have at: "descs q1 ! at_slot c k = (if k = j then f (descs q ! ?i) else descs q ! at_slot c k)"
    "sw_ring q1 ! at_slot c k = (if k = j then (sw_ring q ! ?i)\<lparr>last_id := l\<rparr> else sw_ring q ! at_slot c k)" if "k < 512" for k
    using slot_differs [OF that j(1), of c] sizes by (auto simp: q1_def nth_list_update)
  obtain D S where DS: "write_descs l fs ?i (at_slot c (Suc j)) q1 =
        Inr (if fs = [] then ?i else at_slot c (Suc j + length fs - 1), at_slot c (Suc j + length fs), q1\<lparr>descs := D, sw_ring := S\<rparr>)"
    "multi_sizes (q1\<lparr>descs := D, sw_ring := S\<rparr>)"
    "\<And>k. k < 512 \<Longrightarrow> D ! at_slot c k = (if Suc j \<le> k \<and> k < Suc j + length fs then (fs ! (k - Suc j)) (descs q1 ! at_slot c k) else descs q1 ! at_slot c k)"
    "\<And>k. k < 512 \<Longrightarrow> S ! at_slot c k = (if Suc j \<le> k \<and> k < Suc j + length fs then (sw_ring q1 ! at_slot c k)\<lparr>last_id := l\<rparr> else sw_ring q1 ! at_slot c k)"
    using Cons.IH [OF s1 j(2)] by blast
  have "D ! at_slot c k = (if j \<le> k \<and> k < j + length (f # fs) then ((f # fs) ! (k - j)) (descs q ! at_slot c k) else descs q ! at_slot c k)" if "k < 512" for k
    using DS(3) [OF that] at(1) [OF that] by (cases "k = j"; cases "Suc j \<le> k") (auto simp: nth_Cons' not_less_eq_eq)
  moreover have "S ! at_slot c k = (if j \<le> k \<and> k < j + length (f # fs) then (sw_ring q ! at_slot c k)\<lparr>last_id := l\<rparr> else sw_ring q ! at_slot c k)" if "k < 512" for k
    using DS(4) [OF that] at(2) [OF that] by (cases "k = j"; cases "Suc j \<le> k") (auto simp: not_less_eq_eq)
  moreover have "write_descs l (f # fs) txd ?i q = Inr (if f # fs = [] then txd else at_slot c (j + length (f # fs) - 1), at_slot c (j + length (f # fs)), q\<lparr>descs := D, sw_ring := S\<rparr>)"
    unfolding run DS(1) by (simp add: q1_def)
  ultimately show ?case using DS(2) by (intro exI [of _ D] exI [of _ S]) (simp add: q1_def)
qed

lemma cmd_parts:
  "ucast (ucast (l :: u16) OR push_bit 16 x :: u32) = l"
  "n < 16 \<Longrightarrow> bit (ucast l OR push_bit 16 x :: u32) (16 + n) \<longleftrightarrow> bit x n"
proof -
  show "ucast (ucast l OR push_bit 16 x :: u32) = l" by (rule bit_word_eqI) (auto simp: bit_simps)
  show "n < 16 \<Longrightarrow> bit (ucast l OR push_bit 16 x :: u32) (16 + n) \<longleftrightarrow> bit x n" by (auto simp: bit_simps dest: bit_imp_le_length)
qed

lemma data_is:
  assumes "cmd \<in> {first_desc_cmd, last_desc_cmd}" "cmd_type_len d = ucast (l :: u16) OR cmd"
  shows "ucast (cmd_type_len d) = l" "bit (cmd_type_len d) 20" "bit (cmd_type_len d) 24 \<longleftrightarrow> cmd = last_desc_cmd" "\<not> bit (cmd_type_len d) 27"
    "ucast (cmd_type_len d OR IXGBE_ADVTXD_DCMD_RS) = l" "bit (cmd_type_len d OR IXGBE_ADVTXD_DCMD_RS) 20"
    "bit (cmd_type_len d OR IXGBE_ADVTXD_DCMD_RS) 24 \<longleftrightarrow> cmd = last_desc_cmd" "bit (cmd_type_len d OR IXGBE_ADVTXD_DCMD_RS) 27"
proof -
  have c: "first_desc_cmd = push_bit 16 0x2230" "last_desc_cmd = push_bit 16 0x2330" "IXGBE_ADVTXD_DCMD_RS = push_bit 16 0x0800"
    by (simp_all add: first_desc_cmd_def last_desc_cmd_def IXGBE_ADVTXD_DCMD_RS_def push_bit_eq_mult)
  have rs: "(ucast l OR push_bit 16 x) OR IXGBE_ADVTXD_DCMD_RS = ucast l OR push_bit 16 (x OR 0x0800)" for x :: u32
    by (simp only: c(3) or.assoc push_bit_or)
  have ne: "first_desc_cmd \<noteq> last_desc_cmd" by (simp add: first_desc_cmd_def last_desc_cmd_def)
  have b: "bit (ucast l OR push_bit 16 x :: u32) 20 = bit x 4" "bit (ucast l OR push_bit 16 x :: u32) 24 = bit x 8"
    "bit (ucast l OR push_bit 16 x :: u32) 27 = bit x 11" for x
    using cmd_parts(2) [of 4 l x] cmd_parts(2) [of 8 l x] cmd_parts(2) [of 11 l x] by simp_all
  consider "cmd = first_desc_cmd" | "cmd = last_desc_cmd" using assms(1) by blast
  note cases = this
  show "ucast (cmd_type_len d) = l" "ucast (cmd_type_len d OR IXGBE_ADVTXD_DCMD_RS) = l"
    using cases unfolding assms(2) by (cases; simp only: c(1,2) rs cmd_parts(1))+
  show "bit (cmd_type_len d) 20" "bit (cmd_type_len d) 24 \<longleftrightarrow> cmd = last_desc_cmd" "\<not> bit (cmd_type_len d) 27"
    "bit (cmd_type_len d OR IXGBE_ADVTXD_DCMD_RS) 20" "bit (cmd_type_len d OR IXGBE_ADVTXD_DCMD_RS) 24 \<longleftrightarrow> cmd = last_desc_cmd"
    "bit (cmd_type_len d OR IXGBE_ADVTXD_DCMD_RS) 27"
    using cases ne unfolding assms(2) by (cases; simp only: c(1,2) rs b; simp add: c(1,2))+
qed

lemma first_status: "\<not> bit (first_desc_status OR push_bit 14 x) 0"
  by (simp add: first_desc_status_def bit_simps)

lemma context_is: "\<not> bit (cmd_type_len (context_desc d)) 20" "\<not> bit (cmd_type_len (context_desc d)) 27" "\<not> bit (olinfo_status (context_desc d)) 0"
  by (simp_all add: context_desc_def)

text \<open>The descriptor of fragment \<open>i\<close>.\<close>

definition writes_fragment :: "exo_mbuf \<Rightarrow> nat \<Rightarrow> (tx_adv_desc \<Rightarrow> tx_adv_desc) \<Rightarrow> bool" where
  "writes_fragment p i f \<longleftrightarrow> (\<forall>d. desc_address (f d) = fst (frame_of p ! i) \<and>
     cmd_type_len (f d) = ucast (snd (frame_of p ! i)) OR (if Suc i = length (frame_of p) then last_desc_cmd else first_desc_cmd) \<and>
     (\<not> bit (olinfo_status d) 0 \<longrightarrow> \<not> bit (olinfo_status (f d)) 0))"

lemma data_descs_frame:
  assumes "segments_ok p"
  shows "\<exists>fs. data_descs p = Inr fs \<and> length fs = length (frame_of p) \<and> (\<forall>i<length (frame_of p). writes_fragment p i (fs ! i))"
proof -
  show ?thesis
  proof (cases "nb_segment p = 1")
    case True
    then show ?thesis
      by (simp add: data_descs_def frame_of_def writes_fragment_def first_data_def first_status Let_def)
  next
    case False
    then have l: "unat (nb_segment p) = 1 + of_bool (seg_len p ! 0 \<noteq> 0) + of_bool (seg_len p ! 1 \<noteq> 0)"
      using assms by (simp add: segments_ok_def frame_of_def)
    have two: "nb_segment p = 2" if "unat (nb_segment p) = 2" using that by (simp add: word_unat_eq_iff)
    have three: "nb_segment p = 3" if "unat (nb_segment p) = 3" using that by (simp add: word_unat_eq_iff)
    consider "seg_len p ! 0 \<noteq> 0" "seg_len p ! 1 \<noteq> 0" "nb_segment p = 3" | "seg_len p ! 0 \<noteq> 0" "seg_len p ! 1 = 0" "nb_segment p = 2"
      | "seg_len p ! 0 = 0" "seg_len p ! 1 \<noteq> 0" "nb_segment p = 2"
      using l two three False by (cases "seg_len p ! 0 = 0"; cases "seg_len p ! 1 = 0") (simp_all add: word_unat_eq_iff)
    then show ?thesis
      by cases (simp_all add: data_descs_def frame_of_def writes_fragment_def first_data_def more_data_def first_status Let_def All_less_Suc)
  qed
qed

lemma fragment_is:
  assumes "writes_fragment p i f" "i < length (frame_of p)"
  shows "desc_is (f d) (data_slot p rs i) \<longleftrightarrow> \<not> (rs \<and> Suc i = length (frame_of p))"
    "desc_is ((f d)\<lparr>cmd_type_len := cmd_type_len (f d) OR IXGBE_ADVTXD_DCMD_RS\<rparr>) (data_slot p rs i) \<longleftrightarrow> rs \<and> Suc i = length (frame_of p)"
proof -
  let ?cmd = "if Suc i = length (frame_of p) then last_desc_cmd else first_desc_cmd"
  have w: "desc_address (f d) = fst (frame_of p ! i)" "cmd_type_len (f d) = ucast (snd (frame_of p ! i)) OR ?cmd"
    using assms(1) by (simp_all add: writes_fragment_def)
  have ne: "first_desc_cmd \<noteq> last_desc_cmd" by (simp add: first_desc_cmd_def last_desc_cmd_def)
  have c: "?cmd \<in> {first_desc_cmd, last_desc_cmd}" by simp
  note b = data_is [OF c w(2)]
  show "desc_is (f d) (data_slot p rs i) \<longleftrightarrow> \<not> (rs \<and> Suc i = length (frame_of p))"
    using b(1-4) w(1) ne by (auto simp: desc_is_def data_slot_def Let_def)
  show "desc_is ((f d)\<lparr>cmd_type_len := cmd_type_len (f d) OR IXGBE_ADVTXD_DCMD_RS\<rparr>) (data_slot p rs i) \<longleftrightarrow> rs \<and> Suc i = length (frame_of p)"
    using b(5-8) w(1) ne by (auto simp: desc_is_def data_slot_def Let_def)
qed

lemma last_of_packet:
  assumes "L + n < 512" "c < 512"
  shows "unat (if of_nat (at_slot c L) + of_nat (Suc n) - 1 \<ge> (512 :: u16) then of_nat (at_slot c L) + of_nat (Suc n) - 1 - 512
      else of_nat (at_slot c L) + of_nat (Suc n) - 1 :: u16) = at_slot c (L + n)"
proof -
  define x where "x = (of_nat (at_slot c L + n) :: u16)"
  have x: "of_nat (at_slot c L) + of_nat (Suc n) - 1 = x" "unat x = at_slot c L + n"
    using u16_small [of "at_slot c L + n"] assms(1) mod_less_divisor [of 512 "c + L"] by (simp_all add: x_def del: mod_less_divisor)
  have "at_slot c (L + n) = (at_slot c L + n) mod 512" by (simp add: mod_add_left_eq add.assoc)
  moreover have "at_slot c L + n < 1024" using assms(1) mod_less_divisor [of 512 "c + L"] by (simp del: mod_less_divisor)
  moreover have "unat (x - 512) = unat x - 512" if "512 \<le> x" using unat_sub [of 512 x] that by (simp add: word_le_nat_alt)
  ultimately show ?thesis unfolding x(1) using x(2) by (auto simp: word_le_nat_alt le_mod_geq)
qed

lemma nth_update_if: "i < length xs \<Longrightarrow> xs[i := x] ! k = (if k = i then x else xs ! k)"
  by simp

lemma two_updates:
  assumes "i < length xs" "j < length xs" "i \<noteq> j"
  shows "(xs[i := f (xs ! i)])[j := g (xs[i := f (xs ! i)] ! j)] ! k = (if k = i then f (xs ! k) else if k = j then g (xs ! k) else xs ! k)"
  using assms by (cases "k = i"; cases "k = j") simp_all

text \<open>The descriptors and entries after the packet has been written, before the report is asked for.\<close>

lemma packet_written:
  assumes sizes: "multi_sizes q" and fs: "data_descs p = Inr fs" "length fs = n" "0 < n" and L: "L + n < 512"
  shows "\<exists>D S. seq (write_desc l context_desc (at_slot c L) q) (\<lambda>(i, q1). seq (keep_packet p i q1) (\<lambda>q2. seq (data_descs p) (\<lambda>fs. write_descs l fs i i q2))) =
      Inr (at_slot c (L + n), at_slot c (L + Suc n), q\<lparr>descs := D, sw_ring := S\<rparr>) \<and> multi_sizes (q\<lparr>descs := D, sw_ring := S\<rparr>) \<and>
    (\<forall>k<512. D ! at_slot c k = (if k = L then context_desc (descs q ! at_slot c k) else if L < k \<and> k \<le> L + n then (fs ! (k - Suc L)) (descs q ! at_slot c k) else descs q ! at_slot c k) \<and>
      S ! at_slot c k = (if L \<le> k \<and> k \<le> L + n then (sw_ring q ! at_slot c k)\<lparr>last_id := l, tx_buf := if k = Suc L then p else tx_buf (sw_ring q ! at_slot c k)\<rparr> else sw_ring q ! at_slot c k))"
proof -
  let ?i = "at_slot c L" and ?j = "at_slot c (Suc L)"
  have len: "length (descs q) = 512" "length (sw_ring q) = 512" "unat (next_id (sw_ring q ! ?i)) = ?j"
    using sizes by (simp_all add: multi_sizes_def mod_Suc_eq)
  define q1 where "q1 = q\<lparr>descs := (descs q)[?i := context_desc (descs q ! ?i)], sw_ring := (sw_ring q)[?i := (sw_ring q ! ?i)\<lparr>last_id := l\<rparr>]\<rparr>"
  define q2 where "q2 = q1\<lparr>sw_ring := (sw_ring q1)[?j := (sw_ring q1 ! ?j)\<lparr>tx_buf := p\<rparr>]\<rparr>"
  have s1: "multi_sizes q1" unfolding q1_def by (rule sizes_linked(1) [OF sizes]) simp
  have s2: "multi_sizes q2" unfolding q2_def by (rule sizes_linked(2) [OF s1]) simp
  have run: "write_desc l context_desc ?i q = Inr (?j, q1)" "keep_packet p ?j q1 = Inr q2"
    using len by (simp_all add: write_desc_def keep_packet_def q1_def q2_def)
  have at: "descs q2 ! at_slot c k = (if k = L then context_desc (descs q ! at_slot c k) else descs q ! at_slot c k)"
    "sw_ring q2 ! at_slot c k = (if k = L then (sw_ring q ! at_slot c k)\<lparr>last_id := l\<rparr> else if k = Suc L then (sw_ring q ! at_slot c k)\<lparr>tx_buf := p\<rparr> else sw_ring q ! at_slot c k)"
    if "k < 512" for k
  proof -
    have ne: "at_slot c k = ?i \<longleftrightarrow> k = L" "at_slot c k = ?j \<longleftrightarrow> k = Suc L" "?i \<noteq> ?j"
      using slot_differs [OF that, of L c] slot_differs [OF that, of "Suc L" c] slot_differs [of L "Suc L" c] L fs(3) by auto
    have i: "?i < length (descs q)" "?i < length (sw_ring q)" "?j < length (sw_ring q)" using len by simp_all
    show "descs q2 ! at_slot c k = (if k = L then context_desc (descs q ! at_slot c k) else descs q ! at_slot c k)"
      using nth_update_if [OF i(1), of "context_desc (descs q ! ?i)" "at_slot c k"] ne(1) unfolding q2_def q1_def by simp
    show "sw_ring q2 ! at_slot c k = (if k = L then (sw_ring q ! at_slot c k)\<lparr>last_id := l\<rparr> else if k = Suc L then (sw_ring q ! at_slot c k)\<lparr>tx_buf := p\<rparr> else sw_ring q ! at_slot c k)"
      using two_updates [OF i(2,3) ne(3), of "\<lambda>x. x\<lparr>last_id := l\<rparr>" "\<lambda>x. x\<lparr>tx_buf := p\<rparr>" "at_slot c k"] ne(1,2) unfolding q2_def q1_def by simp
  qed
  obtain D S where DS: "write_descs l fs ?j ?j q2 = Inr (if fs = [] then ?j else at_slot c (Suc L + length fs - 1), at_slot c (Suc L + length fs), q2\<lparr>descs := D, sw_ring := S\<rparr>)"
    "multi_sizes (q2\<lparr>descs := D, sw_ring := S\<rparr>)"
    "\<And>k. k < 512 \<Longrightarrow> D ! at_slot c k = (if Suc L \<le> k \<and> k < Suc L + length fs then (fs ! (k - Suc L)) (descs q2 ! at_slot c k) else descs q2 ! at_slot c k)"
    "\<And>k. k < 512 \<Longrightarrow> S ! at_slot c k = (if Suc L \<le> k \<and> k < Suc L + length fs then (sw_ring q2 ! at_slot c k)\<lparr>last_id := l\<rparr> else sw_ring q2 ! at_slot c k)"
    using write_descs_writes [OF s2, of "Suc L" fs l ?j c] L fs(2) by auto
  have q: "q2\<lparr>descs := D, sw_ring := S\<rparr> = q\<lparr>descs := D, sw_ring := S\<rparr>" by (simp add: q1_def q2_def)
  have "fs \<noteq> []" using fs(2,3) by auto
  then have "seq (write_desc l context_desc ?i q) (\<lambda>(i, q1). seq (keep_packet p i q1) (\<lambda>q2. seq (data_descs p) (\<lambda>fs. write_descs l fs i i q2))) =
      Inr (at_slot c (L + n), at_slot c (L + Suc n), q\<lparr>descs := D, sw_ring := S\<rparr>)"
    using run DS(1) fs(1,2) q by simp
  moreover have "D ! at_slot c k = (if k = L then context_desc (descs q ! at_slot c k) else if L < k \<and> k \<le> L + n then (fs ! (k - Suc L)) (descs q ! at_slot c k) else descs q ! at_slot c k)"
    if "k < 512" for k using DS(3) [OF that] at(1) [OF that] fs(2) by auto
  moreover have "S ! at_slot c k = (if L \<le> k \<and> k \<le> L + n then (sw_ring q ! at_slot c k)\<lparr>last_id := l, tx_buf := if k = Suc L then p else tx_buf (sw_ring q ! at_slot c k)\<rparr> else sw_ring q ! at_slot c k)"
    if "k < 512" for k using DS(4) [OF that] at(2) [OF that] fs(2,3) by (cases "k = L"; cases "k = Suc L"; cases "Suc L \<le> k") auto
  ultimately show ?thesis using DS(2) unfolding q by blast
qed

text \<open>The slots of a packet that was placed behind the others.\<close>

lemma packet_slot_used:
  assumes un: "slot_unused d x" and L: "h \<le> L" and k: "k \<le> n" and n: "n = length (frame_of p)" and l: "unat l = at_slot c (L + n)"
    and fs: "\<And>i. i < n \<Longrightarrow> writes_fragment p i (fs ! i)"
    and d': "d' = (if k = 0 then context_desc d else if rs \<and> k = n then (fs ! (k - 1)) d\<lparr>cmd_type_len := cmd_type_len ((fs ! (k - 1)) d) OR IXGBE_ADVTXD_DCMD_RS\<rparr> else (fs ! (k - 1)) d)"
    and x': "x' = x\<lparr>last_id := l, tx_buf := if k = 1 then p else tx_buf x\<rparr>"
  shows "slot_used c h (L + k) (packet_slots p rs ! k) d' x'"
proof (cases k)
  case 0
  then have e: "packet_slots p rs ! k = \<lparr>carried = None, report = False, to_last = n, kept = zero_mbuf\<rparr>" by (simp add: packet_slots_def n)
  show ?thesis unfolding e using 0 un l context_is [of d] by (simp add: slot_used_def desc_is_def d' x' slot_unused_def)
next
  case (Suc i)
  then have i: "i < n" "i < length (frame_of p)" using k n by simp_all
  have e: "packet_slots p rs ! k = data_slot p rs i" using Suc i by (simp add: packet_slots_def)
  have w: "writes_fragment p i (fs ! i)" using fs i by simp
  have di: "d' = (if rs \<and> Suc i = n then (fs ! i) d\<lparr>cmd_type_len := cmd_type_len ((fs ! i) d) OR IXGBE_ADVTXD_DCMD_RS\<rparr> else (fs ! i) d)"
    using Suc by (auto simp: d')
  have "desc_is d' (data_slot p rs i)" using fragment_is [OF w i(2), of d rs] unfolding di n by (cases rs; cases "Suc i = length (frame_of p)") simp_all
  moreover have "\<not> bit (olinfo_status d') 0" using w un by (simp add: di writes_fragment_def slot_unused_def)
  moreover have "to_last (data_slot p rs i) = n - k" "kept (data_slot p rs i) = (if k = 1 then p else zero_mbuf)"
    using Suc by (simp_all add: data_slot_def Let_def n)
  ultimately show ?thesis unfolding e using un l k L by (simp add: slot_used_def x' slot_unused_def)
qed

lemma seq_assoc:
  "seq (seq a f) g = seq a (\<lambda>x. seq (f x) g)" "seq (seq b (\<lambda>(x, y). h x y)) g = seq b (\<lambda>(x, y). seq (h x y) g)"
  by (cases a; simp) (cases b; auto)

lemma place_packet_eq:
  "place_packet p tx_id q =
     (let nb_used = ucast (nb_segment p) + 1 :: u16;
          l = of_nat tx_id + nb_used - 1;
          tx_last = (if l \<ge> nb_tx_desc q then l - nb_tx_desc q else l) in
      check (nb_used \<le> nb_tx_free q) Assertion
      (seq (seq (write_desc tx_last context_desc tx_id q) (\<lambda>(i, q1). seq (keep_packet p i q1) (\<lambda>q2. seq (data_descs p) (\<lambda>fs. write_descs tx_last fs i i q2))))
        (\<lambda>(txd, j, q3). Inr (j, mark_report txd (q3\<lparr>nb_tx_used := nb_tx_used q3 + nb_used, nb_tx_free := nb_tx_free q3 - nb_used\<rparr>)))))"
  by (simp only: place_packet_def Let_def seq_assoc(2)) (simp only: seq_assoc(1))

lemma place_packet_inv:
  assumes inv: "multi_inv cs ps h t c q" and p: "segments_ok p" and L: "L = length (slots 0 ps)" and n: "n = length (frame_of p)"
    and room: "Suc n \<le> unat (nb_tx_free q)"
  shows "\<exists>q'. place_packet p (at_slot c L) q = Inr (at_slot c (L + Suc n), q') \<and> multi_inv cs (ps @ [p]) h t c q' \<and> tx_tail q' = tx_tail q"
proof -
  note i = multi_invD [OF inv]
  have nL: "L + n < 512" "0 < n" "n \<le> 3" using i(5) room L n frame_bounds [of p] by auto
  have nd: "nb_tx_desc q = 512" "tx_rs_thresh q = 64" using i(1) by (simp_all add: multi_sizes_def)
  define nb where "nb = (ucast (nb_segment p) + 1 :: u16)"
  have "unat (ucast (nb_segment p) :: u16) = n" using p n nL(3) by (simp add: segments_ok_def unsigned_ucast_eq take_bit_nat_eq_self)
  then have nb: "unat nb = Suc n" using nL(3) by (simp add: nb_def unat_plus_if_size size_word_def)
  then have nbS: "nb = of_nat (Suc n)" using u16_small [of "Suc n"] nL(3) by (simp add: word_unat_eq_iff del: of_nat_Suc)
  define l where "l = (if of_nat (at_slot c L) + nb - 1 \<ge> (512 :: u16) then of_nat (at_slot c L) + nb - 1 - 512 else of_nat (at_slot c L) + nb - 1)"
  have l: "unat l = at_slot c (L + n)" unfolding l_def nbS by (rule last_of_packet [OF nL(1) i(2)])
  obtain fs where fs: "data_descs p = Inr fs" "length fs = n" "\<And>i. i < n \<Longrightarrow> writes_fragment p i (fs ! i)"
    using data_descs_frame [OF p] n by auto
  obtain D S where W: "seq (write_desc l context_desc (at_slot c L) q) (\<lambda>(i, q1). seq (keep_packet p i q1) (\<lambda>q2. seq (data_descs p) (\<lambda>fs. write_descs l fs i i q2))) =
      Inr (at_slot c (L + n), at_slot c (L + Suc n), q\<lparr>descs := D, sw_ring := S\<rparr>)" and sz: "multi_sizes (q\<lparr>descs := D, sw_ring := S\<rparr>)"
    and D: "\<And>k. k < 512 \<Longrightarrow> D ! at_slot c k = (if k = L then context_desc (descs q ! at_slot c k) else if L < k \<and> k \<le> L + n then (fs ! (k - Suc L)) (descs q ! at_slot c k) else descs q ! at_slot c k)"
    and S: "\<And>k. k < 512 \<Longrightarrow> S ! at_slot c k = (if L \<le> k \<and> k \<le> L + n then (sw_ring q ! at_slot c k)\<lparr>last_id := l, tx_buf := if k = Suc L then p else tx_buf (sw_ring q ! at_slot c k)\<rparr> else sw_ring q ! at_slot c k)"
    using packet_written [OF i(1) fs(1,2) nL(2,1), of l c] by blast
  define rs where "rs \<longleftrightarrow> used_after 0 ps + Suc n \<ge> 64"
  define i1 where "i1 = at_slot c (L + n)"
  define D' where "D' = (if rs then D[i1 := (D ! i1)\<lparr>cmd_type_len := cmd_type_len (D ! i1) OR IXGBE_ADVTXD_DCMD_RS\<rparr>] else D)"
  define q' where "q' = q\<lparr>descs := D', sw_ring := S, nb_tx_used := (if rs then 0 else nb_tx_used q + nb), nb_tx_free := nb_tx_free q - nb\<rparr>"
  have u: "unat (nb_tx_used q + nb) = used_after 0 ps + Suc n"
    using i(7) nb nL(3) used_after_less [of 0 ps] by (simp add: unat_plus_if_size size_word_def)
  then have "nb_tx_used q + nb \<ge> 64 \<longleftrightarrow> rs" by (simp add: word_le_nat_alt rs_def)
  then have run: "place_packet p (at_slot c L) q = Inr (at_slot c (L + Suc n), q')"
    using room nb nd unfolding place_packet_eq Let_def nb_def [symmetric] nd(1) l_def [symmetric] W
    by (simp add: word_le_nat_alt mark_report_def q'_def D'_def i1_def)
  have F: "slots 0 (ps @ [p]) = slots 0 ps @ packet_slots p rs" "length (slots 0 (ps @ [p])) = L + Suc n"
    using L n by (simp_all add: slots_append rs_def)
  have i1: "i1 < length D" "\<And>k. k < 512 \<Longrightarrow> at_slot c k = i1 \<longleftrightarrow> k = L + n"
    using sz nL(1) slot_differs [of _ "L + n" c] by (auto simp: i1_def multi_sizes_def)
  have D': "D' ! at_slot c k = (if rs \<and> k = L + n then (D ! at_slot c k)\<lparr>cmd_type_len := cmd_type_len (D ! at_slot c k) OR IXGBE_ADVTXD_DCMD_RS\<rparr> else D ! at_slot c k)"
    if "k < 512" for k using i1(2) [OF that] nth_update_if [OF i1(1)] by (auto simp: D'_def)
  have "slot_used c h j (slots 0 (ps @ [p]) ! j) (descs q' ! at_slot c j) (sw_ring q' ! at_slot c j)" if j: "j < L + Suc n" for j
  proof (cases "j < L")
    case True
    then have "descs q' ! at_slot c j = descs q ! at_slot c j" "sw_ring q' ! at_slot c j = sw_ring q ! at_slot c j"
      using D' [of j] D [of j] S [of j] nL(1,2) by (simp_all add: q'_def)
    then show ?thesis using i(10) [of j] True L by (simp add: F(1) nth_append)
  next
    case False
    define k where "k = j - L"
    have k: "j = L + k" "k \<le> n" "j < 512" using False j nL(1) by (simp_all add: k_def)
    have "slot_used c h (L + k) (packet_slots p rs ! k) (descs q' ! at_slot c j) (sw_ring q' ! at_slot c j)"
    proof (rule packet_slot_used [OF i(11) [OF k(3)] _ k(2) n l fs(3)])
      show "length (slots 0 ps) \<le> j" "h \<le> L" using i(3,4) L False by simp_all
      show "descs q' ! at_slot c j = (if k = 0 then context_desc (descs q ! at_slot c j) else if rs \<and> k = n then (fs ! (k - 1)) (descs q ! at_slot c j)\<lparr>cmd_type_len := cmd_type_len ((fs ! (k - 1)) (descs q ! at_slot c j)) OR IXGBE_ADVTXD_DCMD_RS\<rparr> else (fs ! (k - 1)) (descs q ! at_slot c j))"
        using D' [OF k(3)] D [OF k(3)] k(1,2) nL(2) by (auto simp: q'_def)
      show "sw_ring q' ! at_slot c j = (sw_ring q ! at_slot c j)\<lparr>last_id := l, tx_buf := if k = 1 then p else tx_buf (sw_ring q ! at_slot c j)\<rparr>"
        using S [OF k(3)] k(1,2) by (simp add: q'_def)
    qed
    then show ?thesis using k(1) L by (simp add: F(1) nth_append)
  qed
  moreover have "slot_unused (descs q' ! at_slot c j) (sw_ring q' ! at_slot c j)" if "j < 512" "L + Suc n \<le> j" for j
    using i(11) [of j] D' [of j] D [of j] S [of j] that L by (simp add: q'_def)
  moreover have "multi_sizes q'" using sz by (simp add: multi_sizes_def q'_def D'_def)
  moreover have "unat (nb_tx_free q') + (L + Suc n) = 511"
    using i(5) L room nb unat_sub [of nb "nb_tx_free q"] by (simp add: q'_def word_le_nat_alt)
  moreover have "unat (nb_tx_used q') = used_after 0 (ps @ [p])"
    using u n by (simp add: q'_def used_after_append used_next_def Let_def rs_def)
  moreover have "take h (slots 0 (ps @ [p])) = take h (slots 0 ps)" "t \<le> L + Suc n" using i(3,4) L by (simp_all add: F(1))
  ultimately have "multi_inv cs (ps @ [p]) h t c q'"
    unfolding multi_inv_def F(2) using i(2,3,6,8,9,12,13) by (simp add: q'_def)
  then show ?thesis using run by (auto simp: q'_def)
qed

section \<open>Calls\<close>

lemma multi_state_free: "multi_state all used pos behind idle q \<Longrightarrow> unat (nb_tx_free q) = 511 - used \<and> used \<le> 511"
  unfolding multi_state_def using multi_invD(5) by fastforce

lemma place_packet_state:
  assumes st: "multi_state all used pos behind idle q" and p: "segments_ok p" and room: "used + Suc (length (frame_of p)) \<le> 511"
  shows "\<exists>used' pos' behind' q'. place_packet p pos q = Inr (pos', q') \<and> multi_state (all @ [p]) used' pos' behind' idle q' \<and> tx_tail q' = tx_tail q"
proof -
  from st obtain cs ps h t c where inv: "multi_inv cs ps h t c q" and s: "cs @ ps = all" "length (slots 0 ps) = used" "pos = at_slot c used"
    "idle \<longrightarrow> h = t" unfolding multi_state_def by blast
  have "Suc (length (frame_of p)) \<le> unat (nb_tx_free q)" using multi_state_free [OF st] room by simp
  then obtain q' where q': "place_packet p pos q = Inr (at_slot c (used + Suc (length (frame_of p))), q')" "multi_inv cs (ps @ [p]) h t c q'" "tx_tail q' = tx_tail q"
    using place_packet_inv [OF inv p refl refl] s(2,3) by auto
  have "length (slots 0 (ps @ [p])) = used + Suc (length (frame_of p))" "cs @ ps @ [p] = all @ [p]" using s(1,2) by (auto simp: slots_append)
  then show ?thesis using q' s(4) unfolding multi_state_def by blast
qed

lemma multi_loop_state:
  assumes hw: "\<And>q. multi_hw\<^sup>*\<^sup>* q (hw q)"
  shows "list_all segments_ok bs \<Longrightarrow> multi_state all used pos behind idle q \<Longrightarrow>
    \<exists>k used' pos' behind' q'. multi_loop hw bs nb pos q = Inr (nb + k, pos', q') \<and> k \<le> length bs \<and> multi_state (all @ take k bs) used' pos' behind' idle q' \<and>
      tx_tail q' = tx_tail q \<and> (k = 0 \<longrightarrow> pos' = pos \<and> behind' = behind) \<and> (idle \<and> behind = 0 \<and> bs \<noteq> [] \<longrightarrow> 0 < k)"
proof (induction bs arbitrary: all used pos behind q nb)
  case Nil
  then show ?case by - (rule exI [of _ 0], rule exI [of _ used], rule exI [of _ pos], rule exI [of _ behind], simp)
next
  case (Cons p bs)
  let ?n = "length (frame_of p)"
  have p: "segments_ok p" "list_all segments_ok bs" using Cons.prems(1) by simp_all
  have "unat (ucast (nb_segment p) :: u16) = ?n" using p(1) frame_bounds [of p] by (simp add: segments_ok_def unsigned_ucast_eq take_bit_nat_eq_self)
  then have "unat (ucast (nb_segment p) + 1 :: u16) = Suc ?n" using frame_bounds [of p] by (simp add: unat_plus_if_size size_word_def)
  then have need: "ucast (nb_segment p) + 1 > nb_tx_free q \<longleftrightarrow> 511 < used + Suc ?n"
    using multi_state_free [OF Cons.prems(2)] by (auto simp: word_less_nat_alt)
  have "\<exists>ok used1 q1. (if ucast (nb_segment p) + 1 > nb_tx_free q then xmit_cleanup hw q else Inr (True, q)) = Inr (ok, q1) \<and>
      multi_state all used1 pos behind idle q1 \<and> (ok \<longrightarrow> used1 + Suc ?n \<le> 511) \<and> (idle \<and> behind = 0 \<longrightarrow> ok) \<and> tx_tail q1 = tx_tail q"
  proof (cases "511 < used + Suc ?n")
    case True
    then have u: "64 \<le> used" "used \<le> 511" using frame_bounds [of p] multi_state_free [OF Cons.prems(2)] by simp_all
    obtain ok used1 q1 where c: "xmit_cleanup hw q = Inr (ok, q1)" "multi_state all used1 pos behind idle q1" "ok \<longrightarrow> used1 + 64 \<le> used"
      "idle \<and> behind = 0 \<longrightarrow> ok" "tx_tail q1 = tx_tail q" using xmit_cleanup_state [OF hw Cons.prems(2) u(1)] by blast
    have "ok \<longrightarrow> used1 + Suc ?n \<le> 511" using c(3) u(2) frame_bounds [of p] by auto
    then show ?thesis using True c unfolding need by auto
  next
    case False
    then show ?thesis unfolding need using Cons.prems(2) by (intro exI [of _ True] exI [of _ used] exI [of _ q]) simp
  qed
  then obtain ok used1 q1 where c: "(if ucast (nb_segment p) + 1 > nb_tx_free q then xmit_cleanup hw q else Inr (True, q)) = Inr (ok, q1)"
    "multi_state all used1 pos behind idle q1" "ok \<longrightarrow> used1 + Suc ?n \<le> 511" "idle \<and> behind = 0 \<longrightarrow> ok" "tx_tail q1 = tx_tail q" by blast
  show ?case
  proof (cases ok)
    case False
    then have "multi_loop hw (p # bs) nb pos q = Inr (nb, pos, q1)" unfolding multi_loop.simps c(1) by simp
    then show ?thesis using c(2,4,5) False by - (rule exI [of _ 0], rule exI [of _ used1], rule exI [of _ pos], rule exI [of _ behind], auto)
  next
    case True
    then obtain used2 pos2 behind2 q2 where q2: "place_packet p pos q1 = Inr (pos2, q2)" "multi_state (all @ [p]) used2 pos2 behind2 idle q2" "tx_tail q2 = tx_tail q1"
      using place_packet_state [OF c(2) p(1)] c(3) by blast
    obtain k used' pos' behind' q' where q': "multi_loop hw bs (nb + 1) pos2 q2 = Inr (nb + 1 + k, pos', q')" "k \<le> length bs"
      "multi_state ((all @ [p]) @ take k bs) used' pos' behind' idle q'" "tx_tail q' = tx_tail q2"
      using Cons.IH [OF p(2) q2(2)] by blast
    have "multi_loop hw (p # bs) nb pos q = Inr (nb + Suc k, pos', q')" unfolding multi_loop.simps c(1) using True q2(1) q'(1) by simp
    then show ?thesis using q'(2-4) q2(3) c(5)
      by - (rule exI [of _ "Suc k"], rule exI [of _ used'], rule exI [of _ pos'], rule exI [of _ behind'], auto)
  qed
qed

lemma publish:
  assumes "multi_inv cs ps h t c q"
  shows "multi_inv cs ps h (length (slots 0 ps)) c (q\<lparr>tx_tdt := at_slot c (length (slots 0 ps)), tx_tail := x\<rparr>)"
  using assms unfolding multi_inv_def by (simp add: multi_sizes_def)

lemma multi_send_state:
  assumes hw: "\<And>q. multi_hw\<^sup>*\<^sup>* q (hw q)" and bs: "list_all segments_ok bs" and st: "multi_state all used pos 0 idle q" and tail: "unat (tx_tail q) = pos"
  shows "\<exists>n used' pos' q'. multi_send hw bs q = Inr (n, q') \<and> n \<le> length bs \<and> multi_state (all @ take n bs) used' pos' 0 False q' \<and> unat (tx_tail q') = pos' \<and>
    (idle \<and> bs \<noteq> [] \<longrightarrow> 0 < n)"
proof -
  have sizes: "nb_tx_desc q = 512" "tx_free_thresh q = 64" using st unfolding multi_state_def by (auto simp: multi_inv_def multi_sizes_def)
  have need: "int (unat (nb_tx_desc q)) - int (unat (nb_tx_free q)) > int (unat (tx_free_thresh q)) \<longleftrightarrow> 64 \<le> used"
    using multi_state_free [OF st] by (auto simp: sizes)
  have "\<exists>ok used1 q1. (if int (unat (nb_tx_desc q)) - int (unat (nb_tx_free q)) > int (unat (tx_free_thresh q)) then xmit_cleanup hw q else Inr (True, q)) = Inr (ok, q1) \<and>
      multi_state all used1 pos 0 idle q1 \<and> tx_tail q1 = tx_tail q"
    using xmit_cleanup_state [OF hw st] st unfolding need by (cases "64 \<le> used") auto
  then obtain ok used1 q1 where c: "(if int (unat (nb_tx_desc q)) - int (unat (nb_tx_free q)) > int (unat (tx_free_thresh q)) then xmit_cleanup hw q else Inr (True, q)) = Inr (ok, q1)"
    "multi_state all used1 pos 0 idle q1" "tx_tail q1 = tx_tail q" by blast
  obtain k used2 pos2 behind2 q2 where l: "multi_loop hw bs 0 pos q1 = Inr (0 + k, pos2, q2)" "k \<le> length bs" "multi_state (all @ take k bs) used2 pos2 behind2 idle q2"
    "tx_tail q2 = tx_tail q1" "k = 0 \<longrightarrow> pos2 = pos \<and> behind2 = 0" "idle \<and> bs \<noteq> [] \<longrightarrow> 0 < k"
    using multi_loop_state [OF hw bs c(2), of 0] by (elim exE conjE) (erule (2) that, simp_all)
  have run: "multi_send hw bs q = (if k = 0 \<and> bs \<noteq> [] then Inr (0, q2) else Inr (k, q2\<lparr>tx_tdt := pos2, tx_tail := of_nat pos2\<rparr>))"
    unfolding multi_send_def Let_def c(1) tail using l(1) by simp
  show ?thesis
  proof (cases "k = 0 \<and> bs \<noteq> []")
    case True
    then have "multi_state all used2 pos 0 False q2" using l(3,5) unfolding multi_state_def by simp blast
    then show ?thesis using run True l(4,6) c(3) tail by auto
  next
    case False
    obtain cs ps h t d where inv: "multi_inv cs ps h t d q2" "cs @ ps = all @ take k bs" "length (slots 0 ps) = used2" "pos2 = at_slot d used2"
      using l(3) unfolding multi_state_def by blast
    have "multi_inv cs ps h used2 d (q2\<lparr>tx_tdt := pos2, tx_tail := of_nat pos2\<rparr>)" using publish [OF inv(1), of "of_nat pos2"] inv(3,4) by simp
    then have "multi_state (all @ take k bs) used2 pos2 0 False (q2\<lparr>tx_tdt := pos2, tx_tail := of_nat pos2\<rparr>)"
      unfolding multi_state_def using inv(2-4) by fastforce
    moreover have "unat (of_nat pos2 :: u16) = pos2" unfolding inv(4) by (rule u16_small) (simp add: less_trans [OF mod_less_divisor])
    ultimately show ?thesis using run False l(2,6) by auto
  qed
qed

section \<open>A new queue\<close>

lemma link_entries_buf: "i < length txe \<Longrightarrow> tx_buf (link_entries is prev txe ! i) = tx_buf (txe ! i)"
proof (induction "is" prev txe rule: link_entries.induct)
  case (2 ii js prev txe)
  let ?t1 = "txe[ii := (txe ! ii)\<lparr>last_id := of_nat ii\<rparr>]"
  have "tx_buf (?t1[prev := (?t1 ! prev)\<lparr>next_id := of_nat ii\<rparr>] ! i) = tx_buf (txe ! i)" using 2(2) by (cases "i = ii"; cases "i = prev") simp_all
  then show ?case using 2 by (simp add: Let_def)
qed simp

lemma link_entries_next:
  "length txe = n \<Longrightarrow> a < n \<Longrightarrow> i < n \<Longrightarrow>
    next_id (link_entries [Suc a..<n] a txe ! i) = (if a \<le> i \<and> Suc i < n then of_nat (Suc i) else next_id (txe ! i))"
proof (induction "n - a" arbitrary: a txe)
  case 0
  then show ?case by simp
next
  case (Suc x)
  show ?case
  proof (cases "Suc a < n")
    case False
    then show ?thesis using Suc.prems by auto
  next
    case True
    let ?t1 = "txe[Suc a := (txe ! Suc a)\<lparr>last_id := of_nat (Suc a)\<rparr>]"
    let ?t2 = "?t1[a := (?t1 ! a)\<lparr>next_id := of_nat (Suc a)\<rparr>]"
    have "next_id (link_entries [Suc (Suc a)..<n] (Suc a) ?t2 ! i) = (if Suc a \<le> i \<and> Suc i < n then of_nat (Suc i) else next_id (?t2 ! i))"
      using Suc.hyps(1) [of "Suc a" ?t2] Suc.hyps(2) Suc.prems True by simp
    moreover have "next_id (?t2 ! i) = (if i = a then of_nat (Suc a) else next_id (txe ! i))" using Suc.prems by (cases "i = Suc a"; cases "i = a") simp_all
    moreover have "[Suc a..<n] = Suc a # [Suc (Suc a)..<n]" using True by (rule upt_conv_Cons)
    ultimately show ?thesis using True by (auto simp: Let_def simp del: of_nat_Suc)
  qed
qed

lemma start_inv: "multi_inv [] [] 0 0 0 start_queue"
proof -
  let ?t0 = "replicate 512 zero_entry" and ?t1 = "(replicate 512 zero_entry)[0 := zero_entry\<lparr>last_id := 0\<rparr>]"
  let ?t2 = "?t1[511 := (?t1 ! 511)\<lparr>next_id := 0\<rparr>]"
  define A where "A = link_entries [0..<512] 511 ?t0"
  have upt: "[0..<512] = 0 # [Suc 0..<512]" by (rule upt_conv_Cons) simp
  have A: "A = link_entries [Suc 0..<512] 0 ?t2" unfolding A_def upt by (simp add: Let_def del: upt_Suc upt_rec_numeral)
  have "unat (next_id (A ! i)) = (i + 1) mod 512" if i: "i < 512" for i
  proof (cases "i = 511")
    case True
    then show ?thesis using link_entries_next [of ?t2 512 0 511] by (simp add: A)
  next
    case False
    then have "next_id (A ! i) = of_nat (Suc i)" "Suc i < 512" using link_entries_next [of ?t2 512 0 i] i by (simp_all add: A)
    then show ?thesis using u16_small [of "Suc i"] by simp
  qed
  moreover have "tx_buf (A ! i) = zero_mbuf" if "i < 512" for i
    using link_entries_buf [of i ?t0 "[0..<512]" 511] that by (simp add: A_def zero_entry_def)
  moreover have "length A = 512" by (simp add: A_def length_link_entries)
  moreover have "sw_ring start_queue = A" by (simp add: start_queue_def tx_queue.defs configure_tx_queue_def Let_def NUM_TX_DESCRIPTORS_PER_QUEUE_def A_def)
  ultimately show ?thesis
    by (simp add: multi_inv_def multi_sizes_def slot_unused_def start_queue_def tx_queue.defs configure_tx_queue_def Let_def
        NUM_TX_DESCRIPTORS_PER_QUEUE_def TX_RS_THRESH_def TX_FREE_THRESH_def)
qed

section \<open>Correctness\<close>

lemma inv_idle:
  assumes "multi_inv cs ps h t c q"
  shows "tx_head q = tx_tdt q \<longleftrightarrow> h = t"
proof -
  note i = multi_invD [OF assms]
  have "h < 512" "t < 512" using i(3-5) by linarith+
  then show ?thesis using slot_differs [of h t c] i(8,9) by auto
qed

lemma multi_stateI:
  assumes "multi_inv cs rs h t c q" "cs @ rs = ps" "length (slots 0 rs) = used" "0 = used - t"
  shows "multi_state ps used (at_slot c used) 0 (tx_head q = tx_tdt q) q"
  unfolding multi_state_def using assms inv_idle [OF assms(1)] by blast

lemma multi_reached_state:
  "multi_reached ps q \<Longrightarrow> \<exists>used pos. multi_state ps used pos 0 (tx_head q = tx_tdt q) q \<and> unat (tx_tail q) = pos"
proof (induction rule: multi_reached.induct)
  case multi_start
  have "unat (tx_tail start_queue) = 0" by (simp add: start_queue_def tx_queue.defs configure_tx_queue_def Let_def)
  then show ?case using start_inv unfolding multi_state_def by fastforce
next
  case (multi_sent ps q bs hw n q')
  obtain used pos where st: "multi_state ps used pos 0 (tx_head q = tx_tdt q) q" "unat (tx_tail q) = pos" using multi_sent.IH by blast
  obtain used' pos' where s': "multi_state (ps @ take n bs) used' pos' 0 False q'" "unat (tx_tail q') = pos'"
    using multi_send_state [OF multi_sent.hyps(3,2) st] multi_sent.hyps(4) by auto
  then obtain cs rs h t c where inv: "multi_inv cs rs h t c q'" "cs @ rs = ps @ take n bs" "length (slots 0 rs) = used'" "0 = used' - t" "pos' = at_slot c used'"
    unfolding multi_state_def by blast
  then show ?case using multi_stateI [OF inv(1-4)] s'(2) by blast
next
  case (multi_moved ps q q')
  obtain used pos where "multi_state ps used pos 0 (tx_head q = tx_tdt q) q" "unat (tx_tail q) = pos" using multi_moved.IH by blast
  then obtain cs rs h t c where inv: "multi_inv cs rs h t c q" "cs @ rs = ps" "length (slots 0 rs) = used" "unat (tx_tail q) = at_slot c used" "0 = used - t"
    unfolding multi_state_def by blast
  have "multi_inv cs rs (h + 1) t c q'" "tx_tail q' = tx_tail q" using multi_inv_hw [OF inv(1) multi_moved.hyps(2)] by simp_all
  then show ?case using multi_stateI [OF _ inv(2,3,5)] inv(4) by auto
qed

text \<open>
  C11. Packets of several segments. Whatever packets with one to three segments were passed to \<^verbatim>\<open>multi_send\<close>, however far the
  card has come, and whatever it does during the calls: the frames on the wire are a prefix of the accepted packets,
  each frame made of exactly the segments of its packet in order, all of them when the head has reached the tail.
  Buffers are freed in the same order, each with its allocator, exactly once, and never before their frame was sent. A
  further call stays inside the ring, meets its assertions and returns, and it accepts a packet when the card has caught up.
\<close>

theorem x540_multi_order:
  assumes "multi_reached ps q"
  shows "\<exists>k m. m \<le> k \<and> k \<le> length ps \<and> frames q = map frame_of (take k ps) \<and> freed q = concat (map frees_of (take m ps)) \<and>
    (tx_head q = tx_tdt q \<longrightarrow> k = length ps \<and> fragments q = []) \<and>
    (\<forall>hw bs. (\<forall>q. multi_hw\<^sup>*\<^sup>* q (hw q)) \<longrightarrow> list_all segments_ok bs \<longrightarrow>
      (\<exists>n q'. multi_send hw bs q = Inr (n, q') \<and> n \<le> length bs \<and> (tx_head q = tx_tdt q \<and> bs \<noteq> [] \<longrightarrow> 0 < n)))"
proof -
  obtain used pos where st: "multi_state ps used pos 0 (tx_head q = tx_tdt q) q" "unat (tx_tail q) = pos"
    using multi_reached_state [OF assms] by blast
  then obtain cs rs h t c where inv: "multi_inv cs rs h t c q" "cs @ rs = ps" "length (slots 0 rs) = used" "0 = used - t"
    unfolding multi_state_def by blast
  note i = multi_invD [OF inv(1)]
  obtain k where k: "k \<le> length rs" "fst (play (take h (slots 0 rs)) (map frame_of cs, [])) = map frame_of cs @ map frame_of (take k rs)"
    using play_prefix [of rs h 0 "map frame_of cs"] by blast
  have all: "frames q = map frame_of ps \<and> fragments q = []" if "tx_head q = tx_tdt q"
  proof -
    have "h = length (slots 0 rs)" using that inv_idle [OF inv(1)] inv(3,4) i(4) by simp
    then show ?thesis using i(12) by (simp add: play_slots inv(2) [symmetric])
  qed
  define k' where "k' = (if tx_head q = tx_tdt q then length ps else length cs + k)"
  have "frames q = map frame_of (take k' ps)" using all k(2) i(12) inv(2) by (auto simp: k'_def simp flip: map_append) (metis fst_conv)
  moreover have "length cs \<le> k'" "k' \<le> length ps" "take (length cs) ps = cs" using k(1) inv(2) by (auto simp: k'_def)
  moreover have "\<exists>n q'. multi_send hw bs q = Inr (n, q') \<and> n \<le> length bs \<and> (tx_head q = tx_tdt q \<and> bs \<noteq> [] \<longrightarrow> 0 < n)"
    if "\<forall>q. multi_hw\<^sup>*\<^sup>* q (hw q)" "list_all segments_ok bs" for hw bs
    using multi_send_state [OF _ that(2) st, of hw] that(1) by blast
  ultimately show ?thesis using all i(13) by (intro exI [of _ k'] exI [of _ "length cs"]) (simp add: k'_def)
qed

definition example_packet :: exo_mbuf where
  "example_packet = zero_mbuf\<lparr>phys_addr := 4096, mbuf_len := 42, phys_addr_seg := [8192, 12288], seg_len := [100, 1000], nb_segment := 3\<rparr>"

theorem x540_multi_order_witness:
  "\<exists>n q. multi_reached (take n [example_packet, example_packet]) q \<and> 0 < n \<and>
    (\<exists>k\<le>n. frames q = map frame_of (take k (take n [example_packet, example_packet])))"
proof -
  have ok: "list_all segments_ok [example_packet, example_packet]"
    by (simp add: segments_ok_def frame_of_def example_packet_def)
  have st: "multi_state [] 0 0 0 True start_queue" "unat (tx_tail start_queue) = 0"
    using start_inv unfolding multi_state_def by (fastforce simp: start_queue_def tx_queue.defs configure_tx_queue_def Let_def)+
  have hw: "multi_hw\<^sup>*\<^sup>* q (id q)" for q by simp
  obtain n q where q: "multi_send id [example_packet, example_packet] start_queue = Inr (n, q)" "0 < n"
    using multi_send_state [OF hw ok st] by blast
  have r: "multi_reached (take n [example_packet, example_packet]) q" using multi_sent [OF multi_start ok hw q(1)] by simp
  obtain k where "k \<le> length (take n [example_packet, example_packet])" "frames q = map frame_of (take k (take n [example_packet, example_packet]))"
    using x540_multi_order [OF r] by blast
  then show ?thesis using r q(2) by (intro exI [of _ n] exI [of _ q]) auto
qed

end
