(* ===== verification/XDK_Shm_Table.thy ===== *)
theory XDK_Shm_Table
  imports XDK_Bytes
begin

text \<open>
  The shared memory table: \<^verbatim>\<open>lib/libexo/exo/shm_table.h\<close>. The state is the bytes of the mapped object: the lock, the
  number of the next row, the size and the identifier, then 1024 rows of 64 bytes. The operations are called with the
  table's lock held. The table is shown to be a list that grows at its end.
\<close>

section \<open>Layout\<close>

type_synonym shm_memory = "u8 list"

definition shm_table_entry_t :: "c_field list" where
  "shm_table_entry_t = [(''type_id'', 4, 4, 1), (''sub_type_id'', 4, 4, 1), (''value'', 8, 8, 7)]"

text \<open>The lock is padded to four cache lines of 64 bytes.\<close>

definition sizeof_Spin_lock :: nat where
  "sizeof_Spin_lock = 256"

definition shm_table_control_t :: "c_field list" where
  "shm_table_control_t = [(''lock'', 1, 8, sizeof_Spin_lock), (''size'', 8, 8, 1), (''next_row'', 4, 4, 1), (''id'', 4, 4, 1)]"

definition sizeof_entry :: nat where
  "sizeof_entry = sizeof False shm_table_entry_t"

definition SHM_TABLE_ENTRY :: nat where
  "SHM_TABLE_ENTRY = 1024"

definition sizeof_control :: nat where
  "sizeof_control = sizeof False shm_table_control_t"

definition SHM_TABLE_SIZE :: nat where
  "SHM_TABLE_SIZE = sizeof_entry * SHM_TABLE_ENTRY + sizeof_control"

text \<open>The pointers of the class do not use the structure: the row number is behind the lock, then the size, then the identifier.\<close>

definition next_row_at :: nat where
  "next_row_at = sizeof_Spin_lock"

definition size_at :: nat where
  "size_at = next_row_at + 4"

definition id_at :: nat where
  "id_at = size_at + 8"

definition next_row :: "shm_memory \<Rightarrow> u32" where
  "next_row t = of_nat (get_le next_row_at 4 t)"

definition get_table_size :: "shm_memory \<Rightarrow> u64" where
  "get_table_size t = of_nat (get_le size_at 8 t)"

definition get_table_id :: "shm_memory \<Rightarrow> u32" where
  "get_table_id t = of_nat (get_le id_at 4 t)"

definition row_at :: "u32 \<Rightarrow> nat" where
  "row_at row = sizeof_control + unat row * sizeof_entry"

section \<open>Operations\<close>

text \<open>The initialisation by the process that creates the table; an open lock is zero.\<close>

definition init_table :: "u32 \<Rightarrow> shm_memory" where
  "init_table tid =
     put_le id_at 4 (unat tid) (put_le size_at 8 SHM_TABLE_SIZE (put_le next_row_at 4 0 (replicate SHM_TABLE_SIZE 0)))"

definition get_row_number :: "shm_memory \<Rightarrow> u32 outcome" where
  "get_row_number t = check (unat (next_row t) < SHM_TABLE_ENTRY) Assertion (Inr (next_row t))"

text \<open>An entry is its 64 bytes; \<open>None\<close> is the null pointer. A copy behind the end of the mapping is out of range.\<close>

definition write_shm_table :: "u32 \<Rightarrow> u8 list option \<Rightarrow> shm_memory \<Rightarrow> shm_memory outcome" where
  "write_shm_table row st t =
     (case st of None \<Rightarrow> Inl Assertion
      | Some e \<Rightarrow>
          check (row = next_row t) Assertion
          (check (row_at row + sizeof_entry \<le> length t) Out_of_range
            (let t1 = take (row_at row) t @ e @ drop (row_at row + sizeof_entry) t
             in Inr (put_le next_row_at 4 (unat (next_row t1 + 1)) t1))))"

definition read_row :: "u32 \<Rightarrow> shm_memory \<Rightarrow> u8 list outcome" where
  "read_row row t =
     check (row < next_row t) Assertion
     (check (row_at row + sizeof_entry \<le> length t) Out_of_range (Inr (take sizeof_entry (drop (row_at row) t))))"

definition entry_matches :: "u32 \<Rightarrow> u32 \<Rightarrow> nat \<Rightarrow> shm_memory \<Rightarrow> bool" where
  "entry_matches tid sid p t \<longleftrightarrow>
     load False shm_table_entry_t ''type_id'' p t = unat tid \<and> load False shm_table_entry_t ''sub_type_id'' p t = unat sid"

function find_loop :: "u32 \<Rightarrow> u32 \<Rightarrow> nat \<Rightarrow> shm_memory \<Rightarrow> int outcome" where
  "find_loop tid sid i t =
     (if i < unat (next_row t) then
        check (row_at (of_nat i) + sizeof_entry \<le> length t) Out_of_range
        (if entry_matches tid sid (row_at (of_nat i)) t then Inr (sint (of_nat i :: u32)) else find_loop tid sid (i + 1) t)
      else Inr (-1))"
  by pat_completeness auto
termination by (relation "measure (\<lambda>(tid, sid, i, t). unat (next_row t) - i)") auto

declare find_loop.simps [simp del]

definition find_row_number :: "u32 \<Rightarrow> u32 \<Rightarrow> shm_memory \<Rightarrow> int outcome" where
  "find_row_number tid sid t = find_loop tid sid 0 t"

section \<open>The table as a list\<close>

lemma layout_sizes: "sizeof_entry = 64" "sizeof_control = 272" "SHM_TABLE_SIZE = 65808" "next_row_at = 256" "size_at = 260" "id_at = 268"
  by (simp_all add: sizeof_entry_def sizeof_control_def SHM_TABLE_SIZE_def SHM_TABLE_ENTRY_def next_row_at_def size_at_def id_at_def sizeof_Spin_lock_def
      sizeof_def shm_table_entry_t_def shm_table_control_t_def c_align_def aligned_offset_def)

definition table_of :: "u8 list list \<Rightarrow> shm_memory \<Rightarrow> bool" where
  "table_of es t \<longleftrightarrow> length t = 65808 \<and> length es \<le> 1024 \<and> (\<forall>e\<in>set es. length e = 64) \<and> unat (next_row t) = length es \<and>
     (\<forall>i < length es. take 64 (drop (272 + i * 64) t) = es ! i)"

lemma init_table_empty: "table_of [] (init_table tid)"
  by (simp add: table_of_def init_table_def next_row_def layout_sizes get_put_same get_put_disjoint)

lemma get_le_sub:
  assumes "take n (drop p t) = e" "off + w \<le> length e" "p + n \<le> length t"
  shows "get_le (p + off) w t = get_le off w e"
  using assms(2)
proof (induction w arbitrary: off)
  case (Suc w)
  have "length e \<le> n" using assms(1) by auto
  then have "e ! off = t ! (p + off)" using Suc.prems assms(1,3) by (auto simp: nth_append)
  then show ?case using Suc.IH [of "Suc off"] Suc.prems by simp
qed simp

lemma entry_pos:
  "field_pos False shm_table_entry_t ''type_id'' = Some (0, 4)" "field_pos False shm_table_entry_t ''sub_type_id'' = Some (4, 4)"
  by (simp_all add: field_pos_def shm_table_entry_t_def aligned_offset_def)

definition entry_ids :: "u8 list \<Rightarrow> nat \<times> nat" where
  "entry_ids e = (get_le 0 4 e, get_le 4 4 e)"

lemma row_at_index: "i \<le> 1024 \<Longrightarrow> row_at (of_nat i) = 272 + i * 64"
  by (simp add: row_at_def layout_sizes unat_of_nat)

lemma table_row:
  assumes "table_of es t" "i < length es"
  shows "entry_matches tid sid (row_at (of_nat i)) t \<longleftrightarrow> entry_ids (es ! i) = (unat tid, unat sid)"
    "read_row (of_nat i) t = Inr (es ! i)" "row_at (of_nat i) + sizeof_entry \<le> length t"
proof -
  have t: "take 64 (drop (272 + i * 64) t) = es ! i" "length (es ! i) = 64" "length t = 65808" "i < 1024" "unat (next_row t) = length es"
    using assms by (auto simp: table_of_def)
  have at: "row_at (of_nat i) = 272 + i * 64" using t(4) row_at_index [of i] by simp
  show "entry_matches tid sid (row_at (of_nat i)) t \<longleftrightarrow> entry_ids (es ! i) = (unat tid, unat sid)"
    using get_le_sub [OF t(1), of 0 4] get_le_sub [OF t(1), of 4 4] t(2-4) by (simp add: entry_matches_def load_def entry_pos entry_ids_def at)
  show "row_at (of_nat i) + sizeof_entry \<le> length t" using t(3,4) by (simp add: at layout_sizes)
  moreover have "(of_nat i :: u32) < next_row t" using t(4,5) assms(2) by (simp add: word_less_nat_alt unat_of_nat)
  ultimately show "read_row (of_nat i) t = Inr (es ! i)" using t(1) by (simp add: read_row_def at layout_sizes)
qed

lemma find_loop_list:
  assumes "table_of es t" "i \<le> length es"
  shows "find_loop tid sid i t = Inr (case List.find (\<lambda>j. entry_ids (es ! j) = (unat tid, unat sid)) [i..<length es] of
    None \<Rightarrow> -1 | Some j \<Rightarrow> int j)"
  using assms(2)
proof (induction "length es - i" arbitrary: i)
  case 0
  then show ?case using assms(1) by (subst find_loop.simps) (simp add: table_of_def)
next
  case (Suc k)
  then have i: "i < length es" "i < unat (next_row t)" "sint (of_nat i :: u32) = int i"
    using assms(1) sint_of_nat_small [of i] by (simp_all add: table_of_def)
  have "find_loop tid sid i t = (if entry_matches tid sid (row_at (of_nat i)) t then Inr (int i) else find_loop tid sid (i + 1) t)"
    using i table_row(3) [OF assms(1) i(1)] by (subst find_loop.simps) simp
  then show ?case
    using Suc.hyps(1) [of "Suc i"] Suc.hyps(2) i(1) table_row(1) [OF assms(1) i(1)] by (simp add: upt_conv_Cons)
qed

lemma write_row_list:
  assumes "table_of es t" "length e = 64" "length es < 1024"
  shows "\<exists>t'. write_shm_table (next_row t) (Some e) t = Inr t' \<and> table_of (es @ [e]) t' \<and> get_table_id t' = get_table_id t"
proof -
  let ?p = "272 + length es * 64" and ?r = "length es"
  define t1 where "t1 = take ?p t @ e @ drop (?p + 64) t"
  define t' where "t' = put_le 256 4 (Suc ?r) t1"
  have t: "length t = 65808" "unat (next_row t) = ?r" "\<forall>i < ?r. take 64 (drop (272 + i * 64) t) = es ! i" "\<forall>e\<in>set es. length e = 64"
    using assms(1) by (auto simp: table_of_def)
  have len: "length t1 = 65808" "?p + 64 \<le> 65808" using t(1) assms(2,3) by (simp_all add: t1_def)
  have low: "t1 ! i = t ! i" if "i < ?p" for i using that t(1) len(2) by (simp add: t1_def nth_append)
  have n: "next_row t = of_nat ?r" using t(2) assms(3) by (simp add: word_unat_eq_iff unat_of_nat)
  have "get_le 256 4 t1 = get_le 256 4 t" by (intro get_le_cong low) simp
  then have "unat (next_row t1 + 1) = Suc ?r" using t(2) assms(3) by (simp add: next_row_def layout_sizes unat_word_ariths)
  then have "write_shm_table (next_row t) (Some e) t = Inr t'"
    using row_at_index [of ?r] assms(3) t(1) len(2) unfolding t'_def t1_def n write_shm_table_def
    by (simp add: layout_sizes n [symmetric] Let_def)
  moreover have "table_of (es @ [e]) t'"
  proof -
    have "drop (272 + i * 64) t' = drop (272 + i * 64) t1" for i
      by (rule nth_equalityI) (simp_all add: t'_def put_le_outside)
    moreover have "take 64 (drop (272 + i * 64) t1) = (es @ [e]) ! i" if "i < Suc ?r" for i
    proof (cases "i < ?r")
      case True
      then have "take 64 (drop (272 + i * 64) t1) = take 64 (drop (272 + i * 64) t)"
        using len t(1) low by (intro nth_equalityI) simp_all
      then show ?thesis using True t(3) by (simp add: nth_append)
    next
      case False
      then have "i = ?r" using that by simp
      then show ?thesis using t(1) len(2) assms(2) by (simp add: t1_def)
    qed
    moreover have "unat (next_row t') = Suc ?r" using len assms(3) by (simp add: next_row_def layout_sizes t'_def get_put_same unat_of_nat del: of_nat_Suc)
    ultimately show ?thesis using len(1) assms(2,3) t(4) by (simp add: table_of_def t'_def)
  qed
  moreover have "get_table_id t' = get_table_id t"
    using get_le_cong [of 268 4 t1 t] low by (simp add: get_table_id_def layout_sizes t'_def get_put_disjoint)
  ultimately show ?thesis by blast
qed

text \<open>Rows are added the way the class is documented to be used.\<close>

fun append_rows :: "u8 list list \<Rightarrow> shm_memory \<Rightarrow> shm_memory outcome" where
  "append_rows [] t = Inr t"
| "append_rows (e # es) t = seq (get_row_number t) (\<lambda>r. seq (write_shm_table r (Some e) t) (append_rows es))"

lemma append_rows_list:
  assumes "table_of es t" "length es + length es' \<le> 1024" "\<forall>e\<in>set es'. length e = 64"
  shows "\<exists>t'. append_rows es' t = Inr t' \<and> table_of (es @ es') t' \<and> get_table_id t' = get_table_id t"
  using assms
proof (induction es' arbitrary: es t)
  case (Cons e es')
  then obtain t1 where t1: "write_shm_table (next_row t) (Some e) t = Inr t1" "table_of (es @ [e]) t1" "get_table_id t1 = get_table_id t"
    using write_row_list [of es t e] by auto
  have "get_row_number t = Inr (next_row t)" using Cons.prems by (simp add: get_row_number_def table_of_def SHM_TABLE_ENTRY_def)
  then show ?case using Cons.IH [OF t1(2)] Cons.prems t1 by simp
qed auto

text \<open>
  C39. The shared memory table is a list of rows. In a new table, up to 1024 rows can be added; every row is then read
  back as it was written, a search finds the first row with the two identifiers, or \<open>-1\<close>, and the table keeps its
  identifier. When the table is full, the next row number is refused, but a write of the next row is not: it goes
  behind the end of the mapping.
\<close>

theorem shm_table_list:
  assumes "length es \<le> 1024" "\<forall>e\<in>set es. length e = 64"
  shows "\<exists>t. append_rows es (init_table tid) = Inr t \<and> get_table_id t = tid \<and> (\<forall>i < length es. read_row (of_nat i) t = Inr (es ! i)) \<and>
    find_row_number type sub t = Inr (case List.find (\<lambda>j. entry_ids (es ! j) = (unat type, unat sub)) [0..<length es] of
      None \<Rightarrow> -1 | Some j \<Rightarrow> int j) \<and>
    (length es = 1024 \<longrightarrow> get_row_number t = Inl Assertion \<and> write_shm_table 1024 (Some e) t = Inl Out_of_range)"
proof -
  have "get_table_id (init_table tid) = tid"
    using unat_bound [of tid] by (simp add: get_table_id_def init_table_def layout_sizes get_put_same)
  then obtain t where t: "append_rows es (init_table tid) = Inr t" "table_of es t" "get_table_id t = tid"
    using append_rows_list [OF init_table_empty, of es tid] assms by auto
  have "get_row_number t = Inl Assertion \<and> write_shm_table 1024 (Some e) t = Inl Out_of_range" if "length es = 1024"
  proof -
    have "unat (next_row t) = 1024" "length t = 65808" using t(2) that by (simp_all add: table_of_def)
    moreover from this have "next_row t = 1024" by (simp add: word_unat_eq_iff)
    ultimately show ?thesis by (simp add: get_row_number_def SHM_TABLE_ENTRY_def write_shm_table_def row_at_def layout_sizes)
  qed
  then show ?thesis using t table_row(2) [OF t(2)] find_loop_list [OF t(2), of 0] by (auto simp: find_row_number_def)
qed

theorem shm_table_list_witness:
  "\<exists>t. append_rows [replicate 64 1, replicate 64 2] (init_table 7) = Inr t \<and> get_table_id t = 7 \<and> read_row 1 t = Inr (replicate 64 2) \<and>
     find_row_number 0x2020202 0x2020202 t = Inr 1"
proof -
  have ids: "entry_ids (replicate 64 2) = (0x2020202, 0x2020202)" "entry_ids (replicate 64 1) = (0x1010101, 0x1010101)"
    by (simp_all add: entry_ids_def get_le_widths)
  have two: "[0..<2] = [0, 1 :: nat]" by (simp add: upt_rec)
  have l: "length [replicate 64 1, replicate 64 (2 :: u8)] = 2" and le: "length [replicate 64 1, replicate 64 (2 :: u8)] \<le> 1024"
    and all: "\<forall>e\<in>set [replicate 64 1, replicate 64 (2 :: u8)]. length e = 64" by simp_all
  obtain t where t: "append_rows [replicate 64 1, replicate 64 2] (init_table 7) = Inr t" "get_table_id t = 7"
      "\<forall>i < 2. read_row (of_nat i) t = Inr ([replicate 64 1, replicate 64 2] ! i)"
      "find_row_number 0x2020202 0x2020202 t = Inr (case List.find (\<lambda>j. entry_ids ([replicate 64 1, replicate 64 2] ! j) =
        (unat (0x2020202 :: u32), unat (0x2020202 :: u32))) [0..<2] of None \<Rightarrow> -1 | Some j \<Rightarrow> int j)"
    using shm_table_list [OF le all, of 7 "0x2020202" "0x2020202" "[]", unfolded l] by blast
  from t(3) [rule_format, of 1] show ?thesis using t(1,2,4) ids
    by (simp add: two del: append_rows.simps)
qed

end
