(* ===== verification/XDK_Rand.thy ===== *)
theory XDK_Rand
  imports XDK_Prelude
begin

text \<open>
  The random number generator MT19937-64: \<^verbatim>\<open>lib/libexo/rand.cc\<close>. The code computes 312 words at a time in place and in
  three loops; it is shown to produce the sequence of the generator's recurrence. The functions that convert to
  \<^verbatim>\<open>double\<close> are not modelled.
\<close>

section \<open>The generator\<close>

definition NN :: nat where
  "NN = 312"

definition MM :: nat where
  "MM = 156"

definition MATRIX_A :: u64 where
  "MATRIX_A = 0xB5026F5AA96619E9"

definition UM :: u64 where
  "UM = 0xFFFFFFFF80000000"

definition LM :: u64 where
  "LM = 0x7FFFFFFF"

text \<open>The static array \<^verbatim>\<open>mt\<close> of 312 words and the index \<^verbatim>\<open>mti\<close>, initially 313.\<close>

record generator =
  mt :: "u64 list"
  mti :: nat

definition seed_next :: "u64 \<Rightarrow> nat \<Rightarrow> u64" where
  "seed_next w i = 6364136223846793005 * (w XOR drop_bit 62 w) + of_nat i"

definition init_genrand64 :: "u64 \<Rightarrow> generator \<Rightarrow> generator" where
  "init_genrand64 seed g =
     g\<lparr>mt := fold (\<lambda>i m. m[i := seed_next (m ! (i - 1)) i]) [1..<NN] ((mt g)[0 := seed]), mti := NN\<rparr>"

text \<open>The loops of \<^verbatim>\<open>init_by_array64\<close>; their state is the array with the indices \<open>i\<close> and \<open>j\<close>.\<close>

definition wrap_index :: "nat \<times> u64 list \<Rightarrow> nat \<times> u64 list" where
  "wrap_index = (\<lambda>(i, m). if i + 1 \<ge> NN then (1, m[0 := m ! (NN - 1)]) else (i + 1, m))"

fun key_loop :: "u64 list \<Rightarrow> nat \<Rightarrow> nat \<times> nat \<times> u64 list \<Rightarrow> (nat \<times> nat \<times> u64 list) outcome" where
  "key_loop key 0 (i, j, m) = Inr (i, j, m)"
| "key_loop key (Suc k) (i, j, m) =
     check (j < length key) Out_of_range
     (let w = m ! (i - 1);
          m1 = m[i := (m ! i XOR ((w XOR drop_bit 62 w) * 3935559000370003845)) + key ! j + of_nat j];
          (i1, m2) = wrap_index (i, m1)
      in key_loop key k (i1, if j + 1 \<ge> length key then 0 else j + 1, m2))"

fun mix_loop :: "nat \<Rightarrow> nat \<times> u64 list \<Rightarrow> nat \<times> u64 list" where
  "mix_loop 0 s = s"
| "mix_loop (Suc k) (i, m) =
     (let w = m ! (i - 1);
          m1 = m[i := (m ! i XOR ((w XOR drop_bit 62 w) * 2862933555777941757)) - of_nat i]
      in mix_loop k (wrap_index (i, m1)))"

definition init_by_array64 :: "u64 list \<Rightarrow> generator \<Rightarrow> generator outcome" where
  "init_by_array64 key g =
     (let g1 = init_genrand64 19650218 g in
      seq (key_loop key (max NN (length key)) (1, 0, mt g1)) (\<lambda>(i, j, m).
        Inr (g1\<lparr>mt := (snd (mix_loop (NN - 1) (i, m)))[0 := push_bit 63 1]\<rparr>)))"

definition twist :: "u64 \<Rightarrow> u64 \<Rightarrow> u64" where
  "twist a b = (let x = (a AND UM) OR (b AND LM) in drop_bit 1 x XOR (if x AND 1 = 0 then 0 else MATRIX_A))"

definition generate_words :: "u64 list \<Rightarrow> u64 list" where
  "generate_words m =
     (let m1 = fold (\<lambda>i m. m[i := m ! (i + MM) XOR twist (m ! i) (m ! (i + 1))]) [0..<NN - MM] m;
          m2 = fold (\<lambda>i m. m[i := m ! (i - (NN - MM)) XOR twist (m ! i) (m ! (i + 1))]) [NN - MM..<NN - 1] m1
      in m2[NN - 1 := m2 ! (MM - 1) XOR twist (m2 ! (NN - 1)) (m2 ! 0)])"

definition temper :: "u64 \<Rightarrow> u64" where
  "temper x0 =
     (let x1 = x0 XOR (drop_bit 29 x0 AND 0x5555555555555555);
          x2 = x1 XOR (push_bit 17 x1 AND 0x71D67FFFEDA60000);
          x3 = x2 XOR (push_bit 37 x2 AND 0xFFF7EEE000000000)
      in x3 XOR drop_bit 43 x3)"

definition genrand64_int64 :: "generator \<Rightarrow> u64 \<times> generator" where
  "genrand64_int64 g =
     (let g1 = (if mti g \<ge> NN then
                  let g0 = (if mti g = NN + 1 then init_genrand64 5489 g else g)
                  in g0\<lparr>mt := generate_words (mt g0), mti := 0\<rparr>
                else g)
      in (temper (mt g1 ! mti g1), g1\<lparr>mti := mti g1 + 1\<rparr>))"

definition genrand64_int63 :: "generator \<Rightarrow> u64 \<times> generator" where
  "genrand64_int63 g = (let (x, g1) = genrand64_int64 g in (drop_bit 1 x, g1))"

section \<open>The recurrence\<close>

text \<open>The words of the state are initialised from the seed by one recurrence and continued by another.\<close>

primrec seed_word :: "u64 \<Rightarrow> nat \<Rightarrow> u64" where
  "seed_word seed 0 = seed"
| "seed_word seed (Suc i) = seed_next (seed_word seed i) (Suc i)"

function mt_word :: "u64 \<Rightarrow> nat \<Rightarrow> u64" where
  "mt_word seed k = (if k < 312 then seed_word seed k
     else mt_word seed (k - 156) XOR twist (mt_word seed (k - 312)) (mt_word seed (k - 311)))"
  by pat_completeness auto
termination by (relation "measure snd") auto

declare mt_word.simps [simp del]

lemma mt_word_rec: "mt_word seed (k + 312) = mt_word seed (k + 156) XOR twist (mt_word seed k) (mt_word seed (k + 1))"
  by (subst mt_word.simps) (simp add: add.commute)

text \<open>The array while word \<open>i\<close> of the block behind \<open>b\<close> is generated.\<close>

definition block_at :: "u64 \<Rightarrow> nat \<Rightarrow> nat \<Rightarrow> u64 list \<Rightarrow> bool" where
  "block_at seed b i m \<longleftrightarrow> length m = 312 \<and> (\<forall>j < 312. m ! j = mt_word seed (if j < i then b + 312 + j else b + j))"

lemma block_step:
  assumes "block_at seed b i m" "i < 312" "v = mt_word seed (b + i + 156) XOR twist (mt_word seed (b + i)) (mt_word seed (b + i + 1))"
  shows "block_at seed b (Suc i) (m[i := v])"
proof -
  have "v = mt_word seed (b + 312 + i)" using assms(3) mt_word_rec [of seed "b + i"] by (simp add: ac_simps)
  then show ?thesis using assms(1,2) by (auto simp: block_at_def nth_list_update less_Suc_eq)
qed

lemma block_loop:
  assumes "block_at seed b i m" "i \<le> n" "n \<le> 312"
    "\<And>j m. block_at seed b j m \<Longrightarrow> i \<le> j \<Longrightarrow> j < n \<Longrightarrow>
      f j m = m[j := mt_word seed (b + j + 156) XOR twist (mt_word seed (b + j)) (mt_word seed (b + j + 1))]"
  shows "block_at seed b n (fold f [i..<n] m)"
  using assms(2,3,4)
proof (induction n rule: dec_induct)
  case base
  then show ?case using assms(1) by simp
next
  case (step n)
  then have "block_at seed b n (fold f [i..<n] m)" by simp
  then show ?case using step block_step [of seed b n] by simp
qed

lemma generate_words_block:
  assumes "block_at seed b 0 m"
  shows "block_at seed (b + 312) 0 (generate_words m)"
proof -
  define m1 where "m1 = fold (\<lambda>i m. m[i := m ! (i + 156) XOR twist (m ! i) (m ! (i + 1))]) [0..<156] m"
  define m2 where "m2 = fold (\<lambda>i m. m[i := m ! (i - 156) XOR twist (m ! i) (m ! (i + 1))]) [156..<311] m1"
  have m1: "block_at seed b 156 m1"
    unfolding m1_def using assms by (rule block_loop) (simp_all add: block_at_def add.assoc)
  have m2: "block_at seed b 311 m2"
    unfolding m2_def using m1 by (rule block_loop) (simp_all add: block_at_def ac_simps)
  have "block_at seed b (Suc 311) (m2[311 := m2 ! 155 XOR twist (m2 ! 311) (m2 ! 0)])"
    using m2 by (rule block_step) (use m2 in \<open>simp_all add: block_at_def add.commute\<close>)
  moreover have "generate_words m = m2[311 := m2 ! 155 XOR twist (m2 ! 311) (m2 ! 0)]"
  proof -
    have "(312 :: nat) - 156 = 156" "(312 :: nat) - 1 = 311" "(156 :: nat) - 1 = 155" by simp_all
    then show ?thesis unfolding generate_words_def NN_def MM_def Let_def m2_def m1_def by (simp only:)
  qed
  ultimately show ?thesis by (simp add: block_at_def)
qed

lemma init_genrand64_block:
  assumes "length (mt g) = 312"
  shows "block_at seed 0 0 (mt (init_genrand64 seed g))" "mti (init_genrand64 seed g) = 312"
proof -
  define f where "f = (\<lambda>i (m :: u64 list). m[i := seed_next (m ! (i - 1)) i])"
  have "length (fold f [1..<n] ((mt g)[0 := seed])) = 312 \<and> (\<forall>j < n. fold f [1..<n] ((mt g)[0 := seed]) ! j = seed_word seed j)"
    if "1 \<le> n" "n \<le> 312" for n
    using that
  proof (induction n rule: dec_induct)
    case base
    then show ?case using assms by simp
  next
    case (step n)
    then obtain k where "n = Suc k" by (cases n) auto
    then show ?case using step by (auto simp: f_def nth_list_update less_Suc_eq)
  qed
  from this [of 312] show "block_at seed 0 0 (mt (init_genrand64 seed g))"
    by (simp add: block_at_def init_genrand64_def NN_def f_def mt_word.simps del: upt_rec_numeral)
qed (simp add: init_genrand64_def NN_def)

section \<open>Properties\<close>

text \<open>The numbers of successive calls.\<close>

primrec draws :: "nat \<Rightarrow> generator \<Rightarrow> u64 list \<times> generator" where
  "draws 0 g = ([], g)"
| "draws (Suc n) g = (let (xs, g1) = draws n g; (x, g2) = genrand64_int64 g1 in (xs @ [x], g2))"

definition drawn :: "u64 \<Rightarrow> nat \<Rightarrow> generator \<Rightarrow> bool" where
  "drawn seed n g \<longleftrightarrow> (\<exists>b. block_at seed b 0 (mt g) \<and> mti g \<le> 312 \<and> b + mti g = 312 + n)"

lemma genrand64_drawn:
  assumes "drawn seed n g"
  shows "\<exists>g'. genrand64_int64 g = (temper (mt_word seed (312 + n)), g') \<and> drawn seed (Suc n) g'"
proof -
  obtain b where b: "block_at seed b 0 (mt g)" "mti g \<le> 312" "b + mti g = 312 + n" using assms by (auto simp: drawn_def)
  show ?thesis
  proof (cases "mti g = 312")
    case True
    then have n: "b = n" using b(3) by simp
    have "block_at seed (n + 312) 0 (generate_words (mt g))" using generate_words_block b(1) n by simp
    moreover from this have "generate_words (mt g) ! 0 = mt_word seed (312 + n)" by (simp add: block_at_def add.commute)
    ultimately show ?thesis using True by (auto simp: genrand64_int64_def NN_def drawn_def Let_def add.commute)
  next
    case False
    then have "mt g ! mti g = mt_word seed (312 + n)" using b by (simp add: block_at_def)
    then show ?thesis using False b by (auto simp: genrand64_int64_def NN_def drawn_def)
  qed
qed

lemma draws_drawn:
  assumes "drawn seed 0 g"
  shows "fst (draws n g) = map (\<lambda>k. temper (mt_word seed (312 + k))) [0..<n] \<and> drawn seed n (snd (draws n g))"
proof (induction n)
  case (Suc n)
  then show ?case using genrand64_drawn [of seed n "snd (draws n g)"] by (auto simp: split_beta)
qed (use assms in simp)

lemma seeded_drawn:
  assumes "length (mt g) = 312"
  shows "drawn seed 0 (init_genrand64 seed g)"
  using init_genrand64_block [OF assms, of seed] by (auto simp: drawn_def)

text \<open>
  C40. The generator computes its recurrence. After it is seeded, the numbers of any number of calls are the tempered
  words of the recurrence of the generator, each computed once, although the code replaces its array in place 312
  words at a time. A generator that was not seeded behaves as if seeded with 5489.
\<close>

theorem rand_stream:
  assumes "length (mt g) = 312" "mti g' = 313" "length (mt g') = 312"
  shows "fst (draws n (init_genrand64 seed g)) = map (\<lambda>k. temper (mt_word seed (312 + k))) [0..<n] \<and>
    fst (draws (Suc n) g') = map (\<lambda>k. temper (mt_word 5489 (312 + k))) [0..<Suc n]"
proof -
  have first: "genrand64_int64 g' = genrand64_int64 (init_genrand64 5489 g')"
    using assms(2) init_genrand64_block(2) [OF assms(3)] by (simp add: genrand64_int64_def NN_def)
  have "draws (Suc n) g' = draws (Suc n) (init_genrand64 5489 g')"
    by (induction n) (simp_all add: first)
  then show ?thesis using draws_drawn [OF seeded_drawn [OF assms(1)]] draws_drawn [OF seeded_drawn [OF assms(3), of 5489], of "Suc n"]
    by (simp del: draws.simps upt_Suc)
qed

theorem rand_stream_witness:
  "fst (draws 2 (init_genrand64 7 \<lparr>mt = replicate 312 0, mti = 313\<rparr>)) = [temper (mt_word 7 312), temper (mt_word 7 313)]"
proof -
  have "[0..<2] = [0, 1 :: nat]" by (simp add: upt_rec)
  then show ?thesis
    using rand_stream [of "\<lparr>mt = replicate 312 0, mti = 313\<rparr>" "\<lparr>mt = replicate 312 0, mti = 313\<rparr>" 2 7] by simp
qed

end
