(* ===== verification/XDK_Ext2_Cache.thy ===== *)
theory XDK_Ext2_Cache
  imports XDK_Contracts
begin

text \<open>
  The block layer of the ext2 file system: the block device session over shared memory
  (\<^verbatim>\<open>fs/ext2fs/block_device.h\<close>) and the block cache with its allocator (\<^verbatim>\<open>fs/ext2fs/block_cache.h\<close>), each call
  alone. The build is for a 32-bit target, so \<^verbatim>\<open>size_t\<close> has 32 bits here. A session is a function from offset,
  byte count and its own state to the bytes read. The proxy of the AHCI driver, the page allocator and the cycle
  counter are arguments.
\<close>

section \<open>Block device session\<close>

type_synonym 's session = "u64 \<Rightarrow> u32 \<Rightarrow> 's \<Rightarrow> (u8 list \<times> 's) outcome"

text \<open>
  \<open>proxy offset count buffer\<close> is the shared buffer after the driver has served a read. The state of the session is
  the buffer, of \<open>S\<close> bytes; copying beyond its end is undefined.
\<close>

definition block_read :: "(u64 \<Rightarrow> u32 \<Rightarrow> u8 list \<Rightarrow> u8 list) \<Rightarrow> u8 list session" where
  "block_read proxy offset byte_count buf =
     (let block_start_offset = offset AND NOT 0x1ff;
          delta = (ucast (offset - block_start_offset) :: u32);
          modified_byte_count = byte_count + delta;
          buf' = proxy block_start_offset modified_byte_count buf
      in check (unat delta + unat byte_count \<le> length buf') Out_of_range
           (Inr (take (unat byte_count) (drop (unat delta) buf'), buf')))"

text \<open>\<^verbatim>\<open>dummy_read\<close> reads the blocks and copies 512 bytes into a local array.\<close>

definition block_dummy_read :: "(u64 \<Rightarrow> u32 \<Rightarrow> u8 list \<Rightarrow> u8 list) \<Rightarrow> u64 \<Rightarrow> u32 \<Rightarrow> u8 list \<Rightarrow> (status \<times> u8 list) outcome" where
  "block_dummy_read proxy offset byte_count buf =
     (let block_start_offset = offset AND NOT 0x1ff;
          delta = (ucast (offset - block_start_offset) :: u32);
          modified_byte_count = byte_count + delta;
          buf' = proxy block_start_offset modified_byte_count buf
      in check (unat delta + 512 \<le> length buf') Out_of_range (Inr (S_OK, buf')))"

text \<open>The session's \<^verbatim>\<open>write\<close> starts with an assertion that never holds.\<close>

definition block_write :: "u64 \<Rightarrow> u32 \<Rightarrow> u8 list \<Rightarrow> u8 list \<Rightarrow> (status \<times> u8 list) outcome" where
  "block_write offset byte_count inbuffer buf = Inl Assertion"

section \<open>Allocator of silo memory\<close>

record chunk =
  taken :: u32
  chunk_p :: ptr

text \<open>\<open>alloc_pages i\<close> is what the page allocator returns when chunk \<open>i\<close>, which has no memory yet, asks for it.\<close>

fun alloc_chunk :: "(nat \<Rightarrow> ptr) \<Rightarrow> nat \<Rightarrow> chunk list \<Rightarrow> (ptr \<times> chunk list) outcome" where
  "alloc_chunk alloc_pages i [] = Inl Panic"
| "alloc_chunk alloc_pages i (c # cs) =
     (if taken c = 0 then
        let p = (if chunk_p c = None then alloc_pages i else chunk_p c)
        in Inr (p, c\<lparr>taken := taken c + 1, chunk_p := p\<rparr> # cs)
      else seq (alloc_chunk alloc_pages (Suc i) cs) (\<lambda>(p, cs'). Inr (p, c # cs')))"

fun free_chunk :: "ptr \<Rightarrow> chunk list \<Rightarrow> chunk list outcome" where
  "free_chunk p [] = Inr []"
| "free_chunk p (c # cs) =
     (if chunk_p c = p then check (taken c - 1 = 0) Assertion (Inr (c\<lparr>taken := taken c - 1\<rparr> # cs))
      else seq (free_chunk p cs) (\<lambda>cs'. Inr (c # cs')))"

section \<open>Cache\<close>

definition BLOCKS_PER_SILO :: u32 where "BLOCKS_PER_SILO = 8192"

definition MAX_SILOS :: nat where "MAX_SILOS = 16"

definition SILO_SIZE_BYTES :: u32 where "SILO_SIZE_BYTES = 512 * BLOCKS_PER_SILO"

record silo =
  pages :: nat
  silo_len :: u32
  start_offset :: u64
  end_offset :: u64

record silo_entry =
  silo_of :: "silo option"
  age :: u64

text \<open>\<open>memory\<close> is the content of the pages at an address, \<open>physical\<close> the state of the physical device session.\<close>

record 's block_cache =
  mem_allocator :: "chunk list"
  silo_entries :: "silo_entry list"
  memory :: "nat \<Rightarrow> u8 list"
  physical :: 's

definition Block_cache :: "'s \<Rightarrow> (nat \<Rightarrow> u8 list) \<Rightarrow> 's block_cache" where
  "Block_cache device mem =
     \<lparr>mem_allocator = replicate MAX_SILOS \<lparr>taken = 0, chunk_p = None\<rparr>,
      silo_entries = replicate MAX_SILOS \<lparr>silo_of = None, age = 0\<rparr>, memory = mem, physical = device\<rparr>"

definition Silo :: "'s session \<Rightarrow> (nat \<Rightarrow> ptr) \<Rightarrow> u64 \<Rightarrow> 's block_cache \<Rightarrow> (silo \<times> 's block_cache) outcome" where
  "Silo session alloc_pages offset c =
     (let start = offset AND NOT 0x1ff; len = BLOCKS_PER_SILO * 512 in
      seq (alloc_chunk alloc_pages 0 (mem_allocator c)) (\<lambda>(p, chunks).
        case p of None \<Rightarrow> Inl Assertion
        | Some a \<Rightarrow> seq (session start len (physical c)) (\<lambda>(data, d).
            Inr (\<lparr>pages = a, silo_len = len, start_offset = start, end_offset = start + ucast len\<rparr>,
                 c\<lparr>mem_allocator := chunks, memory := (memory c)(a := data), physical := d\<rparr>))))"

text \<open>\<open>None\<close> is \<^verbatim>\<open>E_FAIL\<close>: the range is not in this silo.\<close>

definition silo_read :: "silo \<Rightarrow> (nat \<Rightarrow> u8 list) \<Rightarrow> u64 \<Rightarrow> u32 \<Rightarrow> u8 list option" where
  "silo_read s mem offset byte_count =
     (if start_offset s \<le> offset \<and> offset + ucast byte_count \<le> end_offset s
      then Some (take (unat byte_count) (drop (unat (offset - start_offset s)) (mem (pages s)))) else None)"

text \<open>The loop of \<^verbatim>\<open>find_best_silo\<close>: the entry it settles on, and whether it left the loop for a free entry.\<close>

fun best_loop :: "silo_entry list \<Rightarrow> silo_entry list \<Rightarrow> nat \<Rightarrow> nat \<Rightarrow> nat \<times> bool" where
  "best_loop all [] i oldest = (oldest, False)"
| "best_loop all (e # es) i oldest =
     (if age e = 0 then (i, True)
      else best_loop all es (Suc i) (if age (all ! oldest) < age e then i else oldest))"

definition find_best_silo :: "'s block_cache \<Rightarrow> (nat \<times> 's block_cache) outcome" where
  "find_best_silo c =
     (case best_loop (silo_entries c) (silo_entries c) 0 0 of
        (i, True) \<Rightarrow> Inr (i, c)
      | (i, False) \<Rightarrow>
          seq (case silo_of (silo_entries c ! i) of None \<Rightarrow> Inr (mem_allocator c)
               | Some s \<Rightarrow> free_chunk (Some (pages s)) (mem_allocator c)) (\<lambda>chunks.
          Inr (i, c\<lparr>mem_allocator := chunks,
                    silo_entries := (silo_entries c)[i := \<lparr>silo_of = None, age = 0\<rparr>]\<rparr>)))"

text \<open>\<open>now\<close> is the cycle counter.\<close>

definition allocate_silo ::
  "'s session \<Rightarrow> (nat \<Rightarrow> ptr) \<Rightarrow> u64 \<Rightarrow> u64 \<Rightarrow> 's block_cache \<Rightarrow> (silo \<times> 's block_cache) outcome" where
  "allocate_silo session alloc_pages now offset c =
     seq (find_best_silo c) (\<lambda>(i, c1). check (age (silo_entries c1 ! i) = 0) Assertion
       (seq (Silo session alloc_pages offset c1) (\<lambda>(s, c2).
         Inr (s, c2\<lparr>silo_entries := (silo_entries c2)[i := \<lparr>silo_of = Some s, age = now\<rparr>]\<rparr>))))"

fun silos_read :: "silo_entry list \<Rightarrow> (nat \<Rightarrow> u8 list) \<Rightarrow> u64 \<Rightarrow> u32 \<Rightarrow> u8 list option" where
  "silos_read [] mem offset byte_count = None"
| "silos_read (e # es) mem offset byte_count =
     (case silo_of e of None \<Rightarrow> silos_read es mem offset byte_count
      | Some s \<Rightarrow> (case silo_read s mem offset byte_count of None \<Rightarrow> silos_read es mem offset byte_count
                  | Some data \<Rightarrow> Some data))"

definition do_silo_read :: "'s session \<Rightarrow> (nat \<Rightarrow> ptr) \<Rightarrow> u64 \<Rightarrow> 's block_cache session" where
  "do_silo_read session alloc_pages now offset byte_count c =
     (case silos_read (silo_entries c) (memory c) offset byte_count of Some data \<Rightarrow> Inr (data, c)
      | None \<Rightarrow> seq (allocate_silo session alloc_pages now offset c) (\<lambda>(s, c').
          case silo_read s (memory c') offset byte_count of None \<Rightarrow> Inl Assertion | Some data \<Rightarrow> Inr (data, c')))"

definition cache_read :: "'s session \<Rightarrow> (nat \<Rightarrow> ptr) \<Rightarrow> u64 \<Rightarrow> 's block_cache session" where
  "cache_read session alloc_pages now offset byte_count c =
     (if SILO_SIZE_BYTES < byte_count then
        seq (session offset byte_count (physical c)) (\<lambda>(data, d). Inr (data, c\<lparr>physical := d\<rparr>))
      else do_silo_read session alloc_pages now offset byte_count c)"

text \<open>A sequence of reads, each with the cycle counter at its time.\<close>

fun cache_reads :: "'s session \<Rightarrow> (nat \<Rightarrow> ptr) \<Rightarrow> (u64 \<times> u64 \<times> u32) list \<Rightarrow> 's block_cache \<Rightarrow>
  (u8 list list \<times> 's block_cache) outcome" where
  "cache_reads session alloc_pages [] c = Inr ([], c)"
| "cache_reads session alloc_pages ((now, offset, byte_count) # rs) c =
     seq (cache_read session alloc_pages now offset byte_count c) (\<lambda>(data, c').
       seq (cache_reads session alloc_pages rs c') (\<lambda>(datas, c''). Inr (data # datas, c'')))"

section \<open>Specification\<close>

text \<open>
  A disk is a function from positions to bytes. A session serves a disk of \<open>n\<close> bytes within a limit when every read
  in range that meets the limit returns the bytes of the disk and keeps the session's invariant.
\<close>

definition bytes_at :: "(nat \<Rightarrow> u8) \<Rightarrow> nat \<Rightarrow> nat \<Rightarrow> u8 list" where
  "bytes_at disk a k = map disk [a..<a + k]"

definition serves :: "'s session \<Rightarrow> ('s \<Rightarrow> bool) \<Rightarrow> (nat \<Rightarrow> u8) \<Rightarrow> (nat \<Rightarrow> nat \<Rightarrow> bool) \<Rightarrow> bool" where
  "serves session ok disk limit \<longleftrightarrow>
     (\<forall>offset count s. ok s \<longrightarrow> limit (unat offset) (unat count) \<longrightarrow>
        (\<exists>s'. session offset count s = Inr (bytes_at disk (unat offset) (unat count), s') \<and> ok s'))"

text \<open>What the session relies on: the driver fills the buffer with the blocks asked for, when they fit.\<close>

definition proxy_serves :: "(u64 \<Rightarrow> u32 \<Rightarrow> u8 list \<Rightarrow> u8 list) \<Rightarrow> nat \<Rightarrow> (nat \<Rightarrow> u8) \<Rightarrow> nat \<Rightarrow> bool" where
  "proxy_serves proxy S disk n \<longleftrightarrow>
     (\<forall>offset count buf. length buf = S \<longrightarrow> unat offset mod 512 = 0 \<longrightarrow> unat count \<le> S \<longrightarrow> unat offset + unat count \<le> n \<longrightarrow>
        length (proxy offset count buf) = S \<and> take (unat count) (proxy offset count buf) = bytes_at disk (unat offset) (unat count))"

text \<open>A read fits the shared buffer; a read fits a silo that starts at its block, and the silo is on the disk.\<close>

definition buffer_limit :: "nat \<Rightarrow> nat \<Rightarrow> nat \<Rightarrow> nat \<Rightarrow> bool" where
  "buffer_limit S n offset count \<longleftrightarrow> offset mod 512 + count \<le> S \<and> offset + count \<le> n"

definition silo_limit :: "nat \<Rightarrow> nat \<Rightarrow> nat \<Rightarrow> bool" where
  "silo_limit n offset count \<longleftrightarrow> offset mod 512 + count \<le> 4194304 \<and> offset - offset mod 512 + 4194304 \<le> n"

definition request_limit :: "nat \<Rightarrow> nat \<Rightarrow> nat \<Rightarrow> nat \<Rightarrow> bool" where
  "request_limit S n offset count \<longleftrightarrow> (if 4194304 < count then buffer_limit S n offset count else silo_limit n offset count)"

section \<open>Device session\<close>

lemma length_bytes_at [simp]: "length (bytes_at disk a k) = k"
  by (simp add: bytes_at_def)

lemma nth_bytes_at [simp]: "i < k \<Longrightarrow> bytes_at disk a k ! i = disk (a + i)"
  by (simp add: bytes_at_def)

lemma bytes_atI: "length xs = k \<Longrightarrow> (\<And>i. i < k \<Longrightarrow> disk (a + i) = xs ! i) \<Longrightarrow> bytes_at disk a k = xs"
  by (rule nth_equalityI) simp_all

lemma take_bytes_at: "i \<le> k \<Longrightarrow> take i (bytes_at disk a k) = bytes_at disk a i"
  by (simp add: bytes_at_def take_map)

lemma drop_bytes_at: "drop i (bytes_at disk a k) = bytes_at disk (a + i) (k - i)"
  by (cases "i \<le> k") (simp_all add: bytes_at_def drop_map)

lemma slice_bytes_at: "i + l \<le> k \<Longrightarrow> take l (drop i (bytes_at disk a k)) = bytes_at disk (a + i) l"
  by (simp add: drop_bytes_at take_bytes_at)

lemma servesD:
  assumes "serves session ok disk limit" "ok s" "unat offset = p" "unat count = k" "limit p k"
  obtains s' where "session offset count s = Inr (bytes_at disk p k, s')" "ok s'"
  using assms unfolding serves_def by blast

lemma block_start:
  fixes x :: u64
  shows "unat (x AND NOT 0x1ff) = unat x - unat x mod 512" "x AND NOT 0x1ff \<le> x"
    "unat (ucast (x - (x AND NOT 0x1ff)) :: u32) = unat x mod 512"
proof -
  have m: "0x1ff = (mask 9 :: u64)"
    by (simp add: mask_eq_exp_minus_1)
  show s: "unat (x AND NOT 0x1ff) = unat x - unat x mod 512"
    unfolding m unat_and_not_mask by simp
  then show le: "x AND NOT 0x1ff \<le> x"
    by (simp add: word_le_nat_alt)
  have "unat (x - (x AND NOT 0x1ff)) = unat x mod 512"
    using unat_sub [OF le] s mod_less_eq_dividend [of "unat x" 512] by linarith
  then show "unat (ucast (x - (x AND NOT 0x1ff)) :: u32) = unat x mod 512"
    by (simp add: unsigned_ucast_eq take_bit_nat_eq_self)
qed

lemma block_read_serves:
  assumes "proxy_serves proxy S disk n" "S < 2 ^ 32"
  shows "serves (block_read proxy) (\<lambda>buf. length buf = S) disk (buffer_limit S n)"
  unfolding serves_def
proof (intro allI impI)
  fix offset :: u64 and count :: u32 and buf :: "u8 list"
  assume buf: "length buf = S" and limit: "buffer_limit S n (unat offset) (unat count)"
  define start where "start = offset AND NOT 0x1ff"
  define delta where "delta = (ucast (offset - start) :: u32)"
  have start: "unat start = unat offset - unat offset mod 512" and delta: "unat delta = unat offset mod 512"
    using block_start [of offset] by (simp_all add: start_def delta_def)
  have le: "unat offset mod 512 + unat count \<le> S" "unat offset + unat count \<le> n"
    using limit by (simp_all add: buffer_limit_def)
  then have sum: "unat (count + delta) = unat count + unat delta"
    using delta assms(2) by (simp add: unat_add_lem [THEN iffD1])
  have pos: "unat start + unat delta = unat offset"
    using start delta mod_less_eq_dividend [of "unat offset" 512] by linarith
  have aligned: "unat start mod 512 = 0"
    using start by (simp add: minus_mod_eq_mult_div)
  have r: "length (proxy start (count + delta) buf) = S"
    "take (unat (count + delta)) (proxy start (count + delta) buf) = bytes_at disk (unat start) (unat (count + delta))"
    using assms(1) [unfolded proxy_serves_def, rule_format, of buf start "count + delta"] buf aligned le sum delta pos
    by simp_all
  have "take (unat count) (drop (unat delta) (proxy start (count + delta) buf)) =
    drop (unat delta) (take (unat count + unat delta) (proxy start (count + delta) buf))"
    by (simp add: drop_take)
  also have "\<dots> = bytes_at disk (unat offset) (unat count)"
    using r(2) sum pos by (simp add: drop_bytes_at)
  finally have "block_read proxy offset count buf =
    Inr (bytes_at disk (unat offset) (unat count), proxy start (count + delta) buf)"
    unfolding block_read_def Let_def start_def [symmetric] delta_def [symmetric] using r(1) le delta by simp
  then show "\<exists>s'. block_read proxy offset count buf = Inr (bytes_at disk (unat offset) (unat count), s') \<and> length s' = S"
    using r(1) by blast
qed

section \<open>Allocator\<close>

text \<open>
  The page allocator gives each chunk memory of its own. A chunk is then free or taken once, and has no memory or
  the memory that was allocated for it.
\<close>

definition pages_ok :: "(nat \<Rightarrow> ptr) \<Rightarrow> nat \<Rightarrow> bool" where
  "pages_ok alloc_pages n \<longleftrightarrow>
     (\<forall>i<n. alloc_pages i \<noteq> None) \<and> (\<forall>i<n. \<forall>j<n. alloc_pages i = alloc_pages j \<longrightarrow> i = j)"

definition chunk_ok :: "ptr \<Rightarrow> chunk \<Rightarrow> bool" where
  "chunk_ok p c \<longleftrightarrow> taken c = 0 \<and> (chunk_p c = None \<or> chunk_p c = p) \<or> taken c = 1 \<and> chunk_p c = p"

definition chunks_ok :: "(nat \<Rightarrow> ptr) \<Rightarrow> chunk list \<Rightarrow> bool" where
  "chunks_ok alloc_pages cs \<longleftrightarrow>
     pages_ok alloc_pages (length cs) \<and> (\<forall>i<length cs. chunk_ok (alloc_pages i) (cs ! i))"

definition chunks_live :: "chunk list \<Rightarrow> nat set" where
  "chunks_live cs = {p. \<exists>i<length cs. taken (cs ! i) = 1 \<and> chunk_p (cs ! i) = Some p}"

definition chunks_pool :: "(nat \<Rightarrow> ptr) \<Rightarrow> chunk list \<Rightarrow> nat set" where
  "chunks_pool alloc_pages cs = {p. \<exists>i<length cs. alloc_pages i = Some p}"

definition chunk_take :: "(nat \<Rightarrow> ptr) \<Rightarrow> chunk list \<Rightarrow> nat option \<times> chunk list" where
  "chunk_take alloc_pages cs =
     (case alloc_chunk alloc_pages 0 cs of Inr (Some p, cs') \<Rightarrow> (Some p, cs') | _ \<Rightarrow> (None, cs))"

definition chunk_give :: "nat \<Rightarrow> chunk list \<Rightarrow> chunk list" where
  "chunk_give p cs = (case free_chunk (Some p) cs of Inr cs' \<Rightarrow> cs' | Inl e \<Rightarrow> cs)"

lemma alloc_chunk_cases:
  "(\<forall>i<length cs. taken (cs ! i) \<noteq> 0) \<and> alloc_chunk ap k cs = Inl Panic \<or>
   (\<exists>i<length cs. \<exists>p. taken (cs ! i) = 0 \<and> p = (if chunk_p (cs ! i) = None then ap (k + i) else chunk_p (cs ! i)) \<and>
      alloc_chunk ap k cs = Inr (p, cs[i := (cs ! i)\<lparr>taken := 1, chunk_p := p\<rparr>]))"
proof (induction cs arbitrary: k)
  case (Cons c cs)
  show ?case
  proof (cases "taken c = 0")
    case True
    then show ?thesis
      by (intro disjI2 exI [of _ 0]) (simp add: Let_def)
  next
    case False
    from Cons [of "Suc k"] show ?thesis
    proof (elim disjE conjE exE)
      assume "\<forall>i<length cs. taken (cs ! i) \<noteq> 0" "alloc_chunk ap (Suc k) cs = Inl Panic"
      then show ?thesis
        using False by (auto simp: less_Suc_eq_0_disj)
    next
      fix i p
      assume "i < length cs" "taken (cs ! i) = 0" "p = (if chunk_p (cs ! i) = None then ap (Suc k + i) else chunk_p (cs ! i))"
        "alloc_chunk ap (Suc k) cs = Inr (p, cs[i := (cs ! i)\<lparr>taken := 1, chunk_p := p\<rparr>])"
      then show ?thesis
        using False by (intro disjI2 exI [of _ "Suc i"] exI [of _ p]) simp
    qed
  qed
qed simp

lemma free_chunk_at:
  "i < length cs \<Longrightarrow> chunk_p (cs ! i) = p \<Longrightarrow> taken (cs ! i) = 1 \<Longrightarrow> (\<And>j. j < i \<Longrightarrow> chunk_p (cs ! j) \<noteq> p) \<Longrightarrow>
     free_chunk p cs = Inr (cs[i := (cs ! i)\<lparr>taken := 0\<rparr>])"
proof (induction cs arbitrary: i)
  case (Cons c cs)
  show ?case
  proof (cases i)
    case 0
    then show ?thesis
      using Cons.prems by simp
  next
    case (Suc l)
    have "\<And>j. j < l \<Longrightarrow> chunk_p (cs ! j) \<noteq> p"
      using Cons.prems(4) [of "Suc _"] Suc by simp
    then have "free_chunk p cs = Inr (cs[l := (cs ! l)\<lparr>taken := 0\<rparr>])"
      using Cons Suc by simp
    then show ?thesis
      using Cons.prems(4) [of 0] Suc by simp
  qed
qed simp

lemma chunks_live_update:
  "i < length cs \<Longrightarrow> chunks_live (cs[i := c]) =
     {p. \<exists>j<length cs. j \<noteq> i \<and> taken (cs ! j) = 1 \<and> chunk_p (cs ! j) = Some p} \<union> {p. taken c = 1 \<and> chunk_p c = Some p}"
  unfolding chunks_live_def by (auto simp: nth_list_update)

lemma chunks_live_add:
  assumes "i < length cs" "taken (cs ! i) = 0" "taken c = 1" "chunk_p c = Some x"
  shows "chunks_live (cs[i := c]) = insert x (chunks_live cs)"
proof -
  have "{p. \<exists>j<length cs. j \<noteq> i \<and> taken (cs ! j) = 1 \<and> chunk_p (cs ! j) = Some p} = chunks_live cs"
    using assms(2) unfolding chunks_live_def by (metis zero_neq_one)
  then show ?thesis
    using assms by (simp add: chunks_live_update)
qed

lemma chunks_ok_update:
  assumes "chunks_ok ap cs" "chunk_ok (ap i) c"
  shows "chunks_ok ap (cs[i := c])"
proof -
  have "chunk_ok (ap j) (cs[i := c] ! j)" if "j < length cs" for j
    using assms that unfolding chunks_ok_def by (cases "j = i") simp_all
  then show ?thesis
    using assms(1) unfolding chunks_ok_def by simp
qed

lemma chunk_take_ok:
  assumes "chunks_ok ap cs"
  shows "chunk_take ap cs = (None, cs) \<and> chunks_live cs = chunks_pool ap cs \<and> alloc_chunk ap 0 cs = Inl Panic \<or>
    (\<exists>p cs'. chunk_take ap cs = (Some p, cs') \<and> alloc_chunk ap 0 cs = Inr (Some p, cs') \<and> p \<in> chunks_pool ap cs \<and>
       p \<notin> chunks_live cs \<and> chunks_live cs' = insert p (chunks_live cs) \<and> chunks_ok ap cs' \<and> length cs' = length cs)"
  using alloc_chunk_cases [of cs ap 0]
proof (elim disjE conjE exE)
  assume t: "\<forall>i<length cs. taken (cs ! i) \<noteq> 0" and a: "alloc_chunk ap 0 cs = Inl Panic"
  have "taken (cs ! i) = 1 \<and> chunk_p (cs ! i) = ap i" if "i < length cs" for i
    using assms t that unfolding chunks_ok_def chunk_ok_def by blast
  then have "chunks_live cs = chunks_pool ap cs"
    unfolding chunks_live_def chunks_pool_def by auto
  then show ?thesis
    using a by (simp add: chunk_take_def)
next
  fix i p
  assume i: "i < length cs" "taken (cs ! i) = 0" "p = (if chunk_p (cs ! i) = None then ap (0 + i) else chunk_p (cs ! i))"
    and a: "alloc_chunk ap 0 cs = Inr (p, cs[i := (cs ! i)\<lparr>taken := 1, chunk_p := p\<rparr>])"
  have p: "p = ap i"
    using assms i unfolding chunks_ok_def chunk_ok_def by auto
  then obtain x where x: "ap i = Some x"
    using assms i unfolding chunks_ok_def pages_ok_def by blast
  have other: "chunk_p (cs ! j) \<noteq> Some x" if "j < length cs" "taken (cs ! j) = 1" for j
    using assms i that x unfolding chunks_ok_def chunk_ok_def pages_ok_def by (metis zero_neq_one)
  have "chunks_live (cs[i := (cs ! i)\<lparr>taken := 1, chunk_p := p\<rparr>]) = insert x (chunks_live cs)"
    using i(1,2) x p by (simp add: chunks_live_add)
  moreover have "chunks_ok ap (cs[i := (cs ! i)\<lparr>taken := 1, chunk_p := p\<rparr>])"
    using assms p by (simp add: chunks_ok_update chunk_ok_def)
  moreover have "x \<notin> chunks_live cs" "x \<in> chunks_pool ap cs"
    using other x i unfolding chunks_live_def chunks_pool_def by auto
  moreover have "chunk_take ap cs = (Some x, cs[i := (cs ! i)\<lparr>taken := 1, chunk_p := p\<rparr>])"
    using a x p by (simp add: chunk_take_def)
  ultimately show ?thesis
    using a x p by (metis length_list_update)
qed

lemma chunk_give_ok:
  assumes ok: "chunks_ok ap cs" and p: "p \<in> chunks_live cs"
  shows "free_chunk (Some p) cs = Inr (chunk_give p cs)" "chunks_live (chunk_give p cs) = chunks_live cs - {p}"
    "chunks_ok ap (chunk_give p cs)" "length (chunk_give p cs) = length cs"
proof -
  obtain i where i: "i < length cs" "taken (cs ! i) = 1" "chunk_p (cs ! i) = Some p"
    using p unfolding chunks_live_def by blast
  have api: "ap i = Some p"
    using ok i unfolding chunks_ok_def chunk_ok_def by fastforce
  have other: "chunk_p (cs ! j) \<noteq> Some p" if "j < length cs" "j \<noteq> i" for j
    using ok that api i(1) unfolding chunks_ok_def chunk_ok_def pages_ok_def by (metis option.distinct(1))
  have f: "free_chunk (Some p) cs = Inr (cs[i := (cs ! i)\<lparr>taken := 0\<rparr>])"
    using free_chunk_at [of i cs "Some p"] i other by simp
  then have g: "chunk_give p cs = cs[i := (cs ! i)\<lparr>taken := 0\<rparr>]"
    by (simp add: chunk_give_def)
  show "free_chunk (Some p) cs = Inr (chunk_give p cs)" "length (chunk_give p cs) = length cs"
    using f g by simp_all
  show "chunks_live (chunk_give p cs) = chunks_live cs - {p}"
    unfolding g using i other by (auto simp: chunks_live_update) (auto simp: chunks_live_def)
  show "chunks_ok ap (chunk_give p cs)"
    unfolding g using ok api i by (simp add: chunks_ok_update chunk_ok_def)
qed

interpretation silo_chunks: slot_allocator "chunk_take ap" chunk_give chunks_live "chunks_pool ap" "chunks_ok ap" for ap
proof unfold_locales
  fix cs cs' p
  assume ok: "chunks_ok ap cs"
  have "chunks_pool ap cs = (\<lambda>i. the (ap i)) ` {i. i < length cs \<and> ap i \<noteq> None}"
    unfolding chunks_pool_def by force
  then show "finite (chunks_pool ap cs)"
    by simp
  show "chunks_live cs \<subseteq> chunks_pool ap cs"
    using ok unfolding chunks_live_def chunks_pool_def chunks_ok_def chunk_ok_def by force
  have len: "length cs' = length cs \<Longrightarrow> chunks_pool ap cs' = chunks_pool ap cs" for cs'
    by (simp add: chunks_pool_def)
  show "chunk_take ap cs = (None, cs') \<Longrightarrow> chunks_live cs = chunks_pool ap cs \<and> chunks_live cs' = chunks_live cs \<and>
    chunks_ok ap cs' \<and> chunks_pool ap cs' = chunks_pool ap cs"
    using chunk_take_ok [OF ok] ok by (metis option.distinct(1) prod.inject)
  show "chunk_take ap cs = (Some p, cs') \<Longrightarrow> p \<in> chunks_pool ap cs \<and> p \<notin> chunks_live cs \<and>
    chunks_live cs' = insert p (chunks_live cs) \<and> chunks_ok ap cs' \<and> chunks_pool ap cs' = chunks_pool ap cs"
    using chunk_take_ok [OF ok]
  proof (elim disjE exE conjE)
    fix p' cs2
    assume "chunk_take ap cs = (Some p, cs')" "chunk_take ap cs = (Some p', cs2)" "length cs2 = length cs"
      "p' \<in> chunks_pool ap cs" "p' \<notin> chunks_live cs" "chunks_live cs2 = insert p' (chunks_live cs)" "chunks_ok ap cs2"
    then show ?thesis
      using len [of cs2] by simp
  qed simp
  show "p \<in> chunks_live cs \<Longrightarrow> chunks_live (chunk_give p cs) = chunks_live cs - {p} \<and> chunks_ok ap (chunk_give p cs) \<and>
    chunks_pool ap (chunk_give p cs) = chunks_pool ap cs"
    using chunk_give_ok [OF ok, of p] len [of "chunk_give p cs"] by blast
qed

section \<open>Cache\<close>

text \<open>
  Every silo holds 4 MB of the disk in the memory of a chunk of its own; an entry has age 0 if and only if it has
  no silo; and exactly the chunks of the silos are taken.
\<close>

definition silo_ok :: "(nat \<Rightarrow> u8) \<Rightarrow> nat \<Rightarrow> (nat \<Rightarrow> u8 list) \<Rightarrow> silo \<Rightarrow> bool" where
  "silo_ok disk n mem s \<longleftrightarrow>
     unat (start_offset s) mod 512 = 0 \<and> unat (end_offset s) = unat (start_offset s) + 4194304 \<and> unat (end_offset s) \<le> n \<and>
     mem (pages s) = bytes_at disk (unat (start_offset s)) 4194304"

definition held_pages :: "silo_entry list \<Rightarrow> nat set" where
  "held_pages es = {p. \<exists>i<length es. \<exists>s. silo_of (es ! i) = Some s \<and> pages s = p}"

definition entry_ok :: "(nat \<Rightarrow> u8) \<Rightarrow> nat \<Rightarrow> (nat \<Rightarrow> u8 list) \<Rightarrow> silo_entry \<Rightarrow> bool" where
  "entry_ok disk n mem e \<longleftrightarrow>
     (age e = 0) = (silo_of e = None) \<and> (\<forall>s. silo_of e = Some s \<longrightarrow> silo_ok disk n mem s)"

definition own_pages :: "silo_entry list \<Rightarrow> bool" where
  "own_pages es \<longleftrightarrow>
     (\<forall>i<length es. \<forall>j<length es. \<forall>s t. silo_of (es ! i) = Some s \<longrightarrow> silo_of (es ! j) = Some t \<longrightarrow> pages s = pages t \<longrightarrow> i = j)"

definition entries_ok :: "(nat \<Rightarrow> u8) \<Rightarrow> nat \<Rightarrow> (nat \<Rightarrow> u8 list) \<Rightarrow> silo_entry list \<Rightarrow> bool" where
  "entries_ok disk n mem es \<longleftrightarrow> length es = MAX_SILOS \<and> (\<forall>e\<in>set es. entry_ok disk n mem e) \<and> own_pages es"

definition cache_ok :: "(nat \<Rightarrow> ptr) \<Rightarrow> (nat \<Rightarrow> u8) \<Rightarrow> nat \<Rightarrow> ('s \<Rightarrow> bool) \<Rightarrow> 's block_cache \<Rightarrow> bool" where
  "cache_ok alloc_pages disk n ok c \<longleftrightarrow>
     chunks_ok alloc_pages (mem_allocator c) \<and> length (mem_allocator c) = MAX_SILOS \<and>
     entries_ok disk n (memory c) (silo_entries c) \<and> held_pages (silo_entries c) = chunks_live (mem_allocator c) \<and>
     ok (physical c)"

lemma silo_read_ok:
  assumes "silo_ok disk n mem s" "n < 2 ^ 64" "unat offset + unat count < 2 ^ 64"
  shows "silo_read s mem offset count =
    (if unat (start_offset s) \<le> unat offset \<and> unat offset + unat count \<le> unat (end_offset s)
     then Some (bytes_at disk (unat offset) (unat count)) else None)"
proof -
  have count: "unat (ucast count :: u64) = unat count"
    by (rule unat_ucast_u64)
  then have sum: "unat (offset + ucast count) = unat offset + unat count"
    using assms(3) by (simp add: unat_add_lem [THEN iffD1])
  show ?thesis
  proof (cases "unat (start_offset s) \<le> unat offset \<and> unat offset + unat count \<le> unat (end_offset s)")
    case True
    then have "unat (offset - start_offset s) = unat offset - unat (start_offset s)"
      by (simp add: unat_sub word_le_nat_alt)
    then show ?thesis
      using True assms(1) sum by (simp add: silo_read_def silo_ok_def word_le_nat_alt slice_bytes_at le_diff_conv)
  next
    case False
    then show ?thesis
      using sum by (auto simp: silo_read_def word_le_nat_alt)
  qed
qed

text \<open>A silo covers a read only if a silo that starts at the block of the read would.\<close>

lemma silo_covers:
  assumes "silo_ok disk n mem s" "unat (start_offset s) \<le> m" "m + k \<le> unat (end_offset s)"
  shows "m mod 512 + k \<le> 4194304"
proof -
  obtain q where q: "unat (start_offset s) = 512 * q"
    using assms(1) unfolding silo_ok_def by (auto simp: mod_eq_0_iff_dvd elim: dvdE)
  have "512 * q \<le> 512 * (m div 512) + m mod 512"
    using assms(2) q by simp
  then have "q \<le> m div 512"
    using assms(2) q by (metis div_le_mono nonzero_mult_div_cancel_left zero_neq_numeral)
  then have "512 * q \<le> m - m mod 512"
    by (simp add: minus_mod_eq_mult_div)
  then show ?thesis
    using assms q unfolding silo_ok_def by linarith
qed

lemma silos_read_ok:
  assumes "\<forall>e\<in>set es. \<forall>s. silo_of e = Some s \<longrightarrow> silo_ok disk n mem s" "n < 2 ^ 64" "unat offset + unat count < 2 ^ 64"
    "silos_read es mem offset count = Some data"
  shows "data = bytes_at disk (unat offset) (unat count) \<and> unat offset mod 512 + unat count \<le> 4194304"
  using assms(1,4)
proof (induction es)
  case (Cons e es)
  show ?case
  proof (cases "silo_of e")
    case None
    then show ?thesis
      using Cons by simp
  next
    case (Some s)
    then have s: "silo_ok disk n mem s"
      using Cons.prems(1) by simp
    show ?thesis
    proof (cases "silo_read s mem offset count")
      case None
      then show ?thesis
        using Cons Some by simp
    next
      case read: (Some d)
      then show ?thesis
        using silo_read_ok [OF s assms(2,3)] silo_covers [OF s] Cons.prems(2) Some by (simp split: if_splits)
    qed
  qed
qed simp

lemma best_loop_cases:
  "es = drop i all \<Longrightarrow> oldest < length all \<Longrightarrow> best_loop all es i oldest = (k, b) \<Longrightarrow>
     k < length all \<and> (if b then age (all ! k) = 0 else \<forall>e\<in>set es. age e \<noteq> 0)"
proof (induction all es i oldest rule: best_loop.induct)
  case (2 all e es i oldest)
  have i: "i < length all"
    using 2(2) by (metis drop_all list.distinct(1) not_le_imp_less)
  then have e: "e = all ! i" and es: "es = drop (Suc i) all"
    using 2(2) by (simp_all add: Cons_nth_drop_Suc [symmetric])
  show ?case
  proof (cases "age e = 0")
    case True
    then show ?thesis
      using 2(4) i e by auto
  next
    case False
    then have "best_loop all es (Suc i) (if age (all ! oldest) < age e then i else oldest) = (k, b)"
      using 2(4) by simp
    then have "k < length all \<and> (if b then age (all ! k) = 0 else \<forall>e\<in>set es. age e \<noteq> 0)"
      using 2(1) [OF False es] 2(3) i by auto
    then show ?thesis
      using False by simp
  qed
qed auto

lemma held_update:
  "i < length es \<Longrightarrow> held_pages (es[i := e]) =
     {p. \<exists>j<length es. j \<noteq> i \<and> (\<exists>s. silo_of (es ! j) = Some s \<and> pages s = p)} \<union> {p. \<exists>s. silo_of e = Some s \<and> pages s = p}"
  unfolding held_pages_def by (auto simp: nth_list_update)

lemma held_remove:
  assumes "own_pages es" "i < length es" "silo_of (es ! i) = Some s"
  shows "held_pages (es[i := \<lparr>silo_of = None, age = 0\<rparr>]) = held_pages es - {pages s}"
proof -
  have "{p. \<exists>j<length es. j \<noteq> i \<and> (\<exists>s. silo_of (es ! j) = Some s \<and> pages s = p)} = held_pages es - {pages s}"
  proof (rule set_eqI)
    fix p
    show "p \<in> {p. \<exists>j<length es. j \<noteq> i \<and> (\<exists>s. silo_of (es ! j) = Some s \<and> pages s = p)} \<longleftrightarrow> p \<in> held_pages es - {pages s}"
      using assms unfolding held_pages_def own_pages_def mem_Collect_eq Diff_iff singleton_iff by (metis option.inject)
  qed
  then show ?thesis
    using assms(2) by (simp add: held_update)
qed

lemma held_add:
  assumes "i < length es" "silo_of (es ! i) = None"
  shows "held_pages (es[i := \<lparr>silo_of = Some s, age = a\<rparr>]) = insert (pages s) (held_pages es)"
proof -
  have "{p. \<exists>j<length es. j \<noteq> i \<and> (\<exists>s. silo_of (es ! j) = Some s \<and> pages s = p)} = held_pages es"
    using assms(2) unfolding held_pages_def by (metis option.distinct(1))
  then show ?thesis
    using assms(1) by (simp add: held_update)
qed

lemma own_remove:
  assumes "own_pages es"
  shows "own_pages (es[i := \<lparr>silo_of = None, age = 0\<rparr>])"
proof -
  have "silo_of (es ! j) = Some s" if "j < length es" "silo_of (es[i := \<lparr>silo_of = None, age = 0\<rparr>] ! j) = Some s" for j s
    using that by (cases "j = i") simp_all
  then show ?thesis
    using assms unfolding own_pages_def length_list_update by blast
qed

lemma own_add:
  assumes own: "own_pages es" and new: "pages s \<notin> held_pages es"
  shows "own_pages (es[i := \<lparr>silo_of = Some s, age = a\<rparr>])"
  unfolding own_pages_def length_list_update
proof (intro allI impI)
  let ?es = "es[i := \<lparr>silo_of = Some s, age = a\<rparr>]"
  fix j k t u
  assume a: "j < length es" "k < length es" "silo_of (?es ! j) = Some t" "silo_of (?es ! k) = Some u" "pages t = pages u"
  have old: "pages t \<noteq> pages s" if "j < length es" "silo_of (es ! j) = Some t" for j t
    using new that unfolding held_pages_def by blast
  show "j = k"
  proof (cases "j = i"; cases "k = i")
    assume "j \<noteq> i" "k \<noteq> i"
    then show ?thesis
      using own a unfolding own_pages_def by auto
  qed (use a old in force)+
qed

lemma entries_remove:
  assumes "entries_ok disk n mem es"
  shows "entries_ok disk n mem (es[i := \<lparr>silo_of = None, age = 0\<rparr>])"
proof -
  have "entry_ok disk n mem \<lparr>silo_of = None, age = 0\<rparr>"
    by (simp add: entry_ok_def)
  then show ?thesis
    using assms set_update_subset_insert [of es i "\<lparr>silo_of = None, age = 0\<rparr>"]
    unfolding entries_ok_def by (auto simp: own_remove)
qed

lemma entries_add:
  assumes "entries_ok disk n mem es" "a \<noteq> 0" "pages s \<notin> held_pages es" "silo_ok disk n mem s"
  shows "entries_ok disk n mem (es[i := \<lparr>silo_of = Some s, age = a\<rparr>])"
proof -
  have "entry_ok disk n mem \<lparr>silo_of = Some s, age = a\<rparr>"
    using assms(2,4) by (simp add: entry_ok_def)
  then show ?thesis
    using assms(1,3) set_update_subset_insert [of es i "\<lparr>silo_of = Some s, age = a\<rparr>"]
    unfolding entries_ok_def by (auto simp: own_add)
qed

lemma entries_memory:
  assumes "entries_ok disk n mem es" "a \<notin> held_pages es"
  shows "entries_ok disk n (mem(a := data)) es"
proof -
  have "entry_ok disk n (mem(a := data)) e" if "e \<in> set es" for e
  proof -
    have "pages s \<noteq> a" if "silo_of e = Some s" for s
      using assms(2) that \<open>e \<in> set es\<close> unfolding held_pages_def by (auto simp: in_set_conv_nth)
    then show ?thesis
      using assms(1) that unfolding entries_ok_def entry_ok_def silo_ok_def by auto
  qed
  then show ?thesis
    using assms(1) unfolding entries_ok_def by blast
qed

lemma find_best_silo_ok:
  assumes ok: "cache_ok ap disk n k c"
  obtains i c' where "find_best_silo c = Inr (i, c')" "cache_ok ap disk n k c'" "i < MAX_SILOS"
    "silo_of (silo_entries c' ! i) = None" "age (silo_entries c' ! i) = 0"
proof -
  let ?es = "silo_entries c"
  have ent: "entries_ok disk n (memory c) ?es" and len: "length ?es = MAX_SILOS"
    using ok unfolding cache_ok_def entries_ok_def by auto
  obtain i b where b: "best_loop ?es ?es 0 0 = (i, b)"
    by fastforce
  then have i: "i < MAX_SILOS" "if b then age (?es ! i) = 0 else \<forall>e\<in>set ?es. age e \<noteq> 0"
    using best_loop_cases [of ?es 0 ?es 0 i b] len by (simp_all add: MAX_SILOS_def)
  have at: "entry_ok disk n (memory c) (?es ! i)"
    using ent i(1) len unfolding entries_ok_def by simp
  show thesis
  proof (cases b)
    case True
    then show thesis
      using that [of i c] b i ok at by (auto simp: find_best_silo_def entry_ok_def)
  next
    case False
    then obtain s where s: "silo_of (?es ! i) = Some s"
      using at i len unfolding entry_ok_def by (metis nth_mem option.exhaust)
    then have live: "pages s \<in> chunks_live (mem_allocator c)"
      using ok i len unfolding cache_ok_def held_pages_def by auto
    let ?c = "c\<lparr>mem_allocator := chunk_give (pages s) (mem_allocator c), silo_entries := ?es[i := \<lparr>silo_of = None, age = 0\<rparr>]\<rparr>"
    have chunks: "chunks_ok ap (mem_allocator c)"
      using ok unfolding cache_ok_def by simp
    note give = chunk_give_ok [OF chunks live]
    have "held_pages (?es[i := \<lparr>silo_of = None, age = 0\<rparr>]) = held_pages ?es - {pages s}"
      using held_remove [of ?es i s] ent s i(1) len unfolding entries_ok_def by simp
    then have "cache_ok ap disk n k ?c"
      using ok give entries_remove [OF ent] unfolding cache_ok_def by simp
    moreover have "find_best_silo c = Inr (i, ?c)"
      using b False s give(1) by (simp add: find_best_silo_def)
    ultimately show thesis
      using that [of i ?c] i(1) len by simp
  qed
qed

text \<open>With a free entry there is a free chunk.\<close>

lemma card_pool: "pages_ok ap (length cs) \<Longrightarrow> card (chunks_pool ap cs) = length cs"
proof -
  assume ok: "pages_ok ap (length cs)"
  have "chunks_pool ap cs = (\<lambda>i. the (ap i)) ` {..<length cs}"
  proof (rule set_eqI)
    fix p
    show "p \<in> chunks_pool ap cs \<longleftrightarrow> p \<in> (\<lambda>i. the (ap i)) ` {..<length cs}"
      using ok unfolding chunks_pool_def pages_ok_def image_iff mem_Collect_eq Bex_def lessThan_iff
      by (metis option.sel option.collapse)
  qed
  moreover have "inj_on (\<lambda>i. the (ap i)) {..<length cs}"
    using ok unfolding pages_ok_def inj_on_def by (metis lessThan_iff option.expand)
  ultimately show ?thesis
    by (simp add: card_image)
qed

lemma card_held:
  assumes "i < length es" "silo_of (es ! i) = None"
  shows "card (held_pages es) < length es"
proof -
  have "held_pages es \<subseteq> (\<lambda>j. pages (the (silo_of (es ! j)))) ` ({..<length es} - {i})"
  proof
    fix p assume "p \<in> held_pages es"
    then obtain j s where "j < length es" "silo_of (es ! j) = Some s" "pages s = p"
      unfolding held_pages_def by blast
    then show "p \<in> (\<lambda>j. pages (the (silo_of (es ! j)))) ` ({..<length es} - {i})"
      using assms(2) by (intro image_eqI [of _ _ j]) auto
  qed
  then have "card (held_pages es) \<le> card ({..<length es} - {i})"
    by (meson card_image_le card_mono finite_Diff finite_imageI finite_lessThan le_trans)
  then show ?thesis
    using assms(1) by simp
qed

lemma chunk_available:
  assumes ok: "cache_ok ap disk n k c" and i: "i < MAX_SILOS" "silo_of (silo_entries c ! i) = None"
  obtains p chunks where "alloc_chunk ap 0 (mem_allocator c) = Inr (Some p, chunks)" "p \<notin> held_pages (silo_entries c)"
    "chunks_live chunks = insert p (held_pages (silo_entries c))" "chunks_ok ap chunks" "length chunks = MAX_SILOS"
proof -
  have c: "chunks_ok ap (mem_allocator c)" "length (mem_allocator c) = MAX_SILOS" "length (silo_entries c) = MAX_SILOS"
    "held_pages (silo_entries c) = chunks_live (mem_allocator c)"
    using ok unfolding cache_ok_def entries_ok_def by auto
  have "card (chunks_live (mem_allocator c)) < card (chunks_pool ap (mem_allocator c))"
    using card_held [of i "silo_entries c"] card_pool [of ap "mem_allocator c"] i c unfolding chunks_ok_def by simp
  then have "fst (chunk_take ap (mem_allocator c)) \<noteq> None"
    using silo_chunks.alloc_exhausted [OF c(1)] by simp
  then show thesis
    using chunk_take_ok [OF c(1)] that c by (metis fst_conv)
qed

lemma silo_start:
  fixes offset :: u64
  assumes "silo_limit n (unat offset) k" "n < 2 ^ 64"
  defines "start \<equiv> offset AND NOT 0x1ff"
  shows "unat start = unat offset - unat offset mod 512" "unat start mod 512 = 0"
    "unat (start + ucast (BLOCKS_PER_SILO * 512)) = unat start + 4194304" "unat start + 4194304 \<le> n"
proof -
  show start: "unat start = unat offset - unat offset mod 512"
    using block_start [of offset] by (simp add: start_def)
  then show "unat start mod 512 = 0" "unat start + 4194304 \<le> n"
    using assms(1) by (simp_all add: minus_mod_eq_mult_div silo_limit_def)
  then show "unat (start + ucast (BLOCKS_PER_SILO * 512)) = unat start + 4194304"
    using assms(2) by (simp add: BLOCKS_PER_SILO_def unat_add_lem [THEN iffD1])
qed

text \<open>Whatever read causes it, a new silo is filled from the disk and the invariant is kept.\<close>

lemma allocate_silo_ok:
  assumes ok: "cache_ok ap disk n k c" and dev: "serves session k disk (buffer_limit S n)" "4194304 \<le> S"
    and n: "n < 2 ^ 64" and now: "now \<noteq> 0"
    and fits: "unat offset - unat offset mod 512 + 4194304 \<le> n"
  obtains s c' where "allocate_silo session ap now offset c = Inr (s, c')" "cache_ok ap disk n k c'"
    "silo_ok disk n (memory c') s" "unat (start_offset s) = unat offset - unat offset mod 512"
proof -
  obtain i c1 where f: "find_best_silo c = Inr (i, c1)" "cache_ok ap disk n k c1" "i < MAX_SILOS"
    "silo_of (silo_entries c1 ! i) = None" "age (silo_entries c1 ! i) = 0"
    using find_best_silo_ok [OF ok] .
  obtain p chunks where a: "alloc_chunk ap 0 (mem_allocator c1) = Inr (Some p, chunks)" "p \<notin> held_pages (silo_entries c1)"
    "chunks_live chunks = insert p (held_pages (silo_entries c1))" "chunks_ok ap chunks" "length chunks = MAX_SILOS"
    using chunk_available [OF f(2,3,4)] .
  define start where "start = offset AND NOT 0x1ff"
  have start: "unat start = unat offset - unat offset mod 512" "unat start mod 512 = 0"
    "unat (start + ucast (BLOCKS_PER_SILO * 512)) = unat start + 4194304" "unat start + 4194304 \<le> n"
    using silo_start [of n offset 0] fits n by (simp_all only: start_def silo_limit_def) simp_all
  have len: "unat (BLOCKS_PER_SILO * 512) = 4194304"
    by (simp add: BLOCKS_PER_SILO_def)
  have "buffer_limit S n (unat start) (unat (BLOCKS_PER_SILO * 512))" "k (physical c1)"
    using start dev(2) f(2) by (simp_all add: buffer_limit_def len cache_ok_def)
  then obtain d where d: "session start (BLOCKS_PER_SILO * 512) (physical c1) = Inr (bytes_at disk (unat start) 4194304, d)" "k d"
    using dev(1) unfolding serves_def by (metis len)
  define s where "s = \<lparr>pages = p, silo_len = BLOCKS_PER_SILO * 512, start_offset = start,
    end_offset = start + ucast (BLOCKS_PER_SILO * 512)\<rparr>"
  define mem where "mem = (memory c1)(p := bytes_at disk (unat start) 4194304)"
  define es where "es = (silo_entries c1)[i := \<lparr>silo_of = Some s, age = now\<rparr>]"
  have s: "silo_ok disk n mem s"
    using start by (simp add: silo_ok_def s_def mem_def)
  have e1: "entries_ok disk n (memory c1) (silo_entries c1)" "length (silo_entries c1) = MAX_SILOS"
    using f(2) unfolding cache_ok_def entries_ok_def by auto
  have "entries_ok disk n mem es"
    unfolding es_def using entries_add [OF entries_memory [OF e1(1) a(2)] now] a(2) s by (simp add: mem_def s_def)
  moreover have "held_pages es = chunks_live chunks"
    unfolding es_def using held_add [of i "silo_entries c1" s now] f(3,4) e1(2) a(3) by (simp add: s_def)
  ultimately have "cache_ok ap disk n k (c1\<lparr>mem_allocator := chunks, silo_entries := es, memory := mem, physical := d\<rparr>)"
    using a(4,5) d(2) by (simp add: cache_ok_def)
  moreover have "allocate_silo session ap now offset c =
    Inr (s, c1\<lparr>mem_allocator := chunks, silo_entries := es, memory := mem, physical := d\<rparr>)"
    unfolding allocate_silo_def Silo_def Let_def start_def [symmetric]
    using f(1,5) a(1) d(1) by (simp add: s_def mem_def es_def)
  ultimately show thesis
    using that s start(1) by (simp add: s_def)
qed

lemma do_silo_read_ok:
  assumes ok: "cache_ok ap disk n k c" and dev: "serves session k disk (buffer_limit S n)" "4194304 \<le> S"
    and n: "n < 2 ^ 64" and now: "now \<noteq> 0"
    and fits: "unat offset - unat offset mod 512 + 4194304 \<le> n" and range: "unat offset + unat count < 2 ^ 64"
  shows "if unat offset mod 512 + unat count \<le> 4194304
    then \<exists>c'. do_silo_read session ap now offset count c = Inr (bytes_at disk (unat offset) (unat count), c') \<and> cache_ok ap disk n k c'
    else do_silo_read session ap now offset count c = Inl Assertion"
proof (cases "silos_read (silo_entries c) (memory c) offset count")
  case (Some data)
  have "\<forall>e\<in>set (silo_entries c). \<forall>s. silo_of e = Some s \<longrightarrow> silo_ok disk n (memory c) s"
    using ok unfolding cache_ok_def entries_ok_def entry_ok_def by blast
  from silos_read_ok [OF this n range Some] show ?thesis
    using Some ok by (simp add: do_silo_read_def)
next
  case None
  obtain s c' where a: "allocate_silo session ap now offset c = Inr (s, c')" "cache_ok ap disk n k c'"
    "silo_ok disk n (memory c') s" "unat (start_offset s) = unat offset - unat offset mod 512"
    using allocate_silo_ok [OF ok dev n now fits] .
  have le: "unat offset mod 512 \<le> unat offset"
    by simp
  have e: "unat (end_offset s) = unat offset - unat offset mod 512 + 4194304"
    using a(3,4) unfolding silo_ok_def by simp
  have "unat offset + unat count \<le> unat (end_offset s) \<longleftrightarrow> unat offset mod 512 + unat count \<le> 4194304"
    unfolding e using le by linarith
  then have "silo_read s (memory c') offset count =
    (if unat offset mod 512 + unat count \<le> 4194304 then Some (bytes_at disk (unat offset) (unat count)) else None)"
    using silo_read_ok [OF a(3) n range] a(4) by simp
  then show ?thesis
    using None a(1,2) by (simp add: do_silo_read_def)
qed

lemma silo_limit_range: "silo_limit n (unat offset) (unat count) \<Longrightarrow> n < 2 ^ 64 \<Longrightarrow> unat offset + unat count < 2 ^ 64"
proof -
  assume "silo_limit n (unat offset) (unat count)" "n < 2 ^ 64"
  then have "unat offset mod 512 + unat count \<le> 4194304" "unat offset - unat offset mod 512 + 4194304 < 2 ^ 64"
    unfolding silo_limit_def by auto
  moreover have "unat offset mod 512 \<le> unat offset"
    by simp
  ultimately show ?thesis
    by linarith
qed

lemma cache_read_serves:
  assumes dev: "serves session k disk (buffer_limit S n)" "4194304 \<le> S" and n: "n < 2 ^ 64" and now: "now \<noteq> 0"
  shows "serves (cache_read session ap now) (cache_ok ap disk n k) disk (request_limit S n)"
  unfolding serves_def
proof (intro allI impI)
  fix offset :: u64 and count :: u32 and c
  assume ok: "cache_ok ap disk n k c" and limit: "request_limit S n (unat offset) (unat count)"
  have big: "SILO_SIZE_BYTES < count \<longleftrightarrow> 4194304 < unat count"
    by (simp add: SILO_SIZE_BYTES_def BLOCKS_PER_SILO_def word_less_nat_alt)
  show "\<exists>c'. cache_read session ap now offset count c = Inr (bytes_at disk (unat offset) (unat count), c') \<and> cache_ok ap disk n k c'"
  proof (cases "4194304 < unat count")
    case True
    then have "buffer_limit S n (unat offset) (unat count)" "k (physical c)"
      using limit ok by (simp_all add: request_limit_def cache_ok_def)
    then obtain d where "session offset count (physical c) = Inr (bytes_at disk (unat offset) (unat count), d)" "k d"
      using dev(1) unfolding serves_def by blast
    then show ?thesis
      using True big ok by (simp add: cache_read_def cache_ok_def)
  next
    case False
    then have "silo_limit n (unat offset) (unat count)"
      using limit by (simp add: request_limit_def)
    then show ?thesis
      using do_silo_read_ok [OF ok dev n now _ silo_limit_range [OF _ n], of offset count] False big
      by (simp add: silo_limit_def cache_read_def)
  qed
qed

lemma Block_cache_ok:
  assumes "pages_ok ap MAX_SILOS" "k device"
  shows "cache_ok ap disk n k (Block_cache device mem)"
  using assms unfolding cache_ok_def Block_cache_def
  by (auto simp: chunks_ok_def chunk_ok_def entries_ok_def entry_ok_def own_pages_def held_pages_def chunks_live_def)

lemma cache_reads_ok:
  assumes dev: "serves session k disk (buffer_limit S n)" "4194304 \<le> S" and n: "n < 2 ^ 64"
  shows "\<forall>(now, offset, count) \<in> set rs. now \<noteq> 0 \<and> request_limit S n (unat offset) (unat count) \<Longrightarrow> cache_ok ap disk n k c \<Longrightarrow>
    \<exists>c'. cache_reads session ap rs c = Inr (map (\<lambda>(now, offset, count). bytes_at disk (unat offset) (unat count)) rs, c') \<and>
      cache_ok ap disk n k c'"
proof (induction rs arbitrary: c)
  case (Cons r rs)
  obtain now offset count where r [simp]: "r = (now, offset, count)"
    by (cases r)
  have "now \<noteq> 0" "request_limit S n (unat offset) (unat count)"
    using Cons.prems(1) by simp_all
  then obtain c1 where c1: "cache_read session ap now offset count c = Inr (bytes_at disk (unat offset) (unat count), c1)"
    "cache_ok ap disk n k c1"
    using cache_read_serves [OF dev n] Cons.prems(2) unfolding serves_def by blast
  then show ?case
    using Cons.IH [OF _ c1(2)] Cons.prems(1) by auto
qed simp

lemma best_loop_newest:
  "es = drop i all \<Longrightarrow> oldest < length all \<Longrightarrow> \<forall>j<i. age (all ! j) \<le> age (all ! oldest) \<Longrightarrow>
     best_loop all es i oldest = (k, False) \<Longrightarrow> \<forall>j<length all. age (all ! j) \<le> age (all ! k)"
proof (induction all es i oldest rule: best_loop.induct)
  case (1 all i oldest)
  then show ?case
    by (metis Pair_inject best_loop.simps(1) drop_eq_Nil2 less_le_trans)
next
  case (2 all e es i oldest)
  have i: "i < length all"
    using 2(2) by (metis drop_all list.distinct(1) not_le_imp_less)
  then have e: "e = all ! i" and es: "es = drop (Suc i) all"
    using 2(2) by (simp_all add: Cons_nth_drop_Suc [symmetric])
  have "age e \<noteq> 0"
    using 2(5) by (auto split: if_splits)
  moreover have "\<forall>j<Suc i. age (all ! j) \<le> age (all ! (if age (all ! oldest) < age e then i else oldest))"
    using 2(4) e by (auto simp: less_Suc_eq)
  ultimately show ?case
    using 2(1) [OF _ es] 2(3,5) i by auto
qed

section \<open>Properties\<close>

text \<open>
  C5. The cache is transparent. From the new cache over the device session, every sequence of reads returns the
  bytes of the disk, whichever silos are filled and evicted on the way. A read of at most 4 MB must fit 4 MB
  counted from the start of its block, with 4 MB of the disk behind that start; a larger read must fit the shared
  buffer. The driver fills the buffer, the page allocator returns distinct pages, the cycle counter is not 0.
\<close>

theorem cache_transparent:
  assumes "proxy_serves proxy S disk n" "4194304 \<le> S" "S < 2 ^ 32" "n < 2 ^ 64" "length buf = S" "pages_ok alloc_pages MAX_SILOS"
    "\<forall>(now, offset, count) \<in> set rs. now \<noteq> 0 \<and> request_limit S n (unat offset) (unat count)"
  shows "\<exists>c. cache_reads (block_read proxy) alloc_pages rs (Block_cache buf mem) =
    Inr (map (\<lambda>(now, offset, count). bytes_at disk (unat offset) (unat count)) rs, c)"
  using cache_reads_ok [OF block_read_serves [OF assms(1,3)] assms(2,4,7) Block_cache_ok [OF assms(6)]] assms(5) by blast

text \<open>A driver and a page allocator that meet the assumptions.\<close>

definition ideal_proxy :: "(nat \<Rightarrow> u8) \<Rightarrow> u64 \<Rightarrow> u32 \<Rightarrow> u8 list \<Rightarrow> u8 list" where
  "ideal_proxy disk offset count buf = bytes_at disk (unat offset) (unat count) @ drop (unat count) buf"

lemma ideal_proxy_serves: "proxy_serves (ideal_proxy disk) S disk n"
  by (simp add: proxy_serves_def ideal_proxy_def)

lemma ideal_pages: "pages_ok Some n"
  by (simp add: pages_ok_def)

theorem cache_transparent_witness:
  "\<exists>c. cache_reads (block_read (ideal_proxy of_nat)) Some [(1, 5, 3), (2, 6, 2)] (Block_cache (replicate 8388608 0) (\<lambda>_. [])) =
    Inr ([[5, 6, 7], [6, 7]], c)"
  using cache_transparent [OF ideal_proxy_serves [of of_nat 8388608 8388608] _ _ _ _ ideal_pages,
      of "replicate 8388608 0" "[(1, 5, 3), (2, 6, 2)]"]
  by (simp add: request_limit_def silo_limit_def bytes_at_def upt_rec)

text \<open>
  A read of at most 4 MB that does not fit 4 MB counted from the start of its block always fails the assertion
  of \<^verbatim>\<open>do_silo_read\<close>, although the device could serve it.
\<close>

theorem cache_unaligned_assertion:
  assumes "cache_ok alloc_pages disk n ok c" "serves session ok disk (buffer_limit S n)" "4194304 \<le> S" "n < 2 ^ 64" "now \<noteq> 0"
    "unat offset - unat offset mod 512 + 4194304 \<le> n" "unat offset + unat count < 2 ^ 64"
    "unat count \<le> 4194304" "4194304 < unat offset mod 512 + unat count"
  shows "cache_read session alloc_pages now offset count c = Inl Assertion"
proof -
  have "\<not> SILO_SIZE_BYTES < count"
    using assms(8) by (simp add: SILO_SIZE_BYTES_def BLOCKS_PER_SILO_def word_less_nat_alt)
  then show ?thesis
    using do_silo_read_ok [OF assms(1-7)] assms(9) by (simp add: cache_read_def)
qed

text \<open>
  The age of a silo is the cycle counter at its allocation, and a full cache is documented to evict the oldest
  silo; \<^verbatim>\<open>find_best_silo\<close> evicts one whose age is the largest, which is the newest.
\<close>

theorem find_best_silo_newest:
  assumes "silo_entries c \<noteq> []" "\<forall>e\<in>set (silo_entries c). age e \<noteq> 0" "find_best_silo c = Inr (i, c')"
  shows "i < length (silo_entries c) \<and> (\<forall>j<length (silo_entries c). age (silo_entries c ! j) \<le> age (silo_entries c ! i)) \<and>
    silo_of (silo_entries c' ! i) = None"
proof -
  obtain k b where b: "best_loop (silo_entries c) (silo_entries c) 0 0 = (k, b)"
    by fastforce
  then have k: "k < length (silo_entries c)" "if b then age (silo_entries c ! k) = 0 else \<forall>e\<in>set (silo_entries c). age e \<noteq> 0"
    using best_loop_cases [of "silo_entries c" 0 "silo_entries c" 0 k b] assms(1) by simp_all
  then have "\<not> b"
    using assms(2) by (metis nth_mem)
  then show ?thesis
    using best_loop_newest [of "silo_entries c" 0 "silo_entries c" 0 k] assms(1,3) b k(1)
    by (auto simp: find_best_silo_def outcome_iffs split: option.splits)
qed

end
