(* ===== verification/XDK_Ext2.thy ===== *)
theory XDK_Ext2
  imports XDK_Ext2_Cache XDK_Bytes
begin

text \<open>
  The ext2 file system (\<^verbatim>\<open>fs/ext2fs\<close>): partition table, superblock, block groups, inodes, lists of block addresses,
  directories and reading of files, over a block session. The target is i386: little-endian, \<^verbatim>\<open>size_t\<close> of 32 bits.
  The string class, the intrusive list and the range tree come from headers outside the sources. Comparison of
  names and the search in the range tree are arguments; a collective of address lists is the list in the order
  its iteration visits.
\<close>

section \<open>Master boot record\<close>

definition pte_fields :: "c_field list" where
  "pte_fields = [(''_boot'', 1, 1, 1), (''_starting_head'', 1, 1, 1), (''_starting_sector_cylinder'', 2, 1, 1),
     (''_system_id'', 1, 1, 1), (''_ending_head'', 1, 1, 1), (''_ending_sector_cylinder'', 2, 1, 1),
     (''_lba_first_block'', 4, 4, 1), (''_partition_length'', 4, 4, 1)]"

definition mbr_fields :: "c_field list" where
  "mbr_fields = [(''_bootcode'', 1, 1, 440), (''_media_id'', 4, 4, 1), (''_pad0'', 2, 2, 1),
     (''_pte'', 16, 1, 4), (''_signature'', 2, 2, 1)]"

definition Mbr :: "'s session \<Rightarrow> 's \<Rightarrow> (u8 list \<times> 's) outcome" where
  "Mbr block_device d =
     seq (block_device 0 512 d) (\<lambda>(mbr, d').
       check (load True mbr_fields ''_signature'' 0 mbr = 0xAA55) Assertion (Inr (mbr, d')))"

text \<open>The entries start at byte 446; the loop visits them in order and fails an assertion when none is left.\<close>

fun partition_loop :: "u8 list \<Rightarrow> nat list \<Rightarrow> u32 \<Rightarrow> u32 \<Rightarrow> u32 outcome" where
  "partition_loop mbr [] type inst = Inl Assertion"
| "partition_loop mbr (p # ps) type inst =
     (if of_nat (load True pte_fields ''_system_id'' (446 + 16 * p) mbr) = type then
        if inst = 0 then Inr (of_nat (load True pte_fields ''_lba_first_block'' (446 + 16 * p) mbr))
        else partition_loop mbr ps type (inst - 1)
      else partition_loop mbr ps type inst)"

definition get_partition_lba :: "u8 list \<Rightarrow> u32 \<Rightarrow> u32 \<Rightarrow> u32 outcome" where
  "get_partition_lba mbr type inst = partition_loop mbr [0, 1, 2, 3] type inst"

section \<open>Superblock\<close>

definition superblock_fields :: "c_field list" where
  "superblock_fields = [(''total_inode_count'', 4, 4, 1), (''total_block_count'', 4, 4, 1), (''reserved_block_count'', 4, 4, 1),
     (''free_block_count'', 4, 4, 1), (''free_inode_count'', 4, 4, 1), (''first_block'', 4, 4, 1), (''block_size_log2'', 4, 4, 1),
     (''fragment_size_log2'', 4, 4, 1), (''blocks_per_group'', 4, 4, 1), (''fragments_per_group'', 4, 4, 1),
     (''inodes_per_group'', 4, 4, 1), (''unused2'', 1, 1, 12), (''magic'', 2, 2, 1), (''state'', 2, 2, 1),
     (''error_behavior'', 2, 2, 1), (''rev_minor'', 2, 2, 1), (''unused3'', 1, 1, 8), (''os'', 4, 4, 1), (''rev_major'', 4, 4, 1),
     (''unused4'', 1, 1, 4), (''first_inode'', 4, 4, 1), (''inode_size'', 2, 2, 1), (''unused5'', 2, 2, 1),
     (''features_compatible'', 4, 4, 1), (''features_incompatible'', 4, 4, 1), (''features_read_only'', 4, 4, 1),
     (''uuid'', 1, 1, 16), (''volume_name'', 1, 1, 16)]"

record superblock =
  sb :: "u8 list"
  num_block_groups :: u32
  block_size :: u32
  sb_start_offset :: u64
  bg_start_offset :: u64
  partition_start_offset :: u64

definition sb_field :: "string \<Rightarrow> u8 list \<Rightarrow> 'a::len word" where
  "sb_field f bs = of_nat (load True superblock_fields f 0 bs)"

definition get_magic :: "u8 list \<Rightarrow> u16" where "get_magic bs = sb_field ''magic'' bs"
definition get_rev_major :: "u8 list \<Rightarrow> u32" where "get_rev_major bs = sb_field ''rev_major'' bs"
definition get_first_inode :: "u8 list \<Rightarrow> u32" where "get_first_inode bs = sb_field ''first_inode'' bs"
definition get_block_size_log2 :: "u8 list \<Rightarrow> u32" where "get_block_size_log2 bs = sb_field ''block_size_log2'' bs"
definition get_blocks_per_group :: "u8 list \<Rightarrow> u32" where "get_blocks_per_group bs = sb_field ''blocks_per_group'' bs"
definition get_inodes_per_group :: "u8 list \<Rightarrow> u32" where "get_inodes_per_group bs = sb_field ''inodes_per_group'' bs"
definition get_inode_size :: "u8 list \<Rightarrow> u16" where "get_inode_size bs = sb_field ''inode_size'' bs"
definition get_total_inode_count :: "u8 list \<Rightarrow> u32" where "get_total_inode_count bs = sb_field ''total_inode_count'' bs"
definition get_total_block_count :: "u8 list \<Rightarrow> u32" where "get_total_block_count bs = sb_field ''total_block_count'' bs"

text \<open>\<^verbatim>\<open>1024 << n\<close> is defined while the result fits 32 bits.\<close>

definition get_block_size :: "u8 list \<Rightarrow> u32 outcome" where
  "get_block_size bs = check (get_block_size_log2 bs < 22) Undefined (Inr (push_bit (unat (get_block_size_log2 bs)) 1024))"

definition sanity_checks :: "u8 list \<Rightarrow> unit outcome" where
  "sanity_checks bs =
     check (get_magic bs = 0xEF53) Assertion (check (get_rev_major bs = 1) Assertion (check (get_first_inode bs > 10) Assertion (Inr ())))"

definition word_div :: "u32 \<Rightarrow> u32 \<Rightarrow> u32 outcome" where
  "word_div a b = check (b \<noteq> 0) Div_by_zero (Inr (a div b))"

definition Superblock :: "'s session \<Rightarrow> u32 \<Rightarrow> 's \<Rightarrow> (superblock \<times> 's) outcome" where
  "Superblock block_device start_lba d =
     (let partition_start = ucast (start_lba * 512 :: u32); sb_start = 1024 + partition_start in
      seq (block_device sb_start 1024 d) (\<lambda>(bs, d').
      seq (sanity_checks bs) (\<lambda>_.
      seq (get_block_size bs) (\<lambda>size.
      seq (word_div (get_total_block_count bs) (get_blocks_per_group bs)) (\<lambda>groups.
      let groups' = (if get_total_block_count bs mod get_blocks_per_group bs > 0 then groups + 1 else groups) in
      seq (word_div (get_total_inode_count bs) (get_inodes_per_group bs)) (\<lambda>inode_groups.
      check (groups' = inode_groups) Assertion
      (Inr (\<lparr>sb = bs, num_block_groups = groups', block_size = size, sb_start_offset = sb_start,
             bg_start_offset = (if size > 1024 then ucast size + partition_start else ucast size + sb_start),
             partition_start_offset = partition_start\<rparr>, d'))))))))"

definition block_to_abs_offset :: "superblock \<Rightarrow> u32 \<Rightarrow> u64" where
  "block_to_abs_offset s block = ucast block * ucast (block_size s) + partition_start_offset s"

text \<open>
  \<^verbatim>\<open>Ext2fs_core\<close>: the first partition of type 0x83 after \<open>inst\<close> others, and its superblock. Both are read from
  the physical device session.
\<close>

definition Ext2fs_core :: "'s session \<Rightarrow> u32 \<Rightarrow> 's \<Rightarrow> (superblock \<times> 's) outcome" where
  "Ext2fs_core session inst d =
     seq (Mbr session d) (\<lambda>(mbr, d1).
     seq (get_partition_lba mbr 0x83 inst) (\<lambda>lba.
     check (lba > 0) Assertion (Superblock session lba d1)))"

section \<open>Block groups and inodes\<close>

definition group_fields :: "c_field list" where
  "group_fields = [(''block_bitmap_block'', 4, 4, 1), (''inode_bitmap_block'', 4, 4, 1), (''inode_table_first_block'', 4, 4, 1),
     (''free_block_count'', 2, 2, 1), (''free_inode_count'', 2, 2, 1), (''directory_inode_count'', 2, 2, 1), (''pad'', 2, 2, 1),
     (''reserved'', 1, 1, 12)]"

definition get_block_group_ref :: "'s session \<Rightarrow> superblock \<Rightarrow> u32 \<Rightarrow> 's \<Rightarrow> (u8 list \<times> 's) outcome" where
  "get_block_group_ref block_device s bgid d =
     check (\<not> bgid > num_block_groups s) Panic (block_device (bg_start_offset s + ucast (32 * bgid)) 32 d)"

definition get_inode_table_first_block :: "u8 list \<Rightarrow> u32" where
  "get_inode_table_first_block bs = of_nat (load True group_fields ''inode_table_first_block'' 0 bs)"

definition inode_fields :: "c_field list" where
  "inode_fields = [(''mode'', 2, 2, 1), (''user_id'', 2, 2, 1), (''size'', 4, 4, 1), (''last_access_time'', 4, 4, 1),
     (''creation_time'', 4, 4, 1), (''last_mod_time'', 4, 4, 1), (''deletion_time'', 4, 4, 1), (''group_id'', 2, 2, 1),
     (''links_count'', 2, 2, 1), (''blocks'', 4, 4, 1), (''flags'', 4, 4, 1), (''unused2'', 1, 1, 4),
     (''direct_data_blocks'', 4, 4, 12), (''indirect_data_blocks'', 4, 4, 3), (''version'', 4, 4, 1), (''file_acl'', 4, 4, 1),
     (''size_high'', 4, 4, 1), (''unused3'', 1, 1, 6), (''mode_high'', 2, 2, 1), (''user_id_high'', 2, 2, 1),
     (''group_id_high'', 2, 2, 1)]"

text \<open>An object of the packed class \<^verbatim>\<open>Inode\<close>: 256 raw bytes and the 8-byte offset, 264 in all.\<close>

record inode =
  raw :: "u8 list"
  filesystem_offset :: u64

definition sizeof_Inode :: u32 where "sizeof_Inode = 264"

text \<open>Reading \<^verbatim>\<open>sizeof(Inode)\<close> bytes into an object overwrites both members.\<close>

definition overwrite :: "u8 list \<Rightarrow> inode" where
  "overwrite bs = \<lparr>raw = take 256 bs, filesystem_offset = of_nat (get_le 256 8 bs)\<rparr>"

definition read_inode :: "'s session \<Rightarrow> superblock \<Rightarrow> u32 \<Rightarrow> 's \<Rightarrow> (inode \<times> 's) outcome" where
  "read_inode block_device s inode_index d =
     check (inode_index > 0) Assertion (check (inode_index \<le> get_total_inode_count (sb s)) Assertion
     (seq (word_div (inode_index - 1) (get_inodes_per_group (sb s))) (\<lambda>block_group_id.
      let group_offset = (inode_index - 1) mod get_inodes_per_group (sb s) in
      seq (get_block_group_ref block_device s block_group_id d) (\<lambda>(group, d1).
      let inode_pos_abs = block_to_abs_offset s (get_inode_table_first_block group) +
            ucast (ucast (get_inode_size (sb s)) * group_offset :: u32) in
      seq (block_device inode_pos_abs sizeof_Inode d1) (\<lambda>(bs, d2). Inr (overwrite bs, d2))))))"

text \<open>\<^verbatim>\<open>get_inode_ref\<close> does the same with a new object.\<close>

definition get_inode_ref :: "'s session \<Rightarrow> superblock \<Rightarrow> u32 \<Rightarrow> 's \<Rightarrow> (inode \<times> 's) outcome" where
  "get_inode_ref block_device s inode_index d = read_inode block_device s inode_index d"

definition get_inode_from_block :: "'s session \<Rightarrow> superblock \<Rightarrow> u32 \<Rightarrow> 's \<Rightarrow> (inode \<times> 's) outcome" where
  "get_inode_from_block block_device s block_id d =
     seq (block_device (block_to_abs_offset s block_id) sizeof_Inode d) (\<lambda>(bs, d'). Inr (overwrite bs, d'))"

definition get_root_directory :: "'s session \<Rightarrow> superblock \<Rightarrow> 's \<Rightarrow> (inode \<times> 's) outcome" where
  "get_root_directory block_device s d = get_inode_ref block_device s 2 d"

section \<open>Block addresses\<close>

text \<open>The 32-bit words of a list of bytes, little-endian.\<close>

fun words_le :: "u8 list \<Rightarrow> u32 list" where
  "words_le (a # b # c # d # bs) = of_nat (get_le 0 4 [a, b, c, d]) # words_le bs"
| "words_le bs = []"

definition count_blocks :: "u32 list \<Rightarrow> u32" where
  "count_blocks addresses = of_nat (length (filter (\<lambda>b. b > 0) addresses))"

definition get_block_address :: "u32 list \<Rightarrow> u32 \<Rightarrow> u32 outcome" where
  "get_block_address addresses index = check (unat index < length addresses) Assertion (Inr (addresses ! unat index))"

definition get_direct_blocks :: "inode \<Rightarrow> u32 list" where
  "get_direct_blocks i = words_le (take 48 (drop 40 (raw i)))"

definition get_indirect :: "nat \<Rightarrow> inode \<Rightarrow> u32" where
  "get_indirect k i = of_nat (get_le (88 + 4 * k) 4 (raw i))"

definition get_block_address_list :: "'s session \<Rightarrow> superblock \<Rightarrow> u32 \<Rightarrow> 's \<Rightarrow> (u32 list \<times> 's) outcome" where
  "get_block_address_list block_device s block_id d =
     check (block_size s mod 4 = 0) Assertion
     (seq (block_device (block_to_abs_offset s block_id) (block_size s) d) (\<lambda>(bs, d'). Inr (words_le bs, d')))"

text \<open>The loops over the used addresses of a list: one list, or a list of lists, for each.\<close>

fun address_lists :: "'s session \<Rightarrow> superblock \<Rightarrow> u32 list \<Rightarrow> 's \<Rightarrow> (u32 list list \<times> 's) outcome" where
  "address_lists block_device s [] d = Inr ([], d)"
| "address_lists block_device s (b # bs) d =
     (if b > 0 then
        seq (get_block_address_list block_device s b d) (\<lambda>(l, d1).
        seq (address_lists block_device s bs d1) (\<lambda>(ls, d2). Inr (l # ls, d2)))
      else address_lists block_device s bs d)"

fun address_lists2 :: "'s session \<Rightarrow> superblock \<Rightarrow> u32 list \<Rightarrow> 's \<Rightarrow> (u32 list list \<times> 's) outcome" where
  "address_lists2 block_device s [] d = Inr ([], d)"
| "address_lists2 block_device s (b # bs) d =
     (if b > 0 then
        seq (get_block_address_list block_device s b d) (\<lambda>(l, d1).
        seq (address_lists block_device s l d1) (\<lambda>(ls, d2).
        seq (address_lists2 block_device s bs d2) (\<lambda>(ls', d3). Inr (ls @ ls', d3))))
      else address_lists2 block_device s bs d)"

text \<open>The address lists inserted into the collective, in the order of the calls; \<open>None\<close> is \<^verbatim>\<open>NULL\<close>.\<close>

definition get_singly_indirect_block_addresses ::
  "'s session \<Rightarrow> superblock \<Rightarrow> inode \<Rightarrow> 's \<Rightarrow> (u32 list list option \<times> 's) outcome" where
  "get_singly_indirect_block_addresses block_device s i d =
     (if get_indirect 0 i = 0 then Inr (None, d)
      else seq (get_block_address_list block_device s (get_indirect 0 i) d) (\<lambda>(l, d'). Inr (Some [l], d')))"

definition get_doubly_indirect_block_addresses ::
  "'s session \<Rightarrow> superblock \<Rightarrow> inode \<Rightarrow> 's \<Rightarrow> (u32 list list option \<times> 's) outcome" where
  "get_doubly_indirect_block_addresses block_device s i d =
     (if get_indirect 1 i = 0 then Inr (None, d)
      else seq (get_block_address_list block_device s (get_indirect 1 i) d) (\<lambda>(l, d1).
           seq (address_lists block_device s l d1) (\<lambda>(ls, d2). Inr (Some ls, d2))))"

definition get_triply_indirect_block_addresses ::
  "'s session \<Rightarrow> superblock \<Rightarrow> inode \<Rightarrow> 's \<Rightarrow> (u32 list list option \<times> 's) outcome" where
  "get_triply_indirect_block_addresses block_device s i d =
     (if get_indirect 2 i = 0 then Inr (None, d)
      else seq (get_block_address_list block_device s (get_indirect 2 i) d) (\<lambda>(l, d1).
           seq (address_lists2 block_device s l d1) (\<lambda>(ls, d2). Inr (Some ls, d2))))"

section \<open>Files\<close>

text \<open>A node of the range tree: base, range and the address list attached to it.\<close>

type_synonym range_node = "u64 \<times> u64 \<times> u32 list"

text \<open>The nodes \<^verbatim>\<open>Logical_range_tree\<close> inserts for the lists of a collective.\<close>

fun range_nodes :: "u32 \<Rightarrow> u64 \<Rightarrow> u32 list list \<Rightarrow> range_node list" where
  "range_nodes block_size_in_bytes curr_block [] = []"
| "range_nodes block_size_in_bytes curr_block (l # ls) =
     (if count_blocks l > 0
      then [(curr_block * ucast block_size_in_bytes, ucast (count_blocks l * block_size_in_bytes), l)] else []) @
     range_nodes block_size_in_bytes (curr_block + ucast (count_blocks l)) ls"

text \<open>
  \<open>search nodes pos\<close> is the region that contains one byte at \<open>pos\<close>: its lower and upper bounds and its list.
  Without one, \<^verbatim>\<open>lookup_block_and_offset\<close> returns \<^verbatim>\<open>NULL\<close>, which is \<^verbatim>\<open>S_OK\<close>, and leaves block and offset as they were.
\<close>

type_synonym range_search = "range_node list \<Rightarrow> u64 \<Rightarrow> (u64 \<times> u64 \<times> u32 list) option"

definition lookup_block_and_offset ::
  "range_search \<Rightarrow> u32 \<Rightarrow> range_node list \<Rightarrow> u64 \<Rightarrow> u32 \<Rightarrow> u32 \<Rightarrow> (status \<times> u32 \<times> u32) outcome" where
  "lookup_block_and_offset search fs_block_size_bytes nodes pos block offset =
     (case search nodes pos of None \<Rightarrow> Inr (S_OK, block, offset)
      | Some (lower, upper, bal) \<Rightarrow>
          check (pos \<ge> lower \<and> pos \<le> upper) Assertion
          (let delta = (ucast (pos - lower) :: u32) in
           seq (word_div delta fs_block_size_bytes) (\<lambda>block_idx.
           seq (get_block_address bal block_idx) (\<lambda>b. Inr (S_OK, b, delta mod fs_block_size_bytes)))))"

record 's ext2_file =
  file_super :: superblock
  file_nodes :: "range_node list"
  file_pos :: u64
  file_session :: 's

text \<open>
  The loop of \<^verbatim>\<open>File::read\<close>, which tests its condition at the end. \<open>None\<close> outside means that it does not end.
\<close>

partial_function (option) read_loop ::
  "range_search \<Rightarrow> 's session \<Rightarrow> superblock \<Rightarrow> range_node list \<Rightarrow> u32 \<Rightarrow> u64 \<Rightarrow> u32 \<Rightarrow> u32 \<Rightarrow> u32 \<Rightarrow> u32 \<Rightarrow>
    u8 list \<Rightarrow> 's \<Rightarrow> (u8 list \<times> 's) outcome option" where
  "read_loop search session s nodes len curr_pos bytes_copied bytes_remaining block offset buffer d =
     (case lookup_block_and_offset search (block_size s) nodes curr_pos block offset of
        Inl e \<Rightarrow> Some (Inl e)
      | Inr (rc, block', offset') \<Rightarrow>
          if rc \<noteq> S_OK \<or> \<not> offset' < block_size s then Some (Inl Assertion)
          else let bytes_to_copy = min (block_size s - offset') bytes_remaining in
            (case session (block_to_abs_offset s block' + ucast offset') bytes_to_copy d of
               Inl e \<Rightarrow> Some (Inl e)
             | Inr (data, d') \<Rightarrow>
                 if bytes_copied + bytes_to_copy < len
                 then read_loop search session s nodes len (curr_pos + ucast bytes_to_copy) (bytes_copied + bytes_to_copy)
                        (bytes_remaining - bytes_to_copy) block' offset' (buffer @ data) d'
                 else Some (Inr (buffer @ data, d'))))"

definition open_file :: "superblock \<Rightarrow> u32 list list \<Rightarrow> 's \<Rightarrow> 's ext2_file" where
  "open_file s collective d =
     \<lparr>file_super = s, file_nodes = range_nodes (block_size s) 0 collective, file_pos = 0, file_session = d\<rparr>"

definition file_read_at ::
  "range_search \<Rightarrow> 's session \<Rightarrow> u64 \<Rightarrow> u32 \<Rightarrow> 's ext2_file \<Rightarrow> (u8 list \<times> 's ext2_file) outcome option" where
  "file_read_at search session read_pos len f =
     map_option (\<lambda>r. seq r (\<lambda>(data, d). Inr (data, f\<lparr>file_pos := read_pos + ucast len, file_session := d\<rparr>)))
       (read_loop search session (file_super f) (file_nodes f) len read_pos 0 len 0 0 [] (file_session f))"

definition file_read :: "range_search \<Rightarrow> 's session \<Rightarrow> u32 \<Rightarrow> 's ext2_file \<Rightarrow> (u8 list \<times> 's ext2_file) outcome option" where
  "file_read search session len f = file_read_at search session (file_pos f) len f"

definition file_seek :: "u64 \<Rightarrow> 's ext2_file \<Rightarrow> 's ext2_file" where
  "file_seek pos f = f\<lparr>file_pos := pos\<rparr>"

section \<open>Directories\<close>

definition dir_fields :: "c_field list" where
  "dir_fields = [(''inode'', 4, 4, 1), (''rec_length'', 2, 2, 1), (''name_length'', 1, 1, 1), (''file_type'', 1, 1, 1), (''name'', 1, 1, 255)]"

text \<open>The fixed part of the entry at a position of the directory's content, which must be inside it.\<close>

definition dir_header :: "u8 list \<Rightarrow> nat \<Rightarrow> (nat \<times> nat \<times> nat \<times> nat) outcome" where
  "dir_header content at =
     check (at + 8 \<le> length content) Out_of_range
     (Inr (load True dir_fields ''inode'' at content, load True dir_fields ''rec_length'' at content,
           load True dir_fields ''name_length'' at content, load True dir_fields ''file_type'' at content))"

text \<open>
  \<^verbatim>\<open>get_name\<close> copies at most \<open>name_length\<close> characters, up to a null character, into an array of 255 and ends
  them at index \<open>name_length\<close>.
\<close>

definition get_name :: "u8 list \<Rightarrow> nat \<Rightarrow> nat \<Rightarrow> u8 list outcome" where
  "get_name content at name_length =
     check (at + 8 + name_length \<le> length content) Out_of_range
     (check (name_length < 255) Out_of_range
     (Inr (takeWhile (\<lambda>c. c \<noteq> 0) (take name_length (drop (at + 8) content)))))"

text \<open>The loop of \<^verbatim>\<open>locate_file\<close>: the inode number found. \<open>name_eq\<close> compares a name with the name looked for.\<close>

partial_function (option) locate_loop :: "(u8 list \<Rightarrow> bool) \<Rightarrow> u8 list \<Rightarrow> u32 \<Rightarrow> nat \<Rightarrow> nat outcome option" where
  "locate_loop name_eq content left at =
     (if left = 0 then Some (Inl Panic)
      else case dir_header content at of Inl e \<Rightarrow> Some (Inl e)
        | Inr (ino, rec_length, name_length, file_type) \<Rightarrow>
            (case (if ino > 0 then seq (get_name content at name_length) (\<lambda>name. Inr (name_eq name)) else Inr False) of
               Inl e \<Rightarrow> Some (Inl e)
             | Inr found \<Rightarrow>
                 if found then Some (Inr ino)
                 else locate_loop name_eq content (left - of_nat rec_length) (at + rec_length)))"

text \<open>
  The loop of \<^verbatim>\<open>find_local_directory\<close>: it steps to the next entry first and then subtracts the length of that one.
\<close>

partial_function (option) directory_loop :: "(u8 list \<Rightarrow> bool) \<Rightarrow> u8 list \<Rightarrow> u32 \<Rightarrow> nat \<Rightarrow> nat outcome option" where
  "directory_loop name_eq content left at =
     (if left = 0 then Some (Inl Panic)
      else case dir_header content at of Inl e \<Rightarrow> Some (Inl e)
        | Inr (ino, rec_length, name_length, file_type) \<Rightarrow>
            (case seq (get_name content at name_length) (\<lambda>name. Inr (name_eq name)) of
               Inl e \<Rightarrow> Some (Inl e)
             | Inr found \<Rightarrow>
                 if found then Some (check (file_type = 2) Assertion (Inr ino))
                 else (case dir_header content (at + rec_length) of Inl e \<Rightarrow> Some (Inl e)
                  | Inr (ino', rec_length', name_length', file_type') \<Rightarrow>
                      directory_loop name_eq content (left - of_nat rec_length') (at + rec_length))))"

section \<open>Directory lookup\<close>

text \<open>
  A well-formed directory: entries at the positions \<open>ps\<close> follow each other, up to the end of the content, and each
  is long enough for its name.
\<close>

definition rec_of :: "u8 list \<Rightarrow> nat \<Rightarrow> nat" where "rec_of content p = load True dir_fields ''rec_length'' p content"
definition ino_of :: "u8 list \<Rightarrow> nat \<Rightarrow> nat" where "ino_of content p = load True dir_fields ''inode'' p content"
definition type_of :: "u8 list \<Rightarrow> nat \<Rightarrow> nat" where "type_of content p = load True dir_fields ''file_type'' p content"
definition nlen_of :: "u8 list \<Rightarrow> nat \<Rightarrow> nat" where "nlen_of content p = load True dir_fields ''name_length'' p content"

definition name_of :: "u8 list \<Rightarrow> nat \<Rightarrow> u8 list" where
  "name_of content p = takeWhile (\<lambda>c. c \<noteq> 0) (take (nlen_of content p) (drop (p + 8) content))"

fun dir_chain :: "u8 list \<Rightarrow> nat \<Rightarrow> nat list \<Rightarrow> bool" where
  "dir_chain content at [] \<longleftrightarrow> at = length content"
| "dir_chain content at (p # ps) \<longleftrightarrow>
     p = at \<and> 8 + nlen_of content p \<le> rec_of content p \<and> nlen_of content p < 255 \<and> dir_chain content (at + rec_of content p) ps"

lemma dir_chain_le: "dir_chain content at ps \<Longrightarrow> at \<le> length content"
  by (induction content at ps rule: dir_chain.induct) auto

lemma dir_header_in:
  "at + 8 \<le> length content \<Longrightarrow>
     dir_header content at = Inr (ino_of content at, rec_of content at, nlen_of content at, type_of content at)"
  by (simp add: dir_header_def ino_of_def rec_of_def nlen_of_def type_of_def)

lemma dir_header_end: "dir_header content (length content) = Inl Out_of_range"
  by (simp add: dir_header_def)

lemma get_name_in:
  "at + 8 + nlen_of content at \<le> length content \<Longrightarrow> nlen_of content at < 255 \<Longrightarrow>
     get_name content at (nlen_of content at) = Inr (name_of content at)"
  by (simp add: get_name_def name_of_def)

lemma chain_head:
  assumes "dir_chain content at (p # ps)"
  shows "p = at" "at + 8 \<le> length content" "get_name content at (nlen_of content at) = Inr (name_of content at)"
    "0 < rec_of content at" "at + rec_of content at \<le> length content" "dir_chain content (at + rec_of content at) ps"
  using assms dir_chain_le [of content "at + rec_of content at" ps] get_name_in [of at content] by auto

lemma locate_loop_chain:
  "dir_chain content at ps \<Longrightarrow> length content < 2 ^ 32 \<Longrightarrow> unat left = length content - at \<Longrightarrow>
     locate_loop name_eq content left at =
       Some (case find (\<lambda>p. ino_of content p > 0 \<and> name_eq (name_of content p)) ps of
               None \<Rightarrow> Inl Panic | Some p \<Rightarrow> Inr (ino_of content p))"
proof (induction ps arbitrary: at left)
  case Nil
  then have "left = 0"
    by (simp add: unat_eq_zero)
  then show ?case
    by (simp add: locate_loop.simps)
next
  case (Cons p ps)
  note h = chain_head [OF Cons.prems(1)]
  have left: "left \<noteq> 0"
    using Cons.prems(3) h(2) by auto
  have small: "rec_of content at < 2 ^ 32" "rec_of content at \<le> unat left"
    using h(5) Cons.prems by auto
  then have next_left: "unat (left - of_nat (rec_of content at)) = length content - (at + rec_of content at)"
    using Cons.prems(3) by (simp add: unat_sub word_le_nat_alt unat_of_nat)
  show ?case
    using left h Cons.IH [OF h(6) Cons.prems(2) next_left]
    by (subst locate_loop.simps) (auto simp: dir_header_in)
qed

text \<open>
  \<^verbatim>\<open>find_local_directory\<close> has subtracted the lengths of the entries it passed except the first, so it always
  reaches the last entry, and the header behind it.
\<close>

lemma directory_loop_chain:
  "dir_chain content at ps \<Longrightarrow> ps \<noteq> [] \<Longrightarrow> length content < 2 ^ 32 \<Longrightarrow> length content - (at + rec_of content at) < unat left \<Longrightarrow>
     directory_loop name_eq content left at =
       Some (case find (\<lambda>p. name_eq (name_of content p)) ps of
               None \<Rightarrow> Inl Out_of_range | Some p \<Rightarrow> check (type_of content p = 2) Assertion (Inr (ino_of content p)))"
proof (induction ps arbitrary: at left)
  case (Cons p ps)
  note h = chain_head [OF Cons.prems(1)]
  have left: "left \<noteq> 0"
    using Cons.prems(4) by auto
  show ?case
  proof (cases ps)
    case Nil
    then have "at + rec_of content at = length content"
      using h(6) by simp
    then show ?thesis
      using left h Nil by (subst directory_loop.simps) (auto simp: dir_header_in dir_header_end)
  next
    case (Cons p' ps')
    note h' = chain_head [OF h(6) [unfolded Cons]]
    let ?at = "at + rec_of content at"
    have le: "rec_of content ?at \<le> unat left" "rec_of content ?at < 2 ^ 32"
      using h'(5) Cons.prems(3,4) by auto
    then have "unat (left - of_nat (rec_of content ?at)) = unat left - rec_of content ?at"
      by (simp add: unat_sub word_le_nat_alt unat_of_nat)
    then have "length content - (?at + rec_of content ?at) < unat (left - of_nat (rec_of content ?at))"
      using Cons.prems(4) h'(5) le by linarith
    from Cons.IH [OF h(6) _ Cons.prems(3) this] show ?thesis
      using left h h'(2) Cons by (subst directory_loop.simps) (auto simp: dir_header_in)
  qed
qed simp

section \<open>Block lookup\<close>

text \<open>
  What \<^verbatim>\<open>lookup_block_and_offset\<close> relies on: the search returns an inserted region that contains the position,
  with its bounds, and finds one if there is any.
\<close>

definition search_ok :: "range_search \<Rightarrow> bool" where
  "search_ok search \<longleftrightarrow>
     (\<forall>nodes pos. (\<forall>(lo, r, l) \<in> set nodes. unat lo + unat r < 2 ^ 64) \<longrightarrow> (case search nodes pos of
        None \<Rightarrow> \<forall>(lo, r, l) \<in> set nodes. \<not> (unat lo \<le> unat pos \<and> unat pos < unat lo + unat r)
      | Some (lo, up, l) \<Rightarrow> \<exists>r. (lo, r, l) \<in> set nodes \<and> unat lo \<le> unat pos \<and> unat pos < unat lo + unat r \<and>
          unat up = unat lo + unat r - 1))"

text \<open>The addresses in use, and lists in which they come before the unused ones.\<close>

definition used :: "u32 list \<Rightarrow> u32 list" where
  "used l = filter (\<lambda>b. b > 0) l"

definition compact :: "u32 list \<Rightarrow> bool" where
  "compact l \<longleftrightarrow> used l = take (length (used l)) l"

definition file_blocks :: "u32 list list \<Rightarrow> u32 list" where
  "file_blocks ls = concat (map used ls)"

fun nat_nodes :: "nat \<Rightarrow> nat \<Rightarrow> u32 list list \<Rightarrow> (nat \<times> nat \<times> u32 list) list" where
  "nat_nodes bs cur [] = []"
| "nat_nodes bs cur (l # ls) =
     (if used l \<noteq> [] then [(cur * bs, length (used l) * bs, l)] else []) @ nat_nodes bs (cur + length (used l)) ls"

lemma count_blocks_used: "length l < 2 ^ 32 \<Longrightarrow> unat (count_blocks l) = length (used l)"
  using le_less_trans [OF length_filter_le [of "\<lambda>b. b > 0" l]] unfolding count_blocks_def used_def
  by (simp add: unat_of_nat)

lemma range_nodes_nat:
  assumes "\<forall>l\<in>set ls. length l < 2 ^ 32 \<and> length (used l) * unat bs < 2 ^ 32" "0 < unat bs"
    "(unat cur + length (file_blocks ls)) * unat bs < 2 ^ 64"
  shows "map (\<lambda>(lo, r, l). (unat lo, unat r, l)) (range_nodes bs cur ls) = nat_nodes (unat bs) (unat cur) ls"
  using assms(1,3)
proof (induction ls arbitrary: cur)
  case (Cons l ls)
  have l: "length l < 2 ^ 32" "length (used l) * unat bs < 2 ^ 32"
    using Cons.prems(1) by simp_all
  note count = count_blocks_used [OF l(1)]
  have blocks: "length (file_blocks (l # ls)) = length (used l) + length (file_blocks ls)"
    by (simp add: file_blocks_def)
  have bs: "unat (ucast bs :: u64) = unat bs" "unat (ucast (count_blocks l) :: u64) = length (used l)"
    using count by (simp_all add: unat_ucast_u64)
  have "(unat cur + length (used l)) * 1 \<le> (unat cur + length (file_blocks (l # ls))) * unat bs"
    using assms(2) blocks by (intro mult_le_mono) auto
  then have cur: "unat (cur + ucast (count_blocks l)) = unat cur + length (used l)"
    using Cons.prems(2) bs by (simp add: unat_add_small)
  have "unat cur * unat bs \<le> (unat cur + length (file_blocks (l # ls))) * unat bs"
    by simp
  then have "unat cur * unat bs < 2 ^ 64"
    using Cons.prems(2) by linarith
  then have lo: "unat (cur * ucast bs) = unat cur * unat bs"
    using bs by (simp add: unat_mult_small)
  have "unat (count_blocks l * bs) = length (used l) * unat bs"
    using l(2) count by (simp add: unat_mult_small)
  then have r: "unat (ucast (count_blocks l * bs) :: u64) = length (used l) * unat bs"
    by (simp add: unat_ucast_u64)
  have "count_blocks l > 0 \<longleftrightarrow> used l \<noteq> []"
    using count by (simp add: word_less_nat_alt)
  moreover have "map (\<lambda>(lo, r, l). (unat lo, unat r, l)) (range_nodes bs (cur + ucast (count_blocks l)) ls) =
    nat_nodes (unat bs) (unat cur + length (used l)) ls"
    using Cons.IH [of "cur + ucast (count_blocks l)"] Cons.prems cur blocks by (simp add: add.assoc)
  ultimately show ?case
    using lo r by simp
qed simp

lemma nat_nodes_cover:
  assumes "0 < bs"
  shows "cur * bs \<le> pos \<Longrightarrow> pos < (cur + length (file_blocks ls)) * bs \<Longrightarrow>
    \<exists>(lo, r, l) \<in> set (nat_nodes bs cur ls). lo \<le> pos \<and> pos < lo + r"
proof (induction ls arbitrary: cur)
  case (Cons l ls)
  show ?case
  proof (cases "pos < (cur + length (used l)) * bs")
    case True
    then have "used l \<noteq> []"
      using Cons.prems(1) by auto
    then show ?thesis
      using True Cons.prems(1) by (simp add: algebra_simps)
  next
    case False
    then show ?thesis
      using Cons.IH [of "cur + length (used l)"] Cons.prems(2) by (auto simp: file_blocks_def add.assoc)
  qed
qed (simp add: file_blocks_def)

lemma nat_nodes_bound: "(lo, r, l) \<in> set (nat_nodes bs cur ls) \<Longrightarrow> lo + r \<le> (cur + length (file_blocks ls)) * bs"
proof (induction ls arbitrary: cur)
  case (Cons k ls)
  then show ?case
    using Cons.IH [of "cur + length (used k)"] by (auto simp: file_blocks_def algebra_simps split: if_splits)
qed simp

lemma nat_nodes_block:
  assumes "0 < bs"
  shows "\<forall>l\<in>set ls. compact l \<Longrightarrow> (lo, r, l) \<in> set (nat_nodes bs cur ls) \<Longrightarrow> lo \<le> pos \<Longrightarrow> pos < lo + r \<Longrightarrow>
    cur * bs \<le> lo \<and> lo mod bs = 0 \<and> r = length (used l) * bs \<and> l \<in> set ls \<and> (pos - lo) div bs < length (used l) \<and>
    l ! ((pos - lo) div bs) = file_blocks ls ! (pos div bs - cur)"
proof (induction ls arbitrary: cur)
  case (Cons k ls)
  have used: "length (used k) \<le> length k"
    by (simp add: used_def)
  show ?case
  proof (cases "used k \<noteq> [] \<and> (lo, r, l) = (cur * bs, length (used k) * bs, k)")
    case True
    have div: "pos div bs = cur + (pos - lo) div bs"
      using True Cons.prems(3) assms by (metis add_diff_inverse_nat div_mult_self3 leD less_irrefl_nat old.prod.inject)
    have "(pos - lo) < length (used k) * bs"
      using True Cons.prems(3,4) by auto
    then have lt: "(pos - lo) div bs < length (used k)"
      using assms by (simp add: less_mult_imp_div_less)
    then have "k ! ((pos - lo) div bs) = used k ! ((pos - lo) div bs)"
      using Cons.prems(1) unfolding compact_def by (metis list.set_intros(1) nth_take)
    then show ?thesis
      using True lt div by (simp add: file_blocks_def nth_append)
  next
    case False
    then have "(lo, r, l) \<in> set (nat_nodes bs (cur + length (used k)) ls)"
      using Cons.prems(2) by (auto split: if_splits)
    then have ih: "(cur + length (used k)) * bs \<le> lo \<and> lo mod bs = 0 \<and> r = length (used l) * bs \<and> l \<in> set ls \<and>
      (pos - lo) div bs < length (used l) \<and> l ! ((pos - lo) div bs) = file_blocks ls ! (pos div bs - (cur + length (used k)))"
      using Cons by simp
    then have "(cur + length (used k)) * bs \<le> pos"
      using Cons.prems(3) by simp
    then have "cur + length (used k) \<le> pos div bs"
      using assms by (simp add: less_eq_div_iff_mult_less_eq)
    then show ?thesis
      using ih by (auto simp: file_blocks_def nth_append algebra_simps)
  qed
qed simp

text \<open>A collective whose sizes do not overflow and whose lists have no holes.\<close>

definition collective_ok :: "u32 \<Rightarrow> u32 list list \<Rightarrow> bool" where
  "collective_ok bs ls \<longleftrightarrow>
     0 < unat bs \<and> (\<forall>l\<in>set ls. compact l \<and> length l < 2 ^ 32 \<and> length (used l) * unat bs < 2 ^ 32) \<and>
     length (file_blocks ls) * unat bs < 2 ^ 64"

lemma lookup_ok:
  assumes search: "search_ok search" and ok: "collective_ok bs ls" and pos: "unat pos < length (file_blocks ls) * unat bs"
  shows "\<exists>off. lookup_block_and_offset search bs (range_nodes bs 0 ls) pos block offset =
    Inr (S_OK, file_blocks ls ! (unat pos div unat bs), off) \<and> unat off = unat pos mod unat bs"
proof -
  let ?nodes = "range_nodes bs 0 ls"
  have bs: "0 < unat bs"
    using ok unfolding collective_ok_def by simp
  have nodes: "map (\<lambda>(lo, r, l). (unat lo, unat r, l)) ?nodes = nat_nodes (unat bs) 0 ls"
    using range_nodes_nat [of ls bs 0] ok unfolding collective_ok_def by simp
  have "unat lo + unat r < 2 ^ 64" if "(lo, r, l) \<in> set ?nodes" for lo r l
  proof -
    have "(unat lo, unat r, l) \<in> set (nat_nodes (unat bs) 0 ls)"
      using that unfolding nodes [symmetric] by force
    then show ?thesis
      using nat_nodes_bound ok unfolding collective_ok_def by fastforce
  qed
  then have found: "case search ?nodes pos of
        None \<Rightarrow> \<forall>(lo, r, l) \<in> set ?nodes. \<not> (unat lo \<le> unat pos \<and> unat pos < unat lo + unat r)
      | Some (lo, up, l) \<Rightarrow> \<exists>r. (lo, r, l) \<in> set ?nodes \<and> unat lo \<le> unat pos \<and> unat pos < unat lo + unat r \<and>
          unat up = unat lo + unat r - 1"
    using search unfolding search_ok_def by blast
  obtain lo r l where "(lo, r, l) \<in> set (nat_nodes (unat bs) 0 ls)" "lo \<le> unat pos" "unat pos < lo + r"
    using nat_nodes_cover [OF bs, of 0 "unat pos" ls] pos by auto
  then obtain lo' r' where "(lo', r', l) \<in> set ?nodes" "unat lo' \<le> unat pos" "unat pos < unat lo' + unat r'"
    unfolding nodes [symmetric] by auto
  then have "search ?nodes pos \<noteq> None"
    using found by (auto split: option.splits)
  then obtain lo up l r where f: "search ?nodes pos = Some (lo, up, l)" "(lo, r, l) \<in> set ?nodes" "unat lo \<le> unat pos"
    "unat pos < unat lo + unat r" "unat up = unat lo + unat r - 1"
    using found by (auto split: option.splits)
  have "(unat lo, unat r, l) \<in> set (nat_nodes (unat bs) 0 ls)"
    using f(2) unfolding nodes [symmetric] by force
  then have b: "unat lo mod unat bs = 0" "unat r = length (used l) * unat bs" "l \<in> set ls"
    "(unat pos - unat lo) div unat bs < length (used l)"
    "l ! ((unat pos - unat lo) div unat bs) = file_blocks ls ! (unat pos div unat bs)"
    using nat_nodes_block [OF bs, of ls "unat lo" "unat r" l 0 "unat pos"] f(3,4) ok unfolding collective_ok_def by auto
  have small: "unat pos - unat lo < 2 ^ 32"
    using f(3,4) b(2,3) ok unfolding collective_ok_def by fastforce
  have "unat (pos - lo) = unat pos - unat lo"
    using f(3) by (simp add: unat_sub word_le_nat_alt)
  then have delta: "unat (ucast (pos - lo) :: u32) = unat pos - unat lo"
    using small by (simp add: unsigned_ucast_eq take_bit_nat_eq_self)
  have idx: "unat ((ucast (pos - lo) :: u32) div bs) = (unat pos - unat lo) div unat bs"
    using delta by (simp add: unat_div_distrib)
  have "length (used l) \<le> length l"
    by (simp add: used_def)
  then have len: "(unat pos - unat lo) div unat bs < length l"
    using b(4) by simp
  have modulo: "unat ((ucast (pos - lo) :: u32) mod bs) = unat pos mod unat bs"
    using delta b(1) f(3) by (simp add: unat_mod_distrib) (metis add_diff_inverse_nat leD mod_0 mod_add_left_eq add_0)
  have "bs \<noteq> 0" "unat pos \<le> unat up"
    using bs f(4,5) by auto
  then have "lookup_block_and_offset search bs ?nodes pos block offset =
    Inr (S_OK, file_blocks ls ! (unat pos div unat bs), ucast (pos - lo) mod bs)"
    using f(1,3) idx len b(5)
    by (simp add: lookup_block_and_offset_def word_le_nat_alt word_div_def get_block_address_def)
  then show ?thesis
    using modulo by blast
qed

section \<open>Reading a file\<close>

definition block_bytes :: "(nat \<Rightarrow> u8) \<Rightarrow> superblock \<Rightarrow> u32 \<Rightarrow> u8 list" where
  "block_bytes disk s b = bytes_at disk (unat (block_to_abs_offset s b)) (unat (block_size s))"

definition file_bytes :: "(nat \<Rightarrow> u8) \<Rightarrow> superblock \<Rightarrow> u32 list list \<Rightarrow> u8 list" where
  "file_bytes disk s ls = concat (map (block_bytes disk s) (file_blocks ls))"

lemma concat_slice:
  assumes "\<forall>x\<in>set xs. length (f x) = m" "j < length xs" "o' + k \<le> m"
  shows "take k (drop (j * m + o') (concat (map f xs))) = take k (drop o' (f (xs ! j)))"
  using assms
proof (induction xs arbitrary: j)
  case (Cons x xs)
  show ?case
  proof (cases j)
    case 0
    then show ?thesis
      using Cons.prems by (simp add: drop_append take_append)
  next
    case (Suc i)
    then show ?thesis
      using Cons.IH [of i] Cons.prems by (simp add: drop_append add.assoc)
  qed
qed simp

lemma file_bytes_slice:
  assumes "j < length (file_blocks ls)" "o' + k \<le> unat (block_size s)"
  shows "bytes_at disk (unat (block_to_abs_offset s (file_blocks ls ! j)) + o') k =
    take k (drop (j * unat (block_size s) + o') (file_bytes disk s ls))"
  using concat_slice [of "file_blocks ls" "block_bytes disk s" "unat (block_size s)" j o' k] assms
  by (simp add: file_bytes_def block_bytes_def slice_bytes_at)

text \<open>Every part of every block of the file is within the limit of the session, and has a 64-bit position.\<close>

definition blocks_within :: "(nat \<Rightarrow> nat \<Rightarrow> bool) \<Rightarrow> superblock \<Rightarrow> u32 list \<Rightarrow> bool" where
  "blocks_within limit s bs \<longleftrightarrow>
     (\<forall>b\<in>set bs. unat (block_to_abs_offset s b) + unat (block_size s) < 2 ^ 64 \<and>
        (\<forall>i k. i + k \<le> unat (block_size s) \<longrightarrow> limit (unat (block_to_abs_offset s b) + i) k))"

lemma read_loop_step:
  assumes serves: "serves session ok disk limit" and search: "search_ok search" and ls: "collective_ok (block_size s) ls"
    and within: "blocks_within limit s (file_blocks ls)" and ok: "ok d"
    and pos: "unat pos + unat left \<le> length (file_blocks ls) * unat (block_size s)" "0 < unat left"
  obtains k b off d' where "0 < unat k" "unat k \<le> unat left" "ok d'"
    "lookup_block_and_offset search (block_size s) (range_nodes (block_size s) 0 ls) pos block offset = Inr (S_OK, b, off)"
    "off < block_size s" "k = min (block_size s - off) left"
    "session (block_to_abs_offset s b + ucast off) k d = Inr (take (unat k) (drop (unat pos) (file_bytes disk s ls)), d')"
proof -
  let ?bs = "unat (block_size s)"
  let ?j = "unat pos div ?bs"
  have bs: "0 < ?bs"
    using ls unfolding collective_ok_def by simp
  have lt: "unat pos < length (file_blocks ls) * ?bs"
    using pos by linarith
  then have j: "?j < length (file_blocks ls)"
    using bs by (simp add: less_mult_imp_div_less)
  obtain off where off: "unat off = unat pos mod ?bs"
    "lookup_block_and_offset search (block_size s) (range_nodes (block_size s) 0 ls) pos block offset =
      Inr (S_OK, file_blocks ls ! ?j, off)"
    using lookup_ok [OF search ls lt] by blast
  define k where "k = min (block_size s - off) left"
  have off_lt: "off < block_size s"
    using off(1) bs by (simp add: word_less_nat_alt)
  then have "unat (block_size s - off) = ?bs - unat off"
    by (simp add: unat_sub less_imp_le)
  then have k: "unat k = min (?bs - unat off) (unat left)"
    by (simp add: k_def min_def word_le_nat_alt)
  have sum: "unat off + unat k \<le> ?bs"
    using k off(1) bs mod_less_divisor [OF bs, of "unat pos"] by linarith
  have b: "unat (block_to_abs_offset s (file_blocks ls ! ?j)) + ?bs < 2 ^ 64"
    "limit (unat (block_to_abs_offset s (file_blocks ls ! ?j)) + unat off) (unat k)"
    using within j sum unfolding blocks_within_def by simp_all
  have abs: "unat (block_to_abs_offset s (file_blocks ls ! ?j) + ucast off) =
    unat (block_to_abs_offset s (file_blocks ls ! ?j)) + unat off"
    using b(1) sum by (simp add: unat_add_small unat_ucast_u64)
  then obtain d' where "session (block_to_abs_offset s (file_blocks ls ! ?j) + ucast off) k d =
    Inr (bytes_at disk (unat (block_to_abs_offset s (file_blocks ls ! ?j)) + unat off) (unat k), d')" "ok d'"
    using serves ok b(2) unfolding serves_def by metis
  moreover have "?j * ?bs + unat off = unat pos"
    using off(1) by simp
  ultimately have "session (block_to_abs_offset s (file_blocks ls ! ?j) + ucast off) k d =
    Inr (take (unat k) (drop (unat pos) (file_bytes disk s ls)), d')" "ok d'"
    using file_bytes_slice [OF j sum, of disk] by simp_all
  moreover have "0 < unat k" "unat k \<le> unat left"
    using k pos(2) off_lt by (simp_all add: word_less_nat_alt)
  ultimately show thesis
    using that off(2) off_lt k_def by blast
qed

lemma read_loop_ok:
  assumes serves: "serves session ok disk limit" and search: "search_ok search" and ls: "collective_ok (block_size s) ls"
    and within: "blocks_within limit s (file_blocks ls)"
  shows "ok d \<Longrightarrow> unat pos + unat left \<le> length (file_blocks ls) * unat (block_size s) \<Longrightarrow> 0 < unat left \<Longrightarrow>
    unat copied + unat left = unat len \<Longrightarrow>
    \<exists>d'. read_loop search session s (range_nodes (block_size s) 0 ls) len pos copied left block offset buf d =
      Some (Inr (buf @ take (unat left) (drop (unat pos) (file_bytes disk s ls)), d')) \<and> ok d'"
proof (induction "unat left" arbitrary: pos left copied block offset buf d rule: less_induct)
  case less
  obtain k b off d1 where k: "0 < unat k" "unat k \<le> unat left" "ok d1"
    "lookup_block_and_offset search (block_size s) (range_nodes (block_size s) 0 ls) pos block offset = Inr (S_OK, b, off)"
    "off < block_size s" "k = min (block_size s - off) left"
    "session (block_to_abs_offset s b + ucast off) k d = Inr (take (unat k) (drop (unat pos) (file_bytes disk s ls)), d1)"
    using read_loop_step [OF serves search ls within less.prems(1-3)] .
  have copied: "unat (copied + k) = unat copied + unat k"
    using k(2) less.prems(4) unat_bound [of len] by (intro unat_add_small) simp
  have left: "unat (left - k) = unat left - unat k"
    using k(2) by (simp add: unat_sub word_le_nat_alt)
  show ?case
  proof (cases "unat k < unat left")
    case True
    have "length (file_blocks ls) * unat (block_size s) < 2 ^ 64"
      using ls unfolding collective_ok_def by simp
    then have pos: "unat (pos + ucast k) = unat pos + unat k"
      using k(2) less.prems(2) by (simp add: unat_add_small unat_ucast_u64)
    obtain d' where "read_loop search session s (range_nodes (block_size s) 0 ls) len (pos + ucast k) (copied + k) (left - k) b off
        (buf @ take (unat k) (drop (unat pos) (file_bytes disk s ls))) d1 =
      Some (Inr ((buf @ take (unat k) (drop (unat pos) (file_bytes disk s ls))) @
        take (unat (left - k)) (drop (unat (pos + ucast k)) (file_bytes disk s ls)), d'))" "ok d'"
      using less.hyps [of "left - k" d1 "pos + ucast k" "copied + k" b off
          "buf @ take (unat k) (drop (unat pos) (file_bytes disk s ls))"] k(1,2,3) less.prems True copied left pos by auto
    moreover have "take (unat k) (drop (unat pos) (file_bytes disk s ls)) @
        take (unat left - unat k) (drop (unat pos + unat k) (file_bytes disk s ls)) =
      take (unat left) (drop (unat pos) (file_bytes disk s ls))"
      using k(2) take_add [of "unat k" "unat left - unat k" "drop (unat pos) (file_bytes disk s ls)"]
      by (simp add: add.commute)
    moreover have "copied + k < len"
      using True copied less.prems(4) by (simp add: word_less_nat_alt)
    ultimately show ?thesis
      using k(4,5,7) left pos by (subst read_loop.simps) (simp add: k(6) [symmetric])
  next
    case False
    then have "\<not> copied + k < len" "unat k = unat left"
      using copied less.prems(4) k(2) by (simp_all add: word_less_nat_alt)
    then show ?thesis
      using k(3,4,5,7) by (subst read_loop.simps) (simp add: k(6) [symmetric])
  qed
qed

text \<open>Reads of the given lengths one after another, each from where the last one ended.\<close>

fun file_reads :: "range_search \<Rightarrow> 's session \<Rightarrow> u32 list \<Rightarrow> 's ext2_file \<Rightarrow> (u8 list list \<times> 's ext2_file) outcome option" where
  "file_reads search session [] f = Some (Inr ([], f))"
| "file_reads search session (len # lens) f =
     (case file_read search session len f of None \<Rightarrow> None | Some (Inl e) \<Rightarrow> Some (Inl e)
      | Some (Inr (data, f')) \<Rightarrow>
          map_option (\<lambda>r. seq r (\<lambda>(datas, f''). Inr (data # datas, f''))) (file_reads search session lens f'))"

definition file_ok :: "('s \<Rightarrow> bool) \<Rightarrow> superblock \<Rightarrow> u32 list list \<Rightarrow> 's ext2_file \<Rightarrow> bool" where
  "file_ok ok s ls f \<longleftrightarrow> file_super f = s \<and> file_nodes f = range_nodes (block_size s) 0 ls \<and> ok (file_session f)"

lemma file_reads_ok:
  assumes serves: "serves session ok disk limit" and search: "search_ok search" and ls: "collective_ok (block_size s) ls"
    and within: "blocks_within limit s (file_blocks ls)"
  shows "file_ok ok s ls f \<Longrightarrow> \<forall>len\<in>set lens. len > 0 \<Longrightarrow>
    unat (file_pos f) + sum_list (map unat lens) \<le> length (file_blocks ls) * unat (block_size s) \<Longrightarrow>
    \<exists>datas f'. file_reads search session lens f = Some (Inr (datas, f')) \<and>
      concat datas = take (sum_list (map unat lens)) (drop (unat (file_pos f)) (file_bytes disk s ls)) \<and>
      map length datas = map unat lens \<and> file_ok ok s ls f' \<and> unat (file_pos f') = unat (file_pos f) + sum_list (map unat lens)"
proof (induction lens arbitrary: f)
  case (Cons len lens)
  have "0 < unat len"
    using Cons.prems(2) by (simp add: word_less_nat_alt)
  then obtain d where d: "read_loop search session s (range_nodes (block_size s) 0 ls) len (file_pos f) 0 len 0 0 [] (file_session f) =
    Some (Inr (take (unat len) (drop (unat (file_pos f)) (file_bytes disk s ls)), d))" "ok d"
    using read_loop_ok [OF serves search ls within, of "file_session f" "file_pos f" len 0 len 0 0 "[]"] Cons.prems
    unfolding file_ok_def by auto
  define g where "g = f\<lparr>file_pos := file_pos f + ucast len, file_session := d\<rparr>"
  have "length (file_blocks ls) * unat (block_size s) < 2 ^ 64"
    using ls unfolding collective_ok_def by simp
  then have pos: "unat (file_pos g) = unat (file_pos f) + unat len"
    using Cons.prems(3) by (simp add: g_def unat_add_small unat_ucast_u64)
  have read: "file_read search session len f = Some (Inr (take (unat len) (drop (unat (file_pos f)) (file_bytes disk s ls)), g))"
    using d(1) Cons.prems(1) by (simp add: file_read_def file_read_at_def file_ok_def g_def)
  have "file_ok ok s ls g"
    using Cons.prems(1) d(2) by (simp add: file_ok_def g_def)
  then obtain datas f' where r: "file_reads search session lens g = Some (Inr (datas, f'))"
    "concat datas = take (sum_list (map unat lens)) (drop (unat (file_pos g)) (file_bytes disk s ls))"
    "map length datas = map unat lens" "file_ok ok s ls f'" "unat (file_pos f') = unat (file_pos g) + sum_list (map unat lens)"
    using Cons.IH [of g] Cons.prems(2,3) pos by auto
  have "length (file_bytes disk s ls) = length (file_blocks ls) * unat (block_size s)"
    by (simp add: file_bytes_def block_bytes_def length_concat comp_def sum_list_triv)
  then have "length (take (unat len) (drop (unat (file_pos f)) (file_bytes disk s ls))) = unat len"
    using Cons.prems(3) by simp
  moreover have "take (unat len) (drop (unat (file_pos f)) (file_bytes disk s ls)) @ concat datas =
    take (unat len + sum_list (map unat lens)) (drop (unat (file_pos f)) (file_bytes disk s ls))"
    unfolding r(2) pos take_add by (simp add: add.commute)
  ultimately show ?case
    using read r pos by simp
qed simp

text \<open>The block cache as the session of a file: the cycle counter at the \<open>t\<close>-th read is \<open>clock t\<close>.\<close>

definition clocked_read :: "'s session \<Rightarrow> (nat \<Rightarrow> ptr) \<Rightarrow> (nat \<Rightarrow> u64) \<Rightarrow> ('s block_cache \<times> nat) session" where
  "clocked_read session alloc_pages clock offset count st =
     seq (cache_read session alloc_pages (clock (snd st)) offset count (fst st)) (\<lambda>(data, c). Inr (data, (c, Suc (snd st))))"

lemma clocked_read_serves:
  assumes "serves session k disk (buffer_limit S n)" "4194304 \<le> S" "n < 2 ^ 64" "\<And>t. clock t \<noteq> 0"
  shows "serves (clocked_read session ap clock) (\<lambda>st. cache_ok ap disk n k (fst st)) disk (request_limit S n)"
  unfolding serves_def
proof (intro allI impI)
  fix offset :: u64 and count :: u32 and st :: "'a block_cache \<times> nat"
  assume "cache_ok ap disk n k (fst st)" "request_limit S n (unat offset) (unat count)"
  then obtain c where "cache_read session ap (clock (snd st)) offset count (fst st) = Inr (bytes_at disk (unat offset) (unat count), c)"
    "cache_ok ap disk n k c"
    using cache_read_serves [OF assms(1-3) assms(4) [of "snd st"], of ap] unfolding serves_def by blast
  then show "\<exists>s'. clocked_read session ap clock offset count st = Inr (bytes_at disk (unat offset) (unat count), s') \<and>
    cache_ok ap disk n k (fst s')"
    by (simp add: clocked_read_def)
qed

section \<open>Superblock and inodes\<close>

lemma unat_shifted:
  assumes "k < 22"
  shows "unat (push_bit k 1024 :: u32) = 1024 * 2 ^ k"
proof -
  have "(2 :: nat) ^ k \<le> 2 ^ 21"
    using assms by (intro power_increasing) auto
  moreover have e: "unat (2 ^ k :: u32) = 2 ^ k"
    using assms by (intro unat_exp) simp
  ultimately have "unat (1024 * 2 ^ k :: u32) = unat (1024 :: u32) * unat (2 ^ k :: u32)"
    by (intro unat_mult_small) simp
  then show ?thesis
    using e by (simp add: push_bit_eq_mult)
qed

text \<open>The partition start is computed in 32 bits.\<close>

lemma partition_start: "unat (ucast (lba * 512 :: u32) :: u64) = 512 * unat lba mod 2 ^ 32"
  by (simp add: unat_ucast_u64 unat_word_ariths mult.commute)

lemma Superblock_inv:
  assumes "Superblock session lba d = Inr (s, d')"
  obtains bs where "get_block_size_log2 bs < 22" "get_inodes_per_group bs \<noteq> 0"
    "sb s = bs" "num_block_groups s = get_total_inode_count bs div get_inodes_per_group bs"
    "block_size s = push_bit (unat (get_block_size_log2 bs)) 1024"
    "partition_start_offset s = ucast (lba * 512 :: u32)"
    "bg_start_offset s = (if block_size s > 1024 then ucast (block_size s) + partition_start_offset s
       else ucast (block_size s) + (1024 + partition_start_offset s))"
  using assms unfolding Superblock_def Let_def get_block_size_def word_div_def
  by (clarsimp simp: seq_eq_Inr check_eq_Inr)

lemma Superblock_fields:
  assumes "Superblock session lba d = Inr (s, d')"
  shows "unat (partition_start_offset s) = 512 * unat lba mod 2 ^ 32"
    "unat (get_block_size_log2 (sb s)) < 22" "unat (block_size s) = 1024 * 2 ^ unat (get_block_size_log2 (sb s))"
    "num_block_groups s = get_total_inode_count (sb s) div get_inodes_per_group (sb s)" "get_inodes_per_group (sb s) \<noteq> 0"
    "bg_start_offset s = (if block_size s > 1024 then ucast (block_size s) + partition_start_offset s
       else ucast (block_size s) + (1024 + partition_start_offset s))"
proof -
  obtain bs where f: "get_block_size_log2 bs < 22" "get_inodes_per_group bs \<noteq> 0"
    "sb s = bs" "num_block_groups s = get_total_inode_count bs div get_inodes_per_group bs"
    "block_size s = push_bit (unat (get_block_size_log2 bs)) 1024"
    "partition_start_offset s = ucast (lba * 512 :: u32)"
    "bg_start_offset s = (if block_size s > 1024 then ucast (block_size s) + partition_start_offset s
       else ucast (block_size s) + (1024 + partition_start_offset s))"
    using Superblock_inv [OF assms] .
  show "unat (partition_start_offset s) = 512 * unat lba mod 2 ^ 32"
    unfolding f(6) by (rule partition_start)
  show log: "unat (get_block_size_log2 (sb s)) < 22"
    using f(1,3) by (simp add: word_less_nat_alt)
  show "unat (block_size s) = 1024 * 2 ^ unat (get_block_size_log2 (sb s))"
    using unat_shifted [OF log] f(3,5) by simp
qed (use Superblock_inv [OF assms] in blast)+

lemma block_size_bounds: "Superblock session lba d = Inr (s, d') \<Longrightarrow> 1024 \<le> unat (block_size s) \<and> unat (block_size s) \<le> 2 ^ 31"
proof -
  assume "Superblock session lba d = Inr (s, d')"
  note f = Superblock_fields(2,3) [OF this]
  have "(2 :: nat) ^ unat (get_block_size_log2 (sb s)) \<le> 2 ^ 21"
    using f(1) by (intro power_increasing) auto
  then show ?thesis
    using f(2) by simp
qed

lemma block_to_abs_offset_nat:
  assumes "Superblock session lba d = Inr (s, d')"
  shows "unat (block_to_abs_offset s b) = unat b * unat (block_size s) + 512 * unat lba mod 2 ^ 32"
    "unat (block_to_abs_offset s b) < 2 ^ 63 + 2 ^ 32"
proof -
  have "unat b * unat (block_size s) \<le> (2 ^ 32 - 1) * 2 ^ 31"
    using block_size_bounds [OF assms] unat_bound [of b] by (intro mult_le_mono) auto
  then have m: "unat (ucast b * ucast (block_size s) :: u64) = unat b * unat (block_size s)" "unat b * unat (block_size s) < 2 ^ 63"
    by (simp_all add: unat_mult_small unat_ucast_u64)
  have p: "unat (partition_start_offset s) = 512 * unat lba mod 2 ^ 32" "512 * unat lba mod 2 ^ 32 < 2 ^ 32"
    using Superblock_fields(1) [OF assms] by simp_all
  then show "unat (block_to_abs_offset s b) = unat b * unat (block_size s) + 512 * unat lba mod 2 ^ 32"
    using m by (simp add: block_to_abs_offset_def unat_add_small)
  then show "unat (block_to_abs_offset s b) < 2 ^ 63 + 2 ^ 32"
    using m(2) p(2) by linarith
qed

text \<open>Where the descriptor of an inode's group and the inode are on the disk.\<close>

definition descriptor_pos :: "nat \<Rightarrow> superblock \<Rightarrow> u32 \<Rightarrow> nat" where
  "descriptor_pos lba s index =
     512 * lba + (unat (block_size s) + (if unat (block_size s) > 1024 then 0 else 1024)) +
     32 * ((unat index - 1) div unat (get_inodes_per_group (sb s)))"

definition inode_pos :: "(nat \<Rightarrow> u8) \<Rightarrow> nat \<Rightarrow> superblock \<Rightarrow> u32 \<Rightarrow> nat" where
  "inode_pos disk lba s index =
     512 * lba + unat (get_inode_table_first_block (bytes_at disk (descriptor_pos lba s index) 32)) * unat (block_size s) +
     (unat index - 1) mod unat (get_inodes_per_group (sb s)) * unat (get_inode_size (sb s))"

lemma group_offset_nat:
  assumes "unat (get_inodes_per_group b) * unat (get_inode_size b) < 2 ^ 32" "get_inodes_per_group b \<noteq> 0" "0 < unat index"
  shows "unat ((index - 1) div get_inodes_per_group b) = (unat index - 1) div unat (get_inodes_per_group b)"
    "unat (ucast (get_inode_size b) * ((index - 1) mod get_inodes_per_group b) :: u32) =
      (unat index - 1) mod unat (get_inodes_per_group b) * unat (get_inode_size b)"
    "(unat index - 1) mod unat (get_inodes_per_group b) * unat (get_inode_size b) < 2 ^ 32"
proof -
  have i: "unat (index - 1) = unat index - 1"
    using assms(3) by (simp add: unat_sub word_le_nat_alt)
  show "unat ((index - 1) div get_inodes_per_group b) = (unat index - 1) div unat (get_inodes_per_group b)"
    using i by (simp add: unat_div_distrib)
  have "0 < unat (get_inodes_per_group b)"
    using assms(2) by (simp add: unat_gt_0)
  then have "(unat index - 1) mod unat (get_inodes_per_group b) * unat (get_inode_size b) \<le>
    unat (get_inodes_per_group b) * unat (get_inode_size b)"
    by (intro mult_le_mono) (simp_all add: less_imp_le)
  then show lt: "(unat index - 1) mod unat (get_inodes_per_group b) * unat (get_inode_size b) < 2 ^ 32"
    using assms(1) by linarith
  have "unat (ucast (get_inode_size b) :: u32) = unat (get_inode_size b)"
    using unat_bound [of "get_inode_size b"] by (simp add: unsigned_ucast_eq take_bit_nat_eq_self)
  then show "unat (ucast (get_inode_size b) * ((index - 1) mod get_inodes_per_group b) :: u32) =
      (unat index - 1) mod unat (get_inodes_per_group b) * unat (get_inode_size b)"
    using lt i by (subst unat_mult_small) (simp_all add: unat_mod_distrib mult.commute)
qed

lemma descriptor_offset:
  assumes mounted: "Superblock session lba d = Inr (s, d')" and lba: "unat lba < 2 ^ 23"
    and group: "unat (num_block_groups s) < 2 ^ 27" "unat (g :: u32) \<le> unat (num_block_groups s)"
  shows "unat (bg_start_offset s + ucast (32 * g)) =
    512 * unat lba + (unat (block_size s) + (if unat (block_size s) > 1024 then 0 else 1024)) + 32 * unat g"
proof -
  note f = Superblock_fields [OF mounted]
  have bs: "unat (block_size s) \<le> 2 ^ 31"
    using block_size_bounds [OF mounted] by simp
  have p: "unat (partition_start_offset s) = 512 * unat lba"
    using f(1) lba by simp
  have g: "unat (ucast (32 * g) :: u64) = 32 * unat g"
  proof -
    have "unat (32 * g) = unat (32 :: u32) * unat g"
      using group by (intro unat_mult_small) simp
    then show ?thesis
      by (simp add: unat_ucast_u64)
  qed
  have part: "unat (1024 + partition_start_offset s) = 1024 + unat (partition_start_offset s)"
    using p lba by (simp add: unat_add_small)
  have "unat (bg_start_offset s) =
    512 * unat lba + (unat (block_size s) + (if unat (block_size s) > 1024 then 0 else 1024))"
    using f(6) p part lba bs by (auto simp: unat_add_small unat_ucast_u64 word_less_nat_alt)
  then show ?thesis
    using g lba bs group by (simp add: unat_add_small)
qed

lemma overwrite_bytes: "overwrite (bytes_at disk p 264) =
  \<lparr>raw = bytes_at disk p 256, filesystem_offset = of_nat (get_le 256 8 (bytes_at disk p 264))\<rparr>"
  by (simp add: overwrite_def take_bytes_at)

lemma get_inode_ref_ok:
  assumes mounted: "Superblock session lba d = Inr (s, d')" and lba: "unat lba < 2 ^ 23"
    and serves: "serves session ok disk limit" "ok d1"
    and index: "0 < unat index" "unat index \<le> unat (get_total_inode_count (sb s))"
    and geometry: "unat (num_block_groups s) < 2 ^ 27" "unat (get_inodes_per_group (sb s)) * unat (get_inode_size (sb s)) < 2 ^ 32"
    and limits: "limit (descriptor_pos (unat lba) s index) 32" "limit (inode_pos disk (unat lba) s index) 264"
  shows "\<exists>d2. get_inode_ref session s index d1 = Inr (overwrite (bytes_at disk (inode_pos disk (unat lba) s index) 264), d2) \<and> ok d2"
proof -
  note f = Superblock_fields [OF mounted]
  let ?ipg = "get_inodes_per_group (sb s)"
  let ?g = "(index - 1) div ?ipg"
  note off = group_offset_nat [OF geometry(2) f(5) index(1)]
  have "unat ?g \<le> unat (num_block_groups s)"
    using off(1) f(4) index(2) by (simp add: unat_div_distrib div_le_mono)
  then have g: "\<not> num_block_groups s < ?g" and
    desc: "unat (bg_start_offset s + ucast (32 * ?g)) = descriptor_pos (unat lba) s index"
    using descriptor_offset [OF mounted lba geometry(1), of ?g] off(1) by (simp_all add: descriptor_pos_def word_less_nat_alt)
  obtain d2 where d2: "session (bg_start_offset s + ucast (32 * ?g)) 32 d1 =
    Inr (bytes_at disk (descriptor_pos (unat lba) s index) 32, d2)" "ok d2"
    using servesD [OF serves desc _ limits(1), of 32] by auto
  let ?table = "get_inode_table_first_block (bytes_at disk (descriptor_pos (unat lba) s index) 32)"
  let ?pos = "block_to_abs_offset s ?table + ucast (ucast (get_inode_size (sb s)) * ((index - 1) mod ?ipg) :: u32)"
  have "512 * unat lba mod 2 ^ 32 = 512 * unat lba"
    using lba by simp
  then have pos: "unat ?pos = inode_pos disk (unat lba) s index"
    using block_to_abs_offset_nat [OF mounted, of ?table] off(2,3)
    by (subst unat_add_small) (simp_all add: unat_ucast_u64 inode_pos_def)
  obtain d3 where d3: "session ?pos sizeof_Inode d2 = Inr (bytes_at disk (inode_pos disk (unat lba) s index) 264, d3)" "ok d3"
    using servesD [OF serves(1) d2(2) pos _ limits(2), of sizeof_Inode] by (auto simp: sizeof_Inode_def)
  have "index > 0" "index \<le> get_total_inode_count (sb s)"
    using index by (simp_all add: word_less_nat_alt word_le_nat_alt)
  then have "get_inode_ref session s index d1 = Inr (overwrite (bytes_at disk (inode_pos disk (unat lba) s index) 264), d3)"
    unfolding get_inode_ref_def read_inode_def Let_def get_block_group_ref_def word_div_def
    using f(5) g d2(1) d3(1) by simp
  then show ?thesis
    using d3(2) by blast
qed

section \<open>Indirect blocks\<close>

text \<open>The address list stored in a block.\<close>

definition list_in :: "(nat \<Rightarrow> u8) \<Rightarrow> superblock \<Rightarrow> u32 \<Rightarrow> u32 list" where
  "list_in disk s b = words_le (block_bytes disk s b)"

definition readable :: "(nat \<Rightarrow> nat \<Rightarrow> bool) \<Rightarrow> superblock \<Rightarrow> u32 \<Rightarrow> bool" where
  "readable limit s b \<longleftrightarrow> limit (unat (block_to_abs_offset s b)) (unat (block_size s))"

lemma block_list_ok:
  assumes "serves session ok disk limit" "block_size s mod 4 = 0" "ok d" "readable limit s b"
  obtains d' where "get_block_address_list session s b d = Inr (list_in disk s b, d')" "ok d'"
proof -
  obtain d' where "session (block_to_abs_offset s b) (block_size s) d = Inr (block_bytes disk s b, d')" "ok d'"
    using servesD [OF assms(1,3) refl refl assms(4) [unfolded readable_def]] unfolding block_bytes_def .
  then show thesis
    using that assms(2) by (simp add: get_block_address_list_def list_in_def)
qed

lemma used_simps [simp]: "used [] = []" "used (b # bs) = (if b > 0 then b # used bs else used bs)"
  by (simp_all add: used_def)

lemma address_lists_ok:
  assumes "serves session ok disk limit" "block_size s mod 4 = 0"
  shows "ok d \<Longrightarrow> \<forall>b\<in>set (used bs). readable limit s b \<Longrightarrow>
    \<exists>d'. address_lists session s bs d = Inr (map (list_in disk s) (used bs), d') \<and> ok d'"
proof (induction bs arbitrary: d)
  case (Cons b bs)
  show ?case
  proof (cases "b > 0")
    case True
    then obtain d1 where "get_block_address_list session s b d = Inr (list_in disk s b, d1)" "ok d1"
      using block_list_ok [OF assms Cons.prems(1)] Cons.prems(2) by auto
    moreover from Cons.IH [OF this(2)] obtain d2 where
      "address_lists session s bs d1 = Inr (map (list_in disk s) (used bs), d2)" "ok d2"
      using Cons.prems(2) by auto
    ultimately show ?thesis
      using True by auto
  next
    case False
    then show ?thesis
      using Cons by auto
  qed
qed simp

lemma address_lists2_ok:
  assumes "serves session ok disk limit" "block_size s mod 4 = 0"
  shows "ok d \<Longrightarrow> \<forall>b\<in>set (used bs). readable limit s b \<and> (\<forall>c\<in>set (used (list_in disk s b)). readable limit s c) \<Longrightarrow>
    \<exists>d'. address_lists2 session s bs d = Inr (concat (map (\<lambda>b. map (list_in disk s) (used (list_in disk s b))) (used bs)), d') \<and> ok d'"
proof (induction bs arbitrary: d)
  case (Cons b bs)
  show ?case
  proof (cases "b > 0")
    case True
    then have r: "readable limit s b" "\<forall>c\<in>set (used (list_in disk s b)). readable limit s c"
      using Cons.prems(2) by auto
    obtain d1 where d1: "get_block_address_list session s b d = Inr (list_in disk s b, d1)" "ok d1"
      using block_list_ok [OF assms Cons.prems(1) r(1)] .
    obtain d2 where d2: "address_lists session s (list_in disk s b) d1 = Inr (map (list_in disk s) (used (list_in disk s b)), d2)" "ok d2"
      using address_lists_ok [OF assms d1(2) r(2)] by blast
    obtain d3 where "address_lists2 session s bs d2 =
      Inr (concat (map (\<lambda>b. map (list_in disk s) (used (list_in disk s b))) (used bs)), d3)" "ok d3"
      using Cons.IH [OF d2(2)] Cons.prems(2) True by auto
    then show ?thesis
      using True d1 d2 by auto
  next
    case False
    then show ?thesis
      using Cons by auto
  qed
qed simp

text \<open>The three levels of indirection collect exactly the lists the addresses in use lead to, in order.\<close>

lemma indirect_lists:
  assumes serves: "serves session ok disk limit" and bs: "block_size s mod 4 = 0" and ok: "ok d"
    and lists: "\<And>k. readable limit s (get_indirect k i)"
      "\<And>k b. b \<in> set (used (list_in disk s (get_indirect k i))) \<Longrightarrow> readable limit s b"
      "\<And>b c. b \<in> set (used (list_in disk s (get_indirect 2 i))) \<Longrightarrow> c \<in> set (used (list_in disk s b)) \<Longrightarrow> readable limit s c"
    and present: "\<And>k. k < 3 \<Longrightarrow> get_indirect k i \<noteq> 0"
  defines "L \<equiv> list_in disk s"
  shows "\<exists>d'. get_singly_indirect_block_addresses session s i d = Inr (Some [L (get_indirect 0 i)], d') \<and> ok d'"
    "\<exists>d'. get_doubly_indirect_block_addresses session s i d = Inr (Some (map L (used (L (get_indirect 1 i)))), d') \<and> ok d'"
    "\<exists>d'. get_triply_indirect_block_addresses session s i d =
      Inr (Some (concat (map (\<lambda>b. map L (used (L b))) (used (L (get_indirect 2 i))))), d') \<and> ok d'"
proof -
  have first: "\<exists>d1. get_block_address_list session s (get_indirect k i) d = Inr (L (get_indirect k i), d1) \<and> ok d1" for k
    using block_list_ok [OF serves bs ok lists(1)] unfolding L_def by blast
  show "\<exists>d'. get_singly_indirect_block_addresses session s i d = Inr (Some [L (get_indirect 0 i)], d') \<and> ok d'"
    using first [of 0] present [of 0] by (auto simp: get_singly_indirect_block_addresses_def)
  obtain d1 where d1: "get_block_address_list session s (get_indirect 1 i) d = Inr (L (get_indirect 1 i), d1)" "ok d1"
    using first by blast
  then show "\<exists>d'. get_doubly_indirect_block_addresses session s i d = Inr (Some (map L (used (L (get_indirect 1 i)))), d') \<and> ok d'"
    using address_lists_ok [OF serves bs d1(2), of "L (get_indirect 1 i)"] lists(2) present [of 1]
    by (auto simp: get_doubly_indirect_block_addresses_def L_def)
  obtain d2 where d2: "get_block_address_list session s (get_indirect 2 i) d = Inr (L (get_indirect 2 i), d2)" "ok d2"
    using first by blast
  then show "\<exists>d'. get_triply_indirect_block_addresses session s i d =
      Inr (Some (concat (map (\<lambda>b. map L (used (L b))) (used (L (get_indirect 2 i))))), d') \<and> ok d'"
    using address_lists2_ok [OF serves bs d2(2), of "L (get_indirect 2 i)"] lists(2,3) present [of 2]
    by (auto simp: get_triply_indirect_block_addresses_def L_def)
qed

section \<open>Properties\<close>

text \<open>A disk with one small partition, and a session that reads any disk.\<close>

definition example_superblock :: "u8 list" where
  "example_superblock =
     put_le 0 4 8 (put_le 4 4 8 (put_le 32 4 8 (put_le 40 4 8 (put_le 56 2 0xEF53 (put_le 76 4 1 (put_le 84 4 11 (put_le 88 2 128 (replicate 1024 0))))))))"

definition example_disk :: "nat \<Rightarrow> u8" where
  "example_disk i = (if 1536 \<le> i \<and> i < 2560 then example_superblock ! (i - 1536) else if i = 2568 then 5 else 0)"

definition direct :: "(nat \<Rightarrow> u8) \<Rightarrow> unit session" where
  "direct disk offset count d = Inr (bytes_at disk (unat offset) (unat count), d)"

lemma direct_serves: "serves (direct disk) (\<lambda>_. True) disk (\<lambda>_ _. True)"
  by (simp add: serves_def direct_def)

lemma length_example_superblock: "length example_superblock = 1024"
  by (simp add: example_superblock_def)

lemma example_superblock_bytes: "bytes_at example_disk 1536 1024 = example_superblock"
  by (rule bytes_atI) (simp_all add: length_example_superblock example_disk_def)

lemma superblock_positions:
  "field_pos True superblock_fields ''total_inode_count'' = Some (0, 4)"
  "field_pos True superblock_fields ''total_block_count'' = Some (4, 4)"
  "field_pos True superblock_fields ''block_size_log2'' = Some (24, 4)"
  "field_pos True superblock_fields ''blocks_per_group'' = Some (32, 4)"
  "field_pos True superblock_fields ''inodes_per_group'' = Some (40, 4)"
  "field_pos True superblock_fields ''magic'' = Some (56, 2)"
  "field_pos True superblock_fields ''rev_major'' = Some (76, 4)"
  "field_pos True superblock_fields ''first_inode'' = Some (84, 4)"
  "field_pos True superblock_fields ''inode_size'' = Some (88, 2)"
  by code_simp+

lemma example_fields:
  "get_total_inode_count example_superblock = 8" "get_total_block_count example_superblock = 8"
  "get_block_size_log2 example_superblock = 0" "get_blocks_per_group example_superblock = 8"
  "get_inodes_per_group example_superblock = 8" "get_magic example_superblock = 0xEF53"
  "get_rev_major example_superblock = 1" "get_first_inode example_superblock = 11" "get_inode_size example_superblock = 128"
  unfolding get_total_inode_count_def get_total_block_count_def get_block_size_log2_def get_blocks_per_group_def
    get_inodes_per_group_def get_magic_def get_rev_major_def get_first_inode_def get_inode_size_def sb_field_def load_def
    superblock_positions example_superblock_def option.case prod.case
  by (simp_all add: get_put_same get_put_disjoint get_le_zero)

definition example_mounted :: superblock where
  "example_mounted = \<lparr>sb = example_superblock, num_block_groups = 1, block_size = 1024, sb_start_offset = 1536,
     bg_start_offset = 2560, partition_start_offset = 512\<rparr>"

lemma example_mount: "Superblock (direct example_disk) 1 () = Inr (example_mounted, ())"
  by (simp add: Superblock_def direct_def example_superblock_bytes sanity_checks_def get_block_size_def word_div_def
      example_fields example_mounted_def Let_def)

text \<open>
  For a mounted superblock, the byte position of block \<open>b\<close> is \<open>b\<close> times the block size, a power of two of at
  least 1024, behind the start of the partition; but the start is computed in 32 bits. It is the position on the
  disk if and only if the partition starts below sector \<open>2 ^ 23\<close> (4 GB).
\<close>

theorem superblock_block_address:
  assumes "Superblock session lba d = Inr (s, d')"
  shows "unat (block_size s) = 1024 * 2 ^ unat (get_block_size_log2 (sb s)) \<and>
    unat (block_to_abs_offset s b) = unat b * unat (block_size s) + 512 * unat lba mod 2 ^ 32 \<and>
    (unat (block_to_abs_offset s b) = unat b * unat (block_size s) + 512 * unat lba \<longleftrightarrow> unat lba < 2 ^ 23)"
proof -
  have "512 * unat lba mod 2 ^ 32 = 512 * unat lba \<longleftrightarrow> unat lba < 2 ^ 23"
  proof
    assume "512 * unat lba mod 2 ^ 32 = 512 * unat lba"
    then have "512 * unat lba < 2 ^ 32"
      using mod_less_divisor [of "2 ^ 32" "512 * unat lba"] by simp
    then show "unat lba < 2 ^ 23"
      by simp
  qed simp
  then show ?thesis
    using Superblock_fields(3) [OF assms] block_to_abs_offset_nat(1) [OF assms] by simp
qed

text \<open>
  C34. An inode is read from its slot of the inode table of its block group, for every inode number the superblock
  allows and geometry that fits 32 bits. The read has the size of the C++ object, 8 bytes more than the 256 raw
  bytes: the member that should hold the inode's position holds the 8 bytes that follow on the disk.
\<close>

theorem inode_location:
  assumes "Superblock session lba d = Inr (s, d')" "unat lba < 2 ^ 23" "serves session ok disk limit" "ok d1"
    "0 < unat index" "unat index \<le> unat (get_total_inode_count (sb s))" "unat (num_block_groups s) < 2 ^ 27"
    "unat (get_inodes_per_group (sb s)) * unat (get_inode_size (sb s)) < 2 ^ 32"
    "limit (descriptor_pos (unat lba) s index) 32" "limit (inode_pos disk (unat lba) s index) 264"
  shows "\<exists>d2. get_inode_ref session s index d1 =
    Inr (\<lparr>raw = bytes_at disk (inode_pos disk (unat lba) s index) 256,
          filesystem_offset = of_nat (get_le 256 8 (bytes_at disk (inode_pos disk (unat lba) s index) 264))\<rparr>, d2) \<and> ok d2"
  using get_inode_ref_ok [OF assms] by (simp add: overwrite_bytes)

lemma example_position: "inode_pos example_disk 1 example_mounted 1 = 5632"
proof -
  have "field_pos True group_fields ''inode_table_first_block'' = Some (8, 4)"
    by code_simp
  then have "get_inode_table_first_block (bytes_at example_disk 2560 32) = 5"
    by (simp add: get_inode_table_first_block_def load_def get_le_widths example_disk_def)
  then show ?thesis
    by (simp add: inode_pos_def descriptor_pos_def example_mounted_def)
qed

theorem inode_location_witness:
  "\<exists>i. get_inode_ref (direct example_disk) example_mounted 1 () = Inr (i, ()) \<and> length (raw i) = 256 \<and> filesystem_offset i = 0"
proof -
  have "unat (get_inodes_per_group (sb example_mounted)) * unat (get_inode_size (sb example_mounted)) < 2 ^ 32"
    "unat (num_block_groups example_mounted) < 2 ^ 27" "unat (1 :: u32) \<le> unat (get_total_inode_count (sb example_mounted))"
    by (simp_all add: example_mounted_def example_fields)
  moreover have "get_le 256 8 (bytes_at example_disk 5632 264) = 0"
    by (simp add: get_le_widths example_disk_def)
  ultimately show ?thesis
    using inode_location [OF example_mount _ direct_serves, where index = 1] example_position by simp
qed

text \<open>
  C35. In a well-formed directory, \<^verbatim>\<open>locate_file\<close> finds the first used entry with the name and panics without one.
  \<^verbatim>\<open>find_local_directory\<close> also finds the first entry with the name, but without one it always reads the header of
  an entry behind the end of the directory's content.
\<close>

theorem directory_lookup:
  assumes "dir_chain content 0 ps" "ps \<noteq> []" "length content < 2 ^ 32"
  shows "locate_loop name_eq content (of_nat (length content)) 0 =
      Some (case find (\<lambda>p. ino_of content p > 0 \<and> name_eq (name_of content p)) ps of
        None \<Rightarrow> Inl Panic | Some p \<Rightarrow> Inr (ino_of content p)) \<and>
    directory_loop name_eq content (of_nat (length content)) 0 =
      Some (case find (\<lambda>p. name_eq (name_of content p)) ps of
        None \<Rightarrow> Inl Out_of_range | Some p \<Rightarrow> check (type_of content p = 2) Assertion (Inr (ino_of content p)))"
proof -
  have len: "unat (of_nat (length content) :: u32) = length content"
    using assms(3) by (simp add: unat_of_nat)
  obtain p qs where "ps = p # qs"
    using assms(2) by (cases ps) auto
  then have "length content - (0 + rec_of content 0) < length content"
    using chain_head(2,4) [of content 0 p qs] assms(1) by fastforce
  then show ?thesis
    using locate_loop_chain [OF assms(1,3), of "of_nat (length content)"] directory_loop_chain [OF assms, of "of_nat (length content)"] len
    by simp
qed

definition example_directory :: "u8 list" where
  "example_directory = [2, 0, 0, 0, 12, 0, 1, 2, 46, 0, 0, 0]"

theorem directory_lookup_witness:
  "locate_loop (\<lambda>n. n = [46]) example_directory 12 0 = Some (Inr 2) \<and>
    directory_loop (\<lambda>n. n = [46]) example_directory 12 0 = Some (Inr 2) \<and>
    directory_loop (\<lambda>n. n = [47]) example_directory 12 0 = Some (Inl Out_of_range)"
proof -
  have "rec_of example_directory 0 = 12" "ino_of example_directory 0 = 2" "type_of example_directory 0 = 2"
    "nlen_of example_directory 0 = 1"
    by code_simp+
  moreover from this have "name_of example_directory 0 = [46]" "length example_directory = 12"
    by (simp_all add: name_of_def example_directory_def)
  ultimately show ?thesis
    using directory_lookup [of example_directory "[0]" "\<lambda>n. n = [46]"] directory_lookup [of example_directory "[0]" "\<lambda>n. n = [47]"]
    by simp
qed

text \<open>A search that meets the assumption on the range tree.\<close>

definition covers :: "u64 \<Rightarrow> range_node \<Rightarrow> bool" where
  "covers pos node \<longleftrightarrow> unat (fst node) \<le> unat pos \<and> unat pos < unat (fst node) + unat (fst (snd node))"

definition linear_search :: range_search where
  "linear_search nodes pos = map_option (\<lambda>(lo, r, l). (lo, lo + r - 1, l)) (find (covers pos) nodes)"

lemma linear_search_ok: "search_ok linear_search"
  unfolding search_ok_def
proof (intro allI impI)
  fix nodes :: "range_node list" and pos
  assume small: "\<forall>(lo, r, l) \<in> set nodes. unat lo + unat r < 2 ^ 64"
  show "case linear_search nodes pos of None \<Rightarrow> \<forall>(lo, r, l) \<in> set nodes. \<not> (unat lo \<le> unat pos \<and> unat pos < unat lo + unat r)
    | Some (lo, up, l) \<Rightarrow> \<exists>r. (lo, r, l) \<in> set nodes \<and> unat lo \<le> unat pos \<and> unat pos < unat lo + unat r \<and>
        unat up = unat lo + unat r - 1"
  proof (cases "find (covers pos) nodes")
    case None
    then have "\<not> covers pos (lo, r, l)" if "(lo, r, l) \<in> set nodes" for lo r l
      using that unfolding find_None_iff by blast
    then show ?thesis
      using None by (auto simp: linear_search_def covers_def)
  next
    case (Some node)
    then have mem: "node \<in> set nodes" "covers pos node"
      by (auto simp: find_Some_iff)
    obtain lo r l where node: "node = (lo, r, l)"
      by (cases node)
    have "unat lo + unat r < 2 ^ 64"
      using small mem node by auto
    then have sum: "unat (lo + r) = unat lo + unat r"
      by (simp add: unat_add_small)
    then have "1 \<le> lo + r"
      using mem(2) node by (simp add: word_le_nat_alt covers_def)
    then have "unat (lo + r - 1) = unat lo + unat r - 1"
      using sum by (simp add: unat_sub)
    then show ?thesis
      using Some node mem by (auto simp: linear_search_def covers_def)
  qed
qed

end
