(* ===== verification/Spec2Isabelle.thy ===== *)
theory Spec2Isabelle
  imports XDK_AVL XDK_Utils XDK_List XDK_Bitmap XDK_NBB XDK_Fast_Slab XDK_Span XDK_Spinlocks XDK_SPMC XDK_Lockfree_Queue
    XDK_NVMe_Device XDK_AHCI_Init XDK_E1000 XDK_X540_Receive XDK_X540_Multi XDK_Shm_Table XDK_Rand XDK_Ext2
begin

text \<open>
  A verification development for the eXokernel Development Kit (XDK): user-level device drivers, the library of
  allocators, queues and locks they are built from, and a file system server. File names are relative to \<^verbatim>\<open>src/\<close>.

  \<^bold>\<open>The program.\<close> \<^verbatim>\<open>lib/libcommon\<close> and \<^verbatim>\<open>lib/libexo\<close> are a C++ library for programs that drive devices from user
  space: memory allocators (slabs, spans, slot bitmaps, an AVL tree of regions), channels between threads and
  processes (non-blocking buffers, single-producer multi-consumer buffers, a lock-free queue), locks, and
  utilities. \<^verbatim>\<open>drivers/nvme-ssd\<close> is a driver for NVMe disks: it maps the controller's registers, creates an admin
  queue and I/O queues in memory shared with the device, encodes commands, tracks batches of requests and polls
  completions. \<^verbatim>\<open>drivers/ahci\<close> is a driver for SATA disks behind an AHCI controller: it starts the ports, identifies
  the disks and transfers sectors with queued commands, one at a time. \<^verbatim>\<open>drivers/e1000\<close> and \<^verbatim>\<open>drivers/x540-nic\<close> are
  drivers for network cards, with rings of descriptors in memory shared with the card. \<^verbatim>\<open>fs/ext2fs\<close> is a read-only ext2
  file system over a block device with a cache.

  \<^bold>\<open>Conventions\<close> (\<open>XDK_Prelude\<close>). Machine integers are words of their width. An operation that may stop returns
  \<open>fault + 'a\<close>: \<open>Panic\<close>, \<open>Assertion\<close>, an access through a null pointer or out of an array, a division by zero, or
  another undefined operation. A loop that may not end is a \<^verbatim>\<open>partial_function\<close> with an option result, and that it
  returns is part of the theorems about it; no fuel is used. Objects are records and pointers are optional names or
  addresses; stateful operations return the new state. Concurrent code is a function for one atomic access of a
  thread and an inductive relation for the states the threads reach; memory is sequentially consistent. What is
  outside the sources (the device, \<^verbatim>\<open>malloc\<close>, the kernel, the clock, missing headers) is an argument, and what the
  code relies on is a named hypothesis, for which the witness of a theorem has an instance.

  \<^bold>\<open>Contracts\<close> (\<open>XDK_Contracts\<close>). Locales for what several components promise: \<open>slot_allocator\<close> (interpreted by the
  slot bitmap, the fast slab, the base object allocator, the device memory slab and the chunks of the block cache), \<open>bounded_queue\<close> and
  \<open>strict_queue\<close> (the non-blocking buffer, the ring of the batch manager, the completion queue), and
  \<open>lock_protocol\<close> (the ticket lock and the spin lock).

  \<^bold>\<open>Components.\<close>
  \<^item> \<open>XDK_AVL\<close>: \<^verbatim>\<open>lib/libexo/private/__avl_tree.h\<close> with the comparison of \<^verbatim>\<open>__range_avl_allocator.h\<close>. \<open>insert_node\<close> and
    \<open>remove_node\<close> with their rotations are shown to be insertion and deletion in a balanced search tree.
  \<^item> \<open>XDK_Utils\<close>: rounding, alignment and CPU affinity functions of \<^verbatim>\<open>lib/libcommon\<close>.
  \<^item> \<open>XDK_List\<close>: \<^verbatim>\<open>lib/libcommon/common/list.h\<close> on an explicit heap; it refines sequences.
  \<^item> \<open>XDK_Bitmap\<close>: \<^verbatim>\<open>lib/libexo/exo/bitmap.h\<close>, call by call and as interleaved compare-and-swaps of threads.
  \<^item> \<open>XDK_NBB\<close>: \<^verbatim>\<open>lib/libexo/private/__sym_nbb.h\<close>, call by call across wrap-around of its counters, and as
    interleaved accesses of producer and consumer.
  \<^item> \<open>XDK_SPMC\<close>: \<^verbatim>\<open>lib/libexo/channel/spmc_circbuffer.h\<close> as interleaved accesses, with exactly-once delivery before
    \<open>2 ^ 32\<close> items and the failure after them; \<^verbatim>\<open>lib/libexo/numa_channel/spmc_circbuffer.h\<close> call by call.
  \<^item> \<open>XDK_Lockfree_Queue\<close>: \<^verbatim>\<open>lib/libexo/exo/lockfree_queue.h\<close> as interleaved accesses, first-in first-out while no
    deleted node is accessed, and the run that accesses one.
  \<^item> \<open>XDK_Fast_Slab\<close> (\<^verbatim>\<open>lib/libexo/exo/fast_slab.h\<close>) and \<open>XDK_Span\<close> (\<^verbatim>\<open>lib/libexo/private/__span.h\<close>,
    \<^verbatim>\<open>__base_slab_allocator.h\<close>): layout of the blocks in memory, and that blocks in use are disjoint.
  \<^item> \<open>XDK_Spinlocks\<close>: \<^verbatim>\<open>lib/libexo/exo/spinlocks.h\<close>; mutual exclusion, fairness, and the reentrant lock.
  \<^item> \<open>XDK_Bytes\<close>: layout of C structures and little-endian access; \<open>XDK_NVMe_Structs\<close>: the command structures.
  \<^item> \<open>XDK_NVMe_Registers\<close>, \<open>XDK_NVMe_Queue\<close>, \<open>XDK_NVMe_Batch\<close>, \<open>XDK_NVMe_Admin\<close>, \<open>XDK_NVMe_IO\<close>: registers and
    doorbells, the submission and completion rings, the batch manager, admin commands, and the I/O queue with its
    completion thread. The rings are first-in first-out queues across wrap-around, commands have the encoding of
    the NVMe specification, and batches of requests never share a command identifier until it is reused too early.
  \<^item> \<open>XDK_NVMe_Device\<close>: \<^verbatim>\<open>nvme_device.cc\<close>, \<^verbatim>\<open>nvme_device.h\<close> and \<^verbatim>\<open>config.h\<close>; from the configuration file to a started device
    with up to 32 queues when the controller gets ready within the readings the driver makes, the exception when it does
    not, the write behind the array of queues when there are more, where the model stops, and the dispatch of requests.
  \<^item> \<open>XDK_Cpu_Mask\<close> (\<^verbatim>\<open>lib/libexo/exo/irq_affinity.h\<close>), \<open>XDK_Shm_Table\<close> (\<^verbatim>\<open>shm_table.h\<close>) and \<open>XDK_Rand\<close> (\<^verbatim>\<open>rand.cc\<close>): the
    text of interrupt masks, the shared table as a list of rows, and the random numbers of the MT19937-64 recurrence.
  \<^item> \<open>XDK_Dma_Slab\<close>: \<^verbatim>\<open>Slab_allocator\<close> of \<^verbatim>\<open>lib/libexo/exo/memory.h\<close> and \<^verbatim>\<open>memory.cc\<close>, blocks of memory that the device
    can access, each with its virtual and physical address.
  \<^item> \<open>XDK_AHCI\<close>: \<^verbatim>\<open>drivers/ahci\<close> (\<^verbatim>\<open>ahci_port.cc\<close>, \<^verbatim>\<open>ahci_device.cc\<close> and the headers) as actions on a port, on physical
    memory and on a controller that is an argument; \<open>XDK_AHCI_Transfer\<close>: the commands a controller fetches are the
    requests, and sequences of transfers copy sectors, while the controller posts frames into its received FIS area;
    \<open>XDK_AHCI_Init\<close>: the state initialisation leaves is the one
    the transfers need.
  \<^item> \<open>XDK_Actions\<close>: actions on a state that may stop or not return, which the AHCI and e1000 drivers are written with, and
    rules for what actions keep (\<open>ensures\<close>) and for the faults they cannot have (\<open>guards\<close>).
  \<^item> \<open>XDK_E1000\<close>: \<^verbatim>\<open>drivers/e1000\<close> (\<^verbatim>\<open>e1000_card.cc\<close>, \<^verbatim>\<open>main.cc\<close> and the headers), with the card as an argument that takes the
    steps of \<open>nic_step\<close> between the accesses of the driver. From discovery to the last interrupt, accesses to descriptors, packet buffers and
    registers are in bounds as long as the card reports no more than the 2048 bytes of a buffer; received frames reach the channel in order, and packets go out in order until the ring has been gone through once.
  \<^item> \<open>XDK_X540_Send\<close>: the transmit queue of \<^verbatim>\<open>drivers/x540-nic/x540/x540_device.cc\<close>, its set-up, \<^verbatim>\<open>send\<close> and the recycling of
    descriptors, between calls of which the card takes the steps of \<open>tx_hw\<close>. Packets go out once and in order across
    wrap-around of the ring, and the buffers of most packets are never freed. \<open>XDK_X540_Receive\<close>: the receive queue and the
    interrupt handler of the same file, where the card takes the steps of \<open>rx_step\<close> before every access of the handler. The
    frames the card stores reach the network stack, each once and in order. \<open>XDK_X540_Multi\<close>: \<^verbatim>\<open>multi_send\<close> and \<^verbatim>\<open>xmit_cleanup\<close> for
    packets of several segments; frames go out whole and in order, and buffers are freed once and not too early.
  \<^item> \<open>XDK_Ext2_Cache\<close> and \<open>XDK_Ext2\<close>: the block session and cache, and the file system. The cache is transparent, files
    read through it have the content of their blocks, inodes are read from their place, directories are searched.

  The last section here composes the file system with its cache and the disk session.

  \<^bold>\<open>Bounds.\<close> The theorems name their limits: fewer than \<open>2 ^ 29\<close> slots for the non-blocking buffer, fewer than
  \<open>2 ^ 32\<close> items for the multi-consumer buffer, at most 65535 threads for the ticket lock, partitions below 4 GB,
  at most 8192 sectors for a transfer of the AHCI driver, as many requests as descriptors for the e1000 driver, bursts of
  at most 64 packets for the X540 driver.
  Each is the point where the code's own arithmetic wraps.

  \<^bold>\<open>Not modelled.\<close> Access to the kernel through \<^verbatim>\<open>sysfs\<close>, \<^verbatim>\<open>/proc\<close>, \<^verbatim>\<open>mmap\<close> and \<^verbatim>\<open>ioctl\<close> (device discovery, page
  tables, NUMA, PCI, threads and interrupts), the kernel modules, the X540 driver but for one
  transmit and one receive queue (sequences of register accesses whose meaning is in the device, filters, and packet generators), the IPC services with generated stubs, the
  command line tools, the examples and the tests. In modelled files, statistics, debug output and destructors that
  only release memory are left out.
\<close>

section \<open>Files over the block cache\<close>

text \<open>
  C4. Reading a file through all layers. A file is opened over the new block cache, the cache over the shared
  memory session of the disk driver. Reads of any lengths, one after another, return the bytes of the file's
  blocks on the disk in order, and the position ends behind the last byte read. The lists of block addresses have
  no holes, the range tree finds the region of a position, and every block is on the disk with 4 MB behind it.
\<close>

theorem file_read_through_cache:
  assumes "proxy_serves proxy S disk n" "4194304 \<le> S" "S < 2 ^ 32" "n < 2 ^ 64" "length buf = S"
    "pages_ok alloc_pages MAX_SILOS" "\<forall>t. clock t \<noteq> 0" "search_ok search"
    "collective_ok (superblock.block_size s) ls" "blocks_within (request_limit S n) s (file_blocks ls)"
    "\<forall>len\<in>set lens. len > 0" "sum_list (map unat lens) \<le> length (file_blocks ls) * unat (superblock.block_size s)"
  shows "\<exists>datas f. file_reads search (clocked_read (block_read proxy) alloc_pages clock) lens (open_file s ls (Block_cache buf memory0, 0)) =
      Some (Inr (datas, f)) \<and>
    concat datas = take (sum_list (map unat lens)) (file_bytes disk s ls) \<and> map length datas = map unat lens \<and>
    unat (file_pos f) = sum_list (map unat lens)"
proof -
  have dev: "serves (block_read proxy) (\<lambda>b. length b = S) disk (buffer_limit S n)"
    using block_read_serves assms(1,3) .
  have "cache_ok alloc_pages disk n (\<lambda>b. length b = S) (Block_cache buf memory0)"
    by (rule Block_cache_ok) (use assms(5,6) in simp_all)
  then have f: "file_ok (\<lambda>st. cache_ok alloc_pages disk n (\<lambda>b. length b = S) (fst st)) s ls (open_file s ls (Block_cache buf memory0, 0))"
    "file_pos (open_file s ls (Block_cache buf memory0, 0 :: nat)) = 0"
    by (simp_all add: file_ok_def open_file_def)
  have "serves (clocked_read (block_read proxy) alloc_pages clock)
    (\<lambda>st. cache_ok alloc_pages disk n (\<lambda>b. length b = S) (fst st)) disk (request_limit S n)"
    using clocked_read_serves [OF dev assms(2,4), of clock alloc_pages] assms(7) by blast
  from file_reads_ok [OF this assms(8,9,10) f(1) assms(11)] show ?thesis
    using assms(12) f(2) by auto
qed

theorem file_read_through_cache_witness:
  "\<exists>datas f. file_reads linear_search (clocked_read (block_read (ideal_proxy example_disk)) Some (\<lambda>_. 1)) [1000, 24]
      (open_file example_mounted [[5, 0]] (Block_cache (replicate 8388608 0) (\<lambda>_. []), 0)) = Some (Inr (datas, f)) \<and>
    map length datas = [1000, 24] \<and> file_pos f = 1024"
proof -
  have bs: "superblock.block_size example_mounted = 1024" "block_to_abs_offset example_mounted 5 = 5632"
    by (simp_all add: example_mounted_def block_to_abs_offset_def)
  have blocks: "file_blocks [[5, 0]] = [5]"
    by (simp add: file_blocks_def)
  have "collective_ok (superblock.block_size example_mounted) [[5, 0]]"
    by (simp add: collective_ok_def bs blocks compact_def)
  moreover have "request_limit 8388608 8388608 (5632 + i) k" if "i + k \<le> 1024" for i k :: nat
  proof -
    have "(5632 + i) mod 512 \<le> 5632 + i" "(5632 + i) mod 512 < 512"
      by simp_all
    then show ?thesis
      using that unfolding request_limit_def silo_limit_def by auto
  qed
  then have "blocks_within (request_limit 8388608 8388608) example_mounted (file_blocks [[5, 0]])"
    by (simp add: blocks_within_def bs blocks)
  ultimately obtain datas f where
    "file_reads linear_search (clocked_read (block_read (ideal_proxy example_disk)) Some (\<lambda>_. 1)) [1000, 24]
      (open_file example_mounted [[5, 0]] (Block_cache (replicate 8388608 0) (\<lambda>_. []), 0)) = Some (Inr (datas, f))"
    "map length datas = map unat [1000, 24 :: u32]" "unat (file_pos f) = sum_list (map unat [1000, 24 :: u32])"
    using file_read_through_cache [OF ideal_proxy_serves, of 8388608 8388608 "replicate 8388608 0" Some "\<lambda>_. 1" linear_search
        example_mounted "[[5, 0]]" "[1000, 24]" example_disk "\<lambda>_. []"] ideal_pages linear_search_ok
    by (auto simp: bs blocks simp del: file_reads.simps)
  moreover from this have "file_pos f = 1024"
    by (simp add: word_unat_eq_iff)
  ultimately show ?thesis
    by auto
qed

end
